(* ===== verification/Prelude.thy ===== *)
theory Prelude
  imports Main "HOL-Library.Word" "HOL-Library.Monad_Syntax"
begin

unbundle bit_operations_syntax

section \<open>Types and shared lemmas of the development\<close>

text \<open>
  The C objects of the program are byte buffers.  A buffer together with its length is one
  list of bytes; a pointer into a buffer is a position, and a 0-terminated string is the list
  of its bytes before the terminator.  A load or a store outside its object is undefined
  behaviour in C: where the code itself does not guard it, the model returns \<open>None\<close>.

  The theory also holds the generic facts on list slices, words and bits that the component
  theories share, and the rule collections the component proofs use.
\<close>

type_synonym byte = "8 word"
type_synonym bytes = "byte list"
type_synonym u16 = "16 word"
type_synonym u32 = "32 word"
type_synonym u64 = "64 word"

named_theorems c_simps \<open>meaning of the byte primitives on in-range arguments\<close>
named_theorems wf_intros \<open>introduction rules of the component invariants\<close>

subsection \<open>Checked loads and stores\<close>

text \<open>\<open>ld x i\<close> is the C expression \<open>x[i]\<close>; \<open>st y i v\<close> is \<open>y[i] = v\<close>.\<close>

definition ld :: "'a list \<Rightarrow> nat \<Rightarrow> 'a option" where
  "ld x i = (if i < length x then Some (x ! i) else None)"

definition st :: "'a list \<Rightarrow> nat \<Rightarrow> 'a \<Rightarrow> 'a list option" where
  "st y i v = (if i < length y then Some (y[i := v]) else None)"

text \<open>The first byte of the rest of a 0-terminated string: the terminator at its end.\<close>

definition hd0 :: "bytes \<Rightarrow> byte" where
  "hd0 s = (case s of [] \<Rightarrow> 0 | c # _ \<Rightarrow> c)"

lemma ld_Some [simp]: "i < length x \<Longrightarrow> ld x i = Some (x ! i)"
  by (simp add: ld_def)

lemma ld_None [simp]: "\<not> i < length x \<Longrightarrow> ld x i = None"
  by (simp add: ld_def)

lemma st_Some [simp]: "i < length y \<Longrightarrow> st y i v = Some (y[i := v])"
  by (simp add: st_def)

lemma hd0_simps [simp]: "hd0 [] = 0" "hd0 (c # s) = c"
  by (simp_all add: hd0_def)

lemma hd0_append: "hd0 (s @ t) = (if s = [] then hd0 t else hd0 s)"
  by (cases s) simp_all

subsection \<open>Slices of a buffer\<close>

text \<open>
  \<open>mem_read x p n\<close> is the \<open>n\<close> bytes at position \<open>p\<close>, \<open>mem_write x p b\<close> the buffer
  after the bytes \<open>b\<close> were stored at position \<open>p\<close>.
\<close>

definition mem_read :: "'a list \<Rightarrow> nat \<Rightarrow> nat \<Rightarrow> 'a list" where
  "mem_read x p n = take n (drop p x)"

definition mem_write :: "'a list \<Rightarrow> nat \<Rightarrow> 'a list \<Rightarrow> 'a list" where
  "mem_write x p b = take p x @ b @ drop (p + length b) x"

lemma length_mem_read [simp]: "p + n \<le> length x \<Longrightarrow> length (mem_read x p n) = n"
  by (simp add: mem_read_def)

lemma length_mem_write [simp]: "p + length b \<le> length x \<Longrightarrow> length (mem_write x p b) = length x"
  by (simp add: mem_write_def)

lemma nth_mem_read [simp]: "p + n \<le> length x \<Longrightarrow> i < n \<Longrightarrow> mem_read x p n ! i = x ! (p + i)"
  by (simp add: mem_read_def)

lemma nth_mem_write:
  assumes "p + length b \<le> length x" "i < length x"
  shows "mem_write x p b ! i = (if p \<le> i \<and> i < p + length b then b ! (i - p) else x ! i)"
  using assms by (auto simp: mem_write_def nth_append)

lemma mem_read_write_same [simp]:
  "p + length b \<le> length x \<Longrightarrow> n = length b \<Longrightarrow> mem_read (mem_write x p b) p n = b"
  by (simp add: mem_read_def mem_write_def)

lemma mem_read_write_disjoint:
  assumes "p + length b \<le> length x" "q + n \<le> length x" "q + n \<le> p \<or> p + length b \<le> q"
  shows "mem_read (mem_write x p b) q n = mem_read x q n"
  using assms by (intro nth_equalityI) (auto simp: nth_mem_write)

lemma mem_read_write_inside:
  assumes "p + length b \<le> length x" "p \<le> q" "q + n \<le> p + length b"
  shows "mem_read (mem_write x p b) q n = mem_read b (q - p) n"
  using assms by (intro nth_equalityI) (auto simp: nth_mem_write)

lemma mem_read_append_left [simp]: "p + n \<le> length x \<Longrightarrow> mem_read (x @ y) p n = mem_read x p n"
  by (simp add: mem_read_def)

lemma mem_read_all [simp]: "mem_read x 0 (length x) = x"
  by (simp add: mem_read_def)

lemma mem_read_split:
  "p + n + m \<le> length x \<Longrightarrow> mem_read x p (n + m) = mem_read x p n @ mem_read x (p + n) m"
  by (simp add: mem_read_def take_add) (simp add: add.commute)

lemma mem_write_append:
  "p + length a + length b \<le> length x \<Longrightarrow> mem_write (mem_write x p a) (p + length a) b = mem_write x p (a @ b)"
  by (simp add: mem_write_def) (simp add: ac_simps)

lemma mem_write_update:
  assumes "p + length a \<le> length x" "i < length a"
  shows "mem_write (mem_write x p a) (p + i) [v] = mem_write x p (a[i := v])"
  using assms by (intro nth_equalityI) (auto simp: nth_mem_write nth_list_update)

lemma mem_write_Nil [simp]: "mem_write x p [] = x"
  by (simp add: mem_write_def)

subsection \<open>Words and bits\<close>

lemma unat_byte_less [simp]: "unat (b :: byte) < 256"
proof -
  have "unat b < 2 ^ LENGTH(8)" by (rule unsigned_less)
  then show ?thesis by simp
qed

lemma unat_byte_eq_0: "unat (b :: byte) = 0 \<longleftrightarrow> b = 0"
  by (simp add: unat_eq_0)

lemma word_eqI_nat: "unat (a :: 'a::len word) = unat b \<Longrightarrow> a = b"
  by (simp add: word_unat_eq_iff)

lemma uint_less_exp: "uint (w :: 'a::len word) < 2 ^ LENGTH('a)"
  by (rule unsigned_less)

lemma sint_eq_if:
  "sint (w :: 'a::len word) = (if uint w < 2 ^ (LENGTH('a) - 1) then uint w else uint w - 2 ^ LENGTH('a))"
proof -
  let ?h = "2 ^ (LENGTH('a) - 1) :: int"
  have len: "Suc (LENGTH('a) - 1) = LENGTH('a)" using len_gt_0 [where 'a = 'a] by simp
  have dbl: "2 ^ LENGTH('a) = 2 * ?h" by (metis len power_Suc)
  have s: "sint w = (uint w + ?h) mod 2 ^ LENGTH('a) - ?h"
    by (simp add: sint_uint signed_take_bit_eq_take_bit_shift take_bit_eq_mod len dbl)
  have u: "0 \<le> uint w" "uint w < 2 * ?h"
    using uint_less_exp [of w] by (simp_all add: dbl)
  show ?thesis
  proof (cases "uint w < ?h")
    case True
    with u show ?thesis by (simp add: s dbl)
  next
    case False
    have "(uint w + ?h) mod (2 * ?h) = (uint w - ?h + 2 * ?h) mod (2 * ?h)"
      by (simp add: add.commute)
    also have "\<dots> = uint w - ?h" using False u by (simp only: mod_add_self2) simp
    finally show ?thesis using False by (simp add: s dbl)
  qed
qed

lemma sint_word_of_int_small:
  "- (2 ^ (LENGTH('a) - 1)) \<le> k \<Longrightarrow> k < 2 ^ (LENGTH('a) - 1) \<Longrightarrow> sint (word_of_int k :: 'a::len word) = k"
  by (simp add: signed_take_bit_int_eq_self_iff signed_of_int)

lemma word_xor_eq_0_iff [simp]: "(a :: 'a::len word) XOR b = 0 \<longleftrightarrow> a = b"
  by (auto simp: bit_eq_iff bit_xor_iff)

lemma nat_xor_self [simp]: "(a :: nat) XOR a = 0"
  by (rule bit_eqI) (simp add: bit_xor_iff)

lemma nat_xor_cancel [simp]: "(a :: nat) XOR (a XOR b) = b" "(b XOR a) XOR a = b"
  by (rule bit_eqI, auto simp: bit_xor_iff)+

lemma nat_xor_less:
  assumes "(a :: nat) < 2 ^ n" "b < 2 ^ n"
  shows "a XOR b < 2 ^ n"
proof -
  from assms have "take_bit n a = a" "take_bit n b = b"
    by (simp_all add: take_bit_nat_eq_self)
  then have "take_bit n (a XOR b) = a XOR b"
    by simp
  with take_bit_nat_less_exp [of n "a XOR b"] show ?thesis
    by simp
qed

lemma nat_or_push_bit: "(v :: nat) < 2 ^ k \<Longrightarrow> v OR push_bit k x = v + 2 ^ k * x"
proof -
  assume v: "v < 2 ^ k"
  then have "\<not> bit v n" if "k \<le> n" for n
    using that by (metis bit_take_bit_iff not_le take_bit_nat_eq_self)
  then have "v OR push_bit k x = v + push_bit k x"
    by (intro disjunctive_add [symmetric]) (auto simp: bit_push_bit_iff)
  then show ?thesis by (simp add: push_bit_eq_mult mult.commute)
qed

lemma nat_and_le: "(x :: nat) AND y \<le> y"
proof -
  have "int (x AND y) = int x AND int y" by (simp add: of_nat_and_eq)
  also have "\<dots> \<le> int y" by (rule AND_upper2) simp
  finally show ?thesis by simp
qed

text \<open>Shifts and masks of a word as division and remainder of its value.\<close>

lemma unat_drop_bit_div: "unat (drop_bit n (x :: 'a::len word)) = unat x div 2 ^ n"
proof -
  have "unat (drop_bit n x) = drop_bit n (unat x)" by (rule unat_drop_bit_eq)
  then show ?thesis by (simp only: drop_bit_eq_div)
qed

lemma unat_take_bit_mod: "unat (take_bit n (x :: 'a::len word)) = unat x mod 2 ^ n"
proof -
  have "unat (take_bit n x) = take_bit n (unat x)" by (rule unsigned_take_bit_eq)
  then show ?thesis by (simp only: take_bit_eq_mod)
qed

lemma unat_and_mask_mod: "unat ((x :: 'a::len word) AND mask n) = unat x mod 2 ^ n"
proof -
  have "x AND mask n = take_bit n x" by (rule take_bit_eq_mask [symmetric])
  then show ?thesis by (simp only: unat_take_bit_mod)
qed

lemma unat_add_less: "unat (x :: 'a::len word) + unat y < 2 ^ LENGTH('a) \<Longrightarrow> unat (x + y) = unat x + unat y"
  by (rule unat_add_lem [THEN iffD1])

lemma unat_mult_less: "unat (x :: 'a::len word) * unat y < 2 ^ LENGTH('a) \<Longrightarrow> unat (x * y) = unat x * unat y"
  by (rule unat_mult_lem [THEN iffD1])

lemma nat_and_31: "(v :: nat) AND 31 = v mod 32"
  using take_bit_eq_mask [of 5 v] by (simp add: take_bit_eq_mod mask_eq_exp_minus_1)

subsection \<open>Little-endian numerals\<close>

text \<open>The value of a list of digits to the base \<open>B\<close>, least significant digit first.\<close>

primrec le_val :: "nat \<Rightarrow> nat list \<Rightarrow> nat" where
  "le_val B [] = 0"
| "le_val B (d # ds) = d + B * le_val B ds"

lemma le_val_append: "le_val B (xs @ ys) = le_val B xs + B ^ length xs * le_val B ys"
  by (induction xs) (simp_all add: algebra_simps)

lemma le_val_update:
  "k < length xs \<Longrightarrow> le_val B (xs[k := x]) + B ^ k * xs ! k = le_val B xs + B ^ k * x"
proof (induction xs arbitrary: k)
  case (Cons d ds)
  show ?case
  proof (cases k)
    case (Suc j)
    have "B * (le_val B (ds[j := x]) + B ^ j * ds ! j) = B * (le_val B ds + B ^ j * x)"
      using Cons.IH [of j] Cons.prems Suc by simp
    then show ?thesis using Suc by (simp add: algebra_simps)
  qed (simp add: algebra_simps)
qed simp

lemma le_val_zero [simp]: "le_val B (replicate n 0) = 0"
  by (induction n) simp_all

lemma le_val_map_add: "le_val B (map (\<lambda>i. f i + g i) xs) = le_val B (map f xs) + le_val B (map g xs)"
  by (induction xs) (simp_all add: algebra_simps)

lemma le_val_map_mult: "le_val B (map (\<lambda>i. c * f i) xs) = c * le_val B (map f xs)"
  by (induction xs) (simp_all add: algebra_simps)

lemma le_val_less: "\<forall>d \<in> set ds. d < B \<Longrightarrow> le_val B ds < B ^ length ds"
proof (induction ds)
  case (Cons d ds)
  then have "d < B" "le_val B ds + 1 \<le> B ^ length ds" by auto
  then have "d + B * le_val B ds < B + B * le_val B ds" by simp
  also have "\<dots> = B * (le_val B ds + 1)" by simp
  also have "\<dots> \<le> B * B ^ length ds" using \<open>le_val B ds + 1 \<le> B ^ length ds\<close> by (rule mult_le_mono2)
  finally show ?case by simp
qed simp

lemma le_val_inj:
  "length xs = length ys \<Longrightarrow> \<forall>d \<in> set xs. d < B \<Longrightarrow> \<forall>d \<in> set ys. d < B \<Longrightarrow>
   le_val B xs = le_val B ys \<Longrightarrow> xs = ys"
proof (induction xs ys rule: list_induct2)
  case (Cons x xs y ys)
  then have B: "x < B" "y < B" by auto
  have "x = (x + B * le_val B xs) mod B" using B by simp
  also have "\<dots> = y" using Cons.prems B by simp
  finally have "x = y" .
  moreover from this Cons.prems B have "le_val B xs = le_val B ys" by auto
  ultimately show ?case using Cons by auto
qed simp

lemma le_val_bytes_inj:
  assumes "length xs = length ys" "le_val 256 (map unat xs) = le_val 256 (map unat ys)"
  shows "xs = (ys :: bytes)"
proof (rule map_injective)
  show "map unat xs = map unat ys"
    using assms by (intro le_val_inj [of _ _ 256]) auto
  show "inj (unat :: byte \<Rightarrow> nat)"
    by (rule injI) (rule word_eqI_nat)
qed

subsection \<open>The contract of a text or wire format\<close>

text \<open>
  A printer and a parser agree on the values \<open>ok\<close>: parsing what was printed gives the value
  back.  The clients of a format only use this law and its consequences.
\<close>

locale codec =
  fixes enc :: "'a \<Rightarrow> 'b" and dec :: "'b \<Rightarrow> 'a option" and ok :: "'a \<Rightarrow> bool"
  assumes dec_enc: "ok x \<Longrightarrow> dec (enc x) = Some x"
begin

lemma enc_inj:
  assumes "ok x" "ok y" "enc x = enc y"
  shows "x = y"
proof -
  have "Some x = dec (enc y)"
    using dec_enc [OF assms(1)] unfolding assms(3) by (rule sym)
  also have "\<dots> = Some y" by (rule dec_enc [OF assms(2)])
  finally show ?thesis by simp
qed

lemma dec_unique: "ok x \<Longrightarrow> dec (enc x) = Some y \<Longrightarrow> y = x"
  by (simp add: dec_enc)

end

subsection \<open>The contract of an output buffer\<close>

text \<open>
  A routine that appends bytes to an output (\<open>stralloc_catb\<close>, \<open>response_addbytes\<close>): with
  room for them it returns 1, keeps the invariant and appends exactly these bytes.
  \<open>emit_all\<close> is a chain of such calls with the usual early return.
\<close>

primrec emit_all :: "('r \<Rightarrow> 'b list \<Rightarrow> (bool \<times> 'r) option) \<Rightarrow> 'r \<Rightarrow> 'b list list \<Rightarrow> (bool \<times> 'r) option" where
  "emit_all put r [] = Some (True, r)"
| "emit_all put r (x # xs) = do { (ok, r1) \<leftarrow> put r x; if \<not> ok then Some (False, r1) else emit_all put r1 xs }"

locale byte_sink =
  fixes wf :: "'r \<Rightarrow> bool" and str :: "'r \<Rightarrow> 'b list" and room :: "'r \<Rightarrow> nat \<Rightarrow> bool"
    and put :: "'r \<Rightarrow> 'b list \<Rightarrow> (bool \<times> 'r) option"
  assumes put_ok: "wf r \<Longrightarrow> room r (length x + n) \<Longrightarrow>
    \<exists>r'. put r x = Some (True, r') \<and> wf r' \<and> room r' n \<and> str r' = str r @ x"
begin

lemma emit_all_ok:
  "wf r \<Longrightarrow> room r (length (concat xs) + n) \<Longrightarrow>
   \<exists>r'. emit_all put r xs = Some (True, r') \<and> wf r' \<and> room r' n \<and> str r' = str r @ concat xs"
proof (induction xs arbitrary: r)
  case (Cons x xs)
  then have "room r (length x + (length (concat xs) + n))" by (simp add: add.assoc)
  from put_ok [OF Cons.prems(1) this] obtain r1 where
    r1: "put r x = Some (True, r1)" "wf r1" "room r1 (length (concat xs) + n)" "str r1 = str r @ x"
    by blast
  from Cons.IH [OF r1(2,3)] r1 show ?case by auto
qed auto

end

end
