(* ===== verification/ByteOps.thy ===== *)
theory ByteOps
  imports Prelude
begin

section \<open>Byte, case and string primitives of dq\<close>

text \<open>
  The models of \<open>dq/byte.c\<close>, \<open>dq/case.c\<close>, \<open>dq/str.c\<close> and of the fixed-width packing
  functions (\<open>dq/uint16_*_big.c\<close>, \<open>crypto/uint32_*.c\<close>, \<open>crypto/uint64_*.c\<close>).  The loops
  are kept as loops over an index; a load or store outside the object is \<open>None\<close>.  The lemmas
  give each routine its meaning on in-range arguments, in terms of list operations; the other
  components use these meanings.
\<close>

subsection \<open>byte.c\<close>

text \<open>\<open>byte_copy(y, ylen, x)\<close>: the loop over \<open>i\<close>, then the call.\<close>

function byte_copy_loop :: "nat \<Rightarrow> bytes \<Rightarrow> nat \<Rightarrow> bytes \<Rightarrow> bytes option" where
  "byte_copy_loop i y ylen x =
     (if i < ylen
      then do { v \<leftarrow> ld x i; y' \<leftarrow> st y i v; byte_copy_loop (Suc i) y' ylen x }
      else Some y)"
  by pat_completeness auto
termination
  by (relation "measure (\<lambda>(i, y, ylen, x). ylen - i)") auto

declare byte_copy_loop.simps [simp del]

definition byte_copy :: "bytes \<Rightarrow> nat \<Rightarrow> bytes \<Rightarrow> bytes option" where
  "byte_copy y ylen x = byte_copy_loop 0 y ylen x"

text \<open>\<open>byte_copyr(y, ylen, x)\<close> runs from the last byte down; \<open>k\<close> is \<open>i + 1\<close>.\<close>

primrec byte_copyr :: "bytes \<Rightarrow> nat \<Rightarrow> bytes \<Rightarrow> bytes option" where
  "byte_copyr y 0 x = Some y"
| "byte_copyr y (Suc i) x = do { v \<leftarrow> ld x i; y' \<leftarrow> st y i v; byte_copyr y' i x }"

function byte_zero_loop :: "nat \<Rightarrow> bytes \<Rightarrow> nat \<Rightarrow> bytes option" where
  "byte_zero_loop i y ylen =
     (if i < ylen then do { y' \<leftarrow> st y i 0; byte_zero_loop (Suc i) y' ylen } else Some y)"
  by pat_completeness auto
termination
  by (relation "measure (\<lambda>(i, y, ylen). ylen - i)") auto

declare byte_zero_loop.simps [simp del]

definition byte_zero :: "bytes \<Rightarrow> nat \<Rightarrow> bytes option" where
  "byte_zero y ylen = byte_zero_loop 0 y ylen"

text \<open>\<open>byte_chr\<close>: the first index below \<open>ylen\<close> that holds \<open>c\<close>, else \<open>ylen\<close>.\<close>

function byte_chr_loop :: "nat \<Rightarrow> bytes \<Rightarrow> nat \<Rightarrow> byte \<Rightarrow> nat option" where
  "byte_chr_loop i y ylen c =
     (if i < ylen
      then do { v \<leftarrow> ld y i; if v = c then Some i else byte_chr_loop (Suc i) y ylen c }
      else Some i)"
  by pat_completeness auto
termination
  by (relation "measure (\<lambda>(i, y, ylen, c). ylen - i)") auto

declare byte_chr_loop.simps [simp del]

definition byte_chr :: "bytes \<Rightarrow> int \<Rightarrow> byte \<Rightarrow> int option" where
  "byte_chr y ylen c =
     (if ylen \<le> 0 then Some ylen else map_option int (byte_chr_loop 0 y (nat ylen) c))"

text \<open>\<open>byte_rchr\<close>: the loop returns \<open>u\<close>, which stays \<open>-1\<close> when the byte is absent.\<close>

primrec byte_rchr_loop :: "bytes \<Rightarrow> nat \<Rightarrow> byte \<Rightarrow> int option" where
  "byte_rchr_loop y 0 c = Some (-1)"
| "byte_rchr_loop y (Suc i) c =
     do { v \<leftarrow> ld y i; if v = c then Some (int i) else byte_rchr_loop y i c }"

definition byte_rchr :: "bytes \<Rightarrow> int \<Rightarrow> byte \<Rightarrow> int option" where
  "byte_rchr y ylen c =
     (if ylen \<le> 0 then Some ylen
      else do { u \<leftarrow> byte_rchr_loop y (nat ylen) c; Some (if u = -1 then ylen else u) })"

text \<open>
  \<open>byte_isequal\<close> collects the differing bits of all bytes (no early exit) and turns the
  accumulator into 1 or 0 by \<open>(256 - diff) >> 8\<close>.
\<close>

function byte_isequal_loop :: "nat \<Rightarrow> bytes \<Rightarrow> nat \<Rightarrow> bytes \<Rightarrow> byte \<Rightarrow> byte option" where
  "byte_isequal_loop i y ylen x diff =
     (if i < ylen
      then do { a \<leftarrow> ld x i; b \<leftarrow> ld y i; byte_isequal_loop (Suc i) y ylen x (diff OR (a XOR b)) }
      else Some diff)"
  by pat_completeness auto
termination
  by (relation "measure (\<lambda>(i, y, ylen, x, d). ylen - i)") auto

declare byte_isequal_loop.simps [simp del]

definition byte_isequal :: "bytes \<Rightarrow> nat \<Rightarrow> bytes \<Rightarrow> nat option" where
  "byte_isequal y ylen x =
     do { d \<leftarrow> byte_isequal_loop 0 y ylen x 0; Some (drop_bit 8 (256 - unat d)) }"

text \<open>\<open>byte_diff\<close>: the difference of the first pair of bytes that differ, else 0.\<close>

function byte_diff_loop :: "nat \<Rightarrow> bytes \<Rightarrow> nat \<Rightarrow> bytes \<Rightarrow> int option" where
  "byte_diff_loop i y ylen x =
     (if i < ylen
      then do { a \<leftarrow> ld x i; b \<leftarrow> ld y i;
                if a = b then byte_diff_loop (Suc i) y ylen x else Some (uint b - uint a) }
      else Some 0)"
  by pat_completeness auto
termination
  by (relation "measure (\<lambda>(i, y, ylen, x). ylen - i)") auto

declare byte_diff_loop.simps [simp del]

definition byte_diff :: "bytes \<Rightarrow> nat \<Rightarrow> bytes \<Rightarrow> int option" where
  "byte_diff y ylen x = byte_diff_loop 0 y ylen x"

subsection \<open>case.c\<close>

text \<open>
  One character of \<open>case_diffb\<close> and \<open>case_diffs\<close>: \<open>a = *x - 'A'\<close> on an unsigned char, then
  \<open>a += 'a'\<close> when it was an upper-case letter and \<open>a += 'A'\<close> otherwise, both modulo 256.
\<close>

definition case_fold :: "byte \<Rightarrow> byte" where
  "case_fold c = (let a = c - 65 in if a \<le> 25 then a + 97 else a + 65)"

fun case_diffb :: "bytes \<Rightarrow> nat \<Rightarrow> bytes \<Rightarrow> int option" where
  "case_diffb y 0 x = Some 0"
| "case_diffb (b # y) (Suc n) (a # x) =
     (if case_fold a \<noteq> case_fold b then Some (uint (case_fold b) - uint (case_fold a))
      else case_diffb y n x)"
| "case_diffb y (Suc n) x = None"

text \<open>\<open>case_diffs\<close> on 0-terminated strings; the terminator takes part in the comparison.\<close>

function case_diffs :: "bytes \<Rightarrow> bytes \<Rightarrow> int" where
  "case_diffs y x =
     (let a = case_fold (hd0 x); b = case_fold (hd0 y) in
      if a \<noteq> b \<or> a = 0 then uint b - uint a else case_diffs (tl y) (tl x))"
  by pat_completeness auto
termination
proof (relation "measure (\<lambda>(y, x). length x)")
  have "case_fold 0 = 0" by (simp add: case_fold_def)
  then show "((tl y, tl x), y, x) \<in> measure (\<lambda>(y, x). length x)"
    if "a = case_fold (hd0 x)" "b = case_fold (hd0 y)" "\<not> (a \<noteq> b \<or> a = 0)" for y x a b
    using that by (cases x) auto
qed simp

declare case_diffs.simps [simp del]

definition case_equals :: "bytes \<Rightarrow> bytes \<Rightarrow> bool" where
  "case_equals s t \<longleftrightarrow> case_diffs s t = 0"

text \<open>\<open>case_lowerb(x, len)\<close> lowers the first \<open>len\<close> bytes in place.\<close>

fun case_lowerb :: "bytes \<Rightarrow> nat \<Rightarrow> bytes option" where
  "case_lowerb x 0 = Some x"
| "case_lowerb (c # x) (Suc n) =
     do { x' \<leftarrow> case_lowerb x n; Some ((let y = c - 65 in if y \<le> 25 then y + 97 else c) # x') }"
| "case_lowerb [] (Suc n) = None"

subsection \<open>str.c\<close>

text \<open>
  The argument is the object the pointer points into, terminator included; running off its
  end is \<open>None\<close>.
\<close>

fun str_len :: "bytes \<Rightarrow> nat option" where
  "str_len [] = None"
| "str_len (c # s) = (if c = 0 then Some 0 else map_option Suc (str_len s))"

fun str_chr :: "bytes \<Rightarrow> byte \<Rightarrow> nat option" where
  "str_chr [] ch = None"
| "str_chr (c # s) ch = (if c = 0 \<or> c = ch then Some 0 else map_option Suc (str_chr s ch))"

text \<open>\<open>str_rchr\<close> keeps the last match \<open>u\<close> (initially -1) while \<open>i\<close> counts up.\<close>

fun str_rchr_loop :: "nat \<Rightarrow> int \<Rightarrow> bytes \<Rightarrow> byte \<Rightarrow> int option" where
  "str_rchr_loop i u [] ch = None"
| "str_rchr_loop i u (c # s) ch =
     (if c = 0 then Some (if u \<noteq> -1 then u else int i)
      else str_rchr_loop (Suc i) (if c = ch then int i else u) s ch)"

definition str_rchr :: "bytes \<Rightarrow> byte \<Rightarrow> int option" where
  "str_rchr s ch = str_rchr_loop 0 (-1) s ch"

fun str_diff :: "bytes \<Rightarrow> bytes \<Rightarrow> int option" where
  "str_diff (x # s) (y # t) =
     (if x \<noteq> y then Some (uint x - uint y) else if x = 0 then Some 0 else str_diff s t)"
| "str_diff s t = None"

fun str_start :: "bytes \<Rightarrow> bytes \<Rightarrow> bool option" where
  "str_start s [] = None"
| "str_start s (x # t) =
     (if x = 0 then Some True
      else case s of [] \<Rightarrow> None | y # s' \<Rightarrow> if x \<noteq> y then Some False else str_start s' t)"

subsection \<open>Packing of integers\<close>

text \<open>
  The little-endian loop \<open>y[i] = x; x >>= 8\<close> and its inverse \<open>y = (y << 8) | x[i]\<close> for
  \<open>i\<close> from the top down; the big-endian functions run the same loops the other way round.
\<close>

primrec pack_le :: "nat \<Rightarrow> 'a::len word \<Rightarrow> bytes" where
  "pack_le 0 x = []"
| "pack_le (Suc n) x = ucast x # pack_le n (drop_bit 8 x)"

primrec unpack_le :: "bytes \<Rightarrow> 'a::len word" where
  "unpack_le [] = 0"
| "unpack_le (b # bs) = push_bit 8 (unpack_le bs) OR ucast b"

definition uint32_pack :: "u32 \<Rightarrow> bytes" where
  "uint32_pack x = pack_le 4 x"

definition uint32_unpack :: "bytes \<Rightarrow> u32" where
  "uint32_unpack x = unpack_le (take 4 x)"

definition uint64_pack :: "u64 \<Rightarrow> bytes" where
  "uint64_pack x = pack_le 8 x"

definition uint64_unpack :: "bytes \<Rightarrow> u64" where
  "uint64_unpack x = unpack_le (take 8 x)"

definition uint32_pack_big :: "u32 \<Rightarrow> bytes" where
  "uint32_pack_big x = rev (pack_le 4 x)"

definition uint32_unpack_big :: "bytes \<Rightarrow> u32" where
  "uint32_unpack_big x = unpack_le (rev (take 4 x))"

definition uint64_pack_big :: "u64 \<Rightarrow> bytes" where
  "uint64_pack_big x = rev (pack_le 8 x)"

definition uint64_unpack_big :: "bytes \<Rightarrow> u64" where
  "uint64_unpack_big x = unpack_le (rev (take 8 x))"

definition uint16_pack_big :: "u16 \<Rightarrow> bytes" where
  "uint16_pack_big x = [ucast (drop_bit 8 x AND 255), ucast (x AND 255)]"

definition uint16_unpack_big :: "bytes \<Rightarrow> u16" where
  "uint16_unpack_big x = push_bit 8 (ucast (x ! 0)) OR ucast (x ! 1)"

section \<open>What the primitives compute\<close>

subsection \<open>Copying and clearing\<close>

lemma byte_copy_loop_eq:
  "i \<le> n \<Longrightarrow> n \<le> length y \<Longrightarrow> n \<le> length x \<Longrightarrow>
   byte_copy_loop i y n x = Some (take i y @ drop i (take n x) @ drop n y)"
proof (induction i y n x rule: byte_copy_loop.induct)
  case (1 i y n x)
  show ?case
  proof (cases "i < n")
    case True
    have drp: "drop i (take n x) = x ! i # drop (Suc i) (take n x)"
      using True "1.prems" by (simp add: Cons_nth_drop_Suc [symmetric])
    have "take (Suc i) (y[i := x ! i]) = take i y @ [x ! i]"
      using True "1.prems" by (simp add: take_Suc_conv_app_nth)
    moreover have "drop n (y[i := x ! i]) = drop n y"
      using True by simp
    ultimately show ?thesis
      using True 1 drp by (subst byte_copy_loop.simps) simp
  next
    case False
    with "1.prems" show ?thesis by (subst byte_copy_loop.simps) simp
  qed
qed

lemma byte_copy_eq [c_simps]:
  "n \<le> length y \<Longrightarrow> n \<le> length x \<Longrightarrow> byte_copy y n x = Some (mem_write y 0 (take n x))"
  by (simp add: byte_copy_def byte_copy_loop_eq mem_write_def)

lemma byte_copyr_eq [c_simps]:
  "n \<le> length y \<Longrightarrow> n \<le> length x \<Longrightarrow> byte_copyr y n x = Some (mem_write y 0 (take n x))"
proof (induction n arbitrary: y)
  case 0
  then show ?case by simp
next
  case (Suc n)
  then have "byte_copyr y (Suc n) x = Some (mem_write (y[n := x ! n]) 0 (take n x))"
    by simp
  also have "mem_write (y[n := x ! n]) 0 (take n x) = mem_write y 0 (take (Suc n) x)"
    using Suc.prems by (intro nth_equalityI) (auto simp: nth_mem_write nth_list_update less_Suc_eq)
  finally show ?case .
qed

lemma byte_zero_loop_eq:
  "i \<le> n \<Longrightarrow> n \<le> length y \<Longrightarrow>
   byte_zero_loop i y n = Some (take i y @ replicate (n - i) 0 @ drop n y)"
proof (induction i y n rule: byte_zero_loop.induct)
  case (1 i y n)
  show ?case
  proof (cases "i < n")
    case True
    have "take (Suc i) (y[i := 0]) = take i y @ [0]"
      using True "1.prems" by (simp add: take_Suc_conv_app_nth)
    moreover have "replicate (n - i) (0::byte) = 0 # replicate (n - Suc i) 0"
      using True by (metis Suc_diff_Suc replicate_Suc)
    ultimately show ?thesis
      using True 1 by (subst byte_zero_loop.simps) simp
  next
    case False
    with "1.prems" show ?thesis by (subst byte_zero_loop.simps) simp
  qed
qed

lemma byte_zero_eq [c_simps]:
  "n \<le> length y \<Longrightarrow> byte_zero y n = Some (mem_write y 0 (replicate n 0))"
  by (simp add: byte_zero_def byte_zero_loop_eq mem_write_def)

subsection \<open>Comparison and search\<close>

lemma byte_isequal_loop_eq:
  "n \<le> length y \<Longrightarrow> n \<le> length x \<Longrightarrow>
   \<exists>d. byte_isequal_loop i y n x diff = Some d \<and>
       (d = 0 \<longleftrightarrow> diff = 0 \<and> drop i (take n x) = drop i (take n y))"
proof (induction i y n x diff rule: byte_isequal_loop.induct)
  case (1 i y n x diff)
  show ?case
  proof (cases "i < n")
    case True
    then have "drop i (take n x) = x ! i # drop (Suc i) (take n x)"
      and "drop i (take n y) = y ! i # drop (Suc i) (take n y)"
      using "1.prems" by (simp_all add: Cons_nth_drop_Suc [symmetric])
    moreover have "diff OR (x ! i XOR y ! i) = 0 \<longleftrightarrow> diff = 0 \<and> x ! i = y ! i"
      by (simp add: or_eq_0_iff)
    ultimately show ?thesis
      using 1 True by (subst byte_isequal_loop.simps) (simp, blast)
  next
    case False
    with "1.prems" show ?thesis by (subst byte_isequal_loop.simps) simp
  qed
qed

lemma drop_bit_256_minus: "drop_bit 8 (256 - unat (d :: byte)) = (if d = 0 then 1 else (0::nat))"
proof (cases "d = 0")
  case False
  then have "256 - unat d < 2 ^ 8"
    using unat_byte_eq_0 [of d] by simp
  with False show ?thesis by (simp add: drop_bit_eq_div)
qed simp

lemma byte_isequal_eq [c_simps]:
  assumes "n \<le> length y" "n \<le> length x"
  shows "byte_isequal y n x = Some (if take n y = take n x then 1 else 0)"
proof -
  obtain d where d: "byte_isequal_loop 0 y n x 0 = Some d"
    and z: "d = 0 \<longleftrightarrow> take n x = take n y"
    using byte_isequal_loop_eq [OF assms, of 0 0] by auto
  show ?thesis
    by (auto simp: byte_isequal_def d drop_bit_256_minus z [symmetric] simp del: drop_bit_nat_def)
      (metis z)+
qed

lemma byte_diff_loop_zero:
  "n \<le> length y \<Longrightarrow> n \<le> length x \<Longrightarrow>
   \<exists>d. byte_diff_loop i y n x = Some d \<and> (d = 0 \<longleftrightarrow> drop i (take n y) = drop i (take n x))"
proof (induction i y n x rule: byte_diff_loop.induct)
  case (1 i y n x)
  show ?case
  proof (cases "i < n")
    case True
    then have "drop i (take n x) = x ! i # drop (Suc i) (take n x)"
      and "drop i (take n y) = y ! i # drop (Suc i) (take n y)"
      using "1.prems" by (simp_all add: Cons_nth_drop_Suc [symmetric])
    then show ?thesis
      using 1 True by (subst byte_diff_loop.simps) (auto simp: word_uint_eq_iff)
  next
    case False
    with "1.prems" show ?thesis by (subst byte_diff_loop.simps) simp
  qed
qed

lemma byte_diff_zero_iff:
  assumes "n \<le> length y" "n \<le> length x"
  shows "byte_diff y n x = Some 0 \<longleftrightarrow> take n y = take n x"
  using byte_diff_loop_zero [OF assms, of 0] by (auto simp: byte_diff_def)

lemma byte_chr_loop_eq:
  "i \<le> n \<Longrightarrow> n \<le> length y \<Longrightarrow>
   byte_chr_loop i y n c = Some (i + length (takeWhile (\<lambda>b. b \<noteq> c) (drop i (take n y))))"
proof (induction i y n c rule: byte_chr_loop.induct)
  case (1 i y n c)
  show ?case
  proof (cases "i < n")
    case True
    then have "drop i (take n y) = y ! i # drop (Suc i) (take n y)"
      using "1.prems" by (simp add: Cons_nth_drop_Suc [symmetric])
    then show ?thesis
      using 1 True by (subst byte_chr_loop.simps) simp
  next
    case False
    with "1.prems" show ?thesis by (subst byte_chr_loop.simps) simp
  qed
qed

lemma byte_chr_eq [c_simps]:
  "n \<le> length y \<Longrightarrow>
   byte_chr y (int n) c = Some (int (length (takeWhile (\<lambda>b. b \<noteq> c) (take n y))))"
  by (simp add: byte_chr_def byte_chr_loop_eq)

lemma byte_rchr_loop_eq:
  "n \<le> length y \<Longrightarrow>
   byte_rchr_loop y n c =
     Some (int n - 1 - int (length (takeWhile (\<lambda>b. b \<noteq> c) (rev (take n y)))))"
  by (induction n) (auto simp: take_Suc_conv_app_nth)

lemma byte_rchr_eq [c_simps]:
  assumes "n \<le> length y"
  shows "byte_rchr y (int n) c =
    Some (if c \<in> set (take n y)
          then int n - 1 - int (length (takeWhile (\<lambda>b. b \<noteq> c) (rev (take n y)))) else int n)"
proof -
  have "length (takeWhile (\<lambda>b. b \<noteq> c) (rev (take n y))) = n \<longleftrightarrow> c \<notin> set (take n y)"
  proof -
    have "takeWhile (\<lambda>b. b \<noteq> c) (rev (take n y)) = rev (take n y) \<longleftrightarrow> c \<notin> set (take n y)"
      by (auto simp: takeWhile_eq_all_conv)
    moreover have "length (takeWhile P xs) = length xs \<longleftrightarrow> takeWhile P xs = xs" for P and xs :: bytes
      by (metis takeWhile_eq_take take_all_iff order_refl)
    ultimately show ?thesis
      using assms by (metis length_rev length_take min.absorb2)
  qed
  then show ?thesis
    using assms by (auto simp: byte_rchr_def byte_rchr_loop_eq)
qed

subsection \<open>Case folding\<close>

lemma upper_minus: "(c :: byte) - 65 \<le> 25 \<longleftrightarrow> 65 \<le> c \<and> c \<le> 90"
proof -
  have "c - 65 = c + 191" by simp
  then have "unat (c - 65) = (unat c + 191) mod 256"
    by (simp only: unat_word_ariths) simp
  also have "\<dots> = (if unat c < 65 then unat c + 191 else unat c - 65)"
    by (simp add: mod_if [of "unat c + 191"] less_imp_diff_less)
  finally show ?thesis by (auto simp: word_le_nat_alt)
qed

lemma upper_plus: "65 \<le> c \<Longrightarrow> c \<le> 90 \<Longrightarrow> unat ((c :: byte) + 32) = unat c + 32"
  by (simp add: unat_word_ariths word_le_nat_alt)

lemma case_fold_lower: "case_fold c = (if 65 \<le> c \<and> c \<le> 90 then c + 32 else c)"
  by (simp add: case_fold_def Let_def upper_minus)

lemma case_fold_0 [simp]: "case_fold 0 = 0"
  by (simp add: case_fold_def)

lemma case_fold_idem [simp]: "case_fold (case_fold c) = case_fold c"
  using upper_plus [of c] by (auto simp: case_fold_lower word_le_nat_alt)

lemma case_fold_small: "c < 65 \<Longrightarrow> case_fold c = c"
  by (auto simp: case_fold_lower)

lemma case_fold_lt_65: "case_fold c < 65 \<Longrightarrow> case_fold c = c"
  using upper_plus [of c] by (auto simp: case_fold_lower word_le_nat_alt word_less_nat_alt split: if_splits)

lemma case_fold_0_iff [simp]: "case_fold c = 0 \<longleftrightarrow> c = 0"
  using upper_plus [of c] case_fold_lt_65 [of c] by auto

lemma case_diffb_zero_iff:
  "n \<le> length y \<Longrightarrow> n \<le> length x \<Longrightarrow>
   case_diffb y n x = Some 0 \<longleftrightarrow> map case_fold (take n y) = map case_fold (take n x)"
  by (induction y n x rule: case_diffb.induct) (auto simp: word_uint_eq_iff)

lemma case_diffb_defined:
  "n \<le> length y \<Longrightarrow> n \<le> length x \<Longrightarrow> \<exists>d. case_diffb y n x = Some d"
  by (induction y n x rule: case_diffb.induct) auto

lemma case_diffs_zero_iff:
  "0 \<notin> set y \<Longrightarrow> 0 \<notin> set x \<Longrightarrow> case_diffs y x = 0 \<longleftrightarrow> map case_fold y = map case_fold x"
proof (induction y x rule: case_diffs.induct)
  case (1 y x)
  show ?case
  proof (cases "case_fold (hd0 x) = case_fold (hd0 y) \<and> hd0 x \<noteq> 0")
    case True
    then obtain a x' where x: "x = a # x'" by (cases x) auto
    moreover from True x obtain b y' where y: "y = b # y'" by (cases y) auto
    ultimately show ?thesis
      using 1 True by (subst case_diffs.simps) (auto simp: Let_def)
  next
    case False
    then show ?thesis
      using 1(2,3)
      by (subst case_diffs.simps)
        (cases x; cases y; auto simp: Let_def uint_0_iff word_uint_eq_iff [of "case_fold _" "case_fold _"])
  qed
qed

lemma case_lowerb_eq [c_simps]:
  "n \<le> length x \<Longrightarrow> case_lowerb x n = Some (map case_fold (take n x) @ drop n x)"
proof (induction x n rule: case_lowerb.induct)
  case (2 c x n)
  have "(let y = c - 65 in if y \<le> 25 then y + 97 else c) = case_fold c"
    by (simp add: case_fold_def Let_def)
  with 2 show ?case by simp
qed simp_all

subsection \<open>Strings\<close>

lemma str_len_eq [c_simps]: "0 \<notin> set s \<Longrightarrow> str_len (s @ 0 # r) = Some (length s)"
  by (induction s) auto

lemma str_chr_eq [c_simps]:
  "0 \<notin> set s \<Longrightarrow> str_chr (s @ 0 # r) ch = Some (length (takeWhile (\<lambda>b. b \<noteq> ch) s))"
  by (induction s) auto

lemma str_diff_zero_iff:
  "0 \<notin> set s \<Longrightarrow> 0 \<notin> set t \<Longrightarrow> str_diff (s @ 0 # r) (t @ 0 # q) = Some 0 \<longleftrightarrow> s = t"
proof (induction s arbitrary: t)
  case Nil
  then show ?case by (cases t) (auto simp: uint_0_iff)
next
  case (Cons a s)
  then show ?case by (cases t) (auto simp: word_uint_eq_iff)
qed

lemma str_start_iff:
  "0 \<notin> set s \<Longrightarrow> 0 \<notin> set t \<Longrightarrow> str_start (s @ 0 # r) (t @ 0 # q) = Some (take (length t) s = t)"
proof (induction t arbitrary: s)
  case Nil
  then show ?case by simp
next
  case (Cons a t)
  then show ?case by (cases s) auto
qed

subsection \<open>Round trips of the packing functions\<close>

lemma length_pack_le [simp]: "length (pack_le n x) = n"
  by (induction n arbitrary: x) simp_all

lemma unpack_pack_le: "unpack_le (pack_le n x) = (take_bit (8 * n) x :: 'a::len word)"
proof (induction n arbitrary: x)
  case 0
  then show ?case by simp
next
  case (Suc n)
  show ?case
    by (rule bit_word_eqI) (auto simp: Suc bit_simps bit_ucast_iff not_le)
qed

lemma bit_unpack_le_high:
  "8 * length bs \<le> k \<Longrightarrow> \<not> bit (unpack_le bs :: 'a::len word) k"
  by (induction bs arbitrary: k) (auto simp: bit_simps bit_ucast_iff dest: bit_imp_le_length)

lemma pack_unpack_le:
  "8 * length bs \<le> LENGTH('a) \<Longrightarrow> pack_le (length bs) (unpack_le bs :: 'a::len word) = bs"
proof (induction bs)
  case Nil
  then show ?case by simp
next
  case (Cons b bs)
  have low: "(ucast (push_bit 8 (unpack_le bs :: 'a word) OR ucast b) :: byte) = b"
    using Cons.prems by (intro bit_word_eqI) (auto simp: bit_simps bit_ucast_iff)
  have "drop_bit 8 (push_bit 8 (unpack_le bs :: 'a word) OR ucast b) = (unpack_le bs :: 'a word)"
  proof (rule bit_word_eqI)
    fix n
    have "bit (unpack_le bs :: 'a word) n \<Longrightarrow> n + 8 < LENGTH('a)"
      using Cons.prems bit_unpack_le_high [of bs n, where 'a = 'a] by (cases "n < 8 * length bs") auto
    then show "bit (drop_bit 8 (push_bit 8 (unpack_le bs :: 'a word) OR ucast b)) n =
        bit (unpack_le bs :: 'a word) n"
      by (auto simp: bit_simps bit_ucast_iff add.commute dest: bit_imp_le_length)
  qed
  with Cons low show ?case by simp
qed

lemma uint32_unpack_pack [simp]: "uint32_unpack (uint32_pack x) = x"
  by (simp add: uint32_unpack_def uint32_pack_def unpack_pack_le take_bit_word_eq_self)

lemma uint64_unpack_pack [simp]: "uint64_unpack (uint64_pack x) = x"
  by (simp add: uint64_unpack_def uint64_pack_def unpack_pack_le take_bit_word_eq_self)

lemma uint32_unpack_pack_big [simp]: "uint32_unpack_big (uint32_pack_big x) = x"
  by (simp add: uint32_unpack_big_def uint32_pack_big_def unpack_pack_le take_bit_word_eq_self)

lemma uint64_unpack_pack_big [simp]: "uint64_unpack_big (uint64_pack_big x) = x"
  by (simp add: uint64_unpack_big_def uint64_pack_big_def unpack_pack_le take_bit_word_eq_self)

lemma uint16_unpack_pack_big [simp]: "uint16_unpack_big (uint16_pack_big x) = x"
proof -
  have "y AND 255 = take_bit 8 y" for y :: u16
    by (simp add: take_bit_eq_mask mask_eq_exp_minus_1)
  then show ?thesis
    unfolding uint16_unpack_big_def uint16_pack_big_def
    by (intro bit_word_eqI) (auto simp: bit_simps bit_ucast_iff not_less)
qed

lemma uint32_pack_unpack: "length b = 4 \<Longrightarrow> uint32_pack (uint32_unpack b) = b"
  using pack_unpack_le [of b, where 'a = 32] by (simp add: uint32_pack_def uint32_unpack_def)

lemma uint64_pack_unpack: "length b = 8 \<Longrightarrow> uint64_pack (uint64_unpack b) = b"
  using pack_unpack_le [of b, where 'a = 64] by (simp add: uint64_pack_def uint64_unpack_def)

lemma length_packs [simp]:
  "length (uint32_pack x) = 4" "length (uint64_pack y) = 8" "length (uint16_pack_big z) = 2"
  "length (uint32_pack_big x) = 4" "length (uint64_pack_big y) = 8"
  by (simp_all add: uint32_pack_def uint64_pack_def uint16_pack_big_def
      uint32_pack_big_def uint64_pack_big_def)

end
