(* ===== verification/Siphash.thy ===== *)
theory Siphash
  imports ByteOps
begin

section \<open>SipHash\<close>

text \<open>
  The repository has two implementations of SipHash: \<open>crypto/siphash.c\<close> of dq, with the
  numbers of rounds as parameters, and \<open>siphash.c\<close> of tinydns.  Both are modelled as they are
  written and shown to compute the same function.  \<open>crypto_auth_siphash24.c\<close> and the
  constant-time comparison of \<open>verify.c\<close> follow.
\<close>

type_synonym sip_state = "u64 \<times> u64 \<times> u64 \<times> u64"

definition rotl64 :: "u64 \<Rightarrow> nat \<Rightarrow> u64" where
  "rotl64 x b = push_bit b x OR drop_bit (64 - b) x"

subsection \<open>dq\<close>

definition sip_ROUND :: "sip_state \<Rightarrow> sip_state" where
  "sip_ROUND s = (case s of (v0, v1, v2, v3) \<Rightarrow>
     let v0 = v0 + v1; v2 = v2 + v3;
         v1 = rotl64 v1 13; v3 = rotl64 v3 16;
         v1 = v1 XOR v0; v3 = v3 XOR v2;
         v0 = rotl64 v0 32;
         v2 = v2 + v1; v0 = v0 + v3;
         v1 = rotl64 v1 17; v3 = rotl64 v3 21;
         v1 = v1 XOR v2; v3 = v3 XOR v0;
         v2 = rotl64 v2 32
     in (v0, v1, v2, v3))"

primrec sip_rounds :: "nat \<Rightarrow> sip_state \<Rightarrow> sip_state" where
  "sip_rounds 0 s = s"
| "sip_rounds (Suc n) s = sip_rounds n (sip_ROUND s)"

definition sip_absorb :: "nat \<Rightarrow> u64 \<Rightarrow> sip_state \<Rightarrow> sip_state" where
  "sip_absorb rounds mi s = (case s of (v0, v1, v2, v3) \<Rightarrow>
     case sip_rounds rounds (v0, v1, v2, v3 XOR mi) of (v0, v1, v2, v3) \<Rightarrow> (v0 XOR mi, v1, v2, v3))"

text \<open>The loop over the 8-byte blocks; it leaves the last, incomplete block.\<close>

function sip_blocks :: "nat \<Rightarrow> bytes \<Rightarrow> sip_state \<Rightarrow> bytes \<times> sip_state" where
  "sip_blocks rounds inp s =
     (if length inp \<ge> 8 then sip_blocks rounds (drop 8 inp) (sip_absorb rounds (uint64_unpack inp) s)
      else (inp, s))"
  by pat_completeness auto
termination
  by (relation "measure (\<lambda>(rounds, inp, s). length inp)") auto

declare sip_blocks.simps [simp del]

definition siphash :: "bytes \<Rightarrow> bytes \<Rightarrow> nat \<Rightarrow> nat \<Rightarrow> bytes" where
  "siphash inp k rounds finalrounds =
     (let v0 = uint64_unpack k; v2 = v0;
          v1 = uint64_unpack (drop 8 k); v3 = v1;
          (rest, s) = sip_blocks rounds inp
            (v0 XOR 0x736f6d6570736575, v1 XOR 0x646f72616e646f6d,
             v2 XOR 0x6c7967656e657261, v3 XOR 0x7465646279746573);
          block = rest @ replicate (7 - length rest) 0 @ [of_nat (length inp)];
          (v0, v1, v2, v3) = sip_absorb rounds (uint64_unpack block) s;
          (v0, v1, v2, v3) = sip_rounds finalrounds (v0, v1, v2 XOR 0xff, v3)
      in uint64_pack ((v0 XOR v1) XOR (v2 XOR v3)))"

definition crypto_auth_siphash24 :: "bytes \<Rightarrow> bytes \<Rightarrow> bytes" where
  "crypto_auth_siphash24 inp k = siphash inp k 2 4"

text \<open>\<open>verify.c\<close>: 0 when the \<open>n\<close> bytes agree, else -1, without an early exit.\<close>

primrec verify_loop :: "nat \<Rightarrow> bytes \<Rightarrow> bytes \<Rightarrow> u32 \<Rightarrow> u32" where
  "verify_loop 0 x y d = d"
| "verify_loop (Suc n) x y d = verify_loop n (tl x) (tl y) (d OR ucast (hd x XOR hd y))"

definition verify :: "bytes \<Rightarrow> bytes \<Rightarrow> nat \<Rightarrow> int" where
  "verify x y n = uint (1 AND drop_bit 8 (verify_loop n x y 0 - 1)) - 1"

definition crypto_auth_siphash24_verify :: "bytes \<Rightarrow> bytes \<Rightarrow> bytes \<Rightarrow> int" where
  "crypto_auth_siphash24_verify h m k = verify h (crypto_auth_siphash24 m k) 8"

subsection \<open>tinydns\<close>

definition U8TO64_LE :: "bytes \<Rightarrow> u64" where
  "U8TO64_LE p =
     ucast (p ! 0) OR push_bit 8 (ucast (p ! 1)) OR push_bit 16 (ucast (p ! 2)) OR
     push_bit 24 (ucast (p ! 3)) OR push_bit 32 (ucast (p ! 4)) OR push_bit 40 (ucast (p ! 5)) OR
     push_bit 48 (ucast (p ! 6)) OR push_bit 56 (ucast (p ! 7))"

definition U32TO8_LE :: "u32 \<Rightarrow> bytes" where
  "U32TO8_LE v = [ucast v, ucast (drop_bit 8 v), ucast (drop_bit 16 v), ucast (drop_bit 24 v)]"

definition U64TO8_LE :: "u64 \<Rightarrow> bytes" where
  "U64TO8_LE v = U32TO8_LE (ucast v) @ U32TO8_LE (ucast (drop_bit 32 v))"

definition SIPROUND :: "sip_state \<Rightarrow> sip_state" where
  "SIPROUND s = (case s of (x0, x1, x2, x3) \<Rightarrow>
     let x0 = x0 + x1; x1 = rotl64 x1 13; x1 = x1 XOR x0; x0 = rotl64 x0 32;
         x2 = x2 + x3; x3 = rotl64 x3 16; x3 = x3 XOR x2;
         x0 = x0 + x3; x3 = rotl64 x3 21; x3 = x3 XOR x0;
         x2 = x2 + x1; x1 = rotl64 x1 17; x1 = x1 XOR x2; x2 = rotl64 x2 32
     in (x0, x1, x2, x3))"

definition sip24_absorb :: "u64 \<Rightarrow> sip_state \<Rightarrow> sip_state" where
  "sip24_absorb m s = (case s of (x0, x1, x2, x3) \<Rightarrow>
     case SIPROUND (SIPROUND (x0, x1, x2, x3 XOR m)) of (x0, x1, x2, x3) \<Rightarrow> (x0 XOR m, x1, x2, x3))"

text \<open>\<open>for (; in != end; in += 8)\<close>: \<open>n\<close> full blocks.\<close>

primrec sip24_blocks :: "nat \<Rightarrow> bytes \<Rightarrow> sip_state \<Rightarrow> bytes \<times> sip_state" where
  "sip24_blocks 0 inp s = (inp, s)"
| "sip24_blocks (Suc n) inp s = sip24_blocks n (drop 8 inp) (sip24_absorb (U8TO64_LE inp) s)"

text \<open>The \<open>switch (left)\<close> with its fall-through cases.\<close>

fun sip24_left :: "nat \<Rightarrow> bytes \<Rightarrow> u64 \<Rightarrow> u64" where
  "sip24_left 0 inp b = b"
| "sip24_left (Suc n) inp b = sip24_left n inp (b OR push_bit (8 * n) (ucast (inp ! n)))"

definition siphash24 :: "bytes \<Rightarrow> bytes \<Rightarrow> bytes" where
  "siphash24 inp k =
     (let k0 = U8TO64_LE k; k1 = U8TO64_LE (drop 8 k);
          left = length inp mod 8;
          b = push_bit 56 (of_nat (length inp));
          x3 = 0x7465646279746573 XOR k1;
          x2 = 0x6c7967656e657261 XOR k0;
          x1 = 0x646f72616e646f6d XOR k1;
          x0 = 0x736f6d6570736575 XOR k0;
          (inp', s) = sip24_blocks (length inp div 8) inp (x0, x1, x2, x3);
          b = sip24_left left inp' b;
          (x0, x1, x2, x3) = sip24_absorb b s;
          (x0, x1, x2, x3) = SIPROUND (SIPROUND (SIPROUND (SIPROUND (x0, x1, x2 XOR 0xff, x3))));
          b = x0 XOR x1 XOR x2 XOR x3
      in U64TO8_LE b)"

section \<open>The two implementations agree\<close>

lemma SIPROUND_eq: "SIPROUND s = sip_ROUND s"
  by (simp add: SIPROUND_def sip_ROUND_def Let_def split: prod.splits)

lemma sip24_absorb_eq: "sip24_absorb m s = sip_absorb 2 m s"
  by (simp add: sip24_absorb_def sip_absorb_def SIPROUND_eq numeral_2_eq_2)

lemma list8: "length p \<ge> 8 \<Longrightarrow> take 8 p = [p ! 0, p ! 1, p ! 2, p ! 3, p ! 4, p ! 5, p ! 6, p ! 7]"
  by (rule nth_equalityI) (auto simp: less_Suc_eq numeral_eq_Suc)

lemma U8TO64_LE_eq: "length p \<ge> 8 \<Longrightarrow> U8TO64_LE p = uint64_unpack p"
  by (simp add: U8TO64_LE_def uint64_unpack_def list8 push_bit_or or.assoc [symmetric])
    (simp add: ac_simps)

lemma U64TO8_LE_eq: "U64TO8_LE v = uint64_pack v"
proof -
  have "pack_le 8 v = map (\<lambda>i. ucast (drop_bit (8 * i) v)) [0..<8]"
    by (simp add: numeral_eq_Suc)
  moreover have "ucast (drop_bit n (ucast w :: u32)) = (ucast (drop_bit n w) :: byte)" if "n \<le> 24" for n and w :: u64
    using that by (intro bit_eqI) (auto simp: bit_simps)
  moreover have "ucast (ucast w :: u32) = (ucast w :: byte)" for w :: u64
    by (intro bit_eqI) (auto simp: bit_simps)
  ultimately show ?thesis
    by (simp add: U64TO8_LE_def U32TO8_LE_def uint64_pack_def upt_rec)
qed

lemma sip_blocks_eq:
  "sip24_blocks (length inp div 8) inp s = sip_blocks 2 inp s"
proof (induction inp arbitrary: s rule: length_induct)
  case (1 inp)
  show ?case
  proof (cases "length inp \<ge> 8")
    case True
    then have "length inp div 8 = Suc (length (drop 8 inp) div 8)" by (simp add: le_div_geq)
    moreover have "sip24_blocks (length (drop 8 inp) div 8) (drop 8 inp) s' = sip_blocks 2 (drop 8 inp) s'" for s'
      using "1.IH" [rule_format, of "drop 8 inp" s'] True by simp
    ultimately show ?thesis
      using True by (simp add: sip_blocks.simps [of 2 inp] sip24_absorb_eq U8TO64_LE_eq)
  next
    case False
    then show ?thesis by (simp add: sip_blocks.simps [of 2 inp])
  qed
qed

lemma sip_blocks_rest:
  "sip_blocks rounds inp s = (rest, s') \<Longrightarrow> length rest = length inp mod 8"
proof (induction inp arbitrary: s rule: length_induct)
  case (1 inp)
  show ?case
  proof (cases "length inp \<ge> 8")
    case True
    then have "sip_blocks rounds (drop 8 inp) (sip_absorb rounds (uint64_unpack inp) s) = (rest, s')"
      using "1.prems" by (simp add: sip_blocks.simps [of rounds inp])
    then have "length rest = length (drop 8 inp) mod 8"
      using "1.IH" [rule_format, of "drop 8 inp"] True by simp
    with True show ?thesis by (simp add: le_mod_geq)
  next
    case False
    with "1.prems" show ?thesis by (simp add: sip_blocks.simps [of rounds inp])
  qed
qed

text \<open>The last block: the bytes that are left, zeros, and the low byte of the length.\<close>

lemma push_56_byte: "push_bit 56 (ucast (of_nat n :: byte)) = (push_bit 56 (of_nat n) :: u64)"
  by (rule bit_eqI) (auto simp: bit_simps)

lemma mult_56_byte: "ucast (of_nat n :: byte) * 72057594037927936 = (of_nat n * 72057594037927936 :: u64)"
  using push_56_byte [of n] by (simp add: push_bit_eq_mult)

lemma sip24_left_eq:
  assumes "length rest < 8"
  shows "sip24_left (length rest) rest (push_bit 56 (of_nat n)) =
    uint64_unpack (rest @ replicate (7 - length rest) 0 @ [of_nat n])"
proof -
  have "length rest \<in> set [0..<8]" using assms by simp
  then show ?thesis
    by (auto simp: upt_rec uint64_unpack_def length_Suc_conv numeral_eq_Suc push_bit_or ac_simps mult_56_byte)
qed

lemma siphash_unfold:
  "siphash inp k rounds finalrounds =
     (case sip_blocks rounds inp
        (uint64_unpack k XOR 0x736f6d6570736575, uint64_unpack (drop 8 k) XOR 0x646f72616e646f6d,
         uint64_unpack k XOR 0x6c7967656e657261, uint64_unpack (drop 8 k) XOR 0x7465646279746573) of (rest, s) \<Rightarrow>
      case sip_absorb rounds (uint64_unpack (rest @ replicate (7 - length rest) 0 @ [of_nat (length inp)])) s of
        (v0, v1, v2, v3) \<Rightarrow>
      case sip_rounds finalrounds (v0, v1, v2 XOR 0xff, v3) of (v0, v1, v2, v3) \<Rightarrow>
      uint64_pack ((v0 XOR v1) XOR (v2 XOR v3)))"
  unfolding siphash_def Let_def ..

lemma siphash24_unfold:
  "siphash24 inp k =
     (case sip24_blocks (length inp div 8) inp
        (0x736f6d6570736575 XOR U8TO64_LE k, 0x646f72616e646f6d XOR U8TO64_LE (drop 8 k),
         0x6c7967656e657261 XOR U8TO64_LE k, 0x7465646279746573 XOR U8TO64_LE (drop 8 k)) of (inp', s) \<Rightarrow>
      case sip24_absorb (sip24_left (length inp mod 8) inp' (push_bit 56 (of_nat (length inp)))) s of
        (x0, x1, x2, x3) \<Rightarrow>
      case SIPROUND (SIPROUND (SIPROUND (SIPROUND (x0, x1, x2 XOR 0xff, x3)))) of (x0, x1, x2, x3) \<Rightarrow>
      U64TO8_LE (x0 XOR x1 XOR x2 XOR x3))"
  unfolding siphash24_def Let_def ..

lemma sip_rounds_4: "sip_rounds 4 s = sip_ROUND (sip_ROUND (sip_ROUND (sip_ROUND s)))"
  by (simp add: numeral_eq_Suc)

text \<open>The two SipHash-2-4 implementations of the repository compute the same 8 bytes for every
  input and every 16-byte key.\<close>

theorem siphash_implementations_agree:
  assumes "length k = 16"
  shows "siphash24 inp k = crypto_auth_siphash24 inp k"
proof -
  have k: "U8TO64_LE k = uint64_unpack k" "U8TO64_LE (drop 8 k) = uint64_unpack (drop 8 k)"
    using assms by (simp_all add: U8TO64_LE_eq)
  obtain rest s where B: "sip_blocks 2 inp
        (uint64_unpack k XOR 0x736f6d6570736575, uint64_unpack (drop 8 k) XOR 0x646f72616e646f6d,
         uint64_unpack k XOR 0x6c7967656e657261, uint64_unpack (drop 8 k) XOR 0x7465646279746573) = (rest, s)"
    by (rule prod.exhaust)
  have rest: "length rest = length inp mod 8" using B by (rule sip_blocks_rest)
  have last: "sip24_left (length inp mod 8) rest (push_bit 56 (of_nat (length inp))) =
      uint64_unpack (rest @ replicate (7 - length rest) 0 @ [of_nat (length inp)])"
    unfolding rest [symmetric] by (rule sip24_left_eq) (simp add: rest)
  have init: "(0x736f6d6570736575 XOR uint64_unpack k, 0x646f72616e646f6d XOR uint64_unpack (drop 8 k),
         0x6c7967656e657261 XOR uint64_unpack k, 0x7465646279746573 XOR uint64_unpack (drop 8 k)) =
        (uint64_unpack k XOR 0x736f6d6570736575, uint64_unpack (drop 8 k) XOR 0x646f72616e646f6d,
         uint64_unpack k XOR 0x6c7967656e657261, uint64_unpack (drop 8 k) XOR 0x7465646279746573)"
    by (simp only: xor.commute)
  show ?thesis
    unfolding siphash24_unfold crypto_auth_siphash24_def siphash_unfold k sip_blocks_eq
      init B
      prod.case last sip24_absorb_eq SIPROUND_eq sip_rounds_4 U64TO8_LE_eq
    by (simp add: xor.assoc split: prod.splits)
qed

theorem siphash_implementations_agree_witness:
  "siphash24 [1, 2, 3] (replicate 16 7) = crypto_auth_siphash24 [1, 2, 3] (replicate 16 7)"
  by (rule siphash_implementations_agree) simp

section \<open>The constant-time comparison\<close>

lemma verify_loop_eq:
  "length x = n \<Longrightarrow> length y = n \<Longrightarrow>
   \<exists>e :: byte. verify_loop n x y (ucast (d :: byte)) = ucast e \<and> (e = 0 \<longleftrightarrow> d = 0 \<and> x = y)"
proof (induction n arbitrary: x y d)
  case (Suc n)
  then obtain a x' b y' where xy: "x = a # x'" "y = b # y'" by (auto simp: length_Suc_conv)
  have "ucast d OR ucast (a XOR b) = (ucast (d OR (a XOR b)) :: u32)"
    by (rule bit_eqI) (auto simp: bit_simps)
  then show ?case
    using Suc.IH [of x' y' "d OR (a XOR b)"] Suc.prems xy by (auto simp: or_eq_0_iff)
qed auto

lemma verify_final: "uint (1 AND drop_bit 8 (ucast (e :: byte) - 1 :: u32)) - 1 = (if e = 0 then 0 else -1)"
proof (cases "e = 0")
  case False
  have "unat e < 2 ^ 32" by (rule less_trans [OF unat_byte_less]) simp
  then have "unat (ucast e :: u32) = unat e" by (simp add: unsigned_ucast_eq unsigned_take_bit_eq take_bit_nat_eq_self)
  moreover have "0 < unat e" using False by (simp add: unat_gt_0)
  ultimately have "unat (ucast e - 1 :: u32) < 256"
    by (subst unat_sub) (auto simp: word_le_nat_alt intro: less_imp_diff_less)
  then have "unat (drop_bit 8 (ucast e - 1 :: u32)) = 0"
    by (subst unsigned_drop_bit_eq) (simp add: drop_bit_eq_div take_bit_nat_eq_self)
  then have "drop_bit 8 (ucast e - 1 :: u32) = 0" by (simp only: unat_eq_0)
  with False show ?thesis by simp
next
  case True
  show ?thesis unfolding True by code_simp
qed

lemma verify_eq:
  assumes "length x = n" "length y = n"
  shows "verify x y n = (if x = y then 0 else -1)"
proof -
  obtain e :: byte where "verify_loop n x y (ucast (0 :: byte)) = ucast e" "e = 0 \<longleftrightarrow> x = y"
    using verify_loop_eq [OF assms, of 0] by auto
  then show ?thesis by (simp add: verify_def verify_final del: uint_and)
qed

lemma length_siphash [simp]: "length (siphash inp k r f) = 8"
  by (simp add: siphash_unfold length_packs split: prod.splits)

text \<open>\<open>crypto_auth_siphash24_verify\<close> accepts a tag (returns 0) exactly when it is the SipHash of
  the message, and returns -1 otherwise; the comparison has no data-dependent exit.\<close>

theorem siphash24_verify_spec:
  "length h = 8 \<Longrightarrow> crypto_auth_siphash24_verify h m k = (if h = crypto_auth_siphash24 m k then 0 else -1)"
  by (simp add: crypto_auth_siphash24_verify_def verify_eq crypto_auth_siphash24_def)

theorem siphash24_verify_spec_witness:
  "crypto_auth_siphash24_verify (replicate 8 0) [1] (replicate 16 2) =
     (if replicate 8 0 = crypto_auth_siphash24 [1] (replicate 16 2) then 0 else -1)"
  by (rule siphash24_verify_spec) simp

end
