(* ===== verification/Cache.thy ===== *)
theory Cache
  imports Siphash
begin

section \<open>The answer cache\<close>

text \<open>
  The model of \<open>dq/cache.c\<close>.  The static variables are the fields of \<open>cache\<close>; \<open>cx\<close> is the
  block \<open>x\<close> (\<open>None\<close> the null pointer).  Positions and lengths are \<open>crypto_uint32\<close> in the code;
  the model keeps them as \<open>nat\<close> and writes the wrap-around of their sums as \<open>add32\<close> and
  \<open>sub32\<close>.  The clock \<open>seconds()\<close> is the parameter \<open>now\<close>, the randomness of
  \<open>cache_init\<close> the parameter \<open>rnd\<close>.  An operation gives \<open>None\<close> where the code calls
  \<open>cache_impossible\<close> (which ends the process), where it would access memory outside the
  block, and where the eviction loop would not end.
\<close>

record cache =
  cx :: "bytes option"
  csize :: nat
  hsize :: nat
  writer :: nat
  oldest :: nat
  unused :: nat
  hashkey :: bytes
  cache_motion :: u64
  cache_hit :: u64
  cache_miss :: u64

definition MAXKEYLEN :: nat where "MAXKEYLEN = 1000"
definition MAXDATALEN :: nat where "MAXDATALEN = 1000000"

definition add32 :: "nat \<Rightarrow> nat \<Rightarrow> nat" where
  "add32 a b = (a + b) mod 2 ^ 32"

definition sub32 :: "nat \<Rightarrow> nat \<Rightarrow> nat" where
  "sub32 a b = (a + (2 ^ 32 - b)) mod 2 ^ 32"

subsection \<open>Access to the block\<close>

definition word_at :: "bytes \<Rightarrow> nat \<Rightarrow> nat" where
  "word_at m p = unat (uint32_unpack (mem_read m p 4))"

text \<open>The bytes \<open>[p, p + n)\<close> of the block, checked.\<close>

definition peek :: "cache \<Rightarrow> nat \<Rightarrow> nat \<Rightarrow> bytes option" where
  "peek c p n = do { m \<leftarrow> cx c; if p + n \<le> length m then Some (mem_read m p n) else None }"

definition poke :: "cache \<Rightarrow> nat \<Rightarrow> bytes \<Rightarrow> cache option" where
  "poke c p b =
     do { m \<leftarrow> cx c; if p + length b \<le> length m then Some (c\<lparr>cx := Some (mem_write m p b)\<rparr>) else None }"

definition set4 :: "cache \<Rightarrow> nat \<Rightarrow> nat \<Rightarrow> cache option" where
  "set4 c pos u = (if pos > sub32 (csize c) 4 then None else poke c pos (uint32_pack (of_nat u)))"

definition get4 :: "cache \<Rightarrow> nat \<Rightarrow> nat option" where
  "get4 c pos =
     (if pos > sub32 (csize c) 4 then None
      else do { b \<leftarrow> peek c pos 4; Some (unat (uint32_unpack b)) })"

definition hash :: "cache \<Rightarrow> bytes \<Rightarrow> nat" where
  "hash c key = unat (uint32_unpack (crypto_auth_siphash24 key (hashkey c))) AND sub32 (hsize c) 4"

subsection \<open>Lookup\<close>

text \<open>
  The result of \<open>cache_get\<close>: the data, the remaining lifetime and the flags, or the null
  pointer.
\<close>

type_synonym cache_result = "(bytes \<times> int \<times> byte) option"

text \<open>The hit branch: expiry, data length, the returned slice.\<close>

definition cache_found :: "cache \<Rightarrow> bytes \<Rightarrow> int \<Rightarrow> nat \<Rightarrow> (cache_result \<times> cache) option" where
  "cache_found c key now pos =
     do {
       expirestr \<leftarrow> peek c (pos + 12) 8;
       let flags = expirestr ! 7;
       let xttl = sint (uint64_unpack (expirestr[7 := 0]) - word_of_int now :: u64);
       if xttl \<le> 0 then Some (None, c)
       else do {
         u \<leftarrow> get4 c (add32 pos 8);
         if int u > int (sub32 (sub32 (csize c) pos) 20) - int (length key) then None
         else do {
           d \<leftarrow> peek c (pos + 20 + length key) u;
           Some (Some (d, min xttl 604800, flags), c\<lparr>cache_hit := cache_hit c + 1\<rparr>) } } }"

function cache_get_loop ::
    "cache \<Rightarrow> bytes \<Rightarrow> int \<Rightarrow> nat \<Rightarrow> nat \<Rightarrow> nat \<Rightarrow> (cache_result \<times> cache) option" where
  "cache_get_loop c key now prevpos pos loop =
     (if pos \<noteq> 0
      then do {
        keylen \<leftarrow> get4 c (add32 pos 4);
        same \<leftarrow> (if keylen = length key
                then if add32 pos 20 + length key > csize c then None
                     else do { k \<leftarrow> peek c (pos + 20) (length key);
                               eq \<leftarrow> byte_isequal key (length key) k; Some (eq \<noteq> 0) }
                else Some False);
        if same then cache_found c key now pos
        else do {
          l \<leftarrow> get4 c pos;
          if loop + 1 > 100 then Some (None, c\<lparr>cache_miss := cache_miss c + 1\<rparr>)
          else cache_get_loop c key now pos (prevpos XOR l) (loop + 1) } }
      else Some (None, c\<lparr>cache_miss := cache_miss c + 1\<rparr>))"
  by pat_completeness auto
termination
  by (relation "measure (\<lambda>(c, key, now, prevpos, pos, loop). 101 - loop)") auto

declare cache_get_loop.simps [simp del]

definition cache_get :: "cache \<Rightarrow> bytes \<Rightarrow> int \<Rightarrow> (cache_result \<times> cache) option" where
  "cache_get c key now =
     (if cx c = None then Some (None, c)
      else if length key > MAXKEYLEN then Some (None, c)
      else do { pos \<leftarrow> get4 c (hash c key); cache_get_loop c key now (hash c key) pos 0 })"

subsection \<open>Insertion\<close>

text \<open>
  The body of the eviction loop behind the test of \<open>writer\<close>: the tail entry of its bucket
  is unlinked and \<open>oldest\<close> moves behind it.
\<close>

definition evict :: "cache \<Rightarrow> cache option" where
  "evict c =
     do {
       pos \<leftarrow> get4 c (oldest c);
       l \<leftarrow> get4 c pos;
       c1 \<leftarrow> set4 c pos (l XOR oldest c);
       keylen \<leftarrow> get4 c1 (add32 (oldest c1) 4);
       datalen \<leftarrow> get4 c1 (add32 (oldest c1) 8);
       let o1 = add32 (oldest c1) (add32 (add32 keylen datalen) 20);
       if o1 > unused c1 then None
       else if o1 = unused c1 then Some (c1\<lparr>unused := csize c1, oldest := csize c1\<rparr>)
       else Some (c1\<lparr>oldest := o1\<rparr>) }"

text \<open>The loop; the flag is \<open>False\<close> for the \<open>return\<close> when nothing is left to evict.\<close>

partial_function (option) make_room :: "nat \<Rightarrow> cache \<Rightarrow> (bool \<times> cache) option" where
  "make_room entrylen c =
     (if add32 (writer c) entrylen > oldest c
      then if oldest c = unused c \<and> writer c \<le> hsize c then Some (False, c)
        else do {
          c1 \<leftarrow> evict (if oldest c = unused c
                    then c\<lparr>unused := writer c, oldest := hsize c, writer := hsize c\<rparr> else c);
          make_room entrylen c1 }
      else Some (True, c))"

definition cache_store :: "cache \<Rightarrow> bytes \<Rightarrow> bytes \<Rightarrow> int \<Rightarrow> int \<Rightarrow> byte \<Rightarrow> cache option" where
  "cache_store c key data ttl now flags =
     (let keyhash = hash c key; w = writer c; keylen = length key; datalen = length data in
      do {
        pos \<leftarrow> get4 c keyhash;
        c1 \<leftarrow> (if pos \<noteq> 0 then do { l \<leftarrow> get4 c pos; set4 c pos (l XOR keyhash XOR w) } else Some c);
        c2 \<leftarrow> set4 c1 w (pos XOR keyhash);
        c3 \<leftarrow> set4 c2 (add32 w 4) keylen;
        c4 \<leftarrow> set4 c3 (add32 w 8) datalen;
        c5 \<leftarrow> poke c4 (w + 12) (uint64_pack (word_of_int (now + ttl)));
        c6 \<leftarrow> poke c5 (w + 12 + 7) [flags];
        c7 \<leftarrow> poke c6 (w + 20) key;
        c8 \<leftarrow> poke c7 (w + 20 + keylen) data;
        c9 \<leftarrow> set4 c8 keyhash w;
        let entrylen = keylen + datalen + 20;
        Some (c9\<lparr>writer := add32 w entrylen, cache_motion := cache_motion c9 + of_nat entrylen\<rparr>) })"

definition cache_set :: "cache \<Rightarrow> bytes \<Rightarrow> bytes \<Rightarrow> int \<Rightarrow> int \<Rightarrow> byte \<Rightarrow> cache option" where
  "cache_set c key data ttl now flags =
     (if cx c = None then Some c
      else if length key > MAXKEYLEN then Some c
      else if length data > MAXDATALEN then Some c
      else if ttl \<le> 0 then Some c
      else do {
        (ok, c1) \<leftarrow> make_room (length key + length data + 20) c;
        if \<not> ok then Some c1 else cache_store c1 key data (min ttl 604800) now flags })"

subsection \<open>Initialisation\<close>

function hsize_loop :: "nat \<Rightarrow> nat \<Rightarrow> nat" where
  "hsize_loop lim h = (if 0 < h \<and> h \<le> lim then hsize_loop lim (2 * h) else h)"
  by pat_completeness auto
termination
  by (relation "measure (\<lambda>(lim, h). lim + 1 - h)") auto

declare hsize_loop.simps [simp del]

definition cache_init :: "(nat \<Rightarrow> bool) \<Rightarrow> bytes \<Rightarrow> cache \<Rightarrow> int \<Rightarrow> bool \<times> cache" where
  "cache_init al rnd c cachesize =
     (let size = nat (if cachesize > 3000000000 then 3000000000 else if cachesize < 100 then 100 else cachesize);
          h = hsize_loop (size div 32) 4;
          c1 = c\<lparr>hashkey := rnd, cx := None, csize := size, hsize := h\<rparr>
      in if \<not> al size then (False, c1)
         else (True, c1\<lparr>cx := Some (replicate size 0), writer := h, oldest := size, unused := size\<rparr>))"

section \<open>The entries of a cache\<close>

text \<open>
  The abstract contents of a cache: its entries, oldest first.  \<open>e_exp\<close> is the 8-byte
  expiry field, whose last byte holds the flags.
\<close>

record centry =
  e_pos :: nat
  e_key :: bytes
  e_data :: bytes
  e_exp :: bytes

definition elen :: "centry \<Rightarrow> nat" where
  "elen e = 20 + length (e_key e) + length (e_data e)"

definition ebody :: "centry \<Rightarrow> bytes" where
  "ebody e = uint32_pack (of_nat (length (e_key e))) @ uint32_pack (of_nat (length (e_data e))) @
     e_exp e @ e_key e @ e_data e"

definition entry_ok :: "bytes \<Rightarrow> centry \<Rightarrow> bool" where
  "entry_ok m e \<longleftrightarrow> length (e_key e) \<le> MAXKEYLEN \<and> length (e_data e) \<le> MAXDATALEN \<and> length (e_exp e) = 8 \<and>
     mem_read m (e_pos e + 4) (elen e - 4) = ebody e"

text \<open>Consecutive entries from position \<open>a\<close> up to \<open>b\<close>.\<close>

primrec layout :: "nat \<Rightarrow> centry list \<Rightarrow> nat \<Rightarrow> bool" where
  "layout a [] b \<longleftrightarrow> a = b"
| "layout a (e # es) b \<longleftrightarrow> e_pos e = a \<and> layout (a + elen e) es b"

text \<open>A list of items in which each link is the xor of the positions of its neighbours.\<close>

primrec linked :: "bytes \<Rightarrow> nat \<Rightarrow> nat list \<Rightarrow> bool" where
  "linked m prev [] \<longleftrightarrow> True"
| "linked m prev (p # ps) \<longleftrightarrow> word_at m p = prev XOR (if ps = [] then 0 else hd ps) \<and> linked m p ps"

text \<open>A bucket, newest entry first.\<close>

definition bucket :: "(bytes \<Rightarrow> nat) \<Rightarrow> centry list \<Rightarrow> nat \<Rightarrow> centry list" where
  "bucket hs es h = filter (\<lambda>e. hs (e_key e) = h) (rev es)"

definition head_slot :: "cache \<Rightarrow> nat \<Rightarrow> bool" where
  "head_slot c h \<longleftrightarrow> h < hsize c \<and> 4 dvd h"

definition sizes_ok :: "cache \<Rightarrow> bool" where
  "sizes_ok c \<longleftrightarrow> 100 \<le> csize c \<and> csize c \<le> 3000000000 \<and> (\<exists>k \<ge> 2. hsize c = 2 ^ k) \<and> hsize c < csize c"

text \<open>The invariant that the comment at the head of the file describes.\<close>

definition cache_inv :: "cache \<Rightarrow> centry list \<Rightarrow> bool" where
  "cache_inv c es \<longleftrightarrow> sizes_ok c \<and>
     (\<exists>m. cx c = Some m \<and> length m = csize c \<and> list_all (entry_ok m) es \<and>
        (\<forall>h. head_slot c h \<longrightarrow> linked m 0 (h # map e_pos (bucket (hash c) es h)))) \<and>
     (\<exists>es1 es2. es = es1 @ es2 \<and> layout (oldest c) es1 (unused c) \<and> layout (hsize c) es2 (writer c) \<and>
        writer c \<le> oldest c \<and> unused c \<le> csize c \<and> (es1 = [] \<longrightarrow> unused c = csize c))"

lemma cache_invI [wf_intros]:
  assumes "sizes_ok c" "cx c = Some m" "length m = csize c" "list_all (entry_ok m) es"
    "\<And>h. head_slot c h \<Longrightarrow> linked m 0 (h # map e_pos (bucket (hash c) es h))"
    "es = es1 @ es2" "layout (oldest c) es1 (unused c)" "layout (hsize c) es2 (writer c)"
    "writer c \<le> oldest c" "unused c \<le> csize c" "es1 = [] \<Longrightarrow> unused c = csize c"
  shows "cache_inv c es"
  unfolding cache_inv_def using assms by blast

subsection \<open>Geometry\<close>

definition before :: "centry \<Rightarrow> centry \<Rightarrow> bool" where
  "before e f \<longleftrightarrow> e_pos e + elen e \<le> e_pos f"

lemma elen_ge: "20 \<le> elen e"
  by (simp add: elen_def)

lemma layout_append: "layout a (es @ fs) b \<longleftrightarrow> (\<exists>x. layout a es x \<and> layout x fs b)"
  by (induction es arbitrary: a) auto

lemma layout_bounds:
  "layout a es b \<Longrightarrow> a \<le> b \<and> (\<forall>e \<in> set es. a \<le> e_pos e \<and> e_pos e + elen e \<le> b)"
proof (induction es arbitrary: a)
  case (Cons e es)
  then show ?case using Cons.IH [of "a + elen e"] by fastforce
qed simp

lemma layout_sorted: "layout a es b \<Longrightarrow> sorted_wrt before es"
proof (induction es arbitrary: a)
  case (Cons e es)
  then show ?case using layout_bounds [of "a + elen e" es b] by (auto simp: before_def)
qed simp

lemma layout_Nil_iff: "layout a es b \<Longrightarrow> a = b \<longleftrightarrow> es = []"
proof (cases es)
  case (Cons e es')
  assume "layout a es b"
  with Cons layout_bounds [of "a + elen e" es' b] elen_ge [of e] show ?thesis by auto
qed simp

lemma cache_inv_sorted:
  assumes "cache_inv c es"
  obtains es1 es2 where "es = es1 @ es2" "sorted_wrt before (es2 @ es1)"
    "\<forall>e \<in> set es. hsize c \<le> e_pos e \<and> e_pos e + elen e \<le> csize c"
proof -
  obtain es1 es2 where L: "es = es1 @ es2" "layout (oldest c) es1 (unused c)" "layout (hsize c) es2 (writer c)"
      "writer c \<le> oldest c" "unused c \<le> csize c"
    using assms by (auto simp: cache_inv_def)
  note b1 = layout_bounds [OF L(2)] and b2 = layout_bounds [OF L(3)]
  show thesis
  proof (rule that [OF L(1)])
    show "sorted_wrt before (es2 @ es1)"
      using layout_sorted [OF L(2)] layout_sorted [OF L(3)] b1 b2 L(4)
      by (fastforce simp: sorted_wrt_append before_def)
    show "\<forall>e \<in> set es. hsize c \<le> e_pos e \<and> e_pos e + elen e \<le> csize c"
      using b1 b2 L by fastforce
  qed
qed

lemma sorted_before_cases:
  "sorted_wrt before es \<Longrightarrow> e \<in> set es \<Longrightarrow> f \<in> set es \<Longrightarrow> e = f \<or> before e f \<or> before f e"
  by (induction es) auto

lemma sorted_before_distinct: "sorted_wrt before es \<Longrightarrow> distinct (map e_pos es)"
proof (induction es)
  case (Cons e es)
  have "e_pos e \<notin> e_pos ` set es"
    using Cons.prems elen_ge [of e] by (fastforce simp: before_def)
  then show ?case using Cons by simp
qed simp

definition slot :: "cache \<Rightarrow> centry list \<Rightarrow> nat \<Rightarrow> bool" where
  "slot c es p \<longleftrightarrow> head_slot c p \<or> p \<in> e_pos ` set es"

lemma cache_inv_distinct: "cache_inv c es \<Longrightarrow> distinct (map e_pos es)"
proof -
  assume "cache_inv c es"
  then obtain es1 es2 where "es = es1 @ es2" "sorted_wrt before (es2 @ es1)" by (rule cache_inv_sorted)
  with sorted_before_distinct [of "es2 @ es1"] show ?thesis by auto
qed

lemma cache_inv_before:
  assumes "cache_inv c es" "e \<in> set es" "f \<in> set es"
  shows "e = f \<or> before e f \<or> before f e"
proof -
  obtain es1 es2 where "es = es1 @ es2" "sorted_wrt before (es2 @ es1)"
    using assms(1) by (rule cache_inv_sorted)
  with assms(2,3) show ?thesis by (intro sorted_before_cases [of "es2 @ es1"]) auto
qed

lemma cache_inv_pos:
  assumes "cache_inv c es" "e \<in> set es"
  shows "hsize c \<le> e_pos e" "e_pos e + elen e \<le> csize c"
  using assms by (auto elim!: cache_inv_sorted)

lemma hsize_dvd: "sizes_ok c \<Longrightarrow> 4 dvd hsize c \<and> 4 \<le> hsize c"
proof -
  assume "sizes_ok c"
  then obtain k where k: "2 \<le> k" "hsize c = 2 ^ k" by (auto simp: sizes_ok_def)
  then have "2 ^ 2 dvd hsize c" by (simp only: le_imp_power_dvd)
  then have d: "4 dvd hsize c" by simp
  moreover have "0 < hsize c" using k by simp
  ultimately show ?thesis by (auto intro: dvd_imp_le)
qed

lemma head_slot_end: "sizes_ok c \<Longrightarrow> head_slot c h \<Longrightarrow> h + 4 \<le> hsize c"
  using hsize_dvd [of c] by (auto simp: head_slot_def elim!: dvdE)

lemma slot_fits:
  assumes "cache_inv c es" "slot c es p"
  shows "p + 4 \<le> csize c"
proof -
  have s: "sizes_ok c" using assms by (simp add: cache_inv_def)
  show ?thesis
    using assms(2) unfolding slot_def
  proof
    assume "head_slot c p"
    with s head_slot_end [of c p] show ?thesis by (simp add: sizes_ok_def)
  next
    assume "p \<in> e_pos ` set es"
    with cache_inv_pos [OF assms(1)] show ?thesis by (fastforce simp: elen_def)
  qed
qed

definition apart :: "nat \<Rightarrow> nat \<Rightarrow> bool" where
  "apart p q \<longleftrightarrow> p + 4 \<le> q \<or> q + 4 \<le> p"

lemma slots_apart:
  assumes "cache_inv c es" "slot c es p" "slot c es q" "p \<noteq> q"
  shows "apart p q"
proof -
  have s: "sizes_ok c" using assms by (simp add: cache_inv_def)
  have he: "apart h (e_pos e)" if "head_slot c h" "e \<in> set es" for h e
    using head_slot_end [OF s that(1)] cache_inv_pos [OF assms(1) that(2)] by (simp add: apart_def)
  have hh: "apart h g" if "head_slot c h" "head_slot c g" "h \<noteq> g" for h g
    using that by (auto simp: head_slot_def apart_def elim!: dvdE)
  have ee: "apart (e_pos e) (e_pos f)" if "e \<in> set es" "f \<in> set es" "e_pos e \<noteq> e_pos f" for e f
    using cache_inv_before [OF assms(1) that(1,2)] that(3) by (auto simp: before_def apart_def elen_def)
  have sym: "apart p q \<longleftrightarrow> apart q p" by (auto simp: apart_def)
  show ?thesis using assms(2-4) he hh ee sym unfolding slot_def by blast
qed

lemma slot_body_apart:
  assumes "cache_inv c es" "slot c es p" "e \<in> set es"
  shows "p + 4 \<le> e_pos e + 4 \<or> e_pos e + elen e \<le> p"
proof -
  have s: "sizes_ok c" using assms by (simp add: cache_inv_def)
  show ?thesis
    using assms(2) unfolding slot_def
  proof
    assume "head_slot c p"
    then show ?thesis using head_slot_end [OF s] cache_inv_pos [OF assms(1,3)] by fastforce
  next
    assume "p \<in> e_pos ` set es"
    then obtain f where f: "f \<in> set es" "p = e_pos f" by auto
    then show ?thesis using cache_inv_before [OF assms(1) f(1) assms(3)] by (auto simp: before_def)
  qed
qed

subsection \<open>Reads and writes of the block\<close>

definition put_word :: "bytes \<Rightarrow> nat \<Rightarrow> nat \<Rightarrow> bytes" where
  "put_word m p u = mem_write m p (uint32_pack (of_nat u))"

lemma length_uint32_pack [simp]: "length (uint32_pack u) = 4"
  by (simp add: length_packs)

lemma length_put_word [simp]: "p + 4 \<le> length m \<Longrightarrow> length (put_word m p u) = length m"
  by (simp add: put_word_def)

lemma word_at_put_same [simp]:
  "p + 4 \<le> length m \<Longrightarrow> u < 2 ^ 32 \<Longrightarrow> word_at (put_word m p u) p = u"
  by (simp add: word_at_def put_word_def unat_of_nat)

lemma word_at_put_apart:
  "p + 4 \<le> length m \<Longrightarrow> q + 4 \<le> length m \<Longrightarrow> apart p q \<Longrightarrow> word_at (put_word m p u) q = word_at m q"
  unfolding word_at_def put_word_def apart_def by (subst mem_read_write_disjoint) auto

lemma word_at_less: "word_at m p < 2 ^ 32"
proof -
  have "unat (uint32_unpack (mem_read m p 4)) < 2 ^ LENGTH(32)" by (rule unsigned_less)
  then show ?thesis by (simp add: word_at_def)
qed

lemma entry_ok_put:
  assumes "p + 4 \<le> length m" "e_pos e + elen e \<le> length m" "p + 4 \<le> e_pos e + 4 \<or> e_pos e + elen e \<le> p"
  shows "entry_ok (put_word m p u) e = entry_ok m e"
proof -
  have "mem_read (put_word m p u) (e_pos e + 4) (elen e - 4) = mem_read m (e_pos e + 4) (elen e - 4)"
    unfolding put_word_def using assms elen_ge [of e] by (intro mem_read_write_disjoint) auto
  then show ?thesis by (simp add: entry_ok_def)
qed

lemma sub32_le: "b \<le> a \<Longrightarrow> a < 2 ^ 32 \<Longrightarrow> sub32 a b = a - b"
proof -
  assume a: "b \<le> a" "a < 2 ^ 32"
  then have "a + (2 ^ 32 - b) = (a - b) + 2 ^ 32" by simp
  then have "sub32 a b = (a - b) mod 2 ^ 32" unfolding sub32_def by (simp only: mod_add_self2)
  also have "\<dots> = a - b" using a by simp
  finally show ?thesis .
qed

lemma add32_small: "a + b < 2 ^ 32 \<Longrightarrow> add32 a b = a + b"
  by (simp add: add32_def)

lemma get4_eq:
  assumes "cx c = Some m" "length m = csize c" "sizes_ok c" "p + 4 \<le> csize c"
  shows "get4 c p = Some (word_at m p)"
proof -
  have "sub32 (csize c) 4 = csize c - 4" using assms(3) by (intro sub32_le) (simp_all add: sizes_ok_def)
  then show ?thesis using assms by (auto simp: get4_def peek_def word_at_def)
qed

lemma set4_eq:
  assumes "cx c = Some m" "length m = csize c" "sizes_ok c" "p + 4 \<le> csize c"
  shows "set4 c p u = Some (c\<lparr>cx := Some (put_word m p u)\<rparr>)"
proof -
  have "sub32 (csize c) 4 = csize c - 4" using assms(3) by (intro sub32_le) (simp_all add: sizes_ok_def)
  then show ?thesis using assms by (auto simp: set4_def poke_def put_word_def)
qed

text \<open>The fields of an entry.\<close>

lemma entry_fields:
  assumes "entry_ok m e" "e_pos e + elen e \<le> length m"
  shows "word_at m (e_pos e + 4) = length (e_key e)" "word_at m (e_pos e + 8) = length (e_data e)"
    "mem_read m (e_pos e + 12) 8 = e_exp e" "mem_read m (e_pos e + 20) (length (e_key e)) = e_key e"
    "mem_read m (e_pos e + 20 + length (e_key e)) (length (e_data e)) = e_data e"
proof -
  have E: "mem_read m (e_pos e + 4) (elen e - 4) = ebody e" "length (e_exp e) = 8"
      "length (e_key e) \<le> 1000" "length (e_data e) \<le> 1000000"
    using assms(1) by (simp_all add: entry_ok_def MAXKEYLEN_def MAXDATALEN_def)
  have sub: "mem_read m (e_pos e + j) n = take n (drop (j - 4) (ebody e))" if "4 \<le> j" "j + n \<le> elen e" for j n
  proof -
    define i where "i = j - 4"
    have i: "j = 4 + i" using that(1) by (simp add: i_def)
    have le: "n \<le> elen e - 4 - i" using that(2) i by linarith
    have "take n (drop i (take (elen e - 4) (drop (e_pos e + 4) m))) = take n (drop i (drop (e_pos e + 4) m))"
      by (simp only: drop_take take_take min.absorb1 [OF le])
    moreover have "e_pos e + j = i + (e_pos e + 4)" "j - 4 = i" using i by simp_all
    ultimately show ?thesis unfolding E(1) [symmetric] mem_read_def by (simp only: drop_drop)
  qed
  have "unat (of_nat (length (e_key e)) :: u32) = length (e_key e)" "unat (of_nat (length (e_data e)) :: u32) = length (e_data e)"
    using E(3,4) by (simp_all add: unat_of_nat)
  then show "word_at m (e_pos e + 4) = length (e_key e)" "word_at m (e_pos e + 8) = length (e_data e)"
    using sub [of 4 4] sub [of 8 4] by (simp_all add: word_at_def ebody_def elen_def)
  show "mem_read m (e_pos e + 12) 8 = e_exp e"
    using sub [of 12 8] E(2) by (simp add: ebody_def elen_def)
  show "mem_read m (e_pos e + 20) (length (e_key e)) = e_key e"
    using sub [of 20 "length (e_key e)"] E(2) by (simp add: ebody_def elen_def)
  show "mem_read m (e_pos e + 20 + length (e_key e)) (length (e_data e)) = e_data e"
    using sub [of "20 + length (e_key e)" "length (e_data e)"] E(2) by (simp add: ebody_def elen_def add.assoc)
qed

subsection \<open>Chains\<close>

lemma linked_cong:
  "(\<And>p. p \<in> set ps \<Longrightarrow> word_at m' p = word_at m p) \<Longrightarrow> linked m' prev ps = linked m prev ps"
  by (induction ps arbitrary: prev) auto

lemma linked_last: "linked m a (qs @ [p, t]) \<Longrightarrow> word_at m t = p"
  by (induction qs arbitrary: a) auto

text \<open>Unlinking the tail.\<close>

lemma linked_evict:
  assumes "linked m a (qs @ [p, t])" "\<And>q. q \<in> set qs \<Longrightarrow> word_at m' q = word_at m q"
    "word_at m' p = word_at m p XOR t"
  shows "linked m' a (qs @ [p])"
  using assms
proof (induction qs arbitrary: a)
  case Nil
  then show ?case by simp
next
  case (Cons q qs)
  have "hd (qs @ [p, t]) = hd (qs @ [p])" by (cases qs) simp_all
  then show ?case using Cons by simp
qed

text \<open>Linking a new first entry.\<close>

lemma linked_insert:
  assumes "linked m 0 (h # ps)" "\<And>q. q \<in> set (tl ps) \<Longrightarrow> word_at m' q = word_at m q"
    "ps \<noteq> [] \<Longrightarrow> word_at m' (hd ps) = word_at m (hd ps) XOR h XOR w"
    "word_at m' w = (if ps = [] then 0 else hd ps) XOR h" "word_at m' h = w"
  shows "linked m' 0 (h # w # ps)"
proof (cases ps)
  case Nil
  then show ?thesis using assms by (simp add: xor.commute)
next
  case (Cons p ps')
  let ?n = "if ps' = [] then 0 else hd ps'"
  have "word_at m p = h XOR ?n" "linked m p ps'" using assms(1) Cons by auto
  moreover have "(h XOR ?n) XOR h XOR w = w XOR ?n" by (simp add: xor.assoc xor.commute xor.left_commute)
  moreover have "linked m' p ps' = linked m p ps'" using assms(2) Cons by (intro linked_cong) simp
  ultimately show ?thesis using assms(3-5) Cons by (simp add: xor.commute)
qed

lemma hash_slot: "sizes_ok c \<Longrightarrow> head_slot c (hash c key)"
proof -
  assume s: "sizes_ok c"
  let ?x = "unat (uint32_unpack (crypto_auth_siphash24 key (hashkey c)))"
  have h: "4 dvd hsize c" "4 \<le> hsize c" using hsize_dvd [OF s] by simp_all
  have sub: "sub32 (hsize c) 4 = hsize c - 4" using s h by (intro sub32_le) (simp_all add: sizes_ok_def)
  have "hash c key \<le> hsize c - 4" unfolding hash_def sub by (rule nat_and_le)
  then have lt: "hash c key < hsize c" using h by linarith
  have "take_bit 2 (hash c key) = take_bit 2 ?x AND take_bit 2 (hsize c - 4)" by (simp add: hash_def sub)
  also have "take_bit 2 (hsize c - 4) = 0" using h by (simp add: take_bit_eq_mod mod_eq_0_iff_dvd dvd_diff_nat)
  finally have "4 dvd hash c key" by (simp add: take_bit_eq_mod mod_eq_0_iff_dvd)
  with lt show ?thesis by (simp add: head_slot_def)
qed

abbreviation chain :: "cache \<Rightarrow> centry list \<Rightarrow> nat \<Rightarrow> nat list" where
  "chain c es h \<equiv> h # map e_pos (bucket (hash c) es h)"

lemma bucket_set: "set (bucket hs es h) = {e \<in> set es. hs (e_key e) = h}"
  by (auto simp: bucket_def)

lemma chain_slots: "head_slot c h \<Longrightarrow> p \<in> set (chain c es h) \<Longrightarrow> slot c es p"
  by (auto simp: slot_def bucket_set)

lemma chain_distinct:
  assumes "cache_inv c es" "head_slot c h"
  shows "distinct (chain c es h)"
proof -
  have "distinct (map e_pos (rev es))" using cache_inv_distinct [OF assms(1)] by (simp add: distinct_map)
  then have "distinct (map e_pos (bucket (hash c) es h))"
    unfolding bucket_def by (rule distinct_map_filter)
  moreover have "h < e_pos e" if "e \<in> set es" for e
    using cache_inv_pos [OF assms(1) that] assms(2) by (simp add: head_slot_def)
  ultimately show ?thesis by (auto simp: bucket_set)
qed

lemma chain_disjoint:
  assumes "cache_inv c es" "head_slot c h" "head_slot c h'" "h \<noteq> h'"
  shows "set (chain c es h) \<inter> set (chain c es h') = {}"
proof -
  have lt: "g < e_pos e" if "e \<in> set es" "head_slot c g" for e g
    using cache_inv_pos [OF assms(1) that(1)] that(2) by (simp add: head_slot_def)
  have inj: "inj_on e_pos (set es)" using cache_inv_distinct [OF assms(1)] by (simp add: distinct_map)
  show ?thesis
    using assms(2-4) lt inj by (fastforce simp: bucket_set inj_on_def)
qed

text \<open>One link is rewritten: what stays.\<close>

lemma put_slot_keeps:
  assumes "cache_inv c es" "cx c = Some m" "slot c es p" "m' = put_word m p u"
  shows "length m' = csize c" "list_all (entry_ok m') es"
    "\<And>q. slot c es q \<Longrightarrow> q \<noteq> p \<Longrightarrow> word_at m' q = word_at m q" "u < 2 ^ 32 \<Longrightarrow> word_at m' p = u"
proof -
  have m: "length m = csize c" "list_all (entry_ok m) es" using assms(1,2) by (auto simp: cache_inv_def)
  have p: "p + 4 \<le> length m" using slot_fits [OF assms(1,3)] m by simp
  show "length m' = csize c" using p m by (simp add: assms(4))
  show "u < 2 ^ 32 \<Longrightarrow> word_at m' p = u" using p by (simp add: assms(4))
  show "word_at m' q = word_at m q" if "slot c es q" "q \<noteq> p" for q
    using that p slot_fits [OF assms(1) that(1)] slots_apart [OF assms(1,3) that(1)] m(1)
    by (auto simp: assms(4) intro!: word_at_put_apart)
  have "entry_ok m' e" if "e \<in> set es" for e
    using that m p cache_inv_pos [OF assms(1) that] slot_body_apart [OF assms(1,3) that]
    by (simp add: assms(4) entry_ok_put list_all_iff)
  then show "list_all (entry_ok m') es" by (simp add: list_all_iff)
qed

subsection \<open>Eviction\<close>

lemma bucket_Cons: "bucket hs (e # es) h = bucket hs es h @ (if hs (e_key e) = h then [e] else [])"
  by (simp add: bucket_def)

lemma bucket_snoc: "bucket hs (es @ [e]) h = (if hs (e_key e) = h then [e] else []) @ bucket hs es h"
  by (simp add: bucket_def)

text \<open>The parts of the state that eviction does not touch.\<close>

definition same_frame :: "cache \<Rightarrow> cache \<Rightarrow> bool" where
  "same_frame c c' \<longleftrightarrow> csize c' = csize c \<and> hsize c' = hsize c \<and> hashkey c' = hashkey c \<and>
     cache_motion c' = cache_motion c \<and> cache_hit c' = cache_hit c \<and> cache_miss c' = cache_miss c"

lemma same_frame_refl [simp]: "same_frame c c"
  by (simp add: same_frame_def)

lemma same_frame_trans: "same_frame c d \<Longrightarrow> same_frame d e \<Longrightarrow> same_frame c e"
  by (simp add: same_frame_def)

lemma same_frame_hash: "same_frame c c' \<Longrightarrow> hash c' = hash c"
  by (rule ext) (simp add: same_frame_def hash_def)

lemma same_frame_sizes: "same_frame c c' \<Longrightarrow> sizes_ok c' = sizes_ok c \<and> head_slot c' = head_slot c"
  by (auto simp: same_frame_def sizes_ok_def head_slot_def fun_eq_iff)

lemma evict_memory:
  assumes inv: "cache_inv c (e # es)" and m: "cx c = Some m" and h: "h = hash c (e_key e)"
    and p: "p = last (chain c es h)" and m': "m' = put_word m p (word_at m p XOR e_pos e)"
  shows "word_at m (e_pos e) = p" "slot c (e # es) p" "list_all (entry_ok m') (e # es)"
    "\<And>g. head_slot c g \<Longrightarrow> linked m' 0 (chain c es g)"
proof -
  have s: "sizes_ok c" and lk: "\<And>g. head_slot c g \<Longrightarrow> linked m 0 (chain c (e # es) g)"
    using inv m by (auto simp: cache_inv_def)
  have hs: "head_slot c h" using hash_slot [OF s] h by simp
  obtain qs where qs: "chain c es h = qs @ [p]" using p by (metis append_butlast_last_id list.distinct(1))
  have ch: "chain c (e # es) h = qs @ [p, e_pos e]" using qs h by (simp add: bucket_Cons)
  show slot: "slot c (e # es) p" by (rule chain_slots [OF hs]) (simp add: ch)
  show "word_at m (e_pos e) = p" using lk [OF hs] unfolding ch by (rule linked_last)
  have "e_pos e < 2 ^ 32" using cache_inv_pos(2) [OF inv, of e] s by (simp add: sizes_ok_def)
  then have x: "word_at m p XOR e_pos e < 2 ^ 32" using word_at_less by (rule nat_xor_less [rotated])
  note keep = put_slot_keeps [OF inv m slot m']
  show "list_all (entry_ok m') (e # es)" by (rule keep(2))
  have dist: "distinct (qs @ [p, e_pos e])" using chain_distinct [OF inv hs] unfolding ch .
  show "linked m' 0 (chain c es g)" if g: "head_slot c g" for g
  proof (cases "g = h")
    case True
    have "word_at m' q = word_at m q" if "q \<in> set qs" for q
      using that dist by (intro keep(3) chain_slots [OF hs]) (auto simp: ch)
    moreover have "word_at m' p = word_at m p XOR e_pos e" using x by (rule keep(4))
    moreover have "linked m 0 (qs @ [p, e_pos e])" using lk [OF hs] unfolding ch .
    ultimately show ?thesis unfolding True qs by (intro linked_evict)
  next
    case False
    have eq: "chain c (e # es) g = chain c es g" using False h by (simp add: bucket_Cons)
    have "p \<notin> set (chain c es g)"
      using chain_disjoint [OF inv hs g] False unfolding ch eq by auto
    then have "word_at m' q = word_at m q" if "q \<in> set (chain c es g)" for q
      using that chain_slots [OF g, of q "e # es"] by (intro keep(3)) (auto simp: eq simp del: list.map)
    then have "linked m' 0 (chain c es g) = linked m 0 (chain c es g)" by (rule linked_cong)
    then show ?thesis using lk [OF g] unfolding eq by simp
  qed
qed

lemma evict_ok:
  assumes inv: "cache_inv c es0" and ne: "oldest c \<noteq> unused c"
  obtains c' e es where "es0 = e # es" "evict c = Some c'" "cache_inv c' es" "same_frame c c'"
proof -
  obtain m es1 es2 where I: "sizes_ok c" "cx c = Some m" "length m = csize c"
      "es0 = es1 @ es2" "layout (oldest c) es1 (unused c)" "layout (hsize c) es2 (writer c)"
      "writer c \<le> oldest c" "unused c \<le> csize c"
    using inv by (auto simp: cache_inv_def)
  obtain e es1' where es1: "es1 = e # es1'" using I(5) ne by (cases es1) auto
  let ?es = "es1' @ es2"
  have es0: "es0 = e # ?es" using I(4) es1 by simp
  note inv' = inv [unfolded es0]
  let ?h = "hash c (e_key e)" let ?p = "last (chain c ?es ?h)"
  let ?m = "put_word m ?p (word_at m ?p XOR e_pos e)"
  note E = evict_memory [OF inv' I(2) refl refl refl]
  have pe: "e_pos e = oldest c" "layout (oldest c + elen e) es1' (unused c)" using I(5) es1 by auto
  have fit: "e_pos e + elen e \<le> csize c" using cache_inv_pos(2) [OF inv', of e] by simp
  have l': "length ?m = csize c" using put_slot_keeps(1) [OF inv' I(2) E(2) refl] .
  have sz: "csize c < 2 ^ 32" "20 \<le> elen e" using I(1) elen_ge by (simp_all add: sizes_ok_def)
  have ok: "entry_ok ?m e" using E(3) by simp
  have fld: "word_at ?m (e_pos e + 4) = length (e_key e)" "word_at ?m (e_pos e + 8) = length (e_data e)"
    using entry_fields(1,2) [OF ok] fit l' by simp_all
  let ?c1 = "c\<lparr>cx := Some ?m\<rparr>"
  have s1: "sizes_ok ?c1" using I(1) by (simp add: sizes_ok_def)
  have a: "add32 (oldest c) 4 = e_pos e + 4" "add32 (oldest c) 8 = e_pos e + 8"
      "add32 (add32 (length (e_key e)) (length (e_data e))) 20 = elen e"
      "add32 (oldest c) (elen e) = e_pos e + elen e"
    using pe(1) fit sz by (simp_all add: add32_def elen_def)
  have g1: "get4 c (oldest c) = Some ?p"
    using get4_eq [OF I(2,3,1), of "oldest c"] E(1) pe(1) fit sz by simp
  have g2: "get4 c ?p = Some (word_at m ?p)" "set4 c ?p (word_at m ?p XOR oldest c) = Some ?c1"
    using get4_eq [OF I(2,3,1)] set4_eq [OF I(2,3,1)] slot_fits [OF inv' E(2)] pe(1) by simp_all
  have g3: "get4 ?c1 (e_pos e + 4) = Some (length (e_key e))" "get4 ?c1 (e_pos e + 8) = Some (length (e_data e))"
    using get4_eq [of ?c1 ?m] l' s1 fld fit sz by simp_all
  have le: "e_pos e + elen e \<le> unused c" using layout_bounds [OF pe(2)] pe(1) by simp
  define c' where "c' = (if e_pos e + elen e = unused c then ?c1\<lparr>unused := csize c, oldest := csize c\<rparr>
      else ?c1\<lparr>oldest := e_pos e + elen e\<rparr>)"
  have ev: "evict c = Some c'"
    unfolding evict_def g1 bind.bind_lunit g2 Let_def c'_def using a g3 le by simp
  have fr: "same_frame c c'" by (simp add: same_frame_def c'_def)
  have cx': "cx c' = Some ?m" by (simp add: c'_def)
  have lk: "linked ?m 0 (chain c' ?es g)" if "head_slot c' g" for g
    using that E(4) [of g] same_frame_hash [OF fr] same_frame_sizes [OF fr] by simp
  have lay: "layout (oldest c') es1' (unused c')" "layout (hsize c') es2 (writer c')" "writer c' \<le> oldest c'"
      "unused c' \<le> csize c'" "es1' = [] \<longrightarrow> unused c' = csize c'"
    using I(6-8) pe le layout_Nil_iff [OF pe(2)] layout_bounds [OF I(6)] fit by (auto simp: c'_def)
  have "cache_inv c' ?es"
    unfolding cache_inv_def
    using s1 same_frame_sizes [OF fr] I(1) cx' l' E(3) lk lay fr by (auto simp: same_frame_def)
  then show thesis using es0 ev fr by (intro that)
qed

text \<open>The wrap-around of the writer keeps the invariant.\<close>

lemma wrap_inv:
  assumes "cache_inv c es" "oldest c = unused c" "hsize c < writer c"
  shows "cache_inv (c\<lparr>unused := writer c, oldest := hsize c, writer := hsize c\<rparr>) es"
proof -
  obtain es1 es2 where I: "es = es1 @ es2" "layout (oldest c) es1 (unused c)" "layout (hsize c) es2 (writer c)"
      "writer c \<le> oldest c" "unused c \<le> csize c" "es1 = [] \<longrightarrow> unused c = csize c"
    using assms(1) by (auto simp: cache_inv_def)
  have "es1 = []" using layout_Nil_iff [OF I(2)] assms(2) by simp
  let ?c = "c\<lparr>unused := writer c, oldest := hsize c, writer := hsize c\<rparr>"
  have fr: "same_frame c ?c" by (simp add: same_frame_def)
  have ne: "es2 \<noteq> []" using layout_Nil_iff [OF I(3)] assms(3) by auto
  obtain m where M: "sizes_ok c" "cx c = Some m" "length m = csize c" "list_all (entry_ok m) es"
      "\<And>h. head_slot c h \<Longrightarrow> linked m 0 (chain c es h)"
    using assms(1) by (auto simp: cache_inv_def)
  show ?thesis
  proof (rule cache_invI [of _ m _ es2 "[]"])
    show "sizes_ok ?c" using M(1) same_frame_sizes [OF fr] by simp
    show "linked m 0 (chain ?c es h)" if "head_slot ?c h" for h
      using that M(5) same_frame_hash [OF fr] same_frame_sizes [OF fr] by simp
  qed (use I M ne \<open>es1 = []\<close> assms(2) in simp_all)
qed

lemma cache_inv_Nil:
  assumes "cache_inv c []"
  shows "writer c = hsize c" "oldest c = csize c" "unused c = csize c"
  using assms by (auto simp: cache_inv_def)

lemma cache_inv_writer:
  assumes "cache_inv c es"
  shows "hsize c \<le> writer c" "writer c \<le> oldest c" "oldest c \<le> unused c" "unused c \<le> csize c"
    "oldest c = unused c \<Longrightarrow> es \<noteq> [] \<Longrightarrow> hsize c < writer c"
proof -
  obtain es1 es2 where I: "es = es1 @ es2" "layout (oldest c) es1 (unused c)" "layout (hsize c) es2 (writer c)"
      "writer c \<le> oldest c" "unused c \<le> csize c"
    using assms by (auto simp: cache_inv_def)
  show "hsize c \<le> writer c" "writer c \<le> oldest c" "oldest c \<le> unused c" "unused c \<le> csize c"
    using layout_bounds [OF I(2)] layout_bounds [OF I(3)] I(4,5) by simp_all
  assume "oldest c = unused c" "es \<noteq> []"
  then have "es2 \<noteq> []" using layout_Nil_iff [OF I(2)] I(1) by auto
  then show "hsize c < writer c" using layout_Nil_iff [OF I(3)] layout_bounds [OF I(3)] by linarith
qed

text \<open>
  The loop ends: it evicts the oldest entries until the new one fits, and gives up only when
  nothing is left to evict.
\<close>

lemma make_room_ok:
  assumes "cache_inv c es" "n \<le> 1001020"
  shows "\<exists>ok c' k. make_room n c = Some (ok, c') \<and> k \<le> length es \<and> cache_inv c' (drop k es) \<and> same_frame c c' \<and>
     (ok \<longrightarrow> writer c' + n \<le> oldest c') \<and> (\<not> ok \<longrightarrow> k = length es \<and> hsize c + n > csize c)"
  using assms(1)
proof (induction es arbitrary: c)
  case Nil
  have "writer c + n < 2 ^ 32"
    using cache_inv_writer [OF Nil] Nil assms(2) by (simp add: cache_inv_def sizes_ok_def)
  then show ?case
    using cache_inv_Nil [OF Nil] Nil by (subst make_room.simps) (auto simp: add32_small)
next
  case (Cons e es)
  have w: "writer c + n < 2 ^ 32"
    using cache_inv_writer [OF Cons.prems] Cons.prems assms(2) by (simp add: cache_inv_def sizes_ok_def)
  show ?case
  proof (cases "writer c + n > oldest c")
    case False
    then show ?thesis
      using Cons.prems w by (subst make_room.simps) (auto simp: add32_small intro!: exI [of _ 0])
  next
    case True
    define d where "d = (if oldest c = unused c
        then c\<lparr>unused := writer c, oldest := hsize c, writer := hsize c\<rparr> else c)"
    have hw: "oldest c = unused c \<Longrightarrow> hsize c < writer c" using cache_inv_writer(5) [OF Cons.prems] by simp
    have d: "cache_inv d (e # es)" "oldest d \<noteq> unused d" "same_frame c d"
      using Cons.prems wrap_inv [OF Cons.prems] hw by (auto simp: d_def same_frame_def)
    obtain c1 where ev: "evict d = Some c1" "cache_inv c1 es" "same_frame d c1"
      using evict_ok [OF d(1,2)] by (metis list.inject)
    have step: "make_room n c = make_room n c1"
      using True w hw ev(1) by (subst make_room.simps) (auto simp: add32_small d_def)
    have fr: "same_frame c c1" using d(3) ev(3) by (rule same_frame_trans)
    obtain ok c' k where R: "make_room n c1 = Some (ok, c')" "k \<le> length es" "cache_inv c' (drop k es)" "same_frame c1 c'"
        "ok \<longrightarrow> writer c' + n \<le> oldest c'" "\<not> ok \<longrightarrow> k = length es \<and> hsize c1 + n > csize c1"
      using Cons.IH [OF ev(2)] by blast
    have "same_frame c c'" using fr R(4) by (rule same_frame_trans)
    then show ?thesis
      using step R fr by (intro exI [of _ ok] exI [of _ c'] exI [of _ "Suc k"]) (auto simp: same_frame_def)
  qed
qed

subsection \<open>Storing an entry\<close>

lemma free_apart:
  assumes "cache_inv c es" "writer c + n \<le> oldest c" "e \<in> set es"
  shows "e_pos e + elen e \<le> writer c \<or> writer c + n \<le> e_pos e"
proof -
  obtain es1 es2 where I: "es = es1 @ es2" "layout (oldest c) es1 (unused c)" "layout (hsize c) es2 (writer c)"
    using assms(1) by (auto simp: cache_inv_def)
  then show ?thesis
    using layout_bounds [OF I(2)] layout_bounds [OF I(3)] assms(2,3) by fastforce
qed

lemma free_slot_apart:
  assumes "cache_inv c es" "writer c + n \<le> oldest c" "slot c es p"
  shows "p + 4 \<le> writer c \<or> writer c + n \<le> p"
  using assms(3) unfolding slot_def
proof
  assume "head_slot c p"
  then show ?thesis
    using head_slot_end [of c p] cache_inv_writer(1) [OF assms(1)] assms(1) by (simp add: cache_inv_def)
next
  assume "p \<in> e_pos ` set es"
  then obtain e where "e \<in> set es" "p = e_pos e" by auto
  then show ?thesis using free_apart [OF assms(1,2), of e] elen_ge [of e] by auto
qed

text \<open>The block of bytes of a new entry, and the memory after the stores of \<open>cache_set\<close>.\<close>

definition stored :: "cache \<Rightarrow> bytes \<Rightarrow> centry \<Rightarrow> nat \<Rightarrow> bytes" where
  "stored c m e h =
     (let pos = word_at m h;
          m1 = (if pos \<noteq> 0 then put_word m pos (word_at m pos XOR h XOR e_pos e) else m)
      in put_word (mem_write m1 (e_pos e) (uint32_pack (of_nat (pos XOR h)) @ ebody e)) h (e_pos e))"

lemma length_ebody: "length (e_exp e) = 8 \<Longrightarrow> length (ebody e) = elen e - 4"
  by (simp add: ebody_def elen_def)

lemma bucket_head:
  assumes "cache_inv c es" "cx c = Some m" "head_slot c h"
  shows "word_at m h = (if bucket (hash c) es h = [] then 0 else e_pos (hd (bucket (hash c) es h)))"
    "word_at m h \<noteq> 0 \<longleftrightarrow> bucket (hash c) es h \<noteq> []"
proof -
  have "linked m 0 (chain c es h)" using assms by (auto simp: cache_inv_def)
  then show w: "word_at m h = (if bucket (hash c) es h = [] then 0 else e_pos (hd (bucket (hash c) es h)))"
    by (auto simp: hd_map)
  have "0 < e_pos e" if "e \<in> set es" for e
    using cache_inv_pos(1) [OF assms(1) that] hsize_dvd [of c] assms(1) by (auto simp: cache_inv_def)
  moreover have "hd (bucket (hash c) es h) \<in> set es" if "bucket (hash c) es h \<noteq> []"
    using hd_in_set [OF that] by (auto simp: bucket_set)
  ultimately show "word_at m h \<noteq> 0 \<longleftrightarrow> bucket (hash c) es h \<noteq> []" using w by auto
qed

lemma tl_member: "q \<in> set (tl xs) \<Longrightarrow> q \<in> set xs \<and> xs \<noteq> [] \<and> (distinct xs \<longrightarrow> q \<noteq> hd xs)"
  by (cases xs) auto

lemma stored_memory:
  assumes inv: "cache_inv c es" and m: "cx c = Some m" and e: "e_pos e = writer c" "length (e_key e) \<le> MAXKEYLEN"
      "length (e_data e) \<le> MAXDATALEN" "length (e_exp e) = 8" and room: "writer c + elen e \<le> oldest c"
    and h: "h = hash c (e_key e)"
  shows "length (stored c m e h) = csize c" "list_all (entry_ok (stored c m e h)) (es @ [e])"
    "\<And>g. head_slot c g \<Longrightarrow> linked (stored c m e h) 0 (chain c (es @ [e]) g)"
proof -
  have s: "sizes_ok c" and lm: "length m = csize c" and lk: "\<And>g. head_slot c g \<Longrightarrow> linked m 0 (chain c es g)"
    using inv m by (auto simp: cache_inv_def)
  have hs: "head_slot c h" using hash_slot [OF s] h by simp
  note W = cache_inv_writer [OF inv]
  let ?w = "writer c"
  have fit: "?w + elen e \<le> csize c" using room W by linarith
  have sz: "csize c < 2 ^ 32" using s by (simp add: sizes_ok_def)
  define pos where "pos = word_at m h"
  define m1 where "m1 = (if pos \<noteq> 0 then put_word m pos (word_at m pos XOR h XOR ?w) else m)"
  define blk where "blk = uint32_pack (of_nat (pos XOR h)) @ ebody e"
  define m8 where "m8 = mem_write m1 ?w blk"
  define m9 where "m9 = put_word m8 h ?w"
  have st: "stored c m e h = m9" by (simp add: stored_def Let_def m9_def m8_def m1_def pos_def blk_def e(1))
  have lb: "length blk = elen e" using elen_ge [of e] e(4) by (simp add: blk_def length_ebody)
  have sloth: "slot c es h" using hs by (simp add: slot_def)
  have slotpos: "slot c es pos" if "pos \<noteq> 0"
    using that bucket_head [OF inv m hs] by (auto simp: pos_def slot_def dest!: hd_in_set) (auto simp: bucket_set)
  have h32: "h < 2 ^ 32" "?w < 2 ^ 32" "pos < 2 ^ 32"
    using hs s sz fit elen_ge [of e] word_at_less [of m h] by (auto simp: head_slot_def sizes_ok_def pos_def)
  have x32: "word_at m pos XOR h XOR ?w < 2 ^ 32" "pos XOR h < 2 ^ 32"
    by (rule nat_xor_less [OF word_at_less nat_xor_less [OF h32(1,2)]]) (rule nat_xor_less [OF h32(3,1)])
  have M1: "length m1 = csize c" "list_all (entry_ok m1) es"
      "\<And>q. slot c es q \<Longrightarrow> q \<noteq> pos \<Longrightarrow> word_at m1 q = word_at m q"
      "pos \<noteq> 0 \<Longrightarrow> word_at m1 pos = word_at m pos XOR h XOR ?w"
  proof -
    have em: "list_all (entry_ok m) es" using inv m by (auto simp: cache_inv_def)
    note keep = put_slot_keeps [OF inv m slotpos refl]
    show "length m1 = csize c" "list_all (entry_ok m1) es" using keep(1,2) lm em by (simp_all add: m1_def)
    show "word_at m1 q = word_at m q" if "slot c es q" "q \<noteq> pos" for q
      using keep(3) [OF _ that] by (simp add: m1_def)
    show "word_at m1 pos = word_at m pos XOR h XOR ?w" if "pos \<noteq> 0"
      using keep(4) [OF that x32(1)] that by (simp add: m1_def)
  qed
  have l8: "length m8 = csize c" using M1(1) lb fit by (simp add: m8_def)
  have W8: "word_at m8 q = word_at m1 q" if "slot c es q" for q
    unfolding word_at_def m8_def
    using that free_slot_apart [OF inv room that] slot_fits [OF inv that] M1(1) lb fit
    by (subst mem_read_write_disjoint) auto
  have E8: "mem_read m8 (e_pos f + 4) (elen f - 4) = mem_read m1 (e_pos f + 4) (elen f - 4)" if "f \<in> set es" for f
    unfolding m8_def
    using free_apart [OF inv room that] cache_inv_pos(2) [OF inv that] M1(1) lb fit elen_ge [of f]
    by (intro mem_read_write_disjoint) auto
  have "mem_read m8 ?w 4 = uint32_pack (of_nat (pos XOR h))"
    unfolding m8_def using M1(1) lb fit elen_ge [of e] by (subst mem_read_write_inside) (simp_all add: blk_def mem_read_def)
  then have w8: "word_at m8 ?w = pos XOR h" using x32(2) by (simp add: word_at_def unat_of_nat)
  have e8: "entry_ok m8 e"
  proof -
    have "mem_read m8 (?w + 4) (elen e - 4) = mem_read blk 4 (elen e - 4)"
      unfolding m8_def using M1(1) lb fit elen_ge [of e] by (subst mem_read_write_inside) simp_all
    also have "\<dots> = ebody e" using e(4) by (simp add: blk_def mem_read_def length_ebody)
    finally show ?thesis using e by (simp add: entry_ok_def)
  qed
  have h8: "h + 4 \<le> length m8" "h + 4 \<le> ?w" using head_slot_end [OF s hs] W l8 s by (simp_all add: sizes_ok_def)
  have l9: "length m9 = csize c" using h8 l8 by (simp add: m9_def)
  have W9: "word_at m9 q = word_at m1 q" if "slot c es q" "q \<noteq> h" for q
    unfolding m9_def using that h8 slots_apart [OF inv sloth that(1)] slot_fits [OF inv that(1)] l8 W8 [OF that(1)]
    by (subst word_at_put_apart) auto
  have w9: "word_at m9 ?w = pos XOR h" "word_at m9 h = ?w"
    unfolding m9_def using h8 l8 fit elen_ge [of e] w8 h32(2) by (auto simp: word_at_put_apart apart_def)
  show "length (stored c m e h) = csize c" using l9 st by simp
  have "entry_ok m9 f" if "f \<in> set es" for f
  proof -
    have "entry_ok m8 f" using E8 [OF that] M1(2) that by (simp add: entry_ok_def list_all_iff)
    then show ?thesis
      unfolding m9_def using h8 l8 cache_inv_pos [OF inv that] slot_body_apart [OF inv sloth that]
      by (subst entry_ok_put) auto
  qed
  moreover have "entry_ok m9 e"
    unfolding m9_def using h8 l8 e(1) fit e8 by (subst entry_ok_put) auto
  ultimately show "list_all (entry_ok (stored c m e h)) (es @ [e])" by (simp add: st list_all_iff)
  show "linked (stored c m e h) 0 (chain c (es @ [e]) g)" if g: "head_slot c g" for g
  proof (cases "g = h")
    case True
    let ?ps = "map e_pos (bucket (hash c) es h)"
    have dist: "distinct (h # ?ps)" using chain_distinct [OF inv hs] .
    have ps: "?ps \<noteq> [] \<longleftrightarrow> pos \<noteq> 0" "?ps \<noteq> [] \<Longrightarrow> hd ?ps = pos" "(if ?ps = [] then 0 else hd ?ps) = pos"
      using bucket_head [OF inv m hs] by (auto simp: pos_def hd_map)
    have "linked m9 0 (h # ?w # ?ps)"
    proof (rule linked_insert [OF lk [OF hs]])
      show "word_at m9 q = word_at m q" if "q \<in> set (tl ?ps)" for q
      proof -
        have q: "q \<in> set ?ps" "?ps \<noteq> []" "q \<noteq> hd ?ps"
          using tl_member [OF that] dist by simp_all
        then have "q \<noteq> h" "q \<noteq> pos" using dist ps(2) by auto
        moreover have "slot c es q" by (rule chain_slots [OF hs]) (use q(1) in simp)
        ultimately show ?thesis using W9 M1(3) by simp
      qed
      show "word_at m9 (hd ?ps) = word_at m (hd ?ps) XOR h XOR ?w" if "?ps \<noteq> []"
      proof -
        have "pos \<noteq> 0" "hd ?ps = pos" using that ps by auto
        moreover have "pos \<noteq> h" using dist hd_in_set [OF that] calculation(2) by auto
        ultimately show ?thesis using W9 [OF slotpos] M1(4) by simp
      qed
      show "word_at m9 ?w = (if ?ps = [] then 0 else hd ?ps) XOR h" using w9(1) ps(3) by simp
      show "word_at m9 h = ?w" by (rule w9(2))
    qed
    moreover have "chain c (es @ [e]) g = h # ?w # ?ps" using True h e(1) by (simp add: bucket_snoc)
    ultimately show ?thesis unfolding st by (simp only:)
  next
    case False
    have eq: "chain c (es @ [e]) g = chain c es g" using False h by (simp add: bucket_snoc)
    have disj: "set (chain c es h) \<inter> set (chain c es g) = {}" using chain_disjoint [OF inv hs g] False by simp
    have posin: "pos \<in> set (chain c es h)" if "pos \<noteq> 0"
      using that bucket_head [OF inv m hs] by (auto simp: pos_def)
    have "word_at m9 q = word_at m q" if q: "q \<in> set (chain c es g)" for q
    proof -
      have "slot c es q" "q \<noteq> h" using chain_slots [OF g q] disj q by auto
      moreover have "pos \<noteq> 0 \<Longrightarrow> q \<noteq> pos" using posin disj q by blast
      ultimately show ?thesis using W9 M1(3) by (cases "pos = 0") (auto simp: m1_def)
    qed
    then have "linked m9 0 (chain c es g) = linked m 0 (chain c es g)" by (rule linked_cong)
    then show ?thesis using lk [OF g] unfolding eq st by simp
  qed
qed

text \<open>The expiry field: the time and, in its last byte, the flags.\<close>

definition exp_field :: "int \<Rightarrow> byte \<Rightarrow> bytes" where
  "exp_field t flags = (uint64_pack (word_of_int t))[7 := flags]"

lemma length_exp_field [simp]: "length (exp_field t f) = 8"
  by (simp add: exp_field_def length_packs)

lemma poke_eq:
  "cx c = Some m \<Longrightarrow> p + length b \<le> length m \<Longrightarrow> poke c p b = Some (c\<lparr>cx := Some (mem_write m p b)\<rparr>)"
  by (simp add: poke_def)

text \<open>The stores of \<open>cache_set\<close> from the link of the new entry to its data are one block.\<close>

lemma block_writes:
  assumes "w + elen e \<le> length m" "length (e_exp e) = 8" "e_exp e = a[7 := f]" "length a = 8"
  shows "mem_write (mem_write (mem_write (mem_write (put_word (put_word (put_word m w l)
     (w + 4) (length (e_key e))) (w + 8) (length (e_data e))) (w + 12) a) (w + 12 + 7) [f]) (w + 20) (e_key e))
     (w + 20 + length (e_key e)) (e_data e) = mem_write m w (uint32_pack (of_nat l) @ ebody e)"
proof -
  let ?k = "uint32_pack (of_nat (length (e_key e)))" and ?d = "uint32_pack (of_nat (length (e_data e)))"
  let ?l = "uint32_pack (of_nat l)"
  have fit: "w + (20 + length (e_key e) + length (e_data e)) \<le> length m" using assms(1) by (simp add: elen_def)
  have 1: "put_word (put_word m w l) (w + 4) (length (e_key e)) = mem_write m w (?l @ ?k)"
    unfolding put_word_def using fit mem_write_append [of w ?l ?k m] by simp
  have 2: "put_word (mem_write m w (?l @ ?k)) (w + 8) (length (e_data e)) = mem_write m w (?l @ ?k @ ?d)"
    unfolding put_word_def using fit mem_write_append [of w "?l @ ?k" ?d m] by simp
  have 3: "mem_write (mem_write m w (?l @ ?k @ ?d)) (w + 12) a = mem_write m w (?l @ ?k @ ?d @ a)"
    using fit assms(4) mem_write_append [of w "?l @ ?k @ ?d" a m] by simp
  have 4: "mem_write (mem_write m w (?l @ ?k @ ?d @ a)) (w + 12 + 7) [f] = mem_write m w (?l @ ?k @ ?d @ e_exp e)"
    using fit assms(3,4) mem_write_update [of w "?l @ ?k @ ?d @ a" m 19 f]
    by (simp add: list_update_append add.assoc)
  have 5: "mem_write (mem_write m w (?l @ ?k @ ?d @ e_exp e)) (w + 20) (e_key e) = mem_write m w (?l @ ?k @ ?d @ e_exp e @ e_key e)"
    using fit assms(2) mem_write_append [of w "?l @ ?k @ ?d @ e_exp e" "e_key e" m] by simp
  have 6: "mem_write (mem_write m w (?l @ ?k @ ?d @ e_exp e @ e_key e)) (w + 20 + length (e_key e)) (e_data e) =
      mem_write m w (?l @ ?k @ ?d @ e_exp e @ e_key e @ e_data e)"
    using fit assms(2) mem_write_append [of w "?l @ ?k @ ?d @ e_exp e @ e_key e" "e_data e" m] by (simp add: add.assoc)
  show ?thesis unfolding 1 2 3 4 5 6 by (simp add: ebody_def)
qed

definition new_entry :: "cache \<Rightarrow> bytes \<Rightarrow> bytes \<Rightarrow> int \<Rightarrow> byte \<Rightarrow> centry" where
  "new_entry c key data t flags = \<lparr>e_pos = writer c, e_key = key, e_data = data, e_exp = exp_field t flags\<rparr>"

lemma cache_store_ok:
  assumes inv: "cache_inv c es" and len: "length key \<le> MAXKEYLEN" "length data \<le> MAXDATALEN"
    and room: "writer c + (length key + length data + 20) \<le> oldest c"
  obtains c' where "cache_store c key data ttl now flags = Some c'"
    "cache_inv c' (es @ [new_entry c key data (now + ttl) flags])" "hashkey c' = hashkey c" "hsize c' = hsize c"
    "csize c' = csize c"
proof -
  define e where "e = new_entry c key data (now + ttl) flags"
  have e: "e_pos e = writer c" "e_key e = key" "e_data e = data" "e_exp e = exp_field (now + ttl) flags"
    by (simp_all add: e_def new_entry_def)
  have el: "elen e = length key + length data + 20" by (simp add: elen_def e)
  obtain m es1 es2 where I: "sizes_ok c" "cx c = Some m" "length m = csize c"
      "es = es1 @ es2" "layout (oldest c) es1 (unused c)" "layout (hsize c) es2 (writer c)"
      "writer c \<le> oldest c" "unused c \<le> csize c" "es1 = [] \<longrightarrow> unused c = csize c"
    using inv by (auto simp: cache_inv_def)
  let ?h = "hash c key" let ?w = "writer c"
  have hs: "head_slot c ?h" using hash_slot [OF I(1)] .
  note SM = stored_memory [OF inv I(2) e(1) _ _ _ _ refl, unfolded e(2,3)]
  have sm: "length (stored c m e ?h) = csize c" "list_all (entry_ok (stored c m e ?h)) (es @ [e])"
      "\<And>g. head_slot c g \<Longrightarrow> linked (stored c m e ?h) 0 (chain c (es @ [e]) g)"
    using SM len room by (simp_all add: el e(4))
  have W: "hsize c \<le> ?w" "oldest c \<le> csize c" "?w + elen e \<le> csize c" "csize c < 2 ^ 32"
    using cache_inv_writer [OF inv] room el I(1) by (simp_all add: sizes_ok_def)
  define pos where "pos = word_at m ?h"
  define m1 where "m1 = (if pos \<noteq> 0 then put_word m pos (word_at m pos XOR ?h XOR ?w) else m)"
  have hfit: "?h + 4 \<le> csize c" using slot_fits [OF inv, of ?h] hs by (simp add: slot_def)
  have slotpos: "slot c es pos" if "pos \<noteq> 0"
    using that bucket_head [OF inv I(2) hs] by (auto simp: pos_def slot_def dest!: hd_in_set) (auto simp: bucket_set)
  have posfit: "pos \<noteq> 0 \<Longrightarrow> pos + 4 \<le> csize c" using slot_fits [OF inv slotpos] .
  have l1: "length m1 = csize c" using posfit I(3) by (simp add: m1_def)
  define blk where "blk = mem_write m1 ?w (uint32_pack (of_nat (pos XOR ?h)) @ ebody e)"
  have lb: "length blk = csize c" using l1 W(3) elen_ge [of e] by (simp add: blk_def length_ebody e(4))
  have st: "stored c m e ?h = put_word blk ?h ?w" by (simp add: stored_def Let_def pos_def m1_def blk_def e(1))
  have a32: "add32 ?w 4 = ?w + 4" "add32 ?w 8 = ?w + 8" "add32 ?w (length key + length data + 20) = ?w + elen e"
    using W el by (simp_all add: add32_def)
  let ?a = "uint64_pack (word_of_int (now + ttl))"
  have bw: "mem_write (mem_write (mem_write (mem_write (put_word (put_word (put_word m1 ?w (pos XOR ?h))
     (?w + 4) (length key)) (?w + 8) (length data)) (?w + 12) ?a) (?w + 12 + 7) [flags]) (?w + 20) key)
     (?w + 20 + length key) data = blk"
    using block_writes [of ?w e m1 ?a flags "pos XOR ?h"] W(3) l1
    by (simp add: e blk_def exp_field_def length_packs)
  have s': "sizes_ok (c\<lparr>cx := Some x\<rparr>)" for x using I(1) by (simp add: sizes_ok_def)
  have setc: "set4 (c\<lparr>cx := Some x\<rparr>) p u = Some (c\<lparr>cx := Some (put_word x p u)\<rparr>)"
    if "length x = csize c" "p + 4 \<le> csize c" for x p u
    using set4_eq [of "c\<lparr>cx := Some x\<rparr>" x p u] that s' by simp
  have pokec: "poke (c\<lparr>cx := Some x\<rparr>) p b = Some (c\<lparr>cx := Some (mem_write x p b)\<rparr>)"
    if "length x = csize c" "p + length b \<le> csize c" for x p b
    using poke_eq [of "c\<lparr>cx := Some x\<rparr>" x p b] that by simp
  have g: "get4 c ?h = Some pos" using get4_eq [OF I(2,3,1) hfit] by (simp add: pos_def)
  have first: "(if pos \<noteq> 0 then do { l \<leftarrow> get4 c pos; set4 c pos (l XOR ?h XOR ?w) } else Some c) = Some (c\<lparr>cx := Some m1\<rparr>)"
  proof (cases "pos = 0")
    case True
    then show ?thesis using I(2) by (simp add: m1_def)
  next
    case False
    then show ?thesis
      using get4_eq [OF I(2,3,1) posfit] set4_eq [OF I(2,3,1) posfit] by (simp add: m1_def)
  qed
  let ?c' = "c\<lparr>cx := Some (put_word blk ?h ?w), writer := ?w + elen e,
      cache_motion := cache_motion c + of_nat (length key + length data + 20)\<rparr>"
  have run: "cache_store c key data ttl now flags = Some ?c'"
  proof -
    define x2 where "x2 = put_word m1 ?w (pos XOR ?h)"
    define x3 where "x3 = put_word x2 (?w + 4) (length key)"
    define x4 where "x4 = put_word x3 (?w + 8) (length data)"
    define x5 where "x5 = mem_write x4 (?w + 12) ?a"
    define x6 where "x6 = mem_write x5 (?w + 12 + 7) [flags]"
    define x7 where "x7 = mem_write x6 (?w + 20) key"
    have fit: "?w + 4 \<le> csize c" "?w + 4 + 4 \<le> csize c" "?w + 8 + 4 \<le> csize c" "?w + 12 + length ?a \<le> csize c"
        "?w + 12 + 7 + length [flags] \<le> csize c" "?w + 20 + length key \<le> csize c"
        "?w + 20 + length key + length data \<le> csize c"
      using W(3) el by (simp_all add: length_packs)
    have l2: "length x2 = csize c" using fit(1) l1 by (simp add: x2_def)
    have l3: "length x3 = csize c" using fit(2) l2 by (simp add: x3_def)
    have l4: "length x4 = csize c" using fit(3) l3 by (simp add: x4_def)
    have l5: "length x5 = csize c" using fit(4) l4 by (simp add: x5_def)
    have l6: "length x6 = csize c" using fit(5) l5 by (simp add: x6_def)
    have l7: "length x7 = csize c" using fit(6) l6 by (simp add: x7_def)
    have x8: "mem_write x7 (?w + 20 + length key) data = blk"
      using bw by (simp only: x7_def x6_def x5_def x4_def x3_def x2_def)
    show ?thesis
      unfolding cache_store_def Let_def g bind.bind_lunit first a32
        setc [OF l1 fit(1)] x2_def [symmetric] setc [OF l2 fit(2)] x3_def [symmetric]
        setc [OF l3 fit(3)] x4_def [symmetric] pokec [OF l4 fit(4)] x5_def [symmetric]
        pokec [OF l5 fit(5)] x6_def [symmetric] pokec [OF l6 fit(6)] x7_def [symmetric]
        pokec [OF l7 fit(7)] x8 setc [OF lb hfit]
      by simp
  qed
  have hash': "hash ?c' = hash c" by (rule ext) (simp add: hash_def)
  have "cache_inv ?c' (es @ [e])"
  proof (rule cache_invI [of _ "stored c m e ?h" _ es1 "es2 @ [e]"])
    show "sizes_ok ?c'" using I(1) by (simp add: sizes_ok_def)
    show "cx ?c' = Some (stored c m e ?h)" by (simp add: st)
    show "length (stored c m e ?h) = csize ?c'" using sm(1) by simp
    show "list_all (entry_ok (stored c m e ?h)) (es @ [e])" by (rule sm(2))
    show "linked (stored c m e ?h) 0 (chain ?c' (es @ [e]) g)" if "head_slot ?c' g" for g
      unfolding hash' by (rule sm(3)) (use that in \<open>simp add: head_slot_def\<close>)
    show "layout (hsize ?c') (es2 @ [e]) (writer ?c')" using I(6) by (auto simp: layout_append e(1))
  qed (use I room el in simp_all)
  then show thesis using run by (intro that [of ?c']) (simp_all add: e_def)
qed

text \<open>
  What \<open>cache_set\<close> does to the entries: a rejected call keeps them; else the \<open>k\<close> oldest
  ones go and the new entry comes last, or all of them go if it can never fit.
\<close>

definition set_effect :: "cache \<Rightarrow> bytes \<Rightarrow> bytes \<Rightarrow> int \<Rightarrow> int \<Rightarrow> byte \<Rightarrow> centry list \<Rightarrow> centry list \<Rightarrow> bool" where
  "set_effect c key data ttl now flags es es' \<longleftrightarrow>
     (if length key > MAXKEYLEN \<or> length data > MAXDATALEN \<or> ttl \<le> 0 then es' = es
      else if hsize c + (length key + length data + 20) > csize c then es' = []
      else (\<exists>k p. k \<le> length es \<and> es' = drop k es @
        [\<lparr>e_pos = p, e_key = key, e_data = data, e_exp = exp_field (now + min ttl 604800) flags\<rparr>]))"

lemma cache_set_ok:
  assumes "cache_inv c es"
  shows "\<exists>c' es'. cache_set c key data ttl now flags = Some c' \<and> cache_inv c' es' \<and>
     set_effect c key data ttl now flags es es' \<and> hashkey c' = hashkey c \<and> hsize c' = hsize c \<and> csize c' = csize c"
proof (cases "length key > MAXKEYLEN \<or> length data > MAXDATALEN \<or> ttl \<le> 0")
  case True
  then show ?thesis using assms by (intro exI [of _ c] exI [of _ es]) (auto simp: cache_set_def set_effect_def)
next
  case False
  let ?n = "length key + length data + 20"
  have len: "length key \<le> MAXKEYLEN" "length data \<le> MAXDATALEN" using False by auto
  then have n: "?n \<le> 1001020" by (simp add: MAXKEYLEN_def MAXDATALEN_def)
  obtain m where m: "cx c = Some m" using assms by (auto simp: cache_inv_def)
  obtain ok c1 k where R: "make_room ?n c = Some (ok, c1)" "k \<le> length es" "cache_inv c1 (drop k es)" "same_frame c c1"
      "ok \<longrightarrow> writer c1 + ?n \<le> oldest c1" "\<not> ok \<longrightarrow> k = length es \<and> hsize c + ?n > csize c"
    using make_room_ok [OF assms n] by blast
  have fr: "hsize c1 = hsize c" "csize c1 = csize c" "hashkey c1 = hashkey c" using R(4) by (auto simp: same_frame_def)
  have set: "cache_set c key data ttl now flags =
      (if \<not> ok then Some c1 else cache_store c1 key data (min ttl 604800) now flags)"
    using False m R(1) by (simp add: cache_set_def)
  show ?thesis
  proof (cases ok)
    case no: False
    then show ?thesis
      using False R(3,6) set fr by (intro exI [of _ c1] exI [of _ "[]"]) (simp add: set_effect_def)
  next
    case True
    then have room: "writer c1 + ?n \<le> oldest c1" using R(5) by simp
    then have fits: "\<not> hsize c + ?n > csize c"
      using cache_inv_writer [OF R(3)] fr by linarith
    obtain c' where C: "cache_store c1 key data (min ttl 604800) now flags = Some c'"
        "cache_inv c' (drop k es @ [new_entry c1 key data (now + min ttl 604800) flags])"
        "hashkey c' = hashkey c1" "hsize c' = hsize c1" "csize c' = csize c1"
      by (rule cache_store_ok [OF R(3) len room])
    have "set_effect c key data ttl now flags es (drop k es @ [new_entry c1 key data (now + min ttl 604800) flags])"
      using False fits R(2) by (auto simp: set_effect_def new_entry_def)
    moreover have "cache_set c key data ttl now flags = Some c'" using True set C(1) by simp
    ultimately show ?thesis
      using C(2-5) fr by (intro exI [of _ c'] exI [of _ "drop k es @ [new_entry c1 key data (now + min ttl 604800) flags]"]) simp
  qed
qed

subsection \<open>Lookup\<close>

definition entry_ttl :: "bytes \<Rightarrow> int \<Rightarrow> int" where
  "entry_ttl ex now = sint (uint64_unpack (ex[7 := 0]) - word_of_int now :: u64)"

definition entry_result :: "centry \<Rightarrow> int \<Rightarrow> cache_result" where
  "entry_result e now =
     (if entry_ttl (e_exp e) now \<le> 0 then None
      else Some (e_data e, min (entry_ttl (e_exp e) now) 604800, e_exp e ! 7))"

text \<open>The counters are the only thing a lookup changes.\<close>

definition same_but_counters :: "cache \<Rightarrow> cache \<Rightarrow> bool" where
  "same_but_counters c c' \<longleftrightarrow> c' = c\<lparr>cache_hit := cache_hit c', cache_miss := cache_miss c'\<rparr>"

lemma cache_found_ok:
  assumes inv: "cache_inv c es" and e: "e \<in> set es" "e_key e = key"
  shows "\<exists>c'. cache_found c key now (e_pos e) = Some (entry_result e now, c') \<and> same_but_counters c c'"
proof -
  obtain m where I: "sizes_ok c" "cx c = Some m" "length m = csize c" "entry_ok m e"
    using inv e by (auto simp: cache_inv_def list_all_iff)
  have fit: "e_pos e + elen e \<le> csize c" using cache_inv_pos [OF inv e(1)] by simp
  have len: "e_pos e + (20 + length key + length (e_data e)) \<le> csize c" using fit by (simp add: elen_def e(2))
  have sz: "csize c < 2 ^ 32" using I(1) by (simp add: sizes_ok_def)
  note F = entry_fields [OF I(4), unfolded I(3), OF fit]
  have p1: "peek c (e_pos e + 12) 8 = Some (e_exp e)" using I(2,3) len F(3) by (simp add: peek_def)
  have a: "add32 (e_pos e) 8 = e_pos e + 8" using len sz by (simp add: add32_def)
  have g: "get4 c (e_pos e + 8) = Some (length (e_data e))"
    using get4_eq [OF I(2,3,1), of "e_pos e + 8"] len F(2) by simp
  have s: "sub32 (sub32 (csize c) (e_pos e)) 20 = csize c - e_pos e - 20"
    using sub32_le [of "e_pos e" "csize c"] sub32_le [of 20 "csize c - e_pos e"] len sz by simp
  have p2: "peek c (e_pos e + 20 + length key) (length (e_data e)) = Some (e_data e)"
    using I(2,3) len F(5) e(2) by (simp add: peek_def)
  have ok: "\<not> int (length (e_data e)) > int (csize c - e_pos e - 20) - int (length key)" using len by linarith
  show ?thesis
    unfolding cache_found_def p1 bind.bind_lunit Let_def a g s entry_result_def entry_ttl_def
    using ok p2 by (auto simp: same_but_counters_def)
qed

lemma cache_get_loop_ok:
  assumes inv: "cache_inv c es" and m: "cx c = Some m" and bs: "set bs \<subseteq> set es" "linked m prev (map e_pos bs)"
    and loop: "loop \<le> 100" and key: "length key \<le> MAXKEYLEN"
  shows "\<exists>c'. cache_get_loop c key now prev (if bs = [] then 0 else e_pos (hd bs)) loop =
     Some (case find (\<lambda>e. e_key e = key) (take (101 - loop) bs) of None \<Rightarrow> None | Some e \<Rightarrow> entry_result e now, c') \<and>
     same_but_counters c c'"
  using bs loop
proof (induction bs arbitrary: prev loop)
  case Nil
  then show ?case by (subst cache_get_loop.simps) (simp add: same_but_counters_def)
next
  case (Cons e bs)
  have I: "sizes_ok c" "length m = csize c" "entry_ok m e" using inv m Cons.prems(1) by (auto simp: cache_inv_def list_all_iff)
  have e: "e \<in> set es" using Cons.prems(1) by simp
  have fit: "e_pos e + elen e \<le> csize c" "hsize c \<le> e_pos e" using cache_inv_pos [OF inv e] by simp_all
  have len: "e_pos e + (20 + length (e_key e) + length (e_data e)) \<le> csize c" using fit by (simp add: elen_def)
  have sz: "csize c < 2 ^ 32" using I(1) by (simp add: sizes_ok_def)
  have pos: "e_pos e \<noteq> 0" using fit(2) hsize_dvd [OF I(1)] by simp
  note F = entry_fields [OF I(3), unfolded I(2), OF fit(1)]
  have a: "add32 (e_pos e) 4 = e_pos e + 4" "add32 (e_pos e) 20 = e_pos e + 20" using len sz by (simp_all add: add32_def)
  have g: "get4 c (e_pos e + 4) = Some (length (e_key e))" "get4 c (e_pos e) = Some (word_at m (e_pos e))"
    using get4_eq [OF m I(2,1), of "e_pos e + 4"] get4_eq [OF m I(2,1), of "e_pos e"] len F(1) by simp_all
  have pk: "peek c (e_pos e + 20) (length (e_key e)) = Some (e_key e)"
    using m I(2) len F(4) by (simp add: peek_def)
  have same: "(if length (e_key e) = length key
      then if e_pos e + 20 + length key > csize c then None
           else do { k \<leftarrow> peek c (e_pos e + 20) (length key); eq \<leftarrow> byte_isequal key (length key) k; Some (eq \<noteq> 0) }
      else Some False) = Some (e_key e = key)"
  proof (cases "length (e_key e) = length key")
    case True
    have "byte_isequal key (length key) (e_key e) = Some (if key = e_key e then 1 else 0)"
      using byte_isequal_eq [of "length key" key "e_key e"] True by simp
    then show ?thesis using True pk len by auto
  next
    case False
    then show ?thesis by auto
  qed
  have step: "cache_get_loop c key now prev (e_pos e) loop =
      (if e_key e = key then cache_found c key now (e_pos e)
       else if loop + 1 > 100 then Some (None, c\<lparr>cache_miss := cache_miss c + 1\<rparr>)
       else cache_get_loop c key now (e_pos e) (prev XOR word_at m (e_pos e)) (loop + 1))"
    by (subst cache_get_loop.simps) (simp only: pos a g same bind.bind_lunit if_True not_False_eq_True simp_thms if_False)
  have next_pos: "prev XOR word_at m (e_pos e) = (if bs = [] then 0 else e_pos (hd bs))"
    using Cons.prems(2) by (auto simp: hd_map)
  have tk: "take (101 - loop) (e # bs) = e # take (100 - loop) bs" 
  proof -
    have "101 - loop = Suc (100 - loop)" using Cons.prems(3) by simp
    then show ?thesis by simp
  qed
  show ?case
  proof (cases "e_key e = key")
    case True
    then show ?thesis using cache_found_ok [OF inv e True] step tk by simp
  next
    case False
    show ?thesis
    proof (cases "loop + 1 > 100")
      case True
      then show ?thesis using False step tk by (simp add: same_but_counters_def)
    next
      case more: False
      have "\<exists>c'. cache_get_loop c key now (e_pos e) (if bs = [] then 0 else e_pos (hd bs)) (loop + 1) =
         Some (case find (\<lambda>e. e_key e = key) (take (101 - (loop + 1)) bs) of None \<Rightarrow> None | Some e \<Rightarrow> entry_result e now, c') \<and>
         same_but_counters c c'"
        by (rule Cons.IH) (use Cons.prems more in auto)
      then show ?thesis using False more step tk next_pos by simp
    qed
  qed
qed

text \<open>The specification of a lookup: the newest matching entry among the first 101 of its bucket.\<close>

definition lookup :: "cache \<Rightarrow> centry list \<Rightarrow> bytes \<Rightarrow> int \<Rightarrow> cache_result" where
  "lookup c es key now =
     (case find (\<lambda>e. e_key e = key) (take 101 (bucket (hash c) es (hash c key))) of
        None \<Rightarrow> None | Some e \<Rightarrow> entry_result e now)"

lemma same_but_counters_inv:
  assumes "same_but_counters c c'" "cache_inv c es"
  shows "cache_inv c' es" "hash c' = hash c"
proof -
  define h where "h = cache_hit c'"
  define k where "k = cache_miss c'"
  have c': "c' = c\<lparr>cache_hit := h, cache_miss := k\<rparr>" using assms(1) by (simp add: same_but_counters_def h_def k_def)
  show hash': "hash c' = hash c" unfolding c' by (rule ext) (simp add: hash_def)
  show "cache_inv c' es"
    using assms(2) hash' unfolding cache_inv_def sizes_ok_def head_slot_def by (simp add: c')
qed

lemma cache_get_ok:
  assumes "cache_inv c es" "length key \<le> MAXKEYLEN"
  shows "\<exists>c'. cache_get c key now = Some (lookup c es key now, c') \<and> same_but_counters c c' \<and> cache_inv c' es"
proof -
  obtain m where I: "sizes_ok c" "cx c = Some m" "length m = csize c"
      "\<And>h. head_slot c h \<Longrightarrow> linked m 0 (chain c es h)"
    using assms(1) by (auto simp: cache_inv_def)
  let ?h = "hash c key" let ?bs = "bucket (hash c) es ?h"
  have hs: "head_slot c ?h" using hash_slot [OF I(1)] .
  have "?h + 4 \<le> csize c" using slot_fits [OF assms(1), of ?h] hs by (simp add: slot_def)
  then have g: "get4 c ?h = Some (if ?bs = [] then 0 else e_pos (hd ?bs))"
    using get4_eq [OF I(2,3,1)] bucket_head(1) [OF assms(1) I(2) hs] by simp
  have lk: "linked m ?h (map e_pos ?bs)" using I(4) [OF hs] by simp
  have sub: "set ?bs \<subseteq> set es" by (auto simp: bucket_set)
  obtain c' where C: "cache_get_loop c key now ?h (if ?bs = [] then 0 else e_pos (hd ?bs)) 0 =
     Some (case find (\<lambda>e. e_key e = key) (take (101 - 0) ?bs) of None \<Rightarrow> None | Some e \<Rightarrow> entry_result e now, c')"
     "same_but_counters c c'"
    using cache_get_loop_ok [OF assms(1) I(2) sub lk _ assms(2), of 0] by auto
  have "cache_get c key now = Some (lookup c es key now, c')"
    using C(1) g I(2) assms(2) by (simp add: cache_get_def lookup_def)
  then show ?thesis using C(2) same_but_counters_inv [OF C(2) assms(1)] by blast
qed

end
