(* ===== verification/CacheRun.thy ===== *)
theory CacheRun
  imports Cache
begin

section \<open>The cache over its lifetime\<close>

text \<open>
  \<open>cache_init\<close> establishes the invariant of Cache, every sequence of lookups and insertions
  keeps it, and what a lookup returns is read off the list of entries.  The second half is
  the dump file (\<open>cache_dump\<close>, \<open>cache_load\<close>): what is written, and that reading it back
  performs the insertions of the saved entries in their old order.
\<close>

subsection \<open>The dump file\<close>

definition DNS_T_AXFR :: bytes where "DNS_T_AXFR = [0, 252]"
definition DNS_T_ANY :: bytes where "DNS_T_ANY = [0, 255]"

text \<open>
  One loop of \<open>cache_dump\<close>, from \<open>pos\<close> to \<open>lim\<close>.  The output file is the parameter \<open>put\<close>
  (\<open>buffer_put\<close>; \<open>None\<close> its result -1) on a state \<open>'f\<close>; the inner option is the early
  return of -1.  The loop need not end on a block with a wrong length field.
\<close>

partial_function (option) dump_loop ::
    "('f \<Rightarrow> bytes \<Rightarrow> 'f option) \<Rightarrow> cache \<Rightarrow> nat \<Rightarrow> nat \<Rightarrow> 'f \<Rightarrow> 'f option option" where
  "dump_loop put c lim pos f =
     (if pos < lim
      then do {
        kl \<leftarrow> get4 c (add32 pos 4);
        dl \<leftarrow> get4 c (add32 pos 8);
        let len = add32 (add32 kl dl) 16;
        ty \<leftarrow> peek c (pos + 20) 2;
        a \<leftarrow> byte_diff ty 2 DNS_T_AXFR;
        n \<leftarrow> byte_diff ty 2 DNS_T_ANY;
        if a \<noteq> 0 \<and> n \<noteq> 0
        then do {
          blk \<leftarrow> peek c (pos + 4) len;
          (case put f blk of
             None \<Rightarrow> Some None
           | Some f1 \<Rightarrow> dump_loop put c lim (add32 pos (4 + len)) f1) }
        else dump_loop put c lim (add32 pos (4 + len)) f }
      else Some (Some f))"

text \<open>
  \<open>cache_dump\<close>: \<open>f0\<close> is the opened file (\<open>None\<close> if \<open>open_trunc\<close> fails), \<open>fin\<close> the calls
  after the loops (flush, sync, close, chmod, rename; \<open>False\<close> if one of them fails).  The
  result is the return value and the written file.
\<close>

definition cache_dump ::
    "('f \<Rightarrow> bytes \<Rightarrow> 'f option) \<Rightarrow> ('f \<Rightarrow> bool) \<Rightarrow> 'f option \<Rightarrow> cache \<Rightarrow> (int \<times> 'f option) option" where
  "cache_dump put fin f0 c =
     (case f0 of
        None \<Rightarrow> Some (-1, None)
      | Some f \<Rightarrow> do {
          r1 \<leftarrow> dump_loop put c (unused c) (oldest c) f;
          (case r1 of
             None \<Rightarrow> Some (-1, None)
           | Some f1 \<Rightarrow> do {
               r2 \<leftarrow> dump_loop put c (writer c) (hsize c) f1;
               (case r2 of
                  None \<Rightarrow> Some (-1, None)
                | Some f2 \<Rightarrow> Some (if fin f2 then (0, Some f2) else (-1, None))) }) })"

text \<open>
  \<open>cache_set\<close> called with pointers into the mapped file: the length tests come before the
  first access.
\<close>

definition cache_set_at :: "cache \<Rightarrow> bytes \<Rightarrow> nat \<Rightarrow> nat \<Rightarrow> nat \<Rightarrow> int \<Rightarrow> int \<Rightarrow> byte \<Rightarrow> cache option" where
  "cache_set_at c xx pos keylen datalen ttl now flags =
     (if keylen > MAXKEYLEN \<or> datalen > MAXDATALEN then Some c
      else if pos + keylen + datalen > length xx then None
      else cache_set c (mem_read xx pos keylen) (mem_read xx (pos + keylen) datalen) ttl now flags)"

partial_function (option) load_loop :: "int \<Rightarrow> bytes \<Rightarrow> nat \<Rightarrow> cache \<Rightarrow> cache option" where
  "load_loop now xx pos c =
     (if add32 pos 16 \<le> length xx
      then if pos + 16 > length xx then None
        else
         (let keylen = word_at xx pos;
              datalen = word_at xx (pos + 4);
              expirestr = mem_read xx (pos + 8) 8;
              flags = expirestr ! 7;
              expire = sint (uint64_unpack (expirestr[7 := 0]) - word_of_int now :: u64);
              pos1 = add32 pos 16
          in if add32 (add32 pos1 keylen) datalen > length xx then Some c
             else do {
               c1 \<leftarrow> (if expire > 0 then cache_set_at c xx pos1 keylen datalen expire now flags else Some c);
               load_loop now xx (add32 pos1 (add32 keylen datalen)) c1 })
      else Some c)"

text \<open>
  \<open>cache_load\<close> on the contents of the file; \<open>None\<close> for a file that is not there.  The
  failures of \<open>open\<close>, \<open>fstat\<close> and \<open>mmap\<close> return -1 and leave the cache as it is.
\<close>

definition cache_load :: "int \<Rightarrow> bytes option \<Rightarrow> cache \<Rightarrow> cache option" where
  "cache_load now file c =
     (case file of None \<Rightarrow> Some c | Some xx \<Rightarrow> if xx = [] then Some c else load_loop now xx 0 c)"

subsection \<open>Sequences of operations\<close>

datatype cache_op =
    Get bytes int
  | Set bytes bytes int int byte

definition cache_step :: "cache_op \<Rightarrow> cache \<Rightarrow> (cache_result \<times> cache) option" where
  "cache_step op c =
     (case op of
        Get key now \<Rightarrow> cache_get c key now
      | Set key data ttl now flags \<Rightarrow> map_option (Pair None) (cache_set c key data ttl now flags))"

primrec run_ops :: "('o \<Rightarrow> 's \<Rightarrow> ('r \<times> 's) option) \<Rightarrow> 'o list \<Rightarrow> 's \<Rightarrow> ('r list \<times> 's) option" where
  "run_ops step [] s = Some ([], s)"
| "run_ops step (op # ops) s =
     do { (r, s1) \<leftarrow> step op s; (rs, s2) \<leftarrow> run_ops step ops s1; Some (r # rs, s2) }"

text \<open>
  The contract of a component with a ghost state: \<open>rep s a\<close> relates a concrete state to an
  abstract one, and every operation runs to its end and takes related states to related
  states by the specification \<open>spec\<close>.  Whole runs then do so too.
\<close>

inductive spec_run :: "('o \<Rightarrow> 'a \<Rightarrow> 'r \<Rightarrow> 'a \<Rightarrow> bool) \<Rightarrow> 'a \<Rightarrow> 'o list \<Rightarrow> 'r list \<Rightarrow> 'a \<Rightarrow> bool"
  for spec where
  spec_Nil: "spec_run spec a [] [] a"
| spec_Cons: "spec op a r a1 \<Longrightarrow> spec_run spec a1 ops rs a2 \<Longrightarrow> spec_run spec a (op # ops) (r # rs) a2"

inductive_cases spec_run_ConsE: "spec_run spec a (op # ops) rs a2"
inductive_cases spec_run_NilE: "spec_run spec a [] rs a2"

locale ghost_machine =
  fixes rep :: "'s \<Rightarrow> 'a \<Rightarrow> bool" and step :: "'o \<Rightarrow> 's \<Rightarrow> ('r \<times> 's) option"
    and spec :: "'o \<Rightarrow> 'a \<Rightarrow> 'r \<Rightarrow> 'a \<Rightarrow> bool"
  assumes step_ok: "rep s a \<Longrightarrow> \<exists>r s' a'. step op s = Some (r, s') \<and> spec op a r a' \<and> rep s' a'"
begin

lemma run_ok:
  "rep s a \<Longrightarrow> \<exists>rs s' a'. run_ops step ops s = Some (rs, s') \<and> spec_run spec a ops rs a' \<and> rep s' a'"
proof (induction ops arbitrary: s a)
  case Nil
  then show ?case by (auto intro: spec_Nil)
next
  case (Cons op ops)
  obtain r s1 a1 where 1: "step op s = Some (r, s1)" "spec op a r a1" "rep s1 a1"
    using step_ok [OF Cons.prems] by blast
  obtain rs s2 a2 where 2: "run_ops step ops s1 = Some (rs, s2)" "spec_run spec a1 ops rs a2" "rep s2 a2"
    using Cons.IH [OF 1(3)] by blast
  have "run_ops step (op # ops) s = Some (r # rs, s2)" by (simp add: 1 2)
  moreover have "spec_run spec a (op # ops) (r # rs) a2" by (rule spec_Cons [OF 1(2) 2(2)])
  ultimately show ?case using 2(3) by blast
qed

end

text \<open>
  The abstract cache: the geometry and the hash function, and the list of entries.  A lookup
  returns what \<open>lookup\<close> says; an insertion has the effect \<open>set_effect\<close>.
\<close>

record abs_cache =
  a_hash :: "bytes \<Rightarrow> nat"
  a_room :: nat
  a_entries :: "centry list"

definition abs_lookup :: "abs_cache \<Rightarrow> bytes \<Rightarrow> int \<Rightarrow> cache_result" where
  "abs_lookup a key now =
     (if length key > MAXKEYLEN then None
      else case find (\<lambda>e. e_key e = key) (take 101 (bucket (a_hash a) (a_entries a) (a_hash a key))) of
        None \<Rightarrow> None | Some e \<Rightarrow> entry_result e now)"

fun abs_step :: "cache_op \<Rightarrow> abs_cache \<Rightarrow> cache_result \<Rightarrow> abs_cache \<Rightarrow> bool" where
  "abs_step (Get key now) a r a' \<longleftrightarrow> a' = a \<and> r = abs_lookup a key now"
| "abs_step (Set key data ttl now flags) a r a' \<longleftrightarrow> r = None \<and>
     (if length key > MAXKEYLEN \<or> length data > MAXDATALEN \<or> ttl \<le> 0 then a' = a
      else if length key + length data + 20 > a_room a then a' = a\<lparr>a_entries := []\<rparr>
      else (\<exists>k p. k \<le> length (a_entries a) \<and> a' = a\<lparr>a_entries := drop k (a_entries a) @
        [\<lparr>e_pos = p, e_key = key, e_data = data, e_exp = exp_field (now + min ttl 604800) flags\<rparr>]\<rparr>))"

definition cache_rep :: "cache \<Rightarrow> abs_cache \<Rightarrow> bool" where
  "cache_rep c a \<longleftrightarrow> cache_inv c (a_entries a) \<and> a_hash a = hash c \<and> a_room a = csize c - hsize c"

lemma hash_cong: "hashkey c' = hashkey c \<Longrightarrow> hsize c' = hsize c \<Longrightarrow> hash c' = hash c"
  by (rule ext) (simp add: hash_def)

lemma cache_rep_hsize: "cache_rep c a \<Longrightarrow> hsize c < csize c"
  by (simp add: cache_rep_def cache_inv_def sizes_ok_def)

lemma cache_step_get:
  assumes "cache_rep c a"
  shows "\<exists>r c' a'. cache_step (Get key now) c = Some (r, c') \<and> abs_step (Get key now) a r a' \<and> cache_rep c' a'"
proof (cases "length key > MAXKEYLEN")
  case True
  then have "cache_step (Get key now) c = Some (None, c)" by (simp add: cache_step_def cache_get_def)
  then show ?thesis using True assms by (simp add: abs_lookup_def)
next
  case False
  obtain c' where c': "cache_get c key now = Some (lookup c (a_entries a) key now, c')"
      "same_but_counters c c'" "cache_inv c' (a_entries a)"
    using cache_get_ok [of c "a_entries a" key now] assms False by (auto simp: cache_rep_def)
  have "csize c' = csize c \<and> hsize c' = hsize c"
    using c'(2) unfolding same_but_counters_def by (metis cache.simps(2,3) cache.ext_inject cache.surjective cache.update_convs(9,10))
  moreover have "hash c' = hash c"
    using same_but_counters_inv(2) [OF c'(2)] assms by (auto simp: cache_rep_def)
  ultimately have "cache_rep c' a" using c'(3) assms by (simp add: cache_rep_def)
  moreover have "lookup c (a_entries a) key now = abs_lookup a key now"
    using False assms by (simp add: abs_lookup_def lookup_def cache_rep_def)
  ultimately show ?thesis using c'(1) by (simp add: cache_step_def)
qed

lemma cache_step_set:
  assumes "cache_rep c a"
  shows "\<exists>r c' a'. cache_step (Set key data ttl now flags) c = Some (r, c') \<and>
    abs_step (Set key data ttl now flags) a r a' \<and> cache_rep c' a'"
proof -
  obtain c' es' where c': "cache_set c key data ttl now flags = Some c'" "cache_inv c' es'"
      "set_effect c key data ttl now flags (a_entries a) es'" "hashkey c' = hashkey c" "hsize c' = hsize c" "csize c' = csize c"
    using cache_set_ok [of c "a_entries a" key data ttl now flags] assms by (auto simp: cache_rep_def)
  let ?a' = "a\<lparr>a_entries := es'\<rparr>"
  have "cache_rep c' ?a'"
    using assms c' hash_cong [OF c'(4,5)] by (simp add: cache_rep_def)
  moreover have "abs_step (Set key data ttl now flags) a None ?a'"
    using c'(3) assms cache_rep_hsize [OF assms] unfolding set_effect_def
    by (auto simp: cache_rep_def split: if_splits)
  moreover have "cache_step (Set key data ttl now flags) c = Some (None, c')" using c'(1) by (simp add: cache_step_def)
  ultimately show ?thesis by blast
qed

interpretation cm: ghost_machine cache_rep cache_step abs_step
proof
  fix c a op
  assume "cache_rep c a"
  then show "\<exists>r s' a'. cache_step op c = Some (r, s') \<and> abs_step op a r a' \<and> cache_rep s' a'"
    using cache_step_get cache_step_set by (cases op) auto
qed

subsection \<open>Initialisation\<close>

lemma hsize_loop_pow:
  assumes "2 \<le> k"
  shows "\<exists>j \<ge> 2. hsize_loop lim (2 ^ k) = 2 ^ j \<and> (2 ^ j \<le> 2 * lim \<or> j = k)"
  using assms
proof (induction lim "(2 :: nat) ^ k" arbitrary: k rule: hsize_loop.induct)
  case (1 lim)
  show ?case
  proof (cases "(2 :: nat) ^ k \<le> lim")
    case True
    have "\<exists>j \<ge> 2. hsize_loop lim (2 ^ Suc k) = 2 ^ j \<and> (2 ^ j \<le> 2 * lim \<or> j = Suc k)"
      by (rule 1(1)) (use 1(2) True in auto)
    moreover have "hsize_loop lim (2 ^ k) = hsize_loop lim (2 ^ Suc k)"
      by (subst hsize_loop.simps) (use True in simp)
    ultimately show ?thesis using True by auto
  next
    case False
    then have "hsize_loop lim (2 ^ k) = 2 ^ k" by (subst hsize_loop.simps) simp
    then show ?thesis using 1(2) by auto
  qed
qed

lemma linked_zero: "word_at (replicate n 0) p = 0" if "p + 4 \<le> n"
proof -
  have "mem_read (replicate n (0 :: byte)) p 4 = replicate 4 0" using that by (simp add: mem_read_def)
  then show ?thesis by (simp add: word_at_def uint32_unpack_def numeral_eq_Suc)
qed

lemma cache_init_inv:
  assumes "cache_init al rnd c0 n = (True, c)"
  shows "cache_inv c []"
proof -
  define sz where "sz = nat (if n > 3000000000 then 3000000000 else if n < 100 then 100 else n)"
  obtain j where j: "2 \<le> j" "hsize_loop (sz div 32) 4 = 2 ^ j" "2 ^ j \<le> 2 * (sz div 32) \<or> j = 2"
    using hsize_loop_pow [of 2 "sz div 32"] by auto
  have s: "100 \<le> sz" "sz \<le> 3000000000" by (auto simp: sz_def nat_le_iff le_nat_iff)
  have c: "c = c0\<lparr>hashkey := rnd, cx := Some (replicate sz 0), csize := sz, hsize := 2 ^ j, writer := 2 ^ j,
      oldest := sz, unused := sz\<rparr>"
    using assms j(2) unfolding cache_init_def sz_def [symmetric] Let_def by (auto split: if_splits)
  have lt: "(2 :: nat) ^ j < sz"
  proof -
    have "2 * (sz div 32) < sz" using s(1) by linarith
    then show ?thesis using j(3) s(1) by auto
  qed
  have ok: "sizes_ok c" using s j(1) lt unfolding sizes_ok_def c by auto
  show ?thesis
  proof (rule cache_invI [OF ok, where m = "replicate sz 0" and ?es1.0 = "[]" and ?es2.0 = "[]"])
    fix h
    assume "head_slot c h"
    then have "h + 4 \<le> sz" using head_slot_end [OF ok] lt by (fastforce simp: c)
    then show "linked (replicate sz 0) 0 (h # map e_pos (bucket (hash c) [] h))"
      using linked_zero by (simp add: bucket_def)
  qed (use lt in \<open>simp_all add: c\<close>)
qed

subsection \<open>The expiry field\<close>

lemma nth_pack_le: "i < n \<Longrightarrow> pack_le n x ! i = ucast (drop_bit (8 * i) x)"
proof (induction n arbitrary: i x)
  case (Suc n)
  then show ?case by (cases i) (simp_all add: add.commute)
qed simp

lemma pack_le_top_zero:
  assumes "uint x < 2 ^ 56"
  shows "(uint64_pack x)[7 := 0] = uint64_pack x"
proof -
  have "drop_bit 56 x = 0"
  proof (rule word_eqI_nat)
    have "int (unat x) < int (2 ^ 56)" using assms by (simp only: uint_nat [symmetric] of_nat_power of_nat_numeral)
    then have "unat x < 2 ^ 56" by (simp only: of_nat_less_iff)
    then have "drop_bit 56 (unat x) = 0" by (simp add: drop_bit_eq_div)
    then show "unat (drop_bit 56 x) = unat (0 :: u64)" by (simp only: unat_drop_bit_eq unsigned_0)
  qed
  then have "uint64_pack x ! 7 = 0" by (simp add: uint64_pack_def nth_pack_le)
  then show ?thesis by (metis list_update_id)
qed

lemma entry_ttl_exp_field:
  assumes "0 \<le> t" "t < 2 ^ 56" "0 \<le> now" "now < 2 ^ 56"
  shows "entry_ttl (exp_field t f) now = t - now"
proof -
  have u: "uint (word_of_int t :: u64) = t" using assms by (simp add: uint_word_of_int)
  have "((uint64_pack (word_of_int t))[7 := f])[7 := 0] = uint64_pack (word_of_int t)"
    using pack_le_top_zero [of "word_of_int t"] u assms(2) by simp
  then have "entry_ttl (exp_field t f) now = sint (word_of_int (t - now) :: u64)"
    by (simp add: entry_ttl_def exp_field_def)
  also have "\<dots> = t - now" using assms by (intro sint_word_of_int_small) simp_all
  finally show ?thesis .
qed

subsection \<open>Writing and reading the dump file\<close>

text \<open>The entries that are saved: every entry but the ones of the query types AXFR and ANY.\<close>

definition saved :: "centry \<Rightarrow> bool" where
  "saved e \<longleftrightarrow> take 2 (e_key e) \<noteq> DNS_T_AXFR \<and> take 2 (e_key e) \<noteq> DNS_T_ANY"

lemma byte_diff_two:
  assumes "length a = 2" "length b = 2"
  shows "\<exists>d. byte_diff a 2 b = Some d \<and> (d = 0 \<longleftrightarrow> a = b)"
  using byte_diff_loop_zero [where i = 0 and y = a and n = 2 and x = b] assms by (auto simp: byte_diff_def)

lemma dump_loop_ok:
  assumes inv: "cache_inv c all" and put: "\<And>f b. put f b = Some (f @ b)"
    and es: "set es \<subseteq> set all" "\<forall>e \<in> set es. 2 \<le> length (e_key e)" "layout a es b"
  shows "dump_loop put c b a f = Some (Some (f @ concat (map ebody (filter saved es))))"
  using es
proof (induction es arbitrary: a f)
  case Nil
  then show ?case by (subst dump_loop.simps) simp
next
  case (Cons e es)
  obtain m where I: "sizes_ok c" "cx c = Some m" "length m = csize c" "entry_ok m e"
    using inv Cons.prems(1) by (auto simp: cache_inv_def list_all_iff)
  have a: "a = e_pos e" "layout (a + elen e) es b" using Cons.prems(3) by simp_all
  have fit: "e_pos e + elen e \<le> csize c" using cache_inv_pos [OF inv] Cons.prems(1) by simp
  have len: "e_pos e + (20 + length (e_key e) + length (e_data e)) \<le> csize c" "csize c < 2 ^ 32"
    using fit I(1) by (simp_all add: elen_def sizes_ok_def)
  have lt: "a < b" using layout_bounds [OF a(2)] elen_ge [of e] by linarith
  have k2: "2 \<le> length (e_key e)" using Cons.prems(2) by simp
  note F = entry_fields [OF I(4), unfolded I(3), OF fit]
  have g: "get4 c (a + 4) = Some (length (e_key e))" "get4 c (a + 8) = Some (length (e_data e))"
    using get4_eq [OF I(2,3,1), of "a + 4"] get4_eq [OF I(2,3,1), of "a + 8"] len F(1,2) a(1) by simp_all
  have s: "add32 a 4 = a + 4" "add32 a 8 = a + 8"
      "add32 (add32 (length (e_key e)) (length (e_data e))) 16 = elen e - 4" "add32 a (4 + (elen e - 4)) = a + elen e"
    using len a(1) by (simp_all add: add32_def elen_def)
  have blk: "peek c (a + 4) (elen e - 4) = Some (ebody e)"
    using I fit a(1) elen_ge [of e] by (simp add: peek_def entry_ok_def)
  have ty: "peek c (a + 20) 2 = Some (take 2 (e_key e))"
  proof -
    have "mem_read m (a + 20) 2 = take 2 (mem_read m (a + 20) (length (e_key e)))"
      using k2 by (simp add: mem_read_def)
    then show ?thesis using I len a(1) k2 F(4) by (simp add: peek_def)
  qed
  obtain d1 where d1: "byte_diff (take 2 (e_key e)) 2 DNS_T_AXFR = Some d1" "d1 = 0 \<longleftrightarrow> take 2 (e_key e) = DNS_T_AXFR"
    using byte_diff_two [of "take 2 (e_key e)" DNS_T_AXFR] k2 by (auto simp: DNS_T_AXFR_def)
  obtain d2 where d2: "byte_diff (take 2 (e_key e)) 2 DNS_T_ANY = Some d2" "d2 = 0 \<longleftrightarrow> take 2 (e_key e) = DNS_T_ANY"
    using byte_diff_two [of "take 2 (e_key e)" DNS_T_ANY] k2 by (auto simp: DNS_T_ANY_def)
  have step: "dump_loop put c b a f =
      dump_loop put c b (a + elen e) (if saved e then f @ ebody e else f)"
    by (subst dump_loop.simps) (simp add: lt s g ty d1 d2 blk put saved_def Let_def)
  show ?case
    unfolding step using Cons.IH [of "a + elen e"] Cons.prems a(2) by simp
qed

lemma cache_dump_ok:
  assumes inv: "cache_inv c es" and keys: "\<forall>e \<in> set es. 2 \<le> length (e_key e)"
  shows "cache_dump (\<lambda>f b. Some (f @ b)) (\<lambda>f. True) (Some []) c =
     Some (0, Some (concat (map ebody (filter saved es))))"
proof -
  obtain es1 es2 where L: "es = es1 @ es2" "layout (oldest c) es1 (unused c)" "layout (hsize c) es2 (writer c)"
    using inv by (auto simp: cache_inv_def)
  have 1: "dump_loop (\<lambda>f b. Some (f @ b)) c (unused c) (oldest c) f = Some (Some (f @ concat (map ebody (filter saved es1))))" for f
    by (rule dump_loop_ok [OF inv]) (use L keys in auto)
  have 2: "dump_loop (\<lambda>f b. Some (f @ b)) c (writer c) (hsize c) f = Some (Some (f @ concat (map ebody (filter saved es2))))" for f
    by (rule dump_loop_ok [OF inv]) (use L keys in auto)
  show ?thesis by (simp add: cache_dump_def 1 2 L(1))
qed

text \<open>The insertions that reading the records of \<open>es\<close> performs.\<close>

primrec reinsert :: "int \<Rightarrow> centry list \<Rightarrow> cache \<Rightarrow> cache option" where
  "reinsert now [] c = Some c"
| "reinsert now (e # es) c =
     do { c1 \<leftarrow> (if entry_ttl (e_exp e) now > 0
              then cache_set c (e_key e) (e_data e) (entry_ttl (e_exp e) now) now (e_exp e ! 7) else Some c);
          reinsert now es c1 }"

lemma word_at_prefix: "word_at (pre @ uint32_pack (of_nat n) @ post) (length pre) = n" if "n < 2 ^ 32"
  using that by (simp add: word_at_def mem_read_def unat_of_nat)

lemma ebody_fields:
  assumes "entry_ok m e" and x: "xx = pre @ ebody e @ post"
  shows "word_at xx (length pre) = length (e_key e)" "word_at xx (length pre + 4) = length (e_data e)"
    "mem_read xx (length pre + 8) 8 = e_exp e" "mem_read xx (length pre + 16) (length (e_key e)) = e_key e"
    "mem_read xx (length pre + 16 + length (e_key e)) (length (e_data e)) = e_data e"
proof -
  have k: "length (e_key e) < 2 ^ 32" "length (e_data e) < 2 ^ 32" "length (e_exp e) = 8"
    using assms(1) by (simp_all add: entry_ok_def MAXKEYLEN_def MAXDATALEN_def)
  let ?k = "uint32_pack (of_nat (length (e_key e)))" let ?d = "uint32_pack (of_nat (length (e_data e)))"
  show "word_at xx (length pre) = length (e_key e)"
    using word_at_prefix [OF k(1), of pre] by (simp add: x ebody_def)
  show "word_at xx (length pre + 4) = length (e_data e)"
    using word_at_prefix [OF k(2), of "pre @ ?k"] by (simp add: x ebody_def length_packs)
  show "mem_read xx (length pre + 8) 8 = e_exp e" "mem_read xx (length pre + 16) (length (e_key e)) = e_key e"
    "mem_read xx (length pre + 16 + length (e_key e)) (length (e_data e)) = e_data e"
    using k(3) by (simp_all add: x ebody_def mem_read_def length_packs)
qed

lemma load_loop_ok:
  assumes ok: "list_all (entry_ok m) es" and size: "length (pre @ concat (map ebody es)) + 16 < 2 ^ 32"
  shows "load_loop now (pre @ concat (map ebody es)) (length pre) c = reinsert now es c"
  using ok size
proof (induction es arbitrary: pre c)
  case Nil
  then have "add32 (length pre) 16 = length pre + 16" by (simp add: add32_def)
  then show ?case by (subst load_loop.simps) simp
next
  case (Cons e es)
  let ?x = "pre @ concat (map ebody (e # es))"
  have e: "entry_ok m e" using Cons.prems(1) by simp
  have len: "length (ebody e) = 16 + length (e_key e) + length (e_data e)"
    using e by (simp add: length_ebody elen_def entry_ok_def)
  have F: "word_at ?x (length pre) = length (e_key e)" "word_at ?x (length pre + 4) = length (e_data e)"
    "mem_read ?x (length pre + 8) 8 = e_exp e" "mem_read ?x (length pre + 16) (length (e_key e)) = e_key e"
    "mem_read ?x (length pre + 16 + length (e_key e)) (length (e_data e)) = e_data e"
    by (rule ebody_fields [OF e, of _ pre "concat (map ebody es)"]; simp)+
  have lx: "length ?x = length pre + 16 + length (e_key e) + length (e_data e) + length (concat (map ebody es))"
    using len by simp
  then have a: "add32 (length pre) 16 = length pre + 16"
      "add32 (add32 (length pre + 16) (length (e_key e))) (length (e_data e)) = length pre + length (ebody e)"
      "add32 (length pre + 16) (add32 (length (e_key e)) (length (e_data e))) = length pre + length (ebody e)"
    using Cons.prems(2) len by (simp_all add: add32_def)
  have set: "cache_set_at c ?x (length pre + 16) (length (e_key e)) (length (e_data e)) t now f =
      cache_set c (e_key e) (e_data e) t now f" for c t f
    using e lx F(4,5) by (simp add: cache_set_at_def entry_ok_def)
  have rest: "load_loop now ?x (length pre + length (ebody e)) = reinsert now es"
    using Cons.IH [of "pre @ ebody e"] Cons.prems by (intro ext) simp
  have cond: "\<not> length pre + 16 > length ?x" "length pre + 16 \<le> length ?x" "\<not> length pre + length (ebody e) > length ?x"
    using lx len by linarith+
  show ?case
    by (subst load_loop.simps)
      (simp only: a F set rest cond Let_def if_True if_False reinsert.simps entry_ttl_def refl simp_thms)
qed

lemma ebody_neq_Nil [simp]: "ebody e \<noteq> []"
proof
  assume "ebody e = []"
  then have "length (ebody e) = 0" by simp
  then show False by (simp add: ebody_def length_packs)
qed

lemma cache_load_entries:
  assumes "list_all (entry_ok m) es" "length (concat (map ebody es)) + 16 < 2 ^ 32"
  shows "cache_load now (Some (concat (map ebody es))) c = reinsert now es c"
proof (cases es)
  case Nil
  then show ?thesis by (simp add: cache_load_def)
next
  case (Cons e es')
  then have "concat (map ebody es) \<noteq> []" by simp
  then show ?thesis using load_loop_ok [OF assms(1), of "[]" now c] assms(2) by (simp add: cache_load_def)
qed

lemma concat_ebody_length:
  "list_all (entry_ok m) es \<Longrightarrow> layout a es b \<Longrightarrow> length (concat (map ebody (filter P es))) \<le> b - a"
proof (induction es arbitrary: a)
  case (Cons e es)
  have "length (ebody e) = elen e - 4" using Cons.prems(1) by (simp add: length_ebody entry_ok_def)
  moreover have "a + elen e \<le> b" using layout_bounds [of "a + elen e" es b] Cons.prems(2) by simp
  ultimately show ?case using Cons.IH [of "a + elen e"] Cons.prems elen_ge [of e] by auto
qed simp

subsection \<open>Lookups\<close>

lemma lookup_newest:
  assumes "e_key e = key"
  shows "lookup c (es @ [e]) key now = entry_result e now"
  using assms by (simp add: lookup_def bucket_snoc)

lemma entry_result_fresh:
  assumes "0 \<le> now" "now' < now + ttl" "now \<le> now'" "ttl \<le> 604800" "now < 2 ^ 55"
  shows "entry_result \<lparr>e_pos = p, e_key = k, e_data = d, e_exp = exp_field (now + ttl) f\<rparr> now' =
    Some (d, now + ttl - now', f)"
proof -
  have "entry_ttl (exp_field (now + ttl) f) now' = now + ttl - now'"
    using assms by (intro entry_ttl_exp_field) simp_all
  then show ?thesis using assms by (simp add: entry_result_def exp_field_def)
qed

text \<open>Where the entries of an abstract run come from.\<close>

definition set_in :: "cache_op list \<Rightarrow> centry \<Rightarrow> bool" where
  "set_in ops e \<longleftrightarrow> (\<exists>ttl now f. Set (e_key e) (e_data e) ttl now f \<in> set ops \<and> 0 < ttl \<and>
     e_exp e = exp_field (now + min ttl 604800) f)"

lemma abs_step_entries:
  "abs_step op a r a' \<Longrightarrow> e \<in> set (a_entries a') \<Longrightarrow> e \<in> set (a_entries a) \<or> set_in [op] e"
  by (cases op) (auto simp: set_in_def split: if_splits dest: in_set_dropD)

lemma spec_run_entries:
  "spec_run abs_step a ops rs a' \<Longrightarrow> e \<in> set (a_entries a') \<Longrightarrow> e \<in> set (a_entries a) \<or> set_in ops e"
proof (induction rule: spec_run.induct)
  case (spec_Cons op a r a1 ops rs a2)
  then have "e \<in> set (a_entries a) \<or> set_in [op] e \<or> set_in ops e" using abs_step_entries by blast
  then show ?case by (auto simp: set_in_def)
qed auto

lemma spec_run_snoc:
  "spec_run spec a (ops @ [op]) rs a' \<Longrightarrow>
   \<exists>rs1 r a1. rs = rs1 @ [r] \<and> spec_run spec a ops rs1 a1 \<and> spec op a1 r a'"
proof (induction ops arbitrary: a rs)
  case Nil
  then show ?case by (fastforce elim: spec_run_ConsE spec_run_NilE intro: spec_Nil)
next
  case (Cons o1 ops)
  obtain r a1 rs' where 1: "rs = r # rs'" "spec o1 a r a1" "spec_run spec a1 (ops @ [op]) rs' a'"
    using Cons.prems by (auto elim: spec_run_ConsE)
  obtain rs1 r2 a2 where 2: "rs' = rs1 @ [r2]" "spec_run spec a1 ops rs1 a2" "spec op a2 r2 a'"
    using Cons.IH [OF 1(3)] by blast
  show ?case using 1(1) 2(1,3) spec_Cons [OF 1(2) 2(2)] by (intro exI [of _ "r # rs1"]) auto
qed

lemma find_in_set: "find P xs = Some x \<Longrightarrow> x \<in> set xs \<and> P x"
  by (induction xs) (auto split: if_splits)

lemma abs_lookup_entry:
  assumes "abs_lookup a key now = Some x"
  obtains e where "e \<in> set (a_entries a)" "e_key e = key" "entry_result e now = Some x"
proof -
  obtain e where e: "find (\<lambda>e. e_key e = key) (take 101 (bucket (a_hash a) (a_entries a) (a_hash a key))) = Some e"
      "entry_result e now = Some x"
    using assms by (auto simp: abs_lookup_def split: if_splits option.splits)
  have "e \<in> set (bucket (a_hash a) (a_entries a) (a_hash a key))" "e_key e = key"
    using find_in_set [OF e(1)] by (auto dest: in_set_takeD)
  then show thesis using e(2) by (intro that [of e]) (simp_all add: bucket_set)
qed

lemma init_rep:
  assumes "cache_init al rnd c0 n = (True, c)"
  shows "cache_rep c \<lparr>a_hash = hash c, a_room = csize c - hsize c, a_entries = []\<rparr>"
  using cache_init_inv [OF assms] by (simp add: cache_rep_def)

subsection \<open>Properties\<close>

text \<open>
  C1: From \<open>cache_init\<close> on, every sequence of \<open>cache_get\<close> and \<open>cache_set\<close> calls, with any
  arguments, runs to its end: the eviction loop terminates, no access leaves the block and
  \<open>cache_impossible\<close> is never called.  Its results are those of the abstract cache, a list
  of entries from which insertions drop the oldest.
\<close>

theorem cache_refines_entry_list:
  assumes "cache_init al rnd c0 n = (True, c)"
  shows "\<exists>rs c' a'. run_ops cache_step ops c = Some (rs, c') \<and> cache_rep c' a' \<and>
    spec_run abs_step \<lparr>a_hash = hash c, a_room = csize c - hsize c, a_entries = []\<rparr> ops rs a'"
  using cm.run_ok [OF init_rep [OF assms]] by blast

definition blank_cache :: cache where
  "blank_cache = \<lparr>cx = None, csize = 0, hsize = 0, writer = 0, oldest = 0, unused = 0, hashkey = [],
     cache_motion = 0, cache_hit = 0, cache_miss = 0\<rparr>"

lemma blank_init: "\<exists>c. cache_init (\<lambda>n. True) (replicate 16 7) blank_cache 5000 = (True, c)"
  by (simp add: cache_init_def Let_def)

theorem cache_refines_entry_list_witness:
  "\<exists>c rs c' a'. cache_init (\<lambda>n. True) (replicate 16 7) blank_cache 5000 = (True, c) \<and>
     run_ops cache_step [Set [0, 1] [9] 60 100 0, Get [0, 1] 110] c = Some (rs, c') \<and> cache_rep c' a'"
  using blank_init cache_refines_entry_list by meson

text \<open>
  C14: A lookup after an insertion that the block has room for returns the inserted data
  and flags with the lifetime that is left, for every time before the expiry.
\<close>

theorem cache_get_after_set:
  assumes "cache_inv c es" "length key \<le> MAXKEYLEN" "length data \<le> MAXDATALEN"
    "hsize c + (length key + length data + 20) \<le> csize c"
    "0 < ttl" "0 \<le> now" "now < 2 ^ 55" "now \<le> now'" "now' < now + min ttl 604800"
  shows "\<exists>c1 c2. cache_set c key data ttl now flags = Some c1 \<and>
    cache_get c1 key now' = Some (Some (data, now + min ttl 604800 - now', flags), c2)"
proof -
  obtain c1 es' where c1: "cache_set c key data ttl now flags = Some c1" "cache_inv c1 es'"
      "set_effect c key data ttl now flags es es'"
    using cache_set_ok [OF assms(1), of key data ttl now flags] by blast
  from c1(3) obtain k p where es': "es' = drop k es @
      [\<lparr>e_pos = p, e_key = key, e_data = data, e_exp = exp_field (now + min ttl 604800) flags\<rparr>]"
    using assms(2-5) by (auto simp: set_effect_def)
  have "lookup c1 es' key now' = Some (data, now + min ttl 604800 - now', flags)"
    unfolding es' using assms by (subst lookup_newest) (auto intro!: entry_result_fresh)
  moreover obtain c2 where "cache_get c1 key now' = Some (lookup c1 es' key now', c2)"
    using cache_get_ok [OF c1(2) assms(2), of now'] by blast
  ultimately show ?thesis using c1(1) by auto
qed

theorem cache_get_after_set_witness:
  "\<exists>c c1 c2. cache_init (\<lambda>n. True) (replicate 16 7) blank_cache 5000 = (True, c) \<and>
     cache_set c [0, 1, 2] [9, 9] 60 100 5 = Some c1 \<and>
     cache_get c1 [0, 1, 2] 110 = Some (Some ([9, 9], 50, 5), c2)"
proof -
  obtain c where c: "cache_init (\<lambda>n. True) (replicate 16 7) blank_cache 5000 = (True, c)"
    using blank_init by blast
  have g: "csize c = 5000" "hsize c = 256"
    using c by (auto simp: cache_init_def Let_def hsize_loop.simps)
  have "\<exists>c1 c2. cache_set c [0, 1, 2] [9, 9] 60 100 5 = Some c1 \<and>
      cache_get c1 [0, 1, 2] 110 = Some (Some ([9, 9], 100 + min 60 604800 - 110, 5), c2)"
    by (rule cache_get_after_set [OF cache_init_inv [OF c]]) (simp_all add: g MAXKEYLEN_def MAXDATALEN_def)
  then show ?thesis using c by auto
qed

text \<open>
  C12: The cache does not invent answers: whatever a lookup returns at the end of a run
  from \<open>cache_init\<close> was inserted before under the same key and with the same flags, and has
  not expired.
\<close>

theorem cache_answers_were_inserted:
  assumes "cache_init al rnd c0 n = (True, c)"
    "run_ops cache_step (ops @ [Get key now]) c = Some (rs, c')" "last rs = Some (data, ttl, flags)"
  shows "\<exists>t0 now0 f0. Set key data t0 now0 f0 \<in> set ops \<and> 0 < t0 \<and> flags = f0 \<and> 0 < ttl \<and>
    (0 \<le> now0 \<and> now0 < 2 ^ 55 \<and> 0 \<le> now \<and> now < 2 ^ 55 \<longrightarrow> ttl \<le> now0 + min t0 604800 - now)"
proof -
  let ?a = "\<lparr>a_hash = hash c, a_room = csize c - hsize c, a_entries = []\<rparr>"
  obtain a' where a': "spec_run abs_step ?a (ops @ [Get key now]) rs a'"
    using cm.run_ok [OF init_rep [OF assms(1)], of "ops @ [Get key now]"] assms(2) by auto
  obtain rs1 a1 where r: "spec_run abs_step ?a ops rs1 a1" "abs_lookup a1 key now = Some (data, ttl, flags)"
    using spec_run_snoc [OF a'] assms(3) by auto
  obtain e where e: "e \<in> set (a_entries a1)" "e_key e = key" "entry_result e now = Some (data, ttl, flags)"
    using abs_lookup_entry [OF r(2)] .
  obtain t0 now0 f0 where s: "Set (e_key e) (e_data e) t0 now0 f0 \<in> set ops" "0 < t0"
      "e_exp e = exp_field (now0 + min t0 604800) f0"
    using spec_run_entries [OF r(1) e(1)] by (auto simp: set_in_def)
  have R: "e_data e = data" "flags = f0" "0 < ttl" "ttl \<le> entry_ttl (e_exp e) now"
    using e(3) s(3) by (auto simp: entry_result_def exp_field_def split: if_splits)
  have "ttl \<le> now0 + min t0 604800 - now" if "0 \<le> now0" "now0 < 2 ^ 55" "0 \<le> now" "now < 2 ^ 55"
    using R(4) entry_ttl_exp_field [of "now0 + min t0 604800" now f0] that s(2,3) by simp
  then show ?thesis using s R e(2) by blast
qed

theorem cache_answers_were_inserted_witness:
  "\<exists>c rs c' t0 now0. cache_init (\<lambda>n. True) (replicate 16 7) blank_cache 5000 = (True, c) \<and>
     run_ops cache_step ([Set [0, 1, 2] [9, 9] 60 100 5] @ [Get [0, 1, 2] 110]) c = Some (rs, c') \<and>
     last rs = Some ([9, 9], 50, 5) \<and> Set [0, 1, 2] [9, 9] t0 now0 5 \<in> set [Set [0, 1, 2] [9, 9] 60 100 5]"
proof -
  obtain c where c: "cache_init (\<lambda>n. True) (replicate 16 7) blank_cache 5000 = (True, c)"
    using blank_init by blast
  have g: "csize c = 5000" "hsize c = 256"
    using c by (auto simp: cache_init_def Let_def hsize_loop.simps)
  obtain c1 es1 where c1: "cache_set c [0, 1, 2] [9, 9] 60 100 5 = Some c1" "cache_inv c1 es1"
      "set_effect c [0, 1, 2] [9, 9] 60 100 5 [] es1"
    using cache_set_ok [OF cache_init_inv [OF c]] by blast
  have l: "lookup c1 es1 [0, 1, 2] 110 = Some ([9, 9], 50, 5)"
    using c1(3) entry_result_fresh [of 100 110 60] g
    by (auto simp: set_effect_def MAXKEYLEN_def MAXDATALEN_def lookup_newest [of _ _ _ "[]", simplified])
  obtain c2 where c2: "cache_get c1 [0, 1, 2] 110 = Some (Some ([9, 9], 50, 5), c2)"
    using cache_get_ok [OF c1(2), of "[0, 1, 2]" 110] l by (auto simp: MAXKEYLEN_def)
  have run: "run_ops cache_step ([Set [0, 1, 2] [9, 9] 60 100 5] @ [Get [0, 1, 2] 110]) c =
      Some ([None, Some ([9, 9], 50, 5)], c2)"
    using c1(1) c2 by (simp add: cache_step_def)
  show ?thesis
    using cache_answers_were_inserted [OF c run] c run by auto
qed

text \<open>
  C19: \<open>cache_dump\<close> saves every entry whose query type is neither AXFR nor ANY, and
  \<open>cache_load\<close> of the file performs exactly the insertions of the saved entries that have
  not expired, oldest first.
\<close>

theorem cache_load_dump:
  assumes "cache_inv c es" "\<forall>e \<in> set es. 2 \<le> length (e_key e)"
  shows "\<exists>file. cache_dump (\<lambda>f b. Some (f @ b)) (\<lambda>f. True) (Some []) c = Some (0, Some file) \<and>
    cache_load now (Some file) c2 = reinsert now (filter saved es) c2"
proof -
  obtain m es1 es2 where I: "list_all (entry_ok m) es" "es = es1 @ es2" "layout (oldest c) es1 (unused c)"
      "layout (hsize c) es2 (writer c)" "writer c \<le> oldest c" "unused c \<le> csize c" "csize c \<le> 3000000000"
    using assms(1) by (auto simp: cache_inv_def sizes_ok_def)
  have "length (concat (map ebody (filter saved es))) \<le> (unused c - oldest c) + (writer c - hsize c)"
    using concat_ebody_length [OF _ I(3), of m saved] concat_ebody_length [OF _ I(4), of m saved] I(1,2)
    by (simp add: add_mono)
  also have "\<dots> \<le> csize c"
    using layout_bounds [OF I(3)] layout_bounds [OF I(4)] I(5,6) by linarith
  finally have "length (concat (map ebody (filter saved es))) + 16 < 2 ^ 32" using I(7) by simp
  moreover have "list_all (entry_ok m) (filter saved es)" using I(1) by (auto simp: list_all_iff)
  ultimately show ?thesis
    using cache_dump_ok [OF assms] cache_load_entries by blast
qed

theorem cache_load_dump_witness:
  "\<exists>c c1 file. cache_init (\<lambda>n. True) (replicate 16 7) blank_cache 5000 = (True, c) \<and>
     cache_set c [0, 1, 2] [9, 9] 60 100 5 = Some c1 \<and>
     cache_dump (\<lambda>f b. Some (f @ b)) (\<lambda>f. True) (Some []) c1 = Some (0, Some file) \<and>
     cache_load 110 (Some file) c = cache_set c [0, 1, 2] [9, 9] 50 110 5"
proof -
  obtain c where c: "cache_init (\<lambda>n. True) (replicate 16 7) blank_cache 5000 = (True, c)"
    using blank_init by blast
  have g: "csize c = 5000" "hsize c = 256"
    using c by (auto simp: cache_init_def Let_def hsize_loop.simps)
  obtain c1 es1 where c1: "cache_set c [0, 1, 2] [9, 9] 60 100 5 = Some c1" "cache_inv c1 es1"
      "set_effect c [0, 1, 2] [9, 9] 60 100 5 [] es1"
    using cache_set_ok [OF cache_init_inv [OF c]] by blast
  obtain p where es1: "es1 = [\<lparr>e_pos = p, e_key = [0, 1, 2], e_data = [9, 9], e_exp = exp_field 160 5\<rparr>]"
    using c1(3) g by (auto simp: set_effect_def MAXKEYLEN_def MAXDATALEN_def)
  have t: "entry_ttl (exp_field 160 5) 110 = 50" using entry_ttl_exp_field [of 160 110 5] by simp
  have f: "exp_field 160 5 ! 7 = 5" by (simp add: exp_field_def)
  have "reinsert 110 (filter saved es1) c = cache_set c [0, 1, 2] [9, 9] 50 110 5"
    by (simp add: es1 saved_def DNS_T_AXFR_def DNS_T_ANY_def t f)
  then show ?thesis using cache_load_dump [OF c1(2), of 110 c] c c1(1) es1 by auto
qed

end
