(* ===== verification/NumText.thy ===== *)
theory NumText
  imports ByteOps
begin

section \<open>Numbers, ports and hexadecimal text\<close>

text \<open>
  Models of \<open>dq/numtostr.c\<close>, \<open>dq/strtonum.c\<close>, \<open>dq/porttostr.c\<close>, \<open>dq/portparse.c\<close>,
  \<open>dq/hexdecode.c\<close> and \<open>dq/hexparse.c\<close>.  A \<open>long long\<close> is an \<open>int\<close> in
  \<open>-2^63 .. 2^63 - 1\<close>, an \<open>unsigned long long\<close> a 64-bit word.  A string argument is the
  list of its bytes before the terminator, \<open>None\<close> a null pointer; a parser that returns 0
  is \<open>None\<close>.
\<close>

subsection \<open>Printing\<close>

text \<open>
  The two loops of \<open>numtostr\<close>, shared by \<open>porttostr\<close> and \<open>iptostr4\<close>: counting the
  digits, and storing them from the last one back to the first.
\<close>

fun numlen :: "nat \<Rightarrow> nat" where
  "numlen n1 = (if n1 div 10 = 0 then 1 else Suc (numlen (n1 div 10)))"

fun put_digits :: "nat \<Rightarrow> bytes \<Rightarrow> bytes" where
  "put_digits n2 strbuf =
     (let strbuf' = (48 + of_nat (n2 mod 10)) # strbuf in
      if n2 div 10 = 0 then strbuf' else put_digits (n2 div 10) strbuf')"

declare numlen.simps [simp del] put_digits.simps [simp del]

definition NUMTOSTR_LEN :: nat where "NUMTOSTR_LEN = 41"
definition PORTTOSTR_LEN :: nat where "PORTTOSTR_LEN = 6"

text \<open>The buffer after \<open>numtostr(strbuf, n)\<close>, from the returned pointer on.\<close>

definition numtostr :: "int \<Rightarrow> bytes" where
  "numtostr n =
     (let flagsign = n < 0;
          n1 = unat (if flagsign then - word_of_int n else word_of_int n :: u64);
          len = numlen n1 + (if flagsign then 1 else 0);
          strbuf = (if flagsign then 45 # put_digits n1 [] else put_digits n1 [])
      in strbuf @ replicate (NUMTOSTR_LEN - len) 0)"

definition porttostr :: "bytes \<Rightarrow> bytes" where
  "porttostr port =
     (let num = unat (push_bit 8 (ucast (port ! 0)) OR ucast (port ! 1) :: u16)
      in put_digits num [] @ replicate (PORTTOSTR_LEN - numlen num) 0)"

subsection \<open>Parsing\<close>

text \<open>
  The digit loop of \<open>strtonum\<close>: \<open>c = bufpos[i] - '0'\<close> converted to unsigned, stop at
  \<open>c > 9\<close>, the overflow test \<open>ret > c\<close> after \<open>c += 10 * ret\<close>.
\<close>

fun strtonum_loop :: "nat \<Rightarrow> u64 \<Rightarrow> bytes \<Rightarrow> (nat \<times> u64) option" where
  "strtonum_loop i ret [] = Some (i, ret)"
| "strtonum_loop i ret (b # bufpos) =
     (let c = scast b - 48 in
      if c > 9 then Some (i, ret)
      else let c' = c + 10 * ret in
        if ret > c' then None else strtonum_loop (Suc i) c' bufpos)"

definition strtonum :: "bytes option \<Rightarrow> int option" where
  "strtonum bf =
     (case bf of None \<Rightarrow> None
      | Some buf \<Rightarrow>
        if hd0 buf = 0 then None
        else
          let (flagsign, bufpos) =
                (if hd0 buf = 43 then (False, tl buf)
                 else if hd0 buf = 45 then (True, tl buf) else (False, buf))
          in case strtonum_loop 0 0 bufpos of None \<Rightarrow> None
             | Some (i, ret) \<Rightarrow>
               if i = 0 then None
               else if flagsign
                 then (let r = sint (- ret) in if r > 0 then None else Some r)
                 else (let r = sint ret in if r < 0 then None else Some r))"

text \<open>
  The digit loop of \<open>portparse\<close> (at most \<open>lim = 5\<close> digits) and of \<open>strtoip4\<close>
  (\<open>lim = 3\<close>): \<open>d = d * 10 + (x[j] - '0')\<close>.  It gives \<open>j\<close>, \<open>d\<close> and the rest of
  the string.
\<close>

function digit_loop :: "nat \<Rightarrow> nat \<Rightarrow> nat \<Rightarrow> bytes \<Rightarrow> nat \<times> nat \<times> bytes" where
  "digit_loop lim j d x =
     (if j < lim \<and> hd0 x \<ge> 48 \<and> hd0 x \<le> 57
      then digit_loop lim (Suc j) (d * 10 + (unat (hd0 x) - 48)) (tl x)
      else (j, d, x))"
  by pat_completeness auto
termination
  by (relation "measure (\<lambda>(lim, j, d, x). lim - j)") auto

declare digit_loop.simps [simp del]

definition portparse :: "bytes option \<Rightarrow> bytes option" where
  "portparse xx =
     (case xx of None \<Rightarrow> None
      | Some x0 \<Rightarrow>
        let (j, d, x) = digit_loop 5 0 0 x0 in
        if j = 0 then None
        else if hd0 x \<noteq> 0 then None
        else if d > 65535 then None
        else Some [of_nat (d div 256), of_nat d])"

definition hexdigit :: "byte \<Rightarrow> int" where
  "hexdigit x =
     (if x \<ge> 48 \<and> x \<le> 57 then uint x - 48
      else if x \<ge> 97 \<and> x \<le> 102 then 10 + (uint x - 97)
      else if x \<ge> 65 \<and> x \<le> 70 then 10 + (uint x - 65)
      else -1)"

text \<open>\<open>hexdecode(y, len, x, xlen)\<close>: the bytes stored at \<open>y\<close> when it returns 1.\<close>

fun hexdecode :: "nat \<Rightarrow> bytes \<Rightarrow> bytes option" where
  "hexdecode (Suc len) (x0 # x1 # x) =
     (let digit0 = hexdigit x0; digit1 = hexdigit x1 in
      if digit0 = -1 then None
      else if digit1 = -1 then None
      else map_option (Cons (word_of_int (digit1 + 16 * digit0))) (hexdecode len x))"
| "hexdecode len x = (if x \<noteq> [] then None else Some [])"

text \<open>\<open>hexparse(y, len, x)\<close> on a 0-terminated string: exactly \<open>len\<close> pairs, then the end.\<close>

fun hexparse :: "nat \<Rightarrow> bytes \<Rightarrow> bytes option" where
  "hexparse 0 x = (if hd0 x \<noteq> 0 then None else Some [])"
| "hexparse (Suc len) x =
     (let digit0 = hexdigit (hd0 x); digit1 = hexdigit (hd0 (tl x)) in
      if digit0 = -1 then None
      else if digit1 = -1 then None
      else map_option (Cons (word_of_int (digit1 + 16 * digit0))) (hexparse len (tl (tl x))))"

section \<open>Decimal numerals\<close>

text \<open>The number a list of digit bytes denotes.\<close>

definition dec_val :: "nat \<Rightarrow> bytes \<Rightarrow> nat" where
  "dec_val v ds = foldl (\<lambda>v d. 10 * v + (unat d - 48)) v ds"

definition is_digit :: "byte \<Rightarrow> bool" where
  "is_digit b \<longleftrightarrow> 48 \<le> b \<and> b \<le> 57"

lemma dec_val_simps [simp]:
  "dec_val v [] = v" "dec_val v (d # ds) = dec_val (10 * v + (unat d - 48)) ds"
  "dec_val v (ds @ es) = dec_val (dec_val v ds) es"
  by (simp_all add: dec_val_def)

lemma dec_val_mono: "v \<le> dec_val v ds"
proof (induction ds arbitrary: v)
  case (Cons d ds)
  show ?case using Cons.IH [of "10 * v + (unat d - 48)"] by simp
qed simp

lemma unat_digit: "d < 10 \<Longrightarrow> unat (48 + of_nat d :: byte) = 48 + d"
  by (simp add: unat_word_ariths unat_of_nat)

lemma is_digit_of_nat: "d < 10 \<Longrightarrow> is_digit (48 + of_nat d)"
  by (simp add: is_digit_def word_le_nat_alt unat_digit)

lemma is_digit_neq_0: "is_digit b \<Longrightarrow> b \<noteq> 0"
  by (auto simp: is_digit_def)

lemma put_digits_append: "put_digits n acc = put_digits n [] @ acc"
proof (induction n arbitrary: acc rule: less_induct)
  case (less n)
  show ?case
  proof (cases "n div 10 = 0")
    case True
    then show ?thesis by (simp add: put_digits.simps [of n])
  next
    case False
    let ?d = "48 + of_nat (n mod 10) :: byte"
    have IH: "put_digits (n div 10) a = put_digits (n div 10) [] @ a" for a
      using False by (intro less) simp
    show ?thesis
      using False by (simp add: put_digits.simps [of n] IH [of "[?d]"] IH [of "?d # acc"])
  qed
qed

lemma put_digits_rec:
  "put_digits n [] =
     (if n < 10 then [48 + of_nat n] else put_digits (n div 10) [] @ [48 + of_nat (n mod 10)])"
proof -
  have "n div 10 = 0 \<longleftrightarrow> n < 10" by (simp add: div_eq_0_iff)
  then show ?thesis
    by (subst put_digits.simps)
      (auto simp: Let_def put_digits_append [of "n div 10" "[48 + of_nat (n mod 10)]"])
qed

lemma put_digits_digits: "b \<in> set (put_digits n []) \<Longrightarrow> is_digit b"
proof (induction n arbitrary: b rule: less_induct)
  case (less n)
  show ?case
  proof (cases "n < 10")
    case True
    with less.prems show ?thesis by (auto simp: put_digits_rec [of n] intro: is_digit_of_nat)
  next
    case False
    then have "n div 10 < n" by simp
    with less.prems False less.IH [of "n div 10"] show ?thesis
      by (auto simp: put_digits_rec [of n] intro: is_digit_of_nat)
  qed
qed

lemma dec_val_put_digits: "dec_val 0 (put_digits n []) = n"
proof (induction n rule: less_induct)
  case (less n)
  then show ?case by (subst put_digits_rec) (simp add: unat_digit)
qed

lemma numlen_put_digits: "numlen n = length (put_digits n [])"
proof (induction n rule: less_induct)
  case (less n)
  have "n div 10 = 0 \<longleftrightarrow> n < 10" by (simp add: div_eq_0_iff)
  with less show ?case by (subst numlen.simps, subst put_digits_rec) simp
qed

lemma put_digits_not_Nil [simp]: "put_digits n [] \<noteq> []"
  by (subst put_digits_rec) simp

lemma length_put_digits: "n < 10 ^ k \<Longrightarrow> 0 < k \<Longrightarrow> length (put_digits n []) \<le> k"
proof (induction k arbitrary: n)
  case (Suc k)
  show ?case
  proof (cases "n < 10")
    case False
    then have "0 < k" using Suc.prems by (cases k) auto
    moreover have "n div 10 < 10 ^ k"
      using Suc.prems by (simp add: less_mult_imp_div_less mult.commute)
    ultimately show ?thesis
      using Suc.IH False by (subst put_digits_rec) simp
  qed (subst put_digits_rec, simp)
qed simp

lemma put_digits_no_0: "0 \<notin> set (put_digits n [])"
  using put_digits_digits is_digit_neq_0 by blast

subsection \<open>The digit loops read back what was printed\<close>

lemma digit_loop_digits:
  assumes "\<forall>b \<in> set ds. is_digit b" "j + length ds \<le> lim"
    and "j + length ds = lim \<or> \<not> is_digit (hd0 r)"
  shows "digit_loop lim j d (ds @ r) = (j + length ds, dec_val d ds, r)"
  using assms
proof (induction ds arbitrary: j d)
  case Nil
  then show ?case by (subst digit_loop.simps) (auto simp: is_digit_def)
next
  case (Cons a ds)
  then have "digit_loop lim (Suc j) (d * 10 + (unat a - 48)) (ds @ r) =
      (Suc j + length ds, dec_val (d * 10 + (unat a - 48)) ds, r)"
    by simp
  moreover have "48 \<le> a" "a \<le> 57" "j < lim"
    using Cons.prems by (auto simp: is_digit_def)
  ultimately show ?case
    by (subst digit_loop.simps) (simp add: mult.commute)
qed

lemma digit_cases: "is_digit b \<Longrightarrow> \<exists>d < 10. b = 48 + of_nat d"
proof -
  assume "is_digit b"
  then have "48 \<le> unat b" "unat b - 48 < 10"
    by (auto simp: is_digit_def word_le_nat_alt)
  moreover from this have "b = 48 + of_nat (unat b - 48)"
    by (intro word_eqI_nat) (simp add: unat_digit)
  ultimately show ?thesis by blast
qed

lemma nat_less_10: "d < 10 \<Longrightarrow> d = 0 \<or> d = 1 \<or> d = 2 \<or> d = 3 \<or> d = 4 \<or> d = 5 \<or> d = 6 \<or> d = 7 \<or> d = 8 \<or> d = (9::nat)"
  by arith

lemma scast_digit: "is_digit b \<Longrightarrow> (scast b - 48 :: u64) = of_nat (unat b - 48)"
  by (drule digit_cases) (auto dest!: nat_less_10)

lemma sint_byte: "sint (b :: byte) = (if uint b < 128 then uint b else uint b - 256)"
  by (simp add: sint_eq_if)

lemma scast_nondigit: "\<not> is_digit b \<Longrightarrow> (scast b - 48 :: u64) > 9"
proof -
  assume "\<not> is_digit b"
  then have nd: "sint b < 48 \<or> 57 < sint b"
    using uint_less_exp [of b] by (auto simp: is_digit_def word_le_def sint_byte)
  have rng: "- 128 \<le> sint b" "sint b < 128"
    using sint_ge [of b] sint_lt [of b] by simp_all
  have "(scast b - 48 :: u64) = word_of_int (sint b - 48)"
    by (simp only: scast_eq) simp
  then have u: "uint (scast b - 48 :: u64) = (sint b - 48) mod 2 ^ 64"
    by (simp only: uint_word_of_int) simp
  show ?thesis
  proof (cases "sint b < 48")
    case True
    have "(sint b - 48) mod 2 ^ 64 = (sint b - 48 + 2 ^ 64) mod 2 ^ 64"
      by (simp only: mod_add_self2)
    also have "\<dots> = sint b - 48 + 2 ^ 64"
      using True rng by (intro mod_pos_pos_trivial) auto
    finally have "uint (scast b - 48 :: u64) = sint b - 48 + 2 ^ 64" using u by (simp only:)
    with rng show ?thesis unfolding word_less_def by simp
  next
    case False
    with nd rng have "(sint b - 48) mod 2 ^ 64 = sint b - 48"
      by (intro mod_pos_pos_trivial) auto
    with u have "uint (scast b - 48 :: u64) = sint b - 48" by (simp only:)
    with False nd show ?thesis unfolding word_less_def by simp
  qed
qed

lemma strtonum_loop_digits:
  assumes "\<forall>b \<in> set ds. is_digit b" "dec_val (unat r) ds < 2 ^ 64"
  shows "strtonum_loop i r (ds @ rest) =
    strtonum_loop (i + length ds) (of_nat (dec_val (unat r) ds)) rest"
  using assms
proof (induction ds arbitrary: i r)
  case Nil
  then show ?case by simp
next
  case (Cons a ds)
  let ?c = "of_nat (unat a - 48) :: u64"
  let ?v = "10 * unat r + (unat a - 48)"
  have c: "scast a - 48 = ?c" using Cons.prems by (simp add: scast_digit)
  have small: "unat a - 48 < 10"
    using Cons.prems by (auto simp: is_digit_def word_le_nat_alt)
  have le: "?v < 2 ^ 64"
    using Cons.prems dec_val_mono [of ?v ds] by simp
  have uv: "unat (?c + 10 * r) = ?v"
  proof -
    have "?c + 10 * r = of_nat ?v" by simp
    also have "unat (of_nat ?v :: u64) = ?v" using le by (subst unat_of_nat) simp
    finally show ?thesis .
  qed
  have c9: "\<not> ?c > 9"
    using small by (simp add: word_less_nat_alt unat_of_nat)
  have mono: "\<not> r > ?c + 10 * r"
    unfolding word_less_nat_alt uv by simp
  have "strtonum_loop i r ((a # ds) @ rest) = strtonum_loop (Suc i) (?c + 10 * r) (ds @ rest)"
    using c9 mono by (simp add: c Let_def)
  also have "\<dots> = strtonum_loop (Suc i + length ds) (of_nat (dec_val ?v ds)) rest"
    using Cons.prems by (simp add: Cons.IH uv)
  finally show ?case by simp
qed

lemma strtonum_loop_stop:
  "rest = [] \<or> \<not> is_digit (hd0 rest) \<Longrightarrow> strtonum_loop i r rest = Some (i, r)"
  using scast_nondigit [of "hd0 rest"] by (cases rest) auto

lemma strtonum_digits:
  assumes ds: "\<forall>b \<in> set ds. is_digit b" "ds \<noteq> []" and rest: "rest = [] \<or> \<not> is_digit (hd0 rest)"
  shows "dec_val 0 ds < 2 ^ 63 \<Longrightarrow> strtonum (Some (ds @ rest)) = Some (int (dec_val 0 ds))"
    and "dec_val 0 ds \<le> 2 ^ 63 \<Longrightarrow> strtonum (Some (45 # ds @ rest)) = Some (- int (dec_val 0 ds))"
proof -
  have hd: "is_digit (hd0 (ds @ rest))" using ds by (cases ds) auto
  then have hd': "hd0 (ds @ rest) \<noteq> 0" "hd0 (ds @ rest) \<noteq> 43" "hd0 (ds @ rest) \<noteq> 45"
    by (auto simp: is_digit_def)
  have loop: "strtonum_loop 0 0 (ds @ rest) = Some (length ds, of_nat (dec_val 0 ds))"
    if "dec_val 0 ds < 2 ^ 64"
    using strtonum_loop_digits [of ds 0 0 rest] ds that rest by (simp add: strtonum_loop_stop)
  show "strtonum (Some (ds @ rest)) = Some (int (dec_val 0 ds))" if "dec_val 0 ds < 2 ^ 63"
  proof -
    have "sint (word_of_int (int (dec_val 0 ds)) :: u64) = int (dec_val 0 ds)"
      using that by (intro sint_word_of_int_small) simp_all
    with loop that ds hd' show ?thesis by (simp add: strtonum_def Let_def)
  qed
  show "strtonum (Some (45 # ds @ rest)) = Some (- int (dec_val 0 ds))" if "dec_val 0 ds \<le> 2 ^ 63"
  proof -
    have "sint (word_of_int (- int (dec_val 0 ds)) :: u64) = - int (dec_val 0 ds)"
      using that by (intro sint_word_of_int_small) simp_all
    with loop that ds show ?thesis by (simp add: strtonum_def Let_def)
  qed
qed

lemma takeWhile_digits_zeros:
  "0 \<notin> set s \<Longrightarrow> takeWhile (\<lambda>b. b \<noteq> 0) (s @ replicate n 0) = (s :: bytes)"
  by (induction s) (auto simp: takeWhile_replicate)

lemma numtostr_string:
  assumes "- (2 ^ 63) \<le> n" "n < 2 ^ 63"
  shows "takeWhile (\<lambda>b. b \<noteq> 0) (numtostr n) =
    (if n < 0 then 45 # put_digits (nat (- n)) [] else put_digits (nat n) [])"
proof -
  have "unat (if n < 0 then - word_of_int n else word_of_int n :: u64) = nat \<bar>n\<bar>"
  proof -
    have "(if n < 0 then - word_of_int n else word_of_int n :: u64) = word_of_int \<bar>n\<bar>"
      by (simp add: abs_if)
    moreover have "unat (word_of_int \<bar>n\<bar> :: u64) = nat \<bar>n\<bar>"
      using assms by (subst unat_eq_nat_uint) (simp add: uint_word_of_int)
    ultimately show ?thesis by simp
  qed
  moreover have "0 \<notin> set (45 # put_digits k [])" "0 \<notin> set (put_digits k [])" for k
    using put_digits_no_0 [of k] by simp_all
  ultimately show ?thesis
    by (auto simp only: numtostr_def Let_def split: if_splits) (auto simp: takeWhile_digits_zeros)
qed

lemma strtonum_numtostr_all:
  assumes "- (2 ^ 63) \<le> n" "n < 2 ^ 63"
  shows "strtonum (Some (takeWhile (\<lambda>b. b \<noteq> 0) (numtostr n))) = Some n"
proof (cases "n < 0")
  case True
  then show ?thesis
    using assms put_digits_digits strtonum_digits(2) [of "put_digits (nat (- n)) []" "[]"]
    by (simp add: numtostr_string dec_val_put_digits nat_le_iff)
next
  case False
  then show ?thesis
    using assms put_digits_digits strtonum_digits(1) [of "put_digits (nat n) []" "[]"]
    by (simp add: numtostr_string dec_val_put_digits nat_less_iff)
qed

subsection \<open>Ports\<close>

lemma unat_port: "unat (push_bit 8 (ucast (a :: byte)) OR ucast (b :: byte) :: u16) = unat a * 256 + unat b"
proof -
  have "push_bit 8 (ucast a) OR ucast b = (push_bit 8 (ucast a) + ucast b :: u16)"
    by (rule disjunctive_add [symmetric]) (auto simp: bit_simps bit_ucast_iff dest: bit_imp_le_length)
  also have "\<dots> = of_nat (unat a * 256 + unat b)"
    by (simp add: push_bit_eq_mult mult.commute)
  also have "unat \<dots> = unat a * 256 + unat b"
  proof -
    have "unat a * 256 + unat b < 65536"
      using unat_byte_less [of a] unat_byte_less [of b] by linarith
    then show ?thesis by (subst unat_of_nat) simp
  qed
  finally show ?thesis .
qed

lemma portparse_porttostr_all:
  assumes "length port = 2"
  shows "portparse (Some (takeWhile (\<lambda>b. b \<noteq> 0) (porttostr port))) = Some port"
proof -
  obtain a b where port: "port = [a, b]"
    using assms by (auto simp: numeral_2_eq_2 length_Suc_conv)
  let ?n = "unat a * 256 + unat b"
  have n: "?n < 65536"
    using unat_byte_less [of a] unat_byte_less [of b] by linarith
  have str: "takeWhile (\<lambda>b. b \<noteq> 0) (porttostr port) = put_digits ?n []"
    by (simp add: porttostr_def port unat_port takeWhile_digits_zeros put_digits_no_0 Let_def)
  have "digit_loop 5 0 0 (put_digits ?n [] @ []) = (0 + length (put_digits ?n []), dec_val 0 (put_digits ?n []), [])"
    using n length_put_digits [of ?n 5] put_digits_digits
    by (intro digit_loop_digits) (auto simp: is_digit_def)
  then have loop: "digit_loop 5 0 0 (put_digits ?n []) = (length (put_digits ?n []), ?n, [])"
    by (simp add: dec_val_put_digits)
  have "of_nat (?n div 256) = a" by simp
  moreover have "of_nat ?n = b"
    by (rule word_eqI_nat) (subst unat_of_nat, simp)
  ultimately have bs: "[of_nat (?n div 256), of_nat ?n] = port" unfolding port by simp
  have "\<not> 65535 < ?n" using n by simp
  then show ?thesis
    unfolding portparse_def option.case str loop Let_def prod.case bs by simp
qed

subsection \<open>Hexadecimal\<close>

text \<open>The digits a byte is written with, high nibble first (either case is accepted).\<close>

definition hex_char :: "nat \<Rightarrow> byte" where
  "hex_char d = (if d < 10 then 48 + of_nat d else 87 + of_nat d)"

definition hex_text :: "bytes \<Rightarrow> bytes" where
  "hex_text bs = concat (map (\<lambda>b. [hex_char (unat b div 16), hex_char (unat b mod 16)]) bs)"

lemma hexdigit_hex_char: "d < 16 \<Longrightarrow> hexdigit (hex_char d) = int d"
proof -
  assume d: "d < 16"
  have "hexdigit x =
      (if 48 \<le> unat x \<and> unat x \<le> 57 then int (unat x) - 48
       else if 97 \<le> unat x \<and> unat x \<le> 102 then int (unat x) - 87
       else if 65 \<le> unat x \<and> unat x \<le> 70 then int (unat x) - 55 else -1)" for x
    by (simp add: hexdigit_def word_le_nat_alt)
  moreover have "unat (hex_char d) = (if d < 10 then 48 + d else 87 + d)"
    using d by (simp add: hex_char_def unat_word_ariths unat_of_nat)
  ultimately show ?thesis using d by simp
qed

lemma hexdecode_hex_text: "length bs \<le> len \<Longrightarrow> hexdecode len (hex_text bs) = Some bs"
proof (induction bs arbitrary: len)
  case Nil
  then show ?case by (cases len) (simp_all add: hex_text_def)
next
  case (Cons b bs)
  then obtain len' where len: "len = Suc len'" by (cases len) auto
  have "int (unat b mod 16) + 16 * int (unat b div 16) = int (unat b)"
    by (metis mod_mult_div_eq of_nat_add of_nat_mult of_nat_numeral)
  then have val: "word_of_int (int (unat b mod 16) + 16 * int (unat b div 16)) = b"
    by simp
  have "unat b div 16 < 16" by (rule less_mult_imp_div_less) simp
  with Cons len val show ?case
    by (simp add: hex_text_def hexdigit_hex_char)
qed

lemma hexdigit_range: "hexdigit x = -1 \<or> 0 \<le> hexdigit x \<and> hexdigit x < 16"
  by (auto simp: hexdigit_def word_le_def)

subsection \<open>The formats as codecs\<close>

interpretation num_codec: codec "\<lambda>n. takeWhile (\<lambda>b. b \<noteq> 0) (numtostr n)" "\<lambda>s. strtonum (Some s)"
    "\<lambda>n. - (2 ^ 63) \<le> n \<and> n < 2 ^ 63"
  by unfold_locales (simp add: strtonum_numtostr_all)

interpretation port_codec: codec "\<lambda>p. takeWhile (\<lambda>b. b \<noteq> 0) (porttostr p)" "\<lambda>s. portparse (Some s)"
    "\<lambda>p. length p = 2"
  by unfold_locales (simp add: portparse_porttostr_all)

interpretation hex_codec: codec hex_text "hexdecode 32" "\<lambda>b. length b \<le> 32"
  by unfold_locales (simp add: hexdecode_hex_text)

section \<open>Properties\<close>

text \<open>Every \<open>long long\<close> printed by \<open>numtostr\<close> fits the buffer of \<open>NUMTOSTR_LEN\<close> bytes with
  its terminator and is read back by \<open>strtonum\<close>, the least and the greatest value included.\<close>

theorem strtonum_numtostr:
  assumes "- (2 ^ 63) \<le> n" "n < 2 ^ 63"
  shows "strtonum (Some (takeWhile (\<lambda>b. b \<noteq> 0) (numtostr n))) = Some n \<and>
     length (numtostr n) = NUMTOSTR_LEN \<and> last (numtostr n) = 0"
proof -
  let ?w = "if n < 0 then - word_of_int n else word_of_int n :: u64"
  have "unat ?w < 10 ^ 20"
    by (rule less_le_trans [OF unsigned_less]) simp
  then have l: "length (put_digits (unat ?w) []) \<le> 20" by (rule length_put_digits) simp
  have "length (numtostr n) = NUMTOSTR_LEN \<and> last (numtostr n) = 0"
  proof (cases "n < 0")
    case True
    with l show ?thesis by (simp add: numtostr_def Let_def numlen_put_digits NUMTOSTR_LEN_def)
  next
    case False
    with l show ?thesis by (simp add: numtostr_def Let_def numlen_put_digits NUMTOSTR_LEN_def)
  qed
  with strtonum_numtostr_all [OF assms] show ?thesis by blast
qed

theorem strtonum_numtostr_witness:
  "strtonum (Some (takeWhile (\<lambda>b. b \<noteq> 0) (numtostr (- (2 ^ 63))))) = Some (- (2 ^ 63)) \<and>
     length (numtostr (- (2 ^ 63))) = NUMTOSTR_LEN \<and> last (numtostr (- (2 ^ 63))) = 0"
  by (rule strtonum_numtostr) simp_all

text \<open>The text of a port number is read back as the same two bytes.\<close>

theorem portparse_porttostr:
  "length port = 2 \<Longrightarrow> portparse (Some (takeWhile (\<lambda>b. b \<noteq> 0) (porttostr port))) = Some port"
  by (rule portparse_porttostr_all)

theorem portparse_porttostr_witness:
  "portparse (Some (takeWhile (\<lambda>b. b \<noteq> 0) (porttostr [255, 255]))) = Some [255, 255]"
  by (rule portparse_porttostr) simp

text \<open>The overflow test of \<open>strtonum\<close> (\<open>ret > c\<close> after \<open>c += 10 * ret\<close>) does not detect every
  overflow: the 20-digit numeral 26000000000000000000, greater than 2^64, is accepted and read
  as another number.\<close>

theorem strtonum_wraps:
  "\<exists>s. dec_val 0 s = 26000000000000000000 \<and> strtonum (Some s) = Some 7553255926290448384"
proof -
  let ?s = "[50, 54, 48, 48, 48, 48, 48, 48, 48, 48, 48, 48, 48, 48, 48, 48, 48, 48, 48, 48] :: bytes"
  have "dec_val 0 ?s = 26000000000000000000" by simp
  moreover have "strtonum (Some ?s) = Some 7553255926290448384" by code_simp
  ultimately show ?thesis by blast
qed

end
