(* ===== verification/Stralloc.thy ===== *)
theory Stralloc
  imports NumText
begin

section \<open>Growing byte strings\<close>

text \<open>
  The model of \<open>dq/stralloc.c\<close>.  The field \<open>sa_s\<close> is the object \<open>r->s\<close> points to
  (\<open>None\<close> a null pointer), \<open>sa_alloc\<close> the field \<open>alloc\<close>, which should be its size.
  The allocator is the parameter \<open>al\<close>: \<open>al n\<close> says whether \<open>alloc(n)\<close> succeeds; the
  memory it returns is zeroed.  An operation gives \<open>None\<close> when it reads or writes outside
  an object, else the return value and the structure afterwards.
\<close>

record stralloc =
  sa_s :: "bytes option"
  sa_len :: nat
  sa_alloc :: nat

definition stralloc_empty :: stralloc where
  "stralloc_empty = \<lparr>sa_s = None, sa_len = 0, sa_alloc = 0\<rparr>"

text \<open>The loop that doubles \<open>r->alloc\<close>.\<close>

function grow :: "nat \<Rightarrow> nat \<Rightarrow> nat" where
  "grow need a = (if need > a then grow need (2 * a + 1) else a)"
  by pat_completeness auto
termination
  by (relation "measure (\<lambda>(need, a). need - a)") auto

declare grow.simps [simp del]

text \<open>The move of the old contents into the new block.\<close>

definition sa_move :: "stralloc \<Rightarrow> bytes \<Rightarrow> bytes option" where
  "sa_move r newdata =
     (case sa_s r of None \<Rightarrow> Some newdata | Some s \<Rightarrow> byte_copy newdata (sa_len r) s)"

definition stralloc_readyplus :: "(nat \<Rightarrow> bool) \<Rightarrow> stralloc \<Rightarrow> int \<Rightarrow> (bool \<times> stralloc) option" where
  "stralloc_readyplus al r len =
     (if len < 0 then Some (False, r)
      else if len = 0 then Some (True, r)
      else if sa_len r + nat len + 1 > sa_alloc r
        then let r1 = r\<lparr>sa_alloc := grow (sa_len r + nat len + 1) (sa_alloc r)\<rparr> in
          if \<not> al (sa_alloc r1) then Some (False, r1)
          else do { d \<leftarrow> sa_move r1 (replicate (sa_alloc r1) 0); Some (True, r1\<lparr>sa_s := Some d\<rparr>) }
      else Some (True, r))"

text \<open>The store loop \<open>r->s[r->len + i] = x[i]\<close>.\<close>

fun sa_store :: "bytes \<Rightarrow> nat \<Rightarrow> bytes \<Rightarrow> bytes option" where
  "sa_store s p [] = Some s"
| "sa_store s p (c # x) = do { s1 \<leftarrow> st s p c; sa_store s1 (Suc p) x }"

definition stralloc_catb :: "(nat \<Rightarrow> bool) \<Rightarrow> stralloc \<Rightarrow> bytes option \<Rightarrow> int \<Rightarrow> (bool \<times> stralloc) option" where
  "stralloc_catb al r xv xlen =
     (case xv of None \<Rightarrow> Some (False, r)
      | Some x \<Rightarrow>
        if xlen < 0 then Some (False, r)
        else if xlen = 0 then Some (True, r)
        else do {
          (ok, r1) \<leftarrow> stralloc_readyplus al r xlen;
          if \<not> ok then Some (False, r1)
          else do {
            s \<leftarrow> sa_s r1;
            s1 \<leftarrow> (if nat xlen \<le> length x then sa_store s (sa_len r1) (take (nat xlen) x) else None);
            Some (True, r1\<lparr>sa_s := Some s1, sa_len := sa_len r1 + nat xlen\<rparr>) } })"

definition stralloc_cats :: "(nat \<Rightarrow> bool) \<Rightarrow> stralloc \<Rightarrow> bytes option \<Rightarrow> (bool \<times> stralloc) option" where
  "stralloc_cats al r xv =
     (case xv of None \<Rightarrow> Some (False, r)
      | Some x \<Rightarrow> do { xlen \<leftarrow> str_len x; stralloc_catb al r (Some x) (int xlen) })"

definition stralloc_cat :: "(nat \<Rightarrow> bool) \<Rightarrow> stralloc \<Rightarrow> stralloc \<Rightarrow> (bool \<times> stralloc) option" where
  "stralloc_cat al x y = stralloc_catb al x (sa_s y) (int (sa_len y))"

definition stralloc_copyb :: "(nat \<Rightarrow> bool) \<Rightarrow> stralloc \<Rightarrow> bytes option \<Rightarrow> int \<Rightarrow> (bool \<times> stralloc) option" where
  "stralloc_copyb al r xv xlen = stralloc_catb al (r\<lparr>sa_len := 0\<rparr>) xv xlen"

definition stralloc_copys :: "(nat \<Rightarrow> bool) \<Rightarrow> stralloc \<Rightarrow> bytes option \<Rightarrow> (bool \<times> stralloc) option" where
  "stralloc_copys al r xv = stralloc_cats al (r\<lparr>sa_len := 0\<rparr>) xv"

definition stralloc_copy :: "(nat \<Rightarrow> bool) \<Rightarrow> stralloc \<Rightarrow> stralloc \<Rightarrow> (bool \<times> stralloc) option" where
  "stralloc_copy al x y = stralloc_cat al (x\<lparr>sa_len := 0\<rparr>) y"

definition stralloc_append :: "(nat \<Rightarrow> bool) \<Rightarrow> stralloc \<Rightarrow> byte \<Rightarrow> (bool \<times> stralloc) option" where
  "stralloc_append al r c = stralloc_catb al r (Some [c]) 1"

definition stralloc_0 :: "(nat \<Rightarrow> bool) \<Rightarrow> stralloc \<Rightarrow> (bool \<times> stralloc) option" where
  "stralloc_0 al r = stralloc_append al r 0"

text \<open>\<open>stralloc_catunum0\<close>: the digit count, then the digits stored from the last one.\<close>

fun unum_len :: "nat \<Rightarrow> nat" where
  "unum_len q = (if q > 9 then Suc (unum_len (q div 10)) else 1)"

declare unum_len.simps [simp del]

fun unum_digits :: "nat \<Rightarrow> nat \<Rightarrow> bytes" where
  "unum_digits 0 u = []"
| "unum_digits (Suc len) u = unum_digits len (u div 10) @ [48 + of_nat (u mod 10)]"

definition stralloc_catunum0 :: "(nat \<Rightarrow> bool) \<Rightarrow> stralloc \<Rightarrow> u64 \<Rightarrow> int \<Rightarrow> (bool \<times> stralloc) option" where
  "stralloc_catunum0 al r u n =
     (let len = max (unum_len (unat u)) (nat n) in
      do {
        (ok, r1) \<leftarrow> stralloc_readyplus al r (int len);
        if \<not> ok then Some (False, r1)
        else do {
          s \<leftarrow> sa_s r1;
          s1 \<leftarrow> sa_store s (sa_len r1) (unum_digits len (unat u));
          Some (True, r1\<lparr>sa_s := Some s1, sa_len := sa_len r1 + len\<rparr>) } })"

definition stralloc_catnum0 :: "(nat \<Rightarrow> bool) \<Rightarrow> stralloc \<Rightarrow> int \<Rightarrow> int \<Rightarrow> (bool \<times> stralloc) option" where
  "stralloc_catnum0 al r l n =
     (if l < 0
      then do {
        (ok, r1) \<leftarrow> stralloc_append al r 45;
        if \<not> ok then Some (False, r1) else stralloc_catunum0 al r1 (word_of_int (- l)) n }
      else stralloc_catunum0 al r (word_of_int l) n)"

definition stralloc_catnum :: "(nat \<Rightarrow> bool) \<Rightarrow> stralloc \<Rightarrow> int \<Rightarrow> (bool \<times> stralloc) option" where
  "stralloc_catnum al r num = stralloc_catnum0 al r num 0"

definition stralloc_free :: "stralloc \<Rightarrow> stralloc" where
  "stralloc_free r = \<lparr>sa_s = None, sa_len = 0, sa_alloc = 0\<rparr>"

section \<open>Correctness\<close>

text \<open>The invariant: \<open>alloc\<close> is the size of the block, and the string fits into it.\<close>

definition stralloc_wf :: "stralloc \<Rightarrow> bool" where
  "stralloc_wf r =
     (case sa_s r of None \<Rightarrow> sa_len r = 0 \<and> sa_alloc r = 0
      | Some s \<Rightarrow> length s = sa_alloc r \<and> sa_len r \<le> sa_alloc r)"

definition sa_str :: "stralloc \<Rightarrow> bytes" where
  "sa_str r = (case sa_s r of None \<Rightarrow> [] | Some s \<Rightarrow> take (sa_len r) s)"

lemma stralloc_empty_wf [simp]: "stralloc_wf stralloc_empty" "sa_str stralloc_empty = []"
  by (simp_all add: stralloc_wf_def sa_str_def stralloc_empty_def)

lemma grow_ge: "need \<le> grow need a"
  by (induction need a rule: grow.induct) (subst grow.simps, simp)

lemma sa_store_eq: "p + length x \<le> length s \<Longrightarrow> sa_store s p x = Some (mem_write s p x)"
proof (induction x arbitrary: s p)
  case (Cons c x)
  then have "sa_store s p (c # x) = Some (mem_write (s[p := c]) (Suc p) x)" by simp
  also have "mem_write (s[p := c]) (Suc p) x = mem_write s p (c # x)"
    using Cons.prems by (intro nth_equalityI) (auto simp: nth_mem_write nth_Cons')
  finally show ?case .
qed simp

text \<open>When the allocator delivers, \<open>readyplus\<close> makes room and keeps the string.\<close>

lemma stralloc_readyplus_ok:
  assumes "stralloc_wf r" "0 < n" "\<And>m. al m"
  obtains r' s where "stralloc_readyplus al r (int n) = Some (True, r')" "stralloc_wf r'"
    "sa_s r' = Some s" "sa_len r' = sa_len r" "sa_len r + n + 1 \<le> length s" "take (sa_len r) s = sa_str r"
proof (cases "sa_len r + n + 1 > sa_alloc r")
  case True
  let ?a = "grow (sa_len r + n + 1) (sa_alloc r)"
  have a: "sa_len r + n + 1 \<le> ?a" by (rule grow_ge)
  define d where "d = (case sa_s r of None \<Rightarrow> replicate ?a 0
      | Some s \<Rightarrow> mem_write (replicate ?a 0) 0 (take (sa_len r) s))"
  have d: "sa_move (r\<lparr>sa_alloc := ?a\<rparr>) (replicate ?a 0) = Some d" "length d = ?a" "take (sa_len r) d = sa_str r"
    using assms(1) a
    by (auto simp: sa_move_def d_def stralloc_wf_def sa_str_def byte_copy_eq mem_write_def split: option.splits)
  show thesis
    by (rule that [of "r\<lparr>sa_alloc := ?a, sa_s := Some d\<rparr>" d])
      (use True d a assms in \<open>auto simp: stralloc_readyplus_def stralloc_wf_def Let_def\<close>)
next
  case False
  then obtain s where s: "sa_s r = Some s"
    using assms(1,2) by (cases "sa_s r") (auto simp: stralloc_wf_def)
  show thesis
    by (rule that [of r s]) (use False s assms in \<open>auto simp: stralloc_readyplus_def stralloc_wf_def sa_str_def\<close>)
qed

lemma stralloc_put_wf:
  assumes "stralloc_wf r" "sa_s r = Some s" "sa_len r + length x \<le> length s"
  shows "stralloc_wf (r\<lparr>sa_s := Some (mem_write s (sa_len r) x), sa_len := sa_len r + length x\<rparr>)"
    "sa_str (r\<lparr>sa_s := Some (mem_write s (sa_len r) x), sa_len := sa_len r + length x\<rparr>) = take (sa_len r) s @ x"
  using assms by (simp_all add: stralloc_wf_def sa_str_def mem_write_def)

lemma stralloc_catb_ok:
  assumes "stralloc_wf r" "n \<le> length x" "\<And>m. al m"
  obtains r' where "stralloc_catb al r (Some x) (int n) = Some (True, r')" "stralloc_wf r'"
    "sa_str r' = sa_str r @ take n x"
proof (cases "n = 0")
  case True
  then show thesis using assms by (intro that [of r]) (simp_all add: stralloc_catb_def)
next
  case False
  then obtain r1 s where R: "stralloc_readyplus al r (int n) = Some (True, r1)" "stralloc_wf r1"
    "sa_s r1 = Some s" "sa_len r1 = sa_len r" "sa_len r + n + 1 \<le> length s" "take (sa_len r) s = sa_str r"
    using stralloc_readyplus_ok [OF assms(1), of n al] assms(3) by blast
  let ?r' = "r1\<lparr>sa_s := Some (mem_write s (sa_len r1) (take n x)), sa_len := sa_len r1 + n\<rparr>"
  have "stralloc_catb al r (Some x) (int n) = Some (True, ?r')"
    using False R assms(2) by (simp add: stralloc_catb_def sa_store_eq)
  moreover have "stralloc_wf ?r'" "sa_str ?r' = sa_str r @ take n x"
    using stralloc_put_wf [OF R(2,3), of "take n x"] R assms(2) by simp_all
  ultimately show thesis by (rule that)
qed

lemma stralloc_append_ok:
  assumes "stralloc_wf r" "\<And>m. al m"
  obtains r' where "stralloc_append al r c = Some (True, r')" "stralloc_wf r'" "sa_str r' = sa_str r @ [c]"
  using stralloc_catb_ok [OF assms(1), of 1 "[c]" al] assms(2) by (auto simp: stralloc_append_def)

lemma unum_digits_put: "unum_digits (unum_len u) u = put_digits u []"
proof (induction u rule: unum_len.induct)
  case (1 q)
  show ?case
  proof (cases "q > 9")
    case True
    then have "unum_digits (unum_len q) q = put_digits (q div 10) [] @ [48 + of_nat (q mod 10)]"
      using 1 by (subst unum_len.simps) simp
    with True show ?thesis by (simp add: put_digits_rec [of q])
  next
    case False
    then show ?thesis by (simp add: unum_len.simps [of q] put_digits_rec [of q])
  qed
qed

lemma length_unum_digits [simp]: "length (unum_digits n u) = n"
  by (induction n arbitrary: u) simp_all

lemma unum_len_pos: "0 < unum_len u"
  by (subst unum_len.simps) simp

lemma stralloc_catunum0_ok:
  assumes "stralloc_wf r" "\<And>m. al m"
  obtains r' where "stralloc_catunum0 al r u 0 = Some (True, r')" "stralloc_wf r'"
    "sa_str r' = sa_str r @ put_digits (unat u) []"
proof -
  let ?n = "unum_len (unat u)" let ?x = "put_digits (unat u) []"
  obtain r1 s where R: "stralloc_readyplus al r (int ?n) = Some (True, r1)" "stralloc_wf r1"
    "sa_s r1 = Some s" "sa_len r1 = sa_len r" "sa_len r + ?n + 1 \<le> length s" "take (sa_len r) s = sa_str r"
    using stralloc_readyplus_ok [OF assms(1) unum_len_pos, where al = al] assms(2) by blast
  have x: "unum_digits ?n (unat u) = ?x" "length ?x = ?n"
    using length_unum_digits [of ?n "unat u"] by (simp_all add: unum_digits_put)
  let ?r' = "r1\<lparr>sa_s := Some (mem_write s (sa_len r1) ?x), sa_len := sa_len r1 + ?n\<rparr>"
  have "stralloc_catunum0 al r u 0 = Some (True, ?r')"
    using R x by (simp add: stralloc_catunum0_def sa_store_eq)
  moreover have "stralloc_wf ?r'" "sa_str ?r' = sa_str r @ ?x"
    using stralloc_put_wf [OF R(2,3), of ?x] R x by simp_all
  ultimately show thesis by (rule that)
qed

interpretation sa_sink: byte_sink stralloc_wf sa_str "\<lambda>_ _. True"
  "\<lambda>r x. stralloc_catb (\<lambda>_. True) r (Some x) (int (length x))"
proof unfold_locales
  fix r x
  assume "stralloc_wf r"
  then show "\<exists>r'. stralloc_catb (\<lambda>_. True) r (Some x) (int (length x)) = Some (True, r') \<and> stralloc_wf r' \<and> True \<and>
      sa_str r' = sa_str r @ x"
    using stralloc_catb_ok [of r "length x" x "\<lambda>_. True"] by (metis order_refl take_all)
qed

text \<open>As long as the allocator delivers, \<open>stralloc_catb\<close> stays inside its block, keeps the
  invariant and appends exactly the first \<open>n\<close> bytes of its argument.\<close>

theorem stralloc_catb_appends:
  assumes "stralloc_wf r" "n \<le> length x"
  shows "\<exists>r'. stralloc_catb (\<lambda>_. True) r (Some x) (int n) = Some (True, r') \<and> stralloc_wf r' \<and>
     sa_str r' = sa_str r @ take n x"
  using stralloc_catb_ok [OF assms, of "\<lambda>_. True"] by metis

theorem stralloc_catb_appends_witness:
  "\<exists>r'. stralloc_catb (\<lambda>_. True) stralloc_empty (Some [1, 2, 3]) (int 2) = Some (True, r') \<and> stralloc_wf r' \<and>
     sa_str r' = [1, 2]"
  using stralloc_catb_appends [of stralloc_empty 2 "[1, 2, 3]"] by simp

lemma unat_word_of_int_range: "0 \<le> l \<Longrightarrow> l \<le> 2 ^ 63 \<Longrightarrow> unat (word_of_int l :: u64) = nat l"
  by (subst unat_eq_nat_uint) (simp add: uint_word_of_int)

text \<open>\<open>stralloc_catnum\<close> appends the same decimal numeral as \<open>numtostr\<close> prints, the one that
  \<open>strtonum\<close> reads back.  (The least \<open>long long\<close> is excluded: its negation is undefined in C.)\<close>

theorem stralloc_catnum_strtonum:
  assumes "stralloc_wf r" "- (2 ^ 63) < l" "l < 2 ^ 63"
  shows "\<exists>r'. stralloc_catnum (\<lambda>_. True) r l = Some (True, r') \<and> stralloc_wf r' \<and>
     sa_str r' = sa_str r @ takeWhile (\<lambda>b. b \<noteq> 0) (numtostr l) \<and>
     strtonum (Some (drop (length (sa_str r)) (sa_str r'))) = Some l"
proof -
  have "\<exists>r'. stralloc_catnum (\<lambda>_. True) r l = Some (True, r') \<and> stralloc_wf r' \<and>
     sa_str r' = sa_str r @ takeWhile (\<lambda>b. b \<noteq> 0) (numtostr l)"
  proof (cases "l < 0")
    case True
    obtain r1 where r1: "stralloc_append (\<lambda>_. True) r 45 = Some (True, r1)" "stralloc_wf r1" "sa_str r1 = sa_str r @ [45]"
      using stralloc_append_ok [OF assms(1), of "\<lambda>_. True"] by blast
    obtain r2 where r2: "stralloc_catunum0 (\<lambda>_. True) r1 (word_of_int (- l)) 0 = Some (True, r2)" "stralloc_wf r2"
        "sa_str r2 = sa_str r1 @ put_digits (unat (word_of_int (- l) :: u64)) []"
      using stralloc_catunum0_ok [OF r1(2), of "\<lambda>_. True" "word_of_int (- l)"] by blast
    have "unat (word_of_int (- l) :: u64) = nat (- l)" using True assms by (intro unat_word_of_int_range) simp_all
    then show ?thesis
      using True assms r1 r2 by (simp add: stralloc_catnum_def stralloc_catnum0_def numtostr_string)
  next
    case False
    obtain r2 where r2: "stralloc_catunum0 (\<lambda>_. True) r (word_of_int l) 0 = Some (True, r2)" "stralloc_wf r2"
        "sa_str r2 = sa_str r @ put_digits (unat (word_of_int l :: u64)) []"
      using stralloc_catunum0_ok [OF assms(1), of "\<lambda>_. True" "word_of_int l"] by blast
    have "unat (word_of_int l :: u64) = nat l" using False assms by (intro unat_word_of_int_range) simp_all
    then show ?thesis
      using False assms r2 by (simp add: stralloc_catnum_def stralloc_catnum0_def numtostr_string)
  qed
  moreover have "strtonum (Some (takeWhile (\<lambda>b. b \<noteq> 0) (numtostr l))) = Some l"
    using assms by (intro strtonum_numtostr_all) simp_all
  ultimately show ?thesis by auto
qed

theorem stralloc_catnum_strtonum_witness:
  "\<exists>r'. stralloc_catnum (\<lambda>_. True) stralloc_empty (-120) = Some (True, r') \<and> stralloc_wf r' \<and>
     sa_str r' = takeWhile (\<lambda>b. b \<noteq> 0) (numtostr (-120)) \<and> strtonum (Some (sa_str r')) = Some (-120)"
  using stralloc_catnum_strtonum [of stralloc_empty "-120"] by simp

text \<open>After an allocation failure the structure claims a block it does not have:
  \<open>stralloc_readyplus\<close> enlarges \<open>r->alloc\<close> before it calls \<open>alloc\<close> and leaves it enlarged, so
  that a later, shorter append stores outside the block.\<close>

theorem stralloc_failure_overflow:
  "\<exists>r r1. stralloc_wf r \<and> stralloc_catb (\<lambda>n. n < 10) r (Some (replicate 12 7)) 12 = Some (False, r1) \<and>
     stralloc_catb (\<lambda>n. n < 10) r1 (Some (replicate 9 7)) 9 = None"
proof -
  let ?r = "\<lparr>sa_s = Some [1, 2, 3], sa_len = 1, sa_alloc = 3\<rparr>"
  let ?r1 = "\<lparr>sa_s = Some [1, 2, 3], sa_len = 1, sa_alloc = 15\<rparr>"
  have "stralloc_wf ?r" by (simp add: stralloc_wf_def)
  moreover have "stralloc_catb (\<lambda>n. n < 10) ?r (Some (replicate 12 7)) 12 = Some (False, ?r1)" by code_simp
  moreover have "stralloc_catb (\<lambda>n. n < 10) ?r1 (Some (replicate 9 7)) 9 = None" by code_simp
  ultimately show ?thesis by blast
qed

end
