(* ===== verification/IpText.thy ===== *)
theory IpText
  imports NumText
begin

section \<open>Textual IP addresses\<close>

text \<open>
  Models of \<open>dq/iptostr.c\<close>, \<open>dq/strtoip.c\<close>, \<open>dq/strtomultiip.c\<close> and
  \<open>dq/dns_iptoname.c\<close>.  An address is 16 bytes; an IPv4 address has the prefix
  \<open>::ffff:0:0\<close>.  The printers run a pointer down from the end of the buffer
  (\<open>*--strbuf = c\<close>), which is \<open>Cons\<close> on the text already stored.  The parser of IPv6
  text is \<open>inet_pton\<close> of the C library: a parameter \<open>inet_pton6\<close> which maps the old
  contents of the destination and the string to the success flag and the new contents.
\<close>

definition IPTOSTR_LEN :: nat where "IPTOSTR_LEN = 46"
definition STRTOMULTIIP_BUFSIZE :: nat where "STRTOMULTIIP_BUFSIZE = 800"

definition v4prefix :: bytes where
  "v4prefix = [0, 0, 0, 0, 0, 0, 0, 0, 0, 0, 0xff, 0xff]"

subsection \<open>Printing\<close>

text \<open>The first loop of \<open>iptostr4\<close> counts, the second one stores; \<open>i\<close> runs from 3 to 0.\<close>

fun iptostr4_len :: "bytes \<Rightarrow> nat \<Rightarrow> nat" where
  "iptostr4_len ip 0 = numlen (unat (ip ! 0))"
| "iptostr4_len ip (Suc i) = numlen (unat (ip ! Suc i)) + 1 + iptostr4_len ip i"

fun iptostr4_put :: "bytes \<Rightarrow> nat \<Rightarrow> bytes \<Rightarrow> bytes" where
  "iptostr4_put ip 0 strbuf = put_digits (unat (ip ! 0)) strbuf"
| "iptostr4_put ip (Suc i) strbuf = iptostr4_put ip i (46 # put_digits (unat (ip ! Suc i)) strbuf)"

definition iptostr4 :: "bytes \<Rightarrow> bytes" where
  "iptostr4 ip = iptostr4_put ip 3 [] @ replicate (IPTOSTR_LEN - iptostr4_len ip 3) 0"

text \<open>\<open>countz\<close>: the loops for the run lengths and for the last longest run.\<close>

fun countz_count :: "nat list \<Rightarrow> nat \<Rightarrow> nat \<Rightarrow> nat list \<Rightarrow> nat list" where
  "countz_count ip 0 e cnt = cnt"
| "countz_count ip (Suc i) e cnt =
     (if ip ! i = 0
      then countz_count ip i e (foldl (\<lambda>c j. c[j := Suc (c ! j)]) cnt [i..<e])
      else countz_count ip i i cnt)"

fun countz_best :: "nat list \<Rightarrow> nat \<Rightarrow> nat \<Rightarrow> nat \<Rightarrow> nat" where
  "countz_best cnt 0 e j = j"
| "countz_best cnt (Suc i) e j =
     (if cnt ! i \<noteq> 0 \<and> cnt ! i \<ge> e then countz_best cnt i (cnt ! i) i else countz_best cnt i e j)"

definition countz :: "nat list \<Rightarrow> int \<times> int" where
  "countz ip =
     (let cnt = countz_count ip 8 8 (replicate 8 0);
          j = countz_best cnt 8 0 0
      in (int j - int (cnt ! j) + 1, int j))"

definition ip_groups :: "bytes \<Rightarrow> nat list" where
  "ip_groups ip = map (\<lambda>i. unat (ip ! (2 * i)) * 256 + unat (ip ! (2 * i + 1))) [0..<8]"

function put_hex :: "nat \<Rightarrow> bytes \<Rightarrow> bytes" where
  "put_hex n strbuf =
     (let strbuf' = hex_char (n AND 15) # strbuf in
      if drop_bit 4 n = 0 then strbuf' else put_hex (drop_bit 4 n) strbuf')"
  by pat_completeness auto
termination
  by (relation "measure fst") (auto simp: drop_bit_eq_div)

declare put_hex.simps [simp del]

fun iptostr6_put :: "nat list \<Rightarrow> int \<Rightarrow> int \<Rightarrow> nat \<Rightarrow> bytes \<Rightarrow> bytes" where
  "iptostr6_put ip2 first lst 0 strbuf = strbuf"
| "iptostr6_put ip2 first lst (Suc i) strbuf =
     (if int i \<le> lst \<and> int i \<ge> first \<and> first \<noteq> lst
      then let strbuf1 = (if int i = lst then 58 # strbuf else strbuf);
               strbuf2 = (if i = 7 then 58 # strbuf1 else strbuf1)
           in iptostr6_put ip2 first lst i strbuf2
      else let strbuf1 = put_hex (ip2 ! i) strbuf;
               strbuf2 = (if i > 0 then 58 # strbuf1 else strbuf1)
           in iptostr6_put ip2 first lst i strbuf2)"

text \<open>The text is built at the end of the buffer, moved to its front and padded.\<close>

definition iptostr6 :: "bytes \<Rightarrow> bytes" where
  "iptostr6 ip =
     (let ip2 = ip_groups ip; (first, lst) = countz ip2;
          s = iptostr6_put ip2 first lst 8 [0]
      in s @ replicate (IPTOSTR_LEN - length s) 0)"

fun iptostr6x_put :: "nat list \<Rightarrow> nat \<Rightarrow> bytes \<Rightarrow> bytes" where
  "iptostr6x_put ip2 0 strbuf = strbuf"
| "iptostr6x_put ip2 (Suc i) strbuf =
     (let strbuf1 = put_hex (ip2 ! i) strbuf;
          strbuf2 = (if i > 0 then 58 # strbuf1 else strbuf1)
      in iptostr6x_put ip2 i strbuf2)"

definition iptostr6x :: "bytes \<Rightarrow> bytes" where
  "iptostr6x ip =
     (let s = iptostr6x_put (ip_groups ip) 8 [0] in s @ replicate (IPTOSTR_LEN - length s) 0)"

definition iptostr :: "bytes \<Rightarrow> bytes option" where
  "iptostr ip =
     do { eq \<leftarrow> byte_isequal v4prefix 12 ip;
          Some (if eq \<noteq> 0 then iptostr4 (drop 12 ip) else iptostr6 ip) }"

definition iptostrx :: "bytes \<Rightarrow> bytes option" where
  "iptostrx ip =
     do { eq \<leftarrow> byte_isequal v4prefix 12 ip;
          Some (if eq \<noteq> 0 then iptostr4 (drop 12 ip) else iptostr6x ip) }"

subsection \<open>Parsing\<close>

text \<open>
  \<open>strtoip4(ip, x)\<close>: the return value and the 16 bytes at \<open>ip\<close> afterwards (a rejected
  text leaves partial octets there).
\<close>

function strtoip4_loop :: "bytes \<Rightarrow> nat \<Rightarrow> bytes \<Rightarrow> bool \<times> bytes" where
  "strtoip4_loop ip k x =
     (if k < 4
      then let (j, d, x1) = digit_loop 3 0 0 x in
        if j = 0 then (False, ip)
        else let ip1 = ip[12 + k := of_nat d] in
          if k < 3
          then if hd0 x1 \<noteq> 46 then (False, ip1) else strtoip4_loop ip1 (Suc k) (tl x1)
          else strtoip4_loop ip1 (Suc k) x1
      else if hd0 x \<noteq> 0 then (False, ip)
      else (True, mem_write ip 0 v4prefix))"
  by pat_completeness auto
termination
  by (relation "measure (\<lambda>(ip, k, x). 4 - k)") auto

declare strtoip4_loop.simps [simp del]

definition strtoip4 :: "bytes \<Rightarrow> bytes option \<Rightarrow> bool \<times> bytes" where
  "strtoip4 ip xx =
     (case xx of None \<Rightarrow> (False, ip)
      | Some x \<Rightarrow> strtoip4_loop (mem_write ip 12 [0, 0, 0, 0]) 0 x)"

definition strtoip6 :: "(bytes \<Rightarrow> bytes \<Rightarrow> bool \<times> bytes) \<Rightarrow> bytes \<Rightarrow> bytes option \<Rightarrow> bool \<times> bytes" where
  "strtoip6 inet_pton6 ip xx = (case xx of None \<Rightarrow> (False, ip) | Some x \<Rightarrow> inet_pton6 ip x)"

definition strtoip :: "(bytes \<Rightarrow> bytes \<Rightarrow> bool \<times> bytes) \<Rightarrow> bytes \<Rightarrow> bytes option \<Rightarrow> bool \<times> bytes" where
  "strtoip inet_pton6 ip xx =
     (let (r4, ip4) = strtoip4 ip xx in if r4 then (True, ip4) else strtoip6 inet_pton6 ip4 xx)"

text \<open>
  \<open>_strtomultiip\<close>: \<open>x\<close> is the string with its terminator, \<open>opf\<close> the parser of one
  address, \<open>ip\<close> the output buffer.
\<close>

definition separators :: bytes where "separators = [44, 32, 9, 10]"

fun multiip_cut :: "bytes \<Rightarrow> int \<Rightarrow> bytes \<Rightarrow> int option" where
  "multiip_cut x len [] = Some len"
| "multiip_cut x len (c # seps) = do { l \<leftarrow> byte_rchr x len c; multiip_cut x l seps }"

fun multiip_dots :: "nat \<Rightarrow> bytes \<Rightarrow> bytes" where
  "multiip_dots k [] = []"
| "multiip_dots k (c # data) =
     (let k1 = (if c = 0 then 0 else k) in
      if c = 46 then (if Suc k1 mod 4 = 0 then 0 else c) # multiip_dots (Suc k1) data
      else c # multiip_dots k1 data)"

text \<open>The string that starts at \<open>data + i\<close>.\<close>

definition cstr :: "bytes \<Rightarrow> nat \<Rightarrow> bytes" where
  "cstr data i = takeWhile (\<lambda>b. b \<noteq> 0) (drop i data)"

function multiip_parse ::
    "(bytes \<Rightarrow> bytes option \<Rightarrow> bool \<times> bytes) \<Rightarrow> nat \<Rightarrow> bytes \<Rightarrow> nat \<Rightarrow> nat \<Rightarrow> nat \<Rightarrow> bytes \<Rightarrow> nat \<times> bytes" where
  "multiip_parse opf ipmax data j i iplen ip =
     (if j < length data
      then if data ! j = 0
        then if iplen + 16 \<le> ipmax
          then let (r, b) = opf (mem_read ip iplen 16) (Some (cstr data i));
                   ip1 = mem_write ip iplen b
               in multiip_parse opf ipmax data (Suc j) (Suc j) (if r then iplen + 16 else iplen) ip1
          else multiip_parse opf ipmax data (Suc j) (Suc j) iplen ip
        else multiip_parse opf ipmax data (Suc j) i iplen ip
      else (iplen, ip))"
  by pat_completeness auto
termination
  by (relation "measure (\<lambda>(opf, ipmax, data, j, i, iplen, ip). length data - j)") auto

declare multiip_parse.simps [simp del]

definition strtomultiip_gen ::
    "(bytes \<Rightarrow> bytes option \<Rightarrow> bool \<times> bytes) \<Rightarrow> bytes \<Rightarrow> nat \<Rightarrow> bytes option \<Rightarrow> (nat \<times> bytes) option" where
  "strtomultiip_gen opf ip ipmax xx =
     (case xx of None \<Rightarrow> Some (0, ip)
      | Some x \<Rightarrow> do {
          ip0 \<leftarrow> byte_zero ip ipmax;
          len0 \<leftarrow> str_len x;
          len \<leftarrow> (if len0 > STRTOMULTIIP_BUFSIZE - 1
                 then multiip_cut x (int (STRTOMULTIIP_BUFSIZE - 1)) separators else Some (int len0));
          buf \<leftarrow> byte_copy (replicate STRTOMULTIIP_BUFSIZE 0) (nat len) x;
          buf \<leftarrow> st buf (nat len) 0;
          let data = take (nat len + 1) buf;
          let data1 = map (\<lambda>c. if c \<in> set separators then 0 else c) data;
          j \<leftarrow> byte_chr data1 (int (length data1)) 58;
          let data2 = (if j = int (length data1) then multiip_dots 0 data1 else data1);
          Some (multiip_parse opf ipmax data2 0 0 0 ip0) })"

definition strtomultiip4 :: "bytes \<Rightarrow> nat \<Rightarrow> bytes option \<Rightarrow> (nat \<times> bytes) option" where
  "strtomultiip4 ip ipmax x = strtomultiip_gen strtoip4 ip ipmax x"

definition strtomultiip6 ::
    "(bytes \<Rightarrow> bytes \<Rightarrow> bool \<times> bytes) \<Rightarrow> bytes \<Rightarrow> nat \<Rightarrow> bytes option \<Rightarrow> (nat \<times> bytes) option" where
  "strtomultiip6 inet_pton6 ip ipmax x = strtomultiip_gen (strtoip6 inet_pton6) ip ipmax x"

definition strtomultiip ::
    "(bytes \<Rightarrow> bytes \<Rightarrow> bool \<times> bytes) \<Rightarrow> bytes \<Rightarrow> nat \<Rightarrow> bytes option \<Rightarrow> (nat \<times> bytes) option" where
  "strtomultiip inet_pton6 ip ipmax x = strtomultiip_gen (strtoip inet_pton6) ip ipmax x"

subsection \<open>Names for reverse lookups\<close>

fun dns_iptoname4_loop :: "bytes \<Rightarrow> nat \<Rightarrow> bytes \<Rightarrow> bytes" where
  "dns_iptoname4_loop ip 0 name = name"
| "dns_iptoname4_loop ip (Suc i) name =
     dns_iptoname4_loop ip i (name @ takeWhile (\<lambda>b. b \<noteq> 0) (numtostr (uint (ip ! i))) @ [46])"

definition in_addr_arpa :: bytes where
  "in_addr_arpa = [105, 110, 45, 97, 100, 100, 114, 46, 97, 114, 112, 97]"

definition ip6_arpa :: bytes where
  "ip6_arpa = [105, 112, 54, 46, 97, 114, 112, 97]"

definition dns_iptoname4 :: "bytes \<Rightarrow> bytes" where
  "dns_iptoname4 ip = dns_iptoname4_loop ip 4 [] @ in_addr_arpa @ [0]"

fun dns_iptoname6_loop :: "bytes \<Rightarrow> nat \<Rightarrow> bytes \<Rightarrow> bytes" where
  "dns_iptoname6_loop ip 0 name = name"
| "dns_iptoname6_loop ip (Suc i) name =
     dns_iptoname6_loop ip i
       (name @ [hex_char (unat (ip ! i) AND 15), 46, hex_char (drop_bit 4 (unat (ip ! i)) AND 15), 46])"

definition dns_iptoname6 :: "bytes \<Rightarrow> bytes" where
  "dns_iptoname6 ip = dns_iptoname6_loop ip 16 [] @ ip6_arpa @ [0]"

definition dns_iptoname :: "bytes \<Rightarrow> bytes option" where
  "dns_iptoname ip =
     do { eq \<leftarrow> byte_isequal v4prefix 12 ip;
          Some (if eq \<noteq> 0 then dns_iptoname4 (drop 12 ip) else dns_iptoname6 ip) }"

section \<open>Correctness\<close>

subsection \<open>IPv4\<close>

definition v4_text :: "bytes \<Rightarrow> bytes" where
  "v4_text y = put_digits (unat (y ! 0)) [] @ 46 # put_digits (unat (y ! 1)) [] @
     46 # put_digits (unat (y ! 2)) [] @ 46 # put_digits (unat (y ! 3)) []"

lemma put_digits_Cons: "put_digits n (c # s) = put_digits n [] @ c # s"
  by (rule put_digits_append)

lemma iptostr4_eq: "iptostr4 y = v4_text y @ replicate (IPTOSTR_LEN - length (v4_text y)) 0"
  by (simp add: iptostr4_def v4_text_def numeral_3_eq_3 numeral_2_eq_2 ac_simps put_digits_Cons numlen_put_digits
      put_digits_append [of _ "_ @ _"])

lemma length_octet: "length (put_digits (unat (b :: byte)) []) \<le> 3"
proof (rule length_put_digits)
  show "unat b < 10 ^ 3" by (rule less_le_trans [OF unat_byte_less]) simp
qed simp

lemma length_v4_text: "length (v4_text y) \<le> 15"
  using length_octet [of "y ! 0"] length_octet [of "y ! 1"] length_octet [of "y ! 2"] length_octet [of "y ! 3"]
  unfolding v4_text_def by simp

lemma v4_text_no_0: "0 \<notin> set (v4_text y)"
  by (simp add: v4_text_def put_digits_no_0)

lemma digit_loop_octet:
  assumes "\<not> is_digit (hd0 r)"
  shows "digit_loop 3 0 0 (put_digits (unat (b :: byte)) [] @ r) =
     (length (put_digits (unat b) []), unat b, r)"
  using digit_loop_digits [of "put_digits (unat b) []" 0 3 r 0] assms length_octet [of b]
  by (simp add: put_digits_digits dec_val_put_digits)

lemma not_digit_dot [simp]: "\<not> is_digit 46" "\<not> is_digit 0"
  by (simp_all add: is_digit_def)

lemma strtoip4_v4_text:
  assumes "length ip = 16" "length y = 4"
  shows "strtoip4 ip (Some (v4_text y)) = (True, v4prefix @ y)"
proof -
  obtain a b c d where y: "y = [a, b, c, d]"
    using assms(2) by (auto simp: numeral_eq_Suc length_Suc_conv)
  note loop = strtoip4_loop.simps
  have "strtoip4 ip (Some (v4_text y)) = (True, mem_write ((mem_write ip 12 [0, 0, 0, 0])
      [12 := a, 13 := b, 14 := c, 15 := d]) 0 v4prefix)"
    using digit_loop_octet [of "[]" d]
    by (simp add: strtoip4_def v4_text_def y loop [of _ 0] loop [of _ "Suc 0"] loop [of _ "Suc (Suc 0)"]
       loop [of _ "Suc (Suc (Suc 0))"] loop [of _ "Suc (Suc (Suc (Suc 0)))"] digit_loop_octet)
  also have "mem_write ((mem_write ip 12 [0, 0, 0, 0])[12 := a, 13 := b, 14 := c, 15 := d]) 0 v4prefix = v4prefix @ y"
    using assms(1) by (simp add: mem_write_def v4prefix_def list_update_append y)
  finally show ?thesis .
qed

subsection \<open>IPv6: the longest run of zero groups\<close>

definition zero_run :: "nat list \<Rightarrow> nat \<Rightarrow> nat" where
  "zero_run g b = length (takeWhile (\<lambda>x. x = 0) (rev (take (Suc b) g)))"

definition zpat :: "nat \<Rightarrow> nat" where
  "zpat x = (if x = 0 then 0 else 1)"

lemma countz_count_zpat:
  "i \<le> length g \<Longrightarrow> countz_count g i e cnt = countz_count (map zpat g) i e cnt"
  by (induction i arbitrary: e cnt) (auto simp: zpat_def)

lemma zero_run_zpat: "zero_run (map zpat g) b = zero_run g b"
  unfolding zero_run_def take_map rev_map takeWhile_map length_map
  by (rule arg_cong [of _ _ length], rule takeWhile_cong) (auto simp: zpat_def)

lemma countz_count_patterns:
  "list_all (\<lambda>p. countz_count p 8 8 (replicate 8 0) = map (zero_run p) [0..<8]) (List.n_lists 8 [0, 1])"
  by code_simp

lemma countz_count_eq:
  assumes "length g = 8"
  shows "countz_count g 8 8 (replicate 8 0) = map (zero_run g) [0..<8]"
proof -
  have "map zpat g \<in> set (List.n_lists 8 [0, 1])"
    using assms by (auto simp: set_n_lists zpat_def)
  then have "countz_count (map zpat g) 8 8 (replicate 8 0) = map (zero_run (map zpat g)) [0..<8]"
    using countz_count_patterns unfolding list_all_iff by blast
  then show ?thesis
    using assms countz_count_zpat [of 8 g] by (simp add: zero_run_zpat)
qed

lemma countz_best_max:
  assumes "j < 8" "i \<le> 8" "e = 0 \<and> (\<forall>b. i \<le> b \<and> b < 8 \<longrightarrow> cnt ! b = 0) \<or>
     e = cnt ! j \<and> (\<forall>b. i \<le> b \<and> b < 8 \<longrightarrow> cnt ! b \<le> e)"
  shows "countz_best cnt i e j < 8 \<and> (\<forall>b < 8. cnt ! b \<le> cnt ! countz_best cnt i e j)"
  using assms
proof (induction i arbitrary: e j)
  case 0
  then show ?case by auto
next
  case (Suc i)
  show ?case
  proof (cases "cnt ! i \<noteq> 0 \<and> cnt ! i \<ge> e")
    case True
    have "cnt ! b \<le> cnt ! i" if "i \<le> b" "b < 8" for b
    proof (cases "b = i")
      case False
      with that have "Suc i \<le> b" by simp
      with that Suc.prems(3) True show ?thesis by (elim disjE) auto
    qed simp
    then show ?thesis using True Suc.IH [of i "cnt ! i"] Suc.prems by simp
  next
    case False
    then have "e = 0 \<and> (\<forall>b. i \<le> b \<and> b < 8 \<longrightarrow> cnt ! b = 0) \<or>
        e = cnt ! j \<and> (\<forall>b. i \<le> b \<and> b < 8 \<longrightarrow> cnt ! b \<le> e)"
    proof -
      have "i \<le> b \<longleftrightarrow> b = i \<or> Suc i \<le> b" for b by auto
      with Suc.prems(3) False show ?thesis by (elim disjE) auto
    qed
    then show ?thesis using False Suc.IH [of j e] Suc.prems by auto
  qed
qed

lemma zero_run_zeros:
  assumes "b < length g"
  shows "zero_run g b \<le> Suc b" "Suc b - zero_run g b \<le> i \<Longrightarrow> i \<le> b \<Longrightarrow> g ! i = 0"
proof -
  let ?r = "rev (take (Suc b) g)"
  have "zero_run g b \<le> length ?r" unfolding zero_run_def by (rule length_takeWhile_le)
  then show "zero_run g b \<le> Suc b" using assms by simp
  assume i: "Suc b - zero_run g b \<le> i" "i \<le> b"
  then have "b - i < zero_run g b" by simp
  then have "?r ! (b - i) = takeWhile (\<lambda>x. x = 0) ?r ! (b - i)" and "b - i < length (takeWhile (\<lambda>x. x = 0) ?r)"
    by (simp_all add: takeWhile_nth zero_run_def)
  moreover from this(2) have "takeWhile (\<lambda>x. x = 0) ?r ! (b - i) = 0" by (rule set_takeWhileD [OF nth_mem, THEN conjunct2])
  ultimately have "?r ! (b - i) = 0" by (simp only:)
  then show "g ! i = 0" using assms i by (simp add: rev_nth)
qed

lemma countz_eq:
  assumes "length g = 8" "countz g = (first, lst)"
  obtains j where "j < 8" "lst = int j" "first = int (Suc j - zero_run g j)" "zero_run g j \<le> Suc j"
    "\<forall>b < 8. zero_run g b \<le> zero_run g j" "\<forall>i. Suc j - zero_run g j \<le> i \<and> i \<le> j \<longrightarrow> g ! i = 0"
proof -
  let ?cnt = "map (zero_run g) [0..<8]"
  obtain j where best: "countz_best ?cnt 8 0 0 = j" by blast
  have "countz_best ?cnt 8 0 0 < 8 \<and> (\<forall>b < 8. ?cnt ! b \<le> ?cnt ! countz_best ?cnt 8 0 0)"
    by (rule countz_best_max) auto
  then have J: "j < 8" "\<forall>b < 8. ?cnt ! b \<le> ?cnt ! j" unfolding best by auto
  then have max: "\<forall>b < 8. zero_run g b \<le> zero_run g j" by simp
  have z: "zero_run g j \<le> Suc j" "\<forall>i. Suc j - zero_run g j \<le> i \<and> i \<le> j \<longrightarrow> g ! i = 0"
    using J(1) zero_run_zeros [of j g] assms(1) by simp_all
  have "lst = int j" "first = int (Suc j - zero_run g j)"
    using assms(2) J(1) z(1) by (simp_all add: countz_def countz_count_eq [OF assms(1)] Let_def best of_nat_diff)
  with J(1) z max show thesis by (intro that [of j])
qed

subsection \<open>IPv6: the text\<close>

text \<open>Groups in hexadecimal, separated by colons.\<close>

fun v6_join :: "nat list \<Rightarrow> bytes" where
  "v6_join [] = []"
| "v6_join [g] = put_hex g []"
| "v6_join (g # gs) = put_hex g [] @ 58 # v6_join gs"

lemma put_hex_append: "put_hex n acc = put_hex n [] @ acc"
proof (induction n arbitrary: acc rule: less_induct)
  case (less n)
  show ?case
  proof (cases "drop_bit 4 n = 0")
    case True
    then show ?thesis by (simp add: put_hex.simps [of n])
  next
    case False
    then have "drop_bit 4 n < n" by (simp add: drop_bit_eq_div)
    then have IH: "put_hex (drop_bit 4 n) a = put_hex (drop_bit 4 n) [] @ a" for a
      by (rule less)
    show ?thesis
      using False by (simp add: put_hex.simps [of n] IH [of "[hex_char (n AND 15)]"] IH [of "hex_char (n AND 15) # acc"])
  qed
qed

lemma length_put_hex: "n < 16 ^ Suc k \<Longrightarrow> length (put_hex n []) \<le> Suc k"
proof (induction k arbitrary: n)
  case 0
  then show ?case by (simp add: put_hex.simps [of n] drop_bit_eq_div)
next
  case (Suc k)
  have "n div 16 < 16 ^ Suc k" using Suc.prems by (intro less_mult_imp_div_less) (simp add: mult.commute)
  then have "length (put_hex (n div 16) []) \<le> Suc k" by (rule Suc.IH)
  then show ?case
    by (subst put_hex.simps) (auto simp: Let_def drop_bit_eq_div put_hex_append [of "n div 16" "[_]"])
qed

lemma v6_join_Cons: "v6_join (g # gs) = put_hex g [] @ (if gs = [] then [] else 58 # v6_join gs)"
  by (cases gs) simp_all

lemma v6_join_snoc: "v6_join (gs @ [g]) = (if gs = [] then [] else v6_join gs @ [58]) @ put_hex g []"
  by (induction gs) (simp_all add: v6_join_Cons)

lemma length_v6_join: "\<forall>g \<in> set gs. g < 65536 \<Longrightarrow> length (v6_join gs) \<le> 5 * length gs - 1"
proof (induction gs)
  case (Cons g gs)
  then have "length (put_hex g []) \<le> Suc 3" by (intro length_put_hex) simp
  with Cons show ?case by (cases gs) (auto simp: v6_join_Cons)
qed simp

lemma iptostr6_put_plain:
  assumes "i \<le> length g" "\<forall>k < i. \<not> (int k \<le> l \<and> int k \<ge> f \<and> f \<noteq> l)"
  shows "iptostr6_put g f l i s = v6_join (take i g) @ s"
  using assms
proof (induction i arbitrary: s)
  case (Suc i)
  have "take (Suc i) g = take i g @ [g ! i]" using Suc.prems by (simp add: take_Suc_conv_app_nth)
  moreover have "take i g = [] \<longleftrightarrow> i = 0" using Suc.prems by auto
  ultimately show ?case
    using Suc.IH Suc.prems by (auto simp: v6_join_snoc put_hex_append [of "g ! i" s] simp del: iptostr6_put.simps(1))
qed simp

lemma iptostr6x_put_plain:
  "i \<le> length g \<Longrightarrow> iptostr6x_put g i s = v6_join (take i g) @ s"
proof (induction i arbitrary: s)
  case (Suc i)
  have "take (Suc i) g = take i g @ [g ! i]" using Suc.prems by (simp add: take_Suc_conv_app_nth)
  moreover have "take i g = [] \<longleftrightarrow> i = 0" using Suc.prems by auto
  ultimately show ?case
    using Suc.IH Suc.prems by (auto simp: v6_join_snoc put_hex_append [of "g ! i" s])
qed simp

lemma iptostr6_put_skip:
  "f \<le> i \<Longrightarrow> i \<le> l \<Longrightarrow> f < l \<Longrightarrow> l \<le> 7 \<Longrightarrow>
   iptostr6_put g (int f) (int l) i s = iptostr6_put g (int f) (int l) f s"
  by (induction i) (auto simp: le_Suc_eq)

lemma iptostr6_put_above:
  "l < i \<Longrightarrow> iptostr6_put g f (int l) (Suc i) s = iptostr6_put g f (int l) i (58 # put_hex (g ! i) [] @ s)"
  by (simp add: put_hex_append [of "g ! i" s])

lemma iptostr6_put_after:
  assumes "Suc l < i" "i \<le> length g"
  shows "iptostr6_put g f (int l) i s =
     iptostr6_put g f (int l) (Suc l) (58 # v6_join (drop (Suc l) (take i g)) @ s)"
  using assms
proof (induction i arbitrary: s)
  case (Suc i)
  have tk: "take (Suc i) g = take i g @ [g ! i]" using Suc.prems by (simp add: take_Suc_conv_app_nth)
  have above: "iptostr6_put g f (int l) (Suc i) s = iptostr6_put g f (int l) i (58 # put_hex (g ! i) [] @ s)"
    using Suc.prems by (intro iptostr6_put_above) simp
  show ?case
  proof (cases "Suc l = i")
    case True
    then have "drop (Suc l) (take (Suc i) g) = [g ! i]" using Suc.prems by (simp add: tk)
    with True show ?thesis unfolding above by simp
  next
    case False
    then have dr: "drop (Suc l) (take i g) \<noteq> []" "drop (Suc l) (take (Suc i) g) = drop (Suc l) (take i g) @ [g ! i]"
      using Suc.prems by (simp_all add: tk)
    have "iptostr6_put g f (int l) i (58 # put_hex (g ! i) [] @ s) = iptostr6_put g f (int l) (Suc l)
        (58 # v6_join (drop (Suc l) (take i g)) @ 58 # put_hex (g ! i) [] @ s)"
      using False Suc.prems by (intro Suc.IH) simp_all
    also have "v6_join (drop (Suc l) (take i g)) @ 58 # put_hex (g ! i) [] @ s =
        v6_join (drop (Suc l) (take (Suc i) g)) @ s"
      unfolding dr(2) using dr(1) by (simp only: v6_join_snoc if_False append.assoc append_Cons append_Nil)
    finally show ?thesis unfolding above .
  qed
qed simp

lemma iptostr6_put_run:
  assumes "length g = 8" "f < l" "l \<le> 7"
  shows "iptostr6_put g (int f) (int l) 8 s = v6_join (take f g) @ 58 # 58 # v6_join (drop (Suc l) g) @ s"
proof -
  have plain: "iptostr6_put g (int f) (int l) f t = v6_join (take f g) @ t" for t
    using assms by (intro iptostr6_put_plain) auto
  have at_l: "iptostr6_put g (int f) (int l) (Suc l) t =
      v6_join (take f g) @ (if l = 7 then 58 # 58 # t else 58 # t)" for t
    using assms by (simp add: iptostr6_put_skip [of f l l] plain)
  show ?thesis
  proof (cases "l = 7")
    case True
    then show ?thesis using at_l [of s] assms(1) by (simp del: iptostr6_put.simps)
  next
    case False
    then show ?thesis
      using assms iptostr6_put_after [of l 8 g "int f" s]
      by (simp add: at_l del: iptostr6_put.simps)
  qed
qed

text \<open>The longest run of at least two zero groups becomes \<open>::\<close>, and nothing else is left out.\<close>

definition v6_text :: "bytes \<Rightarrow> bytes" where
  "v6_text ip = takeWhile (\<lambda>b. b \<noteq> 0) (iptostr6 ip)"

lemma ip_groups_props [simp]: "length (ip_groups ip) = 8" "g \<in> set (ip_groups ip) \<Longrightarrow> g < 65536"
proof -
  have "unat (a :: byte) * 256 + unat (b :: byte) < 65536" for a b
    using unat_byte_less [of a] unat_byte_less [of b] by linarith
  then show "g \<in> set (ip_groups ip) \<Longrightarrow> g < 65536" by (auto simp: ip_groups_def)
qed (simp add: ip_groups_def)

lemma hex_char_nonzero: "d < 16 \<Longrightarrow> hex_char d \<noteq> 0"
  using hexdigit_hex_char [of d] by (auto simp: hexdigit_def)

lemma nat_and_15: "(n :: nat) AND 15 = n mod 16"
  using take_bit_eq_mask [of 4 n] by (simp add: take_bit_eq_mod mask_eq_exp_minus_1)

lemma put_hex_no_0: "0 \<notin> set (put_hex n [])"
proof (induction n rule: less_induct)
  case (less n)
  have c: "hex_char (n AND 15) \<noteq> 0" by (rule hex_char_nonzero) (simp add: nat_and_15)
  show ?case
  proof (cases "drop_bit 4 n = 0")
    case True
    with c show ?thesis by (simp add: put_hex.simps [of n])
  next
    case False
    then have "drop_bit 4 n < n" by (simp add: drop_bit_eq_div)
    with less c show ?thesis by (subst put_hex.simps) (simp add: Let_def put_hex_append [of "drop_bit 4 n" "[_]"])
  qed
qed

lemma v6_join_no_0: "0 \<notin> set (v6_join gs)"
  by (induction gs) (auto simp: v6_join_Cons put_hex_no_0)

lemma iptostr6_form:
  obtains (plain) "iptostr6 ip = v6_join (ip_groups ip) @ 0 # replicate (45 - length (v6_join (ip_groups ip))) 0"
      "\<forall>b < 8. zero_run (ip_groups ip) b < 2"
  | (run) f l where "f < l" "l < 8" "\<forall>i. f \<le> i \<and> i \<le> l \<longrightarrow> ip_groups ip ! i = 0"
      "\<forall>b < 8. zero_run (ip_groups ip) b \<le> Suc l - f"
      "iptostr6 ip = (v6_join (take f (ip_groups ip)) @ [58, 58] @ v6_join (drop (Suc l) (ip_groups ip))) @
         0 # replicate (45 - length (v6_join (take f (ip_groups ip)) @ [58, 58] @ v6_join (drop (Suc l) (ip_groups ip)))) 0"
proof -
  let ?g = "ip_groups ip"
  obtain first lst where c: "countz ?g = (first, lst)" by fastforce
  obtain j where J: "j < 8" "lst = int j" "first = int (Suc j - zero_run ?g j)" "zero_run ?g j \<le> Suc j"
      "\<forall>b < 8. zero_run ?g b \<le> zero_run ?g j" "\<forall>i. Suc j - zero_run ?g j \<le> i \<and> i \<le> j \<longrightarrow> ?g ! i = 0"
    by (rule countz_eq [OF _ c]) simp_all
  show thesis
  proof (cases "zero_run ?g j < 2")
    case True
    then have "\<forall>k < 8. \<not> (int k \<le> lst \<and> int k \<ge> first \<and> first \<noteq> lst)" using J(2,3) by auto
    then have "iptostr6_put ?g first lst 8 [0] = v6_join ?g @ [0]"
      by (subst iptostr6_put_plain) simp_all
    then show thesis
      using J(5) True by (intro plain) (auto simp: iptostr6_def c IPTOSTR_LEN_def Let_def)
  next
    case False
    let ?f = "Suc j - zero_run ?g j"
    have fl: "?f < j" "Suc j - ?f = zero_run ?g j" using False J(4) by simp_all
    then have "iptostr6_put ?g first lst 8 [0] = v6_join (take ?f ?g) @ 58 # 58 # v6_join (drop (Suc j) ?g) @ [0]"
      unfolding J(2,3) using J(1) by (intro iptostr6_put_run) simp_all
    then show thesis
      using fl J by (intro run [of ?f j]) (simp_all add: iptostr6_def c IPTOSTR_LEN_def Let_def)
  qed
qed

lemma v6_parts_length:
  assumes "f < l" "l < 8"
  shows "length (v6_join (take f (ip_groups ip)) @ [58, 58] @ v6_join (drop (Suc l) (ip_groups ip))) \<le> 39"
proof -
  have "length (v6_join (take f (ip_groups ip))) \<le> 5 * length (take f (ip_groups ip)) - 1"
    by (rule length_v6_join) (auto dest: in_set_takeD)
  moreover have "length (v6_join (drop (Suc l) (ip_groups ip))) \<le> 5 * length (drop (Suc l) (ip_groups ip)) - 1"
    by (rule length_v6_join) (auto dest: in_set_dropD)
  ultimately show ?thesis using assms by simp
qed

lemma length_iptostr6: "length (iptostr6 ip) = IPTOSTR_LEN"
proof (cases rule: iptostr6_form [of ip])
  case plain
  have "length (v6_join (ip_groups ip)) \<le> 5 * length (ip_groups ip) - 1" by (rule length_v6_join) auto
  with plain show ?thesis by (simp add: IPTOSTR_LEN_def)
next
  case (run f l)
  have "length (iptostr6 ip) = length (v6_join (take f (ip_groups ip)) @ [58, 58] @ v6_join (drop (Suc l) (ip_groups ip))) +
      Suc (45 - length (v6_join (take f (ip_groups ip)) @ [58, 58] @ v6_join (drop (Suc l) (ip_groups ip))))"
    unfolding run(5) length_append by simp
  with v6_parts_length [OF run(1,2), of ip] show ?thesis by (simp add: IPTOSTR_LEN_def)
qed

lemma takeWhile_cstr: "0 \<notin> set s \<Longrightarrow> takeWhile (\<lambda>b. b \<noteq> (0::byte)) (s @ 0 # r) = s"
  by (induction s) auto

subsection \<open>Lists of addresses\<close>

text \<open>
  What \<open>_strtomultiip\<close> needs of the parser of one address: it stores nothing but the 16
  bytes it was given.
\<close>

locale ip_parser =
  fixes opf :: "bytes \<Rightarrow> bytes option \<Rightarrow> bool \<times> bytes"
  assumes op_length: "length ip = 16 \<Longrightarrow> length (snd (opf ip x)) = 16"
begin

lemma multiip_parse_safe:
  assumes "iplen \<le> ipmax" "iplen mod 16 = 0" "ipmax \<le> length ip"
    "multiip_parse opf ipmax data j i iplen ip = (n, ip')"
  shows "n \<le> ipmax \<and> n mod 16 = 0 \<and> iplen \<le> n \<and> length ip' = length ip \<and>
     take iplen ip' = take iplen ip \<and> drop ipmax ip' = drop ipmax ip"
  using assms
proof (induction "length data - j" arbitrary: j i iplen ip)
  case 0
  then show ?case by (simp add: multiip_parse.simps [of _ _ _ j])
next
  case (Suc m)
  have j: "j < length data" "m = length data - Suc j" using Suc.hyps(2) by simp_all
  note IH = Suc.hyps(1) [OF j(2)]
  show ?case
  proof (cases "data ! j = 0 \<and> iplen + 16 \<le> ipmax")
    case True
    obtain r b where rb: "opf (mem_read ip iplen 16) (Some (cstr data i)) = (r, b)" by fastforce
    have "length (mem_read ip iplen 16) = 16" using True Suc.prems by simp
    then have b: "length b = 16" using op_length [of "mem_read ip iplen 16"] rb by (metis snd_conv)
    let ?ip1 = "mem_write ip iplen b" and ?n1 = "if r then iplen + 16 else iplen"
    have len: "length ?ip1 = length ip" using b True Suc.prems by simp
    have tk: "take iplen ?ip1 = take iplen ip" "drop ipmax ?ip1 = drop ipmax ip"
      using b True Suc.prems by (auto simp: mem_write_def)
    have "multiip_parse opf ipmax data (Suc j) (Suc j) ?n1 ?ip1 = (n, ip')"
      using Suc.prems(4) j True rb by (simp add: multiip_parse.simps [of _ _ _ j])
    then have I: "n \<le> ipmax \<and> n mod 16 = 0 \<and> ?n1 \<le> n \<and> length ip' = length ?ip1 \<and>
       take ?n1 ip' = take ?n1 ?ip1 \<and> drop ipmax ip' = drop ipmax ?ip1"
      using True Suc.prems(1-3) len by (intro IH) (simp_all split: if_split)
    then have "take iplen (take ?n1 ip') = take iplen (take ?n1 ?ip1)" by (simp only:)
    moreover have "min iplen ?n1 = iplen" "iplen \<le> ?n1" by simp_all
    ultimately have "take iplen ip' = take iplen ip" by (simp only: take_take tk)
    moreover have "iplen \<le> n" using I \<open>iplen \<le> ?n1\<close> order_trans by blast
    ultimately show ?thesis using I unfolding len tk by blast
  next
    case False
    then obtain i' where "multiip_parse opf ipmax data (Suc j) i' iplen ip = (n, ip')"
      using Suc.prems(4) j by (auto simp: multiip_parse.simps [of _ _ _ j] split: if_splits)
    then show ?thesis using Suc.prems by (intro IH)
  qed
qed

end

lemma length_strtoip4: "length ip = 16 \<Longrightarrow> length (snd (strtoip4 ip x)) = 16"
proof -
  have loop: "length ip = 16 \<Longrightarrow> length (snd (strtoip4_loop ip k y)) = 16" for ip k y
  proof (induction ip k y rule: strtoip4_loop.induct)
    case (1 ip k x)
    obtain j d x1 where d: "digit_loop 3 0 0 x = (j, d, x1)" by (metis prod_cases3)
    show ?case
      using 1 by (subst strtoip4_loop.simps) (simp add: d v4prefix_def Let_def)
  qed
  assume "length ip = 16"
  then show ?thesis by (cases x) (simp_all add: strtoip4_def loop)
qed

interpretation ip4: ip_parser strtoip4
  by unfold_locales (rule length_strtoip4)

lemma byte_rchr_range:
  assumes "n \<le> length y"
  obtains m where "byte_rchr y (int n) c = Some (int m)" "m \<le> n"
proof (cases "c \<in> set (take n y)")
  case True
  let ?w = "takeWhile (\<lambda>b. b \<noteq> c) (rev (take n y))"
  have "length ?w \<noteq> length (rev (take n y))"
  proof
    assume "length ?w = length (rev (take n y))"
    then have "?w = rev (take n y)" by (metis takeWhile_eq_take take_all_iff order_refl)
    with True show False by (auto simp: takeWhile_eq_all_conv)
  qed
  then have "length ?w < n" using length_takeWhile_le [of _ "rev (take n y)"] assms
    by (metis length_rev length_take min.absorb2 nat_less_le)
  with True show thesis
    by (intro that [of "n - 1 - length ?w"]) (simp_all add: byte_rchr_eq [OF assms] of_nat_diff)
next
  case False
  then show thesis by (intro that [of n]) (simp_all add: byte_rchr_eq [OF assms])
qed

lemma multiip_cut_range:
  "n \<le> length x \<Longrightarrow> \<exists>m \<le> n. multiip_cut x (int n) seps = Some (int m)"
proof (induction seps arbitrary: n)
  case (Cons c seps)
  obtain m where m: "byte_rchr x (int n) c = Some (int m)" "m \<le> n"
    using Cons.prems by (rule byte_rchr_range)
  moreover obtain k where "k \<le> m" "multiip_cut x (int m) seps = Some (int k)"
    using Cons.IH [of m] Cons.prems m by auto
  ultimately show ?case by (intro exI [of _ k]) simp
qed simp

context ip_parser
begin

lemma strtomultiip_gen_safe:
  assumes "0 \<notin> set s" "ipmax \<le> length ip"
  shows "\<exists>n ip'. strtomultiip_gen opf ip ipmax (Some (s @ [0])) = Some (n, ip') \<and>
     n \<le> ipmax \<and> n mod 16 = 0 \<and> length ip' = length ip \<and> drop ipmax ip' = drop ipmax ip"
proof -
  let ?x = "s @ [0]"
  obtain m where m: "m \<le> 799" "m \<le> length s"
    "(if length s > STRTOMULTIIP_BUFSIZE - 1
      then multiip_cut ?x (int (STRTOMULTIIP_BUFSIZE - 1)) separators else Some (int (length s))) = Some (int m)"
  proof (cases "length s > 799")
    case True
    then obtain k where "k \<le> 799" "multiip_cut ?x (int 799) separators = Some (int k)"
      using multiip_cut_range [of 799 ?x separators] by auto
    with True show thesis by (intro that [of k]) (simp_all add: STRTOMULTIIP_BUFSIZE_def)
  next
    case False
    then show thesis by (intro that [of "length s"]) (simp_all add: STRTOMULTIIP_BUFSIZE_def)
  qed
  let ?ip0 = "mem_write ip 0 (replicate ipmax 0)"
  let ?d1 = "map (\<lambda>c. if c \<in> set separators then 0 else c)
    (take (m + 1) ((mem_write (replicate STRTOMULTIIP_BUFSIZE 0) 0 (take m ?x))[m := 0]))"
  obtain j where j: "byte_chr ?d1 (int (length ?d1)) 58 = Some j"
    using byte_chr_eq [of "length ?d1" ?d1 58] by auto
  let ?d2 = "if j = int (length ?d1) then multiip_dots 0 ?d1 else ?d1"
  have cp: "byte_copy (replicate STRTOMULTIIP_BUFSIZE 0) m ?x =
      Some (mem_write (replicate STRTOMULTIIP_BUFSIZE 0) 0 (take m ?x))"
    using m by (intro byte_copy_eq) (simp_all add: STRTOMULTIIP_BUFSIZE_def)
  have st: "st (mem_write (replicate STRTOMULTIIP_BUFSIZE 0) 0 (take m ?x)) m 0 =
      Some ((mem_write (replicate STRTOMULTIIP_BUFSIZE 0) 0 (take m ?x))[m := 0])"
    using m(1) by (simp add: STRTOMULTIIP_BUFSIZE_def)
  have sl: "str_len ?x = Some (length s)" using str_len_eq [OF assms(1), of "[]"] by simp
  have bz: "byte_zero ip ipmax = Some ?ip0" using assms(2) by (rule byte_zero_eq)
  have run: "strtomultiip_gen opf ip ipmax (Some ?x) = Some (multiip_parse opf ipmax ?d2 0 0 0 ?ip0)"
    unfolding strtomultiip_gen_def option.case bz sl bind.bind_lunit m(3) nat_int cp st Let_def j by (rule refl)
  obtain n ip' where P: "multiip_parse opf ipmax ?d2 0 0 0 ?ip0 = (n, ip')" by fastforce
  have "length ?ip0 = length ip" "drop ipmax ?ip0 = drop ipmax ip"
    using assms(2) by (simp_all add: mem_write_def)
  with multiip_parse_safe [OF _ _ _ P] assms(2) run P show ?thesis by auto
qed

end

text \<open>C34: \<open>strtomultiip4\<close> always returns, on any 0-terminated text and any output buffer of at
  least \<open>ipmax\<close> bytes: the returned length is a multiple of 16 and at most \<open>ipmax\<close>, and no byte
  beyond \<open>ipmax\<close> is touched.\<close>

theorem strtomultiip4_safe:
  assumes "0 \<notin> set s" "ipmax \<le> length ip"
  shows "\<exists>n ip'. strtomultiip4 ip ipmax (Some (s @ [0])) = Some (n, ip') \<and>
     n \<le> ipmax \<and> n mod 16 = 0 \<and> length ip' = length ip \<and> drop ipmax ip' = drop ipmax ip"
  unfolding strtomultiip4_def by (rule ip4.strtomultiip_gen_safe [OF assms])

theorem strtomultiip4_safe_witness:
  "\<exists>n ip'. strtomultiip4 (replicate 20 7) 16 (Some ([49, 46, 50, 46, 51, 46, 52] @ [0])) = Some (n, ip') \<and>
     n \<le> 16 \<and> n mod 16 = 0 \<and> length ip' = 20 \<and> drop 16 ip' = drop 16 (replicate 20 7)"
  using strtomultiip4_safe [of "[49, 46, 50, 46, 51, 46, 52]" 16 "replicate 20 7"] by simp

text \<open>The text of an IPv4 address reads back as that address, whatever was in the
  destination, and it fits the buffer of \<open>IPTOSTR_LEN\<close> bytes with its terminator.\<close>

theorem strtoip4_iptostr:
  assumes "length ip = 16" "take 12 ip = v4prefix" "length old = 16"
  shows "\<exists>buf. iptostr ip = Some buf \<and> length buf = IPTOSTR_LEN \<and> last buf = 0 \<and>
     strtoip4 old (Some (takeWhile (\<lambda>b. b \<noteq> 0) buf)) = (True, ip)"
proof -
  let ?y = "drop 12 ip"
  have l: "length (v4_text ?y) \<le> 15" by (rule length_v4_text)
  have eq: "byte_isequal v4prefix 12 ip = Some 1"
    using assms byte_isequal_eq [of 12 v4prefix ip] by (simp add: v4prefix_def)
  have ip: "v4prefix @ ?y = ip" using append_take_drop_id [of 12 ip] assms(2) by simp
  have "IPTOSTR_LEN - length (v4_text ?y) = Suc (45 - length (v4_text ?y))"
    using l by (simp add: IPTOSTR_LEN_def)
  then have buf: "iptostr4 ?y = v4_text ?y @ 0 # replicate (45 - length (v4_text ?y)) 0"
    by (simp add: iptostr4_eq)
  have "strtoip4 old (Some (takeWhile (\<lambda>b. b \<noteq> 0) (iptostr4 ?y))) = (True, ip)"
    using strtoip4_v4_text [OF assms(3), of ?y] assms(1) by (simp add: buf takeWhile_cstr v4_text_no_0 ip)
  moreover have "length (iptostr4 ?y) = IPTOSTR_LEN" "last (iptostr4 ?y) = 0"
    using l by (simp_all add: buf IPTOSTR_LEN_def)
  ultimately show ?thesis by (simp add: iptostr_def eq)
qed

theorem strtoip4_iptostr_witness:
  "\<exists>buf. iptostr (v4prefix @ [192, 0, 2, 255]) = Some buf \<and> length buf = IPTOSTR_LEN \<and> last buf = 0 \<and>
     strtoip4 (replicate 16 9) (Some (takeWhile (\<lambda>b. b \<noteq> 0) buf)) = (True, v4prefix @ [192, 0, 2, 255])"
  using strtoip4_iptostr [of "v4prefix @ [192, 0, 2, 255]" "replicate 16 9"] by (simp add: v4prefix_def)

text \<open>The text of an IPv6 address consists of its 16-bit groups in hexadecimal, with the
  longest run of at least two zero groups, and only that run, written as two colons; it fills
  exactly the \<open>IPTOSTR_LEN\<close> bytes of the buffer, padded with zeros.\<close>

theorem iptostr6_text:
  "length (iptostr6 ip) = IPTOSTR_LEN \<and>
   (v6_text ip = v6_join (ip_groups ip) \<and> (\<forall>b < 8. zero_run (ip_groups ip) b < 2) \<or>
    (\<exists>pre k post. ip_groups ip = pre @ replicate k 0 @ post \<and> 2 \<le> k \<and>
       (\<forall>b < 8. zero_run (ip_groups ip) b \<le> k) \<and>
       v6_text ip = v6_join pre @ [58, 58] @ v6_join post))"
proof (cases rule: iptostr6_form [of ip])
  case plain
  have "v6_text ip = v6_join (ip_groups ip)"
    unfolding v6_text_def plain(1) by (rule takeWhile_cstr) (rule v6_join_no_0)
  with plain(2) length_iptostr6 [of ip] show ?thesis by blast
next
  case (run f l)
  let ?g = "ip_groups ip"
  have "drop f ?g = take (Suc l - f) (drop f ?g) @ drop (Suc l - f) (drop f ?g)"
    by (rule append_take_drop_id [symmetric])
  moreover have "take (Suc l - f) (drop f ?g) = replicate (Suc l - f) 0"
    using run(1-3) by (intro nth_equalityI) simp_all
  moreover have "drop (Suc l - f) (drop f ?g) = drop (Suc l) ?g" using run(1) by simp
  ultimately have dr: "drop f ?g = replicate (Suc l - f) 0 @ drop (Suc l) ?g" by (simp only:)
  have "?g = take f ?g @ replicate (Suc l - f) 0 @ drop (Suc l) ?g"
    unfolding dr [symmetric] by (rule append_take_drop_id [symmetric])
  moreover have "v6_text ip = v6_join (take f ?g) @ [58, 58] @ v6_join (drop (Suc l) ?g)"
    unfolding v6_text_def run(5) by (rule takeWhile_cstr) (simp add: v6_join_no_0)
  moreover have "2 \<le> Suc l - f" using run(1) by simp
  ultimately show ?thesis using run(4) length_iptostr6 [of ip] by blast
qed

text \<open>The address \<open>2001:db8::1\<close>.\<close>

theorem iptostr6_text_witness:
  "\<exists>pre k post. ip_groups [32, 1, 13, 184, 0, 0, 0, 0, 0, 0, 0, 0, 0, 0, 0, 1] = pre @ replicate k 0 @ post \<and> 2 \<le> k \<and>
     v6_text [32, 1, 13, 184, 0, 0, 0, 0, 0, 0, 0, 0, 0, 0, 0, 1] = v6_join pre @ [58, 58] @ v6_join post"
proof -
  let ?ip = "[32, 1, 13, 184, 0, 0, 0, 0, 0, 0, 0, 0, 0, 0, 0, 1] :: bytes"
  have "ip_groups ?ip = [8193, 3512, 0, 0, 0, 0, 0, 1]" by (simp add: ip_groups_def upt_rec)
  then have "\<not> zero_run (ip_groups ?ip) 3 < 2" by (simp add: zero_run_def)
  then have "\<not> (\<forall>b < 8. zero_run (ip_groups ?ip) b < 2)"
    by (intro notI) (drule spec [of _ 3], simp)
  then show ?thesis using iptostr6_text [of ?ip] by blast
qed

end
