(* ===== verification/DnsDomain.thy ===== *)
theory DnsDomain
  imports Stralloc IpText "HOL-Library.Sublist"
begin

section \<open>Domain names\<close>

text \<open>
  Models of \<open>dq/dns_domain.c\<close> and \<open>dq/dns_dtda.c\<close>.  A domain name in wire form is a
  sequence of labels, each behind its length byte, and a 0 byte.  A pointer to a name is the
  list of the bytes from there to the end of the object; a read past the end is \<open>None\<close>.
\<close>

function dns_domain_length :: "bytes \<Rightarrow> nat option" where
  "dns_domain_length [] = None"
| "dns_domain_length (c # x) =
     (if c = 0 then Some 1
      else do { n \<leftarrow> dns_domain_length (drop (unat c) x); Some (1 + unat c + n) })"
  by pat_completeness auto
termination
  by (relation "measure length") auto

text \<open>
  \<open>dns_domain_copy(out, in)\<close>: the return value and \<open>*out\<close> afterwards; \<open>al\<close> tells whether
  \<open>alloc\<close> succeeds.
\<close>

definition dns_domain_copy :: "(nat \<Rightarrow> bool) \<Rightarrow> bytes option \<Rightarrow> bytes \<Rightarrow> (bool \<times> bytes option) option" where
  "dns_domain_copy al out inp =
     do { len \<leftarrow> dns_domain_length inp;
          if \<not> al len then Some (False, out)
          else do { x \<leftarrow> byte_copy (replicate len 0) len inp; Some (True, Some x) } }"

definition dns_domain_free :: "bytes option \<Rightarrow> bytes option" where
  "dns_domain_free out = (case out of None \<Rightarrow> None | Some x \<Rightarrow> None)"

definition dns_domain_equal :: "bytes \<Rightarrow> bytes \<Rightarrow> bool option" where
  "dns_domain_equal dn1 dn2 =
     do { len \<leftarrow> dns_domain_length dn1;
          len2 \<leftarrow> dns_domain_length dn2;
          if len \<noteq> len2 then Some False
          else do { d \<leftarrow> case_diffb dn1 len dn2; Some (d = 0) } }"

function dns_domain_suffix :: "bytes \<Rightarrow> bytes \<Rightarrow> bool option" where
  "dns_domain_suffix big little =
     do { eq \<leftarrow> dns_domain_equal big little;
          if eq then Some True
          else case big of [] \<Rightarrow> None
            | c # big1 \<Rightarrow> if c = 0 then Some False else dns_domain_suffix (drop (unat c) big1) little }"
  by pat_completeness auto
termination
  by (relation "measure (\<lambda>(big, little). length big)") auto

declare dns_domain_suffix.simps [simp del]

function dns_domain_suffixpos_loop :: "nat \<Rightarrow> bytes \<Rightarrow> bytes \<Rightarrow> nat option" where
  "dns_domain_suffixpos_loop pos big little =
     do { eq \<leftarrow> dns_domain_equal big little;
          if eq then Some pos
          else case big of [] \<Rightarrow> None
            | c # big1 \<Rightarrow> if c = 0 then Some 0
              else dns_domain_suffixpos_loop (pos + 1 + unat c) (drop (unat c) big1) little }"
  by pat_completeness auto
termination
  by (relation "measure (\<lambda>(pos, big, little). length big)") auto

declare dns_domain_suffixpos_loop.simps [simp del]

definition dns_domain_suffixpos :: "bytes \<Rightarrow> bytes \<Rightarrow> nat option" where
  "dns_domain_suffixpos big little = dns_domain_suffixpos_loop 0 big little"

subsection \<open>Parsing dotted names\<close>

text \<open>
  The character behind a backslash: up to three octal digits, with the 8-bit arithmetic of
  \<open>ch <<= 3; ch += *buf - '0'\<close>.
\<close>

definition is_octal :: "byte \<Rightarrow> bool" where
  "is_octal c \<longleftrightarrow> 48 \<le> c \<and> c \<le> 55"

fun fromdot_escape :: "bytes \<Rightarrow> byte \<times> bytes" where
  "fromdot_escape [] = (0, [])"
| "fromdot_escape (c # buf) =
     (if is_octal c
      then let ch = c - 48 in
        case buf of [] \<Rightarrow> (ch, buf)
        | d # buf1 \<Rightarrow>
          if is_octal d
          then let ch1 = push_bit 3 ch + (d - 48) in
            case buf1 of [] \<Rightarrow> (ch1, buf1)
            | e # buf2 \<Rightarrow> if is_octal e then (push_bit 3 ch1 + (e - 48), buf2) else (ch1, buf1)
          else (ch, buf)
      else (c, buf))"

lemma fromdot_escape_length: "length (snd (fromdot_escape b)) \<le> length b"
  by (cases b) (auto simp: Let_def split: list.splits)

text \<open>
  The loop of \<open>dns_domain_fromdot\<close> and of \<open>dns_domain_fromdot_static\<close>; \<open>label\<close> is
  \<open>label[0 .. labellen)\<close>, \<open>name\<close> is \<open>name[0 .. namelen)\<close>.  It gives a flag (0 for the
  early \<open>return 0\<close>), the pending label and the name.
\<close>

function fromdot_loop :: "bytes \<Rightarrow> bytes \<Rightarrow> bytes \<Rightarrow> bool \<times> bytes \<times> bytes" where
  "fromdot_loop label name [] = (True, label, name)"
| "fromdot_loop label name (ch # buf) =
     (if ch = 46
      then if length label > 0
        then if length name + length label + 1 > 255 then (False, label, name)
          else fromdot_loop [] (name @ of_nat (length label) # label) buf
        else fromdot_loop label name buf
      else if ch = 92 \<and> buf = [] then (True, label, name)
      else let (ch1, buf1) = (if ch = 92 then fromdot_escape buf else (ch, buf)) in
        if length label \<ge> 63 then (False, label, name)
        else fromdot_loop (label @ [ch1]) name buf1)"
  by pat_completeness auto
termination
proof (relation "measure (\<lambda>(label, name, buf). length buf)")
  fix label name buf ch x ch1 buf1
  assume "x = (if ch = 92 then fromdot_escape buf else (ch, buf))" "(ch1, buf1) = x"
  then show "((label @ [ch1], name, buf1), label, name, ch # buf) \<in> measure (\<lambda>(label, name, buf). length buf)"
    using fromdot_escape_length [of buf] by (auto simp: prod_eq_iff split: if_splits)
qed auto

declare fromdot_loop.simps(2) [simp del]

text \<open>The rest of the two functions: the last label and the final 0.\<close>

definition fromdot_finish :: "bool \<times> bytes \<times> bytes \<Rightarrow> bool \<times> bytes" where
  "fromdot_finish s =
     (let (ok, label, name) = s in
      if \<not> ok then (False, name)
      else if length label > 0 \<and> length name + length label + 1 > 255 then (False, name)
      else let name1 = (if length label > 0 then name @ of_nat (length label) # label else name) in
        if length name1 + 1 > 255 then (False, name1) else (True, name1 @ [0]))"

definition dns_domain_fromdot :: "(nat \<Rightarrow> bool) \<Rightarrow> bytes option \<Rightarrow> bytes \<Rightarrow> bool \<times> bytes option" where
  "dns_domain_fromdot al out buf =
     (let (ok, name) = fromdot_finish (fromdot_loop [] [] buf) in
      if \<not> ok then (False, out)
      else if \<not> al (length name) then (False, out)
      else (True, Some name))"

text \<open>The static variant writes into the zeroed 256-byte buffer of the caller.\<close>

definition dns_domain_fromdot_static :: "bytes \<Rightarrow> bool \<times> bytes" where
  "dns_domain_fromdot_static buf =
     (let (ok, name) = fromdot_finish (fromdot_loop [] [] buf)
      in (ok, name @ replicate (256 - length name) 0))"

subsection \<open>Printing dotted names\<close>

text \<open>What one byte of a label is printed as.\<close>

definition todot_char :: "byte \<Rightarrow> bytes" where
  "todot_char c =
     (let ch2 = (if 65 \<le> c \<and> c \<le> 90 then c + 32 else c) in
      if (97 \<le> ch2 \<and> ch2 \<le> 122) \<or> (48 \<le> ch2 \<and> ch2 \<le> 57) \<or> ch2 = 45 \<or> ch2 = 95 then [ch2]
      else [92, 48 + (drop_bit 6 ch2 AND 7), 48 + (drop_bit 3 ch2 AND 7), 48 + (ch2 AND 7)])"

text \<open>
  The inner loop prints the next \<open>n\<close> bytes at \<open>d\<close>; the outer one runs over the labels.
  Its result is \<open>None\<close> for a read past the end of \<open>d\<close>.
\<close>

fun todot_label :: "(nat \<Rightarrow> bool) \<Rightarrow> stralloc \<Rightarrow> nat \<Rightarrow> bytes \<Rightarrow> (bool \<times> stralloc) option" where
  "todot_label al out 0 d = Some (True, out)"
| "todot_label al out (Suc n) [] = None"
| "todot_label al out (Suc n) (c # d) =
     do { (ok, out1) \<leftarrow> stralloc_catb al out (Some (todot_char c)) (int (length (todot_char c)));
          if \<not> ok then Some (False, out1) else todot_label al out1 n d }"

function todot_loop :: "(nat \<Rightarrow> bool) \<Rightarrow> stralloc \<Rightarrow> bytes \<Rightarrow> (bool \<times> stralloc) option" where
  "todot_loop al out [] = None"
| "todot_loop al out (c # d) =
     do { (ok, out1) \<leftarrow> todot_label al out (unat c) d;
          if \<not> ok then Some (False, out1)
          else case drop (unat c) d of [] \<Rightarrow> None
            | c1 # d1 \<Rightarrow>
              if c1 = 0 then Some (True, out1)
              else do { (ok2, out2) \<leftarrow> stralloc_append al out1 46;
                        if \<not> ok2 then Some (False, out2) else todot_loop al out2 (drop (unat c) d) } }"
  by pat_completeness auto
termination
  by (relation "measure (\<lambda>(al, out, d). length d)") (auto dest: arg_cong [of _ _ length])

definition dns_domain_todot_cat :: "(nat \<Rightarrow> bool) \<Rightarrow> stralloc \<Rightarrow> bytes \<Rightarrow> (bool \<times> stralloc) option" where
  "dns_domain_todot_cat al out d =
     (case d of [] \<Rightarrow> None
      | c # _ \<Rightarrow> if c = 0 then stralloc_append al out 46 else todot_loop al out d)"

section \<open>Correctness\<close>

subsection \<open>Names as lists of labels\<close>

definition is_label :: "bytes \<Rightarrow> bool" where
  "is_label l \<longleftrightarrow> 0 < length l \<and> length l < 64"

text \<open>The wire form of a name.\<close>

primrec dn_of :: "bytes list \<Rightarrow> bytes" where
  "dn_of [] = [0]"
| "dn_of (l # ls) = of_nat (length l) # l @ dn_of ls"

definition wf_name :: "bytes list \<Rightarrow> bool" where
  "wf_name ls \<longleftrightarrow> list_all is_label ls \<and> length (dn_of ls) \<le> 255"

text \<open>Case-insensitive equality of names.\<close>

abbreviation lower :: "bytes list \<Rightarrow> bytes list" where
  "lower ls \<equiv> map (map case_fold) ls"

lemma label_length_byte:
  assumes "is_label l"
  shows "unat (of_nat (length l) :: byte) = length l" "(of_nat (length l) :: byte) \<noteq> 0"
proof -
  show u: "unat (of_nat (length l) :: byte) = length l"
    using assms by (subst unat_of_nat) (simp add: is_label_def)
  have "length l \<noteq> 0" using assms by (simp add: is_label_def)
  with u show "(of_nat (length l) :: byte) \<noteq> 0" by (metis unat_0)
qed

lemma label_length_small: "is_label l \<Longrightarrow> (of_nat (length l) :: byte) < 65"
  by (simp add: word_less_nat_alt label_length_byte) (simp add: is_label_def)

lemma dn_of_not_Nil [simp]: "dn_of ls \<noteq> []"
  by (cases ls) simp_all

lemma dn_of_cases_0: "list_all is_label ls \<Longrightarrow> hd (dn_of ls) = 0 \<longleftrightarrow> ls = []"
  by (cases ls) (simp_all add: label_length_byte)

lemma dns_domain_length_dn_of [simp]:
  "list_all is_label ls \<Longrightarrow> dns_domain_length (dn_of ls @ r) = Some (length (dn_of ls))"
  by (induction ls) (simp_all add: label_length_byte)

lemma dn_of_inj:
  "list_all is_label ls \<Longrightarrow> list_all is_label ms \<Longrightarrow> dn_of ls = dn_of ms \<Longrightarrow> ls = ms"
proof (induction ls arbitrary: ms)
  case Nil
  then show ?case by (cases ms) (auto simp: label_length_byte)
next
  case (Cons l ls)
  then obtain m ms' where m: "ms = m # ms'" by (cases ms) (auto simp: label_length_byte)
  have lab: "is_label l" "is_label m" "list_all is_label ls" "list_all is_label ms'"
    using Cons.prems(1,2) m by simp_all
  have eq: "(of_nat (length l) :: byte) = of_nat (length m)" "l @ dn_of ls = m @ dn_of ms'"
    using Cons.prems(3) unfolding m dn_of.simps list.inject by blast+
  have "length l = length m"
    using arg_cong [OF eq(1), of unat] by (simp only: label_length_byte(1) [OF lab(1)] label_length_byte(1) [OF lab(2)])
  with eq(2) have "l = m" "dn_of ls = dn_of ms'" by simp_all
  with Cons.IH [OF lab(3,4)] m show ?case by simp
qed

lemma map_case_fold_dn_of:
  "list_all is_label ls \<Longrightarrow> map case_fold (dn_of ls) = dn_of (lower ls)"
  by (induction ls) (simp_all add: case_fold_small label_length_small)

lemma is_label_map [simp]: "is_label (map f l) = is_label l"
  by (simp add: is_label_def)

lemma list_all_label_lower [simp]: "list_all is_label (lower ls) = list_all is_label ls"
  by (simp add: list_all_iff)

lemma length_dn_of_lower [simp]: "length (dn_of (lower ls)) = length (dn_of ls)"
  by (induction ls) simp_all

lemma dns_domain_equal_dn_of:
  assumes "list_all is_label ls" "list_all is_label ms"
  shows "dns_domain_equal (dn_of ls @ r) (dn_of ms @ q) = Some (lower ls = lower ms)"
proof (cases "length (dn_of ls) = length (dn_of ms)")
  case True
  let ?n = "length (dn_of ls)"
  obtain d where d: "case_diffb (dn_of ls @ r) ?n (dn_of ms @ q) = Some d"
    using case_diffb_defined [of ?n "dn_of ls @ r" "dn_of ms @ q"] True by auto
  have "d = 0 \<longleftrightarrow> case_diffb (dn_of ls @ r) ?n (dn_of ms @ q) = Some 0" using d by simp
  also have "\<dots> \<longleftrightarrow> map case_fold (dn_of ls) = map case_fold (dn_of ms)"
    using True by (subst case_diffb_zero_iff) simp_all
  also have "\<dots> \<longleftrightarrow> lower ls = lower ms"
    using assms dn_of_inj [of "lower ls" "lower ms"] by (auto simp: map_case_fold_dn_of)
  finally show ?thesis using True d assms by (simp add: dns_domain_equal_def)
next
  case False
  then have "lower ls \<noteq> lower ms" by (metis length_dn_of_lower)
  with False assms show ?thesis by (simp add: dns_domain_equal_def)
qed

lemma suffix_Cons_iff: "suffix ms (l # ls) \<longleftrightarrow> ms = l # ls \<or> suffix ms ls"
  by (simp add: suffix_Cons)

lemma dns_domain_suffix_dn_of:
  assumes "list_all is_label ls" "list_all is_label ms"
  shows "dns_domain_suffix (dn_of ls @ r) (dn_of ms @ q) = Some (suffix (lower ms) (lower ls))"
  using assms(1)
proof (induction ls)
  case Nil
  then show ?case
    using dns_domain_equal_dn_of [of "[]" ms r q] assms by (subst dns_domain_suffix.simps) auto
next
  case (Cons l ls)
  show ?case
    using Cons dns_domain_equal_dn_of [OF Cons.prems assms(2), of r q]
    by (subst dns_domain_suffix.simps) (auto simp: label_length_byte suffix_Cons_iff)
qed

lemma dns_domain_suffixpos_loop_dn_of:
  assumes "list_all is_label ls" "list_all is_label ms" "suffix (lower ms) (lower ls)"
  shows "\<exists>k \<le> length ls. dns_domain_suffixpos_loop pos (dn_of ls @ r) (dn_of ms @ q) =
       Some (pos + (length (dn_of ls) - length (dn_of (drop k ls)))) \<and> lower (drop k ls) = lower ms"
  using assms(1,3)
proof (induction ls arbitrary: pos)
  case Nil
  then show ?case
    using dns_domain_equal_dn_of [of "[]" ms r q] assms
    by (subst dns_domain_suffixpos_loop.simps) auto
next
  case (Cons l ls)
  note eq = dns_domain_equal_dn_of [OF Cons.prems(1) assms(2), of r q]
  show ?case
  proof (cases "lower (l # ls) = lower ms")
    case True
    then show ?thesis using eq by (subst dns_domain_suffixpos_loop.simps) (auto intro!: exI [of _ 0])
  next
    case False
    then have "suffix (lower ms) (lower ls)" using Cons.prems(2) by (auto simp: suffix_Cons_iff)
    then obtain k where k: "k \<le> length ls" "lower (drop k ls) = lower ms"
        "dns_domain_suffixpos_loop (pos + 1 + length l) (dn_of ls @ r) (dn_of ms @ q) =
         Some (pos + 1 + length l + (length (dn_of ls) - length (dn_of (drop k ls))))"
      using Cons.IH [of "pos + 1 + length l"] Cons.prems by auto
    have "length (dn_of (drop k ls)) \<le> length (dn_of ls)"
    proof -
      have "length (dn_of (drop k xs)) \<le> length (dn_of xs)" for xs
      proof (induction xs arbitrary: k)
        case (Cons x xs)
        show ?case using Cons [of "k - 1"] by (cases k) simp_all
      qed simp
      then show ?thesis .
    qed
    then show ?thesis
      using False eq k Cons.prems
      by (subst dns_domain_suffixpos_loop.simps) (auto simp: label_length_byte intro!: exI [of _ "Suc k"])
  qed
qed

subsection \<open>Dotted names\<close>

lemma byte_and_7: "unat ((y :: byte) AND 7) = unat y mod 8"
  using take_bit_eq_mask [of 3 "unat y"]
  by (simp add: unsigned_and_eq take_bit_eq_mod mask_eq_exp_minus_1)

lemma is_octal_digit: "is_octal (48 + ((y :: byte) AND 7))"
proof -
  have "unat (48 + (y AND 7)) = 48 + unat y mod 8"
    by (simp add: unat_word_ariths byte_and_7)
  then show ?thesis by (simp add: is_octal_def word_le_nat_alt)
qed

lemma unat_drop_bit_byte: "unat (drop_bit n (x :: byte)) = unat x div 2 ^ n"
  by (subst unsigned_drop_bit_eq) (simp add: drop_bit_eq_div take_bit_nat_eq_self)

lemma octal_value:
  "push_bit 3 (push_bit 3 (drop_bit 6 x AND 7) + (drop_bit 3 x AND 7)) + (x AND 7) = (x :: byte)"
proof (rule word_eqI_nat)
  let ?u = "unat x"
  have u: "?u < 256" by (rule unat_byte_less)
  have lt: "?u div 64 < 4" "?u div 8 < 32" by (rule less_mult_imp_div_less, simp)+
  have a: "unat (drop_bit 6 x AND 7) = ?u div 64" "unat (drop_bit 3 x AND 7) = ?u div 8 mod 8" "unat (x AND 7) = ?u mod 8"
  proof -
    have "?u div 64 < 8" using lt by linarith
    then show "unat (drop_bit 6 x AND 7) = ?u div 64" by (simp add: byte_and_7 unat_drop_bit_byte)
  qed (simp_all add: byte_and_7 unat_drop_bit_byte)
  have push: "unat (push_bit 3 y) = unat y * 8" if "unat y < 32" for y :: byte
    using that by (simp add: push_bit_eq_mult unat_word_ariths)
  have s: "unat (push_bit 3 (drop_bit 6 x AND 7) + (drop_bit 3 x AND 7)) = ?u div 8"
  proof -
    have p: "unat (push_bit 3 (drop_bit 6 x AND 7)) = ?u div 64 * 8" using lt by (subst push) (simp_all add: a)
    have eq: "?u div 64 * 8 + ?u div 8 mod 8 = ?u div 8"
      using div_mult_mod_eq [of "?u div 8" 8] by (simp add: div_mult2_eq [symmetric])
    have "?u div 8 < 256" using lt by linarith
    then show ?thesis by (subst unat_word_ariths(1), simp only: a p eq) simp
  qed
  have "unat (push_bit 3 (push_bit 3 (drop_bit 6 x AND 7) + (drop_bit 3 x AND 7))) = ?u div 8 * 8"
    using lt(2) by (subst push) (simp_all only: s)
  moreover have "?u div 8 * 8 + ?u mod 8 = ?u" by simp
  ultimately show "unat (push_bit 3 (push_bit 3 (drop_bit 6 x AND 7) + (drop_bit 3 x AND 7)) + (x AND 7)) = ?u"
    using u by (subst unat_word_ariths(1), simp only: a) simp
qed

lemma fromdot_escape_octal:
  "fromdot_escape ((48 + (drop_bit 6 x AND 7)) # (48 + (drop_bit 3 x AND 7)) # (48 + (x AND 7)) # rest) = (x, rest)"
  by (simp only: fromdot_escape.simps is_octal_digit if_True Let_def list.case add_diff_cancel_left' octal_value)

lemma fromdot_todot_char:
  assumes "length label < 63"
  shows "fromdot_loop label name (todot_char c @ rest) = fromdot_loop (label @ [case_fold c]) name rest"
proof -
  let ?ch = "if 65 \<le> c \<and> c \<le> 90 then c + 32 else c"
  have fold: "case_fold c = ?ch" by (simp add: case_fold_lower)
  show ?thesis
  proof (cases "(97 \<le> ?ch \<and> ?ch \<le> 122) \<or> (48 \<le> ?ch \<and> ?ch \<le> 57) \<or> ?ch = 45 \<or> ?ch = 95")
    case True
    then have "todot_char c = [case_fold c]" unfolding todot_char_def fold Let_def by (simp only: if_True)
    moreover have "case_fold c \<noteq> 46" "case_fold c \<noteq> 92" using True unfolding fold [symmetric] by auto
    ultimately show ?thesis using assms by (simp add: fromdot_loop.simps(2))
  next
    case False
    then have "todot_char c = [92, 48 + (drop_bit 6 (case_fold c) AND 7), 48 + (drop_bit 3 (case_fold c) AND 7),
        48 + (case_fold c AND 7)]"
      unfolding todot_char_def fold Let_def by (simp only: if_False)
    then show ?thesis
      using assms by (simp add: fromdot_loop.simps(2) fromdot_escape_octal del: fromdot_escape.simps)
  qed
qed

lemma fromdot_todot_label:
  "length label + length l \<le> 63 \<Longrightarrow>
   fromdot_loop label name (concat (map todot_char l) @ rest) = fromdot_loop (label @ map case_fold l) name rest"
proof (induction l arbitrary: label)
  case (Cons c l)
  then show ?case using fromdot_todot_char [of label name c "concat (map todot_char l) @ rest"] by simp
qed simp

text \<open>The dotted text of a name with at least one label.\<close>

fun dotted :: "bytes list \<Rightarrow> bytes" where
  "dotted [] = []"
| "dotted [l] = concat (map todot_char l)"
| "dotted (l # ls) = concat (map todot_char l) @ 46 # dotted ls"

lemma dotted_Cons: "dotted (l # ls) = concat (map todot_char l) @ (if ls = [] then [] else 46 # dotted ls)"
  by (cases ls) simp_all

text \<open>The labels stored so far, without the final 0.\<close>

definition labels_enc :: "bytes list \<Rightarrow> bytes" where
  "labels_enc ls = concat (map (\<lambda>l. of_nat (length l) # l) ls)"

lemma dn_of_labels: "dn_of ls = labels_enc ls @ [0]"
  by (induction ls) (simp_all add: labels_enc_def)

lemma fromdot_finish_dotted:
  "list_all is_label ls \<Longrightarrow> ls \<noteq> [] \<Longrightarrow> length name + length (dn_of ls) \<le> 255 \<Longrightarrow>
   fromdot_finish (fromdot_loop [] name (dotted ls)) = (True, name @ dn_of (lower ls))"
proof (induction ls arbitrary: name rule: dotted.induct)
  case (2 l)
  then have l: "length l < 64" "l \<noteq> []" by (auto simp: is_label_def)
  then show ?case
    using fromdot_todot_label [of "[]" l name "[]"] 2 by (simp add: fromdot_finish_def)
next
  case (3 l m ls)
  then have l: "length l < 64" "l \<noteq> []" by (auto simp: is_label_def)
  let ?name = "name @ of_nat (length l) # map case_fold l"
  have "fromdot_loop [] name (dotted (l # m # ls)) = fromdot_loop [] ?name (dotted (m # ls))"
    using l 3 fromdot_todot_label [of "[]" l name "46 # dotted (m # ls)"]
    by (simp add: fromdot_loop.simps(2))
  then show ?case using 3 by simp
qed simp

text \<open>Whatever the text, a name that is accepted is well formed.\<close>

lemma fromdot_loop_wf:
  assumes "fromdot_loop label name buf = (ok, label', name')" "length label \<le> 63"
    "name = labels_enc ls" "list_all is_label ls" "length name \<le> 255"
  shows "\<exists>ls'. length label' \<le> 63 \<and> name' = labels_enc ls' \<and> list_all is_label ls' \<and> length name' \<le> 255"
  using assms
proof (induction label name buf arbitrary: ls rule: fromdot_loop.induct)
  case (2 label name ch buf)
  obtain ch1 buf1 where e: "(if ch = 92 then fromdot_escape buf else (ch, buf)) = (ch1, buf1)" by fastforce
  consider (stop) "(ok, label', name') = (True, label, name) \<or> (ok, label', name') = (False, label, name)"
    | (flush) "ch = 46" "label \<noteq> []" "length name + length label + 1 \<le> 255"
        "fromdot_loop [] (name @ of_nat (length label) # label) buf = (ok, label', name')"
    | (skip) "ch = 46" "label = []" "fromdot_loop label name buf = (ok, label', name')"
    | (push) "ch \<noteq> 46" "\<not> (ch = 92 \<and> buf = [])" "length label < 63"
        "fromdot_loop (label @ [ch1]) name buf1 = (ok, label', name')"
    using "2.prems"(1) unfolding fromdot_loop.simps(2) e Let_def prod.case
    by (simp only: split: if_splits) (auto simp: not_le)
  then show ?case
  proof cases
    case stop
    then show ?thesis using "2.prems" by auto
  next
    case flush
    then show ?thesis
      using "2.prems" "2.IH"(1) [OF flush(1) _ _ flush(4), of "ls @ [label]"]
      by (auto simp: labels_enc_def is_label_def)
  next
    case skip
    then show ?thesis using "2.prems" "2.IH"(2) [of ls] by auto
  next
    case push
    then show ?thesis using "2.prems" "2.IH"(3) [OF push(1,2) e [symmetric] refl _ push(4), of ls] by auto
  qed
qed auto

lemma fromdot_finish_wf:
  assumes "fromdot_finish (fromdot_loop [] [] buf) = (ok, name)"
  shows "length name \<le> 255 \<and> (ok \<longrightarrow> (\<exists>ls. wf_name ls \<and> name = dn_of ls))"
proof -
  obtain ok' label name0 where F: "fromdot_loop [] [] buf = (ok', label, name0)" by (metis prod_cases3)
  obtain ls where ls: "length label \<le> 63" "name0 = labels_enc ls" "list_all is_label ls" "length name0 \<le> 255"
    using fromdot_loop_wf [OF F, of "[]"] by (auto simp: labels_enc_def)
  define ms where "ms = (if label = [] then ls else ls @ [label])"
  have ms: "list_all is_label ms" "(if length label > 0 then name0 @ of_nat (length label) # label else name0) = labels_enc ms"
    using ls by (simp_all add: ms_def is_label_def labels_enc_def)
  have fin: "fromdot_finish (fromdot_loop [] [] buf) =
     (if \<not> ok' then (False, name0)
      else if length label > 0 \<and> length name0 + length label + 1 > 255 then (False, name0)
      else if length (labels_enc ms) + 1 > 255 then (False, labels_enc ms) else (True, dn_of ms))"
    by (simp only: F fromdot_finish_def Let_def prod.case ms(2) dn_of_labels)
  have "length (labels_enc ms) \<le> 255" if "\<not> (length label > 0 \<and> length name0 + length label + 1 > 255)"
    using that ls(4) by (auto simp: ms(2) [symmetric])
  moreover have "wf_name ms" if "\<not> length (labels_enc ms) + 1 > 255"
    using that ms(1) by (simp add: wf_name_def dn_of_labels)
  ultimately show ?thesis
    using assms ls(4) unfolding fin by (auto simp: wf_name_def split: if_splits)
qed

text \<open>Printing: what \<open>todot_loop\<close> appends.\<close>

lemma todot_label_emit:
  "todot_label al out (length l) (l @ r) =
     emit_all (\<lambda>s x. stralloc_catb al s (Some x) (int (length x))) out (map todot_char l)"
proof (induction l arbitrary: out)
  case (Cons c l)
  show ?case by (simp add: Cons.IH split: Option.bind_splits)
qed simp

lemma todot_loop_ok:
  "list_all is_label ls \<Longrightarrow> ls \<noteq> [] \<Longrightarrow> stralloc_wf out \<Longrightarrow>
   \<exists>out'. todot_loop (\<lambda>_. True) out (dn_of ls @ r) = Some (True, out') \<and> stralloc_wf out' \<and>
     sa_str out' = sa_str out @ dotted ls"
proof (induction ls arbitrary: out)
  case (Cons l ls)
  have l: "is_label l" "list_all is_label ls" using Cons.prems by simp_all
  obtain out1 where o1: "todot_label (\<lambda>_. True) out (length l) (l @ dn_of ls @ r) = Some (True, out1)" "stralloc_wf out1"
      "sa_str out1 = sa_str out @ concat (map todot_char l)"
    unfolding todot_label_emit using sa_sink.emit_all_ok [OF Cons.prems(3), of "map todot_char l"] by auto
  show ?case
  proof (cases "ls = []")
    case True
    then show ?thesis using l o1 by (simp add: label_length_byte)
  next
    case False
    then obtain m ms where m: "ls = m # ms" by (cases ls) auto
    obtain out2 where o2: "stralloc_append (\<lambda>_. True) out1 46 = Some (True, out2)" "stralloc_wf out2"
        "sa_str out2 = sa_str out1 @ [46]"
      using stralloc_append_ok [OF o1(2), of "\<lambda>_. True"] by blast
    obtain out3 where o3: "todot_loop (\<lambda>_. True) out2 (dn_of ls @ r) = Some (True, out3)" "stralloc_wf out3"
        "sa_str out3 = sa_str out2 @ dotted ls"
      using Cons.IH [OF l(2) False o2(2)] by blast
    have "todot_loop (\<lambda>_. True) out (dn_of (l # ls) @ r) = Some (True, out3)"
      using l o1 o2 o3(1) m by (simp add: label_length_byte)
    then show ?thesis using o1 o2 o3 False by (simp add: dotted_Cons)
  qed
qed simp

lemma dns_domain_todot_cat_ok:
  assumes "list_all is_label ls" "stralloc_wf out"
  shows "\<exists>out'. dns_domain_todot_cat (\<lambda>_. True) out (dn_of ls @ r) = Some (True, out') \<and> stralloc_wf out' \<and>
     sa_str out' = sa_str out @ (if ls = [] then [46] else dotted ls)"
proof (cases ls)
  case Nil
  then show ?thesis
    using stralloc_append_ok [OF assms(2), of "\<lambda>_. True" 46] by (auto simp: dns_domain_todot_cat_def)
next
  case (Cons l ls')
  then have "dns_domain_todot_cat (\<lambda>_. True) out (dn_of ls @ r) = todot_loop (\<lambda>_. True) out (dn_of ls @ r)"
    using assms(1) by (simp add: dns_domain_todot_cat_def label_length_byte del: todot_loop.simps)
  then show ?thesis using todot_loop_ok [OF assms(1) _ assms(2), of r] Cons by auto
qed

section \<open>Properties\<close>

text \<open>Two names are equal for \<open>dns_domain_equal\<close> exactly when they have the same labels up
  to ASCII case, and \<open>dns_domain_suffix\<close> holds exactly when the labels of the second name are
  the last labels of the first, up to case.  Neither reads past the names, whatever follows
  them in memory.\<close>

theorem dns_domain_suffix_spec:
  assumes "list_all is_label ls" "list_all is_label ms"
  shows "dns_domain_equal (dn_of ls @ r) (dn_of ms @ q) = Some (lower ls = lower ms) \<and>
     dns_domain_suffix (dn_of ls @ r) (dn_of ms @ q) = Some (suffix (lower ms) (lower ls))"
  using dns_domain_equal_dn_of [OF assms] dns_domain_suffix_dn_of [OF assms] by blast

theorem dns_domain_suffix_spec_witness:
  "dns_domain_equal (dn_of [[87], [67, 100]] @ [9]) (dn_of [[99, 68]] @ []) = Some (lower [[87], [67, 100]] = lower [[99, 68]]) \<and>
   dns_domain_suffix (dn_of [[87], [67, 100]] @ [9]) (dn_of [[99, 68]] @ []) = Some (suffix (lower [[99, 68]]) (lower [[87], [67, 100]]))"
  using dns_domain_suffix_spec [of "[[87], [67, 100]]" "[[99, 68]]" "[9]" "[]"] by (simp add: is_label_def)

text \<open>\<open>dns_domain_suffixpos\<close> returns the position at which the suffix starts.\<close>

theorem dns_domain_suffixpos_spec:
  assumes "list_all is_label ls" "list_all is_label ms" "suffix (lower ms) (lower ls)"
  shows "\<exists>k \<le> length ls. lower (drop k ls) = lower ms \<and>
     dns_domain_suffixpos (dn_of ls @ r) (dn_of ms @ q) = Some (length (dn_of ls) - length (dn_of (drop k ls)))"
  using dns_domain_suffixpos_loop_dn_of [OF assms, of 0 r q] by (auto simp: dns_domain_suffixpos_def)

theorem dns_domain_suffixpos_spec_witness:
  "\<exists>k \<le> length [[87], [67 :: byte, 100]]. lower (drop k [[87], [67, 100]]) = lower [[99, 68]] \<and>
     dns_domain_suffixpos (dn_of [[87], [67, 100]] @ [7]) (dn_of [[99, 68]] @ []) =
       Some (length (dn_of [[87], [67, 100]]) - length (dn_of (drop k [[87], [67, 100]])))"
  by (rule dns_domain_suffixpos_spec) (code_simp+)

text \<open>C33: Whatever bytes \<open>dns_domain_fromdot\<close> is given, it returns, it never holds more than 255
  name bytes, and an accepted name is well formed: labels of 1 to 63 bytes, at most 255 bytes in
  all.  On rejection \<open>*out\<close> is unchanged.\<close>

theorem dns_domain_fromdot_wf:
  "(case dns_domain_fromdot al out buf of
      (False, out') \<Rightarrow> out' = out
    | (True, out') \<Rightarrow> (\<exists>ls. wf_name ls \<and> out' = Some (dn_of ls) \<and> al (length (dn_of ls)))) \<and>
   length (snd (dns_domain_fromdot_static buf)) = 256"
proof -
  obtain ok name where F: "fromdot_finish (fromdot_loop [] [] buf) = (ok, name)" by fastforce
  have "length name \<le> 255 \<and> (ok \<longrightarrow> (\<exists>ls. wf_name ls \<and> name = dn_of ls))"
    by (rule fromdot_finish_wf [OF F])
  then show ?thesis by (auto simp: dns_domain_fromdot_def dns_domain_fromdot_static_def F)
qed

text \<open>C32: Parsing the dotted text that \<open>dns_domain_todot_cat\<close> prints for a well-formed name gives
  back that name with its letters in lower case, including names with dots, backslashes or any
  other bytes in their labels.\<close>

theorem fromdot_todot_roundtrip:
  assumes "wf_name ls" "ls \<noteq> []" "stralloc_wf out" "sa_str out = []"
  shows "\<exists>out'. dns_domain_todot_cat (\<lambda>_. True) out (dn_of ls @ r) = Some (True, out') \<and>
     dns_domain_fromdot (\<lambda>_. True) None (sa_str out') = (True, Some (dn_of (lower ls)))"
proof -
  have wf: "list_all is_label ls" "length (dn_of ls) \<le> 255" using assms(1) by (simp_all add: wf_name_def)
  obtain out' where o: "dns_domain_todot_cat (\<lambda>_. True) out (dn_of ls @ r) = Some (True, out')" "sa_str out' = dotted ls"
    using dns_domain_todot_cat_ok [OF wf(1) assms(3), of r] assms(2,4) by auto
  have "fromdot_finish (fromdot_loop [] [] (dotted ls)) = (True, [] @ dn_of (lower ls))"
    using wf assms(2) by (intro fromdot_finish_dotted) simp_all
  with o show ?thesis by (simp add: dns_domain_fromdot_def)
qed

theorem fromdot_todot_roundtrip_witness:
  "\<exists>out'. dns_domain_todot_cat (\<lambda>_. True) stralloc_empty (dn_of [[87, 46], [67]] @ []) = Some (True, out') \<and>
     dns_domain_fromdot (\<lambda>_. True) None (sa_str out') = (True, Some (dn_of (lower [[87, 46], [67]])))"
  by (rule fromdot_todot_roundtrip) (simp_all add: wf_name_def is_label_def)

end
