(* ===== verification/DnsPacket.thy ===== *)
theory DnsPacket
  imports DnsDomain
begin

section \<open>Reading packets\<close>

text \<open>
  The model of \<open>dq/dns_packet.c\<close>.  A packet \<open>buf\<close> of \<open>len\<close> bytes is a list of that
  length; positions are natural numbers, and the value 0 is the error return, as in the code.  Every read of the packet and every
  store into the local array \<open>name\<close> is checked: outside the object the value is \<open>None\<close>.
\<close>

fun dns_packet_copy_loop :: "bytes \<Rightarrow> nat \<Rightarrow> nat \<Rightarrow> bytes \<Rightarrow> (nat \<times> bytes) option" where
  "dns_packet_copy_loop buf pos 0 out = Some (pos, out)"
| "dns_packet_copy_loop buf pos (Suc outlen) out =
     (if pos \<ge> length buf then Some (0, out)
      else do { ch \<leftarrow> ld buf pos; dns_packet_copy_loop buf (Suc pos) outlen (out @ [ch]) })"

text \<open>The returned position and the bytes stored at \<open>out\<close>.\<close>

definition dns_packet_copy :: "bytes \<Rightarrow> nat \<Rightarrow> nat \<Rightarrow> (nat \<times> bytes) option" where
  "dns_packet_copy buf pos outlen = dns_packet_copy_loop buf pos outlen []"

function dns_packet_skipname :: "bytes \<Rightarrow> nat \<Rightarrow> nat option" where
  "dns_packet_skipname buf pos =
     (if pos \<ge> length buf then Some 0
      else do {
        ch \<leftarrow> ld buf pos;
        if ch \<ge> 192 then Some (pos + 2)
        else if ch \<ge> 64 then Some 0
        else if ch = 0 then Some (pos + 1)
        else dns_packet_skipname buf (pos + 1 + unat ch) })"
  by pat_completeness auto
termination
  by (relation "measure (\<lambda>(buf, pos). length buf - pos)") auto

declare dns_packet_skipname.simps [simp del]

text \<open>Storing the next byte of an array of \<open>n\<close> bytes of which \<open>x\<close> are filled.\<close>

definition push :: "nat \<Rightarrow> bytes \<Rightarrow> byte \<Rightarrow> bytes option" where
  "push n x ch = (if length x < n then Some (x @ [ch]) else None)"

lemma push_Some [simp]: "length x < n \<Longrightarrow> push n x ch = Some (x @ [ch])"
  by (simp add: push_def)

text \<open>
  The inner loop of \<open>dns_packet_getname\<close>, which follows compression pointers; the inner \<open>None\<close> is \<open>goto PROTO\<close>.
\<close>

function getname_ptr :: "bytes \<Rightarrow> nat \<Rightarrow> nat \<Rightarrow> nat \<Rightarrow> byte \<Rightarrow> (nat \<times> nat \<times> nat \<times> byte) option option" where
  "getname_ptr buf pos loop firstcompress ch =
     (if ch \<ge> 192
      then let whr = (unat ch - 192) * 256 in
        if pos \<ge> length buf then Some None
        else do {
          ch1 \<leftarrow> ld buf pos;
          let pos1 = pos + 1;
          let fc1 = (if firstcompress = 0 then pos1 else firstcompress);
          let pos2 = whr + unat ch1;
          if pos2 \<ge> length buf then Some None
          else do {
            ch2 \<leftarrow> ld buf pos2;
            let loop1 = loop + 1;
            if loop1 \<ge> 1000 then Some None
            else getname_ptr buf (pos2 + 1) loop1 fc1 ch2 } }
      else Some (Some (pos, loop, firstcompress, ch)))"
  by pat_completeness auto
termination
  by (relation "measure (\<lambda>(buf, pos, loop, fc, ch). 1000 - loop)") auto

declare getname_ptr.simps [simp del]

lemma getname_ptr_label:
  assumes "ch < 192"
  shows "getname_ptr buf pos loop fc ch = Some (Some (pos, loop, fc, ch))"
proof -
  have "\<not> 192 \<le> ch" using assms by (simp add: not_le)
  then show ?thesis by (subst getname_ptr.simps) (simp only: if_False)
qed

lemma getname_ptr_hop:
  assumes "192 \<le> ch" "t = (unat ch - 192) * 256 + unat (buf ! pos)"
  shows "getname_ptr buf pos loop fc ch = Some (Some z) \<longleftrightarrow>
     pos < length buf \<and> t < length buf \<and> loop + 1 < 1000 \<and>
     getname_ptr buf (t + 1) (loop + 1) (if fc = 0 then pos + 1 else fc) (buf ! t) = Some (Some z)"
  unfolding assms(2) by (subst getname_ptr.simps) (auto simp: assms(1) Let_def not_le)

lemma getname_ptr_returns: "getname_ptr buf pos loop fc ch \<noteq> None"
proof (induction "1000 - loop" arbitrary: pos loop fc ch rule: less_induct)
  case less
  have "getname_ptr buf p (loop + 1) f c \<noteq> None" if "\<not> 1000 \<le> loop + 1" for p f c
    using less that by simp
  then show ?case by (subst getname_ptr.simps) (simp add: Let_def)
qed

lemma getname_ptr_loop_mono:
  "getname_ptr buf pos loop fc ch = Some (Some (pos', loop', fc', ch')) \<Longrightarrow> loop \<le> loop'"
proof (induction "1000 - loop" arbitrary: pos loop fc ch rule: less_induct)
  case less
  show ?case
  proof (cases "192 \<le> ch")
    case True
    with less.prems have "loop + 1 < 1000"
      and "getname_ptr buf ((unat ch - 192) * 256 + unat (buf ! pos) + 1) (loop + 1) (if fc = 0 then pos + 1 else fc)
         (buf ! ((unat ch - 192) * 256 + unat (buf ! pos))) = Some (Some (pos', loop', fc', ch'))"
      by (simp_all only: getname_ptr_hop [OF True refl])
    then have "loop + 1 \<le> loop'" by (intro less.hyps) simp_all
    then show ?thesis by simp
  next
    case False
    then show ?thesis using less.prems by (simp add: getname_ptr_label not_le)
  qed
qed

text \<open>
  The outer loop; \<open>name\<close> is \<open>name[0 .. namelen)\<close>, in an array of 255 bytes.  The result is the value returned
  (0 for \<open>PROTO\<close>) and the name.
\<close>

function getname_loop :: "bytes \<Rightarrow> nat \<Rightarrow> nat \<Rightarrow> nat \<Rightarrow> nat \<Rightarrow> bytes \<Rightarrow> (nat \<times> bytes) option" where
  "getname_loop buf pos loop state firstcompress name =
     (if pos \<ge> length buf then Some (0, name)
      else do {
        ch \<leftarrow> ld buf pos;
        if loop + 1 \<ge> 1000 then Some (0, name)
        else if state > 0
        then if length name + 1 > 255 then Some (0, name)
          else do {
            name \<leftarrow> push 255 name ch;
            getname_loop buf (pos + 1) (loop + 1) (state - 1) firstcompress name }
        else do {
          x \<leftarrow> getname_ptr buf (pos + 1) (loop + 1) firstcompress ch;
          case x of
            None \<Rightarrow> Some (0, name)
          | Some (pos2, loop2, fc2, ch2) \<Rightarrow>
            if ch2 \<ge> 64 then Some (0, name)
            else if length name + 1 > 255 then Some (0, name)
            else do {
              name \<leftarrow> push 255 name ch2;
              if ch2 = 0 then Some ((if fc2 \<noteq> 0 then fc2 else pos2), name)
              else getname_loop buf pos2 loop2 (unat ch2) fc2 name } } })"
  by pat_completeness auto
termination
  by (relation "measure (\<lambda>(buf, pos, loop, state, fc, name). 1000 - loop)")
    (auto dest!: getname_ptr_loop_mono)

declare getname_loop.simps [simp del]

lemma getname_loop_returns: "getname_loop buf pos loop s fc name \<noteq> None"
proof (induction buf pos loop s fc name rule: getname_loop.induct)
  case (1 buf pos loop s fc name)
  show ?case
    using "1.IH" getname_ptr_returns [of buf "pos + 1" "loop + 1" fc "buf ! pos"]
    by (subst getname_loop.simps) (auto split: option.split)
qed

definition dns_packet_getname ::
    "(nat \<Rightarrow> bool) \<Rightarrow> bytes \<Rightarrow> nat \<Rightarrow> bytes option \<Rightarrow> (nat \<times> bytes option) option" where
  "dns_packet_getname al buf pos d =
     do { (r, name) \<leftarrow> getname_loop buf pos 0 0 0 [];
          if r = 0 then Some (0, d)
          else do { (ok, d1) \<leftarrow> dns_domain_copy al d name; Some (if ok then (r, d1) else (0, d1)) } }"

definition dns_packet_getname_static :: "bytes \<Rightarrow> nat \<Rightarrow> (nat \<times> bytes) option" where
  "dns_packet_getname_static buf pos =
     do { (r, name) \<leftarrow> getname_loop buf pos 0 0 0 []; Some (r, name @ replicate (256 - length name) 0) }"

section \<open>Correctness\<close>

text \<open>
  The meaning of a compressed name (RFC 1035, 4.1.4): \<open>name_at buf pos ls k e\<close> says that
  the name with the labels \<open>ls\<close> stands at \<open>pos\<close>, that it takes \<open>k\<close> bytes to read, pointers
  counted as one, and that the field ends before position \<open>e\<close>.
\<close>

inductive name_at :: "bytes \<Rightarrow> nat \<Rightarrow> bytes list \<Rightarrow> nat \<Rightarrow> nat \<Rightarrow> bool" for buf where
  root: "pos < length buf \<Longrightarrow> buf ! pos = 0 \<Longrightarrow> name_at buf pos [] 1 (pos + 1)"
| label: "is_label l \<Longrightarrow> pos + 1 + length l \<le> length buf \<Longrightarrow> buf ! pos = of_nat (length l) \<Longrightarrow>
    mem_read buf (pos + 1) (length l) = l \<Longrightarrow> name_at buf (pos + 1 + length l) ls k e \<Longrightarrow>
    name_at buf pos (l # ls) (1 + length l + k) e"
| ptr: "pos + 1 < length buf \<Longrightarrow> buf ! pos \<ge> 192 \<Longrightarrow>
    name_at buf ((unat (buf ! pos) - 192) * 256 + unat (buf ! (pos + 1))) ls k e \<Longrightarrow>
    name_at buf pos ls (1 + k) (pos + 2)"

inductive_cases name_at_NilE: "name_at buf pos [] k e"
inductive_cases name_at_ConsE: "name_at buf pos (l # ls) k e"

lemma name_at_labels: "name_at buf pos ls k e \<Longrightarrow> list_all is_label ls"
  by (induction rule: name_at.induct) simp_all

lemma name_at_bounds: "name_at buf pos ls k e \<Longrightarrow> pos < length buf \<and> e \<le> length buf \<and> pos < e"
  by (induction rule: name_at.induct) auto

subsection \<open>Completeness: such a name is read\<close>

lemma getname_loop_hop:
  assumes "pos + 1 < length buf" "buf ! pos \<ge> 192" "loop + 2 < 1000"
    "target = (unat (buf ! pos) - 192) * 256 + unat (buf ! (pos + 1))" "target < length buf"
  shows "getname_loop buf pos loop 0 fc name =
     getname_loop buf target (loop + 1) 0 (if fc = 0 then pos + 2 else fc) name"
proof -
  have "getname_ptr buf (pos + 1) (loop + 1) fc (buf ! pos) =
      getname_ptr buf (target + 1) (loop + 2) (if fc = 0 then pos + 2 else fc) (buf ! target)"
    using assms by (subst getname_ptr.simps) (simp add: Let_def)
  then show ?thesis
    using assms by (subst getname_loop.simps, subst (2) getname_loop.simps) simp
qed

lemma getname_loop_bytes:
  "pos + s \<le> length buf \<Longrightarrow> loop + s < 1000 \<Longrightarrow> length name + s \<le> 255 \<Longrightarrow>
   getname_loop buf pos loop s fc name = getname_loop buf (pos + s) (loop + s) 0 fc (name @ mem_read buf pos s)"
proof (induction s arbitrary: pos loop name)
  case 0
  then show ?case by (simp add: mem_read_def)
next
  case (Suc s)
  have "mem_read buf pos (Suc s) = buf ! pos # mem_read buf (Suc pos) s"
    using Suc.prems by (simp add: mem_read_def Cons_nth_drop_Suc [symmetric])
  moreover have "getname_loop buf pos loop (Suc s) fc name = getname_loop buf (Suc pos) (Suc loop) s fc (name @ [buf ! pos])"
    using Suc.prems by (subst getname_loop.simps) (simp add: Let_def)
  ultimately show ?case using Suc by simp
qed

lemma getname_loop_complete:
  assumes "name_at buf pos ls k e" "loop + k < 1000" "length name + length (dn_of ls) \<le> 255"
  shows "getname_loop buf pos loop 0 fc name = Some ((if fc \<noteq> 0 then fc else e), name @ dn_of ls)"
  using assms
proof (induction arbitrary: loop fc name rule: name_at.induct)
  case (root pos)
  then show ?case by (subst getname_loop.simps) (simp add: getname_ptr_label)
next
  case (label l pos ls k e)
  have len: "unat (of_nat (length l) :: byte) = length l" "(of_nat (length l) :: byte) \<noteq> 0"
    using label.hyps(1) by (rule label_length_byte)+
  then have small: "(of_nat (length l) :: byte) < 64"
    using label.hyps(1) by (simp only: word_less_nat_alt) (simp add: is_label_def)
  then have "(of_nat (length l) :: byte) < 192" by (simp add: word_less_nat_alt)
  then have "getname_loop buf pos loop 0 fc name =
      getname_loop buf (pos + 1) (loop + 1) (length l) fc (name @ [of_nat (length l)])"
    using label.hyps(2,3) label.prems len small
    by (subst getname_loop.simps) (simp add: getname_ptr_label not_le [symmetric])
  also have "\<dots> = getname_loop buf (pos + 1 + length l) (loop + 1 + length l) 0 fc
      (name @ of_nat (length l) # l)"
    using label.hyps label.prems by (subst getname_loop_bytes) simp_all
  also have "\<dots> = Some ((if fc \<noteq> 0 then fc else e), name @ dn_of (l # ls))"
    using label.IH [of "loop + 1 + length l" "name @ of_nat (length l) # l" fc] label.prems by simp
  finally show ?case .
next
  case (ptr pos ls k e)
  then have "0 < k" by (auto elim: name_at.cases)
  then have "getname_loop buf pos loop 0 fc name =
     getname_loop buf ((unat (buf ! pos) - 192) * 256 + unat (buf ! (pos + 1))) (loop + 1) 0
       (if fc = 0 then pos + 2 else fc) name"
    using ptr name_at_bounds [OF ptr.hyps(3)] by (intro getname_loop_hop) auto
  then show ?case using ptr.IH ptr.prems by simp
qed

subsection \<open>Soundness: what is read is such a name\<close>

lemma getname_ptr_sound:
  assumes "getname_ptr buf pos1 loop fc ch = Some (Some (pos2, loop2, fc2, ch2))"
    "pos1 = pos + 1" "ch = buf ! pos" "pos < length buf"
  shows "\<exists>p. pos2 = p + 1 \<and> p < length buf \<and> ch2 = buf ! p \<and> ch2 < 192 \<and>
     (\<forall>ls k e. name_at buf p ls k e \<longrightarrow>
        (\<exists>k' e'. name_at buf pos ls k' e' \<and> (if fc2 \<noteq> 0 then fc2 else e) = (if fc \<noteq> 0 then fc else e')))"
  using assms
proof (induction buf pos1 loop fc ch arbitrary: pos rule: getname_ptr.induct)
  case (1 buf pos1 loop fc ch)
  show ?case
  proof (cases "ch \<ge> 192")
    case False
    then have "pos2 = pos1" "fc2 = fc" "ch2 = ch" using "1.prems"(1) by (simp_all add: getname_ptr_label not_le)
    then show ?thesis using "1.prems" False by (intro exI [of _ pos]) (auto simp: not_le)
  next
    case True
    let ?t = "(unat ch - 192) * 256 + unat (buf ! pos1)"
    let ?fc = "if fc = 0 then pos1 + 1 else fc"
    have ok: "pos1 < length buf" "?t < length buf" "\<not> loop + 1 \<ge> 1000"
        and rec: "getname_ptr buf (?t + 1) (loop + 1) ?fc (buf ! ?t) = Some (Some (pos2, loop2, fc2, ch2))"
      using "1.prems"(1) unfolding getname_ptr_hop [OF True refl] by (simp_all add: not_le)
    have IH: "\<exists>p. pos2 = p + 1 \<and> p < length buf \<and> ch2 = buf ! p \<and> ch2 < 192 \<and>
       (\<forall>ls k e. name_at buf p ls k e \<longrightarrow>
         (\<exists>k' e'. name_at buf ?t ls k' e' \<and> (if fc2 \<noteq> 0 then fc2 else e) = (if ?fc \<noteq> 0 then ?fc else e')))"
      by (rule "1.IH" [OF True refl _ ld_Some refl refl refl _ ld_Some refl _ rec]) (use ok in simp_all)
    have nz: "?fc \<noteq> 0" "pos1 + 1 = pos + 2" using "1.prems"(2) by simp_all
    have hop: "name_at buf pos ls (1 + k') (pos + 2)" if "name_at buf ?t ls k' e'" for ls k' e'
      using that "1.prems" ok(1) True by (intro name_at.ptr) simp_all
    obtain p where p: "pos2 = p + 1" "p < length buf" "ch2 = buf ! p" "ch2 < 192"
      and ref: "\<And>ls k e. name_at buf p ls k e \<Longrightarrow>
         \<exists>k' e'. name_at buf ?t ls k' e' \<and> (if fc2 \<noteq> 0 then fc2 else e) = (if ?fc \<noteq> 0 then ?fc else e')"
      using IH by blast
    have "\<exists>k' e'. name_at buf pos ls k' e' \<and> (if fc2 \<noteq> 0 then fc2 else e) = (if fc \<noteq> 0 then fc else e')"
      if n: "name_at buf p ls k e" for ls k e
    proof -
      obtain k' e' where t: "name_at buf ?t ls k' e'" "(if fc2 \<noteq> 0 then fc2 else e) = (if ?fc \<noteq> 0 then ?fc else e')"
        using ref [OF n] by blast
      have "(if fc2 \<noteq> 0 then fc2 else e) = (if fc \<noteq> 0 then fc else pos + 2)" using t(2) nz by auto
      with hop [OF t(1)] show ?thesis by blast
    qed
    with p show ?thesis by blast
  qed
qed

lemma getname_loop_sound:
  assumes "getname_loop buf pos loop s fc name = Some (r, name')" "r \<noteq> 0" "s < 64"
  shows "\<exists>ls k e. pos + s \<le> length buf \<and> name' = name @ mem_read buf pos s @ dn_of ls \<and>
     name_at buf (pos + s) ls k e \<and> r = (if fc \<noteq> 0 then fc else e) \<and> length name' \<le> 255"
  using assms
proof (induction buf pos loop s fc name rule: getname_loop.induct)
  case (1 buf pos loop s fc name)
  have pos: "pos < length buf" "\<not> length buf \<le> pos" and lp: "\<not> 1000 \<le> loop + 1"
    using "1.prems"(1,2) by (subst (asm) getname_loop.simps, auto simp: Let_def split: if_splits)+
  show ?case
  proof (cases "s > 0")
    case True
    have nl: "\<not> 255 < length name + 1" and
      rec: "getname_loop buf (pos + 1) (loop + 1) (s - 1) fc (name @ [buf ! pos]) = Some (r, name')"
      using "1.prems"(1,2) True by (subst (asm) getname_loop.simps, auto simp: Let_def split: if_splits)+
    have pl: "length name < 255" using nl by simp
    obtain ls k e where I: "pos + 1 + (s - 1) \<le> length buf" "name' = (name @ [buf ! pos]) @ mem_read buf (pos + 1) (s - 1) @ dn_of ls"
        "name_at buf (pos + 1 + (s - 1)) ls k e" "r = (if fc \<noteq> 0 then fc else e)" "length name' \<le> 255"
      using "1.IH"(1) [OF pos(2) ld_Some [OF pos(1)] lp True nl push_Some [OF pl] rec "1.prems"(2)] "1.prems"(3) less_imp_diff_less [of s 64 1]
      by blast
    moreover have "mem_read buf pos s = buf ! pos # mem_read buf (pos + 1) (s - 1)"
      using pos True by (cases s) (simp_all add: mem_read_def Cons_nth_drop_Suc [symmetric])
    ultimately show ?thesis using True by auto
  next
    case False
    then have s: "s = 0" by simp
    obtain pos2 loop2 fc2 ch2 where P: "getname_ptr buf (pos + 1) (loop + 1) fc (buf ! pos) = Some (Some (pos2, loop2, fc2, ch2))"
        "\<not> ch2 \<ge> 64" "\<not> 255 < length name + 1"
        "(if ch2 = 0 then Some ((if fc2 \<noteq> 0 then fc2 else pos2), name @ [ch2])
          else getname_loop buf pos2 loop2 (unat ch2) fc2 (name @ [ch2])) = Some (r, name')"
      using "1.prems"(1) [unfolded getname_loop.simps [of buf pos loop s fc name]] "1.prems"(2) s pos lp
        getname_ptr_returns [of buf "pos + 1" "loop + 1" fc "buf ! pos"]
      by (auto split: if_splits option.splits)
    obtain p where p: "pos2 = p + 1" "p < length buf" "ch2 = buf ! p"
      and ref: "\<And>ls k e. name_at buf p ls k e \<Longrightarrow>
        \<exists>k' e'. name_at buf pos ls k' e' \<and> (if fc2 \<noteq> 0 then fc2 else e) = (if fc \<noteq> 0 then fc else e')"
      using getname_ptr_sound [OF P(1) refl refl pos(1)] by blast
    obtain ls k e where N: "name_at buf p ls k e" "name' = name @ dn_of ls" "r = (if fc2 \<noteq> 0 then fc2 else e)"
        "length name' \<le> 255"
    proof (cases "ch2 = 0")
      case True
      then have "name_at buf p [] 1 (p + 1)" using p by (intro name_at.root) simp_all
      moreover have "r = (if fc2 \<noteq> 0 then fc2 else p + 1)" "name' = name @ [0]"
        using P(4) True p(1) by (auto split: if_splits)
      ultimately show thesis using P(3) by (intro that [of "[]"]) auto
    next
      case nz: False
      have c: "unat ch2 < 64" "0 < unat ch2"
        using P(2) nz by (auto simp: word_less_nat_alt not_le unat_gt_0)
      have rec: "getname_loop buf pos2 loop2 (unat ch2) fc2 (name @ [ch2]) = Some (r, name')"
        using P(4) nz by simp
      obtain ls k e where I: "pos2 + unat ch2 \<le> length buf"
          "name' = (name @ [ch2]) @ mem_read buf pos2 (unat ch2) @ dn_of ls"
          "name_at buf (pos2 + unat ch2) ls k e" "r = (if fc2 \<noteq> 0 then fc2 else e)" "length name' \<le> 255"
        using "1.IH"(2) [OF pos(2) ld_Some [OF pos(1)] lp False P(1) refl refl refl refl P(2,3) push_Some nz rec "1.prems"(2) c(1)] P(3) by auto
      let ?l = "mem_read buf pos2 (unat ch2)"
      have l: "length ?l = unat ch2" using I(1) by simp
      have lw: "of_nat (length ?l) = ch2" by (simp add: l)
      have "name_at buf p (?l # ls) (1 + length ?l + k) e"
        using I(1,3) l lw p c by (intro name_at.label) (simp_all add: is_label_def)
      moreover have "name' = name @ dn_of (?l # ls)" using I(2) lw by simp
      ultimately show thesis using I(4,5) by (rule that)
    qed
    obtain k' e' where "name_at buf pos ls k' e'" "r = (if fc \<noteq> 0 then fc else e')"
      using ref [OF N(1)] N(3) by auto
    moreover have "name' = name @ mem_read buf pos s @ dn_of ls" "pos + s \<le> length buf"
      using N(2) s pos by (simp_all add: mem_read_def)
    ultimately show ?thesis using N(4) s by auto
  qed
qed

lemma name_at_skipname: "name_at buf pos ls k e \<Longrightarrow> dns_packet_skipname buf pos = Some e"
proof (induction rule: name_at.induct)
  case (root pos)
  then show ?case by (subst dns_packet_skipname.simps) simp
next
  case (label l pos ls k e)
  have "\<not> (of_nat (length l) :: byte) \<ge> 64" "\<not> (of_nat (length l) :: byte) \<ge> 192"
    using label.hyps(1) by (simp_all only: word_le_nat_alt label_length_byte(1)) (simp_all add: is_label_def)
  then show ?case
    using label label_length_byte [OF label.hyps(1)] by (subst dns_packet_skipname.simps) (simp add: Let_def)
next
  case (ptr pos ls k e)
  then show ?case by (subst dns_packet_skipname.simps) (simp add: Let_def)
qed

lemma getname_top_sound:
  assumes "getname_loop buf pos 0 0 0 [] = Some (r, name)" "r \<noteq> 0"
  obtains ls k where "name = dn_of ls" "wf_name ls" "name_at buf pos ls k r"
proof -
  obtain ls k e where "name = dn_of ls" "name_at buf pos ls k e" "r = e" "length name \<le> 255"
    using getname_loop_sound [OF assms] by (auto simp: mem_read_def)
  then show thesis using name_at_labels by (intro that [of ls k]) (auto simp: wf_name_def)
qed

lemma getname_loop_length: "getname_loop buf pos loop s fc name = Some (r, name') \<Longrightarrow> length name \<le> 255 \<Longrightarrow> length name' \<le> 255"
proof (induction "1000 - loop" arbitrary: pos loop s fc name rule: less_induct)
  case less
  note e = less.prems(1) [unfolded getname_loop.simps [of buf pos loop s fc name]]
  obtain x where x: "getname_ptr buf (pos + 1) (loop + 1) fc (buf ! pos) = Some x"
    using getname_ptr_returns [of buf "pos + 1" "loop + 1" fc "buf ! pos"] by blast
  have rec: "length name' \<le> 255"
    if "getname_loop buf p l t f nm = Some (r, name')" "length nm \<le> 255" "loop < l" "\<not> 1000 \<le> loop + 1" for p l t f nm
    using less.hyps [OF _ that(1,2)] that(3,4) by simp
  show ?case
  proof (cases "length buf \<le> pos \<or> 1000 \<le> loop + 1 \<or> 255 < length name + 1")
    case True
    then show ?thesis using e less.prems(2) x by (auto split: if_splits option.splits)
  next
    case False
    then show ?thesis
      using e x getname_ptr_loop_mono [of buf "pos + 1" "loop + 1" fc "buf ! pos"]
      by (auto split: if_splits option.splits dest!: rec)
  qed
qed

lemma dns_packet_copy_loop_eq:
  "dns_packet_copy_loop buf pos n out =
     Some (if n = 0 then (pos, out)
      else if pos + n \<le> length buf then (pos + n, out @ mem_read buf pos n)
      else (0, out @ drop pos buf))"
proof (induction n arbitrary: pos out)
  case (Suc n)
  show ?case
  proof (cases "pos < length buf")
    case True
    then have "drop pos buf = buf ! pos # drop (Suc pos) buf" by (simp add: Cons_nth_drop_Suc)
    with True Suc show ?thesis by (auto simp: mem_read_def not_le)
  qed simp
qed simp

section \<open>Properties\<close>

lemma getname_result:
  "\<exists>r d'. dns_packet_getname al buf pos d = Some (r, d') \<and>
     (r = 0 \<and> d' = d \<or>
      0 < r \<and> r \<le> length buf \<and> dns_packet_skipname buf pos = Some r \<and>
        (\<exists>ls k. wf_name ls \<and> name_at buf pos ls k r \<and> d' = Some (dn_of ls)))"
proof -
  obtain r name where G: "getname_loop buf pos 0 0 0 [] = Some (r, name)" using getname_loop_returns [of buf pos 0 0 0 "[]"] by fastforce
  show ?thesis
  proof (cases "r = 0")
    case True
    then show ?thesis by (simp add: dns_packet_getname_def G)
  next
    case False
    obtain ls k where N: "name = dn_of ls" "wf_name ls" "name_at buf pos ls k r"
      using getname_top_sound [OF G False] .
    have len: "dns_domain_length (dn_of ls) = Some (length (dn_of ls))"
      using dns_domain_length_dn_of [of ls "[]"] N(2) by (simp add: wf_name_def)
    have cp: "dns_domain_copy al d (dn_of ls) = Some (if al (length (dn_of ls)) then (True, Some (dn_of ls)) else (False, d))"
      by (simp add: dns_domain_copy_def len byte_copy_eq mem_write_def)
    show ?thesis
      using False N name_at_bounds [OF N(3)] name_at_skipname [OF N(3)]
      by (auto simp: dns_packet_getname_def G cp)
  qed
qed

text \<open>C8: Soundness of \<open>dns_packet_getname\<close> on every packet and position: it always returns; if
  it returns a position, the name it delivers is well formed (labels of 1 to 63 bytes, at most
  255 bytes), is the name that stands there after following the compression pointers, and the
  position is the one \<open>dns_packet_skipname\<close> gives, at most the packet length.  If it returns 0,
  \<open>*d\<close> is unchanged.  Reads of the packet and stores into the array of 255 bytes are checked, so that a result also says
  that none of them leaves its object.\<close>

theorem dns_packet_getname_sound:
  "\<exists>r d'. dns_packet_getname al buf pos d = Some (r, d') \<and>
     (r = 0 \<and> d' = d \<or>
      0 < r \<and> r \<le> length buf \<and> dns_packet_skipname buf pos = Some r \<and>
        (\<exists>ls k. wf_name ls \<and> name_at buf pos ls k r \<and> d' = Some (dn_of ls)))"
  by (rule getname_result)

lemma getname_delivers:
  assumes "name_at buf pos ls k e" "wf_name ls" "k < 1000"
  shows "dns_packet_getname (\<lambda>_. True) buf pos d = Some (e, Some (dn_of ls))"
proof -
  have "length ([] :: bytes) + length (dn_of ls) \<le> 255" using assms(2) by (simp add: wf_name_def)
  then have G: "getname_loop buf pos 0 0 0 [] = Some (e, dn_of ls)"
    using getname_loop_complete [OF assms(1), of 0 "[]" 0] assms(3) by simp
  have "dns_domain_length (dn_of ls) = Some (length (dn_of ls))"
    using dns_domain_length_dn_of [of ls "[]"] assms(2) by (simp add: wf_name_def)
  then show ?thesis
    using name_at_bounds [OF assms(1)]
    by (simp add: dns_packet_getname_def G dns_domain_copy_def byte_copy_eq mem_write_def)
qed

text \<open>C15: Completeness of \<open>dns_packet_getname\<close>: every well-formed name in a packet, compressed
  or not, that is reached within 999 reads is delivered.\<close>

theorem dns_packet_getname_complete:
  assumes "name_at buf pos ls k e" "wf_name ls" "k < 1000"
  shows "dns_packet_getname (\<lambda>_. True) buf pos d = Some (e, Some (dn_of ls))"
  using assms by (rule getname_delivers)

lemma name_at_example: "name_at [1, 97, 0, 1, 98, 192, 0] 3 [[98], [97]] 6 7"
proof -
  let ?b = "[1, 97, 0, 1, 98, 192, 0] :: bytes"
  have 1: "name_at ?b 2 [] 1 (2 + 1)" by (rule name_at.root) simp_all
  have 2: "name_at ?b 0 [[97]] (1 + length [97 :: byte] + 1) 3"
    by (rule name_at.label) (use 1 in \<open>simp_all add: is_label_def mem_read_def flip: numeral_2_eq_2\<close>)
  have 3: "name_at ?b 5 [[97]] (1 + 3) (5 + 2)"
    by (rule name_at.ptr [where e = 3]) (use 2 in \<open>simp_all add: numeral_3_eq_3\<close>)
  have "name_at ?b 3 [[98], [97]] (1 + length [98 :: byte] + 4) 7"
    by (rule name_at.label) (use 3 in \<open>simp_all add: is_label_def mem_read_def\<close>)
  then show ?thesis by simp
qed

theorem dns_packet_getname_complete_witness:
  "dns_packet_getname (\<lambda>_. True) [1, 97, 0, 1, 98, 192, 0] 3 None = Some (7, Some (dn_of [[98], [97]]))"
  by (rule dns_packet_getname_complete [OF name_at_example]) (simp_all add: wf_name_def is_label_def)

text \<open>\<open>dns_packet_getname_static\<close> fills its 256-byte buffer with the same name as
  \<open>dns_packet_getname\<close> delivers, padded with zeros, and never writes outside it.\<close>

theorem dns_packet_getname_static_agrees:
  "\<exists>r b d. dns_packet_getname_static buf pos = Some (r, b) \<and> length b = 256 \<and>
     dns_packet_getname (\<lambda>_. True) buf pos None = Some (r, d) \<and>
     (case d of None \<Rightarrow> r = 0 | Some name \<Rightarrow> b = name @ replicate (256 - length name) 0)"
proof -
  obtain r name where G: "getname_loop buf pos 0 0 0 [] = Some (r, name)" using getname_loop_returns [of buf pos 0 0 0 "[]"] by fastforce
  have len: "length name \<le> 255" using getname_loop_length [OF G] by simp
  show ?thesis
  proof (cases "r = 0")
    case True
    then show ?thesis using len by (simp add: dns_packet_getname_def dns_packet_getname_static_def G)
  next
    case False
    obtain ls k where N: "name = dn_of ls" "wf_name ls" "name_at buf pos ls k r"
      using getname_top_sound [OF G False] .
    have "dns_domain_length (dn_of ls) = Some (length (dn_of ls))"
      using dns_domain_length_dn_of [of ls "[]"] N(2) by (simp add: wf_name_def)
    then show ?thesis
      using False len N(1)
      by (simp add: dns_packet_getname_def dns_packet_getname_static_def G dns_domain_copy_def byte_copy_eq mem_write_def)
  qed
qed

text \<open>C1: \<open>dns_packet_copy\<close> delivers exactly the \<open>n\<close> bytes at \<open>pos\<close> and the position behind
  them when they are inside the packet, and returns 0 otherwise.\<close>

theorem dns_packet_copy_spec:
  "0 < n \<Longrightarrow> dns_packet_copy buf pos n =
     Some (if pos + n \<le> length buf then (pos + n, mem_read buf pos n) else (0, drop pos buf))"
  by (simp add: dns_packet_copy_def dns_packet_copy_loop_eq)

theorem dns_packet_copy_spec_witness:
  "dns_packet_copy [1, 2, 3] 1 2 = Some (3, [2, 3])"
  using dns_packet_copy_spec [of 2 "[1, 2, 3]" 1] by (simp add: mem_read_def)

end
