(* ===== verification/Response.thy ===== *)
theory Response
  imports DnsPacket
begin

section \<open>Building responses\<close>

text \<open>
  The model of \<open>dq/response.c\<close>: its static variables are the fields of a record.  The rows
  of \<open>name\<close> and \<open>name_ptr\<close> below \<open>name_num\<close> are the list \<open>names\<close>; a row is kept with the
  \<open>dlen\<close> bytes copied into it.  Operations give \<open>None\<close> for an access outside an object, else
  the return value and the new state.
\<close>

record resp =
  response :: bytes
  response_len :: nat
  tctarget :: nat
  names :: "(bytes \<times> nat) list"
  dpos :: nat
  flaghidettl :: bool

definition NAMES :: nat where "NAMES = 100"
definition RESPONSE_ANSWER :: nat where "RESPONSE_ANSWER = 6"
definition RESPONSE_AUTHORITY :: nat where "RESPONSE_AUTHORITY = 8"
definition RESPONSE_ADDITIONAL :: nat where "RESPONSE_ADDITIONAL = 10"

text \<open>\<open>byte_copy(y + p, n, x)\<close>.\<close>

definition byte_copy_at :: "bytes \<Rightarrow> nat \<Rightarrow> nat \<Rightarrow> bytes \<Rightarrow> bytes option" where
  "byte_copy_at y p n x = do { z \<leftarrow> byte_copy (drop p y) n x; Some (take p y @ z) }"

definition response_addbytes :: "resp \<Rightarrow> bytes \<Rightarrow> int \<Rightarrow> (bool \<times> resp) option" where
  "response_addbytes r buf len =
     (if len < 0 then Some (False, r)
      else if len > 65535 - int (response_len r) then Some (False, r)
      else do { b \<leftarrow> byte_copy_at (response r) (response_len r) (nat len) buf;
                Some (True, r\<lparr>response := b, response_len := response_len r + nat len\<rparr>) })"

text \<open>The search \<open>for (i = 0; i < name_num; ++i) if (dns_domain_equal(d, name[i]))\<close>.\<close>

fun find_name :: "(bytes \<times> nat) list \<Rightarrow> bytes \<Rightarrow> nat option option" where
  "find_name [] d = Some None"
| "find_name ((nm, p) # tab) d =
     do { eq \<leftarrow> dns_domain_equal d nm; if eq then Some (Some p) else find_name tab d }"

function response_addname_loop :: "resp \<Rightarrow> bytes \<Rightarrow> nat \<Rightarrow> (bool \<times> resp) option" where
  "response_addname_loop r [] dlen = None"
| "response_addname_loop r (c # d) dlen =
     (if c = 0 then response_addbytes r (c # d) 1
      else do {
        found \<leftarrow> find_name (names r) (c # d);
        case found of
          Some p \<Rightarrow> response_addbytes r (uint16_pack_big (of_nat (49152 + p))) 2
        | None \<Rightarrow>
          let r1 = (if dlen \<le> 255 \<and> response_len r < 16384 \<and> length (names r) < NAMES
                    then r\<lparr>names := names r @ [(take dlen (c # d), response_len r)]\<rparr> else r);
              i = unat c + 1
          in do {
            (ok, r2) \<leftarrow> response_addbytes r1 (c # d) (int i);
            if \<not> ok then Some (False, r2)
            else response_addname_loop r2 (drop (unat c) d) (dlen - i) } })"
  by pat_completeness auto
termination
  by (relation "measure (\<lambda>(r, d, dlen). length d)") auto

declare response_addname_loop.simps(2) [simp del]

definition response_addname :: "resp \<Rightarrow> bytes \<Rightarrow> (bool \<times> resp) option" where
  "response_addname r d = do { dlen \<leftarrow> dns_domain_length d; response_addname_loop r d dlen }"

text \<open>A call whose failure makes the caller return 0.\<close>

definition and_then :: "(bool \<times> 'r) option \<Rightarrow> ('r \<Rightarrow> (bool \<times> 'r) option) \<Rightarrow> (bool \<times> 'r) option" where
  "and_then m f = do { (ok, r) \<leftarrow> m; if \<not> ok then Some (False, r) else f r }"

definition query_header :: bytes where
  "query_header = [0, 0, 129, 128, 0, 1, 0, 0, 0, 0, 0, 0]"

definition response_query :: "resp \<Rightarrow> bytes \<Rightarrow> bytes \<Rightarrow> bytes \<Rightarrow> (bool \<times> resp) option" where
  "response_query r q qtype qclass =
     and_then (response_addbytes (r\<lparr>response_len := 0, names := []\<rparr>) query_header 12) (\<lambda>r1.
     and_then (response_addname r1 q) (\<lambda>r2.
     and_then (response_addbytes r2 qtype 2) (\<lambda>r3.
     and_then (response_addbytes r3 qclass 2) (\<lambda>r4.
     Some (True, r4\<lparr>tctarget := response_len r4\<rparr>)))))"

definition response_hidettl :: "resp \<Rightarrow> resp" where
  "response_hidettl r = r\<lparr>flaghidettl := True\<rparr>"

definition response_rstart :: "resp \<Rightarrow> bytes \<Rightarrow> bytes \<Rightarrow> u32 \<Rightarrow> (bool \<times> resp) option" where
  "response_rstart r d type ttl =
     and_then (response_addname r d) (\<lambda>r1.
     and_then (response_addbytes r1 type 2) (\<lambda>r2.
     and_then (response_addbytes r2 [0, 1] 2) (\<lambda>r3.
     and_then (response_addbytes r3 (uint32_pack_big (if flaghidettl r3 then 0 else ttl)) 4) (\<lambda>r4.
     and_then (response_addbytes r4 [0, 0] 2) (\<lambda>r5.
     Some (True, r5\<lparr>dpos := response_len r5\<rparr>))))))"

text \<open>\<open>if (!++response[x + 1]) ++response[x]\<close> and the length of the record data.\<close>

definition response_rfinish :: "resp \<Rightarrow> nat \<Rightarrow> resp option" where
  "response_rfinish r x =
     do { b0 \<leftarrow> byte_copy_at (response r) (dpos r - 2) 2 (uint16_pack_big (of_nat (response_len r - dpos r)));
          lo \<leftarrow> ld b0 (x + 1);
          b1 \<leftarrow> st b0 (x + 1) (lo + 1);
          hi \<leftarrow> ld b1 x;
          b2 \<leftarrow> (if lo + 1 = 0 then st b1 x (hi + 1) else Some b1);
          Some (r\<lparr>response := b2\<rparr>) }"

definition response_cname :: "resp \<Rightarrow> bytes \<Rightarrow> bytes \<Rightarrow> u32 \<Rightarrow> (bool \<times> resp) option" where
  "response_cname r c d ttl =
     and_then (response_rstart r c [0, 5] ttl) (\<lambda>r1.
     and_then (response_addname r1 d) (\<lambda>r2.
     do { r3 \<leftarrow> response_rfinish r2 RESPONSE_ANSWER; Some (True, r3) }))"

definition response_nxdomain :: "resp \<Rightarrow> resp" where
  "response_nxdomain r =
     (let b = (response r)[3 := response r ! 3 OR 3] in r\<lparr>response := b[2 := b ! 2 OR 4]\<rparr>)"

definition response_servfail :: "resp \<Rightarrow> resp" where
  "response_servfail r = r\<lparr>response := (response r)[3 := response r ! 3 OR 2]\<rparr>"

definition response_id :: "resp \<Rightarrow> bytes \<Rightarrow> resp" where
  "response_id r i = r\<lparr>response := mem_write (response r) 0 (take 2 i)\<rparr>"

definition response_tc :: "resp \<Rightarrow> resp" where
  "response_tc r =
     r\<lparr>response := mem_write ((response r)[2 := response r ! 2 OR 2]) 6 (replicate 6 0),
       response_len := tctarget r\<rparr>"

section \<open>Names that stay readable\<close>

text \<open>
  \<open>name_in F buf pos ls k e\<close> is \<open>name_at\<close> with the reading confined to the positions
  \<open>F\<close>.  Changing other bytes, or appending, keeps such a name.
\<close>

inductive name_in :: "nat set \<Rightarrow> bytes \<Rightarrow> nat \<Rightarrow> bytes list \<Rightarrow> nat \<Rightarrow> nat \<Rightarrow> bool" for F buf where
  root: "pos < length buf \<Longrightarrow> pos \<in> F \<Longrightarrow> buf ! pos = 0 \<Longrightarrow> name_in F buf pos [] 1 (pos + 1)"
| label: "is_label l \<Longrightarrow> pos + 1 + length l \<le> length buf \<Longrightarrow> {pos ..< pos + 1 + length l} \<subseteq> F \<Longrightarrow>
    buf ! pos = of_nat (length l) \<Longrightarrow>
    mem_read buf (pos + 1) (length l) = l \<Longrightarrow> name_in F buf (pos + 1 + length l) ls k e \<Longrightarrow>
    name_in F buf pos (l # ls) (1 + length l + k) e"
| ptr: "pos + 1 < length buf \<Longrightarrow> pos \<in> F \<Longrightarrow> pos + 1 \<in> F \<Longrightarrow> buf ! pos \<ge> 192 \<Longrightarrow>
    name_in F buf ((unat (buf ! pos) - 192) * 256 + unat (buf ! (pos + 1))) ls k e \<Longrightarrow>
    name_in F buf pos ls (1 + k) (pos + 2)"

lemma name_in_name_at: "name_in F buf pos ls k e \<Longrightarrow> name_at buf pos ls k e"
  by (induction rule: name_in.induct) (blast intro: name_at.intros)+

lemma name_in_mono:
  assumes "name_in F buf pos ls k e" "F \<subseteq> F'" "length buf \<le> length buf'"
    "\<forall>i \<in> F. i < length buf \<longrightarrow> buf' ! i = buf ! i"
  shows "name_in F' buf' pos ls k e"
  using assms
proof (induction rule: name_in.induct)
  case (label l pos ls k e)
  have same: "buf' ! i = buf ! i" if "pos \<le> i" "i < pos + 1 + length l" for i
    using that label.hyps(2,3) label.prems(3) by auto
  have fits: "pos + 1 + length l \<le> length buf'" using label.hyps(2) label.prems(2) by linarith
  have "mem_read buf' (pos + 1) (length l) = mem_read buf (pos + 1) (length l)"
    using fits label.hyps(2) same by (intro nth_equalityI) simp_all
  then show ?case
    using label.hyps(1,3-5) label.prems label.IH fits same [of pos] by (intro name_in.label) auto
next
  case (ptr pos ls k e)
  then have "buf' ! pos = buf ! pos" "buf' ! (pos + 1) = buf ! (pos + 1)" by auto
  then show ?case using ptr name_in.ptr [of pos buf' F' ls k e] by auto
next
  case (root pos)
  then show ?case by (intro name_in.root) auto
qed

section \<open>The invariant\<close>

text \<open>The bytes of the response so far.\<close>

definition packet :: "resp \<Rightarrow> bytes" where
  "packet r = take (response_len r) (response r)"

definition resp_wf :: "resp \<Rightarrow> bool" where
  "resp_wf r \<longleftrightarrow> length (response r) = 65535 \<and> response_len r \<le> 65535"

text \<open>A row of the name table points at its name, up to case.\<close>

definition row_ok :: "nat set \<Rightarrow> bytes \<Rightarrow> bytes \<times> nat \<Rightarrow> bool" where
  "row_ok F buf row \<longleftrightarrow>
     (\<exists>ms ms' k e. fst row = dn_of ms \<and> wf_name ms \<and> snd row < 16384 \<and>
        name_in F buf (snd row) ms' k e \<and> lower ms' = lower ms \<and> k \<le> length (dn_of ms) + length ms)"

definition resp_inv :: "nat set \<Rightarrow> resp \<Rightarrow> bool" where
  "resp_inv F r \<longleftrightarrow>
     resp_wf r \<and> length (names r) \<le> NAMES \<and> F \<subseteq> {12 ..< response_len r} \<and> list_all (row_ok F (packet r)) (names r)"

lemma length_packet [simp]: "resp_wf r \<Longrightarrow> length (packet r) = response_len r"
  by (simp add: packet_def resp_wf_def)

lemma row_ok_mono:
  "row_ok F buf row \<Longrightarrow> F \<subseteq> F' \<Longrightarrow> length buf \<le> length buf' \<Longrightarrow>
   \<forall>i \<in> F. i < length buf \<longrightarrow> buf' ! i = buf ! i \<Longrightarrow> row_ok F' buf' row"
  unfolding row_ok_def by (metis name_in_mono)

lemma rows_ok_mono:
  assumes "list_all (row_ok F buf) tab" "F \<subseteq> F'" "length buf \<le> length buf'"
    "\<forall>i \<in> F. i < length buf \<longrightarrow> buf' ! i = buf ! i"
  shows "list_all (row_ok F' buf') tab"
  using assms row_ok_mono by (fastforce simp: list_all_iff)

lemma byte_copy_at_eq:
  "n \<le> length x \<Longrightarrow> p + n \<le> length y \<Longrightarrow> byte_copy_at y p n x = Some (mem_write y p (take n x))"
  by (simp add: byte_copy_at_def byte_copy_eq mem_write_def add.commute)

text \<open>Appending bytes.\<close>

definition appended :: "resp \<Rightarrow> bytes \<Rightarrow> resp" where
  "appended r x = r\<lparr>response := mem_write (response r) (response_len r) x, response_len := response_len r + length x\<rparr>"

lemma response_addbytes_eq:
  assumes "resp_wf r" "n \<le> length x"
  shows "response_addbytes r x (int n) =
     Some (if response_len r + n \<le> 65535 then (True, appended r (take n x)) else (False, r))"
  using assms by (auto simp: response_addbytes_def byte_copy_at_eq resp_wf_def appended_def)

lemma appended_wf: "resp_wf r \<Longrightarrow> response_len r + length x \<le> 65535 \<Longrightarrow> resp_wf (appended r x)"
  by (simp add: resp_wf_def appended_def)

lemma appended_simps [simp]:
  "response_len (appended r x) = response_len r + length x" "names (appended r x) = names r"
  "tctarget (appended r x) = tctarget r" "dpos (appended r x) = dpos r" "flaghidettl (appended r x) = flaghidettl r"
  by (simp_all add: appended_def)

lemma packet_appended:
  "resp_wf r \<Longrightarrow> response_len r + length x \<le> 65535 \<Longrightarrow> packet (appended r x) = packet r @ x"
  by (simp add: packet_def appended_def resp_wf_def mem_write_def)

interpretation resp_sink: byte_sink resp_wf packet "\<lambda>r n. response_len r + n \<le> 65535"
  "\<lambda>r x. response_addbytes r x (int (length x))"
proof unfold_locales
  fix r and x :: bytes and n
  assume "resp_wf r" "response_len r + (length x + n) \<le> 65535"
  then show "\<exists>r'. response_addbytes r x (int (length x)) = Some (True, r') \<and> resp_wf r' \<and>
     response_len r' + n \<le> 65535 \<and> packet r' = packet r @ x"
    by (intro exI [of _ "appended r x"]) (simp add: response_addbytes_eq appended_wf packet_appended)
qed

lemma appended_inv:
  assumes "resp_inv F r" "response_len r + length x \<le> 65535"
  shows "resp_inv F (appended r x)"
proof -
  have wf: "resp_wf r" using assms by (simp add: resp_inv_def)
  have pk: "packet (appended r x) = packet r @ x" using wf assms(2) by (rule packet_appended)
  have "list_all (row_ok F (packet r @ x)) (names r)"
    by (rule rows_ok_mono [of F "packet r"]) (use assms(1) in \<open>simp_all add: resp_inv_def nth_append\<close>)
  moreover have "F \<subseteq> {12 ..< response_len r + length x}"
    using assms(1) unfolding resp_inv_def by (meson atLeastLessThan_iff le_add1 less_le_trans subset_iff)
  ultimately show ?thesis
    using assms wf by (simp add: resp_inv_def appended_wf pk)
qed

section \<open>Adding a name\<close>

definition name_row :: "bytes list \<Rightarrow> bytes \<times> nat \<Rightarrow> bool" where
  "name_row ms row \<longleftrightarrow> fst row = dn_of ms \<and> list_all is_label ms"

lemma find_name_spec:
  assumes "\<forall>row \<in> set tab. \<exists>ms. name_row ms row" "list_all is_label ls"
  shows "find_name tab (dn_of ls @ q) = Some None \<or>
    (\<exists>row ms. row \<in> set tab \<and> name_row ms row \<and> lower ms = lower ls \<and>
       find_name tab (dn_of ls @ q) = Some (Some (snd row)))"
  using assms(1)
proof (induction tab)
  case (Cons row tab)
  obtain nm p where row: "row = (nm, p)" by fastforce
  obtain ms where ms: "nm = dn_of ms" "list_all is_label ms"
    using Cons.prems row by (auto simp: name_row_def)
  have eq: "dns_domain_equal (dn_of ls @ q) nm = Some (lower ls = lower ms)"
    using dns_domain_equal_dn_of [OF assms(2) ms(2), of q "[]"] ms(1) by simp
  show ?case
  proof (cases "lower ls = lower ms")
    case True
    then show ?thesis using eq row ms by (auto simp: name_row_def)
  next
    case False
    then show ?thesis using eq row Cons by auto
  qed
qed simp

lemma nat_and_255: "(n :: nat) AND 255 = n mod 256"
  using take_bit_eq_mask [of 8 n] by (simp add: take_bit_eq_mod mask_eq_exp_minus_1)

lemma unat_ucast_byte: "unat (ucast (w :: 'a::len word) :: byte) = unat w mod 256"
  by (simp add: unsigned_ucast_eq unsigned_take_bit_eq take_bit_eq_mod)

lemma u16_drop_bit: "unat (drop_bit n (x :: u16)) = unat x div 2 ^ n"
proof -
  have "unat x < 2 ^ 16" using unsigned_less [of x] by simp
  then show ?thesis by (subst unsigned_drop_bit_eq) (simp add: drop_bit_eq_div take_bit_nat_eq_self)
qed

lemma uint16_pack_big_nat:
  "uint16_pack_big x = [of_nat (unat x div 256), of_nat (unat x)]"
proof -
  have "unat (ucast (drop_bit 8 x AND 255) :: byte) = unat x div 256 mod 256 mod 256"
    by (simp only: unat_ucast_byte unsigned_and_eq u16_drop_bit) (simp add: nat_and_255)
  then have "ucast (drop_bit 8 x AND 255) = (of_nat (unat x div 256) :: byte)"
    by (intro word_eqI_nat) (simp add: unat_of_nat)
  moreover have lo: "unat (ucast (x AND 255) :: byte) = unat x mod 256"
    by (simp only: unat_ucast_byte unsigned_and_eq) (simp add: nat_and_255)
  have "ucast (x AND 255) = (of_nat (unat x) :: byte)"
    by (rule word_eqI_nat) (simp only: lo unat_of_nat, simp)
  ultimately show ?thesis by (simp only: uint16_pack_big_def)
qed

lemma pointer_bytes:
  assumes "p < 16384"
  obtains a b where "uint16_pack_big (of_nat (49152 + p)) = [a, b]" "a \<ge> 192" "(unat a - 192) * 256 + unat b = p"
proof -
  have x: "unat (of_nat (49152 + p) :: u16) = 49152 + p" using assms by (subst unat_of_nat) simp
  have e: "49152 + p = p + 192 * 256" by simp
  have d1: "(49152 + p) div 256 = 192 + p div 256" unfolding e by (rule div_mult_self1) simp
  have d2: "(49152 + p) mod 256 = p mod 256" unfolding e by (rule mod_mult_self1)
  have a: "unat (of_nat ((49152 + p) div 256) :: byte) = 192 + p div 256"
    unfolding d1 using assms by (subst unat_of_nat) simp
  have b: "unat (of_nat (49152 + p) :: byte) = p mod 256"
  proof -
    have "2 ^ LENGTH(8) = (256 :: nat)" by simp
    then show ?thesis by (simp only: unat_of_nat d2)
  qed
  show thesis
  proof (rule that)
    show "uint16_pack_big (of_nat (49152 + p)) = [of_nat ((49152 + p) div 256), of_nat (49152 + p)]"
      by (simp only: uint16_pack_big_nat x)
    show "192 \<le> (of_nat ((49152 + p) div 256) :: byte)" unfolding word_le_nat_alt a by simp
    show "(unat (of_nat ((49152 + p) div 256) :: byte) - 192) * 256 + unat (of_nat (49152 + p) :: byte) = p"
      unfolding a b by simp
  qed
qed

text \<open>
  What a successful \<open>response_addname\<close> leaves behind: the bytes \<open>x\<close> were appended, the
  new rows are right, and the name stands, up to case, where it was appended.
\<close>

definition name_added :: "nat set \<Rightarrow> resp \<Rightarrow> bytes list \<Rightarrow> resp \<Rightarrow> bool" where
  "name_added F r ls r' \<longleftrightarrow>
     (let F' = F \<union> {response_len r ..< response_len r'} in
      tctarget r' = tctarget r \<and> dpos r' = dpos r \<and> flaghidettl r' = flaghidettl r \<and>
      (\<exists>x. packet r' = packet r @ x \<and> length x \<le> length (dn_of ls)) \<and>
      (\<exists>tab. names r' = names r @ tab \<and> list_all (row_ok F' (packet r')) tab \<and> length (names r') \<le> NAMES) \<and>
      (\<exists>ls' k. name_in F' (packet r') (response_len r) ls' k (response_len r') \<and> lower ls' = lower ls \<and>
         k \<le> length (dn_of ls) + length ls + 1))"

text \<open>A row for a longer name: one of those added for the name that is being written.\<close>

definition long_row :: "nat \<Rightarrow> bytes \<times> nat \<Rightarrow> bool" where
  "long_row n row \<longleftrightarrow> (\<exists>ms. name_row ms row \<and> n < length ms)"

lemma row_ok_name_row: "row_ok F buf row \<Longrightarrow> \<exists>ms. name_row ms row"
  by (auto simp: row_ok_def name_row_def wf_name_def)

lemma name_row_unique: "name_row ms row \<Longrightarrow> name_row ms' row \<Longrightarrow> ms = ms'"
  using dn_of_inj by (auto simp: name_row_def)

lemma length_dn_of_pos: "0 < length (dn_of ls)"
  by (cases ls) simp_all

lemma row_okI [wf_intros]:
  "wf_name ms \<Longrightarrow> p < 16384 \<Longrightarrow> name_in F buf p ms' k e \<Longrightarrow> lower ms' = lower ms \<Longrightarrow>
   k \<le> length (dn_of ms) + length ms \<Longrightarrow> row_ok F buf (dn_of ms, p)"
  unfolding row_ok_def by auto

lemma name_addedI [wf_intros]:
  assumes "F' = F \<union> {response_len r ..< response_len r'}"
    "tctarget r' = tctarget r" "dpos r' = dpos r" "flaghidettl r' = flaghidettl r"
    "packet r' = packet r @ x" "length x \<le> length (dn_of ls)"
    "names r' = names r @ tab" "list_all (row_ok F' (packet r')) tab" "length (names r') \<le> NAMES"
    "name_in F' (packet r') (response_len r) ls' k (response_len r')" "lower ls' = lower ls"
    "k \<le> length (dn_of ls) + length ls + 1"
  shows "name_added F r ls r'"
  unfolding name_added_def Let_def assms(1) [symmetric] using assms(2-) by blast

lemma addname_root:
  assumes "resp_wf r" "response_len r + 1 \<le> 65535" "length (names r) \<le> NAMES"
  shows "name_added F r [] (appended r [0])"
proof -
  have "name_in (F \<union> {response_len r ..< response_len r + 1}) (packet r @ [0]) (response_len r) [] 1 (response_len r + 1)"
    by (rule name_in.root) (use assms in \<open>simp_all add: nth_append\<close>)
  then show ?thesis
    using assms by (auto simp: name_added_def Let_def packet_appended intro!: exI [of _ "[]"])
qed

lemma addname_pointer:
  assumes "resp_wf r" "response_len r + 2 \<le> 65535" "length (names r) \<le> NAMES" "ls \<noteq> []"
    "row_ok F (packet r) row" "name_row ms row" "lower ms = lower ls"
  shows "name_added F r ls (appended r (uint16_pack_big (of_nat (49152 + snd row))))"
proof -
  obtain ms1 ms' k e where R: "fst row = dn_of ms1" "wf_name ms1" "snd row < 16384"
      "name_in F (packet r) (snd row) ms' k e" "lower ms' = lower ms1" "k \<le> length (dn_of ms1) + length ms1"
    using assms(5) by (auto simp: row_ok_def)
  have "ms1 = ms" using R(1,2) assms(6) by (intro name_row_unique) (auto simp: name_row_def wf_name_def)
  with R assms(7) have l: "lower ms' = lower ls" "k \<le> length (dn_of ls) + length ls"
    using length_dn_of_lower [of ms] length_dn_of_lower [of ls] map_eq_imp_length_eq [OF assms(7)] by simp_all
  obtain a b where ab: "uint16_pack_big (of_nat (49152 + snd row)) = [a, b]" "a \<ge> 192" "(unat a - 192) * 256 + unat b = snd row"
    using R(3) by (rule pointer_bytes)
  let ?n = "response_len r" let ?F = "F \<union> {?n ..< ?n + 2}" let ?b = "packet r @ [a, b]"
  have nth: "?b ! ?n = a" "?b ! (?n + 1) = b" using assms(1) by (simp_all add: nth_append)
  have "name_in ?F ?b (snd row) ms' k e"
    by (rule name_in_mono [OF R(4)]) (use assms(1) in \<open>auto simp: nth_append\<close>)
  then have "name_in ?F ?b ?n ms' (1 + k) (?n + 2)"
    by (intro name_in.ptr) (use assms(1) ab nth in auto)
  moreover have "2 \<le> length (dn_of ls)"
    using assms(4) length_dn_of_pos by (cases ls) (simp_all add: Suc_leI)
  ultimately show ?thesis
    using assms(1-3) ab(1) l by (auto simp: name_added_def Let_def packet_appended intro!: exI [of _ ms'] exI [of _ "Suc k"])
qed

lemma packet_names [simp]: "packet (r\<lparr>names := t\<rparr>) = packet r" "resp_wf (r\<lparr>names := t\<rparr>) = resp_wf r"
  by (simp_all add: packet_def resp_wf_def)

lemma addname_label:
  assumes wf: "resp_wf r" "wf_name (l # ls)" "response_len r + 1 + length l \<le> 65535"
    and r2: "r2 = appended (r\<lparr>names := names r @ extra\<rparr>) (of_nat (length l) # l)"
    and extra: "extra = [] \<or> extra = [(dn_of (l # ls), response_len r)] \<and> response_len r < 16384"
    and rec: "name_added F r2 ls r'" "resp_wf r'"
  shows "name_added F r (l # ls) r'"
proof -
  let ?n = "response_len r" and ?n' = "response_len r'"
  let ?F = "F \<union> {?n ..< ?n'}" and ?F2 = "F \<union> {response_len r2 ..< ?n'}"
  obtain x tab ls' k where R: "packet r' = packet r2 @ x" "length x \<le> length (dn_of ls)"
      "names r' = names r2 @ tab" "list_all (row_ok ?F2 (packet r')) tab" "length (names r') \<le> NAMES"
      "name_in ?F2 (packet r') (response_len r2) ls' k ?n'" "lower ls' = lower ls" "k \<le> length (dn_of ls) + length ls + 1"
      "tctarget r' = tctarget r" "dpos r' = dpos r" "flaghidettl r' = flaghidettl r"
    using rec(1) by (auto simp: name_added_def Let_def r2)
  have lab: "is_label l" "wf_name (l # ls)" using wf(2) by (simp_all add: wf_name_def)
  have p2: "packet r2 = packet r @ of_nat (length l) # l" "response_len r2 = ?n + 1 + length l"
    using wf by (simp_all add: r2 packet_appended)
  then have p': "packet r' = packet r @ of_nat (length l) # l @ x" using R(1) by simp
  have n': "?n' = ?n + 1 + length l + length x"
    using arg_cong [OF p', of length] wf(1) rec(2) by simp
  have sub: "?F2 \<subseteq> ?F" using p2(2) by auto
  have tail: "name_in ?F (packet r') (?n + 1 + length l) ls' k ?n'"
    using name_in_mono [OF R(6) sub order_refl] p2(2) by simp
  have here: "name_in ?F (packet r') ?n (l # ls') (1 + length l + k) ?n'"
    by (rule name_in.label [OF lab(1) _ _ _ _ tail])
      (use wf(1) n' in \<open>auto simp: p' nth_append mem_read_def\<close>)
  have kb: "1 + length l + k \<le> length (dn_of (l # ls)) + length (l # ls)" using R(8) by simp
  have "list_all (row_ok ?F (packet r')) extra"
    using extra
  proof
    assume "extra = [(dn_of (l # ls), ?n)] \<and> ?n < 16384"
    moreover have "row_ok ?F (packet r') (dn_of (l # ls), ?n)" if "?n < 16384"
      by (rule row_okI [OF lab(2) that here _ kb]) (simp add: R(7))
    ultimately show ?thesis by (simp del: dn_of.simps)
  qed simp
  moreover have "list_all (row_ok ?F (packet r')) tab"
    using rows_ok_mono [OF R(4) sub order_refl] by simp
  ultimately have rows: "list_all (row_ok ?F (packet r')) (extra @ tab)" by (simp only: list_all_append)
  show ?thesis
    by (rule name_addedI [OF refl R(9-11) p' _ _ rows R(5) here])
      (use R(2,3,7) kb in \<open>simp_all add: r2\<close>)
qed

text \<open>
  The whole loop, for a table whose rows are right or belong to longer names: it never leaves
  the objects, it succeeds when the uncompressed name fits, and on success the name was added.
\<close>

lemma response_addname_loop_ok:
  assumes "resp_wf r" "wf_name ls" "length (names r) \<le> NAMES"
    "\<forall>row \<in> set (names r). row_ok F (packet r) row \<or> long_row (length ls) row"
  shows "\<exists>ok r'. response_addname_loop r (dn_of ls @ q) (length (dn_of ls)) = Some (ok, r') \<and> resp_wf r' \<and>
     (response_len r + length (dn_of ls) \<le> 65535 \<longrightarrow> ok) \<and> (ok \<longrightarrow> name_added F r ls r')"
  using assms
proof (induction ls arbitrary: r)
  case Nil
  have "response_addname_loop r (dn_of [] @ q) (length (dn_of [])) = response_addbytes r (0 # q) (int 1)"
    by (simp add: response_addname_loop.simps(2))
  then show ?case
    using Nil addname_root [of r F] appended_wf [of r "[0]"] response_addbytes_eq [OF Nil(1), of 1 "0 # q"] by auto
next
  case (Cons l ls)
  let ?d = "dn_of (l # ls) @ q" and ?c = "of_nat (length l) :: byte"
  have lab: "is_label l" "wf_name ls" "list_all is_label (l # ls)" using Cons.prems(2) by (simp_all add: wf_name_def)
  have c: "?c \<noteq> 0" "unat ?c = length l" using label_length_byte [OF lab(1)] by simp_all
  have d: "?d = ?c # l @ dn_of ls @ q" by simp
  have rows: "\<forall>row \<in> set (names r). \<exists>ms. name_row ms row"
    using Cons.prems(4) row_ok_name_row by (auto simp: long_row_def)
  from find_name_spec [OF rows lab(3), of q] show ?case
  proof (elim disjE exE conjE)
    fix row ms
    assume F: "row \<in> set (names r)" "name_row ms row" "lower ms = lower (l # ls)"
      "find_name (names r) ?d = Some (Some (snd row))"
    have "\<not> long_row (length (l # ls)) row"
    proof
      assume "long_row (length (l # ls)) row"
      then obtain ms' where "name_row ms' row" "length (l # ls) < length ms'" unfolding long_row_def by blast
      moreover have "ms' = ms" using \<open>name_row ms' row\<close> F(2) by (rule name_row_unique)
      ultimately show False using map_eq_imp_length_eq [OF F(3)] by simp
    qed
    then have ok: "row_ok F (packet r) row" using F(1) Cons.prems(4) by blast
    let ?p = "uint16_pack_big (of_nat (49152 + snd row))"
    have p2: "length ?p = 2" by (simp add: uint16_pack_big_def)
    have "response_addname_loop r ?d (length (dn_of (l # ls))) = response_addbytes r ?p (int 2)"
      using F(4) c by (simp add: d response_addname_loop.simps(2))
    then have "response_addname_loop r ?d (length (dn_of (l # ls))) =
        Some (if response_len r + 2 \<le> 65535 then (True, appended r ?p) else (False, r))"
      using response_addbytes_eq [OF Cons.prems(1), of 2 ?p] p2 by simp
    moreover have "2 \<le> length (dn_of (l # ls))" using length_dn_of_pos [of ls] by (simp add: Suc_leI)
    ultimately show ?thesis
      using addname_pointer [OF Cons.prems(1) _ Cons.prems(3) _ ok F(2,3)] appended_wf [OF Cons.prems(1), of ?p] p2 Cons.prems(1)
      by auto
  next
    assume F: "find_name (names r) ?d = Some None"
    define extra where "extra = (if response_len r < 16384 \<and> length (names r) < NAMES
      then [(dn_of (l # ls), response_len r)] else [])"
    let ?r1 = "r\<lparr>names := names r @ extra\<rparr>" and ?x = "?c # l"
    have wf1: "resp_wf ?r1" using Cons.prems(1) by simp
    have loop: "response_addname_loop r ?d (length (dn_of (l # ls))) =
        do { (ok, r2) \<leftarrow> response_addbytes ?r1 ?d (int (length l + 1));
             if \<not> ok then Some (False, r2) else response_addname_loop r2 (dn_of ls @ q) (length (dn_of ls)) }"
    proof -
      let ?n = "length (dn_of (l # ls))" and ?e = "?c # l @ dn_of ls @ q"
      have r1: "(if ?n \<le> 255 \<and> response_len r < 16384 \<and> length (names r) < NAMES
          then r\<lparr>names := names r @ [(take ?n ?e, response_len r)]\<rparr> else r) = ?r1"
        using Cons.prems(2) by (simp add: extra_def wf_name_def)
      have "drop (unat ?c) (l @ dn_of ls @ q) = dn_of ls @ q" "?n - (unat ?c + 1) = length (dn_of ls)"
        using c(2) by simp_all
      then show ?thesis
        using F c unfolding d
        by (simp only: response_addname_loop.simps(2) if_False bind.bind_lunit option.case Let_def r1)
    qed
    show ?thesis
    proof (cases "response_len r + 1 + length l \<le> 65535")
      case False
      then have "response_addname_loop r ?d (length (dn_of (l # ls))) = Some (False, ?r1)"
        unfolding loop by (subst response_addbytes_eq [OF wf1]) (auto simp: d)
      then show ?thesis using False wf1 by auto
    next
      case True
      let ?r2 = "appended ?r1 ?x"
      have wf2: "resp_wf ?r2" using appended_wf [OF wf1, of ?x] True by simp
      have tk: "take (length l + 1) ?d = ?x" by (simp add: d)
      have eq: "response_addname_loop r ?d (length (dn_of (l # ls))) =
          response_addname_loop ?r2 (dn_of ls @ q) (length (dn_of ls))"
        unfolding loop using True by (subst response_addbytes_eq [OF wf1]) (auto simp: d)
      have nl: "length (names ?r2) \<le> NAMES" using Cons.prems(3) by (simp add: extra_def)
      have "row_ok F (packet ?r2) row \<or> long_row (length ls) row" if "row \<in> set (names ?r2)" for row
      proof (cases "row \<in> set (names r)")
        case old: True
        have "row_ok F (packet ?r2) row" if "row_ok F (packet r) row"
          by (rule row_ok_mono [OF that]) (use wf1 True in \<open>simp_all add: packet_appended nth_append\<close>)
        moreover have "long_row (length ls) row" if "long_row (length (l # ls)) row"
          using that by (auto simp: long_row_def)
        ultimately show ?thesis using old Cons.prems(4) by blast
      next
        case False
        then have "name_row (l # ls) row"
          using that lab(3) by (auto simp: extra_def name_row_def split: if_splits)
        then show ?thesis by (auto simp: long_row_def)
      qed
      then obtain ok r' where R: "response_addname_loop ?r2 (dn_of ls @ q) (length (dn_of ls)) = Some (ok, r')" "resp_wf r'"
          "response_len ?r2 + length (dn_of ls) \<le> 65535 \<longrightarrow> ok" "ok \<longrightarrow> name_added F ?r2 ls r'"
        using Cons.IH [OF wf2 lab(2) nl] by blast
      have "ok \<longrightarrow> name_added F r (l # ls) r'"
        using addname_label [OF Cons.prems(1,2) True refl, of extra F r'] R(2,4) by (auto simp: extra_def)
      then show ?thesis using R eq by auto
    qed
  qed
qed

lemma response_addname_ok:
  assumes "resp_inv F r" "wf_name ls" "12 \<le> response_len r"
  shows "\<exists>ok r'. response_addname r (dn_of ls @ q) = Some (ok, r') \<and> resp_wf r' \<and>
     (response_len r + length (dn_of ls) \<le> 65535 \<longrightarrow> ok) \<and>
     (ok \<longrightarrow> name_added F r ls r' \<and> resp_inv (F \<union> {response_len r ..< response_len r'}) r')"
proof -
  have inv: "resp_wf r" "length (names r) \<le> NAMES" "F \<subseteq> {12 ..< response_len r}" "list_all (row_ok F (packet r)) (names r)"
    using assms(1) by (simp_all add: resp_inv_def)
  have rows: "\<forall>row \<in> set (names r). row_ok F (packet r) row \<or> long_row (length ls) row"
    using inv(4) by (simp add: list_all_iff)
  obtain ok r' where R: "response_addname_loop r (dn_of ls @ q) (length (dn_of ls)) = Some (ok, r')" "resp_wf r'"
     "response_len r + length (dn_of ls) \<le> 65535 \<longrightarrow> ok" "ok \<longrightarrow> name_added F r ls r'"
    using response_addname_loop_ok [OF inv(1) assms(2) inv(2) rows, of q] by blast
  have "resp_inv (F \<union> {response_len r ..< response_len r'}) r'" if added: "name_added F r ls r'"
  proof -
    let ?F = "F \<union> {response_len r ..< response_len r'}"
    obtain x tab where N: "packet r' = packet r @ x" "names r' = names r @ tab" "list_all (row_ok ?F (packet r')) tab"
        "length (names r') \<le> NAMES"
      using added by (auto simp: name_added_def Let_def)
    have le: "response_len r \<le> response_len r'"
      using arg_cong [OF N(1), of length] inv(1) R(2) by simp
    have "list_all (row_ok ?F (packet r')) (names r)"
      by (rule rows_ok_mono [OF inv(4)]) (use N(1) in \<open>auto simp: nth_append\<close>)
    moreover have "?F \<subseteq> {12 ..< response_len r'}" using inv(3) le assms(3) by auto
    ultimately show ?thesis using N R(2) by (simp add: resp_inv_def)
  qed
  moreover have "dns_domain_length (dn_of ls @ q) = Some (length (dn_of ls))"
    using assms(2) by (simp add: wf_name_def)
  ultimately show ?thesis using R by (auto simp: response_addname_def)
qed

text \<open>A name of the response is what \<open>dns_packet_getname\<close> reads.\<close>

lemma length_dn_of_labels: "list_all is_label ls \<Longrightarrow> 2 * length ls + 1 \<le> length (dn_of ls)"
proof (induction ls)
  case (Cons l ls)
  then have "0 < length l" "2 * length ls + 1 \<le> length (dn_of ls)" by (simp_all add: is_label_def)
  then have "2 * length ls + 3 \<le> 1 + length l + length (dn_of ls)" by linarith
  then show ?case by simp
qed simp

lemma wf_name_lower: "lower ls' = lower ls \<Longrightarrow> wf_name ls \<Longrightarrow> wf_name ls'"
  unfolding wf_name_def by (metis length_dn_of_lower list_all_label_lower)

lemma name_in_getname:
  assumes "name_in F buf p ls' k e" "lower ls' = lower ls" "wf_name ls" "k \<le> length (dn_of ls) + length ls + 1"
  shows "dns_packet_getname (\<lambda>_. True) buf p d = Some (e, Some (dn_of ls'))"
proof (rule getname_delivers)
  show "name_at buf p ls' k e" using assms(1) by (rule name_in_name_at)
  show "wf_name ls'" using assms(2,3) by (rule wf_name_lower)
  have "2 * length ls + 1 \<le> length (dn_of ls)" "length (dn_of ls) \<le> 255"
    using assms(3) length_dn_of_labels by (auto simp: wf_name_def)
  then show "k < 1000" using assms(4) by linarith
qed

definition resp_start :: resp where
  "resp_start = \<lparr>response = replicate 65535 0, response_len = 12, tctarget = 0, names = [], dpos = 0, flaghidettl = False\<rparr>"

lemma resp_start_inv: "resp_inv {} resp_start"
  by (simp add: resp_inv_def resp_wf_def resp_start_def)

text \<open>C10: \<open>response_addname\<close> with compression: in every reachable state (header present, every
  row of the name table points at its name) the call returns without leaving its buffers; it
  succeeds if the uncompressed name fits into the 65535 bytes; and after success the name read
  back by \<open>dns_packet_getname\<close> at the old end of the packet is the given one up to case, the
  field ends at the new end, the earlier bytes are unchanged and the table is right again.\<close>

theorem response_addname_getname:
  assumes "resp_inv F r" "wf_name ls" "12 \<le> response_len r"
  shows "\<exists>ok r'. response_addname r (dn_of ls @ q) = Some (ok, r') \<and> resp_wf r' \<and>
     (response_len r + length (dn_of ls) \<le> 65535 \<longrightarrow> ok) \<and>
     (ok \<longrightarrow> resp_inv (F \<union> {response_len r ..< response_len r'}) r' \<and>
        take (response_len r) (packet r') = packet r \<and>
        (\<exists>ls'. lower ls' = lower ls \<and>
           dns_packet_getname (\<lambda>_. True) (packet r') (response_len r) None = Some (response_len r', Some (dn_of ls'))))"
proof -
  obtain ok r' where R: "response_addname r (dn_of ls @ q) = Some (ok, r')" "resp_wf r'"
      "response_len r + length (dn_of ls) \<le> 65535 \<longrightarrow> ok"
      "ok \<longrightarrow> name_added F r ls r' \<and> resp_inv (F \<union> {response_len r ..< response_len r'}) r'"
    using response_addname_ok [OF assms, of q] by blast
  have wf: "resp_wf r" using assms(1) by (simp add: resp_inv_def)
  have "take (response_len r) (packet r') = packet r \<and>
      (\<exists>ls'. lower ls' = lower ls \<and>
         dns_packet_getname (\<lambda>_. True) (packet r') (response_len r) None = Some (response_len r', Some (dn_of ls')))"
    if added: "name_added F r ls r'"
  proof -
    obtain x ls' k where N: "packet r' = packet r @ x"
        "name_in (F \<union> {response_len r ..< response_len r'}) (packet r') (response_len r) ls' k (response_len r')"
        "lower ls' = lower ls" "k \<le> length (dn_of ls) + length ls + 1"
      using added by (auto simp: name_added_def Let_def)
    then show ?thesis using wf name_in_getname [OF N(2,3) assms(2) N(4)] by auto
  qed
  with R show ?thesis by blast
qed

theorem response_addname_getname_witness:
  "\<exists>ok r'. response_addname resp_start (dn_of [[119], [97]] @ []) = Some (ok, r') \<and> resp_wf r' \<and>
     (response_len resp_start + length (dn_of [[119], [97]]) \<le> 65535 \<longrightarrow> ok) \<and>
     (ok \<longrightarrow> resp_inv ({} \<union> {response_len resp_start ..< response_len r'}) r' \<and>
        take (response_len resp_start) (packet r') = packet resp_start \<and>
        (\<exists>ls'. lower ls' = lower [[119], [97]] \<and>
           dns_packet_getname (\<lambda>_. True) (packet r') (response_len resp_start) None = Some (response_len r', Some (dn_of ls'))))"
  by (rule response_addname_getname [OF resp_start_inv])
    (simp_all add: wf_name_def is_label_def resp_start_def)

section \<open>Records\<close>

lemma and_then_ok: "m = Some (True, r) \<Longrightarrow> and_then m f = f r"
  by (simp add: and_then_def)

lemma response_addbytes_all:
  assumes "resp_inv F r" "n = int (length x)" "response_len r + length x \<le> 65535"
  shows "response_addbytes r x n = Some (True, appended r x)" "resp_inv F (appended r x)"
    "packet (appended r x) = packet r @ x"
  using assms response_addbytes_eq [of r "length x" x] appended_inv [of F r x] packet_appended [of r x]
  by (simp_all add: resp_inv_def)

lemma name_added_len:
  assumes "name_added F r ls r'" "resp_wf r" "resp_wf r'"
  shows "response_len r < response_len r'" "response_len r' \<le> response_len r + length (dn_of ls)"
    "take (response_len r) (packet r') = packet r"
proof -
  obtain x ls' k where N: "packet r' = packet r @ x" "length x \<le> length (dn_of ls)"
      "name_in (F \<union> {response_len r ..< response_len r'}) (packet r') (response_len r) ls' k (response_len r')"
    using assms(1) by (auto simp: name_added_def Let_def)
  show "response_len r < response_len r'"
    using name_at_bounds [OF name_in_name_at [OF N(3)]] by simp
  show "response_len r' \<le> response_len r + length (dn_of ls)"
    using arg_cong [OF N(1), of length] N(2) assms by simp
  show "take (response_len r) (packet r') = packet r"
    using assms(2) by (simp add: N(1))
qed

lemma mem_read_2: "p + 2 \<le> length b \<Longrightarrow> mem_read b p 2 = [b ! p, b ! (p + 1)]"
  by (rule nth_equalityI) (auto simp: less_2_cases_iff)

text \<open>The counter in the header and the length field of a finished record.\<close>

lemma response_rfinish_eq:
  assumes "resp_wf r" "2 \<le> dpos r" "dpos r \<le> response_len r" "x + 1 < dpos r - 2"
  obtains r' where "response_rfinish r x = Some r'" "resp_wf r'" "response_len r' = response_len r" "names r' = names r"
    "tctarget r' = tctarget r" "dpos r' = dpos r"
    "mem_read (packet r') (dpos r - 2) 2 = uint16_pack_big (of_nat (response_len r - dpos r))"
    "mem_read (packet r') x 2 = (let lo = packet r ! (x + 1); hi = packet r ! x in [if lo + 1 = 0 then hi + 1 else hi, lo + 1])"
    "\<forall>i < response_len r. i \<notin> {x, x + 1, dpos r - 2, dpos r - 1} \<longrightarrow> packet r' ! i = packet r ! i"
proof -
  define p where "p = uint16_pack_big (of_nat (response_len r - dpos r))"
  define b0 where "b0 = mem_write (response r) (dpos r - 2) p"
  define lo where "lo = response r ! (x + 1)"
  define hi where "hi = response r ! x"
  define b2 where "b2 = b0[x + 1 := lo + 1, x := (if lo + 1 = 0 then hi + 1 else hi)]"
  have len: "length p = 2" by (simp add: uint16_pack_big_def p_def)
  have L: "length (response r) = 65535" "response_len r \<le> 65535" using assms(1) by (simp_all add: resp_wf_def)
  have l0: "length b0 = 65535" using L len assms by (simp add: b0_def)
  have nth0: "b0 ! i = (if dpos r - 2 \<le> i \<and> i < dpos r then p ! (i - (dpos r - 2)) else response r ! i)"
    if "i < 65535" for i
    using that L len assms unfolding b0_def by (subst nth_mem_write) auto
  have old: "b0 ! (x + 1) = lo" "b0 ! x = hi"
    using L assms by (simp_all add: nth0 lo_def hi_def)
  have cp: "byte_copy_at (response r) (dpos r - 2) 2 p = Some b0"
    using byte_copy_at_eq [of 2 p "dpos r - 2" "response r"] L len assms by (simp add: b0_def)
  have upd: "b0[x + 1 := lo + 1, x := hi] = b0[x + 1 := lo + 1]"
    using old(2) list_update_id [of "b0[x + 1 := lo + 1]" x] by simp
  have x: "x + 1 < 65535" using L assms by linarith
  have ld: "ld b0 (x + 1) = Some lo" "ld (b0[x + 1 := lo + 1]) x = Some hi"
    using x l0 old by simp_all
  have fin: "response_rfinish r x = Some (r\<lparr>response := b2\<rparr>)"
    unfolding response_rfinish_def p_def [symmetric] cp
    using ld upd x l0 by (cases "lo + 1 = 0") (simp_all add: b2_def)
  let ?r = "r\<lparr>response := b2\<rparr>"
  have l2: "length b2 = 65535" using l0 by (simp add: b2_def)
  have nth2: "b2 ! x = (if lo + 1 = 0 then hi + 1 else hi)" "b2 ! (x + 1) = lo + 1"
      "\<And>i. i \<noteq> x \<Longrightarrow> i \<noteq> x + 1 \<Longrightarrow> b2 ! i = b0 ! i"
    using x l0 by (simp_all add: b2_def)
  have nth: "packet ?r ! i = b2 ! i" "packet r ! i = response r ! i" if "i < response_len r" for i
    using that by (simp_all add: packet_def)
  have wf: "resp_wf ?r" using L l2 by (simp add: resp_wf_def)
  have rd: "mem_read (packet ?r) i 2 = [b2 ! i, b2 ! (i + 1)]" if "i + 2 \<le> response_len r" for i
    using that wf nth(1) [of i] nth(1) [of "i + 1"] by (simp add: mem_read_2)
  show thesis
  proof (rule that [OF fin wf])
    have d: "dpos r - 2 + 2 \<le> response_len r" "dpos r - 2 + 1 < 65535" "dpos r - 2 + 1 < dpos r"
        "dpos r - 2 < 65535" "dpos r - 2 < dpos r"
      using assms(2,3) L by linarith+
    have "b0 ! (dpos r - 2) = p ! 0" "b0 ! (dpos r - 2 + 1) = p ! 1"
      using nth0 [OF d(4)] nth0 [OF d(2)] d(3,5) by (simp_all only: le_add1 order_refl simp_thms if_True diff_add_inverse diff_self_eq_0)
    moreover have "b2 ! (dpos r - 2) = b0 ! (dpos r - 2)" "b2 ! (dpos r - 2 + 1) = b0 ! (dpos r - 2 + 1)"
      using assms(4) by (simp_all add: nth2(3))
    ultimately show "mem_read (packet ?r) (dpos r - 2) 2 = uint16_pack_big (of_nat (response_len r - dpos r))"
      unfolding rd [OF d(1)] p_def [symmetric] using len by (auto simp: numeral_2_eq_2 length_Suc_conv)
    have xr: "x + 2 \<le> response_len r" using assms(2-4) by linarith
    then have "packet r ! x = hi" "packet r ! (x + 1) = lo" using nth(2) by (simp_all add: hi_def lo_def)
    then show "mem_read (packet ?r) x 2 = (let lo = packet r ! (x + 1); hi = packet r ! x in [if lo + 1 = 0 then hi + 1 else hi, lo + 1])"
      unfolding rd [OF xr] nth2 by (simp add: Let_def)
    show "\<forall>i < response_len r. i \<notin> {x, x + 1, dpos r - 2, dpos r - 1} \<longrightarrow> packet ?r ! i = packet r ! i"
    proof (intro allI impI)
      fix i assume i: "i < response_len r" "i \<notin> {x, x + 1, dpos r - 2, dpos r - 1}"
      then have "\<not> (dpos r - 2 \<le> i \<and> i < dpos r)" "i < 65535" using L assms(2) by auto
      then have "b0 ! i = response r ! i" using nth0 [of i] by (simp only: if_False)
      moreover have "b2 ! i = b0 ! i" using i(2) by (intro nth2(3)) simp_all
      ultimately show "packet ?r ! i = packet r ! i" using nth [OF i(1)] by (simp only:)
    qed
  qed simp_all
qed

text \<open>
  A name of the packet behind an update: it stands at \<open>p\<close>, ends before \<open>e\<close>, is \<open>ls\<close> up to
  case, and is read from the positions \<open>F\<close> only.
\<close>

definition has_name :: "nat set \<Rightarrow> bytes \<Rightarrow> nat \<Rightarrow> bytes list \<Rightarrow> nat \<Rightarrow> bool" where
  "has_name F buf p ls e \<longleftrightarrow>
     (\<exists>ls' k. name_in F buf p ls' k e \<and> lower ls' = lower ls \<and> k \<le> length (dn_of ls) + length ls + 1)"

lemma has_name_mono:
  "has_name F buf p ls e \<Longrightarrow> F \<subseteq> F' \<Longrightarrow> length buf \<le> length buf' \<Longrightarrow>
   \<forall>i \<in> F. i < length buf \<longrightarrow> buf' ! i = buf ! i \<Longrightarrow> has_name F' buf' p ls e"
  unfolding has_name_def using name_in_mono by blast

lemma has_name_append: "has_name F buf p ls e \<Longrightarrow> F \<subseteq> F' \<Longrightarrow> has_name F' (buf @ x) p ls e"
  by (erule has_name_mono) (simp_all add: nth_append)

lemma has_name_getname:
  "has_name F buf p ls e \<Longrightarrow> wf_name ls \<Longrightarrow>
   \<exists>ls'. lower ls' = lower ls \<and> dns_packet_getname (\<lambda>_. True) buf p None = Some (e, Some (dn_of ls'))"
  unfolding has_name_def using name_in_getname by blast

lemma name_added_has_name:
  "name_added F r ls r' \<Longrightarrow> has_name (F \<union> {response_len r ..< response_len r'}) (packet r') (response_len r) ls (response_len r')"
  by (auto simp: name_added_def has_name_def Let_def)

lemma response_addname_fits:
  assumes "resp_inv F r" "wf_name ls" "12 \<le> response_len r" "response_len r + length (dn_of ls) \<le> 65535"
  obtains r' where "response_addname r (dn_of ls @ q) = Some (True, r')"
    "resp_inv (F \<union> {response_len r ..< response_len r'}) r'"
    "has_name (F \<union> {response_len r ..< response_len r'}) (packet r') (response_len r) ls (response_len r')"
    "\<exists>x. packet r' = packet r @ x" "response_len r < response_len r'"
    "response_len r' \<le> response_len r + length (dn_of ls)"
    "tctarget r' = tctarget r" "dpos r' = dpos r" "flaghidettl r' = flaghidettl r"
proof -
  obtain r' where R: "response_addname r (dn_of ls @ q) = Some (True, r')" "resp_wf r'" "name_added F r ls r'"
      "resp_inv (F \<union> {response_len r ..< response_len r'}) r'"
    using response_addname_ok [OF assms(1-3), of q] assms(4) by (metis (full_types))
  have wf: "resp_wf r" using assms(1) by (simp add: resp_inv_def)
  note len = name_added_len [OF R(3) wf R(2)]
  show thesis
    using R(3) by (intro that [OF R(1,4) name_added_has_name [OF R(3)] _ len(1,2)]) (auto simp: name_added_def Let_def)
qed

lemma response_query_ok:
  assumes "resp_wf r" "wf_name q" "length qtype = 2" "length qclass = 2"
  obtains r' p where "response_query r (dn_of q @ z) qtype qclass = Some (True, r')"
    "resp_inv {12 ..< p} r'" "has_name {12 ..< p} (packet r') 12 q p" "12 < p" "p \<le> 267"
    "\<exists>nm. length nm = p - 12 \<and> packet r' = query_header @ nm @ qtype @ qclass"
    "flaghidettl r' = flaghidettl r" "tctarget r' = response_len r'"
proof -
  let ?r0 = "r\<lparr>response_len := 0, names := []\<rparr>"
  have h: "length query_header = 12" by (simp add: query_header_def)
  have i0: "resp_inv {} ?r0" using assms(1) by (simp add: resp_inv_def resp_wf_def)
  let ?r1 = "appended ?r0 query_header"
  have r1: "response_addbytes ?r0 query_header 12 = Some (True, ?r1)" "resp_inv {} ?r1" "packet ?r1 = query_header"
    using response_addbytes_all [OF i0, of 12 query_header] h by (simp_all add: packet_def)
  have q255: "length (dn_of q) \<le> 255" using assms(2) by (simp add: wf_name_def)
  obtain r2 where r2: "response_addname ?r1 (dn_of q @ z) = Some (True, r2)"
      "resp_inv ({} \<union> {12 ..< response_len r2}) r2"
      "has_name ({} \<union> {12 ..< response_len r2}) (packet r2) 12 q (response_len r2)"
      "\<exists>x. packet r2 = packet ?r1 @ x" "12 < response_len r2" "response_len r2 \<le> 12 + length (dn_of q)"
      "flaghidettl r2 = flaghidettl r"
    using response_addname_fits [OF r1(2) assms(2), of z] h q255 by auto
  let ?p = "response_len r2"
  have i2: "resp_inv {12 ..< ?p} r2" "has_name {12 ..< ?p} (packet r2) 12 q ?p" using r2(2,3) by simp_all
  obtain nm where nm: "packet r2 = query_header @ nm" using r2(4) r1(3) by auto
  have nml: "length nm = ?p - 12"
    using arg_cong [OF nm, of length] i2(1) h by (simp add: resp_inv_def)
  let ?r3 = "appended r2 qtype" let ?r4 = "appended ?r3 qclass"
  have r3: "response_addbytes r2 qtype 2 = Some (True, ?r3)" "resp_inv {12 ..< ?p} ?r3" "packet ?r3 = packet r2 @ qtype"
    using response_addbytes_all [OF i2(1), of 2 qtype] assms(3) r2(6) q255 by simp_all
  have r4: "response_addbytes ?r3 qclass 2 = Some (True, ?r4)" "resp_inv {12 ..< ?p} ?r4" "packet ?r4 = packet ?r3 @ qclass"
    using response_addbytes_all [OF r3(2), of 2 qclass] assms(3,4) r2(6) q255 by simp_all
  let ?r' = "?r4\<lparr>tctarget := response_len ?r4\<rparr>"
  have pk: "packet ?r' = query_header @ nm @ qtype @ qclass" using r3(3) r4(3) nm by (simp add: packet_def)
  have "resp_inv {12 ..< ?p} ?r'" using r4(2) by (simp add: resp_inv_def resp_wf_def packet_def)
  moreover have "has_name {12 ..< ?p} (packet ?r') 12 q ?p"
    using has_name_append [OF i2(2) order_refl, of "qtype @ qclass"] pk nm by simp
  moreover have "response_query r (dn_of q @ z) qtype qclass = Some (True, ?r')"
    unfolding response_query_def by (simp only: and_then_ok [OF r1(1)] and_then_ok [OF r2(1)] and_then_ok [OF r3(1)] and_then_ok [OF r4(1)])
  ultimately show thesis
    using r2(5-7) q255 nml pk by (intro that [of ?r' ?p]) auto
qed

lemma response_rstart_ok:
  assumes "resp_inv F r" "wf_name d" "12 \<le> response_len r" "response_len r + length (dn_of d) + 10 \<le> 65535" "length type = 2"
  obtains r' p where "response_rstart r (dn_of d @ z) type ttl = Some (True, r')"
    "resp_inv (F \<union> {response_len r ..< p}) r'" "has_name (F \<union> {response_len r ..< p}) (packet r') (response_len r) d p"
    "response_len r < p" "p \<le> response_len r + length (dn_of d)" "dpos r' = p + 10" "response_len r' = p + 10"
    "\<exists>nm. length nm = p - response_len r \<and>
      packet r' = packet r @ nm @ type @ [0, 1] @ uint32_pack_big (if flaghidettl r then 0 else ttl) @ [0, 0]"
    "tctarget r' = tctarget r"
proof -
  obtain r1 where r1: "response_addname r (dn_of d @ z) = Some (True, r1)"
      "resp_inv (F \<union> {response_len r ..< response_len r1}) r1"
      "has_name (F \<union> {response_len r ..< response_len r1}) (packet r1) (response_len r) d (response_len r1)"
      "\<exists>x. packet r1 = packet r @ x" "response_len r < response_len r1" "response_len r1 \<le> response_len r + length (dn_of d)"
      "tctarget r1 = tctarget r" "flaghidettl r1 = flaghidettl r"
    using response_addname_fits [OF assms(1,2,3), of z] assms(4) by auto
  let ?p = "response_len r1" let ?F = "F \<union> {response_len r ..< ?p}"
  let ?t = "uint32_pack_big (if flaghidettl r then 0 else ttl)"
  obtain nm where nm: "packet r1 = packet r @ nm" using r1(4) by auto
  have nml: "length nm = ?p - response_len r"
    using arg_cong [OF nm, of length] r1(2) assms(1) by (simp add: resp_inv_def)
  have fit: "?p + 10 \<le> 65535" using r1(6) assms(4) by linarith
  let ?r2 = "appended r1 type" let ?r3 = "appended ?r2 [0, 1]" let ?r4 = "appended ?r3 ?t" let ?r5 = "appended ?r4 [0, 0]"
  have t4: "length ?t = 4" by (simp add: length_packs)
  have r2: "response_addbytes r1 type 2 = Some (True, ?r2)" "resp_inv ?F ?r2" "packet ?r2 = packet r1 @ type"
    using response_addbytes_all [OF r1(2), of 2 type] assms(5) fit by simp_all
  have r3: "response_addbytes ?r2 [0, 1] 2 = Some (True, ?r3)" "resp_inv ?F ?r3" "packet ?r3 = packet ?r2 @ [0, 1]"
    using response_addbytes_all [OF r2(2), of 2 "[0, 1]"] assms(5) fit by simp_all
  have r4: "response_addbytes ?r3 (uint32_pack_big (if flaghidettl ?r3 then 0 else ttl)) 4 = Some (True, ?r4)" "resp_inv ?F ?r4" "packet ?r4 = packet ?r3 @ ?t"
    using response_addbytes_all [OF r3(2), of 4 ?t] assms(5) fit t4 r1(8) by simp_all
  have r5: "response_addbytes ?r4 [0, 0] 2 = Some (True, ?r5)" "resp_inv ?F ?r5" "packet ?r5 = packet ?r4 @ [0, 0]"
    using response_addbytes_all [OF r4(2), of 2 "[0, 0]"] assms(5) fit t4 by simp_all
  let ?r' = "?r5\<lparr>dpos := response_len ?r5\<rparr>"
  have len: "response_len ?r5 = ?p + 10" using assms(5) t4 by simp
  have pk: "packet ?r' = packet r @ nm @ type @ [0, 1] @ ?t @ [0, 0]"
    using r2(3) r3(3) r4(3) r5(3) nm by (simp add: packet_def)
  have "response_rstart r (dn_of d @ z) type ttl = Some (True, ?r')"
    unfolding response_rstart_def
    by (simp only: and_then_ok [OF r1(1)] and_then_ok [OF r2(1)] and_then_ok [OF r3(1)] and_then_ok [OF r4(1)] and_then_ok [OF r5(1)])
  moreover have "resp_inv ?F ?r'" using r5(2) by (simp add: resp_inv_def resp_wf_def packet_def)
  moreover have "has_name ?F (packet ?r') (response_len r) d ?p"
    using has_name_append [OF r1(3) order_refl, of "type @ [0, 1] @ ?t @ [0, 0]"] pk nm by simp
  ultimately show thesis
    using r1(5-7) len nml pk by (intro that [of ?r' ?p]) auto
qed

text \<open>The effect of \<open>rfinish\<close> on a packet whose names avoid the fields it writes.\<close>

lemma has_name_rfinish:
  assumes "has_name F (packet r) p ls e" "F \<subseteq> {12 ..< response_len r}" "dpos r - 2 \<notin> F" "dpos r - 1 \<notin> F" "x + 1 < 12"
    "\<forall>i < response_len r. i \<notin> {x, x + 1, dpos r - 2, dpos r - 1} \<longrightarrow> packet r' ! i = packet r ! i"
    "resp_wf r" "resp_wf r'" "response_len r' = response_len r"
  shows "has_name F (packet r') p ls e"
proof (rule has_name_mono [OF assms(1) order_refl])
  show "length (packet r) \<le> length (packet r')" using assms(7-9) by simp
  show "\<forall>i \<in> F. i < length (packet r) \<longrightarrow> packet r' ! i = packet r ! i"
  proof (intro ballI impI)
    fix i assume "i \<in> F"
    then have "i < response_len r" "i \<notin> {x, x + 1, dpos r - 2, dpos r - 1}"
      using assms(2-5) by auto
    then show "packet r' ! i = packet r ! i" using assms(6) by blast
  qed
qed

lemma response_cname_ok:
  assumes "resp_inv F r" "wf_name c" "wf_name d" "12 \<le> response_len r" "response_len r \<le> 1000"
  obtains r' p where "response_cname r (dn_of c @ y) (dn_of d @ z) ttl = Some (True, r')" "resp_wf r'"
    "has_name (F \<union> {response_len r ..< p}) (packet r') (response_len r) c p"
    "has_name (F \<union> {response_len r ..< p} \<union> {p + 10 ..< response_len r'}) (packet r') (p + 10) d (response_len r')"
    "mem_read (packet r') p 8 = [0, 5, 0, 1] @ uint32_pack_big (if flaghidettl r then 0 else ttl)"
    "mem_read (packet r') (p + 8) 2 = uint16_pack_big (of_nat (response_len r' - (p + 10)))"
    "mem_read (packet r') 6 2 = (let lo = packet r ! 7; hi = packet r ! 6 in [if lo + 1 = 0 then hi + 1 else hi, lo + 1])"
    "\<forall>i < response_len r. i \<notin> {6, 7} \<longrightarrow> packet r' ! i = packet r ! i" "response_len r < p" "p + 10 < response_len r'"
proof -
  have l: "length (dn_of c) \<le> 255" "length (dn_of d) \<le> 255" using assms(2,3) by (simp_all add: wf_name_def)
  let ?t = "uint32_pack_big (if flaghidettl r then 0 else ttl)"
  let ?n = "response_len r"
  have ty: "length [0, 5 :: byte] = 2" by simp
  have fit1: "?n + length (dn_of c) + 10 \<le> 65535" using l assms(5) by simp
  obtain r1 p where r1: "response_rstart r (dn_of c @ y) [0, 5] ttl = Some (True, r1)"
      "resp_inv (F \<union> {?n ..< p}) r1" "has_name (F \<union> {?n ..< p}) (packet r1) ?n c p"
      "?n < p" "p \<le> ?n + length (dn_of c)" "dpos r1 = p + 10" "response_len r1 = p + 10"
    and r1p: "\<exists>nm. length nm = p - ?n \<and> packet r1 = packet r @ nm @ [0, 5] @ [0, 1] @ ?t @ [0, 0]"
    by (rule response_rstart_ok [OF assms(1,2,4) fit1 ty])
  let ?F1 = "F \<union> {?n ..< p}"
  have fit: "12 \<le> response_len r1" "response_len r1 + length (dn_of d) \<le> 65535"
    using r1(4,5,7) assms(4,5) l by simp_all
  obtain r2 where r2: "response_addname r1 (dn_of d @ z) = Some (True, r2)"
      "resp_inv (?F1 \<union> {p + 10 ..< response_len r2}) r2"
      "has_name (?F1 \<union> {p + 10 ..< response_len r2}) (packet r2) (p + 10) d (response_len r2)"
      "\<exists>x. packet r2 = packet r1 @ x" "p + 10 < response_len r2" "dpos r2 = p + 10"
    using response_addname_fits [OF r1(2) assms(3) fit, of z] r1(6,7) by auto
  let ?F2 = "?F1 \<union> {p + 10 ..< response_len r2}"
  have wf: "resp_wf r" "resp_wf r1" "resp_wf r2" "F \<subseteq> {12 ..< ?n}" "?F2 \<subseteq> {12 ..< response_len r2}"
    using assms(1) r1(2) r2(2) by (auto simp: resp_inv_def)
  obtain x where x: "packet r2 = packet r1 @ x" using r2(4) by auto
  have c2: "has_name ?F1 (packet r2) ?n c p" using has_name_append [OF r1(3) order_refl, of x] x by simp
  have notF: "p + 8 \<notin> ?F2" "p + 9 \<notin> ?F2" "p + 8 \<notin> ?F1" "p + 9 \<notin> ?F1" using wf(4) r1(4) by auto
  obtain r3 where r3: "response_rfinish r2 6 = Some r3" "resp_wf r3" "response_len r3 = response_len r2"
      "mem_read (packet r3) (p + 8) 2 = uint16_pack_big (of_nat (response_len r2 - (p + 10)))"
      "mem_read (packet r3) 6 2 = (let lo = packet r2 ! 7; hi = packet r2 ! 6 in [if lo + 1 = 0 then hi + 1 else hi, lo + 1])"
      "\<forall>i < response_len r2. i \<notin> {6, 7, p + 8, p + 9} \<longrightarrow> packet r3 ! i = packet r2 ! i"
  proof -
    have "2 \<le> dpos r2" "dpos r2 \<le> response_len r2" "6 + 1 < dpos r2 - 2" using r1(4) r2(5,6) assms(4) by simp_all
    then obtain r3 where r3: "response_rfinish r2 6 = Some r3" "resp_wf r3" "response_len r3 = response_len r2"
      "mem_read (packet r3) (dpos r2 - 2) 2 = uint16_pack_big (of_nat (response_len r2 - dpos r2))"
      "mem_read (packet r3) 6 2 = (let lo = packet r2 ! (6 + 1); hi = packet r2 ! 6 in [if lo + 1 = 0 then hi + 1 else hi, lo + 1])"
      "\<forall>i < response_len r2. i \<notin> {6, 6 + 1, dpos r2 - 2, dpos r2 - 1} \<longrightarrow> packet r3 ! i = packet r2 ! i"
      by (rule response_rfinish_eq [OF wf(3)])
    have e: "p + 10 - 2 = p + 8" "p + 10 - 1 = p + 9" "(6::nat) + 1 = 7" by simp_all
    show thesis using r3 unfolding r2(6) e by (rule that)
  qed
  have e: "dpos r2 - 2 = p + 8" "dpos r2 - 1 = p + 9" using r2(6) by simp_all
  have keep: "has_name G (packet r3) a ls b" if "has_name G (packet r2) a ls b" "G \<subseteq> ?F2" for G a ls b
  proof (rule has_name_rfinish [OF that(1), where x = 6])
    show "\<forall>i < response_len r2. i \<notin> {6, 6 + 1, dpos r2 - 2, dpos r2 - 1} \<longrightarrow> packet r3 ! i = packet r2 ! i"
      using r3(6) unfolding e by simp
    show "G \<subseteq> {12 ..< response_len r2}" using that(2) wf(5) by (rule order_trans)
    show "dpos r2 - 2 \<notin> G" "dpos r2 - 1 \<notin> G" using that(2) notF(1,2) unfolding e by blast+
  qed (use wf(3) r3(2,3) in simp_all)
  have c3: "has_name ?F1 (packet r3) ?n c p" by (rule keep [OF c2]) blast
  have d3: "has_name ?F2 (packet r3) (p + 10) d (response_len r2)" by (rule keep [OF r2(3)]) blast
  have cname: "response_cname r (dn_of c @ y) (dn_of d @ z) ttl = Some (True, r3)"
    unfolding response_cname_def and_then_ok [OF r1(1)] and_then_ok [OF r2(1)] RESPONSE_ANSWER_def by (simp add: r3(1))
  obtain nm where nm: "length nm = p - ?n" "packet r2 = (packet r @ nm) @ ([0, 5, 0, 1] @ ?t) @ [0, 0] @ x"
    using r1p x by auto
  have t4: "length ([0, 5, 0, 1] @ ?t) = 8" by (simp add: length_packs)
  have lp: "length (packet r @ nm) = p" using nm(1) wf(1) r1(4) by simp
  have "mem_read (packet r3) p 8 = mem_read (packet r2) p 8"
    using r2(5) r3(2,3,6) wf(3) r1(4) assms(4) by (intro nth_equalityI) simp_all
  also have "\<dots> = [0, 5, 0, 1] @ ?t" unfolding nm(2) mem_read_def using lp t4 by simp
  finally have f8: "mem_read (packet r3) p 8 = [0, 5, 0, 1] @ ?t" .
  have old: "packet r2 ! i = packet r ! i" if "i < ?n" for i
    using that wf(1) unfolding nm(2) by (simp add: nth_append)
  have prefix: "\<forall>i < ?n. i \<notin> {6, 7} \<longrightarrow> packet r3 ! i = packet r ! i"
    using r3(6) old r1(4) r2(5) by simp
  have f6: "mem_read (packet r3) 6 2 = (let lo = packet r ! 7; hi = packet r ! 6 in [if lo + 1 = 0 then hi + 1 else hi, lo + 1])"
    using r3(5) old [of 6] old [of 7] assms(4) by simp
  show thesis
    by (rule that [OF cname r3(2) c3 _ f8 _ f6 prefix r1(4)]) (use d3 r3(3,4) r2(5) in simp_all)
qed

text \<open>C13: The whole response to a query that ends at an alias.  \<open>response_query\<close> and
  \<open>response_cname\<close> always succeed on well-formed names, from any earlier state, and produce a
  packet in which the question name, the owner name and the target are read back (up to case)
  at their places, with the type, class, TTL and record length fields between them and with
  one question and one answer counted in the header.\<close>

theorem response_query_cname:
  assumes "resp_wf r" "wf_name q" "wf_name c" "wf_name d" "length qtype = 2" "length qclass = 2"
  shows "\<exists>r1 r2 p1 p2. response_query r (dn_of q) qtype qclass = Some (True, r1) \<and>
     response_cname r1 (dn_of c) (dn_of d) ttl = Some (True, r2) \<and>
     take 12 (packet r2) = [0, 0, 129, 128, 0, 1, 0, 1, 0, 0, 0, 0] \<and>
     (\<exists>q'. lower q' = lower q \<and> dns_packet_getname (\<lambda>_. True) (packet r2) 12 None = Some (p1, Some (dn_of q'))) \<and>
     mem_read (packet r2) p1 4 = qtype @ qclass \<and>
     (\<exists>c'. lower c' = lower c \<and> dns_packet_getname (\<lambda>_. True) (packet r2) (p1 + 4) None = Some (p2, Some (dn_of c'))) \<and>
     mem_read (packet r2) p2 8 = [0, 5, 0, 1] @ uint32_pack_big (if flaghidettl r then 0 else ttl) \<and>
     mem_read (packet r2) (p2 + 8) 2 = uint16_pack_big (of_nat (length (packet r2) - (p2 + 10))) \<and>
     (\<exists>d'. lower d' = lower d \<and>
        dns_packet_getname (\<lambda>_. True) (packet r2) (p2 + 10) None = Some (length (packet r2), Some (dn_of d')))"
proof -
  obtain r1 p1 where Q: "response_query r (dn_of q @ []) qtype qclass = Some (True, r1)"
      "resp_inv {12 ..< p1} r1" "has_name {12 ..< p1} (packet r1) 12 q p1" "12 < p1" "p1 \<le> 267"
      "\<exists>nm. length nm = p1 - 12 \<and> packet r1 = query_header @ nm @ qtype @ qclass" "flaghidettl r1 = flaghidettl r"
    by (rule response_query_ok [OF assms(1,2,5,6)])
  obtain nm where nm: "length nm = p1 - 12" "packet r1 = query_header @ nm @ qtype @ qclass" using Q(6) by blast
  have wf1: "resp_wf r1" using Q(2) by (simp add: resp_inv_def)
  have n1: "response_len r1 = p1 + 4"
    using arg_cong [OF nm(2), of length] wf1 nm(1) assms(5,6) Q(4) by (simp add: query_header_def)
  have n1': "12 \<le> response_len r1" "response_len r1 \<le> 1000" using Q(4,5) n1 by simp_all
  obtain r2 p2 where C: "response_cname r1 (dn_of c @ []) (dn_of d @ []) ttl = Some (True, r2)" "resp_wf r2"
      "has_name ({12 ..< p1} \<union> {response_len r1 ..< p2}) (packet r2) (response_len r1) c p2"
      "has_name ({12 ..< p1} \<union> {response_len r1 ..< p2} \<union> {p2 + 10 ..< response_len r2}) (packet r2) (p2 + 10) d (response_len r2)"
      "mem_read (packet r2) p2 8 = [0, 5, 0, 1] @ uint32_pack_big (if flaghidettl r1 then 0 else ttl)"
      "mem_read (packet r2) (p2 + 8) 2 = uint16_pack_big (of_nat (response_len r2 - (p2 + 10)))"
      "mem_read (packet r2) 6 2 = (let lo = packet r1 ! 7; hi = packet r1 ! 6 in [if lo + 1 = 0 then hi + 1 else hi, lo + 1])"
      "\<forall>i < response_len r1. i \<notin> {6, 7} \<longrightarrow> packet r2 ! i = packet r1 ! i" "response_len r1 < p2" "p2 + 10 < response_len r2"
    by (rule response_cname_ok [OF Q(2) assms(3,4) n1'])
  have len: "response_len r1 \<le> response_len r2" using C(9,10) by linarith
  have q2: "has_name {12 ..< p1} (packet r2) 12 q p1"
    by (rule has_name_mono [OF Q(3) order_refl]) (use wf1 C(2,8) len in simp_all)
  have "mem_read (packet r2) p1 4 = mem_read (packet r1) p1 4"
    using C(2,8) wf1 n1 len Q(4) by (intro nth_equalityI) simp_all
  also have "\<dots> = qtype @ qclass"
  proof -
    have "length (query_header @ nm) = p1" using nm(1) Q(4) by (simp add: query_header_def)
    moreover have "packet r1 = (query_header @ nm) @ qtype @ qclass" using nm(2) by simp
    ultimately have "drop p1 (packet r1) = qtype @ qclass" by (metis append_eq_conv_conj)
    then show ?thesis using assms(5,6) by (simp add: mem_read_def)
  qed
  finally have f4: "mem_read (packet r2) p1 4 = qtype @ qclass" .
  have h: "packet r1 ! i = query_header ! i" if "i < 12" for i
  proof -
    have "length query_header = 12" by (simp add: query_header_def)
    with that show ?thesis unfolding nm(2) by (simp add: nth_append)
  qed
  have six: "packet r2 ! 6 = 0" "packet r2 ! 7 = 1"
    using C(7) mem_read_2 [of 6 "packet r2"] h [of 6] h [of 7] C(2,9,10) n1 by (simp_all add: query_header_def)
  have "take 12 (packet r2) = [0, 0, 129, 128, 0, 1, 0, 1, 0, 0, 0, 0]"
  proof (rule nth_equalityI)
    show l: "length (take 12 (packet r2)) = length [0 :: byte, 0, 129, 128, 0, 1, 0, 1, 0, 0, 0, 0]"
      using C(2) len n1'(1) by simp
    fix i assume "i < length (take 12 (packet r2))"
    then have i: "i < 12" by simp
    then have "i \<notin> {6, 7} \<Longrightarrow> packet r2 ! i = query_header ! i" using C(8) h n1'(1) by simp
    moreover have "i \<in> set [0..<12]" using i by simp
    ultimately show "take 12 (packet r2) ! i = [0, 0, 129, 128, 0, 1, 0, 1, 0, 0, 0, 0] ! i"
      using six by (auto simp: upt_rec query_header_def numeral_eq_Suc)
  qed
  moreover note has_name_getname [OF q2 assms(2)] has_name_getname [OF C(3) assms(3)] has_name_getname [OF C(4) assms(4)]
  ultimately show ?thesis
    using Q(1) C(1,5,6) f4 unfolding n1 Q(7) append_Nil2 length_packet [OF C(2), symmetric] by blast
qed

lemma resp_start_wf: "resp_wf resp_start"
  using resp_start_inv by (simp add: resp_inv_def)

theorem response_query_cname_witness:
  "\<exists>r1 r2 p1 p2. response_query resp_start (dn_of [[97]]) [0, 1] [0, 1] = Some (True, r1) \<and>
     response_cname r1 (dn_of [[97]]) (dn_of [[98], [97]]) 60 = Some (True, r2) \<and>
     take 12 (packet r2) = [0, 0, 129, 128, 0, 1, 0, 1, 0, 0, 0, 0] \<and>
     (\<exists>q'. lower q' = lower [[97]] \<and> dns_packet_getname (\<lambda>_. True) (packet r2) 12 None = Some (p1, Some (dn_of q'))) \<and>
     mem_read (packet r2) p1 4 = [0, 1] @ [0, 1] \<and>
     (\<exists>c'. lower c' = lower [[97]] \<and> dns_packet_getname (\<lambda>_. True) (packet r2) (p1 + 4) None = Some (p2, Some (dn_of c'))) \<and>
     mem_read (packet r2) p2 8 = [0, 5, 0, 1] @ uint32_pack_big (if flaghidettl resp_start then 0 else 60) \<and>
     mem_read (packet r2) (p2 + 8) 2 = uint16_pack_big (of_nat (length (packet r2) - (p2 + 10))) \<and>
     (\<exists>d'. lower d' = lower [[98], [97]] \<and>
        dns_packet_getname (\<lambda>_. True) (packet r2) (p2 + 10) None = Some (length (packet r2), Some (dn_of d')))"
  by (rule response_query_cname [OF resp_start_wf]) (simp_all add: wf_name_def is_label_def)

end
