(* ===== verification/Base32.thy ===== *)
theory Base32
  imports NumText
begin

section \<open>Base-32 names and keys\<close>

text \<open>
  Models of \<open>dq/dns_base32.c\<close> (the DNSCurve alphabet, little-endian bit order), of
  \<open>dq/base32decode.c\<close> and of \<open>dq/keyparse.c\<close>.  The bit accumulator \<open>v\<close> never holds
  more than 13 bits, so its \<open>unsigned long long\<close> is a \<open>nat\<close>; the shifts and masks are
  those of the source.
\<close>

definition base32_digits :: bytes where
  "base32_digits =
    [48, 49, 50, 51, 52, 53, 54, 55, 56, 57, 98, 99, 100, 102, 103, 104, 106, 107, 108, 109, 110, 112, 113, 114, 115, 116, 117, 118, 119, 120, 121, 122]"

text \<open>The tables \<open>val[128]\<close> of \<open>dns_base32.c\<close> and \<open>base32values[128]\<close> of
  \<open>base32decode.c\<close> have the same entries.\<close>

definition base32values :: bytes where
  "base32values =
    [255, 255, 255, 255, 255, 255, 255, 255, 255, 255, 255, 255, 255, 255, 255, 255,
     255, 255, 255, 255, 255, 255, 255, 255, 255, 255, 255, 255, 255, 255, 255, 255,
     255, 255, 255, 255, 255, 255, 255, 255, 255, 255, 255, 255, 255, 255, 255, 255,
     0, 1, 2, 3, 4, 5, 6, 7, 8, 9, 255, 255, 255, 255, 255, 255,
     255, 255, 10, 11, 12, 255, 13, 14, 15, 255, 16, 17, 18, 19, 20, 255,
     21, 22, 23, 24, 25, 26, 27, 28, 29, 30, 31, 255, 255, 255, 255, 255,
     255, 255, 10, 11, 12, 255, 13, 14, 15, 255, 16, 17, 18, 19, 20, 255,
     21, 22, 23, 24, 25, 26, 27, 28, 29, 30, 31, 255, 255, 255, 255, 255]"

subsection \<open>Encoding\<close>

definition dns_base32_bytessize :: "int \<Rightarrow> int" where
  "dns_base32_bytessize len0 =
     (if len0 < 0 then 0 else let len = (8 * len0 + 4) div 5 in len + (len + 49) div 50)"

text \<open>
  The inner \<open>do .. while (vbits >= 5)\<close> of \<open>dns_base32_encodebytes\<close>.  \<open>don\<close> is what lies
  before the pointer \<open>out\<close>, \<open>cur\<close> the characters \<open>out[1..x]\<close> of the label being
  built; when it has 50 characters its length byte is stored and \<open>out\<close> moves past it.
\<close>

fun b32_emit :: "nat \<Rightarrow> nat \<Rightarrow> bytes \<Rightarrow> bytes \<Rightarrow> nat \<times> nat \<times> bytes \<times> bytes" where
  "b32_emit v vbits don cur =
     (let cur1 = cur @ [base32_digits ! (v AND 31)];
          v1 = drop_bit 5 v;
          vbits1 = vbits - 5;
          (don2, cur2) = (if length cur1 = 50 then (don @ 50 # cur1, []) else (don, cur1))
      in if vbits1 \<ge> 5 then b32_emit v1 vbits1 don2 cur2 else (v1, vbits1, don2, cur2))"

declare b32_emit.simps [simp del]

fun b32_encode_loop :: "nat \<Rightarrow> nat \<Rightarrow> bytes \<Rightarrow> bytes \<Rightarrow> bytes \<Rightarrow> nat \<times> nat \<times> bytes \<times> bytes" where
  "b32_encode_loop v vbits don cur [] = (v, vbits, don, cur)"
| "b32_encode_loop v vbits don cur (b # inp) =
     (let (v1, vbits1, don1, cur1) = b32_emit (v OR push_bit vbits (unat b)) (vbits + 8) don cur
      in b32_encode_loop v1 vbits1 don1 cur1 inp)"

definition dns_base32_encodebytes :: "bytes \<Rightarrow> bytes" where
  "dns_base32_encodebytes inp =
     (let (v, vbits, don, cur) = b32_encode_loop 0 0 [] [] inp;
          cur1 = (if vbits \<noteq> 0 then cur @ [base32_digits ! (v AND 31)] else cur)
      in if length cur1 \<noteq> 0 then don @ of_nat (length cur1) # cur1 else don)"

text \<open>\<open>dns_base32_encodekey\<close>: one label, no flush of the last bit.\<close>

fun b32_emitkey :: "nat \<Rightarrow> nat \<Rightarrow> bytes \<Rightarrow> nat \<times> nat \<times> bytes" where
  "b32_emitkey v vbits out =
     (let out1 = out @ [base32_digits ! (v AND 31)]; v1 = drop_bit 5 v; vbits1 = vbits - 5
      in if vbits1 \<ge> 5 then b32_emitkey v1 vbits1 out1 else (v1, vbits1, out1))"

declare b32_emitkey.simps [simp del]

fun b32_encodekey_loop :: "nat \<Rightarrow> nat \<Rightarrow> bytes \<Rightarrow> bytes \<Rightarrow> nat \<times> nat \<times> bytes" where
  "b32_encodekey_loop v vbits out [] = (v, vbits, out)"
| "b32_encodekey_loop v vbits out (b # key) =
     (let (v1, vbits1, out1) = b32_emitkey (v OR push_bit vbits (unat b)) (vbits + 8) out
      in b32_encodekey_loop v1 vbits1 out1 key)"

definition dns_base32_encodekey :: "bytes \<Rightarrow> bytes" where
  "dns_base32_encodekey key =
     (let (v, vbits, out) = b32_encodekey_loop 0 0 [54, 120, 49, 97] (take 32 key) in out)"

subsection \<open>Decoding\<close>

text \<open>
  \<open>base32_decode\<close> of \<open>dns_base32.c\<close>: \<open>Some out\<close> stands for the stored bytes and the
  returned count \<open>length out\<close>, \<open>None\<close> for the \<open>return 0\<close> of a rejected input.
\<close>

fun base32_decode_loop :: "nat \<Rightarrow> nat \<Rightarrow> bytes \<Rightarrow> bytes \<Rightarrow> (nat \<times> nat \<times> bytes) option" where
  "base32_decode_loop v vbits [] out = Some (v, vbits, out)"
| "base32_decode_loop v vbits (c # inp) out =
     (if c AND 0x80 \<noteq> 0 then None
      else let x = unat (base32values ! unat c) in
        if x > 0x1f then None
        else let v1 = v OR push_bit vbits x; vbits1 = vbits + 5 in
          if vbits1 \<ge> 8
          then base32_decode_loop (drop_bit 8 v1) (vbits1 - 8) inp (out @ [of_nat v1])
          else base32_decode_loop v1 vbits1 inp out)"

definition base32_decode :: "bytes \<Rightarrow> bool \<Rightarrow> bytes option" where
  "base32_decode inp mode =
     (case base32_decode_loop 0 0 inp [] of None \<Rightarrow> None
      | Some (v, vbits, out) \<Rightarrow>
        if mode then Some (if vbits \<noteq> 0 then out @ [of_nat v] else out)
        else if vbits \<ge> 5 \<or> v \<noteq> 0 then None
        else Some out)"

text \<open>
  \<open>base32decode\<close> of \<open>base32decode.c\<close> tests \<open>in[j] & 0x80\<close> (the output index) and then
  reads \<open>base32values[in[i]]\<close>.  The outer \<open>None\<close> is a read outside the table, the inner
  one the \<open>return 0\<close>.
\<close>

function base32decode_loop ::
    "nat \<Rightarrow> nat \<Rightarrow> nat \<Rightarrow> nat \<Rightarrow> bytes \<Rightarrow> bytes \<Rightarrow> (nat \<times> nat \<times> bytes) option option" where
  "base32decode_loop i outlen v vbits inp out =
     (if i < length inp
      then if inp ! length out AND 0x80 \<noteq> 0 then Some None
        else do {
          u \<leftarrow> ld base32values (unat (inp ! i));
          if u > 0x1f then Some None
          else let v1 = v OR push_bit vbits (unat u); vbits1 = vbits + 5 in
            if vbits1 \<ge> 8
            then if length out \<ge> outlen then Some None
              else base32decode_loop (Suc i) outlen (drop_bit 8 v1) (vbits1 - 8) inp (out @ [of_nat v1])
            else base32decode_loop (Suc i) outlen v1 vbits1 inp out }
      else Some (Some (v, vbits, out)))"
  by pat_completeness auto
termination
  by (relation "measure (\<lambda>(i, outlen, v, vbits, inp, out). length inp - i)") auto

declare base32decode_loop.simps [simp del]

definition base32decode :: "nat \<Rightarrow> bytes \<Rightarrow> bytes option option" where
  "base32decode outlen inp =
     (case base32decode_loop 0 outlen 0 0 inp [] of None \<Rightarrow> None
      | Some None \<Rightarrow> Some None
      | Some (Some (v, vbits, out)) \<Rightarrow>
        if vbits \<noteq> 0
        then if length out \<ge> outlen then Some None else Some (Some (out @ [of_nat v]))
        else Some (Some out))"

definition keyparse :: "nat \<Rightarrow> bytes option \<Rightarrow> bytes option option" where
  "keyparse keyslen xx =
     (case xx of None \<Rightarrow> Some None
      | Some x \<Rightarrow>
        if keyslen \<noteq> 32 then Some None
        else if length x = 54 then
          if take 3 x \<noteq> [117, 122, 53] then Some None else base32decode 32 (mem_read x 3 51)
        else if length x = 51 then base32decode 32 x
        else if length x = 64 then Some (hexdecode 32 x)
        else Some None)"

section \<open>Correctness\<close>

subsection \<open>The tables\<close>

definition b32_char :: "nat \<Rightarrow> byte" where
  "b32_char d = base32_digits ! d"

lemma base32_tables:
  "list_all (\<lambda>d. b32_char d AND 0x80 = 0 \<and> unat (b32_char d) < 128 \<and>
     unat (base32values ! unat (b32_char d)) = d) [0..<32]"
  by code_simp

lemma b32_char_simps:
  assumes "d < 32"
  shows "b32_char d AND 0x80 = 0" "unat (b32_char d) < 128"
    "unat (base32values ! unat (b32_char d)) = d"
  using base32_tables assms by (auto simp: list_all_iff)

lemma length_base32values [simp]: "length base32values = 128"
  by (simp add: base32values_def)

subsection \<open>What the loops compute\<close>

text \<open>
  Every loop moves bits from the low end of a little-endian numeral: after \<open>n\<close> digits the
  stored digits and the accumulator together are the value read so far.
\<close>

lemma base32_decode_loop_val:
  assumes "\<forall>d \<in> set ds. d < 32" "k < 8" "v < 2 ^ k"
  shows "\<exists>os v' k'. base32_decode_loop v k (map b32_char ds) out = Some (v', k', out @ os) \<and>
     k' < 8 \<and> v' < 2 ^ k' \<and> 8 * length os + k' = k + 5 * length ds \<and>
     le_val 256 (map unat os) + 256 ^ length os * v' = v + 2 ^ k * le_val 32 ds"
  using assms
proof (induction ds arbitrary: v k out)
  case Nil
  then show ?case by simp
next
  case (Cons d ds)
  let ?v1 = "v + 2 ^ k * d"
  have d: "d < 32" using Cons.prems by simp
  have or: "v OR push_bit k d = ?v1" using Cons.prems by (simp add: nat_or_push_bit)
  have v1: "?v1 < 2 ^ (k + 5)"
  proof -
    have "v + 2 ^ k * d < 2 ^ k * (d + 1)" using Cons.prems by simp
    also have "\<dots> \<le> 2 ^ k * 32" using d by (intro mult_le_mono2) simp
    finally show ?thesis by (simp add: power_add)
  qed
  note step = b32_char_simps [OF d] or
  show ?case
  proof (cases "k + 5 \<ge> 8")
    case True
    have k3: "k + 5 = k - 3 + 8" "k - 3 < 8" using True Cons.prems by simp_all
    have "?v1 div 256 < 2 ^ (k - 3)"
      using v1 by (intro less_mult_imp_div_less) (simp add: k3(1) power_add)
    then obtain os v' k' where
      IH: "base32_decode_loop (?v1 div 256) (k - 3) (map b32_char ds) (out @ [of_nat ?v1]) =
          Some (v', k', (out @ [of_nat ?v1]) @ os)"
        "k' < 8" "v' < 2 ^ k'" "8 * length os + k' = k - 3 + 5 * length ds"
        "le_val 256 (map unat os) + 256 ^ length os * v' = ?v1 div 256 + 2 ^ (k - 3) * le_val 32 ds"
      using Cons.IH [of "k - 3" "?v1 div 256" "out @ [of_nat ?v1]"] Cons.prems k3
      by (auto simp del: of_nat_add)
    have u: "unat (of_nat ?v1 :: byte) = ?v1 mod 256" by (subst unat_of_nat) simp
    have "le_val 256 (map unat (of_nat ?v1 # os)) + 256 ^ Suc (length os) * v'
        = ?v1 mod 256 + 256 * (le_val 256 (map unat os) + 256 ^ length os * v')"
      by (simp only: list.map le_val.simps u) (simp add: algebra_simps)
    also have "\<dots> = ?v1 mod 256 + 256 * (?v1 div 256 + 2 ^ (k - 3) * le_val 32 ds)"
      by (simp only: IH(5))
    also have "\<dots> = ?v1 + (2 ^ (k - 3) * 256) * le_val 32 ds"
      by (simp add: algebra_simps)
    also have "2 ^ (k - 3) * 256 = (2 ^ k * 32 :: nat)"
      using power_add [of "2::nat" "k - 3" 8] power_add [of "2::nat" k 5] k3(1) by simp
    finally have val: "le_val 256 (map unat (of_nat ?v1 # os)) + 256 ^ length (of_nat ?v1 # os) * v' =
        v + 2 ^ k * le_val 32 (d # ds)"
      by (simp add: algebra_simps)
    have "base32_decode_loop v k (map b32_char (d # ds)) out = Some (v', k', out @ of_nat ?v1 # os)"
      using True d IH(1) by (simp add: step Let_def drop_bit_eq_div)
    moreover have "8 * length (of_nat ?v1 # os) + k' = k + 5 * length (d # ds)"
      using IH(4) True by simp
    ultimately show ?thesis using IH(2,3) val by blast
  next
    case False
    then obtain os v' k' where
      IH: "base32_decode_loop ?v1 (k + 5) (map b32_char ds) out = Some (v', k', out @ os)"
        "k' < 8" "v' < 2 ^ k'" "8 * length os + k' = k + 5 + 5 * length ds"
        "le_val 256 (map unat os) + 256 ^ length os * v' = ?v1 + 2 ^ (k + 5) * le_val 32 ds"
      using Cons.IH [of "k + 5" ?v1 out] Cons.prems v1 by auto
    have "base32_decode_loop v k (map b32_char (d # ds)) out = Some (v', k', out @ os)"
      using False d IH(1) by (simp add: step Let_def)
    with IH show ?thesis by (auto simp: power_add algebra_simps)
  qed
qed

lemma b32_emitkey_val:
  assumes "5 \<le> k" "v < 2 ^ k"
  shows "\<exists>ds v' k'. b32_emitkey v k out = (v', k', out @ map b32_char ds) \<and> ds \<noteq> [] \<and>
     k' < 5 \<and> v' < 2 ^ k' \<and> 5 * length ds + k' = k \<and> (\<forall>d \<in> set ds. d < 32) \<and>
     le_val 32 ds + 32 ^ length ds * v' = v"
  using assms
proof (induction v k out rule: b32_emitkey.induct)
  case (1 v k out)
  have dig: "base32_digits ! (v AND 31) = b32_char (v mod 32)"
    by (simp add: b32_char_def nat_and_31)
  have v1: "v div 32 < 2 ^ (k - 5)"
  proof (rule less_mult_imp_div_less)
    have "2 ^ (k - 5) * 32 = (2 ^ k :: nat)"
      using power_add [of "2::nat" "k - 5" 5] "1.prems"(1) by simp
    with "1.prems"(2) show "v < 2 ^ (k - 5) * 32" by simp
  qed
  show ?case
  proof (cases "k - 5 \<ge> 5")
    case True
    from "1.IH" [OF refl refl refl True] v1 True obtain ds v' k' where
      IH: "b32_emitkey (v div 32) (k - 5) (out @ [b32_char (v mod 32)]) =
           (v', k', (out @ [b32_char (v mod 32)]) @ map b32_char ds)"
        "k' < 5" "v' < 2 ^ k'" "5 * length ds + k' = k - 5" "\<forall>d \<in> set ds. d < 32"
        "le_val 32 ds + 32 ^ length ds * v' = v div 32"
      by (auto simp: drop_bit_eq_div dig)
    have "b32_emitkey v k out = (v', k', out @ map b32_char (v mod 32 # ds))"
      using True IH(1) by (simp add: b32_emitkey.simps [of v k] dig drop_bit_eq_div)
    moreover have "le_val 32 (v mod 32 # ds) + 32 ^ length (v mod 32 # ds) * v' =
        v mod 32 + 32 * (le_val 32 ds + 32 ^ length ds * v')"
      by (simp add: algebra_simps)
    then have "le_val 32 (v mod 32 # ds) + 32 ^ length (v mod 32 # ds) * v' = v"
      by (simp add: IH(6))
    moreover have "5 * length (v mod 32 # ds) + k' = k" using IH(4) True by simp
    moreover have "\<forall>d \<in> set (v mod 32 # ds). d < 32" using IH(5) by simp
    ultimately show ?thesis using IH(2,3) by blast
  next
    case False
    then have "b32_emitkey v k out = (v div 32, k - 5, out @ map b32_char [v mod 32])"
      by (simp add: b32_emitkey.simps [of v k] dig drop_bit_eq_div)
    with False v1 "1.prems" show ?thesis
      by (intro exI [of _ "[v mod 32]"] exI [of _ "v div 32"] exI [of _ "k - 5"]) auto
  qed
qed

text \<open>The value of a byte list read as a little-endian numeral.\<close>

abbreviation bytes_val :: "bytes \<Rightarrow> nat" where
  "bytes_val bs \<equiv> le_val 256 (map unat bs)"

lemma acc_add_byte:
  "v < 2 ^ k \<Longrightarrow> v OR push_bit k (unat (b :: byte)) = v + 2 ^ k * unat b \<and> v + 2 ^ k * unat b < 2 ^ (k + 8)"
proof -
  assume v: "v < 2 ^ k"
  then have "v + 2 ^ k * unat b < 2 ^ k * (unat b + 1)" by simp
  also have "\<dots> \<le> 2 ^ k * 256" using unat_byte_less [of b] by (intro mult_le_mono2) linarith
  finally show ?thesis using v by (simp add: nat_or_push_bit power_add)
qed

lemma b32_encodekey_loop_val:
  assumes "k < 5" "v < 2 ^ k"
  shows "\<exists>ds v' k'. b32_encodekey_loop v k out bs = (v', k', out @ map b32_char ds) \<and>
     k' < 5 \<and> v' < 2 ^ k' \<and> 5 * length ds + k' = k + 8 * length bs \<and> (\<forall>d \<in> set ds. d < 32) \<and>
     le_val 32 ds + 32 ^ length ds * v' = v + 2 ^ k * bytes_val bs"
  using assms
proof (induction bs arbitrary: v k out)
  case Nil
  then show ?case by (intro exI [of _ "[]"]) simp
next
  case (Cons b bs)
  let ?v1 = "v + 2 ^ k * unat b"
  have v1: "v OR push_bit k (unat b) = ?v1" "?v1 < 2 ^ (k + 8)"
    using acc_add_byte [of v k b] Cons.prems by auto
  obtain ds v' k' where E: "b32_emitkey ?v1 (k + 8) out = (v', k', out @ map b32_char ds)"
      "k' < 5" "v' < 2 ^ k'" "5 * length ds + k' = k + 8" "\<forall>d \<in> set ds. d < 32"
      "le_val 32 ds + 32 ^ length ds * v' = ?v1"
    using b32_emitkey_val [of "k + 8" ?v1 out] v1 by auto
  obtain es v'' k'' where F: "b32_encodekey_loop v' k' (out @ map b32_char ds) bs =
        (v'', k'', (out @ map b32_char ds) @ map b32_char es)"
      "k'' < 5" "v'' < 2 ^ k''" "5 * length es + k'' = k' + 8 * length bs" "\<forall>d \<in> set es. d < 32"
      "le_val 32 es + 32 ^ length es * v'' = v' + 2 ^ k' * bytes_val bs"
    using Cons.IH [OF E(2,3)] by blast
  have p: "32 ^ length ds * 2 ^ k' = (2 ^ k * 256 :: nat)"
  proof -
    have "32 ^ length ds * 2 ^ k' = (2 ^ (5 * length ds + k') :: nat)"
      by (simp add: power_add power_mult)
    also have "\<dots> = 2 ^ k * 256" by (simp add: E(4) power_add)
    finally show ?thesis .
  qed
  have "le_val 32 (ds @ es) + 32 ^ length (ds @ es) * v'' =
      le_val 32 ds + 32 ^ length ds * (le_val 32 es + 32 ^ length es * v'')"
    by (simp add: le_val_append power_add algebra_simps)
  also have "\<dots> = le_val 32 ds + 32 ^ length ds * v' + (32 ^ length ds * 2 ^ k') * bytes_val bs"
    by (simp only: F(6)) (simp add: algebra_simps)
  also have "\<dots> = v + 2 ^ k * bytes_val (b # bs)"
    by (simp only: E(6) p) (simp add: algebra_simps)
  finally have val: "le_val 32 (ds @ es) + 32 ^ length (ds @ es) * v'' = v + 2 ^ k * bytes_val (b # bs)" .
  have "b32_encodekey_loop v k out (b # bs) = (v'', k'', out @ map b32_char (ds @ es))"
    using E(1) F(1) by (simp add: v1)
  moreover have "5 * length (ds @ es) + k'' = k + 8 * length (b # bs)" using E(4) F(4) by simp
  moreover have "\<forall>d \<in> set (ds @ es). d < 32" using E(5) F(5) by auto
  ultimately show ?case using F(2,3) val by blast
qed

subsection \<open>Labels of 50 characters\<close>

text \<open>
  \<open>dns_base32_encodebytes\<close> produces the same characters as the key encoder and cuts them
  into labels of at most 50; \<open>label_bytes\<close> takes the length bytes out again.
\<close>

definition chunk50 :: "bytes \<times> bytes \<Rightarrow> byte \<Rightarrow> bytes \<times> bytes" where
  "chunk50 s c =
     (let cur1 = snd s @ [c] in if length cur1 = 50 then (fst s @ 50 # cur1, []) else (fst s, cur1))"

function label_bytes :: "bytes \<Rightarrow> bytes" where
  "label_bytes [] = []"
| "label_bytes (l # r) = take (unat l) r @ label_bytes (drop (unat l) r)"
  by pat_completeness auto
termination
  by (relation "measure length") auto

lemma b32_emitkey_out: "b32_emitkey v k out = (case b32_emitkey v k [] of (v', k', cs) \<Rightarrow> (v', k', out @ cs))"
proof (induction k arbitrary: v out rule: less_induct)
  case (less k)
  show ?case
  proof (cases "k - 5 \<ge> 5")
    case True
    let ?c = "base32_digits ! (v AND 31)"
    have IH: "b32_emitkey (drop_bit 5 v) (k - 5) o1 =
        (case b32_emitkey (drop_bit 5 v) (k - 5) [] of (v', k', cs) \<Rightarrow> (v', k', o1 @ cs))" for o1
      using True by (intro less) simp
    show ?thesis
      using True IH [of "[?c]"] IH [of "out @ [?c]"]
      by (simp add: b32_emitkey.simps [of v k] split: prod.splits)
  next
    case False
    then show ?thesis by (simp add: b32_emitkey.simps [of v k])
  qed
qed

lemma b32_emit_chunk:
  "b32_emit v k don cur =
     (case b32_emitkey v k [] of (v', k', cs) \<Rightarrow> (v', k', foldl chunk50 (don, cur) cs))"
proof (induction k arbitrary: v don cur rule: less_induct)
  case (less k)
  let ?c = "base32_digits ! (v AND 31)"
  obtain don2 cur2 where s: "chunk50 (don, cur) ?c = (don2, cur2)" by fastforce
  then have s': "(if length (cur @ [?c]) = 50 then (don @ 50 # cur @ [?c], []) else (don, cur @ [?c])) = (don2, cur2)"
    by (auto simp: chunk50_def Let_def split: if_splits)
  show ?case
  proof (cases "k - 5 \<ge> 5")
    case True
    have IH: "b32_emit (drop_bit 5 v) (k - 5) don2 cur2 =
        (case b32_emitkey (drop_bit 5 v) (k - 5) [] of (v', k', cs) \<Rightarrow> (v', k', foldl chunk50 (don2, cur2) cs))"
      using True by (intro less) simp
    have L: "b32_emit v k don cur = b32_emit (drop_bit 5 v) (k - 5) don2 cur2"
      using True by (subst b32_emit.simps) (simp only: Let_def s' prod.case if_True)
    have R: "b32_emitkey v k [] =
        (case b32_emitkey (drop_bit 5 v) (k - 5) [] of (v', k', cs) \<Rightarrow> (v', k', ?c # cs))"
      using True b32_emitkey_out [of "drop_bit 5 v" "k - 5" "[?c]"] by (simp add: b32_emitkey.simps [of v k])
    show ?thesis
      unfolding L R IH by (simp add: s split: prod.splits)
  next
    case False
    have "b32_emit v k don cur = (drop_bit 5 v, k - 5, don2, cur2)"
      using False by (subst b32_emit.simps) (simp only: Let_def s' prod.case if_False)
    with False s show ?thesis by (simp add: b32_emitkey.simps [of v k])
  qed
qed

lemma b32_encodekey_loop_out:
  "b32_encodekey_loop v k out bs =
     (case b32_encodekey_loop v k [] bs of (v', k', cs) \<Rightarrow> (v', k', out @ cs))"
proof (induction bs arbitrary: v k out)
  case (Cons b bs)
  obtain v1 k1 c1 where E: "b32_emitkey (v OR push_bit k (unat b)) (k + 8) [] = (v1, k1, c1)"
    by (metis prod_cases3)
  show ?case
    using b32_emitkey_out [of "v OR push_bit k (unat b)" "k + 8" out] Cons.IH [of v1 k1 "out @ c1"] Cons.IH [of v1 k1 c1]
    by (simp add: E split: prod.splits)
qed simp

lemma b32_encode_loop_chunk:
  "b32_encode_loop v k don cur bs =
     (case b32_encodekey_loop v k [] bs of (v', k', cs) \<Rightarrow> (v', k', foldl chunk50 (don, cur) cs))"
proof (induction bs arbitrary: v k don cur)
  case (Cons b bs)
  obtain v1 k1 c1 where E: "b32_emitkey (v OR push_bit k (unat b)) (k + 8) [] = (v1, k1, c1)"
    by (metis prod_cases3)
  obtain don1 cur1 where s: "foldl chunk50 (don, cur) c1 = (don1, cur1)" by fastforce
  show ?case
    using Cons.IH [of v1 k1 don1 cur1] b32_encodekey_loop_out [of v1 k1 c1 bs]
    by (simp add: b32_emit_chunk E s split: prod.splits)
qed simp

definition chunk_inv :: "bytes \<Rightarrow> bytes \<times> bytes \<Rightarrow> bool" where
  "chunk_inv cs s \<longleftrightarrow>
     (\<exists>ct. cs = ct @ snd s \<and> length (snd s) < 50 \<and> 50 * length (fst s) = 51 * length ct \<and>
        (\<forall>x. label_bytes (fst s @ x) = ct @ label_bytes x))"

lemma chunk_inv_step: "chunk_inv cs s \<Longrightarrow> chunk_inv (cs @ [c]) (chunk50 s c)"
proof -
  assume "chunk_inv cs s"
  then obtain ct where ct: "cs = ct @ snd s" "length (snd s) < 50" "50 * length (fst s) = 51 * length ct"
      "\<And>x. label_bytes (fst s @ x) = ct @ label_bytes x"
    by (auto simp: chunk_inv_def)
  show ?thesis
  proof (cases "length (snd s) = 49")
    case True
    have "label_bytes ((50 # snd s @ [c]) @ x) = (snd s @ [c]) @ label_bytes x" for x
      using True by simp
    with ct True show ?thesis
      by (auto simp: chunk_inv_def chunk50_def intro!: exI [of _ "ct @ snd s @ [c]"])
  next
    case False
    with ct show ?thesis
      by (auto simp: chunk_inv_def chunk50_def Let_def)
  qed
qed

lemma chunk_inv_foldl: "chunk_inv cs s \<Longrightarrow> chunk_inv (cs @ ds) (foldl chunk50 s ds)"
proof (induction ds arbitrary: cs s)
  case (Cons d ds)
  have "chunk_inv ((cs @ [d]) @ ds) (foldl chunk50 (chunk50 s d) ds)"
    by (rule Cons.IH) (rule chunk_inv_step [OF Cons.prems])
  then show ?case by simp
qed simp


subsection \<open>Round trips\<close>

text \<open>The characters before they are cut into labels: the digits of the little-endian numeral.\<close>

lemma b32_encode_digits:
  obtains ds v k where "b32_encodekey_loop 0 0 [] inp = (v, k, map b32_char ds)" "k < 5" "v < 2 ^ k"
    "5 * length ds + k = 8 * length inp" "\<forall>d \<in> set ds. d < 32"
    "le_val 32 ds + 32 ^ length ds * v = bytes_val inp"
  using b32_encodekey_loop_val [of 0 0 "[]" inp] by auto

lemma bytes_val_less: "bytes_val bs < 256 ^ length bs"
  using le_val_less [of "map unat bs" 256] by auto

lemma bytes_val_add_unique:
  assumes "bytes_val os + 256 ^ length os * v = bytes_val inp" "length os = length inp"
  shows "v = 0 \<and> os = inp"
proof -
  have "v = 0"
  proof (rule ccontr)
    assume "v \<noteq> 0"
    then have "256 ^ length inp * 1 \<le> 256 ^ length inp * v" by (intro mult_le_mono2) simp
    with assms(1) [unfolded assms(2)] bytes_val_less [of inp] show False by linarith
  qed
  with assms show ?thesis by (auto intro: le_val_bytes_inj)
qed

lemma base32_decode_digits:
  assumes "\<forall>d \<in> set ds. d < 32" "8 * length inp \<le> 5 * length ds" "5 * length ds < 8 * length inp + 5"
    "le_val 32 ds = bytes_val inp"
  shows "base32_decode (map b32_char ds) False = Some inp"
proof -
  obtain os v k where D: "base32_decode_loop 0 0 (map b32_char ds) [] = Some (v, k, os)"
      "k < 8" "8 * length os + k = 5 * length ds"
      "bytes_val os + 256 ^ length os * v = le_val 32 ds"
    using base32_decode_loop_val [of ds 0 0 "[]"] assms(1) by auto
  have len: "length os = length inp" using D(2,3) assms(2,3) by linarith
  then have "k < 5" using D(3) assms(3) by linarith
  moreover note len
  moreover from this D(4) assms(4) have "v = 0 \<and> os = inp"
    by (intro bytes_val_add_unique) simp_all
  ultimately show ?thesis using D(1) by (simp add: base32_decode_def)
qed

lemma encodebytes_digits:
  obtains ds where "\<forall>d \<in> set ds. d < 32" "8 * length inp \<le> 5 * length ds"
    "5 * length ds < 8 * length inp + 5" "le_val 32 ds = bytes_val inp"
    "dns_base32_encodebytes inp =
       (case foldl chunk50 ([], []) (map b32_char ds) of (don, cur) \<Rightarrow>
          if cur = [] then don else don @ of_nat (length cur) # cur)"
proof -
  obtain ds v k where D: "b32_encodekey_loop 0 0 [] inp = (v, k, map b32_char ds)" "k < 5" "v < 2 ^ k"
      "5 * length ds + k = 8 * length inp" "\<forall>d \<in> set ds. d < 32"
      "le_val 32 ds + 32 ^ length ds * v = bytes_val inp"
    by (rule b32_encode_digits)
  obtain don cur where C: "foldl chunk50 ([], []) (map b32_char ds) = (don, cur)" by fastforce
  have inv: "chunk_inv ([] @ map b32_char ds) (foldl chunk50 ([], []) (map b32_char ds))"
    by (rule chunk_inv_foldl) (simp add: chunk_inv_def)
  have cur: "length cur < 50" using inv by (auto simp: chunk_inv_def C)
  have E: "b32_encode_loop 0 0 [] [] inp = (v, k, don, cur)"
    by (simp add: b32_encode_loop_chunk D C)
  show thesis
  proof (cases "k = 0")
    case True
    with D have "le_val 32 ds = bytes_val inp" by simp
    with True D C show thesis
      by (intro that [of ds]) (auto simp: dns_base32_encodebytes_def E)
  next
    case False
    have "(2::nat) ^ k \<le> 2 ^ 4" using D(2) by (intro power_increasing) simp_all
    with D(3) have v: "v < 16" by simp
    have char: "base32_digits ! (v AND 31) = b32_char v" using v by (simp add: nat_and_31 b32_char_def)
    show thesis
    proof (rule that [of "ds @ [v]"])
      show "le_val 32 (ds @ [v]) = bytes_val inp" using D(6) by (simp add: le_val_append)
      show "dns_base32_encodebytes inp =
         (case foldl chunk50 ([], []) (map b32_char (ds @ [v])) of (don, cur) \<Rightarrow>
            if cur = [] then don else don @ of_nat (length cur) # cur)"
        using False by (simp add: dns_base32_encodebytes_def E char C) (auto simp: chunk50_def Let_def)
    qed (use D v False in auto)
  qed
qed

lemma base32_label_roundtrip:
  "base32_decode (label_bytes (dns_base32_encodebytes inp)) False = Some inp \<and>
   int (length (dns_base32_encodebytes inp)) = dns_base32_bytessize (int (length inp))"
proof -
  obtain ds where D: "\<forall>d \<in> set ds. d < 32" "8 * length inp \<le> 5 * length ds"
    "5 * length ds < 8 * length inp + 5" "le_val 32 ds = bytes_val inp"
    and E: "dns_base32_encodebytes inp =
       (case foldl chunk50 ([], []) (map b32_char ds) of (don, cur) \<Rightarrow>
          if cur = [] then don else don @ of_nat (length cur) # cur)"
    by (rule encodebytes_digits)
  obtain don cur where C: "foldl chunk50 ([], []) (map b32_char ds) = (don, cur)" by fastforce
  have "chunk_inv ([] @ map b32_char ds) (foldl chunk50 ([], []) (map b32_char ds))"
    by (rule chunk_inv_foldl) (simp add: chunk_inv_def)
  then obtain ct where ct: "map b32_char ds = ct @ cur" "length cur < 50" "50 * length don = 51 * length ct"
      "\<And>x. label_bytes (don @ x) = ct @ label_bytes x"
    by (auto simp: chunk_inv_def C)
  have lab: "unat (of_nat (length cur) :: byte) = length cur" using ct(2) by (simp add: unat_of_nat)
  have enc: "dns_base32_encodebytes inp = (if cur = [] then don else don @ of_nat (length cur) # cur)"
    by (simp add: E C)
  have "label_bytes (dns_base32_encodebytes inp) = ct @ cur"
    using ct(4) [of "[]"] ct(4) [of "of_nat (length cur) # cur"] by (simp add: enc lab)
  also have "\<dots> = map b32_char ds" by (simp only: ct(1))
  finally have "label_bytes (dns_base32_encodebytes inp) = map b32_char ds" .
  then have rt: "base32_decode (label_bytes (dns_base32_encodebytes inp)) False = Some inp"
    using D by (simp add: base32_decode_digits)
  have len: "length ds = length ct + length cur" using arg_cong [OF ct(1), of length] by simp
  define m where "m = length don - length ct"
  have m: "length ct = 50 * m" using ct(3) by (simp add: m_def)
  have don: "length don = 51 * m" using ct(3) m by simp
  have dig: "(8 * int (length inp) + 4) div 5 = 50 * int m + int (length cur)"
    using D(2,3) len m by linarith
  have "(50 * int m + int (length cur) + 49) div 50 = int m + (if cur = [] then 0 else 1)"
    using ct(2) by (auto simp: neq_Nil_conv)
  with dig don have "int (length (dns_base32_encodebytes inp)) = dns_base32_bytessize (int (length inp))"
    by (simp add: enc dns_base32_bytessize_def)
  with rt show ?thesis by blast
qed

interpretation b32_codec: codec "\<lambda>inp. label_bytes (dns_base32_encodebytes inp)"
  "\<lambda>t. base32_decode t False" "\<lambda>_. True"
  by unfold_locales (simp add: base32_label_roundtrip)

subsection \<open>Keys\<close>

text \<open>On 7-bit input of a length that fits, the two decoders agree.\<close>

lemma base32decode_loop_eq:
  assumes "\<forall>b \<in> set inp. b AND 0x80 = 0 \<and> unat b < 128"
    "8 * length out + k \<le> 5 * i" "8 * length out + k + 5 * (length inp - i) < 8 * outlen + 8"
  shows "base32decode_loop i outlen v k inp out = Some (base32_decode_loop v k (drop i inp) out)"
  using assms
proof (induction i outlen v k inp out rule: base32decode_loop.induct)
  case (1 i outlen v k inp out)
  show ?case
  proof (cases "i < length inp")
    case True
    have j: "length out < length inp" using True "1.prems"(2) by linarith
    have hi: "inp ! length out AND 0x80 = 0" "inp ! i AND 0x80 = 0" "unat (inp ! i) < 128"
      using "1.prems"(1) True j by (auto dest: nth_mem)
    have drp: "drop i inp = inp ! i # drop (Suc i) inp" using True by (simp add: Cons_nth_drop_Suc)
    have u: "base32values ! unat (inp ! i) > 0x1f \<longleftrightarrow> unat (base32values ! unat (inp ! i)) > 0x1f"
      by (simp add: word_less_nat_alt)
    have fits: "length out < outlen" if "8 \<le> k + 5" using that True "1.prems"(3) by linarith
    let ?u = "base32values ! unat (inp ! i)"
    have ld: "ld base32values (unat (inp ! i)) = Some ?u" using hi by simp
    show ?thesis
    proof (cases "?u > 0x1f")
      case big: True
      then show ?thesis using True hi u by (subst base32decode_loop.simps) (simp add: drp ld)
    next
      case small: False
      note IH = "1.IH" [OF True, simplified, OF hi(1) ld small refl refl]
      show ?thesis
      proof (cases "8 \<le> k + 5")
        case full: True
        have "8 * length out + (k + 5) \<le> 5 * Suc i" "8 * length out + (k + 5) + 5 * (length inp - Suc i) < 8 * outlen + 8"
          using True "1.prems"(2,3) by simp_all
        then show ?thesis
          using IH(1) [OF full] True hi small fits [OF full] u full "1.prems"(1)
          by (subst base32decode_loop.simps) (simp add: drp ld Let_def)
      next
        case False
        have "k + 5 + 8 * length out \<le> 5 * Suc i" "8 * length out + (k + 5) + 5 * (length inp - Suc i) < 8 * outlen + 8"
          using True "1.prems"(2,3) by simp_all
        then show ?thesis
          using IH(2) [OF False] True hi small u False "1.prems"(1)
          by (subst base32decode_loop.simps) (simp add: drp ld Let_def)
      qed
    qed
  qed (simp add: base32decode_loop.simps [of i])
qed

text \<open>
  A key has 256 bits, its text 51 characters: the top bit of the last byte is not printed.
\<close>

definition key_text :: "bytes \<Rightarrow> bytes" where
  "key_text key = drop 4 (dns_base32_encodekey key)"

lemma key_digits:
  assumes "length key = 32"
  obtains ds v where "key_text key = map b32_char ds" "length ds = 51" "\<forall>d \<in> set ds. d < 32" "v < 2"
    "le_val 32 ds + 2 ^ 255 * v = bytes_val key"
proof -
  obtain ds v k where D: "b32_encodekey_loop 0 0 [] key = (v, k, map b32_char ds)" "k < 5" "v < 2 ^ k"
      "5 * length ds + k = 8 * length key" "\<forall>d \<in> set ds. d < 32"
      "le_val 32 ds + 32 ^ length ds * v = bytes_val key"
    by (rule b32_encode_digits)
  have l: "length ds = 51" using D(2,4) assms by simp
  then have "k = 1" using D(4) assms by simp
  moreover have "key_text key = map b32_char ds"
    using D(1) assms b32_encodekey_loop_out [of 0 0 "[54, 120, 49, 97]" key]
    by (simp add: key_text_def dns_base32_encodekey_def)
  moreover have "(32 :: nat) ^ 51 = 2 ^ 255" by simp
  ultimately show thesis using D l by (intro that [of ds v]) simp_all
qed

lemma unat_and_7f: "unat ((x :: byte) AND 0x7f) = unat x mod 128"
  using take_bit_eq_mask [of 7 "unat x"]
  by (simp add: unsigned_and_eq take_bit_eq_mod mask_eq_exp_minus_1)

lemma base32decode_key:
  assumes "length key = 32"
  shows "base32decode 32 (key_text key) = Some (Some (take 31 key @ [key ! 31 AND 0x7f]))"
proof -
  obtain ds v where D: "key_text key = map b32_char ds" "length ds = 51" "\<forall>d \<in> set ds. d < 32" "v < 2"
      "le_val 32 ds + 2 ^ 255 * v = bytes_val key"
    using assms by (rule key_digits)
  obtain os w k where O: "base32_decode_loop 0 0 (map b32_char ds) [] = Some (w, k, os)"
      "k < 8" "w < 2 ^ k" "8 * length os + k = 255" "bytes_val os + 256 ^ length os * w = le_val 32 ds"
    using base32_decode_loop_val [of ds 0 0 "[]"] D(2,3) by auto
  have lo: "length os = 31" using O(2,4) by linarith
  then have k: "k = 7" using O(4) by simp
  have "base32decode_loop 0 32 0 0 (map b32_char ds) [] = Some (base32_decode_loop 0 0 (map b32_char ds) [])"
    using D(2,3) by (subst base32decode_loop_eq) (auto simp: b32_char_simps)
  then have dec: "base32decode 32 (key_text key) = Some (Some (os @ [of_nat w]))"
    using O(1) lo k by (simp add: base32decode_def D(1))
  have w: "w < 128" using O(3) k by simp
  have "bytes_val (os @ [of_nat (w + 128 * v)]) = bytes_val key"
  proof -
    have "w + 128 * v < 256" using w D(4) by linarith
    then have "unat (of_nat (w + 128 * v) :: byte) = w + 128 * v"
      by (subst unat_of_nat) simp
    then have "bytes_val (os @ [of_nat (w + 128 * v)]) = bytes_val os + 256 ^ 31 * w + 2 ^ 255 * v"
      by (simp add: le_val_append lo del: of_nat_add)
    then show ?thesis using O(5) D(5) lo by simp
  qed
  then have key: "os @ [of_nat (w + 128 * v)] = key"
    using assms lo by (intro le_val_bytes_inj) simp_all
  have "key ! 31 = of_nat (w + 128 * v)" using lo key by (metis nth_append_length)
  moreover have "w + 128 * v < 256" using w D(4) by linarith
  ultimately have "unat (key ! 31) = w + 128 * v" by (subst \<open>key ! 31 = _\<close>, subst unat_of_nat) simp
  then have "key ! 31 AND 0x7f = of_nat w"
    using w by (intro word_eqI_nat) (simp add: unat_and_7f unat_of_nat)
  moreover have "take 31 key = os" using lo by (simp flip: key)
  ultimately show ?thesis using dec by simp
qed

section \<open>Properties\<close>

text \<open>The base-32 labels of \<open>dns_base32_encodebytes\<close>, with their length bytes taken out, are
  decoded by \<open>base32_decode\<close> in strict mode to the original bytes, and their total size is the
  one \<open>dns_base32_bytessize\<close> announces.\<close>

theorem base32_encodebytes_roundtrip:
  "base32_decode (label_bytes (dns_base32_encodebytes inp)) False = Some inp \<and>
   int (length (dns_base32_encodebytes inp)) = dns_base32_bytessize (int (length inp))"
  by (rule base32_label_roundtrip)

text \<open>The key label that \<open>dns_base32_encodekey\<close> builds for a server name, written with the
  prefix \<open>uz5\<close> of a DNSCurve name, is parsed by \<open>keyparse\<close> to the same key, with the top bit of
  the last byte cleared (the bit Curve25519 ignores).\<close>

theorem keyparse_encodekey:
  assumes "length key = 32"
  shows "keyparse 32 (Some ([117, 122, 53] @ drop 4 (dns_base32_encodekey key))) =
     Some (Some (take 31 key @ [key ! 31 AND 0x7f]))"
proof -
  obtain ds v where D: "key_text key = map b32_char ds" "length ds = 51"
    using assms by (rule key_digits)
  then have "length (key_text key) = 51" by simp
  then show ?thesis
    using base32decode_key [OF assms] by (simp add: keyparse_def key_text_def mem_read_def)
qed

theorem keyparse_encodekey_witness:
  "keyparse 32 (Some ([117, 122, 53] @ drop 4 (dns_base32_encodekey (replicate 32 255)))) =
     Some (Some (replicate 31 255 @ [127]))"
  using keyparse_encodekey [of "replicate 32 255"] by simp

text \<open>\<open>base32decode\<close> tests the high bit of \<open>in[j]\<close> (the output index) instead of \<open>in[i]\<close>, so
  that a byte above 127 reaches the 128-entry table: \<open>keyparse\<close> reads outside it on a text of 51
  characters.\<close>

theorem keyparse_reads_outside_table:
  "keyparse 32 (Some (48 # 200 # replicate 49 48)) = None"
  by code_simp

end
