(* ===== verification/Fe25519.thy ===== *)
theory Fe25519
  imports Siphash
begin

section \<open>Arithmetic modulo \<open>2 ^ 255 - 19\<close>\<close>

text \<open>
  The model of \<open>crypto/fe.c\<close> and \<open>crypto/fe25519.c\<close>.  A field element \<open>fe\<close> is 8 limbs of 32
  bits, least significant first, and a product \<open>fel\<close> is 16 limbs of 64 bits.  All sums and
  products wrap at 64 bits as in the code; the lemmas show that none of them does.  The
  theorems say that every routine computes the arithmetic of the integers modulo \<open>p25519\<close> on
  the values \<open>fe_val\<close>, and that \<open>fe25519_tobytes\<close> writes the least representative.
\<close>

type_synonym fe = "u32 list"
type_synonym fel = "u64 list"

subsection \<open>\<open>fe.c\<close>\<close>

definition fe_0 :: fe where
  "fe_0 = replicate 8 0"

definition fe_1 :: fe where
  "fe_1 = fe_0[0 := 1]"

definition fe_copy :: "fe \<Rightarrow> fe" where
  "fe_copy x = map (\<lambda>i. x ! i) [0..<8]"

definition fe_cswap :: "fe \<Rightarrow> fe \<Rightarrow> u32 \<Rightarrow> fe \<times> fe" where
  "fe_cswap f g b =
     (let b' = - b; t = map (\<lambda>i. b' AND (f ! i XOR g ! i)) [0..<8]
      in (map (\<lambda>i. f ! i XOR t ! i) [0..<8], map (\<lambda>i. g ! i XOR t ! i) [0..<8]))"

definition fe_cmov :: "fe \<Rightarrow> fe \<Rightarrow> u32 \<Rightarrow> fe" where
  "fe_cmov f g b =
     (let b' = - b; t = map (\<lambda>i. b' AND (f ! i XOR g ! i)) [0..<8]
      in map (\<lambda>i. f ! i XOR t ! i) [0..<8])"

text \<open>The macros \<open>M\<close>, \<open>M2\<close> and \<open>SQ\<close>: a partial product is added to two neighbouring limbs.\<close>

definition add_limbs :: "nat \<Rightarrow> u64 \<Rightarrow> u64 \<Rightarrow> fel \<Rightarrow> fel" where
  "add_limbs k lo hi o' = (let o1 = o'[k := o' ! k + lo] in o1[k + 1 := o1 ! (k + 1) + hi])"

definition fe_M :: "fe \<Rightarrow> fe \<Rightarrow> nat \<times> nat \<Rightarrow> fel \<Rightarrow> fel" where
  "fe_M a b ij o' =
     (case ij of (i, j) \<Rightarrow> let u = ucast (a ! i) * ucast (b ! j) :: u64
      in add_limbs (i + j) (u AND 0xffffffff) (drop_bit 32 u) o')"

definition fe_mul_wide :: "fe \<Rightarrow> fe \<Rightarrow> fel" where
  "fe_mul_wide a b = fold (fe_M a b) (List.product [0..<8] [0..<8]) (replicate 16 0)"

definition fe_M2 :: "fe \<Rightarrow> nat \<times> nat \<Rightarrow> fel \<Rightarrow> fel" where
  "fe_M2 a ij o' =
     (case ij of (i, j) \<Rightarrow> let u = ucast (a ! i) * ucast (a ! j) :: u64
      in add_limbs (i + j) (2 * (u AND 0xffffffff)) (2 * drop_bit 32 u) o')"

definition fe_SQ :: "fe \<Rightarrow> nat \<Rightarrow> fel \<Rightarrow> fel" where
  "fe_SQ a i o' =
     (let u = ucast (a ! i) * ucast (a ! i) :: u64
      in add_limbs (2 * i) (u AND 0xffffffff) (drop_bit 32 u) o')"

definition sq_pairs :: "(nat \<times> nat) list" where
  "sq_pairs = concat (map (\<lambda>i. map (Pair i) [i + 1..<8]) [0..<8])"

definition fe_sq_wide :: "fe \<Rightarrow> fel" where
  "fe_sq_wide a = fold (fe_SQ a) [0..<8] (fold (fe_M2 a) sq_pairs (replicate 16 0))"

text \<open>\<open>fe_reducesmall\<close>: the subtraction with borrow \<open>pb\<close>, then the selection by mask.\<close>

primrec reduce_borrow :: "(u32 \<times> u32) list \<Rightarrow> u64 \<Rightarrow> u32 list \<times> u64" where
  "reduce_borrow [] pb = ([], pb)"
| "reduce_borrow (rp # rps) pb =
     (let pb1 = pb + ucast (snd rp);
          b = drop_bit 63 (ucast (fst rp) - pb1);
          t = ucast (ucast (fst rp) - pb1 + push_bit 32 b);
          (ts, pb') = reduce_borrow rps b
      in (t # ts, pb'))"

definition fe_reducesmall :: "fe \<Rightarrow> fe \<Rightarrow> u64 \<Rightarrow> fe" where
  "fe_reducesmall r p carry =
     (let (t, pb) = reduce_borrow (zip r p) 0;
          b = drop_bit 63 (carry - pb) - 1
      in map (\<lambda>i. ucast (ucast (r ! i) XOR (b AND ucast (r ! i XOR t ! i)) :: u64)) [0..<8])"

definition fe_iszero3 :: "fe \<Rightarrow> fe \<Rightarrow> fe \<Rightarrow> u64" where
  "fe_iszero3 f g h =
     (let x = fold (\<lambda>i x. x OR h ! i) [0..<8] (fold (\<lambda>i x. x OR g ! i) [0..<8] (fold (\<lambda>i x. x OR f ! i) [0..<8] 0))
      in drop_bit 32 (4294967296 - ucast x))"

definition fe_iszero2 :: "fe \<Rightarrow> fe \<Rightarrow> u64" where
  "fe_iszero2 f g =
     (let x = fold (\<lambda>i x. x OR g ! i) [0..<8] (fold (\<lambda>i x. x OR f ! i) [0..<8] 0)
      in drop_bit 32 (4294967296 - ucast x))"

subsection \<open>\<open>fe25519.c\<close>\<close>

definition fe25519_p :: fe where
  "fe25519_p = [0xffffffed, 0xffffffff, 0xffffffff, 0xffffffff,
     0xffffffff, 0xffffffff, 0xffffffff, 0x7fffffff]"

definition fe25519_p3 :: fel where
  "fe25519_p3 = [0x2ffffffc7, 0x2fffffffd, 0x2fffffffd, 0x2fffffffd,
     0x2fffffffd, 0x2fffffffd, 0x2fffffffd, 0x17ffffffd]"

text \<open>The loop \<open>u += x[i]; o[i] = u & 0xffffffff; u >>= 32\<close> over the summands.\<close>

primrec carry_pass :: "u64 list \<Rightarrow> u64 \<Rightarrow> u64 list \<times> u64" where
  "carry_pass [] u = ([], u)"
| "carry_pass (x # xs) u =
     (let u1 = u + x; (ds, v) = carry_pass xs (drop_bit 32 u1)
      in ((u1 AND 0xffffffff) # ds, v))"

text \<open>
  The two loops with which \<open>fe25519_reducebig\<close>, \<open>fe25519_mul121666\<close>, \<open>fe25519_add\<close> and
  \<open>fe25519_sub\<close> end, on their 8 summands: seven limbs, the last limb at 31 bits, and the
  carry times 19 added at the bottom.
\<close>

definition carry_reduce :: "u64 list \<Rightarrow> fe" where
  "carry_reduce xs =
     (let (lo, u) = carry_pass (map (\<lambda>i. xs ! i) [0..<7]) 0;
          u7 = u + xs ! 7;
          (o', _) = carry_pass (lo @ [u7 AND 0x7fffffff]) (drop_bit 31 u7 * 19)
      in map ucast o')"

definition fe25519_reducebig :: "fel \<Rightarrow> fe" where
  "fe25519_reducebig t = carry_reduce (map (\<lambda>i. t ! i + 38 * t ! (i + 8)) [0..<8])"

definition fe25519_mul :: "fe \<Rightarrow> fe \<Rightarrow> fe" where
  "fe25519_mul a b = fe25519_reducebig (fe_mul_wide a b)"

definition fe25519_sq :: "fe \<Rightarrow> fe" where
  "fe25519_sq a = fe25519_reducebig (fe_sq_wide a)"

definition fe25519_mul121666 :: "fe \<Rightarrow> fe" where
  "fe25519_mul121666 f = carry_reduce (map (\<lambda>i. 121666 * ucast (f ! i)) [0..<8])"

definition fe25519_add :: "fe \<Rightarrow> fe \<Rightarrow> fe" where
  "fe25519_add x y = carry_reduce (map (\<lambda>i. ucast (x ! i) + ucast (y ! i)) [0..<8])"

definition fe25519_sub :: "fe \<Rightarrow> fe \<Rightarrow> fe" where
  "fe25519_sub x y = carry_reduce (map (\<lambda>i. fe25519_p3 ! i - ucast (y ! i) + ucast (x ! i)) [0..<8])"

definition fe25519_neg :: "fe \<Rightarrow> fe" where
  "fe25519_neg x = fe25519_sub fe_0 x"

text \<open>\<open>sqn n a\<close> is \<open>fe25519_sq(t,a); for (i = 1; i < n; ++i) fe25519_sq(t,t);\<close>.\<close>

definition sqn :: "nat \<Rightarrow> fe \<Rightarrow> fe" where
  "sqn n a = (fe25519_sq ^^ (n - 1)) (fe25519_sq a)"

definition fe25519_inv :: "fe \<Rightarrow> fe" where
  "fe25519_inv z =
     (let t0 = sqn 1 z;
          t1 = sqn 2 t0;
          t1 = fe25519_mul z t1;
          t0 = fe25519_mul t0 t1;
          t2 = sqn 1 t0;
          t1 = fe25519_mul t1 t2;
          t2 = sqn 5 t1;
          t1 = fe25519_mul t2 t1;
          t2 = sqn 10 t1;
          t2 = fe25519_mul t2 t1;
          t3 = sqn 20 t2;
          t2 = fe25519_mul t3 t2;
          t2 = sqn 10 t2;
          t1 = fe25519_mul t2 t1;
          t2 = sqn 50 t1;
          t2 = fe25519_mul t2 t1;
          t3 = sqn 100 t2;
          t2 = fe25519_mul t3 t2;
          t2 = sqn 50 t2;
          t1 = fe25519_mul t2 t1;
          t1 = sqn 5 t1
      in fe25519_mul t1 t0)"

definition fe25519_pow22523 :: "fe \<Rightarrow> fe" where
  "fe25519_pow22523 z =
     (let t0 = sqn 1 z;
          t1 = sqn 2 t0;
          t1 = fe25519_mul z t1;
          t0 = fe25519_mul t0 t1;
          t0 = sqn 1 t0;
          t0 = fe25519_mul t1 t0;
          t1 = sqn 5 t0;
          t0 = fe25519_mul t1 t0;
          t1 = sqn 10 t0;
          t1 = fe25519_mul t1 t0;
          t2 = sqn 20 t1;
          t1 = fe25519_mul t2 t1;
          t1 = sqn 10 t1;
          t0 = fe25519_mul t1 t0;
          t1 = sqn 50 t0;
          t1 = fe25519_mul t1 t0;
          t2 = sqn 100 t1;
          t1 = fe25519_mul t2 t1;
          t1 = sqn 50 t1;
          t0 = fe25519_mul t1 t0;
          t0 = sqn 2 t0
      in fe25519_mul t0 z)"

definition fe25519_tobytes :: "fe \<Rightarrow> bytes" where
  "fe25519_tobytes x = concat (map uint32_pack (fe_reducesmall (fe_copy x) fe25519_p 0))"

definition fe25519_frombytes :: "bytes \<Rightarrow> fe" where
  "fe25519_frombytes b =
     (let o' = map (\<lambda>i. uint32_unpack (drop (4 * i) b)) [0..<8] in o'[7 := o' ! 7 AND 0x7fffffff])"

definition fe25519_isnonzero :: "fe \<Rightarrow> int" where
  "fe25519_isnonzero f = verify (fe25519_tobytes f) (replicate 32 0) 32"

definition fe25519_isnegative :: "fe \<Rightarrow> byte" where
  "fe25519_isnegative f = fe25519_tobytes f ! 0 AND 1"

section \<open>Values\<close>

abbreviation W32 :: nat where "W32 \<equiv> 4294967296"

definition p25519 :: nat where
  "p25519 = 2 ^ 255 - 19"

definition fe_val :: "fe \<Rightarrow> nat" where
  "fe_val f = le_val W32 (map unat f)"

definition fel_val :: "fel \<Rightarrow> nat" where
  "fel_val t = le_val W32 (map unat t)"

lemma unat_u32_less [simp]: "unat (w :: u32) < W32"
proof -
  have "unat w < 2 ^ LENGTH(32)" by (rule unsigned_less)
  then show ?thesis by simp
qed

lemma unat_low32: "unat ((x :: u64) AND 0xffffffff) = unat x mod W32"
  using unat_and_mask_mod [of x 32] by (simp add: mask_eq_exp_minus_1)

lemma unat_high32: "unat (drop_bit 32 (x :: u64)) = unat x div W32"
  using unat_drop_bit_div [of 32 x] by simp

lemma unat_u32_u64 [simp]: "unat (ucast (w :: u32) :: u64) = unat w"
proof -
  have "unat (ucast w :: u64) = unat w mod 2 ^ 64" by (simp add: unsigned_ucast_eq take_bit_eq_mod)
  also have "\<dots> = unat w" by (intro mod_less less_trans [OF unat_u32_less]) simp
  finally show ?thesis .
qed

lemma unat_u64_u32: "unat (ucast (w :: u64) :: u32) = unat w mod W32"
  by (simp add: unsigned_ucast_eq take_bit_eq_mod)

subsection \<open>Carries\<close>

lemma carry_pass_val:
  assumes "carry_pass xs u = (ds, v)" "\<forall>x \<in> set xs. unat x < 2 ^ 63" "unat u < 2 ^ 63"
  shows "length ds = length xs \<and> (\<forall>d \<in> set ds. unat d < W32) \<and> (xs \<noteq> [] \<longrightarrow> unat v < W32) \<and>
    fel_val ds + W32 ^ length xs * unat v = unat u + fel_val xs"
  using assms
proof (induction xs arbitrary: u ds v)
  case Nil
  then show ?case by (simp add: fel_val_def)
next
  case (Cons x xs)
  have s: "unat (u + x) = unat u + unat x" using Cons.prems by (intro unat_add_less) simp
  obtain ds1 v1 where r: "carry_pass xs (drop_bit 32 (u + x)) = (ds1, v1)" by fastforce
  have d: "ds = ((u + x) AND 0xffffffff) # ds1" "v = v1" using Cons.prems(1) r by simp_all
  have q: "unat (u + x) div W32 < W32" using Cons.prems s by (simp add: div_less_iff_less_mult)
  have IH: "length ds1 = length xs \<and> (\<forall>d \<in> set ds1. unat d < W32) \<and> (xs \<noteq> [] \<longrightarrow> unat v1 < W32) \<and>
      fel_val ds1 + W32 ^ length xs * unat v1 = unat (u + x) div W32 + fel_val xs"
    using Cons.IH [OF r] Cons.prems q by (simp add: unat_high32)
  have "fel_val ds + W32 ^ Suc (length xs) * unat v =
      unat (u + x) mod W32 + W32 * (fel_val ds1 + W32 ^ length xs * unat v1)"
    by (simp add: d fel_val_def unat_low32 algebra_simps)
  also have "\<dots> = unat (u + x) mod W32 + W32 * (unat (u + x) div W32) + W32 * fel_val xs"
    using IH by (simp add: algebra_simps)
  also have "\<dots> = unat u + fel_val (x # xs)" by (simp only: mod_mult_div_eq s) (simp add: fel_val_def)
  finally have "fel_val ds + W32 ^ Suc (length xs) * unat v = unat u + fel_val (x # xs)" .
  moreover have "unat v < W32"
  proof (cases "xs = []")
    case True
    then have "v = drop_bit 32 (u + x)" using r d(2) by simp
    then show ?thesis using q by (simp add: unat_high32)
  qed (use IH d in simp)
  ultimately show ?case using IH d by (simp add: unat_low32)
qed

definition fe_ok :: "fe \<Rightarrow> bool" where
  "fe_ok f \<longleftrightarrow> length f = 8 \<and> fe_val f < 2 ^ 255 + 2 ^ 40"

lemma map_nth_upt: "length xs = n \<Longrightarrow> map (\<lambda>i. xs ! i) [0..<n] = xs"
  using map_nth [of xs] by simp

lemma fel_val_append: "fel_val (xs @ ys) = fel_val xs + W32 ^ length xs * fel_val ys"
  by (simp add: fel_val_def le_val_append)

lemma p25519_fold: "(a + 2 ^ 255 * w) mod p25519 = (a + 19 * w) mod p25519"
proof -
  have "a + 2 ^ 255 * w = (a + 19 * w) + p25519 * w" by (simp add: p25519_def algebra_simps)
  then show ?thesis by (simp only: mod_mult_self2)
qed

lemma carry_reduce_val:
  assumes "length xs = 8" "\<forall>x \<in> set xs. unat x < 2 ^ 62"
  shows "fe_ok (carry_reduce xs)" "fe_val (carry_reduce xs) mod p25519 = fel_val xs mod p25519"
proof -
  obtain lo u where 1: "carry_pass (map (\<lambda>i. xs ! i) [0..<7]) 0 = (lo, u)" by fastforce
  define u7 where "u7 = u + xs ! 7"
  obtain o' v where 2: "carry_pass (lo @ [u7 AND 0x7fffffff]) (drop_bit 31 u7 * 19) = (o', v)" by fastforce
  have R: "carry_reduce xs = map ucast o'" by (simp add: carry_reduce_def 1 u7_def [symmetric] 2)
  have tk: "map (\<lambda>i. xs ! i) [0..<7] = take 7 xs" using assms(1) by (intro nth_equalityI) simp_all
  have b7: "\<forall>x \<in> set (take 7 xs). unat x < 2 ^ 63"
    using assms(2) by (auto dest!: in_set_takeD bspec)
  have C1: "length lo = 7" "\<forall>d \<in> set lo. unat d < W32" "unat u < W32"
      "fel_val lo + W32 ^ 7 * unat u = fel_val (take 7 xs)"
    using carry_pass_val [OF 1] b7 assms(1) unfolding tk by auto
  have x7: "unat (xs ! 7) < 2 ^ 62" using assms by simp
  have u7: "unat u7 = unat u + unat (xs ! 7)" unfolding u7_def using C1(3) x7 by (intro unat_add_less) simp
  have top: "unat (u7 AND 0x7fffffff) = unat u7 mod 2 ^ 31"
    using unat_and_mask_mod [of u7 31] by (simp add: mask_eq_exp_minus_1)
  define w where "w = unat u7 div 2 ^ 31"
  have w: "w < 2 ^ 32" using u7 C1(3) x7 by (simp add: w_def div_less_iff_less_mult)
  have w19: "unat (drop_bit 31 u7 * 19) = w * 19"
    using w by (subst unat_mult_less) (simp_all add: unat_drop_bit_div w_def)
  have b8: "\<forall>x \<in> set (lo @ [u7 AND 0x7fffffff]). unat x < 2 ^ 63"
  proof -
    have "unat u7 mod 2 ^ 31 < 2 ^ 31" by simp
    then have "unat (u7 AND 0x7fffffff) < 2 ^ 63" unfolding top by (rule less_trans) simp
    moreover have "\<forall>x \<in> set lo. unat x < 2 ^ 63" using C1(2) by (auto dest!: bspec)
    ultimately show ?thesis by simp
  qed
  have C2: "length o' = 8" "\<forall>d \<in> set o'. unat d < W32"
      "fel_val o' + W32 ^ 8 * unat v = w * 19 + fel_val (lo @ [u7 AND 0x7fffffff])"
    using carry_pass_val [OF 2 b8] C1(1) w unfolding w19 by auto
  define L where "L = fel_val lo + W32 ^ 7 * (unat u7 mod 2 ^ 31)"
  have L: "fel_val (lo @ [u7 AND 0x7fffffff]) = L"
    by (simp add: fel_val_append C1(1) L_def top) (simp add: fel_val_def top)
  have "fel_val lo < W32 ^ 7"
    using le_val_less [of "map unat lo" W32] C1(1,2) by (simp add: fel_val_def)
  moreover have "unat u7 mod 2 ^ 31 + 1 \<le> 2 ^ 31" by (simp add: Suc_le_eq)
  then have "W32 ^ 7 * (unat u7 mod 2 ^ 31 + 1) \<le> W32 ^ 7 * 2 ^ 31" by (rule mult_le_mono2)
  ultimately have Lb: "L < 2 ^ 255" by (simp add: L_def)
  have v0: "unat v = 0"
  proof (rule ccontr)
    assume "unat v \<noteq> 0"
    then have "W32 ^ 8 \<le> W32 ^ 8 * unat v" by simp
    then show False using C2(3) L Lb w by simp
  qed
  have val: "fe_val (carry_reduce xs) = fel_val o'"
    using C2(2) by (simp add: R fe_val_def fel_val_def unat_u64_u32 comp_def cong: map_cong)
  have eq: "fel_val o' = L + 19 * w" using C2(3) v0 L by simp
  show "fe_ok (carry_reduce xs)"
    using C2(1) Lb w unfolding fe_ok_def val eq by (simp add: R)
  have "fel_val xs = fel_val (take 7 xs @ [xs ! 7])"
  proof -
    have "take 7 xs @ [xs ! 7] = take (Suc 7) xs" using assms(1) by (intro take_Suc_conv_app_nth [symmetric]) simp
    then show ?thesis using assms(1) by simp
  qed
  also have "\<dots> = fel_val (take 7 xs) + W32 ^ 7 * unat (xs ! 7)"
    using assms(1) by (simp add: fel_val_append) (simp add: fel_val_def)
  also have "\<dots> = fel_val lo + W32 ^ 7 * unat u7"
    using C1(4) by (simp add: u7 algebra_simps)
  also have "unat u7 = unat u7 mod 2 ^ 31 + 2 ^ 31 * w" by (simp add: w_def)
  also have "fel_val lo + W32 ^ 7 * (unat u7 mod 2 ^ 31 + 2 ^ 31 * w) = L + 2 ^ 255 * w"
    by (simp add: L_def algebra_simps)
  finally show "fe_val (carry_reduce xs) mod p25519 = fel_val xs mod p25519"
    unfolding val eq by (simp only: p25519_fold)
qed

subsection \<open>Sums\<close>

lemma fe_val_nth: "length x = 8 \<Longrightarrow> fe_val x = le_val W32 (map (\<lambda>i. unat (x ! i)) [0..<8])"
  unfolding fe_val_def by (subst map_nth_upt [of x 8, symmetric]) (simp_all add: comp_def)

lemma fel_val_map:
  assumes "\<And>i. i < n \<Longrightarrow> unat (f i) = g i"
  shows "fel_val (map f [0..<n]) = le_val W32 (map g [0..<n])"
  unfolding fel_val_def using assms by (auto simp: comp_def intro!: arg_cong [of _ _ "le_val W32"])

lemma carry_reduce_map:
  assumes "\<And>i. i < 8 \<Longrightarrow> unat (f i) = g i" "\<And>i. i < 8 \<Longrightarrow> g i < 2 ^ 62"
  shows "fe_ok (carry_reduce (map f [0..<8]))"
    "fe_val (carry_reduce (map f [0..<8])) mod p25519 = le_val W32 (map g [0..<8]) mod p25519"
proof -
  have b: "\<forall>x \<in> set (map f [0..<8]). unat x < 2 ^ 62" using assms by auto
  show "fe_ok (carry_reduce (map f [0..<8]))" by (rule carry_reduce_val(1) [OF _ b]) simp
  have "fe_val (carry_reduce (map f [0..<8])) mod p25519 = fel_val (map f [0..<8]) mod p25519"
    by (rule carry_reduce_val(2) [OF _ b]) simp
  then show "fe_val (carry_reduce (map f [0..<8])) mod p25519 = le_val W32 (map g [0..<8]) mod p25519"
    by (simp only: fel_val_map [OF assms(1)])
qed

lemma u32_sum_less: "unat (x :: u32) + unat (y :: u32) < 2 ^ 62"
proof -
  have "unat x + unat y < W32 + W32" by (intro add_strict_mono) simp_all
  then show ?thesis by simp
qed

lemma fe25519_add_val:
  assumes "length x = 8" "length y = 8"
  shows "fe_ok (fe25519_add x y)" "fe_val (fe25519_add x y) mod p25519 = (fe_val x + fe_val y) mod p25519"
proof -
  have s: "unat (ucast (x ! i) + ucast (y ! i) :: u64) = unat (x ! i) + unat (y ! i)" for i
    using u32_sum_less [of "x ! i" "y ! i"] by (subst unat_add_less) simp_all
  note C = carry_reduce_map [of "\<lambda>i. ucast (x ! i) + ucast (y ! i)", OF s u32_sum_less]
  show "fe_ok (fe25519_add x y)" unfolding fe25519_add_def by (rule C(1))
  show "fe_val (fe25519_add x y) mod p25519 = (fe_val x + fe_val y) mod p25519"
    unfolding fe25519_add_def C(2) le_val_map_add by (simp only: fe_val_nth assms)
qed

lemma fe25519_mul121666_val:
  assumes "length x = 8"
  shows "fe_ok (fe25519_mul121666 x)" "fe_val (fe25519_mul121666 x) mod p25519 = (121666 * fe_val x) mod p25519"
proof -
  have b: "121666 * unat (x ! i) < 2 ^ 62" for i
  proof -
    have "121666 * unat (x ! i) < 121666 * W32" by (intro mult_strict_left_mono) simp_all
    then show ?thesis by (rule less_le_trans) simp
  qed
  have s: "unat (121666 * ucast (x ! i) :: u64) = 121666 * unat (x ! i)" for i
    using b [of i] by (subst unat_mult_less) simp_all
  note C = carry_reduce_map [of "\<lambda>i. 121666 * ucast (x ! i)", OF s b]
  show "fe_ok (fe25519_mul121666 x)" unfolding fe25519_mul121666_def by (rule C(1))
  show "fe_val (fe25519_mul121666 x) mod p25519 = (121666 * fe_val x) mod p25519"
    unfolding fe25519_mul121666_def C(2) le_val_map_mult by (simp only: fe_val_nth assms)
qed

lemma p3_limbs: "i < 8 \<Longrightarrow> W32 \<le> unat (fe25519_p3 ! i) \<and> unat (fe25519_p3 ! i) < 2 ^ 34"
proof -
  assume "i < 8"
  have "list_all (\<lambda>x. W32 \<le> unat x \<and> unat x < 2 ^ 34) fe25519_p3" by (simp add: fe25519_p3_def)
  moreover have "length fe25519_p3 = 8" by (simp add: fe25519_p3_def)
  ultimately show ?thesis using \<open>i < 8\<close> unfolding list_all_length by auto
qed

lemma p3_val: "le_val W32 (map (\<lambda>i. unat (fe25519_p3 ! i)) [0..<8]) = 3 * p25519"
  by (simp add: fe25519_p3_def upt_rec p25519_def)

lemma fe25519_sub_val:
  assumes "length x = 8" "length y = 8"
  shows "fe_ok (fe25519_sub x y)"
    "(fe_val (fe25519_sub x y) + fe_val y) mod p25519 = fe_val x mod p25519"
proof -
  let ?g = "\<lambda>i. unat (fe25519_p3 ! i) - unat (y ! i) + unat (x ! i)"
  have lt: "unat (y ! i) \<le> unat (fe25519_p3 ! i)" if "i < 8" for i
    using p3_limbs [OF that] unat_u32_less [of "y ! i"] by linarith
  have b: "?g i < 2 ^ 62" if "i < 8" for i
  proof -
    have "?g i \<le> unat (fe25519_p3 ! i) + unat (x ! i)" by simp
    also have "\<dots> < 2 ^ 34 + W32" using p3_limbs [OF that] by (intro add_strict_mono) simp_all
    finally show ?thesis by (rule less_le_trans) simp
  qed
  have d: "unat (fe25519_p3 ! i - ucast (y ! i)) = unat (fe25519_p3 ! i) - unat (y ! i)" if "i < 8" for i
    using lt [OF that] by (subst unat_sub) (simp_all add: word_le_nat_alt)
  have s: "unat (fe25519_p3 ! i - ucast (y ! i) + ucast (x ! i)) = ?g i" if "i < 8" for i
    using b [OF that] d [OF that] by (subst unat_add_less) simp_all
  note C = carry_reduce_map [of "\<lambda>i. fe25519_p3 ! i - ucast (y ! i) + ucast (x ! i)", OF s b]
  show "fe_ok (fe25519_sub x y)" unfolding fe25519_sub_def by (rule C(1))
  have "le_val W32 (map ?g [0..<8]) + fe_val y = le_val W32 (map (\<lambda>i. ?g i + unat (y ! i)) [0..<8])"
    unfolding le_val_map_add by (simp only: fe_val_nth assms)
  also have "map (\<lambda>i. ?g i + unat (y ! i)) [0..<8] = map (\<lambda>i. unat (fe25519_p3 ! i) + unat (x ! i)) [0..<8]"
  proof (intro map_cong refl)
    fix i assume "i \<in> set [0..<8 :: nat]"
    then show "?g i + unat (y ! i) = unat (fe25519_p3 ! i) + unat (x ! i)" using lt [of i] by simp
  qed
  also have "le_val W32 \<dots> = fe_val x + p25519 * 3"
    unfolding le_val_map_add p3_val by (simp only: fe_val_nth assms mult.commute add.commute)
  finally have "(le_val W32 (map ?g [0..<8]) + fe_val y) mod p25519 = fe_val x mod p25519" by simp
  then show "(fe_val (fe25519_sub x y) + fe_val y) mod p25519 = fe_val x mod p25519"
    unfolding fe25519_sub_def using mod_add_cong [OF C(2) refl, of "fe_val y"] by (simp only:)
qed

subsection \<open>Products\<close>

text \<open>The value of a product under construction grows by the partial product, its limbs by less than \<open>c\<close>.\<close>

lemma add_limbs_val:
  assumes "length t = 16" "k < 15" "\<forall>x \<in> set t. unat x \<le> b" "unat lo \<le> c" "unat hi \<le> c" "b + c < 2 ^ 64"
  shows "length (add_limbs k lo hi t) = 16" "\<forall>x \<in> set (add_limbs k lo hi t). unat x \<le> b + c"
    "fel_val (add_limbs k lo hi t) = fel_val t + W32 ^ k * (unat lo + W32 * unat hi)"
proof -
  let ?t1 = "t[k := t ! k + lo]" let ?t2 = "?t1[k + 1 := ?t1 ! (k + 1) + hi]"
  have tk: "unat (t ! k) \<le> b" "unat (t ! (k + 1)) \<le> b" using assms(1-3) by simp_all
  have s: "unat (t ! k + lo) = unat (t ! k) + unat lo" "unat (t ! (k + 1) + hi) = unat (t ! (k + 1)) + unat hi"
    using tk assms(4-6) by (intro unat_add_less; simp)+
  have t2: "add_limbs k lo hi t = ?t2" by (simp add: add_limbs_def)
  show "length (add_limbs k lo hi t) = 16" by (simp add: t2 assms(1))
  show "\<forall>x \<in> set (add_limbs k lo hi t). unat x \<le> b + c"
    using assms(3-5) tk s unfolding t2 by (auto dest!: set_update_subset_insert [THEN subsetD])
  have 1: "fel_val ?t1 + W32 ^ k * unat (t ! k) = fel_val t + W32 ^ k * (unat (t ! k) + unat lo)"
    using le_val_update [of k "map unat t" W32 "unat (t ! k + lo)"] assms(1,2) s(1)
    by (simp add: fel_val_def map_update)
  have 2: "fel_val ?t2 + W32 ^ (k + 1) * unat (t ! (k + 1)) = fel_val ?t1 + W32 ^ (k + 1) * (unat (t ! (k + 1)) + unat hi)"
    using le_val_update [of "k + 1" "map unat ?t1" W32 "unat (t ! (k + 1) + hi)"] assms(1,2) s(2)
    by (simp add: fel_val_def map_update)
  show "fel_val (add_limbs k lo hi t) = fel_val t + W32 ^ k * (unat lo + W32 * unat hi)"
    using 1 2 unfolding t2 by (simp add: algebra_simps)
qed

lemma u32_product: "unat (ucast (x :: u32) * ucast (y :: u32) :: u64) = unat x * unat y"
proof -
  have "unat x * unat y < W32 * W32" by (intro mult_strict_mono) simp_all
  then show ?thesis by (subst unat_mult_less) simp_all
qed

lemma unat_u64_high: "unat (u :: u64) div W32 < W32"
proof -
  have "unat u < 2 ^ LENGTH(64)" by (rule unsigned_less)
  then show ?thesis by (simp add: div_less_iff_less_mult)
qed

lemma split32: "unat (u :: u64) mod W32 + W32 * (unat u div W32) = unat u"
  by simp

definition partial :: "fe \<Rightarrow> fe \<Rightarrow> nat \<times> nat \<Rightarrow> nat" where
  "partial a b ij = unat (a ! fst ij) * W32 ^ fst ij * (unat (b ! snd ij) * W32 ^ snd ij)"

lemma fe_M_val:
  assumes "length t = 16" "i < 8" "j < 8" "\<forall>x \<in> set t. unat x \<le> b" "b + W32 < 2 ^ 64"
  shows "length (fe_M x y (i, j) t) = 16 \<and> (\<forall>w \<in> set (fe_M x y (i, j) t). unat w \<le> b + W32) \<and>
    fel_val (fe_M x y (i, j) t) = fel_val t + partial x y (i, j)"
proof -
  let ?u = "ucast (x ! i) * ucast (y ! j) :: u64"
  have b: "unat (?u AND 0xffffffff) \<le> W32" "unat (drop_bit 32 ?u) \<le> W32"
    using unat_u64_high [of ?u] by (simp_all add: unat_low32 unat_high32 less_imp_le)
  note A = add_limbs_val [OF assms(1) _ assms(4) b assms(5), of "i + j"]
  have "W32 ^ (i + j) * (unat (?u AND 0xffffffff) + W32 * unat (drop_bit 32 ?u)) = partial x y (i, j)"
    unfolding unat_low32 unat_high32 split32 u32_product partial_def by (simp add: power_add algebra_simps)
  then show ?thesis using A assms(2,3) by (simp add: fe_M_def Let_def)
qed

lemma fe_M_fold:
  assumes "length t = 16" "\<forall>x \<in> set t. unat x \<le> b" "\<forall>(i, j) \<in> set ps. i < 8 \<and> j < 8"
    "b + length ps * W32 < 2 ^ 64"
  shows "length (fold (fe_M x y) ps t) = 16 \<and> (\<forall>w \<in> set (fold (fe_M x y) ps t). unat w \<le> b + length ps * W32) \<and>
    fel_val (fold (fe_M x y) ps t) = fel_val t + sum_list (map (partial x y) ps)"
  using assms
proof (induction ps arbitrary: t b)
  case (Cons p ps)
  obtain i j where p: "p = (i, j)" "i < 8" "j < 8" using Cons.prems(3) by auto
  have S: "length (fe_M x y p t) = 16" "\<forall>w \<in> set (fe_M x y p t). unat w \<le> b + W32"
      "fel_val (fe_M x y p t) = fel_val t + partial x y p"
    using fe_M_val [OF Cons.prems(1) p(2,3) Cons.prems(2)] Cons.prems(4) by (simp_all add: p(1))
  have "(b + W32) + length ps * W32 < 2 ^ 64" using Cons.prems(4) by simp
  from Cons.IH [OF S(1,2) _ this] Cons.prems(3) S(3) show ?case by (simp add: algebra_simps)
qed simp

lemma le_val_sum: "le_val B (map f [0..<n]) = (\<Sum>i<n. f i * B ^ i)"
proof (induction n)
  case (Suc n)
  then show ?case by (simp add: le_val_append)
qed simp

lemma fe_val_sum: "length x = 8 \<Longrightarrow> fe_val x = (\<Sum>i<8. unat (x ! i) * W32 ^ i)"
  by (simp only: fe_val_nth le_val_sum)

lemma sum_partial: "sum_list (map (partial x y) (List.product [0..<8] [0..<8])) = fe_val x * fe_val y"
  if "length x = 8" "length y = 8"
proof -
  have "sum_list (map (partial x y) (List.product [0..<8] [0..<8])) =
      (\<Sum>ij \<in> {..<8} \<times> {..<8}. partial x y ij)"
    by (subst sum_list_distinct_conv_sum_set) (simp_all add: distinct_product atLeast0LessThan)
  also have "\<dots> = (\<Sum>i<8. \<Sum>j<8. partial x y (i, j))" by (simp add: sum.cartesian_product)
  also have "\<dots> = fe_val x * fe_val y"
    by (simp only: partial_def fst_conv snd_conv fe_val_sum that sum_product)
  finally show ?thesis .
qed

lemma fe_mul_wide_val:
  assumes "length x = 8" "length y = 8"
  shows "length (fe_mul_wide x y) = 16" "\<forall>w \<in> set (fe_mul_wide x y). unat w \<le> 2 ^ 38"
    "fel_val (fe_mul_wide x y) = fe_val x * fe_val y"
proof -
  have "\<forall>(i, j) \<in> set (List.product [0..<8] [0..<8 :: nat]). i < 8 \<and> j < 8" by auto
  from fe_M_fold [of "replicate 16 0" 0, OF _ _ this, of x y]
  show "length (fe_mul_wide x y) = 16" "\<forall>w \<in> set (fe_mul_wide x y). unat w \<le> 2 ^ 38"
    "fel_val (fe_mul_wide x y) = fe_val x * fe_val y"
    using sum_partial [OF assms] by (simp_all add: fe_mul_wide_def length_product fel_val_def)
qed

lemma reducebig_val:
  assumes "length t = 16" "\<forall>w \<in> set t. unat w \<le> 2 ^ 39"
  shows "fe_ok (fe25519_reducebig t)" "fe_val (fe25519_reducebig t) mod p25519 = fel_val t mod p25519"
proof -
  let ?g = "\<lambda>i. unat (t ! i) + 38 * unat (t ! (i + 8))"
  have bt: "unat (t ! i) \<le> 2 ^ 39" if "i < 16" for i using assms that by simp
  have b: "?g i < 2 ^ 62" if "i < 8" for i
    using bt [of i] bt [of "i + 8"] that by simp
  have m: "unat (38 * t ! (i + 8)) = 38 * unat (t ! (i + 8))" if "i < 8" for i
    using b [OF that] by (subst unat_mult_less) simp_all
  have s: "unat (t ! i + 38 * t ! (i + 8)) = ?g i" if "i < 8" for i
    using b [OF that] m [OF that] by (subst unat_add_less) simp_all
  note C = carry_reduce_map [of "\<lambda>i. t ! i + 38 * t ! (i + 8)", OF s b]
  show "fe_ok (fe25519_reducebig t)" unfolding fe25519_reducebig_def by (rule C(1))
  let ?lo = "le_val W32 (map (\<lambda>i. unat (t ! i)) [0..<8])"
  let ?hi = "le_val W32 (map (\<lambda>i. unat (t ! (i + 8))) [0..<8])"
  have "fel_val t = ?lo + W32 ^ 8 * ?hi"
  proof -
    have "map unat t = map (\<lambda>i. unat (t ! i)) [0..<8] @ map (\<lambda>i. unat (t ! (i + 8))) [0..<8]"
      using assms(1) by (intro nth_equalityI) (auto simp: nth_append)
    then show ?thesis by (simp add: fel_val_def le_val_append)
  qed
  also have "\<dots> = ?lo + 2 ^ 255 * (2 * ?hi)" by simp
  finally have "fel_val t mod p25519 = (?lo + 19 * (2 * ?hi)) mod p25519" by (simp only: p25519_fold)
  also have "?lo + 19 * (2 * ?hi) = le_val W32 (map ?g [0..<8])"
    by (simp add: le_val_map_add le_val_map_mult)
  finally show "fe_val (fe25519_reducebig t) mod p25519 = fel_val t mod p25519"
    unfolding fe25519_reducebig_def by (simp only: C(2))
qed

lemma fe25519_mul_val:
  assumes "length x = 8" "length y = 8"
  shows "fe_ok (fe25519_mul x y)" "fe_val (fe25519_mul x y) mod p25519 = (fe_val x * fe_val y) mod p25519"
proof -
  have "\<forall>w \<in> set (fe_mul_wide x y). unat w \<le> 2 ^ 39" using fe_mul_wide_val(2) [OF assms] by (auto dest!: bspec)
  from reducebig_val [OF fe_mul_wide_val(1) [OF assms] this]
  show "fe_ok (fe25519_mul x y)" "fe_val (fe25519_mul x y) mod p25519 = (fe_val x * fe_val y) mod p25519"
    by (simp_all add: fe25519_mul_def fe_mul_wide_val(3) [OF assms])
qed

subsection \<open>Squares\<close>

lemma double_u64: "unat (u :: u64) < W32 \<Longrightarrow> unat (2 * u) = 2 * unat u"
  by (subst unat_mult_less) simp_all

lemma fe_M2_val:
  assumes "length t = 16" "i < 8" "j < 8" "\<forall>x \<in> set t. unat x \<le> b" "b + 2 * W32 < 2 ^ 64"
  shows "length (fe_M2 x (i, j) t) = 16 \<and> (\<forall>w \<in> set (fe_M2 x (i, j) t). unat w \<le> b + 2 * W32) \<and>
    fel_val (fe_M2 x (i, j) t) = fel_val t + 2 * partial x x (i, j)"
proof -
  let ?u = "ucast (x ! i) * ucast (x ! j) :: u64"
  have d: "unat (2 * (?u AND 0xffffffff)) = 2 * (unat ?u mod W32)" "unat (2 * drop_bit 32 ?u) = 2 * (unat ?u div W32)"
    using unat_u64_high [of ?u] by (simp_all add: double_u64 unat_low32 unat_high32)
  have b: "unat (2 * (?u AND 0xffffffff)) \<le> 2 * W32" "unat (2 * drop_bit 32 ?u) \<le> 2 * W32"
    unfolding d using unat_u64_high [of ?u] by (simp_all add: less_imp_le)
  note A = add_limbs_val [OF assms(1) _ assms(4) b assms(5), of "i + j"]
  have "W32 ^ (i + j) * (2 * (unat ?u mod W32) + W32 * (2 * (unat ?u div W32))) = W32 ^ (i + j) * (2 * unat ?u)"
    using split32 [of ?u] by (metis (no_types, lifting) distrib_left mult.left_commute)
  also have "\<dots> = 2 * partial x x (i, j)"
    unfolding u32_product partial_def by (simp add: power_add algebra_simps)
  finally show ?thesis using A assms(2,3) d by (simp add: fe_M2_def Let_def)
qed

lemma fe_M2_fold:
  assumes "length t = 16" "\<forall>x \<in> set t. unat x \<le> b" "\<forall>(i, j) \<in> set ps. i < 8 \<and> j < 8"
    "b + length ps * (2 * W32) < 2 ^ 64"
  shows "length (fold (fe_M2 x) ps t) = 16 \<and> (\<forall>w \<in> set (fold (fe_M2 x) ps t). unat w \<le> b + length ps * (2 * W32)) \<and>
    fel_val (fold (fe_M2 x) ps t) = fel_val t + 2 * sum_list (map (partial x x) ps)"
  using assms
proof (induction ps arbitrary: t b)
  case (Cons p ps)
  obtain i j where p: "p = (i, j)" "i < 8" "j < 8" using Cons.prems(3) by auto
  have S: "length (fe_M2 x p t) = 16" "\<forall>w \<in> set (fe_M2 x p t). unat w \<le> b + 2 * W32"
      "fel_val (fe_M2 x p t) = fel_val t + 2 * partial x x p"
    using fe_M2_val [OF Cons.prems(1) p(2,3) Cons.prems(2)] Cons.prems(4) by (simp_all add: p(1))
  have "(b + 2 * W32) + length ps * (2 * W32) < 2 ^ 64" using Cons.prems(4) by simp
  from Cons.IH [OF S(1,2) _ this] Cons.prems(3) S(3) show ?case by (simp add: algebra_simps)
qed simp

lemma fe_SQ_M: "fe_SQ x i = fe_M x x (i, i)"
  by (rule ext) (simp add: fe_SQ_def fe_M_def mult_2)

lemma fold_SQ: "fold (fe_SQ x) is t = fold (fe_M x x) (map (\<lambda>i. (i, i)) is) t"
  by (induction "is" arbitrary: t) (simp_all add: fe_SQ_M)

lemma sum_squares:
  "2 * sum_list (map (partial x x) sq_pairs) + sum_list (map (partial x x) (map (\<lambda>i. (i, i)) [0..<8])) =
   sum_list (map (partial x x) (List.product [0..<8] [0..<8]))"
proof -
  have sym: "partial x x (j, i) = partial x x (i, j)" for i j by (simp add: partial_def ac_simps)
  show ?thesis
    by (simp add: sq_pairs_def upt_rec sym)
qed

lemma sq_pairs_facts: "length sq_pairs = 28" "\<forall>(i, j) \<in> set sq_pairs. i < 8 \<and> j < 8"
  by (simp_all add: sq_pairs_def upt_rec)

lemma fe_sq_wide_val:
  assumes "length x = 8"
  shows "length (fe_sq_wide x) = 16" "\<forall>w \<in> set (fe_sq_wide x). unat w \<le> 2 ^ 39"
    "fel_val (fe_sq_wide x) = fe_val x * fe_val x"
proof -
  let ?t = "fold (fe_M2 x) sq_pairs (replicate 16 0)" let ?d = "map (\<lambda>i. (i, i)) [0..<8 :: nat]"
  have 1: "length ?t = 16" "\<forall>w \<in> set ?t. unat w \<le> 28 * (2 * W32)"
      "fel_val ?t = 2 * sum_list (map (partial x x) sq_pairs)"
    using fe_M2_fold [of "replicate 16 0" 0, OF _ _ sq_pairs_facts(2), of x] sq_pairs_facts(1)
    by (simp_all add: fel_val_def)
  have "\<forall>(i, j) \<in> set ?d. i < 8 \<and> j < 8" by auto
  from fe_M_fold [OF 1(1,2) this, of x x]
  have 2: "length (fe_sq_wide x) = 16" "\<forall>w \<in> set (fe_sq_wide x). unat w \<le> 28 * (2 * W32) + 8 * W32"
      "fel_val (fe_sq_wide x) = fel_val ?t + sum_list (map (partial x x) ?d)"
    unfolding fe_sq_wide_def fold_SQ by (simp_all del: upt_rec_numeral)
  show "length (fe_sq_wide x) = 16" by (rule 2(1))
  show "\<forall>w \<in> set (fe_sq_wide x). unat w \<le> 2 ^ 39" using 2(2) by (auto dest!: bspec)
  show "fel_val (fe_sq_wide x) = fe_val x * fe_val x"
    unfolding 2(3) 1(3) sum_squares by (rule sum_partial [OF assms assms])
qed

lemma fe25519_sq_val:
  assumes "length x = 8"
  shows "fe_ok (fe25519_sq x)" "fe_val (fe25519_sq x) mod p25519 = (fe_val x * fe_val x) mod p25519"
  using reducebig_val [OF fe_sq_wide_val(1) [OF assms] fe_sq_wide_val(2) [OF assms]]
  by (simp_all add: fe25519_sq_def fe_sq_wide_val(3) [OF assms])

subsection \<open>Powers\<close>

text \<open>\<open>f\<close> represents the \<open>e\<close>-th power of \<open>z\<close>.\<close>

definition fe_pow :: "nat \<Rightarrow> nat \<Rightarrow> fe \<Rightarrow> bool" where
  "fe_pow z e f \<longleftrightarrow> length f = 8 \<and> fe_val f mod p25519 = z ^ e mod p25519"

lemma fe_ok_length: "fe_ok f \<Longrightarrow> length f = 8"
  by (simp add: fe_ok_def)

lemma fe_pow_mul:
  assumes "fe_pow z a f" "fe_pow z b g"
  shows "fe_pow z (a + b) (fe25519_mul f g)"
proof -
  have l: "length f = 8" "length g = 8" and e: "fe_val f mod p25519 = z ^ a mod p25519" "fe_val g mod p25519 = z ^ b mod p25519"
    using assms by (simp_all add: fe_pow_def)
  have "(fe_val f * fe_val g) mod p25519 = (z ^ a * z ^ b) mod p25519" by (rule mod_mult_cong [OF e])
  then show ?thesis
    unfolding fe_pow_def using fe25519_mul_val [OF l] fe_ok_length by (simp add: power_add)
qed

lemma fe_pow_sq:
  assumes "fe_pow z a f"
  shows "fe_pow z (2 * a) (fe25519_sq f)"
proof -
  have l: "length f = 8" and e: "fe_val f mod p25519 = z ^ a mod p25519" using assms by (simp_all add: fe_pow_def)
  have "(fe_val f * fe_val f) mod p25519 = (z ^ a * z ^ a) mod p25519" by (rule mod_mult_cong [OF e e])
  then show ?thesis
    unfolding fe_pow_def mult_2 power_add using fe25519_sq_val [OF l] fe_ok_length by simp
qed

lemma fe_pow_iterate: "fe_pow z a f \<Longrightarrow> fe_pow z (2 ^ n * a) ((fe25519_sq ^^ n) f)"
proof (induction n)
  case (Suc n)
  then show ?case using fe_pow_sq [of z "2 ^ n * a"] by (simp add: mult.assoc)
qed simp

lemma fe_pow_sqn: "fe_pow z a f \<Longrightarrow> 0 < n \<Longrightarrow> fe_pow z (2 ^ n * a) (sqn n f)"
  using fe_pow_iterate [OF fe_pow_sq, of z a f "n - 1"]
  by (cases n) (simp_all add: sqn_def ac_simps)

lemma fe_pow_start: "length z = 8 \<Longrightarrow> fe_pow (fe_val z) 1 z"
  by (simp add: fe_pow_def)

text \<open>The common part of the two addition chains: the powers \<open>9\<close>, \<open>11\<close> and \<open>2 ^ 250 - 1\<close>.\<close>

definition chain9 :: "fe \<Rightarrow> fe" where
  "chain9 z = fe25519_mul z (sqn 2 (sqn 1 z))"

definition chain11 :: "fe \<Rightarrow> fe" where
  "chain11 z = fe25519_mul (sqn 1 z) (chain9 z)"

definition chain250 :: "fe \<Rightarrow> fe" where
  "chain250 z =
     (let d = fe25519_mul (chain9 z) (sqn 1 (chain11 z));
          e = fe25519_mul (sqn 5 d) d;
          f = fe25519_mul (sqn 10 e) e;
          g = fe25519_mul (sqn 20 f) f;
          h = fe25519_mul (sqn 10 g) e;
          i = fe25519_mul (sqn 50 h) h;
          j = fe25519_mul (sqn 100 i) i
      in fe25519_mul (sqn 50 j) h)"

lemma chain_pow:
  assumes "length z = 8"
  shows "fe_pow (fe_val z) 11 (chain11 z)" "fe_pow (fe_val z) (2 ^ 250 - 1) (chain250 z)"
proof -
  let ?P = "fe_pow (fe_val z)"
  note z = fe_pow_start [OF assms]
  have a: "?P 2 (sqn 1 z)" using fe_pow_sqn [OF z, of 1] by simp
  have b: "?P 9 (chain9 z)" using fe_pow_mul [OF z fe_pow_sqn [OF a, of 2]] by (simp add: chain9_def)
  show c: "?P 11 (chain11 z)" using fe_pow_mul [OF a b] by (simp add: chain11_def)
  define d where "d = fe25519_mul (chain9 z) (sqn 1 (chain11 z))"
  define e where "e = fe25519_mul (sqn 5 d) d"
  define f where "f = fe25519_mul (sqn 10 e) e"
  define g where "g = fe25519_mul (sqn 20 f) f"
  define h where "h = fe25519_mul (sqn 10 g) e"
  define i where "i = fe25519_mul (sqn 50 h) h"
  define j where "j = fe25519_mul (sqn 100 i) i"
  have d: "?P (2 ^ 5 - 1) d" using fe_pow_mul [OF b fe_pow_sqn [OF c, of 1]] by (simp add: d_def)
  have e: "?P (2 ^ 10 - 1) e" using fe_pow_mul [OF fe_pow_sqn [OF d, of 5] d] by (simp add: e_def)
  have f: "?P (2 ^ 20 - 1) f" using fe_pow_mul [OF fe_pow_sqn [OF e, of 10] e] by (simp add: f_def)
  have g: "?P (2 ^ 40 - 1) g" using fe_pow_mul [OF fe_pow_sqn [OF f, of 20] f] by (simp add: g_def)
  have h: "?P (2 ^ 50 - 1) h" using fe_pow_mul [OF fe_pow_sqn [OF g, of 10] e] by (simp add: h_def)
  have i: "?P (2 ^ 100 - 1) i" using fe_pow_mul [OF fe_pow_sqn [OF h, of 50] h] by (simp add: i_def)
  have j: "?P (2 ^ 200 - 1) j" using fe_pow_mul [OF fe_pow_sqn [OF i, of 100] i] by (simp add: j_def)
  have "chain250 z = fe25519_mul (sqn 50 j) h"
    unfolding chain250_def Let_def d_def [symmetric] e_def [symmetric] f_def [symmetric] g_def [symmetric]
      h_def [symmetric] i_def [symmetric] j_def [symmetric] ..
  then show "?P (2 ^ 250 - 1) (chain250 z)" using fe_pow_mul [OF fe_pow_sqn [OF j, of 50] h] by simp
qed

lemma fe25519_inv_pow:
  assumes "length z = 8"
  shows "fe_pow (fe_val z) (2 ^ 255 - 21) (fe25519_inv z)"
proof -
  have "fe25519_inv z = fe25519_mul (sqn 5 (chain250 z)) (chain11 z)"
    by (simp only: fe25519_inv_def chain250_def chain11_def chain9_def Let_def)
  then show ?thesis
    using fe_pow_mul [OF fe_pow_sqn [OF chain_pow(2) [OF assms], of 5] chain_pow(1) [OF assms]] by simp
qed

lemma fe25519_pow22523_pow:
  assumes "length z = 8"
  shows "fe_pow (fe_val z) (2 ^ 252 - 3) (fe25519_pow22523 z)"
proof -
  have "fe25519_pow22523 z = fe25519_mul (sqn 2 (chain250 z)) z"
    by (simp only: fe25519_pow22523_def chain250_def chain11_def chain9_def Let_def)
  then show ?thesis
    using fe_pow_mul [OF fe_pow_sqn [OF chain_pow(2) [OF assms], of 2] fe_pow_start [OF assms]] by simp
qed

subsection \<open>Bytes\<close>

text \<open>The borrow loop computes a difference with one borrow at its end.\<close>

lemma reduce_borrow_val:
  assumes "reduce_borrow rps pb = (ts, pb')" "unat pb \<le> 1"
  shows "length ts = length rps \<and> unat pb' \<le> 1 \<and>
    fe_val ts + fe_val (map snd rps) + unat pb = fe_val (map fst rps) + W32 ^ length rps * unat pb'"
  using assms
proof (induction rps arbitrary: pb ts)
  case Nil
  then show ?case by (simp add: fe_val_def)
next
  case (Cons rp rps)
  define r where "r = unat (fst rp)"
  define q where "q = unat pb + unat (snd rp)"
  define pb1 where "pb1 = pb + ucast (snd rp)"
  define df where "df = ucast (fst rp) - pb1"
  obtain ts1 where rec: "reduce_borrow rps (drop_bit 63 df) = (ts1, pb')"
      and ts: "ts = ucast (df + push_bit 32 (drop_bit 63 df)) # ts1"
    using Cons.prems(1) by (auto simp: Let_def pb1_def df_def split: prod.splits)
  have rb: "r < W32" "q \<le> W32"
    using unat_u32_less [of "fst rp"] unat_u32_less [of "snd rp"] Cons.prems(2) unfolding r_def q_def by linarith+
  have p1: "unat pb1 = q" unfolding pb1_def q_def using rb(2) by (subst unat_add_less) (simp_all add: q_def)
  have v: "unat df = (if q \<le> r then r - q else 2 ^ 64 + r - q)"
  proof (cases "q \<le> r")
    case True
    then show ?thesis unfolding df_def by (subst unat_sub) (simp_all add: word_le_nat_alt p1 r_def)
  next
    case False
    have "unat df = (2 ^ 64 + r - q) mod 2 ^ 64"
      unfolding df_def using False rb by (subst unat_sub_if') (simp add: word_le_nat_alt p1 r_def)
    then show ?thesis using False rb by simp
  qed
  have b: "unat (drop_bit 63 df) = (if q \<le> r then 0 else 1)"
    using v rb by (auto simp: unat_drop_bit_div)
  have t: "unat (ucast (df + push_bit 32 (drop_bit 63 df)) :: u32) = (if q \<le> r then r - q else W32 + r - q)"
  proof (cases "q \<le> r")
    case True
    then have "drop_bit 63 df = 0" using b by (simp add: unat_eq_0)
    then show ?thesis using True v rb by (simp add: unat_u64_u32)
  next
    case False
    then have one: "drop_bit 63 df = 1" using b by (intro word_eqI_nat) simp
    have "unat (df + push_bit 32 1) = (2 ^ 64 + r - q + W32) mod 2 ^ 64"
      using v False by (simp add: unat_word_ariths push_bit_eq_mult)
    also have "\<dots> = W32 + r - q"
    proof -
      have "2 ^ 64 + r - q + W32 = (W32 + r - q) + 2 ^ 64" using rb by simp
      moreover have "W32 + r - q < 2 ^ 64" using False rb by simp
      ultimately show ?thesis by (simp only: mod_add_self2 mod_less)
    qed
    finally show ?thesis using False rb one by (simp add: unat_u64_u32)
  qed
  have IH: "length ts1 = length rps" "unat pb' \<le> 1"
      "fe_val ts1 + fe_val (map snd rps) + unat (drop_bit 63 df) = fe_val (map fst rps) + W32 ^ length rps * unat pb'"
    using Cons.IH [OF rec] b by auto
  have head: "unat (ucast (df + push_bit 32 (drop_bit 63 df)) :: u32) + q = r + W32 * unat (drop_bit 63 df)"
    using rb by (simp add: t b)
  have "fe_val ts + fe_val (map snd (rp # rps)) + unat pb =
      (unat (ucast (df + push_bit 32 (drop_bit 63 df)) :: u32) + q) + W32 * (fe_val ts1 + fe_val (map snd rps))"
    by (simp add: ts fe_val_def q_def algebra_simps)
  also have "\<dots> = r + W32 * (fe_val ts1 + fe_val (map snd rps) + unat (drop_bit 63 df))"
    by (simp only: head) (simp add: algebra_simps)
  also have "\<dots> = fe_val (map fst (rp # rps)) + W32 ^ length (rp # rps) * unat pb'"
    by (simp only: IH(3)) (simp add: fe_val_def r_def algebra_simps)
  finally show ?case using IH(1,2) ts by simp
qed

lemma fe_val_less: "fe_val f < W32 ^ length f"
  using le_val_less [of "map unat f" W32] by (auto simp: fe_val_def)

lemma select_mask:
  "(ucast (ucast (r :: u32) XOR ((if c then 0 else - 1) AND ucast (r XOR t)) :: u64) :: u32) = (if c then r else t)"
  by (intro bit_word_eqI) (auto simp: bit_simps bit_ucast_iff)

lemma fe_reducesmall_val:
  assumes "length r = 8" "length p = 8"
  shows "length (fe_reducesmall r p 0) = 8"
    "fe_val (fe_reducesmall r p 0) = (if fe_val p \<le> fe_val r then fe_val r - fe_val p else fe_val r)"
proof -
  obtain t pb where B: "reduce_borrow (zip r p) 0 = (t, pb)" by fastforce
  have C: "length t = 8" "unat pb \<le> 1" "fe_val t + fe_val p = fe_val r + W32 ^ 8 * unat pb"
    using reduce_borrow_val [OF B] assms by simp_all
  have lt: "fe_val t < W32 ^ 8" "fe_val r < W32 ^ 8" using fe_val_less [of t] fe_val_less [of r] C(1) assms(1) by simp_all
  have sel: "drop_bit 63 (0 - pb) - 1 = (if pb \<noteq> 0 then 0 else - 1)"
  proof (cases "pb = 0")
    case False
    then have "pb = 1" using C(2) by (intro word_eqI_nat) (simp add: le_Suc_eq unat_eq_0)
    then show ?thesis by simp
  qed simp
  have R: "fe_reducesmall r p 0 = (if pb \<noteq> 0 then r else t)"
    using C(1) assms by (simp add: fe_reducesmall_def B sel [simplified] select_mask map_nth_upt cong: if_cong)
  show "length (fe_reducesmall r p 0) = 8" using R C(1) assms(1) by simp
  show "fe_val (fe_reducesmall r p 0) = (if fe_val p \<le> fe_val r then fe_val r - fe_val p else fe_val r)"
  proof (cases "pb = 0")
    case True
    then show ?thesis using R C(3) by simp
  next
    case False
    then have "unat pb = 1" using C(2) by (simp add: le_Suc_eq unat_eq_0)
    then show ?thesis using R C(3) lt False by simp
  qed
qed

text \<open>The value of a little-endian byte string.\<close>

definition bytes_val :: "bytes \<Rightarrow> nat" where
  "bytes_val b = le_val 256 (map unat b)"

lemma bytes_val_pack_le: "bytes_val (pack_le n (x :: 'a::len word)) = unat x mod 256 ^ n" if "8 \<le> LENGTH('a)"
proof (induction n arbitrary: x)
  case 0
  then show ?case by (simp add: bytes_val_def)
next
  case (Suc n)
  have "unat (ucast x :: byte) = unat x mod 256" by (simp add: unsigned_ucast_eq take_bit_eq_mod)
  moreover have "bytes_val (pack_le n (drop_bit 8 x)) = unat x div 256 mod 256 ^ n"
    using Suc [of "drop_bit 8 x"] unat_drop_bit_div [of 8 x] by simp
  ultimately show ?case by (simp add: bytes_val_def mod_mult2_eq [of _ 256] algebra_simps)
qed

lemma bytes_val_pack32: "bytes_val (uint32_pack x) = unat x"
  using bytes_val_pack_le [of 4 x] by (simp add: uint32_pack_def)

lemma bytes_val_append: "bytes_val (a @ b) = bytes_val a + 256 ^ length a * bytes_val b"
  by (simp add: bytes_val_def le_val_append)

lemma bytes_val_packs: "bytes_val (concat (map uint32_pack xs)) = fe_val xs"
  by (induction xs) (simp_all add: bytes_val_append bytes_val_pack32 fe_val_def length_packs, simp add: bytes_val_def)

lemma length_packs_concat: "length (concat (map uint32_pack xs)) = 4 * length xs"
  by (induction xs) (simp_all add: length_packs)

lemma unat_unpack32: "4 \<le> length b \<Longrightarrow> unat (uint32_unpack b) = bytes_val (take 4 b)"
proof -
  assume "4 \<le> length b"
  then have "uint32_pack (uint32_unpack b) = take 4 b"
    using uint32_pack_unpack [of "take 4 b"] by (simp add: uint32_unpack_def)
  then show ?thesis using bytes_val_pack32 [of "uint32_unpack b"] by simp
qed

lemma p25519_value: "fe_val fe25519_p = p25519" "length fe25519_p = 8"
  by (simp_all add: fe25519_p_def fe_val_def p25519_def)

lemma fe25519_tobytes_val:
  assumes "fe_ok f"
  shows "length (fe25519_tobytes f) = 32" "bytes_val (fe25519_tobytes f) = fe_val f mod p25519"
proof -
  have l: "length f = 8" "fe_val f < 2 ^ 255 + 2 ^ 40" using assms by (simp_all add: fe_ok_def)
  have c: "fe_copy f = f" using l(1) by (simp add: fe_copy_def map_nth_upt)
  note R = fe_reducesmall_val [OF l(1) p25519_value(2)]
  show "length (fe25519_tobytes f) = 32" by (simp add: fe25519_tobytes_def c length_packs_concat R(1))
  have "fe_val f < 2 * p25519" using l(2) by (simp add: p25519_def)
  then have "fe_val f mod p25519 = (if p25519 \<le> fe_val f then fe_val f - p25519 else fe_val f)"
    by (simp add: mod_if)
  then show "bytes_val (fe25519_tobytes f) = fe_val f mod p25519"
    by (simp add: fe25519_tobytes_def c bytes_val_packs R(2) p25519_value)
qed

lemma fe_val_unpacks: "length b = 4 * n \<Longrightarrow> fe_val (map (\<lambda>i. uint32_unpack (drop (4 * i) b)) [0..<n]) = bytes_val b"
proof (induction n arbitrary: b)
  case 0
  then show ?case by (simp add: fe_val_def bytes_val_def)
next
  case (Suc n)
  have "map (\<lambda>i. uint32_unpack (drop (4 * i) b)) [0..<Suc n] =
      uint32_unpack b # map (\<lambda>i. uint32_unpack (drop (4 * i) (drop 4 b))) [0..<n]"
    by (simp add: upt_conv_Cons map_Suc_upt [symmetric] comp_def add.commute del: upt_Suc)
  moreover have "bytes_val b = bytes_val (take 4 b) + W32 * bytes_val (drop 4 b)"
    using bytes_val_append [of "take 4 b" "drop 4 b"] Suc.prems by simp
  ultimately show ?case using Suc.IH [of "drop 4 b"] Suc.prems unat_unpack32 [of b] by (simp add: fe_val_def)
qed

lemma fe25519_frombytes_val:
  assumes "length b = 32"
  shows "fe_ok (fe25519_frombytes b)" "fe_val (fe25519_frombytes b) = bytes_val b mod 2 ^ 255"
proof -
  define f where "f = map (\<lambda>i. uint32_unpack (drop (4 * i) b)) [0..<8]"
  have f: "length f = 8" "fe_val f = bytes_val b" using fe_val_unpacks [of b 8] assms by (simp_all add: f_def)
  have F: "fe25519_frombytes b = f[7 := f ! 7 AND 0x7fffffff]" by (simp add: fe25519_frombytes_def f_def [symmetric] Let_def)
  define L where "L = fe_val (take 7 f)"
  have L: "L < W32 ^ 7" using fe_val_less [of "take 7 f"] f(1) by (simp add: L_def)
  have "f = take 7 f @ [f ! 7]"
    using take_Suc_conv_app_nth [of 7 f] f(1) by simp
  then have "fe_val f = fe_val (take 7 f @ [f ! 7])" by simp
  then have v: "bytes_val b = L + W32 ^ 7 * unat (f ! 7)"
    unfolding f(2) using f(1) by (simp add: fe_val_def L_def le_val_append)
  have top: "unat (f ! 7 AND 0x7fffffff) = unat (f ! 7) mod 2 ^ 31"
    using unat_and_mask_mod [of "f ! 7" 31] by (simp add: mask_eq_exp_minus_1)
  have "f[7 := f ! 7 AND 0x7fffffff] = take 7 f @ [f ! 7 AND 0x7fffffff]"
    using upd_conv_take_nth_drop [of 7 f] f(1) by simp
  then have w: "fe_val (fe25519_frombytes b) = L + W32 ^ 7 * (unat (f ! 7) mod 2 ^ 31)"
    using f(1) by (simp add: F fe_val_def L_def le_val_append top)
  have m: "unat (f ! 7) mod 2 ^ 31 < 2 ^ 31" by simp
  have lt: "L + W32 ^ 7 * (unat (f ! 7) mod 2 ^ 31) < 2 ^ 255"
  proof -
    have "W32 ^ 7 * (unat (f ! 7) mod 2 ^ 31 + 1) \<le> W32 ^ 7 * 2 ^ 31" using m by (intro mult_le_mono2) linarith
    then show ?thesis using L by simp
  qed
  have "bytes_val b = L + W32 ^ 7 * (unat (f ! 7) mod 2 ^ 31) + 2 ^ 255 * (unat (f ! 7) div 2 ^ 31)"
  proof -
    have "W32 ^ 7 * unat (f ! 7) = W32 ^ 7 * (unat (f ! 7) mod 2 ^ 31) + W32 ^ 7 * (2 ^ 31 * (unat (f ! 7) div 2 ^ 31))"
      by (simp only: distrib_left [symmetric] mod_mult_div_eq)
    then show ?thesis unfolding v by simp
  qed
  then have "bytes_val b mod 2 ^ 255 = L + W32 ^ 7 * (unat (f ! 7) mod 2 ^ 31)"
    using lt by (simp only: mod_mult_self2 mod_less)
  then show val: "fe_val (fe25519_frombytes b) = bytes_val b mod 2 ^ 255" using w by simp
  show "fe_ok (fe25519_frombytes b)" using lt w f(1) by (simp add: fe_ok_def F)
qed

lemma fe_cswap_eq:
  assumes "length f = 8" "length g = 8"
  shows "fe_cswap f g (if s then 1 else 0) = (if s then (g, f) else (f, g))"
proof -
  have x: "(a XOR (- 1 AND (a XOR b)) :: u32) = b" for a b by (intro bit_word_eqI) (auto simp: bit_simps)
  have y: "(b XOR (- 1 AND (a XOR b)) :: u32) = a" for a b by (intro bit_word_eqI) (auto simp: bit_simps)
  show ?thesis
    using assms x y by (cases s) (auto simp: fe_cswap_def Let_def intro!: nth_equalityI)
qed

lemma fe_const_val: "fe_ok fe_0" "fe_ok fe_1" "fe_val fe_0 = 0" "fe_val fe_1 = 1"
proof -
  have e: "fe_1 = [1, 0, 0, 0, 0, 0, 0, 0]" by (simp add: fe_1_def fe_0_def numeral_eq_Suc)
  show "fe_ok fe_1" "fe_val fe_1 = 1" unfolding fe_ok_def fe_val_def e by simp_all
  show "fe_ok fe_0" "fe_val fe_0 = 0" by (simp_all add: fe_ok_def fe_0_def fe_val_def)
qed

end
