(* ===== verification/Salsa.thy ===== *)
theory Salsa
  imports Fe25519
begin

section \<open>Salsa20, HSalsa20 and XSalsa20\<close>

text \<open>
  The stream cipher of the two DNSCurve programs of the repository: dq (\<open>crypto/salsa.c\<close>,
  \<open>crypto_core_hsalsa20.c\<close>, \<open>crypto_stream_salsa20.c\<close>, \<open>crypto_stream_xsalsa20.c\<close>) and the NaCl
  reference code that curvedns is built with (\<open>nacl/crypto_core/salsa20/ref/core.c\<close>,
  \<open>nacl/crypto_core/hsalsa20/ref/core.c\<close>, \<open>nacl/crypto_stream/salsa20/ref\<close>,
  \<open>nacl/crypto_stream/xsalsa20/ref\<close>).  The first rotates a 16-word array between rounds, the
  second unrolls double rounds on 16 variables; the theorems show that they produce the same
  bytes.
\<close>

definition rotl32 :: "u32 \<Rightarrow> nat \<Rightarrow> u32" where
  "rotl32 x c = push_bit c x OR drop_bit (32 - c) x"

subsection \<open>dq\<close>

definition salsa_quarter :: "u32 \<times> u32 \<times> u32 \<times> u32 \<Rightarrow> u32 \<times> u32 \<times> u32 \<times> u32" where
  "salsa_quarter t =
     (case t of (t0, t1, t2, t3) \<Rightarrow>
      let t1 = t1 XOR rotl32 (t0 + t3) 7;
          t2 = t2 XOR rotl32 (t1 + t0) 9;
          t3 = t3 XOR rotl32 (t2 + t1) 13;
          t0 = t0 XOR rotl32 (t3 + t2) 18
      in (t0, t1, t2, t3))"

definition salsa_round :: "u32 list \<Rightarrow> u32 list" where
  "salsa_round x =
     fold (\<lambda>j w. case salsa_quarter (x ! (5 * j mod 16), x ! ((5 * j + 4) mod 16), x ! ((5 * j + 8) mod 16), x ! ((5 * j + 12) mod 16)) of
        (t0, t1, t2, t3) \<Rightarrow>
          w[4 * j + j mod 4 := t0, 4 * j + (j + 1) mod 4 := t1, 4 * j + (j + 2) mod 4 := t2, 4 * j + (j + 3) mod 4 := t3])
       [0..<4] (replicate 16 0)"

definition salsa_init :: "u32 list \<Rightarrow> u32 list \<Rightarrow> u32 list \<Rightarrow> u32 list" where
  "salsa_init n k c =
     fold (\<lambda>i x. x[i * 5 := c ! i, i + 1 := k ! i, i + 6 := n ! i, i + 11 := k ! (i + 4)]) [0..<4] (replicate 16 0)"

definition salsa_core :: "u32 list \<Rightarrow> u32 list \<Rightarrow> u32 list \<Rightarrow> bool \<Rightarrow> nat \<Rightarrow> bytes" where
  "salsa_core n k c h r =
     (let y = salsa_init n k c; x = (salsa_round ^^ r) y
      in if h
         then let x = map (\<lambda>i. x ! i + y ! i) [0..<16];
                  x = fold (\<lambda>i x. x[5 * i := x ! (5 * i) - c ! i, 6 + i := x ! (6 + i) - n ! i]) [0..<4] x
              in concat (map (\<lambda>i. uint32_pack (x ! (5 * i))) [0..<4]) @ concat (map (\<lambda>i. uint32_pack (x ! (6 + i))) [0..<4])
         else concat (map (\<lambda>i. uint32_pack (x ! i + y ! i)) [0..<16]))"

definition unpacks :: "nat \<Rightarrow> bytes \<Rightarrow> u32 list" where
  "unpacks n b = map (\<lambda>i. uint32_unpack (drop (4 * i) b)) [0..<n]"

definition salsa_sigma :: "u32 list" where
  "salsa_sigma = [0x61707865, 0x3320646E, 0x79622D32, 0x6B206574]"

text \<open>The counter: \<open>u = 1; for (i = 0; i < 2; ++i) { u += n[i + 2]; n[i + 2] = u; u >>= 32; }\<close>.\<close>

definition salsa_bump :: "u32 list \<Rightarrow> u32 list" where
  "salsa_bump n =
     (let u = 1 + ucast (n ! 2) :: u64; n = n[2 := ucast u]; u = drop_bit 32 u;
          u = u + ucast (n ! 3)
      in n[3 := ucast u])"

text \<open>\<open>m\<close> is \<open>None\<close> for the null pointer; the result is the \<open>l\<close> bytes stored at \<open>c\<close>.\<close>

function salsa_stream_loop :: "nat \<Rightarrow> u32 list \<Rightarrow> u32 list \<Rightarrow> bytes option \<Rightarrow> nat \<Rightarrow> bytes" where
  "salsa_stream_loop r k n m l =
     (let x = salsa_core n k salsa_sigma False r
      in if 64 \<le> l
         then (case m of None \<Rightarrow> x | Some b \<Rightarrow> map (\<lambda>i. b ! i XOR x ! i) [0..<64]) @
              salsa_stream_loop r k (salsa_bump n) (map_option (drop 64) m) (l - 64)
         else if l \<noteq> 0
         then map (\<lambda>i. (case m of None \<Rightarrow> 0 | Some b \<Rightarrow> b ! i) XOR x ! i) [0..<l]
         else [])"
  by pat_completeness auto
termination
  by (relation "measure (\<lambda>(r, k, n, m, l). l)") auto

declare salsa_stream_loop.simps [simp del]

definition salsa_stream_xor :: "bytes option \<Rightarrow> nat \<Rightarrow> bytes \<Rightarrow> bytes \<Rightarrow> nat \<Rightarrow> bytes" where
  "salsa_stream_xor m l nn kk r =
     (if l = 0 then [] else salsa_stream_loop r (unpacks 8 kk) (unpacks 2 nn @ [0, 0]) m l)"

definition crypto_core_hsalsa20 :: "bytes \<Rightarrow> bytes \<Rightarrow> bytes \<Rightarrow> bytes" where
  "crypto_core_hsalsa20 nn kk cc = salsa_core (unpacks 4 nn) (unpacks 8 kk) (unpacks 4 cc) True 20"

definition crypto_stream_salsa20_xor :: "bytes \<Rightarrow> bytes \<Rightarrow> bytes \<Rightarrow> bytes" where
  "crypto_stream_salsa20_xor m n k = salsa_stream_xor (Some m) (length m) n k 20"

definition crypto_stream_salsa20 :: "nat \<Rightarrow> bytes \<Rightarrow> bytes \<Rightarrow> bytes" where
  "crypto_stream_salsa20 l n k = salsa_stream_xor None l n k 20"

text \<open>The 16 bytes "expand 32-byte k".\<close>

definition sigma :: bytes where
  "sigma = [101, 120, 112, 97, 110, 100, 32, 51, 50, 45, 98, 121, 116, 101, 32, 107]"

definition crypto_stream_xsalsa20_xor :: "bytes \<Rightarrow> bytes \<Rightarrow> bytes \<Rightarrow> bytes" where
  "crypto_stream_xsalsa20_xor m n k = crypto_stream_salsa20_xor m (drop 16 n) (crypto_core_hsalsa20 n k sigma)"

definition crypto_stream_xsalsa20 :: "nat \<Rightarrow> bytes \<Rightarrow> bytes \<Rightarrow> bytes" where
  "crypto_stream_xsalsa20 l n k = crypto_stream_salsa20 l (drop 16 n) (crypto_core_hsalsa20 n k sigma)"

subsection \<open>NaCl, as in curvedns\<close>

type_synonym salsa_vars =
  "u32 \<times> u32 \<times> u32 \<times> u32 \<times> u32 \<times> u32 \<times> u32 \<times> u32 \<times> u32 \<times> u32 \<times> u32 \<times> u32 \<times> u32 \<times> u32 \<times> u32 \<times> u32"

definition load_littleendian :: "bytes \<Rightarrow> u32" where
  "load_littleendian x =
     ucast (x ! 0) OR push_bit 8 (ucast (x ! 1)) OR push_bit 16 (ucast (x ! 2)) OR push_bit 24 (ucast (x ! 3))"

definition store_littleendian :: "u32 \<Rightarrow> bytes" where
  "store_littleendian u =
     (let x0 = ucast u; u = drop_bit 8 u; x1 = ucast u; u = drop_bit 8 u; x2 = ucast u; u = drop_bit 8 u; x3 = ucast u
      in [x0, x1, x2, x3])"

definition nacl_double_round :: "salsa_vars \<Rightarrow> salsa_vars" where
  "nacl_double_round v =
     (case v of (x0, x1, x2, x3, x4, x5, x6, x7, x8, x9, x10, x11, x12, x13, x14, x15) \<Rightarrow>
      let x4 = x4 XOR rotl32 (x0 + x12) 7;
          x8 = x8 XOR rotl32 (x4 + x0) 9;
          x12 = x12 XOR rotl32 (x8 + x4) 13;
          x0 = x0 XOR rotl32 (x12 + x8) 18;
          x9 = x9 XOR rotl32 (x5 + x1) 7;
          x13 = x13 XOR rotl32 (x9 + x5) 9;
          x1 = x1 XOR rotl32 (x13 + x9) 13;
          x5 = x5 XOR rotl32 (x1 + x13) 18;
          x14 = x14 XOR rotl32 (x10 + x6) 7;
          x2 = x2 XOR rotl32 (x14 + x10) 9;
          x6 = x6 XOR rotl32 (x2 + x14) 13;
          x10 = x10 XOR rotl32 (x6 + x2) 18;
          x3 = x3 XOR rotl32 (x15 + x11) 7;
          x7 = x7 XOR rotl32 (x3 + x15) 9;
          x11 = x11 XOR rotl32 (x7 + x3) 13;
          x15 = x15 XOR rotl32 (x11 + x7) 18;
          x1 = x1 XOR rotl32 (x0 + x3) 7;
          x2 = x2 XOR rotl32 (x1 + x0) 9;
          x3 = x3 XOR rotl32 (x2 + x1) 13;
          x0 = x0 XOR rotl32 (x3 + x2) 18;
          x6 = x6 XOR rotl32 (x5 + x4) 7;
          x7 = x7 XOR rotl32 (x6 + x5) 9;
          x4 = x4 XOR rotl32 (x7 + x6) 13;
          x5 = x5 XOR rotl32 (x4 + x7) 18;
          x11 = x11 XOR rotl32 (x10 + x9) 7;
          x8 = x8 XOR rotl32 (x11 + x10) 9;
          x9 = x9 XOR rotl32 (x8 + x11) 13;
          x10 = x10 XOR rotl32 (x9 + x8) 18;
          x12 = x12 XOR rotl32 (x15 + x14) 7;
          x13 = x13 XOR rotl32 (x12 + x15) 9;
          x14 = x14 XOR rotl32 (x13 + x12) 13;
          x15 = x15 XOR rotl32 (x14 + x13) 18
      in (x0, x1, x2, x3, x4, x5, x6, x7, x8, x9, x10, x11, x12, x13, x14, x15))"

definition nacl_load :: "bytes \<Rightarrow> bytes \<Rightarrow> bytes \<Rightarrow> salsa_vars" where
  "nacl_load inp k c =
     (load_littleendian c, load_littleendian k, load_littleendian (drop 4 k), load_littleendian (drop 8 k),
      load_littleendian (drop 12 k), load_littleendian (drop 4 c), load_littleendian inp, load_littleendian (drop 4 inp),
      load_littleendian (drop 8 inp), load_littleendian (drop 12 inp), load_littleendian (drop 8 c), load_littleendian (drop 16 k),
      load_littleendian (drop 20 k), load_littleendian (drop 24 k), load_littleendian (drop 28 k), load_littleendian (drop 12 c))"

definition vars_list :: "salsa_vars \<Rightarrow> u32 list" where
  "vars_list v =
     (case v of (x0, x1, x2, x3, x4, x5, x6, x7, x8, x9, x10, x11, x12, x13, x14, x15) \<Rightarrow>
      [x0, x1, x2, x3, x4, x5, x6, x7, x8, x9, x10, x11, x12, x13, x14, x15])"

definition nacl_core_salsa20 :: "bytes \<Rightarrow> bytes \<Rightarrow> bytes \<Rightarrow> bytes" where
  "nacl_core_salsa20 inp k c =
     (let j = nacl_load inp k c; x = (nacl_double_round ^^ 10) j
      in concat (map store_littleendian (map2 (+) (vars_list x) (vars_list j))))"

definition nacl_core_hsalsa20 :: "bytes \<Rightarrow> bytes \<Rightarrow> bytes \<Rightarrow> bytes" where
  "nacl_core_hsalsa20 inp k c =
     (let j = nacl_load inp k c; x = map2 (+) (vars_list ((nacl_double_round ^^ 10) j)) (vars_list j)
      in store_littleendian (x ! 0 - load_littleendian c) @ store_littleendian (x ! 5 - load_littleendian (drop 4 c)) @
         store_littleendian (x ! 10 - load_littleendian (drop 8 c)) @ store_littleendian (x ! 15 - load_littleendian (drop 12 c)) @
         store_littleendian (x ! 6 - load_littleendian inp) @ store_littleendian (x ! 7 - load_littleendian (drop 4 inp)) @
         store_littleendian (x ! 8 - load_littleendian (drop 8 inp)) @ store_littleendian (x ! 9 - load_littleendian (drop 12 inp)))"

text \<open>The counter of \<open>crypto_stream_xor\<close> in the bytes 8 to 15 of \<open>in\<close>.\<close>

primrec nacl_bump_loop :: "nat list \<Rightarrow> bytes \<Rightarrow> u32 \<Rightarrow> bytes" where
  "nacl_bump_loop [] inp u = inp"
| "nacl_bump_loop (i # is) inp u =
     (let u = u + ucast (inp ! i) in nacl_bump_loop is (inp[i := ucast u]) (drop_bit 8 u))"

function nacl_stream_loop :: "bytes \<Rightarrow> bytes \<Rightarrow> bytes \<Rightarrow> bytes" where
  "nacl_stream_loop k inp m =
     (let block = nacl_core_salsa20 inp k sigma
      in if 64 \<le> length m
         then map (\<lambda>i. m ! i XOR block ! i) [0..<64] @ nacl_stream_loop k (nacl_bump_loop [8..<16] inp 1) (drop 64 m)
         else map (\<lambda>i. m ! i XOR block ! i) [0..<length m])"
  by pat_completeness auto
termination
  by (relation "measure (\<lambda>(k, inp, m). length m)") auto

declare nacl_stream_loop.simps [simp del]

definition nacl_stream_salsa20_xor :: "bytes \<Rightarrow> bytes \<Rightarrow> bytes \<Rightarrow> bytes" where
  "nacl_stream_salsa20_xor m n k =
     (if m = [] then [] else nacl_stream_loop k (map (\<lambda>i. n ! i) [0..<8] @ replicate 8 0) m)"

definition nacl_stream_xsalsa20_xor :: "bytes \<Rightarrow> bytes \<Rightarrow> bytes \<Rightarrow> bytes" where
  "nacl_stream_xsalsa20_xor m n k = nacl_stream_salsa20_xor m (drop 16 n) (nacl_core_hsalsa20 n k sigma)"

text \<open>\<open>crypto_stream\<close>: the stream itself, stored in \<open>clen\<close> bytes.\<close>

function nacl_fill_loop :: "bytes \<Rightarrow> bytes \<Rightarrow> nat \<Rightarrow> bytes" where
  "nacl_fill_loop k inp clen =
     (let block = nacl_core_salsa20 inp k sigma
      in if 64 \<le> clen then block @ nacl_fill_loop k (nacl_bump_loop [8..<16] inp 1) (clen - 64)
         else map (\<lambda>i. block ! i) [0..<clen])"
  by pat_completeness auto
termination
  by (relation "measure (\<lambda>(k, inp, clen). clen)") auto

declare nacl_fill_loop.simps [simp del]

definition nacl_stream_salsa20 :: "nat \<Rightarrow> bytes \<Rightarrow> bytes \<Rightarrow> bytes" where
  "nacl_stream_salsa20 clen n k =
     (if clen = 0 then [] else nacl_fill_loop k (map (\<lambda>i. n ! i) [0..<8] @ replicate 8 0) clen)"

definition nacl_stream_xsalsa20 :: "nat \<Rightarrow> bytes \<Rightarrow> bytes \<Rightarrow> bytes" where
  "nacl_stream_xsalsa20 clen n k = nacl_stream_salsa20 clen (drop 16 n) (nacl_core_hsalsa20 n k sigma)"

section \<open>The rounds agree\<close>

lemma replicate16: "replicate 16 x = [x, x, x, x, x, x, x, x, x, x, x, x, x, x, x, x]"
  by (simp add: numeral_eq_Suc)

lemma upt_small: "[0..<4] = [0, 1, 2, 3 :: nat]"
  by (simp add: upt_rec)

lemma salsa_round_list:
  assumes "salsa_quarter (x0, x4, x8, x12) = (a0, a1, a2, a3)" "salsa_quarter (x5, x9, x13, x1) = (b0, b1, b2, b3)"
    "salsa_quarter (x10, x14, x2, x6) = (c0, c1, c2, c3)" "salsa_quarter (x15, x3, x7, x11) = (d0, d1, d2, d3)"
  shows "salsa_round [x0, x1, x2, x3, x4, x5, x6, x7, x8, x9, x10, x11, x12, x13, x14, x15] =
    [a0, a1, a2, a3, b3, b0, b1, b2, c2, c3, c0, c1, d1, d2, d3, d0]"
  unfolding salsa_round_def upt_small replicate16 by (simp add: assms)

lemma quarter_eq:
  "salsa_quarter (t0, t1, t2, t3) =
     (t0 XOR rotl32 ((t3 XOR rotl32 ((t2 XOR rotl32 ((t1 XOR rotl32 (t0 + t3) 7) + t0) 9) + (t1 XOR rotl32 (t0 + t3) 7)) 13) +
        (t2 XOR rotl32 ((t1 XOR rotl32 (t0 + t3) 7) + t0) 9)) 18,
      t1 XOR rotl32 (t0 + t3) 7,
      t2 XOR rotl32 ((t1 XOR rotl32 (t0 + t3) 7) + t0) 9,
      t3 XOR rotl32 ((t2 XOR rotl32 ((t1 XOR rotl32 (t0 + t3) 7) + t0) 9) + (t1 XOR rotl32 (t0 + t3) 7)) 13)"
  unfolding salsa_quarter_def Let_def by (simp only: prod.case)

lemma nacl_double_round_quarters:
  assumes "salsa_quarter (x0, x4, x8, x12) = (a0, a4, a8, a12)" "salsa_quarter (x5, x9, x13, x1) = (a5, a9, a13, a1)"
    "salsa_quarter (x10, x14, x2, x6) = (a10, a14, a2, a6)" "salsa_quarter (x15, x3, x7, x11) = (a15, a3, a7, a11)"
    "salsa_quarter (a0, a1, a2, a3) = (b0, b1, b2, b3)" "salsa_quarter (a5, a6, a7, a4) = (b5, b6, b7, b4)"
    "salsa_quarter (a10, a11, a8, a9) = (b10, b11, b8, b9)" "salsa_quarter (a15, a12, a13, a14) = (b15, b12, b13, b14)"
  shows "nacl_double_round (x0, x1, x2, x3, x4, x5, x6, x7, x8, x9, x10, x11, x12, x13, x14, x15) =
    (b0, b1, b2, b3, b4, b5, b6, b7, b8, b9, b10, b11, b12, b13, b14, b15)"
proof -
  have A: "a4 = x4 XOR rotl32 (x0 + x12) 7" "a8 = x8 XOR rotl32 (a4 + x0) 9" "a12 = x12 XOR rotl32 (a8 + a4) 13"
      "a0 = x0 XOR rotl32 (a12 + a8) 18"
    "a9 = x9 XOR rotl32 (x5 + x1) 7" "a13 = x13 XOR rotl32 (a9 + x5) 9" "a1 = x1 XOR rotl32 (a13 + a9) 13"
      "a5 = x5 XOR rotl32 (a1 + a13) 18"
    "a14 = x14 XOR rotl32 (x10 + x6) 7" "a2 = x2 XOR rotl32 (a14 + x10) 9" "a6 = x6 XOR rotl32 (a2 + a14) 13"
      "a10 = x10 XOR rotl32 (a6 + a2) 18"
    "a3 = x3 XOR rotl32 (x15 + x11) 7" "a7 = x7 XOR rotl32 (a3 + x15) 9" "a11 = x11 XOR rotl32 (a7 + a3) 13"
      "a15 = x15 XOR rotl32 (a11 + a7) 18"
    using assms(1-4) unfolding quarter_eq by auto
  have B: "b1 = a1 XOR rotl32 (a0 + a3) 7" "b2 = a2 XOR rotl32 (b1 + a0) 9" "b3 = a3 XOR rotl32 (b2 + b1) 13"
      "b0 = a0 XOR rotl32 (b3 + b2) 18"
    "b6 = a6 XOR rotl32 (a5 + a4) 7" "b7 = a7 XOR rotl32 (b6 + a5) 9" "b4 = a4 XOR rotl32 (b7 + b6) 13"
      "b5 = a5 XOR rotl32 (b4 + b7) 18"
    "b11 = a11 XOR rotl32 (a10 + a9) 7" "b8 = a8 XOR rotl32 (b11 + a10) 9" "b9 = a9 XOR rotl32 (b8 + b11) 13"
      "b10 = a10 XOR rotl32 (b9 + b8) 18"
    "b12 = a12 XOR rotl32 (a15 + a14) 7" "b13 = a13 XOR rotl32 (b12 + a15) 9" "b14 = a14 XOR rotl32 (b13 + b12) 13"
      "b15 = a15 XOR rotl32 (b14 + b13) 18"
    using assms(5-8) unfolding quarter_eq by auto
  show ?thesis
    unfolding nacl_double_round_def Let_def prod.case A [symmetric] B [symmetric] ..
qed

lemma two_rounds: "salsa_round (salsa_round (vars_list v)) = vars_list (nacl_double_round v)"
proof -
  obtain x0 x1 x2 x3 x4 x5 v1 where v0: "v = (x0, x1, x2, x3, x4, x5, v1)" by (cases v)
  obtain x6 x7 x8 x9 x10 x11 v2 where v1: "v1 = (x6, x7, x8, x9, x10, x11, v2)" by (cases v1)
  obtain x12 x13 x14 x15 where v2: "v2 = (x12, x13, x14, x15)" by (cases v2)
  note v = v0 [unfolded v1 v2]
  obtain a0 a4 a8 a12 where 1: "salsa_quarter (x0, x4, x8, x12) = (a0, a4, a8, a12)" using prod_cases4 by blast
  obtain a5 a9 a13 a1 where 2: "salsa_quarter (x5, x9, x13, x1) = (a5, a9, a13, a1)" using prod_cases4 by blast
  obtain a10 a14 a2 a6 where 3: "salsa_quarter (x10, x14, x2, x6) = (a10, a14, a2, a6)" using prod_cases4 by blast
  obtain a15 a3 a7 a11 where 4: "salsa_quarter (x15, x3, x7, x11) = (a15, a3, a7, a11)" using prod_cases4 by blast
  obtain b0 b1 b2 b3 where 5: "salsa_quarter (a0, a1, a2, a3) = (b0, b1, b2, b3)" using prod_cases4 by blast
  obtain b5 b6 b7 b4 where 6: "salsa_quarter (a5, a6, a7, a4) = (b5, b6, b7, b4)" using prod_cases4 by blast
  obtain b10 b11 b8 b9 where 7: "salsa_quarter (a10, a11, a8, a9) = (b10, b11, b8, b9)" using prod_cases4 by blast
  obtain b15 b12 b13 b14 where 8: "salsa_quarter (a15, a12, a13, a14) = (b15, b12, b13, b14)" using prod_cases4 by blast
  have r1: "salsa_round (vars_list v) = [a0, a4, a8, a12, a1, a5, a9, a13, a2, a6, a10, a14, a3, a7, a11, a15]"
    unfolding v vars_list_def prod.case by (rule salsa_round_list [OF 1 2 3 4])
  have "salsa_round [a0, a4, a8, a12, a1, a5, a9, a13, a2, a6, a10, a14, a3, a7, a11, a15] =
      [b0, b1, b2, b3, b4, b5, b6, b7, b8, b9, b10, b11, b12, b13, b14, b15]"
    by (rule salsa_round_list [OF 5 6 7 8])
  then show ?thesis
    unfolding r1 unfolding v nacl_double_round_quarters [OF 1 2 3 4 5 6 7 8] vars_list_def prod.case .
qed

lemma rounds_agree: "(salsa_round ^^ (2 * r)) (vars_list v) = vars_list ((nacl_double_round ^^ r) v)"
  by (induction r) (simp_all add: two_rounds)

subsection \<open>The cores agree\<close>

lemma list4: "4 \<le> length b \<Longrightarrow> take 4 b = [b ! 0, b ! 1, b ! 2, b ! 3]"
  by (intro nth_equalityI) (auto simp: less_Suc_eq numeral_eq_Suc)

lemma load_littleendian_eq: "4 \<le> length b \<Longrightarrow> load_littleendian b = uint32_unpack b"
  by (simp add: load_littleendian_def uint32_unpack_def list4 push_bit_or or.assoc [symmetric])
     (simp add: ac_simps)

lemma store_littleendian_eq: "store_littleendian u = uint32_pack u"
proof -
  have "pack_le 4 u = pack_le (Suc (Suc (Suc (Suc 0)))) u" by (simp add: numeral_eq_Suc)
  then show ?thesis by (simp add: store_littleendian_def uint32_pack_def Let_def)
qed

lemma length_vars_list [simp]: "length (vars_list v) = 16"
  by (simp add: vars_list_def split: prod.splits)

lemma unpacks_nth: "i < n \<Longrightarrow> unpacks n b ! i = uint32_unpack (drop (4 * i) b)"
  by (simp add: unpacks_def)

lemma init_agree:
  assumes "16 \<le> length inp" "32 \<le> length k" "16 \<le> length c"
  shows "salsa_init (unpacks 4 inp) (unpacks 8 k) (unpacks 4 c) = vars_list (nacl_load inp k c)"
  unfolding salsa_init_def upt_small replicate16 vars_list_def nacl_load_def prod.case
  using assms by (simp add: unpacks_nth load_littleendian_eq)

lemma map2_nth16:
  assumes "length x = 16" "length y = 16"
  shows "map2 (+) x y = map (\<lambda>i. x ! i + y ! i) [0..<16]"
  using assms by (intro nth_equalityI) simp_all

lemma core_agree:
  assumes "16 \<le> length inp" "32 \<le> length k" "16 \<le> length c"
  shows "nacl_core_salsa20 inp k c = salsa_core (unpacks 4 inp) (unpacks 8 k) (unpacks 4 c) False 20"
proof -
  let ?j = "nacl_load inp k c"
  have R: "(salsa_round ^^ 20) (vars_list ?j) = vars_list ((nacl_double_round ^^ 10) ?j)"
    using rounds_agree [of 10 ?j] by simp
  show ?thesis
    unfolding nacl_core_salsa20_def salsa_core_def Let_def R init_agree [OF assms] if_False
    by (simp add: map2_nth16 store_littleendian_eq comp_def del: upt_rec_numeral upt_conv_Cons)
qed

lemma hcore_agree:
  assumes "16 \<le> length inp" "32 \<le> length k" "16 \<le> length c"
  shows "nacl_core_hsalsa20 inp k c = crypto_core_hsalsa20 inp k c"
proof -
  let ?j = "nacl_load inp k c"
  define x where "x = vars_list ((nacl_double_round ^^ 10) ?j)"
  have R: "(salsa_round ^^ 20) (vars_list ?j) = x"
    using rounds_agree [of 10 ?j] by (simp add: x_def)
  define z where "z = map (\<lambda>i. x ! i + vars_list ?j ! i) [0..<16]"
  have z: "map2 (+) x (vars_list ?j) = z" unfolding z_def by (rule map2_nth16) (simp_all add: x_def)
  have lz: "length z = 16" by (simp add: z_def)
  have c: "uint32_unpack (drop (4 * i) c) = load_littleendian (drop (4 * i) c)" "uint32_unpack (drop (4 * i) inp) = load_littleendian (drop (4 * i) inp)"
    if "i < 4" for i using assms that by (simp_all add: load_littleendian_eq)
  show ?thesis
    unfolding nacl_core_hsalsa20_def crypto_core_hsalsa20_def salsa_core_def Let_def R init_agree [OF assms] if_True
      x_def [symmetric] z z_def [symmetric] upt_small
    using lz c [of 0] c [of 1] c [of 2] c [of 3]
    by (simp add: store_littleendian_eq unpacks_nth)
qed

subsection \<open>The streams agree\<close>

lemma length_salsa_core: "length (salsa_core n k c False r) = 64"
  by (simp add: salsa_core_def Let_def length_concat comp_def length_packs sum_list_triv)

lemma length_hsalsa: "length (crypto_core_hsalsa20 n k c) = 32"
  by (simp add: crypto_core_hsalsa20_def salsa_core_def Let_def length_concat comp_def length_packs sum_list_triv)

text \<open>The two counters as numbers.\<close>

lemma nacl_bump_loop_val:
  assumes "i + n \<le> length b" "unat u \<le> 256"
  shows "length (nacl_bump_loop [i..<i + n] b u) = length b \<and>
    take i (nacl_bump_loop [i..<i + n] b u) = take i b \<and>
    bytes_val (mem_read (nacl_bump_loop [i..<i + n] b u) i n) = (bytes_val (mem_read b i n) + unat u) mod 256 ^ n"
  using assms
proof (induction n arbitrary: i b u)
  case 0
  then show ?case by (simp add: bytes_val_def mem_read_def)
next
  case (Suc n)
  define v where "v = u + ucast (b ! i)"
  define b1 where "b1 = b[i := ucast v]"
  have i: "i < length b" using Suc.prems by simp
  have x: "unat (ucast (b ! i) :: u32) = unat (b ! i)"
  proof -
    have "unat (ucast (b ! i) :: u32) = unat (b ! i) mod 2 ^ 32" by (simp add: unsigned_ucast_eq take_bit_eq_mod)
    also have "\<dots> = unat (b ! i)" by (intro mod_less less_trans [OF unat_byte_less]) simp
    finally show ?thesis .
  qed
  have v: "unat v = unat u + unat (b ! i)"
  proof -
    have "unat u + unat (b ! i) < 4294967296" using Suc.prems(2) unat_byte_less [of "b ! i"] by linarith
    then show ?thesis unfolding v_def using x by (subst unat_add_less) simp_all
  qed
  have vb: "unat v < 2 * 256" using v Suc.prems(2) unat_byte_less [of "b ! i"] by linarith
  have q: "unat (drop_bit 8 v) = unat v div 256" using unat_drop_bit_div [of 8 v] by simp
  have rec: "nacl_bump_loop [i..<i + Suc n] b u = nacl_bump_loop [Suc i..<Suc i + n] b1 (drop_bit 8 v)"
    by (simp add: upt_conv_Cons v_def b1_def Let_def del: upt_Suc)
  have IH: "length (nacl_bump_loop [Suc i..<Suc i + n] b1 (drop_bit 8 v)) = length b1"
      "take (Suc i) (nacl_bump_loop [Suc i..<Suc i + n] b1 (drop_bit 8 v)) = take (Suc i) b1"
      "bytes_val (mem_read (nacl_bump_loop [Suc i..<Suc i + n] b1 (drop_bit 8 v)) (Suc i) n) =
        (bytes_val (mem_read b1 (Suc i) n) + unat v div 256) mod 256 ^ n"
    using Suc.IH [of "Suc i" b1 "drop_bit 8 v"] Suc.prems vb q by (auto simp: b1_def)
  define o' where "o' = nacl_bump_loop [Suc i..<Suc i + n] b1 (drop_bit 8 v)"
  have lo: "length o' = length b" using IH(1) by (simp add: o'_def b1_def)
  have oi: "o' ! i = ucast v"
  proof -
    have "take (Suc i) o' ! i = take (Suc i) b1 ! i" using IH(2) by (simp only: o'_def)
    then show ?thesis using i by (simp add: b1_def)
  qed
  have tk: "take i o' = take i b"
  proof -
    have "take i (take (Suc i) o') = take i (take (Suc i) b1)" using IH(2) by (simp only: o'_def)
    then show ?thesis by (simp add: b1_def)
  qed
  have split: "mem_read c i (Suc n) = c ! i # mem_read c (Suc i) n" if "i < length c" for c :: bytes
    using that by (simp add: mem_read_def Cons_nth_drop_Suc [symmetric])
  have b1: "mem_read b1 (Suc i) n = mem_read b (Suc i) n" by (simp add: b1_def mem_read_def)
  have "bytes_val (mem_read o' i (Suc n)) = unat v mod 256 + 256 * ((bytes_val (mem_read b (Suc i) n) + unat v div 256) mod 256 ^ n)"
    using split [of o'] lo i oi IH(3) b1 by (simp add: bytes_val_def o'_def unsigned_ucast_eq take_bit_eq_mod)
  also have "\<dots> = (unat v + 256 * bytes_val (mem_read b (Suc i) n)) mod 256 ^ Suc n"
    by (simp add: mod_mult2_eq [of _ 256] algebra_simps)
  also have "unat v + 256 * bytes_val (mem_read b (Suc i) n) = bytes_val (mem_read b i (Suc n)) + unat u"
    using split [of b] i v by (simp add: bytes_val_def)
  finally show ?case unfolding rec o'_def [symmetric] using lo tk by simp
qed

lemma two_digits: "0 < B \<Longrightarrow> a mod B + B * ((a div B + d) mod B) = (a + B * d) mod (B * B :: nat)"
  by (simp add: mod_mult2_eq add.commute)

lemma salsa_bump_val:
  assumes "length n = 4"
  shows "length (salsa_bump n) = 4 \<and> take 2 (salsa_bump n) = take 2 n \<and>
    fe_val (drop 2 (salsa_bump n)) = (fe_val (drop 2 n) + 1) mod 2 ^ 64"
proof -
  obtain a b c d where n: "n = [a, b, c, d]"
    using assms by (auto simp: length_Suc_conv numeral_eq_Suc)
  have u: "unat (1 + ucast c :: u64) = 1 + unat c"
    using less_imp_le [OF unat_u32_less [of c]] by (subst unat_add_less) simp_all
  have h: "unat (drop_bit 32 (1 + ucast c :: u64) + ucast d) = (1 + unat c) div W32 + unat d"
  proof -
    have "1 + unat c \<le> W32" by (simp add: Suc_le_eq)
    from div_le_mono [OF this, of W32] have "(1 + unat c) div W32 \<le> 1" by simp
    then have "(1 + unat c) div W32 + unat d \<le> 1 + W32" by (intro add_mono) (simp_all add: less_imp_le)
    then have "(1 + unat c) div W32 + unat d < 2 ^ 64" by (rule le_less_trans) simp
    then show ?thesis by (subst unat_add_less) (simp_all add: unat_high32 u)
  qed
  have "fe_val (drop 2 (salsa_bump n)) = (1 + unat c) mod W32 + W32 * (((1 + unat c) div W32 + unat d) mod W32)"
    by (simp add: n salsa_bump_def Let_def fe_val_def unat_u64_u32 u h)
  also have "\<dots> = ((1 + unat c) + W32 * unat d) mod (W32 * W32)"
    by (rule two_digits) simp
  finally show ?thesis by (simp add: n salsa_bump_def Let_def fe_val_def)
qed

text \<open>The relation of the two counter blocks.\<close>

definition same_block :: "bytes \<Rightarrow> u32 list \<Rightarrow> bool" where
  "same_block inp n \<longleftrightarrow> length inp = 16 \<and> length n = 4 \<and> unpacks 4 inp = n"

lemma fe_val_unpacks': "length b = 4 * n \<Longrightarrow> fe_val (unpacks n b) = bytes_val b"
  unfolding unpacks_def by (rule fe_val_unpacks)

lemma unpacks_take_drop:
  assumes "length inp = 16"
  shows "take 2 (unpacks 4 inp) = unpacks 2 (take 8 inp)" "drop 2 (unpacks 4 inp) = unpacks 2 (drop 8 inp)"
proof -
  have "uint32_unpack (drop (4 * i) (take 8 inp)) = uint32_unpack (drop (4 * i) inp)" if "i < 2" for i
    using that assms by (auto simp: uint32_unpack_def drop_take min_def)
  then show "take 2 (unpacks 4 inp) = unpacks 2 (take 8 inp)"
    by (intro nth_equalityI) (simp_all add: unpacks_def)
  show "drop 2 (unpacks 4 inp) = unpacks 2 (drop 8 inp)"
    by (intro nth_equalityI) (simp_all add: unpacks_def algebra_simps)
qed

lemma fe_val_inj: "length a = length b \<Longrightarrow> fe_val a = fe_val b \<Longrightarrow> a = b"
proof -
  assume l: "length a = length b" and v: "fe_val a = fe_val b"
  have "map unat a = map unat b"
    using l v by (intro le_val_inj [of _ _ W32]) (auto simp: fe_val_def)
  then show ?thesis by (rule map_injective) (auto intro: injI word_eqI_nat)
qed

lemma same_block_bump:
  assumes "same_block inp n"
  shows "same_block (nacl_bump_loop [8..<16] inp 1) (salsa_bump n)"
proof -
  let ?i = "nacl_bump_loop [8..<16] inp 1"
  have l: "length inp = 16" "length n = 4" "unpacks 4 inp = n" using assms by (simp_all add: same_block_def)
  have N: "length ?i = 16" "take 8 ?i = take 8 inp" "bytes_val (mem_read ?i 8 8) = (bytes_val (mem_read inp 8 8) + 1) mod 256 ^ 8"
    using nacl_bump_loop_val [of 8 8 inp 1] l(1) by (simp_all del: upt_rec_numeral)
  note S = salsa_bump_val [OF l(2)]
  have "drop 2 (unpacks 4 ?i) = drop 2 (salsa_bump n)"
  proof (rule fe_val_inj)
    show "length (drop 2 (unpacks 4 ?i)) = length (drop 2 (salsa_bump n))" using S by (simp add: unpacks_def)
    have "fe_val (drop 2 (unpacks 4 ?i)) = bytes_val (mem_read ?i 8 8)"
      using N(1) fe_val_unpacks' [of "drop 8 ?i" 2] by (simp add: unpacks_take_drop mem_read_def del: upt_rec_numeral)
    also have "\<dots> = (bytes_val (mem_read inp 8 8) + 1) mod 256 ^ 8" by (rule N(3))
    also have "bytes_val (mem_read inp 8 8) = fe_val (drop 2 n)"
      using l fe_val_unpacks' [of "drop 8 inp" 2] unpacks_take_drop(2) [OF l(1)] by (simp add: mem_read_def)
    also have "(fe_val (drop 2 n) + 1) mod 256 ^ 8 = fe_val (drop 2 (salsa_bump n))" using S by simp
    finally show "fe_val (drop 2 (unpacks 4 ?i)) = fe_val (drop 2 (salsa_bump n))" .
  qed
  moreover have "take 2 (unpacks 4 ?i) = take 2 (salsa_bump n)"
    using unpacks_take_drop(1) [OF N(1)] unpacks_take_drop(1) [OF l(1)] N(2) l(3) S by (simp del: upt_rec_numeral)
  ultimately have "unpacks 4 ?i = salsa_bump n" by (metis append_take_drop_id)
  then show ?thesis using N(1) S by (simp add: same_block_def del: upt_rec_numeral)
qed

lemma sigma_unpacks: "unpacks 4 sigma = salsa_sigma"
  by (simp add: unpacks_def sigma_def salsa_sigma_def upt_rec uint32_unpack_def)

lemma stream_loop_agree:
  assumes "same_block inp n" "32 \<le> length k"
  shows "nacl_stream_loop k inp m = salsa_stream_loop 20 (unpacks 8 k) n (Some m) (length m)"
  using assms(1)
proof (induction m arbitrary: inp n rule: length_induct)
  case (1 m)
  have b: "nacl_core_salsa20 inp k sigma = salsa_core n (unpacks 8 k) salsa_sigma False 20"
    using core_agree [of inp k sigma] 1(2) assms(2) sigma_unpacks by (simp add: same_block_def sigma_def)
  show ?case
  proof (cases "64 \<le> length m")
    case True
    then have "nacl_stream_loop k (nacl_bump_loop [8..<16] inp 1) (drop 64 m) =
        salsa_stream_loop 20 (unpacks 8 k) (salsa_bump n) (Some (drop 64 m)) (length (drop 64 m))"
      using 1(1) same_block_bump [OF 1(2)] by auto
    then show ?thesis
      using True b by (simp add: nacl_stream_loop.simps [of k inp m] salsa_stream_loop.simps [of 20 "unpacks 8 k" n] Let_def del: upt_rec_numeral)
  next
    case False
    then show ?thesis
      using b by (simp add: nacl_stream_loop.simps [of k inp m] salsa_stream_loop.simps [of 20 "unpacks 8 k" n] Let_def)
  qed
qed

lemma fill_loop_agree:
  assumes "same_block inp n" "32 \<le> length k"
  shows "nacl_fill_loop k inp l = salsa_stream_loop 20 (unpacks 8 k) n None l"
  using assms(1)
proof (induction l arbitrary: inp n rule: less_induct)
  case (less l)
  have b: "nacl_core_salsa20 inp k sigma = salsa_core n (unpacks 8 k) salsa_sigma False 20"
    using core_agree [of inp k sigma] less(2) assms(2) sigma_unpacks by (simp add: same_block_def sigma_def)
  show ?case
  proof (cases "64 \<le> l")
    case True
    then have "nacl_fill_loop k (nacl_bump_loop [8..<16] inp 1) (l - 64) =
        salsa_stream_loop 20 (unpacks 8 k) (salsa_bump n) None (l - 64)"
      using less(1) same_block_bump [OF less(2)] by auto
    then show ?thesis
      using True b by (simp add: nacl_fill_loop.simps [of k inp l] salsa_stream_loop.simps [of 20 "unpacks 8 k" n] Let_def del: upt_rec_numeral)
  next
    case False
    then show ?thesis
      using b by (simp add: nacl_fill_loop.simps [of k inp l] salsa_stream_loop.simps [of 20 "unpacks 8 k" n] Let_def)
  qed
qed

subsection \<open>Decryption\<close>

lemma salsa_stream_loop_length:
  "(\<And>b. m = Some b \<Longrightarrow> length b = l) \<Longrightarrow> length (salsa_stream_loop r k n m l) = l"
proof (induction r k n m l rule: salsa_stream_loop.induct)
  case (1 r k n m l)
  have IH: "64 \<le> l \<Longrightarrow> length (salsa_stream_loop r k (salsa_bump n) (map_option (drop 64) m) (l - 64)) = l - 64"
    by (rule 1(1) [OF refl]) (use 1(2) in auto)
  show ?case
    by (subst salsa_stream_loop.simps) (use IH in \<open>auto simp: Let_def length_salsa_core split: option.splits\<close>)
qed

text \<open>The key stream: what the null pointer as message gives.\<close>

lemma salsa_stream_loop_xor:
  "length b = l \<Longrightarrow> salsa_stream_loop r k n (Some b) l = map2 (XOR) b (salsa_stream_loop r k n None l)"
proof (induction r k n "Some b" l arbitrary: b rule: salsa_stream_loop.induct)
  case (1 r k n l)
  let ?x = "salsa_core n k salsa_sigma False r"
  show ?case
  proof (cases "64 \<le> l")
    case True
    have IH: "salsa_stream_loop r k (salsa_bump n) (Some (drop 64 b)) (l - 64) =
        map2 (XOR) (drop 64 b) (salsa_stream_loop r k (salsa_bump n) None (l - 64))"
      using 1(1) [OF refl True, of "drop 64 b"] 1(2) by simp
    have "map (\<lambda>i. b ! i XOR ?x ! i) [0..<64] = map2 (XOR) (take 64 b) ?x"
      using True 1(2) by (intro nth_equalityI) (simp_all add: length_salsa_core)
    then have "salsa_stream_loop r k n (Some b) l =
        map2 (XOR) (take 64 b @ drop 64 b) (?x @ salsa_stream_loop r k (salsa_bump n) None (l - 64))"
      using True 1(2) IH by (subst salsa_stream_loop.simps) (simp add: length_salsa_core Let_def zip_append del: append_take_drop_id)
    then show ?thesis using True by (subst (2) salsa_stream_loop.simps) (simp add: Let_def)
  next
    case False
    then show ?thesis
      using 1(2) by (subst (1 2) salsa_stream_loop.simps) (auto simp: Let_def intro!: nth_equalityI)
  qed
qed

lemma xor_twice: "length b = length s \<Longrightarrow> map2 (XOR) (map2 (XOR) b s) s = (b :: bytes)"
proof (induction b s rule: list_induct2)
  case (Cons x xs y ys)
  have "(x XOR y) XOR y = x" by (intro bit_word_eqI) (auto simp: bit_simps)
  with Cons show ?case by simp
qed simp

lemma salsa20_xor_stream: "crypto_stream_salsa20_xor m n k = map2 (XOR) m (crypto_stream_salsa20 (length m) n k)"
  by (simp add: crypto_stream_salsa20_xor_def crypto_stream_salsa20_def salsa_stream_xor_def salsa_stream_loop_xor)

lemma length_salsa20 [simp]: "length (crypto_stream_salsa20 l n k) = l"
  using salsa_stream_loop_length [of None l 20] by (simp add: crypto_stream_salsa20_def salsa_stream_xor_def)

lemma length_xsalsa20 [simp]: "length (crypto_stream_xsalsa20 l n k) = l"
  by (simp add: crypto_stream_xsalsa20_def)

lemma xsalsa20_xor_stream: "crypto_stream_xsalsa20_xor m n k = map2 (XOR) m (crypto_stream_xsalsa20 (length m) n k)"
  by (simp add: crypto_stream_xsalsa20_xor_def crypto_stream_xsalsa20_def salsa20_xor_stream)

lemma length_xsalsa20_xor [simp]: "length (crypto_stream_xsalsa20_xor m n k) = length m"
  by (simp add: xsalsa20_xor_stream)

lemma xsalsa20_xor_twice: "crypto_stream_xsalsa20_xor (crypto_stream_xsalsa20_xor m n k) n k = m"
proof -
  have "crypto_stream_xsalsa20_xor (crypto_stream_xsalsa20_xor m n k) n k =
      map2 (XOR) (map2 (XOR) m (crypto_stream_xsalsa20 (length m) n k)) (crypto_stream_xsalsa20 (length m) n k)"
    by (simp only: xsalsa20_xor_stream [of "crypto_stream_xsalsa20_xor m n k"] length_xsalsa20_xor)
       (simp only: xsalsa20_xor_stream [of m])
  also have "\<dots> = m" by (rule xor_twice) simp
  finally show ?thesis .
qed

text \<open>A prefix of the message gives a prefix of the result.\<close>

lemma salsa_stream_prefix: "l \<le> l' \<Longrightarrow> salsa_stream_loop r k n None l = take l (salsa_stream_loop r k n None l')"
proof (induction r k n "None :: bytes option" l arbitrary: l' rule: salsa_stream_loop.induct)
  case (1 r k n l)
  let ?x = "salsa_core n k salsa_sigma False r"
  have lx: "length ?x = 64" by (rule length_salsa_core)
  show ?case
  proof (cases "64 \<le> l")
    case True
    then show ?thesis
      using 1(1) [OF refl True, of "l' - 64"] 1(2) lx
      by (subst (1 2) salsa_stream_loop.simps) (simp add: Let_def)
  next
    case False
    have x: "map (\<lambda>i. 0 XOR ?x ! i) [0..<j] = take j ?x" if "j \<le> 64" for j
      using that lx by (intro nth_equalityI) simp_all
    show ?thesis
    proof (cases "64 \<le> l'")
      case True
      then show ?thesis using False lx x [of l] by (subst (1 2) salsa_stream_loop.simps) (auto simp: Let_def)
    next
      case less: False
      then show ?thesis using False 1(2) x [of l] x [of l'] by (subst (1 2) salsa_stream_loop.simps) (auto simp: Let_def)
    qed
  qed
qed

lemma xsalsa20_prefix: "l \<le> l' \<Longrightarrow> crypto_stream_xsalsa20 l n k = take l (crypto_stream_xsalsa20 l' n k)"
  using salsa_stream_prefix [of l l' 20]
  by (auto simp: crypto_stream_xsalsa20_def crypto_stream_salsa20_def salsa_stream_xor_def salsa_stream_loop.simps [of _ _ _ _ 0])

lemma same_block_start:
  assumes "8 \<le> length nn"
  shows "same_block (map (\<lambda>i. nn ! i) [0..<8] @ replicate 8 0) (unpacks 2 nn @ [0, 0])"
proof -
  have tk: "map (\<lambda>i. nn ! i) [0..<8] = take 8 nn" using assms by (intro nth_equalityI) simp_all
  have l: "length (take 8 nn @ replicate 8 0) = 16" using assms by simp
  have "unpacks 2 (take 8 nn) = unpacks 2 nn"
    by (intro nth_equalityI) (auto simp: unpacks_def uint32_unpack_def drop_take min_def)
  moreover have "unpacks 2 (replicate 8 0 :: bytes) = [0, 0]"
    by (simp add: unpacks_def upt_rec uint32_unpack_def numeral_eq_Suc)
  ultimately have "take 2 (unpacks 4 (take 8 nn @ replicate 8 0)) @ drop 2 (unpacks 4 (take 8 nn @ replicate 8 0)) = unpacks 2 nn @ [0, 0]"
    unfolding unpacks_take_drop [OF l] using assms by simp
  then show ?thesis unfolding same_block_def tk using l by (simp only: append_take_drop_id) (simp add: unpacks_def)
qed

lemma nacl_xsalsa20_eq:
  assumes "24 \<le> length n" "32 \<le> length k"
  shows "nacl_stream_xsalsa20_xor m n k = crypto_stream_xsalsa20_xor m n k"
    "nacl_stream_xsalsa20 l n k = crypto_stream_xsalsa20 l n k"
proof -
  have h: "nacl_core_hsalsa20 n k sigma = crypto_core_hsalsa20 n k sigma"
    using assms by (intro hcore_agree) (simp_all add: sigma_def)
  let ?kk = "crypto_core_hsalsa20 n k sigma"
  have sb: "same_block (map (\<lambda>i. drop 16 n ! i) [0..<8] @ replicate 8 0) (unpacks 2 (drop 16 n) @ [0, 0])"
    by (rule same_block_start) (use assms(1) in simp)
  show "nacl_stream_xsalsa20_xor m n k = crypto_stream_xsalsa20_xor m n k"
    using stream_loop_agree [OF sb, of ?kk m] length_hsalsa [of n k sigma]
    by (simp add: nacl_stream_xsalsa20_xor_def nacl_stream_salsa20_xor_def h crypto_stream_xsalsa20_xor_def
        crypto_stream_salsa20_xor_def salsa_stream_xor_def del: upt_rec_numeral)
  show "nacl_stream_xsalsa20 l n k = crypto_stream_xsalsa20 l n k"
    using fill_loop_agree [OF sb, of ?kk l] length_hsalsa [of n k sigma]
    by (simp add: nacl_stream_xsalsa20_def nacl_stream_salsa20_def h crypto_stream_xsalsa20_def
        crypto_stream_salsa20_def salsa_stream_xor_def del: upt_rec_numeral)
qed

text \<open>
  The two Salsa20 implementations agree: \<open>salsa_core\<close> of dq (20 passes of a transposing round
  over an array) computes the bytes of the NaCl reference core (10 unrolled double rounds over 16
  variables), for the Salsa20 block and for HSalsa20, on all inputs of the required sizes.
\<close>

theorem salsa20_cores_agree:
  assumes "16 \<le> length inp" "32 \<le> length k" "16 \<le> length c"
  shows "nacl_core_salsa20 inp k c = salsa_core (unpacks 4 inp) (unpacks 8 k) (unpacks 4 c) False 20 \<and>
    nacl_core_hsalsa20 inp k c = crypto_core_hsalsa20 inp k c"
  using core_agree [OF assms] hcore_agree [OF assms] by simp

theorem salsa20_cores_agree_witness:
  "nacl_core_hsalsa20 (replicate 16 1) (replicate 32 2) sigma = crypto_core_hsalsa20 (replicate 16 1) (replicate 32 2) sigma"
  using salsa20_cores_agree [of "replicate 16 1" "replicate 32 2" sigma] by (simp add: sigma_def)

text \<open>
  C28: The XSalsa20 stream of dq and of the NaCl code is the same on messages of every length (the
  32-bit and the bytewise block counter step alike), encryption is the exclusive or with that
  stream, and a second encryption gives the message back.
\<close>

theorem xsalsa20_streams_agree:
  assumes "24 \<le> length n" "32 \<le> length k"
  shows "nacl_stream_xsalsa20_xor m n k = crypto_stream_xsalsa20_xor m n k \<and>
    nacl_stream_xsalsa20 l n k = crypto_stream_xsalsa20 l n k \<and>
    crypto_stream_xsalsa20_xor m n k = map2 (XOR) m (crypto_stream_xsalsa20 (length m) n k) \<and>
    crypto_stream_xsalsa20_xor (crypto_stream_xsalsa20_xor m n k) n k = m"
  using nacl_xsalsa20_eq [OF assms] xsalsa20_xor_stream xsalsa20_xor_twice by simp

theorem xsalsa20_streams_agree_witness:
  "nacl_stream_xsalsa20_xor (replicate 100 65) (replicate 24 1) (replicate 32 2) =
   crypto_stream_xsalsa20_xor (replicate 100 65) (replicate 24 1) (replicate 32 2)"
  using xsalsa20_streams_agree [of "replicate 24 1" "replicate 32 2" "replicate 100 65"] by simp

end
