(* ===== verification/Poly1305.thy ===== *)
theory Poly1305
  imports Fe25519
begin

section \<open>The one-time authenticator Poly1305\<close>

text \<open>
  Two implementations: dq (\<open>crypto/crypto_onetimeauth_poly1305.c\<close>, five 26-bit limbs) and the
  NaCl reference code that curvedns uses (\<open>nacl/crypto_onetimeauth/poly1305/ref/auth.c\<close>, 17
  bytes).  The specification is the polynomial over the integers modulo \<open>2 ^ 130 - 5\<close>.
\<close>

subsection \<open>dq\<close>

type_synonym limbs5 = "u32 \<times> u32 \<times> u32 \<times> u32 \<times> u32"

definition poly_r :: "bytes \<Rightarrow> limbs5" where
  "poly_r k =
     (uint32_unpack k AND 0x3ffffff,
      drop_bit 2 (uint32_unpack (drop 3 k)) AND 0x3ffff03,
      drop_bit 4 (uint32_unpack (drop 6 k)) AND 0x3ffc0ff,
      drop_bit 6 (uint32_unpack (drop 9 k)) AND 0x3f03fff,
      drop_bit 8 (uint32_unpack (drop 12 k)) AND 0x00fffff)"

definition poly_add_full :: "bytes \<Rightarrow> limbs5 \<Rightarrow> limbs5" where
  "poly_add_full m h =
     (case h of (h0, h1, h2, h3, h4) \<Rightarrow>
       (h0 + (uint32_unpack m AND 0x3ffffff),
        h1 + (drop_bit 2 (uint32_unpack (drop 3 m)) AND 0x3ffffff),
        h2 + (drop_bit 4 (uint32_unpack (drop 6 m)) AND 0x3ffffff),
        h3 + (drop_bit 6 (uint32_unpack (drop 9 m)) AND 0x3ffffff),
        h4 + (drop_bit 8 (uint32_unpack (drop 12 m)) OR 16777216)))"

definition poly_add_last :: "bytes \<Rightarrow> limbs5 \<Rightarrow> limbs5" where
  "poly_add_last m h =
     (case h of (h0, h1, h2, h3, h4) \<Rightarrow>
      let mm = replicate 16 0; mm = fold (\<lambda>i mm. mm[i := m ! i]) [0..<length m] mm; mm = mm[length m := 1]
      in (h0 + (uint32_unpack mm AND 0x3ffffff),
          h1 + (drop_bit 2 (uint32_unpack (drop 3 mm)) AND 0x3ffffff),
          h2 + (drop_bit 4 (uint32_unpack (drop 6 mm)) AND 0x3ffffff),
          h3 + (drop_bit 6 (uint32_unpack (drop 9 mm)) AND 0x3ffffff),
          h4 + drop_bit 8 (uint32_unpack (drop 12 mm))))"

definition poly_mul :: "limbs5 \<Rightarrow> limbs5 \<Rightarrow> u64 \<times> u64 \<times> u64 \<times> u64 \<times> u64" where
  "poly_mul r h =
     (case (r, h) of ((r0, r1, r2, r3, r4), (h0, h1, h2, h3, h4)) \<Rightarrow>
      let s1 = r1 * 5; s2 = r2 * 5; s3 = r3 * 5; s4 = r4 * 5;
          d0 = ucast h0 * ucast r0 + ucast h1 * ucast s4 + ucast h2 * ucast s3 + ucast h3 * ucast s2 + ucast h4 * ucast s1;
          d1 = ucast h0 * ucast r1 + ucast h1 * ucast r0 + ucast h2 * ucast s4 + ucast h3 * ucast s3 + ucast h4 * ucast s2;
          d2 = ucast h0 * ucast r2 + ucast h1 * ucast r1 + ucast h2 * ucast r0 + ucast h3 * ucast s4 + ucast h4 * ucast s3;
          d3 = ucast h0 * ucast r3 + ucast h1 * ucast r2 + ucast h2 * ucast r1 + ucast h3 * ucast r0 + ucast h4 * ucast s4;
          d4 = ucast h0 * ucast r4 + ucast h1 * ucast r3 + ucast h2 * ucast r2 + ucast h3 * ucast r1 + ucast h4 * ucast r0
      in (d0, d1, d2, d3, d4))"

definition poly_reduce :: "u64 \<times> u64 \<times> u64 \<times> u64 \<times> u64 \<Rightarrow> limbs5" where
  "poly_reduce d =
     (case d of (d0, d1, d2, d3, d4) \<Rightarrow>
      let c = ucast (drop_bit 26 d0) :: u32; h0 = ucast d0 AND 0x3ffffff;
          d1 = d1 + ucast c; c = ucast (drop_bit 26 d1) :: u32; h1 = ucast d1 AND 0x3ffffff;
          d2 = d2 + ucast c; c = ucast (drop_bit 26 d2) :: u32; h2 = ucast d2 AND 0x3ffffff;
          d3 = d3 + ucast c; c = ucast (drop_bit 26 d3) :: u32; h3 = ucast d3 AND 0x3ffffff;
          d4 = d4 + ucast c; c = ucast (drop_bit 26 d4) :: u32; h4 = ucast d4 AND 0x3ffffff;
          h0 = h0 + c * 5; c = drop_bit 26 h0; h0 = h0 AND 0x3ffffff;
          h1 = h1 + c
      in (h0, h1, h2, h3, h4))"

text \<open>The loop over the message.\<close>

function poly_loop :: "limbs5 \<Rightarrow> bytes \<Rightarrow> limbs5 \<Rightarrow> limbs5" where
  "poly_loop r m h =
     (if length m > 0
      then poly_loop r (drop 16 m)
             (poly_reduce (poly_mul r (if length m \<ge> 16 then poly_add_full m h else poly_add_last m h)))
      else h)"
  by pat_completeness auto
termination
  by (relation "measure (\<lambda>(r, m, h). length m)") auto

declare poly_loop.simps [simp del]

definition poly_carry :: "limbs5 \<Rightarrow> limbs5" where
  "poly_carry h =
     (case h of (h0, h1, h2, h3, h4) \<Rightarrow>
      let c = drop_bit 26 h1; h1 = h1 AND 0x3ffffff;
          h2 = h2 + c; c = drop_bit 26 h2; h2 = h2 AND 0x3ffffff;
          h3 = h3 + c; c = drop_bit 26 h3; h3 = h3 AND 0x3ffffff;
          h4 = h4 + c; c = drop_bit 26 h4; h4 = h4 AND 0x3ffffff;
          h0 = h0 + c * 5; c = drop_bit 26 h0; h0 = h0 AND 0x3ffffff;
          h1 = h1 + c
      in (h0, h1, h2, h3, h4))"

definition poly_freeze :: "limbs5 \<Rightarrow> limbs5" where
  "poly_freeze h =
     (case h of (h0, h1, h2, h3, h4) \<Rightarrow>
      let r0 = h0 + 5; c = drop_bit 26 r0; r0 = r0 AND 0x3ffffff;
          r1 = h1 + c; c = drop_bit 26 r1; r1 = r1 AND 0x3ffffff;
          r2 = h2 + c; c = drop_bit 26 r2; r2 = r2 AND 0x3ffffff;
          r3 = h3 + c; c = drop_bit 26 r3; r3 = r3 AND 0x3ffffff;
          r4 = h4 + c - push_bit 26 1;
          mask = drop_bit 31 r4 - 1;
          r0 = r0 AND mask; r1 = r1 AND mask; r2 = r2 AND mask; r3 = r3 AND mask; r4 = r4 AND mask;
          mask = NOT mask
      in ((h0 AND mask) OR r0, (h1 AND mask) OR r1, (h2 AND mask) OR r2, (h3 AND mask) OR r3, (h4 AND mask) OR r4))"

definition poly_words :: "limbs5 \<Rightarrow> u32 list" where
  "poly_words h =
     (case h of (h0, h1, h2, h3, h4) \<Rightarrow>
       [(h0 OR push_bit 26 h1) AND 0xffffffff, (drop_bit 6 h1 OR push_bit 20 h2) AND 0xffffffff,
        (drop_bit 12 h2 OR push_bit 14 h3) AND 0xffffffff, (drop_bit 18 h3 OR push_bit 8 h4) AND 0xffffffff])"

text \<open>\<open>f = h[i] + unpack(k + 16 + 4 * i) + (f >> 32); h[i] = f\<close>.\<close>

primrec poly_pad :: "(u32 \<times> u32) list \<Rightarrow> u64 \<Rightarrow> bytes" where
  "poly_pad [] f = []"
| "poly_pad (hs # rest) f =
     (let f = ucast (fst hs) + ucast (snd hs) + drop_bit 32 f :: u64 in uint32_pack (ucast f) @ poly_pad rest f)"

definition crypto_onetimeauth_poly1305 :: "bytes \<Rightarrow> bytes \<Rightarrow> bytes" where
  "crypto_onetimeauth_poly1305 m k =
     (let h = poly_freeze (poly_carry (poly_loop (poly_r k) m (0, 0, 0, 0, 0)))
      in poly_pad (zip (poly_words h) (map (\<lambda>i. uint32_unpack (drop (16 + 4 * i) k)) [0..<4])) 0)"

definition crypto_onetimeauth_poly1305_verify :: "bytes \<Rightarrow> bytes \<Rightarrow> bytes \<Rightarrow> int" where
  "crypto_onetimeauth_poly1305_verify h m k = verify h (crypto_onetimeauth_poly1305 m k) 16"

section \<open>The specification\<close>

definition p1305 :: nat where
  "p1305 = 2 ^ 130 - 5"

definition poly_clamp :: "nat \<Rightarrow> nat" where
  "poly_clamp r = r AND 0x0ffffffc0ffffffc0ffffffc0fffffff"

function poly_blocks :: "bytes \<Rightarrow> nat list" where
  "poly_blocks m = (if m = [] then [] else bytes_val (take 16 m @ [1]) # poly_blocks (drop 16 m))"
  by pat_completeness auto
termination
  by (relation "measure length") auto

declare poly_blocks.simps [simp del]

definition poly1305_spec :: "bytes \<Rightarrow> bytes \<Rightarrow> nat" where
  "poly1305_spec m k =
     (let r = poly_clamp (bytes_val (take 16 k)); s = bytes_val (take 16 (drop 16 k))
      in (fold (\<lambda>b h. (h + b) * r mod p1305) (poly_blocks m) 0 + s) mod 2 ^ 128)"

section \<open>Limbs\<close>

abbreviation X26 :: nat where "X26 \<equiv> 67108864"

fun limbs_val :: "limbs5 \<Rightarrow> nat" where
  "limbs_val (h0, h1, h2, h3, h4) =
     unat h0 + X26 * (unat h1 + X26 * (unat h2 + X26 * (unat h3 + X26 * unat h4)))"

lemma unat_mask26: "unat ((x :: u32) AND 0x3ffffff) = unat x mod X26"
  using unat_and_mask_mod [of x 26] by (simp add: mask_eq_exp_minus_1)

lemma bytes_val_slice: "bytes_val (take n (drop i b)) = bytes_val b div 256 ^ i mod 256 ^ n"
proof (induction b arbitrary: i n)
  case Nil
  then show ?case by (simp add: bytes_val_def)
next
  case (Cons x b)
  show ?case
  proof (cases i)
    case 0
    then show ?thesis
    proof (cases n)
      case (Suc m)
      have "bytes_val (x # b) mod 256 ^ Suc m = unat x + 256 * (bytes_val b mod 256 ^ m)"
        by (simp add: bytes_val_def mod_mult2_eq)
      then show ?thesis using Cons.IH [of m 0] 0 Suc by (simp add: bytes_val_def)
    qed (simp add: bytes_val_def)
  next
    case (Suc j)
    have "bytes_val (x # b) div 256 ^ Suc j = bytes_val b div 256 ^ j"
      by (simp add: bytes_val_def div_mult2_eq)
    then show ?thesis using Cons.IH [of n j] Suc by simp
  qed
qed

lemma unat_unpack_at: "i + 4 \<le> length b \<Longrightarrow> unat (uint32_unpack (drop i b)) = bytes_val b div 256 ^ i mod W32"
  using unat_unpack32 [of "drop i b"] bytes_val_slice [of 4 i b] by simp

lemma unat_shifted_unpack:
  assumes "i + 4 \<le> length b" "s < 32"
  shows "unat (drop_bit s (uint32_unpack (drop i b))) = take_bit (32 - s) (drop_bit (8 * i + s) (bytes_val b))"
proof -
  have "unat (uint32_unpack (drop i b)) = take_bit 32 (drop_bit (8 * i) (bytes_val b))"
    using unat_unpack_at [OF assms(1)] by (simp add: take_bit_eq_mod drop_bit_eq_div power_mult)
  then have "unat (drop_bit s (uint32_unpack (drop i b))) = drop_bit s (take_bit 32 (drop_bit (8 * i) (bytes_val b)))"
    by (simp only: unat_drop_bit_eq)
  then show ?thesis using assms(2) by (simp add: drop_bit_take_bit drop_bit_drop_bit add.commute)
qed

text \<open>The \<open>j\<close>-th limb of a number.\<close>

definition limb :: "nat \<Rightarrow> nat \<Rightarrow> nat" where
  "limb j v = take_bit 26 (drop_bit (26 * j) v)"

lemma limb_less: "limb j v < X26"
  using take_bit_nat_less_exp [of 26 "drop_bit (26 * j) v"] by (simp add: limb_def)

lemma limbs_sum:
  assumes "v < 2 ^ 130"
  shows "limb 0 v + X26 * (limb 1 v + X26 * (limb 2 v + X26 * (limb 3 v + X26 * limb 4 v))) = v"
proof -
  have s: "n = n mod X26 + X26 * (n div X26)" for n by simp
  have l: "limb j v = v div X26 ^ j mod X26" for j
    by (simp add: limb_def take_bit_eq_mod drop_bit_eq_div power_mult)
  have d: "v div X26 ^ Suc j = v div X26 ^ j div X26" for j by (simp only: power_Suc2 div_mult2_eq)
  have "v div X26 ^ 4 < X26" using assms by (simp add: div_less_iff_less_mult)
  then have 4: "limb 4 v = v div X26 ^ 4" by (simp add: l)
  have 3: "limb 3 v + X26 * limb 4 v = v div X26 ^ 3" unfolding 4 l [of 3] using s [of "v div X26 ^ 3"] d [of 3] by simp
  have 2: "limb 2 v + X26 * (limb 3 v + X26 * limb 4 v) = v div X26 ^ 2"
    unfolding 3 using s [of "v div X26 ^ 2"] d [of 2] l [of 2] by simp
  have 1: "limb 1 v + X26 * (limb 2 v + X26 * (limb 3 v + X26 * limb 4 v)) = v div X26 ^ 1"
    unfolding 2 using s [of "v div X26 ^ 1"] d [of 1] l [of 1] by simp
  show ?thesis unfolding 1 using s [of v] l [of 0] by simp
qed

lemma unat_masked:
  assumes "i + 4 \<le> length b" "s \<le> 6" "8 * i + s = 26 * j"
  shows "unat (drop_bit s (uint32_unpack (drop i b)) AND 0x3ffffff) = limb j (bytes_val b)"
proof -
  have "unat (drop_bit s (uint32_unpack (drop i b)) AND 0x3ffffff) =
      take_bit 26 (take_bit (32 - s) (drop_bit (26 * j) (bytes_val b)))"
    using unat_shifted_unpack [OF assms(1), of s] assms(2,3) unat_mask26 [of "drop_bit s (uint32_unpack (drop i b))"]
    by (simp add: take_bit_eq_mod [of 26, symmetric, simplified])
  then show ?thesis using assms(2) by (simp add: limb_def)
qed

lemma unat_clamped:
  assumes "i + 4 \<le> length b" "s \<le> 8" "8 * i + s = 26 * j" "unat c = limb j C"
    "s \<le> 6 \<or> bytes_val b < 2 ^ (8 * i + 32)"
  shows "unat (drop_bit s (uint32_unpack (drop i b)) AND c) = limb j (bytes_val b AND C)"
proof -
  let ?V = "bytes_val b"
  have "unat (drop_bit s (uint32_unpack (drop i b)) AND c) = take_bit (32 - s) (drop_bit (26 * j) ?V) AND limb j C"
    using unat_shifted_unpack [OF assms(1), of s] assms(2-4) by (simp add: unsigned_and_eq)
  also have "\<dots> = limb j (?V AND C)"
  proof (rule bit_eqI)
    fix k
    have "k < 32 - s" if "bit ?V (26 * j + k)" "k < 26"
    proof (cases "s \<le> 6")
      case False
      then have "take_bit (8 * i + 32) ?V = ?V" using assms(5) by (simp add: take_bit_nat_eq_self)
      then have "26 * j + k < 8 * i + 32" using that(1) by (metis bit_take_bit_iff)
      then show ?thesis using assms(3) by simp
    qed (use that in simp)
    then show "bit (take_bit (32 - s) (drop_bit (26 * j) ?V) AND limb j C) k = bit (limb j (?V AND C)) k"
      by (auto simp: limb_def bit_simps)
  qed
  finally show ?thesis .
qed

abbreviation clampC :: nat where "clampC \<equiv> 0x0ffffffc0ffffffc0ffffffc0fffffff"

lemma clamp_limbs:
  "limb 0 clampC = 0x3ffffff" "limb 1 clampC = 0x3ffff03" "limb 2 clampC = 0x3ffc0ff" "limb 3 clampC = 0x3f03fff"
  "limb 4 clampC = 0x00fffff"
  by (simp_all add: limb_def take_bit_eq_mod drop_bit_eq_div)

lemma bytes_val_bound: "bytes_val b < 256 ^ length b"
  using le_val_less [of "map unat b" 256] by (auto simp: bytes_val_def)

lemma unpack_take16: "i + 4 \<le> 16 \<Longrightarrow> uint32_unpack (drop i b) = uint32_unpack (drop i (take 16 b))"
  by (simp add: uint32_unpack_def drop_take min_def)

lemma poly_r_val:
  assumes "16 \<le> length k"
  defines "R \<equiv> poly_clamp (bytes_val (take 16 k))"
  shows "\<exists>r0 r1 r2 r3 r4. poly_r k = (r0, r1, r2, r3, r4) \<and> unat r0 = limb 0 R \<and> unat r1 = limb 1 R \<and>
    unat r2 = limb 2 R \<and> unat r3 = limb 3 R \<and> unat r4 = limb 4 R \<and> R < 2 ^ 128"
proof -
  let ?b = "take 16 k"
  have l: "length ?b = 16" using assms(1) by simp
  have V: "bytes_val ?b < 2 ^ 128" using bytes_val_bound [of ?b] l by simp
  have Rd: "R = bytes_val ?b AND clampC" unfolding R_def poly_clamp_def ..
  have "R \<le> clampC" unfolding Rd by (rule nat_and_le)
  then have R: "R < 2 ^ 128" by (rule le_less_trans) simp
  have c: "unat (drop_bit s (uint32_unpack (drop i k)) AND w) = limb j R"
    if "i + 4 \<le> 16" "s \<le> 8" "8 * i + s = 26 * j" "unat w = limb j clampC" "s \<le> 6 \<or> i = 12" for i s j w
    unfolding Rd by (subst unpack_take16 [OF that(1)], rule unat_clamped) (use that V l in auto)
  have "unat (drop_bit 0 (uint32_unpack (drop 0 k)) AND 0x3ffffff) = limb 0 R" by (rule c) (simp_all add: clamp_limbs)
  then have 0: "unat (uint32_unpack k AND 0x3ffffff) = limb 0 R" by (simp only: drop_bit_0 drop_0 id_apply)
  have 1: "unat (drop_bit 2 (uint32_unpack (drop 3 k)) AND 0x3ffff03) = limb 1 R" by (rule c) (simp_all only: clamp_limbs, simp_all)
  have 2: "unat (drop_bit 4 (uint32_unpack (drop 6 k)) AND 0x3ffc0ff) = limb 2 R" by (rule c) (simp_all only: clamp_limbs, simp_all)
  have 3: "unat (drop_bit 6 (uint32_unpack (drop 9 k)) AND 0x3f03fff) = limb 3 R" by (rule c) (simp_all only: clamp_limbs, simp_all)
  have 4: "unat (drop_bit 8 (uint32_unpack (drop 12 k)) AND 0x00fffff) = limb 4 R" by (rule c) (simp_all only: clamp_limbs, simp_all)
  show ?thesis unfolding poly_r_def using 0 1 2 3 4 R by blast
qed

text \<open>The limbs of a message block; the last one has the high bit.\<close>

definition has_limbs :: "limbs5 \<Rightarrow> nat \<Rightarrow> bool" where
  "has_limbs h v \<longleftrightarrow> (case h of (h0, h1, h2, h3, h4) \<Rightarrow>
     unat h0 = limb 0 v \<and> unat h1 = limb 1 v \<and> unat h2 = limb 2 v \<and> unat h3 = limb 3 v \<and> unat h4 = limb 4 v)"

lemma limb_eq: "limb j v = v div 2 ^ (26 * j) mod X26"
  by (simp add: limb_def take_bit_eq_mod drop_bit_eq_div)

lemma limb_high:
  assumes "V < 2 ^ 128"
  shows "j < 4 \<Longrightarrow> limb j (V + 2 ^ 128) = limb j V" "limb 4 (V + 2 ^ 128) = limb 4 V + 2 ^ 24" "limb 4 V < 2 ^ 24"
proof -
  have d: "V div 2 ^ 104 < 2 ^ 24" using assms by (simp add: div_less_iff_less_mult)
  have l4: "limb 4 V = V div 2 ^ 104"
    unfolding limb_eq using d by (simp add: mod_less)
  show "limb 4 V < 2 ^ 24" using d l4 by simp
  have "(V + 2 ^ 128) div 2 ^ 104 = V div 2 ^ 104 + 2 ^ 24"
    using div_mult_self2 [of "2 ^ 104" V "2 ^ 24"] by simp
  then show "limb 4 (V + 2 ^ 128) = limb 4 V + 2 ^ 24"
    unfolding l4 unfolding limb_eq using d by simp
  assume "j < 4"
  then have "26 * j + 26 + (102 - 26 * j) = 128" by simp
  then have e: "(2 :: nat) ^ 128 = 2 ^ (26 * j) * (X26 * 2 ^ (102 - 26 * j))"
    using power_add [of "2 :: nat" "26 * j" "26 + (102 - 26 * j)"] power_add [of "2 :: nat" 26 "102 - 26 * j"]
    by (simp add: add.assoc)
  show "limb j (V + 2 ^ 128) = limb j V"
    unfolding limb_eq e by (simp only: div_mult_self2 power_not_zero zero_neq_numeral not_False_eq_True mod_mult_self1 mod_mult_self2 mod_mult_self3 mod_mult_self4)
qed

definition limbs_bound :: "nat \<Rightarrow> nat \<Rightarrow> limbs5 \<Rightarrow> bool" where
  "limbs_bound a b h \<longleftrightarrow> (case h of (h0, h1, h2, h3, h4) \<Rightarrow>
     unat h0 < a \<and> unat h1 < b \<and> unat h2 < a \<and> unat h3 < a \<and> unat h4 < a)"

text \<open>Adding the limbs of \<open>v\<close> to an accumulator.\<close>

lemma add_limbs5:
  assumes "limbs_bound X26 (X26 + 64) (h0, h1, h2, h3, h4)" "v < 2 ^ 130"
    "unat a0 = limb 0 v" "unat a1 = limb 1 v" "unat a2 = limb 2 v" "unat a3 = limb 3 v" "unat a4 = limb 4 v"
  shows "limbs_bound (2 * X26) (2 * X26 + 64) (h0 + a0, h1 + a1, h2 + a2, h3 + a3, h4 + a4)"
    "limbs_val (h0 + a0, h1 + a1, h2 + a2, h3 + a3, h4 + a4) = limbs_val (h0, h1, h2, h3, h4) + v"
proof -
  have b: "unat h0 < X26" "unat h1 < X26 + 64" "unat h2 < X26" "unat h3 < X26" "unat h4 < X26"
    using assms(1) by (simp_all add: limbs_bound_def)
  have a: "unat a0 < X26" "unat a1 < X26" "unat a2 < X26" "unat a3 < X26" "unat a4 < X26"
    using assms(3-7) limb_less by simp_all
  have s: "unat (h0 + a0) = unat h0 + unat a0" "unat (h1 + a1) = unat h1 + unat a1" "unat (h2 + a2) = unat h2 + unat a2"
      "unat (h3 + a3) = unat h3 + unat a3" "unat (h4 + a4) = unat h4 + unat a4"
    using a b by (intro unat_add_less; simp)+
  show "limbs_bound (2 * X26) (2 * X26 + 64) (h0 + a0, h1 + a1, h2 + a2, h3 + a3, h4 + a4)"
    unfolding limbs_bound_def prod.case s using a b by linarith
  have "limbs_val (h0 + a0, h1 + a1, h2 + a2, h3 + a3, h4 + a4) =
      limbs_val (h0, h1, h2, h3, h4) + (unat a0 + X26 * (unat a1 + X26 * (unat a2 + X26 * (unat a3 + X26 * unat a4))))"
    unfolding limbs_val.simps s by (simp add: algebra_simps)
  then show "limbs_val (h0 + a0, h1 + a1, h2 + a2, h3 + a3, h4 + a4) = limbs_val (h0, h1, h2, h3, h4) + v"
    unfolding assms(3-7) limbs_sum [OF assms(2)] .
qed

lemma unat_masked0: "4 \<le> length b \<Longrightarrow> unat (uint32_unpack b AND 0x3ffffff) = limb 0 (bytes_val b)"
  using unat_masked [of 0 b 0 0] by simp

lemma unat_top_limb:
  assumes "length b = 16"
  shows "unat (drop_bit 8 (uint32_unpack (drop 12 b))) = limb 4 (bytes_val b)"
proof -
  have "unat (drop_bit 8 (uint32_unpack (drop 12 b))) = take_bit 24 (drop_bit 104 (bytes_val b))"
    using unat_shifted_unpack [of 12 b 8] assms by simp
  moreover have "drop_bit 104 (bytes_val b) < 2 ^ 24"
    using bytes_val_bound [of b] assms by (simp add: drop_bit_eq_div div_less_iff_less_mult)
  ultimately show ?thesis by (simp add: limb_def take_bit_nat_eq_self)
qed

lemma poly_add_full_val:
  assumes "limbs_bound X26 (X26 + 64) h" "16 \<le> length m"
  shows "limbs_bound (2 * X26) (2 * X26 + 64) (poly_add_full m h)"
    "limbs_val (poly_add_full m h) = limbs_val h + bytes_val (take 16 m @ [1])"
proof -
  obtain h0 h1 h2 h3 h4 where h: "h = (h0, h1, h2, h3, h4)" by (cases h)
  let ?b = "take 16 m" let ?V = "bytes_val ?b"
  have l: "length ?b = 16" using assms(2) by simp
  have V: "?V < 2 ^ 128" using bytes_val_bound [of ?b] l by simp
  have t: "bytes_val (?b @ [1]) = ?V + 2 ^ 128" using l by (simp add: bytes_val_append) (simp add: bytes_val_def)
  have u: "uint32_unpack m = uint32_unpack ?b" using unpack_take16 [of 0 m] by simp
  note L = limb_high [OF V]
  have 0: "unat (uint32_unpack m AND 0x3ffffff) = limb 0 (?V + 2 ^ 128)"
    unfolding u using unat_masked0 [of ?b] L(1) [of 0] l by simp
  have k: "unat (drop_bit s (uint32_unpack (drop i m)) AND 0x3ffffff) = limb j (?V + 2 ^ 128)"
    if "i + 4 \<le> 16" "s \<le> 6" "8 * i + s = 26 * j" "j < 4" for i s j
    unfolding L(1) [OF that(4)] by (subst unpack_take16 [OF that(1)], rule unat_masked) (use that l in simp_all)
  have 4: "unat (drop_bit 8 (uint32_unpack (drop 12 m)) OR 16777216) = limb 4 (?V + 2 ^ 128)"
  proof -
    let ?t = "drop_bit 8 (uint32_unpack (drop 12 m))"
    have T: "unat ?t = limb 4 ?V" by (subst unpack_take16, simp, rule unat_top_limb [OF l])
    have "(16777216 :: u32) = push_bit 24 1" by (simp add: push_bit_eq_mult)
    then have "unat (?t OR 16777216) = unat ?t OR push_bit 24 1" by (simp add: unsigned_or_eq)
    also have "\<dots> = unat ?t + 2 ^ 24 * 1" by (rule nat_or_push_bit) (use T L(3) in simp)
    finally show ?thesis using T L(2) by simp
  qed
  have V2: "?V + 2 ^ 128 < 2 ^ 130" using V by simp
  note A = add_limbs5 [OF assms(1) [unfolded h] V2 0 k [of 3 2 1] k [of 6 4 2] k [of 9 6 3] 4]
  show "limbs_bound (2 * X26) (2 * X26 + 64) (poly_add_full m h)"
    unfolding poly_add_full_def h prod.case by (rule A(1)) simp_all
  show "limbs_val (poly_add_full m h) = limbs_val h + bytes_val (take 16 m @ [1])"
    unfolding t poly_add_full_def h prod.case by (rule A(2)) simp_all
qed

lemma fold_copy:
  "n \<le> length m \<Longrightarrow> n \<le> k \<Longrightarrow> fold (\<lambda>i y. y[i := m ! i]) [0..<n] (replicate k z) = take n m @ replicate (k - n) z"
proof (induction n)
  case (Suc n)
  have "k - n = Suc (k - Suc n)" using Suc.prems by simp
  then have "(take n m @ replicate (k - n) z)[n := m ! n] = take n m @ m ! n # replicate (k - Suc n) z"
    using Suc.prems by (simp add: list_update_append)
  then show ?case using Suc by (simp add: take_Suc_conv_app_nth)
qed simp

lemma bytes_val_zeros: "bytes_val (b @ replicate n 0) = bytes_val b"
  by (induction b) (simp_all add: bytes_val_def)

lemma poly_add_last_val:
  assumes "limbs_bound X26 (X26 + 64) h" "length m < 16"
  shows "limbs_bound (2 * X26) (2 * X26 + 64) (poly_add_last m h)"
    "limbs_val (poly_add_last m h) = limbs_val h + bytes_val (take 16 m @ [1])"
proof -
  obtain h0 h1 h2 h3 h4 where h: "h = (h0, h1, h2, h3, h4)" by (cases h)
  define mm where "mm = (m @ [1]) @ replicate (15 - length m) 0"
  have "16 - length m = Suc (15 - length m)" using assms(2) by simp
  then have mm: "(fold (\<lambda>i mm. mm[i := m ! i]) [0..<length m] (replicate 16 0))[length m := 1] = mm"
    using assms(2) fold_copy [of "length m" m 16 0] by (simp add: mm_def list_update_append)
  have l: "length mm = 16" using assms(2) by (simp add: mm_def)
  have t: "bytes_val (take 16 m @ [1]) = bytes_val mm" unfolding mm_def bytes_val_zeros using assms(2) by simp
  have V: "bytes_val mm < 2 ^ 130" using bytes_val_bound [of mm] l by simp
  have k: "unat (drop_bit s (uint32_unpack (drop i mm)) AND 0x3ffffff) = limb j (bytes_val mm)"
    if "i + 4 \<le> 16" "s \<le> 6" "8 * i + s = 26 * j" for i s j
    using that l by (intro unat_masked) simp_all
  have 0: "unat (uint32_unpack mm AND 0x3ffffff) = limb 0 (bytes_val mm)" using unat_masked0 [of mm] l by simp
  note A = add_limbs5 [OF assms(1) [unfolded h] V 0 k [of 3 2 1] k [of 6 4 2] k [of 9 6 3] unat_top_limb [OF l]]
  show "limbs_bound (2 * X26) (2 * X26 + 64) (poly_add_last m h)"
    unfolding poly_add_last_def h prod.case Let_def mm by (rule A(1)) simp_all
  show "limbs_val (poly_add_last m h) = limbs_val h + bytes_val (take 16 m @ [1])"
    unfolding t poly_add_last_def h prod.case Let_def mm by (rule A(2)) simp_all
qed

subsection \<open>Multiplication and partial reduction\<close>

lemma poly_identity:
  fixes X :: nat
  shows "(h0 * r0 + h1 * (r4 * 5) + h2 * (r3 * 5) + h3 * (r2 * 5) + h4 * (r1 * 5)) +
     X * ((h0 * r1 + h1 * r0 + h2 * (r4 * 5) + h3 * (r3 * 5) + h4 * (r2 * 5)) +
     X * ((h0 * r2 + h1 * r1 + h2 * r0 + h3 * (r4 * 5) + h4 * (r3 * 5)) +
     X * ((h0 * r3 + h1 * r2 + h2 * r1 + h3 * r0 + h4 * (r4 * 5)) +
     X * (h0 * r4 + h1 * r3 + h2 * r2 + h3 * r1 + h4 * r0)))) +
     X * (X * (X * (X * X))) * ((h1 * r4 + h2 * r3 + h3 * r2 + h4 * r1) + X * ((h2 * r4 + h3 * r3 + h4 * r2) + X * ((h3 * r4 + h4 * r3) + X * (h4 * r4)))) =
   (h0 + X * (h1 + X * (h2 + X * (h3 + X * h4)))) * (r0 + X * (r1 + X * (r2 + X * (r3 + X * r4)))) +
     5 * ((h1 * r4 + h2 * r3 + h3 * r2 + h4 * r1) + X * ((h2 * r4 + h3 * r3 + h4 * r2) + X * ((h3 * r4 + h4 * r3) + X * (h4 * r4))))"
  by (simp add: algebra_simps)

lemma p1305_fold: "a + 2 ^ 130 * k = b + 5 * k \<Longrightarrow> a mod p1305 = b mod p1305"
proof -
  assume e: "a + 2 ^ 130 * k = b + 5 * k"
  have "2 ^ 130 * k = p1305 * k + 5 * k" by (simp add: p1305_def)
  then have "a + p1305 * k = b" using e by linarith
  then show ?thesis by (metis mod_mult_self2)
qed

fun dval :: "u64 \<times> u64 \<times> u64 \<times> u64 \<times> u64 \<Rightarrow> nat" where
  "dval (d0, d1, d2, d3, d4) = unat d0 + X26 * (unat d1 + X26 * (unat d2 + X26 * (unat d3 + X26 * unat d4)))"

lemma prod_bound: "unat (x :: u32) < 2 * X26 + 64 \<Longrightarrow> unat (y :: u32) < b \<Longrightarrow> unat x * unat y \<le> (2 * X26 + 64) * b"
  by (intro mult_mono) simp_all

lemma five_products:
  fixes x0 x1 x2 x3 x4 y0 y1 y2 y3 y4 :: u32
  assumes "\<forall>x \<in> {x0, x1, x2, x3, x4}. unat x < 2 * X26 + 64" "\<forall>y \<in> {y0, y1, y2, y3, y4}. unat y < b" "b \<le> 5 * X26"
  defines "d \<equiv> ucast x0 * ucast y0 + ucast x1 * ucast y1 + ucast x2 * ucast y2 + ucast x3 * ucast y3 + ucast x4 * ucast y4 :: u64"
  shows "unat d = unat x0 * unat y0 + unat x1 * unat y1 + unat x2 * unat y2 + unat x3 * unat y3 + unat x4 * unat y4"
    "unat d \<le> 5 * ((2 * X26 + 64) * b)"
proof -
  have p: "unat x0 * unat y0 \<le> (2 * X26 + 64) * b" "unat x1 * unat y1 \<le> (2 * X26 + 64) * b"
      "unat x2 * unat y2 \<le> (2 * X26 + 64) * b" "unat x3 * unat y3 \<le> (2 * X26 + 64) * b" "unat x4 * unat y4 \<le> (2 * X26 + 64) * b"
    using assms(1,2) by (intro prod_bound; simp)+
  have m: "(2 * X26 + 64) * b \<le> (2 * X26 + 64) * (5 * X26)" using assms(3) by (intro mult_le_mono2)
  show eq: "unat d = unat x0 * unat y0 + unat x1 * unat y1 + unat x2 * unat y2 + unat x3 * unat y3 + unat x4 * unat y4"
    unfolding d_def using p m by (simp add: unat_add_less u32_product)
  show "unat d \<le> 5 * ((2 * X26 + 64) * b)" unfolding eq using p by linarith
qed

lemma times5: "unat (r :: u32) < X26 \<Longrightarrow> unat (r * 5) = unat r * 5"
  by (subst unat_mult_less) simp_all

lemma poly_mul_val:
  assumes "limbs_bound X26 X26 r" "limbs_bound (2 * X26) (2 * X26 + 64) h"
  obtains d0 d1 d2 d3 d4 where "poly_mul r h = (d0, d1, d2, d3, d4)"
    "\<forall>d \<in> {d0, d1, d2, d3}. unat d \<le> 5 * ((2 * X26 + 64) * (5 * X26))" "unat d4 \<le> 5 * ((2 * X26 + 64) * X26)"
    "dval (d0, d1, d2, d3, d4) mod p1305 = (limbs_val h * limbs_val r) mod p1305"
proof -
  obtain r0 r1 r2 r3 r4 where r: "r = (r0, r1, r2, r3, r4)" by (cases r)
  obtain h0 h1 h2 h3 h4 where h: "h = (h0, h1, h2, h3, h4)" by (cases h)
  have rb: "unat r0 < X26" "unat r1 < X26" "unat r2 < X26" "unat r3 < X26" "unat r4 < X26"
    using assms(1) unfolding r limbs_bound_def by simp_all
  have hb: "\<forall>x \<in> {h0, h1, h2, h3, h4}. unat x < 2 * X26 + 64"
    using assms(2) unfolding h limbs_bound_def by simp
  note s = times5 [OF rb(2)] times5 [OF rb(3)] times5 [OF rb(4)] times5 [OF rb(5)]
  have y: "\<forall>y \<in> {r0, r4 * 5, r3 * 5, r2 * 5, r1 * 5}. unat y < 5 * X26" "\<forall>y \<in> {r1, r0, r4 * 5, r3 * 5, r2 * 5}. unat y < 5 * X26"
    "\<forall>y \<in> {r2, r1, r0, r4 * 5, r3 * 5}. unat y < 5 * X26" "\<forall>y \<in> {r3, r2, r1, r0, r4 * 5}. unat y < 5 * X26"
    "\<forall>y \<in> {r4, r3, r2, r1, r0}. unat y < X26" "X26 \<le> 5 * X26"
    using rb s by simp_all
  note f0 = five_products [OF hb y(1) order.refl] and f1 = five_products [OF hb y(2) order.refl]
    and f2 = five_products [OF hb y(3) order.refl] and f3 = five_products [OF hb y(4) order.refl]
    and f4 = five_products [OF hb y(5,6)]
  let ?d0 = "ucast h0 * ucast r0 + ucast h1 * ucast (r4 * 5) + ucast h2 * ucast (r3 * 5) + ucast h3 * ucast (r2 * 5) + ucast h4 * ucast (r1 * 5) :: u64"
  let ?d1 = "ucast h0 * ucast r1 + ucast h1 * ucast r0 + ucast h2 * ucast (r4 * 5) + ucast h3 * ucast (r3 * 5) + ucast h4 * ucast (r2 * 5) :: u64"
  let ?d2 = "ucast h0 * ucast r2 + ucast h1 * ucast r1 + ucast h2 * ucast r0 + ucast h3 * ucast (r4 * 5) + ucast h4 * ucast (r3 * 5) :: u64"
  let ?d3 = "ucast h0 * ucast r3 + ucast h1 * ucast r2 + ucast h2 * ucast r1 + ucast h3 * ucast r0 + ucast h4 * ucast (r4 * 5) :: u64"
  let ?d4 = "ucast h0 * ucast r4 + ucast h1 * ucast r3 + ucast h2 * ucast r2 + ucast h3 * ucast r1 + ucast h4 * ucast r0 :: u64"
  note v = f0(1) [unfolded s] f1(1) [unfolded s] f2(1) [unfolded s] f3(1) [unfolded s] f4(1)
  have b: "\<forall>d \<in> {?d0, ?d1, ?d2, ?d3}. unat d \<le> 5 * ((2 * X26 + 64) * (5 * X26))"
    using f0(2) f1(2) f2(2) f3(2) by (simp only: ball_simps insert_iff empty_iff simp_thms)
  have X: "X26 * (X26 * (X26 * (X26 * X26))) = 2 ^ 130" by simp
  have "dval (?d0, ?d1, ?d2, ?d3, ?d4) mod p1305 = (limbs_val h * limbs_val r) mod p1305"
    unfolding dval.simps v h r limbs_val.simps
    by (rule p1305_fold, unfold X [symmetric], rule poly_identity)
  moreover have "poly_mul r h = (?d0, ?d1, ?d2, ?d3, ?d4)" unfolding poly_mul_def r h prod.case Let_def ..
  ultimately show thesis by (intro that [OF _ b f4(2)])
qed

text \<open>One step of a carry chain at 26 bits.\<close>

lemma carry26:
  fixes d :: u64 and c :: u32
  assumes "unat d + unat c < 2 ^ 58"
  shows "unat (ucast (drop_bit 26 (d + ucast c)) :: u32) = (unat d + unat c) div X26"
    "unat (ucast (d + ucast c) AND 0x3ffffff :: u32) = (unat d + unat c) mod X26"
proof -
  have s: "unat (d + ucast c) = unat d + unat c" using assms by (subst unat_add_less) simp_all
  have "(unat d + unat c) div X26 < W32" using assms by (simp add: div_less_iff_less_mult)
  then show "unat (ucast (drop_bit 26 (d + ucast c)) :: u32) = (unat d + unat c) div X26"
    using unat_drop_bit_div [of 26 "d + ucast c"] by (simp add: unat_u64_u32 s)
  have "(unat d + unat c) mod W32 mod X26 = (unat d + unat c) mod X26" by (rule mod_mod_cancel) simp
  then show "unat (ucast (d + ucast c) AND 0x3ffffff :: u32) = (unat d + unat c) mod X26"
    by (simp add: unat_mask26 unat_u64_u32 s)
qed

lemma carry32:
  fixes h c :: u32
  assumes "unat h + unat c < W32"
  shows "unat (drop_bit 26 (h + c)) = (unat h + unat c) div X26" "unat ((h + c) AND 0x3ffffff) = (unat h + unat c) mod X26"
    "unat (h + c) = unat h + unat c"
proof -
  show s: "unat (h + c) = unat h + unat c" using assms by (subst unat_add_less) simp_all
  show "unat (drop_bit 26 (h + c)) = (unat h + unat c) div X26" using unat_drop_bit_div [of 26 "h + c"] s by simp
  show "unat ((h + c) AND 0x3ffffff) = (unat h + unat c) mod X26" by (simp add: unat_mask26 s)
qed

lemma digit_split: "n mod X26 + X26 * (n div X26 + m) = n + X26 * m"
  by (simp add: algebra_simps)

text \<open>A carry chain of numbers, with the last carry \<open>c4\<close>.\<close>

lemma chain5_linear:
  fixes n0 n1 n2 n3 n4 :: nat
  assumes "n0 = m0 + X26 * q0" "n1 + q0 = m1 + X26 * q1" "n2 + q1 = m2 + X26 * q2" "n3 + q2 = m3 + X26 * q3" "n4 + q3 = m4 + X26 * q4"
  shows "m0 + X26 * (m1 + X26 * (m2 + X26 * (m3 + X26 * m4))) + 2 ^ 130 * q4 = n0 + X26 * (n1 + X26 * (n2 + X26 * (n3 + X26 * n4)))"
  using assms by simp

lemma chain5:
  fixes n0 n1 n2 n3 n4 :: nat
  assumes "e1 = n1 + n0 div X26" "e2 = n2 + e1 div X26" "e3 = n3 + e2 div X26" "e4 = n4 + e3 div X26"
  shows "n0 mod X26 + X26 * (e1 mod X26 + X26 * (e2 mod X26 + X26 * (e3 mod X26 + X26 * (e4 mod X26)))) + 2 ^ 130 * (e4 div X26) =
    n0 + X26 * (n1 + X26 * (n2 + X26 * (n3 + X26 * n4)))"
  by (rule chain5_linear [of _ _ "n0 div X26" _ _ "e1 div X26" _ _ "e2 div X26" _ _ "e3 div X26"])
     (simp_all only: assms mod_mult_div_eq)

lemma poly_reduce_val:
  assumes "\<forall>d \<in> {d0, d1, d2, d3}. unat d \<le> 5 * ((2 * X26 + 64) * (5 * X26))" "unat d4 \<le> 5 * ((2 * X26 + 64) * X26)"
  shows "limbs_bound X26 (X26 + 64) (poly_reduce (d0, d1, d2, d3, d4))"
    "limbs_val (poly_reduce (d0, d1, d2, d3, d4)) mod p1305 = dval (d0, d1, d2, d3, d4) mod p1305"
proof -
  have B: "unat d0 < 230000000000000000" "unat d1 < 230000000000000000" "unat d2 < 230000000000000000" "unat d3 < 230000000000000000" "unat d4 < 2 ^ 56"
    using assms by simp_all
  define c0 where "c0 = (ucast (drop_bit 26 d0) :: u32)"
  define c1 where "c1 = (ucast (drop_bit 26 (d1 + ucast c0)) :: u32)"
  define c2 where "c2 = (ucast (drop_bit 26 (d2 + ucast c1)) :: u32)"
  define c3 where "c3 = (ucast (drop_bit 26 (d3 + ucast c2)) :: u32)"
  define c4 where "c4 = (ucast (drop_bit 26 (d4 + ucast c3)) :: u32)"
  define h0 where "h0 = (ucast d0 AND 0x3ffffff :: u32)"
  define h1 where "h1 = (ucast (d1 + ucast c0) AND 0x3ffffff :: u32)"
  define h2 where "h2 = (ucast (d2 + ucast c1) AND 0x3ffffff :: u32)"
  define h3 where "h3 = (ucast (d3 + ucast c2) AND 0x3ffffff :: u32)"
  define h4 where "h4 = (ucast (d4 + ucast c3) AND 0x3ffffff :: u32)"
  define g where "g = h0 + c4 * 5"
  have R: "poly_reduce (d0, d1, d2, d3, d4) = (g AND 0x3ffffff, h1 + drop_bit 26 g, h2, h3, h4)"
    unfolding poly_reduce_def prod.case Let_def g_def h0_def h1_def h2_def h3_def h4_def c4_def c3_def c2_def c1_def c0_def ..
  have cb: "unat d + unat c < 2 ^ 58" if "unat d < 230000000000000000" for d :: u64 and c :: u32
  proof -
    have "unat d + unat c < 230000000000000000 + W32" using that by (intro add_strict_mono) simp_all
    then show ?thesis by (rule less_le_trans) simp
  qed
  have B4: "unat d4 < 230000000000000000" using B(5) by simp
  have 0: "unat c0 = unat d0 div X26" "unat h0 = unat d0 mod X26"
    using carry26 [of d0 0] B(1) by (simp_all add: c0_def h0_def)
  define e1 where "e1 = unat d1 + unat c0"
  define e2 where "e2 = unat d2 + unat c1"
  define e3 where "e3 = unat d3 + unat c2"
  define e4 where "e4 = unat d4 + unat c3"
  have 1: "unat c1 = e1 div X26" "unat h1 = e1 mod X26"
    using carry26 [OF cb [OF B(2)], of c0] by (simp_all add: c1_def h1_def e1_def)
  have 2: "unat c2 = e2 div X26" "unat h2 = e2 mod X26"
    using carry26 [OF cb [OF B(3)], of c1] by (simp_all add: c2_def h2_def e2_def)
  have 3: "unat c3 = e3 div X26" "unat h3 = e3 mod X26"
    using carry26 [OF cb [OF B(4)], of c2] by (simp_all add: c3_def h3_def e3_def)
  have 4: "unat c4 = e4 div X26" "unat h4 = e4 mod X26"
    using carry26 [OF cb [OF B4], of c3] by (simp_all add: c4_def h4_def e4_def)
  have "e4 \<le> 5 * ((2 * X26 + 64) * X26) + W32" unfolding e4_def using assms(2) less_imp_le [OF unat_u32_less [of c3]] by (rule add_mono)
  then have "e4 div X26 \<le> (5 * ((2 * X26 + 64) * X26) + W32) div X26" by (rule div_le_mono)
  then have c4: "unat c4 \<le> 671089024" unfolding 4 by simp
  have c5: "unat (c4 * 5) = 5 * unat c4" using c4 by (subst unat_mult_less) simp_all
  have h0b: "unat h0 < X26" unfolding 0 by simp
  have G: "unat (drop_bit 26 g) = (unat h0 + 5 * unat c4) div X26" "unat (g AND 0x3ffffff) = (unat h0 + 5 * unat c4) mod X26"
    using carry32 [of h0 "c4 * 5"] h0b c4 c5 by (simp_all add: g_def)
  have gb: "unat (drop_bit 26 g) < 64" unfolding G using h0b c4 by (simp add: div_less_iff_less_mult)
  have h1b: "unat h1 < X26" unfolding 1 by simp
  have H1: "unat (h1 + drop_bit 26 g) = unat h1 + unat (drop_bit 26 g)"
    using gb h1b by (subst unat_add_less) simp_all
  show "limbs_bound X26 (X26 + 64) (poly_reduce (d0, d1, d2, d3, d4))"
    unfolding R limbs_bound_def prod.case H1 using gb h1b unfolding G 2 3 4 by simp
  have "limbs_val (poly_reduce (d0, d1, d2, d3, d4)) = (unat h0 + X26 * (unat h1 + X26 * (unat h2 + X26 * (unat h3 + X26 * unat h4)))) + 5 * unat c4"
  proof -
    have "unat (g AND 0x3ffffff) + X26 * unat (drop_bit 26 g) = unat h0 + 5 * unat c4" unfolding G by simp
    then show ?thesis unfolding R limbs_val.simps H1 by (simp add: algebra_simps)
  qed
  moreover have "(unat h0 + X26 * (unat h1 + X26 * (unat h2 + X26 * (unat h3 + X26 * unat h4)))) + 2 ^ 130 * unat c4 = dval (d0, d1, d2, d3, d4)"
    unfolding dval.simps 0(2) 1(2) 2(2) 3(2) 4
    by (rule chain5) (simp_all add: e1_def e2_def e3_def e4_def 0 1 2 3)
  ultimately have "dval (d0, d1, d2, d3, d4) + 5 * unat c4 = limbs_val (poly_reduce (d0, d1, d2, d3, d4)) + 2 ^ 130 * unat c4" by simp
  then show "limbs_val (poly_reduce (d0, d1, d2, d3, d4)) mod p1305 = dval (d0, d1, d2, d3, d4) mod p1305"
    using p1305_fold [of "limbs_val (poly_reduce (d0, d1, d2, d3, d4))" "unat c4" "dval (d0, d1, d2, d3, d4)"] by simp
qed

subsection \<open>The loop over the message\<close>

lemma fold_mod_cong:
  "a mod p1305 = b mod p1305 \<Longrightarrow>
   fold (\<lambda>b h. (h + b) * r mod p1305) bs a mod p1305 = fold (\<lambda>b h. (h + b) * r mod p1305) bs b mod p1305"
proof (induction bs arbitrary: a b)
  case (Cons x bs)
  have "(a + x) * r mod p1305 = (b + x) * r mod p1305"
    by (rule mod_mult_cong [OF mod_add_cong [OF Cons.prems refl] refl])
  then show ?case by simp
qed simp

lemma poly_step_val:
  assumes r: "limbs_bound X26 X26 r" and h: "limbs_bound X26 (X26 + 64) h" and m: "m \<noteq> []"
  defines "h' \<equiv> poly_reduce (poly_mul r (if length m \<ge> 16 then poly_add_full m h else poly_add_last m h))"
  shows "limbs_bound X26 (X26 + 64) h'"
    "limbs_val h' mod p1305 = (limbs_val h + bytes_val (take 16 m @ [1])) * limbs_val r mod p1305"
proof -
  define g where "g = (if length m \<ge> 16 then poly_add_full m h else poly_add_last m h)"
  have g: "limbs_bound (2 * X26) (2 * X26 + 64) g" "limbs_val g = limbs_val h + bytes_val (take 16 m @ [1])"
    using poly_add_full_val [OF h] poly_add_last_val [OF h] by (simp_all add: g_def not_le)
  obtain d0 d1 d2 d3 d4 where D: "poly_mul r g = (d0, d1, d2, d3, d4)"
    "\<forall>d \<in> {d0, d1, d2, d3}. unat d \<le> 5 * ((2 * X26 + 64) * (5 * X26))" "unat d4 \<le> 5 * ((2 * X26 + 64) * X26)"
    "dval (d0, d1, d2, d3, d4) mod p1305 = (limbs_val g * limbs_val r) mod p1305"
    by (rule poly_mul_val [OF r g(1)])
  show "limbs_bound X26 (X26 + 64) h'"
    unfolding h'_def g_def [symmetric] D(1) by (rule poly_reduce_val(1) [OF D(2,3)])
  show "limbs_val h' mod p1305 = (limbs_val h + bytes_val (take 16 m @ [1])) * limbs_val r mod p1305"
    unfolding h'_def g_def [symmetric] D(1) poly_reduce_val(2) [OF D(2,3)] D(4) g(2) ..
qed

lemma poly_loop_val:
  assumes "limbs_bound X26 X26 r" "limbs_bound X26 (X26 + 64) h"
  shows "limbs_bound X26 (X26 + 64) (poly_loop r m h) \<and>
    limbs_val (poly_loop r m h) mod p1305 =
      fold (\<lambda>b h. (h + b) * limbs_val r mod p1305) (poly_blocks m) (limbs_val h) mod p1305"
  using assms(2)
proof (induction m arbitrary: h rule: length_induct)
  case (1 m)
  show ?case
  proof (cases "m = []")
    case True
    then show ?thesis using 1(2) by (simp add: poly_loop.simps poly_blocks.simps)
  next
    case False
    define h' where "h' = poly_reduce (poly_mul r (if length m \<ge> 16 then poly_add_full m h else poly_add_last m h))"
    note S = poly_step_val [OF assms(1) 1(2) False, folded h'_def]
    have "length (drop 16 m) < length m" using False by simp
    then have IH: "limbs_bound X26 (X26 + 64) (poly_loop r (drop 16 m) h')"
        "limbs_val (poly_loop r (drop 16 m) h') mod p1305 =
          fold (\<lambda>b h. (h + b) * limbs_val r mod p1305) (poly_blocks (drop 16 m)) (limbs_val h') mod p1305"
      using 1(1) S(1) by blast+
    have loop: "poly_loop r m h = poly_loop r (drop 16 m) h'"
      using False by (subst poly_loop.simps) (simp add: h'_def)
    have "fold (\<lambda>b h. (h + b) * limbs_val r mod p1305) (poly_blocks (drop 16 m)) (limbs_val h') mod p1305 =
        fold (\<lambda>b h. (h + b) * limbs_val r mod p1305) (poly_blocks m) (limbs_val h) mod p1305"
      using fold_mod_cong [of "limbs_val h'" "(limbs_val h + bytes_val (take 16 m @ [1])) * limbs_val r mod p1305"] S(2) False
      by (subst (2) poly_blocks.simps) simp
    then show ?thesis unfolding loop using IH by simp
  qed
qed

subsection \<open>The final reduction\<close>

lemma carry_linear:
  fixes h0 h1 h2 h3 h4 :: nat
  assumes "h0 + 5 * c4 = m0 + X26 * c0" "h1 = m1 + X26 * c1" "h2 + c1 = m2 + X26 * c2" "h3 + c2 = m3 + X26 * c3" "h4 + c3 = m4 + X26 * c4"
  shows "m0 + X26 * (m1 + c0 + X26 * (m2 + X26 * (m3 + X26 * m4))) + 2 ^ 130 * c4 =
    h0 + X26 * (h1 + X26 * (h2 + X26 * (h3 + X26 * h4))) + 5 * c4"
  using assms by simp

lemma poly_carry_val:
  assumes "limbs_bound X26 (X26 + 64) h"
  shows "limbs_bound X26 X26 (poly_carry h)" "limbs_val (poly_carry h) mod p1305 = limbs_val h mod p1305"
proof -
  obtain h0 h1 h2 h3 h4 where h: "h = (h0, h1, h2, h3, h4)" by (cases h)
  have b: "unat h0 < X26" "unat h1 < X26 + 64" "unat h2 < X26" "unat h3 < X26" "unat h4 < X26"
    using assms unfolding h limbs_bound_def by simp_all
  define c1 where "c1 = drop_bit 26 h1"
  define c2 where "c2 = drop_bit 26 (h2 + c1)"
  define c3 where "c3 = drop_bit 26 (h3 + c2)"
  define c4 where "c4 = drop_bit 26 (h4 + c3)"
  define c0 where "c0 = drop_bit 26 (h0 + c4 * 5)"
  have R: "poly_carry h = ((h0 + c4 * 5) AND 0x3ffffff, (h1 AND 0x3ffffff) + c0, (h2 + c1) AND 0x3ffffff,
      (h3 + c2) AND 0x3ffffff, (h4 + c3) AND 0x3ffffff)"
    unfolding poly_carry_def h prod.case Let_def c0_def c4_def c3_def c2_def c1_def ..
  have 1: "unat h1 = unat (h1 AND 0x3ffffff) + X26 * unat c1" "unat c1 \<le> 1"
    using unat_drop_bit_div [of 26 h1] b(2) by (simp_all add: unat_mask26 c1_def)
  have step: "unat n + unat c = unat ((n + c) AND 0x3ffffff) + X26 * unat (drop_bit 26 (n + c))" "unat (drop_bit 26 (n + c)) \<le> unat c"
    if "unat n < X26" "unat c \<le> 1" for n c :: u32
  proof -
    have "unat n + unat c < W32" using that by simp
    note C = carry32 [OF this]
    show "unat n + unat c = unat ((n + c) AND 0x3ffffff) + X26 * unat (drop_bit 26 (n + c))" unfolding C by simp
    show "unat (drop_bit 26 (n + c)) \<le> unat c" unfolding C using that by (cases "unat c = 0") auto
  qed
  note 2 = step [OF b(3) 1(2), folded c2_def]
  have c2: "unat c2 \<le> 1" using 2(2) 1(2) by simp
  note 3 = step [OF b(4) c2, folded c3_def]
  have c3: "unat c3 \<le> 1" using 3(2) c2 by simp
  note 4 = step [OF b(5) c3, folded c4_def]
  have c4: "unat c4 \<le> 1" using 4(2) c3 by simp
  have m5: "unat (c4 * 5) = 5 * unat c4" using c4 by (subst unat_mult_less) simp_all
  have "unat h0 + unat (c4 * 5) < W32" using b(1) c4 m5 by simp
  note C0 = carry32 [OF this, folded c0_def]
  have 0: "unat h0 + 5 * unat c4 = unat ((h0 + c4 * 5) AND 0x3ffffff) + X26 * unat c0" unfolding C0 m5 by simp
  have mb: "unat (x AND 0x3ffffff) < X26" for x :: u32 by (simp add: unat_mask26)
  have q0: "unat c0 \<le> unat c4" unfolding C0(1) m5 using b(1) c4 by (cases "unat c4 = 0") auto
  have h1b: "unat (h1 AND 0x3ffffff) + unat c0 < X26"
  proof (cases "unat c1 = 0")
    case True
    then have "unat c0 = 0" using q0 4(2) 3(2) 2(2) by linarith
    then show ?thesis using mb [of h1] by simp
  next
    case False
    then have "unat (h1 AND 0x3ffffff) < 64" using 1 b(2) by linarith
    then show ?thesis using q0 c4 by linarith
  qed
  have s1: "unat ((h1 AND 0x3ffffff) + c0) = unat (h1 AND 0x3ffffff) + unat c0"
    using h1b by (subst unat_add_less) simp_all
  show "limbs_bound X26 X26 (poly_carry h)"
    unfolding R limbs_bound_def prod.case s1 using h1b mb by simp
  have "limbs_val (poly_carry h) + 2 ^ 130 * unat c4 = limbs_val h + 5 * unat c4"
    unfolding R limbs_val.simps s1 unfolding h limbs_val.simps by (rule carry_linear [OF 0 1(1) 2(1) 3(1) 4(1)])
  then show "limbs_val (poly_carry h) mod p1305 = limbs_val h mod p1305" by (rule p1305_fold)
qed

lemma freeze_step:
  fixes n c :: u32
  assumes "unat n < X26" "unat c \<le> 1"
  shows "unat n + unat c = unat ((n + c) AND 0x3ffffff) + X26 * unat (drop_bit 26 (n + c))"
    "unat (drop_bit 26 (n + c)) \<le> 1" "unat ((n + c) AND 0x3ffffff) < X26"
proof -
  have "unat n + unat c < W32" using assms by simp
  note C = carry32 [OF this]
  show "unat n + unat c = unat ((n + c) AND 0x3ffffff) + X26 * unat (drop_bit 26 (n + c))" unfolding C by simp
  show "unat (drop_bit 26 (n + c)) \<le> 1" unfolding C using assms div_le_mono [of "unat n + unat c" X26 X26] by simp
  show "unat ((n + c) AND 0x3ffffff) < X26" unfolding C by simp
qed

lemma freeze_select:
  fixes t :: u32
  assumes "unat t \<le> X26"
  shows "drop_bit 31 (t - push_bit 26 1) - 1 = (if unat t = X26 then - 1 else 0)"
    "unat t = X26 \<Longrightarrow> t - push_bit 26 1 = 0"
proof -
  have t: "t = X \<longleftrightarrow> unat t = X26" if "X = push_bit 26 1" for X
    using that by (auto simp: word_eqI_nat push_bit_eq_mult)
  show z: "unat t = X26 \<Longrightarrow> t - push_bit 26 1 = 0" using t [OF refl] by simp
  show "drop_bit 31 (t - push_bit 26 1) - 1 = (if unat t = X26 then - 1 else 0)"
  proof (cases "unat t = X26")
    case False
    then have "unat t < X26" using assms by simp
    moreover have "unat (t - push_bit 26 1) = unat t + W32 - X26"
      using \<open>unat t < X26\<close> by (simp add: unat_sub_if' push_bit_eq_mult)
    ultimately have "unat (drop_bit 31 (t - push_bit 26 1)) = 1"
      using unat_drop_bit_div [of 31 "t - push_bit 26 1"] assms by (simp add: div_nat_eqI)
    then have "drop_bit 31 (t - push_bit 26 1) = 1" by (intro word_eqI_nat) simp
    then show ?thesis using False by simp
  next
    case True
    show ?thesis unfolding z [OF True] using True by simp
  qed
qed

lemma freeze_linear:
  fixes h0 h1 h2 h3 h4 :: nat
  assumes "h0 + 5 = m0 + X26 * c0" "h1 + c0 = m1 + X26 * c1" "h2 + c1 = m2 + X26 * c2" "h3 + c2 = m3 + X26 * c3"
  shows "h0 + X26 * (h1 + X26 * (h2 + X26 * (h3 + X26 * h4))) + 5 = m0 + X26 * (m1 + X26 * (m2 + X26 * (m3 + X26 * (h4 + c3))))"
  using assms by simp

lemma limbs_val_less: "limbs_bound X26 X26 h \<Longrightarrow> limbs_val h < 2 ^ 130"
  by (cases h) (simp add: limbs_bound_def)

lemma poly_freeze_val:
  assumes "limbs_bound X26 X26 h"
  shows "limbs_bound X26 X26 (poly_freeze h)" "limbs_val (poly_freeze h) = limbs_val h mod p1305"
proof -
  obtain h0 h1 h2 h3 h4 where h: "h = (h0, h1, h2, h3, h4)" by (cases h)
  have b: "unat h0 < X26" "unat h1 < X26" "unat h2 < X26" "unat h3 < X26" "unat h4 < X26"
    using assms unfolding h limbs_bound_def by simp_all
  define c0 where "c0 = drop_bit 26 (h0 + 5)"
  define c1 where "c1 = drop_bit 26 (h1 + c0)"
  define c2 where "c2 = drop_bit 26 (h2 + c1)"
  define c3 where "c3 = drop_bit 26 (h3 + c2)"
  define t where "t = h4 + c3"
  define mask where "mask = drop_bit 31 (t - push_bit 26 1) - 1"
  define sel where "sel = (\<lambda>x r :: u32. (x AND NOT mask) OR (r AND mask))"
  have R: "poly_freeze h = (sel h0 ((h0 + 5) AND 0x3ffffff), sel h1 ((h1 + c0) AND 0x3ffffff), sel h2 ((h2 + c1) AND 0x3ffffff),
      sel h3 ((h3 + c2) AND 0x3ffffff), sel h4 (t - push_bit 26 1))"
    unfolding poly_freeze_def h prod.case Let_def c3_def c2_def c1_def c0_def t_def mask_def sel_def ..
  have "unat h0 + unat (5 :: u32) < W32" using b(1) by simp
  note C0 = carry32 [OF this, folded c0_def]
  have 0: "unat h0 + 5 = unat ((h0 + 5) AND 0x3ffffff) + X26 * unat c0" "unat ((h0 + 5) AND 0x3ffffff) < X26" "unat c0 \<le> 1"
    unfolding C0 using b(1) div_le_mono [of "unat h0 + 5" "X26 + X26 - 1" X26] by simp_all
  note 1 = freeze_step [OF b(2) 0(3), folded c1_def]
  note 2 = freeze_step [OF b(3) 1(2), folded c2_def]
  note 3 = freeze_step [OF b(4) 2(2), folded c3_def]
  have t: "unat t = unat h4 + unat c3" unfolding t_def using b(5) 3(2) by (subst unat_add_less) simp_all
  have tb: "unat t \<le> X26" unfolding t using b(5) 3(2) by simp
  note L = freeze_linear [OF 0(1) 1(1) 2(1) 3(1), of "unat h4", folded t]
  have V: "limbs_val h < 2 ^ 130" by (rule limbs_val_less [OF assms])
  have "limbs_bound X26 X26 (poly_freeze h) \<and> limbs_val (poly_freeze h) = limbs_val h mod p1305"
  proof (cases "unat t = X26")
    case True
    have "sel x r = r" for x r using freeze_select(1) [OF tb] True by (simp add: sel_def mask_def)
    then have F: "poly_freeze h = ((h0 + 5) AND 0x3ffffff, (h1 + c0) AND 0x3ffffff, (h2 + c1) AND 0x3ffffff, (h3 + c2) AND 0x3ffffff, 0)"
      unfolding R using freeze_select(2) [OF tb True] by simp
    have "limbs_val h + 5 = limbs_val (poly_freeze h) + 2 ^ 130"
      unfolding F limbs_val.simps using L [unfolded True] unfolding h limbs_val.simps by simp
    then have "limbs_val h = limbs_val (poly_freeze h) + p1305" "limbs_val (poly_freeze h) < p1305"
      using V by (simp_all add: p1305_def)
    moreover have "limbs_bound X26 X26 (poly_freeze h)" unfolding F limbs_bound_def using 0(2) 1(3) 2(3) 3(3) by simp
    ultimately show ?thesis by simp
  next
    case False
    have "sel x r = x" for x r using freeze_select(1) [OF tb] False by (simp add: sel_def mask_def)
    then have F: "poly_freeze h = h" unfolding R by (simp only: h)
    have "unat t < X26" using False tb by simp
    then have "limbs_val h + 5 < 2 ^ 130"
      using L 0(2) 1(3) 2(3) 3(3) unfolding h limbs_val.simps by simp
    then show ?thesis unfolding F using assms by (simp add: p1305_def)
  qed
  then show "limbs_bound X26 X26 (poly_freeze h)" "limbs_val (poly_freeze h) = limbs_val h mod p1305" by simp_all
qed

subsection \<open>The tag\<close>

lemma unat_or_shifted:
  fixes x y :: u32
  assumes "unat x < 2 ^ k" "k < 32"
  shows "unat ((x OR push_bit k y) AND 0xffffffff) = unat x + 2 ^ k * (unat y mod 2 ^ (32 - k))"
proof -
  have m: "(0xffffffff :: u32) = - 1" by simp
  have "unat ((x OR push_bit k y) AND 0xffffffff) = unat x OR unat (push_bit k y)"
    unfolding m by (simp only: bit.conj_one_right unsigned_or_eq)
  also have "unat (push_bit k y) = push_bit k (unat y mod 2 ^ (32 - k))"
    by (simp only: unsigned_push_bit_eq take_bit_push_bit take_bit_eq_mod [of "32 - k", symmetric]) simp
  also have "unat x OR \<dots> = unat x + 2 ^ k * (unat y mod 2 ^ (32 - k))" by (rule nat_or_push_bit [OF assms(1)])
  finally show ?thesis .
qed

lemma words_linear:
  fixes h0 h1 h2 h3 h4 :: nat
  assumes "h1 = a1 + 64 * b1" "h2 = a2 + 4096 * b2" "h3 = a3 + 262144 * b3" "h4 = a4 + 16777216 * b4"
  shows "h0 + X26 * a1 + W32 * (b1 + 1048576 * a2 + W32 * (b2 + 16384 * a3 + W32 * (b3 + 256 * a4))) + 2 ^ 128 * b4 =
    h0 + X26 * (h1 + X26 * (h2 + X26 * (h3 + X26 * h4)))"
  using assms by simp

lemma poly_words_val:
  assumes "limbs_bound X26 X26 h"
  shows "fe_val (poly_words h) = limbs_val h mod 2 ^ 128" "length (poly_words h) = 4"
proof -
  obtain h0 h1 h2 h3 h4 where h: "h = (h0, h1, h2, h3, h4)" by (cases h)
  show l: "length (poly_words h) = 4" by (simp add: poly_words_def h)
  have b: "unat h0 < X26" "unat h1 < X26" "unat h2 < X26" "unat h3 < X26" "unat h4 < X26"
    using assms unfolding h limbs_bound_def by simp_all
  have d: "unat (drop_bit 6 h1) = unat h1 div 64" "unat (drop_bit 12 h2) = unat h2 div 4096" "unat (drop_bit 18 h3) = unat h3 div 262144"
    using unat_drop_bit_div [of 6 h1] unat_drop_bit_div [of 12 h2] unat_drop_bit_div [of 18 h3] by simp_all
  have w: "unat ((h0 OR push_bit 26 h1) AND 0xffffffff) = unat h0 + X26 * (unat h1 mod 64)"
      "unat ((drop_bit 6 h1 OR push_bit 20 h2) AND 0xffffffff) = unat h1 div 64 + 1048576 * (unat h2 mod 4096)"
      "unat ((drop_bit 12 h2 OR push_bit 14 h3) AND 0xffffffff) = unat h2 div 4096 + 16384 * (unat h3 mod 262144)"
      "unat ((drop_bit 18 h3 OR push_bit 8 h4) AND 0xffffffff) = unat h3 div 262144 + 256 * (unat h4 mod 16777216)"
    using unat_or_shifted [of h0 26 h1] unat_or_shifted [of "drop_bit 6 h1" 20 h2] unat_or_shifted [of "drop_bit 12 h2" 14 h3]
      unat_or_shifted [of "drop_bit 18 h3" 8 h4] b d by (simp_all add: div_less_iff_less_mult)
  have "fe_val (poly_words h) + 2 ^ 128 * (unat h4 div 16777216) = limbs_val h"
    unfolding poly_words_def h prod.case fe_val_def list.map le_val.simps w limbs_val.simps mult_0_right add_0_right
    by (rule words_linear) simp_all
  moreover have "fe_val (poly_words h) < 2 ^ 128" using fe_val_less [of "poly_words h"] l by simp
  ultimately show "fe_val (poly_words h) = limbs_val h mod 2 ^ 128" by (metis mod_less mod_mult_self2)
qed

lemma poly_pad_val:
  assumes "length ws = length ss" "unat f < 4 * W32"
  shows "bytes_val (poly_pad (zip ws ss) f) = (fe_val ws + fe_val ss + unat f div W32) mod W32 ^ length ws"
    "length (poly_pad (zip ws ss) f) = 4 * length ws"
proof -
  have "bytes_val (poly_pad (zip ws ss) f) = (fe_val ws + fe_val ss + unat f div W32) mod W32 ^ length ws \<and>
      length (poly_pad (zip ws ss) f) = 4 * length ws"
    using assms
  proof (induction ws ss arbitrary: f rule: list_induct2)
    case (Cons w ws s ss)
    define g where "g = ucast w + ucast s + drop_bit 32 f"
    have f: "unat f div W32 < 4" using Cons.prems by (simp add: div_less_iff_less_mult)
    have ws: "unat w + unat s < W32 + W32" by (intro add_strict_mono) simp_all
    have "unat (ucast w + ucast s :: u64) = unat w + unat s" using ws by (subst unat_add_less) simp_all
    then have g: "unat g = unat w + unat s + unat f div W32"
      using ws f unat_high32 [of f] unfolding g_def by (subst unat_add_less) simp_all
    have gb: "unat g < 4 * W32" unfolding g using ws f by simp
    define A where "A = fe_val ws + fe_val ss + unat g div W32"
    have IH: "bytes_val (poly_pad (zip ws ss) g) = A mod W32 ^ length ws" "length (poly_pad (zip ws ss) g) = 4 * length ws"
      using Cons.IH [OF gb] by (simp_all add: A_def)
    have P: "poly_pad (zip (w # ws) (s # ss)) f = uint32_pack (ucast g) @ poly_pad (zip ws ss) g"
      by (simp add: g_def Let_def)
    have l: "length (uint32_pack (ucast g :: u32)) = 4" using length_packs_concat [of "[ucast g]"] by simp
    have "fe_val (w # ws) + fe_val (s # ss) + unat f div W32 = unat g mod W32 + W32 * A"
      unfolding A_def using g by (simp add: fe_val_def algebra_simps)
    then have "(fe_val (w # ws) + fe_val (s # ss) + unat f div W32) mod W32 ^ length (w # ws) = unat g mod W32 + W32 * (A mod W32 ^ length ws)"
      by (simp add: mod_mult2_eq)
    moreover have "bytes_val (poly_pad (zip (w # ws) (s # ss)) f) = unat g mod W32 + W32 * (A mod W32 ^ length ws)"
      unfolding P bytes_val_append bytes_val_pack32 IH l unat_u64_u32 by simp
    ultimately show ?case using IH(2) l unfolding P by simp
  qed (simp add: fe_val_def bytes_val_def)
  then show "bytes_val (poly_pad (zip ws ss) f) = (fe_val ws + fe_val ss + unat f div W32) mod W32 ^ length ws"
    "length (poly_pad (zip ws ss) f) = 4 * length ws" by simp_all
qed

lemma poly1305_fold_less:
  "fold (\<lambda>b h. (h + b) * R mod p1305) bs 0 mod p1305 = fold (\<lambda>b h. (h + b) * R mod p1305) bs 0"
  by (cases bs rule: rev_cases) simp_all

lemma poly1305_val:
  assumes "32 \<le> length k"
  shows "bytes_val (crypto_onetimeauth_poly1305 m k) = poly1305_spec m k" "length (crypto_onetimeauth_poly1305 m k) = 16"
proof -
  define R where "R = poly_clamp (bytes_val (take 16 k))"
  obtain r0 r1 r2 r3 r4 where r: "poly_r k = (r0, r1, r2, r3, r4)" "unat r0 = limb 0 R" "unat r1 = limb 1 R"
      "unat r2 = limb 2 R" "unat r3 = limb 3 R" "unat r4 = limb 4 R" "R < 2 ^ 128"
    using poly_r_val [of k] assms unfolding R_def by auto
  have rb: "limbs_bound X26 X26 (poly_r k)" unfolding r(1) limbs_bound_def using r(2-6) limb_less by simp
  have rv: "limbs_val (poly_r k) = R" unfolding r(1) limbs_val.simps r(2-6) by (rule limbs_sum) (use r(7) in simp)
  define h where "h = poly_loop (poly_r k) m (0, 0, 0, 0, 0)"
  have z: "limbs_bound X26 (X26 + 64) (0, 0, 0, 0, 0)" "limbs_val (0, 0, 0, 0, 0) = 0" by (simp_all add: limbs_bound_def)
  have H: "limbs_bound X26 (X26 + 64) h"
      "limbs_val h mod p1305 = fold (\<lambda>b h. (h + b) * R mod p1305) (poly_blocks m) 0 mod p1305"
    using poly_loop_val [OF rb z(1), of m] unfolding rv z(2) h_def by simp_all
  note c = poly_carry_val [OF H(1)]
  note f = poly_freeze_val [OF c(1)]
  define g where "g = poly_freeze (poly_carry h)"
  have g: "limbs_val g = fold (\<lambda>b h. (h + b) * R mod p1305) (poly_blocks m) 0"
    unfolding g_def f(2) c(2) H(2) by (rule poly1305_fold_less)
  note w = poly_words_val [OF f(1), folded g_def]
  define ss where "ss = map (\<lambda>i. uint32_unpack (drop (16 + 4 * i) k)) [0..<4]"
  have "ss = map (\<lambda>i. uint32_unpack (drop (4 * i) (take 16 (drop 16 k)))) [0..<4]"
    unfolding ss_def using unpack_take16 [of _ "drop 16 k"] by (auto simp: add.commute)
  then have ssv: "fe_val ss = bytes_val (take 16 (drop 16 k))" "length ss = 4"
    using fe_val_unpacks [of "take 16 (drop 16 k)" 4] assms by simp_all
  have T: "crypto_onetimeauth_poly1305 m k = poly_pad (zip (poly_words g) ss) 0"
    unfolding crypto_onetimeauth_poly1305_def Let_def g_def h_def ss_def ..
  have l: "length (poly_words g) = length ss" using w(2) ssv(2) by simp
  have "bytes_val (crypto_onetimeauth_poly1305 m k) = (limbs_val g mod 2 ^ 128 + fe_val ss) mod 2 ^ 128"
    unfolding T using poly_pad_val(1) [OF l, of 0] w by simp
  then show "bytes_val (crypto_onetimeauth_poly1305 m k) = poly1305_spec m k"
    unfolding mod_add_left_eq unfolding g ssv poly1305_spec_def Let_def R_def by simp
  show "length (crypto_onetimeauth_poly1305 m k) = 16" unfolding T using poly_pad_val(2) [OF l, of 0] w(2) by simp
qed

end
