(* ===== verification/NaclPoly.thy ===== *)
theory NaclPoly
  imports Poly1305
begin

section \<open>Poly1305 in 17 bytes\<close>

text \<open>
  The NaCl reference code (\<open>nacl/crypto_onetimeauth/poly1305/ref/auth.c\<close>): accumulator, block and
  multiplier are arrays of 17 unsigned ints that hold base 256 digits.  It computes the same
  polynomial as the 26-bit code of dq.
\<close>

type_synonym limbs17 = "u32 list"

text \<open>The loop \<open>u += x[j]; h[j] = u & 255; u >>= 8\<close>.\<close>

primrec byte_carry :: "u32 list \<Rightarrow> u32 \<Rightarrow> u32 list \<times> u32" where
  "byte_carry [] u = ([], u)"
| "byte_carry (x # xs) u =
     (let u = u + x; (ys, v) = byte_carry xs (drop_bit 8 u) in ((u AND 255) # ys, v))"

definition nacl_add :: "limbs17 \<Rightarrow> limbs17 \<Rightarrow> limbs17" where
  "nacl_add h c = fst (byte_carry (map (\<lambda>j. h ! j + c ! j) [0..<17]) 0)"

definition nacl_squeeze :: "limbs17 \<Rightarrow> limbs17" where
  "nacl_squeeze h =
     (let (lo, u) = byte_carry (map (\<lambda>j. h ! j) [0..<16]) 0;
          u = u + h ! 16; h16 = u AND 3;
          u = 5 * drop_bit 2 u;
          (lo, u) = byte_carry lo u;
          u = u + h16
      in lo @ [u])"

definition minusp :: limbs17 where
  "minusp = [5, 0, 0, 0, 0, 0, 0, 0, 0, 0, 0, 0, 0, 0, 0, 0, 252]"

definition nacl_freeze :: "limbs17 \<Rightarrow> limbs17" where
  "nacl_freeze h =
     (let horig = h; h = nacl_add h minusp; negative = - drop_bit 7 (h ! 16)
      in map (\<lambda>j. h ! j XOR (negative AND (horig ! j XOR h ! j))) [0..<17])"

definition nacl_mulmod :: "limbs17 \<Rightarrow> limbs17 \<Rightarrow> limbs17" where
  "nacl_mulmod h r =
     nacl_squeeze (map (\<lambda>i.
       fold (\<lambda>j u. u + 320 * h ! j * r ! (i + 17 - j)) [i + 1..<17]
         (fold (\<lambda>j u. u + h ! j * r ! (i - j)) [0..<i + 1] 0)) [0..<17])"

definition nacl_r :: "bytes \<Rightarrow> limbs17" where
  "nacl_r k = map ucast
     [k ! 0, k ! 1, k ! 2, k ! 3 AND 15, k ! 4 AND 252, k ! 5, k ! 6, k ! 7 AND 15,
      k ! 8 AND 252, k ! 9, k ! 10, k ! 11 AND 15, k ! 12 AND 252, k ! 13, k ! 14, k ! 15 AND 15, 0]"

definition nacl_block :: "bytes \<Rightarrow> limbs17" where
  "nacl_block inp =
     (let n = min 16 (length inp);
          c = fold (\<lambda>j c. c[j := map ucast inp ! j]) [0..<n] (replicate 17 0)
      in c[n := 1])"

function nacl_poly_loop :: "limbs17 \<Rightarrow> bytes \<Rightarrow> limbs17 \<Rightarrow> limbs17" where
  "nacl_poly_loop r inp h =
     (if length inp > 0 then nacl_poly_loop r (drop (min 16 (length inp)) inp) (nacl_mulmod (nacl_add h (nacl_block inp)) r)
      else h)"
  by pat_completeness auto
termination
  by (relation "measure (\<lambda>(r, inp, h). length inp)") auto

declare nacl_poly_loop.simps [simp del]

definition nacl_onetimeauth :: "bytes \<Rightarrow> bytes \<Rightarrow> bytes" where
  "nacl_onetimeauth inp k =
     (let h = nacl_freeze (nacl_poly_loop (nacl_r k) inp (replicate 17 0));
          h = nacl_add h (map (\<lambda>j. ucast (k ! (j + 16))) [0..<16] @ [0])
      in map (\<lambda>j. ucast (h ! j)) [0..<16])"

definition nacl_onetimeauth_verify :: "bytes \<Rightarrow> bytes \<Rightarrow> bytes \<Rightarrow> int" where
  "nacl_onetimeauth_verify h inp k = verify h (nacl_onetimeauth inp k) 16"

section \<open>Digits\<close>

definition dig_val :: "u32 list \<Rightarrow> nat" where
  "dig_val h = le_val 256 (map unat h)"

abbreviation digits :: "u32 list \<Rightarrow> bool" where
  "digits h \<equiv> (\<forall>x \<in> set h. unat x < 256)"

lemma dig_val_Nil: "dig_val [] = 0"
  by (simp add: dig_val_def)

lemma dig_val_Cons: "dig_val (x # xs) = unat x + 256 * dig_val xs"
  by (simp add: dig_val_def)

lemma dig_val_append: "dig_val (xs @ ys) = dig_val xs + 256 ^ length xs * dig_val ys"
  by (simp add: dig_val_def le_val_append)

lemma dig_val_less: "digits h \<Longrightarrow> dig_val h < 256 ^ length h"
  unfolding dig_val_def using le_val_less [of "map unat h" 256] by simp

lemma byte_carry_val:
  assumes "\<forall>x \<in> set xs. unat x < 2 ^ 30" "unat u < 2 ^ 30"
  obtains ys v where "byte_carry xs u = (ys, v)" "length ys = length xs" "digits ys"
    "dig_val ys + 256 ^ length xs * unat v = dig_val xs + unat u" "if xs = [] then v = u else unat v < 2 ^ 23"
  using assms
proof (induction xs arbitrary: u thesis)
  case Nil
  then show ?case by (simp add: dig_val_def)
next
  case (Cons x xs)
  have s: "unat (u + x) = unat u + unat x" using Cons.prems by (subst unat_add_less) simp_all
  have d: "unat (drop_bit 8 (u + x)) = (unat u + unat x) div 256" using unat_drop_bit_div [of 8 "u + x"] s by simp
  have m: "unat ((u + x) AND 255) = (unat u + unat x) mod 256"
    using unat_and_mask_mod [of "u + x" 8] s by (simp add: mask_eq_exp_minus_1)
  have db: "unat (drop_bit 8 (u + x)) < 2 ^ 23" unfolding d using Cons.prems by (simp add: div_less_iff_less_mult)
  have xb: "\<forall>x \<in> set xs. unat x < 2 ^ 30" using Cons.prems(2) by simp
  have db': "unat (drop_bit 8 (u + x)) < 2 ^ 30" using db by simp
  obtain ys v where IH: "byte_carry xs (drop_bit 8 (u + x)) = (ys, v)" "length ys = length xs" "digits ys"
      "dig_val ys + 256 ^ length xs * unat v = dig_val xs + unat (drop_bit 8 (u + x))"
      "if xs = [] then v = drop_bit 8 (u + x) else unat v < 2 ^ 23"
    by (rule Cons.IH [OF _ xb db']) (rule that)
  have vb: "unat v < 2 ^ 23" using IH(5) db by (auto split: if_splits)
  have "dig_val (((u + x) AND 255) # ys) + 256 ^ length (x # xs) * unat v = (unat u + unat x) mod 256 + 256 * (dig_val xs + (unat u + unat x) div 256)"
    unfolding dig_val_Cons m IH(4) [unfolded d, symmetric] by (simp add: algebra_simps)
  also have "\<dots> = dig_val (x # xs) + unat u" unfolding dig_val_Cons by simp
  finally show ?case
    using Cons.prems(1) [of "((u + x) AND 255) # ys" v] IH m vb by (simp add: Let_def)
qed

lemma dig_val_nth: "dig_val h = (\<Sum>j<n. unat (h ! j) * 256 ^ j)" if "length h = n"
proof -
  have "map unat h = map (\<lambda>j. unat (h ! j)) [0..<n]" by (rule nth_equalityI) (simp_all add: that del: upt_rec_numeral)
  then show ?thesis unfolding dig_val_def by (simp only: le_val_sum)
qed

lemma digits_nth: "digits h \<Longrightarrow> j < length h \<Longrightarrow> unat (h ! j) < 256"
  by simp

lemma nacl_add_val:
  assumes "length h = 17" "length c = 17" "digits h" "digits c"
  shows "length (nacl_add h c) = 17" "digits (nacl_add h c)" "dig_val (nacl_add h c) = (dig_val h + dig_val c) mod 2 ^ 136"
proof -
  define xs where "xs = map (\<lambda>j. h ! j + c ! j) [0..<17]"
  have s: "unat (h ! j + c ! j) = unat (h ! j) + unat (c ! j)" if "j < 17" for j
    using digits_nth [OF assms(3), of j] digits_nth [OF assms(4), of j] assms(1,2) that by (subst unat_add_less) simp_all
  have b: "\<forall>x \<in> set xs. unat x < 2 ^ 30"
    using digits_nth [OF assms(3)] digits_nth [OF assms(4)] assms(1,2) unfolding xs_def
    by (auto simp: s add_strict_mono intro!: less_le_trans [OF add_strict_mono [of _ 256 _ 256]])
  obtain ys v where y: "byte_carry xs 0 = (ys, v)" "length ys = length xs" "digits ys"
      "dig_val ys + 256 ^ length xs * unat v = dig_val xs + unat (0 :: u32)"
    by (rule byte_carry_val [OF b, of 0], simp, rule that)
  have l: "length xs = 17" by (simp add: xs_def)
  have "map unat xs = map (\<lambda>j. unat (h ! j) + unat (c ! j)) [0..<17]" unfolding xs_def by (simp add: s)
  then have "dig_val xs = le_val 256 (map (\<lambda>j. unat (h ! j)) [0..<17]) + le_val 256 (map (\<lambda>j. unat (c ! j)) [0..<17])"
    unfolding dig_val_def by (simp only: le_val_map_add)
  then have xs: "dig_val xs = dig_val h + dig_val c" by (simp only: le_val_sum dig_val_nth assms)
  have A: "nacl_add h c = ys" unfolding nacl_add_def xs_def [symmetric] y(1) by simp
  show "length (nacl_add h c) = 17" "digits (nacl_add h c)" unfolding A using y(2,3) l by simp_all
  have "dig_val ys < 2 ^ 136" using dig_val_less [OF y(3)] y(2) l by simp
  moreover have "dig_val ys + 2 ^ 136 * unat v = dig_val h + dig_val c" using y(4) xs l by simp
  ultimately show "dig_val (nacl_add h c) = (dig_val h + dig_val c) mod 2 ^ 136" unfolding A by (metis mod_less mod_mult_self2)
qed

lemma nacl_squeeze_val:
  assumes "length h = 17" "\<forall>x \<in> set h. unat x < 2 ^ 29"
  shows "length (nacl_squeeze h) = 17" "digits (nacl_squeeze h)" "dig_val (nacl_squeeze h) mod p1305 = dig_val h mod p1305"
    "dig_val (nacl_squeeze h) < 2 ^ 130 + 2 ^ 30"
proof -
  define a where "a = map (\<lambda>j. h ! j) [0..<16]"
  have a: "a = take 16 h" unfolding a_def by (rule nth_equalityI) (simp_all add: assms del: upt_rec_numeral)
  have h: "h = a @ [h ! 16]" "length a = 16" unfolding a using assms(1) take_Suc_conv_app_nth [of 16 h] by simp_all
  have ab: "\<forall>x \<in> set a. unat x < 2 ^ 30" "unat (h ! 16) < 2 ^ 29"
    using assms unfolding a by (fastforce dest!: in_set_takeD, simp)
  obtain lo u where 1: "byte_carry a 0 = (lo, u)" "length lo = length a" "digits lo"
      "dig_val lo + 256 ^ length a * unat u = dig_val a + unat (0 :: u32)" "if a = [] then u = 0 else unat u < 2 ^ 23"
    by (rule byte_carry_val [OF ab(1), of 0], simp, rule that)
  have ub: "unat u < 2 ^ 23" using 1(5) by (simp split: if_splits)
  define w where "w = u + h ! 16"
  have w: "unat w = unat u + unat (h ! 16)" unfolding w_def using ub ab(2) by (subst unat_add_less) simp_all
  have wb: "unat w < 2 ^ 29 + 2 ^ 23" unfolding w using ub ab(2) by simp
  have d2: "unat (drop_bit 2 w) = unat w div 4" using unat_drop_bit_div [of 2 w] by simp
  have m2: "unat (w AND 3) = unat w mod 4" using unat_and_mask_mod [of w 2] by (simp add: mask_eq_exp_minus_1)
  have "unat w div 4 < 2 ^ 28" using wb by (simp add: div_less_iff_less_mult)
  then have f: "unat (5 * drop_bit 2 w) = 5 * (unat w div 4)" using d2 by (subst unat_mult_less) simp_all
  have "unat w div 4 \<le> 136314880" using wb by (simp add: less_mult_imp_div_less div_le_mono [of _ 545259520 4, simplified])
  then have fb: "unat (5 * drop_bit 2 w) < 2 ^ 30" unfolding f by simp
  have lb: "\<forall>x \<in> set lo. unat x < 2 ^ 30" using 1(3) by fastforce
  obtain lo' u' where 2: "byte_carry lo (5 * drop_bit 2 w) = (lo', u')" "length lo' = length lo" "digits lo'"
      "dig_val lo' + 256 ^ length lo * unat u' = dig_val lo + unat (5 * drop_bit 2 w)" "if lo = [] then u' = 5 * drop_bit 2 w else unat u' < 2 ^ 23"
    by (rule byte_carry_val [OF lb fb], rule that)
  have l: "length lo = 16" using 1(2) h(2) by simp
  then have ub': "unat u' < 2 ^ 23" using 2(5) by (auto split: if_splits)
  have S: "nacl_squeeze h = lo' @ [u' + (w AND 3)]"
    unfolding nacl_squeeze_def Let_def a_def [symmetric] 1(1) prod.case w_def [symmetric] 2(1) ..
  have t: "unat (u' + (w AND 3)) = unat u' + unat w mod 4" unfolding m2 [symmetric] using ub' m2 by (subst unat_add_less) simp_all
  have V: "dig_val (nacl_squeeze h) = dig_val lo + 5 * (unat w div 4) + 2 ^ 128 * (unat w mod 4)"
    unfolding S dig_val_append using 2(2,4) l t f by (simp add: dig_val_def algebra_simps)
  have "dig_val lo < 2 ^ 128" using dig_val_less [OF 1(3)] l by simp
  moreover have "2 ^ 128 * (unat w mod 4) \<le> 2 ^ 128 * 3" by (intro mult_le_mono2) simp
  ultimately show "dig_val (nacl_squeeze h) < 2 ^ 130 + 2 ^ 30" unfolding V using fb f by simp
  then have "2 ^ 128 * unat (u' + (w AND 3)) < 2 ^ 130 + 2 ^ 30"
    unfolding S dig_val_append using 2(2) l by (simp add: dig_val_def)
  then have "unat (u' + (w AND 3)) < 256" by simp
  then show "digits (nacl_squeeze h)" "length (nacl_squeeze h) = 17" unfolding S using 2(2,3) l by simp_all
  have "dig_val h = dig_val lo + 2 ^ 128 * unat w"
    using 1(4) h(2) w by (subst h(1)) (simp add: dig_val_append dig_val_Cons dig_val_Nil algebra_simps)
  moreover have "2 ^ 128 * m + 2 ^ 130 * q = 2 ^ 128 * (4 * q + m)" for q m :: nat by simp
  then have "2 ^ 128 * (unat w mod 4) + 2 ^ 130 * (unat w div 4) = 2 ^ 128 * unat w" by (simp only: mult_div_mod_eq)
  ultimately have "dig_val (nacl_squeeze h) + 2 ^ 130 * (unat w div 4) = dig_val h + 5 * (unat w div 4)"
    unfolding V by linarith
  then show "dig_val (nacl_squeeze h) mod p1305 = dig_val h mod p1305" by (rule p1305_fold)
qed

section \<open>Multiplication\<close>

text \<open>A sum of unsigned ints that stays below the wrap-around.\<close>

lemma fold_sum_u32:
  fixes f :: "nat \<Rightarrow> u32"
  assumes "unat a + (\<Sum>j \<leftarrow> js. unat (f j)) < W32"
  shows "unat (fold (\<lambda>j u. u + f j) js a) = unat a + (\<Sum>j \<leftarrow> js. unat (f j))"
  using assms
proof (induction js arbitrary: a)
  case (Cons j js)
  have "unat (a + f j) = unat a + unat (f j)" using Cons.prems by (subst unat_add_less) simp_all
  then show ?case using Cons.IH [of "a + f j"] Cons.prems by (simp add: add.assoc)
qed simp

lemma digit_product:
  fixes x y c :: u32
  assumes "unat x \<le> B" "unat y \<le> B" "B * B < W32" "unat c * (B * B) < W32"
  shows "unat x * unat y \<le> B * B" "unat (x * y) = unat x * unat y" "unat (c * x * y) = unat c * (unat x * unat y)"
proof -
  show b: "unat x * unat y \<le> B * B" by (rule mult_le_mono [OF assms(1,2)])
  show p: "unat (x * y) = unat x * unat y" using b assms(3) by (subst unat_mult_less) simp_all
  have "unat c * unat (x * y) \<le> unat c * (B * B)" unfolding p using b by (rule mult_le_mono2)
  then have "unat c * unat (x * y) < 2 ^ LENGTH(32)" using le_less_trans [OF _ assms(4)] by simp
  then have "unat (c * (x * y)) = unat c * unat (x * y)" by (rule unat_mult_less)
  then show "unat (c * x * y) = unat c * (unat x * unat y)" by (simp add: p mult.assoc)
qed

lemma convolution:
  fixes g :: "nat \<Rightarrow> nat \<Rightarrow> nat"
  shows "(\<Sum>j<n. \<Sum>k<n. g j k) = (\<Sum>i<n. (\<Sum>j<Suc i. g j (i - j)) + (\<Sum>j = Suc i..<n. g j (i + n - j)))"
proof -
  have row: "(\<Sum>k<n. g j k) = (\<Sum>i<n. if j \<le> i then g j (i - j) else g j (i + n - j))" if "j < n" for j
    by (rule sum.reindex_bij_witness [of _ "\<lambda>i. if j \<le> i then i - j else i + n - j" "\<lambda>k. if j + k < n then j + k else j + k - n"])
       (use that in \<open>auto split: if_splits\<close>)
  have "(\<Sum>j<n. \<Sum>k<n. g j k) = (\<Sum>j<n. \<Sum>i<n. if j \<le> i then g j (i - j) else g j (i + n - j))"
    by (intro sum.cong refl row) simp
  also have "\<dots> = (\<Sum>i<n. \<Sum>j<n. if j \<le> i then g j (i - j) else g j (i + n - j))" by (rule sum.swap)
  also have "\<dots> = (\<Sum>i<n. (\<Sum>j<Suc i. g j (i - j)) + (\<Sum>j = Suc i..<n. g j (i + n - j)))"
  proof (intro sum.cong refl)
    fix i assume "i \<in> {..<n}"
    then have "{..<n} = {..<Suc i} \<union> {Suc i..<n}" by auto
    then have "(\<Sum>j<n. if j \<le> i then g j (i - j) else g j (i + n - j)) =
        (\<Sum>j<Suc i. if j \<le> i then g j (i - j) else g j (i + n - j)) +
        (\<Sum>j = Suc i..<n. if j \<le> i then g j (i - j) else g j (i + n - j))"
      by (simp add: sum.union_disjoint disjoint_iff)
    then show "(\<Sum>j<n. if j \<le> i then g j (i - j) else g j (i + n - j)) =
        (\<Sum>j<Suc i. g j (i - j)) + (\<Sum>j = Suc i..<n. g j (i + n - j))" by simp
  qed
  finally show ?thesis .
qed

lemma sum_list_bound: "(\<And>j. j \<in> set js \<Longrightarrow> f j \<le> b) \<Longrightarrow> (\<Sum>j \<leftarrow> js. f j) \<le> length js * (b :: nat)"
  by (induction js) (simp_all add: add_mono)

text \<open>Digit \<open>i\<close> of a product of \<open>n\<close>-digit numbers, with the wrapped part multiplied by \<open>c\<close>.\<close>

lemma convolution_digit:
  fixes c :: u32
  assumes d: "\<And>j. j < n \<Longrightarrow> unat (h ! j) \<le> B \<and> unat (r ! j) \<le> B" and i: "i < n"
    and b: "n * (B * B) + n * (unat c * (B * B)) < 2 ^ 29"
  defines "u \<equiv> fold (\<lambda>j u. u + c * h ! j * r ! (i + n - j)) [i + 1..<n] (fold (\<lambda>j u. u + h ! j * r ! (i - j)) [0..<i + 1] 0)"
  shows "unat u = (\<Sum>j<Suc i. unat (h ! j) * unat (r ! (i - j))) + unat c * (\<Sum>j = Suc i..<n. unat (h ! j) * unat (r ! (i + n - j)))"
    "unat u < 2 ^ 29"
proof -
  let ?f = "\<lambda>j. h ! j * r ! (i - j)" and ?g = "\<lambda>j. c * h ! j * r ! (i + n - j)"
  define u1 where "u1 = fold (\<lambda>j u. u + ?f j) [0..<i + 1] 0"
  have n: "1 * (B * B) \<le> n * (B * B)" "1 * (unat c * (B * B)) \<le> n * (unat c * (B * B))" using i by (intro mult_le_mono1; linarith)+
  have "(2 :: nat) ^ 29 < W32" by simp
  with n b have s: "B * B < W32" "unat c * (B * B) < W32" by linarith+
  have f: "unat (?f j) = unat (h ! j) * unat (r ! (i - j))" "unat (?f j) \<le> B * B" if "j \<in> set [0..<i + 1]" for j
    using digit_product [of "h ! j" B "r ! (i - j)", OF _ _ s] d [of j] d [of "i - j"] that i by auto
  have g: "unat (?g j) = unat c * (unat (h ! j) * unat (r ! (i + n - j)))" "unat (?g j) \<le> unat c * (B * B)" if "j \<in> set [i + 1..<n]" for j
    using digit_product [of "h ! j" B "r ! (i + n - j)", OF _ _ s] d [of j] d [of "i + n - j"] that by auto
  have fb: "(\<Sum>j \<leftarrow> [0..<i + 1]. unat (?f j)) \<le> n * (B * B)"
    by (rule order.trans [OF sum_list_bound [of "[0..<i + 1]", OF f(2)]], assumption, rule mult_le_mono1) (use i in simp)
  have gb: "(\<Sum>j \<leftarrow> [i + 1..<n]. unat (?g j)) \<le> n * (unat c * (B * B))"
    by (rule order.trans [OF sum_list_bound [of "[i + 1..<n]", OF g(2)]]) simp_all
  have u1: "unat u1 = (\<Sum>j \<leftarrow> [0..<i + 1]. unat (?f j))"
    unfolding u1_def using fold_sum_u32 [of 0 ?f "[0..<i + 1]"] fb b by simp
  have u: "unat u = unat u1 + (\<Sum>j \<leftarrow> [i + 1..<n]. unat (?g j))"
    unfolding u_def u1_def [symmetric] by (rule fold_sum_u32) (use u1 fb gb b in simp)
  show "unat u < 2 ^ 29" unfolding u u1 using fb gb b by simp
  have "(\<Sum>j \<leftarrow> [0..<i + 1]. unat (?f j)) = (\<Sum>j<Suc i. unat (h ! j) * unat (r ! (i - j)))"
    by (subst sum_list_distinct_conv_sum_set) (auto intro!: sum.cong simp: f(1) atLeast0LessThan simp del: upt_Suc)
  moreover have "(\<Sum>j \<leftarrow> [i + 1..<n]. unat (?g j)) = unat c * (\<Sum>j = Suc i..<n. unat (h ! j) * unat (r ! (i + n - j)))"
    by (subst sum_list_distinct_conv_sum_set) (auto intro!: sum.cong simp: g(1) sum_distrib_left)
  ultimately show "unat u = (\<Sum>j<Suc i. unat (h ! j) * unat (r ! (i - j))) + unat c * (\<Sum>j = Suc i..<n. unat (h ! j) * unat (r ! (i + n - j)))"
    unfolding u u1 by simp
qed

text \<open>The digits of a product: with \<open>256 ^ n\<close> in place of \<open>c\<close> they would give the product itself.\<close>

lemma convolution_value:
  fixes h r :: "u32 list" and n :: nat
  defines "A i \<equiv> (\<Sum>j<Suc i. unat (h ! j) * unat (r ! (i - j)))" and "B i \<equiv> (\<Sum>j = Suc i..<n. unat (h ! j) * unat (r ! (i + n - j)))"
  shows "(\<Sum>j<n. unat (h ! j) * 256 ^ j) * (\<Sum>j<n. unat (r ! j) * 256 ^ j) =
    (\<Sum>i<n. A i * 256 ^ i) + 256 ^ n * (\<Sum>i<n. B i * 256 ^ i)"
proof -
  have "(\<Sum>j<n. unat (h ! j) * 256 ^ j) * (\<Sum>j<n. unat (r ! j) * 256 ^ j) =
      (\<Sum>j<n. \<Sum>k<n. unat (h ! j) * unat (r ! k) * 256 ^ (j + k))"
    unfolding sum_product by (intro sum.cong refl) (simp add: power_add)
  also have "\<dots> = (\<Sum>i<n. A i * 256 ^ i + 256 ^ n * (B i * 256 ^ i))"
    unfolding convolution
  proof (intro sum.cong arg_cong2 [of _ _ _ _ "(+)"] refl)
    fix i :: nat assume i: "i \<in> {..<n}"
    show "(\<Sum>j<Suc i. unat (h ! j) * unat (r ! (i - j)) * 256 ^ (j + (i - j))) = A i * 256 ^ i"
      unfolding A_def sum_distrib_right by (intro sum.cong) auto
    have "(256 :: nat) ^ (j + (i + n - j)) = 256 ^ n * 256 ^ i" if "j < n" for j
      using that by (simp add: power_add)
    then show "(\<Sum>j = Suc i..<n. unat (h ! j) * unat (r ! (i + n - j)) * 256 ^ (j + (i + n - j))) = 256 ^ n * (B i * 256 ^ i)"
      unfolding B_def sum_distrib_right sum_distrib_left by (intro sum.cong) auto
  qed
  also have "\<dots> = (\<Sum>i<n. A i * 256 ^ i) + 256 ^ n * (\<Sum>i<n. B i * 256 ^ i)"
    by (simp only: sum.distrib sum_distrib_left)
  finally show ?thesis .
qed

lemma nacl_mulmod_val:
  assumes "length h = 17" "length r = 17" "digits h" "digits r"
  shows "length (nacl_mulmod h r) = 17" "digits (nacl_mulmod h r)" "dig_val (nacl_mulmod h r) mod p1305 = dig_val h * dig_val r mod p1305"
    "dig_val (nacl_mulmod h r) < 2 ^ 130 + 2 ^ 30"
proof -
  define hr where "hr i = fold (\<lambda>j u. u + 320 * h ! j * r ! (i + 17 - j)) [i + 1..<17] (fold (\<lambda>j u. u + h ! j * r ! (i - j)) [0..<i + 1] 0)" for i
  define xs where "xs = map hr [0..<17]"
  define A where "A i = (\<Sum>j<Suc i. unat (h ! j) * unat (r ! (i - j)))" for i
  define B where "B i = (\<Sum>j = Suc i..<17. unat (h ! j) * unat (r ! (i + 17 - j)))" for i
  have d: "unat (h ! j) \<le> 255 \<and> unat (r ! j) \<le> 255" if "j < 17" for j
    using digits_nth [OF assms(3), of j] digits_nth [OF assms(4), of j] assms(1,2) that by simp
  have v: "unat (hr i) = A i + 320 * B i" "unat (hr i) < 2 ^ 29" if "i < 17" for i
    using convolution_digit [of 17 h 255 r i 320, OF d that] by (simp_all add: hr_def A_def B_def)
  have M: "nacl_mulmod h r = nacl_squeeze xs" unfolding nacl_mulmod_def xs_def hr_def ..
  have l: "length xs = 17" by (simp add: xs_def)
  have b: "\<forall>x \<in> set xs. unat x < 2 ^ 29" unfolding xs_def using v(2) by auto
  note S = nacl_squeeze_val [OF l b]
  show "length (nacl_mulmod h r) = 17" "digits (nacl_mulmod h r)" "dig_val (nacl_mulmod h r) < 2 ^ 130 + 2 ^ 30"
    unfolding M using S by simp_all
  have "dig_val xs = (\<Sum>i<17. (A i + 320 * B i) * 256 ^ i)"
    unfolding dig_val_nth [OF l] by (intro sum.cong refl) (simp add: xs_def v(1) del: upt_rec_numeral)
  then have xs: "dig_val xs = (\<Sum>i<17. A i * 256 ^ i) + 320 * (\<Sum>i<17. B i * 256 ^ i)"
    by (simp only: add_mult_distrib sum.distrib sum_distrib_left mult.assoc)
  have "dig_val h * dig_val r = (\<Sum>i<17. A i * 256 ^ i) + 256 ^ 17 * (\<Sum>i<17. B i * 256 ^ i)"
    unfolding dig_val_nth [OF assms(1)] dig_val_nth [OF assms(2)] A_def B_def by (rule convolution_value)
  then have "dig_val xs + 2 ^ 130 * (64 * (\<Sum>i<17. B i * 256 ^ i)) = dig_val h * dig_val r + 5 * (64 * (\<Sum>i<17. B i * 256 ^ i))"
    unfolding xs by simp
  then show "dig_val (nacl_mulmod h r) mod p1305 = dig_val h * dig_val r mod p1305"
    unfolding M S(3) by (rule p1305_fold)
qed

section \<open>Freezing, clamping and blocks\<close>

lemma dig_val_top:
  assumes "length h = 17" "digits h"
  shows "unat (h ! 16) = dig_val h div 2 ^ 128"
proof -
  have h: "h = take 16 h @ [h ! 16]" using assms(1) take_Suc_conv_app_nth [of 16 h] by simp
  have "digits (take 16 h)" using assms(2) by (auto dest: in_set_takeD)
  then have "dig_val (take 16 h) < 2 ^ 128" using dig_val_less [of "take 16 h"] assms(1) by simp
  moreover have "dig_val h = dig_val (take 16 h) + 2 ^ 128 * unat (h ! 16)"
    using assms(1) by (subst h) (simp add: dig_val_append dig_val_Cons dig_val_Nil)
  ultimately show ?thesis by simp
qed

lemma minusp_facts: "length minusp = 17" "digits minusp" "dig_val minusp = 5 + 252 * 2 ^ 128"
  by (simp_all add: minusp_def dig_val_def)

lemma nacl_freeze_val:
  assumes "length h = 17" "digits h" "dig_val h < 2 ^ 130 + 2 ^ 30"
  shows "length (nacl_freeze h) = 17" "digits (nacl_freeze h)" "dig_val (nacl_freeze h) = dig_val h mod p1305"
proof -
  define g where "g = nacl_add h minusp"
  have g: "length g = 17" "digits g" "dig_val g = (dig_val h + (5 + 252 * 2 ^ 128)) mod 2 ^ 136"
    using nacl_add_val [OF assms(1) minusp_facts(1) assms(2) minusp_facts(2)] minusp_facts(3) by (simp_all add: g_def)
  define neg where "neg = - drop_bit 7 (g ! 16)"
  have F: "nacl_freeze h = map (\<lambda>j. g ! j XOR (neg AND (h ! j XOR g ! j))) [0..<17]"
    unfolding nacl_freeze_def Let_def g_def neg_def ..
  have n: "unat (drop_bit 7 (g ! 16)) = dig_val g div 2 ^ 128 div 128"
    using unat_drop_bit_div [of 7 "g ! 16"] dig_val_top [OF g(1,2)] by simp
  show "length (nacl_freeze h) = 17" unfolding F by simp
  have "nacl_freeze h = (if dig_val h < p1305 then h else g) \<and> (dig_val h < p1305 \<or> dig_val g = dig_val h - p1305)"
  proof (cases "dig_val h < p1305")
    case True
    then have v: "dig_val g = dig_val h + 5 + 252 * 2 ^ 128" unfolding g(3) by (simp add: p1305_def)
    have "dig_val g div 2 ^ 128 = (dig_val h + 5) div 2 ^ 128 + 252" unfolding v by simp
    moreover have "(dig_val h + 5) div 2 ^ 128 < 4" using True by (simp add: p1305_def div_less_iff_less_mult)
    ultimately have "unat (drop_bit 7 (g ! 16)) = 1" unfolding n by (simp add: div_nat_eqI)
    then have "neg = - 1" unfolding neg_def by (metis unat_1 word_eqI_nat)
    then have "nacl_freeze h = map (\<lambda>j. h ! j) [0..<17]" unfolding F by (simp add: xor.commute xor.left_commute)
    then show ?thesis using True map_nth_upt [OF assms(1)] by simp
  next
    case False
    then have "dig_val h + (5 + 252 * 2 ^ 128) = (dig_val h - p1305) + 2 ^ 136" by (simp add: p1305_def)
    moreover have s: "dig_val h - p1305 < 2 ^ 31" using assms(3) by (simp add: p1305_def)
    ultimately have v: "dig_val g = dig_val h - p1305" unfolding g(3) using less_trans [OF s, of "2 ^ 136"] by (simp only: mod_add_self2) simp
    have "unat (drop_bit 7 (g ! 16)) = 0" unfolding n v using s by simp
    then have "neg = 0" unfolding neg_def by (metis unat_0 word_eqI_nat minus_zero)
    then have "nacl_freeze h = map (\<lambda>j. g ! j) [0..<17]" unfolding F by simp
    then show ?thesis using False v map_nth_upt [OF g(1)] by simp
  qed
  moreover have "dig_val h - p1305 = dig_val h mod p1305" if "\<not> dig_val h < p1305"
    using that assms(3) by (subst le_mod_geq) (simp_all add: p1305_def)
  ultimately show "digits (nacl_freeze h)" "dig_val (nacl_freeze h) = dig_val h mod p1305"
    using assms(2) g(2) by (auto split: if_splits)
qed

lemma unat_byte_u32 [simp]: "unat (ucast (b :: byte) :: u32) = unat b"
proof -
  have "unat (ucast b :: u32) = unat b mod 2 ^ 32" by (simp add: unsigned_ucast_eq take_bit_eq_mod)
  also have "\<dots> = unat b" by (intro mod_less less_trans [OF unat_byte_less]) simp
  finally show ?thesis .
qed

lemma dig_val_ucast: "dig_val (map ucast bs) = bytes_val bs"
  unfolding dig_val_def bytes_val_def by (simp add: comp_def)

lemma digits_ucast: "digits (map (\<lambda>b :: byte. ucast b) bs)"
  by auto

lemma nat_digit_and:
  fixes x y a b :: nat
  assumes "x < 256" "y < 256"
  shows "(x + 256 * a) AND (y + 256 * b) = (x AND y) + 256 * (a AND b)"
proof -
  have x: "x + 256 * a = x OR push_bit 8 a" and y: "y + 256 * b = y OR push_bit 8 b"
    using nat_or_push_bit [of x 8 a] nat_or_push_bit [of y 8 b] assms by simp_all
  have "x AND y < 256" using nat_and_le [of x y] assms by simp
  then have z: "(x AND y) + 256 * (a AND b) = (x AND y) OR push_bit 8 (a AND b)" 
    by (subst nat_or_push_bit) simp_all
  have nb: "\<not> bit u n" if "u < 256" "8 \<le> n" for u n :: nat
    using that take_bit_nat_eq_self [of u 8] bit_take_bit_iff [of 8 u n] by simp
  show ?thesis unfolding x y z by (rule bit_eqI) (use nb assms in \<open>auto simp: bit_simps not_le\<close>)
qed

lemma bytes_val_and:
  "length a = length b \<Longrightarrow> bytes_val (map2 (AND) a b) = bytes_val a AND bytes_val b"
proof (induction a b rule: list_induct2)
  case (Cons x xs y ys)
  have "bytes_val (map2 (AND) (x # xs) (y # ys)) = (unat x AND unat y) + 256 * (bytes_val xs AND bytes_val ys)"
    using Cons by (simp add: bytes_val_def unsigned_and_eq)
  also have "\<dots> = (unat x + 256 * bytes_val xs) AND (unat y + 256 * bytes_val ys)"
    by (rule nat_digit_and [symmetric]) simp_all
  finally show ?case by (simp add: bytes_val_def)
qed (simp add: bytes_val_def)

lemma byte_and_255: "(x :: byte) AND 255 = x"
proof -
  have m: "(255 :: byte) = - 1" by simp
  show ?thesis unfolding m by (rule bit.conj_one_right)
qed

lemma nacl_r_val:
  assumes "16 \<le> length k"
  shows "length (nacl_r k) = 17" "digits (nacl_r k)" "dig_val (nacl_r k) = poly_clamp (bytes_val (take 16 k))"
proof -
  define cl :: bytes where "cl = [255, 255, 255, 15, 252, 255, 255, 15, 252, 255, 255, 15, 252, 255, 255, 15]"
  have "take 16 k = map (\<lambda>i. k ! i) [0..<16]" by (rule nth_equalityI) (simp_all add: assms del: upt_rec_numeral)
  then have "map2 (AND) (take 16 k) cl = [k ! 0, k ! 1, k ! 2, k ! 3 AND 15, k ! 4 AND 252, k ! 5, k ! 6, k ! 7 AND 15,
      k ! 8 AND 252, k ! 9, k ! 10, k ! 11 AND 15, k ! 12 AND 252, k ! 13, k ! 14, k ! 15 AND 15]"
    by (simp add: cl_def byte_and_255 upt_conv_Cons eval_nat_numeral)
  then have r: "nacl_r k = map ucast (map2 (AND) (take 16 k) cl @ [0])" unfolding nacl_r_def by simp
  show "length (nacl_r k) = 17" "digits (nacl_r k)" unfolding r using assms by (simp_all add: cl_def)
  have "bytes_val cl = clampC" by (simp add: cl_def bytes_val_def)
  moreover have "bytes_val (map2 (AND) (take 16 k) cl @ [0]) = bytes_val (take 16 k) AND bytes_val cl"
    using bytes_val_zeros [of _ 1] bytes_val_and [of "take 16 k" cl] assms by (simp add: cl_def)
  ultimately show "dig_val (nacl_r k) = poly_clamp (bytes_val (take 16 k))"
    unfolding r dig_val_ucast poly_clamp_def by simp
qed

lemma nacl_block_val:
  shows "length (nacl_block inp) = 17" "digits (nacl_block inp)" "dig_val (nacl_block inp) = bytes_val (take 16 inp @ [1])"
proof -
  define n where "n = min 16 (length inp)"
  have n: "n \<le> 16" "n \<le> length inp" by (simp_all add: n_def)
  have s: "17 - n = Suc (16 - n)" using n by simp
  have "nacl_block inp = (take n (map ucast inp) @ replicate (17 - n) 0)[n := 1]"
    unfolding nacl_block_def Let_def n_def [symmetric] using fold_copy [of n "map ucast inp :: u32 list" 17 0] n by simp
  also have "\<dots> = map ucast ((take n inp @ [1]) @ replicate (16 - n) 0)"
    unfolding s using n by (simp add: list_update_append take_map)
  finally have b: "nacl_block inp = map ucast ((take n inp @ [1]) @ replicate (16 - n) 0)" .
  show "length (nacl_block inp) = 17" unfolding b using n by simp
  show "digits (nacl_block inp)" unfolding b by (rule digits_ucast)
  have "take n inp = take 16 inp" by (simp add: n_def min_def)
  then show "dig_val (nacl_block inp) = bytes_val (take 16 inp @ [1])" unfolding b dig_val_ucast bytes_val_zeros by simp
qed

lemma block_less: "bytes_val (take 16 m @ [1]) < 2 ^ 129"
proof -
  have p: "(256 :: nat) ^ length (take 16 m) \<le> 2 ^ 128" using power_increasing [of "length (take 16 m)" 16 "256 :: nat"] by simp
  have "bytes_val (take 16 m) < 2 ^ 128" by (rule less_le_trans [OF bytes_val_bound p])
  moreover have "bytes_val (take 16 m @ [1]) = bytes_val (take 16 m) + 256 ^ length (take 16 m)"
    unfolding bytes_val_append by (simp add: bytes_val_def)
  ultimately show ?thesis using p by simp
qed

lemma nacl_poly_loop_val:
  assumes r: "length r = 17" "digits r" and h: "length h = 17" "digits h" "dig_val h < 2 ^ 130 + 2 ^ 30"
  shows "length (nacl_poly_loop r m h) = 17 \<and> digits (nacl_poly_loop r m h) \<and> dig_val (nacl_poly_loop r m h) < 2 ^ 130 + 2 ^ 30 \<and>
    dig_val (nacl_poly_loop r m h) mod p1305 = fold (\<lambda>b h. (h + b) * dig_val r mod p1305) (poly_blocks m) (dig_val h) mod p1305"
  using h
proof (induction m arbitrary: h rule: length_induct)
  case (1 m)
  show ?case
  proof (cases "m = []")
    case True
    then show ?thesis using 1(2-) by (simp add: nacl_poly_loop.simps poly_blocks.simps)
  next
    case False
    define g where "g = nacl_add h (nacl_block m)"
    have "dig_val h + bytes_val (take 16 m @ [1]) < 2 ^ 136" using 1(4) block_less [of m] by simp
    then have g: "length g = 17" "digits g" "dig_val g = dig_val h + bytes_val (take 16 m @ [1])"
      using nacl_add_val [OF 1(2) nacl_block_val(1) 1(3) nacl_block_val(2)] by (simp_all add: g_def nacl_block_val(3))
    note M = nacl_mulmod_val [OF g(1) r(1) g(2) r(2)]
    have "length (drop 16 m) < length m" using False by simp
    note IH = 1(1) [rule_format, OF this M(1) M(2) [rule_format] M(4)]
    have "drop (min 16 (length m)) m = drop 16 m" by (simp add: min_def)
    then have loop: "nacl_poly_loop r m h = nacl_poly_loop r (drop 16 m) (nacl_mulmod g r)"
      using False by (subst nacl_poly_loop.simps) (simp add: g_def)
    have "fold (\<lambda>b h. (h + b) * dig_val r mod p1305) (poly_blocks (drop 16 m)) (dig_val (nacl_mulmod g r)) mod p1305 =
        fold (\<lambda>b h. (h + b) * dig_val r mod p1305) (poly_blocks m) (dig_val h) mod p1305"
      using fold_mod_cong [of "dig_val (nacl_mulmod g r)" "dig_val g * dig_val r mod p1305"] M(3) False g(3)
      by (subst (2) poly_blocks.simps) simp
    then show ?thesis unfolding loop using IH by simp
  qed
qed

section \<open>The tag\<close>

lemma nacl_poly1305_val:
  assumes "32 \<le> length k"
  shows "bytes_val (nacl_onetimeauth m k) = poly1305_spec m k" "length (nacl_onetimeauth m k) = 16"
proof -
  define R where "R = poly_clamp (bytes_val (take 16 k))"
  have k16: "16 \<le> length k" using assms by simp
  note r = nacl_r_val [OF k16, folded R_def]
  define h where "h = nacl_poly_loop (nacl_r k) m (replicate 17 0)"
  have z: "length (replicate 17 (0 :: u32)) = 17" "digits (replicate 17 (0 :: u32))" "dig_val (replicate 17 0) = 0" by (simp_all add: dig_val_def)
  have H: "length h = 17" "digits h" "dig_val h < 2 ^ 130 + 2 ^ 30"
      "dig_val h mod p1305 = fold (\<lambda>b h. (h + b) * R mod p1305) (poly_blocks m) 0 mod p1305"
    using nacl_poly_loop_val [OF r(1,2) z(1,2), of m] unfolding z(3) r(3) h_def [symmetric] by simp_all
  note F = nacl_freeze_val [OF H(1-3)]
  define s where "s = map (\<lambda>j. ucast (k ! (j + 16))) [0..<16] @ [0 :: u32]"
  have "map (\<lambda>j. k ! (j + 16)) [0..<16] = take 16 (drop 16 k)"
    using assms by (intro nth_equalityI) (simp_all add: add.commute del: upt_rec_numeral)
  then have "map (\<lambda>j. ucast (k ! (j + 16)) :: u32) [0..<16] = map ucast (take 16 (drop 16 k))"
    by (metis (no_types, lifting) map_map comp_def map_cong)
  then have s: "s = map ucast (take 16 (drop 16 k) @ [0])" by (simp add: s_def)
  have S: "length s = 17" "digits s" "dig_val s = bytes_val (take 16 (drop 16 k))"
    unfolding s dig_val_ucast using assms bytes_val_zeros [of "take 16 (drop 16 k)" 1] by simp_all
  define g where "g = nacl_add (nacl_freeze h) s"
  note G = nacl_add_val [OF F(1) S(1) F(2) S(2), folded g_def]
  have T: "nacl_onetimeauth m k = map (\<lambda>j. ucast (g ! j)) [0..<16]"
    unfolding nacl_onetimeauth_def Let_def g_def h_def s_def ..
  show "length (nacl_onetimeauth m k) = 16" unfolding T by simp
  have d: "unat (ucast (x :: u32) :: byte) = unat x" if "unat x < 256" for x
    using that by (simp add: unsigned_ucast_eq take_bit_nat_eq_self)
  have "map unat (nacl_onetimeauth m k) = map unat (take 16 g)"
    unfolding T using G(1,2) by (intro nth_equalityI) (simp_all add: d del: upt_rec_numeral)
  then have "bytes_val (nacl_onetimeauth m k) = dig_val (take 16 g)" unfolding bytes_val_def dig_val_def by simp
  also have "\<dots> = dig_val g mod 2 ^ 128"
  proof -
    have g: "g = take 16 g @ [g ! 16]" using G(1) take_Suc_conv_app_nth [of 16 g] by simp
    have "digits (take 16 g)" using G(2) by (auto dest: in_set_takeD)
    then have "dig_val (take 16 g) < 2 ^ 128" using dig_val_less [of "take 16 g"] G(1) by simp
    moreover have "dig_val g = dig_val (take 16 g) + 2 ^ 128 * unat (g ! 16)"
      using G(1) by (subst g) (simp add: dig_val_append dig_val_Cons dig_val_Nil)
    ultimately show ?thesis by simp
  qed
  also have "\<dots> = (dig_val (nacl_freeze h) + dig_val s) mod 2 ^ 128" unfolding G(3) by (rule mod_mod_cancel) (simp add: dvd_def)
  also have "\<dots> = poly1305_spec m k"
    unfolding F(3) H(4) S(3) poly1305_fold_less poly1305_spec_def Let_def R_def ..
  finally show "bytes_val (nacl_onetimeauth m k) = poly1305_spec m k" .
qed

end
