(* ===== verification/Curve25519.thy ===== *)
theory Curve25519
  imports Fe25519
begin

section \<open>Scalar multiplication on Curve25519\<close>

text \<open>
  The model of \<open>crypto/crypto_scalarmult_curve25519.c\<close>: the Montgomery ladder on the limb
  arithmetic of Fe25519.  The specification is the pseudo-code of RFC 7748, section 5, on the
  integers modulo \<open>2 ^ 255 - 19\<close>.  The locale \<open>field_rep\<close> is what the ladder needs of the
  field arithmetic.
\<close>

subsection \<open>The code\<close>

type_synonym ladder_state = "fe \<times> fe \<times> fe \<times> fe \<times> u32"

definition scalar_bit :: "bytes \<Rightarrow> nat \<Rightarrow> u32" where
  "scalar_bit e pos = ucast (drop_bit (pos mod 8) (e ! (pos div 8))) AND 1"

definition ladder_step :: "fe \<Rightarrow> u32 \<Rightarrow> ladder_state \<Rightarrow> ladder_state" where
  "ladder_step x1 b s =
     (case s of (x2, z2, x3, z3, swap) \<Rightarrow>
      let swap = swap XOR b;
          (x2, x3) = fe_cswap x2 x3 swap;
          (z2, z3) = fe_cswap z2 z3 swap;
          tmp0 = fe25519_sub x3 z3;
          tmp1 = fe25519_sub x2 z2;
          x2 = fe25519_add x2 z2;
          z2 = fe25519_add x3 z3;
          z3 = fe25519_mul tmp0 x2;
          z2 = fe25519_mul z2 tmp1;
          tmp0 = fe25519_sq tmp1;
          tmp1 = fe25519_sq x2;
          x3 = fe25519_add z3 z2;
          z2 = fe25519_sub z3 z2;
          x2 = fe25519_mul tmp1 tmp0;
          tmp1 = fe25519_sub tmp1 tmp0;
          z2 = fe25519_sq z2;
          z3 = fe25519_mul121666 tmp1;
          x3 = fe25519_sq x3;
          tmp0 = fe25519_add tmp0 z3;
          z3 = fe25519_mul x1 z2;
          z2 = fe25519_mul tmp1 tmp0
      in (x2, z2, x3, z3, b))"

definition clamp_bytes :: "bytes \<Rightarrow> bytes" where
  "clamp_bytes n =
     (let e = map (\<lambda>i. n ! i) [0..<32]; e = e[0 := e ! 0 AND 248]; e = e[31 := e ! 31 AND 127]
      in e[31 := e ! 31 OR 64])"

definition crypto_scalarmult_curve25519 :: "bytes \<Rightarrow> bytes \<Rightarrow> bytes" where
  "crypto_scalarmult_curve25519 n p =
     (let e = clamp_bytes n;
          x1 = fe25519_frombytes p;
          (x2, z2, x3, z3, swap) =
            fold (\<lambda>pos. ladder_step x1 (scalar_bit e pos)) (rev [0..<255]) (fe_1, fe_0, fe_copy x1, fe_1, 0);
          (x2, x3) = fe_cswap x2 x3 swap;
          (z2, z3) = fe_cswap z2 z3 swap;
          z2 = fe25519_inv z2;
          x2 = fe25519_mul x2 z2
      in fe25519_tobytes x2)"

definition basepoint :: bytes where
  "basepoint = 9 # replicate 31 0"

definition crypto_scalarmult_curve25519_base :: "bytes \<Rightarrow> bytes" where
  "crypto_scalarmult_curve25519_base n = crypto_scalarmult_curve25519 n basepoint"

subsection \<open>RFC 7748\<close>

definition decode_scalar :: "nat \<Rightarrow> nat" where
  "decode_scalar n = push_bit 3 (drop_bit 3 (take_bit 254 n)) + 2 ^ 254"

definition rfc_step :: "int \<Rightarrow> int \<Rightarrow> bool \<Rightarrow> int \<times> int \<times> int \<times> int \<times> bool \<Rightarrow> int \<times> int \<times> int \<times> int \<times> bool" where
  "rfc_step p x1 k_t s =
     (case s of (x2, z2, x3, z3, swap) \<Rightarrow>
      let sw = (swap \<noteq> k_t);
          (x2, x3) = (if sw then (x3, x2) else (x2, x3));
          (z2, z3) = (if sw then (z3, z2) else (z2, z3));
          A = x2 + z2; AA = A ^ 2; B = x2 - z2; BB = B ^ 2; E = AA - BB;
          C = x3 + z3; D = x3 - z3; DA = D * A; CB = C * B
      in ((AA * BB) mod p, (E * (AA + 121665 * E)) mod p, ((DA + CB) ^ 2) mod p, (x1 * (DA - CB) ^ 2) mod p, k_t))"

definition rfc7748_x25519 :: "nat \<Rightarrow> nat \<Rightarrow> int" where
  "rfc7748_x25519 k u =
     (let p = 2 ^ 255 - 19;
          k = decode_scalar k;
          x1 = int (u mod 2 ^ 255);
          (x2, z2, x3, z3, swap) = fold (\<lambda>t. rfc_step p x1 (bit k t)) (rev [0..<255]) (1, 0, x1, 1, False);
          (x2, x3) = (if swap then (x3, x2) else (x2, x3));
          (z2, z3) = (if swap then (z3, z2) else (z2, z3))
      in (x2 * z2 ^ nat (p - 2)) mod p)"

subsection \<open>The contract of the field arithmetic\<close>

text \<open>\<open>rep f a\<close>: the element \<open>f\<close> stands for the residue class of \<open>a\<close>.\<close>

locale field_rep =
  fixes rep :: "'e \<Rightarrow> int \<Rightarrow> bool" and add sub mul :: "'e \<Rightarrow> 'e \<Rightarrow> 'e" and sq m121666 :: "'e \<Rightarrow> 'e"
    and p :: int
  assumes rep_add: "rep f a \<Longrightarrow> rep g b \<Longrightarrow> rep (add f g) (a + b)"
    and rep_sub: "rep f a \<Longrightarrow> rep g b \<Longrightarrow> rep (sub f g) (a - b)"
    and rep_mul: "rep f a \<Longrightarrow> rep g b \<Longrightarrow> rep (mul f g) (a * b)"
    and rep_sq: "rep f a \<Longrightarrow> rep (sq f) (a * a)"
    and rep_m121666: "rep f a \<Longrightarrow> rep (m121666 f) (121666 * a)"
    and rep_mod: "rep f a \<Longrightarrow> rep f (a mod p)"
begin

lemma rep_eq: "rep f a \<Longrightarrow> a = b \<Longrightarrow> rep f b"
  by simp

lemma ladder_x2:
  assumes "rep x2 X2" "rep z2 Z2"
  shows "rep (mul (sq (add x2 z2)) (sq (sub x2 z2))) (((X2 + Z2) ^ 2 * (X2 - Z2) ^ 2) mod p)"
  using rep_mod [OF rep_mul [OF rep_sq [OF rep_add [OF assms]] rep_sq [OF rep_sub [OF assms]]]]
  by (simp add: power2_eq_square)

lemma ladder_z2:
  assumes "rep x2 X2" "rep z2 Z2" and E: "E = (X2 + Z2) ^ 2 - (X2 - Z2) ^ 2"
    and e: "e = sub (sq (add x2 z2)) (sq (sub x2 z2))"
  shows "rep (mul e (add (sq (sub x2 z2)) (m121666 e))) ((E * ((X2 + Z2) ^ 2 + 121665 * E)) mod p)"
proof -
  have B: "rep (sq (sub x2 z2)) ((X2 - Z2) * (X2 - Z2))" by (rule rep_sq [OF rep_sub [OF assms(1,2)]])
  have re: "rep e E"
    unfolding e by (rule rep_eq [OF rep_sub [OF rep_sq [OF rep_add [OF assms(1,2)]] B]]) (simp add: E power2_eq_square)
  have "E * ((X2 - Z2) * (X2 - Z2) + 121666 * E) = E * ((X2 + Z2) ^ 2 + 121665 * E)"
    unfolding E by (simp add: power2_eq_square algebra_simps)
  then show ?thesis using rep_mod [OF rep_mul [OF re rep_add [OF B rep_m121666 [OF re]]]] by (simp only:)
qed

lemma ladder_x3_z3:
  assumes "rep x1 X1" "rep x2 X2" "rep z2 Z2" "rep x3 X3" "rep z3 Z3"
    and da: "da = mul (sub x3 z3) (add x2 z2)" and cb: "cb = mul (add x3 z3) (sub x2 z2)"
  shows "rep (sq (add da cb)) ((((X3 - Z3) * (X2 + Z2) + (X3 + Z3) * (X2 - Z2)) ^ 2) mod p)"
    and "rep (mul x1 (sq (sub da cb))) ((X1 * ((X3 - Z3) * (X2 + Z2) - (X3 + Z3) * (X2 - Z2)) ^ 2) mod p)"
proof -
  have D: "rep da ((X3 - Z3) * (X2 + Z2))" unfolding da by (intro rep_mul rep_sub rep_add assms)
  have C: "rep cb ((X3 + Z3) * (X2 - Z2))" unfolding cb by (intro rep_mul rep_sub rep_add assms)
  show "rep (sq (add da cb)) ((((X3 - Z3) * (X2 + Z2) + (X3 + Z3) * (X2 - Z2)) ^ 2) mod p)"
    using rep_mod [OF rep_sq [OF rep_add [OF D C]]] by (simp add: power2_eq_square)
  show "rep (mul x1 (sq (sub da cb))) ((X1 * ((X3 - Z3) * (X2 + Z2) - (X3 + Z3) * (X2 - Z2)) ^ 2) mod p)"
    using rep_mod [OF rep_mul [OF assms(1) rep_sq [OF rep_sub [OF D C]]]] by (simp add: power2_eq_square)
qed

end

definition fe_rep :: "fe \<Rightarrow> int \<Rightarrow> bool" where
  "fe_rep f a \<longleftrightarrow> fe_ok f \<and> int (fe_val f) mod int p25519 = a mod int p25519"

lemma fe_rep_length: "fe_rep f a \<Longrightarrow> length f = 8"
  by (simp add: fe_rep_def fe_ok_length)

lemma int_mod_eq: "m mod p25519 = n mod p25519 \<Longrightarrow> int m mod int p25519 = int n mod int p25519"
  by (simp add: zmod_int [symmetric])

interpretation fr: field_rep fe_rep fe25519_add fe25519_sub fe25519_mul fe25519_sq fe25519_mul121666 "int p25519"
proof
  fix f g :: fe and a b :: int
  assume f: "fe_rep f a"
  then have lf: "length f = 8" and vf: "int (fe_val f) mod int p25519 = a mod int p25519"
    using fe_rep_length by (auto simp: fe_rep_def)
  show "fe_rep (fe25519_sq f) (a * a)"
    using fe25519_sq_val [OF lf] int_mod_eq [OF fe25519_sq_val(2) [OF lf]] mod_mult_cong [OF vf vf]
    by (simp add: fe_rep_def)
  show "fe_rep (fe25519_mul121666 f) (121666 * a)"
    using fe25519_mul121666_val [OF lf] int_mod_eq [OF fe25519_mul121666_val(2) [OF lf]] mod_mult_cong [OF refl vf, of 121666]
    by (simp add: fe_rep_def)
  show "fe_rep f (a mod int p25519)" using f by (simp add: fe_rep_def)
  assume g: "fe_rep g b"
  then have lg: "length g = 8" and vg: "int (fe_val g) mod int p25519 = b mod int p25519"
    using fe_rep_length by (auto simp: fe_rep_def)
  show "fe_rep (fe25519_add f g) (a + b)"
    using fe25519_add_val [OF lf lg] int_mod_eq [OF fe25519_add_val(2) [OF lf lg]] mod_add_cong [OF vf vg]
    by (simp add: fe_rep_def)
  show "fe_rep (fe25519_mul f g) (a * b)"
    using fe25519_mul_val [OF lf lg] int_mod_eq [OF fe25519_mul_val(2) [OF lf lg]] mod_mult_cong [OF vf vg]
    by (simp add: fe_rep_def)
  show "fe_rep (fe25519_sub f g) (a - b)"
  proof -
    have "int (fe_val (fe25519_sub f g)) mod int p25519 =
        (int (fe_val (fe25519_sub f g) + fe_val g) - int (fe_val g)) mod int p25519" by simp
    also have "\<dots> = (int (fe_val f) - int (fe_val g)) mod int p25519"
      by (rule mod_diff_cong [OF int_mod_eq [OF fe25519_sub_val(2) [OF lf lg]] refl])
    also have "\<dots> = (a - b) mod int p25519" by (rule mod_diff_cong [OF vf vg])
    finally show ?thesis using fe25519_sub_val(1) [OF lf lg] by (simp add: fe_rep_def)
  qed
qed

subsection \<open>The ladder\<close>

fun state_rep :: "ladder_state \<Rightarrow> int \<times> int \<times> int \<times> int \<times> bool \<Rightarrow> bool" where
  "state_rep (x2, z2, x3, z3, swap) (X2, Z2, X3, Z3, S) \<longleftrightarrow>
     fe_rep x2 X2 \<and> fe_rep z2 Z2 \<and> fe_rep x3 X3 \<and> fe_rep z3 Z3 \<and> swap = (if S then 1 else 0)"

lemma xor_bits: "((if a then 1 else 0) XOR (if b then 1 else 0) :: u32) = (if a \<noteq> b then 1 else 0)"
  by simp

lemma ladder_step_rep:
  assumes x1: "fe_rep x1 X1" and s: "state_rep s S"
  shows "state_rep (ladder_step x1 (if k then 1 else 0) s) (rfc_step (int p25519) X1 k S)"
proof -
  obtain x2 z2 x3 z3 swap where s': "s = (x2, z2, x3, z3, swap)" by (cases s)
  obtain X2 Z2 X3 Z3 w where S': "S = (X2, Z2, X3, Z3, w)" by (cases S)
  have R: "fe_rep x2 X2" "fe_rep z2 Z2" "fe_rep x3 X3" "fe_rep z3 Z3" "swap = (if w then 1 else 0)"
    using s unfolding s' S' by simp_all
  note l = R(1-4) [THEN fe_rep_length]
  define sw where "sw = (w \<noteq> k)"
  define a2 where "a2 = (if sw then x3 else x2)" define a3 where "a3 = (if sw then x2 else x3)"
  define c2 where "c2 = (if sw then z3 else z2)" define c3 where "c3 = (if sw then z2 else z3)"
  define A2 where "A2 = (if sw then X3 else X2)" define A3 where "A3 = (if sw then X2 else X3)"
  define C2 where "C2 = (if sw then Z3 else Z2)" define C3 where "C3 = (if sw then Z2 else Z3)"
  have Q: "fe_rep a2 A2" "fe_rep c2 C2" "fe_rep a3 A3" "fe_rep c3 C3"
    using R by (simp_all add: a2_def A2_def a3_def A3_def c2_def C2_def c3_def C3_def)
  have sx: "swap XOR (if k then 1 else 0) = (if sw then 1 else 0)" unfolding R(5) xor_bits sw_def ..
  have c: "fe_cswap x2 x3 (if sw then 1 else 0) = (a2, a3)" "fe_cswap z2 z3 (if sw then 1 else 0) = (c2, c3)"
    using fe_cswap_eq [OF l(1,3), of sw] fe_cswap_eq [OF l(2,4), of sw] by (simp_all add: a2_def a3_def c2_def c3_def)
  have C: "(if sw then (X3, X2) else (X2, X3)) = (A2, A3)" "(if sw then (Z3, Z2) else (Z2, Z3)) = (C2, C3)"
    by (simp_all add: A2_def A3_def C2_def C3_def)
  note L = fr.ladder_x2 [OF Q(1,2)] fr.ladder_z2 [OF Q(1,2) refl refl] fr.ladder_x3_z3 [OF x1 Q refl refl]
  have "ladder_step x1 (if k then 1 else 0) s =
     (fe25519_mul (fe25519_sq (fe25519_add a2 c2)) (fe25519_sq (fe25519_sub a2 c2)),
      fe25519_mul (fe25519_sub (fe25519_sq (fe25519_add a2 c2)) (fe25519_sq (fe25519_sub a2 c2)))
        (fe25519_add (fe25519_sq (fe25519_sub a2 c2))
          (fe25519_mul121666 (fe25519_sub (fe25519_sq (fe25519_add a2 c2)) (fe25519_sq (fe25519_sub a2 c2))))),
      fe25519_sq (fe25519_add (fe25519_mul (fe25519_sub a3 c3) (fe25519_add a2 c2)) (fe25519_mul (fe25519_add a3 c3) (fe25519_sub a2 c2))),
      fe25519_mul x1 (fe25519_sq (fe25519_sub (fe25519_mul (fe25519_sub a3 c3) (fe25519_add a2 c2)) (fe25519_mul (fe25519_add a3 c3) (fe25519_sub a2 c2)))),
      if k then 1 else 0)"
    unfolding ladder_step_def s' prod.case Let_def sx c ..
  moreover have "rfc_step (int p25519) X1 k S =
     (((A2 + C2) ^ 2 * (A2 - C2) ^ 2) mod int p25519,
      (((A2 + C2) ^ 2 - (A2 - C2) ^ 2) * ((A2 + C2) ^ 2 + 121665 * ((A2 + C2) ^ 2 - (A2 - C2) ^ 2))) mod int p25519,
      (((A3 - C3) * (A2 + C2) + (A3 + C3) * (A2 - C2)) ^ 2) mod int p25519,
      (X1 * ((A3 - C3) * (A2 + C2) - (A3 + C3) * (A2 - C2)) ^ 2) mod int p25519, k)"
    unfolding rfc_step_def S' prod.case Let_def sw_def [symmetric] C ..
  ultimately show ?thesis using L by simp
qed

lemma ladder_rep:
  assumes "fe_rep x1 X1" "state_rep s S" "\<And>pos. pos \<in> set ps \<Longrightarrow> f pos = (if g pos then 1 else 0)"
  shows "state_rep (fold (\<lambda>pos. ladder_step x1 (f pos)) ps s) (fold (\<lambda>pos. rfc_step (int p25519) X1 (g pos)) ps S)"
  using assms(2,3)
proof (induction ps arbitrary: s S)
  case (Cons pos ps)
  have "state_rep (ladder_step x1 (f pos) s) (rfc_step (int p25519) X1 (g pos) S)"
    using ladder_step_rep [OF assms(1) Cons.prems(1), of "g pos"] Cons.prems(2) by simp
  then show ?case using Cons.IH Cons.prems(2) by simp
qed simp

subsection \<open>The scalar\<close>

lemma bit_bytes_val: "i < 8 * length b \<Longrightarrow> bit (bytes_val b) i = bit (b ! (i div 8)) (i mod 8)"
proof (induction b arbitrary: i)
  case (Cons x b)
  have v: "bytes_val (x # b) = unat x OR push_bit 8 (bytes_val b)"
    using nat_or_push_bit [of "unat x" 8 "bytes_val b"] by (simp add: bytes_val_def)
  have hi: "\<not> bit (unat x) i" if "8 \<le> i"
    using that by (auto simp: bit_unsigned_iff dest: bit_imp_le_length)
  show ?case
  proof (cases "i < 8")
    case True
    then show ?thesis unfolding v by (simp add: bit_or_iff bit_push_bit_iff bit_unsigned_iff)
  next
    case False
    then have "bit (bytes_val b) (i - 8) = bit (b ! ((i - 8) div 8)) ((i - 8) mod 8)"
      using Cons.IH [of "i - 8"] Cons.prems by simp
    moreover have "(x # b) ! (i div 8) = b ! ((i - 8) div 8)" "(i - 8) mod 8 = i mod 8"
      using False by (simp_all add: le_div_geq le_mod_geq)
    ultimately show ?thesis using False hi unfolding v by (simp add: bit_or_iff bit_push_bit_iff)
  qed
qed simp

lemma bit_decode_scalar: "bit (decode_scalar n) i \<longleftrightarrow> i = 254 \<or> 3 \<le> i \<and> i < 254 \<and> bit n i"
proof -
  let ?m = "push_bit 3 (drop_bit 3 (take_bit 254 n))"
  have b: "bit ?m i \<longleftrightarrow> 3 \<le> i \<and> i < 254 \<and> bit n i" for i
    by (auto simp: bit_simps)
  have "?m \<le> take_bit 254 n" by (simp add: push_bit_eq_mult drop_bit_eq_div)
  also have "\<dots> < 2 ^ 254" by (rule take_bit_nat_less_exp)
  finally have "?m + 2 ^ 254 = ?m OR push_bit 254 1"
    using nat_or_push_bit [of ?m 254 1] by (simp only: mult_1_right)
  then have "bit (decode_scalar n) i \<longleftrightarrow> bit ?m i \<or> bit (push_bit 254 1 :: nat) i"
    unfolding decode_scalar_def by (simp only: bit_or_iff)
  moreover have "bit (push_bit 254 1 :: nat) i \<longleftrightarrow> i = 254"
    by (simp only: bit_push_bit_iff bit_1_iff) auto
  ultimately show ?thesis unfolding b by blast
qed

lemma bits_248: "bit (248 :: byte) i \<longleftrightarrow> 3 \<le> i \<and> i < 8"
  and bits_127: "bit (127 :: byte) i \<longleftrightarrow> i < 7"
  and bits_64: "bit (64 :: byte) i \<longleftrightarrow> i = 6"
proof -
  have e: "(248 :: byte) = push_bit 3 (mask 5)" "(127 :: byte) = mask 7" "(64 :: byte) = push_bit 6 1"
    by (simp_all add: mask_eq_exp_minus_1 push_bit_eq_mult)
  show "bit (248 :: byte) i \<longleftrightarrow> 3 \<le> i \<and> i < 8" unfolding e by (simp only: bit_push_bit_iff bit_mask_iff possible_bit_word) auto
  show "bit (127 :: byte) i \<longleftrightarrow> i < 7" unfolding e by (simp only: bit_mask_iff possible_bit_word) auto
  show "bit (64 :: byte) i \<longleftrightarrow> i = 6" unfolding e by (simp only: bit_push_bit_iff bit_1_iff possible_bit_word) auto
qed

lemma scalar_bit_clamp:
  assumes "length n = 32" "pos < 255"
  shows "scalar_bit (clamp_bytes n) pos = (if bit (decode_scalar (bytes_val n)) pos then 1 else 0)"
proof -
  let ?q = "pos div 8" let ?r = "pos mod 8"
  have q: "?q < 32" "?r < 8" using assms(2) by simp_all
  have e: "clamp_bytes n = n[0 := n ! 0 AND 248, 31 := (n ! 31 AND 127) OR 64]"
    using assms(1) by (simp add: clamp_bytes_def Let_def map_nth_upt)
  have "bit (clamp_bytes n ! ?q) ?r \<longleftrightarrow> bit (decode_scalar (bytes_val n)) pos"
  proof -
    have b: "bit (bytes_val n) pos = bit (n ! ?q) ?r" using bit_bytes_val [of pos n] assms by simp
    consider (first) "?q = 0" | (last) "?q = 31" | (mid) "?q \<noteq> 0" "?q \<noteq> 31" by blast
    then show ?thesis
    proof cases
      case first
      then have "pos < 8" by simp
      moreover have "clamp_bytes n ! ?q = n ! ?q AND 248" using first assms(1) by (simp add: e)
      ultimately show ?thesis using b by (simp only: bit_and_iff bits_248 bit_decode_scalar mod_less) auto
    next
      case last
      then have "pos = 248 + ?r" using div_mult_mod_eq [of pos 8] by simp
      moreover have "clamp_bytes n ! ?q = (n ! ?q AND 127) OR 64" using last assms(1) by (simp add: e)
      ultimately show ?thesis using b q(2)
        by (simp only: bit_and_iff bit_or_iff bits_127 bits_64 bit_decode_scalar) auto
    next
      case mid
      then have "8 \<le> pos" "pos < 248" using assms(2) by (simp, linarith)
      then show ?thesis using mid b assms(1) by (simp add: e bit_decode_scalar)
    qed
  qed
  moreover have "scalar_bit x pos = (if bit (x ! ?q) ?r then 1 else 0)" for x
  proof (rule bit_word_eqI)
    fix i
    assume "i < LENGTH(32)"
    show "bit (scalar_bit x pos) i = bit (if bit (x ! ?q) ?r then 1 else 0 :: u32) i"
      using q(2) by (cases "i = 0") (auto simp: scalar_bit_def bit_simps bit_ucast_iff bit_1_iff)
  qed
  ultimately show ?thesis by simp
qed

subsection \<open>Properties\<close>

lemma fe_rep_inv:
  assumes "fe_rep z Z"
  shows "fe_rep (fe25519_inv z) (Z ^ (p25519 - 2))"
proof -
  have z: "length z = 8" "int (fe_val z) mod int p25519 = Z mod int p25519"
    using assms fe_rep_length by (auto simp: fe_rep_def)
  have e: "p25519 - 2 = 2 ^ 255 - 21" by (simp add: p25519_def)
  have I: "fe_val (fe25519_inv z) mod p25519 = fe_val z ^ (p25519 - 2) mod p25519"
    using fe25519_inv_pow [OF z(1)] unfolding e by (simp add: fe_pow_def)
  have "int (fe_val (fe25519_inv z)) mod int p25519 = int (fe_val z) ^ (p25519 - 2) mod int p25519"
    using int_mod_eq [OF I] by simp
  also have "\<dots> = Z ^ (p25519 - 2) mod int p25519" by (metis power_mod z(2))
  finally have v: "int (fe_val (fe25519_inv z)) mod int p25519 = Z ^ (p25519 - 2) mod int p25519" .
  have "fe_ok (fe25519_inv z)"
  proof -
    have l: "length (sqn 5 (chain250 z)) = 8" "length (chain11 z) = 8"
      using fe_pow_sqn [OF chain_pow(2) [OF z(1)], of 5] chain_pow(1) [OF z(1)] by (simp_all add: fe_pow_def)
    have "fe25519_inv z = fe25519_mul (sqn 5 (chain250 z)) (chain11 z)"
      by (simp only: fe25519_inv_def chain250_def chain11_def chain9_def Let_def)
    then show ?thesis using fe25519_mul_val(1) [OF l] by simp
  qed
  with v show ?thesis by (simp add: fe_rep_def)
qed

lemma p25519_int: "int p25519 = 2 ^ 255 - 19"
  by (simp add: p25519_def)

lemma scalarmult_result:
  assumes "length n = 32" "length u = 32"
  shows "length (crypto_scalarmult_curve25519 n u) = 32 \<and>
    int (bytes_val (crypto_scalarmult_curve25519 n u)) = rfc7748_x25519 (bytes_val n) (bytes_val u)"
proof -
  let ?x1 = "fe25519_frombytes u" let ?X1 = "int (bytes_val u mod 2 ^ 255)"
  note F = fe25519_frombytes_val [OF assms(2)]
  have x1: "fe_rep ?x1 ?X1" using F by (simp add: fe_rep_def)
  have cp: "fe_copy ?x1 = ?x1" using fe_ok_length [OF F(1)] by (simp add: fe_copy_def map_nth_upt)
  define s where "s = fold (\<lambda>pos. ladder_step ?x1 (scalar_bit (clamp_bytes n) pos)) (rev [0..<255]) (fe_1, fe_0, fe_copy ?x1, fe_1, 0)"
  define S where "S = fold (\<lambda>t. rfc_step (int p25519) ?X1 (bit (decode_scalar (bytes_val n)) t)) (rev [0..<255]) (1, 0, ?X1, 1, False)"
  have init: "state_rep (fe_1, fe_0, fe_copy ?x1, fe_1, 0) (1, 0, ?X1, 1, False)"
    unfolding cp using x1 fe_const_val by (simp add: fe_rep_def)
  have sS: "state_rep s S"
    unfolding s_def S_def by (rule ladder_rep [OF x1 init]) (use scalar_bit_clamp [OF assms(1)] in auto)
  obtain x2 z2 x3 z3 swap where s': "s = (x2, z2, x3, z3, swap)" by (cases s)
  obtain X2 Z2 X3 Z3 w where S': "S = (X2, Z2, X3, Z3, w)" by (cases S)
  have R: "fe_rep x2 X2" "fe_rep z2 Z2" "fe_rep x3 X3" "fe_rep z3 Z3" "swap = (if w then 1 else 0)"
    using sS unfolding s' S' by simp_all
  note l = R(1-4) [THEN fe_rep_length]
  have out: "crypto_scalarmult_curve25519 n u =
      fe25519_tobytes (fe25519_mul (if w then x3 else x2) (fe25519_inv (if w then z3 else z2)))"
    unfolding crypto_scalarmult_curve25519_def Let_def s_def [symmetric] s' prod.case R(5)
      fe_cswap_eq [OF l(1,3)] fe_cswap_eq [OF l(2,4)] by simp
  have spec: "rfc7748_x25519 (bytes_val n) (bytes_val u) =
      ((if w then X3 else X2) * (if w then Z3 else Z2) ^ nat (int p25519 - 2)) mod int p25519"
    unfolding rfc7748_x25519_def Let_def p25519_int [symmetric] S_def [symmetric] S' prod.case by simp
  have e: "nat (int p25519 - 2) = p25519 - 2" by (simp add: p25519_def)
  have "fe_rep (fe25519_mul (if w then x3 else x2) (fe25519_inv (if w then z3 else z2)))
      ((if w then X3 else X2) * (if w then Z3 else Z2) ^ (p25519 - 2))"
    by (rule fr.rep_mul [OF _ fe_rep_inv]) (use R in simp_all)
  then have ok: "fe_ok (fe25519_mul (if w then x3 else x2) (fe25519_inv (if w then z3 else z2)))"
    and v: "int (fe_val (fe25519_mul (if w then x3 else x2) (fe25519_inv (if w then z3 else z2)))) mod int p25519 =
      ((if w then X3 else X2) * (if w then Z3 else Z2) ^ (p25519 - 2)) mod int p25519"
    by (simp_all add: fe_rep_def)
  show ?thesis
    unfolding out spec e using fe25519_tobytes_val [OF ok] v by (simp add: zmod_int)
qed

text \<open>
  C20: \<open>crypto_scalarmult_curve25519\<close> on 32-bit limbs computes the function X25519 of
  RFC 7748: the 32 bytes it writes are the least non-negative residue that the Montgomery
  ladder on integers modulo \<open>2 ^ 255 - 19\<close> gives for the clamped scalar and the masked
  coordinate, for every scalar and every point.
\<close>

theorem scalarmult_curve25519_rfc7748:
  assumes "length n = 32" "length u = 32"
  shows "length (crypto_scalarmult_curve25519 n u) = 32 \<and>
    int (bytes_val (crypto_scalarmult_curve25519 n u)) = rfc7748_x25519 (bytes_val n) (bytes_val u)"
  using assms by (rule scalarmult_result)

theorem scalarmult_curve25519_rfc7748_witness:
  "length (crypto_scalarmult_curve25519 (replicate 32 7) basepoint) = 32 \<and>
   int (bytes_val (crypto_scalarmult_curve25519 (replicate 32 7) basepoint)) =
     rfc7748_x25519 (bytes_val (replicate 32 7)) (bytes_val basepoint)"
  by (rule scalarmult_curve25519_rfc7748) (simp_all add: basepoint_def)

text \<open>
  C29: The limb arithmetic is the arithmetic modulo \<open>2 ^ 255 - 19\<close>: sum, difference, product,
  square, small multiple and inverse (as the power \<open>p - 2\<close>) of any two 8-limb elements
  represent the sum, difference, product and so on of their values, and no intermediate sum
  or carry is lost.
\<close>

theorem fe25519_arithmetic:
  assumes "length x = 8" "length y = 8"
  shows "fe_val (fe25519_add x y) mod p25519 = (fe_val x + fe_val y) mod p25519 \<and>
    (fe_val (fe25519_sub x y) + fe_val y) mod p25519 = fe_val x mod p25519 \<and>
    fe_val (fe25519_mul x y) mod p25519 = (fe_val x * fe_val y) mod p25519 \<and>
    fe_val (fe25519_sq x) mod p25519 = (fe_val x * fe_val x) mod p25519 \<and>
    fe_val (fe25519_mul121666 x) mod p25519 = (121666 * fe_val x) mod p25519 \<and>
    fe_val (fe25519_inv x) mod p25519 = fe_val x ^ (p25519 - 2) mod p25519"
proof -
  have "p25519 - 2 = 2 ^ 255 - 21" by (simp add: p25519_def)
  then show ?thesis
    using fe25519_add_val [OF assms] fe25519_sub_val [OF assms] fe25519_mul_val [OF assms]
      fe25519_sq_val [OF assms(1)] fe25519_mul121666_val [OF assms(1)] fe25519_inv_pow [OF assms(1)]
    unfolding fe_pow_def by (simp only: simp_thms)
qed

theorem fe25519_arithmetic_witness:
  "fe_val (fe25519_mul [0xffffffff, 0, 0, 0, 0, 0, 0, 0xffffffff] fe_1) mod p25519 =
     (0xffffffff + 2 ^ 224 * 0xffffffff) mod p25519"
  using fe25519_arithmetic [of "[0xffffffff, 0, 0, 0, 0, 0, 0, 0xffffffff]" fe_1] fe_const_val
  by (simp add: fe_ok_def fe_val_def)

text \<open>
  \<open>fe25519_tobytes\<close> writes the canonical encoding: two elements that arise from the
  field operations and stand for the same residue give the same 32 bytes, and
  \<open>fe25519_frombytes\<close> reads back a value of the same residue.
\<close>

theorem fe25519_tobytes_canonical:
  assumes "fe_ok f" "fe_ok g"
  shows "(fe25519_tobytes f = fe25519_tobytes g \<longleftrightarrow> fe_val f mod p25519 = fe_val g mod p25519) \<and>
    fe_val (fe25519_frombytes (fe25519_tobytes f)) = fe_val f mod p25519"
proof -
  note F = fe25519_tobytes_val [OF assms(1)] and G = fe25519_tobytes_val [OF assms(2)]
  have "bytes_val (fe25519_tobytes f) < 2 ^ 255"
    unfolding F(2) by (rule less_le_trans [OF mod_less_divisor]) (simp_all add: p25519_def)
  then have "fe_val (fe25519_frombytes (fe25519_tobytes f)) = fe_val f mod p25519"
    using fe25519_frombytes_val(2) [OF F(1)] F(2) by simp
  moreover have "fe25519_tobytes f = fe25519_tobytes g" if "fe_val f mod p25519 = fe_val g mod p25519"
    using le_val_bytes_inj [of "fe25519_tobytes f" "fe25519_tobytes g"] F G that by (simp add: bytes_val_def)
  moreover have "fe_val f mod p25519 = fe_val g mod p25519" if "fe25519_tobytes f = fe25519_tobytes g"
    using F(2) G(2) that by simp
  ultimately show ?thesis by blast
qed

theorem fe25519_tobytes_canonical_witness:
  "fe_val (fe25519_frombytes (fe25519_tobytes fe_1)) = 1 mod p25519"
  using fe25519_tobytes_canonical [OF fe_const_val(2) fe_const_val(2)] fe_const_val(4) by simp

end
