(* ===== verification/NaclCurve.thy ===== *)
theory NaclCurve
  imports NaclPoly Curve25519
begin

section \<open>Curve25519 in 32 bytes\<close>

text \<open>
  The NaCl reference code \<open>nacl/crypto_scalarmult/curve25519/ref/smult.c\<close> that curvedns uses on
  machines without an assembler version: field elements are arrays of 32 unsigned ints in base
  256, reduced only when a product is formed.
\<close>

type_synonym limbs32 = "u32 list"

definition nc_add :: "limbs32 \<Rightarrow> limbs32 \<Rightarrow> limbs32" where
  "nc_add a b = (let (lo, u) = byte_carry (map (\<lambda>j. a ! j + b ! j) [0..<31]) 0 in lo @ [u + (a ! 31 + b ! 31)])"

definition nc_sub :: "limbs32 \<Rightarrow> limbs32 \<Rightarrow> limbs32" where
  "nc_sub a b = (let (lo, u) = byte_carry (map (\<lambda>j. a ! j + 65280 - b ! j) [0..<31]) 218 in lo @ [u + (a ! 31 - b ! 31)])"

definition nc_squeeze :: "limbs32 \<Rightarrow> limbs32" where
  "nc_squeeze a =
     (let (lo, u) = byte_carry (map (\<lambda>j. a ! j) [0..<31]) 0;
          u = u + a ! 31; a31 = u AND 127;
          u = 19 * drop_bit 7 u;
          (lo, u) = byte_carry lo u;
          u = u + a31
      in lo @ [u])"

definition nc_minusp :: limbs32 where
  "nc_minusp = 19 # replicate 30 0 @ [128]"

definition nc_freeze :: "limbs32 \<Rightarrow> limbs32" where
  "nc_freeze a =
     (let aorig = a; a = nc_add a nc_minusp; negative = - (drop_bit 7 (a ! 31) AND 1)
      in map (\<lambda>j. a ! j XOR (negative AND (aorig ! j XOR a ! j))) [0..<32])"

definition nc_mult :: "limbs32 \<Rightarrow> limbs32 \<Rightarrow> limbs32" where
  "nc_mult a b =
     nc_squeeze (map (\<lambda>i.
       fold (\<lambda>j u. u + 38 * a ! j * b ! (i + 32 - j)) [i + 1..<32]
         (fold (\<lambda>j u. u + a ! j * b ! (i - j)) [0..<i + 1] 0)) [0..<32])"

text \<open>\<open>mult121665\<close> runs the loops of \<open>squeeze\<close> on the products \<open>121665 * a[j]\<close>.\<close>

definition nc_mult121665 :: "limbs32 \<Rightarrow> limbs32" where
  "nc_mult121665 a = nc_squeeze (map (\<lambda>j. 121665 * a ! j) [0..<32])"

definition nc_square :: "limbs32 \<Rightarrow> limbs32" where
  "nc_square a =
     nc_squeeze (map (\<lambda>i.
       let u = fold (\<lambda>j u. u + a ! j * a ! (i - j)) (takeWhile (\<lambda>j. j < i - j) [0..<i + 1]) 0;
           u = fold (\<lambda>j u. u + 38 * a ! j * a ! (i + 32 - j)) (takeWhile (\<lambda>j. j < i + 32 - j) [i + 1..<32]) u;
           u = u * 2
       in if even i then u + a ! (i div 2) * a ! (i div 2) + 38 * a ! (i div 2 + 16) * a ! (i div 2 + 16) else u) [0..<32])"

text \<open>A point is the pair of the halves of an array of 64.\<close>

type_synonym nc_point = "limbs32 \<times> limbs32"

definition nc_select32 :: "limbs32 \<Rightarrow> limbs32 \<Rightarrow> u32 \<Rightarrow> limbs32 \<times> limbs32" where
  "nc_select32 r s b =
     (let bminus1 = b - 1; t = map (\<lambda>j. bminus1 AND (r ! j XOR s ! j)) [0..<32]
      in (map (\<lambda>j. s ! j XOR t ! j) [0..<32], map (\<lambda>j. r ! j XOR t ! j) [0..<32]))"

definition nc_select :: "nc_point \<Rightarrow> nc_point \<Rightarrow> u32 \<Rightarrow> nc_point \<times> nc_point" where
  "nc_select r s b =
     (let (px, qx) = nc_select32 (fst r) (fst s) b; (pz, qz) = nc_select32 (snd r) (snd s) b
      in ((px, pz), (qx, qz)))"

definition nc_step :: "limbs32 \<Rightarrow> u32 \<Rightarrow> nc_point \<times> nc_point \<Rightarrow> nc_point \<times> nc_point" where
  "nc_step work b xz =
     (let (xzm, xzm1) = xz;
          (xzmb, xzm1b) = nc_select xzm xzm1 b;
          a0 = (nc_add (fst xzmb) (snd xzmb), nc_sub (fst xzmb) (snd xzmb));
          a1 = (nc_add (fst xzm1b) (snd xzm1b), nc_sub (fst xzm1b) (snd xzm1b));
          b0 = (nc_square (fst a0), nc_square (snd a0));
          b1 = (nc_mult (fst a1) (snd a0), nc_mult (snd a1) (fst a0));
          c1 = (nc_add (fst b1) (snd b1), nc_sub (fst b1) (snd b1));
          r = nc_square (snd c1);
          s = nc_sub (fst b0) (snd b0);
          t = nc_mult121665 s;
          u = nc_add t (fst b0);
          xznb = (nc_mult (fst b0) (snd b0), nc_mult s u);
          xzn1b = (nc_square (fst c1), nc_mult r work)
      in nc_select xznb xzn1b b)"

definition nc_mainloop :: "limbs32 \<Rightarrow> bytes \<Rightarrow> nc_point" where
  "nc_mainloop work e =
     fst (fold (\<lambda>pos. nc_step work (scalar_bit e pos)) (rev [0..<255])
       ((1 # replicate 31 0, replicate 32 0), (work, 1 # replicate 31 0)))"

definition nc_sqs :: "nat \<Rightarrow> limbs32 \<Rightarrow> limbs32" where
  "nc_sqs n z = (nc_square ^^ n) z"

definition nc_recip :: "limbs32 \<Rightarrow> limbs32" where
  "nc_recip z =
     (let z2 = nc_square z;
          t1 = nc_square z2;
          t0 = nc_square t1;
          z9 = nc_mult t0 z;
          z11 = nc_mult z9 z2;
          t0 = nc_square z11;
          z2_5_0 = nc_mult t0 z9;
          t0 = nc_sqs 5 z2_5_0;
          z2_10_0 = nc_mult t0 z2_5_0;
          t1 = nc_sqs (2 + 2 * 4) z2_10_0;
          z2_20_0 = nc_mult t1 z2_10_0;
          t1 = nc_sqs (2 + 2 * 9) z2_20_0;
          t0 = nc_mult t1 z2_20_0;
          t0 = nc_sqs (2 + 2 * 4) t0;
          z2_50_0 = nc_mult t0 z2_10_0;
          t1 = nc_sqs (2 + 2 * 24) z2_50_0;
          z2_100_0 = nc_mult t1 z2_50_0;
          t0 = nc_sqs (2 + 2 * 49) z2_100_0;
          t1 = nc_mult t0 z2_100_0;
          t1 = nc_sqs (2 + 2 * 24) t1;
          t0 = nc_mult t1 z2_50_0;
          t1 = nc_sqs 5 t0
      in nc_mult t1 z11)"

definition nacl_scalarmult :: "bytes \<Rightarrow> bytes \<Rightarrow> bytes" where
  "nacl_scalarmult n p =
     (let e = clamp_bytes n;
          work = map (\<lambda>i. ucast (p ! i)) [0..<32];
          (x, z) = nc_mainloop work e;
          z = nc_recip z;
          q = nc_freeze (nc_mult x z)
      in map (\<lambda>i. ucast (q ! i)) [0..<32])"

definition nacl_scalarmult_base :: "bytes \<Rightarrow> bytes" where
  "nacl_scalarmult_base n = nacl_scalarmult n (9 # replicate 31 0)"

section \<open>Values\<close>

text \<open>\<open>wide\<close>: what the multiplications accept; \<open>squeezed\<close>: what they deliver.\<close>

definition wide :: "limbs32 \<Rightarrow> bool" where
  "wide a \<longleftrightarrow> length a = 32 \<and> (\<forall>x \<in> set a. unat x < 512)"

definition squeezed :: "limbs32 \<Rightarrow> bool" where
  "squeezed a \<longleftrightarrow> length a = 32 \<and> digits a \<and> dig_val a < 2 ^ 255 + 2 ^ 30"

lemma split31: "length a = 32 \<Longrightarrow> a = map (\<lambda>j. a ! j) [0..<31] @ [a ! 31]"
proof -
  assume l: "length a = 32"
  have "map (\<lambda>j. a ! j) [0..<31] = take 31 a" using l by (intro nth_equalityI) (simp_all del: upt_rec_numeral)
  then show ?thesis using l take_Suc_conv_app_nth [of 31 a] by simp
qed

lemma dig_val_snoc: "length lo = 31 \<Longrightarrow> dig_val (lo @ [t]) = dig_val lo + 2 ^ 248 * unat t"
  by (simp add: dig_val_append dig_val_Cons dig_val_Nil)

lemma low31_less: "length lo = 31 \<Longrightarrow> digits lo \<Longrightarrow> dig_val lo < 2 ^ 248"
  using dig_val_less [of lo] by simp

lemma dig_val_low: "dig_val (map (\<lambda>j. f j) [0..<31]) = (\<Sum>j<31. unat (f j) * 256 ^ j)"
  unfolding dig_val_def map_map comp_def by (rule le_val_sum)

lemma p25519_fold': "a + 2 ^ 255 * k = b + 19 * k \<Longrightarrow> a mod p25519 = b mod p25519"
proof -
  assume e: "a + 2 ^ 255 * k = b + 19 * k"
  have "2 ^ 255 * k = p25519 * k + 19 * k" by (simp add: p25519_def)
  then have "a + p25519 * k = b" using e by linarith
  then show ?thesis by (metis mod_mult_self2)
qed

lemma nc_squeeze_val:
  assumes "length h = 32" "\<forall>x \<in> set h. unat x < 2 ^ 29"
  shows "squeezed (nc_squeeze h)" "dig_val (nc_squeeze h) mod p25519 = dig_val h mod p25519"
proof -
  define a where "a = map (\<lambda>j. h ! j) [0..<31]"
  have h: "h = a @ [h ! 31]" "length a = 31" using split31 [OF assms(1)] by (simp_all add: a_def)
  have "set a \<subseteq> set h" using arg_cong [OF h(1), of set] by auto
  then have ab: "\<forall>x \<in> set a. unat x < 2 ^ 30" "unat (h ! 31) < 2 ^ 29"
    using assms by (fastforce, simp)
  obtain lo u where 1: "byte_carry a 0 = (lo, u)" "length lo = length a" "digits lo"
      "dig_val lo + 256 ^ length a * unat u = dig_val a + unat (0 :: u32)" "if a = [] then u = 0 else unat u < 2 ^ 23"
    by (rule byte_carry_val [OF ab(1), of 0], simp, rule that)
  have ub: "unat u < 2 ^ 23" using 1(5) by (simp split: if_splits)
  define w where "w = u + h ! 31"
  have w: "unat w = unat u + unat (h ! 31)" unfolding w_def using ub ab(2) by (subst unat_add_less) simp_all
  have wb: "unat w < 2 ^ 30" unfolding w using ub ab(2) by simp
  have d2: "unat (drop_bit 7 w) = unat w div 128" using unat_drop_bit_div [of 7 w] by simp
  have m2: "unat (w AND 127) = unat w mod 128" using unat_and_mask_mod [of w 7] by (simp add: mask_eq_exp_minus_1)
  have q: "unat w div 128 < 2 ^ 23" using wb by (simp add: div_less_iff_less_mult)
  then have f: "unat (19 * drop_bit 7 w) = 19 * (unat w div 128)" using d2 by (subst unat_mult_less) simp_all
  have fb: "unat (19 * drop_bit 7 w) < 2 ^ 30" unfolding f using q by simp
  have lb: "\<forall>x \<in> set lo. unat x < 2 ^ 30" using 1(3) by fastforce
  obtain lo' u' where 2: "byte_carry lo (19 * drop_bit 7 w) = (lo', u')" "length lo' = length lo" "digits lo'"
      "dig_val lo' + 256 ^ length lo * unat u' = dig_val lo + unat (19 * drop_bit 7 w)"
      "if lo = [] then u' = 19 * drop_bit 7 w else unat u' < 2 ^ 23"
    by (rule byte_carry_val [OF lb fb], rule that)
  have l: "length lo = 31" using 1(2) h(2) by simp
  then have ub': "unat u' < 2 ^ 23" using 2(5) by (auto split: if_splits)
  have S: "nc_squeeze h = lo' @ [u' + (w AND 127)]"
    unfolding nc_squeeze_def Let_def a_def [symmetric] 1(1) prod.case w_def [symmetric] 2(1) ..
  have t: "unat (u' + (w AND 127)) = unat u' + unat w mod 128" unfolding m2 [symmetric] using ub' m2 by (subst unat_add_less) simp_all
  have V: "dig_val (nc_squeeze h) = dig_val lo + 19 * (unat w div 128) + 2 ^ 248 * (unat w mod 128)"
    unfolding S using 2(2,4) l t f by (simp add: dig_val_snoc algebra_simps)
  have "dig_val lo < 2 ^ 248" by (rule low31_less [OF l 1(3)])
  moreover have "2 ^ 248 * (unat w mod 128) \<le> 2 ^ 248 * 127" by (intro mult_le_mono2) simp
  ultimately have B: "dig_val (nc_squeeze h) < 2 ^ 255 + 2 ^ 30" unfolding V using fb f by simp
  then have "2 ^ 248 * unat (u' + (w AND 127)) < 2 ^ 255 + 2 ^ 30"
    unfolding S using 2(2) l by (simp add: dig_val_snoc)
  then have "unat (u' + (w AND 127)) < 256" by simp
  then show "squeezed (nc_squeeze h)" using B unfolding squeezed_def S using 2(2,3) l by simp
  have "dig_val h = dig_val lo + 2 ^ 248 * unat w"
    using 1(4) h(2) w by (subst h(1)) (simp add: dig_val_snoc algebra_simps)
  moreover have "2 ^ 248 * m + 2 ^ 255 * q = 2 ^ 248 * (128 * q + m)" for q m :: nat by simp
  then have "2 ^ 248 * (unat w mod 128) + 2 ^ 255 * (unat w div 128) = 2 ^ 248 * unat w" by (simp only: mult_div_mod_eq)
  ultimately have "dig_val (nc_squeeze h) + 2 ^ 255 * (unat w div 128) = dig_val h + 19 * (unat w div 128)"
    unfolding V by linarith
  then show "dig_val (nc_squeeze h) mod p25519 = dig_val h mod p25519" by (rule p25519_fold')
qed

lemma squeezedD: "squeezed a \<Longrightarrow> length a = 32" "squeezed a \<Longrightarrow> j < 32 \<Longrightarrow> unat (a ! j) < 256" "squeezed a \<Longrightarrow> digits a"
    "squeezed a \<Longrightarrow> dig_val a < 2 ^ 255 + 2 ^ 30"
  by (simp_all add: squeezed_def)

lemma squeezed_wide: "squeezed a \<Longrightarrow> wide a"
  unfolding squeezed_def wide_def by fastforce

lemma dig_val_32: "length a = 32 \<Longrightarrow> dig_val a = (\<Sum>j<31. unat (a ! j) * 256 ^ j) + 2 ^ 248 * unat (a ! 31)"
  by (subst split31) (simp_all add: dig_val_snoc dig_val_low del: upt_rec_numeral)

lemma nc_add_val:
  assumes "length a = 32" "length b = 32" "digits a" "digits b"
  shows "length (nc_add a b) = 32" "\<forall>x \<in> set (nc_add a b). unat x < 512 + 2 ^ 23" "dig_val (nc_add a b) = dig_val a + dig_val b"
    "digits (butlast (nc_add a b))"
proof -
  have s: "unat (a ! j + b ! j) = unat (a ! j) + unat (b ! j)" "unat (a ! j) + unat (b ! j) < 512" if "j < 32" for j
  proof -
    show x: "unat (a ! j) + unat (b ! j) < 512"
      using digits_nth [OF assms(3), of j] digits_nth [OF assms(4), of j] assms(1,2) that by simp
    show "unat (a ! j + b ! j) = unat (a ! j) + unat (b ! j)" using x by (subst unat_add_less) simp_all
  qed
  define xs where "xs = map (\<lambda>j. a ! j + b ! j) [0..<31]"
  have "unat (a ! j + b ! j) < 2 ^ 30" if "j < 31" for j using s [of j] that by simp
  then have xb: "\<forall>x \<in> set xs. unat x < 2 ^ 30" unfolding xs_def by (auto simp del: upt_rec_numeral)
  obtain lo u where 1: "byte_carry xs 0 = (lo, u)" "length lo = length xs" "digits lo"
      "dig_val lo + 256 ^ length xs * unat u = dig_val xs + unat (0 :: u32)" "if xs = [] then u = 0 else unat u < 2 ^ 23"
    by (rule byte_carry_val [OF xb, of 0], simp, rule that)
  have l: "length lo = 31" using 1(2) by (simp add: xs_def)
  have ub: "unat u < 2 ^ 23" using 1(5) by (simp split: if_splits)
  have A: "nc_add a b = lo @ [u + (a ! 31 + b ! 31)]" unfolding nc_add_def xs_def [symmetric] 1(1) by simp
  have t: "unat (u + (a ! 31 + b ! 31)) = unat u + (unat (a ! 31) + unat (b ! 31))"
    using ub s [of 31] by (subst unat_add_less) simp_all
  show "length (nc_add a b) = 32" "digits (butlast (nc_add a b))" unfolding A using l 1(3) by simp_all
  show "\<forall>x \<in> set (nc_add a b). unat x < 512 + 2 ^ 23" unfolding A using 1(3) t ub s(2) [of 31] by fastforce
  have "dig_val xs = (\<Sum>j<31. unat (a ! j) * 256 ^ j) + (\<Sum>j<31. unat (b ! j) * 256 ^ j)"
    unfolding xs_def dig_val_low by (simp add: s(1) add_mult_distrib sum.distrib)
  then show "dig_val (nc_add a b) = dig_val a + dig_val b"
    unfolding A dig_val_snoc [OF l] t dig_val_32 [OF assms(1)] dig_val_32 [OF assms(2)]
    using 1(4) l by (simp add: xs_def algebra_simps)
qed

text \<open>A value below \<open>2 ^ 257\<close> has a last digit below 512.\<close>

lemma wide_of_value:
  assumes "length a = 32" "digits (butlast a)" "dig_val a < 2 ^ 257"
  shows "wide a"
proof -
  have a: "a = butlast a @ [last a]" "length (butlast a) = 31"
    using assms(1) append_butlast_last_id [of a] by (metis list.size(3) zero_neq_numeral, simp)
  have "2 ^ 248 * unat (last a) < 2 ^ 257" using assms(3) by (subst (asm) a(1)) (simp add: dig_val_snoc [OF a(2)])
  then have "unat (last a) < 512" by simp
  then have "\<forall>x \<in> set (butlast a @ [last a]). unat x < 512" using assms(2) by fastforce
  then show ?thesis unfolding wide_def using assms(1) a(1) by simp
qed

lemma nc_add_wide: "squeezed a \<Longrightarrow> squeezed b \<Longrightarrow> wide (nc_add a b) \<and> dig_val (nc_add a b) = dig_val a + dig_val b"
  using nc_add_val [of a b] wide_of_value [of "nc_add a b"] by (simp add: squeezed_def)

lemma sub_constant: "(\<Sum>j<n. 65280 * 256 ^ j) + 256 = (256 :: nat) * 256 ^ n"
  by (induction n) simp_all

lemma nc_sub_val:
  assumes "length a = 32" "length b = 32" "digits a" "digits b" "dig_val b \<le> 2 ^ 256 - 38"
  shows "length (nc_sub a b) = 32" "digits (butlast (nc_sub a b))" "dig_val (nc_sub a b) + dig_val b = dig_val a + 2 * p25519"
proof -
  have d: "unat (a ! j) < 256" "unat (b ! j) < 256" if "j < 32" for j
    using digits_nth [OF assms(3), of j] digits_nth [OF assms(4), of j] assms(1,2) that by simp_all
  have s: "unat (a ! j + 65280 - b ! j) + unat (b ! j) = unat (a ! j) + 65280" "unat (a ! j + 65280 - b ! j) < 2 ^ 30" if "j < 31" for j
  proof -
    have "unat (a ! j + 65280) = unat (a ! j) + 65280" using d [of j] that by (subst unat_add_less) simp_all
    then have "unat (a ! j + 65280 - b ! j) = unat (a ! j) + 65280 - unat (b ! j)"
      using d [of j] that by (subst unat_sub) (simp_all add: word_le_nat_alt)
    then show "unat (a ! j + 65280 - b ! j) + unat (b ! j) = unat (a ! j) + 65280" "unat (a ! j + 65280 - b ! j) < 2 ^ 30"
      using d [of j] that by simp_all
  qed
  define xs where "xs = map (\<lambda>j. a ! j + 65280 - b ! j) [0..<31]"
  have xb: "\<forall>x \<in> set xs. unat x < 2 ^ 30" unfolding xs_def using s(2) by (auto simp del: upt_rec_numeral)
  have u0: "unat (218 :: u32) < 2 ^ 30" by simp
  obtain lo u where 1: "byte_carry xs 218 = (lo, u)" "length lo = length xs" "digits lo"
      "dig_val lo + 256 ^ length xs * unat u = dig_val xs + unat (218 :: u32)" "if xs = [] then u = 218 else unat u < 2 ^ 23"
    by (rule byte_carry_val [OF xb u0], rule that)
  have l: "length lo = 31" using 1(2) by (simp add: xs_def)
  have ub: "unat u < 2 ^ 23" using 1(5) by (simp split: if_splits)
  have A: "nc_sub a b = lo @ [u + (a ! 31 - b ! 31)]" unfolding nc_sub_def xs_def [symmetric] 1(1) by simp
  have "dig_val xs + (\<Sum>j<31. unat (b ! j) * 256 ^ j) = (\<Sum>j<31. unat (a ! j) * 256 ^ j) + (\<Sum>j<31. 65280 * 256 ^ j)"
    unfolding xs_def dig_val_low sum.distrib [symmetric] add_mult_distrib [symmetric] using s(1) by (intro sum.cong) auto
  then have V: "dig_val lo + 2 ^ 248 * unat u + (\<Sum>j<31. unat (b ! j) * 256 ^ j) + 38 = (\<Sum>j<31. unat (a ! j) * 256 ^ j) + 2 ^ 256"
    using 1(4) l sub_constant [of 31] 1(2) by simp
  have lo: "dig_val lo < 2 ^ 248" by (rule low31_less [OF l 1(3)])
  have le: "unat (b ! 31) \<le> unat u + unat (a ! 31)"
  proof (rule ccontr)
    assume "\<not> ?thesis"
    then have "2 ^ 248 * (unat u + unat (a ! 31) + 1) \<le> 2 ^ 248 * unat (b ! 31)" by (intro mult_le_mono2) simp
    then show False using V lo assms(5) unfolding dig_val_32 [OF assms(2)] by (simp add: algebra_simps)
  qed
  have c: "u + (a ! 31 - b ! 31) = u + a ! 31 - b ! 31" by simp
  have ua: "unat (u + a ! 31) = unat u + unat (a ! 31)" using ub d [of 31] by (subst unat_add_less) simp_all
  have t: "unat (u + (a ! 31 - b ! 31)) + unat (b ! 31) = unat u + unat (a ! 31)"
    unfolding c using le ua by (subst unat_sub) (simp_all add: word_le_nat_alt)
  show "length (nc_sub a b) = 32" "digits (butlast (nc_sub a b))" unfolding A using l 1(3) by simp_all
  have "2 ^ 248 * unat (u + (a ! 31 - b ! 31)) + 2 ^ 248 * unat (b ! 31) = 2 ^ 248 * unat u + 2 ^ 248 * unat (a ! 31)"
    unfolding add_mult_distrib2 [symmetric] t ..
  then show "dig_val (nc_sub a b) + dig_val b = dig_val a + 2 * p25519"
    unfolding A dig_val_snoc [OF l] dig_val_32 [OF assms(1)] dig_val_32 [OF assms(2)] p25519_def using V by simp
qed

lemma nc_sub_wide:
  assumes "squeezed a" "squeezed b"
  shows "wide (nc_sub a b)" "dig_val (nc_sub a b) + dig_val b = dig_val a + 2 * p25519"
proof -
  have "dig_val b \<le> 2 ^ 256 - 38" using squeezedD(4) [OF assms(2)] by simp
  note S = nc_sub_val [OF squeezedD(1) [OF assms(1)] squeezedD(1) [OF assms(2)] squeezedD(3) [OF assms(1)] squeezedD(3) [OF assms(2)] this]
  show "dig_val (nc_sub a b) + dig_val b = dig_val a + 2 * p25519" by (rule S(3))
  then have "dig_val (nc_sub a b) < 2 ^ 257" using squeezedD(4) [OF assms(1)] by (simp add: p25519_def)
  then show "wide (nc_sub a b)" by (rule wide_of_value [OF S(1,2)])
qed

subsection \<open>Products\<close>

lemma nc_mult_val:
  assumes "wide h" "wide r"
  shows "squeezed (nc_mult h r)" "dig_val (nc_mult h r) mod p25519 = dig_val h * dig_val r mod p25519"
proof -
  define hr where "hr i = fold (\<lambda>j u. u + 38 * h ! j * r ! (i + 32 - j)) [i + 1..<32] (fold (\<lambda>j u. u + h ! j * r ! (i - j)) [0..<i + 1] 0)" for i
  define xs where "xs = map hr [0..<32]"
  define A where "A i = (\<Sum>j<Suc i. unat (h ! j) * unat (r ! (i - j)))" for i
  define B where "B i = (\<Sum>j = Suc i..<32. unat (h ! j) * unat (r ! (i + 32 - j)))" for i
  have lw: "length h = 32" "length r = 32" using assms by (simp_all add: wide_def)
  have d: "unat (h ! j) \<le> 511 \<and> unat (r ! j) \<le> 511" if "j < 32" for j
    using assms lw that nth_mem [of j h] nth_mem [of j r] unfolding wide_def by fastforce
  have v: "unat (hr i) = A i + 38 * B i" "unat (hr i) < 2 ^ 29" if "i < 32" for i
    using convolution_digit [of 32 h 511 r i 38, OF d that] by (simp_all add: hr_def A_def B_def)
  have M: "nc_mult h r = nc_squeeze xs" unfolding nc_mult_def xs_def hr_def ..
  have l: "length xs = 32" by (simp add: xs_def)
  have b: "\<forall>x \<in> set xs. unat x < 2 ^ 29" unfolding xs_def using v(2) by (auto simp del: upt_rec_numeral)
  note S = nc_squeeze_val [OF l b]
  show "squeezed (nc_mult h r)" unfolding M by (rule S(1))
  have "dig_val xs = (\<Sum>i<32. (A i + 38 * B i) * 256 ^ i)"
    unfolding dig_val_nth [OF l] by (intro sum.cong refl) (simp add: xs_def v(1) del: upt_rec_numeral)
  then have xs: "dig_val xs = (\<Sum>i<32. A i * 256 ^ i) + 38 * (\<Sum>i<32. B i * 256 ^ i)"
    by (simp only: add_mult_distrib sum.distrib sum_distrib_left mult.assoc)
  have "dig_val h * dig_val r = (\<Sum>i<32. A i * 256 ^ i) + 256 ^ 32 * (\<Sum>i<32. B i * 256 ^ i)"
    unfolding dig_val_nth [OF lw(1)] dig_val_nth [OF lw(2)] A_def B_def by (rule convolution_value)
  then have "dig_val xs + 2 ^ 255 * (2 * (\<Sum>i<32. B i * 256 ^ i)) = dig_val h * dig_val r + 19 * (2 * (\<Sum>i<32. B i * 256 ^ i))"
    unfolding xs by simp
  then show "dig_val (nc_mult h r) mod p25519 = dig_val h * dig_val r mod p25519"
    unfolding M S(2) by (rule p25519_fold')
qed

lemma nc_mult121665_val:
  assumes "wide h"
  shows "squeezed (nc_mult121665 h)" "dig_val (nc_mult121665 h) mod p25519 = 121665 * dig_val h mod p25519"
proof -
  define xs where "xs = map (\<lambda>j. 121665 * h ! j) [0..<32]"
  have lw: "length h = 32" using assms by (simp add: wide_def)
  have d: "unat (h ! j) < 512" if "j < 32" for j using assms that by (simp add: wide_def)
  have m: "unat (121665 * h ! j) = 121665 * unat (h ! j)" "unat (121665 * h ! j) < 2 ^ 29" if "j < 32" for j
  proof -
    show e: "unat (121665 * h ! j) = 121665 * unat (h ! j)" using d [OF that] by (subst unat_mult_less) simp_all
    show "unat (121665 * h ! j) < 2 ^ 29" unfolding e using d [OF that] by simp
  qed
  have l: "length xs = 32" by (simp add: xs_def)
  have b: "\<forall>x \<in> set xs. unat x < 2 ^ 29" unfolding xs_def using m(2) by (auto simp del: upt_rec_numeral)
  note S = nc_squeeze_val [OF l b]
  show "squeezed (nc_mult121665 h)" unfolding nc_mult121665_def xs_def [symmetric] by (rule S(1))
  have "dig_val xs = 121665 * dig_val h"
    unfolding dig_val_nth [OF l] dig_val_nth [OF lw] sum_distrib_left
    by (intro sum.cong refl) (simp add: xs_def m(1) mult.assoc del: upt_rec_numeral)
  then show "dig_val (nc_mult121665 h) mod p25519 = 121665 * dig_val h mod p25519"
    unfolding nc_mult121665_def xs_def [symmetric] S(2) by simp
qed

text \<open>A symmetric sum is twice its first half and the middle term.\<close>

lemma symmetric_sum:
  fixes f :: "nat \<Rightarrow> 'a :: comm_ring_1"
  assumes "\<And>j. j \<le> i \<Longrightarrow> f (i - j) = f j"
  shows "(\<Sum>j<Suc i. f j) = (\<Sum>j<(i + 1) div 2. f j) * 2 + (if even i then f (i div 2) else 0)"
proof -
  let ?h = "(i + 1) div 2"
  have up: "(\<Sum>j \<in> {i div 2 + 1..i}. f j) = (\<Sum>j<?h. f j)"
    by (rule sum.reindex_bij_witness [of _ "\<lambda>j. i - j" "\<lambda>j. i - j"]) (auto simp: assms)
  have "(\<Sum>j<Suc i. f j) = (\<Sum>j \<in> {..<?h} \<union> ({?h..i div 2} \<union> {i div 2 + 1..i}). f j)" by (rule sum.cong) auto
  also have "\<dots> = (\<Sum>j<?h. f j) + (\<Sum>j \<in> {?h..i div 2} \<union> {i div 2 + 1..i}. f j)"
    by (rule sum.union_disjoint) auto
  also have "(\<Sum>j \<in> {?h..i div 2} \<union> {i div 2 + 1..i}. f j) = (\<Sum>j \<in> {?h..i div 2}. f j) + (\<Sum>j \<in> {i div 2 + 1..i}. f j)"
    by (rule sum.union_disjoint) auto
  finally have "(\<Sum>j<Suc i. f j) = (\<Sum>j<?h. f j) + ((\<Sum>j \<in> {?h..i div 2}. f j) + (\<Sum>j \<in> {i div 2 + 1..i}. f j))" .
  moreover have "{?h..i div 2} = (if even i then {i div 2} else {})" by (auto elim: evenE oddE)
  ultimately show ?thesis unfolding up by (simp add: mult_2_right)
qed

lemma fold_plus_sum: "fold (\<lambda>j u. u + f j) js a = a + (\<Sum>j \<leftarrow> js. f j :: 'a :: comm_ring_1)"
  by (induction js arbitrary: a) (simp_all add: add.assoc)

lemma takeWhile_upt:
  assumes "a \<le> c" "c \<le> b" "\<And>j. a \<le> j \<Longrightarrow> j < b \<Longrightarrow> P j \<longleftrightarrow> j < c"
  shows "takeWhile P [a..<b] = [a..<c]"
proof -
  have u: "[a..<b] = [a..<c] @ [c..<b]" using assms(1,2) by (metis le_add_diff_inverse upt_add_eq_append)
  have "takeWhile P ([a..<c] @ [c..<b]) = [a..<c] @ takeWhile P [c..<b]"
    using assms by (intro takeWhile_append2) auto
  moreover have "takeWhile P [c..<b] = []"
    using assms by (cases "c < b") (auto simp: upt_conv_Cons)
  ultimately show ?thesis unfolding u by simp
qed

lemma sum_upt: "(\<Sum>j \<leftarrow> [a..<b]. f j) = (\<Sum>j = a..<b. f j :: 'a :: comm_monoid_add)"
  by (simp add: interv_sum_list_conv_sum_set_nat)

lemma square_digit:
  fixes a :: limbs32
  assumes "i < 32"
  defines "lo \<equiv> \<lambda>j. a ! j * a ! (i - j)" and "hi \<equiv> \<lambda>j. 38 * a ! j * a ! (i + 32 - j)"
  shows "(let u = fold (\<lambda>j u. u + lo j) (takeWhile (\<lambda>j. j < i - j) [0..<i + 1]) 0;
           u = fold (\<lambda>j u. u + hi j) (takeWhile (\<lambda>j. j < i + 32 - j) [i + 1..<32]) u;
           u = u * 2
       in if even i then u + a ! (i div 2) * a ! (i div 2) + 38 * a ! (i div 2 + 16) * a ! (i div 2 + 16) else u) =
    fold (\<lambda>j u. u + hi j) [i + 1..<32] (fold (\<lambda>j u. u + lo j) [0..<i + 1] 0)"
proof -
  have t1: "takeWhile (\<lambda>j. j < i - j) [0..<i + 1] = [0..<(i + 1) div 2]" by (rule takeWhile_upt) auto
  have t2: "takeWhile (\<lambda>j. j < i + 32 - j) [i + 1..<32] = [i + 1..<(i + 33) div 2]"
    by (rule takeWhile_upt) (use assms(1) in auto)
  have L: "(\<Sum>j = 0..<i + 1. lo j) = (\<Sum>j = 0..<(i + 1) div 2. lo j) * 2 + (if even i then a ! (i div 2) * a ! (i div 2) else 0)"
  proof -
    have "lo (i - j) = lo j" if "j \<le> i" for j using that by (simp add: lo_def mult.commute)
    moreover have "lo (i div 2) = a ! (i div 2) * a ! (i div 2)" if "even i" using that by (auto simp: lo_def elim!: evenE)
    ultimately show ?thesis using symmetric_sum [of i lo] by (simp add: atLeast0LessThan)
  qed
  have H: "(\<Sum>j = i + 1..<32. hi j) = (\<Sum>j = i + 1..<(i + 33) div 2. hi j) * 2 + (if even i then 38 * a ! (i div 2 + 16) * a ! (i div 2 + 16) else 0)"
  proof (cases "i = 31")
    case False
    define m where "m = 30 - i"
    define f where "f k = hi (k + (i + 1))" for k
    have sh: "(\<Sum>j = i + 1..<c + (i + 1). hi j) = (\<Sum>k<c. f k)" for c
      using sum.shift_bounds_nat_ivl [of hi 0 "i + 1" c] by (simp add: f_def atLeast0LessThan)
    have sym: "f (m - k) = f k" if "k \<le> m" for k
    proof -
      have "i + 32 - (m - k + (i + 1)) = k + (i + 1)" "i + 32 - (k + (i + 1)) = m - k + (i + 1)" using that False assms(1) by (simp_all add: m_def)
      then show ?thesis unfolding f_def hi_def by (simp add: ac_simps)
    qed
    have c: "32 = Suc m + (i + 1)" "(i + 33) div 2 = (m + 1) div 2 + (i + 1)" "even m \<longleftrightarrow> even i"
      using False assms(1) by (auto simp: m_def)
    have mid: "f (m div 2) = 38 * a ! (i div 2 + 16) * a ! (i div 2 + 16)" if "even i"
    proof -
      have "m div 2 + (i + 1) = i div 2 + 16" "i + 32 - (i div 2 + 16) = i div 2 + 16"
        using that False assms(1) by (auto simp: m_def elim!: evenE)
      then show ?thesis unfolding f_def hi_def by (simp only:)
    qed
    show ?thesis unfolding c(2) sh c(1) using symmetric_sum [of m f, OF sym] mid c(3) by simp
  qed simp
  show ?thesis
    unfolding Let_def fold_plus_sum t1 t2 sum_upt H L by (simp add: algebra_simps)
qed

lemma nc_square_mult: "nc_square a = nc_mult a a"
  unfolding nc_square_def nc_mult_def
  by (rule arg_cong [of _ _ nc_squeeze], rule map_cong [OF refl], rule square_digit) simp

section \<open>The contract of a field that reduces lazily\<close>

text \<open>
  \<open>srep\<close> relates reduced elements to integers, \<open>wrep\<close> elements on which only a multiplication may
  follow.
\<close>

locale lazy_field_rep =
  fixes srep wrep :: "'e \<Rightarrow> int \<Rightarrow> bool" and add sub mul :: "'e \<Rightarrow> 'e \<Rightarrow> 'e" and m121665 :: "'e \<Rightarrow> 'e" and p :: int
  assumes add: "srep f a \<Longrightarrow> srep g b \<Longrightarrow> wrep (add f g) (a + b)"
    and sub: "srep f a \<Longrightarrow> srep g b \<Longrightarrow> wrep (sub f g) (a - b)"
    and mul: "wrep f a \<Longrightarrow> wrep g b \<Longrightarrow> srep (mul f g) (a * b)"
    and m121665: "wrep f a \<Longrightarrow> srep (m121665 f) (121665 * a)"
    and weaken: "srep f a \<Longrightarrow> wrep f a"
    and reduce: "srep f a \<Longrightarrow> srep f (a mod p)"
begin

lemma mul_s: "srep f a \<Longrightarrow> srep g b \<Longrightarrow> srep (mul f g) (a * b)"
  by (intro mul weaken)

lemma ladder_double:
  assumes "srep x2 X2" "srep z2 Z2"
    and aa: "aa = mul (add x2 z2) (add x2 z2)" and bb: "bb = mul (sub x2 z2) (sub x2 z2)"
    and E: "E = (X2 + Z2) ^ 2 - (X2 - Z2) ^ 2"
  shows "srep (mul aa bb) (((X2 + Z2) ^ 2 * (X2 - Z2) ^ 2) mod p)"
    "srep (mul (sub aa bb) (add (m121665 (sub aa bb)) aa)) ((E * ((X2 + Z2) ^ 2 + 121665 * E)) mod p)"
proof -
  have A: "srep aa ((X2 + Z2) ^ 2)" unfolding aa power2_eq_square by (intro mul add assms)
  have B: "srep bb ((X2 - Z2) ^ 2)" unfolding bb power2_eq_square by (intro mul sub assms)
  show "srep (mul aa bb) (((X2 + Z2) ^ 2 * (X2 - Z2) ^ 2) mod p)" by (intro reduce mul_s A B)
  have e: "wrep (sub aa bb) E" unfolding E by (rule sub [OF A B])
  have "srep (mul (sub aa bb) (add (m121665 (sub aa bb)) aa)) (E * (121665 * E + (X2 + Z2) ^ 2))"
    by (intro mul e add m121665 A)
  then show "srep (mul (sub aa bb) (add (m121665 (sub aa bb)) aa)) ((E * ((X2 + Z2) ^ 2 + 121665 * E)) mod p)"
    using reduce by (simp only: add.commute [of "(X2 + Z2) ^ 2"])
qed

lemma ladder_add:
  assumes "srep x2 X2" "srep z2 Z2" "srep x3 X3" "srep z3 Z3" "wrep x1 X1"
    and cb: "cb = mul (add x3 z3) (sub x2 z2)" and da: "da = mul (sub x3 z3) (add x2 z2)"
  shows "srep (mul (add cb da) (add cb da)) ((((X3 - Z3) * (X2 + Z2) + (X3 + Z3) * (X2 - Z2)) ^ 2) mod p)"
    "srep (mul (mul (sub cb da) (sub cb da)) x1) ((X1 * ((X3 - Z3) * (X2 + Z2) - (X3 + Z3) * (X2 - Z2)) ^ 2) mod p)"
proof -
  have C: "srep cb ((X3 + Z3) * (X2 - Z2))" unfolding cb by (intro mul add sub assms)
  have D: "srep da ((X3 - Z3) * (X2 + Z2))" unfolding da by (intro mul add sub assms)
  have "srep (mul (add cb da) (add cb da)) (((X3 + Z3) * (X2 - Z2) + (X3 - Z3) * (X2 + Z2)) * ((X3 + Z3) * (X2 - Z2) + (X3 - Z3) * (X2 + Z2)))"
    by (intro mul add C D)
  then show "srep (mul (add cb da) (add cb da)) ((((X3 - Z3) * (X2 + Z2) + (X3 + Z3) * (X2 - Z2)) ^ 2) mod p)"
    using reduce by (simp only: power2_eq_square add.commute)
  have "srep (mul (mul (sub cb da) (sub cb da)) x1)
      (((X3 + Z3) * (X2 - Z2) - (X3 - Z3) * (X2 + Z2)) * ((X3 + Z3) * (X2 - Z2) - (X3 - Z3) * (X2 + Z2)) * X1)"
    by (intro mul weaken sub C D assms)
  also have "((X3 + Z3) * (X2 - Z2) - (X3 - Z3) * (X2 + Z2)) * ((X3 + Z3) * (X2 - Z2) - (X3 - Z3) * (X2 + Z2)) * X1 =
      X1 * ((X3 - Z3) * (X2 + Z2) - (X3 + Z3) * (X2 - Z2)) ^ 2"
    unfolding power2_eq_square by (simp add: algebra_simps)
  finally show "srep (mul (mul (sub cb da) (sub cb da)) x1) ((X1 * ((X3 - Z3) * (X2 + Z2) - (X3 + Z3) * (X2 - Z2)) ^ 2) mod p)"
    by (rule reduce)
qed

end

definition nc_wrep :: "limbs32 \<Rightarrow> int \<Rightarrow> bool" where
  "nc_wrep f a \<longleftrightarrow> wide f \<and> int (dig_val f) mod int p25519 = a mod int p25519"

definition nc_rep :: "limbs32 \<Rightarrow> int \<Rightarrow> bool" where
  "nc_rep f a \<longleftrightarrow> squeezed f \<and> int (dig_val f) mod int p25519 = a mod int p25519"

lemma nc_rep_mult: "nc_wrep f a \<Longrightarrow> nc_wrep g b \<Longrightarrow> nc_rep (nc_mult f g) (a * b)"
  unfolding nc_wrep_def nc_rep_def using nc_mult_val int_mod_eq [OF nc_mult_val(2)]
  by (simp add: mod_mult_cong [of "int (dig_val f)" _ a "int (dig_val g)" b])

interpretation lf: lazy_field_rep nc_rep nc_wrep nc_add nc_sub nc_mult nc_mult121665 "int p25519"
proof
  fix f g :: limbs32 and a b :: int
  show "nc_wrep f a \<Longrightarrow> nc_wrep g b \<Longrightarrow> nc_rep (nc_mult f g) (a * b)" by (rule nc_rep_mult)
  show "nc_rep (nc_mult121665 f) (121665 * a)" if "nc_wrep f a"
    using that nc_mult121665_val [of f] int_mod_eq [OF nc_mult121665_val(2), of f] mod_mult_cong [OF refl, of "int (dig_val f)" "int p25519" a 121665]
    by (simp add: nc_wrep_def nc_rep_def)
  assume f: "nc_rep f a"
  show "nc_wrep f a" "nc_rep f (a mod int p25519)" using f squeezed_wide by (simp_all add: nc_rep_def nc_wrep_def)
  assume g: "nc_rep g b"
  have v: "int (dig_val f) mod int p25519 = a mod int p25519" "int (dig_val g) mod int p25519 = b mod int p25519" "squeezed f" "squeezed g"
    using f g by (simp_all add: nc_rep_def)
  show "nc_wrep (nc_add f g) (a + b)"
    using nc_add_wide [OF v(3,4)] mod_add_cong [OF v(1,2)] by (simp add: nc_wrep_def)
  have "int (dig_val (nc_sub f g)) = int (dig_val f) - int (dig_val g) + int p25519 * 2"
    using nc_sub_wide(2) [OF v(3,4)] by linarith
  then have "int (dig_val (nc_sub f g)) mod int p25519 = (a - b) mod int p25519"
    using mod_diff_cong [OF v(1,2)] by simp
  then show "nc_wrep (nc_sub f g) (a - b)" using nc_sub_wide(1) [OF v(3,4)] by (simp add: nc_wrep_def)
qed

section \<open>The ladder\<close>

lemma nc_rep_length: "nc_rep f a \<Longrightarrow> length f = 32"
  by (simp add: nc_rep_def squeezed_def)

lemma nc_select32_eq:
  assumes "length r = 32" "length s = 32"
  shows "nc_select32 r s (if k then 1 else 0) = (if k then (s, r) else (r, s))"
proof (cases k)
  case True
  then show ?thesis using assms by (auto simp: nc_select32_def Let_def intro!: nth_equalityI simp del: upt_rec_numeral)
next
  case False
  then show ?thesis
    using assms by (auto simp: nc_select32_def Let_def xor.left_commute xor.commute intro!: nth_equalityI simp del: upt_rec_numeral)
qed

lemma nc_select_eq:
  assumes "length (fst r) = 32" "length (snd r) = 32" "length (fst s) = 32" "length (snd s) = 32"
  shows "nc_select r s (if k then 1 else 0) = (if k then (s, r) else (r, s))"
  using nc_select32_eq [OF assms(1,3), of k] nc_select32_eq [OF assms(2,4), of k] by (simp add: nc_select_def)

text \<open>The state of the specification defers the exchange that the code performs at once.\<close>

fun nc_state_rep :: "nc_point \<times> nc_point \<Rightarrow> int \<times> int \<times> int \<times> int \<times> bool \<Rightarrow> bool" where
  "nc_state_rep ((xm, zm), (xm1, zm1)) (X2, Z2, X3, Z3, S) \<longleftrightarrow>
     (if S then nc_rep xm X3 \<and> nc_rep zm Z3 \<and> nc_rep xm1 X2 \<and> nc_rep zm1 Z2
      else nc_rep xm X2 \<and> nc_rep zm Z2 \<and> nc_rep xm1 X3 \<and> nc_rep zm1 Z3)"

lemma nc_step_rep:
  assumes x1: "nc_wrep work X1" and s: "nc_state_rep xz S"
  shows "nc_state_rep (nc_step work (if k then 1 else 0) xz) (rfc_step (int p25519) X1 k S)"
proof -
  obtain xm zm xm1 zm1 where xz: "xz = ((xm, zm), (xm1, zm1))" by (metis surj_pair)
  obtain X2 Z2 X3 Z3 w where S: "S = (X2, Z2, X3, Z3, w)" by (cases S)
  define a2 where "a2 = (if k then xm1 else xm)" define a3 where "a3 = (if k then xm else xm1)"
  define c2 where "c2 = (if k then zm1 else zm)" define c3 where "c3 = (if k then zm else zm1)"
  define A2 where "A2 = (if w \<noteq> k then X3 else X2)" define A3 where "A3 = (if w \<noteq> k then X2 else X3)"
  define C2 where "C2 = (if w \<noteq> k then Z3 else Z2)" define C3 where "C3 = (if w \<noteq> k then Z2 else Z3)"
  have Q: "nc_rep a2 A2" "nc_rep c2 C2" "nc_rep a3 A3" "nc_rep c3 C3"
    using s unfolding xz S by (auto simp: a2_def A2_def a3_def A3_def c2_def C2_def c3_def C3_def split: if_splits)
  have l: "length xm = 32" "length zm = 32" "length xm1 = 32" "length zm1 = 32"
    using s unfolding xz S by (auto dest!: nc_rep_length split: if_splits)
  have sel: "nc_select (xm, zm) (xm1, zm1) (if k then 1 else 0) = ((a2, c2), (a3, c3))"
    using nc_select_eq [of "(xm, zm)" "(xm1, zm1)" k] l by (simp add: a2_def a3_def c2_def c3_def)
  have C: "(if w \<noteq> k then (X3, X2) else (X2, X3)) = (A2, A3)" "(if w \<noteq> k then (Z3, Z2) else (Z2, Z3)) = (C2, C3)"
    by (simp_all add: A2_def A3_def C2_def C3_def)
  define aa where "aa = nc_mult (nc_add a2 c2) (nc_add a2 c2)"
  define bb where "bb = nc_mult (nc_sub a2 c2) (nc_sub a2 c2)"
  define cb where "cb = nc_mult (nc_add a3 c3) (nc_sub a2 c2)"
  define da where "da = nc_mult (nc_sub a3 c3) (nc_add a2 c2)"
  note D = lf.ladder_double [OF Q(1,2) aa_def bb_def refl] and A = lf.ladder_add [OF Q x1 cb_def da_def]
  have ll: "length (nc_mult aa bb) = 32" "length (nc_mult (nc_sub aa bb) (nc_add (nc_mult121665 (nc_sub aa bb)) aa)) = 32"
      "length (nc_mult (nc_add cb da) (nc_add cb da)) = 32" "length (nc_mult (nc_mult (nc_sub cb da) (nc_sub cb da)) work) = 32"
    using D A by (blast dest: nc_rep_length)+
  have "nc_step work (if k then 1 else 0) xz =
      nc_select (nc_mult aa bb, nc_mult (nc_sub aa bb) (nc_add (nc_mult121665 (nc_sub aa bb)) aa))
        (nc_mult (nc_add cb da) (nc_add cb da), nc_mult (nc_mult (nc_sub cb da) (nc_sub cb da)) work) (if k then 1 else 0)"
    unfolding nc_step_def xz prod.case Let_def sel fst_conv snd_conv nc_square_mult aa_def bb_def cb_def da_def ..
  then have st: "nc_step work (if k then 1 else 0) xz =
     (if k then ((nc_mult (nc_add cb da) (nc_add cb da), nc_mult (nc_mult (nc_sub cb da) (nc_sub cb da)) work),
                 (nc_mult aa bb, nc_mult (nc_sub aa bb) (nc_add (nc_mult121665 (nc_sub aa bb)) aa)))
      else ((nc_mult aa bb, nc_mult (nc_sub aa bb) (nc_add (nc_mult121665 (nc_sub aa bb)) aa)),
            (nc_mult (nc_add cb da) (nc_add cb da), nc_mult (nc_mult (nc_sub cb da) (nc_sub cb da)) work)))"
    using nc_select_eq ll by simp
  have "rfc_step (int p25519) X1 k S =
     (((A2 + C2) ^ 2 * (A2 - C2) ^ 2) mod int p25519,
      (((A2 + C2) ^ 2 - (A2 - C2) ^ 2) * ((A2 + C2) ^ 2 + 121665 * ((A2 + C2) ^ 2 - (A2 - C2) ^ 2))) mod int p25519,
      (((A3 - C3) * (A2 + C2) + (A3 + C3) * (A2 - C2)) ^ 2) mod int p25519,
      (X1 * ((A3 - C3) * (A2 + C2) - (A3 + C3) * (A2 - C2)) ^ 2) mod int p25519, k)"
    unfolding rfc_step_def S prod.case Let_def C ..
  then show ?thesis unfolding st using D A by simp
qed

lemma nc_ladder_rep:
  assumes "nc_wrep work X1" "nc_state_rep s S" "\<And>pos. pos \<in> set ps \<Longrightarrow> f pos = (if g pos then 1 else 0)"
  shows "nc_state_rep (fold (\<lambda>pos. nc_step work (f pos)) ps s) (fold (\<lambda>pos. rfc_step (int p25519) X1 (g pos)) ps S)"
  using assms(2,3)
proof (induction ps arbitrary: s S)
  case (Cons pos ps)
  have "nc_state_rep (nc_step work (f pos) s) (rfc_step (int p25519) X1 (g pos) S)"
    using nc_step_rep [OF assms(1) Cons.prems(1), of "g pos"] Cons.prems(2) by simp
  then show ?case using Cons.IH Cons.prems(2) by simp
qed simp

section \<open>Inversion and encoding\<close>

text \<open>\<open>nc_pow z k f\<close>: \<open>f\<close> is the power \<open>k\<close> of \<open>z\<close>.\<close>

definition nc_pow :: "int \<Rightarrow> nat \<Rightarrow> limbs32 \<Rightarrow> bool" where
  "nc_pow z k f \<longleftrightarrow> nc_rep f (z ^ k)"

lemma nc_pow_mult: "nc_pow z a f \<Longrightarrow> nc_pow z b g \<Longrightarrow> nc_pow z (a + b) (nc_mult f g)"
  unfolding nc_pow_def power_add by (rule lf.mul_s)

lemma nc_pow_square: "nc_pow z a f \<Longrightarrow> nc_pow z (2 * a) (nc_square f)"
  using nc_pow_mult [of z a f a f] by (simp add: nc_square_mult mult_2)

lemma nc_pow_sqs: "nc_pow z a f \<Longrightarrow> nc_pow z (2 ^ n * a) (nc_sqs n f)"
  unfolding nc_sqs_def
proof (induction n)
  case (Suc n)
  then show ?case using nc_pow_square [of z "2 ^ n * a"] by (simp add: mult.assoc)
qed simp

lemma nc_pow_cong: "nc_pow z a f \<Longrightarrow> a = b \<Longrightarrow> nc_pow z b f"
  by simp

lemma nc_recip_pow:
  assumes "nc_rep z Z"
  shows "nc_rep (nc_recip z) (Z ^ (2 ^ 255 - 21))"
proof -
  have 1: "nc_pow Z 1 z" using assms by (simp add: nc_pow_def)
  define z2 where "z2 = nc_square z"
  define z9 where "z9 = nc_mult (nc_square (nc_square z2)) z"
  define z11 where "z11 = nc_mult z9 z2"
  define p5 where "p5 = nc_mult (nc_square z11) z9"
  define p10 where "p10 = nc_mult (nc_sqs 5 p5) p5"
  define p20 where "p20 = nc_mult (nc_sqs (2 + 2 * 4) p10) p10"
  define p40 where "p40 = nc_mult (nc_sqs (2 + 2 * 9) p20) p20"
  define p50 where "p50 = nc_mult (nc_sqs (2 + 2 * 4) p40) p10"
  define p100 where "p100 = nc_mult (nc_sqs (2 + 2 * 24) p50) p50"
  define p200 where "p200 = nc_mult (nc_sqs (2 + 2 * 49) p100) p100"
  define p250 where "p250 = nc_mult (nc_sqs (2 + 2 * 24) p200) p50"
  have 2: "nc_pow Z 2 z2" using nc_pow_square [OF 1] by (simp add: z2_def)
  have 9: "nc_pow Z 9 z9" using nc_pow_mult [OF nc_pow_square [OF nc_pow_square [OF 2]] 1] by (simp add: z9_def)
  have 11: "nc_pow Z 11 z11" using nc_pow_mult [OF 9 2] by (simp add: z11_def)
  have 5: "nc_pow Z (2 ^ 5 - 1) p5" using nc_pow_mult [OF nc_pow_square [OF 11] 9] by (simp add: p5_def)
  have step: "nc_pow Z (2 ^ (n + m) - 1) (nc_mult (nc_sqs n f) g)" if "nc_pow Z (2 ^ m - 1) f" "nc_pow Z (2 ^ n - 1) g" for n m f g
  proof -
    have "(2 :: nat) ^ n * (2 ^ m - 1) + (2 ^ n - 1) = 2 ^ (n + m) - 1"
      by (simp add: power_add diff_mult_distrib2)
    then show ?thesis using nc_pow_mult [OF nc_pow_sqs [OF that(1), of n] that(2)] by simp
  qed
  have 10: "nc_pow Z (2 ^ 10 - 1) p10" unfolding p10_def using step [of 5 p5 5 p5] 5 by simp
  have 20: "nc_pow Z (2 ^ 20 - 1) p20" unfolding p20_def using step [of 10 p10 10 p10] 10 by simp
  have 40: "nc_pow Z (2 ^ 40 - 1) p40" unfolding p40_def using step [of 20 p20 20 p20] 20 by simp
  have 50: "nc_pow Z (2 ^ 50 - 1) p50" unfolding p50_def using step [of 40 p40 10 p10] 40 10 by simp
  have 100: "nc_pow Z (2 ^ 100 - 1) p100" unfolding p100_def using step [of 50 p50 50 p50] 50 by simp
  have 200: "nc_pow Z (2 ^ 200 - 1) p200" unfolding p200_def using step [of 100 p100 100 p100] 100 by simp
  have 250: "nc_pow Z (2 ^ 250 - 1) p250" unfolding p250_def using step [of 200 p200 50 p50] 200 50 by simp
  have "nc_recip z = nc_mult (nc_sqs 5 p250) z11"
    unfolding nc_recip_def Let_def p250_def p200_def p100_def p50_def p40_def p20_def p10_def p5_def z11_def z9_def z2_def ..
  moreover have "nc_pow Z (2 ^ 5 * (2 ^ 250 - 1) + 11) (nc_mult (nc_sqs 5 p250) z11)"
    by (rule nc_pow_mult [OF nc_pow_sqs [OF 250] 11])
  moreover have "(2 :: nat) ^ 5 * (2 ^ 250 - 1) + 11 = 2 ^ 255 - 21" by simp
  ultimately show ?thesis by (simp only: nc_pow_def)
qed

lemma nc_minusp_facts: "length nc_minusp = 32" "digits nc_minusp" "dig_val nc_minusp = 2 ^ 255 + 19"
proof -
  have "nc_minusp = (19 # replicate 30 0) @ [128]" by (simp add: nc_minusp_def)
  moreover have "dig_val ((19 # replicate 30 0) @ [128]) = 2 ^ 255 + 19"
    by (subst dig_val_snoc) (simp_all add: dig_val_Cons, simp add: dig_val_def map_replicate)
  ultimately show "dig_val nc_minusp = 2 ^ 255 + 19" by simp
qed (auto simp: nc_minusp_def)

lemma nc_freeze_bytes:
  assumes "squeezed h"
  shows "bytes_val (map (\<lambda>i. ucast (nc_freeze h ! i)) [0..<32]) = dig_val h mod p25519"
proof -
  define g where "g = nc_add h nc_minusp"
  note H = squeezedD(1,3,4) [OF assms]
  note G = nc_add_val [OF H(1) nc_minusp_facts(1) H(2) nc_minusp_facts(2), unfolded nc_minusp_facts(3), folded g_def]
  have g: "g = butlast g @ [g ! 31]" "length (butlast g) = 31"
    using G(1) append_butlast_last_id [of g] last_conv_nth [of g] by (force, simp)
  have gv: "dig_val g = dig_val (butlast g) + 2 ^ 248 * unat (g ! 31)" by (subst g(1)) (rule dig_val_snoc [OF g(2)])
  have bl: "dig_val (butlast g) < 2 ^ 248" by (rule low31_less [OF g(2) G(4)])
  have top: "unat (g ! 31) = dig_val g div 2 ^ 248" using gv bl by simp
  define neg where "neg = - (drop_bit 7 (g ! 31) AND 1)"
  have F: "nc_freeze h = map (\<lambda>j. g ! j XOR (neg AND (h ! j XOR g ! j))) [0..<32]"
    unfolding nc_freeze_def Let_def g_def neg_def ..
  have n: "unat (drop_bit 7 (g ! 31) AND 1) = dig_val g div 2 ^ 248 div 128 mod 2"
    using unat_and_mask_mod [of "drop_bit 7 (g ! 31)" 1] unat_drop_bit_div [of 7 "g ! 31"] top by (simp add: mask_eq_exp_minus_1)
  have byte: "bytes_val (map (\<lambda>i. ucast (x ! i)) [0..<32]) = dig_val x mod 2 ^ 256"
    if "length x = 32" "digits (butlast x)" for x :: "u32 list"
  proof -
    have x: "x = butlast x @ [x ! 31]" "length (butlast x) = 31"
      using that(1) append_butlast_last_id [of x] last_conv_nth [of x] by (force, simp)
    have u: "unat (ucast (y :: u32) :: byte) = unat y mod 256" for y by (simp add: unsigned_ucast_eq take_bit_eq_mod)
    have nb: "butlast x ! i = x ! i" if "i < 31" for i using that x(2) by (metis nth_butlast)
    have "map unat (map (\<lambda>i. ucast (x ! i) :: byte) [0..<32]) = map unat (butlast x) @ [unat (x ! 31) mod 256]"
      (is "?l = ?r")
    proof (rule nth_equalityI)
      fix i assume "i < length ?l"
      then have "i < 31 \<or> i = 31" by auto
      then show "?l ! i = ?r ! i"
        using x(2) that(2) nb nth_mem [of i "butlast x"] by (auto simp: nth_append u simp del: upt_rec_numeral)
    qed (use that(1) in simp)
    then have "bytes_val (map (\<lambda>i. ucast (x ! i)) [0..<32]) = dig_val (butlast x) + 2 ^ 248 * (unat (x ! 31) mod 256)"
      unfolding bytes_val_def dig_val_def using x(2) by (simp add: le_val_append)
    moreover have "dig_val x = dig_val (butlast x) + 2 ^ 248 * unat (x ! 31)" by (subst x(1)) (rule dig_val_snoc [OF x(2)])
    moreover have "dig_val (butlast x) < 2 ^ 248" by (rule low31_less [OF x(2) that(2)])
    ultimately show ?thesis using mod_mult2_eq [of "dig_val x" "2 ^ 248" 256] by simp
  qed
  show ?thesis
  proof (cases "dig_val h < p25519")
    case True
    then have "dig_val g div 2 ^ 248 div 128 = 1"
      unfolding G(3) div_mult2_eq [symmetric] by (intro div_nat_eqI) (simp_all add: p25519_def)
    then have "unat (drop_bit 7 (g ! 31) AND 1) = 1" unfolding n by simp
    then have "neg = - 1" unfolding neg_def by (metis unat_1 word_eqI_nat)
    then have "nc_freeze h = map (\<lambda>j. h ! j) [0..<32]" unfolding F by (simp add: xor.commute xor.left_commute)
    then have "nc_freeze h = h" using map_nth_upt [OF H(1)] by simp
    moreover have "digits (butlast h)" using H(2) by (auto dest: in_set_butlastD)
    ultimately show ?thesis using byte [OF H(1)] True by (simp add: p25519_def)
  next
    case False
    then have e: "dig_val g = (dig_val h - p25519) + 2 ^ 256" unfolding G(3) by (simp add: p25519_def)
    have s: "dig_val h - p25519 < 2 ^ 31" using H(3) by (simp add: p25519_def)
    have "dig_val g div 2 ^ 248 div 128 = 2"
      unfolding div_mult2_eq [symmetric] using e s by (intro div_nat_eqI) simp_all
    then have "unat (drop_bit 7 (g ! 31) AND 1) = 0" unfolding n by simp
    then have "neg = 0" unfolding neg_def by (metis unat_0 word_eqI_nat minus_zero)
    then have "nc_freeze h = map (\<lambda>j. g ! j) [0..<32]" unfolding F by simp
    then have fz: "nc_freeze h = g" using map_nth_upt [OF G(1)] by simp
    have "dig_val h mod p25519 = dig_val h - p25519" using False H(3) by (subst le_mod_geq) (simp_all add: p25519_def)
    moreover have "dig_val g mod 2 ^ 256 = dig_val h - p25519"
      unfolding e mod_add_self2 using s less_trans [OF s, of "2 ^ 256"] by simp
    ultimately show ?thesis unfolding fz using byte [OF G(1) G(4)] by simp
  qed
qed

lemma nacl_scalarmult_result:
  assumes "length n = 32" "length u = 32" "unat (u ! 31) < 128"
  shows "int (bytes_val (nacl_scalarmult n u)) = rfc7748_x25519 (bytes_val n) (bytes_val u)"
proof -
  define work where "work = map (\<lambda>i. ucast (u ! i) :: u32) [0..<32]"
  have work: "work = map ucast u" unfolding work_def using assms(2) by (intro nth_equalityI) (simp_all del: upt_rec_numeral)
  have wv: "dig_val work = bytes_val u" unfolding work by (rule dig_val_ucast)
  have uv: "bytes_val u < 2 ^ 255"
  proof -
    have "u = take 31 u @ [u ! 31]" using assms(2) take_Suc_conv_app_nth [of 31 u] by simp
    then have "bytes_val u = bytes_val (take 31 u) + 2 ^ 248 * unat (u ! 31)"
      using assms(2) bytes_val_append [of "take 31 u" "[u ! 31]"] by (simp add: bytes_val_def)
    moreover have "bytes_val (take 31 u) < 2 ^ 248" using bytes_val_bound [of "take 31 u"] assms(2) by simp
    ultimately show ?thesis using assms(3) by simp
  qed
  let ?X1 = "int (bytes_val u mod 2 ^ 255)"
  have w: "nc_rep work ?X1" using uv assms(2) digits_ucast [of u] unfolding nc_rep_def squeezed_def wv by (simp add: work)
  define s where "s = fold (\<lambda>pos. nc_step work (scalar_bit (clamp_bytes n) pos)) (rev [0..<255])
      ((1 # replicate 31 0, replicate 32 0), (work, 1 # replicate 31 0))"
  define S where "S = fold (\<lambda>t. rfc_step (int p25519) ?X1 (bit (decode_scalar (bytes_val n)) t)) (rev [0..<255]) (1, 0, ?X1, 1, False)"
  have c: "nc_rep (1 # replicate 31 0) 1" "nc_rep (replicate 32 0) 0"
    by (auto simp: nc_rep_def squeezed_def dig_val_def map_replicate)
  have init: "nc_state_rep ((1 # replicate 31 0, replicate 32 0), (work, 1 # replicate 31 0)) (1, 0, ?X1, 1, False)"
    using c w by simp
  have sS: "nc_state_rep s S"
    unfolding s_def S_def by (rule nc_ladder_rep [OF lf.weaken [OF w] init]) (use scalar_bit_clamp [OF assms(1)] in auto)
  obtain xm zm r where s': "s = ((xm, zm), r)" by (metis surj_pair)
  obtain X2 Z2 X3 Z3 b where S': "S = (X2, Z2, X3, Z3, b)" by (cases S)
  define X where "X = (if b then X3 else X2)" define Z where "Z = (if b then Z3 else Z2)"
  have R: "nc_rep xm X" "nc_rep zm Z" using sS unfolding s' S' by (cases r; simp add: X_def Z_def split: if_splits)+
  have out: "nacl_scalarmult n u = map (\<lambda>i. ucast (nc_freeze (nc_mult xm (nc_recip zm)) ! i)) [0..<32]"
    unfolding nacl_scalarmult_def Let_def nc_mainloop_def work_def [symmetric] s_def [symmetric] s' fst_conv prod.case ..
  have spec: "rfc7748_x25519 (bytes_val n) (bytes_val u) = (X * Z ^ nat (int p25519 - 2)) mod int p25519"
    unfolding rfc7748_x25519_def Let_def p25519_int [symmetric] S_def [symmetric] S' prod.case X_def Z_def by simp
  have e: "nat (int p25519 - 2) = 2 ^ 255 - 21" by (simp add: p25519_def)
  have "nc_rep (nc_mult xm (nc_recip zm)) (X * Z ^ (2 ^ 255 - 21))" by (rule lf.mul_s [OF R(1) nc_recip_pow [OF R(2)]])
  then have "squeezed (nc_mult xm (nc_recip zm))" "int (dig_val (nc_mult xm (nc_recip zm))) mod int p25519 = (X * Z ^ (2 ^ 255 - 21)) mod int p25519"
    by (simp_all only: nc_rep_def)
  then show ?thesis unfolding out spec e using nc_freeze_bytes by (simp add: zmod_int)
qed

lemma scalarmult_implementations_eq:
  assumes "length n = 32" "length u = 32" "unat (u ! 31) < 128"
  shows "nacl_scalarmult n u = crypto_scalarmult_curve25519 n u"
proof -
  have "length (nacl_scalarmult n u) = 32" by (simp add: nacl_scalarmult_def Let_def split: prod.splits)
  then show ?thesis
    using nacl_scalarmult_result [OF assms] scalarmult_result [OF assms(1,2)]
      le_val_bytes_inj [of "nacl_scalarmult n u" "crypto_scalarmult_curve25519 n u"] by (simp add: bytes_val_def)
qed

text \<open>
  C22: The NaCl code agrees with dq: on every 32-byte scalar and every point whose unused top bit is
  clear, the 32-digit and the 8-limb ladder write the same 32 bytes, the value of X25519 in RFC 7748.
  (On a point with that bit set the NaCl code does not mask it.)
\<close>

theorem scalarmult_implementations_agree:
  assumes "length n = 32" "length u = 32" "unat (u ! 31) < 128"
  shows "nacl_scalarmult n u = crypto_scalarmult_curve25519 n u \<and>
    int (bytes_val (nacl_scalarmult n u)) = rfc7748_x25519 (bytes_val n) (bytes_val u)"
  using scalarmult_implementations_eq [OF assms] nacl_scalarmult_result [OF assms] ..

theorem scalarmult_implementations_agree_witness:
  "nacl_scalarmult (replicate 32 7) (9 # replicate 31 0) = crypto_scalarmult_curve25519 (replicate 32 7) (9 # replicate 31 0)"
  using scalarmult_implementations_agree [of "replicate 32 7" "9 # replicate 31 0"] by simp

end
