(* ===== verification/Secretbox.thy ===== *)
theory Secretbox
  imports Salsa NaclPoly NaclCurve
begin

section \<open>Authenticated encryption\<close>

text \<open>
  \<open>crypto_secretbox\<close> and \<open>crypto_box\<close> of dq (\<open>crypto/crypto_secretbox_xsalsa20poly1305.c\<close>,
  \<open>crypto/crypto_box_curve25519xsalsa20poly1305.c\<close>) and of the NaCl code that curvedns links
  (\<open>nacl/crypto_secretbox/xsalsa20poly1305/ref/box.c\<close>).  \<open>None\<close> is the return value -1.  The tag
  is stored over the second half of the one-time key it was computed from: both authenticators
  read the whole key before they store.
\<close>

subsection \<open>dq\<close>

definition crypto_secretbox :: "bytes \<Rightarrow> bytes \<Rightarrow> bytes \<Rightarrow> bytes option" where
  "crypto_secretbox m n k =
     (if length m < 32 then None
      else let c = crypto_stream_xsalsa20_xor m n k;
               c = mem_write c 16 (crypto_onetimeauth_poly1305 (drop 32 c) c);
               c = mem_write c 0 (replicate 16 0)
           in Some c)"

definition crypto_secretbox_open :: "bytes \<Rightarrow> bytes \<Rightarrow> bytes \<Rightarrow> bytes option" where
  "crypto_secretbox_open c n k =
     (if length c < 32 then None
      else let subkey = crypto_stream_xsalsa20 32 n k
           in if crypto_onetimeauth_poly1305_verify (mem_read c 16 16) (drop 32 c) subkey \<noteq> 0 then None
              else let m = crypto_stream_xsalsa20_xor c n k in Some (mem_write m 0 (replicate 32 0)))"

definition crypto_box_beforenm :: "bytes \<Rightarrow> bytes \<Rightarrow> bytes" where
  "crypto_box_beforenm pk sk =
     (let s = crypto_scalarmult_curve25519 sk pk in crypto_core_hsalsa20 (replicate 16 0) s sigma)"

definition crypto_box_afternm :: "bytes \<Rightarrow> bytes \<Rightarrow> bytes \<Rightarrow> bytes option" where
  "crypto_box_afternm m n k = crypto_secretbox m n k"

definition crypto_box_open_afternm :: "bytes \<Rightarrow> bytes \<Rightarrow> bytes \<Rightarrow> bytes option" where
  "crypto_box_open_afternm c n k = crypto_secretbox_open c n k"

definition crypto_box :: "bytes \<Rightarrow> bytes \<Rightarrow> bytes \<Rightarrow> bytes \<Rightarrow> bytes option" where
  "crypto_box m n pk sk = crypto_box_afternm m n (crypto_box_beforenm pk sk)"

definition crypto_box_open :: "bytes \<Rightarrow> bytes \<Rightarrow> bytes \<Rightarrow> bytes \<Rightarrow> bytes option" where
  "crypto_box_open c n pk sk = crypto_box_open_afternm c n (crypto_box_beforenm pk sk)"

text \<open>\<open>randombytes\<close> is the argument \<open>rnd\<close>, the bytes it delivers.\<close>

definition crypto_box_keypair :: "(nat \<Rightarrow> bytes) \<Rightarrow> bytes \<times> bytes" where
  "crypto_box_keypair rnd = (let sk = rnd 32 in (crypto_scalarmult_curve25519_base sk, sk))"

subsection \<open>NaCl\<close>

definition nacl_secretbox :: "bytes \<Rightarrow> bytes \<Rightarrow> bytes \<Rightarrow> bytes option" where
  "nacl_secretbox m n k =
     (if length m < 32 then None
      else let c = nacl_stream_xsalsa20_xor m n k;
               c = mem_write c 16 (nacl_onetimeauth (drop 32 c) c);
               c = mem_write c 0 (replicate 16 0)
           in Some c)"

definition nacl_secretbox_open :: "bytes \<Rightarrow> bytes \<Rightarrow> bytes \<Rightarrow> bytes option" where
  "nacl_secretbox_open c n k =
     (if length c < 32 then None
      else let subkey = nacl_stream_xsalsa20 32 n k
           in if nacl_onetimeauth_verify (mem_read c 16 16) (drop 32 c) subkey \<noteq> 0 then None
              else let m = nacl_stream_xsalsa20_xor c n k in Some (mem_write m 0 (replicate 32 0)))"

definition nacl_box_beforenm :: "bytes \<Rightarrow> bytes \<Rightarrow> bytes" where
  "nacl_box_beforenm pk sk = (let s = nacl_scalarmult sk pk in nacl_core_hsalsa20 (replicate 16 0) s sigma)"

definition nacl_box_afternm :: "bytes \<Rightarrow> bytes \<Rightarrow> bytes \<Rightarrow> bytes option" where
  "nacl_box_afternm m n k = nacl_secretbox m n k"

definition nacl_box_open_afternm :: "bytes \<Rightarrow> bytes \<Rightarrow> bytes \<Rightarrow> bytes option" where
  "nacl_box_open_afternm c n k = nacl_secretbox_open c n k"

definition nacl_box :: "bytes \<Rightarrow> bytes \<Rightarrow> bytes \<Rightarrow> bytes \<Rightarrow> bytes option" where
  "nacl_box m n pk sk = nacl_box_afternm m n (nacl_box_beforenm pk sk)"

definition nacl_box_open :: "bytes \<Rightarrow> bytes \<Rightarrow> bytes \<Rightarrow> bytes \<Rightarrow> bytes option" where
  "nacl_box_open c n pk sk = nacl_box_open_afternm c n (nacl_box_beforenm pk sk)"

definition nacl_box_keypair :: "(nat \<Rightarrow> bytes) \<Rightarrow> bytes \<times> bytes" where
  "nacl_box_keypair rnd = (let sk = rnd 32 in (nacl_scalarmult_base sk, sk))"

section \<open>Sealing and opening over any stream and authenticator\<close>

text \<open>
  What \<open>secretbox\<close> relies on: a key stream of which shorter requests are prefixes, encryption by
  exclusive or with it, and an authenticator of 16 bytes that reads 32 bytes of its key.
\<close>

locale stream_and_mac =
  fixes ok :: "bytes \<Rightarrow> bytes \<Rightarrow> bool"
    and stream :: "nat \<Rightarrow> bytes \<Rightarrow> bytes \<Rightarrow> bytes"
    and xor_stream :: "bytes \<Rightarrow> bytes \<Rightarrow> bytes \<Rightarrow> bytes"
    and mac :: "bytes \<Rightarrow> bytes \<Rightarrow> bytes"
  assumes length_stream: "ok n k \<Longrightarrow> length (stream l n k) = l"
    and stream_prefix: "ok n k \<Longrightarrow> l \<le> l' \<Longrightarrow> stream l n k = take l (stream l' n k)"
    and xor_stream_eq: "ok n k \<Longrightarrow> xor_stream m n k = map2 (XOR) m (stream (length m) n k)"
    and length_mac: "32 \<le> length key \<Longrightarrow> length (mac m key) = 16"
    and mac_key: "32 \<le> length key \<Longrightarrow> mac m key = mac m (take 32 key)"
begin

lemma length_xor_stream: "ok n k \<Longrightarrow> length (xor_stream m n k) = length m"
  by (simp add: xor_stream_eq length_stream)

text \<open>The box of a padded message: sixteen zeros, the tag, the encrypted message.\<close>

definition body :: "bytes \<Rightarrow> bytes \<Rightarrow> bytes \<Rightarrow> bytes" where
  "body m n k = map2 (XOR) m (drop 32 (stream (32 + length m) n k))"

lemma length_body: "ok n k \<Longrightarrow> length (body m n k) = length m"
  by (simp add: body_def length_stream)

lemma drop_xor_stream: "ok n k \<Longrightarrow> 32 \<le> length m \<Longrightarrow> drop 32 (xor_stream m n k) = body (drop 32 m) n k"
  by (simp add: xor_stream_eq body_def drop_map drop_zip)

lemma xor_zeros: "length s = l \<Longrightarrow> map2 (XOR) (replicate l 0) (s :: bytes) = s"
  by (induction s arbitrary: l) auto

lemma key_of_padded:
  assumes "ok n k" "32 \<le> length m" "take 32 m = replicate 32 0"
  shows "take 32 (xor_stream m n k) = stream 32 n k"
proof -
  have "take 32 (xor_stream m n k) = map2 (XOR) (take 32 m) (take 32 (stream (length m) n k))"
    unfolding xor_stream_eq [OF assms(1)] take_map take_zip ..
  also have "\<dots> = stream 32 n k"
    unfolding assms(3) stream_prefix [OF assms(1,2), symmetric] by (rule xor_zeros) (rule length_stream [OF assms(1)])
  finally show ?thesis .
qed

lemma sealed_bytes:
  assumes "ok n k" "32 \<le> length m"
  defines "c \<equiv> xor_stream m n k"
  shows "mem_write (mem_write c 16 (mac (drop 32 c) c)) 0 (replicate 16 0) =
    replicate 16 0 @ mac (body (drop 32 m) n k) (take 32 c) @ body (drop 32 m) n k"
proof -
  have l: "length c = length m" unfolding c_def by (rule length_xor_stream [OF assms(1)])
  have lm: "length (mac (drop 32 c) c) = 16" by (rule length_mac) (use l assms(2) in simp)
  have d: "drop 32 c = body (drop 32 m) n k" unfolding c_def by (rule drop_xor_stream [OF assms(1,2)])
  have "mem_write (mem_write c 16 (mac (drop 32 c) c)) 0 (replicate 16 0) = replicate 16 0 @ mac (drop 32 c) c @ drop 32 c"
    using l lm assms(2) by (simp add: mem_write_def)
  then show ?thesis unfolding d using mac_key [of c] l assms(2) by simp
qed

lemma opened_bytes:
  assumes "ok n k" "32 \<le> length c"
  shows "mem_write (xor_stream c n k) 0 (replicate 32 0) = replicate 32 0 @ body (drop 32 c) n k"
  using drop_xor_stream [OF assms] length_xor_stream [OF assms(1), of c] assms(2) by (simp add: mem_write_def)

lemma body_body:
  assumes "ok n k"
  shows "body (body m n k) n k = m"
proof -
  have l: "length m = length (drop 32 (stream (32 + length m) n k))" by (simp add: length_stream [OF assms])
  show ?thesis unfolding body_def [of "body m n k"] length_body [OF assms] unfolding body_def by (rule xor_twice [OF l])
qed

end

section \<open>The two implementations\<close>

lemma bytes_val_inj: "length xs = length ys \<Longrightarrow> bytes_val xs = bytes_val ys \<Longrightarrow> xs = ys"
  unfolding bytes_val_def by (rule le_val_bytes_inj)

lemma macs_agree: "32 \<le> length k \<Longrightarrow> nacl_onetimeauth m k = crypto_onetimeauth_poly1305 m k"
  by (intro bytes_val_inj) (simp_all add: poly1305_val nacl_poly1305_val)

lemma poly1305_spec_key: "poly1305_spec m (take 32 k) = poly1305_spec m k"
  by (simp add: poly1305_spec_def drop_take)

lemma poly1305_key: "32 \<le> length k \<Longrightarrow> crypto_onetimeauth_poly1305 m k = crypto_onetimeauth_poly1305 m (take 32 k)"
  by (intro bytes_val_inj) (simp_all add: poly1305_val poly1305_spec_key)

interpretation dqbox: stream_and_mac "\<lambda>n k. True" crypto_stream_xsalsa20 crypto_stream_xsalsa20_xor crypto_onetimeauth_poly1305
  by unfold_locales (simp_all add: xsalsa20_xor_stream poly1305_val poly1305_key [symmetric] xsalsa20_prefix [symmetric])

interpretation naclbox: stream_and_mac "\<lambda>n k. 24 \<le> length n \<and> 32 \<le> length k" nacl_stream_xsalsa20 nacl_stream_xsalsa20_xor nacl_onetimeauth
  by unfold_locales (simp_all add: nacl_xsalsa20_eq xsalsa20_xor_stream macs_agree poly1305_val poly1305_key [symmetric] xsalsa20_prefix [symmetric])

lemma dq_seal:
  assumes "32 \<le> length m" "take 32 m = replicate 32 0"
  shows "crypto_secretbox m n k = Some (replicate 16 0 @
     crypto_onetimeauth_poly1305 (dqbox.body (drop 32 m) n k) (crypto_stream_xsalsa20 32 n k) @ dqbox.body (drop 32 m) n k)"
  using dqbox.sealed_bytes [OF TrueI assms(1), of n k] dqbox.key_of_padded [OF TrueI assms, of n k] assms(1)
  by (simp add: crypto_secretbox_def Let_def)

lemma dq_open:
  "crypto_secretbox_open c n k =
     (if 32 \<le> length c \<and> mem_read c 16 16 = crypto_onetimeauth_poly1305 (drop 32 c) (crypto_stream_xsalsa20 32 n k)
      then Some (replicate 32 0 @ dqbox.body (drop 32 c) n k) else None)"
proof (cases "32 \<le> length c")
  case True
  have "crypto_onetimeauth_poly1305_verify (mem_read c 16 16) (drop 32 c) (crypto_stream_xsalsa20 32 n k) =
      (if mem_read c 16 16 = crypto_onetimeauth_poly1305 (drop 32 c) (crypto_stream_xsalsa20 32 n k) then 0 else - 1)"
    unfolding crypto_onetimeauth_poly1305_verify_def using True by (intro verify_eq) (simp_all add: poly1305_val)
  then show ?thesis
    using True dqbox.opened_bytes [OF TrueI True, of n k] by (simp add: crypto_secretbox_open_def Let_def)
qed (simp add: crypto_secretbox_open_def)

lemma secretbox_agree:
  assumes "24 \<le> length n" "32 \<le> length k"
  shows "nacl_secretbox m n k = crypto_secretbox m n k \<and> nacl_secretbox_open m n k = crypto_secretbox_open m n k"
proof -
  note E = nacl_xsalsa20_eq [OF assms]
  have "32 \<le> length m \<Longrightarrow> nacl_onetimeauth b (crypto_stream_xsalsa20_xor m n k) = crypto_onetimeauth_poly1305 b (crypto_stream_xsalsa20_xor m n k)" for b
    by (rule macs_agree) simp
  moreover have "nacl_onetimeauth_verify t b (crypto_stream_xsalsa20 32 n k) = crypto_onetimeauth_poly1305_verify t b (crypto_stream_xsalsa20 32 n k)" for t b
    by (simp add: nacl_onetimeauth_verify_def crypto_onetimeauth_poly1305_verify_def macs_agree)
  ultimately show ?thesis
    by (simp add: nacl_secretbox_def crypto_secretbox_def nacl_secretbox_open_def crypto_secretbox_open_def E Let_def)
qed

lemma secretbox_opens:
  assumes "32 \<le> length m" "take 32 m = replicate 32 0"
  shows "\<exists>c. crypto_secretbox m n k = Some c \<and> length c = length m \<and> take 16 c = replicate 16 0 \<and>
    crypto_secretbox_open c n k = Some m"
proof -
  define b where "b = dqbox.body (drop 32 m) n k"
  define t where "t = crypto_onetimeauth_poly1305 b (crypto_stream_xsalsa20 32 n k)"
  have c: "crypto_secretbox m n k = Some (replicate 16 0 @ t @ b)" unfolding t_def b_def by (rule dq_seal [OF assms])
  have l: "length t = 16" "length b = length m - 32" by (simp_all add: t_def b_def poly1305_val dqbox.length_body)
  have r: "drop 32 (replicate 16 0 @ t @ b) = b" "mem_read (replicate 16 0 @ t @ b) 16 16 = t"
    using l by (simp_all add: mem_read_def)
  have "crypto_secretbox_open (replicate 16 0 @ t @ b) n k = Some (replicate 32 0 @ dqbox.body b n k)"
    unfolding dq_open r t_def [symmetric] using l assms(1) by simp
  also have "replicate 32 0 @ dqbox.body b n k = m"
    unfolding b_def dqbox.body_body [OF TrueI] assms(2) [symmetric] by simp
  finally show ?thesis using c l assms(1) by (intro exI [of _ "replicate 16 0 @ t @ b"]) simp
qed

text \<open>
  C23: Both authenticators compute the Poly1305 polynomial: for every message and every key of at
  least 32 bytes the 16 bytes are the little-endian form of the evaluation at the clamped key
  modulo \<open>2 ^ 130 - 5\<close> plus the pad modulo \<open>2 ^ 128\<close>; no intermediate sum wraps around.
\<close>

theorem poly1305_correct:
  assumes "32 \<le> length k"
  shows "length (crypto_onetimeauth_poly1305 m k) = 16 \<and>
    bytes_val (crypto_onetimeauth_poly1305 m k) = poly1305_spec m k \<and>
    nacl_onetimeauth m k = crypto_onetimeauth_poly1305 m k"
  using poly1305_val [OF assms] macs_agree [OF assms] by simp

theorem poly1305_correct_witness:
  "bytes_val (crypto_onetimeauth_poly1305 [1, 2, 3] (replicate 32 7)) = poly1305_spec [1, 2, 3] (replicate 32 7)"
  using poly1305_correct [of "replicate 32 7" "[1, 2, 3]"] by simp

text \<open>
  C25: \<open>crypto_secretbox_open\<close> returns a message exactly when the bytes 16 to 31 of the box are the
  Poly1305 tag of the rest under the first 32 bytes of the key stream; the message is then 32
  zeros followed by the exclusive or with the stream.  A box shorter than 32 bytes or with any
  other tag is refused.
\<close>

theorem secretbox_open_exact:
  "crypto_secretbox_open c n k =
     (if 32 \<le> length c \<and> bytes_val (mem_read c 16 16) = poly1305_spec (drop 32 c) (crypto_stream_xsalsa20 32 n k)
      then Some (replicate 32 0 @ map2 (XOR) (drop 32 c) (drop 32 (crypto_stream_xsalsa20 (length c) n k))) else None)"
proof (cases "32 \<le> length c")
  case True
  have k: "32 \<le> length (crypto_stream_xsalsa20 32 n k)" by simp
  have "mem_read c 16 16 = crypto_onetimeauth_poly1305 (drop 32 c) (crypto_stream_xsalsa20 32 n k) \<longleftrightarrow>
      bytes_val (mem_read c 16 16) = poly1305_spec (drop 32 c) (crypto_stream_xsalsa20 32 n k)"
    using bytes_val_inj [of "mem_read c 16 16"] poly1305_val [OF k] True by (metis add_le_cancel_left length_mem_read numeral_Bit0 numeral_le_iff semiring_norm(69) order.refl)
  then show ?thesis using True by (simp add: dq_open dqbox.body_def)
qed (simp add: dq_open)

text \<open>
  Round trip: a message with the 32 zeros the interface asks for is sealed to a box of the same
  length that starts with 16 zeros, and opening that box gives the message back.
\<close>

theorem secretbox_roundtrip:
  assumes "32 \<le> length m" "take 32 m = replicate 32 0"
  shows "\<exists>c. crypto_secretbox m n k = Some c \<and> length c = length m \<and> take 16 c = replicate 16 0 \<and>
    crypto_secretbox_open c n k = Some m"
  using assms by (rule secretbox_opens)

theorem secretbox_roundtrip_witness:
  "\<exists>c. crypto_secretbox (replicate 32 0 @ [104, 105]) (replicate 24 1) (replicate 32 2) = Some c \<and> length c = 34 \<and>
    take 16 c = replicate 16 0 \<and> crypto_secretbox_open c (replicate 24 1) (replicate 32 2) = Some (replicate 32 0 @ [104, 105])"
  using secretbox_roundtrip [of "replicate 32 0 @ [104, 105]" "replicate 24 1" "replicate 32 2"] by simp

text \<open>
  Interoperation: with a 24-byte nonce and a 32-byte key the box of dq and the box of the NaCl
  code of curvedns are the same bytes, and each opens the boxes of the other with the same result.
\<close>

theorem secretbox_interoperates:
  assumes "24 \<le> length n" "32 \<le> length k"
  shows "nacl_secretbox m n k = crypto_secretbox m n k \<and> nacl_secretbox_open m n k = crypto_secretbox_open m n k"
  using secretbox_agree [OF assms] by simp

theorem secretbox_interoperates_witness:
  "nacl_secretbox (replicate 40 0) (replicate 24 1) (replicate 32 2) = crypto_secretbox (replicate 40 0) (replicate 24 1) (replicate 32 2)"
  using secretbox_interoperates [of "replicate 24 1" "replicate 32 2" "replicate 40 0"] by simp

lemma box_keys_agree:
  assumes "length pk = 32" "length sk = 32" "unat (pk ! 31) < 128"
  shows "nacl_box_beforenm pk sk = crypto_box_beforenm pk sk"
proof -
  have s: "nacl_scalarmult sk pk = crypto_scalarmult_curve25519 sk pk"
    using scalarmult_implementations_eq [OF assms(2,1,3)] .
  have "length (crypto_scalarmult_curve25519 sk pk) = 32" using scalarmult_result [OF assms(2,1)] ..
  then show ?thesis
    unfolding nacl_box_beforenm_def crypto_box_beforenm_def Let_def s by (intro hcore_agree) (simp_all add: sigma_def)
qed

text \<open>
  C21: The two \<open>crypto_box\<close> libraries work together: for a public key with a clear top bit and a
  24-byte nonce they produce and accept the same boxes, and when both ends derive the same shared
  key a message sealed by dq is opened by curvedns to the message itself.
\<close>

theorem box_between_implementations:
  assumes "length n = 24" "length pk = 32" "length sk = 32" "unat (pk ! 31) < 128"
    and "length pk' = 32" "length sk' = 32" "unat (pk' ! 31) < 128"
    and shared: "crypto_box_beforenm pk sk = crypto_box_beforenm pk' sk'"
    and m: "32 \<le> length m" "take 32 m = replicate 32 0"
  shows "nacl_box m n pk sk = crypto_box m n pk sk \<and> nacl_box_open m n pk sk = crypto_box_open m n pk sk \<and>
    Option.bind (crypto_box m n pk sk) (\<lambda>c. nacl_box_open c n pk' sk') = Some m"
proof -
  define k where "k = crypto_box_beforenm pk sk"
  have lk: "32 \<le> length k" unfolding k_def crypto_box_beforenm_def Let_def length_hsalsa ..
  have n: "24 \<le> length n" using assms(1) by simp
  note I = secretbox_agree [OF n lk] and K = box_keys_agree [OF assms(2-4), folded k_def] and K' = box_keys_agree [OF assms(5-7), folded shared k_def]
  obtain c where "crypto_secretbox m n k = Some c" "crypto_secretbox_open c n k = Some m"
    using secretbox_opens [OF m] by blast
  then show ?thesis
    using I by (simp add: nacl_box_def nacl_box_open_def nacl_box_afternm_def nacl_box_open_afternm_def K K'
        crypto_box_def crypto_box_open_def crypto_box_afternm_def crypto_box_open_afternm_def k_def [symmetric])
qed

theorem box_between_implementations_witness:
  "Option.bind (crypto_box (replicate 40 0) (replicate 24 1) basepoint (replicate 32 5))
     (\<lambda>c. nacl_box_open c (replicate 24 1) basepoint (replicate 32 5)) = Some (replicate 40 0)"
  using box_between_implementations [of "replicate 24 1" basepoint "replicate 32 5" basepoint "replicate 32 5" "replicate 40 0"]
  by (simp add: basepoint_def)

end
