(* ===== verification/DnsNonce.thy ===== *)
theory DnsNonce
  imports NumText
begin

section \<open>Nonces\<close>

text \<open>
  The model of \<open>dq/dns_nonce.c\<close> and \<open>dq/randommod.c\<close>.  The clock \<open>nanoseconds\<close> and
  \<open>randombytes\<close> are outside the program: the time of a call is an argument, and \<open>randombytes\<close> is
  a function \<open>rb\<close> that delivers the bytes and the next state of the generator.
\<close>

type_synonym 'r random = "'r \<Rightarrow> nat \<Rightarrow> bytes \<times> 'r"

subsection \<open>Random numbers below a bound\<close>

definition randommod :: "'r random \<Rightarrow> u64 \<Rightarrow> 'r \<Rightarrow> u64 \<times> 'r" where
  "randommod rb n r =
     (if n \<le>s 1 then (0, r)
      else let (b, r) = rb r 32 in (fold (\<lambda>j result. (result * 256 + ucast (b ! j)) mod n) [0..<32] 0, r))"

subsection \<open>The nonce generator\<close>

text \<open>The static variables; \<open>NSS\<close> is 1, so that mask and data are one byte each.\<close>

record nonce_state =
  noncekey :: bytes
  noncecounter :: u64
  noncemask :: byte
  noncedata :: byte

text \<open>The loop over the separation string \<open>ns\<close>, from position \<open>i\<close>; it stops before the first other character.\<close>

function nonce_bits :: "nat \<Rightarrow> bytes \<Rightarrow> byte \<times> byte \<Rightarrow> nat \<times> bytes \<times> byte \<times> byte" where
  "nonce_bits i ns (msk, data) =
     (if i < 8 \<and> (hd0 ns = 48 \<or> hd0 ns = 49)
      then nonce_bits (i + 1) (tl ns) (msk * 2, data * 2 + (hd0 ns - 48))
      else (i, ns, msk, data))"
  by pat_completeness auto
termination
  by (relation "measure (\<lambda>(i, ns, md). 8 - i)") auto

declare nonce_bits.simps [simp del]

primrec nonce_fill :: "nat \<Rightarrow> byte \<times> byte \<Rightarrow> byte \<times> byte" where
  "nonce_fill 0 md = md"
| "nonce_fill (Suc n) md = nonce_fill n (fst md * 2 + 1, snd md * 2)"

definition dns_nonce_init :: "'r random \<Rightarrow> u64 \<Rightarrow> bytes option \<Rightarrow> bytes option \<Rightarrow> nonce_state \<Rightarrow> 'r \<Rightarrow> bool \<times> nonce_state \<times> 'r" where
  "dns_nonce_init rb now ns nk s r =
     (let s = s\<lparr>noncecounter := now\<rparr>;
          (i, rest, msk, data) = nonce_bits 0 (case ns of None \<Rightarrow> [] | Some x \<Rightarrow> x) (0xff, 0)
      in if hd0 rest = 48 \<or> hd0 rest = 49 then (False, s\<lparr>noncemask := msk, noncedata := data\<rparr>, r)
         else let (msk, data) = nonce_fill (8 - i) (msk, data);
                  s = s\<lparr>noncemask := msk, noncedata := data\<rparr>
              in case nk of Some k \<Rightarrow> (True, s\<lparr>noncekey := take 16 k\<rparr>, r)
                 | None \<Rightarrow> (let (k, r) = rb r 16 in (True, s\<lparr>noncekey := k\<rparr>, r)))"

definition tea_round :: "bytes \<Rightarrow> u32 \<Rightarrow> u32 \<times> u32 \<Rightarrow> u32 \<times> u32" where
  "tea_round k tsum v =
     (let (v0, v1) = v;
          k0 = uint32_unpack k; k1 = uint32_unpack (drop 4 k); k2 = uint32_unpack (drop 8 k); k3 = uint32_unpack (drop 12 k);
          v0 = v0 + (((push_bit 4 v1 + k0) XOR (v1 + tsum)) XOR (drop_bit 5 v1 + k1));
          v1 = v1 + (((push_bit 4 v0 + k2) XOR (v0 + tsum)) XOR (drop_bit 5 v0 + k3))
      in (v0, v1))"

primrec tea_rounds :: "nat \<Rightarrow> bytes \<Rightarrow> u32 \<Rightarrow> u32 \<times> u32 \<Rightarrow> u32 \<times> u32" where
  "tea_rounds 0 k tsum v = v"
| "tea_rounds (Suc n) k tsum v = (let tsum = tsum + 0x9e3779b9 in tea_rounds n k tsum (tea_round k tsum v))"

definition dns_nonce_encrypt :: "u64 \<Rightarrow> bytes \<Rightarrow> bytes" where
  "dns_nonce_encrypt inp k =
     (let (v0, v1) = tea_rounds 32 k 0 (ucast inp, ucast (drop_bit 32 inp)) in uint32_pack v0 @ uint32_pack v1)"

text \<open>\<open>now\<close> is the value of the last clock read; \<open>start\<close> the one a first call initialises from.\<close>

definition dns_nonce :: "'r random \<Rightarrow> u64 \<Rightarrow> u64 \<Rightarrow> nonce_state \<Rightarrow> 'r \<Rightarrow> bytes \<times> nonce_state \<times> 'r" where
  "dns_nonce rb start now s r =
     (let (s, r) = (if noncecounter s = 0 then (case dns_nonce_init rb start None None s r of (ok, s, r) \<Rightarrow> (s, r)) else (s, r));
          s = (if now > noncecounter s then s\<lparr>noncecounter := now\<rparr> else s);
          (n, r) = rb r 4;
          n = n[0 := (n ! 0 AND noncemask s) + noncedata s];
          s = s\<lparr>noncecounter := noncecounter s + 1\<rparr>
      in (n @ dns_nonce_encrypt (noncecounter s) (noncekey s), s, r))"

text \<open>A sequence of calls at the given times.\<close>

primrec nonce_run :: "'r random \<Rightarrow> u64 list \<Rightarrow> nonce_state \<Rightarrow> 'r \<Rightarrow> bytes list" where
  "nonce_run rb [] s r = []"
| "nonce_run rb (t # ts) s r = (let (n, s, r) = dns_nonce rb t t s r in n # nonce_run rb ts s r)"

section \<open>Correctness\<close>

lemma tea_round_inj: "tea_round k tsum v = tea_round k tsum w \<Longrightarrow> v = w"
  by (cases v; cases w) (auto simp: tea_round_def Let_def)

lemma tea_rounds_inj: "tea_rounds n k tsum v = tea_rounds n k tsum w \<Longrightarrow> v = w"
proof (induction n arbitrary: tsum v w)
  case (Suc n)
  then show ?case using tea_round_inj by (fastforce simp: Let_def)
qed simp

lemma u64_halves:
  fixes a b :: u64
  assumes "(ucast a :: u32) = ucast b" "(ucast (drop_bit 32 a) :: u32) = ucast (drop_bit 32 b)"
  shows "a = b"
proof (rule bit_word_eqI)
  fix i assume i: "i < LENGTH(64)"
  show "bit a i = bit b i"
  proof (cases "i < 32")
    case True
    then show ?thesis using arg_cong [OF assms(1), of "\<lambda>x. bit x i"] by (simp add: bit_ucast_iff)
  next
    case False
    then have "i - 32 < 32" "32 + (i - 32) = i" using i by auto
    then show ?thesis using arg_cong [OF assms(2), of "\<lambda>x. bit x (i - 32)"] i by (simp add: bit_ucast_iff bit_drop_bit_eq)
  qed
qed

lemma dns_nonce_encrypt_inj: "dns_nonce_encrypt a k = dns_nonce_encrypt b k \<Longrightarrow> a = b"
proof -
  assume e: "dns_nonce_encrypt a k = dns_nonce_encrypt b k"
  obtain a0 a1 where a: "tea_rounds 32 k 0 (ucast a, ucast (drop_bit 32 a)) = (a0, a1)" by fastforce
  obtain b0 b1 where b: "tea_rounds 32 k 0 (ucast b, ucast (drop_bit 32 b)) = (b0, b1)" by fastforce
  have l: "length (uint32_pack x) = 4" for x :: u32 by (simp add: length_packs)
  have "uint32_pack a0 = uint32_pack b0" "uint32_pack a1 = uint32_pack b1"
    using e l unfolding dns_nonce_encrypt_def Let_def a b by simp_all
  then have "a0 = b0" "a1 = b1" by (metis uint32_unpack_pack)+
  then have "(ucast a :: u32, ucast (drop_bit 32 a) :: u32) = (ucast b, ucast (drop_bit 32 b))"
    using tea_rounds_inj a b by metis
  then show "a = b" by (intro u64_halves) simp_all
qed

lemma unat_Suc: "unat (c :: u64) < 2 ^ 64 - 1 \<Longrightarrow> unat (c + 1) = unat c + 1"
  by (subst unat_add_less) simp_all

text \<open>One call after initialisation: the counter grows and the last eight bytes are its encryption.\<close>

lemma dns_nonce_step:
  assumes "noncecounter s \<noteq> 0" "unat (noncecounter s) \<le> m" "unat now \<le> m" "m < 2 ^ 64 - 1"
    "\<And>r n. length (fst (rb r n)) = n"
  obtains n c r' where "dns_nonce rb start now s r = (n, s\<lparr>noncecounter := c\<rparr>, r')"
    "drop 4 n = dns_nonce_encrypt c (noncekey s)" "unat (noncecounter s) < unat c" "unat c \<le> m + 1" "length n = 12" "c \<noteq> 0"
proof -
  define d where "d = max now (noncecounter s)"
  obtain b r' where b: "rb r 4 = (b, r')" by fastforce
  then have lb: "length b = 4" using assms(5) [of r 4] by simp
  have d: "unat (noncecounter s) \<le> unat d" "unat d \<le> m"
    using assms(2,3) by (simp_all add: d_def max_def word_le_nat_alt)
  then have c: "unat (d + 1) = unat d + 1" using assms(4) by (intro unat_Suc) simp
  have st: "(if now > noncecounter s then s\<lparr>noncecounter := now\<rparr> else s) = s\<lparr>noncecounter := d\<rparr>"
    by (cases "now > noncecounter s") (simp_all add: d_def max_def)
  let ?n = "b[0 := (b ! 0 AND noncemask s) + noncedata s] @ dns_nonce_encrypt (d + 1) (noncekey s)"
  have "dns_nonce rb start now s r = (?n, s\<lparr>noncecounter := d + 1\<rparr>, r')"
    unfolding dns_nonce_def Let_def using assms(1) by (simp only: if_False prod.case st b) simp
  moreover have "length (dns_nonce_encrypt x k) = 8" for x k by (simp add: dns_nonce_encrypt_def split: prod.splits)
  moreover have "d + 1 \<noteq> 0" using c by (metis add_is_0 one_neq_zero unat_0)
  ultimately show thesis using lb c d by (intro that [of ?n "d + 1" r']) simp_all
qed

lemma nonce_run_counters:
  assumes "noncecounter s \<noteq> 0" "unat (noncecounter s) \<le> m" "\<forall>t \<in> set ts. unat t \<le> m" "m + length ts < 2 ^ 64 - 1"
    "\<And>r n. length (fst (rb r n)) = n"
  shows "\<exists>cs. map (drop 4) (nonce_run rb ts s r) = map (\<lambda>c. dns_nonce_encrypt c (noncekey s)) cs \<and>
    sorted_wrt (<) cs \<and> (\<forall>c \<in> set cs. noncecounter s < c)"
  using assms(1-4)
proof (induction ts arbitrary: s r m)
  case (Cons t ts)
  have "unat t \<le> m" "m < 2 ^ 64 - 1" using Cons.prems by simp_all
  then obtain n c r' where D: "dns_nonce rb t t s r = (n, s\<lparr>noncecounter := c\<rparr>, r')"
      "drop 4 n = dns_nonce_encrypt c (noncekey s)" "unat (noncecounter s) < unat c" "unat c \<le> m + 1" "c \<noteq> 0"
    using dns_nonce_step [where rb = rb and start = t, OF Cons.prems(1,2) _ _ assms(5)] by metis
  have "\<forall>t \<in> set ts. unat t \<le> m + 1" "m + 1 + length ts < 2 ^ 64 - 1" using Cons.prems by auto
  then obtain cs where cs: "map (drop 4) (nonce_run rb ts (s\<lparr>noncecounter := c\<rparr>) r') = map (\<lambda>c. dns_nonce_encrypt c (noncekey s)) cs"
      "sorted_wrt (<) cs" "\<forall>x \<in> set cs. c < x"
    using Cons.IH [of "s\<lparr>noncecounter := c\<rparr>" "m + 1" r'] D(4,5) by auto
  have "noncecounter s < c" using D(3) by (simp add: word_less_nat_alt)
  then have "sorted_wrt (<) (c # cs)" "\<forall>x \<in> set (c # cs). noncecounter s < x" using cs(2,3) by auto
  moreover have "map (drop 4) (nonce_run rb (t # ts) s r) = map (\<lambda>c. dns_nonce_encrypt c (noncekey s)) (c # cs)"
    using D(1,2) cs(1) by simp
  ultimately show ?case by blast
qed simp

text \<open>
  C26: Nonces do not repeat: from an initialised generator, whatever the clock shows (before the
  year 2262) and whatever \<open>randombytes\<close> delivers, the last eight bytes of the nonces of any run of up to
  \<open>2 ^ 62\<close> calls are pairwise different, because the counter grows with each call and its
  encryption is injective.
\<close>

theorem dns_nonce_distinct:
  assumes "noncecounter s \<noteq> 0" "unat (noncecounter s) \<le> 2 ^ 63" "\<forall>t \<in> set ts. unat t \<le> 2 ^ 63" "length ts \<le> 2 ^ 62"
    and rb: "\<And>r n. length (fst (rb r n)) = n"
  shows "distinct (map (drop 4) (nonce_run rb ts s r))"
proof -
  have "2 ^ 63 + length ts < 2 ^ 64 - 1" using assms(4) by simp
  then obtain cs where "map (drop 4) (nonce_run rb ts s r) = map (\<lambda>c. dns_nonce_encrypt c (noncekey s)) cs" "sorted_wrt (<) cs"
    using nonce_run_counters [where rb = rb, OF assms(1-3) _ rb] by blast
  moreover have "inj_on (\<lambda>c. dns_nonce_encrypt c (noncekey s)) (set cs)" using dns_nonce_encrypt_inj by (intro inj_onI)
  ultimately show ?thesis by (simp add: distinct_map strict_sorted_iff)
qed

theorem dns_nonce_distinct_witness:
  "distinct (map (drop 4) (nonce_run (\<lambda>r n. (replicate n 7, r)) [5, 5, 3] \<lparr>noncekey = replicate 16 1, noncecounter = 4, noncemask = 255, noncedata = 0\<rparr> ()))"
  by (rule dns_nonce_distinct) simp_all

lemma not_sle_one:
  assumes "1 < (n :: u64)" "unat n < 2 ^ 63"
  shows "\<not> n \<le>s 1"
proof -
  have "uint n = int (unat n)" by simp
  also have "\<dots> < 2 ^ 63" using assms(2) by (simp only: of_nat_less_iff [symmetric, where 'a = int]) simp
  finally have "sint n = uint n" unfolding sint_uint by (intro signed_take_bit_int_eq_self) (simp_all add: order_trans [OF _ uint_nonnegative])
  then show ?thesis using assms(1) by (simp add: word_sle_eq word_less_def)
qed

lemma randommod_less: "1 < n \<Longrightarrow> fst (randommod rb n r) < n"
proof -
  assume n: "1 < n"
  have u: "[0..<32] = [0..<31] @ [31 :: nat]" by (simp add: upt_rec)
  have "x mod n < n" for x :: u64 using n by (simp add: word_less_nat_alt unat_mod_distrib unat_gt_0 [symmetric])
  then show ?thesis using n unfolding randommod_def u by (auto simp: word_less_nat_alt split: prod.splits simp del: upt_rec_numeral)
qed

lemma randommod_index:
  assumes "1 < n" "n < 2 ^ 64" "randommod rb (of_nat n) r = (i, r')"
  shows "unat i < n"
proof -
  have u: "unat (of_nat n :: u64) = n" using assms(2) by (simp add: unat_of_nat)
  then have "1 < (of_nat n :: u64)" using assms(1) by (simp add: word_less_nat_alt)
  from randommod_less [OF this, of rb r] show ?thesis using assms(3) u by (simp add: word_less_nat_alt)
qed

text \<open>
  \<open>randommod\<close> delivers a number below its bound, and up to the bound \<open>2 ^ 55\<close> that its comment
  names it is the remainder of the 32 random bytes read as one big-endian number.
\<close>

theorem randommod_value:
  assumes "1 < n" "unat n \<le> 2 ^ 55" "length (fst (rb r 32)) = 32"
  shows "unat (fst (randommod rb n r)) = foldl (\<lambda>v b. 256 * v + unat b) 0 (fst (rb r 32)) mod unat n \<and>
    fst (randommod rb n r) < n"
proof -
  obtain b r' where b: "rb r 32 = (b, r')" by fastforce
  have l: "length b = 32" using assms(3) b by simp
  have n0: "0 < unat n" using assms(1) by (simp add: unat_gt_0 [symmetric] word_less_nat_alt)
  have step: "unat ((v * 256 + ucast x) mod n) = (256 * unat v + unat x) mod unat n" if "v < n" for v :: u64 and x :: byte
  proof -
    have v: "unat v < 2 ^ 55" using that assms(2) by (simp add: word_less_nat_alt)
    have x: "unat (ucast x :: u64) = unat x"
    proof -
      have "unat (ucast x :: u64) = unat x mod 2 ^ 64" by (simp add: unsigned_ucast_eq take_bit_eq_mod)
      also have "\<dots> = unat x" by (intro mod_less less_trans [OF unat_byte_less]) simp
      finally show ?thesis .
    qed
    have "unat (v * 256) = unat v * 256" using v by (subst unat_mult_less) simp_all
    moreover have "unat (v * 256) + unat (ucast x :: u64) < 2 ^ 63 + 256"
      unfolding x calculation by (rule add_strict_mono) (use v in simp_all)
    ultimately have "unat (v * 256 + ucast x) = 256 * unat v + unat x" using x by (subst unat_add_less) simp_all
    then show ?thesis by (simp add: unat_mod_distrib)
  qed
  have "unat (fold (\<lambda>j v. (v * 256 + ucast (b ! j)) mod n) js 0) = foldl (\<lambda>v x. 256 * v + unat x) 0 (map (\<lambda>j. b ! j) js) mod unat n \<and>
      fold (\<lambda>j v. (v * 256 + ucast (b ! j)) mod n) js 0 < n" for js
  proof (induction js rule: rev_induct)
    case (snoc j js)
    let ?v = "fold (\<lambda>j v. (v * 256 + ucast (b ! j)) mod n) js 0"
    have s: "unat ((?v * 256 + ucast (b ! j)) mod n) = (256 * unat ?v + unat (b ! j)) mod unat n" using snoc by (intro step) simp
    have "(256 * (w mod unat n) + y) mod unat n = (256 * w + y) mod unat n" for w y :: nat by (metis mod_add_left_eq mod_mult_right_eq)
    then show ?case using s snoc n0 by (simp add: word_less_nat_alt)
  qed (use n0 in \<open>simp add: word_less_nat_alt\<close>)
  moreover have "map (\<lambda>j. b ! j) [0..<32] = b" by (rule nth_equalityI) (simp_all add: l del: upt_rec_numeral)
  ultimately show ?thesis
    unfolding randommod_def b using not_sle_one [OF assms(1) le_less_trans [OF assms(2)]] by (simp del: upt_rec_numeral)
qed

theorem randommod_value_witness:
  "unat (fst (randommod (\<lambda>r n. (replicate n 3, r)) 7 ())) = foldl (\<lambda>v b. 256 * v + unat b) 0 (replicate 32 (3 :: byte)) mod 7 \<and>
    fst (randommod (\<lambda>r n. (replicate n 3, r)) 7 ()) < 7"
  using randommod_value [of 7 "\<lambda>r n. (replicate n 3, r)" "()"] by simp

end
