(* ===== verification/DnsSort.thy ===== *)
theory DnsSort
  imports DnsNonce "HOL-Library.Multiset"
begin

section \<open>Ordering of server addresses\<close>

text \<open>
  The model of \<open>dq/dns_sortip.c\<close>: arrays of 16-byte addresses and of 33-byte keys are shuffled in
  place and then partitioned by the kind of key.
\<close>

definition swap_bytes :: "nat \<Rightarrow> nat \<Rightarrow> nat \<Rightarrow> bytes \<Rightarrow> bytes" where
  "swap_bytes len x y s =
     (let t = mem_read s x len; s = mem_write s x (mem_read s y len) in mem_write s y t)"

definition v4_prefix :: bytes where
  "v4_prefix = [0, 0, 0, 0, 0, 0, 0, 0, 0, 0, 255, 255]"

text \<open>\<open>byte_isequal(s + i, 12, "\0\0...\377\377")\<close> and the comparison with the zero address.\<close>

definition is_v4 :: "bytes \<Rightarrow> nat \<Rightarrow> bool" where
  "is_v4 s i \<longleftrightarrow> mem_read s i 12 = v4_prefix"

definition is_zero16 :: "bytes \<Rightarrow> nat \<Rightarrow> bool" where
  "is_zero16 s i \<longleftrightarrow> mem_read s i 16 = replicate 16 0"

fun sortip_shuffle :: "'r random \<Rightarrow> nat \<Rightarrow> bytes \<Rightarrow> 'r \<Rightarrow> bytes \<times> 'r" where
  "sortip_shuffle rb n s r =
     (if n > 1
      then let (i, r) = randommod rb (of_nat n) r in sortip_shuffle rb (n - 1) (swap_bytes 16 (16 * unat i) (16 * (n - 1)) s) r
      else (s, r))"

declare sortip_shuffle.simps [simp del]

text \<open>The search for the first address that is not IPv4; \<open>None\<close> when there is none.\<close>

definition first_index :: "(nat \<Rightarrow> bool) \<Rightarrow> nat \<Rightarrow> nat \<Rightarrow> nat option" where
  "first_index P a b = List.find P [a..<b]"

definition dns_sortip :: "'r random \<Rightarrow> bytes \<Rightarrow> int \<Rightarrow> 'r \<Rightarrow> bytes \<times> 'r" where
  "dns_sortip rb s nn r =
     (if nn < 0 then (s, r)
      else let (s, r) = sortip_shuffle rb (nat nn div 16) s r
           in case first_index (\<lambda>i. \<not> is_v4 s (16 * i)) 0 (nat nn div 16) of
                None \<Rightarrow> (s, r)
              | Some i \<Rightarrow> (swap_bytes 16 (16 * i) 0 s, r))"

text \<open>The exchange of two servers with their keys.\<close>

definition swap_pair :: "nat \<Rightarrow> nat \<Rightarrow> bytes \<times> bytes \<Rightarrow> bytes \<times> bytes" where
  "swap_pair i j sk = (swap_bytes 16 (16 * i) (16 * j) (fst sk), swap_bytes 33 (33 * i) (33 * j) (snd sk))"

fun sortipkey_shuffle :: "'r random \<Rightarrow> nat \<Rightarrow> bytes \<times> bytes \<Rightarrow> 'r \<Rightarrow> (bytes \<times> bytes) \<times> 'r" where
  "sortipkey_shuffle rb n sk r =
     (if n > 1
      then let (i, r) = randommod rb (of_nat n) r in sortipkey_shuffle rb (n - 1) (swap_pair (unat i) (n - 1) sk) r
      else (sk, r))"

declare sortipkey_shuffle.simps [simp del]

text \<open>The loop that collects from position \<open>k\<close> on the servers for which \<open>P\<close> holds.\<close>

definition collect :: "(bytes \<times> bytes \<Rightarrow> nat \<Rightarrow> bool) \<Rightarrow> nat \<Rightarrow> nat \<Rightarrow> bytes \<times> bytes \<Rightarrow> (bytes \<times> bytes) \<times> nat" where
  "collect P k n sk =
     fold (\<lambda>i (sk, j). if P sk i then (swap_pair i j sk, j + 1) else (sk, j)) [k..<n] (sk, k)"

text \<open>The loop that brings one address with key kind \<open>c\<close> that is not IPv4 to position \<open>k\<close>.\<close>

definition promote_v6 :: "byte \<Rightarrow> nat \<Rightarrow> nat \<Rightarrow> bytes \<times> bytes \<Rightarrow> bytes \<times> bytes" where
  "promote_v6 c k j sk =
     (case first_index (\<lambda>i. snd sk ! (33 * i) = c \<and> \<not> is_v4 (fst sk) (16 * i)) k j of
        None \<Rightarrow> sk | Some i \<Rightarrow> swap_pair i k sk)"

definition dns_sortipkey :: "'r random \<Rightarrow> bytes \<Rightarrow> bytes \<Rightarrow> nat \<Rightarrow> 'r \<Rightarrow> (bytes \<times> bytes) \<times> 'r" where
  "dns_sortipkey rb s t nn r =
     (let n = nn div 16;
          (sk, r) = sortipkey_shuffle rb n (s, t) r;
          (sk, j) = collect (\<lambda>sk i. snd sk ! (33 * i) = 1) 0 n sk;
          sk = promote_v6 1 0 j sk;
          k = j;
          (sk, j) = collect (\<lambda>sk i. snd sk ! (33 * i) = 2) k n sk;
          sk = promote_v6 2 k j sk;
          k = j;
          (sk, j) = collect (\<lambda>sk i. \<not> is_zero16 (fst sk) (16 * i)) k n sk;
          sk = promote_v6 0 k j sk
      in (sk, r))"

section \<open>Arrays of blocks\<close>

definition list_swap :: "nat \<Rightarrow> nat \<Rightarrow> 'a list \<Rightarrow> 'a list" where
  "list_swap i j xs = xs[i := xs ! j, j := xs ! i]"

lemma length_list_swap [simp]: "length (list_swap i j xs) = length xs"
  by (simp add: list_swap_def)

lemma mset_list_swap: "i < length xs \<Longrightarrow> j < length xs \<Longrightarrow> mset (list_swap i j xs) = mset xs"
  unfolding list_swap_def by (rule mset_swap)

definition blocks :: "nat \<Rightarrow> bytes list \<Rightarrow> bool" where
  "blocks w xs \<longleftrightarrow> (\<forall>x \<in> set xs. length x = w)"

lemma length_blocks: "blocks w xs \<Longrightarrow> length (concat xs) = w * length xs"
  unfolding blocks_def by (induction xs) simp_all

lemma blocks_read:
  assumes "blocks w xs" "i < length xs" "a + n \<le> w"
  shows "mem_read (concat xs @ z) (w * i + a) n = mem_read (xs ! i) a n"
proof -
  have x: "xs = take i xs @ xs ! i # drop (Suc i) xs" using assms(2) by (rule id_take_nth_drop)
  have t: "blocks w (take i xs)" using assms(1) by (auto simp: blocks_def dest: in_set_takeD)
  have l: "length (concat (take i xs)) = w * i" using length_blocks [OF t] assms(2) by simp
  have n: "length (xs ! i) = w" using assms(1,2) by (simp add: blocks_def)
  have "concat xs @ z = concat (take i xs) @ xs ! i @ concat (drop (Suc i) xs) @ z" by (subst x) simp
  then show ?thesis using l n assms(3) by (simp add: mem_read_def)
qed

lemma blocks_write:
  assumes "blocks w xs" "i < length xs" "length b = w"
  shows "mem_write (concat xs @ z) (w * i) b = concat (xs[i := b]) @ z"
proof -
  have x: "xs = take i xs @ xs ! i # drop (Suc i) xs" using assms(2) by (rule id_take_nth_drop)
  have t: "blocks w (take i xs)" using assms(1) by (auto simp: blocks_def dest: in_set_takeD)
  have l: "length (concat (take i xs)) = w * i" using length_blocks [OF t] assms(2) by simp
  have n: "length (xs ! i) = w" using assms(1,2) by (simp add: blocks_def)
  have "concat xs @ z = concat (take i xs) @ xs ! i @ concat (drop (Suc i) xs) @ z" by (subst x) simp
  moreover have "concat (xs[i := b]) @ z = concat (take i xs) @ b @ concat (drop (Suc i) xs) @ z"
    using assms(2) by (simp add: upd_conv_take_nth_drop)
  ultimately show ?thesis using l n assms(3) by (simp add: mem_write_def)
qed

lemma blocks_update: "blocks w xs \<Longrightarrow> length b = w \<Longrightarrow> blocks w (xs[i := b])"
  unfolding blocks_def using set_update_subset_insert [of xs i b] by auto

lemma blocks_swap: "blocks w xs \<Longrightarrow> i < length xs \<Longrightarrow> j < length xs \<Longrightarrow> blocks w (list_swap i j xs)"
  unfolding list_swap_def by (intro blocks_update) (simp_all add: blocks_def)

lemma swap_bytes_blocks:
  assumes "blocks w xs" "i < length xs" "j < length xs"
  shows "swap_bytes w (w * i) (w * j) (concat xs @ z) = concat (list_swap i j xs) @ z"
proof -
  have len: "length (xs ! i) = w" "length (xs ! j) = w" using assms by (simp_all add: blocks_def)
  have r: "mem_read (concat xs @ z) (w * k) w = xs ! k" if "k < length xs" for k
    using blocks_read [OF assms(1) that, of 0 w z] assms(1) that by (simp add: blocks_def mem_read_def)
  show ?thesis
    unfolding swap_bytes_def Let_def r [OF assms(2)] r [OF assms(3)] blocks_write [OF assms(1,2) len(2)] list_swap_def
    by (rule blocks_write) (use blocks_update [OF assms(1) len(2)] assms len in simp_all)
qed

lemma map_list_swap: "i < length xs \<Longrightarrow> j < length xs \<Longrightarrow> map f (list_swap i j xs) = list_swap i j (map f xs)"
  by (simp add: list_swap_def map_update)

lemma nth_list_swap:
  "i < length xs \<Longrightarrow> j < length xs \<Longrightarrow> m < length xs \<Longrightarrow>
   list_swap i j xs ! m = (if m = j then xs ! i else if m = i then xs ! j else xs ! m)"
  by (simp add: list_swap_def nth_list_update)

section \<open>The sorted arrays\<close>

definition v4_server :: "bytes \<times> bytes \<Rightarrow> bool" where
  "v4_server x \<longleftrightarrow> take 12 (fst x) = v4_prefix"

text \<open>The two arrays hold the servers \<open>zs\<close>; \<open>z\<close> and \<open>z'\<close> is what follows them in memory.\<close>

definition servers_in :: "(bytes \<times> bytes) list \<Rightarrow> bytes \<times> bytes \<Rightarrow> bytes \<Rightarrow> bytes \<Rightarrow> bool" where
  "servers_in zs sk z z' \<longleftrightarrow> blocks 16 (map fst zs) \<and> blocks 33 (map snd zs) \<and>
     sk = (concat (map fst zs) @ z, concat (map snd zs) @ z')"

lemma swap_pair_servers:
  assumes "servers_in zs sk z z'" "i < length zs" "j < length zs"
  shows "servers_in (list_swap i j zs) (swap_pair i j sk) z z'"
  using assms swap_bytes_blocks [of 16 "map fst zs" i j z] swap_bytes_blocks [of 33 "map snd zs" i j z']
    blocks_swap [of 16 "map fst zs" i j] blocks_swap [of 33 "map snd zs" i j]
  by (simp add: servers_in_def swap_pair_def map_list_swap)

lemma servers_key:
  assumes "servers_in zs sk z z'" "i < length zs"
  shows "snd sk ! (33 * i) = snd (zs ! i) ! 0"
proof -
  have b: "blocks 33 (map snd zs)" using assms(1) by (simp add: servers_in_def)
  then have l: "length (snd (zs ! i)) = 33" using assms(2) by (simp add: blocks_def)
  have n: "length (concat (map snd zs)) = 33 * length zs" using length_blocks [OF b] by simp
  have "33 * i < length (snd sk)" using n assms by (simp add: servers_in_def)
  then have "snd sk ! (33 * i) = mem_read (snd sk) (33 * i + 0) 1 ! 0"
    by (simp add: mem_read_def)
  also have "\<dots> = mem_read (snd (zs ! i)) 0 1 ! 0"
    using blocks_read [OF b, of i 0 1 z'] assms by (simp add: servers_in_def)
  also have "\<dots> = snd (zs ! i) ! 0" using l by (simp add: mem_read_def)
  finally show ?thesis .
qed

lemma servers_zero:
  assumes "servers_in zs sk z z'" "i < length zs"
  shows "is_zero16 (fst sk) (16 * i) \<longleftrightarrow> fst (zs ! i) = replicate 16 0"
proof -
  have b: "blocks 16 (map fst zs)" using assms(1) by (simp add: servers_in_def)
  then have l: "length (fst (zs ! i)) = 16" using assms(2) by (simp add: blocks_def)
  have "mem_read (fst sk) (16 * i) 16 = fst (zs ! i)"
    using blocks_read [OF b, of i 0 16 z] assms l by (simp add: servers_in_def mem_read_def)
  then show ?thesis by (simp add: is_zero16_def)
qed

lemma collect_servers:
  assumes "servers_in zs sk z z'" "k \<le> length zs"
    and P: "\<And>zs sk i. servers_in zs sk z z' \<Longrightarrow> i < length zs \<Longrightarrow> P sk i \<longleftrightarrow> Q (zs ! i)"
  obtains A B sk' where "collect P k (length zs) sk = (sk', k + length A)" "servers_in (take k zs @ A @ B) sk' z z'"
    "mset (A @ B) = mset (drop k zs)" "list_all Q A" "list_all (\<lambda>x. \<not> Q x) B"
proof -
  let ?f = "\<lambda>i (sk, j). if P sk i then (swap_pair i j sk, j + 1) else (sk, j)"
  have "\<exists>zs' sk' j. fold ?f [k..<m] (sk, k) = (sk', j) \<and> servers_in zs' sk' z z' \<and> mset zs' = mset zs \<and>
      take k zs' = take k zs \<and> k \<le> j \<and> j \<le> m \<and> (\<forall>i. k \<le> i \<and> i < j \<longrightarrow> Q (zs' ! i)) \<and> (\<forall>i. j \<le> i \<and> i < m \<longrightarrow> \<not> Q (zs' ! i))"
    if "k \<le> m" "m \<le> length zs" for m
    using that
  proof (induction m)
    case 0
    then show ?case using assms(1) by auto
  next
    case (Suc m)
    show ?case
    proof (cases "k = Suc m")
      case True
      then show ?thesis using assms(1) by (intro exI [of _ zs] exI [of _ sk] exI [of _ k]) auto
    next
      case False
      then have km: "k \<le> m" "m < length zs" using Suc.prems by simp_all
      then obtain zs' sk' j where IH: "fold ?f [k..<m] (sk, k) = (sk', j)" "servers_in zs' sk' z z'" "mset zs' = mset zs"
          "take k zs' = take k zs" "k \<le> j" "j \<le> m" "\<forall>i. k \<le> i \<and> i < j \<longrightarrow> Q (zs' ! i)" "\<forall>i. j \<le> i \<and> i < m \<longrightarrow> \<not> Q (zs' ! i)"
        using Suc.IH by auto
      have l: "length zs' = length zs" using IH(3) by (metis size_mset)
      have lt: "m < length zs'" "j < length zs'" using l km IH(6) by simp_all
      have st: "fold ?f [k..<Suc m] (sk, k) = (if Q (zs' ! m) then (swap_pair m j sk', j + 1) else (sk', j))"
        using km IH(1) P [OF IH(2) lt(1)] by simp
      show ?thesis
      proof (cases "Q (zs' ! m)")
        case True
        have "take k (list_swap m j zs') = take k zs'"
          using km IH(5) by (simp add: list_swap_def)
        then show ?thesis
          unfolding st using True IH km lt swap_pair_servers [OF IH(2) lt] mset_list_swap [OF lt]
          by (intro exI [of _ "list_swap m j zs'"] exI [of _ "swap_pair m j sk'"] exI [of _ "j + 1"])
             (auto simp: nth_list_swap less_Suc_eq)
      next
        case False
        then show ?thesis
          unfolding st using IH by (intro exI [of _ zs'] exI [of _ sk'] exI [of _ j]) (auto simp: less_Suc_eq)
      qed
    qed
  qed
  from this [OF assms(2) order.refl] obtain zs' sk' j where R: "fold ?f [k..<length zs] (sk, k) = (sk', j)" "servers_in zs' sk' z z'"
      "mset zs' = mset zs" "take k zs' = take k zs" "k \<le> j" "j \<le> length zs"
      "\<forall>i. k \<le> i \<and> i < j \<longrightarrow> Q (zs' ! i)" "\<forall>i. j \<le> i \<and> i < length zs \<longrightarrow> \<not> Q (zs' ! i)" by blast
  have l: "length zs' = length zs" using R(3) by (metis size_mset)
  define A where "A = take (j - k) (drop k zs')"
  define B where "B = drop j zs'"
  have AB: "A @ B = drop k zs'" unfolding A_def B_def using R(5) by (metis append_take_drop_id drop_drop le_add_diff_inverse2)
  have z: "take k zs @ A @ B = zs'" unfolding AB R(4) [symmetric] by simp
  have "mset (take k zs) + mset (A @ B) = mset zs" using R(3) z by (metis mset_append)
  moreover have "mset (take k zs) + mset (drop k zs) = mset zs" by (metis append_take_drop_id mset_append)
  ultimately have m: "mset (A @ B) = mset (drop k zs)" by (metis add_left_cancel)
  have la: "length A = j - k" using R(6) l by (simp add: A_def)
  show thesis
  proof (rule that [of sk' A B])
    show "collect P k (length zs) sk = (sk', k + length A)" using R(1,5) la by (simp add: collect_def)
    show "servers_in (take k zs @ A @ B) sk' z z'" using R(2) z by simp
    show "mset (A @ B) = mset (drop k zs)" by (rule m)
    show "list_all Q A" unfolding list_all_length la using R(5-7) l by (simp add: A_def)
    show "list_all (\<lambda>x. \<not> Q x) B" unfolding list_all_length B_def using R(8) l by simp
  qed
qed

lemma servers_v4:
  assumes "servers_in zs sk z z'" "i < length zs"
  shows "is_v4 (fst sk) (16 * i) \<longleftrightarrow> v4_server (zs ! i)"
proof -
  have b: "blocks 16 (map fst zs)" using assms(1) by (simp add: servers_in_def)
  have "mem_read (fst sk) (16 * i) 12 = take 12 (fst (zs ! i))"
    using blocks_read [OF b, of i 0 12 z] assms by (simp add: servers_in_def mem_read_def)
  then show ?thesis by (simp add: is_v4_def v4_server_def)
qed

lemma promote_servers:
  assumes "servers_in (pre @ A @ B) sk z z'"
  obtains A' where "servers_in (pre @ A' @ B) (promote_v6 c (length pre) (length pre + length A) sk) z z'" "mset A' = mset A"
    "list_all (\<lambda>x. snd x ! 0 = c) A \<longrightarrow> list_all v4_server A' \<or> \<not> v4_server (hd A')"
proof (cases "first_index (\<lambda>i. snd sk ! (33 * i) = c \<and> \<not> is_v4 (fst sk) (16 * i)) (length pre) (length pre + length A)")
  case None
  have "v4_server x" if ax: "list_all (\<lambda>x. snd x ! 0 = c) A" "x \<in> set A" for x
  proof -
    obtain m where m: "m < length A" "x = A ! m" using ax(2) by (metis in_set_conv_nth)
    then have "snd x ! 0 = c" using ax by (simp add: list_all_iff)
    moreover have "(pre @ A @ B) ! (length pre + m) = x" "length pre + m < length (pre @ A @ B)"
      using m by (simp_all add: nth_append)
    moreover have "length pre + m \<in> set [length pre..<length pre + length A]" using m(1) by simp
    then have "\<not> (snd sk ! (33 * (length pre + m)) = c \<and> \<not> is_v4 (fst sk) (16 * (length pre + m)))"
      using None unfolding first_index_def find_None_iff by blast
    ultimately show ?thesis
      using servers_key [OF assms, of "length pre + m"] servers_v4 [OF assms, of "length pre + m"] by argo
  qed
  then show ?thesis using assms None by (intro that [of A]) (simp_all add: promote_v6_def list_all_iff)
next
  case (Some i)
  then have i: "length pre \<le> i" "i < length pre + length A" and v: "\<not> is_v4 (fst sk) (16 * i)"
    unfolding first_index_def find_Some_iff by (auto simp: nth_append)
  then obtain m where m: "i = length pre + m" "m < length A" by (metis le_Suc_ex nat_add_left_cancel_less)
  define A' where "A' = list_swap m 0 A"
  have "A \<noteq> []" using m(2) by auto
  then have "list_swap i (length pre) (pre @ A @ B) = pre @ A' @ B"
    using m by (simp add: A'_def list_swap_def list_update_append nth_append)
  moreover have "servers_in (list_swap i (length pre) (pre @ A @ B)) (swap_pair i (length pre) sk) z z'"
    using i by (intro swap_pair_servers [OF assms]) auto
  moreover have "mset A' = mset A" using m \<open>A \<noteq> []\<close> by (simp add: A'_def mset_list_swap)
  moreover have "hd A' = A ! m"
    using m \<open>A \<noteq> []\<close> nth_list_swap [of m A 0 0] by (simp add: A'_def hd_conv_nth flip: length_0_conv)
  then have "\<not> v4_server (hd A')"
    using v servers_v4 [OF assms, of i] m by (simp add: nth_append)
  ultimately show ?thesis using Some by (intro that [of A']) (simp_all add: promote_v6_def)
qed

lemma sortipkey_shuffle_servers:
  assumes "servers_in zs sk z z'" "n \<le> length zs" "length zs < 2 ^ 64"
  shows "\<exists>zs'. servers_in zs' (fst (sortipkey_shuffle rb n sk r)) z z' \<and> mset zs' = mset zs"
  using assms
proof (induction n arbitrary: zs sk r)
  case 0
  then show ?case by (auto simp: sortipkey_shuffle.simps)
next
  case (Suc n)
  show ?case
  proof (cases "Suc n > 1")
    case True
    obtain i r' where i: "randommod rb (of_nat (Suc n)) r = (i, r')" by fastforce
    have lt: "unat i < length zs" "n < length zs"
      using randommod_index [OF True _ i] Suc.prems(2,3) by simp_all
    have "servers_in (list_swap (unat i) n zs) (swap_pair (unat i) n sk) z z'" by (rule swap_pair_servers [OF Suc.prems(1) lt])
    then obtain zs' where "servers_in zs' (fst (sortipkey_shuffle rb n (swap_pair (unat i) n sk) r')) z z'" "mset zs' = mset (list_swap (unat i) n zs)"
      using Suc.IH [of "list_swap (unat i) n zs" "swap_pair (unat i) n sk" r'] Suc.prems(2,3) by auto
    then show ?thesis using True i lt by (auto simp: sortipkey_shuffle.simps [of rb "Suc n"] mset_list_swap simp del: of_nat_Suc)
  next
    case False
    then show ?thesis using Suc.prems by (auto simp: sortipkey_shuffle.simps)
  qed
qed

lemma list_all_mset: "mset xs = mset ys \<Longrightarrow> list_all Q xs \<longleftrightarrow> list_all Q ys"
  by (metis list_all_iff set_mset_mset)

lemma dns_sortipkey_result:
  assumes "servers_in zs (s, t) z z'" "nn div 16 = length zs" "length zs < 2 ^ 64"
  shows "\<exists>as bs cs ds. servers_in (as @ bs @ cs @ ds) (fst (dns_sortipkey rb s t nn r)) z z' \<and>
     mset (as @ bs @ cs @ ds) = mset zs \<and>
     list_all (\<lambda>x. snd x ! 0 = 1) as \<and> list_all (\<lambda>x. snd x ! 0 = 2) bs \<and>
     list_all (\<lambda>x. snd x ! 0 \<notin> {1, 2} \<and> fst x \<noteq> replicate 16 0) cs \<and>
     list_all (\<lambda>x. snd x ! 0 \<notin> {1, 2} \<and> fst x = replicate 16 0) ds \<and>
     (list_all v4_server as \<or> \<not> v4_server (hd as)) \<and> (list_all v4_server bs \<or> \<not> v4_server (hd bs))"
proof -
  let ?n = "length zs" and ?Q = "\<lambda>c x. snd x ! 0 = (c :: byte)" and ?N = "\<lambda>x. fst x \<noteq> replicate 16 (0 :: byte)"
  obtain sk0 r0 where sh: "sortipkey_shuffle rb ?n (s, t) r = (sk0, r0)" by fastforce
  obtain zs0 where z0: "servers_in zs0 sk0 z z'" "mset zs0 = mset zs"
    using sortipkey_shuffle_servers [OF assms(1) order.refl assms(3), of rb r] by (auto simp: sh)
  have n0: "length zs0 = ?n" using z0(2) by (metis size_mset)
  obtain A B sk1 where c1: "collect (\<lambda>sk i. snd sk ! (33 * i) = 1) 0 ?n sk0 = (sk1, length A)" "servers_in (A @ B) sk1 z z'"
      "mset (A @ B) = mset zs" "list_all (?Q 1) A" "list_all (\<lambda>x. \<not> ?Q 1 x) B"
    by (rule collect_servers [OF z0(1), of 0 "\<lambda>sk i. snd sk ! (33 * i) = 1" "?Q 1"]) (simp_all add: servers_key n0 z0(2))
  have s1: "servers_in ([] @ A @ B) sk1 z z'" using c1(2) by simp
  obtain A' where p1: "servers_in ([] @ A' @ B) (promote_v6 1 (length ([] :: (bytes \<times> bytes) list)) (length ([] :: (bytes \<times> bytes) list) + length A) sk1) z z'" "mset A' = mset A"
      "list_all (?Q 1) A \<longrightarrow> list_all v4_server A' \<or> \<not> v4_server (hd A')"
    by (rule promote_servers [OF s1, of 1])
  define sk2 where "sk2 = promote_v6 1 0 (length A) sk1"
  have lA: "length A' = length A" using p1(2) by (metis size_mset)
  have n2: "length (A' @ B) = ?n" using c1(3) p1(2) by (metis mset_append size_mset)
  have s2: "servers_in (A' @ B) sk2 z z'" using p1(1) by (simp add: sk2_def)
  obtain A2 B2 sk3 where c2: "collect (\<lambda>sk i. snd sk ! (33 * i) = 2) (length A) ?n sk2 = (sk3, length A + length A2)"
      "servers_in (A' @ A2 @ B2) sk3 z z'" "mset (A2 @ B2) = mset B" "list_all (?Q 2) A2" "list_all (\<lambda>x. \<not> ?Q 2 x) B2"
    by (rule collect_servers [OF s2, of "length A" "\<lambda>sk i. snd sk ! (33 * i) = 2" "?Q 2", unfolded n2])
       (use n2 lA in \<open>simp_all add: servers_key\<close>)
  obtain A2' where p2: "servers_in (A' @ A2' @ B2) (promote_v6 2 (length A') (length A' + length A2) sk3) z z'" "mset A2' = mset A2"
      "list_all (?Q 2) A2 \<longrightarrow> list_all v4_server A2' \<or> \<not> v4_server (hd A2')"
    by (rule promote_servers [OF c2(2), of 2])
  define sk4 where "sk4 = promote_v6 2 (length A) (length A + length A2) sk3"
  have lA2: "length A2' = length A2" using p2(2) by (metis size_mset)
  have n4: "length (A' @ A2' @ B2) = ?n" using n2 c2(3) p2(2) by (metis mset_append size_mset length_append)
  have s4: "servers_in (A' @ A2' @ B2) sk4 z z'" using p2(1) by (simp add: sk4_def lA)
  obtain C D sk5 where c3: "collect (\<lambda>sk i. \<not> is_zero16 (fst sk) (16 * i)) (length A + length A2) ?n sk4 = (sk5, length A + length A2 + length C)"
      "servers_in ((A' @ A2') @ C @ D) sk5 z z'" "mset (C @ D) = mset B2" "list_all ?N C" "list_all (\<lambda>x. \<not> ?N x) D"
    by (rule collect_servers [OF s4, of "length A + length A2" "\<lambda>sk i. \<not> is_zero16 (fst sk) (16 * i)" ?N, unfolded n4])
       (use n4 lA lA2 in \<open>simp_all add: servers_zero\<close>)
  obtain C' where p3: "servers_in ((A' @ A2') @ C' @ D) (promote_v6 0 (length (A' @ A2')) (length (A' @ A2') + length C) sk5) z z'" "mset C' = mset C"
    by (rule promote_servers [OF c3(2), of 0])
  have r: "fst (dns_sortipkey rb s t nn r) = promote_v6 0 (length A + length A2) (length A + length A2 + length C) sk5"
    unfolding dns_sortipkey_def assms(2) Let_def by (simp add: sh c1(1) c2(1) [unfolded sk2_def] c3(1) [unfolded sk4_def])
  have B2: "list_all (\<lambda>x. snd x ! 0 \<notin> {1, 2}) B2"
    using c1(5) c2(5) list_all_mset [OF c2(3), of "\<lambda>x. \<not> ?Q 1 x"] by (simp add: list_all_iff)
  have CD: "list_all (\<lambda>x. snd x ! 0 \<notin> {1, 2}) (C @ D)" using B2 list_all_mset [OF c3(3), of "\<lambda>x. snd x ! 0 \<notin> {1, 2}"] by simp
  have "mset (A' @ A2' @ C' @ D) = mset zs"
    unfolding c1(3) [symmetric] using p1(2) p2(2) p3(2) c2(3) c3(3) by (simp add: add.assoc)
  moreover have "list_all (?Q 1) A'" using c1(4) list_all_mset [OF p1(2), of "?Q 1"] by simp
  moreover have "list_all (?Q 2) A2'" using c2(4) list_all_mset [OF p2(2), of "?Q 2"] by simp
  moreover have "list_all (\<lambda>x. snd x ! 0 \<notin> {1, 2} \<and> ?N x) C'"
    unfolding list_all_mset [OF p3(2)] using CD c3(4) by (simp add: list_all_iff)
  moreover have "list_all (\<lambda>x. snd x ! 0 \<notin> {1, 2} \<and> fst x = replicate 16 0) D" using CD c3(5) by (simp add: list_all_iff)
  moreover have "servers_in (A' @ A2' @ C' @ D) (fst (dns_sortipkey rb s t nn r)) z z'" using p3(1) by (simp add: r lA lA2)
  ultimately show ?thesis using p1(3) [rule_format, OF c1(4)] p2(3) [rule_format, OF c2(4)] by blast
qed

text \<open>The same for \<open>dns_sortip\<close>, which has no keys.\<close>

lemma sortip_shuffle_blocks:
  assumes "blocks 16 xs" "n \<le> length xs" "length xs < 2 ^ 64"
  shows "\<exists>ys. fst (sortip_shuffle rb n (concat xs @ z) r) = concat ys @ z \<and> blocks 16 ys \<and> mset ys = mset xs"
  using assms
proof (induction n arbitrary: xs r)
  case 0
  then show ?case by (auto simp: sortip_shuffle.simps)
next
  case (Suc n)
  show ?case
  proof (cases "Suc n > 1")
    case True
    obtain i r' where i: "randommod rb (of_nat (Suc n)) r = (i, r')" by fastforce
    have lt: "unat i < length xs" "n < length xs"
      using randommod_index [OF True _ i] Suc.prems(2,3) by simp_all
    have "\<exists>ys. fst (sortip_shuffle rb n (concat (list_swap (unat i) n xs) @ z) r') = concat ys @ z \<and> blocks 16 ys \<and>
        mset ys = mset (list_swap (unat i) n xs)"
      using Suc.prems lt by (intro Suc.IH blocks_swap) simp_all
    then show ?thesis
      using True i lt swap_bytes_blocks [OF Suc.prems(1) lt, of z]
      by (auto simp: sortip_shuffle.simps [of rb "Suc n"] mset_list_swap simp del: of_nat_Suc)
  next
    case False
    then show ?thesis using Suc.prems by (auto simp: sortip_shuffle.simps)
  qed
qed

lemma blocks_v4: "blocks 16 xs \<Longrightarrow> i < length xs \<Longrightarrow> is_v4 (concat xs @ z) (16 * i) \<longleftrightarrow> take 12 (xs ! i) = v4_prefix"
  using blocks_read [of 16 xs i 0 12 z] by (simp add: is_v4_def mem_read_def)

lemma dns_sortip_result:
  assumes "blocks 16 xs" "nat nn div 16 = length xs" "0 \<le> nn" "length xs < 2 ^ 64"
  shows "\<exists>ys. fst (dns_sortip rb (concat xs @ z) nn r) = concat ys @ z \<and> mset ys = mset xs \<and>
     (list_all (\<lambda>y. take 12 y = v4_prefix) ys \<or> take 12 (hd ys) \<noteq> v4_prefix)"
proof -
  obtain s r' where sh: "sortip_shuffle rb (length xs) (concat xs @ z) r = (s, r')" by fastforce
  then obtain ys where ys: "s = concat ys @ z" "blocks 16 ys" "mset ys = mset xs"
    using sortip_shuffle_blocks [OF assms(1) order.refl assms(4), of rb z r] by auto
  have n: "length ys = length xs" using ys(3) by (metis size_mset)
  show ?thesis
  proof (cases "first_index (\<lambda>i. \<not> is_v4 s (16 * i)) 0 (length ys)")
    case None
    then have "list_all (\<lambda>y. take 12 y = v4_prefix) ys"
      using blocks_v4 [OF ys(2), of _ z] ys(1) by (auto simp: list_all_length first_index_def find_None_iff)
    then show ?thesis using assms(2,3) sh None ys n by (auto simp: dns_sortip_def)
  next
    case (Some i)
    then have i: "i < length ys" "\<not> is_v4 s (16 * i)" by (auto simp: first_index_def find_Some_iff)
    then have l: "0 < length ys" by linarith
    have "take 12 (hd (list_swap i 0 ys)) \<noteq> v4_prefix"
      using i blocks_v4 [OF ys(2) i(1), of z] nth_list_swap [OF i(1) l l] l ys(1)
      by (simp add: hd_conv_nth flip: length_0_conv)
    moreover have "mset (list_swap i 0 ys) = mset xs" using mset_list_swap [OF i(1) l] ys(3) by simp
    moreover have "fst (dns_sortip rb (concat xs @ z) nn r) = concat (list_swap i 0 ys) @ z"
      using assms(2,3) sh Some n swap_bytes_blocks [OF ys(2) i(1) l, of z] ys(1) by (simp add: dns_sortip_def)
    ultimately show ?thesis by blast
  qed
qed

text \<open>
  C27: \<open>dns_sortipkey\<close> keeps each server with its key and orders the servers by the kind of the
  key: first those with a streamlined key, then those with a TXT-format key, then the other servers with an
  address, then those without. In the first two groups the first address is not IPv4, unless all
  are.
\<close>

theorem dns_sortipkey_sorted:
  assumes "servers_in zs (s, t) z z'" "nn div 16 = length zs" "length zs < 2 ^ 64"
  shows "\<exists>as bs cs ds. servers_in (as @ bs @ cs @ ds) (fst (dns_sortipkey rb s t nn r)) z z' \<and>
     mset (as @ bs @ cs @ ds) = mset zs \<and>
     list_all (\<lambda>x. snd x ! 0 = 1) as \<and> list_all (\<lambda>x. snd x ! 0 = 2) bs \<and>
     list_all (\<lambda>x. snd x ! 0 \<notin> {1, 2} \<and> fst x \<noteq> replicate 16 0) cs \<and>
     list_all (\<lambda>x. snd x ! 0 \<notin> {1, 2} \<and> fst x = replicate 16 0) ds \<and>
     (list_all v4_server as \<or> \<not> v4_server (hd as)) \<and> (list_all v4_server bs \<or> \<not> v4_server (hd bs))"
  by (rule dns_sortipkey_result [OF assms])

theorem dns_sortipkey_sorted_witness:
  "\<exists>as bs cs ds. servers_in (as @ bs @ cs @ ds)
       (fst (dns_sortipkey (\<lambda>r n. (replicate n 3, r)) (replicate 16 0 @ replicate 16 1) (replicate 33 0 @ replicate 33 2) 32 ())) [] [] \<and>
     mset (as @ bs @ cs @ ds) = {#(replicate 16 0, replicate 33 0), (replicate 16 1, replicate 33 2)#} \<and>
     list_all (\<lambda>x. snd x ! 0 = 1) as \<and> list_all (\<lambda>x. snd x ! 0 = 2) bs"
proof -
  have "servers_in [(replicate 16 0, replicate 33 0), (replicate 16 1, replicate 33 2)]
      (replicate 16 0 @ replicate 16 1, replicate 33 0 @ replicate 33 2) [] []"
    by (simp add: servers_in_def blocks_def)
  from dns_sortipkey_sorted [OF this, of 32 "\<lambda>r n. (replicate n 3, r)" "()"] show ?thesis by simp blast
qed

end
