(* ===== verification/DnsQuery.thy ===== *)
theory DnsQuery
  imports DnsNonce Base32 DnsPacket Secretbox
begin

section \<open>Queries and answers of a transmission\<close>

text \<open>
  The model of the first half of \<open>dq/dns_transmit.c\<close>: building the three forms of a query
  (regular, streamlined DNSCurve and DNSCurve in a TXT question), decoding the answer, and the tests
  that decide whether an answer is accepted.  The state machine that sends and receives is in
  \<open>DnsTransmit\<close>.  The operating system is a parameter: its calls are the fields of \<open>os\<close>, functions
  on an abstract world that also holds \<open>errno\<close>.  A load or store outside an object is \<open>None\<close>.
\<close>

subsection \<open>The operating system\<close>

text \<open>The values of \<open>errno\<close> that the code sets or tests.\<close>

datatype errno = EIO | ETIMEDOUT | EAGAIN | EPROTONOSUPPORT | EINPROGRESS | EWOULDBLOCK | Eother nat

record 'w os =
  os_random :: "'w \<Rightarrow> nat \<Rightarrow> bytes \<times> 'w"
  os_nanoseconds :: "'w \<Rightarrow> u64 \<times> 'w"
  os_milliseconds :: "'w \<Rightarrow> int \<times> 'w"
  os_alloc :: "'w \<Rightarrow> nat \<Rightarrow> bytes option \<times> 'w"
  os_errno :: "'w \<Rightarrow> errno"
  os_set_errno :: "errno \<Rightarrow> 'w \<Rightarrow> 'w"
  os_udp :: "'w \<Rightarrow> nat \<Rightarrow> int \<times> 'w"
  os_tcp :: "'w \<Rightarrow> nat \<Rightarrow> int \<times> 'w"
  os_bind :: "'w \<Rightarrow> int \<Rightarrow> nat \<Rightarrow> bytes \<Rightarrow> bytes \<Rightarrow> int \<Rightarrow> int \<times> 'w"
  os_send :: "'w \<Rightarrow> int \<Rightarrow> nat \<Rightarrow> bytes \<Rightarrow> bytes \<Rightarrow> bytes \<Rightarrow> int \<Rightarrow> int \<times> 'w"
  os_connect :: "'w \<Rightarrow> int \<Rightarrow> nat \<Rightarrow> bytes \<Rightarrow> bytes \<Rightarrow> int \<Rightarrow> int \<times> 'w"
  os_connected :: "'w \<Rightarrow> int \<Rightarrow> bool \<times> 'w"
  os_recv :: "'w \<Rightarrow> int \<Rightarrow> nat \<Rightarrow> nat \<Rightarrow> bytes option \<times> 'w"
  os_write :: "'w \<Rightarrow> int \<Rightarrow> bytes \<Rightarrow> int \<times> 'w"
  os_read :: "'w \<Rightarrow> int \<Rightarrow> nat \<Rightarrow> bytes option \<times> 'w"
  os_close :: "'w \<Rightarrow> int \<Rightarrow> 'w"

text \<open>The world together with the global variables of the program: \<open>magicq\<close>, \<open>magicr\<close> and the nonce generator.\<close>

record 'w system =
  magicq :: bytes
  magicr :: bytes
  nonces :: nonce_state
  world :: 'w

text \<open>\<open>dns_transmit_magic\<close>: a string argument is \<open>None\<close> for a null pointer.\<close>

definition dns_transmit_magic :: "bytes option \<Rightarrow> bytes option \<Rightarrow> 'w system \<Rightarrow> 'w system" where
  "dns_transmit_magic mq mr y =
     (let y = (case mq of None \<Rightarrow> y | Some m \<Rightarrow> if length m = 8 then y\<lparr>magicq := m\<rparr> else y)
      in case mr of None \<Rightarrow> y | Some m \<Rightarrow> if length m = 8 then y\<lparr>magicr := m\<rparr> else y)"

subsection \<open>The state of a transmission\<close>

text \<open>
  The pointer \<open>d->name\<close> leads to the name of the caller or, after \<open>d->name = d->query + 14\<close>, into the
  query buffer itself, where later stores change what it points to.
\<close>

datatype name_ptr = Outside bytes | Inside nat

record dns_transmit =
  d_query :: "bytes option"
  d_querylen :: nat
  d_packet :: "bytes option"
  d_packetlen :: nat
  d_s1 :: int
  d_s1type :: nat
  d_tcpstate :: nat
  d_udploop :: nat
  d_curserver :: nat
  d_deadline :: int
  d_pos :: nat
  d_servers :: bytes
  d_localip :: bytes
  d_qtype :: bytes
  d_port :: bytes
  d_scope_id :: int
  d_paddinglen :: nat
  d_id :: bytes
  d_nonce :: bytes
  d_keys :: "bytes option"
  d_pk :: bytes
  d_suffix :: bytes
  d_name :: name_ptr
  d_flagrecursive :: bool
  d_flagipv4only :: bool

text \<open>The macros \<open>DNS_HASKEY\<close> and \<open>DNS_ISTXT\<close>, and the bytes that \<open>DNS_KEYPTR\<close> points to.\<close>

definition key_byte :: "dns_transmit \<Rightarrow> byte option" where
  "key_byte d = (case d_keys d of None \<Rightarrow> Some 0 | Some k \<Rightarrow> ld k (33 * d_curserver d))"

definition key_bytes :: "dns_transmit \<Rightarrow> bytes" where
  "key_bytes d = (case d_keys d of None \<Rightarrow> [] | Some k \<Rightarrow> mem_read k (33 * d_curserver d + 1) 32)"

subsection \<open>Stores into the query buffer\<close>

definition wr :: "bytes \<Rightarrow> nat \<Rightarrow> bytes \<Rightarrow> bytes option" where
  "wr q p b = (if p + length b \<le> length q then Some (mem_write q p b) else None)"

definition rd :: "bytes \<Rightarrow> nat \<Rightarrow> nat \<Rightarrow> bytes option" where
  "rd q p n = (if p + n \<le> length q then Some (mem_read q p n) else None)"

text \<open>A read of the 32 bytes at \<open>DNS_KEYPTR\<close>.\<close>

definition key_ptr :: "dns_transmit \<Rightarrow> bytes option" where
  "key_ptr d = (case d_keys d of None \<Rightarrow> None | Some k \<Rightarrow> rd k (33 * d_curserver d + 1) 32)"

lemma key_ptr_Some: "length (key_bytes d) = 32 \<Longrightarrow> key_ptr d = Some (key_bytes d)"
  by (auto simp: key_ptr_def key_bytes_def rd_def mem_read_def split: option.splits)

lemma key_ptr_SomeD: "key_ptr d = Some k \<Longrightarrow> k = key_bytes d \<and> length k = 32"
  by (auto simp: key_ptr_def key_bytes_def rd_def split: option.splits if_splits)

text \<open>\<open>byte_copy\<close> within one buffer, byte by byte from the first: source and target may overlap.\<close>

primrec copy_within :: "bytes \<Rightarrow> nat \<Rightarrow> nat \<Rightarrow> nat \<Rightarrow> bytes option" where
  "copy_within q dst 0 src = Some q"
| "copy_within q dst (Suc n) src = do { v \<leftarrow> ld q src; q \<leftarrow> st q dst v; copy_within q (dst + 1) n (src + 1) }"

definition name_bytes :: "name_ptr \<Rightarrow> bytes \<Rightarrow> bytes" where
  "name_bytes p q = (case p of Outside b \<Rightarrow> b | Inside k \<Rightarrow> drop k q)"

definition copy_name :: "bytes \<Rightarrow> nat \<Rightarrow> nat \<Rightarrow> name_ptr \<Rightarrow> bytes option" where
  "copy_name q dst n p =
     (case p of Outside b \<Rightarrow> if n \<le> length b then wr q dst (take n b) else None | Inside k \<Rightarrow> copy_within q dst n k)"

definition name_at_ptr :: "dns_transmit \<Rightarrow> bytes option" where
  "name_at_ptr d = (case d_name d of Outside b \<Rightarrow> Some b | Inside k \<Rightarrow> map_option (drop k) (d_query d))"

definition name_length :: "dns_transmit \<Rightarrow> nat option" where
  "name_length d = do { x \<leftarrow> name_at_ptr d; dns_domain_length x }"

subsection \<open>Queries\<close>

definition query_header :: "bool \<Rightarrow> bytes" where
  "query_header rec = (if rec then [1, 0, 0, 1, 0, 0, 0, 0, 0, 0] else [0, 0, 0, 1, 0, 0, 0, 0, 0, 0])"

text \<open>\<open>basequery(d, q + p)\<close>.\<close>

definition basequery :: "dns_transmit \<Rightarrow> bytes \<Rightarrow> nat \<Rightarrow> bytes option" where
  "basequery d q p =
     do { len \<leftarrow> dns_domain_length (name_bytes (d_name d) q);
          q \<leftarrow> wr q p (d_id d);
          q \<leftarrow> wr q (p + 2) (query_header (d_flagrecursive d));
          q \<leftarrow> copy_name q (p + 12) len (d_name d);
          q \<leftarrow> wr q (p + 12 + len) (d_qtype d);
          q \<leftarrow> wr q (p + 14 + len) [0, 1];
          if d_paddinglen d > 0
          then do { q \<leftarrow> wr q (p + 16 + len) (replicate (d_paddinglen d) 0);
                    wr q (p + 16 + len + d_paddinglen d - 1) [0x80] }
          else Some q }"

definition sys_random :: "'w os \<Rightarrow> nat \<Rightarrow> 'w system \<Rightarrow> bytes \<times> 'w system" where
  "sys_random os n y = (let (b, w) = os_random os (world y) n in (b, y\<lparr>world := w\<rparr>))"

text \<open>\<open>dns_nonce\<close> with its clock reads: the first one only happens before the generator is initialised.\<close>

definition sys_nonce :: "'w os \<Rightarrow> 'w system \<Rightarrow> bytes \<times> 'w system" where
  "sys_nonce os y =
     (let (start, w) = (if noncecounter (nonces y) = 0 then os_nanoseconds os (world y) else (0, world y));
          (now, w) = os_nanoseconds os w;
          (n, s, w) = dns_nonce (os_random os) start now (nonces y) w
      in (n, y\<lparr>nonces := s, world := w\<rparr>))"

definition regularquery :: "'w os \<Rightarrow> dns_transmit \<Rightarrow> 'w system \<Rightarrow> (dns_transmit \<times> 'w system) option" where
  "regularquery os d y =
     do { let d = d\<lparr>d_paddinglen := 0\<rparr>;
          q \<leftarrow> d_query d;
          n \<leftarrow> name_length d;
          let len = n + d_paddinglen d;
          let d = d\<lparr>d_querylen := len + 18\<rparr>;
          q \<leftarrow> wr q 0 (uint16_pack_big (of_nat (d_querylen d - 2)));
          let (b, y) = sys_random os 2 y;
          let d = d\<lparr>d_id := b\<rparr>;
          q \<leftarrow> basequery d q 2;
          Some (d\<lparr>d_query := Some q, d_name := Inside 14\<rparr>, y) }"

text \<open>\<open>crypto_box_afternm\<close> in place on \<open>n\<close> bytes at \<open>p\<close>; its result is ignored by the callers.\<close>

definition box_in_place :: "bytes \<Rightarrow> nat \<Rightarrow> nat \<Rightarrow> bytes \<Rightarrow> bytes \<Rightarrow> bytes option" where
  "box_in_place q p n non k =
     do { m \<leftarrow> rd q p n; case crypto_box_afternm m non k of None \<Rightarrow> Some q | Some c \<Rightarrow> wr q p c }"

definition streamlinedquery :: "'w os \<Rightarrow> dns_transmit \<Rightarrow> 'w system \<Rightarrow> (dns_transmit \<times> 'w system) option" where
  "streamlinedquery os d y =
     do { q \<leftarrow> d_query d;
          n \<leftarrow> name_length d;
          let (i, w) = randommod (os_random os) 2 (world y);
          let y = y\<lparr>world := w\<rparr>;
          let d = d\<lparr>d_paddinglen := (2 + unat i) * 64 - (n + 16) mod 64\<rparr>;
          let len = n + d_paddinglen d;
          let d = d\<lparr>d_querylen := len + 86\<rparr>;
          let (b, y) = sys_nonce os y;
          let d = d\<lparr>d_nonce := b\<rparr>;
          let non = take 12 b @ replicate 12 0;
          q \<leftarrow> wr q 38 (replicate 32 0);
          let (b, y) = sys_random os 2 y;
          let d = d\<lparr>d_id := b\<rparr>;
          q \<leftarrow> basequery d q 70;
          k \<leftarrow> key_ptr d;
          q \<leftarrow> box_in_place q 38 (len + 48) non k;
          q \<leftarrow> wr q 0 (uint16_pack_big (of_nat (d_querylen d - 2)));
          q \<leftarrow> wr q 2 (magicq y);
          q \<leftarrow> wr q 10 (d_pk d);
          q \<leftarrow> wr q 42 (take 12 non);
          Some (d\<lparr>d_query := Some q\<rparr>, y) }"

definition txtquery :: "'w os \<Rightarrow> dns_transmit \<Rightarrow> 'w system \<Rightarrow> (dns_transmit \<times> 'w system) option" where
  "txtquery os d y =
     do { let d = d\<lparr>d_paddinglen := 0\<rparr>;
          q \<leftarrow> d_query d;
          n \<leftarrow> name_length d;
          let len = n + d_paddinglen d;
          suffixlen \<leftarrow> dns_domain_length (d_suffix d);
          let m = nat (dns_base32_bytessize (int (len + 44)));
          let d = d\<lparr>d_querylen := m + suffixlen + 73\<rparr>;
          let (b, y) = sys_nonce os y;
          let d = d\<lparr>d_nonce := b\<rparr>;
          let non = take 12 b @ replicate 12 0;
          q \<leftarrow> wr q 0 (replicate 32 0);
          let (b, y) = sys_random os 2 y;
          let d = d\<lparr>d_id := b\<rparr>;
          q \<leftarrow> basequery d q 32;
          k \<leftarrow> key_ptr d;
          q \<leftarrow> box_in_place q 0 (len + 48) non k;
          b \<leftarrow> rd q 16 (len + 32);
          q \<leftarrow> wr q (d_querylen d - len - 32) b;
          q \<leftarrow> wr q (d_querylen d - len - 44) (take 12 non);
          q \<leftarrow> wr q 0 (uint16_pack_big (of_nat (d_querylen d - 2)));
          let (b, y) = sys_random os 2 y;
          q \<leftarrow> wr q 2 b;
          q \<leftarrow> wr q 4 (query_header False);
          b \<leftarrow> rd q (d_querylen d - len - 44) (len + 44);
          q \<leftarrow> wr q 14 (dns_base32_encodebytes b);
          q \<leftarrow> wr q (14 + m) (dns_base32_encodekey (d_pk d));
          q \<leftarrow> wr q (69 + m) (take suffixlen (d_suffix d));
          q \<leftarrow> wr q (69 + m + suffixlen) [0, 16];
          q \<leftarrow> wr q (69 + m + suffixlen + 2) [0, 1];
          Some (d\<lparr>d_query := Some q\<rparr>, y) }"

definition makequery :: "'w os \<Rightarrow> dns_transmit \<Rightarrow> 'w system \<Rightarrow> (dns_transmit \<times> 'w system) option" where
  "makequery os d y =
     do { k \<leftarrow> key_byte d;
          if k = 0 then regularquery os d y
          else if k \<noteq> 2 then streamlinedquery os d y
          else txtquery os d y }"

subsection \<open>Answers\<close>

text \<open>The loop that takes the strings of a TXT record apart, moving their bytes to position \<open>j\<close> on.\<close>

function txt_gather :: "nat \<Rightarrow> nat \<Rightarrow> nat \<Rightarrow> nat \<Rightarrow> nat \<Rightarrow> bytes \<Rightarrow> (nat \<times> nat \<times> bytes) option" where
  "txt_gather i datalen p txtlen j buf =
     (if i < datalen
      then do { ch \<leftarrow> ld buf (p + i);
                if txtlen = 0 then txt_gather (i + 1) datalen p (unat ch) j buf
                else do { buf \<leftarrow> st buf j ch; txt_gather (i + 1) datalen p (txtlen - 1) (j + 1) buf } }
      else Some (txtlen, j, buf))"
  by pat_completeness auto
termination
  by (relation "measure (\<lambda>(i, datalen, p, txtlen, j, buf). datalen - i)") auto

declare txt_gather.simps [simp del]

text \<open>
  \<open>getquery\<close>: the return value (0 is success), the buffer and its length.  The buffer has at least
  \<open>len\<close> bytes.
\<close>

definition getquery_streamlined :: "dns_transmit \<Rightarrow> bytes \<Rightarrow> bytes \<Rightarrow> nat \<Rightarrow> (nat \<times> bytes \<times> nat) option" where
  "getquery_streamlined d mr buf len =
     (if len < 48 then Some (1, buf, len)
      else do {
        b \<leftarrow> rd buf 0 8;
        if b \<noteq> mr then Some (1, buf, len)
        else do {
          b \<leftarrow> rd buf 8 12;
          if b \<noteq> d_nonce d then Some (1, buf, len)
          else do {
            non \<leftarrow> rd buf 8 24;
            buf \<leftarrow> wr buf 16 (replicate 16 0);
            c \<leftarrow> rd buf 16 (len - 16);
            k \<leftarrow> key_ptr d;
            case crypto_box_open_afternm c non k of
              None \<Rightarrow> Some (1, buf, len)
            | Some m \<Rightarrow>
              do { buf \<leftarrow> wr buf 16 m;
                   b \<leftarrow> rd buf 48 (len - 48);
                   buf \<leftarrow> wr buf 0 b;
                   Some (0, buf, len - 48) } } } })"

text \<open>The second half of the branch for TXT answers: the data at \<open>p\<close> is taken apart and opened.\<close>

definition getquery_txtdata :: "dns_transmit \<Rightarrow> bytes \<Rightarrow> nat \<Rightarrow> nat \<Rightarrow> nat \<Rightarrow> (nat \<times> bytes \<times> nat) option" where
  "getquery_txtdata d buf len p datalen =
     do { (txtlen, j, buf) \<leftarrow> txt_gather 0 datalen p 0 4 buf;
          if txtlen \<noteq> 0 then Some (1, buf, len)
          else if j < 32 then Some (1, buf, len)
          else do {
            n2 \<leftarrow> rd buf 4 12;
            let non = d_nonce d @ n2;
            buf \<leftarrow> wr buf 0 (replicate 16 0);
            c \<leftarrow> rd buf 0 j;
            k \<leftarrow> key_ptr d;
            case crypto_box_open_afternm c non k of
              None \<Rightarrow> Some (1, buf, len)
            | Some m \<Rightarrow>
              do { buf \<leftarrow> wr buf 0 m;
                   b \<leftarrow> rd buf 32 (j - 32);
                   buf \<leftarrow> wr buf 0 b;
                   Some (0, buf, j - 32) } } }"

definition getquery_txt :: "dns_transmit \<Rightarrow> bytes \<Rightarrow> nat \<Rightarrow> (nat \<times> bytes \<times> nat) option" where
  "getquery_txt d buf len =
     do { q \<leftarrow> d_query d;
          (p, out) \<leftarrow> dns_packet_copy (take len buf) 0 12;
          if p = 0 then Some (1, buf, len)
          else do {
            i \<leftarrow> rd q 2 2;
            if take 2 out \<noteq> i then Some (1, buf, len)
            else if drop 2 out \<noteq> [132, 0, 0, 1, 0, 1, 0, 0, 0, 0] then Some (1, buf, len)
            else do {
              namelen \<leftarrow> dns_domain_length (drop 14 q);
              if namelen > len - p then Some (1, buf, len)
              else do {
                df \<leftarrow> case_diffb (drop p buf) namelen (drop 14 q);
                if df \<noteq> 0 then Some (1, buf, len)
                else do {
                  (p, out) \<leftarrow> dns_packet_copy (take len buf) (p + namelen) 16;
                  if p = 0 then Some (1, buf, len)
                  else if take 14 out \<noteq> [0, 16, 0, 1, 192, 12, 0, 16, 0, 1, 0, 0, 0, 0] then Some (1, buf, len)
                  else do {
                    let datalen = unat (uint16_unpack_big (drop 14 out));
                    if datalen > len - p then Some (1, buf, len)
                    else getquery_txtdata d buf len p datalen } } } } } }"

definition getquery :: "dns_transmit \<Rightarrow> bytes \<Rightarrow> bytes \<Rightarrow> nat \<Rightarrow> (nat \<times> bytes \<times> nat) option" where
  "getquery d mr buf len =
     do { k \<leftarrow> key_byte d;
          if k = 0 then Some (0, buf, len)
          else if k \<noteq> 2 then getquery_streamlined d mr buf len
          else getquery_txt d buf len }"

definition serverwantstcp :: "bytes \<Rightarrow> bool option" where
  "serverwantstcp buf =
     do { (p, out) \<leftarrow> dns_packet_copy buf 0 12;
          if p = 0 then Some True
          else do { c \<leftarrow> ld out 2; Some (c AND 2 \<noteq> 0) } }"

definition set_errno :: "'w os \<Rightarrow> errno \<Rightarrow> 'w system \<Rightarrow> 'w system" where
  "set_errno os e y = y\<lparr>world := os_set_errno os e (world y)\<rparr>"

definition serverfailed :: "'w os \<Rightarrow> bytes \<Rightarrow> 'w system \<Rightarrow> (bool \<times> 'w system) option" where
  "serverfailed os buf y =
     do { (p, out) \<leftarrow> dns_packet_copy buf 0 12;
          if p = 0 then Some (True, y)
          else do {
            c \<leftarrow> ld out 3;
            let rcode = unat (c AND 15);
            Some (if rcode \<noteq> 0 \<and> rcode \<noteq> 3 then (True, set_errno os EAGAIN y) else (False, y)) } }"

text \<open>\<open>al\<close> tells whether \<open>alloc\<close> has memory for the name of the question.\<close>

definition irrelevant :: "(nat \<Rightarrow> bool) \<Rightarrow> dns_transmit \<Rightarrow> bytes \<Rightarrow> bool option" where
  "irrelevant al d buf =
     do { (p, out) \<leftarrow> dns_packet_copy buf 0 12;
          if p = 0 then Some True
          else if take 2 out \<noteq> d_id d then Some True
          else do {
            c4 \<leftarrow> ld out 4;
            c5 \<leftarrow> ld out 5;
            if c4 \<noteq> 0 then Some True
            else if c5 \<noteq> 1 then Some True
            else do {
            (p, dn) \<leftarrow> dns_packet_getname al buf p None;
            if p = 0 then Some True
            else do {
              x \<leftarrow> dn;
              dn2 \<leftarrow> name_at_ptr d;
              same \<leftarrow> dns_domain_equal x dn2;
              if \<not> same then Some True
              else do {
                (p, out) \<leftarrow> dns_packet_copy buf p 4;
                if p = 0 then Some True
                else if take 2 out \<noteq> d_qtype d then Some True
                else if drop 2 out \<noteq> [0, 1] then Some True
                else Some False } } } } }"

section \<open>Correctness\<close>

subsection \<open>Consecutive stores\<close>

lemma wr_append:
  "p + length a + length b \<le> length q \<Longrightarrow> wr (mem_write q p a) (p + length a) b = Some (mem_write q p (a @ b))"
  by (simp add: wr_def mem_write_append)

lemma wr_Some: "p + length b \<le> length q \<Longrightarrow> wr q p b = Some (mem_write q p b)"
  by (simp add: wr_def)

lemma rd_Some: "p + n \<le> length q \<Longrightarrow> rd q p n = Some (mem_read q p n)"
  by (simp add: rd_def)

lemma copy_within_self: "k + n \<le> length q \<Longrightarrow> copy_within q k n k = Some q"
  by (induction n arbitrary: k) simp_all

lemma mem_write_present:
  assumes "p + length a + length b \<le> length q" "mem_read q (p + length a) (length b) = b"
  shows "mem_write q p a = mem_write q p (a @ b)"
proof -
  have "drop (p + length a) q = mem_read q (p + length a) (length b) @ drop (p + length a + length b) q"
    by (simp add: mem_read_def add.commute flip: drop_drop)
  then show ?thesis using assms by (simp add: mem_write_def add.assoc)
qed

subsection \<open>The plain query\<close>

definition padding :: "nat \<Rightarrow> bytes" where
  "padding n = (if n > 0 then replicate (n - 1) 0 @ [0x80] else [])"

lemma length_padding [simp]: "length (padding n) = n"
  by (simp add: padding_def)

lemma padding_update: "0 < n \<Longrightarrow> (m @ replicate n 0)[length m + n - 1 := 0x80] = m @ padding n"
  by (cases n) (simp_all add: padding_def list_update_append flip: replicate_append_same)

definition base_message :: "dns_transmit \<Rightarrow> bytes list \<Rightarrow> bytes" where
  "base_message d ls = d_id d @ query_header (d_flagrecursive d) @ dn_of ls @ d_qtype d @ [0, 1] @ padding (d_paddinglen d)"

lemma length_query_header [simp]: "length (query_header b) = 10"
  by (simp add: query_header_def)

lemma length_base_message [simp]:
  "length (d_id d) = 2 \<Longrightarrow> length (d_qtype d) = 2 \<Longrightarrow> length (base_message d ls) = 16 + length (dn_of ls) + d_paddinglen d"
  by (simp add: base_message_def)

text \<open>
  Where the name can be while a query is built at position \<open>p\<close>: with the caller, at the place it is copied
  to, or inside the buffer before \<open>p\<close>.
\<close>

definition name_ok :: "name_ptr \<Rightarrow> nat \<Rightarrow> bytes \<Rightarrow> bytes list \<Rightarrow> bool" where
  "name_ok n p q ls \<longleftrightarrow> list_all is_label ls \<and>
     ((\<exists>r. n = Outside (dn_of ls @ r)) \<or>
      (\<exists>k r. n = Inside k \<and> drop k q = dn_of ls @ r \<and> (k = p + 12 \<or> k + length (dn_of ls) \<le> p)))"

lemma name_ok_length: "name_ok n p q ls \<Longrightarrow> dns_domain_length (name_bytes n q) = Some (length (dn_of ls))"
  by (auto simp: name_ok_def name_bytes_def)

lemma name_length_ok: "name_ok (d_name d) p q ls \<Longrightarrow> d_query d = Some q \<Longrightarrow> name_length d = Some (length (dn_of ls))"
  using name_ok_length [of "d_name d" p q ls] by (cases "d_name d") (simp_all add: name_length_def name_at_ptr_def name_bytes_def)

lemma copy_within_disjoint:
  "src + n \<le> dst \<Longrightarrow> dst + n \<le> length q \<Longrightarrow> copy_within q dst n src = Some (mem_write q dst (mem_read q src n))"
proof (induction n arbitrary: q dst src)
  case (Suc n)
  let ?q = "q[dst := q ! src]"
  have "copy_within q dst (Suc n) src = Some (mem_write ?q (dst + 1) (mem_read ?q (src + 1) n))"
    using Suc by simp
  moreover have "mem_read ?q (src + 1) n = mem_read q (src + 1) n"
    using Suc.prems by (intro nth_equalityI) simp_all
  moreover have "mem_read q src (Suc n) = q ! src # mem_read q (src + 1) n"
    using Suc.prems by (simp add: mem_read_def Cons_nth_drop_Suc [symmetric])
  moreover have "mem_write ?q (dst + 1) b = mem_write q dst (q ! src # b)" if "length b = n" for b
    using Suc.prems that by (simp add: mem_write_def take_Suc_conv_app_nth)
  ultimately show ?case using Suc.prems by simp
qed (simp add: mem_read_def)

lemma copy_name_ok:
  assumes "name_ok n p q ls" "length a = 12" "p + 12 + length (dn_of ls) \<le> length q"
  shows "copy_name (mem_write q p a) (p + 12) (length (dn_of ls)) n = Some (mem_write q p (a @ dn_of ls))"
proof (cases n)
  case (Outside b)
  then obtain r where "b = dn_of ls @ r" using assms(1) by (auto simp: name_ok_def)
  then show ?thesis using Outside assms wr_append [of p a "dn_of ls" q] by (simp add: copy_name_def)
next
  case (Inside k)
  then obtain r where k: "drop k q = dn_of ls @ r" "k = p + 12 \<or> k + length (dn_of ls) \<le> p" using assms(1) by (auto simp: name_ok_def)
  show ?thesis
  proof (cases "k = p + 12")
    case True
    then have "mem_write q p a = mem_write q p (a @ dn_of ls)"
      using assms k by (intro mem_write_present) (simp_all add: mem_read_def)
    then show ?thesis using Inside k assms True by (simp add: copy_name_def copy_within_self)
  next
    case False
    then have b: "k + length (dn_of ls) \<le> p" using k by simp
    have "mem_read (mem_write q p a) k (length (dn_of ls)) = mem_read q k (length (dn_of ls))"
      using assms b by (intro mem_read_write_disjoint) simp_all
    also have "\<dots> = dn_of ls" using k(1) by (simp add: mem_read_def)
    finally have "copy_name (mem_write q p a) (p + 12) (length (dn_of ls)) n = Some (mem_write (mem_write q p a) (p + 12) (dn_of ls))"
      using Inside b assms by (simp add: copy_name_def copy_within_disjoint)
    then show ?thesis using mem_write_append [of p a "dn_of ls" q, unfolded assms(2)] assms(3) by simp
  qed
qed

lemma basequery_ok:
  assumes n: "name_ok (d_name d) p q ls" and l: "length (d_id d) = 2" "length (d_qtype d) = 2"
    and b: "p + length (base_message d ls) \<le> length q"
  shows "basequery d q p = Some (mem_write q p (base_message d ls))"
proof -
  let ?h = "d_id d @ query_header (d_flagrecursive d)" and ?n = "length (dn_of ls)" and ?pad = "d_paddinglen d"
  have bb: "p + 16 + ?n + ?pad \<le> length q" using b l by simp
  have w1: "wr q p (d_id d) = Some (mem_write q p (d_id d))" using bb l by (intro wr_Some) simp
  have w2: "wr (mem_write q p (d_id d)) (p + 2) (query_header (d_flagrecursive d)) = Some (mem_write q p ?h)"
    using wr_append [of p "d_id d" "query_header (d_flagrecursive d)" q] bb l by simp
  have w3: "copy_name (mem_write q p ?h) (p + 12) ?n (d_name d) = Some (mem_write q p (?h @ dn_of ls))"
    by (rule copy_name_ok [OF n]) (use l bb in simp_all)
  have w4: "wr (mem_write q p (?h @ dn_of ls)) (p + 12 + ?n) (d_qtype d) = Some (mem_write q p ((?h @ dn_of ls) @ d_qtype d))"
    using wr_append [of p "?h @ dn_of ls" "d_qtype d" q] bb l by (simp add: add.assoc)
  have w5: "wr (mem_write q p ((?h @ dn_of ls) @ d_qtype d)) (p + 14 + ?n) [0, 1] =
      Some (mem_write q p (((?h @ dn_of ls) @ d_qtype d) @ [0, 1]))"
    using wr_append [of p "(?h @ dn_of ls) @ d_qtype d" "[0, 1]" q] bb l by (simp add: ac_simps)
  let ?m = "((?h @ dn_of ls) @ d_qtype d) @ [0, 1]"
  have w6: "wr (mem_write q p ?m) (p + 16 + ?n) (replicate ?pad 0) = Some (mem_write q p (?m @ replicate ?pad 0))"
    using wr_append [of p ?m "replicate ?pad 0" q] bb l by (simp add: ac_simps)
  have w7: "wr (mem_write q p (?m @ replicate ?pad 0)) (p + 16 + ?n + ?pad - 1) [0x80] = Some (mem_write q p (?m @ padding ?pad))"
    if "?pad > 0"
  proof -
    have u: "(?m @ replicate ?pad 0)[(15 + ?n + ?pad) := 0x80] = ?m @ padding ?pad"
      using padding_update [OF that, of ?m] l by (simp add: ac_simps)
    have mw: "mem_write (mem_write q p (?m @ replicate ?pad 0)) (p + (15 + ?n + ?pad)) [0x80] =
        mem_write q p ((?m @ replicate ?pad 0)[(15 + ?n + ?pad) := 0x80])"
      using bb l that by (intro mem_write_update) simp_all
    have e2: "p + 16 + ?n + ?pad - 1 = p + (15 + ?n + ?pad)" by simp
    show ?thesis unfolding wr_def e2 mw u using bb l by simp
  qed
  have p0: "?m = ?m @ padding ?pad" if "\<not> ?pad > 0" using that by (simp add: padding_def)
  have e: "base_message d ls = ?m @ padding ?pad" by (simp add: base_message_def)
  show ?thesis
    unfolding basequery_def name_ok_length [OF n] bind.bind_lunit w1 w2 w3 w4 w5 w6 e
    using w7 p0 by (cases "?pad > 0") simp_all
qed

subsection \<open>The regular query\<close>

text \<open>The name is the caller's, or where a regular query has put it.\<close>

definition own_name :: "name_ptr \<Rightarrow> bytes \<Rightarrow> bytes list \<Rightarrow> bool" where
  "own_name n q ls \<longleftrightarrow> list_all is_label ls \<and>
     ((\<exists>r. n = Outside (dn_of ls @ r)) \<or> n = Inside 14 \<and> (\<exists>r. drop 14 q = dn_of ls @ r))"

lemma own_name_ok: "own_name n q ls \<Longrightarrow> name_ok n 2 q ls"
  by (auto simp: own_name_def name_ok_def)

lemma regularquery_ok:
  assumes q: "d_query d = Some q" and n: "own_name (d_name d) q ls" and l: "length (d_qtype d) = 2"
    and b: "18 + length (dn_of ls) \<le> length q" and rb: "\<And>w n. length (fst (os_random os w n)) = n"
  shows "\<exists>d' y' q'. regularquery os d y = Some (d', y') \<and> d_query d' = Some q' \<and> length q' = length q \<and>
     length (d_id d') = 2 \<and> d_querylen d' = length (dn_of ls) + 18 \<and>
     take (d_querylen d') q' = uint16_pack_big (of_nat (16 + length (dn_of ls))) @ base_message d' ls \<and>
     own_name (d_name d') q' ls \<and> d_paddinglen d' = 0 \<and>
     d' = d\<lparr>d_paddinglen := 0, d_querylen := d_querylen d', d_id := d_id d', d_query := Some q', d_name := Inside 14\<rparr>"
proof -
  let ?n = "length (dn_of ls)"
  obtain i w where i: "os_random os (world y) 2 = (i, w)" by fastforce
  have li: "length i = 2" using rb [of "world y" 2] i by simp
  define d1 where "d1 = d\<lparr>d_paddinglen := 0, d_querylen := ?n + 18, d_id := i\<rparr>"
  define h where "h = uint16_pack_big (of_nat (16 + ?n))"
  have lh: "length h = 2" and h: "uint16_pack_big (16 + of_nat ?n) = h" by (simp_all add: h_def)
  have w: "wr q 0 h = Some (mem_write q 0 h)" using b lh by (intro wr_Some) simp
  have drop: "drop k (mem_write q 0 h) = drop k q" if "2 \<le> k" for k using that lh b by (auto simp: mem_write_def le_iff_add)
  have n1: "name_ok (d_name d1) 2 (mem_write q 0 h) ls" using n by (intro own_name_ok) (auto simp: d1_def own_name_def drop)
  have m: "length (base_message d1 ls) = 16 + ?n" using li l by (simp add: d1_def)
  have bq: "basequery d1 (mem_write q 0 h) 2 = Some (mem_write (mem_write q 0 h) 2 (base_message d1 ls))"
    by (rule basequery_ok [OF n1]) (use b lh li l m in \<open>simp_all add: d1_def\<close>)
  have nl: "name_length d = Some ?n" using name_length_ok [OF own_name_ok [OF n] q] .
  have nl': "name_length (d\<lparr>d_paddinglen := 0\<rparr>) = Some ?n" using nl
    by (cases "d_name d") (simp_all add: name_length_def name_at_ptr_def)
  define q' where "q' = mem_write q 0 (h @ base_message d1 ls)"
  have e: "mem_write (mem_write q 0 h) 2 (base_message d1 ls) = q'"
    unfolding q'_def using mem_write_append [of 0 h "base_message d1 ls" q, unfolded lh add_0] m b by simp
  have r: "regularquery os d y = Some (d1\<lparr>d_query := Some q', d_name := Inside 14\<rparr>, y\<lparr>world := w\<rparr>)"
    using w bq e by (simp add: regularquery_def q nl' sys_random_def i h d1_def [symmetric])
  have q': "q' = h @ base_message d1 ls @ drop (18 + ?n) q" using lh m by (simp add: q'_def mem_write_def)
  have "drop 14 q' = dn_of ls @ d_qtype d @ [0, 1] @ padding 0 @ drop (18 + ?n) q"
    using lh li by (simp add: q' base_message_def d1_def)
  then have "own_name (Inside 14) q' ls" using n by (auto simp: own_name_def)
  moreover have "take (?n + 18) q' = h @ base_message d1 ls" using q' lh m by simp
  moreover have "length q' = length q" using b lh m by (simp add: q'_def)
  moreover have "base_message (d1\<lparr>d_query := Some q', d_name := Inside 14\<rparr>) ls = base_message d1 ls" by (simp add: base_message_def)
  ultimately show ?thesis
    unfolding r using li by (intro exI [of _ "d1\<lparr>d_query := Some q', d_name := Inside 14\<rparr>"] exI conjI) (simp_all add: d1_def h_def)
qed

subsection \<open>The streamlined query\<close>

lemma length_sys_nonce:
  assumes "\<And>w n. length (fst (os_random os w n)) = n" "sys_nonce os y = (b, y')"
  shows "length b = 12"
proof -
  have r: "os_random os w n = (b, w') \<Longrightarrow> length b = n" for w n b w' using assms(1) [of w n] by simp
  from assms(2) show ?thesis
    by (auto simp: sys_nonce_def dns_nonce_def dns_nonce_encrypt_def Let_def dest!: r split: prod.splits if_splits)
qed

lemma sys_nonce_unchanged: "sys_nonce os y = (b, y') \<Longrightarrow> magicq y' = magicq y \<and> magicr y' = magicr y"
  by (auto simp: sys_nonce_def split: prod.splits)

lemma box_in_place_ok:
  assumes "p + length m \<le> length q" "32 \<le> length m" "take 32 m = replicate 32 0"
  obtains c where "crypto_secretbox m non k = Some c" "length c = length m" "take 16 c = replicate 16 0"
    "crypto_secretbox_open c non k = Some m"
    "box_in_place (mem_write q p m) p (length m) non k = Some (mem_write q p c)"
proof -
  obtain c where c: "crypto_secretbox m non k = Some c" "length c = length m" "take 16 c = replicate 16 0" "crypto_secretbox_open c non k = Some m"
    using secretbox_opens [OF assms(2,3), of non k] by blast
  have "mem_write (mem_write q p m) p c = mem_write q p c" using c(2) assms(1) by (simp add: mem_write_def)
  then have "box_in_place (mem_write q p m) p (length m) non k = Some (mem_write q p c)"
    using c assms(1) by (simp add: box_in_place_def rd_def wr_def crypto_box_afternm_def)
  with c that show thesis by blast
qed

text \<open>A name of up to 24 bytes survives in the buffer until the query is built.\<close>

lemma streamlinedquery_ok:
  assumes q: "d_query d = Some q" and n: "own_name (d_name d) q ls" "(\<exists>b. d_name d = Outside b) \<or> length (dn_of ls) \<le> 24"
    and l: "length (d_qtype d) = 2" "length (magicq y) = 8" "length (d_pk d) = 32" "length (key_bytes d) = 32"
    and b: "length (dn_of ls) + 278 - (length (dn_of ls) + 16) mod 64 \<le> length q"
    and rb: "\<And>w n. length (fst (os_random os w n)) = n"
  shows "\<exists>d' y' q' c. streamlinedquery os d y = Some (d', y') \<and> d_query d' = Some q' \<and> length q' = length q \<and>
     length (d_id d') = 2 \<and> length (d_nonce d') = 12 \<and> d_querylen d' = length (dn_of ls) + d_paddinglen d' + 86 \<and>
     (length (dn_of ls) + 16 + d_paddinglen d') mod 64 = 0 \<and> d_paddinglen d' > 0 \<and>
     crypto_secretbox (replicate 32 0 @ base_message d' ls) (d_nonce d' @ replicate 12 0) (key_bytes d) = Some c \<and>
     crypto_secretbox_open c (d_nonce d' @ replicate 12 0) (key_bytes d) = Some (replicate 32 0 @ base_message d' ls) \<and>
     take 16 c = replicate 16 0 \<and> length c = length (dn_of ls) + d_paddinglen d' + 48 \<and>
     take (d_querylen d') q' =
       uint16_pack_big (of_nat (length (dn_of ls) + d_paddinglen d' + 84)) @ magicq y @ d_pk d @ d_nonce d' @ drop 16 c \<and>
     magicq y' = magicq y \<and> magicr y' = magicr y \<and>
     d' = d\<lparr>d_paddinglen := d_paddinglen d', d_querylen := d_querylen d', d_nonce := d_nonce d', d_id := d_id d', d_query := Some q'\<rparr>"
proof -
  let ?n = "length (dn_of ls)"
  obtain i w where i: "randommod (os_random os) 2 (world y) = (i, w)" by fastforce
  have "unat i < 2" using randommod_less [of 2 "os_random os" "world y"] i by (simp add: word_less_nat_alt)
  define pad where "pad = (2 + unat i) * 64 - (?n + 16) mod 64"
  define e where "e = (?n + 16) mod 64"
  have m64: "e < 64" by (simp add: e_def)
  have pe: "pad = (2 + unat i) * 64 - e" "?n + 278 - e \<le> length q" using b by (simp_all add: pad_def e_def)
  have u: "64 * unat i \<le> 64" using \<open>unat i < 2\<close> by linarith
  have pp: "pad + e = 128 + 64 * unat i" using pe(1) m64 by simp
  have pad: "?n + pad + 86 \<le> length q" "pad > 0" using pp u pe(2) m64 by simp_all
  have "?n + 16 + pad = 64 * ((?n + 16) div 64 + (2 + unat i))"
    using pp div_mult_mod_eq [of "?n + 16" 64] unfolding e_def [symmetric] by simp
  then have pm: "(?n + 16 + pad) mod 64 = 0" by (simp only: mod_mult_self1_is_0)
  obtain non y1 where non: "sys_nonce os (y\<lparr>world := w\<rparr>) = (non, y1)" by fastforce
  have ln: "length non = 12" by (rule length_sys_nonce [OF rb non])
  have y1: "magicq y1 = magicq y" "magicr y1 = magicr y" using sys_nonce_unchanged [OF non] by simp_all
  obtain x w2 where x: "os_random os (world y1) 2 = (x, w2)" by fastforce
  have lx: "length x = 2" using rb [of "world y1" 2] x by simp
  define d1 where "d1 = d\<lparr>d_paddinglen := pad, d_querylen := ?n + pad + 86, d_nonce := non, d_id := x\<rparr>"
  define m where "m = replicate 32 0 @ base_message d1 ls"
  have lb: "length (base_message d1 ls) = 16 + ?n + pad" using lx l by (simp add: d1_def)
  then have lm: "length m = ?n + pad + 48" by (simp add: m_def)
  have nl: "name_length d = Some ?n" using name_length_ok [OF own_name_ok [OF n(1)] q] .
  have n1: "name_ok (d_name d) 70 (mem_write q 38 (replicate 32 0)) ls"
  proof (cases "d_name d")
    case (Inside k)
    then obtain r where r: "k = 14" "drop 14 q = dn_of ls @ r" "?n \<le> 24" using n by (auto simp: own_name_def)
    have "drop 14 (mem_write q 38 (replicate 32 0)) = take 24 (drop 14 q) @ replicate 32 0 @ drop 70 q"
      using pad by (simp add: mem_write_def drop_take)
    then show ?thesis using Inside r n(1) by (auto simp: name_ok_def own_name_def)
  qed (use n(1) in \<open>auto simp: name_ok_def own_name_def\<close>)
  have w1: "wr q 38 (replicate 32 0) = Some (mem_write q 38 (replicate 32 0))" using pad by (intro wr_Some) simp
  have "basequery d1 (mem_write q 38 (replicate 32 0)) 70 = Some (mem_write (mem_write q 38 (replicate 32 0)) 70 (base_message d1 ls))"
    using n1 l lx lb pad by (intro basequery_ok) (simp_all add: d1_def)
  also have "mem_write (mem_write q 38 (replicate 32 0)) 70 (base_message d1 ls) = mem_write q 38 m"
    using mem_write_append [of 38 "replicate 32 0" "base_message d1 ls" q, unfolded length_replicate] lb pad by (simp add: m_def)
  finally have bq: "basequery d1 (mem_write q 38 (replicate 32 0)) 70 = Some (mem_write q 38 m)" .
  have tm: "32 \<le> length m" "take 32 m = replicate 32 0" "38 + length m \<le> length q" using lm pad by (simp_all add: m_def)
  obtain c where c: "crypto_secretbox m (non @ replicate 12 0) (key_bytes d) = Some c" "length c = length m" "take 16 c = replicate 16 0"
      "crypto_secretbox_open c (non @ replicate 12 0) (key_bytes d) = Some m"
      "box_in_place (mem_write q 38 m) 38 (length m) (non @ replicate 12 0) (key_bytes d) = Some (mem_write q 38 c)"
    by (rule box_in_place_ok [OF tm(3,1,2)])
  define Q where "Q = mem_write q 38 c"
  define h where "h = uint16_pack_big (of_nat (?n + pad + 84))"
  have lh: "length h = 2" by (simp add: h_def)
  have lQ: "length Q = length q" using c(2) lm pad by (simp add: Q_def)
  define q' where "q' = mem_write Q 0 (((h @ magicq y) @ d_pk d) @ non)"
  have v1: "wr Q 0 h = Some (mem_write Q 0 h)" using lh lQ pad by (intro wr_Some) simp
  have v2: "wr (mem_write Q 0 h) 2 (magicq y) = Some (mem_write Q 0 (h @ magicq y))"
    using wr_append [of 0 h "magicq y" Q, unfolded lh add_0] l lQ pad by simp
  have v3: "wr (mem_write Q 0 (h @ magicq y)) 10 (d_pk d) = Some (mem_write Q 0 ((h @ magicq y) @ d_pk d))"
    using wr_append [of 0 "h @ magicq y" "d_pk d" Q] l lh lQ pad by simp
  have v4: "wr (mem_write Q 0 ((h @ magicq y) @ d_pk d)) 42 non = Some q'"
    using wr_append [of 0 "(h @ magicq y) @ d_pk d" non Q] l lh ln lQ pad by (simp add: q'_def)
  have "key_bytes d1 = key_bytes d" by (simp add: key_bytes_def d1_def cong: option.case_cong)
  then have kb: "key_ptr d1 = Some (key_bytes d)" using key_ptr_Some [of d1] l by simp
  have r: "streamlinedquery os d y = Some (d1\<lparr>d_query := Some q'\<rparr>, y1\<lparr>world := w2\<rparr>)"
  proof -
    have nx: "take 12 non = non" using ln by simp
    have h: "uint16_pack_big (word_of_nat (d_querylen d1 - 2)) = h" "d_pk d1 = d_pk d" by (simp_all add: h_def d1_def ac_simps)
    have m2: "?n + pad + 48 = length m" using lm by simp
    show ?thesis
      unfolding streamlinedquery_def q nl i Let_def pad_def [symmetric] bind.bind_lunit prod.case non sys_random_def x w1
      using v1 v2 v3 v4 c(5)
      by (simp add: d1_def [symmetric] nx bq kb h m2 y1 ln Q_def [symmetric])
  qed
  have d48: "drop 54 Q = drop 16 c @ drop (86 + ?n + pad) q"
    using c(2) lm pad by (simp add: Q_def mem_write_def ac_simps)
  have "take (?n + pad + 86) q' = h @ magicq y @ d_pk d @ non @ drop 16 c"
    using lh l ln d48 c(2) lm by (simp add: q'_def mem_write_def)
  moreover have "base_message (d1\<lparr>d_query := Some q'\<rparr>) ls = base_message d1 ls" by (simp add: base_message_def)
  moreover have "length q' = length q" using lh l ln lQ pad by (simp add: q'_def)
  ultimately show ?thesis
    unfolding r using pad(2) pm lx ln c(1-4) lm y1
    by (intro exI [of _ "d1\<lparr>d_query := Some q'\<rparr>"] exI [of _ "y1\<lparr>world := w2\<rparr>"] exI [of _ q'] exI [of _ c] conjI)
       (simp_all add: d1_def m_def h_def)
qed

subsection \<open>The query in TXT form\<close>

lemma length_encodekey: "length key = 32 \<Longrightarrow> length (dns_base32_encodekey key) = 55"
proof -
  assume k: "length key = 32"
  obtain ds where "key_text key = map b32_char ds" "length ds = 51" using key_digits [OF k] by metis
  then have "length (key_text key) = 51" by simp
  then show ?thesis by (simp add: key_text_def)
qed

abbreviation text_size :: "nat \<Rightarrow> nat" where
  "text_size n \<equiv> nat (dns_base32_bytessize (int n))"

lemma length_encodebytes: "length (dns_base32_encodebytes b) = text_size (length b)"
  using base32_label_roundtrip [of b] by (metis nat_int)

text \<open>
  The text takes more room than the bytes it stands for; it is therefore written before them in the same buffer
  without reaching a byte that has not been read: after \<open>k\<close> of \<open>n\<close> bytes it ends at least 59 bytes before the
  next one.
\<close>

lemma text_size_eq: "text_size n = (8 * n + 4) div 5 + ((8 * n + 4) div 5 + 49) div 50"
  by (simp add: dns_base32_bytessize_def Let_def nat_add_distrib nat_div_distrib nat_mult_distrib)

lemma text_size_step: "k \<le> n \<Longrightarrow> text_size k + (n - k) \<le> text_size n"
proof -
  assume kn: "k \<le> n"
  then have "8 * k + 4 + 5 * (n - k) \<le> 8 * n + 4" by simp
  then have "(8 * k + 4 + 5 * (n - k)) div 5 \<le> (8 * n + 4) div 5" by (rule div_le_mono)
  moreover have "(8 * k + 4 + 5 * (n - k)) div 5 = (8 * k + 4) div 5 + (n - k)" by simp
  ultimately have "(8 * k + 4) div 5 + (n - k) \<le> (8 * n + 4) div 5" by linarith
  moreover from this have "((8 * k + 4) div 5 + 49) div 50 \<le> ((8 * n + 4) div 5 + 49) div 50" by (intro div_le_mono) linarith
  ultimately show ?thesis unfolding text_size_eq by linarith
qed

lemma text_encoded_in_place: "k \<le> n \<Longrightarrow> 14 + text_size k + 59 + s \<le> (text_size n + s + 73 - n) + k"
  using text_size_step [of k n] text_size_step [of 0 n] by linarith

lemma txtquery_ok:
  assumes q: "d_query d = Some q" and n: "d_name d = Outside (dn_of ls @ r)" "list_all is_label ls"
    and l: "length (d_qtype d) = 2" "length (d_pk d) = 32" "length (key_bytes d) = 32"
    and sf: "d_suffix d = dn_of sl @ r'" "list_all is_label sl"
    and b: "text_size (length (dn_of ls) + 44) + length (dn_of sl) + 73 \<le> length q"
    and rb: "\<And>w n. length (fst (os_random os w n)) = n"
  shows "\<exists>d' y' q' c i. txtquery os d y = Some (d', y') \<and> d_query d' = Some q' \<and> length q' = length q \<and>
     length (d_id d') = 2 \<and> length (d_nonce d') = 12 \<and> d_paddinglen d' = 0 \<and> length i = 2 \<and>
     d_querylen d' = text_size (length (dn_of ls) + 44) + length (dn_of sl) + 73 \<and>
     crypto_secretbox (replicate 32 0 @ base_message d' ls) (d_nonce d' @ replicate 12 0) (key_bytes d) = Some c \<and>
     crypto_secretbox_open c (d_nonce d' @ replicate 12 0) (key_bytes d) = Some (replicate 32 0 @ base_message d' ls) \<and>
     take 16 c = replicate 16 0 \<and> length c = length (dn_of ls) + 48 \<and>
     take (d_querylen d') q' =
       uint16_pack_big (of_nat (d_querylen d' - 2)) @ i @ query_header False @
       dns_base32_encodebytes (d_nonce d' @ drop 16 c) @ dns_base32_encodekey (d_pk d) @ dn_of sl @ [0, 16, 0, 1] \<and>
     magicq y' = magicq y \<and> magicr y' = magicr y \<and>
     d' = d\<lparr>d_paddinglen := 0, d_querylen := d_querylen d', d_nonce := d_nonce d', d_id := d_id d', d_query := Some q'\<rparr>"
proof -
  let ?n = "length (dn_of ls)" and ?s = "length (dn_of sl)"
  define m where "m = text_size (?n + 44)"
  have mn: "?n + 44 \<le> m" using text_size_step [of 0 "?n + 44"] unfolding m_def by linarith
  have bq: "m + ?s + 73 \<le> length q" using b by (simp add: m_def)
  obtain non y1 where non: "sys_nonce os y = (non, y1)" by fastforce
  have ln: "length non = 12" by (rule length_sys_nonce [OF rb non])
  have y1: "magicq y1 = magicq y" "magicr y1 = magicr y" using sys_nonce_unchanged [OF non] by simp_all
  obtain x w where x: "os_random os (world y1) 2 = (x, w)" by fastforce
  obtain i w2 where i: "os_random os w 2 = (i, w2)" by fastforce
  have lx: "length x = 2" "length i = 2" using rb [of "world y1" 2] rb [of w 2] x i by simp_all
  define d1 where "d1 = d\<lparr>d_paddinglen := 0, d_querylen := m + ?s + 73, d_nonce := non, d_id := x\<rparr>"
  define msg where "msg = replicate 32 0 @ base_message d1 ls"
  have lb: "length (base_message d1 ls) = 16 + ?n" using lx l by (simp add: d1_def)
  then have lm: "length msg = ?n + 48" by (simp add: msg_def)
  have w1: "wr q 0 (replicate 32 0) = Some (mem_write q 0 (replicate 32 0))" using bq mn by (intro wr_Some) simp
  have "basequery d1 (mem_write q 0 (replicate 32 0)) 32 = Some (mem_write (mem_write q 0 (replicate 32 0)) 32 (base_message d1 ls))"
    using n l lx lb bq mn by (intro basequery_ok) (simp_all add: name_ok_def d1_def)
  also have "mem_write (mem_write q 0 (replicate 32 0)) 32 (base_message d1 ls) = mem_write q 0 msg"
    using mem_write_append [of 0 "replicate 32 0" "base_message d1 ls" q, unfolded length_replicate add_0] lb bq mn by (simp add: msg_def)
  finally have base: "basequery d1 (mem_write q 0 (replicate 32 0)) 32 = Some (mem_write q 0 msg)" .
  have tm: "32 \<le> length msg" "take 32 msg = replicate 32 0" "0 + length msg \<le> length q" using lm bq mn by (simp_all add: msg_def)
  obtain c where c: "crypto_secretbox msg (non @ replicate 12 0) (key_bytes d) = Some c" "length c = length msg" "take 16 c = replicate 16 0"
      "crypto_secretbox_open c (non @ replicate 12 0) (key_bytes d) = Some msg"
      "box_in_place (mem_write q 0 msg) 0 (length msg) (non @ replicate 12 0) (key_bytes d) = Some (mem_write q 0 c)"
    by (rule box_in_place_ok [OF tm(3,1,2)])
  define D where "D = m + ?s + 73 - ?n - 44"
  have D: "14 \<le> D" "D + ?n + 44 = m + ?s + 73" "m + ?s + 73 - ?n - 32 = D + 12" using mn by (simp_all add: D_def)
  have lq0: "length (mem_write q 0 c) = length q" using c(2) lm bq mn by simp
  have r1: "rd (mem_write q 0 c) 16 (?n + 32) = Some (drop 16 c)" using c(2) lm bq mn by (simp add: rd_def mem_read_def mem_write_def)
  have u1: "wr (mem_write q 0 c) (D + 12) (drop 16 c) = Some (mem_write (mem_write q 0 c) (D + 12) (drop 16 c))"
    using lq0 c(2) lm bq mn D by (intro wr_Some) simp
  define Q where "Q = mem_write (mem_write (mem_write q 0 c) (D + 12) (drop 16 c)) D non"
  have lQ: "length Q = length q" using lq0 c(2) lm ln bq D by (simp add: Q_def)
  have u2: "wr (mem_write (mem_write q 0 c) (D + 12) (drop 16 c)) D non = Some Q"
    unfolding Q_def using lq0 c(2) lm ln bq mn D by (intro wr_Some) simp
  have rQ: "mem_read Q D (?n + 44) = non @ drop 16 c"
    using lq0 c(2) lm ln bq mn D by (simp add: Q_def mem_read_def mem_write_def)
  define b32 where "b32 = dns_base32_encodebytes (non @ drop 16 c)"
  define k32 where "k32 = dns_base32_encodekey (d_pk d)"
  have lt: "length b32 = m" "length k32 = 55" using length_encodekey [OF l(2)] c(2) lm ln
    by (simp_all add: b32_def k32_def length_encodebytes m_def add.commute)
  define h where "h = uint16_pack_big (of_nat (m + ?s + 71))"
  have lh: "length h = 2" by (simp add: h_def)
  have v1: "wr Q 0 h = Some (mem_write Q 0 h)" using lh lQ bq by (intro wr_Some) simp
  have v2: "wr (mem_write Q 0 h) 2 i = Some (mem_write Q 0 (h @ i))"
    using wr_append [of 0 h i Q, unfolded lh add_0] lx lQ bq by simp
  have v3: "wr (mem_write Q 0 (h @ i)) 4 (query_header False) = Some (mem_write Q 0 ((h @ i) @ query_header False))"
    using wr_append [of 0 "h @ i" "query_header False" Q] lx lh lQ bq by simp
  let ?a = "(h @ i) @ query_header False"
  have "mem_read (mem_write Q 0 ?a) D (?n + 44) = mem_read Q D (?n + 44)"
    using lh lx lQ D bq by (intro mem_read_write_disjoint) simp_all
  then have r2: "rd (mem_write Q 0 ?a) D (?n + 44) = Some (non @ drop 16 c)"
    using rQ lh lx lQ D bq by (simp add: rd_def)
  have v4: "wr (mem_write Q 0 ?a) 14 b32 = Some (mem_write Q 0 (?a @ b32))"
    using wr_append [of 0 ?a b32 Q] lt lx lh lQ bq by simp
  have v5: "wr (mem_write Q 0 (?a @ b32)) (14 + m) k32 = Some (mem_write Q 0 ((?a @ b32) @ k32))"
    using wr_append [of 0 "?a @ b32" k32 Q] lt lx lh lQ bq by simp
  have v6: "wr (mem_write Q 0 ((?a @ b32) @ k32)) (69 + m) (dn_of sl) = Some (mem_write Q 0 (((?a @ b32) @ k32) @ dn_of sl))"
    using wr_append [of 0 "(?a @ b32) @ k32" "dn_of sl" Q] lt lx lh lQ bq by (simp add: add.commute)
  have v7: "wr (mem_write Q 0 (((?a @ b32) @ k32) @ dn_of sl)) (69 + m + ?s) [0, 16] = Some (mem_write Q 0 ((((?a @ b32) @ k32) @ dn_of sl) @ [0, 16]))"
    using wr_append [of 0 "((?a @ b32) @ k32) @ dn_of sl" "[0, 16]" Q] lt lx lh lQ bq by (simp add: ac_simps)
  define q' where "q' = mem_write Q 0 (((((?a @ b32) @ k32) @ dn_of sl) @ [0, 16]) @ [0, 1])"
  have v8: "wr (mem_write Q 0 ((((?a @ b32) @ k32) @ dn_of sl) @ [0, 16])) (69 + m + ?s + 2) [0, 1] = Some q'"
    using wr_append [of 0 "(((?a @ b32) @ k32) @ dn_of sl) @ [0, 16]" "[0, 1]" Q] lt lx lh lQ bq by (simp add: ac_simps q'_def)
  have r: "txtquery os d y = Some (d1\<lparr>d_query := Some q'\<rparr>, y1\<lparr>world := w2\<rparr>)"
  proof -
    have nx: "take 12 non = non" using ln by simp
    have nl: "name_length (d\<lparr>d_paddinglen := 0\<rparr>) = Some ?n" using n by (simp add: name_length_def name_at_ptr_def)
    have sl: "dns_domain_length (d_suffix (d\<lparr>d_paddinglen := 0\<rparr>)) = Some ?s" using sf by simp
    have ms: "nat (dns_base32_bytessize (int ?n + 44)) = m" by (simp add: m_def)
    have f: "uint16_pack_big (word_of_nat (d_querylen d1 - 2)) = h" "d_pk d1 = d_pk d" "d_suffix d1 = d_suffix d"
        "d_querylen d1 - (?n + 32) = D + 12" "d_querylen d1 - (?n + 44) = D" "key_ptr d1 = Some (key_bytes d)"
      using D l(3) key_ptr_Some [of d1] by (simp_all add: h_def d1_def D_def key_bytes_def ac_simps cong: option.case_cong)
    have q1: "d_query (d\<lparr>d_paddinglen := 0\<rparr>) = Some q" using q by simp
    show ?thesis
      unfolding txtquery_def q1 nl sl Let_def bind.bind_lunit prod.case non sys_random_def x w1
      using r1 u1 u2 v1 v2 v3 r2 v4 v5 v6 v7 v8 c(5)
      by (simp add: ms d1_def [symmetric] base nx f ln y1 lm [symmetric] i sf(1) b32_def [symmetric] k32_def [symmetric])
  qed
  have "take (m + ?s + 73) q' = h @ i @ query_header False @ b32 @ k32 @ dn_of sl @ [0, 16, 0, 1]"
    using lh lx lt by (simp add: q'_def mem_write_def)
  moreover have "base_message (d1\<lparr>d_query := Some q'\<rparr>) ls = base_message d1 ls" by (simp add: base_message_def)
  moreover have "length q' = length q" using lh lx lt lQ bq by (simp add: q'_def)
  moreover note lx ln c(1-4) lm y1
  moreover note F = calculation
  show ?thesis
    unfolding r m_def [symmetric]
    by (rule exI [of _ "d1\<lparr>d_query := Some q'\<rparr>"], rule exI [of _ "y1\<lparr>world := w2\<rparr>"], rule exI [of _ q'],
        rule exI [of _ c], rule exI [of _ i], intro conjI)
       (use F in \<open>simp_all add: d1_def msg_def h_def b32_def k32_def add.commute add.left_commute\<close>)
qed

end
