(* ===== verification/DnsAnswer.thy ===== *)
theory DnsAnswer
  imports DnsQuery
begin

section \<open>Which answers are accepted\<close>

text \<open>
  What \<open>getquery\<close>, \<open>irrelevant\<close>, \<open>serverwantstcp\<close> and \<open>serverfailed\<close> of \<open>dq/dns_transmit.c\<close>
  decide: the answer a server builds for a query is opened and accepted, and whatever is accepted carries the authenticator and
  repeats the question.
\<close>

subsection \<open>The strings of a TXT record\<close>

fun txt_parse :: "nat \<Rightarrow> bytes \<Rightarrow> nat \<times> bytes" where
  "txt_parse t [] = (t, [])"
| "txt_parse t (c # cs) =
     (if t = 0 then txt_parse (unat c) cs else case txt_parse (t - 1) cs of (t', out) \<Rightarrow> (t', c # out))"

lemma length_txt_parse: "length (snd (txt_parse t cs)) \<le> length cs"
  by (induction t cs rule: txt_parse.induct) (auto split: prod.splits)

lemma txt_gather_parse:
  assumes "p + n \<le> length buf" "j \<le> p + i" "i \<le> n" "txt_parse t (mem_read buf (p + i) (n - i)) = (t', out)"
  shows "txt_gather i n p t j buf = Some (t', j + length out, mem_write buf j out)"
  using assms
proof (induction "n - i" arbitrary: i t j buf out)
  case 0
  then show ?case by (simp add: txt_gather.simps mem_read_def)
next
  case (Suc m)
  then have i: "i < n" by simp
  have r: "mem_read buf (p + i) (n - i) = buf ! (p + i) # mem_read buf (p + (i + 1)) (n - (i + 1))"
  proof -
    have "n - (i + 1) = m" using Suc.hyps(2) by simp
    then show ?thesis using i Suc.prems(1) by (simp add: mem_read_def Cons_nth_drop_Suc [symmetric] Suc.hyps(2) [symmetric])
  qed
  show ?case
  proof (cases "t = 0")
    case True
    then have "txt_gather (i + 1) n p (unat (buf ! (p + i))) j buf = Some (t', j + length out, mem_write buf j out)"
      using Suc r i by (intro Suc.hyps(1)) simp_all
    then show ?thesis using i True Suc.prems by (simp add: txt_gather.simps [of i])
  next
    case False
    obtain o' where o: "txt_parse (t - 1) (mem_read buf (p + (i + 1)) (n - (i + 1))) = (t', o')" "out = buf ! (p + i) # o'"
      using Suc.prems(4) r False by (auto split: prod.splits)
    let ?b = "buf[j := buf ! (p + i)]"
    have "length o' \<le> n - (i + 1)" using length_txt_parse [of "t - 1" "mem_read buf (p + (i + 1)) (n - (i + 1))"] o(1) Suc.prems(1) i by simp
    then have j: "j + 1 + length o' \<le> length buf" using Suc.prems i by simp
    have "mem_read ?b (p + (i + 1)) (n - (i + 1)) = mem_read buf (p + (i + 1)) (n - (i + 1))"
      using Suc.prems by (simp add: mem_read_def)
    then have "txt_gather (i + 1) n p (t - 1) (j + 1) ?b = Some (t', (j + 1) + length o', mem_write ?b (j + 1) o')"
      using Suc o(1) i by (intro Suc.hyps(1)) simp_all
    moreover have "mem_write ?b (j + 1) o' = mem_write buf j out"
      using j unfolding o(2) by (simp add: mem_write_def take_Suc_conv_app_nth)
    ultimately show ?thesis using i False Suc.prems o(2) j by (simp add: txt_gather.simps [of i])
  qed
qed

text \<open>The strings of a record and their content.\<close>

definition txt_strings :: "bytes list \<Rightarrow> bytes" where
  "txt_strings ss = concat (map (\<lambda>s. of_nat (length s) # s) ss)"

lemma txt_parse_skip: "txt_parse (length s) (s @ cs) = (case txt_parse 0 cs of (t, out) \<Rightarrow> (t, s @ out))"
  by (induction s) (auto split: prod.splits)

lemma txt_parse_strings: "\<forall>s \<in> set ss. length s < 256 \<Longrightarrow> txt_parse 0 (txt_strings ss) = (0, concat ss)"
  by (induction ss) (simp_all add: txt_strings_def txt_parse_skip unat_of_nat)

subsection \<open>Opening\<close>

lemma secretbox_open_shape:
  assumes "crypto_secretbox_open c non k = Some m"
  shows "32 \<le> length c \<and> length m = length c \<and> m = replicate 32 0 @ drop 32 m"
  using assms by (auto simp: dq_open dqbox.length_body split: if_splits)

text \<open>An opened box in a buffer, moved to its start.\<close>

lemma opened_buffer:
  fixes z :: bytes
  assumes "p + length m \<le> length buf" "32 \<le> length m" "n = length m - 32"
  defines "b \<equiv> mem_write (mem_write (mem_write buf p z) p m) 0 (mem_read (mem_write (mem_write buf p z) p m) (p + 32) n)"
  assumes "length z = 16"
  shows "length b = length buf \<and> take n b = drop 32 m"
proof -
  have e: "mem_read (mem_write (mem_write buf p z) p m) (p + 32) n = drop 32 m"
    using assms by (subst mem_read_write_inside) (simp_all add: mem_read_def)
  show ?thesis unfolding b_def e using assms by (simp add: mem_write_def)
qed

lemma getquery_streamlined_eq:
  assumes "length (key_bytes d) = 32"
  shows "getquery_streamlined d mr buf (length buf) =
     (if 48 \<le> length buf \<and> take 8 buf = mr \<and> mem_read buf 8 12 = d_nonce d
      then (case crypto_secretbox_open (replicate 16 0 @ drop 32 buf) (mem_read buf 8 24) (key_bytes d) of
              None \<Rightarrow> Some (1, mem_write buf 16 (replicate 16 0), length buf)
            | Some m \<Rightarrow> Some (0, mem_write (mem_write (mem_write buf 16 (replicate 16 0)) 16 m) 0
                (mem_read (mem_write (mem_write buf 16 (replicate 16 0)) 16 m) 48 (length buf - 48)), length buf - 48))
      else Some (1, buf, length buf))"
proof (cases "48 \<le> length buf")
  case True
  then have r: "rd (mem_write buf 16 (replicate 16 0)) 16 (length buf - 16) = Some (replicate 16 0 @ drop 32 buf)"
    by (simp add: rd_def mem_read_def mem_write_def)
  have t: "take 8 buf = mem_read buf 0 8" by (simp add: mem_read_def)
  let ?w = "crypto_secretbox_open (replicate 16 0 @ drop 32 buf) (mem_read buf 8 24) (key_bytes d)"
  show ?thesis
  proof (cases ?w)
    case None
    then show ?thesis
      using True r by (simp add: getquery_streamlined_def rd_Some wr_Some key_ptr_Some [OF assms] crypto_box_open_afternm_def t)
  next
    case (Some m)
    then have "length m = length buf - 16" using secretbox_open_shape [OF Some] True by simp
    then show ?thesis
      using True r Some by (simp add: getquery_streamlined_def rd_Some wr_Some key_ptr_Some [OF assms] crypto_box_open_afternm_def t)
  qed
qed (simp add: getquery_streamlined_def)

lemma getquery_streamlined_key: "getquery_streamlined d mr buf n = Some (0, buf', k) \<Longrightarrow> length (key_bytes d) = 32"
  by (auto simp: getquery_streamlined_def bind_eq_Some_conv dest: key_ptr_SomeD split: if_splits)

lemma getquery_streamlined_accepts:
  assumes "crypto_secretbox_open c (d_nonce d @ n2) (key_bytes d) = Some m" "take 16 c = replicate 16 0"
    and "length mr = 8" "length (d_nonce d) = 12" "length n2 = 12" "length (key_bytes d) = 32"
  defines "buf \<equiv> mr @ d_nonce d @ n2 @ drop 16 c"
  shows "\<exists>buf'. getquery_streamlined d mr buf (length buf) = Some (0, buf', length m - 32) \<and> length buf' = length buf \<and>
    take (length m - 32) buf' = drop 32 m"
proof -
  have c: "32 \<le> length c" "length m = length c" using secretbox_open_shape [OF assms(1)] by simp_all
  have l: "length buf = length c + 16" using assms c by (simp add: buf_def)
  have r: "take 8 buf = mr" "mem_read buf 8 12 = d_nonce d" "mem_read buf 8 24 = d_nonce d @ n2" "drop 32 buf = drop 16 c"
    using assms by (simp_all add: buf_def mem_read_def)
  have e: "replicate 16 0 @ drop 16 c = c" unfolding assms(2) [symmetric] by simp
  define b where "b = mem_write (mem_write (mem_write buf 16 (replicate 16 0)) 16 m) 0
                (mem_read (mem_write (mem_write buf 16 (replicate 16 0)) 16 m) 48 (length buf - 48))"
  have "getquery_streamlined d mr buf (length buf) = Some (0, b, length m - 32)"
    unfolding getquery_streamlined_eq [OF assms(6)] b_def r e assms(1) using c l by simp
  moreover have "length b = length buf \<and> take (length m - 32) b = drop 32 m"
    using opened_buffer [of 16 m buf "length m - 32" "replicate 16 0"] c l by (simp add: b_def)
  ultimately show ?thesis by blast
qed

text \<open>What a keyed answer that is accepted rests on: a box for the nonce of the query.\<close>

definition boxed_for :: "dns_transmit \<Rightarrow> bytes \<Rightarrow> bool" where
  "boxed_for d msg \<longleftrightarrow> (\<exists>c n2. length n2 = 12 \<and> crypto_secretbox_open c (d_nonce d @ n2) (key_bytes d) = Some (replicate 32 0 @ msg))"

lemma boxed_forI: "crypto_secretbox_open c (d_nonce d @ n2) (key_bytes d) = Some (replicate 32 0 @ msg) \<Longrightarrow> length n2 = 12 \<Longrightarrow> boxed_for d msg"
  unfolding boxed_for_def by blast

lemma opened_only:
  "(if C then (case w of None \<Rightarrow> Some (1, x, i) | Some m \<Rightarrow> Some (0, f m, k)) else Some (1, x', j)) = Some (0 :: nat, b, n) \<Longrightarrow>
   C \<and> (\<exists>m. w = Some m \<and> b = f m \<and> n = k)"
  by (auto split: if_splits option.splits)

lemma getquery_streamlined_sound:
  assumes "getquery_streamlined d mr buf (length buf) = Some (0, buf', n)"
  shows "length buf' = length buf \<and> n \<le> length buf \<and> boxed_for d (take n buf')"
proof -
  obtain m where b: "48 \<le> length buf" "mem_read buf 8 12 = d_nonce d"
      and m: "crypto_secretbox_open (replicate 16 0 @ drop 32 buf) (mem_read buf 8 24) (key_bytes d) = Some m"
      and r: "buf' = mem_write (mem_write (mem_write buf 16 (replicate 16 0)) 16 m) 0
                (mem_read (mem_write (mem_write buf 16 (replicate 16 0)) 16 m) 48 (length buf - 48))" "n = length buf - 48"
    using opened_only [OF assms [unfolded getquery_streamlined_eq [OF getquery_streamlined_key [OF assms]]]] by blast
  have s: "length m = length buf - 16" "m = replicate 32 0 @ drop 32 m" using secretbox_open_shape [OF m] b(1) by simp_all
  have t: "length buf' = length buf \<and> take n buf' = drop 32 m"
    using opened_buffer [of 16 m buf n "replicate 16 0"] s(1) b(1) by (simp add: r)
  have "mem_read buf 8 24 = d_nonce d @ mem_read buf 20 12"
    using mem_read_split [of 8 12 12 buf] b by simp
  with m s(2) t have "crypto_secretbox_open (replicate 16 0 @ drop 32 buf) (d_nonce d @ mem_read buf 20 12) (key_bytes d) =
      Some (replicate 32 0 @ take n buf')" by simp
  moreover have "length (mem_read buf 20 12) = 12" using b(1) by simp
  ultimately show ?thesis using t r(2) unfolding boxed_for_def by auto
qed

subsection \<open>Answers in TXT form\<close>

lemma getquery_txtdata_eq:
  assumes "p + n \<le> length buf" "4 \<le> p" "txt_parse 0 (mem_read buf p n) = (t, out)" "length (key_bytes d) = 32"
  defines "b \<equiv> mem_write (mem_write buf 4 out) 0 (replicate 16 0)"
  shows "getquery_txtdata d buf (length buf) p n =
     (if t = 0 \<and> 28 \<le> length out
      then (case crypto_secretbox_open (replicate 16 0 @ drop 12 out) (d_nonce d @ take 12 out) (key_bytes d) of
              None \<Rightarrow> Some (1, b, length buf)
            | Some m \<Rightarrow> Some (0, mem_write (mem_write b 0 m) 0 (mem_read (mem_write b 0 m) 32 (length out - 28)), length out - 28))
      else Some (1, mem_write buf 4 out, length buf))"
proof -
  have g: "txt_gather 0 n p 0 4 buf = Some (t, 4 + length out, mem_write buf 4 out)"
    using assms by (intro txt_gather_parse) simp_all
  have "length out \<le> n" using length_txt_parse [of 0 "mem_read buf p n"] assms by simp
  then have l: "4 + length out \<le> length buf" using assms by simp
  show ?thesis
  proof (cases "t = 0 \<and> 28 \<le> length out")
    case True
    have n2: "rd (mem_write buf 4 out) 4 12 = Some (take 12 out)"
      using True l by (simp add: rd_def, subst mem_read_write_inside) (simp_all add: mem_read_def)
    have lb: "length b = length buf" using l True by (simp add: b_def)
    have w: "wr (mem_write buf 4 out) 0 (replicate 16 0) = Some b" using True l by (simp add: b_def wr_Some)
    have r: "rd b 0 (4 + length out) = Some (replicate 16 0 @ drop 12 out)"
      using True l by (simp add: b_def rd_def mem_read_def mem_write_def)
    have j: "4 + length out - 32 = length out - 28" by simp
    let ?w = "crypto_secretbox_open (replicate 16 0 @ drop 12 out) (d_nonce d @ take 12 out) (key_bytes d)"
    show ?thesis
    proof (cases ?w)
      case None
      then show ?thesis using True
        by (simp add: getquery_txtdata_def g n2 w r j key_ptr_Some [OF assms(4)] crypto_box_open_afternm_def)
    next
      case (Some m)
      then have "length m = 4 + length out" using secretbox_open_shape [OF Some] True by simp
      then show ?thesis using True Some l lb
        by (simp add: getquery_txtdata_def g n2 w r j key_ptr_Some [OF assms(4)] crypto_box_open_afternm_def wr_Some rd_Some)
    qed
  next
    case False
    then show ?thesis by (auto simp: getquery_txtdata_def g)
  qed
qed

lemma getquery_txtdata_key: "getquery_txtdata d buf n p k = Some (0, buf', j) \<Longrightarrow> length (key_bytes d) = 32"
  by (auto simp: getquery_txtdata_def bind_eq_Some_conv dest: key_ptr_SomeD split: if_splits)

lemma getquery_txtdata_sound:
  assumes "getquery_txtdata d buf (length buf) p n = Some (0, buf', k)" "p + n \<le> length buf" "4 \<le> p"
  shows "length buf' = length buf \<and> k \<le> length buf \<and> boxed_for d (take k buf')"
proof -
  obtain t out where o: "txt_parse 0 (mem_read buf p n) = (t, out)" by fastforce
  define b where "b = mem_write (mem_write buf 4 out) 0 (replicate 16 0)"
  obtain m where m: "28 \<le> length out" "crypto_secretbox_open (replicate 16 0 @ drop 12 out) (d_nonce d @ take 12 out) (key_bytes d) = Some m"
      "buf' = mem_write (mem_write b 0 m) 0 (mem_read (mem_write b 0 m) 32 (length out - 28))" "k = length out - 28"
    using opened_only [OF assms(1) [unfolded getquery_txtdata_eq [OF assms(2,3) o getquery_txtdata_key [OF assms(1)]], folded b_def]] by blast
  have "length out \<le> n" using length_txt_parse [of 0 "mem_read buf p n"] assms o by simp
  then have l: "4 + length out \<le> length buf" using assms by simp
  have s: "length m = length out + 4" "m = replicate 32 0 @ drop 32 m" using secretbox_open_shape [OF m(2)] m(1) by simp_all
  have t: "length buf' = length buf \<and> take k buf' = drop 32 m"
    using opened_buffer [of 0 m "mem_write buf 4 out" k "replicate 16 0"] s(1) l m(1) unfolding m(3,4) b_def by simp
  have "crypto_secretbox_open (replicate 16 0 @ drop 12 out) (d_nonce d @ take 12 out) (key_bytes d) = Some (replicate 32 0 @ take k buf')"
    using m(2) s(2) t by simp
  then have "boxed_for d (take k buf')" by (rule boxed_forI) (use m(1) in simp)
  then show ?thesis using t l m(4) by simp
qed

lemma getquery_txt_sound:
  assumes "getquery_txt d buf (length buf) = Some (0, buf', k)"
  shows "length buf' = length buf \<and> k \<le> length buf \<and> boxed_for d (take k buf')"
proof -
  have "\<exists>p n. getquery_txtdata d buf (length buf) p n = Some (0, buf', k) \<and> p + n \<le> length buf \<and> 4 \<le> p"
    using assms unfolding getquery_txt_def
    by (auto simp: Let_def rd_def dns_packet_copy_def dns_packet_copy_loop_eq split: if_splits prod.splits Option.bind_splits)
      (rule exI, rule exI, rule conjI, assumption, simp add: not_less)
  then show ?thesis using getquery_txtdata_sound by blast
qed

lemma getquery_txt_accepts:
  assumes q: "d_query d = Some q" "16 \<le> length q" "drop 14 q = dn_of qs @ r" "list_all is_label qs"
    and c: "crypto_secretbox_open c (d_nonce d @ n2) (key_bytes d) = Some m" "take 16 c = replicate 16 0" "length n2 = 12"
      "length (key_bytes d) = 32"
    and s: "concat ss = n2 @ drop 16 c" "\<forall>s \<in> set ss. length s < 256" "length (txt_strings ss) < 65536"
  defines "buf \<equiv> mem_read q 2 2 @ [132, 0, 0, 1, 0, 1, 0, 0, 0, 0] @ dn_of qs @ [0, 16, 0, 1, 192, 12, 0, 16, 0, 1, 0, 0, 0, 0] @
     uint16_pack_big (of_nat (length (txt_strings ss))) @ txt_strings ss"
  shows "\<exists>buf'. getquery_txt d buf (length buf) = Some (0, buf', length m - 32) \<and> length buf' = length buf \<and>
    take (length m - 32) buf' = drop 32 m"
proof -
  let ?n = "length (dn_of qs)" and ?t = "length (txt_strings ss)"
  have lb: "length buf = 28 + ?n + ?t" using q(2) by (simp add: buf_def)
  define A where "A = mem_read q 2 2 @ [132, 0, 0, 1, 0, 1, 0, 0, 0, 0 :: byte]"
  define H where "H = [0, 16, 0, 1, 192, 12, 0, 16, 0, 1, 0, 0, 0, 0 :: byte]"
  have AH: "length A = 12" "length H = 14" using q(2) by (simp_all add: A_def H_def)
  have buf: "buf = A @ dn_of qs @ H @ uint16_pack_big (of_nat ?t) @ txt_strings ss" by (simp add: buf_def A_def H_def)
  have r1: "mem_read buf 0 12 = A" "\<exists>z. drop 12 buf = dn_of qs @ z" using AH by (simp_all add: buf mem_read_def)
  have r2: "mem_read buf (12 + ?n) 16 = H @ uint16_pack_big (of_nat ?t)" "mem_read buf (28 + ?n) ?t = txt_strings ss"
    using AH by (simp_all add: buf mem_read_def)
  have u: "unat (of_nat ?t :: u16) = ?t" using s(3) by (simp add: unat_of_nat)
  have k1: "dns_packet_copy buf 0 12 = Some (12, A)" "dns_packet_copy buf (12 + ?n) 16 = Some (28 + ?n, H @ uint16_pack_big (of_nat ?t))"
    using lb r1(1) r2(1) by (simp_all add: dns_packet_copy_def dns_packet_copy_loop_eq)
  have k0: "rd q 2 2 = Some (mem_read q 2 2)" using q(2) by (simp add: rd_Some)
  have k2: "take 2 A = mem_read q 2 2" "drop 2 A = [132, 0, 0, 1, 0, 1, 0, 0, 0, 0]" using q(2) by (simp_all add: A_def)
  have k3: "dns_domain_length (drop 14 q) = Some ?n" using q(3,4) by simp
  have k4: "case_diffb (drop 12 buf) ?n (drop 14 q) = Some 0"
    using r1(2) q(3) lb by (subst case_diffb_zero_iff) auto
  have "getquery_txt d buf (length buf) = getquery_txtdata d buf (length buf) (28 + ?n) ?t"
    using AH lb by (simp add: getquery_txt_def Let_def q(1) k0 k1 k2 k3 k4 u H_def [symmetric])
  moreover have cl: "32 \<le> length c" "length m = length c" using secretbox_open_shape [OF c(1)] by simp_all
  have lo: "length (concat ss) = length c - 4" using s(1) c(3) cl(1) by simp
  have e: "replicate 16 0 @ drop 12 (concat ss) = c" "take 12 (concat ss) = n2"
    unfolding s(1) using c(2,3) by (simp_all flip: c(2))
  define b where "b = mem_write (mem_write buf 4 (concat ss)) 0 (replicate 16 0)"
  define b' where "b' = mem_write (mem_write b 0 m) 0 (mem_read (mem_write b 0 m) 32 (length m - 32))"
  have lt: "length (concat ss) \<le> ?t" using length_txt_parse [of 0 "txt_strings ss"] txt_parse_strings [OF s(2)] by simp
  have "getquery_txtdata d buf (length buf) (28 + ?n) ?t = Some (0, b', length m - 32)"
    using getquery_txtdata_eq [of "28 + ?n" ?t buf 0 "concat ss" d] lb lo cl c(1) txt_parse_strings [OF s(2)] c(4)
    by (simp add: r2 e b_def b'_def)
  moreover have "length b' = length buf \<and> take (length m - 32) b' = drop 32 m"
    using opened_buffer [of 0 m "mem_write buf 4 (concat ss)" "length m - 32" "replicate 16 0"] cl lo lb lt
    by (simp add: b'_def b_def)
  ultimately show ?thesis by auto
qed

lemma getquery_sound:
  assumes "getquery d mr buf (length buf) = Some (0, buf', k)"
  shows "length buf' = length buf \<and> k \<le> length buf \<and>
    (key_byte d = Some 0 \<and> take k buf' = buf \<or> key_byte d \<noteq> Some 0 \<and> boxed_for d (take k buf'))"
proof -
  obtain kb where kb: "key_byte d = Some kb" using assms by (cases "key_byte d") (simp_all add: getquery_def)
  consider "kb = 0" | "kb \<noteq> 0" "kb \<noteq> 2" | "kb = 2" by blast
  then show ?thesis
    using assms kb getquery_streamlined_sound [of d mr buf buf' k] getquery_txt_sound [of d buf buf' k]
    by cases (auto simp: getquery_def)
qed

subsection \<open>The question of an answer\<close>

text \<open>A packet that answers the question with the id \<open>i\<close>, the name \<open>ls\<close> and the type \<open>ty\<close>.\<close>

definition answers :: "bytes \<Rightarrow> bytes \<Rightarrow> bytes list \<Rightarrow> bytes \<Rightarrow> bool" where
  "answers i ty ls buf \<longleftrightarrow> 12 \<le> length buf \<and> take 2 buf = i \<and> buf ! 4 = 0 \<and> buf ! 5 = 1 \<and>
     (\<exists>ms k e. name_at buf 12 ms k e \<and> wf_name ms \<and> lower ms = lower ls \<and> mem_read buf e 4 = ty @ [0, 1])"

lemma packet_copy_eq:
  "0 < n \<Longrightarrow> dns_packet_copy buf p n = Some (if p + n \<le> length buf then (p + n, mem_read buf p n) else (0, drop p buf))"
  by (simp add: dns_packet_copy_def dns_packet_copy_loop_eq)

lemma irrelevant_False_iff:
  assumes "length (d_id d) = 2" "length (d_qtype d) = 2" "name_at_ptr d = Some (dn_of ls @ r)" "list_all is_label ls"
  shows "irrelevant al d buf \<noteq> None \<and> (irrelevant al d buf = Some False \<longrightarrow> answers (d_id d) (d_qtype d) ls buf)"
proof -
  obtain p dn where g: "dns_packet_getname al buf 12 None = Some (p, dn)"
      "p = 0 \<or> (0 < p \<and> (\<exists>ms k. wf_name ms \<and> name_at buf 12 ms k p \<and> dn = Some (dn_of ms)))"
    using getname_result [of al buf 12 None] by blast
  show ?thesis
  proof (cases "p = 0 \<or> \<not> 12 \<le> length buf")
    case True
    then show ?thesis using g by (auto simp: irrelevant_def packet_copy_eq)
  next
    case False
    then obtain ms k where ms: "wf_name ms" "name_at buf 12 ms k p" "dn = Some (dn_of ms)" using g(2) by blast
    have eq: "dns_domain_equal (dn_of ms) (dn_of ls @ r) = Some (lower ms = lower ls)"
      using dns_domain_equal_dn_of [of ms ls "[]" r] ms(1) assms(4) by (simp add: wf_name_def)
    have b: "take 2 (mem_read buf 0 12) = take 2 buf" "mem_read buf 0 12 ! 4 = buf ! 4" "mem_read buf 0 12 ! 5 = buf ! 5"
      using False by (simp_all add: mem_read_def)
    have q: "mem_read buf p 4 = d_qtype d @ [0, 1]" if "take 2 (mem_read buf p 4) = d_qtype d" "drop 2 (mem_read buf p 4) = [0, 1]"
      using that append_take_drop_id [of 2 "mem_read buf p 4"] by simp
    show ?thesis
      using False ms g(1) q by (auto simp: irrelevant_def packet_copy_eq b eq assms(3) answers_def)
  qed
qed

lemma irrelevant_accepts:
  assumes "length (d_id d) = 2" "length (d_qtype d) = 2" "name_at_ptr d = Some (dn_of ls @ r)" "list_all is_label ls"
    and a: "12 \<le> length buf" "take 2 buf = d_id d" "buf ! 4 = 0" "buf ! 5 = 1"
    and n: "name_at buf 12 ms k e" "wf_name ms" "k < 1000" "lower ms = lower ls" "mem_read buf e 4 = d_qtype d @ [0, 1]"
  shows "irrelevant (\<lambda>_. True) d buf = Some False"
proof -
  have eq: "dns_domain_equal (dn_of ms) (dn_of ls @ r) = Some True"
    using dns_domain_equal_dn_of [of ms ls "[]" r] n(2,4) assms(4) by (simp add: wf_name_def)
  have "length (mem_read buf e 4) = 4" using n(5) assms(2) by simp
  then have e: "e + 4 \<le> length buf" by (simp add: mem_read_def split: if_splits)
  have b: "take 2 (mem_read buf 0 12) = take 2 buf" "mem_read buf 0 12 ! 4 = buf ! 4" "mem_read buf 0 12 ! 5 = buf ! 5"
    using a(1) by (simp_all add: mem_read_def)
  have "0 < e" using name_at_bounds [OF n(1)] by simp
  then show ?thesis
    using a e assms(2) by (simp add: irrelevant_def packet_copy_eq b eq assms(3) getname_delivers [OF n(1-3)] n(5))
qed

lemma serverwantstcp_eq: "serverwantstcp buf = Some (\<not> (12 \<le> length buf \<and> buf ! 2 AND 2 = 0))"
  by (auto simp: serverwantstcp_def packet_copy_eq mem_read_def)

lemma serverfailed_eq: "\<exists>f y'. serverfailed os buf y = Some (f, y') \<and> (f \<longleftrightarrow> \<not> (12 \<le> length buf \<and> unat (buf ! 3 AND 15) \<in> {0, 3})) \<and>
    magicq y' = magicq y \<and> magicr y' = magicr y"
  by (auto simp: serverfailed_def packet_copy_eq mem_read_def Let_def set_errno_def)

text \<open>A name pointer that leads to a byte above 127 matches no question.\<close>

lemma equal_high_byte:
  assumes "list_all is_label ms" "128 \<le> unat b"
  shows "dns_domain_equal (dn_of ms) (b # x) \<noteq> Some True"
proof -
  obtain c z where c: "dn_of ms = c # z" "unat c < 64"
    using assms(1) label_length_byte(1) by (cases ms) (fastforce simp: is_label_def)+
  then have lt: "c < 65" "\<not> b < 65" using assms(2) by (simp_all add: word_less_nat_alt)
  have n: "case_fold b \<noteq> case_fold c" using case_fold_lt_65 [of b] case_fold_small [OF lt(1)] lt by auto
  have "dns_domain_length (c # z) = Some (length (c # z))"
    using dns_domain_length_dn_of [of ms "[]"] assms(1) c by simp
  moreover have "case_diffb (c # z) (Suc k) (b # x) \<noteq> Some 0" for k
    using n by (simp add: word_uint_eq_iff)
  ultimately show ?thesis unfolding c by (auto simp: dns_domain_equal_def bind_eq_Some_conv simp del: case_diffb.simps dns_domain_length.simps split: if_splits)
qed

lemma irrelevant_high_byte:
  assumes "name_at_ptr d = Some (b # x)" "128 \<le> unat b"
  shows "irrelevant al d buf \<noteq> Some False"
proof -
  obtain p dn where g: "dns_packet_getname al buf 12 None = Some (p, dn)"
      "p = 0 \<or> (0 < p \<and> (\<exists>ms k. wf_name ms \<and> name_at buf 12 ms k p \<and> dn = Some (dn_of ms)))"
    using getname_result [of al buf 12 None] by blast
  show ?thesis
  proof (cases "p = 0 \<or> \<not> 12 \<le> length buf")
    case True
    then show ?thesis using g by (auto simp: irrelevant_def packet_copy_eq)
  next
    case False
    then obtain ms where "wf_name ms" "dn = Some (dn_of ms)" using g(2) by blast
    then show ?thesis
      using False g(1) equal_high_byte [of ms b x] assms
      by (cases "dns_domain_equal (dn_of ms) (b # x)") (auto simp: irrelevant_def packet_copy_eq wf_name_def)
  qed
qed

subsection \<open>Decoding always returns\<close>

text \<open>The question of a query in TXT form is a domain name, of any length, that starts with labels of at most 50 bytes.\<close>

definition short_label :: "bytes \<Rightarrow> bool" where
  "short_label l \<longleftrightarrow> l \<noteq> [] \<and> length l \<le> 50"

lemma short_is_label: "list_all short_label L \<Longrightarrow> list_all is_label L"
  by (auto simp: list_all_iff short_label_def is_label_def)

lemma foldl_chunk50_labels:
  assumes "don = labels_enc L" "list_all short_label L" "length cur < 50" "foldl chunk50 (don, cur) cs = (don', cur')"
  shows "\<exists>L'. don' = labels_enc L' \<and> list_all short_label L' \<and> length cur' < 50"
  using assms
proof (induction cs arbitrary: don cur L)
  case (Cons c cs)
  show ?case
  proof (cases "length cur = 49")
    case True
    then have "chunk50 (don, cur) c = (labels_enc (L @ [cur @ [c]]), [])" using Cons.prems(1) by (simp add: chunk50_def labels_enc_def)
    moreover have "short_label (cur @ [c])" using True by (simp add: short_label_def)
    then have "list_all short_label (L @ [cur @ [c]])" using Cons.prems(2) by simp
    ultimately show ?thesis using Cons.prems(4) by (intro Cons.IH [of _ "L @ [cur @ [c]]" "[]"]) simp_all
  next
    case False
    then have "chunk50 (don, cur) c = (don, cur @ [c])" by (simp add: chunk50_def Let_def)
    then show ?thesis using Cons.prems False by (intro Cons.IH [of don L "cur @ [c]"]) simp_all
  qed
qed auto

lemma encodebytes_labels: "\<exists>L. dns_base32_encodebytes b = labels_enc L \<and> list_all short_label L"
proof -
  obtain ds where "\<forall>d \<in> set ds. d < 32" "8 * length b \<le> 5 * length ds" "5 * length ds < 8 * length b + 5" "le_val 32 ds = Base32.bytes_val b"
      and E: "dns_base32_encodebytes b =
       (case foldl chunk50 ([], []) (map b32_char ds) of (don, cur) \<Rightarrow> if cur = [] then don else don @ of_nat (length cur) # cur)"
    by (rule encodebytes_digits)
  obtain don cur where f: "foldl chunk50 ([], []) (map b32_char ds) = (don, cur)" by fastforce
  obtain L where L: "don = labels_enc L" "list_all short_label L" "length cur < 50"
    using foldl_chunk50_labels [OF _ _ _ f, of "[]"] by (auto simp: labels_enc_def)
  show ?thesis
  proof (cases "cur = []")
    case True
    then show ?thesis using E f L by auto
  next
    case False
    then have "dns_base32_encodebytes b = labels_enc (L @ [cur])" "short_label cur"
      using E f L by (simp_all add: labels_enc_def short_label_def)
    then show ?thesis using L(2) by (intro exI [of _ "L @ [cur]"]) simp
  qed
qed

lemma encodekey_label: "length key = 32 \<Longrightarrow> \<exists>l. dns_base32_encodekey key = labels_enc [l] \<and> is_label l"
proof -
  assume k: "length key = 32"
  obtain v vb cs where c: "b32_encodekey_loop 0 0 [] (take 32 key) = (v, vb, cs)" by (metis prod_cases3)
  then have e: "dns_base32_encodekey key = 54 # [120, 49, 97] @ cs"
    using b32_encodekey_loop_out [of 0 0 "[54, 120, 49, 97]" "take 32 key"] by (simp add: dns_base32_encodekey_def)
  then have "length cs = 51" using length_encodekey [OF k] by simp
  then show ?thesis using e by (intro exI [of _ "[120, 49, 97] @ cs"]) (simp add: labels_enc_def is_label_def)
qed

lemma text_name:
  assumes "length pk = 32" "list_all is_label sl"
  shows "\<exists>qs. dns_base32_encodebytes b @ dns_base32_encodekey pk @ dn_of sl = dn_of qs \<and> list_all is_label qs"
proof -
  obtain L l where "dns_base32_encodebytes b = labels_enc L" "list_all short_label L" "dns_base32_encodekey pk = labels_enc [l]" "is_label l"
    using encodebytes_labels [of b] encodekey_label [OF assms(1)] by blast
  then show ?thesis using assms(2) short_is_label [of L] by (intro exI [of _ "L @ [l] @ sl"]) (simp add: dn_of_labels labels_enc_def)
qed

lemma getquery_txt_returns:
  assumes "d_query d = Some q" "drop 14 q = dn_of qs @ r" "list_all is_label qs" "length (key_bytes d) = 32"
  shows "getquery_txt d buf (length buf) \<noteq> None"
proof -
  have n: "dns_domain_length (drop 14 q) = Some (length (dn_of qs))" using assms by simp
  have c: "\<exists>e. case_diffb (drop 12 buf) (length (dn_of qs)) (drop 14 q) = Some e" if "\<not> length buf - 12 < length (dn_of qs)"
    using that assms(2) by (intro case_diffb_defined) auto
  have t: "getquery_txtdata d buf (length buf) p k \<noteq> None" if "p + k \<le> length buf" "4 \<le> p" for p k
  proof -
    obtain t out where "txt_parse 0 (mem_read buf p k) = (t, out)" by fastforce
    from getquery_txtdata_eq [OF that this assms(4)] show ?thesis by (auto split: option.split)
  qed
  have t': "\<exists>e b j. getquery_txtdata d buf (length buf) p k = Some (e, b, j)" if "p + k \<le> length buf" "4 \<le> p" for p k
    using t [OF that] by auto
  have "14 < length q" using assms(2) by (cases qs; cases "14 < length q") auto
  then have i: "rd q 2 2 = Some (mem_read q 2 2)" by (simp add: rd_Some)
  show ?thesis
    using c by (auto simp: getquery_txt_def i Let_def assms(1) n packet_copy_eq split: prod.split intro!: t') (simp add: not_less le_diff_conv2 add.commute)
qed

lemma getquery_returns:
  assumes "key_byte d \<noteq> None" "key_byte d \<noteq> Some 0 \<Longrightarrow> length (key_bytes d) = 32" "key_byte d = Some 2 \<Longrightarrow> \<exists>q qs r. d_query d = Some q \<and> drop 14 q = dn_of qs @ r \<and> list_all is_label qs"
  shows "getquery d mr buf (length buf) \<noteq> None"
proof -
  obtain k where k: "key_byte d = Some k" using assms(1) by blast
  show ?thesis
  proof (cases "k = 2")
    case True
    then show ?thesis using assms(2,3) k getquery_txt_returns [of d _ _ _ buf] by (auto simp: getquery_def)
  next
    case False
    then show ?thesis using k assms(2) by (auto simp: getquery_def getquery_streamlined_eq split: option.split)
  qed
qed

lemma getquery_length: "getquery d mr buf (length buf) = Some (e, buf', n) \<Longrightarrow> e = 0 \<Longrightarrow> length buf' = length buf \<and> n \<le> length buf"
  using getquery_sound by blast

end
