(* ===== verification/CurveCache.thy ===== *)
theory CurveCache
  imports ByteOps
begin

section \<open>The cache of shared secrets\<close>

text \<open>
  The model of \<open>curvedns-0.88/cache_hashtable.c\<close>: a hash table over a fixed array of entries that are
  linked three ways, by bucket (\<open>next\<close>, \<open>prev\<close>) and by age (\<open>nexttable\<close>).  A pointer to an entry is its
  index, \<open>None\<close> the null pointer; following a null pointer is \<open>None\<close> as a result.  The names of the
  functions have the suffix \<open>_ht\<close>, since dq has a cache of its own.
\<close>

record centry =
  e_next :: "nat option"
  e_prev :: "nat option"
  e_nexttable :: "nat option"
  e_key :: bytes
  e_value :: bytes

record ctable =
  t_buckets :: "nat option list"
  t_entries :: "centry list"
  t_headunused :: "nat option"
  t_headused :: "nat option"
  t_lastused :: "nat option"
  t_nrbuckets :: nat
  t_nrentries :: nat
  t_nrused :: nat

definition cache_hash :: "bytes \<Rightarrow> u32" where
  "cache_hash key = fold (\<lambda>b h. (push_bit 5 h + h) + ucast b) (take 32 key) 5381"

definition cache_slot :: "ctable \<Rightarrow> bytes \<Rightarrow> nat" where
  "cache_slot t key = unat (cache_hash key) mod t_nrbuckets t"

text \<open>Assignment to fields of \<open>entries[i]\<close>.\<close>

definition on_entry :: "nat \<Rightarrow> (centry \<Rightarrow> centry) \<Rightarrow> ctable \<Rightarrow> ctable option" where
  "on_entry i f t = do { e \<leftarrow> ld (t_entries t) i; Some (t\<lparr>t_entries := (t_entries t)[i := f e]\<rparr>) }"

definition zero_entry :: centry where
  "zero_entry = \<lparr>e_next = None, e_prev = None, e_nexttable = None, e_key = replicate 32 0, e_value = replicate 32 0\<rparr>"

text \<open>The three calls of \<open>malloc\<close> succeed when \<open>m\<close> holds of 0, 1 and 2; \<open>None\<close> is the null result.\<close>

definition cache_init_ht :: "(nat \<Rightarrow> bool) \<Rightarrow> int \<Rightarrow> int \<Rightarrow> ctable option" where
  "cache_init_ht m nrbuckets nrentries =
     (if nrbuckets < 1 \<or> nrentries < 1 \<or> nrentries < nrbuckets then None
      else if \<not> m 0 \<or> \<not> m 1 \<or> \<not> m 2 then None
      else Some \<lparr>t_buckets = replicate (nat nrbuckets) None,
        t_entries = fold (\<lambda>i es. es[i := (es ! i)\<lparr>e_nexttable := Some (i + 1)\<rparr>]) [0..<nat nrentries - 1] (replicate (nat nrentries) zero_entry),
        t_headunused = Some 0, t_headused = None, t_lastused = None,
        t_nrbuckets = nat nrbuckets, t_nrentries = nat nrentries, t_nrused = 0\<rparr>)"

text \<open>The walk along a bucket; it does not return on a cyclic chain.\<close>

partial_function (option) chain_find :: "ctable \<Rightarrow> bytes \<Rightarrow> nat option \<Rightarrow> nat option option" where
  "chain_find t key p =
     (case p of None \<Rightarrow> Some None
      | Some i \<Rightarrow> do { e \<leftarrow> ld (t_entries t) i;
          if e_key e = take 32 key then Some (Some i) else chain_find t key (e_next e) })"

declare chain_find.simps [code]

definition cache_get_ht :: "ctable \<Rightarrow> bytes \<Rightarrow> nat option option" where
  "cache_get_ht t key =
     (if t_nrused t = 0 then Some None
      else do { p \<leftarrow> ld (t_buckets t) (cache_slot t key); chain_find t key p })"

text \<open>Where a new entry comes from: the oldest one in use when the table is full, else an unused one.\<close>

definition take_entry :: "ctable \<Rightarrow> (nat option \<times> ctable) option" where
  "take_entry t =
     (if t_nrused t \<ge> t_nrentries t
      then if t_headunused t \<noteq> None then Some (None, t)
           else do {
             i \<leftarrow> t_headused t;
             e \<leftarrow> ld (t_entries t) i;
             let t = t\<lparr>t_headused := e_nexttable e\<rparr>;
             t \<leftarrow> (case e_prev e of
                 Some j \<Rightarrow> on_entry j (\<lambda>e. e\<lparr>e_next := None\<rparr>) t
               | None \<Rightarrow> do { b \<leftarrow> st (t_buckets t) (cache_slot t (e_key e)) None; Some (t\<lparr>t_buckets := b\<rparr>) });
             Some (Some i, t) }
      else do {
        let t = t\<lparr>t_nrused := t_nrused t + 1\<rparr>;
        i \<leftarrow> t_headunused t;
        e \<leftarrow> ld (t_entries t) i;
        let t = t\<lparr>t_headunused := e_nexttable e\<rparr>;
        Some (Some i, if t_headused t = None then t\<lparr>t_headused := Some i\<rparr> else t) })"

definition put_entry :: "nat \<Rightarrow> bytes \<Rightarrow> bytes \<Rightarrow> ctable \<Rightarrow> ctable option" where
  "put_entry i key v t =
     do { t \<leftarrow> on_entry i (\<lambda>e. e\<lparr>e_prev := None, e_next := None, e_nexttable := None, e_key := take 32 key, e_value := take 32 v\<rparr>) t;
          t \<leftarrow> (case t_lastused t of None \<Rightarrow> Some t | Some l \<Rightarrow> on_entry l (\<lambda>e. e\<lparr>e_nexttable := Some i\<rparr>) t);
          let t = t\<lparr>t_lastused := Some i\<rparr>;
          p \<leftarrow> ld (t_buckets t) (cache_slot t key);
          t \<leftarrow> (case p of None \<Rightarrow> Some t
             | Some j \<Rightarrow> do { t \<leftarrow> on_entry j (\<lambda>e. e\<lparr>e_prev := Some i\<rparr>) t; on_entry i (\<lambda>e. e\<lparr>e_next := Some j\<rparr>) t });
          b \<leftarrow> st (t_buckets t) (cache_slot t key) (Some i);
          Some (t\<lparr>t_buckets := b\<rparr>) }"

definition cache_set_ht :: "ctable \<Rightarrow> bytes \<Rightarrow> bytes \<Rightarrow> (nat option \<times> ctable) option" where
  "cache_set_ht t key v =
     do { (entry, t) \<leftarrow> take_entry t;
          case entry of None \<Rightarrow> Some (None, t)
          | Some i \<Rightarrow> do { t \<leftarrow> put_entry i key v t; Some (Some i, t) } }"

partial_function (option) empty_loop :: "ctable \<Rightarrow> nat option \<Rightarrow> ctable option" where
  "empty_loop t p =
     (case p of None \<Rightarrow> Some t
      | Some i \<Rightarrow> do { e \<leftarrow> ld (t_entries t) i;
          t \<leftarrow> on_entry i (\<lambda>e. e\<lparr>e_nexttable := t_headunused t, e_next := None, e_prev := None, e_key := replicate 32 0, e_value := replicate 32 0\<rparr>) t;
          empty_loop (t\<lparr>t_headunused := Some i\<rparr>) (e_nexttable e) })"

definition cache_empty_ht :: "ctable \<Rightarrow> ctable option" where
  "cache_empty_ht t =
     do { t \<leftarrow> empty_loop t (t_headused t);
          Some (t\<lparr>t_buckets := replicate (t_nrbuckets t) None, t_headused := None, t_lastused := None, t_nrused := 0\<rparr>) }"

subsection \<open>Lists in the table\<close>

text \<open>
  \<open>linked f p is\<close>: from \<open>p\<close> the field \<open>f\<close> leads through the entries \<open>is\<close> to a null pointer;
  \<open>backs f p is\<close>: the field \<open>f\<close> of each of them leads to the one before, that of the first to \<open>p\<close>.
\<close>

fun linked :: "('i \<Rightarrow> 'i option) \<Rightarrow> 'i option \<Rightarrow> 'i list \<Rightarrow> bool" where
  "linked f p [] \<longleftrightarrow> p = None"
| "linked f p (i # is) \<longleftrightarrow> p = Some i \<and> linked f (f i) is"

fun backs :: "('i \<Rightarrow> 'i option) \<Rightarrow> 'i option \<Rightarrow> 'i list \<Rightarrow> bool" where
  "backs f p [] \<longleftrightarrow> True"
| "backs f p (i # is) \<longleftrightarrow> f i = p \<and> backs f (Some i) is"

lemma linked_path_cong: "(\<And>i. i \<in> set is \<Longrightarrow> f i = g i) \<Longrightarrow> linked f p is = linked g p is"
  by (induction "is" arbitrary: p) auto

lemma backs_cong: "(\<And>i. i \<in> set is \<Longrightarrow> f i = g i) \<Longrightarrow> backs f p is = backs g p is"
  by (induction "is" arbitrary: p) auto

lemma linked_None [simp]: "linked f None is = (is = [])"
  by (cases "is") auto

lemma linked_hd: "linked f p is \<Longrightarrow> p = (if is = [] then None else Some (hd is))"
  by (cases "is") auto

lemma linked_snoc:
  assumes "linked f p is" "i \<notin> set is" "g i = None" "\<And>j. j \<in> set (butlast is) \<Longrightarrow> g j = f j" "is \<noteq> [] \<Longrightarrow> g (last is) = Some i"
  shows "linked g (if is = [] then Some i else p) (is @ [i])"
  using assms
proof (induction "is" arbitrary: p)
  case (Cons j "is")
  have "linked g (if is = [] then Some i else f j) (is @ [i])"
    using Cons.prems by (intro Cons.IH) (auto split: if_splits)
  moreover have "g j = (if is = [] then Some i else f j)" using Cons.prems(4,5) by auto
  ultimately show ?case using Cons.prems(1) by simp
qed simp

lemma linked_butlast:
  assumes "linked f p (is @ [i])" "distinct (is @ [i])" "\<And>j. j \<in> set is \<Longrightarrow> j \<noteq> last is \<Longrightarrow> g j = f j" "is \<noteq> [] \<Longrightarrow> g (last is) = None"
  shows "linked g (if is = [] then None else p) is"
  using assms
proof (induction "is" arbitrary: p)
  case (Cons j "is")
  have "linked g (if is = [] then None else f j) is"
    using Cons.prems by (intro Cons.IH) (auto split: if_splits)
  moreover have "g j = (if is = [] then None else f j)" using Cons.prems by (cases "is = []") (auto dest: last_in_set)
  ultimately show ?case using Cons.prems(1) by simp
qed simp

lemma backs_append: "backs f p (is @ js) = (backs f p is \<and> backs f (if is = [] then p else Some (last is)) js)"
  by (induction "is" arbitrary: p) auto

subsection \<open>The invariant\<close>

abbreviation e_at :: "ctable \<Rightarrow> nat \<Rightarrow> centry" where
  "e_at t i \<equiv> t_entries t ! i"

definition slot_of :: "ctable \<Rightarrow> nat \<Rightarrow> nat" where
  "slot_of t i = cache_slot t (e_key (e_at t i))"

text \<open>The chain of bucket \<open>b\<close>, newest entry first, when \<open>qs\<close> are the entries in use from the oldest to the newest.\<close>

definition chain :: "ctable \<Rightarrow> nat list \<Rightarrow> nat \<Rightarrow> nat list" where
  "chain t qs b = rev (filter (\<lambda>i. slot_of t i = b) qs)"

text \<open>\<open>xs\<close> are entries that have left their list and are not yet in the other: at most one, between \<open>take_entry\<close> and \<open>put_entry\<close>.\<close>

definition ht_inv :: "ctable \<Rightarrow> nat list \<Rightarrow> nat list \<Rightarrow> nat list \<Rightarrow> bool" where
  "ht_inv t us qs xs \<longleftrightarrow> 0 < t_nrbuckets t \<and> length (t_buckets t) = t_nrbuckets t \<and> length (t_entries t) = t_nrentries t \<and>
     distinct (xs @ us @ qs) \<and> set (xs @ us @ qs) = {..<t_nrentries t} \<and> t_nrused t = length (xs @ qs) \<and>
     linked (\<lambda>i. e_nexttable (e_at t i)) (t_headunused t) us \<and>
     linked (\<lambda>i. e_nexttable (e_at t i)) (if qs = [] then None else t_headused t) qs \<and>
     t_headused t = (if qs @ xs = [] then None else Some (hd (qs @ xs))) \<and>
     t_lastused t = (if qs = [] then None else Some (last qs)) \<and>
     (\<forall>b < t_nrbuckets t. linked (\<lambda>i. e_next (e_at t i)) (t_buckets t ! b) (chain t qs b) \<and>
        backs (\<lambda>i. e_prev (e_at t i)) None (chain t qs b))"

definition entry_of :: "ctable \<Rightarrow> nat \<Rightarrow> bytes \<times> bytes" where
  "entry_of t i = (e_key (e_at t i), e_value (e_at t i))"

text \<open>The meaning of a table: keys with their values, the oldest first.\<close>

definition ht_rep :: "ctable \<Rightarrow> nat \<Rightarrow> (bytes \<times> bytes) list \<Rightarrow> bool" where
  "ht_rep t n kvs \<longleftrightarrow> t_nrentries t = n \<and> (\<exists>us qs. ht_inv t us qs [] \<and> kvs = map (entry_of t) qs)"

lemma on_entry_eq: "i < length (t_entries t) \<Longrightarrow> on_entry i f t = Some (t\<lparr>t_entries := (t_entries t)[i := f (e_at t i)]\<rparr>)"
  by (simp add: on_entry_def ld_def)

lemma cache_slot_upd [simp]:
  "cache_slot (t\<lparr>t_entries := es\<rparr>) = cache_slot t" "cache_slot (t\<lparr>t_buckets := bs\<rparr>) = cache_slot t" "cache_slot (t\<lparr>t_headused := a\<rparr>) = cache_slot t"
  "cache_slot (t\<lparr>t_headunused := a\<rparr>) = cache_slot t" "cache_slot (t\<lparr>t_lastused := a\<rparr>) = cache_slot t" "cache_slot (t\<lparr>t_nrused := n\<rparr>) = cache_slot t"
  by (simp_all add: cache_slot_def fun_eq_iff)

lemma cache_slot_less [simp]: "0 < t_nrbuckets t \<Longrightarrow> cache_slot t k < t_nrbuckets t"
  by (simp add: cache_slot_def)

lemma cache_slot_take [simp]: "cache_slot t (take 32 k) = cache_slot t k"
  by (simp add: cache_slot_def cache_hash_def)

subsection \<open>Lookup\<close>

lemma chain_find_linked:
  assumes "linked (\<lambda>i. e_next (e_at t i)) p is" "set is \<subseteq> {..<length (t_entries t)}"
  shows "chain_find t k p = Some (List.find (\<lambda>i. e_key (e_at t i) = take 32 k) is)"
  using assms
proof (induction "is" arbitrary: p)
  case Nil
  then show ?case by (simp add: chain_find.simps)
next
  case (Cons i "is")
  then show ?case by (subst chain_find.simps) (simp add: ld_def)
qed

lemma find_filter: "(\<And>x. P x \<Longrightarrow> Q x) \<Longrightarrow> List.find P (filter Q xs) = List.find P xs"
  by (induction xs) auto

lemma map_of_find:
  "map_of (map (\<lambda>i. (k i, v i)) is) x = map_option v (List.find (\<lambda>i. k i = x) is)"
  by (induction "is") auto

lemma cache_get_result:
  assumes "ht_inv t us qs []"
  shows "\<exists>r. cache_get_ht t k = Some r \<and> map_option (\<lambda>i. e_value (e_at t i)) r = map_of (rev (map (entry_of t) qs)) (take 32 k) \<and>
    (\<forall>i. r = Some i \<longrightarrow> i < length (t_entries t))"
proof (cases "t_nrused t = 0")
  case True
  then show ?thesis using assms by (simp add: cache_get_ht_def ht_inv_def)
next
  case False
  let ?b = "cache_slot t k" and ?P = "\<lambda>i. e_key (e_at t i) = take 32 k"
  have I: "0 < t_nrbuckets t" "length (t_buckets t) = t_nrbuckets t" "set qs \<subseteq> {..<length (t_entries t)}"
    using assms by (auto simp: ht_inv_def)
  have b: "?b < t_nrbuckets t" using I by simp
  then have l: "linked (\<lambda>i. e_next (e_at t i)) (t_buckets t ! ?b) (chain t qs ?b)" using assms by (simp add: ht_inv_def)
  have "set (chain t qs ?b) \<subseteq> {..<length (t_entries t)}" using I by (auto simp: chain_def)
  note chain_find_linked [OF l this, of k]
  moreover have "List.find ?P (chain t qs ?b) = List.find ?P (rev qs)"
  proof -
    have "slot_of t i = ?b" if "?P i" for i
    proof -
      have "cache_slot t (e_key (e_at t i)) = cache_slot t (take 32 k)" using that by simp
      then show ?thesis by (simp add: slot_of_def)
    qed
    then have "List.find ?P (filter (\<lambda>i. slot_of t i = ?b) (rev qs)) = List.find ?P (rev qs)" by (rule find_filter)
    then show ?thesis by (simp add: chain_def rev_filter)
  qed
  moreover have "cache_get_ht t k = chain_find t k (t_buckets t ! ?b)" using False b I(2) by (simp add: cache_get_ht_def ld_def)
  moreover have "map_of (rev (map (entry_of t) qs)) (take 32 k) = map_option (\<lambda>i. e_value (e_at t i)) (List.find ?P (rev qs))"
    unfolding rev_map entry_of_def by (rule map_of_find)
  moreover have "i < length (t_entries t)" if "List.find ?P (rev qs) = Some i" for i
  proof -
    have "i \<in> set (rev qs)" using that unfolding find_Some_iff by (metis nth_mem)
    then show ?thesis using I(3) by auto
  qed
  ultimately show ?thesis by (intro exI [of _ "List.find ?P (rev qs)"]) simp
qed

subsection \<open>Insertion\<close>

lemma ht_inv_sizes:
  assumes "ht_inv t us qs xs"
  shows "length xs + length us + length qs = t_nrentries t" "i \<in> set (xs @ us @ qs) \<Longrightarrow> i < length (t_entries t)"
proof -
  have d: "distinct (xs @ us @ qs)" and s: "set (xs @ us @ qs) = {..<t_nrentries t}" and l: "length (t_entries t) = t_nrentries t"
    using assms by (simp_all add: ht_inv_def)
  show "length xs + length us + length qs = t_nrentries t" using distinct_card [OF d] s by simp
  show "i \<in> set (xs @ us @ qs) \<Longrightarrow> i < length (t_entries t)" unfolding s l by simp
qed

lemma ht_inv_chain:
  "ht_inv t us qs xs \<Longrightarrow> b < t_nrbuckets t \<Longrightarrow>
   linked (\<lambda>i. e_next (e_at t i)) (t_buckets t ! b) (chain t qs b) \<and> backs (\<lambda>i. e_prev (e_at t i)) None (chain t qs b)"
  by (simp add: ht_inv_def)

lemma chain_Cons: "chain t (i # qs) b = chain t qs b @ (if slot_of t i = b then [i] else [])"
  by (simp add: chain_def)

lemma chain_snoc: "chain t (qs @ [i]) b = (if slot_of t i = b then [i] else []) @ chain t qs b"
  by (simp add: chain_def)

lemma set_chain: "set (chain t qs b) \<subseteq> set qs"
  by (auto simp: chain_def)

lemma chain_cong: "(\<And>i. i \<in> set qs \<Longrightarrow> slot_of t i = slot_of t' i) \<Longrightarrow> chain t qs b = chain t' qs b"
  unfolding chain_def by (simp cong: filter_cong)

text \<open>The oldest entry is the last of its chain: its \<open>prev\<close> field tells whether it is alone there.\<close>

lemma oldest_in_chain:
  assumes "ht_inv t us (i # qs) xs"
  defines "cs \<equiv> chain t qs (slot_of t i)"
  shows "e_prev (e_at t i) = (if cs = [] then None else Some (last cs))"
proof -
  have "slot_of t i < t_nrbuckets t" using assms(1) by (simp add: slot_of_def ht_inv_def)
  then have "backs (\<lambda>i. e_prev (e_at t i)) None (cs @ [i])"
    using ht_inv_chain [OF assms(1), of "slot_of t i"] by (simp add: chain_Cons cs_def)
  then show ?thesis by (auto simp: backs_append)
qed

lemma take_oldest:
  assumes "ht_inv t [] (i # qs) []" "qs \<noteq> []"
  shows "\<exists>t'. take_entry t = Some (Some i, t') \<and> ht_inv t' [] qs [i] \<and> entry_of t' = entry_of t \<and> t_nrentries t' = t_nrentries t"
proof -
  let ?n = "\<lambda>t i. e_next (e_at t i)" and ?b = "slot_of t i"
  define cs where "cs = chain t qs ?b"
  note I = assms(1) [unfolded ht_inv_def]
  have b: "?b < t_nrbuckets t" using I by (simp add: slot_of_def)
  have il: "i < length (t_entries t)" using ht_inv_sizes(2) [OF assms(1), of i] by simp
  have p: "e_prev (e_at t i) = (if cs = [] then None else Some (last cs))" using oldest_in_chain [OF assms(1)] by (simp add: cs_def)
  have "last cs \<in> set qs" if "cs \<noteq> []" using last_in_set [OF that] set_chain [of t qs ?b] by (auto simp: cs_def)
  then have cl: "last cs \<in> set qs" "last cs < length (t_entries t)" if "cs \<noteq> []"
    using that ht_inv_sizes(2) [OF assms(1), of "last cs"] by simp_all
  define es where "es = (if cs = [] then t_entries t else (t_entries t)[last cs := (e_at t (last cs))\<lparr>e_next := None\<rparr>])"
  define bs where "bs = (if cs = [] then (t_buckets t)[?b := None] else t_buckets t)"
  define t' where "t' = t\<lparr>t_headused := e_nexttable (e_at t i), t_entries := es, t_buckets := bs\<rparr>"
  have full: "t_nrentries t \<le> t_nrused t" using ht_inv_sizes(1) [OF assms(1)] I by simp
  have un: "t_headunused t = None" "t_headused t = Some i" using I by simp_all
  have "take_entry t = Some (Some i, t')"
    using full un il p cl b I by (cases "cs = []") (simp_all add: take_entry_def ld_def st_def on_entry_def t'_def es_def bs_def slot_of_def)
  moreover have f: "e_nexttable (e_at t' x) = e_nexttable (e_at t x)" "e_prev (e_at t' x) = e_prev (e_at t x)"
      "e_key (e_at t' x) = e_key (e_at t x)" "e_value (e_at t' x) = e_value (e_at t x)"
      "e_next (e_at t' x) = (if cs \<noteq> [] \<and> x = last cs then None else e_next (e_at t x))" for x
    using cl by (auto simp: t'_def es_def nth_list_update)
  have sl: "slot_of t' = slot_of t" by (simp add: fun_eq_iff slot_of_def f(3)) (simp add: t'_def cache_slot_def)
  have ch: "chain t' qs c = chain t qs c" for c by (simp add: chain_def sl)
  have tb: "t_buckets t' ! c = (if c = ?b \<and> cs = [] then None else t_buckets t ! c)" for c
    using b I by (simp add: t'_def bs_def nth_list_update)
  have "ht_inv t' [] qs [i]"
  proof -
    have "linked (?n t') (t_buckets t' ! c) (chain t qs c) \<and> backs (\<lambda>i. e_prev (e_at t' i)) None (chain t qs c)" if c: "c < t_nrbuckets t" for c
    proof (cases "c = ?b")
      case True
      have L: "linked (?n t) (t_buckets t ! ?b) (cs @ [i])" "backs (\<lambda>i. e_prev (e_at t i)) None (cs @ [i])"
        using ht_inv_chain [OF assms(1) b] by (simp_all add: chain_Cons cs_def)
      have d: "distinct (cs @ [i])" using I by (auto simp: cs_def chain_def)
      have "linked (?n t') (if cs = [] then None else t_buckets t ! ?b) cs"
        by (rule linked_butlast [OF L(1) d]) (auto simp: f)
      then show ?thesis using L(2) True by (auto simp: cs_def [symmetric] backs_append f tb)
    next
      case False
      have L: "linked (?n t) (t_buckets t ! c) (chain t qs c)" "backs (\<lambda>i. e_prev (e_at t i)) None (chain t qs c)"
        using ht_inv_chain [OF assms(1) c] False by (simp_all add: chain_Cons)
      have "last cs \<notin> set (chain t qs c)" if "cs \<noteq> []"
        using False last_in_set [OF that] by (auto simp: cs_def chain_def)
      then have "linked (?n t') (t_buckets t ! c) (chain t qs c)"
        using L(1) by (subst linked_path_cong [where g = "?n t"]) (auto simp: f)
      then show ?thesis using L(2) False by (simp add: f tb)
    qed
    moreover have nt: "linked (\<lambda>x. e_nexttable (e_at t x)) (e_nexttable (e_at t i)) qs" using I by simp
    moreover have "e_nexttable (e_at t i) = Some (hd qs)" using linked_hd [OF nt] assms(2) by simp
    moreover have "t_headused t' = e_nexttable (e_at t i)" by (simp add: t'_def)
    ultimately show ?thesis
      using I assms(2) unfolding ht_inv_def ch f(1) by (auto simp: t'_def es_def bs_def)
  qed
  moreover have "entry_of t' = entry_of t" by (simp add: entry_of_def fun_eq_iff f)
  ultimately show ?thesis by (intro exI [of _ t']) (simp add: t'_def)
qed

lemma take_unused:
  assumes "ht_inv t (i # us) qs []"
  shows "\<exists>t'. take_entry t = Some (Some i, t') \<and> ht_inv t' us qs [i] \<and> entry_of t' = entry_of t \<and> t_nrentries t' = t_nrentries t"
proof -
  note I = assms [unfolded ht_inv_def]
  define t' where "t' = t\<lparr>t_nrused := t_nrused t + 1, t_headunused := e_nexttable (e_at t i), t_headused := Some (hd (qs @ [i]))\<rparr>"
  have "t_nrused t < t_nrentries t" "i < length (t_entries t)"
    using ht_inv_sizes [OF assms] I by simp_all
  then have "take_entry t = Some (Some i, t')"
    using I by (auto simp: take_entry_def ld_def t'_def)
  moreover have "entry_of t' = entry_of t" by (simp add: entry_of_def fun_eq_iff t'_def)
  moreover have "chain t' qs b = chain t qs b" for b by (simp add: chain_def slot_of_def cache_slot_def t'_def)
  then have "ht_inv t' us qs [i]" using I unfolding ht_inv_def by (auto simp: t'_def)
  ultimately show ?thesis by (intro exI [of _ t']) (simp add: t'_def)
qed

text \<open>What \<open>put_entry\<close> stores, field by field.\<close>

lemma put_entry_fields:
  fixes k v :: bytes
  assumes "ht_inv t us qs [i]"
  defines "b \<equiv> cache_slot t k" and "p \<equiv> t_buckets t ! cache_slot t k"
  shows "\<exists>es. put_entry i k v t = Some (t\<lparr>t_entries := es, t_lastused := Some i, t_buckets := (t_buckets t)[b := Some i]\<rparr>) \<and>
    length es = length (t_entries t) \<and>
    (\<forall>x. e_nexttable (es ! x) = (if x = i then None else if t_lastused t = Some x then Some i else e_nexttable (e_at t x))) \<and>
    (\<forall>x. e_next (es ! x) = (if x = i then p else e_next (e_at t x))) \<and>
    (\<forall>x. e_prev (es ! x) = (if x = i then None else if p = Some x then Some i else e_prev (e_at t x))) \<and>
    (\<forall>x. e_key (es ! x) = (if x = i then take 32 k else e_key (e_at t x))) \<and>
    (\<forall>x. e_value (es ! x) = (if x = i then take 32 v else e_value (e_at t x)))"
proof -
  note I = assms(1) [unfolded ht_inv_def]
  have i: "i < length (t_entries t)" using ht_inv_sizes(2) [OF assms(1), of i] by simp
  have b: "b < length (t_buckets t)" using I by (simp add: b_def)
  have "\<exists>l. t_lastused t = Some l \<and> l < length (t_entries t) \<and> l \<noteq> i" if "t_lastused t \<noteq> None"
    using that I ht_inv_sizes(2) [OF assms(1), of "last qs"] by (auto split: if_splits dest: last_in_set)
  moreover have "\<exists>j. p = Some j \<and> j < length (t_entries t) \<and> j \<noteq> i" if "p \<noteq> None"
  proof -
    have l: "p = (if chain t qs b = [] then None else Some (hd (chain t qs b)))"
      using linked_hd [OF conjunct1 [OF ht_inv_chain [OF assms(1), of b]]] b I by (simp add: p_def b_def)
    then have "hd (chain t qs b) \<in> set qs" using that set_chain [of t qs b] by (auto split: if_splits)
    then show ?thesis using l that I ht_inv_sizes(2) [OF assms(1), of "hd (chain t qs b)"] by (auto split: if_splits)
  qed
  moreover have pb: "t_buckets t ! b = p" by (simp add: p_def b_def)
  ultimately have lp: "\<forall>l. t_lastused t = Some l \<longrightarrow> l < length (t_entries t) \<and> l \<noteq> i" "\<forall>j. p = Some j \<longrightarrow> j < length (t_entries t) \<and> j \<noteq> i"
    by auto
  define e0 where "e0 = (e_at t i)\<lparr>e_prev := None, e_next := None, e_nexttable := None, e_key := take 32 k, e_value := take 32 v\<rparr>"
  define es1 where "es1 = (t_entries t)[i := e0]"
  define es2 where "es2 = (case t_lastused t of None \<Rightarrow> es1 | Some l \<Rightarrow> es1[l := (es1 ! l)\<lparr>e_nexttable := Some i\<rparr>])"
  define es3 where "es3 = (case p of None \<Rightarrow> es2 | Some j \<Rightarrow> es2[j := (es2 ! j)\<lparr>e_prev := Some i\<rparr>])"
  define es4 where "es4 = (case p of None \<Rightarrow> es3 | Some j \<Rightarrow> es3[i := (es3 ! i)\<lparr>e_next := Some j\<rparr>])"
  have l: "length es1 = length (t_entries t)" "length es2 = length (t_entries t)" "length es3 = length (t_entries t)" "length es4 = length (t_entries t)"
    by (simp_all add: es1_def es2_def es3_def es4_def split: option.split)
  have 1: "es1 ! x = (if x = i then e0 else e_at t x)" for x using i by (simp add: es1_def nth_list_update)
  have 2: "es2 ! x = (if t_lastused t = Some x then (es1 ! x)\<lparr>e_nexttable := Some i\<rparr> else es1 ! x)" for x
    using lp(1) l by (auto simp: es2_def nth_list_update split: option.split)
  have 3: "es3 ! x = (if p = Some x then (es2 ! x)\<lparr>e_prev := Some i\<rparr> else es2 ! x)" for x
    using lp(2) l by (auto simp: es3_def nth_list_update split: option.split)
  have 4: "es4 ! x = (if p \<noteq> None \<and> x = i then (es3 ! x)\<lparr>e_next := p\<rparr> else es3 ! x)" for x
    using i l by (auto simp: es4_def nth_list_update split: option.split)
  have "on_entry i (\<lambda>e. e\<lparr>e_prev := None, e_next := None, e_nexttable := None, e_key := take 32 k, e_value := take 32 v\<rparr>) t =
      Some (t\<lparr>t_entries := es1\<rparr>)"
    using i by (simp add: on_entry_eq es1_def e0_def)
  moreover have "(case t_lastused t of None \<Rightarrow> Some (t\<lparr>t_entries := es1\<rparr>) | Some m \<Rightarrow> on_entry m (\<lambda>e. e\<lparr>e_nexttable := Some i\<rparr>) (t\<lparr>t_entries := es1\<rparr>)) =
      Some (t\<lparr>t_entries := es2\<rparr>)"
    using lp(1) l by (auto simp: on_entry_eq es2_def split: option.split)
  moreover have "(case p of None \<Rightarrow> Some (t\<lparr>t_entries := es2, t_lastused := Some i\<rparr>)
      | Some j \<Rightarrow> do { t \<leftarrow> on_entry j (\<lambda>e. e\<lparr>e_prev := Some i\<rparr>) (t\<lparr>t_entries := es2, t_lastused := Some i\<rparr>); on_entry i (\<lambda>e. e\<lparr>e_next := Some j\<rparr>) t }) =
      Some (t\<lparr>t_entries := es4, t_lastused := Some i\<rparr>)"
    using lp(2) l i by (cases p) (auto simp: on_entry_eq es3_def es4_def intro!: ctable.equality)
  ultimately have "put_entry i k v t = Some (t\<lparr>t_entries := es4, t_lastused := Some i, t_buckets := (t_buckets t)[b := Some i]\<rparr>)"
    using b pb by (simp add: put_entry_def ld_def st_def b_def [symmetric])
  then show ?thesis
    using lp l(4) by (intro exI [of _ es4]) (auto simp: 1 2 3 4 e0_def)
qed

lemma butlast_not_last: "distinct is \<Longrightarrow> x \<in> set (butlast is) \<Longrightarrow> last is \<noteq> x"
  by (induction "is") (auto split: if_splits)

lemma put_entry_inv:
  assumes "ht_inv t us qs [i]"
  shows "\<exists>t'. put_entry i k v t = Some t' \<and> ht_inv t' us (qs @ [i]) [] \<and> entry_of t' i = (take 32 k, take 32 v) \<and>
    (\<forall>j \<in> set qs. entry_of t' j = entry_of t j) \<and> t_nrentries t' = t_nrentries t"
proof -
  let ?b = "cache_slot t k"
  note I = assms [unfolded ht_inv_def]
  obtain es where p: "put_entry i k v t = Some (t\<lparr>t_entries := es, t_lastused := Some i, t_buckets := (t_buckets t)[?b := Some i]\<rparr>)"
    and es: "length es = length (t_entries t)"
      "\<And>x. e_nexttable (es ! x) = (if x = i then None else if t_lastused t = Some x then Some i else e_nexttable (e_at t x))"
      "\<And>x. e_next (es ! x) = (if x = i then t_buckets t ! ?b else e_next (e_at t x))"
      "\<And>x. e_prev (es ! x) = (if x = i then None else if t_buckets t ! ?b = Some x then Some i else e_prev (e_at t x))"
      "\<And>x. e_key (es ! x) = (if x = i then take 32 k else e_key (e_at t x))"
      "\<And>x. e_value (es ! x) = (if x = i then take 32 v else e_value (e_at t x))"
    using put_entry_fields [OF assms, of k v] by blast
  define t' where "t' = t\<lparr>t_entries := es, t_lastused := Some i, t_buckets := (t_buckets t)[?b := Some i]\<rparr>"
  have q: "i \<notin> set qs" "i \<notin> set us" "set us \<inter> set qs = {}" "distinct qs" using I by auto
  have cs: "cache_slot t' = cache_slot t" by (simp add: t'_def)
  have so: "slot_of t' x = (if x = i then ?b else slot_of t x)" for x
    unfolding slot_of_def cs by (simp add: t'_def es)
  have ch: "chain t' (qs @ [i]) c = (if c = ?b then [i] else []) @ chain t qs c" for c
  proof -
    have "chain t' qs c = chain t qs c" by (rule chain_cong) (use q(1) in \<open>auto simp: so\<close>)
    then show ?thesis by (auto simp: chain_snoc so)
  qed
  have lq: "linked (\<lambda>x. e_nexttable (es ! x)) (if qs = [] then Some i else if qs = [] then None else t_headused t) (qs @ [i])"
    using I q by (intro linked_snoc [of "\<lambda>x. e_nexttable (e_at t x)"]) (auto simp: es butlast_not_last dest: in_set_butlastD)
  moreover have "linked (\<lambda>x. e_nexttable (es ! x)) (t_headunused t) us"
  proof -
    have "t_lastused t \<noteq> Some x" if "x \<in> set us" for x using that q I by (auto split: if_splits dest: last_in_set)
    then show ?thesis using I q(2) by (subst linked_path_cong [where g = "\<lambda>x. e_nexttable (e_at t x)"]) (auto simp: es)
  qed
  moreover have "linked (\<lambda>x. e_next (es ! x)) (t_buckets t' ! c) (chain t' (qs @ [i]) c) \<and> backs (\<lambda>x. e_prev (es ! x)) None (chain t' (qs @ [i]) c)"
    if c: "c < t_nrbuckets t" for c
  proof -
    have L: "linked (\<lambda>x. e_next (e_at t x)) (t_buckets t ! c) (chain t qs c)" "backs (\<lambda>x. e_prev (e_at t x)) None (chain t qs c)"
      using ht_inv_chain [OF assms c] by simp_all
    have n: "i \<notin> set (chain t qs c)" using set_chain [of t qs c] q(1) by auto
    have l: "linked (\<lambda>x. e_next (es ! x)) (t_buckets t ! c) (chain t qs c)"
      using L(1) n by (subst linked_path_cong [where g = "\<lambda>x. e_next (e_at t x)"]) (auto simp: es)
    have tb: "t_buckets t' ! c = (if c = ?b then Some i else t_buckets t ! c)" using c I by (auto simp: t'_def nth_list_update)
    show ?thesis
    proof (cases "c = ?b")
      case True
      have "backs (\<lambda>x. e_prev (es ! x)) (Some i) (chain t qs ?b)"
      proof (cases "chain t qs ?b")
        case (Cons a "is")
        have "distinct (chain t qs ?b)" using q(4) by (simp add: chain_def)
        then have d: "a \<notin> set is" "a \<noteq> i" "i \<notin> set is" using Cons n True by auto
        have a: "t_buckets t ! ?b = Some a" using L(1) True Cons by simp
        have "backs (\<lambda>x. e_prev (es ! x)) (Some a) is = backs (\<lambda>x. e_prev (e_at t x)) (Some a) is"
          by (rule backs_cong) (use d a in \<open>auto simp: es\<close>)
        then show ?thesis using L(2) True Cons a d by (simp add: es)
      qed simp
      then show ?thesis using True l tb by (simp add: ch es)
    next
      case False
      have "t_buckets t ! ?b \<noteq> Some x" if x: "x \<in> set (chain t qs c)" for x
      proof
        assume "t_buckets t ! ?b = Some x"
        moreover have "linked (\<lambda>x. e_next (e_at t x)) (t_buckets t ! ?b) (chain t qs ?b)"
          using conjunct1 [OF ht_inv_chain [OF assms, of ?b]] I by simp
        ultimately have "x \<in> set (chain t qs ?b)" using linked_hd by (cases "chain t qs ?b") fastforce+
        then show False using x False by (simp add: chain_def)
      qed
      then have "backs (\<lambda>x. e_prev (es ! x)) None (chain t qs c)"
        using L(2) n by (subst backs_cong [where g = "\<lambda>x. e_prev (e_at t x)"]) (auto simp: es)
      then show ?thesis using False l tb by (simp add: ch)
    qed
  qed
  moreover have "linked (\<lambda>x. e_nexttable (es ! x)) (Some (hd (qs @ [i]))) (qs @ [i])" using lq linked_hd [OF lq] by simp
  ultimately have "ht_inv t' us (qs @ [i]) []"
    using I q es(1) unfolding ht_inv_def by (auto simp: t'_def)
  moreover have "entry_of t' i = (take 32 k, take 32 v)" "\<forall>j \<in> set qs. entry_of t' j = entry_of t j"
    using q(1) by (auto simp: entry_of_def t'_def es)
  moreover have "t_nrentries t' = t_nrentries t" by (simp add: t'_def)
  ultimately show ?thesis using p unfolding t'_def [symmetric] by blast
qed

text \<open>The abstract table: a list of at most \<open>n\<close> pairs, the newest value of a key counts, the oldest pair makes room.\<close>

definition fifo_get :: "(bytes \<times> bytes) list \<Rightarrow> bytes \<Rightarrow> bytes option" where
  "fifo_get kvs k = map_of (rev kvs) (take 32 k)"

definition fifo_set :: "nat \<Rightarrow> bytes \<Rightarrow> bytes \<Rightarrow> (bytes \<times> bytes) list \<Rightarrow> (bytes \<times> bytes) list" where
  "fifo_set n k v kvs = (if length kvs < n then kvs else tl kvs) @ [(take 32 k, take 32 v)]"

lemma fifo_get_set:
  "0 < n \<Longrightarrow> fifo_get (fifo_set n k v kvs) k' =
     (if take 32 k' = take 32 k then Some (take 32 v) else fifo_get (if length kvs < n then kvs else tl kvs) k')"
  by (simp add: fifo_get_def fifo_set_def)

lemma cache_get_rep:
  assumes "ht_rep t n kvs"
  shows "\<exists>r. cache_get_ht t k = Some r \<and> map_option (\<lambda>i. e_value (e_at t i)) r = fifo_get kvs k \<and> (\<forall>i. r = Some i \<longrightarrow> i < length (t_entries t))"
  using assms cache_get_result unfolding ht_rep_def fifo_get_def by blast

lemma cache_set_rep:
  assumes "ht_rep t n kvs" "2 \<le> n"
  shows "\<exists>i t'. cache_set_ht t k v = Some (Some i, t') \<and> ht_rep t' n (fifo_set n k v kvs) \<and> entry_of t' i = (take 32 k, take 32 v)"
proof -
  obtain us qs where r: "ht_inv t us qs []" "kvs = map (entry_of t) qs" "t_nrentries t = n" using assms(1) by (auto simp: ht_rep_def)
  have sz: "length us + length qs = n" using ht_inv_sizes(1) [OF r(1)] r(3) by simp
  obtain i us' qs' t1 where 1: "take_entry t = Some (Some i, t1)" "ht_inv t1 us' qs' [i]" "entry_of t1 = entry_of t" "t_nrentries t1 = n"
      "qs' = (if length qs < n then qs else tl qs)"
  proof (cases us)
    case Nil
    obtain i qs1 where q: "qs = i # qs1" "qs1 \<noteq> []" using Nil sz assms(2) by (cases qs; cases "tl qs") auto
    obtain t1 where "take_entry t = Some (Some i, t1)" "ht_inv t1 [] qs1 [i]" "entry_of t1 = entry_of t" "t_nrentries t1 = n"
      using take_oldest [OF r(1) [unfolded Nil q(1)] q(2)] r(3) by auto
    then show ?thesis using that q Nil sz by simp
  next
    case (Cons i us1)
    obtain t1 where "take_entry t = Some (Some i, t1)" "ht_inv t1 us1 qs [i]" "entry_of t1 = entry_of t" "t_nrentries t1 = n"
      using take_unused [OF r(1) [unfolded Cons]] r(3) by auto
    then show ?thesis using that Cons sz by simp
  qed
  obtain t2 where 2: "put_entry i k v t1 = Some t2" "ht_inv t2 us' (qs' @ [i]) []" "entry_of t2 i = (take 32 k, take 32 v)"
      "\<forall>j \<in> set qs'. entry_of t2 j = entry_of t1 j" "t_nrentries t2 = n"
    using put_entry_inv [OF 1(2), of k v] 1(4) by auto
  have "fifo_set n k v kvs = map (entry_of t2) (qs' @ [i])"
    using 2(3,4) 1(3,5) r(2) by (auto simp: fifo_set_def map_tl [symmetric])
  then have "ht_rep t2 n (fifo_set n k v kvs)" using 2(2,5) unfolding ht_rep_def by blast
  then show ?thesis using 1(1) 2(1,3) by (simp add: cache_set_ht_def)
qed

subsection \<open>Initialisation and emptying\<close>

lemma init_links:
  assumes "n < length es"
  shows "length (fold (\<lambda>i es. es[i := (es ! i)\<lparr>e_nexttable := Some (i + 1)\<rparr>]) [0..<n] es) = length es \<and>
    (\<forall>x. fold (\<lambda>i es. es[i := (es ! i)\<lparr>e_nexttable := Some (i + 1)\<rparr>]) [0..<n] es ! x =
      (if x < n then (es ! x)\<lparr>e_nexttable := Some (x + 1)\<rparr> else es ! x))"
  using assms by (induction n) (auto simp: nth_list_update less_Suc_eq)

lemma linked_upt:
  "(\<And>x. x < n \<Longrightarrow> f x = (if x + 1 < n then Some (x + 1) else None)) \<Longrightarrow> m < n \<Longrightarrow> linked f (Some m) [m..<n]"
proof (induction "n - m" arbitrary: m)
  case (Suc d)
  show ?case
  proof (cases "m + 1 < n")
    case True
    then have "linked f (Some (m + 1)) [m + 1..<n]" using Suc by (intro Suc(1)) auto
    then show ?thesis using True Suc(3) [of m] Suc(4) by (simp add: upt_conv_Cons)
  next
    case False
    then have "[m..<n] = [m]" using Suc(4) by (simp add: upt_conv_Cons)
    then show ?thesis using Suc(3) [of m] Suc(4) False by simp
  qed
qed simp

lemma cache_init_rep:
  assumes "cache_init_ht m nb ne = Some t"
  shows "ht_rep t (nat ne) [] \<and> 0 < nb"
proof -
  have ne: "1 \<le> nb" "nb \<le> ne" using assms by (auto simp: cache_init_ht_def split: if_splits)
  define n where "n = nat ne"
  have n: "0 < n" using ne by (simp add: n_def)
  define es where "es = fold (\<lambda>i es. es[i := (es ! i)\<lparr>e_nexttable := Some (i + 1)\<rparr>]) [0..<n - 1] (replicate n zero_entry)"
  have t: "t = \<lparr>t_buckets = replicate (nat nb) None, t_entries = es, t_headunused = Some 0, t_headused = None, t_lastused = None,
      t_nrbuckets = nat nb, t_nrentries = n, t_nrused = 0\<rparr>"
    using assms ne by (auto simp: cache_init_ht_def es_def n_def split: if_splits)
  have es: "length es = n" "es ! x = (if x < n - 1 then (replicate n zero_entry ! x)\<lparr>e_nexttable := Some (x + 1)\<rparr> else replicate n zero_entry ! x)" for x
    using init_links [of "n - 1" "replicate n zero_entry"] n unfolding es_def by simp_all
  have "linked (\<lambda>i. e_nexttable (es ! i)) (Some 0) [0..<n]"
    using n by (intro linked_upt) (auto simp: es zero_entry_def)
  then have "ht_inv t [0..<n] [] []" using ne es(1) by (auto simp: t ht_inv_def chain_def)
  then show ?thesis using ne unfolding ht_rep_def by (auto simp: t n_def)
qed

text \<open>The walk of \<open>cache_empty\<close> moves the entries in use to the unused ones.\<close>

lemma empty_loop_linked:
  assumes "linked (\<lambda>i. e_nexttable (e_at t i)) p qs" "linked (\<lambda>i. e_nexttable (e_at t i)) (t_headunused t) us"
    "distinct (qs @ us)" "set qs \<subseteq> {..<length (t_entries t)}"
  shows "\<exists>es h. empty_loop t p = Some (t\<lparr>t_entries := es, t_headunused := h\<rparr>) \<and> length es = length (t_entries t) \<and>
    linked (\<lambda>i. e_nexttable (es ! i)) h (rev qs @ us)"
  using assms
proof (induction qs arbitrary: t p us)
  case Nil
  then show ?case by (subst empty_loop.simps) (auto intro!: exI [of _ "t_entries t"] exI [of _ "t_headunused t"])
next
  case (Cons i qs)
  define e where "e = (e_at t i)\<lparr>e_nexttable := t_headunused t, e_next := None, e_prev := None, e_key := replicate 32 0, e_value := replicate 32 0\<rparr>"
  define t1 where "t1 = t\<lparr>t_entries := (t_entries t)[i := e], t_headunused := Some i\<rparr>"
  have i: "p = Some i" "i < length (t_entries t)" using Cons.prems by auto
  have o: "e_nexttable (e_at t1 x) = (if x = i then t_headunused t else e_nexttable (e_at t x))" for x
    using i by (auto simp: t1_def e_def nth_list_update)
  have "linked (\<lambda>x. e_nexttable (e_at t1 x)) (e_nexttable (e_at t i)) qs"
    using Cons.prems by (subst linked_path_cong [where g = "\<lambda>x. e_nexttable (e_at t x)"]) (auto simp: o)
  moreover have "linked (\<lambda>x. e_nexttable (e_at t1 x)) (t_headunused t) us"
    using Cons.prems by (subst linked_path_cong [where g = "\<lambda>x. e_nexttable (e_at t x)"]) (auto simp: o)
  then have "linked (\<lambda>x. e_nexttable (e_at t1 x)) (t_headunused t1) (i # us)" by (simp add: o) (simp add: t1_def)
  ultimately obtain es h where r: "empty_loop t1 (e_nexttable (e_at t i)) = Some (t1\<lparr>t_entries := es, t_headunused := h\<rparr>)"
      "length es = length (t_entries t1)" "linked (\<lambda>i. e_nexttable (es ! i)) h (rev qs @ i # us)"
    using Cons.IH [of t1 "e_nexttable (e_at t i)" "i # us"] Cons.prems by (auto simp: t1_def)
  have "empty_loop t p = empty_loop t1 (e_nexttable (e_at t i))"
    by (subst empty_loop.simps) (simp add: i ld_def on_entry_eq t1_def e_def)
  then show ?case using r by (intro exI [of _ es] exI [of _ h]) (simp add: t1_def)
qed

lemma cache_empty_rep:
  assumes "ht_rep t n kvs"
  shows "\<exists>t'. cache_empty_ht t = Some t' \<and> ht_rep t' n []"
proof -
  obtain us qs where r: "ht_inv t us qs []" "t_nrentries t = n" using assms by (auto simp: ht_rep_def)
  note I = r(1) [unfolded ht_inv_def]
  have "linked (\<lambda>i. e_nexttable (e_at t i)) (t_headused t) qs" using I by (auto split: if_splits)
  then obtain es h where e: "empty_loop t (t_headused t) = Some (t\<lparr>t_entries := es, t_headunused := h\<rparr>)"
      "length es = length (t_entries t)" "linked (\<lambda>i. e_nexttable (es ! i)) h (rev qs @ us)"
    using empty_loop_linked [of t "t_headused t" qs us] I by auto
  define t' where "t' = t\<lparr>t_entries := es, t_headunused := h, t_buckets := replicate (t_nrbuckets t) None, t_headused := None, t_lastused := None, t_nrused := 0\<rparr>"
  have "ht_inv t' (rev qs @ us) [] []" using I e(2,3) by (auto simp: ht_inv_def t'_def chain_def)
  moreover have "cache_empty_ht t = Some t'" by (simp add: cache_empty_ht_def e t'_def)
  ultimately show ?thesis using r(2) by (auto simp: ht_rep_def t'_def)
qed

subsection \<open>Runs\<close>

datatype cache_op = Get bytes | Set bytes bytes | Empty

primrec ht_run :: "cache_op list \<Rightarrow> ctable \<Rightarrow> (bytes option list \<times> ctable) option" where
  "ht_run [] t = Some ([], t)"
| "ht_run (c # cs) t = do {
     (r, t) \<leftarrow> (case c of
        Get k \<Rightarrow> do { r \<leftarrow> cache_get_ht t k;
          case r of None \<Rightarrow> Some (None, t) | Some i \<Rightarrow> do { e \<leftarrow> ld (t_entries t) i; Some (Some (e_value e), t) } }
      | Set k v \<Rightarrow> do { (i, t) \<leftarrow> cache_set_ht t k v; Some (None, t) }
      | Empty \<Rightarrow> do { t \<leftarrow> cache_empty_ht t; Some (None, t) });
     (rs, t) \<leftarrow> ht_run cs t;
     Some (r # rs, t) }"

primrec fifo_run :: "nat \<Rightarrow> cache_op list \<Rightarrow> (bytes \<times> bytes) list \<Rightarrow> bytes option list" where
  "fifo_run n [] kvs = []"
| "fifo_run n (c # cs) kvs =
     (case c of Get k \<Rightarrow> fifo_get kvs k # fifo_run n cs kvs
      | Set k v \<Rightarrow> None # fifo_run n cs (fifo_set n k v kvs)
      | Empty \<Rightarrow> None # fifo_run n cs [])"

lemma ht_run_fifo:
  "ht_rep t n kvs \<Longrightarrow> 2 \<le> n \<Longrightarrow> \<exists>t'. ht_run cs t = Some (fifo_run n cs kvs, t')"
proof (induction cs arbitrary: t kvs)
  case (Cons c cs)
  show ?case
  proof (cases c)
    case (Get k)
    obtain r where r: "cache_get_ht t k = Some r" "map_option (\<lambda>i. e_value (e_at t i)) r = fifo_get kvs k" "\<forall>i. r = Some i \<longrightarrow> i < length (t_entries t)"
      using cache_get_rep [OF Cons.prems(1), of k] by blast
    then have "(case r of None \<Rightarrow> Some (None, t) | Some i \<Rightarrow> do { e \<leftarrow> ld (t_entries t) i; Some (Some (e_value e), t) }) = Some (fifo_get kvs k, t)"
      by (auto simp: ld_def split: option.split)
    then show ?thesis using Cons.IH [OF Cons.prems] r(1) Get by auto
  next
    case (Set k v)
    then show ?thesis using cache_set_rep [OF Cons.prems, of k v] Cons.IH Cons.prems(2) by fastforce
  next
    case Empty
    then show ?thesis using cache_empty_rep [OF Cons.prems(1)] Cons.IH Cons.prems(2) by fastforce
  qed
qed simp

text \<open>
  C24: The table is a bounded queue of pairs: from \<open>cache_init\<close> with at least two entries on, any sequence of lookups, insertions and
  emptyings ends, follows no null pointer and leaves no array, and every lookup returns the value of the newest pair
  with the key among the last \<open>nrentries\<close> pairs inserted.
\<close>

theorem secrets_table_is_fifo:
  assumes "cache_init_ht m nb ne = Some t" "2 \<le> ne"
  shows "\<exists>t'. ht_run cs t = Some (fifo_run (nat ne) cs [], t')"
  using cache_init_rep [OF assms(1)] ht_run_fifo [of t "nat ne" "[]" cs] assms(2) by simp

theorem secrets_table_is_fifo_witness:
  "\<exists>t t'. cache_init_ht (\<lambda>_. True) 2 3 = Some t \<and>
     ht_run [Set [1] [11], Set [2] [12], Set [1] [13], Set [3] [14], Get [2], Get [1]] t =
       Some ([None, None, None, None, Some [12], Some [13]], t')"
proof -
  obtain t where t: "cache_init_ht (\<lambda>_. True) 2 3 = Some t" by (simp add: cache_init_ht_def)
  show ?thesis
    using t secrets_table_is_fifo [OF t, of "[Set [1] [11], Set [2] [12], Set [1] [13], Set [3] [14], Get [2], Get [1]]"]
    by (auto simp: fifo_set_def fifo_get_def)
qed

text \<open>
  \<open>cache_init\<close> accepts a table with a single entry, but such a table cannot be used: the second insertion makes the entry
  follow itself and the queue of used entries empty, and the third insertion follows a null pointer.
\<close>

theorem single_entry_table_fails:
  "\<exists>t1 t2 t3. cache_init_ht (\<lambda>_. True) 1 1 = Some t1 \<and> cache_set_ht t1 k1 v1 = Some (Some 0, t2) \<and>
     cache_set_ht t2 k2 v2 = Some (Some 0, t3) \<and> cache_set_ht t3 k3 v3 = None"
  by (simp add: cache_init_ht_def cache_set_ht_def take_entry_def put_entry_def on_entry_def ld_def st_def cache_slot_def zero_entry_def Let_def)

end
