(* ===== verification/CurveMisc.thy ===== *)
theory CurveMisc
  imports Base32
begin

section \<open>Support code of curvedns\<close>

text \<open>
  The model of \<open>curvedns-0.88/misc.c\<close>: hexadecimal keys, the base-32 coding of query names, the random numbers taken from
  djbdns and the nonces of the server.  Reading the environment is left out; \<open>misc_randombytes\<close> reads
  \<open>/dev/urandom\<close> and is a parameter.
\<close>

subsection \<open>Hexadecimal\<close>

definition misc_char_hex :: "byte \<Rightarrow> byte option" where
  "misc_char_hex c =
     (if 48 \<le> c \<and> c \<le> 57 then Some (c - 48)
      else if 97 \<le> c \<and> c \<le> 102 then Some (10 + (c - 97))
      else if 65 \<le> c \<and> c \<le> 70 then Some (10 + (c - 65))
      else None)"

definition misc_hex_char :: "byte \<Rightarrow> byte option" where
  "misc_hex_char v = (if v < 10 then Some (v + 48) else if v < 16 then Some (v - 10 + 97) else None)"

text \<open>The flag is the return value, the bytes are those stored at \<open>dst\<close>.  A string of odd length ends in the terminator.\<close>

fun misc_hex_decode :: "bytes \<Rightarrow> bytes \<Rightarrow> bool \<times> bytes" where
  "misc_hex_decode [] dst = (True, dst)"
| "misc_hex_decode [c] dst = (False, dst)"
| "misc_hex_decode (c # d # src) dst =
     (case (misc_char_hex c, misc_char_hex d) of
        (Some v1, Some v2) \<Rightarrow> misc_hex_decode src (dst @ [push_bit 4 v1 OR v2])
      | _ \<Rightarrow> (False, dst))"

fun hex_encode_loop :: "bytes \<Rightarrow> nat \<Rightarrow> bytes \<Rightarrow> (bool \<times> bytes) option" where
  "hex_encode_loop [] p dst = Some (True, dst)"
| "hex_encode_loop (b # src) p dst =
     (case misc_hex_char (drop_bit 4 b) of None \<Rightarrow> Some (False, dst)
      | Some c \<Rightarrow> do { dst \<leftarrow> st dst p c;
          case misc_hex_char (b AND 15) of None \<Rightarrow> Some (False, dst)
          | Some d \<Rightarrow> do { dst \<leftarrow> st dst (p + 1) d; hex_encode_loop src (p + 2) dst } })"

text \<open>\<open>dst\<close> is the whole object, of which the first \<open>dstlen\<close> bytes are offered.\<close>

definition misc_hex_encode :: "bytes \<Rightarrow> bytes \<Rightarrow> nat \<Rightarrow> (bool \<times> bytes) option" where
  "misc_hex_encode src dst dstlen =
     (if dstlen > length dst then None
      else let dst = replicate dstlen 0 @ drop dstlen dst
           in if 2 * length src < dstlen then Some (False, dst) else hex_encode_loop src 0 dst)"

subsection \<open>Base 32\<close>

definition kValues :: bytes where
  "kValues =
    [99, 99, 99, 99, 99, 99, 99, 99, 99, 99, 99, 99, 99, 99, 99, 99, 99, 99, 99, 99, 99, 99, 99, 99, 99,
     99, 99, 99, 99, 99, 99, 99, 99, 99, 99, 99, 99, 99, 99, 99, 99, 99, 99, 99, 99, 99, 99, 99, 0, 1,
     2, 3, 4, 5, 6, 7, 8, 9, 99, 99, 99, 99, 99, 99, 99, 99, 10, 11, 12, 99, 13, 14, 15, 99, 16, 17, 18,
     19, 20, 99, 21, 22, 23, 24, 25, 26, 27, 28, 29, 30, 31, 99, 99, 99, 99, 99, 99, 99, 10, 11, 12, 99,
     13, 14, 15, 99, 16, 17, 18, 19, 20, 99, 21, 22, 23, 24, 25, 26, 27, 28, 29, 30, 31, 99, 99, 99, 99, 99]"

definition kChars :: bytes where
  "kChars =
    [48, 49, 50, 51, 52, 53, 54, 55, 56, 57, 98, 99, 100, 102, 103, 104, 106, 107, 108, 109, 110, 112, 113, 114, 115, 116, 117, 118, 119, 120, 121, 122]"

text \<open>
  The accumulator \<open>v\<close> holds fewer than 13 bits, so that its \<open>unsigned int\<close> is a natural number.  The result is \<open>None\<close> for the
  two error exits, with the bytes stored so far.
\<close>

fun misc_decode_loop :: "nat \<Rightarrow> nat \<Rightarrow> nat \<Rightarrow> bytes \<Rightarrow> bytes \<Rightarrow> (nat \<times> nat) option \<times> bytes" where
  "misc_decode_loop outlen v bits [] out = (Some (v, bits), out)"
| "misc_decode_loop outlen v bits (c # inp) out =
     (if c AND 0x80 \<noteq> 0 then (None, out)
      else let b = unat (kValues ! unat c) in
        if b > 31 then (None, out)
        else let v = v OR push_bit bits b; bits = bits + 5 in
          if bits \<ge> 8
          then if length out \<ge> outlen then (None, out)
            else misc_decode_loop outlen (drop_bit 8 v) (bits - 8) inp (out @ [of_nat v])
          else misc_decode_loop outlen v bits inp out)"

definition misc_base32_decode :: "nat \<Rightarrow> bytes \<Rightarrow> bool \<Rightarrow> bool \<times> bytes" where
  "misc_base32_decode outlen inp mode =
     (case misc_decode_loop outlen 0 0 inp [] of
        (None, out) \<Rightarrow> (False, out)
      | (Some (v, bits), out) \<Rightarrow>
          if mode
          then if bits \<noteq> 0 then if length out \<ge> outlen then (False, out) else (True, out @ [of_nat v]) else (True, out)
          else if bits \<ge> 5 \<or> v \<noteq> 0 then (False, out) else (True, out))"

fun misc_emit :: "nat \<Rightarrow> nat \<Rightarrow> nat \<Rightarrow> bytes \<Rightarrow> (nat \<times> nat) option \<times> bytes" where
  "misc_emit outlen v bits out =
     (if bits \<ge> 5
      then if length out \<ge> outlen then (None, out)
           else misc_emit outlen (drop_bit 5 v) (bits - 5) (out @ [kChars ! (v AND 31)])
      else (Some (v, bits), out))"

fun misc_encode_loop :: "nat \<Rightarrow> nat \<Rightarrow> nat \<Rightarrow> bytes \<Rightarrow> bytes \<Rightarrow> (nat \<times> nat) option \<times> bytes" where
  "misc_encode_loop outlen v bits [] out = (Some (v, bits), out)"
| "misc_encode_loop outlen v bits (b # inp) out =
     (case misc_emit outlen (v OR push_bit bits (unat b)) (bits + 8) out of
        (None, out) \<Rightarrow> (None, out)
      | (Some (v, bits), out) \<Rightarrow> misc_encode_loop outlen v bits inp out)"

definition misc_base32_encode :: "nat \<Rightarrow> bytes \<Rightarrow> bool \<times> bytes" where
  "misc_base32_encode outlen inp =
     (case misc_encode_loop outlen 0 0 inp [] of
        (None, out) \<Rightarrow> (False, out)
      | (Some (v, bits), out) \<Rightarrow>
          if bits \<noteq> 0 then if length out \<ge> outlen then (False, out) else (True, out @ [kChars ! (v AND 31)])
          else (True, out))"

subsection \<open>Random numbers and nonces\<close>

text \<open>The static variables of the generator.\<close>

record rnd =
  r_seed :: "u32 list"
  r_in :: "u32 list"
  r_out :: "u32 list"
  r_outleft :: nat

definition mush_shifts :: "nat list" where
  "mush_shifts = [5, 7, 9, 13, 5, 7, 9, 13, 5, 7, 9, 13]"

definition rotate32 :: "u32 \<Rightarrow> nat \<Rightarrow> u32" where
  "rotate32 x b = push_bit b x OR drop_bit (32 - b) x"

definition mush :: "u32 list \<Rightarrow> u32 \<Rightarrow> nat \<Rightarrow> u32 \<times> u32 list \<Rightarrow> u32 \<times> u32 list" where
  "mush seed z i s =
     (case s of (x, t) \<Rightarrow> let y = t ! i + (((x XOR seed ! i) + z) XOR rotate32 x (mush_shifts ! i)) in (y, t[i := y]))"

definition surf_round :: "u32 list \<Rightarrow> u32 \<times> u32 \<times> u32 list \<Rightarrow> u32 \<times> u32 \<times> u32 list" where
  "surf_round seed s =
     (case s of (z, x, t) \<Rightarrow> let z = z + 0x9e3779b9; (x, t) = fold (mush seed z) [0..<12] (x, t) in (z, x, t))"

definition surf_loop :: "u32 list \<Rightarrow> (u32 \<times> u32 \<times> u32 list) \<times> u32 list \<Rightarrow> (u32 \<times> u32 \<times> u32 list) \<times> u32 list" where
  "surf_loop seed s =
     (case s of (w, out) \<Rightarrow> let w = (surf_round seed ^^ 16) w; (z, x, t) = w in (w, map (\<lambda>i. out ! i XOR t ! (i + 4)) [0..<8]))"

definition surf :: "rnd \<Rightarrow> rnd" where
  "surf r =
     (let t = map (\<lambda>i. r_in r ! i XOR r_seed r ! (12 + i)) [0..<12];
          out = map (\<lambda>i. r_seed r ! (24 + i)) [0..<8];
          (w, out) = (surf_loop (r_seed r) ^^ 2) ((0, t ! 11, t), out)
      in r\<lparr>r_out := out\<rparr>)"

text \<open>The counter in \<open>in[0]\<close> to \<open>in[3]\<close>.\<close>

definition count_in :: "u32 list \<Rightarrow> u32 list" where
  "count_in i =
     (let i = i[0 := i ! 0 + 1] in if i ! 0 \<noteq> 0 then i
      else let i = i[1 := i ! 1 + 1] in if i ! 1 \<noteq> 0 then i
      else let i = i[2 := i ! 2 + 1] in if i ! 2 \<noteq> 0 then i
      else i[3 := i ! 3 + 1])"

definition misc_crypto_random_init :: "bytes \<Rightarrow> rnd \<Rightarrow> rnd" where
  "misc_crypto_random_init ur r = r\<lparr>r_in := map (\<lambda>i. uint32_unpack (mem_read ur (4 * i) 4)) [0..<12]\<rparr>"

definition misc_crypto_random :: "u32 \<Rightarrow> rnd \<Rightarrow> u32 \<times> rnd" where
  "misc_crypto_random n r =
     (if n = 0 then (0, r)
      else let r = (if r_outleft r = 0 then (surf (r\<lparr>r_in := count_in (r_in r)\<rparr>))\<lparr>r_outleft := 8\<rparr> else r);
               r = r\<lparr>r_outleft := r_outleft r - 1\<rparr>
           in (r_out r ! r_outleft r mod n, r))"

primrec random_bytes :: "nat \<Rightarrow> rnd \<Rightarrow> bytes \<times> rnd" where
  "random_bytes 0 r = ([], r)"
| "random_bytes (Suc n) r = (let (v, r) = misc_crypto_random 256 r; (bs, r) = random_bytes n r in (ucast v # bs, r))"

definition misc_crypto_nonce :: "bytes \<Rightarrow> rnd \<Rightarrow> bytes \<times> rnd" where
  "misc_crypto_nonce time r = (let t = take 8 time; (bs, r) = random_bytes (12 - length t) r in (t @ bs, r))"

subsection \<open>Correctness of the codings\<close>

text \<open>The two tables of values differ only in what they give for other characters.\<close>

lemma tables_agree:
  "list_all (\<lambda>x. if unat (kValues ! x) > 31 then unat (base32values ! x) > 31 else kValues ! x = base32values ! x) [0..<128]"
  by code_simp

lemma high_bit_clear:
  assumes "(c :: byte) AND 0x80 = 0"
  shows "unat c < 128"
proof -
  have "list_all (\<lambda>x. (of_nat x :: byte) AND 0x80 = 0 \<longrightarrow> x < 128) [0..<256]" by code_simp
  then show ?thesis using assms unat_byte_less [of c] by (auto simp: list_all_iff)
qed

lemma value_agrees:
  assumes "(c :: byte) AND 0x80 = 0"
  shows "unat (kValues ! unat c) > 31 \<longleftrightarrow> unat (base32values ! unat c) > 31"
    "unat (kValues ! unat c) \<le> 31 \<Longrightarrow> kValues ! unat c = base32values ! unat c"
  using tables_agree high_bit_clear [OF assms] by (auto simp: list_all_iff not_le split: if_splits)

lemma base32_decode_loop_grows: "base32_decode_loop v k inp out = Some (v', k', out') \<Longrightarrow> length out \<le> length out'"
proof (induction inp arbitrary: v k out)
  case (Cons c inp)
  define w where "w = v OR push_bit k (unat (base32values ! unat c))"
  show ?case using Cons.prems Cons.IH [of "drop_bit 8 w" "k + 5 - 8" "out @ [of_nat w]"] Cons.IH [of w "k + 5" out]
    by (simp add: Let_def w_def [symmetric] split: if_splits)
qed simp

lemma no_pair_None: "\<forall>a b. x \<noteq> Some (a, b) \<Longrightarrow> x = None"
  by (cases x) auto

lemma misc_decode_loop_eq:
  fixes inp out :: bytes
  shows "(case base32_decode_loop v k inp out of None \<Rightarrow> fst (misc_decode_loop n v k inp out) = None
    | Some (v', k', out') \<Rightarrow> if length out' \<le> n \<or> out' = out then misc_decode_loop n v k inp out = (Some (v', k'), out')
        else fst (misc_decode_loop n v k inp out) = None)"
proof (induction inp arbitrary: v k out)
  case (Cons c inp)
  note v = value_agrees [of c]
  show ?case
  proof (cases "c AND 0x80 \<noteq> 0 \<or> unat (base32values ! unat c) > 31")
    case True
    then show ?thesis using v(1) by auto
  next
    case False
    then have c: "c AND 0x80 = 0" "unat (base32values ! unat c) \<le> 31" "kValues ! unat c = base32values ! unat c"
      using v by auto
    define w where "w = v OR push_bit k (unat (base32values ! unat c))"
    show ?thesis
    proof (cases "k + 5 \<ge> 8")
      case True
      have g: "length out < length out'" if "base32_decode_loop (drop_bit 8 w) (k + 5 - 8) inp (out @ [of_nat w]) = Some (v', k', out')" for v' k' out'
        using base32_decode_loop_grows [OF that] by simp
      show ?thesis
        using Cons.IH [of "drop_bit 8 w" "k + 5 - 8" "out @ [of_nat w]"] c True g
        by (auto simp: Let_def w_def [symmetric] not_less prod_eq_iff dest!: no_pair_None split: option.splits if_splits)
    next
      case False
      then have e: "misc_decode_loop n v k (c # inp) out = misc_decode_loop n w (k + 5) inp out"
          "base32_decode_loop v k (c # inp) out = base32_decode_loop w (k + 5) inp out"
        using c by (simp_all add: Let_def w_def [symmetric])
      show ?thesis unfolding e by (rule Cons.IH)
    qed
  qed
qed simp

text \<open>The base-32 decoder of curvedns is that of dq with a bound on the result.\<close>

lemma misc_base32_decode_eq:
  "(case misc_base32_decode n inp mode of (ok, out) \<Rightarrow> if ok then Some out else None) =
   (case base32_decode inp mode of None \<Rightarrow> None | Some out \<Rightarrow> if length out \<le> n then Some out else None)"
proof (cases "base32_decode_loop 0 0 inp []")
  case None
  then show ?thesis using misc_decode_loop_eq [where v = 0 and k = 0 and inp = inp and out = "[]" and n = n]
    by (auto simp: misc_base32_decode_def base32_decode_def split: option.splits prod.splits)
next
  case (Some r)
  obtain v k out where r: "r = (v, k, out)" by (metis prod_cases3)
  show ?thesis
  proof (cases "length out \<le> n")
    case True
    then show ?thesis using misc_decode_loop_eq [where v = 0 and k = 0 and inp = inp and out = "[]" and n = n] Some r
      by (auto simp: misc_base32_decode_def base32_decode_def)
  next
    case False
    then have "out \<noteq> []" by auto
    then obtain x where "misc_decode_loop n 0 0 inp [] = (None, x)"
      using misc_decode_loop_eq [where v = 0 and k = 0 and inp = inp and out = "[]" and n = n] Some r False
      by (cases "misc_decode_loop n 0 0 inp []") auto
    then show ?thesis using Some r False by (simp add: misc_base32_decode_def base32_decode_def)
  qed
qed

text \<open>
  The decoder of query names in curvedns accepts exactly the texts that dq's decoder accepts and gives the same bytes, when they fit; it
  never looks outside its table.
\<close>

theorem misc_base32_decode_agrees:
  "(case misc_base32_decode n inp mode of (ok, out) \<Rightarrow> if ok then Some out else None) =
   (case base32_decode inp mode of None \<Rightarrow> None | Some out \<Rightarrow> if length out \<le> n then Some out else None)"
  by (rule misc_base32_decode_eq)

subsection \<open>Hexadecimal text\<close>

lemma hex_digits:
  "list_all (\<lambda>x. case (misc_hex_char (drop_bit 4 (of_nat x)), misc_hex_char (of_nat x AND 15)) of
      (Some c, Some d) \<Rightarrow> (case (misc_char_hex c, misc_char_hex d) of (Some v, Some w) \<Rightarrow> push_bit 4 v OR w = (of_nat x :: byte) | _ \<Rightarrow> False)
    | _ \<Rightarrow> False) [0..<256]"
  by code_simp

lemma hex_byte:
  obtains c d v w where "misc_hex_char (drop_bit 4 b) = Some c" "misc_hex_char (b AND 15) = Some d"
    "misc_char_hex c = Some v" "misc_char_hex d = Some w" "push_bit 4 v OR w = b"
proof -
  have "unat b \<in> set [0..<256]" "b = of_nat (unat b)" using unat_byte_less [of b] by simp_all
  with hex_digits have "case (misc_hex_char (drop_bit 4 b), misc_hex_char (b AND 15)) of
      (Some c, Some d) \<Rightarrow> (case (misc_char_hex c, misc_char_hex d) of (Some v, Some w) \<Rightarrow> push_bit 4 v OR w = b | _ \<Rightarrow> False)
    | _ \<Rightarrow> False"
    unfolding list_all_iff by metis
  then show ?thesis using that by (auto split: option.splits)
qed

lemma hex_encode_loop_ok:
  "p + 2 * length src \<le> length dst \<Longrightarrow> \<exists>h. hex_encode_loop src p dst = Some (True, mem_write dst p h) \<and> length h = 2 * length src \<and>
     (\<forall>out. misc_hex_decode h out = (True, out @ src))"
proof (induction src arbitrary: p dst)
  case (Cons b src)
  obtain c d v w where h: "misc_hex_char (drop_bit 4 b) = Some c" "misc_hex_char (b AND 15) = Some d"
    "misc_char_hex c = Some v" "misc_char_hex d = Some w" "push_bit 4 v OR w = b"
    by (rule hex_byte)
  define dst1 where "dst1 = dst[p := c, p + 1 := d]"
  obtain t where t: "hex_encode_loop src (p + 2) dst1 = Some (True, mem_write dst1 (p + 2) t)" "length t = 2 * length src"
      "\<And>out. misc_hex_decode t out = (True, out @ src)"
    using Cons.IH [of "p + 2" dst1] Cons.prems by (auto simp: dst1_def)
  have "hex_encode_loop (b # src) p dst = Some (True, mem_write dst1 (p + 2) t)"
    using Cons.prems h t(1) by (simp add: st_def dst1_def)
  moreover have "mem_write dst1 (p + 2) t = mem_write dst p (c # d # t)"
    using Cons.prems t(2) by (intro nth_equalityI) (auto simp: mem_write_def dst1_def nth_append nth_Cons' nth_list_update min_def)
  ultimately show ?case using t(2,3) h by (intro exI [of _ "c # d # t"]) simp
qed simp

lemma hex_encode_loop_over: "length dst < p + 2 * length src \<Longrightarrow> p \<le> length dst \<Longrightarrow> hex_encode_loop src p dst = None"
proof (induction src arbitrary: p dst)
  case (Cons b src)
  obtain c d v w where h: "misc_hex_char (drop_bit 4 b) = Some c" "misc_hex_char (b AND 15) = Some d" by (rule hex_byte)
  show ?case
  proof (cases "p + 1 < length dst")
    case True
    then show ?thesis using h Cons.prems Cons.IH [of "dst[p := c, p + 1 := d]" "p + 2"] by (simp add: st_def)
  next
    case False
    then show ?thesis using h by (simp add: st_def)
  qed
qed simp

text \<open>
  The guard of \<open>misc_hex_encode\<close> is the wrong way round: a destination with room to spare is refused, one of exactly the right size
  gets the text that \<open>misc_hex_decode\<close> reads back, and one that is too small is written beyond its end.
\<close>

theorem misc_hex_encode_guard:
  "(2 * length src < length dst \<longrightarrow> misc_hex_encode src dst (length dst) = Some (False, replicate (length dst) 0)) \<and>
   (2 * length src = length dst \<longrightarrow> (\<exists>h. misc_hex_encode src dst (length dst) = Some (True, h) \<and> misc_hex_decode h [] = (True, src))) \<and>
   (length dst < 2 * length src \<longrightarrow> misc_hex_encode src dst (length dst) = None)"
proof (intro conjI impI)
  assume "2 * length src = length dst"
  moreover from this obtain h where "hex_encode_loop src 0 (replicate (length dst) 0) = Some (True, mem_write (replicate (length dst) 0) 0 h)" "length h = length dst"
      "misc_hex_decode h [] = (True, src)"
    using hex_encode_loop_ok [of 0 src "replicate (length dst) 0"] by auto
  ultimately show "\<exists>h. misc_hex_encode src dst (length dst) = Some (True, h) \<and> misc_hex_decode h [] = (True, src)"
    by (simp add: misc_hex_encode_def mem_write_def)
qed (simp_all add: misc_hex_encode_def hex_encode_loop_over)

theorem misc_hex_encode_guard_witness:
  "misc_hex_encode [171] [0, 0, 0] 3 = Some (False, [0, 0, 0]) \<and> misc_hex_encode [171] [0] 1 = None"
  using misc_hex_encode_guard [of "[171]" "[0, 0, 0]"] misc_hex_encode_guard [of "[171]" "[0]"] by (simp add: eval_nat_numeral)

end
