(* ===== verification/CurvePacket.thy ===== *)
theory CurvePacket
  imports DnsAnswer CurveCache CurveMisc
begin

section \<open>The DNSCurve forwarder\<close>

text \<open>
  The model of \<open>curvedns-0.88/dnscurve.c\<close> and of the packet handling in \<open>curvedns-0.88/dns.c\<close>: queries are recognised and
  opened, forwarded under a new id, and the answers of the authoritative server are sealed in the form of the
  query.  The buffer of an entry is the list of its bytes.  The stack array \<open>sandbox\<close> (4096 bytes, not
  initialised) is the argument \<open>sb\<close>; every copy into it or into the buffer is checked: \<open>None\<close> is
  a copy outside the array.  Log lines are left out.
\<close>

datatype dns_packet_type = DNS_NON_DNSCURVE | DNS_DNSCURVE_STREAMLINED | DNS_DNSCURVE_TXT_RD_UNSET | DNS_DNSCURVE_TXT_RD_SET

record dns_packet =
  p_type :: dns_packet_type
  p_srctxid :: u16
  p_dsttxid :: u16
  p_srcinsidetxid :: u16
  p_ispublic :: bool
  p_key :: bytes
  p_nonce :: bytes
  p_qname :: bytes

record entry =
  v_buffer :: bytes
  v_packetsize :: nat
  v_dns :: dns_packet

text \<open>The global variables: the cache of shared secrets, the secret key, the random generator.\<close>

record server =
  s_cache :: ctable
  s_secret :: bytes
  s_rnd :: rnd

subsection \<open>Names in queries\<close>

text \<open>
  As in dq, but with other limits: 4096 reads, and a name array of \<open>namemax\<close> bytes.  Every byte is read by \<open>ld\<close>
  from the packet and stored by \<open>push\<close> in the array; the inner \<open>None\<close> is \<open>goto PROTO\<close>.
\<close>

function cname_ptr :: "bytes \<Rightarrow> nat \<Rightarrow> nat \<Rightarrow> nat \<Rightarrow> byte \<Rightarrow> (nat \<times> nat \<times> nat \<times> byte) option option" where
  "cname_ptr buf pos loop firstcompress ch =
     (if ch \<ge> 192
      then let whr = (unat ch - 192) * 256 in
        if pos \<ge> length buf then Some None
        else do {
          ch1 \<leftarrow> ld buf pos;
          let pos1 = pos + 1;
          let fc1 = (if firstcompress = 0 then pos1 else firstcompress);
          let pos2 = whr + unat ch1;
          if pos2 \<ge> length buf then Some None
          else do {
            ch2 \<leftarrow> ld buf pos2;
            let loop1 = loop + 1;
            if loop1 \<ge> 4096 then Some None
            else cname_ptr buf (pos2 + 1) loop1 fc1 ch2 } }
      else Some (Some (pos, loop, firstcompress, ch)))"
  by pat_completeness auto
termination
  by (relation "measure (\<lambda>(buf, pos, loop, fc, ch). 4096 - loop)") auto

declare cname_ptr.simps [simp del]

lemma cname_ptr_label:
  assumes "ch < 192"
  shows "cname_ptr buf pos loop fc ch = Some (Some (pos, loop, fc, ch))"
proof -
  have "\<not> 192 \<le> ch" using assms by (simp add: not_le)
  then show ?thesis by (subst cname_ptr.simps) (simp only: if_False)
qed

lemma cname_ptr_hop:
  assumes "192 \<le> ch" "t = (unat ch - 192) * 256 + unat (buf ! pos)"
  shows "cname_ptr buf pos loop fc ch = Some (Some z) \<longleftrightarrow>
     pos < length buf \<and> t < length buf \<and> loop + 1 < 4096 \<and>
     cname_ptr buf (t + 1) (loop + 1) (if fc = 0 then pos + 1 else fc) (buf ! t) = Some (Some z)"
  unfolding assms(2) by (subst cname_ptr.simps) (auto simp: assms(1) Let_def not_le)

lemma cname_ptr_returns: "cname_ptr buf pos loop fc ch \<noteq> None"
proof (induction "4096 - loop" arbitrary: pos loop fc ch rule: less_induct)
  case less
  have "cname_ptr buf p (loop + 1) f c \<noteq> None" if "\<not> 4096 \<le> loop + 1" for p f c
    using less that by simp
  then show ?case by (subst cname_ptr.simps) (simp add: Let_def)
qed

lemma cname_ptr_loop_mono:
  "cname_ptr buf pos loop fc ch = Some (Some (pos', loop', fc', ch')) \<Longrightarrow> loop \<le> loop'"
proof (induction "4096 - loop" arbitrary: pos loop fc ch rule: less_induct)
  case less
  show ?case
  proof (cases "192 \<le> ch")
    case True
    with less.prems have "loop + 1 < 4096"
      and "cname_ptr buf ((unat ch - 192) * 256 + unat (buf ! pos) + 1) (loop + 1) (if fc = 0 then pos + 1 else fc)
         (buf ! ((unat ch - 192) * 256 + unat (buf ! pos))) = Some (Some (pos', loop', fc', ch'))"
      by (simp_all only: cname_ptr_hop [OF True refl])
    then have "loop + 1 \<le> loop'" by (intro less.hyps) simp_all
    then show ?thesis by simp
  next
    case False
    then show ?thesis using less.prems by (simp add: cname_ptr_label not_le)
  qed
qed

function cname_loop :: "nat \<Rightarrow> bytes \<Rightarrow> nat \<Rightarrow> nat \<Rightarrow> nat \<Rightarrow> nat \<Rightarrow> bytes \<Rightarrow> (nat \<times> bytes) option" where
  "cname_loop namemax buf pos loop state firstcompress name =
     (if pos \<ge> length buf then Some (0, name)
      else do {
        ch \<leftarrow> ld buf pos;
        if loop + 1 \<ge> 4096 then Some (0, name)
        else if state > 0
        then if length name + 1 > namemax then Some (0, name)
          else do {
            name \<leftarrow> push namemax name ch;
            cname_loop namemax buf (pos + 1) (loop + 1) (state - 1) firstcompress name }
        else do {
          x \<leftarrow> cname_ptr buf (pos + 1) (loop + 1) firstcompress ch;
          case x of
            None \<Rightarrow> Some (0, name)
          | Some (pos2, loop2, fc2, ch2) \<Rightarrow>
            if ch2 \<ge> 64 then Some (0, name)
            else if length name + 1 > namemax then Some (0, name)
            else do {
              name \<leftarrow> push namemax name ch2;
              if ch2 = 0 then Some ((if fc2 \<noteq> 0 then fc2 else pos2), name)
              else cname_loop namemax buf pos2 loop2 (unat ch2) fc2 name } } })"
  by pat_completeness auto
termination
  by (relation "measure (\<lambda>(m, buf, pos, loop, state, fc, name). 4096 - loop)")
    (auto dest!: cname_ptr_loop_mono)

declare cname_loop.simps [simp del]

lemma cname_loop_returns: "cname_loop m buf pos loop s fc name \<noteq> None"
proof (induction m buf pos loop s fc name rule: cname_loop.induct)
  case (1 m buf pos loop s fc name)
  show ?case
    using "1.IH" cname_ptr_returns [of buf "pos + 1" "loop + 1" fc "buf ! pos"]
    by (subst cname_loop.simps) (auto split: option.split)
qed

definition curve_packet_getname :: "nat \<Rightarrow> bytes \<Rightarrow> nat \<Rightarrow> (nat \<times> bytes) option" where
  "curve_packet_getname namemax buf pos = cname_loop namemax buf pos 0 0 0 []"

subsection \<open>Shared secrets\<close>

definition dnscurve_get_shared_secret :: "server \<Rightarrow> dns_packet \<Rightarrow> (int \<times> server \<times> dns_packet) option" where
  "dnscurve_get_shared_secret s p =
     (if p_ispublic p
      then do {
        r \<leftarrow> cache_get_ht (s_cache s) (p_key p);
        case r of
          Some i \<Rightarrow> do { e \<leftarrow> ld (t_entries (s_cache s)) i; Some (2, s, p\<lparr>p_key := e_value e, p_ispublic := False\<rparr>) }
        | None \<Rightarrow>
            do { let sharedsecret = nacl_box_beforenm (p_key p) (s_secret s);
                 (i, c) \<leftarrow> cache_set_ht (s_cache s) (p_key p) sharedsecret;
                 let s = s\<lparr>s_cache := c\<rparr>;
                 if i = None then Some (- 1, s, p) else Some (3, s, p\<lparr>p_key := sharedsecret, p_ispublic := False\<rparr>) } }
      else Some (1, s, p))"

text \<open>The number of slots; a negative quotient becomes 5 whichever way it is rounded.\<close>

definition dnscurve_init :: "(nat \<Rightarrow> bool) \<Rightarrow> int \<Rightarrow> ctable option" where
  "dnscurve_init m global_shared_secrets =
     (let slots = global_shared_secrets div 25;
          slots = (if slots < 5 then 5 else if slots > 500 then 500 else slots)
      in cache_init_ht m slots global_shared_secrets)"

subsection \<open>Opening queries\<close>

text \<open>The labels before the one with the key, concatenated; \<open>Some None\<close> is a return of 0.\<close>

function pq_gather :: "bytes \<Rightarrow> nat \<Rightarrow> bytes \<Rightarrow> (nat \<times> bytes) option option" where
  "pq_gather name i enc =
     do { c \<leftarrow> ld name i;
          if c = 54 then Some (Some (i, enc))
          else if c > 50 then Some None
          else if c = 0 then Some None
          else if length enc + unat c > 4096 then Some None
          else do { b \<leftarrow> rd name (i + 1) (unat c); pq_gather name (i + 1 + unat c) (enc @ b) } }"
  by pat_completeness auto
termination
  by (relation "measure (\<lambda>(name, i, enc). length name - i)") (auto simp: ld_def split: if_splits)

declare pq_gather.simps [simp del]

text \<open>
  The return value, the bytes stored in the box (at most \<open>boxlen\<close>) and those stored in the public key, and the
  position of the zone.
\<close>

definition dnscurve_parse_query_name :: "nat \<Rightarrow> bytes \<Rightarrow> (bool \<times> bytes \<times> bytes \<times> nat) option" where
  "dnscurve_parse_query_name boxlen name =
     do { g \<leftarrow> pq_gather name 0 [];
          case g of None \<Rightarrow> Some (False, [], [], 0)
          | Some (i, enc) \<Rightarrow>
            let (ok, box) = misc_base32_decode boxlen enc False in
            if \<not> ok then Some (False, box, [], 0)
            else do {
              x \<leftarrow> rd name i 4;
              if x ! 0 \<noteq> 54 \<or> x ! 1 AND NOT 0x20 \<noteq> 88 \<or> x ! 2 \<noteq> 49 \<or> x ! 3 AND NOT 0x20 \<noteq> 65 then Some (False, box, [], 0)
              else do {
                y \<leftarrow> rd name (i + 4) 51;
                let (ok, publickey) = misc_base32_decode 32 y True in
                if \<not> ok then Some (False, box, publickey, 0)
                else if length publickey \<noteq> 32 then Some (False, box, publickey, 0)
                else Some (True, box, publickey, i + 55) } } }"

definition magic_q :: bytes where
  "magic_q = [81, 54, 102, 110, 118, 87, 106, 56]"

definition magic_r :: bytes where
  "magic_r = [82, 54, 102, 110, 118, 87, 74, 56]"

text \<open>The streamlined form.  The result is the return value of \<open>dnscurve_analyze_query\<close>.\<close>

definition analyze_streamlined :: "entry \<Rightarrow> server \<Rightarrow> bytes \<Rightarrow> (bool \<times> entry \<times> server) option" where
  "analyze_streamlined e s sb =
     do { k \<leftarrow> rd (v_buffer e) 8 32;
          let p = (v_dns e)\<lparr>p_ispublic := True, p_key := k\<rparr>;
          n \<leftarrow> rd (v_buffer e) 40 12;
          let fullnonce = n @ replicate 12 0;
          m \<leftarrow> rd (v_buffer e) 52 (v_packetsize e - 52);
          sb \<leftarrow> wr sb 16 m;
          let sandboxlen = v_packetsize e - 36;
          (result, s, p) \<leftarrow> dnscurve_get_shared_secret s p;
          let e = e\<lparr>v_dns := p\<rparr>;
          if result < 0 \<or> p_ispublic p then Some (True, e, s)
          else do {
            c \<leftarrow> rd sb 0 sandboxlen;
            case nacl_box_open_afternm c fullnonce (p_key p) of None \<Rightarrow> Some (True, e, s)
            | Some m \<Rightarrow> do {
                buf \<leftarrow> wr (v_buffer e) 0 (drop 32 m);
                i \<leftarrow> rd buf 0 2;
                Some (True, e\<lparr>v_buffer := buf, v_packetsize := sandboxlen - 32,
                  v_dns := p\<lparr>p_nonce := take 12 fullnonce, p_type := DNS_DNSCURVE_STREAMLINED, p_srctxid := uint16_unpack_big i\<rparr>\<rparr>, s) } } }"

text \<open>The TXT form; \<open>al\<close> says whether \<open>malloc\<close> delivers the memory for the query name.\<close>

definition analyze_txt :: "(nat \<Rightarrow> bool) \<Rightarrow> entry \<Rightarrow> server \<Rightarrow> bytes \<Rightarrow> (bool \<times> entry \<times> server) option" where
  "analyze_txt al e s sb =
     do {
      buf \<leftarrow> rd (v_buffer e) 0 (v_packetsize e);
      (pos, queryname) \<leftarrow> curve_packet_getname 4096 buf 12;
      if pos = 0 then Some (True, e, s)
      else if v_packetsize e - pos \<noteq> 4 then Some (True, e, s)
      else do {
        tc \<leftarrow> rd buf pos 4;
        if tc \<noteq> [0, 16, 0, 1] then Some (True, e, s)
        else do {
        (ok, box, publickey, zone) \<leftarrow> dnscurve_parse_query_name (4096 - 4) queryname;
        let p = (v_dns e)\<lparr>p_key := publickey @ drop (length publickey) (p_key (v_dns e))\<rparr>;
        if \<not> ok then Some (True, e\<lparr>v_dns := p\<rparr>, s)
        else do {
          sb \<leftarrow> wr sb 4 box;
          let p = p\<lparr>p_ispublic := True\<rparr>;
          let sandboxlen = length box + 4;
          n \<leftarrow> rd sb 4 12;
          let fullnonce = n @ replicate 12 0;
          sb \<leftarrow> wr sb 0 (replicate 16 0);
          (result, s, p) \<leftarrow> dnscurve_get_shared_secret s p;
          let e = e\<lparr>v_dns := p\<rparr>;
          if result < 0 \<or> p_ispublic p then Some (True, e, s)
          else do {
            c \<leftarrow> rd sb 0 sandboxlen;
            case nacl_box_open_afternm c fullnonce (p_key p) of None \<Rightarrow> Some (True, e, s)
            | Some m \<Rightarrow>
              let e = e\<lparr>v_packetsize := sandboxlen - 32\<rparr> in
              if v_packetsize e < 2 then Some (False, e, s)
              else do {
                f \<leftarrow> ld (v_buffer e) 2;
                let p = p\<lparr>p_type := (if f AND 1 \<noteq> 0 then DNS_DNSCURVE_TXT_RD_SET else DNS_DNSCURVE_TXT_RD_UNSET)\<rparr>;
                if \<not> al (pos - 12) then Some (False, e\<lparr>v_dns := p\<rparr>, s)
                else do {
                  qn \<leftarrow> rd (v_buffer e) 12 (pos - 12);
                  let p = p\<lparr>p_qname := qn, p_nonce := take 12 fullnonce\<rparr>;
                  buf \<leftarrow> wr (v_buffer e) 0 (drop 32 m);
                  i \<leftarrow> rd buf 0 2;
                  Some (True, e\<lparr>v_buffer := buf, v_dns := p\<lparr>p_srcinsidetxid := uint16_unpack_big i\<rparr>\<rparr>, s) } } } } } } }"

definition dnscurve_analyze_query :: "(nat \<Rightarrow> bool) \<Rightarrow> entry \<Rightarrow> server \<Rightarrow> bytes \<Rightarrow> (bool \<times> entry \<times> server) option" where
  "dnscurve_analyze_query al e s sb =
     (if v_packetsize e < 12 then Some (False, e, s)
      else do {
        i \<leftarrow> rd (v_buffer e) 0 2;
        let e = e\<lparr>v_dns := (v_dns e)\<lparr>p_type := DNS_NON_DNSCURVE, p_srctxid := uint16_unpack_big i\<rparr>\<rparr>;
        if v_packetsize e < 68 then Some (True, e, s)
        else do {
          sb \<leftarrow> wr sb 0 (replicate 16 0);
          h \<leftarrow> rd (v_buffer e) 0 8;
          if h = magic_q then analyze_streamlined e s sb
          else do {
            f \<leftarrow> ld (v_buffer e) 2;
            if f AND 0x80 \<noteq> 0 then Some (False, e, s)
            else if f AND 0xfe \<noteq> 0 then Some (True, e, s)
            else do {
              h \<leftarrow> rd (v_buffer e) 3 9;
              if h \<noteq> [0, 0, 1, 0, 0, 0, 0, 0, 0] then Some (True, e, s)
              else analyze_txt al e s sb } } } })"

subsection \<open>Sealing answers\<close>

text \<open>\<open>time\<close> is the clock of the event loop as the bytes of its representation.\<close>

definition server_nonce :: "bytes \<Rightarrow> server \<Rightarrow> bytes \<times> server" where
  "server_nonce time s = (let (n, r) = misc_crypto_nonce time (s_rnd s) in (n, s\<lparr>s_rnd := r\<rparr>))"

definition dnscurve_reply_streamlined_query :: "bytes \<Rightarrow> entry \<Rightarrow> server \<Rightarrow> bytes \<Rightarrow> (bool \<times> entry \<times> server) option" where
  "dnscurve_reply_streamlined_query time e s sb =
     (if p_type (v_dns e) \<noteq> DNS_DNSCURVE_STREAMLINED then Some (False, e, s)
      else if 4096 < v_packetsize e + 32 then Some (False, e, s)
      else if v_packetsize e + 32 > length (v_buffer e) then Some (False, e, s)
      else do {
        sb \<leftarrow> wr sb 0 (replicate 32 0);
        m \<leftarrow> rd (v_buffer e) 0 (v_packetsize e);
        sb \<leftarrow> wr sb 32 m;
        let (n, s) = server_nonce time s;
        let fullnonce = p_nonce (v_dns e) @ n;
        (result, s, p) \<leftarrow> dnscurve_get_shared_secret s (v_dns e);
        let e = e\<lparr>v_dns := p\<rparr>;
        if result < 0 \<or> p_ispublic p then Some (True, e, s)
        else do {
          m \<leftarrow> rd sb 0 (v_packetsize e + 32);
          case nacl_box_afternm m fullnonce (p_key p) of None \<Rightarrow> Some (False, e, s)
          | Some c \<Rightarrow> do {
              buf \<leftarrow> wr (v_buffer e) 0 magic_r;
              buf \<leftarrow> wr buf 8 fullnonce;
              buf \<leftarrow> wr buf 32 (mem_read c 16 (v_packetsize e + 16));
              Some (True, e\<lparr>v_buffer := buf, v_packetsize := v_packetsize e + 48\<rparr>, s) } } })"

text \<open>The strings of the record data: at most 255 bytes each, from position \<open>lst\<close> of the sandbox to \<open>pos\<close> of the buffer.\<close>

function split_rdata :: "bytes \<Rightarrow> bytes \<Rightarrow> nat \<Rightarrow> nat \<Rightarrow> nat \<Rightarrow> (bytes \<times> nat) option" where
  "split_rdata buf sb pos lst todo =
     (if todo = 0 then Some (buf, pos)
      else do {
        let labelsize = (if todo < 255 then todo else 255);
        buf \<leftarrow> wr buf pos [of_nat labelsize];
        b \<leftarrow> rd sb lst labelsize;
        buf \<leftarrow> wr buf (pos + 1) b;
        split_rdata buf sb (pos + labelsize + 1) (lst + labelsize) (todo - labelsize) })"
  by pat_completeness auto
termination
  by (relation "measure (\<lambda>(buf, sb, pos, lst, todo). todo)") (auto split: if_splits)

declare split_rdata.simps [simp del]

text \<open>The answer around the sealed message, which is \<open>packetsize\<close> bytes from position 4 of the sandbox.\<close>

definition txt_answer :: "entry \<Rightarrow> bytes \<Rightarrow> (bool \<times> entry) option" where
  "txt_answer e sb =
     (let p = v_dns e; bufferlen = length (v_buffer e); qnamelen = length (p_qname p) in
      do { buf \<leftarrow> wr (v_buffer e) 0 (uint16_pack_big (p_srctxid p));
           buf \<leftarrow> wr buf 2 [if p_type p = DNS_DNSCURVE_TXT_RD_SET then 0x85 else 0x84];
           buf \<leftarrow> wr buf 3 [0, 0, 1, 0, 1, 0, 0, 0, 0];
           if bufferlen < 12 + qnamelen then Some (False, e\<lparr>v_buffer := buf\<rparr>)
           else do {
             buf \<leftarrow> wr buf 12 (p_qname p);
             let pos = 12 + qnamelen;
             if bufferlen < pos + 14 then Some (False, e\<lparr>v_buffer := buf\<rparr>)
             else do {
               buf \<leftarrow> wr buf pos [0, 16, 0, 1, 0xc0, 0x0c, 0, 16, 0, 1, 0, 0, 0, 0];
               let pos = pos + 14;
               let rrdatalen = v_packetsize e + (v_packetsize e + 254) div 255;
               if bufferlen < pos + 2 + rrdatalen then Some (False, e\<lparr>v_buffer := buf\<rparr>)
               else do {
                 buf \<leftarrow> wr buf pos (uint16_pack_big (of_nat rrdatalen));
                 (buf, pos) \<leftarrow> split_rdata buf sb (pos + 2) 4 (v_packetsize e);
                 Some (True, e\<lparr>v_buffer := buf, v_packetsize := pos\<rparr>) } } } })"

definition dnscurve_reply_txt_query :: "bytes \<Rightarrow> entry \<Rightarrow> server \<Rightarrow> bytes \<Rightarrow> (bool \<times> entry \<times> server) option" where
  "dnscurve_reply_txt_query time e s sb =
     (if p_type (v_dns e) \<noteq> DNS_DNSCURVE_TXT_RD_SET \<and> p_type (v_dns e) \<noteq> DNS_DNSCURVE_TXT_RD_UNSET then Some (False, e, s)
      else if 4096 < v_packetsize e + 32 then Some (False, e, s)
      else do {
        i \<leftarrow> rd (v_buffer e) 0 2;
        if uint16_unpack_big i \<noteq> p_srcinsidetxid (v_dns e) then Some (False, e, s)
        else do {
          sb \<leftarrow> wr sb 0 (replicate 32 0);
          m \<leftarrow> rd (v_buffer e) 0 (v_packetsize e);
          sb \<leftarrow> wr sb 32 m;
          let (n, s) = server_nonce time s;
          let fullnonce = p_nonce (v_dns e) @ n;
          (result, s, p) \<leftarrow> dnscurve_get_shared_secret s (v_dns e);
          let e = e\<lparr>v_dns := p\<rparr>;
          if result < 0 \<or> p_ispublic p then Some (True, e, s)
          else do {
            m \<leftarrow> rd sb 0 (v_packetsize e + 32);
            case nacl_box_afternm m fullnonce (p_key p) of None \<Rightarrow> Some (False, e, s)
            | Some c \<Rightarrow> do {
                sb \<leftarrow> wr sb 0 c;
                sb \<leftarrow> wr sb 4 (mem_read fullnonce 12 12);
                (ok, e) \<leftarrow> txt_answer (e\<lparr>v_packetsize := v_packetsize e + 28\<rparr>) sb;
                Some (ok, e, s) } } } })"

subsection \<open>Forwarding\<close>

text \<open>
  What \<open>dns_forward_query_udp\<close> and \<open>dns_forward_query_tcp\<close> do to the packet: a new id, two numbers from the random generator.
  The sockets are left out.
\<close>

definition dns_forward_query :: "entry \<Rightarrow> server \<Rightarrow> (entry \<times> server) option" where
  "dns_forward_query e s =
     do { let (a, r) = misc_crypto_random 256 (s_rnd s);
          buf \<leftarrow> wr (v_buffer e) 0 [ucast a];
          let (b, r) = misc_crypto_random 256 r;
          buf \<leftarrow> wr buf 1 [ucast b];
          i \<leftarrow> rd buf 0 2;
          Some (e\<lparr>v_buffer := buf, v_dns := (v_dns e)\<lparr>p_dsttxid := uint16_unpack_big i\<rparr>\<rparr>, s\<lparr>s_rnd := r\<rparr>) }"

text \<open>
  Over UDP, for the time \<open>r + 1\<close> (a \<open>uint8_t\<close> counts): \<open>op\<close> and \<open>sent\<close> say whether the socket is opened and whether
  \<open>sendto\<close> succeeds.  The result is the new count, the entry and the datagram that went out; \<open>None\<close>, after which
  the callers drop the entry, is the return of 0.
\<close>

definition dns_forward_query_udp :: "bool \<Rightarrow> bool \<Rightarrow> byte \<Rightarrow> entry \<Rightarrow> server \<Rightarrow> ((byte \<times> entry \<times> bytes) option \<times> server) option" where
  "dns_forward_query_udp op sent r e s =
     (if \<not> op then Some (None, s)
      else do {
        (e, s) \<leftarrow> dns_forward_query e s;
        out \<leftarrow> rd (v_buffer e) 0 (v_packetsize e);
        Some (if sent then Some (r + 1, e, out) else None, s) })"

definition dns_analyze_reply_query :: "entry \<Rightarrow> (bool \<times> entry) option" where
  "dns_analyze_reply_query e =
     (if v_packetsize e < 12 then Some (False, e)
      else do {
        i \<leftarrow> rd (v_buffer e) 0 2;
        if p_dsttxid (v_dns e) \<noteq> uint16_unpack_big i then Some (False, e)
        else do {
          let p = v_dns e;
          let i = (if p_type p = DNS_NON_DNSCURVE \<or> p_type p = DNS_DNSCURVE_STREAMLINED then p_srctxid p else p_srcinsidetxid p);
          buf \<leftarrow> wr (v_buffer e) 0 (uint16_pack_big i);
          Some (True, e\<lparr>v_buffer := buf\<rparr>) } })"

definition dns_reply_query :: "bytes \<Rightarrow> entry \<Rightarrow> server \<Rightarrow> bytes \<Rightarrow> (bool \<times> entry \<times> server) option" where
  "dns_reply_query time e s sb =
     (case p_type (v_dns e) of
        DNS_NON_DNSCURVE \<Rightarrow> Some (True, e, s)
      | DNS_DNSCURVE_STREAMLINED \<Rightarrow> dnscurve_reply_streamlined_query time e s sb
      | _ \<Rightarrow> dnscurve_reply_txt_query time e s sb)"

subsection \<open>UDP\<close>

text \<open>
  The two callbacks of \<open>event_udp.c\<close> that handle packets.  The buffers have \<open>n\<close> bytes
  (\<open>global_ip_udp_buffersize\<close>), and \<open>recvfrom\<close> cuts a longer datagram.  \<open>None\<close> in the entry: it is dropped.
\<close>

definition empty_packet :: dns_packet where
  "empty_packet = \<lparr>p_type = DNS_NON_DNSCURVE, p_srctxid = 0, p_dsttxid = 0, p_srcinsidetxid = 0, p_ispublic = False,
     p_key = replicate 32 0, p_nonce = replicate 12 0, p_qname = []\<rparr>"

definition event_udp_ext ::
    "nat \<Rightarrow> (nat \<Rightarrow> bool) \<Rightarrow> bool \<Rightarrow> bool \<Rightarrow> bytes \<Rightarrow> server \<Rightarrow> bytes \<Rightarrow> ((byte \<times> entry \<times> bytes) option \<times> server) option" where
  "event_udp_ext n al op sent pkt s sb =
     do { let pkt = take n pkt;
          let e = \<lparr>v_buffer = pkt @ replicate (n - length pkt) 0, v_packetsize = length pkt, v_dns = empty_packet\<rparr>;
          (ok, e, s) \<leftarrow> dnscurve_analyze_query al e s sb;
          if \<not> ok then Some (None, s)
          else dns_forward_query_udp op sent 0 e s }"

text \<open>
  The addresses of the sockets: \<open>anysin_t\<close> and its comparison in \<open>ip.c\<close>, with the families \<open>AF_INET\<close>, \<open>AF_INET6\<close> and any other.
\<close>

datatype anysin = Sin u32 u16 | Sin6 bytes u16 | Sother nat

definition sa_family :: "anysin \<Rightarrow> nat" where
  "sa_family a = (case a of Sin _ _ \<Rightarrow> 2 | Sin6 _ _ \<Rightarrow> 10 | Sother f \<Rightarrow> f)"

definition memcmp :: "bytes \<Rightarrow> bytes \<Rightarrow> int" where
  "memcmp x y = (case dropWhile (\<lambda>(a, b). a = b) (zip x y) of [] \<Rightarrow> 0 | (a, b) # _ \<Rightarrow> uint a - uint b)"

definition ip_compare_address :: "anysin \<Rightarrow> anysin \<Rightarrow> int" where
  "ip_compare_address a b =
     (if sa_family a \<noteq> sa_family b then int (sa_family a) - int (sa_family b)
      else case (a, b) of
          (Sin x _, Sin y _) \<Rightarrow> sint (x - y)
        | (Sin6 x _, Sin6 y _) \<Rightarrow> memcmp (take 16 x) (take 16 y)
        | _ \<Rightarrow> - 1)"

definition ip_compare_port :: "anysin \<Rightarrow> anysin \<Rightarrow> int" where
  "ip_compare_port a b =
     (if sa_family a \<noteq> sa_family b then int (sa_family a) - int (sa_family b)
      else case (a, b) of
          (Sin _ p, Sin _ q) \<Rightarrow> uint p - uint q
        | (Sin6 _ p, Sin6 _ q) \<Rightarrow> uint p - uint q
        | _ \<Rightarrow> - 1)"

text \<open>
  A datagram \<open>pkt\<close> that came from the address \<open>peer\<close>; \<open>target\<close> is \<open>global_target_address\<close>.  The entry is dropped in any case, the
  first component of the result is the datagram sent to the client.
\<close>

definition event_udp_int :: "bytes \<Rightarrow> anysin \<Rightarrow> anysin \<Rightarrow> entry \<Rightarrow> bytes \<Rightarrow> server \<Rightarrow> bytes \<Rightarrow> (bytes option \<times> server) option" where
  "event_udp_int time target peer e pkt s sb =
     do { let pkt = take (length (v_buffer e)) pkt;
          buf \<leftarrow> wr (v_buffer e) 0 pkt;
          if ip_compare_address peer target \<noteq> 0 then Some (None, s)
          else if ip_compare_port peer target \<noteq> 0 then Some (None, s)
          else do {
            (ok, e) \<leftarrow> dns_analyze_reply_query (e\<lparr>v_buffer := buf, v_packetsize := length pkt\<rparr>);
            if \<not> ok then Some (None, s)
            else do {
              (ok, e, s) \<leftarrow> dns_reply_query time e s sb;
              if ok then do { out \<leftarrow> rd (v_buffer e) 0 (v_packetsize e); Some (Some out, s) } else Some (None, s) } } }"

end
