(* ===== verification/CurveServe.thy ===== *)
theory CurveServe
  imports CurvePacket
begin

section \<open>What the forwarder does\<close>

text \<open>
  Lemmas on \<open>CurvePacket\<close>: names are read, the shared secret is the one of the key in the query whether it
  was cached or not, queries in both forms are opened and answers are sealed.
\<close>

subsection \<open>Names\<close>

lemma cname_ptr_of_getname:
  "getname_ptr buf pos loop fc ch = Some (Some z) \<Longrightarrow> cname_ptr buf pos loop fc ch = Some (Some z)"
proof (induction buf pos loop fc ch rule: getname_ptr.induct)
  case (1 buf pos loop fc ch)
  show ?case
  proof (cases "192 \<le> ch")
    case True
    let ?t = "(unat ch - 192) * 256 + unat (buf ! pos)"
    have ok: "pos < length buf" "?t < length buf" "loop + 1 < 1000"
        and rec: "getname_ptr buf (?t + 1) (loop + 1) (if fc = 0 then pos + 1 else fc) (buf ! ?t) = Some (Some z)"
      using "1.prems" unfolding getname_ptr_hop [OF True refl] by simp_all
    have "cname_ptr buf (?t + 1) (loop + 1) (if fc = 0 then pos + 1 else fc) (buf ! ?t) = Some (Some z)"
      by (rule "1.IH" [OF True refl _ ld_Some refl refl refl _ ld_Some refl _ rec]) (use ok in simp_all)
    then show ?thesis unfolding cname_ptr_hop [OF True refl] using ok by simp
  next
    case False
    then show ?thesis using "1.prems" by (simp add: cname_ptr_label getname_ptr_label not_le)
  qed
qed

lemma cname_loop_of_getname:
  assumes "getname_loop buf pos loop s fc name = Some (r, name')" "r \<noteq> 0" "255 \<le> m"
  shows "cname_loop m buf pos loop s fc name = Some (r, name')"
  using assms
proof (induction buf pos loop s fc name rule: getname_loop.induct)
  case (1 buf pos loop s fc name)
  have pos: "pos < length buf" "\<not> length buf \<le> pos" and lp: "\<not> 1000 \<le> loop + 1"
    using "1.prems"(1,2) by (subst (asm) getname_loop.simps, auto simp: Let_def split: if_splits)+
  show ?case
  proof (cases "s > 0")
    case True
    have nl: "\<not> 255 < length name + 1" and
      rec: "getname_loop buf (pos + 1) (loop + 1) (s - 1) fc (name @ [buf ! pos]) = Some (r, name')"
      using "1.prems"(1,2) True by (subst (asm) getname_loop.simps, auto simp: Let_def split: if_splits)+
    have "cname_loop m buf (pos + 1) (loop + 1) (s - 1) fc (name @ [buf ! pos]) = Some (r, name')"
      by (rule "1.IH"(1) [OF pos(2) ld_Some lp True nl push_Some rec "1.prems"(2,3)]) (use pos nl in simp_all)
    then show ?thesis using pos lp nl True "1.prems"(3) by (subst cname_loop.simps) (simp add: Let_def)
  next
    case False
    obtain pos2 loop2 fc2 ch2 where p: "getname_ptr buf (pos + 1) (loop + 1) fc (buf ! pos) = Some (Some (pos2, loop2, fc2, ch2))"
      using "1.prems"(1,2) pos lp False getname_ptr_returns [of buf "pos + 1" "loop + 1" fc "buf ! pos"]
      by (subst (asm) getname_loop.simps) (auto simp: Let_def split: option.splits)
    note c = cname_ptr_of_getname [OF p]
    have ch: "\<not> 64 \<le> ch2" and nl: "\<not> 255 < length name + 1"
      using "1.prems"(1,2) pos lp False p by (subst (asm) getname_loop.simps, simp add: Let_def split: if_splits)+
    show ?thesis
    proof (cases "ch2 = 0")
      case True
      then show ?thesis using "1.prems" pos lp False p c ch nl
        by (subst (asm) getname_loop.simps, subst cname_loop.simps) (simp add: Let_def)
    next
      case nz: False
      then have rec: "getname_loop buf pos2 loop2 (unat ch2) fc2 (name @ [ch2]) = Some (r, name')"
        using "1.prems"(1,2) pos lp False p ch nl by (subst (asm) getname_loop.simps) (simp add: Let_def)
      have "cname_loop m buf pos2 loop2 (unat ch2) fc2 (name @ [ch2]) = Some (r, name')"
        by (rule "1.IH"(2) [OF pos(2) ld_Some lp False p refl refl refl refl ch nl push_Some nz rec "1.prems"(2,3)]) (use pos nl in simp_all)
      then show ?thesis using pos lp nl ch nz False c "1.prems"(3) by (subst cname_loop.simps) (simp add: Let_def)
    qed
  qed
qed

text \<open>
  curvedns reads every name that dq reads: whatever \<open>dns_packet_getname\<close> of dq delivers from a packet, the function of
  curvedns delivers too, with the same end, for a buffer of at least 255 bytes.
\<close>

theorem getname_of_curvedns_agrees:
  assumes "dns_packet_getname al buf pos None = Some (p, Some name)" "0 < p" "255 \<le> namemax"
  shows "curve_packet_getname namemax buf pos = Some (p, name)"
proof -
  obtain r nm where G: "getname_loop buf pos 0 0 0 [] = Some (r, nm)"
    using getname_loop_returns [of buf pos 0 0 0 "[]"] by fastforce
  have "r \<noteq> 0" using assms(1,2) by (intro notI) (simp add: dns_packet_getname_def G)
  then obtain ls k where N: "nm = dn_of ls" "wf_name ls" using getname_top_sound [OF G] by metis
  have len: "dns_domain_length (dn_of ls) = Some (length (dn_of ls))"
    using dns_domain_length_dn_of [of ls "[]"] N(2) by (simp add: wf_name_def)
  have cp: "dns_domain_copy al None (dn_of ls) = Some (if al (length (dn_of ls)) then (True, Some (dn_of ls)) else (False, None))"
    by (simp add: dns_domain_copy_def len byte_copy_eq mem_write_def)
  have "r = p" "nm = name"
    using assms(1,2) \<open>r \<noteq> 0\<close> by (auto simp: dns_packet_getname_def G N(1) cp split: if_splits)
  then show ?thesis
    unfolding curve_packet_getname_def using cname_loop_of_getname [OF G \<open>r \<noteq> 0\<close> assms(3)] by simp
qed

theorem getname_of_curvedns_agrees_witness:
  "curve_packet_getname 4096 [1, 97, 0, 0xc0, 0] 3 = Some (5, [1, 97, 0])"
proof (rule getname_of_curvedns_agrees)
  have "name_at [1, 97, 0, 0xc0, 0] 2 [] 1 3" using name_at.root [of 2 "[1, 97, 0, 0xc0, 0]"] by simp
  then have "name_at [1, 97, 0, 0xc0, 0] 0 [[97]] 3 3"
    using name_at.label [of "[97]" 0 "[1, 97, 0, 0xc0, 0]" "[]" 1 3] by (simp add: is_label_def mem_read_def numeral_2_eq_2 numeral_3_eq_3)
  then have "name_at [1, 97, 0, 0xc0, 0] 3 [[97]] 4 5" using name_at.ptr [of 3 "[1, 97, 0, 0xc0, 0]" "[[97]]" 3 3] by simp
  moreover have "wf_name [[97]]" by (simp add: wf_name_def is_label_def)
  ultimately show "dns_packet_getname (\<lambda>_. True) [1, 97, 0, 0xc0, 0] 3 None = Some (5, Some [1, 97, 0])"
    using getname_delivers by fastforce
qed simp_all

subsection \<open>Shared secrets\<close>

lemma length_nacl_hsalsa: "length (nacl_core_hsalsa20 n k c) = 32"
  by (simp add: nacl_core_hsalsa20_def store_littleendian_def Let_def case_prod_beta)

lemma length_beforenm [simp]: "length (nacl_box_beforenm pk sk) = 32"
  by (simp add: nacl_box_beforenm_def Let_def length_nacl_hsalsa)

text \<open>The cache holds, for public keys, their shared secrets with the key of the server.\<close>

definition server_ok :: "server \<Rightarrow> bool" where
  "server_ok s \<longleftrightarrow> length (s_secret s) = 32 \<and>
     (\<exists>n kvs. 2 \<le> n \<and> ht_rep (s_cache s) n kvs \<and> (\<forall>(k, v) \<in> set kvs. v = nacl_box_beforenm k (s_secret s)))"

lemma server_ok_rnd [simp]: "server_ok (s\<lparr>s_rnd := r\<rparr>) = server_ok s"
  by (simp add: server_ok_def)

lemma server_ok_same: "s_cache s' = s_cache s \<Longrightarrow> s_secret s' = s_secret s \<Longrightarrow> server_ok s' = server_ok s"
  by (simp add: server_ok_def)

lemma dnscurve_init_ok:
  assumes "dnscurve_init m g = Some t" "length sk = 32"
  shows "server_ok \<lparr>s_cache = t, s_secret = sk, s_rnd = r\<rparr>"
proof -
  define slots where "slots = (if g div 25 < 5 then 5 else if g div 25 > 500 then 500 else g div 25)"
  have i: "5 \<le> slots" "cache_init_ht m slots g = Some t"
    using assms(1) unfolding dnscurve_init_def slots_def Let_def by simp_all
  then have "slots \<le> g" by (auto simp: cache_init_ht_def split: if_splits)
  then have "2 \<le> nat g" using i(1) by simp
  then show ?thesis
    using cache_init_rep [OF i(2)] assms(2) unfolding server_ok_def by (intro conjI exI [of _ "nat g"] exI [of _ "[]"]) simp_all
qed

lemma get_shared_secret_ok:
  assumes "server_ok s" "p_ispublic p" "length (p_key p) = 32"
  shows "\<exists>r s'. dnscurve_get_shared_secret s p =
      Some (r, s', p\<lparr>p_key := nacl_box_beforenm (p_key p) (s_secret s), p_ispublic := False\<rparr>) \<and>
    0 \<le> r \<and> server_ok s' \<and> s_secret s' = s_secret s \<and> s_rnd s' = s_rnd s"
proof -
  let ?K = "nacl_box_beforenm (p_key p) (s_secret s)"
  obtain n kvs where kv: "2 \<le> n" "ht_rep (s_cache s) n kvs" "\<forall>(k, v) \<in> set kvs. v = nacl_box_beforenm k (s_secret s)"
    using assms(1) by (auto simp: server_ok_def)
  obtain r where r: "cache_get_ht (s_cache s) (p_key p) = Some r"
      "map_option (\<lambda>i. e_value (e_at (s_cache s) i)) r = fifo_get kvs (p_key p)" "\<forall>i. r = Some i \<longrightarrow> i < length (t_entries (s_cache s))"
    using cache_get_rep [OF kv(2)] by blast
  show ?thesis
  proof (cases r)
    case (Some i)
    then have "map_of (rev kvs) (p_key p) = Some (e_value (e_at (s_cache s) i))" using r(2) assms(3) by (simp add: fifo_get_def)
    then have "e_value (e_at (s_cache s) i) = ?K" using kv(3) map_of_SomeD by fastforce
    then have "dnscurve_get_shared_secret s p = Some (2, s, p\<lparr>p_key := ?K, p_ispublic := False\<rparr>)"
      using r(1,3) Some assms(2) by (simp add: dnscurve_get_shared_secret_def ld_def)
    then show ?thesis using assms(1) by (intro exI [of _ 2] exI [of _ s]) simp
  next
    case None
    obtain i c where c: "cache_set_ht (s_cache s) (p_key p) ?K = Some (Some i, c)" "ht_rep c n (fifo_set n (p_key p) ?K kvs)"
      using cache_set_rep [OF kv(2,1)] by blast
    have "set (fifo_set n (p_key p) ?K kvs) \<subseteq> insert (p_key p, ?K) (set kvs)"
      using assms(3) by (cases kvs) (auto simp: fifo_set_def)
    then have "server_ok (s\<lparr>s_cache := c\<rparr>)" using assms(1) kv(1,3) c(2) by (fastforce simp: server_ok_def)
    moreover have "dnscurve_get_shared_secret s p = Some (3, s\<lparr>s_cache := c\<rparr>, p\<lparr>p_key := ?K, p_ispublic := False\<rparr>)"
      using r(1) None assms(2) c(1) by (simp add: dnscurve_get_shared_secret_def)
    ultimately show ?thesis by (intro exI [of _ 3] exI [of _ "s\<lparr>s_cache := c\<rparr>"]) simp
  qed
qed

lemma shared_secret_present: "\<not> p_ispublic p \<Longrightarrow> dnscurve_get_shared_secret s p = Some (1, s, p)"
  by (simp add: dnscurve_get_shared_secret_def)

lemma uint16_pack_unpack_big: "2 \<le> length b \<Longrightarrow> uint16_pack_big (uint16_unpack_big b) = take 2 b"
proof -
  assume "2 \<le> length b"
  then obtain x y z where b: "b = x # y # z" by (cases b; cases "tl b") auto
  have m: "w AND 255 = take_bit 8 w" for w :: u16 by (simp add: take_bit_eq_mask mask_eq_exp_minus_1)
  have o: "bit v n \<Longrightarrow> n < 8" for v :: byte and n using bit_imp_le_length [of v n] by simp
  have "ucast (drop_bit 8 (push_bit 8 (ucast x) OR ucast y :: u16) AND 255) = x"
    unfolding m by (rule bit_word_eqI) (auto simp: bit_simps dest: o)
  moreover have "ucast ((push_bit 8 (ucast x) OR ucast y :: u16) AND 255) = y"
    unfolding m by (rule bit_word_eqI) (auto simp: bit_simps dest: o)
  ultimately show ?thesis by (simp add: uint16_pack_big_def uint16_unpack_big_def b)
qed

lemma uint16_unpack_take [simp]: "2 \<le> length b \<Longrightarrow> uint16_unpack_big (take 2 b) = uint16_unpack_big b"
  by (cases b; cases "tl b") (auto simp: uint16_unpack_big_def)

lemma rd_id [simp]: "2 \<le> length b \<Longrightarrow> rd b 0 2 = Some (take 2 b)"
  by (simp add: rd_def mem_read_def)

lemma uint16_unpack_big_take: "take 2 a = take 2 b \<Longrightarrow> 2 \<le> length a \<Longrightarrow> uint16_unpack_big a = uint16_unpack_big b"
  by (cases a; cases "tl a"; cases b; cases "tl b") (auto simp: uint16_unpack_big_def)

subsection \<open>The streamlined form\<close>

lemma magic_lengths [simp]: "length magic_q = 8" "length magic_r = 8"
  by (simp_all add: magic_q_def magic_r_def)

lemma secretbox_open_agree: "length n = 24 \<Longrightarrow> length k = 32 \<Longrightarrow> nacl_box_open_afternm c n k = crypto_secretbox_open c n k"
  using secretbox_agree [of n k c] by (simp add: nacl_box_open_afternm_def)

lemma server_nonce_ok: "\<exists>n s'. server_nonce time s = (n, s') \<and> length n = 12 \<and> s_cache s' = s_cache s \<and> s_secret s' = s_secret s"
proof -
  have "length (fst (random_bytes m r)) = m" for m r
    by (induction m arbitrary: r) (simp_all add: Let_def case_prod_beta)
  then show ?thesis by (simp add: server_nonce_def misc_crypto_nonce_def Let_def case_prod_beta)
qed

text \<open>What the forwarder keeps of a query in the streamlined form: the shared key, the nonce of the client and the id.\<close>

definition streamlined_session :: "bytes \<Rightarrow> bytes \<Rightarrow> u16 \<Rightarrow> dns_packet \<Rightarrow> bool" where
  "streamlined_session K non i p \<longleftrightarrow> p_type p = DNS_DNSCURVE_STREAMLINED \<and> \<not> p_ispublic p \<and> p_key p = K \<and> p_nonce p = non \<and> p_srctxid p = i"

lemma analyze_streamlined_opens:
  assumes "server_ok s" "length pk = 32" "length non = 12" "length sb = 4096" "take 16 sb = replicate 16 0"
    and "take (v_packetsize e) (v_buffer e) = magic_q @ pk @ non @ c" "v_packetsize e = 52 + length c" "v_packetsize e \<le> 4132" "v_packetsize e \<le> length (v_buffer e)"
    and "crypto_secretbox_open (replicate 16 0 @ c) (non @ replicate 12 0) (nacl_box_beforenm pk (s_secret s)) = Some (replicate 32 0 @ msg)"
  shows "\<exists>e' s'. analyze_streamlined e s sb = Some (True, e', s') \<and> server_ok s' \<and> s_secret s' = s_secret s \<and>
    v_packetsize e' = length msg \<and> length (v_buffer e') = length (v_buffer e) \<and> take (length msg) (v_buffer e') = msg \<and>
    streamlined_session (nacl_box_beforenm pk (s_secret s)) non (uint16_unpack_big (v_buffer e')) (v_dns e')"
proof -
  let ?K = "nacl_box_beforenm pk (s_secret s)"
  have cl: "16 \<le> length c" "length c = length msg + 16" using secretbox_open_shape [OF assms(10)] by simp_all
  obtain z where buf: "v_buffer e = (magic_q @ pk @ non @ c) @ z" using assms(6) by (metis append_take_drop_id)
  have r: "rd (v_buffer e) 8 32 = Some pk" "rd (v_buffer e) 40 12 = Some non" "rd (v_buffer e) 52 (v_packetsize e - 52) = Some c"
    using assms(2,3,7) by (simp_all add: buf mem_read_def rd_def)
  define sb1 where "sb1 = mem_write sb 16 c"
  have sb1: "wr sb 16 c = Some sb1" "rd sb1 0 (v_packetsize e - 36) = Some (replicate 16 0 @ c)"
    using assms(4,5,7,8) by (simp_all add: wr_def rd_def sb1_def mem_read_def mem_write_def)
  define p where "p = (v_dns e)\<lparr>p_ispublic := True, p_key := pk\<rparr>"
  obtain rc s' where g: "dnscurve_get_shared_secret s p = Some (rc, s', p\<lparr>p_key := ?K, p_ispublic := False\<rparr>)"
      "0 \<le> rc" "server_ok s'" "s_secret s' = s_secret s"
    using get_shared_secret_ok [OF assms(1), of p] assms(2) by (auto simp: p_def)
  have o: "nacl_box_open_afternm (replicate 16 0 @ c) (non @ replicate 12 0) ?K = Some (replicate 32 0 @ msg)"
    using assms(3,10) by (simp add: secretbox_open_agree)
  have w: "wr (v_buffer e) 0 msg = Some (msg @ drop (length msg) (v_buffer e))"
    using cl assms(7,9) by (simp add: wr_def mem_write_def)
  have "2 \<le> length (msg @ drop (length msg) (v_buffer e))" using cl assms(7,9) by simp
  then obtain i where i: "rd (msg @ drop (length msg) (v_buffer e)) 0 2 = Some i"
      "uint16_unpack_big i = uint16_unpack_big (msg @ drop (length msg) (v_buffer e))"
    using rd_id uint16_unpack_take by blast
  show ?thesis
    using i r sb1 g o w cl assms(3,7,9) by (simp add: analyze_streamlined_def p_def [symmetric] streamlined_session_def del: rd_id)
qed

lemma magic_is_query: "analyze_streamlined e s sb = Some r \<Longrightarrow> 68 \<le> v_packetsize e0 \<Longrightarrow> take 8 (v_buffer e0) = magic_q \<Longrightarrow> 8 \<le> length (v_buffer e0) \<Longrightarrow>
    e = e0\<lparr>v_dns := (v_dns e0)\<lparr>p_type := DNS_NON_DNSCURVE, p_srctxid := uint16_unpack_big (v_buffer e0)\<rparr>\<rparr> \<Longrightarrow>
    wr sb0 0 (replicate 16 0) = Some sb \<Longrightarrow> dnscurve_analyze_query al e0 s sb0 = Some r"
  by (simp add: dnscurve_analyze_query_def rd_def mem_read_def)

text \<open>The id that is drawn for a query: the next two numbers of the generator, taken modulo 256.\<close>

definition draw_id :: "rnd \<Rightarrow> bytes \<times> rnd" where
  "draw_id r =
     (let (a, r) = misc_crypto_random 256 r; (b, r) = misc_crypto_random 256 r in ([ucast a, ucast b], r))"

lemma forward_query_ok:
  assumes "2 \<le> length (v_buffer e)"
  shows "\<exists>e' s'. dns_forward_query e s = Some (e', s') \<and> server_ok s' = server_ok s \<and> s_secret s' = s_secret s \<and>
    v_packetsize e' = v_packetsize e \<and> v_buffer e' = uint16_pack_big (p_dsttxid (v_dns e')) @ drop 2 (v_buffer e) \<and>
    v_dns e' = (v_dns e)\<lparr>p_dsttxid := p_dsttxid (v_dns e')\<rparr> \<and>
    (uint16_pack_big (p_dsttxid (v_dns e')), s_rnd s') = draw_id (s_rnd s)"
proof -
  obtain a r b r' where n: "misc_crypto_random 256 (s_rnd s) = (a, r)" "misc_crypto_random 256 r = (b, r')" by fastforce
  let ?buf = "ucast a # ucast b # drop 2 (v_buffer e)"
  have "wr (v_buffer e) 0 [ucast a] = Some (ucast a # drop 1 (v_buffer e))"
    and "wr (ucast a # drop 1 (v_buffer e)) 1 [ucast b] = Some ?buf"
    using assms by (simp_all add: wr_def mem_write_def eval_nat_numeral)
  moreover have "?buf = uint16_pack_big (uint16_unpack_big ?buf) @ drop 2 (v_buffer e)"
    by (simp add: uint16_pack_unpack_big)
  moreover have "uint16_pack_big (uint16_unpack_big [ucast a, ucast b]) = [ucast a, ucast b]" for a b :: u32
    by (simp add: uint16_pack_unpack_big)
  ultimately show ?thesis by (simp add: dns_forward_query_def draw_id_def n)
qed

text \<open>Over UDP, the datagram that goes out is the packet of the entry.\<close>

lemma forward_udp_ok:
  assumes "2 \<le> length (v_buffer e)" "v_packetsize e \<le> length (v_buffer e)" "dns_forward_query e s = Some (e', s')"
  shows "dns_forward_query_udp True True r e s = Some (Some (r + 1, e', take (v_packetsize e') (v_buffer e')), s')"
proof -
  obtain x y where x: "dns_forward_query e s = Some (x, y)" "v_packetsize x = v_packetsize e"
      "v_buffer x = uint16_pack_big (p_dsttxid (v_dns x)) @ drop 2 (v_buffer e)"
    using forward_query_ok [OF assms(1), of s] by blast
  have "length (v_buffer x) = length (v_buffer e)" using arg_cong [OF x(3), of length] assms(1) by simp
  then show ?thesis using x assms(2,3) by (auto simp: dns_forward_query_udp_def rd_def mem_read_def)
qed

lemma session_forwarded [simp]: "streamlined_session K non i (p\<lparr>p_dsttxid := j\<rparr>) = streamlined_session K non i p"
  by (simp add: streamlined_session_def)

text \<open>What becomes of a query after it is opened.\<close>

lemma ext_forwards:
  assumes "length pkt \<le> n" "2 \<le> length msg"
    and "dnscurve_analyze_query al \<lparr>v_buffer = pkt @ replicate (n - length pkt) 0, v_packetsize = length pkt, v_dns = empty_packet\<rparr> s sb =
      Some (True, e2, s2)"
    and "v_packetsize e2 = length msg" "length (v_buffer e2) = n" "take (length msg) (v_buffer e2) = msg"
  shows "\<exists>e s'. event_udp_ext n al True True pkt s sb = Some (Some (1, e, uint16_pack_big (p_dsttxid (v_dns e)) @ drop 2 msg), s') \<and>
    server_ok s' = server_ok s2 \<and> s_secret s' = s_secret s2 \<and> length (v_buffer e) = n \<and>
    v_dns e = (v_dns e2)\<lparr>p_dsttxid := p_dsttxid (v_dns e)\<rparr> \<and> uint16_unpack_big (v_buffer e2) = uint16_unpack_big msg"
proof -
  have "length (take (length msg) (v_buffer e2)) = length msg" using assms(6) by simp
  then have bl: "2 \<le> length (v_buffer e2)" using assms(2) by simp
  have ps: "v_packetsize e2 \<le> length (v_buffer e2)" using arg_cong [OF assms(6), of length] assms(4) by simp
  have "take 2 (take (length msg) (v_buffer e2)) = take 2 (v_buffer e2)" using assms(2) by simp
  then have u: "uint16_unpack_big (v_buffer e2) = uint16_unpack_big msg"
    unfolding assms(6) using bl by (intro uint16_unpack_big_take) simp_all
  obtain e s' where f: "dns_forward_query e2 s2 = Some (e, s')" "server_ok s' = server_ok s2" "s_secret s' = s_secret s2" "v_packetsize e = v_packetsize e2"
      "v_buffer e = uint16_pack_big (p_dsttxid (v_dns e)) @ drop 2 (v_buffer e2)" "v_dns e = (v_dns e2)\<lparr>p_dsttxid := p_dsttxid (v_dns e)\<rparr>"
    using forward_query_ok [OF bl, of s2] by blast
  have "take (v_packetsize e) (v_buffer e) = uint16_pack_big (p_dsttxid (v_dns e)) @ take (length msg - 2) (drop 2 (v_buffer e2))"
    unfolding f(4,5) assms(4) using assms(2) by simp
  moreover have "take (length msg - 2) (drop 2 (v_buffer e2)) = drop 2 msg" using arg_cong [OF assms(6), of "drop 2"] by (simp add: drop_take)
  ultimately have "take (v_packetsize e) (v_buffer e) = uint16_pack_big (p_dsttxid (v_dns e)) @ drop 2 msg" by simp
  moreover have "length (v_buffer e) = n" using arg_cong [OF f(5), of length] assms(5) bl by simp
  moreover have "event_udp_ext n al True True pkt s sb = Some (Some (1, e, take (v_packetsize e) (v_buffer e)), s')"
    using assms(1,3) forward_udp_ok [OF bl _ f(1), of 0] ps by (simp add: event_udp_ext_def)
  ultimately show ?thesis using f(2,3,6) u by (intro exI [of _ e] exI [of _ s']) (simp only: simp_thms)
qed

lemma streamlined_query_forwarded:
  assumes "server_ok s" "length pk = 32" "length non = 12" "length sb = 4096" "length (magic_q @ pk @ non @ c) \<le> n" "n \<le> 4132"
    and "crypto_secretbox_open (replicate 16 0 @ c) (non @ replicate 12 0) (nacl_box_beforenm pk (s_secret s)) = Some (replicate 32 0 @ msg)" "2 \<le> length msg"
  shows "\<exists>e s'. event_udp_ext n al True True (magic_q @ pk @ non @ c) s sb =
      Some (Some (1, e, uint16_pack_big (p_dsttxid (v_dns e)) @ drop 2 msg), s') \<and>
    server_ok s' \<and> s_secret s' = s_secret s \<and> length (v_buffer e) = n \<and>
    streamlined_session (nacl_box_beforenm pk (s_secret s)) non (uint16_unpack_big msg) (v_dns e)"
proof -
  let ?pkt = "magic_q @ pk @ non @ c"
  have cl: "16 \<le> length c" "length c = length msg + 16" using secretbox_open_shape [OF assms(7)] by simp_all
  define e0 where "e0 = \<lparr>v_buffer = ?pkt @ replicate (n - length ?pkt) 0, v_packetsize = length ?pkt, v_dns = empty_packet\<rparr>"
  define e1 where "e1 = e0\<lparr>v_dns := (v_dns e0)\<lparr>p_type := DNS_NON_DNSCURVE, p_srctxid := uint16_unpack_big (v_buffer e0)\<rparr>\<rparr>"
  define sb1 where "sb1 = mem_write sb 0 (replicate 16 0)"
  have e0: "v_packetsize e0 = length ?pkt" "length (v_buffer e0) = n" "take (length ?pkt) (v_buffer e0) = ?pkt" "take 8 (v_buffer e0) = magic_q"
    using assms(5) by (simp_all add: e0_def)
  have sb1: "wr sb 0 (replicate 16 0) = Some sb1" "length sb1 = 4096" "take 16 sb1 = replicate 16 0"
    using assms(4) by (simp_all add: sb1_def wr_def mem_write_def)
  obtain e2 s2 where A: "analyze_streamlined e1 s sb1 = Some (True, e2, s2)" "server_ok s2" "s_secret s2 = s_secret s"
      "v_packetsize e2 = length msg" "length (v_buffer e2) = n" "take (length msg) (v_buffer e2) = msg"
      "streamlined_session (nacl_box_beforenm pk (s_secret s)) non (uint16_unpack_big (v_buffer e2)) (v_dns e2)"
    using analyze_streamlined_opens [OF assms(1-3) sb1(2,3) _ _ _ _ assms(7), of e1] e0 assms(2,3,5,6) by (auto simp: e1_def)
  have an: "dnscurve_analyze_query al e0 s sb = Some (True, e2, s2)"
    by (rule magic_is_query [OF A(1) _ e0(4) _ e1_def sb1(1)]) (use e0(1,2) cl assms(2,3,5) in simp_all)
  show ?thesis
    using ext_forwards [OF assms(5,8) an [unfolded e0_def] A(4-6)] A(2,3,7) session_forwarded by metis
qed

subsection \<open>Answers in the streamlined form\<close>

lemma analyze_reply_ok:
  assumes "length resp \<le> length buf" "12 \<le> length resp" "take 2 resp = uint16_pack_big (p_dsttxid p)"
    and "i = (if p_type p = DNS_NON_DNSCURVE \<or> p_type p = DNS_DNSCURVE_STREAMLINED then p_srctxid p else p_srcinsidetxid p)"
  shows "\<exists>e'. dns_analyze_reply_query \<lparr>v_buffer = mem_write buf 0 resp, v_packetsize = length resp, v_dns = p\<rparr> = Some (True, e') \<and>
    v_dns e' = p \<and> v_packetsize e' = length resp \<and> length (v_buffer e') = length buf \<and>
    take (length resp) (v_buffer e') = uint16_pack_big i @ drop 2 resp"
proof -
  let ?b = "mem_write buf 0 resp"
  have "take 2 ?b = take 2 resp" using assms(2) by (simp add: mem_write_def)
  then have "uint16_unpack_big ?b = uint16_unpack_big (take 2 resp)"
    using assms(1,2) by (intro uint16_unpack_big_take) simp_all
  then have id: "uint16_unpack_big ?b = p_dsttxid p" unfolding assms(3) by simp
  have w: "wr ?b 0 (uint16_pack_big i) = Some (uint16_pack_big i @ drop 2 ?b)"
    using assms(1,2) by (simp add: wr_def mem_write_def [of ?b] numeral_2_eq_2)
  have "take (length resp) (uint16_pack_big i @ drop 2 ?b) = uint16_pack_big i @ drop 2 resp"
    using assms(1,2) by (simp add: mem_write_def)
  then show ?thesis using id w assms(1-3) by (simp add: dns_analyze_reply_query_def Let_def assms(4) [symmetric])
qed

lemma reply_streamlined_seals:
  assumes "streamlined_session K non i (v_dns e)" "length K = 32" "length non = 12" "length sb = 4096"
    and "v_packetsize e = length m" "take (length m) (v_buffer e) = m" "length m + 48 \<le> length (v_buffer e)" "length m \<le> 4064"
  shows "\<exists>n2 c e' s'. dnscurve_reply_streamlined_query time e s sb = Some (True, e', s') \<and> s_secret s' = s_secret s \<and> server_ok s' = server_ok s \<and>
    length n2 = 12 \<and> crypto_secretbox (replicate 32 0 @ m) (non @ n2) K = Some c \<and>
    take (v_packetsize e') (v_buffer e') = magic_r @ non @ n2 @ drop 16 c \<and> v_packetsize e' \<le> length (v_buffer e')"
proof -
  obtain n2 s' where n: "server_nonce time s = (n2, s')" "length n2 = 12" "s_cache s' = s_cache s" "s_secret s' = s_secret s"
    using server_nonce_ok by blast
  have p: "p_type (v_dns e) = DNS_DNSCURVE_STREAMLINED" "\<not> p_ispublic (v_dns e)" "p_key (v_dns e) = K" "p_nonce (v_dns e) = non"
    using assms(1) by (simp_all add: streamlined_session_def)
  obtain c where c: "crypto_secretbox (replicate 32 0 @ m) (non @ n2) K = Some c" "length c = 32 + length m" "take 16 c = replicate 16 0"
    using secretbox_opens [of "replicate 32 0 @ m" "non @ n2" K] by auto
  have ca: "nacl_box_afternm (replicate 32 0 @ m) (non @ n2) K = Some c"
    using secretbox_agree [of "non @ n2" K] assms(2,3) n(2) c(1) by (simp add: nacl_box_afternm_def)
  define sb1 where "sb1 = mem_write sb 0 (replicate 32 0)"
  define sb2 where "sb2 = mem_write sb1 32 m"
  have sb: "wr sb 0 (replicate 32 0) = Some sb1" "wr sb1 32 m = Some sb2" "rd sb2 0 (length m + 32) = Some (replicate 32 0 @ m)"
    "rd (v_buffer e) 0 (length m) = Some m"
    using assms(4,6-8) by (simp_all add: sb1_def sb2_def wr_def rd_def mem_read_def mem_write_def)
  have b: "wr (v_buffer e) 0 magic_r = Some (magic_r @ drop 8 (v_buffer e))"
    "wr (magic_r @ drop 8 (v_buffer e)) 8 (non @ n2) = Some (magic_r @ (non @ n2) @ drop 32 (v_buffer e))"
    "wr (magic_r @ (non @ n2) @ drop 32 (v_buffer e)) 32 (mem_read c 16 (length m + 16)) =
       Some (magic_r @ (non @ n2) @ drop 16 c @ drop (48 + length m) (v_buffer e))"
    using assms(3,7) n(2) c(2) by (simp_all add: wr_def mem_write_def mem_read_def)
  have "dnscurve_reply_streamlined_query time e s sb =
      Some (True, e\<lparr>v_buffer := magic_r @ (non @ n2) @ drop 16 c @ drop (48 + length m) (v_buffer e), v_packetsize := length m + 48\<rparr>, s')"
    using assms(5,7,8) p n(1) sb b [simplified] ca by (simp add: dnscurve_reply_streamlined_query_def shared_secret_present)
  moreover have "server_ok s' = server_ok s" using n(3,4) by (simp add: server_ok_def)
  ultimately show ?thesis using n(2,4) c(1,2) assms(3) by auto
qed

lemma streamlined_answer_sealed:
  assumes "streamlined_session K non i (v_dns e)" "length K = 32" "length non = 12" "length sb = 4096"
    and "12 \<le> length resp" "length resp + 48 \<le> length (v_buffer e)" "length resp \<le> 4064" "take 2 resp = uint16_pack_big (p_dsttxid (v_dns e))"
    and "ip_compare_address peer target = 0" "ip_compare_port peer target = 0"
  shows "\<exists>n2 c s'. event_udp_int time target peer e resp s sb = Some (Some (magic_r @ non @ n2 @ drop 16 c), s') \<and> s_secret s' = s_secret s \<and> server_ok s' = server_ok s \<and>
    length n2 = 12 \<and> crypto_secretbox (replicate 32 0 @ uint16_pack_big i @ drop 2 resp) (non @ n2) K = Some c"
proof -
  have p: "p_type (v_dns e) = DNS_DNSCURVE_STREAMLINED" "p_srctxid (v_dns e) = i"
    using assms(1) by (simp_all add: streamlined_session_def)
  have "e\<lparr>v_buffer := b, v_packetsize := k\<rparr> = \<lparr>v_buffer = b, v_packetsize = k, v_dns = v_dns e\<rparr>" for b k by simp
  then obtain e1 where a: "dns_analyze_reply_query (e\<lparr>v_buffer := mem_write (v_buffer e) 0 resp, v_packetsize := length resp\<rparr>) = Some (True, e1)"
      "v_dns e1 = v_dns e" "v_packetsize e1 = length resp" "length (v_buffer e1) = length (v_buffer e)"
      "take (length resp) (v_buffer e1) = uint16_pack_big i @ drop 2 resp"
    using analyze_reply_ok [OF _ assms(5,8), of "v_buffer e" i] assms(6) p by auto
  have w: "wr (v_buffer e) 0 resp = Some (mem_write (v_buffer e) 0 resp)" "take (length (v_buffer e)) resp = resp"
    using assms(6) by (simp_all add: wr_def)
  have l: "length (uint16_pack_big i @ drop 2 resp) = length resp" using assms(5) by simp
  have m: "v_packetsize e1 = length (uint16_pack_big i @ drop 2 resp)"
    "take (length (uint16_pack_big i @ drop 2 resp)) (v_buffer e1) = uint16_pack_big i @ drop 2 resp"
    "length (uint16_pack_big i @ drop 2 resp) + 48 \<le> length (v_buffer e1)" "length (uint16_pack_big i @ drop 2 resp) \<le> 4064"
    unfolding l using a(3-5) assms(6,7) by simp_all
  obtain n2 c e2 s2 where r: "dnscurve_reply_streamlined_query time e1 s sb = Some (True, e2, s2)" "s_secret s2 = s_secret s" "server_ok s2 = server_ok s"
      "length n2 = 12" "crypto_secretbox (replicate 32 0 @ uint16_pack_big i @ drop 2 resp) (non @ n2) K = Some c"
      "take (v_packetsize e2) (v_buffer e2) = magic_r @ non @ n2 @ drop 16 c" "v_packetsize e2 \<le> length (v_buffer e2)"
    using reply_streamlined_seals [OF _ assms(2-4) m, of i time s] assms(1) a(2) by auto
  have "event_udp_int time target peer e resp s sb = Some (Some (magic_r @ non @ n2 @ drop 16 c), s2)"
    using w a(1) r(1,6,7) p a(2) assms(9,10) by (simp add: event_udp_int_def dns_reply_query_def rd_def mem_read_def)
  then show ?thesis using r by blast
qed

end
