(* ===== verification/CurveTxt.thy ===== *)
theory CurveTxt
  imports CurveServe
begin

section \<open>The TXT form\<close>

text \<open>
  Lemmas on \<open>CurvePacket\<close> for queries in the TXT form: the name of the query that dq builds is read and taken apart, its box
  is opened, and the answer comes as the strings of a TXT record.
\<close>

subsection \<open>The query name\<close>

lemma cname_loop_hop:
  assumes "pos + 1 < length buf" "buf ! pos \<ge> 192" "loop + 2 < 4096"
    "target = (unat (buf ! pos) - 192) * 256 + unat (buf ! (pos + 1))" "target < length buf"
  shows "cname_loop m buf pos loop 0 fc name =
     cname_loop m buf target (loop + 1) 0 (if fc = 0 then pos + 2 else fc) name"
proof -
  have "cname_ptr buf (pos + 1) (loop + 1) fc (buf ! pos) =
      cname_ptr buf (target + 1) (loop + 2) (if fc = 0 then pos + 2 else fc) (buf ! target)"
    using assms by (subst cname_ptr.simps) (simp add: Let_def)
  then show ?thesis
    using assms by (subst cname_loop.simps, subst (2) cname_loop.simps) simp
qed

lemma cname_loop_bytes:
  "pos + s \<le> length buf \<Longrightarrow> loop + s < 4096 \<Longrightarrow> length name + s \<le> m \<Longrightarrow>
   cname_loop m buf pos loop s fc name = cname_loop m buf (pos + s) (loop + s) 0 fc (name @ mem_read buf pos s)"
proof (induction s arbitrary: pos loop name)
  case 0
  then show ?case by (simp add: mem_read_def)
next
  case (Suc s)
  have "mem_read buf pos (Suc s) = buf ! pos # mem_read buf (Suc pos) s"
    using Suc.prems by (simp add: mem_read_def Cons_nth_drop_Suc [symmetric])
  moreover have "cname_loop m buf pos loop (Suc s) fc name = cname_loop m buf (Suc pos) (Suc loop) s fc (name @ [buf ! pos])"
    using Suc.prems by (subst cname_loop.simps) (simp add: Let_def)
  ultimately show ?case using Suc by simp
qed

text \<open>The relation \<open>name_at\<close> of dq says which names are delivered.\<close>

lemma cname_loop_complete:
  assumes "name_at buf pos ls k e" "loop + k < 4096" "length name + length (dn_of ls) \<le> m"
  shows "cname_loop m buf pos loop 0 fc name = Some ((if fc \<noteq> 0 then fc else e), name @ dn_of ls)"
  using assms
proof (induction arbitrary: loop fc name rule: name_at.induct)
  case (root pos)
  then show ?case by (subst cname_loop.simps) (simp add: cname_ptr_label)
next
  case (label l pos ls k e)
  have len: "unat (of_nat (length l) :: byte) = length l" "(of_nat (length l) :: byte) \<noteq> 0"
    using label.hyps(1) by (rule label_length_byte)+
  then have small: "(of_nat (length l) :: byte) < 64"
    using label.hyps(1) by (simp only: word_less_nat_alt) (simp add: is_label_def)
  then have "(of_nat (length l) :: byte) < 192" by (simp add: word_less_nat_alt)
  then have "cname_loop m buf pos loop 0 fc name =
      cname_loop m buf (pos + 1) (loop + 1) (length l) fc (name @ [of_nat (length l)])"
    using label.hyps(2,3) label.prems len small
    by (subst cname_loop.simps) (simp add: cname_ptr_label not_le [symmetric])
  also have "\<dots> = cname_loop m buf (pos + 1 + length l) (loop + 1 + length l) 0 fc
      (name @ of_nat (length l) # l)"
    using label.hyps label.prems by (subst cname_loop_bytes) simp_all
  also have "\<dots> = Some ((if fc \<noteq> 0 then fc else e), name @ dn_of (l # ls))"
    using label.IH [of "loop + 1 + length l" "name @ of_nat (length l) # l" fc] label.prems by simp
  finally show ?case .
next
  case (ptr pos ls k e)
  then have "0 < k" by (auto elim: name_at.cases)
  then have "cname_loop m buf pos loop 0 fc name =
     cname_loop m buf ((unat (buf ! pos) - 192) * 256 + unat (buf ! (pos + 1))) (loop + 1) 0
       (if fc = 0 then pos + 2 else fc) name"
    using ptr name_at_bounds [OF ptr.hyps(3)] by (intro cname_loop_hop) auto
  then show ?case using ptr.IH ptr.prems by simp
qed

lemma name_at_plain:
  "list_all is_label ls \<Longrightarrow> drop pos buf = dn_of ls @ r \<Longrightarrow> name_at buf pos ls (length (dn_of ls)) (pos + length (dn_of ls))"
proof (induction ls arbitrary: pos)
  case Nil
  then have "pos < length buf" "buf ! pos = 0" by (metis append_Cons dn_of.simps(1) drop_all list.distinct(1) not_le, metis append_Cons dn_of.simps(1) nth_via_drop)
  then show ?case using name_at.root [of pos buf] by simp
next
  case (Cons l ls)
  have d: "drop pos buf = of_nat (length l) # l @ dn_of ls @ r" using Cons.prems(2) by simp
  have len: "length buf - pos = 1 + length l + length (dn_of ls @ r)" using arg_cong [OF d, of length] by simp
  have "drop (pos + 1 + length l) buf = drop (1 + length l) (drop pos buf)" by (simp add: add.commute add.left_commute)
  then have d2: "drop (pos + 1 + length l) buf = dn_of ls @ r" unfolding d by simp
  have "drop (pos + 1) buf = drop 1 (drop pos buf)" by simp
  then have "mem_read buf (pos + 1) (length l) = l" unfolding d by (simp add: mem_read_def)
  moreover have "buf ! pos = of_nat (length l)" using d by (rule nth_via_drop)
  moreover have "is_label l" using Cons.prems(1) by simp
  ultimately have "name_at buf pos (l # ls) (1 + length l + length (dn_of ls)) (pos + 1 + length l + length (dn_of ls))"
    using len Cons.IH [OF _ d2] Cons.prems(1) by (intro name_at.label) simp_all
  then show ?case by (simp add: add.assoc)
qed

lemma pq_gather_labels:
  "list_all short_label L \<Longrightarrow> drop i name = labels_enc L @ 54 # z \<Longrightarrow> length enc + length (concat L) \<le> 4096 \<Longrightarrow>
   pq_gather name i enc = Some (Some (i + length (labels_enc L), enc @ concat L))"
proof (induction L arbitrary: i enc)
  case Nil
  then have "name ! i = 54" "i < length name"
    by (simp_all add: labels_enc_def nth_via_drop, metis drop_all list.distinct(1) not_le)
  then show ?case by (subst pq_gather.simps) (simp add: ld_def labels_enc_def)
next
  case (Cons l L)
  have d: "drop i name = of_nat (length l) # l @ labels_enc L @ 54 # z" using Cons.prems(2) by (simp add: labels_enc_def)
  have len: "length name - i = 1 + length l + length (labels_enc L @ 54 # z)" using arg_cong [OF d, of length] by simp
  have l: "0 < length l" "length l \<le> 50" using Cons.prems(1) by (simp_all add: short_label_def)
  have u: "unat (of_nat (length l) :: byte) = length l" using l by (simp add: unat_of_nat)
  then have c: "(of_nat (length l) :: byte) \<noteq> 54" "\<not> 50 < (of_nat (length l) :: byte)" "(of_nat (length l) :: byte) \<noteq> 0"
    using l by (auto simp: word_less_nat_alt simp del: of_nat_eq_0_iff)
  have "drop (i + 1 + length l) name = drop (1 + length l) (drop i name)" by (simp add: add.commute add.left_commute)
  then have d2: "drop (i + 1 + length l) name = labels_enc L @ 54 # z" unfolding d by simp
  have "drop (i + 1) name = drop 1 (drop i name)" by simp
  then have "rd name (i + 1) (length l) = Some l" unfolding rd_def using len by (simp add: d mem_read_def)
  moreover have "ld name i = Some (of_nat (length l))" using nth_via_drop [OF d] len by (simp add: ld_def)
  ultimately have "pq_gather name i enc = pq_gather name (i + 1 + length l) (enc @ l)"
    using c u Cons.prems(3) by (subst pq_gather.simps) simp
  also have "\<dots> = Some (Some (i + 1 + length l + length (labels_enc L), (enc @ l) @ concat L))"
    using Cons.prems(1,3) by (intro Cons.IH d2) simp_all
  finally show ?case by (simp add: labels_enc_def)
qed

lemma label_bytes_labels: "list_all short_label L \<Longrightarrow> label_bytes (labels_enc L) = concat L"
  by (induction L) (simp_all add: labels_enc_def short_label_def unat_of_nat)

lemma base32_decode_key_text:
  assumes "length key = 32" "unat (key ! 31) < 128"
  shows "base32_decode (key_text key) True = Some key"
proof -
  obtain ds where D: "key_text key = map b32_char ds" "\<forall>d \<in> set ds. d < 32" using key_digits [OF assms(1)] by metis
  have e: "base32decode_loop 0 32 0 0 (key_text key) [] = Some (base32_decode_loop 0 0 (key_text key) [])"
    if "length (key_text key) = 51" using D that by (subst base32decode_loop_eq) (auto simp: b32_char_simps)
  have "length (key_text key) = 51" using key_digits [OF assms(1)] by (metis length_map)
  then have "base32_decode (key_text key) True = Some (take 31 key @ [key ! 31 AND 0x7f])"
    using base32decode_key [OF assms(1)] e
    by (auto simp: base32decode_def base32_decode_def split: option.splits if_splits prod.splits)
  moreover have "key ! 31 AND 0x7f = key ! 31" using assms(2) by (intro word_eqI_nat) (simp add: unat_and_7f)
  moreover have "take 31 key @ [key ! 31] = key" using assms(1) take_Suc_conv_app_nth [of 31 key] by simp
  ultimately show ?thesis by simp
qed

lemma misc_decodeI: "base32_decode inp mode = Some out \<Longrightarrow> length out \<le> n \<Longrightarrow> misc_base32_decode n inp mode = (True, out)"
  using misc_base32_decode_eq [of n inp mode] by (auto split: prod.splits if_splits)

lemma parse_query_name_ok:
  assumes "length pk = 32" "unat (pk ! 31) < 128" "text_size (length b) \<le> 4096" "length b \<le> n"
  shows "\<exists>zone. dnscurve_parse_query_name n (dns_base32_encodebytes b @ dns_base32_encodekey pk @ z) = Some (True, b, pk, zone)"
proof -
  obtain L where L: "dns_base32_encodebytes b = labels_enc L" "list_all short_label L" using encodebytes_labels by blast
  have k: "dns_base32_encodekey pk = 54 # 120 # 49 # 97 # key_text pk"
    using b32_encodekey_loop_out [of 0 0 "[54, 120, 49, 97]" "take 32 pk"] assms(1)
    by (simp add: key_text_def dns_base32_encodekey_def split: prod.splits)
  have kl: "length (key_text pk) = 51" using length_encodekey [OF assms(1)] k by simp
  let ?name = "labels_enc L @ 54 # 120 # 49 # 97 # key_text pk @ z"
  have dec: "base32_decode (concat L) False = Some b"
    using base32_label_roundtrip [of b] L label_bytes_labels by simp
  have "length (concat L) \<le> length (labels_enc L)" by (induction L) (simp_all add: labels_enc_def)
  also have "\<dots> = text_size (length b)" using length_encodebytes [of b] L(1) by simp
  also have "\<dots> \<le> 4096" by (rule assms(3))
  finally have g: "pq_gather ?name 0 [] = Some (Some (length (labels_enc L), concat L))"
    using pq_gather_labels [OF L(2), of 0 ?name "120 # 49 # 97 # key_text pk @ z" "[]"] by simp
  have r: "rd ?name (length (labels_enc L)) 4 = Some [54, 120, 49, 97]" "rd ?name (length (labels_enc L) + 4) 51 = Some (key_text pk)"
    using kl by (simp_all add: rd_def mem_read_def)
  have m: "misc_base32_decode n (concat L) False = (True, b)" "misc_base32_decode 32 (key_text pk) True = (True, pk)"
    using misc_decodeI [OF dec assms(4)] misc_decodeI [OF base32_decode_key_text [OF assms(1,2)], of 32] assms(1) by simp_all
  have "dnscurve_parse_query_name n ?name = Some (True, b, pk, length (labels_enc L) + 55)"
    using assms(1) by (simp add: dnscurve_parse_query_name_def g m r)
  then show ?thesis using L(1) k by simp
qed

subsection \<open>Queries\<close>

text \<open>What the forwarder keeps of a query in the TXT form, also the name of the question and the id inside the box.\<close>

definition txt_session :: "bytes \<Rightarrow> bytes \<Rightarrow> u16 \<Rightarrow> u16 \<Rightarrow> bytes \<Rightarrow> dns_packet \<Rightarrow> bool" where
  "txt_session K non i j qn p \<longleftrightarrow> p_type p = DNS_DNSCURVE_TXT_RD_UNSET \<and> \<not> p_ispublic p \<and> p_key p = K \<and> p_nonce p = non \<and>
     p_srctxid p = i \<and> p_srcinsidetxid p = j \<and> p_qname p = qn"

definition txt_packet :: "bytes \<Rightarrow> bytes list \<Rightarrow> bytes" where
  "txt_packet i qs = i @ [0, 0, 0, 1, 0, 0, 0, 0, 0, 0] @ dn_of qs @ [0, 16, 0, 1]"

lemma txt_packet_parts:
  assumes "length i = 2" "list_all is_label qs" "length (txt_packet i qs) \<le> 4096"
  shows "length (txt_packet i qs) = 16 + length (dn_of qs)" "mem_read (txt_packet i qs) 3 9 = [0, 0, 1, 0, 0, 0, 0, 0, 0]"
    "txt_packet i qs ! 2 = 0" "mem_read (txt_packet i qs) (12 + length (dn_of qs)) 4 = [0, 16, 0, 1]" "mem_read (txt_packet i qs) 12 (length (dn_of qs)) = dn_of qs"
    "curve_packet_getname 4096 (txt_packet i qs) 12 = Some (12 + length (dn_of qs), dn_of qs)" "take 2 (txt_packet i qs) = i"
    "take 8 (txt_packet i qs) \<noteq> magic_q"
proof -
  obtain a b where i: "i = [a, b]" using assms(1) by (auto simp: numeral_2_eq_2 length_Suc_conv)
  show l: "length (txt_packet i qs) = 16 + length (dn_of qs)" by (simp add: txt_packet_def i)
  show "mem_read (txt_packet i qs) 3 9 = [0, 0, 1, 0, 0, 0, 0, 0, 0]" "txt_packet i qs ! 2 = 0" "take 2 (txt_packet i qs) = i"
    "mem_read (txt_packet i qs) 12 (length (dn_of qs)) = dn_of qs" "take 8 (txt_packet i qs) \<noteq> magic_q"
    by (simp_all add: txt_packet_def i mem_read_def magic_q_def)
  show "mem_read (txt_packet i qs) (12 + length (dn_of qs)) 4 = [0, 16, 0, 1]"
    by (simp add: txt_packet_def i mem_read_def add.commute [of 12] flip: drop_drop)
  have "name_at (txt_packet i qs) 12 qs (length (dn_of qs)) (12 + length (dn_of qs))"
    by (rule name_at_plain [OF assms(2)]) (simp add: txt_packet_def i)
  then show "curve_packet_getname 4096 (txt_packet i qs) 12 = Some (12 + length (dn_of qs), dn_of qs)"
    using cname_loop_complete [of "txt_packet i qs" 12 qs "length (dn_of qs)" "12 + length (dn_of qs)" 0 "[]" 4096 0] assms(3) l
    by (simp add: curve_packet_getname_def)
qed

lemma analyze_txt_opens:
  assumes "server_ok s" "length pk = 32" "unat (pk ! 31) < 128" "length non = 12" "length sb = 4096" "length (p_key (v_dns e)) = 32"
    and "take (v_packetsize e) (v_buffer e) = txt_packet i qs" "v_packetsize e = length (txt_packet i qs)" "v_packetsize e \<le> 4096" "v_packetsize e \<le> length (v_buffer e)"
    and "length i = 2" "list_all is_label qs" "dn_of qs = dns_base32_encodebytes (non @ c) @ dns_base32_encodekey pk @ dn_of sl"
    and "crypto_secretbox_open (replicate 16 0 @ c) (non @ replicate 12 0) (nacl_box_beforenm pk (s_secret s)) = Some (replicate 32 0 @ msg)" "2 \<le> length msg"
  shows "\<exists>e' s'. analyze_txt (\<lambda>_. True) e s sb = Some (True, e', s') \<and> server_ok s' \<and> s_secret s' = s_secret s \<and>
    v_packetsize e' = length msg \<and> length (v_buffer e') = length (v_buffer e) \<and> take (length msg) (v_buffer e') = msg \<and>
    txt_session (nacl_box_beforenm pk (s_secret s)) non (p_srctxid (v_dns e)) (uint16_unpack_big (v_buffer e')) (dn_of qs) (v_dns e')"
proof -
  let ?K = "nacl_box_beforenm pk (s_secret s)" and ?n = "length (dn_of qs)"
  note P = txt_packet_parts [OF assms(11,12) assms(9) [unfolded assms(8)]]
  have cl: "16 \<le> length c" "length c = length msg + 16" using secretbox_open_shape [OF assms(14)] by simp_all
  have ts: "text_size (12 + length c) + length (dns_base32_encodekey pk @ dn_of sl) = ?n"
    using length_encodebytes [of "non @ c"] assms(4,13) by simp
  then have t: "text_size (12 + length c) \<le> 4096" "12 + length c \<le> ?n" "?n \<le> 4080"
    using text_size_step [of 0 "12 + length c"] assms(8,9) P(1) by simp_all
  obtain zone where z: "dnscurve_parse_query_name 4092 (dn_of qs) = Some (True, non @ c, pk, zone)"
    using parse_query_name_ok [of pk "non @ c" 4092 "dn_of sl"] assms(2-4,13) t by auto
  define sb1 where "sb1 = mem_write sb 4 (non @ c)"
  define sb2 where "sb2 = mem_write sb1 0 (replicate 16 0)"
  have sb: "wr sb 4 (non @ c) = Some sb1" "rd sb1 4 12 = Some non" "wr sb1 0 (replicate 16 0) = Some sb2"
    "rd sb2 0 (length c + 16) = Some (replicate 16 0 @ c)"
    using assms(4,5) t by (simp_all add: sb1_def sb2_def wr_def rd_def mem_read_def mem_write_def)
  define p where "p = (v_dns e)\<lparr>p_key := pk, p_ispublic := True\<rparr>"
  obtain rc s' where g: "dnscurve_get_shared_secret s p = Some (rc, s', p\<lparr>p_key := ?K, p_ispublic := False\<rparr>)"
      "0 \<le> rc" "server_ok s'" "s_secret s' = s_secret s"
    using get_shared_secret_ok [OF assms(1), of p] assms(2) by (auto simp: p_def)
  have o: "nacl_box_open_afternm (replicate 16 0 @ c) (non @ replicate 12 0) ?K = Some (replicate 32 0 @ msg)"
    using assms(4,14) by (simp add: secretbox_open_agree)
  obtain r where buf: "v_buffer e = txt_packet i qs @ r" using assms(7) by (metis append_take_drop_id)
  have b: "ld (v_buffer e) 2 = Some 0" "rd (v_buffer e) 12 ?n = Some (dn_of qs)"
    using P(1,3,5) by (simp_all add: buf nth_append rd_def)
  have ml: "length msg \<le> length (v_buffer e)" using cl t assms(8,10) P(1) by simp
  then have w: "wr (v_buffer e) 0 msg = Some (msg @ drop (length msg) (v_buffer e))"
    using cl t assms(8,10) P(1) by (simp add: wr_def mem_write_def)
  have gn: "rd (v_buffer e) 0 (v_packetsize e) = Some (txt_packet i qs)" "curve_packet_getname 4096 (txt_packet i qs) 12 = Some (12 + ?n, dn_of qs)"
    and tl: "rd (txt_packet i qs) (12 + ?n) 4 = Some [0, 16, 0, 1]"
    using P(1,4,6) assms(7,10) by (simp_all add: rd_def mem_read_def)
  have "2 \<le> length (msg @ drop (length msg) (v_buffer e))" using assms(15) by simp
  then obtain k where k: "rd (msg @ drop (length msg) (v_buffer e)) 0 2 = Some k"
      "uint16_unpack_big k = uint16_unpack_big (msg @ drop (length msg) (v_buffer e))"
    using rd_id uint16_unpack_take by blast
  show ?thesis
    using k z sb g [unfolded p_def] o w ml b gn tl cl assms(2,4,6,8,10,15) P(1)
    by (simp add: analyze_txt_def txt_session_def del: rd_id)
qed

text \<open>A query in this form is opened and forwarded under a new id.\<close>

lemma txt_is_query:
  assumes "length i = 2" "list_all is_label qs" "length (txt_packet i qs) \<le> 4096" "68 \<le> length (txt_packet i qs)"
    and "v_buffer e0 = txt_packet i qs @ z" "v_packetsize e0 = length (txt_packet i qs)" "wr sb0 0 (replicate 16 0) = Some sb"
  shows "dnscurve_analyze_query al e0 s sb0 =
    analyze_txt al (e0\<lparr>v_dns := (v_dns e0)\<lparr>p_type := DNS_NON_DNSCURVE, p_srctxid := uint16_unpack_big (v_buffer e0)\<rparr>\<rparr>) s sb"
proof -
  note P = txt_packet_parts [OF assms(1-3)]
  have "take 8 (v_buffer e0) \<noteq> magic_q" "v_buffer e0 ! 2 = 0" "mem_read (v_buffer e0) 3 9 = [0, 0, 1, 0, 0, 0, 0, 0, 0]"
    using P assms(4) by (simp_all add: assms(5) nth_append)
  moreover have "rd (v_buffer e0) 3 9 = Some (mem_read (v_buffer e0) 3 9)" "rd (v_buffer e0) 0 8 = Some (take 8 (v_buffer e0))" "2 < length (v_buffer e0)"
    using assms(4) by (simp_all add: assms(5) rd_def mem_read_def)
  ultimately show ?thesis using assms(4,6,7) by (simp add: dnscurve_analyze_query_def)
qed

lemma txt_session_forwarded [simp]: "txt_session K non i j qn (p\<lparr>p_dsttxid := k\<rparr>) = txt_session K non i j qn p"
  by (simp add: txt_session_def)

lemma txt_query_forwarded:
  assumes "server_ok s" "length pk = 32" "unat (pk ! 31) < 128" "length non = 12" "length sb = 4096"
    and "length (txt_packet i qs) \<le> 4096" "length i = 2" "list_all is_label qs" "dn_of qs = dns_base32_encodebytes (non @ c) @ dns_base32_encodekey pk @ dn_of sl"
    and "crypto_secretbox_open (replicate 16 0 @ c) (non @ replicate 12 0) (nacl_box_beforenm pk (s_secret s)) = Some (replicate 32 0 @ msg)" "2 \<le> length msg"
  shows "\<exists>e s'. event_udp_ext 4096 (\<lambda>_. True) True True (txt_packet i qs) s sb =
      Some (Some (1, e, uint16_pack_big (p_dsttxid (v_dns e)) @ drop 2 msg), s') \<and>
    server_ok s' \<and> s_secret s' = s_secret s \<and> length (v_buffer e) = 4096 \<and>
    txt_session (nacl_box_beforenm pk (s_secret s)) non (uint16_unpack_big i) (uint16_unpack_big msg) (dn_of qs) (v_dns e)"
proof -
  let ?pkt = "txt_packet i qs" and ?K = "nacl_box_beforenm pk (s_secret s)"
  have "length (dn_of qs) = text_size (12 + length c) + 55 + length (dn_of sl)"
    using length_encodebytes [of "non @ c"] length_encodekey [OF assms(2)] assms(4) by (simp add: assms(9))
  then have pl: "68 \<le> length ?pkt" using txt_packet_parts(1) [OF assms(7,8,6)] text_size_step [of 0 "12 + length c"] by simp
  define e0 where "e0 = \<lparr>v_buffer = ?pkt @ replicate (4096 - length ?pkt) 0, v_packetsize = length ?pkt, v_dns = empty_packet\<rparr>"
  define e1 where "e1 = e0\<lparr>v_dns := (v_dns e0)\<lparr>p_type := DNS_NON_DNSCURVE, p_srctxid := uint16_unpack_big (v_buffer e0)\<rparr>\<rparr>"
  define sb1 where "sb1 = mem_write sb 0 (replicate 16 0)"
  have e1: "v_packetsize e1 = length ?pkt" "v_buffer e1 = ?pkt @ replicate (4096 - length ?pkt) 0" "length (p_key (v_dns e1)) = 32"
      "p_srctxid (v_dns e1) = uint16_unpack_big (v_buffer e1)"
    by (simp_all add: e1_def e0_def empty_packet_def)
  then have e1b: "take (v_packetsize e1) (v_buffer e1) = ?pkt" "length (v_buffer e1) = 4096" using assms(6) by simp_all
  have sb1: "wr sb 0 (replicate 16 0) = Some sb1" "length sb1 = 4096" using assms(4,5) by (simp_all add: sb1_def wr_def)
  obtain e2 s2 where A: "analyze_txt (\<lambda>_. True) e1 s sb1 = Some (True, e2, s2)" "server_ok s2" "s_secret s2 = s_secret s"
      "v_packetsize e2 = length msg" "length (v_buffer e2) = 4096" "take (length msg) (v_buffer e2) = msg"
      "txt_session ?K non (p_srctxid (v_dns e1)) (uint16_unpack_big (v_buffer e2)) (dn_of qs) (v_dns e2)"
    using analyze_txt_opens [OF assms(1-4) sb1(2) e1(3) e1b(1) e1(1) _ _ assms(7-11)] assms(6) e1(1) e1b(2) by auto
  have "dnscurve_analyze_query (\<lambda>_. True) e0 s sb = Some (True, e2, s2)"
    unfolding A(1) [symmetric] e1_def by (rule txt_is_query [OF assms(7,8,6) pl _ _ sb1(1)]) (simp_all add: e0_def)
  note F = ext_forwards [OF assms(6,11) this [unfolded e0_def] A(4-6)]
  have "take 2 (v_buffer e1) = i" using txt_packet_parts(7) [OF assms(7,8,6)] pl by (simp add: e1(2))
  then have "p_srctxid (v_dns e1) = uint16_unpack_big i"
    unfolding e1(4) using e1b(2) assms(7) by (intro uint16_unpack_big_take) (simp_all add: assms(7))
  then show ?thesis using F A(2,3,7) txt_session_forwarded by metis
qed

subsection \<open>The strings of an answer\<close>

function chunks255 :: "bytes \<Rightarrow> bytes list" where
  "chunks255 b = (if b = [] then [] else take 255 b # chunks255 (drop 255 b))"
  by pat_completeness auto
termination
  by (relation "measure length") auto

declare chunks255.simps [simp del]

lemma chunks255_Nil [simp]: "chunks255 [] = []"
  by (simp add: chunks255.simps)

lemma chunks255_step: "b \<noteq> [] \<Longrightarrow> chunks255 b = take 255 b # chunks255 (drop 255 b)"
  by (subst chunks255.simps) simp

lemma chunks255_strings:
  "concat (chunks255 b) = b \<and> (\<forall>s \<in> set (chunks255 b). length s < 256) \<and> length (txt_strings (chunks255 b)) = length b + (length b + 254) div 255"
proof (induction b rule: chunks255.induct)
  case (1 b)
  show ?case
  proof (cases "b = []")
    case False
    have l: "(length b + 254) div 255 = 1 + (length b - 255 + 254) div 255" if "255 \<le> length b"
      using that False by (simp add: div_if)
    have m: "length b < 255 \<Longrightarrow> (length b + 254) div 255 = 1" using False by (cases b) (simp_all add: div_if)
    show ?thesis using 1 [OF False] l m False by (cases "255 \<le> length b") (simp_all add: chunks255_step txt_strings_def)
  qed (simp add: txt_strings_def)
qed

lemma split_rdata_eq:
  assumes "lst + todo \<le> length sb" "pos + todo + (todo + 254) div 255 \<le> length buf"
  shows "split_rdata buf sb pos lst todo =
    Some (mem_write buf pos (txt_strings (chunks255 (mem_read sb lst todo))), pos + todo + (todo + 254) div 255)"
  using assms
proof (induction todo arbitrary: buf pos lst rule: less_induct)
  case (less todo)
  show ?case
  proof (cases "todo = 0")
    case True
    then show ?thesis by (subst split_rdata.simps) (simp add: mem_read_def txt_strings_def)
  next
    case False
    define k where "k = (if todo < 255 then todo else 255)"
    have k: "0 < k" "k \<le> todo" "k < 256" using False by (simp_all add: k_def)
    have n: "(todo + 254) div 255 = 1 + (todo - k + 254) div 255" using False by (auto simp: k_def div_if)
    have b: "mem_read sb lst todo = mem_read sb lst k @ mem_read sb (lst + k) (todo - k)"
      using mem_read_split [of lst k "todo - k" sb] less.prems(1) k by simp
    have "take 255 (mem_read sb lst todo) = mem_read sb lst k" "drop 255 (mem_read sb lst todo) = mem_read sb (lst + k) (todo - k)"
      using less.prems(1) False unfolding b by (auto simp: k_def mem_read_def)
    moreover have "mem_read sb lst todo \<noteq> []" using less.prems(1) False by (simp add: mem_read_def)
    ultimately have c: "chunks255 (mem_read sb lst todo) = mem_read sb lst k # chunks255 (mem_read sb (lst + k) (todo - k))"
      by (simp add: chunks255_step)
    let ?X = "of_nat k # mem_read sb lst k"
    have X: "length (mem_read sb lst k) = k" using less.prems(1) k by simp
    have w: "wr buf pos [of_nat k] = Some (mem_write buf pos [of_nat k])" using less.prems(2) n by (simp add: wr_def)
    have w2: "wr (mem_write buf pos [of_nat k]) (pos + 1) (mem_read sb lst k) = Some (mem_write buf pos ?X)"
      using mem_write_append [of pos "[of_nat k]" "mem_read sb lst k" buf] less.prems(2) n k X by (simp add: wr_def)
    have IH: "split_rdata (mem_write buf pos ?X) sb (pos + k + 1) (lst + k) (todo - k) =
        Some (mem_write (mem_write buf pos ?X) (pos + k + 1) (txt_strings (chunks255 (mem_read sb (lst + k) (todo - k)))),
          pos + k + 1 + (todo - k) + (todo - k + 254) div 255)"
      using less.prems n k X by (intro less.IH) simp_all
    have "rd sb lst k = Some (mem_read sb lst k)" using less.prems(1) k by (simp add: rd_def)
    then have "split_rdata buf sb pos lst todo = split_rdata (mem_write buf pos ?X) sb (pos + k + 1) (lst + k) (todo - k)"
      using False w w2 by (subst split_rdata.simps) (simp add: k_def [symmetric])
    moreover have "mem_write (mem_write buf pos ?X) (pos + k + 1) (txt_strings (chunks255 (mem_read sb (lst + k) (todo - k)))) =
        mem_write buf pos (txt_strings (chunks255 (mem_read sb lst todo)))"
      using mem_write_append [of pos ?X "txt_strings (chunks255 (mem_read sb (lst + k) (todo - k)))" buf] X less.prems n k
        chunks255_strings [of "mem_read sb (lst + k) (todo - k)"] by (simp add: c txt_strings_def)
    ultimately show ?thesis using IH n k by simp
  qed
qed

text \<open>A buffer that is filled from its start.\<close>

lemma wr_next:
  "n = length a \<Longrightarrow> length a + length c \<le> length b \<Longrightarrow> wr (mem_write b 0 a) n c = Some (mem_write b 0 (a @ c))"
  using wr_append [of 0 a c b] by simp

text \<open>The answer, as \<open>getquery\<close> of dq expects it.\<close>

definition txt_reply :: "bytes \<Rightarrow> bytes \<Rightarrow> bytes \<Rightarrow> bytes" where
  "txt_reply i qn x = i @ [132, 0, 0, 1, 0, 1, 0, 0, 0, 0] @ qn @ [0, 16, 0, 1, 192, 12, 0, 16, 0, 1, 0, 0, 0, 0] @
     uint16_pack_big (of_nat (length (txt_strings (chunks255 x)))) @ txt_strings (chunks255 x)"

lemma txt_answer_ok:
  assumes "txt_session K non i j qn (v_dns e)" "length qn + length x + (length x + 254) div 255 + 28 \<le> length (v_buffer e)"
    and "v_packetsize e = length x" "mem_read sb 4 (length x) = x" "length x + 4 \<le> length sb"
  shows "\<exists>e'. txt_answer e sb = Some (True, e') \<and> take (v_packetsize e') (v_buffer e') = txt_reply (uint16_pack_big i) qn x \<and>
    v_packetsize e' \<le> length (v_buffer e')"
proof -
  let ?b = "v_buffer e"
  define r where "r = length x + (length x + 254) div 255"
  define T where "T = txt_strings (chunks255 x)"
  define a1 where "a1 = uint16_pack_big i"
  define a2 where "a2 = a1 @ [132]"
  define a3 where "a3 = a2 @ [0, 0, 1, 0, 1, 0, 0, 0, 0]"
  define a4 where "a4 = a3 @ qn"
  define a5 where "a5 = a4 @ [0, 16, 0, 1, 192, 12, 0, 16, 0, 1, 0, 0, 0, 0]"
  define a6 where "a6 = a5 @ uint16_pack_big (of_nat r)"
  have l: "length a1 = 2" "length a2 = 3" "length a3 = 12" "length a4 = 12 + length qn" "length a5 = 26 + length qn" "length a6 = 28 + length qn" "length T = r"
    using chunks255_strings [of x] by (simp_all add: a1_def a2_def a3_def a4_def a5_def a6_def T_def r_def)
  have room: "length qn + r + 28 \<le> length ?b" using assms(2) by (simp add: r_def)
  have w1: "wr ?b 0 a1 = Some (mem_write ?b 0 a1)" using room l by (simp add: wr_Some)
  have w: "wr (mem_write ?b 0 a1) 2 [132] = Some (mem_write ?b 0 a2)"
    "wr (mem_write ?b 0 a2) 3 [0, 0, 1, 0, 1, 0, 0, 0, 0] = Some (mem_write ?b 0 a3)" "wr (mem_write ?b 0 a3) 12 qn = Some (mem_write ?b 0 a4)"
    "wr (mem_write ?b 0 a4) (12 + length qn) [0, 16, 0, 1, 192, 12, 0, 16, 0, 1, 0, 0, 0, 0] = Some (mem_write ?b 0 a5)"
    "wr (mem_write ?b 0 a5) (26 + length qn) (uint16_pack_big (of_nat r)) = Some (mem_write ?b 0 a6)"
    using room l by (simp_all add: wr_next a2_def [symmetric] a3_def [symmetric] a4_def [symmetric] a5_def [symmetric] a6_def [symmetric])
  have s: "split_rdata (mem_write ?b 0 a6) sb (28 + length qn) 4 (length x) = Some (mem_write ?b 0 (a6 @ T), 28 + length qn + r)"
    using split_rdata_eq [of 4 "length x" sb "28 + length qn" "mem_write ?b 0 a6"] mem_write_append [of 0 a6 T ?b] assms(4,5) room l
    by (simp add: T_def r_def add.assoc)
  have p: "p_type (v_dns e) = DNS_DNSCURVE_TXT_RD_UNSET" "p_srctxid (v_dns e) = i" "p_qname (v_dns e) = qn"
    using assms(1) by (simp_all add: txt_session_def)
  have "txt_answer e sb = Some (True, e\<lparr>v_buffer := mem_write ?b 0 (a6 @ T), v_packetsize := 28 + length qn + r\<rparr>)"
    using room w1 [unfolded a1_def] w [unfolded a1_def] s p assms(3) by (simp add: txt_answer_def r_def [symmetric] add.commute)
  moreover have "a6 @ T = txt_reply (uint16_pack_big i) qn x"
    using l(7) by (simp add: txt_reply_def a1_def a2_def a3_def a4_def a5_def a6_def T_def)
  moreover from this have "length (txt_reply (uint16_pack_big i) qn x) = 28 + length qn + r" using l by (metis length_append)
  ultimately show ?thesis using room l by (simp add: mem_write_def)
qed

subsection \<open>Answers\<close>

lemma reply_txt_seals:
  assumes "txt_session K non i j qn (v_dns e)" "length K = 32" "length non = 12" "length sb = 4096"
    and "v_packetsize e = length m" "take (length m) (v_buffer e) = m" "length m \<le> length (v_buffer e)" "take 2 m = uint16_pack_big j"
    and "length qn + length m + 28 + (length m + 282) div 255 + 28 \<le> length (v_buffer e)" "length m \<le> 4064"
  shows "\<exists>n2 c e' s'. dnscurve_reply_txt_query time e s sb = Some (True, e', s') \<and> s_secret s' = s_secret s \<and> server_ok s' = server_ok s \<and>
    length n2 = 12 \<and> crypto_secretbox (replicate 32 0 @ m) (non @ n2) K = Some c \<and>
    take (v_packetsize e') (v_buffer e') = txt_reply (uint16_pack_big i) qn (n2 @ drop 16 c) \<and> v_packetsize e' \<le> length (v_buffer e')"
proof -
  obtain n2 s' where n: "server_nonce time s = (n2, s')" "length n2 = 12" "s_cache s' = s_cache s" "s_secret s' = s_secret s"
    using server_nonce_ok by blast
  have p: "p_type (v_dns e) = DNS_DNSCURVE_TXT_RD_UNSET" "\<not> p_ispublic (v_dns e)" "p_key (v_dns e) = K" "p_nonce (v_dns e) = non"
    "p_srcinsidetxid (v_dns e) = j" using assms(1) by (simp_all add: txt_session_def)
  obtain c where c: "crypto_secretbox (replicate 32 0 @ m) (non @ n2) K = Some c" "length c = 32 + length m" "take 16 c = replicate 16 0"
    using secretbox_opens [of "replicate 32 0 @ m" "non @ n2" K] by auto
  have ca: "nacl_box_afternm (replicate 32 0 @ m) (non @ n2) K = Some c"
    using secretbox_agree [of "non @ n2" K] assms(2,3) n(2) c(1) by (simp add: nacl_box_afternm_def)
  have "length (take 2 m) = 2" unfolding assms(8) by simp
  then have m2: "2 \<le> length m" by simp
  have "take 2 (v_buffer e) = take 2 m" using arg_cong [OF assms(6), of "take 2"] m2 by simp
  then have i: "rd (v_buffer e) 0 2 = Some (uint16_pack_big j)" using m2 assms(7,8) by (simp add: rd_def mem_read_def)
  define sb1 where "sb1 = mem_write sb 0 (replicate 32 0)"
  define sb2 where "sb2 = mem_write sb1 32 m"
  define sb3 where "sb3 = mem_write sb2 0 c"
  define sb4 where "sb4 = mem_write sb3 4 n2"
  have sb: "wr sb 0 (replicate 32 0) = Some sb1" "wr sb1 32 m = Some sb2" "rd sb2 0 (length m + 32) = Some (replicate 32 0 @ m)"
    "rd (v_buffer e) 0 (length m) = Some m"
    using assms(4,6,7,10) by (simp_all add: sb1_def sb2_def wr_def rd_def mem_read_def mem_write_def)
  have l2: "length sb2 = 4096" using assms(4,10) by (simp add: sb1_def sb2_def)
  then have sb4: "wr sb2 0 c = Some sb3" "wr sb3 4 n2 = Some sb4" "length sb4 = 4096"
    using assms(10) c(2) n(2) by (simp_all add: sb3_def sb4_def wr_def)
  have "sb4 = take 4 c @ n2 @ drop 16 c @ drop (length c) sb2"
    using l2 assms(10) c(2) n(2) by (simp add: sb3_def sb4_def mem_write_def)
  then have x: "mem_read sb4 4 (length (n2 @ drop 16 c)) = n2 @ drop 16 c" using c(2) by (simp add: mem_read_def)
  have xl: "length (n2 @ drop 16 c) = length m + 28" using c(2) n(2) by simp
  obtain e' where t: "txt_answer (e\<lparr>v_packetsize := length m + 28\<rparr>) sb4 = Some (True, e')"
      "take (v_packetsize e') (v_buffer e') = txt_reply (uint16_pack_big i) qn (n2 @ drop 16 c)" "v_packetsize e' \<le> length (v_buffer e')"
    using txt_answer_ok [of K non i j qn "e\<lparr>v_packetsize := length m + 28\<rparr>" "n2 @ drop 16 c" sb4] assms(1,9,10) x sb4(3) unfolding xl by (auto simp: ac_simps)
  have f: "mem_read (non @ n2) 12 12 = n2" using assms(3) n(2) by (simp add: mem_read_def)
  have "dnscurve_reply_txt_query time e s sb = Some (True, e', s')"
    using assms(5,10) p n(1) sb sb4(1,2) ca i f t(1) by (simp add: dnscurve_reply_txt_query_def shared_secret_present)
  moreover have "server_ok s' = server_ok s" using n(3,4) by (simp add: server_ok_def)
  ultimately show ?thesis using n(2,4) c(1) t(2,3) by blast
qed

lemma txt_answer_sealed:
  assumes "txt_session K non i j qn (v_dns e)" "length K = 32" "length non = 12" "length sb = 4096"
    and "12 \<le> length resp" "length qn + length resp + 73 \<le> length (v_buffer e)" "length resp \<le> 4064" "take 2 resp = uint16_pack_big (p_dsttxid (v_dns e))"
    and "ip_compare_address peer target = 0" "ip_compare_port peer target = 0"
  shows "\<exists>n2 c s'. event_udp_int time target peer e resp s sb = Some (Some (txt_reply (uint16_pack_big i) qn (n2 @ drop 16 c)), s') \<and>
    s_secret s' = s_secret s \<and> server_ok s' = server_ok s \<and>
    length n2 = 12 \<and> crypto_secretbox (replicate 32 0 @ uint16_pack_big j @ drop 2 resp) (non @ n2) K = Some c"
proof -
  let ?m = "uint16_pack_big j @ drop 2 resp"
  have p: "p_type (v_dns e) = DNS_DNSCURVE_TXT_RD_UNSET" "p_srcinsidetxid (v_dns e) = j"
    using assms(1) by (simp_all add: txt_session_def)
  have "e\<lparr>v_buffer := b, v_packetsize := k\<rparr> = \<lparr>v_buffer = b, v_packetsize = k, v_dns = v_dns e\<rparr>" for b k by simp
  then obtain e1 where a: "dns_analyze_reply_query (e\<lparr>v_buffer := mem_write (v_buffer e) 0 resp, v_packetsize := length resp\<rparr>) = Some (True, e1)"
      "v_dns e1 = v_dns e" "v_packetsize e1 = length resp" "length (v_buffer e1) = length (v_buffer e)"
      "take (length resp) (v_buffer e1) = ?m"
    using analyze_reply_ok [OF _ assms(5,8), of "v_buffer e" j] assms(6) p by auto
  have w: "wr (v_buffer e) 0 resp = Some (mem_write (v_buffer e) 0 resp)" "take (length (v_buffer e)) resp = resp"
    using assms(6) by (simp_all add: wr_def)
  have l: "length ?m = length resp" using assms(5) by simp
  have m: "v_packetsize e1 = length ?m" "take (length ?m) (v_buffer e1) = ?m" "length ?m \<le> length (v_buffer e1)" "take 2 ?m = uint16_pack_big j"
    "length qn + length ?m + 28 + (length ?m + 282) div 255 + 28 \<le> length (v_buffer e1)" "length ?m \<le> 4064"
    unfolding l using a(3-5) assms(6,7) by simp_all
  obtain n2 c e2 s2 where r: "dnscurve_reply_txt_query time e1 s sb = Some (True, e2, s2)" "s_secret s2 = s_secret s" "server_ok s2 = server_ok s"
      "length n2 = 12" "crypto_secretbox (replicate 32 0 @ ?m) (non @ n2) K = Some c"
      "take (v_packetsize e2) (v_buffer e2) = txt_reply (uint16_pack_big i) qn (n2 @ drop 16 c)" "v_packetsize e2 \<le> length (v_buffer e2)"
    using reply_txt_seals [OF _ assms(2-4) m, of i time s] assms(1) a(2) by auto
  have "event_udp_int time target peer e resp s sb = Some (Some (txt_reply (uint16_pack_big i) qn (n2 @ drop 16 c)), s2)"
    using w a(1) r(1,6,7) p a(2) assms(9,10) by (simp add: event_udp_int_def dns_reply_query_def rd_def mem_read_def)
  then show ?thesis using r by blast
qed

end
