(* ===== verification/CurveSafe.thy ===== *)
theory CurveSafe
  imports CurveTxt
begin

section \<open>Safety of the forwarder\<close>

text \<open>
  No datagram of a client makes the UDP handlers of curvedns leave their arrays, the secrets in the cache stay right, and where
  the stores do go wrong: a long query over TCP and a long answer.
\<close>

subsection \<open>Names and query names\<close>





subsection \<open>Queries\<close>

text \<open>
  The entry of a query that waits for its answer.  \<open>kept\<close> collects what the handlers leave true of the entry (with the
  buffer size) and of the server.
\<close>

definition packet_ok :: "dns_packet \<Rightarrow> bool" where
  "packet_ok p \<longleftrightarrow> length (p_key p) = 32 \<and> length (p_nonce p) = 12 \<and> (p_type p \<noteq> DNS_NON_DNSCURVE \<longrightarrow> \<not> p_ispublic p)"

definition entry_ok :: "nat \<Rightarrow> entry \<Rightarrow> bool" where
  "entry_ok n e \<longleftrightarrow> length (v_buffer e) = n \<and> v_packetsize e \<le> n \<and> packet_ok (v_dns e)"








subsection \<open>Answers\<close>

lemma analyze_reply_safe:
  assumes "2 \<le> length (v_buffer e)"
  shows "\<exists>ok e'. dns_analyze_reply_query e = Some (ok, e') \<and> v_packetsize e' = v_packetsize e \<and> v_dns e' = v_dns e \<and> length (v_buffer e') = length (v_buffer e)"
  using assms by (auto simp: dns_analyze_reply_query_def wr_def Let_def)

lemma sealed_length: "length n = 24 \<Longrightarrow> length k = 32 \<Longrightarrow> \<exists>c. nacl_box_afternm (replicate 32 0 @ m) n k = Some c \<and> length c = 32 + length m"
  using secretbox_opens [of "replicate 32 0 @ m" n k] secretbox_agree [of n k "replicate 32 0 @ m"] by (auto simp: nacl_box_afternm_def)

lemma reply_streamlined_safe:
  assumes "entry_ok n e" "length sb = 4096" "v_packetsize e + 48 \<le> n \<or> 4112 \<le> n"
  shows "\<exists>b e' s'. dnscurve_reply_streamlined_query time e s sb = Some (b, e', s') \<and> s_cache s' = s_cache s \<and> s_secret s' = s_secret s \<and> (b \<longrightarrow> entry_ok n e')"
proof (cases "p_type (v_dns e) = DNS_DNSCURVE_STREAMLINED \<and> v_packetsize e + 32 \<le> 4096")
  case True
  let ?k = "v_packetsize e" and ?m = "mem_read (v_buffer e) 0 (v_packetsize e)"
  obtain n2 s' where n: "server_nonce time s = (n2, s')" "length n2 = 12" "s_cache s' = s_cache s" "s_secret s' = s_secret s"
    using server_nonce_ok by blast
  have e: "length (v_buffer e) = n" "\<not> p_ispublic (v_dns e)" "length (p_key (v_dns e)) = 32" "length (p_nonce (v_dns e)) = 12"
    using assms(1) True by (simp_all add: entry_ok_def packet_ok_def)
  have room: "?k + 48 \<le> n" using assms(3) True by auto
  have ml: "length ?m = ?k" using e(1) room by simp
  obtain c where c: "nacl_box_afternm (replicate 32 0 @ ?m) (p_nonce (v_dns e) @ n2) (p_key (v_dns e)) = Some c" "length c = 32 + ?k"
    using sealed_length [of "p_nonce (v_dns e) @ n2" "p_key (v_dns e)" ?m] e(3,4) n(2) ml by auto
  define sb1 where "sb1 = mem_write sb 0 (replicate 32 0)"
  define sb2 where "sb2 = mem_write sb1 32 ?m"
  have sb: "wr sb 0 (replicate 32 0) = Some sb1" "rd (v_buffer e) 0 ?k = Some ?m" "wr sb1 32 ?m = Some sb2" "rd sb2 0 (?k + 32) = Some (mem_read sb2 0 (?k + 32))"
    using assms(2) room True e(1) ml by (simp_all add: wr_def rd_def sb1_def sb2_def)
  have "mem_read sb2 0 (?k + 32) = replicate 32 0 @ ?m"
    using assms(2) True ml by (simp add: sb1_def sb2_def mem_write_def mem_read_def [of _ 0 "?k + 32"])
  note c1 = c(1) [folded this]
  show ?thesis
    using True n sb c1 c(2) e room assms(1) by (auto simp: dnscurve_reply_streamlined_query_def shared_secret_present wr_def entry_ok_def packet_ok_def)
qed (auto simp: dnscurve_reply_streamlined_query_def)

lemma split_rdata_safe: "pos + todo + (todo + 254) div 255 \<le> length buf \<Longrightarrow> lst + todo \<le> length sb \<Longrightarrow>
   \<exists>b p. split_rdata buf sb pos lst todo = Some (b, p) \<and> length b = length buf \<and> p \<le> length buf"
  using chunks255_strings [of "mem_read sb lst todo"] by (simp add: split_rdata_eq add.assoc)

lemma txt_answer_safe:
  assumes "12 \<le> length (v_buffer e)" "v_packetsize e + 4 \<le> length sb"
  shows "\<exists>b e'. txt_answer e sb = Some (b, e') \<and> (b \<longrightarrow> v_dns e' = v_dns e \<and> length (v_buffer e') = length (v_buffer e) \<and> v_packetsize e' \<le> length (v_buffer e))"
proof -
  let ?n = "length (v_buffer e)" and ?q = "length (p_qname (v_dns e))"
  have w: "wr b p x = Some (mem_write b p x)" if "length b = ?n" "p + length x \<le> ?n" for b p x using that by (simp add: wr_def)
  have s: "\<exists>b' p'. split_rdata b sb (12 + ?q + 14 + 2) 4 (v_packetsize e) = Some (b', p') \<and> length b' = ?n \<and> p' \<le> ?n"
    if "length b = ?n" "\<not> ?n < 12 + ?q + 14 + 2 + (v_packetsize e + (v_packetsize e + 254) div 255)" for b
    using that assms(2) split_rdata_safe [of "12 + ?q + 14 + 2" "v_packetsize e" b 4 sb] by simp
  define b3 where "b3 = mem_write (mem_write (mem_write (v_buffer e) 0 (uint16_pack_big (p_srctxid (v_dns e)))) 2
    [if p_type (v_dns e) = DNS_DNSCURVE_TXT_RD_SET then 0x85 else 0x84]) 3 [0, 0, 1, 0, 1, 0, 0, 0, 0]"
  have b3: "length b3 = ?n" using assms(1) by (simp add: b3_def)
  show ?thesis
  proof (cases "?n < 12 + ?q")
    case True
    then show ?thesis using assms(1) by (auto simp: txt_answer_def w Let_def)
  next
    case q: False
    show ?thesis
    proof (cases "?n < 12 + ?q + 14")
      case True
      then show ?thesis using q assms(1) by (auto simp: txt_answer_def w Let_def)
    next
      case q2: False
      show ?thesis
      proof (cases "?n < 12 + ?q + 14 + 2 + (v_packetsize e + (v_packetsize e + 254) div 255)")
        case True
        then show ?thesis using q q2 assms(1) by (auto simp: txt_answer_def w Let_def)
      next
        case False
        define b6 where "b6 = mem_write (mem_write (mem_write b3 12 (p_qname (v_dns e))) (12 + ?q) [0, 16, 0, 1, 0xc0, 0x0c, 0, 16, 0, 1, 0, 0, 0, 0])
          (12 + ?q + 14) (uint16_pack_big (of_nat (v_packetsize e + (v_packetsize e + 254) div 255)))"
        have b6: "length b6 = ?n" using b3 q q2 False by (simp add: b6_def)
        obtain b' p' where "split_rdata b6 sb (12 + ?q + 14 + 2) 4 (v_packetsize e) = Some (b', p')" "length b' = ?n" "p' \<le> ?n"
          using s [OF b6 False] by blast
        moreover from this have "txt_answer e sb = Some (True, e\<lparr>v_buffer := b', v_packetsize := p'\<rparr>)"
          using q q2 False assms(1) by (simp add: txt_answer_def w Let_def b6_def b3_def del: of_nat_add)
        ultimately show ?thesis by auto
      qed
    qed
  qed
qed

lemma reply_txt_safe:
  assumes "entry_ok n e" "length sb = 4096" "12 \<le> n"
  shows "\<exists>b e' s'. dnscurve_reply_txt_query time e s sb = Some (b, e', s') \<and> s_cache s' = s_cache s \<and> s_secret s' = s_secret s \<and> (b \<longrightarrow> entry_ok n e')"
proof (cases "(p_type (v_dns e) = DNS_DNSCURVE_TXT_RD_SET \<or> p_type (v_dns e) = DNS_DNSCURVE_TXT_RD_UNSET) \<and> v_packetsize e + 32 \<le> 4096")
  case True
  let ?k = "v_packetsize e" and ?m = "mem_read (v_buffer e) 0 (v_packetsize e)"
  obtain n2 s' where n: "server_nonce time s = (n2, s')" "length n2 = 12" "s_cache s' = s_cache s" "s_secret s' = s_secret s"
    using server_nonce_ok by blast
  have e: "length (v_buffer e) = n" "?k \<le> n" "\<not> p_ispublic (v_dns e)" "length (p_key (v_dns e)) = 32" "length (p_nonce (v_dns e)) = 12"
    using assms(1) True by (auto simp: entry_ok_def packet_ok_def)
  have ml: "length ?m = ?k" using e(1,2) by simp
  obtain c where c: "nacl_box_afternm (replicate 32 0 @ ?m) (p_nonce (v_dns e) @ n2) (p_key (v_dns e)) = Some c" "length c = 32 + ?k"
    using sealed_length [of "p_nonce (v_dns e) @ n2" "p_key (v_dns e)" ?m] e(4,5) n(2) ml by auto
  have f: "mem_read (p_nonce (v_dns e) @ n2) 12 12 = n2" using e(5) n(2) by (simp add: mem_read_def)
  define sb1 where "sb1 = mem_write sb 0 (replicate 32 0)"
  define sb2 where "sb2 = mem_write sb1 32 ?m"
  define sb3 where "sb3 = mem_write sb2 0 c"
  define sb4 where "sb4 = mem_write sb3 4 n2"
  have l: "length sb1 = 4096" "length sb2 = 4096" "length sb3 = 4096" "length sb4 = 4096"
    using assms(2) True ml c(2) n(2) by (simp_all add: sb1_def sb2_def sb3_def sb4_def)
  have r: "mem_read sb2 0 (?k + 32) = replicate 32 0 @ ?m"
    using assms(2) True ml by (simp add: sb1_def sb2_def mem_write_def mem_read_def [of _ 0 "?k + 32"])
  have sb: "wr sb 0 (replicate 32 0) = Some sb1" "rd (v_buffer e) 0 ?k = Some ?m" "wr sb1 32 ?m = Some sb2" "rd sb2 0 (?k + 32) = Some (replicate 32 0 @ ?m)"
    "wr sb2 0 c = Some sb3" "wr sb3 4 n2 = Some sb4" "rd (v_buffer e) 0 2 = Some (mem_read (v_buffer e) 0 2)"
    using assms(2,3) True e(1,2) ml l c(2) n(2) r by (simp_all add: wr_def rd_def sb1_def [symmetric] sb2_def [symmetric] sb3_def sb4_def)
  obtain b e' where t: "txt_answer (e\<lparr>v_packetsize := ?k + 28\<rparr>) sb4 = Some (b, e')"
      "b \<longrightarrow> v_dns e' = v_dns e \<and> length (v_buffer e') = n \<and> v_packetsize e' \<le> n"
    using txt_answer_safe [of "e\<lparr>v_packetsize := ?k + 28\<rparr>" sb4] e(1) assms(3) l(4) True by auto
  show ?thesis
    using True n sb c f e(3) t assms(1) by (cases "uint16_unpack_big (mem_read (v_buffer e) 0 2) = p_srcinsidetxid (v_dns e)")
      (auto simp: dnscurve_reply_txt_query_def shared_secret_present entry_ok_def)
qed (auto simp: dnscurve_reply_txt_query_def)

text \<open>
  C4: No response of at most 4048 bytes makes it leave its arrays either, whatever the form of the query: the answer is
  sent or dropped, and the secrets stay.
\<close>

theorem udp_reply_safe:
  assumes "server_ok s" "entry_ok 4096 e" "length sb = 4096" "length resp \<le> 4048"
  shows "\<exists>out s'. event_udp_int time target peer e resp s sb = Some (out, s') \<and> server_ok s' \<and> s_secret s' = s_secret s"
proof -
  have e: "length (v_buffer e) = 4096" "packet_ok (v_dns e)" using assms(2) by (simp_all add: entry_ok_def)
  let ?e = "e\<lparr>v_buffer := mem_write (v_buffer e) 0 resp, v_packetsize := length resp\<rparr>"
  have w: "wr (v_buffer e) 0 resp = Some (mem_write (v_buffer e) 0 resp)" "take (length (v_buffer e)) resp = resp"
    using e(1) assms(4) by (simp_all add: wr_def)
  obtain ok e1 where a: "dns_analyze_reply_query ?e = Some (ok, e1)" "v_packetsize e1 = length resp" "v_dns e1 = v_dns e" "length (v_buffer e1) = 4096"
    using analyze_reply_safe [of ?e] e(1) assms(4) by auto
  have e1: "entry_ok 4096 e1" using a e(2) assms(4) by (simp add: entry_ok_def)
  have "\<exists>b e' s'. dns_reply_query time e1 s sb = Some (b, e', s') \<and> server_ok s' \<and> s_secret s' = s_secret s \<and> (b \<longrightarrow> entry_ok 4096 e')"
  proof -
    have k: "server_ok s'" if "s_cache s' = s_cache s" "s_secret s' = s_secret s" for s' using server_ok_same [OF that] assms(1) by simp
    obtain b2 e2 s2 where A: "dnscurve_reply_streamlined_query time e1 s sb = Some (b2, e2, s2)" "s_cache s2 = s_cache s" "s_secret s2 = s_secret s" "b2 \<longrightarrow> entry_ok 4096 e2"
      using reply_streamlined_safe [OF e1 assms(3), of time s] a(2) assms(4) by auto
    obtain b3 e3 s3 where B: "dnscurve_reply_txt_query time e1 s sb = Some (b3, e3, s3)" "s_cache s3 = s_cache s" "s_secret s3 = s_secret s" "b3 \<longrightarrow> entry_ok 4096 e3"
      using reply_txt_safe [OF e1 assms(3), of time s] by auto
    show ?thesis using A B k [OF A(2,3)] k [OF B(2,3)] assms(1) e1 by (cases "p_type (v_dns e1)") (auto simp: dns_reply_query_def)
  qed
  then show ?thesis using w a(1) assms(1) by (fastforce simp: event_udp_int_def entry_ok_def rd_def)
qed

subsection \<open>Witnesses\<close>

definition no_rnd :: rnd where
  "no_rnd = \<lparr>r_seed = [], r_in = [], r_out = [], r_outleft = 0\<rparr>"

lemma init_5000: "\<exists>t. dnscurve_init (\<lambda>_. True) 5000 = Some t"
  by (simp add: dnscurve_init_def cache_init_ht_def)


definition waiting :: entry where
  "waiting = \<lparr>v_buffer = replicate 4096 0, v_packetsize = 40, v_dns = empty_packet\<lparr>p_type := DNS_DNSCURVE_STREAMLINED\<rparr>\<rparr>"

lemma waiting_ok: "entry_ok 4096 waiting" "streamlined_session (replicate 32 0) (replicate 12 0) 0 (v_dns waiting)" "length (v_buffer waiting) = 4096"
  "p_dsttxid (v_dns waiting) = 0"
  by (simp_all add: waiting_def empty_packet_def entry_ok_def packet_ok_def streamlined_session_def)

theorem udp_reply_safe_witness:
  "\<exists>t r s'. dnscurve_init (\<lambda>_. True) 5000 = Some t \<and>
     event_udp_int [] (Sin 0x0100007f 53) (Sin 0x0100007f 53) waiting (replicate 4048 0) \<lparr>s_cache = t, s_secret = replicate 32 6, s_rnd = no_rnd\<rparr> (replicate 4096 0) = Some (r, s')"
proof -
  obtain t where t: "dnscurve_init (\<lambda>_. True) 5000 = Some t" using init_5000 by blast
  have "server_ok \<lparr>s_cache = t, s_secret = replicate 32 6, s_rnd = no_rnd\<rparr>" by (rule dnscurve_init_ok [OF t]) simp
  from udp_reply_safe [OF this waiting_ok(1), of "replicate 4096 0" "replicate 4048 0" "[]" "Sin 0x0100007f 53" "Sin 0x0100007f 53"] t show ?thesis by auto
qed

subsection \<open>Two overflows\<close>

lemma streamlined_overflow:
  assumes "4132 < v_packetsize e" "v_packetsize e \<le> length (v_buffer e)" "length sb = 4096"
  shows "analyze_streamlined e s sb = None"
proof -
  have "length (mem_read (v_buffer e) 52 (v_packetsize e - 52)) = v_packetsize e - 52" using assms(1,2) by simp
  then have "wr sb 16 (mem_read (v_buffer e) 52 (v_packetsize e - 52)) = None" using assms(1,3) by (simp add: wr_def)
  then show ?thesis using assms by (simp add: analyze_streamlined_def rd_def)
qed

text \<open>
  C35: A streamlined query of more than 4132 bytes overflows the array on the stack: over TCP, whose buffer has 8192 bytes, any client can
  send one, and it needs no key.
\<close>

theorem long_query_overflows:
  assumes "take 8 (v_buffer e) = magic_q" "4132 < v_packetsize e" "v_packetsize e \<le> length (v_buffer e)" "length sb = 4096"
  shows "dnscurve_analyze_query al e s sb = None"
proof -
  have "rd (v_buffer e) 0 8 = Some magic_q" using assms(1-3) by (simp add: rd_def mem_read_def)
  then show ?thesis using assms by (simp add: dnscurve_analyze_query_def streamlined_overflow wr_def)
qed

theorem long_query_overflows_witness:
  "\<forall>c. dnscurve_analyze_query (\<lambda>_. True) \<lparr>v_buffer = magic_q @ replicate 8184 0, v_packetsize = 4133, v_dns = empty_packet\<rparr>
     \<lparr>s_cache = c, s_secret = [], s_rnd = no_rnd\<rparr> (replicate 4096 0) = None"
  by (intro allI, rule long_query_overflows) simp_all

text \<open>
  C36: The answer to a streamlined query takes 48 bytes more than the response, but room for 32 is checked: a
  response of 4049 to 4064 bytes makes \<open>dnscurve_reply_streamlined_query\<close> write behind the buffer.
\<close>

theorem long_response_overflows:
  assumes "streamlined_session K non i (v_dns e)" "length K = 32" "length non = 12" "length sb = 4096" "length (v_buffer e) = 4096"
    and "4048 < length resp" "length resp \<le> 4064" "take 2 resp = uint16_pack_big (p_dsttxid (v_dns e))"
    and "ip_compare_address peer target = 0" "ip_compare_port peer target = 0"
  shows "event_udp_int time target peer e resp s sb = None"
proof -
  let ?e = "e\<lparr>v_buffer := mem_write (v_buffer e) 0 resp, v_packetsize := length resp\<rparr>"
  have p: "p_type (v_dns e) = DNS_DNSCURVE_STREAMLINED" "\<not> p_ispublic (v_dns e)" "p_key (v_dns e) = K" "p_nonce (v_dns e) = non"
    using assms(1) by (simp_all add: streamlined_session_def)
  have "?e = \<lparr>v_buffer = mem_write (v_buffer e) 0 resp, v_packetsize = length resp, v_dns = v_dns e\<rparr>" by simp
  then obtain e1 where a: "dns_analyze_reply_query ?e = Some (True, e1)" "v_dns e1 = v_dns e" "v_packetsize e1 = length resp" "length (v_buffer e1) = 4096"
    using analyze_reply_ok [of resp "v_buffer e" "v_dns e" "p_srctxid (v_dns e)"] assms(5-8) p(1) by auto
  let ?m = "mem_read (v_buffer e1) 0 (length resp)"
  have ml: "length ?m = length resp" using a(4) assms(7) by simp
  obtain n2 s' where n: "server_nonce time s = (n2, s')" "length n2 = 12" using server_nonce_ok by blast
  obtain c where c: "nacl_box_afternm (replicate 32 0 @ ?m) (non @ n2) K = Some c" "length c = 32 + length resp"
    using sealed_length [of "non @ n2" K ?m] assms(2,3) n(2) ml by auto
  define sb1 where "sb1 = mem_write sb 0 (replicate 32 0)"
  define sb2 where "sb2 = mem_write sb1 32 ?m"
  have sb: "wr sb 0 (replicate 32 0) = Some sb1" "rd (v_buffer e1) 0 (length resp) = Some ?m" "wr sb1 32 ?m = Some sb2"
    "rd sb2 0 (length resp + 32) = Some (mem_read sb2 0 (length resp + 32))"
    using assms(4,7) a(4) ml by (simp_all add: wr_def rd_def sb1_def sb2_def)
  have "mem_read sb2 0 (length resp + 32) = replicate 32 0 @ ?m"
    using assms(4,7) ml by (simp add: sb1_def sb2_def mem_write_def mem_read_def [of _ 0 "length resp + 32"])
  note c1 = c(1) [folded this]
  have "dnscurve_reply_streamlined_query time e1 s sb = None"
    using p n sb c1 c(2) a(2-4) assms(3,6,7) by (simp add: dnscurve_reply_streamlined_query_def shared_secret_present wr_def)
  moreover have "wr (v_buffer e) 0 resp = Some (mem_write (v_buffer e) 0 resp)" "take (length (v_buffer e)) resp = resp"
    using assms(5,7) by (simp_all add: wr_def)
  ultimately show ?thesis using a(1,2) p(1) assms(9,10) by (simp add: event_udp_int_def dns_reply_query_def)
qed

theorem long_response_overflows_witness:
  "\<forall>c. event_udp_int [] (Sin 0x0100007f 53) (Sin 0x0100007f 53) waiting (replicate 4049 0) \<lparr>s_cache = c, s_secret = [], s_rnd = no_rnd\<rparr> (replicate 4096 0) = None"
  by (intro allI, rule long_response_overflows [OF waiting_ok(2)]) (simp_all add: waiting_ok(3,4) uint16_pack_big_def numeral_2_eq_2 ip_compare_address_def ip_compare_port_def)

end
