(* ===== verification/DnsTransmit.thy ===== *)
theory DnsTransmit
  imports DnsAnswer DnsSort
begin

section \<open>Transmissions\<close>

text \<open>
  The model of the second half of \<open>dq/dns_transmit.c\<close>: the state machine that sends a query to the
  servers in turn, first over UDP and then over TCP, and waits for an acceptable answer.  Sockets, clock and
  allocator are the fields of \<open>os\<close>; the functions of \<open>dns_verbosity.c\<close> that only write log lines are left out.
  Return values are the integers of the code, \<open>None\<close> stands for an access outside an object.
\<close>

definition XSOCKET_V4 :: nat where "XSOCKET_V4 = 4"
definition XSOCKET_V6 :: nat where "XSOCKET_V6 = 6"

definition packetfree :: "dns_transmit \<Rightarrow> dns_transmit" where
  "packetfree d = (case d_packet d of None \<Rightarrow> d | Some x \<Rightarrow> d\<lparr>d_packet := None\<rparr>)"

definition queryfree :: "dns_transmit \<Rightarrow> dns_transmit" where
  "queryfree d = (case d_query d of None \<Rightarrow> d | Some x \<Rightarrow> d\<lparr>d_query := None\<rparr>)"

definition socketfree :: "'w os \<Rightarrow> dns_transmit \<Rightarrow> 'w system \<Rightarrow> dns_transmit \<times> 'w system" where
  "socketfree os d y =
     (if d_s1 d = 0 then (d, y)
      else (d\<lparr>d_s1 := 0, d_s1type := 0\<rparr>, y\<lparr>world := os_close os (world y) (d_s1 d - 1)\<rparr>))"

definition dns_transmit_free :: "'w os \<Rightarrow> dns_transmit \<Rightarrow> 'w system \<Rightarrow> dns_transmit \<times> 'w system" where
  "dns_transmit_free os d y =
     (let d = queryfree d; (d, y) = socketfree os d y in (packetfree d, y))"

subsection \<open>Binding to a random port\<close>

definition bind_port :: "'w os \<Rightarrow> dns_transmit \<Rightarrow> bytes \<Rightarrow> 'w system \<Rightarrow> int \<times> 'w system" where
  "bind_port os d port y =
     (let p = (if d_s1type d = XSOCKET_V6 then 16 else 0);
          (r, w) = os_bind os (world y) (d_s1 d - 1) (d_s1type d) (mem_read (d_localip d) p 16) port (d_scope_id d)
      in (r, y\<lparr>world := w\<rparr>))"

primrec bind_tries :: "nat \<Rightarrow> 'w os \<Rightarrow> dns_transmit \<Rightarrow> 'w system \<Rightarrow> int \<times> 'w system" where
  "bind_tries 0 os d y =
     (let (r, y) = bind_port os d [0, 0] y in (if r = 0 then 0 else - 1, y))"
| "bind_tries (Suc n) os d y =
     (let (i, w) = randommod (os_random os) 64510 (world y);
          (r, y) = bind_port os d (uint16_pack_big (of_nat (unat i + 1025))) (y\<lparr>world := w\<rparr>)
      in if r = 0 then (0, y) else bind_tries n os d y)"

definition randombind :: "'w os \<Rightarrow> dns_transmit \<Rightarrow> 'w system \<Rightarrow> int \<times> 'w system" where
  "randombind os d y = bind_tries 10 os d y"

subsection \<open>UDP\<close>

definition timeouts :: "int list" where
  "timeouts = [1000, 3000, 11000, 45000]"

definition server_ip :: "dns_transmit \<Rightarrow> bytes" where
  "server_ip d = mem_read (d_servers d) (16 * d_curserver d) 16"

definition server_type :: "bytes \<Rightarrow> nat" where
  "server_type ip = (if take 12 ip = v4_prefix then XSOCKET_V4 else XSOCKET_V6)"

text \<open>
  How the body of the loop over the servers ends: a query is out (\<open>return 0\<close>), the next server is
  tried, or the transmission is given up (\<open>return -1\<close>).
\<close>

datatype attempt = Sent | Next | Failed

definition udp_server :: "'w os \<Rightarrow> dns_transmit \<Rightarrow> 'w system \<Rightarrow> (attempt \<times> dns_transmit \<times> 'w system) option" where
  "udp_server os d y =
     (let ip = server_ip d in
      if ip = replicate 16 0 then Some (Next, d, y)
      else do {
        (d, y) \<leftarrow> makequery os d y;
        let d = d\<lparr>d_s1type := server_type ip\<rparr>;
        if d_s1type d = XSOCKET_V6 \<and> d_flagipv4only d then Some (Next, d, y)
        else do {
          let (fd, w) = os_udp os (world y) (d_s1type d);
          let y = y\<lparr>world := w\<rparr>;
          let d = d\<lparr>d_s1 := 1 + fd\<rparr>;
          if d_s1 d = 0
          then if os_errno os (world y) = EPROTONOSUPPORT then Some (Next, d, y)
               else Some (Failed, dns_transmit_free os d y)
          else do {
            let (r, y) = randombind os d y;
            if r = - 1
            then if os_errno os (world y) = EPROTONOSUPPORT then Some (Next, d, y)
                 else Some (Failed, dns_transmit_free os d y)
            else do {
              q \<leftarrow> d_query d;
              m \<leftarrow> rd q 2 (d_querylen d - 2);
              let (r, w) = os_send os (world y) (d_s1 d - 1) (d_s1type d) m ip (d_port d) (d_scope_id d);
              let y = y\<lparr>world := w\<rparr>;
              if r = int (d_querylen d) - 2
              then let (now, w) = os_milliseconds os (world y)
                   in Some (Sent, d\<lparr>d_deadline := now + timeouts ! d_udploop d, d_tcpstate := 0\<rparr>, y\<lparr>world := w\<rparr>)
              else Some (Next, socketfree os d y) } } } })"

text \<open>Building a query changes neither the server it is for nor the round.\<close>

lemma basic_fields_unchanged:
  "regularquery os d y = Some (d', y') \<Longrightarrow> d_curserver d' = d_curserver d \<and> d_udploop d' = d_udploop d"
  "streamlinedquery os d y = Some (d', y') \<Longrightarrow> d_curserver d' = d_curserver d \<and> d_udploop d' = d_udploop d"
  "txtquery os d y = Some (d', y') \<Longrightarrow> d_curserver d' = d_curserver d \<and> d_udploop d' = d_udploop d"
  by (auto simp: regularquery_def streamlinedquery_def txtquery_def Let_def bind_eq_Some_conv case_prod_beta)

lemma makequery_unchanged:
  "makequery os d y = Some (d', y') \<Longrightarrow> d_curserver d' = d_curserver d \<and> d_udploop d' = d_udploop d"
  by (auto simp: makequery_def bind_eq_Some_conv dest: basic_fields_unchanged split: if_splits)

lemma free_unchanged [simp]:
  "d_curserver (queryfree d) = d_curserver d" "d_udploop (queryfree d) = d_udploop d"
  "d_curserver (packetfree d) = d_curserver d" "d_udploop (packetfree d) = d_udploop d"
  "d_curserver (fst (socketfree os d y)) = d_curserver d" "d_udploop (fst (socketfree os d y)) = d_udploop d"
  by (simp_all add: queryfree_def packetfree_def socketfree_def split: option.split)

lemma udp_server_unchanged:
  "udp_server os d y = Some (Next, d', y') \<Longrightarrow> d_curserver d' = d_curserver d \<and> d_udploop d' = d_udploop d"
  by (auto simp: udp_server_def Let_def bind_eq_Some_conv socketfree_def case_prod_beta dest!: makequery_unchanged split: if_splits)

function thisudp_loop :: "'w os \<Rightarrow> dns_transmit \<Rightarrow> 'w system \<Rightarrow> (int \<times> dns_transmit \<times> 'w system) option" where
  "thisudp_loop os d y =
     (if d_udploop d < 4
      then if d_curserver d < 16
           then case udp_server os d y of
                  None \<Rightarrow> None
                | Some (Sent, d, y) \<Rightarrow> Some (0, d, y)
                | Some (Failed, d, y) \<Rightarrow> Some (- 1, d, y)
                | Some (Next, d, y) \<Rightarrow> thisudp_loop os (d\<lparr>d_curserver := d_curserver d + 1\<rparr>) y
           else thisudp_loop os (d\<lparr>d_udploop := d_udploop d + 1, d_curserver := 0\<rparr>) y
      else Some (- 1, dns_transmit_free os d y))"
  by pat_completeness auto
termination
proof (relation "measures [\<lambda>(os, d, y). 4 - d_udploop d, \<lambda>(os, d, y). 16 - d_curserver d]")
qed (auto dest: udp_server_unchanged)

declare thisudp_loop.simps [simp del]

definition thisudp :: "'w os \<Rightarrow> dns_transmit \<Rightarrow> 'w system \<Rightarrow> (int \<times> dns_transmit \<times> 'w system) option" where
  "thisudp os d y = (let (d, y) = socketfree os d y in thisudp_loop os d y)"

definition firstudp :: "'w os \<Rightarrow> dns_transmit \<Rightarrow> 'w system \<Rightarrow> (int \<times> dns_transmit \<times> 'w system) option" where
  "firstudp os d y = thisudp os (d\<lparr>d_curserver := 0\<rparr>) y"

definition nextudp :: "'w os \<Rightarrow> dns_transmit \<Rightarrow> 'w system \<Rightarrow> (int \<times> dns_transmit \<times> 'w system) option" where
  "nextudp os d y = thisudp os (d\<lparr>d_curserver := d_curserver d + 1\<rparr>) y"

subsection \<open>TCP\<close>

definition tcp_server :: "'w os \<Rightarrow> dns_transmit \<Rightarrow> 'w system \<Rightarrow> (attempt \<times> dns_transmit \<times> 'w system) option" where
  "tcp_server os d y =
     (let ip = server_ip d in
      if ip = replicate 16 0 then Some (Next, d, y)
      else do {
        (d, y) \<leftarrow> makequery os d y;
        let d = d\<lparr>d_s1type := server_type ip\<rparr>;
        if d_s1type d = XSOCKET_V6 \<and> d_flagipv4only d then Some (Next, d, y)
        else
          let (fd, w) = os_tcp os (world y) (d_s1type d);
              y = y\<lparr>world := w\<rparr>;
              d = d\<lparr>d_s1 := 1 + fd\<rparr>
          in if d_s1 d = 0
          then if os_errno os (world y) = EPROTONOSUPPORT then Some (Next, d, y)
               else Some (Failed, dns_transmit_free os d y)
          else
            let (r, y) = randombind os d y
            in if r = - 1
            then if os_errno os (world y) = EPROTONOSUPPORT then Some (Next, d, y)
                 else Some (Failed, dns_transmit_free os d y)
            else
              let (now, w) = os_milliseconds os (world y);
                  d = d\<lparr>d_deadline := now + 10000\<rparr>;
                  (r, w) = os_connect os w (d_s1 d - 1) (d_s1type d) ip (d_port d) (d_scope_id d);
                  y = y\<lparr>world := w\<rparr>
              in if r = 0 then Some (Sent, d\<lparr>d_pos := 0, d_tcpstate := 2\<rparr>, y)
                 else if os_errno os (world y) = EINPROGRESS \<or> os_errno os (world y) = EWOULDBLOCK
                 then Some (Sent, d\<lparr>d_tcpstate := 1\<rparr>, y)
                 else Some (Next, socketfree os d y) })"

lemma tcp_server_unchanged:
  "tcp_server os d y = Some (Next, d', y') \<Longrightarrow> d_curserver d' = d_curserver d \<and> d_udploop d' = d_udploop d"
  by (auto simp: tcp_server_def Let_def bind_eq_Some_conv socketfree_def case_prod_beta dest!: makequery_unchanged split: if_splits)

function thistcp_loop :: "'w os \<Rightarrow> dns_transmit \<Rightarrow> 'w system \<Rightarrow> (int \<times> dns_transmit \<times> 'w system) option" where
  "thistcp_loop os d y =
     (if d_curserver d < 16
      then case tcp_server os d y of
             None \<Rightarrow> None
           | Some (Sent, d, y) \<Rightarrow> Some (0, d, y)
           | Some (Failed, d, y) \<Rightarrow> Some (- 1, d, y)
           | Some (Next, d, y) \<Rightarrow> thistcp_loop os (d\<lparr>d_curserver := d_curserver d + 1\<rparr>) y
      else Some (- 1, dns_transmit_free os d y))"
  by pat_completeness auto
termination
  by (relation "measure (\<lambda>(os, d, y). 16 - d_curserver d)") (auto dest: tcp_server_unchanged)

declare thistcp_loop.simps [simp del]

definition thistcp :: "'w os \<Rightarrow> dns_transmit \<Rightarrow> 'w system \<Rightarrow> (int \<times> dns_transmit \<times> 'w system) option" where
  "thistcp os d y = (let (d, y) = socketfree os d y in thistcp_loop os (packetfree d) y)"

definition firsttcp :: "'w os \<Rightarrow> dns_transmit \<Rightarrow> 'w system \<Rightarrow> (int \<times> dns_transmit \<times> 'w system) option" where
  "firsttcp os d y = thistcp os (d\<lparr>d_curserver := 0\<rparr>) y"

definition nexttcp :: "'w os \<Rightarrow> dns_transmit \<Rightarrow> 'w system \<Rightarrow> (int \<times> dns_transmit \<times> 'w system) option" where
  "nexttcp os d y = thistcp os (d\<lparr>d_curserver := d_curserver d + 1\<rparr>) y"

subsection \<open>Starting\<close>

definition sys_alloc :: "'w os \<Rightarrow> nat \<Rightarrow> 'w system \<Rightarrow> bytes option \<times> 'w system" where
  "sys_alloc os n y = (let (p, w) = os_alloc os (world y) n in (p, y\<lparr>world := w\<rparr>))"

text \<open>\<open>None\<close> stands for the null pointers among the arguments.\<close>

definition dns_transmit_startext :: "'w os \<Rightarrow> dns_transmit \<Rightarrow> bytes \<Rightarrow> bool \<Rightarrow> bool \<Rightarrow> bool \<Rightarrow> bytes \<Rightarrow> bytes \<Rightarrow>
    bytes option \<Rightarrow> bytes option \<Rightarrow> bytes option \<Rightarrow> bytes \<Rightarrow> bytes option \<Rightarrow> 'w system \<Rightarrow> (int \<times> dns_transmit \<times> 'w system) option" where
  "dns_transmit_startext os d servers flagrecursive flagtcp flagipv4only q qtype localip port keys pk sfx y =
     do { let (d, y) = dns_transmit_free os d y;
          let y = set_errno os EIO y;
          let sfx = (case sfx of None \<Rightarrow> [0] | Some x \<Rightarrow> x);
          suffixlen \<leftarrow> dns_domain_length sfx;
          len \<leftarrow> dns_domain_length q;
          let d = d\<lparr>d_paddinglen := (if keys = None then 0 else 3 * 64 - (len + 16) mod 64)\<rparr>;
          let (p, y) = sys_alloc os (if keys = None then len + 18 + d_paddinglen d
                                     else text_size (len + d_paddinglen d + 44) + suffixlen + 73) y;
          let d = d\<lparr>d_query := p\<rparr>;
          if p = None then Some (- 1, d, y)
          else do {
            let d = d\<lparr>d_qtype := take 2 qtype, d_servers := servers,
                      d_localip := (case localip of None \<Rightarrow> v4_prefix @ [0, 0, 0, 0] @ replicate 16 0 | Some x \<Rightarrow> take 32 x),
                      d_udploop := (if flagrecursive then 1 else 0), d_flagrecursive := flagrecursive,
                      d_flagipv4only := flagipv4only, d_name := Outside q, d_keys := keys, d_pk := pk, d_suffix := sfx,
                      d_port := (case port of None \<Rightarrow> uint16_pack_big 53 | Some x \<Rightarrow> take 2 x)\<rparr>;
            if len + 16 > 512 \<or> flagtcp then firsttcp os d y else firstudp os d y } }"

definition dns_transmit_start :: "'w os \<Rightarrow> dns_transmit \<Rightarrow> bytes \<Rightarrow> bool \<Rightarrow> bytes \<Rightarrow> bytes \<Rightarrow> bytes option \<Rightarrow> 'w system \<Rightarrow>
    (int \<times> dns_transmit \<times> 'w system) option" where
  "dns_transmit_start os d servers flagrecursive q qtype localip y =
     dns_transmit_startext os d servers flagrecursive False False q qtype localip None None [] None y"

subsection \<open>Waiting\<close>

datatype poll_event = POLLIN | POLLOUT

text \<open>The descriptor and event to wait for and the new deadline.\<close>

definition dns_transmit_io :: "dns_transmit \<Rightarrow> int \<Rightarrow> int \<times> poll_event option \<times> int" where
  "dns_transmit_io d deadline =
     (d_s1 d - 1,
      if d_tcpstate d \<in> {0, 3, 4, 5} then Some POLLIN else if d_tcpstate d \<in> {1, 2} then Some POLLOUT else None,
      if d_deadline d < deadline then d_deadline d else deadline)"

text \<open>The memory for the name of a question, asked of the allocator in \<open>irrelevant\<close> and freed there.\<close>

definition can_alloc :: "'w os \<Rightarrow> 'w system \<Rightarrow> nat \<Rightarrow> bool" where
  "can_alloc os y n \<longleftrightarrow> fst (os_alloc os (world y) n) \<noteq> None"

text \<open>\<open>dns_transmit_get\<close> in state 0: a datagram has arrived.\<close>

definition get_udp :: "'w os \<Rightarrow> dns_transmit \<Rightarrow> 'w system \<Rightarrow> (int \<times> dns_transmit \<times> 'w system) option" where
  "get_udp os d y =
     do { let (b, w) = os_recv os (world y) (d_s1 d - 1) (d_s1type d) 4097;
          let y = y\<lparr>world := w\<rparr>;
          case b of None \<Rightarrow> nextudp os d y
          | Some b \<Rightarrow>
            if b = [] then nextudp os d y
            else if length b + 1 > 4097 then Some (0, d, y)
            else do {
              (e, b, r) \<leftarrow> getquery d (magicr y) b (length b);
              if e \<noteq> 0 then Some (0, d, y)
              else do {
                let b = take r b;
                ir \<leftarrow> irrelevant (can_alloc os y) d b;
                if ir then Some (0, d, y)
                else do {
                  tcp \<leftarrow> serverwantstcp b;
                  if tcp then firsttcp os d y
                  else do {
                    (failed, y) \<leftarrow> serverfailed os b y;
                    if failed then nextudp os d y
                    else do {
                      let (d, y) = socketfree os d y;
                      let d = d\<lparr>d_packetlen := r\<rparr>;
                      let (p, y) = sys_alloc os r y;
                      case p of None \<Rightarrow> (let (d, y) = dns_transmit_free os (d\<lparr>d_packet := None\<rparr>) y in Some (- 1, d, y))
                      | Some p \<Rightarrow> do { p \<leftarrow> wr p 0 b; Some (1, queryfree (d\<lparr>d_packet := Some p\<rparr>), y) } } } } } } }"

text \<open>States 1 to 4: connecting, writing the query and reading the two bytes of the length.\<close>

definition get_connected :: "'w os \<Rightarrow> dns_transmit \<Rightarrow> 'w system \<Rightarrow> (int \<times> dns_transmit \<times> 'w system) option" where
  "get_connected os d y =
     (let (c, w) = os_connected os (world y) (d_s1 d - 1); y = y\<lparr>world := w\<rparr>
      in if \<not> c then nexttcp os d y else Some (0, d\<lparr>d_pos := 0, d_tcpstate := 2\<rparr>, y))"

definition get_write :: "'w os \<Rightarrow> dns_transmit \<Rightarrow> 'w system \<Rightarrow> (int \<times> dns_transmit \<times> 'w system) option" where
  "get_write os d y =
     do { q \<leftarrow> d_query d;
          m \<leftarrow> rd q (d_pos d) (d_querylen d - d_pos d);
          let (r, w) = os_write os (world y) (d_s1 d - 1) m;
          let y = y\<lparr>world := w\<rparr>;
          if r \<le> 0 then nexttcp os d y
          else do {
            let d = d\<lparr>d_pos := d_pos d + nat r\<rparr>;
            if d_pos d = d_querylen d
            then let (now, w) = os_milliseconds os (world y)
                 in Some (0, d\<lparr>d_deadline := now + 10000, d_tcpstate := 3\<rparr>, y\<lparr>world := w\<rparr>)
            else Some (0, d, y) } }"

definition get_length1 :: "'w os \<Rightarrow> dns_transmit \<Rightarrow> 'w system \<Rightarrow> (int \<times> dns_transmit \<times> 'w system) option" where
  "get_length1 os d y =
     (let (b, w) = os_read os (world y) (d_s1 d - 1) 1; y = y\<lparr>world := w\<rparr>
      in case b of None \<Rightarrow> nexttcp os d y | Some [] \<Rightarrow> nexttcp os d y
         | Some (ch # _) \<Rightarrow> Some (0, d\<lparr>d_packetlen := unat ch, d_tcpstate := 4\<rparr>, y))"

definition get_length2 :: "'w os \<Rightarrow> dns_transmit \<Rightarrow> 'w system \<Rightarrow> (int \<times> dns_transmit \<times> 'w system) option" where
  "get_length2 os d y =
     (let (b, w) = os_read os (world y) (d_s1 d - 1) 1; y = y\<lparr>world := w\<rparr>
      in case b of None \<Rightarrow> nexttcp os d y | Some [] \<Rightarrow> nexttcp os d y
         | Some (ch # _) \<Rightarrow>
           let d = d\<lparr>d_packetlen := d_packetlen d * 256 + unat ch, d_tcpstate := 5, d_pos := 0\<rparr>;
               (p, y) = sys_alloc os (d_packetlen d) y;
               d = d\<lparr>d_packet := p\<rparr>
           in if p = None then (let (d, y) = dns_transmit_free os d y in Some (- 1, d, y)) else Some (0, d, y))"

text \<open>State 5: more of the packet, and what is done when it is complete.\<close>

definition get_complete :: "'w os \<Rightarrow> dns_transmit \<Rightarrow> bytes \<Rightarrow> 'w system \<Rightarrow> (int \<times> dns_transmit \<times> 'w system) option" where
  "get_complete os d p y =
     do { let (d, y) = socketfree os d y;
          (e, p, n) \<leftarrow> getquery d (magicr y) p (d_packetlen d);
          let d = d\<lparr>d_packet := Some p, d_packetlen := n\<rparr>;
          if e \<noteq> 0 then nexttcp os d y
          else do {
            ir \<leftarrow> irrelevant (can_alloc os y) d (take n p);
            if ir then nexttcp os d y
            else do {
              tcp \<leftarrow> serverwantstcp (take n p);
              if tcp then nexttcp os d y
              else do {
                (failed, y) \<leftarrow> serverfailed os (take n p) y;
                if failed then nexttcp os d y else Some (1, queryfree d, y) } } } }"

definition get_packet :: "'w os \<Rightarrow> dns_transmit \<Rightarrow> 'w system \<Rightarrow> (int \<times> dns_transmit \<times> 'w system) option" where
  "get_packet os d y =
     do { let (b, w) = os_read os (world y) (d_s1 d - 1) (d_packetlen d - d_pos d);
          let y = y\<lparr>world := w\<rparr>;
          case b of None \<Rightarrow> nexttcp os d y
          | Some b \<Rightarrow>
            if b = [] then nexttcp os d y
            else do {
              p \<leftarrow> d_packet d;
              p \<leftarrow> wr p (d_pos d) b;
              let d = d\<lparr>d_packet := Some p, d_pos := d_pos d + length b\<rparr>;
              if d_pos d < d_packetlen d then Some (0, d, y) else get_complete os d p y } }"

text \<open>\<open>revents\<close> is whether \<open>poll\<close> reported an event.\<close>

definition dns_transmit_get :: "'w os \<Rightarrow> dns_transmit \<Rightarrow> bool \<Rightarrow> int \<Rightarrow> 'w system \<Rightarrow> (int \<times> dns_transmit \<times> 'w system) option" where
  "dns_transmit_get os d revents when y =
     (let y = set_errno os EIO y in
      if \<not> revents
      then if when < d_deadline d then Some (0, d, y)
           else let y = set_errno os ETIMEDOUT y in if d_tcpstate d = 0 then nextudp os d y else nexttcp os d y
      else if d_tcpstate d = 0 then get_udp os d y
      else if d_tcpstate d = 1 then get_connected os d y
      else if d_tcpstate d = 2 then get_write os d y
      else if d_tcpstate d = 3 then get_length1 os d y
      else if d_tcpstate d = 4 then get_length2 os d y
      else if d_tcpstate d = 5 then get_packet os d y
      else Some (0, d, y))"

end
