(* ===== verification/TransmitRun.thy ===== *)
theory TransmitRun
  imports DnsTransmit
begin

text \<open>
  The invariant of a transmission (\<open>dq/dns_transmit.c\<close>), that every call of \<open>dns_transmit_startext\<close> and
  \<open>dns_transmit_get\<close> keeps it, and what a call may result in.
\<close>

section \<open>Assumptions and invariants\<close>

text \<open>
  What the code relies on: \<open>randombytes\<close> fills its buffer, \<open>alloc\<close> delivers a block of the size asked for or
  fails, \<open>read\<close> and \<open>write\<close> transfer at most the bytes asked for.
\<close>

definition os_ok :: "'w os \<Rightarrow> bool" where
  "os_ok os \<longleftrightarrow> (\<forall>w n. length (fst (os_random os w n)) = n) \<and>
     (\<forall>w n p. fst (os_alloc os w n) = Some p \<longrightarrow> length p = n) \<and>
     (\<forall>w fd n b. fst (os_read os w fd n) = Some b \<longrightarrow> length b \<le> n) \<and>
     (\<forall>w fd b. fst (os_write os w fd b) \<le> int (length b))"

definition sys_ok :: "'w system \<Rightarrow> bool" where
  "sys_ok y \<longleftrightarrow> length (magicq y) = 8 \<and> length (magicr y) = 8"

text \<open>
  Of the servers that have an address none has a key (in particular when the array of keys is the null pointer), or all have one.
  A list that mixes the two, which \<open>query.c\<close> can build, is not \<open>uniform\<close>: for such lists \<open>dns_transmit.c\<close> goes
  wrong (\<open>TransmitProps\<close>), so that what holds of a whole transmission holds for uniform lists.
\<close>

definition plain :: "bytes \<Rightarrow> bytes option \<Rightarrow> bool" where
  "plain servers ks \<longleftrightarrow>
     (case ks of None \<Rightarrow> True | Some k \<Rightarrow> \<forall>i < 16. mem_read servers (16 * i) 16 \<noteq> replicate 16 0 \<longrightarrow> k ! (33 * i) = 0)"

definition keyed :: "bytes \<Rightarrow> bytes option \<Rightarrow> bool" where
  "keyed servers ks \<longleftrightarrow>
     (case ks of None \<Rightarrow> False | Some k \<Rightarrow> \<forall>i < 16. mem_read servers (16 * i) 16 \<noteq> replicate 16 0 \<longrightarrow> k ! (33 * i) \<noteq> 0)"

definition uniform :: "bytes \<Rightarrow> bytes option \<Rightarrow> bool" where
  "uniform servers ks \<longleftrightarrow> plain servers ks \<or> keyed servers ks"

text \<open>The arguments of a transmission for the name \<open>ls\<close> with the suffix \<open>sl\<close>.\<close>

definition tx_setup :: "bytes list \<Rightarrow> bytes list \<Rightarrow> dns_transmit \<Rightarrow> bool" where
  "tx_setup ls sl d \<longleftrightarrow> list_all is_label ls \<and> length (d_qtype d) = 2 \<and>
     (case d_keys d of None \<Rightarrow> True
      | Some k \<Rightarrow> length k = 528 \<and> length (d_pk d) = 32 \<and> list_all is_label sl \<and> (\<exists>r. d_suffix d = dn_of sl @ r) \<and>
          uniform (d_servers d) (d_keys d))"

text \<open>The room \<open>dns_transmit_startext\<close> allocates.\<close>

definition query_room :: "bytes list \<Rightarrow> bytes list \<Rightarrow> bytes option \<Rightarrow> nat" where
  "query_room ls sl ks =
     (let n = length (dn_of ls) in
      if ks = None then n + 18 else text_size (n + (192 - (n + 16) mod 64) + 44) + length (dn_of sl) + 73)"

definition tx_ready :: "bytes list \<Rightarrow> bytes list \<Rightarrow> dns_transmit \<Rightarrow> bool" where
  "tx_ready ls sl d \<longleftrightarrow> tx_setup ls sl d \<and>
     (\<exists>q. d_query d = Some q \<and> query_room ls sl (d_keys d) \<le> length q \<and>
        (if plain (d_servers d) (d_keys d) then own_name (d_name d) q ls else (\<exists>r. d_name d = Outside (dn_of ls @ r))))"

text \<open>The fields that building a query may change.\<close>

definition new_query :: "dns_transmit \<Rightarrow> dns_transmit \<Rightarrow> bool" where
  "new_query d d' \<longleftrightarrow> d_packet d' = d_packet d \<and> d_packetlen d' = d_packetlen d \<and> d_s1 d' = d_s1 d \<and> d_s1type d' = d_s1type d \<and>
     d_tcpstate d' = d_tcpstate d \<and> d_udploop d' = d_udploop d \<and> d_curserver d' = d_curserver d \<and> d_deadline d' = d_deadline d \<and>
     d_pos d' = d_pos d \<and> d_servers d' = d_servers d \<and> d_localip d' = d_localip d \<and> d_qtype d' = d_qtype d \<and> d_port d' = d_port d \<and>
     d_scope_id d' = d_scope_id d \<and> d_keys d' = d_keys d \<and> d_pk d' = d_pk d \<and> d_suffix d' = d_suffix d \<and>
     d_flagrecursive d' = d_flagrecursive d \<and> d_flagipv4only d' = d_flagipv4only d"

lemma new_query_key: "new_query d d' \<Longrightarrow> key_byte d' = key_byte d \<and> key_bytes d' = key_bytes d"
  by (simp add: new_query_def key_byte_def key_bytes_def cong: option.case_cong)

lemma new_query_setup: "new_query d d' \<Longrightarrow> tx_setup ls sl d' = tx_setup ls sl d"
  by (simp add: tx_setup_def new_query_def cong: option.case_cong)

text \<open>The message a query carries to the server, in the three forms.\<close>

definition carries :: "bytes \<Rightarrow> bytes list \<Rightarrow> bytes list \<Rightarrow> dns_transmit \<Rightarrow> bytes \<Rightarrow> bool" where
  "carries mq ls sl d pkt \<longleftrightarrow>
     (if key_byte d = Some 0 then pkt = base_message d ls
      else if key_byte d \<noteq> Some 2 then
        (\<exists>c. pkt = mq @ d_pk d @ d_nonce d @ c \<and>
           crypto_secretbox_open (replicate 16 0 @ c) (d_nonce d @ replicate 12 0) (key_bytes d) = Some (replicate 32 0 @ base_message d ls))
      else (\<exists>i c. length i = 2 \<and>
           pkt = i @ query_header False @ dns_base32_encodebytes (d_nonce d @ c) @ dns_base32_encodekey (d_pk d) @ dn_of sl @ [0, 16, 0, 1] \<and>
           crypto_secretbox_open (replicate 16 0 @ c) (d_nonce d @ replicate 12 0) (key_bytes d) = Some (replicate 32 0 @ base_message d ls)))"

lemma carries_txtI:
  "key_byte d = Some 2 \<Longrightarrow> length i = 2 \<Longrightarrow>
   pkt = i @ query_header False @ dns_base32_encodebytes (d_nonce d @ c) @ dns_base32_encodekey (d_pk d) @ dn_of sl @ [0, 16, 0, 1] \<Longrightarrow>
   crypto_secretbox_open (replicate 16 0 @ c) (d_nonce d @ replicate 12 0) (key_bytes d) = Some (replicate 32 0 @ base_message d ls) \<Longrightarrow>
   carries mq ls sl d pkt"
  unfolding carries_def by auto

definition query_built :: "bytes \<Rightarrow> bytes list \<Rightarrow> bytes list \<Rightarrow> dns_transmit \<Rightarrow> bool" where
  "query_built mq ls sl d \<longleftrightarrow> length (d_id d) = 2 \<and> (key_byte d \<noteq> Some 0 \<longrightarrow> length (d_nonce d) = 12) \<and>
     (\<exists>q. d_query d = Some q \<and> 18 \<le> d_querylen d \<and> d_querylen d \<le> length q \<and>
        take 2 q = uint16_pack_big (of_nat (d_querylen d - 2)) \<and> carries mq ls sl d (mem_read q 2 (d_querylen d - 2)))"

lemma query_room_keyed:
  "ks \<noteq> None \<Longrightarrow> length (dn_of ls) + 278 - (length (dn_of ls) + 16) mod 64 \<le> query_room ls sl ks \<and>
    text_size (length (dn_of ls) + 44) + length (dn_of sl) + 73 \<le> query_room ls sl ks"
proof -
  assume k: "ks \<noteq> None"
  define n where "n = length (dn_of ls)"
  define e where "e = (n + 16) mod 64"
  have e: "e < 64" by (simp add: e_def)
  have r: "query_room ls sl ks = text_size (n + (192 - e) + 44) + length (dn_of sl) + 73"
    unfolding query_room_def Let_def n_def e_def by (rule if_not_P [OF k])
  have "text_size 0 + (n + (192 - e) + 44) \<le> text_size (n + (192 - e) + 44)" using text_size_step [of 0 "n + (192 - e) + 44"] by simp
  moreover have "text_size (n + 44) + (n + (192 - e) + 44 - (n + 44)) \<le> text_size (n + (192 - e) + 44)" by (rule text_size_step) simp
  ultimately show ?thesis unfolding r n_def [symmetric] e_def [symmetric] using e by linarith
qed

lemma packet_of: "2 \<le> n \<Longrightarrow> n \<le> length q \<Longrightarrow> take n q = a @ b \<Longrightarrow> length a = 2 \<Longrightarrow> take 2 q = a \<and> mem_read q 2 (n - 2) = b"
  by (metis append_eq_conv_conj drop_take mem_read_def take_take min.absorb1)

lemma makequery_magic:
  assumes "makequery os d y = Some (d', y')"
  shows "magicq y' = magicq y \<and> magicr y' = magicr y"
proof -
  have r: "magicq (snd (sys_random os n z)) = magicq z" "magicr (snd (sys_random os n z)) = magicr z" for n z
    by (simp_all add: sys_random_def case_prod_beta)
  have n: "magicq (snd (sys_nonce os z)) = magicq z" "magicr (snd (sys_nonce os z)) = magicr z" for z
    by (simp_all add: sys_nonce_def case_prod_beta)
  show ?thesis using assms
    by (auto simp: makequery_def regularquery_def streamlinedquery_def txtquery_def Let_def bind_eq_Some_conv case_prod_beta r n split: if_splits)
qed

text \<open>One lemma for each form: from a buffer with room the query is built and complete.\<close>

lemma regular_built:
  assumes "d_query d = Some q" "own_name (d_name d) q ls" "length (d_qtype d) = 2" "18 + length (dn_of ls) \<le> length q"
    and "os_ok os" "key_byte d = Some 0"
  shows "\<exists>d' y' q'. makequery os d y = Some (d', y') \<and> d_query d' = Some q' \<and> length q' = length q \<and> new_query d d' \<and>
    d_name d' = Inside 14 \<and> own_name (d_name d') q' ls \<and> query_built (magicq y) ls sl d'"
proof -
  have rb: "length (fst (os_random os w n)) = n" for w n using assms(5) by (simp add: os_ok_def)
  obtain d' y' q' where r: "regularquery os d y = Some (d', y')" "d_query d' = Some q'" "length q' = length q"
    "length (d_id d') = 2" "d_querylen d' = length (dn_of ls) + 18"
    "take (d_querylen d') q' = uint16_pack_big (of_nat (16 + length (dn_of ls))) @ base_message d' ls"
    "own_name (d_name d') q' ls"
    "d' = d\<lparr>d_paddinglen := 0, d_querylen := d_querylen d', d_id := d_id d', d_query := Some q', d_name := Inside 14\<rparr>"
    by (insert regularquery_ok [where y = y, OF assms(1-4) rb], elim exE conjE, rule that, assumption+)
  have nq: "new_query d d'" "d_name d' = Inside 14" by (subst r(8), simp add: new_query_def)+
  have "take 2 q' = uint16_pack_big (of_nat (16 + length (dn_of ls))) \<and> mem_read q' 2 (d_querylen d' - 2) = base_message d' ls"
    using packet_of [OF _ _ r(6)] r(3,5) assms(4) by simp
  then have "query_built (magicq y) ls sl d'"
    using r(2-5) assms(4,6) new_query_key [OF nq(1)] by (simp add: query_built_def carries_def)
  with nq r(1-3,7) assms(6) show ?thesis by (intro exI [of _ d'] exI [of _ y'] exI [of _ q']) (simp add: makequery_def)
qed

lemma streamlined_built:
  assumes "d_query d = Some q" "own_name (d_name d) q ls" "(\<exists>b. d_name d = Outside b) \<or> length (dn_of ls) \<le> 24"
    and "length (d_qtype d) = 2" "length (d_pk d) = 32" "length (dn_of ls) + 278 - (length (dn_of ls) + 16) mod 64 \<le> length q"
    and "os_ok os" "sys_ok y" "key_byte d = Some k" "k \<noteq> 0" "k \<noteq> 2" "length (key_bytes d) = 32"
  shows "\<exists>d' y' q'. makequery os d y = Some (d', y') \<and> d_query d' = Some q' \<and> length q' = length q \<and> new_query d d' \<and>
    d_name d' = d_name d \<and> mem_read q' 10 32 = d_pk d \<and> query_built (magicq y) ls sl d'"
proof -
  have rb: "length (fst (os_random os w n)) = n" for w n using assms(7) by (simp add: os_ok_def)
  have mq: "length (magicq y) = 8" using assms(8) by (simp add: sys_ok_def)
  let ?n = "length (dn_of ls)"
  obtain d' y' q' c where r: "streamlinedquery os d y = Some (d', y')" "d_query d' = Some q'" "length q' = length q"
    "length (d_id d') = 2" "length (d_nonce d') = 12" "d_querylen d' = ?n + d_paddinglen d' + 86"
    "crypto_secretbox_open c (d_nonce d' @ replicate 12 0) (key_bytes d) = Some (replicate 32 0 @ base_message d' ls)"
    "take 16 c = replicate 16 0"
    "take (d_querylen d') q' = uint16_pack_big (of_nat (?n + d_paddinglen d' + 84)) @ magicq y @ d_pk d @ d_nonce d' @ drop 16 c"
    "d' = d\<lparr>d_paddinglen := d_paddinglen d', d_querylen := d_querylen d', d_nonce := d_nonce d', d_id := d_id d', d_query := Some q'\<rparr>"
    "length c = ?n + d_paddinglen d' + 48"
    by (insert streamlinedquery_ok [OF assms(1-4) mq assms(5,12,6) rb], elim exE conjE, rule that, assumption+)
  have nq: "new_query d d'" "d_name d' = d_name d" "d_pk d' = d_pk d" by (subst r(10), simp add: new_query_def)+
  have ql: "d_querylen d' \<le> length q'" using arg_cong [OF r(9), of length] mq assms(5) r(5,6,11) by simp
  have e: "?n + d_paddinglen d' + 84 = d_querylen d' - 2" "18 \<le> d_querylen d'" using r(6) by simp_all
  have b: "take 2 q' = uint16_pack_big (of_nat (d_querylen d' - 2)) \<and>
      mem_read q' 2 (d_querylen d' - 2) = magicq y @ d_pk d @ d_nonce d' @ drop 16 c"
    by (rule packet_of [OF _ ql r(9) [unfolded e(1)]]) (use e(2) in simp_all)
  moreover have "replicate 16 0 @ drop 16 c = c" unfolding r(8) [symmetric] by simp
  ultimately have "query_built (magicq y) ls sl d'"
    using r(2-5,7) e(2) ql assms(9-11) nq(3) new_query_key [OF nq(1)]
    by (auto simp: query_built_def carries_def intro!: exI [of _ "drop 16 c"])
  moreover have "mem_read q' 10 32 = mem_read (mem_read q' 2 (d_querylen d' - 2)) 8 32" using r(6) by (simp add: mem_read_def drop_take)
  moreover have "\<dots> = d_pk d" using b mq assms(5) by (simp add: mem_read_def)
  moreover have "makequery os d y = Some (d', y')" using r(1) assms(9-11) by (simp add: makequery_def)
  ultimately show ?thesis using nq(1,2) r(2,3) by (intro exI [of _ d'] exI [of _ y'] exI [of _ q']) simp
qed

lemma txt_built:
  assumes "d_query d = Some q" "d_name d = Outside (dn_of ls @ x)" "list_all is_label ls"
    and "length (d_qtype d) = 2" "length (d_pk d) = 32" "d_suffix d = dn_of sl @ x'" "list_all is_label sl"
    and "text_size (length (dn_of ls) + 44) + length (dn_of sl) + 73 \<le> length q" "os_ok os" "key_byte d = Some 2"
      "length (key_bytes d) = 32"
  shows "\<exists>d' y' q'. makequery os d y = Some (d', y') \<and> d_query d' = Some q' \<and> length q' = length q \<and> new_query d d' \<and>
    d_name d' = d_name d \<and> query_built (magicq y) ls sl d'"
proof -
  have rb: "length (fst (os_random os w n)) = n" for w n using assms(9) by (simp add: os_ok_def)
  let ?n = "length (dn_of ls)"
  obtain d' y' q' c i where r: "txtquery os d y = Some (d', y')" "d_query d' = Some q'" "length q' = length q"
    "length (d_id d') = 2" "length (d_nonce d') = 12" "length i = 2" "d_querylen d' = text_size (?n + 44) + length (dn_of sl) + 73"
    "crypto_secretbox_open c (d_nonce d' @ replicate 12 0) (key_bytes d) = Some (replicate 32 0 @ base_message d' ls)"
    "take 16 c = replicate 16 0"
    "take (d_querylen d') q' = uint16_pack_big (of_nat (d_querylen d' - 2)) @ i @ query_header False @
       dns_base32_encodebytes (d_nonce d' @ drop 16 c) @ dns_base32_encodekey (d_pk d) @ dn_of sl @ [0, 16, 0, 1]"
    "d' = d\<lparr>d_paddinglen := 0, d_querylen := d_querylen d', d_nonce := d_nonce d', d_id := d_id d', d_query := Some q'\<rparr>"
    by (insert txtquery_ok [where y = y, OF assms(1-5,11,6-8) rb], elim exE conjE, rule that, assumption+)
  have nq: "new_query d d'" "d_name d' = d_name d" "d_pk d' = d_pk d" by (subst r(11), simp add: new_query_def)+
  have ql: "d_querylen d' \<le> length q'" "18 \<le> d_querylen d'" using r(3,7) assms(8) by simp_all
  have "take 2 q' = uint16_pack_big (of_nat (d_querylen d' - 2)) \<and> mem_read q' 2 (d_querylen d' - 2) = i @ query_header False @
       dns_base32_encodebytes (d_nonce d' @ drop 16 c) @ dns_base32_encodekey (d_pk d) @ dn_of sl @ [0, 16, 0, 1]"
    by (rule packet_of [OF _ ql(1) r(10)]) (use r(7) in simp_all)
  moreover have "replicate 16 0 @ drop 16 c = c" unfolding r(9) [symmetric] by simp
  ultimately have "carries (magicq y) ls sl d' (mem_read q' 2 (d_querylen d' - 2)) \<and> take 2 q' = uint16_pack_big (of_nat (d_querylen d' - 2))"
    using new_query_key [OF nq(1)] nq(3) assms(10) r(6,8) by (simp del: of_nat_diff) (intro carries_txtI [of d' i _ "drop 16 c"], simp_all)
  then have "query_built (magicq y) ls sl d'" using r(2,4,5) ql by (simp add: query_built_def)
  moreover have "makequery os d y = Some (d', y')" using r(1) assms(10) by (simp add: makequery_def)
  ultimately show ?thesis using nq(1,2) r(2,3) by blast
qed

lemma key_length:
  assumes "d_keys d = Some k" "length k = 528" "d_curserver d < 16"
  shows "length (key_bytes d) = 32"
  using assms by (simp add: key_bytes_def)

text \<open>
  One call, whatever the other servers are: the name is where it was given or, for a query without a key, the one in the
  query itself.
\<close>

lemma makequery_builds:
  assumes q: "d_query d = Some q" "query_room ls sl (d_keys d) \<le> length q" and l: "list_all is_label ls" "length (d_qtype d) = 2"
    and c: "d_curserver d < 16" "os_ok os" "sys_ok y"
    and k: "\<And>k. d_keys d = Some k \<Longrightarrow> length k = 528 \<and> length (d_pk d) = 32 \<and> list_all is_label sl \<and> (\<exists>r. d_suffix d = dn_of sl @ r)"
    and n: "own_name (d_name d) q ls" "key_byte d \<noteq> Some 0 \<Longrightarrow> \<exists>r. d_name d = Outside (dn_of ls @ r)"
  shows "\<exists>d' y' q'. makequery os d y = Some (d', y') \<and> d_query d' = Some q' \<and> length q' = length q \<and> new_query d d' \<and>
      (if key_byte d = Some 0 then own_name (d_name d') q' ls else d_name d' = d_name d) \<and> query_built (magicq y) ls sl d'"
proof (cases "key_byte d = Some 0")
  case True
  have "length (dn_of ls) + 18 \<le> length q"
  proof (cases "d_keys d = None")
    case True
    then show ?thesis using q(2) by (simp add: query_room_def Let_def)
  next
    case False
    have "(length (dn_of ls) + 16) mod 64 < 64" by simp
    then show ?thesis using query_room_keyed [OF False, of ls sl] q(2) by linarith
  qed
  then show ?thesis
    using regular_built [OF q(1) n(1) l(2) _ c(2) True, of y sl] True by auto
next
  case False
  then obtain k where Some: "d_keys d = Some k" by (cases "d_keys d") (auto simp: key_byte_def)
  note K = k [OF Some]
  obtain x x' where s: "d_name d = Outside (dn_of ls @ x)" "d_suffix d = dn_of sl @ x'" using n(2) [OF False] K by blast
  have kl: "length (key_bytes d) = 32" using key_length [OF Some] K c(1) by simp
  have kb: "key_byte d = Some (k ! (33 * d_curserver d))" using K c(1) Some by (simp add: key_byte_def)
  have room: "length (dn_of ls) + 278 - (length (dn_of ls) + 16) mod 64 \<le> length q"
      "text_size (length (dn_of ls) + 44) + length (dn_of sl) + 73 \<le> length q"
    using query_room_keyed [of "d_keys d" ls sl] Some q(2) by simp_all
  have o: "(\<exists>b. d_name d = Outside b) \<or> length (dn_of ls) \<le> 24" using s(1) by simp
  show ?thesis
  proof (cases "k ! (33 * d_curserver d) = 2")
    case True
    then show ?thesis
      using txt_built [OF q(1) s(1) l _ s(2) _ room(2) c(2) _ kl, of y] K kb False by auto
  next
    case 2: False
    show ?thesis
      using streamlined_built [OF q(1) n(1) o l(2) _ room(1) c(2,3) kb _ 2 kl, of sl] K kb False by fastforce
  qed
qed

lemma makequery_ready:
  assumes "tx_ready ls sl d" "sys_ok y" "os_ok os" "d_curserver d < 16" "server_ip d \<noteq> replicate 16 0"
  shows "\<exists>d' y'. makequery os d y = Some (d', y') \<and> tx_ready ls sl d' \<and> sys_ok y' \<and> magicq y' = magicq y \<and>
    query_built (magicq y) ls sl d' \<and> new_query d d'"
proof -
  obtain q where q: "d_query d = Some q" "query_room ls sl (d_keys d) \<le> length q"
      and nm: "if plain (d_servers d) (d_keys d) then own_name (d_name d) q ls else (\<exists>r. d_name d = Outside (dn_of ls @ r))"
      and su: "tx_setup ls sl d"
    using assms(1) unfolding tx_ready_def by blast
  have lb: "list_all is_label ls" "length (d_qtype d) = 2" using su by (simp_all add: tx_setup_def)
  have pl: "key_byte d = Some 0 \<longleftrightarrow> plain (d_servers d) (d_keys d)"
    using su assms(4,5) by (auto simp: key_byte_def plain_def keyed_def uniform_def tx_setup_def server_ip_def split: option.splits)
  have "own_name (d_name d) q ls" using nm lb by (cases "plain (d_servers d) (d_keys d)") (auto simp: own_name_def)
  moreover have "length k = 528 \<and> length (d_pk d) = 32 \<and> list_all is_label sl \<and> (\<exists>r. d_suffix d = dn_of sl @ r)" if "d_keys d = Some k" for k
    using su that by (simp add: tx_setup_def)
  moreover have "\<exists>r. d_name d = Outside (dn_of ls @ r)" if "key_byte d \<noteq> Some 0" using nm that pl by simp
  ultimately obtain d' y' q' where m: "makequery os d y = Some (d', y')" "d_query d' = Some q'" "length q' = length q" "new_query d d'"
      "if plain (d_servers d) (d_keys d) then own_name (d_name d') q' ls else d_name d' = d_name d" "query_built (magicq y) ls sl d'"
    using makequery_builds [OF q lb assms(4,3,2)] unfolding pl by blast
  then have "tx_ready ls sl d'"
    using q nm su unfolding tx_ready_def new_query_setup [OF m(4)] by (auto simp: new_query_def)
  then show ?thesis using m makequery_magic [OF m(1)] assms(2) by (auto simp: sys_ok_def)
qed

subsection \<open>One round over the servers\<close>

lemma tx_ready_upd [simp]:
  "tx_ready ls sl (d\<lparr>d_s1 := a\<rparr>) = tx_ready ls sl d" "tx_ready ls sl (d\<lparr>d_s1type := b\<rparr>) = tx_ready ls sl d"
  "tx_ready ls sl (d\<lparr>d_curserver := b\<rparr>) = tx_ready ls sl d" "tx_ready ls sl (d\<lparr>d_udploop := b\<rparr>) = tx_ready ls sl d"
  "tx_ready ls sl (d\<lparr>d_deadline := a\<rparr>) = tx_ready ls sl d" "tx_ready ls sl (d\<lparr>d_tcpstate := b\<rparr>) = tx_ready ls sl d"
  "tx_ready ls sl (d\<lparr>d_pos := b\<rparr>) = tx_ready ls sl d" "tx_ready ls sl (d\<lparr>d_packet := p\<rparr>) = tx_ready ls sl d"
  "tx_ready ls sl (d\<lparr>d_packetlen := b\<rparr>) = tx_ready ls sl d"
  by (simp_all add: tx_ready_def tx_setup_def cong: option.case_cong)

lemma base_message_upd [simp]:
  "base_message (d\<lparr>d_s1 := a\<rparr>) ls = base_message d ls" "base_message (d\<lparr>d_s1type := b\<rparr>) ls = base_message d ls"
  "base_message (d\<lparr>d_deadline := a\<rparr>) ls = base_message d ls" "base_message (d\<lparr>d_tcpstate := b\<rparr>) ls = base_message d ls"
  "base_message (d\<lparr>d_pos := b\<rparr>) ls = base_message d ls" "base_message (d\<lparr>d_packet := p\<rparr>) ls = base_message d ls"
  "base_message (d\<lparr>d_packetlen := b\<rparr>) ls = base_message d ls"
  by (simp_all add: base_message_def)

lemma key_upd [simp]:
  "key_byte (d\<lparr>d_s1 := a\<rparr>) = key_byte d" "key_byte (d\<lparr>d_s1type := b\<rparr>) = key_byte d"
  "key_byte (d\<lparr>d_deadline := a\<rparr>) = key_byte d" "key_byte (d\<lparr>d_tcpstate := b\<rparr>) = key_byte d"
  "key_byte (d\<lparr>d_pos := b\<rparr>) = key_byte d" "key_byte (d\<lparr>d_packet := p\<rparr>) = key_byte d" "key_byte (d\<lparr>d_packetlen := b\<rparr>) = key_byte d"
  "key_bytes (d\<lparr>d_s1 := a\<rparr>) = key_bytes d" "key_bytes (d\<lparr>d_s1type := b\<rparr>) = key_bytes d"
  "key_bytes (d\<lparr>d_deadline := a\<rparr>) = key_bytes d" "key_bytes (d\<lparr>d_tcpstate := b\<rparr>) = key_bytes d"
  "key_bytes (d\<lparr>d_pos := b\<rparr>) = key_bytes d" "key_bytes (d\<lparr>d_packet := p\<rparr>) = key_bytes d" "key_bytes (d\<lparr>d_packetlen := b\<rparr>) = key_bytes d"
  by (simp_all add: key_byte_def key_bytes_def cong: option.case_cong)

lemma query_built_upd [simp]:
  "query_built mq ls sl (d\<lparr>d_s1 := a\<rparr>) = query_built mq ls sl d" "query_built mq ls sl (d\<lparr>d_s1type := b\<rparr>) = query_built mq ls sl d"
  "query_built mq ls sl (d\<lparr>d_deadline := a\<rparr>) = query_built mq ls sl d" "query_built mq ls sl (d\<lparr>d_tcpstate := b\<rparr>) = query_built mq ls sl d"
  "query_built mq ls sl (d\<lparr>d_pos := b\<rparr>) = query_built mq ls sl d" "query_built mq ls sl (d\<lparr>d_packet := p\<rparr>) = query_built mq ls sl d"
  "query_built mq ls sl (d\<lparr>d_packetlen := b\<rparr>) = query_built mq ls sl d"
  by (simp_all add: query_built_def carries_def)

text \<open>
  The state between two calls while a query is out, with what the comments in \<open>dns_transmit_get\<close> say of
  each \<open>tcpstate\<close>; and the state after everything was freed.
\<close>

definition tx_waiting :: "bytes \<Rightarrow> bytes list \<Rightarrow> bytes list \<Rightarrow> dns_transmit \<Rightarrow> bool" where
  "tx_waiting mq ls sl d \<longleftrightarrow> tx_ready ls sl d \<and> query_built mq ls sl d \<and> d_s1 d \<noteq> 0 \<and> d_curserver d < 16 \<and> d_tcpstate d \<le> 5 \<and>
     (d_tcpstate d = 0 \<longrightarrow> d_udploop d < 4) \<and> (d_tcpstate d = 2 \<longrightarrow> d_pos d < d_querylen d) \<and> (d_tcpstate d = 4 \<longrightarrow> d_packetlen d < 256) \<and>
     (d_tcpstate d = 5 \<longrightarrow> (\<exists>p. d_packet d = Some p \<and> length p = d_packetlen d \<and> d_pos d \<le> d_packetlen d))"

definition tx_freed :: "dns_transmit \<Rightarrow> bool" where
  "tx_freed d \<longleftrightarrow> d_query d = None \<and> d_packet d = None \<and> d_s1 d = 0"

definition turn :: "dns_transmit \<Rightarrow> nat" where
  "turn d = 16 * d_udploop d + d_curserver d"

lemma free_freed: "dns_transmit_free os d y = (d', y') \<Longrightarrow> tx_freed d' \<and> magicq y' = magicq y \<and> magicr y' = magicr y"
  by (auto simp: dns_transmit_free_def Let_def queryfree_def packetfree_def socketfree_def tx_freed_def split: option.splits if_splits)

lemma socketfree_ok:
  "socketfree os d y = (d', y') \<Longrightarrow> (tx_ready ls sl d' \<longleftrightarrow> tx_ready ls sl d) \<and> d_curserver d' = d_curserver d \<and> d_udploop d' = d_udploop d \<and>
     d_s1 d' = 0 \<and> d_packet d' = d_packet d \<and> d_packetlen d' = d_packetlen d \<and> magicq y' = magicq y \<and> magicr y' = magicr y"
  by (auto simp: socketfree_def split: if_splits)

lemma bind_port_magic: "bind_port os d port y = (r, y') \<Longrightarrow> magicq y' = magicq y \<and> magicr y' = magicr y"
  by (auto simp: bind_port_def Let_def split: prod.splits)

lemma bind_tries_magic: "bind_tries n os d y = (r, y') \<Longrightarrow> magicq y' = magicq y \<and> magicr y' = magicr y"
  by (induction n arbitrary: y) (fastforce dest!: bind_port_magic split: prod.splits if_splits)+

lemma udp_server_ok:
  assumes "tx_ready ls sl d" "sys_ok y" "os_ok os" "d_curserver d < 16" "d_udploop d < 4"
  shows "\<exists>a d' y'. udp_server os d y = Some (a, d', y') \<and> sys_ok y' \<and> magicq y' = magicq y \<and>
    (case a of Sent \<Rightarrow> tx_waiting (magicq y) ls sl d' \<and> d_tcpstate d' = 0 \<and> turn d' = turn d
     | Next \<Rightarrow> tx_ready ls sl d' \<and> turn d' = turn d \<and> d_curserver d' = d_curserver d
     | Failed \<Rightarrow> tx_freed d')"
proof (cases "server_ip d = replicate 16 0")
  case True
  then show ?thesis using assms by (simp add: udp_server_def)
next
  case False
  obtain d1 y1 where m: "makequery os d y = Some (d1, y1)" "tx_ready ls sl d1" "sys_ok y1" "magicq y1 = magicq y"
      "query_built (magicq y) ls sl d1" "new_query d d1"
    using makequery_ready [OF assms(1-4) False] by blast
  obtain q where q: "d_query d1 = Some q" "18 \<le> d_querylen d1" "d_querylen d1 \<le> length q" using m(5) by (auto simp: query_built_def)
  have c: "d_curserver d1 = d_curserver d" "d_udploop d1 = d_udploop d" using m(6) by (simp_all add: new_query_def)
  note ok = assms(2) m c q
  let ?ty = "server_type (server_ip d)"
  obtain fd w where fd: "os_udp os (world y1) ?ty = (fd, w)" by fastforce
  define d3 where "d3 = d1\<lparr>d_s1type := ?ty, d_s1 := 1 + fd\<rparr>"
  obtain b y3 where b: "randombind os d3 (y1\<lparr>world := w\<rparr>) = (b, y3)" by fastforce
  have y3: "sys_ok y3" "magicq y3 = magicq y" using bind_tries_magic [OF b [unfolded randombind_def]] m(3,4) by (simp_all add: sys_ok_def)
  have d3: "tx_ready ls sl d3" "query_built (magicq y) ls sl d3" "d_query d3 = Some q" "d_querylen d3 = d_querylen d1"
      "turn d3 = turn d" "d_curserver d3 = d_curserver d" "d_udploop d3 = d_udploop d"
    using m c q by (simp_all add: d3_def turn_def)
  obtain s w2 where s: "os_send os (world y3) (d_s1 d3 - 1) (d_s1type d3) (mem_read q 2 (d_querylen d3 - 2)) (server_ip d) (d_port d3) (d_scope_id d3) = (s, w2)"
    by fastforce
  obtain now w3 where now: "os_milliseconds os w2 = (now, w3)" by fastforce
  obtain df yf where df: "dns_transmit_free os d3 (y1\<lparr>world := w\<rparr>) = (df, yf)" by fastforce
  obtain dg yg where dg: "dns_transmit_free os d3 y3 = (dg, yg)" by fastforce
  obtain dh yh where dh: "socketfree os d3 (y3\<lparr>world := w2\<rparr>) = (dh, yh)" by fastforce
  have rdq: "rd q 2 (d_querylen d3 - 2) = Some (mem_read q 2 (d_querylen d3 - 2))" using q d3(4) by (simp add: rd_def)
  define res where "res =
    (if ?ty = XSOCKET_V6 \<and> d_flagipv4only d1 then (Next, d1\<lparr>d_s1type := ?ty\<rparr>, y1)
     else if d_s1 d3 = 0 then if os_errno os w = EPROTONOSUPPORT then (Next, d3, y1\<lparr>world := w\<rparr>) else (Failed, df, yf)
     else if b = - 1 then if os_errno os (world y3) = EPROTONOSUPPORT then (Next, d3, y3) else (Failed, dg, yg)
     else if s = int (d_querylen d3) - 2
     then (Sent, d3\<lparr>d_deadline := now + timeouts ! d_udploop d3, d_tcpstate := 0\<rparr>, y3\<lparr>world := w3\<rparr>)
     else (Next, dh, yh))"
  have "udp_server os d y = Some res"
  proof (cases "?ty = XSOCKET_V6 \<and> d_flagipv4only d1")
    case True
    then show ?thesis using False by (simp add: udp_server_def Let_def m(1) res_def)
  next
    case v4: False
    show ?thesis
    proof (cases "fd = - 1")
      case True
      then have "d1\<lparr>d_s1type := ?ty, d_s1 := 0\<rparr> = d3" "d_s1 d3 = 0" by (simp_all add: d3_def)
      then show ?thesis using False v4 True by (auto simp: udp_server_def Let_def m(1) fd df res_def)
    next
      case f: False
      then have "1 + fd \<noteq> 0" "d_s1 d3 \<noteq> 0" by (simp_all add: d3_def)
      then show ?thesis
        using False v4 by (auto simp: udp_server_def Let_def m(1) fd d3_def [symmetric] b dg d3(3) rdq s now dh res_def)
    qed
  qed
  moreover have "case res of (a, d', y') \<Rightarrow> sys_ok y' \<and> magicq y' = magicq y \<and>
    (case a of Sent \<Rightarrow> tx_waiting (magicq y) ls sl d' \<and> d_tcpstate d' = 0 \<and> turn d' = turn d
     | Next \<Rightarrow> tx_ready ls sl d' \<and> turn d' = turn d \<and> d_curserver d' = d_curserver d
     | Failed \<Rightarrow> tx_freed d')"
    using free_freed [OF df] free_freed [OF dg] socketfree_ok [OF dh, of ls sl] m(2-4) y3 d3 c assms(4,5)
    unfolding res_def by (simp add: turn_def tx_waiting_def sys_ok_def)
  ultimately show ?thesis by (cases res) auto
qed

lemma tcp_server_ok:
  assumes "tx_ready ls sl d" "sys_ok y" "os_ok os" "d_curserver d < 16"
  shows "\<exists>a d' y'. tcp_server os d y = Some (a, d', y') \<and> sys_ok y' \<and> magicq y' = magicq y \<and>
    (case a of Sent \<Rightarrow> tx_waiting (magicq y) ls sl d' \<and> d_tcpstate d' \<noteq> 0 \<and> d_curserver d' = d_curserver d
     | Next \<Rightarrow> tx_ready ls sl d' \<and> d_curserver d' = d_curserver d
     | Failed \<Rightarrow> tx_freed d')"
proof (cases "server_ip d = replicate 16 0")
  case True
  then show ?thesis using assms by (simp add: tcp_server_def)
next
  case False
  obtain d1 y1 where m: "makequery os d y = Some (d1, y1)" "tx_ready ls sl d1" "sys_ok y1" "magicq y1 = magicq y"
      "query_built (magicq y) ls sl d1" "new_query d d1"
    using makequery_ready [OF assms(1-4) False] by blast
  have q: "18 \<le> d_querylen d1" using m(5) by (auto simp: query_built_def)
  have c: "d_curserver d1 = d_curserver d" using m(6) by (simp add: new_query_def)
  let ?ty = "server_type (server_ip d)"
  obtain fd w where fd: "os_tcp os (world y1) ?ty = (fd, w)" by fastforce
  define d3 where "d3 = d1\<lparr>d_s1type := ?ty, d_s1 := 1 + fd\<rparr>"
  obtain b y3 where b: "randombind os d3 (y1\<lparr>world := w\<rparr>) = (b, y3)" by fastforce
  have y3: "sys_ok y3" "magicq y3 = magicq y" using bind_tries_magic [OF b [unfolded randombind_def]] m(3,4) by (simp_all add: sys_ok_def)
  obtain now w2 where now: "os_milliseconds os (world y3) = (now, w2)" by fastforce
  define d4 where "d4 = d3\<lparr>d_deadline := now + 10000\<rparr>"
  obtain r w3 where r: "os_connect os w2 (d_s1 d4 - 1) (d_s1type d4) (server_ip d) (d_port d4) (d_scope_id d4) = (r, w3)" by fastforce
  have d4: "tx_ready ls sl d4" "query_built (magicq y) ls sl d4" "d_querylen d4 = d_querylen d1" "d_curserver d4 = d_curserver d"
      "d_s1 d4 = d_s1 d3" "tx_ready ls sl d3" "d_curserver d3 = d_curserver d"
    using m c by (simp_all add: d3_def d4_def)
  obtain df yf where df: "dns_transmit_free os d3 (y1\<lparr>world := w\<rparr>) = (df, yf)" by fastforce
  obtain dg yg where dg: "dns_transmit_free os d3 y3 = (dg, yg)" by fastforce
  obtain dh yh where dh: "socketfree os d4 (y3\<lparr>world := w3\<rparr>) = (dh, yh)" by fastforce
  define res where "res =
    (if ?ty = XSOCKET_V6 \<and> d_flagipv4only d1 then (Next, d1\<lparr>d_s1type := ?ty\<rparr>, y1)
     else if d_s1 d3 = 0 then if os_errno os w = EPROTONOSUPPORT then (Next, d3, y1\<lparr>world := w\<rparr>) else (Failed, df, yf)
     else if b = - 1 then if os_errno os (world y3) = EPROTONOSUPPORT then (Next, d3, y3) else (Failed, dg, yg)
     else if r = 0 then (Sent, d4\<lparr>d_pos := 0, d_tcpstate := 2\<rparr>, y3\<lparr>world := w3\<rparr>)
     else if os_errno os w3 = EINPROGRESS \<or> os_errno os w3 = EWOULDBLOCK then (Sent, d4\<lparr>d_tcpstate := 1\<rparr>, y3\<lparr>world := w3\<rparr>)
     else (Next, dh, yh))"
  have "tcp_server os d y = Some res"
  proof (cases "?ty = XSOCKET_V6 \<and> d_flagipv4only d1")
    case True
    then show ?thesis using False by (simp add: tcp_server_def Let_def m(1) res_def)
  next
    case v4: False
    show ?thesis
    proof (cases "fd = - 1")
      case True
      then have "d1\<lparr>d_s1type := ?ty, d_s1 := 0\<rparr> = d3" "d_s1 d3 = 0" by (simp_all add: d3_def)
      then show ?thesis using False v4 True by (auto simp: tcp_server_def Let_def m(1) fd df res_def)
    next
      case f: False
      then have "1 + fd \<noteq> 0" "d_s1 d3 \<noteq> 0" by (simp_all add: d3_def)
      then show ?thesis
        using False v4 r [unfolded d4_def, simplified] dh [unfolded d4_def]
        by (auto simp: tcp_server_def Let_def m(1) fd d3_def [symmetric] b dg now res_def d4_def)
    qed
  qed
  moreover have "case res of (a, d', y') \<Rightarrow> sys_ok y' \<and> magicq y' = magicq y \<and>
    (case a of Sent \<Rightarrow> tx_waiting (magicq y) ls sl d' \<and> d_tcpstate d' \<noteq> 0 \<and> d_curserver d' = d_curserver d
     | Next \<Rightarrow> tx_ready ls sl d' \<and> d_curserver d' = d_curserver d
     | Failed \<Rightarrow> tx_freed d')"
    using free_freed [OF df] free_freed [OF dg] socketfree_ok [OF dh, of ls sl] m(2-4) y3 d4 c assms(4) q
    unfolding res_def by (simp add: tx_waiting_def sys_ok_def)
  ultimately show ?thesis by (cases res) auto
qed

text \<open>A round ends with a query out at turn \<open>t\<close> or later, or with everything freed.\<close>

definition udp_result :: "bytes \<Rightarrow> bytes list \<Rightarrow> bytes list \<Rightarrow> nat \<Rightarrow> (int \<times> dns_transmit \<times> 'w system) option \<Rightarrow> bool" where
  "udp_result mq ls sl t res \<longleftrightarrow> (case res of None \<Rightarrow> False | Some (r, d, y) \<Rightarrow> sys_ok y \<and> magicq y = mq \<and>
     (r = 0 \<and> tx_waiting mq ls sl d \<and> d_tcpstate d = 0 \<and> t \<le> turn d \<or> r = - 1 \<and> tx_freed d))"

definition tcp_result :: "bytes \<Rightarrow> bytes list \<Rightarrow> bytes list \<Rightarrow> nat \<Rightarrow> (int \<times> dns_transmit \<times> 'w system) option \<Rightarrow> bool" where
  "tcp_result mq ls sl t res \<longleftrightarrow> (case res of None \<Rightarrow> False | Some (r, d, y) \<Rightarrow> sys_ok y \<and> magicq y = mq \<and>
     (r = 0 \<and> tx_waiting mq ls sl d \<and> d_tcpstate d \<noteq> 0 \<and> t \<le> d_curserver d \<or> r = - 1 \<and> tx_freed d))"

lemma udp_result_mono: "udp_result mq ls sl t res \<Longrightarrow> t' \<le> t \<Longrightarrow> udp_result mq ls sl t' res"
  by (auto simp: udp_result_def split: option.splits)

lemma tcp_result_mono: "tcp_result mq ls sl t res \<Longrightarrow> t' \<le> t \<Longrightarrow> tcp_result mq ls sl t' res"
  by (auto simp: tcp_result_def split: option.splits)

lemma thisudp_loop_ok:
  assumes "tx_ready ls sl d" "sys_ok y" "os_ok os" "d_curserver d \<le> 16"
  shows "udp_result (magicq y) ls sl (turn d) (thisudp_loop os d y)"
  using assms
proof (induction os d y rule: thisudp_loop.induct)
  case (1 os d y)
  consider (over) "\<not> d_udploop d < 4" | (wrap) "d_udploop d < 4" "\<not> d_curserver d < 16" | (server) "d_udploop d < 4" "d_curserver d < 16" by blast
  then show ?case
  proof cases
    case over
    obtain df yf where f: "dns_transmit_free os d y = (df, yf)" by fastforce
    have "thisudp_loop os d y = Some (- 1, df, yf)" using over by (subst thisudp_loop.simps) (simp add: f)
    then show ?thesis using "1.prems"(2) free_freed [OF f] by (simp add: sys_ok_def udp_result_def)
  next
    case wrap
    let ?d = "d\<lparr>d_udploop := d_udploop d + 1, d_curserver := 0\<rparr>"
    have "udp_result (magicq y) ls sl (turn ?d) (thisudp_loop os ?d y)"
      using "1.prems" by (intro "1.IH"(2) [OF wrap]) simp_all
    moreover have "thisudp_loop os d y = thisudp_loop os ?d y" using wrap by (subst thisudp_loop.simps) simp
    moreover have "turn d \<le> turn ?d" using wrap "1.prems"(4) by (simp add: turn_def)
    ultimately show ?thesis by (simp add: udp_result_mono)
  next
    case server
    obtain a d' y' where u: "udp_server os d y = Some (a, d', y')" "sys_ok y'" "magicq y' = magicq y"
      "case a of Sent \<Rightarrow> tx_waiting (magicq y) ls sl d' \<and> d_tcpstate d' = 0 \<and> turn d' = turn d
       | Next \<Rightarrow> tx_ready ls sl d' \<and> turn d' = turn d \<and> d_curserver d' = d_curserver d
       | Failed \<Rightarrow> tx_freed d'"
      using udp_server_ok [OF "1.prems"(1-3) server(2,1)] by blast
    show ?thesis
    proof (cases a)
      case Next
      let ?d = "d'\<lparr>d_curserver := d_curserver d' + 1\<rparr>"
      have "udp_result (magicq y') ls sl (turn ?d) (thisudp_loop os ?d y')"
        using u Next server "1.prems"(3) by (intro "1.IH"(1) [OF server _ refl refl refl]) simp_all
      moreover have "thisudp_loop os d y = thisudp_loop os ?d y'" using server u(1) Next by (subst thisudp_loop.simps) simp
      moreover have "turn d \<le> turn ?d" using u(4) Next by (simp add: turn_def)
      ultimately show ?thesis using u(3) by (simp add: udp_result_mono)
    next
      case Sent
      then have "thisudp_loop os d y = Some (0, d', y')" using server u(1) by (subst thisudp_loop.simps) simp
      then show ?thesis using u Sent by (simp add: udp_result_def)
    next
      case Failed
      then have "thisudp_loop os d y = Some (- 1, d', y')" using server u(1) by (subst thisudp_loop.simps) simp
      then show ?thesis using u Failed by (simp add: udp_result_def)
    qed
  qed
qed

lemma thistcp_loop_ok:
  assumes "tx_ready ls sl d" "sys_ok y" "os_ok os"
  shows "tcp_result (magicq y) ls sl (d_curserver d) (thistcp_loop os d y)"
  using assms
proof (induction os d y rule: thistcp_loop.induct)
  case (1 os d y)
  show ?case
  proof (cases "d_curserver d < 16")
    case False
    obtain df yf where f: "dns_transmit_free os d y = (df, yf)" by fastforce
    have "thistcp_loop os d y = Some (- 1, df, yf)" using False by (subst thistcp_loop.simps) (simp add: f)
    then show ?thesis using "1.prems"(2) free_freed [OF f] by (simp add: sys_ok_def tcp_result_def)
  next
    case server: True
    obtain a d' y' where u: "tcp_server os d y = Some (a, d', y')" "sys_ok y'" "magicq y' = magicq y"
      "case a of Sent \<Rightarrow> tx_waiting (magicq y) ls sl d' \<and> d_tcpstate d' \<noteq> 0 \<and> d_curserver d' = d_curserver d
       | Next \<Rightarrow> tx_ready ls sl d' \<and> d_curserver d' = d_curserver d
       | Failed \<Rightarrow> tx_freed d'"
      using tcp_server_ok [OF "1.prems" server] by blast
    show ?thesis
    proof (cases a)
      case Next
      let ?d = "d'\<lparr>d_curserver := d_curserver d' + 1\<rparr>"
      have "tcp_result (magicq y') ls sl (d_curserver ?d) (thistcp_loop os ?d y')"
        using u Next server "1.prems"(3) by (intro "1.IH" [OF server _ refl refl refl]) simp_all
      moreover have "thistcp_loop os d y = thistcp_loop os ?d y'" using server u(1) Next by (subst thistcp_loop.simps) simp
      moreover have "d_curserver d \<le> d_curserver ?d" using u(4) Next by simp
      ultimately show ?thesis using u(3) by (simp add: tcp_result_mono)
    next
      case Sent
      then have "thistcp_loop os d y = Some (0, d', y')" using server u(1) by (subst thistcp_loop.simps) simp
      then show ?thesis using u Sent by (simp add: tcp_result_def)
    next
      case Failed
      then have "thistcp_loop os d y = Some (- 1, d', y')" using server u(1) by (subst thistcp_loop.simps) simp
      then show ?thesis using u Failed by (simp add: tcp_result_def)
    qed
  qed
qed

lemma thisudp_ok:
  assumes "tx_ready ls sl d" "sys_ok y" "os_ok os" "d_curserver d \<le> 16"
  shows "udp_result (magicq y) ls sl (turn d) (thisudp os d y)"
proof -
  obtain e z where s: "socketfree os d y = (e, z)" by fastforce
  note f = socketfree_ok [OF s, of ls sl]
  have "udp_result (magicq z) ls sl (turn e) (thisudp_loop os e z)"
    using f assms by (intro thisudp_loop_ok) (simp_all add: sys_ok_def)
  then show ?thesis using f by (simp add: thisudp_def s turn_def)
qed

lemma thistcp_ok:
  assumes "tx_ready ls sl d" "sys_ok y" "os_ok os"
  shows "tcp_result (magicq y) ls sl (d_curserver d) (thistcp os d y)"
proof -
  obtain e z where s: "socketfree os d y = (e, z)" by fastforce
  note f = socketfree_ok [OF s, of ls sl]
  have "tx_ready ls sl (packetfree e)" using f assms by (simp add: packetfree_def split: option.split)
  then have "tcp_result (magicq z) ls sl (d_curserver (packetfree e)) (thistcp_loop os (packetfree e) z)"
    using f assms by (intro thistcp_loop_ok) (simp_all add: sys_ok_def)
  then show ?thesis using f by (simp add: thistcp_def s)
qed

text \<open>
  How many servers are left to ask, over UDP in its remaining rounds and then over TCP.  Every new query lowers it.
\<close>

definition tries_left :: "dns_transmit \<Rightarrow> nat" where
  "tries_left d = (if d_tcpstate d = 0 then 16 + (64 - turn d) else 16 - d_curserver d)"

text \<open>What is known of an answer that passed the tests.\<close>

definition good_answer :: "bytes list \<Rightarrow> dns_transmit \<Rightarrow> bytes \<Rightarrow> bool" where
  "good_answer ls d b \<longleftrightarrow> answers (d_id d) (d_qtype d) ls b \<and> b ! 2 AND 2 = 0 \<and> unat (b ! 3 AND 15) \<in> {0, 3} \<and>
     (key_byte d = Some 0 \<or> boxed_for d b)"

lemma good_answer_upd [simp]:
  "good_answer ls (d\<lparr>d_s1 := a\<rparr>) b = good_answer ls d b" "good_answer ls (d\<lparr>d_s1type := n\<rparr>) b = good_answer ls d b"
  "good_answer ls (d\<lparr>d_packet := p\<rparr>) b = good_answer ls d b" "good_answer ls (d\<lparr>d_packetlen := n\<rparr>) b = good_answer ls d b"
  "good_answer ls (d\<lparr>d_query := p\<rparr>) b = good_answer ls d b" "good_answer ls (d\<lparr>d_pos := n\<rparr>) b = good_answer ls d b"
  by (simp_all add: good_answer_def boxed_for_def key_byte_def key_bytes_def cong: option.case_cong)

text \<open>What a call may result in: still waiting, given up with everything freed, or the answer.\<close>

definition tx_answered :: "bytes list \<Rightarrow> dns_transmit \<Rightarrow> bool" where
  "tx_answered ls d \<longleftrightarrow> d_query d = None \<and> d_s1 d = 0 \<and>
     (\<exists>p. d_packet d = Some p \<and> d_packetlen d \<le> length p \<and> good_answer ls d (take (d_packetlen d) p))"

definition get_result :: "bytes \<Rightarrow> bytes list \<Rightarrow> bytes list \<Rightarrow> nat \<Rightarrow> (int \<times> dns_transmit \<times> 'w system) option \<Rightarrow> bool" where
  "get_result mq ls sl t res \<longleftrightarrow> (case res of None \<Rightarrow> False | Some (r, d, y) \<Rightarrow> sys_ok y \<and> magicq y = mq \<and>
     (r = 0 \<and> tx_waiting mq ls sl d \<and> tries_left d \<le> t \<or> r = - 1 \<and> tx_freed d \<or> r = 1 \<and> tx_answered ls d))"

lemma udp_get_result: "udp_result mq ls sl u res \<Longrightarrow> 80 \<le> t + u \<Longrightarrow> 16 \<le> t \<Longrightarrow> get_result mq ls sl t res"
  by (auto simp: udp_result_def get_result_def tries_left_def split: option.splits)

lemma tcp_get_result: "tcp_result mq ls sl c res \<Longrightarrow> 16 \<le> t + c \<Longrightarrow> get_result mq ls sl t res"
  by (auto simp: tcp_result_def get_result_def tries_left_def split: option.splits)

lemma waiting_turn: "tx_waiting mq ls sl d \<Longrightarrow> d_tcpstate d = 0 \<Longrightarrow> turn d < 64"
  by (auto simp: tx_waiting_def turn_def)

text \<open>A new query costs a try.\<close>

lemma nextudp_ok:
  assumes "tx_waiting (magicq y) ls sl d" "sys_ok y" "os_ok os" "d_tcpstate d = 0"
  shows "get_result (magicq y) ls sl (tries_left d - 1) (nextudp os d y)"
proof -
  let ?d = "d\<lparr>d_curserver := d_curserver d + 1\<rparr>"
  have "udp_result (magicq y) ls sl (turn ?d) (thisudp os ?d y)"
    using assms by (intro thisudp_ok) (simp_all add: tx_waiting_def)
  moreover have "turn ?d = turn d + 1" by (simp add: turn_def)
  ultimately show ?thesis
    using waiting_turn [OF assms(1,4)] assms(4) by (auto simp: nextudp_def tries_left_def intro!: udp_get_result)
qed

lemma nexttcp_ok:
  assumes "tx_ready ls sl d" "sys_ok y" "os_ok os" "d_tcpstate d \<noteq> 0"
  shows "get_result (magicq y) ls sl (tries_left d - 1) (nexttcp os d y)"
proof -
  let ?d = "d\<lparr>d_curserver := d_curserver d + 1\<rparr>"
  have "tcp_result (magicq y) ls sl (d_curserver ?d) (thistcp os ?d y)"
    using assms by (intro thistcp_ok) simp_all
  then show ?thesis using assms(4) by (auto simp: nexttcp_def tries_left_def intro!: tcp_get_result)
qed

lemma firsttcp_ok:
  assumes "tx_ready ls sl d" "sys_ok y" "os_ok os" "d_tcpstate d = 0" "turn d < 64"
  shows "get_result (magicq y) ls sl (tries_left d - 1) (firsttcp os d y)"
proof -
  let ?d = "d\<lparr>d_curserver := 0\<rparr>"
  have "tcp_result (magicq y) ls sl (d_curserver ?d) (thistcp os ?d y)"
    using assms by (intro thistcp_ok) simp_all
  then show ?thesis using assms(4,5) by (auto simp: firsttcp_def tries_left_def intro!: tcp_get_result)
qed

subsection \<open>One call of \<open>dns_transmit_get\<close>\<close>

lemma waiting_world [simp]: "sys_ok (y\<lparr>world := w\<rparr>) = sys_ok y"
  by (simp add: sys_ok_def)

lemma waiting_setup:
  assumes "tx_waiting mq ls sl d"
  shows "tx_setup ls sl d" "d_curserver d < 16" "list_all is_label ls" "length (d_id d) = 2" "length (d_qtype d) = 2"
  using assms unfolding tx_waiting_def tx_ready_def query_built_def tx_setup_def by blast+

lemma waiting_name:
  assumes "tx_waiting mq ls sl d"
  obtains r where "name_at_ptr d = Some (dn_of ls @ r)"
proof -
  obtain q where q: "d_query d = Some q" "if plain (d_servers d) (d_keys d) then own_name (d_name d) q ls else (\<exists>r. d_name d = Outside (dn_of ls @ r))"
    using assms unfolding tx_waiting_def tx_ready_def by blast
  have "(\<exists>r. d_name d = Outside (dn_of ls @ r)) \<or> d_name d = Inside 14 \<and> (\<exists>r. drop 14 q = dn_of ls @ r)"
    using q(2) by (cases "plain (d_servers d) (d_keys d)") (simp_all add: own_name_def)
  then show thesis using that q(1) by (auto simp: name_at_ptr_def)
qed

lemma waiting_getquery:
  assumes "tx_waiting mq ls sl d"
  shows "getquery d mr buf (length buf) \<noteq> None"
proof (rule getquery_returns)
  note s = waiting_setup(1,2) [OF assms]
  then show "key_byte d \<noteq> None" by (auto simp: key_byte_def tx_setup_def split: option.splits)
  show "length (key_bytes d) = 32" if "key_byte d \<noteq> Some 0"
    using that s key_length [of d] by (cases "d_keys d") (auto simp: key_byte_def tx_setup_def)
  assume k: "key_byte d = Some 2"
  then have pk: "length (d_pk d) = 32" "list_all is_label sl" using s(1) by (auto simp: key_byte_def tx_setup_def split: option.splits)
  obtain q where q: "d_query d = Some q" "18 \<le> d_querylen d" "d_querylen d \<le> length q" "carries mq ls sl d (mem_read q 2 (d_querylen d - 2))"
    using assms by (auto simp: tx_waiting_def query_built_def)
  obtain i c where c: "length i = 2" "mem_read q 2 (d_querylen d - 2) = i @ query_header False @ dns_base32_encodebytes (d_nonce d @ c) @ dns_base32_encodekey (d_pk d) @ dn_of sl @ [0, 16, 0, 1]"
    using q(4) k by (auto simp: carries_def)
  obtain qs where qs: "dns_base32_encodebytes (d_nonce d @ c) @ dns_base32_encodekey (d_pk d) @ dn_of sl = dn_of qs" "list_all is_label qs"
    using text_name [OF pk] by blast
  have "drop 2 q = mem_read q 2 (d_querylen d - 2) @ drop (d_querylen d - 2) (drop 2 q)" by (simp only: mem_read_def append_take_drop_id)
  also have "d_querylen d - 2 + 2 = d_querylen d" using q(2) by simp
  then have "drop (d_querylen d - 2) (drop 2 q) = drop (d_querylen d) q" by (simp only: drop_drop)
  finally have "drop 2 q = mem_read q 2 (d_querylen d - 2) @ drop (d_querylen d) q" .
  then have "drop 12 (drop 2 q) = dn_of qs @ [0, 16, 0, 1] @ drop (d_querylen d) q" using c by (simp flip: qs(1))
  then have "drop 14 q = dn_of qs @ [0, 16, 0, 1] @ drop (d_querylen d) q" by simp
  then show "\<exists>q qs r. d_query d = Some q \<and> drop 14 q = dn_of qs @ r \<and> list_all is_label qs" using q(1) qs(2) by blast
qed

lemma accepted_packet:
  assumes "tx_waiting mq ls sl d" "getquery d mr buf (length buf) = Some (0, p, n)" "irrelevant al d (take n p) = Some False"
    and "serverwantstcp (take n p) = Some False" "serverfailed os (take n p) y = Some (False, y')"
  shows "length p = length buf \<and> n \<le> length buf \<and> good_answer ls d (take n p)"
proof -
  note g = getquery_sound [OF assms(2)]
  obtain r where r: "name_at_ptr d = Some (dn_of ls @ r)" using waiting_name [OF assms(1)] .
  have "answers (d_id d) (d_qtype d) ls (take n p)"
    using irrelevant_False_iff [OF waiting_setup(4,5) [OF assms(1)] r waiting_setup(3) [OF assms(1)], of al "take n p"] assms(3) by blast
  then show ?thesis
    using g assms(4,5) serverfailed_eq [of os "take n p" y] unfolding serverwantstcp_eq good_answer_def by auto
qed

lemma get_result_mono: "get_result mq ls sl t res \<Longrightarrow> t \<le> t' \<Longrightarrow> get_result mq ls sl t' res"
  by (auto simp: get_result_def split: option.splits)

lemma serverfailed_magic: "serverfailed os b y = Some (f, y') \<Longrightarrow> magicq y' = magicq y \<and> magicr y' = magicr y"
  using serverfailed_eq [of os b y] by auto

lemma sys_alloc_ok:
  "os_ok os \<Longrightarrow> sys_alloc os n y = (p, y') \<Longrightarrow> (p = None \<or> (\<exists>b. p = Some b \<and> length b = n)) \<and> magicq y' = magicq y \<and> magicr y' = magicr y"
  by (cases p) (auto simp: sys_alloc_def os_ok_def split: prod.splits dest: arg_cong [of _ _ fst])

lemma waiting_irrelevant: "tx_waiting mq ls sl d \<Longrightarrow> irrelevant al d buf \<noteq> None"
  using waiting_name [of mq ls sl d] irrelevant_False_iff [of d ls _ al buf] waiting_setup(3-5) [of mq ls sl d] by metis

lemma queryfree_eq: "queryfree d = d\<lparr>d_query := None\<rparr>"
  by (cases "d_query d") (simp_all add: queryfree_def)

lemma get_udp_ok:
  assumes w: "tx_waiting (magicq y) ls sl d" and ok: "sys_ok y" "os_ok os" and st: "d_tcpstate d = 0"
  shows "get_result (magicq y) ls sl (tries_left d) (get_udp os d y)"
proof -
  obtain b w1 where rc: "os_recv os (world y) (d_s1 d - 1) (d_s1type d) 4097 = (b, w1)" by fastforce
  define y1 where "y1 = y\<lparr>world := w1\<rparr>"
  have y1: "sys_ok y1" "magicq y1 = magicq y" "tx_waiting (magicq y1) ls sl d" using ok w by (simp_all add: y1_def)
  have nx: "get_result (magicq y) ls sl (tries_left d) (nextudp os d z)" if "sys_ok z" "magicq z = magicq y" for z
    using nextudp_ok [of z ls sl d os] w that ok(2) st by (auto intro: get_result_mono)
  have zero: "get_result (magicq y) ls sl (tries_left d) (Some (0, d, y1))" using y1 by (simp add: get_result_def)
  show ?thesis
  proof (cases b)
    case None
    then show ?thesis using nx y1 by (simp add: get_udp_def Let_def rc y1_def)
  next
    case (Some buf)
    obtain e p n where g: "getquery d (magicr y) buf (length buf) = Some (e, p, n)" using waiting_getquery [OF w, of "magicr y" buf] by auto
    obtain ir where ir: "irrelevant (can_alloc os y1) d (take n p) = Some ir" using waiting_irrelevant [OF w] by blast
    obtain f y2 where f: "serverfailed os (take n p) y1 = Some (f, y2)" using serverfailed_eq [of os "take n p" y1] by blast
    obtain tcp where t: "serverwantstcp (take n p) = Some tcp" by (simp add: serverwantstcp_eq)
    have y2: "sys_ok y2" "magicq y2 = magicq y" using serverfailed_magic [OF f] y1 by (simp_all add: sys_ok_def)
    consider "buf = []" | "buf \<noteq> []" "length buf + 1 > 4097" | "buf \<noteq> []" "\<not> length buf + 1 > 4097" "e \<noteq> 0"
      | "buf \<noteq> []" "\<not> length buf + 1 > 4097" "e = 0" "ir" | "buf \<noteq> []" "\<not> length buf + 1 > 4097" "e = 0" "\<not> ir" "tcp"
      | "buf \<noteq> []" "\<not> length buf + 1 > 4097" "e = 0" "\<not> ir" "\<not> tcp" by blast
    then show ?thesis
    proof cases
      case 1
      then show ?thesis using nx y1 Some by (simp add: get_udp_def Let_def rc y1_def)
    next
      case 5
      then have "get_udp os d y = firsttcp os d y1" using Some g ir t by (simp add: get_udp_def Let_def rc y1_def [symmetric])
      then show ?thesis using firsttcp_ok [of ls sl d y1 os] w y1 ok(2) st waiting_turn [OF w st] by (auto simp: tx_waiting_def intro: get_result_mono)
    next
      case 6
      show ?thesis
      proof (cases f)
        case True
        then have "get_udp os d y = nextudp os d y2" using Some g ir f t 6 by (simp add: get_udp_def Let_def rc y1_def [symmetric])
        then show ?thesis using nx y2 by simp
      next
        case False
        obtain d3 y3 where s: "socketfree os d y2 = (d3, y3)" by fastforce
        define d4 where "d4 = d3\<lparr>d_packetlen := n\<rparr>"
        obtain a y4 where al: "sys_alloc os n y3 = (a, y4)" by fastforce
        have good: "length p = length buf" "n \<le> length buf" "good_answer ls d3 (take n p)"
          using accepted_packet [OF w g [unfolded 6(3)], of "can_alloc os y1" os y1 y2] ir 6 f t False s by (auto simp: socketfree_def split: if_splits)
        have y4: "sys_ok y4" "magicq y4 = magicq y" using sys_alloc_ok [OF ok(2) al] socketfree_ok [OF s, of ls sl] y2 by (simp_all add: sys_ok_def)
        show ?thesis
        proof (cases a)
          case None
          obtain df yf where df: "dns_transmit_free os (d4\<lparr>d_packet := None\<rparr>) y4 = (df, yf)" by fastforce
          have "get_udp os d y = Some (- 1, df, yf)"
            using Some g ir f t 6 False s al None df by (simp add: get_udp_def Let_def rc y1_def [symmetric] d4_def [symmetric])
          then show ?thesis using free_freed [OF df] y4 by (simp add: get_result_def sys_ok_def)
        next
          case (Some bl)
          have "length bl = n" using sys_alloc_ok [OF ok(2) al] Some by simp
          then have "wr bl 0 (take n p) = Some (take n p)" using good by (simp add: wr_def mem_write_def)
          then have "get_udp os d y = Some (1, queryfree (d4\<lparr>d_packet := Some (take n p)\<rparr>), y4)"
            using \<open>b = Some buf\<close> g ir f t 6 False s al Some by (simp add: get_udp_def Let_def rc y1_def [symmetric] d4_def [symmetric])
          moreover have "tx_answered ls (queryfree (d4\<lparr>d_packet := Some (take n p)\<rparr>))"
            using good socketfree_ok [OF s, of ls sl] by (simp add: tx_answered_def queryfree_eq d4_def)
          ultimately show ?thesis using y4 by (simp add: get_result_def)
        qed
      qed
    qed (use zero Some g ir in \<open>simp_all add: get_udp_def Let_def rc y1_def [symmetric]\<close>)
  qed
qed

text \<open>The TCP states.  Giving up a connection costs a try, whatever else has changed.\<close>

lemma nexttcp_result:
  assumes "tx_ready ls sl e" "sys_ok z" "magicq z = mq" "os_ok os" "d_tcpstate e \<noteq> 0" "16 - d_curserver e \<le> t"
  shows "get_result mq ls sl t (nexttcp os e z)"
  using nexttcp_ok [OF assms(1,2,4,5)] assms(3,5,6) by (auto simp: tries_left_def intro: get_result_mono)

lemma tries_tcp: "d_tcpstate d \<noteq> 0 \<Longrightarrow> tries_left d = 16 - d_curserver d"
  by (simp add: tries_left_def)

lemma get_connected_ok:
  assumes w: "tx_waiting (magicq y) ls sl d" and ok: "sys_ok y" "os_ok os" and st: "d_tcpstate d = 1"
  shows "get_result (magicq y) ls sl (tries_left d) (get_connected os d y)"
proof -
  obtain c w1 where c: "os_connected os (world y) (d_s1 d - 1) = (c, w1)" by fastforce
  show ?thesis
  proof (cases c)
    case True
    have "query_built (magicq y) ls sl d" using w by (simp add: tx_waiting_def)
    then have "18 \<le> d_querylen d" by (auto simp: query_built_def)
    then have "tx_waiting (magicq y) ls sl (d\<lparr>d_pos := 0, d_tcpstate := 2\<rparr>)" using w by (simp add: tx_waiting_def)
    then show ?thesis using c True ok(1) st by (simp add: get_connected_def get_result_def tries_left_def)
  next
    case False
    have "get_connected os d y = nexttcp os d (y\<lparr>world := w1\<rparr>)" using c False by (simp add: get_connected_def)
    then show ?thesis using w ok st by (auto simp: tx_waiting_def tries_tcp intro!: nexttcp_result)
  qed
qed

lemma get_write_ok:
  assumes w: "tx_waiting (magicq y) ls sl d" and ok: "sys_ok y" "os_ok os" and st: "d_tcpstate d = 2"
  shows "get_result (magicq y) ls sl (tries_left d) (get_write os d y)"
proof -
  have p: "d_pos d < d_querylen d" and rdy: "tx_ready ls sl d" using w st by (simp_all add: tx_waiting_def)
  obtain q where q: "d_query d = Some q" "d_querylen d \<le> length q" using w by (auto simp: tx_waiting_def query_built_def)
  define m where "m = mem_read q (d_pos d) (d_querylen d - d_pos d)"
  have m: "rd q (d_pos d) (d_querylen d - d_pos d) = Some m" "length m = d_querylen d - d_pos d" using p q by (simp_all add: rd_def m_def)
  obtain r w1 where r: "os_write os (world y) (d_s1 d - 1) m = (r, w1)" by fastforce
  have le: "r \<le> int (d_querylen d - d_pos d)" using ok(2) r m(2) unfolding os_ok_def by (metis fst_conv)
  obtain now w2 where now: "os_milliseconds os w1 = (now, w2)" by fastforce
  show ?thesis
  proof (cases "r \<le> 0")
    case True
    have "get_write os d y = nexttcp os d (y\<lparr>world := w1\<rparr>)" using q m r True by (simp add: get_write_def)
    then show ?thesis using rdy ok st by (auto simp: tries_tcp intro!: nexttcp_result)
  next
    case False
    then have k: "d_pos d + nat r \<le> d_querylen d" using le p by linarith
    show ?thesis
    proof (cases "d_pos d + nat r = d_querylen d")
      case True
      have "get_write os d y = Some (0, d\<lparr>d_pos := d_querylen d, d_deadline := now + 10000, d_tcpstate := 3\<rparr>, y\<lparr>world := w2\<rparr>)"
        using q m r False True now by (simp add: get_write_def)
      then show ?thesis using w ok st by (simp add: get_result_def tx_waiting_def tries_left_def)
    next
      case more: False
      have "get_write os d y = Some (0, d\<lparr>d_pos := d_pos d + nat r\<rparr>, y\<lparr>world := w1\<rparr>)"
        using q m r False more by (simp add: get_write_def Let_def)
      then show ?thesis using w ok st k more by (simp add: get_result_def tx_waiting_def tries_left_def)
    qed
  qed
qed

lemma get_length1_ok:
  assumes w: "tx_waiting (magicq y) ls sl d" and ok: "sys_ok y" "os_ok os" and st: "d_tcpstate d = 3"
  shows "get_result (magicq y) ls sl (tries_left d) (get_length1 os d y)"
proof -
  obtain b w1 where r: "os_read os (world y) (d_s1 d - 1) 1 = (b, w1)" by fastforce
  have nx: "get_result (magicq y) ls sl (tries_left d) (nexttcp os d (y\<lparr>world := w1\<rparr>))"
    using w ok st by (auto simp: tx_waiting_def tries_tcp intro!: nexttcp_result)
  show ?thesis
  proof (cases "b = None \<or> b = Some []")
    case True
    then show ?thesis using nx r by (auto simp: get_length1_def)
  next
    case False
    then obtain ch x where "b = Some (ch # x)" by (cases b; cases "the b") auto
    then show ?thesis using w r ok st by (simp add: get_length1_def get_result_def tx_waiting_def tries_left_def)
  qed
qed

lemma get_length2_ok:
  assumes w: "tx_waiting (magicq y) ls sl d" and ok: "sys_ok y" "os_ok os" and st: "d_tcpstate d = 4"
  shows "get_result (magicq y) ls sl (tries_left d) (get_length2 os d y)"
proof -
  obtain b w1 where r: "os_read os (world y) (d_s1 d - 1) 1 = (b, w1)" by fastforce
  have nx: "get_result (magicq y) ls sl (tries_left d) (nexttcp os d (y\<lparr>world := w1\<rparr>))"
    using w ok st by (auto simp: tx_waiting_def tries_tcp intro!: nexttcp_result)
  show ?thesis
  proof (cases "b = None \<or> b = Some []")
    case True
    then show ?thesis using nx r by (auto simp: get_length2_def)
  next
    case False
    then obtain ch x where b: "b = Some (ch # x)" by (cases b; cases "the b") auto
    define n where "n = d_packetlen d * 256 + unat ch"
    obtain p y2 where a: "sys_alloc os n (y\<lparr>world := w1\<rparr>) = (p, y2)" by fastforce
    define d2 where "d2 = d\<lparr>d_packetlen := n, d_tcpstate := 5, d_pos := 0, d_packet := p\<rparr>"
    have y2: "sys_ok y2" "magicq y2 = magicq y" and pl: "p = None \<or> (\<exists>b. p = Some b \<and> length b = n)"
      using sys_alloc_ok [OF ok(2) a] ok(1) by (simp_all add: sys_ok_def)
    obtain df yf where f: "dns_transmit_free os d2 y2 = (df, yf)" by fastforce
    have e: "get_length2 os d y = (if p = None then Some (- 1, df, yf) else Some (0, d2, y2))"
      using r b a f by (auto simp: get_length2_def Let_def n_def [symmetric] d2_def)
    show ?thesis
    proof (cases p)
      case None
      then show ?thesis using e free_freed [OF f] y2 by (simp add: get_result_def sys_ok_def)
    next
      case (Some bl)
      then have "tx_waiting (magicq y) ls sl d2" using w pl by (simp add: d2_def tx_waiting_def)
      then show ?thesis using e Some y2 st by (simp add: get_result_def tries_left_def d2_def)
    qed
  qed
qed

lemma getquery_cong:
  assumes "d_keys e = d_keys d" "d_curserver e = d_curserver d" "d_nonce e = d_nonce d" "d_query e = d_query d"
  shows "getquery e m b k = getquery d m b k"
  unfolding getquery_def getquery_streamlined_def getquery_txt_def getquery_txtdata_def key_byte_def key_ptr_def assms by (rule refl)

lemma irrelevant_cong:
  assumes "d_id e = d_id d" "d_qtype e = d_qtype d" "d_name e = d_name d" "d_query e = d_query d"
  shows "irrelevant al e b = irrelevant al d b"
  unfolding irrelevant_def name_at_ptr_def assms by (rule refl)

lemma get_complete_ok:
  assumes w: "tx_waiting (magicq y) ls sl d" and ok: "sys_ok y" "os_ok os" and st: "d_tcpstate d = 5"
    and p: "length p = d_packetlen d"
  shows "get_result (magicq y) ls sl (tries_left d) (get_complete os d p y)"
proof -
  have s1: "d_s1 d \<noteq> 0" "tx_ready ls sl d" using w by (simp_all add: tx_waiting_def)
  define e where "e = d\<lparr>d_s1 := 0, d_s1type := 0\<rparr>"
  define z where "z = y\<lparr>world := os_close os (world y) (d_s1 d - 1)\<rparr>"
  have s: "socketfree os d y = (e, z)" using s1 by (simp add: socketfree_def e_def z_def)
  have z: "sys_ok z" "magicq z = magicq y" "magicr z = magicr y" using ok by (simp_all add: z_def)
  obtain c p' n where "getquery d (magicr y) p (length p) = Some (c, p', n)" using waiting_getquery [OF w, of "magicr y" p] by auto
  then have g: "getquery d (magicr y) p (d_packetlen d) = Some (c, p', n)" "getquery e (magicr z) p (d_packetlen d) = Some (c, p', n)"
    using p z getquery_cong [of e d] by (simp_all add: e_def)
  define e2 where "e2 = e\<lparr>d_packet := Some p', d_packetlen := n\<rparr>"
  obtain ir where "irrelevant (can_alloc os z) d (take n p') = Some ir" using waiting_irrelevant [OF w] by blast
  then have ir: "irrelevant (can_alloc os z) d (take n p') = Some ir" "irrelevant (can_alloc os z) e2 (take n p') = Some ir"
    using irrelevant_cong [of e2 d] by (simp_all add: e2_def e_def)
  obtain f z2 where f: "serverfailed os (take n p') z = Some (f, z2)" using serverfailed_eq [of os "take n p'" z] by blast
  obtain tcp where t: "serverwantstcp (take n p') = Some tcp" by (simp add: serverwantstcp_eq)
  have z2: "sys_ok z2" "magicq z2 = magicq y" using serverfailed_magic [OF f] z by (simp_all add: sys_ok_def)
  have nx: "get_result (magicq y) ls sl (tries_left d) (nexttcp os e2 v)" if "sys_ok v" "magicq v = magicq y" for v
    using that s1 ok st by (intro nexttcp_result) (simp_all add: e2_def e_def tries_tcp)
  have r: "get_complete os d p y =
     (if c \<noteq> 0 \<or> ir \<or> tcp then nexttcp os e2 z else if f then nexttcp os e2 z2 else Some (1, queryfree e2, z2))"
  proof -
    have "d_packetlen e = d_packetlen d" by (simp add: e_def)
    then show ?thesis using g ir f t by (auto simp: get_complete_def s e2_def [symmetric])
  qed
  show ?thesis
  proof (cases "c \<noteq> 0 \<or> ir \<or> tcp \<or> f")
    case True
    then show ?thesis using r nx z z2 by auto
  next
    case False
    have "length p' = length p \<and> n \<le> length p \<and> good_answer ls d (take n p')"
      using accepted_packet [OF w, of "magicr y" p p' n "can_alloc os z" os z z2] g p False ir f t by simp
    then have "tx_answered ls (queryfree e2)" by (simp add: tx_answered_def queryfree_eq e2_def e_def)
    then show ?thesis using r False z2 by (simp add: get_result_def)
  qed
qed

lemma get_packet_ok:
  assumes w: "tx_waiting (magicq y) ls sl d" and ok: "sys_ok y" "os_ok os" and st: "d_tcpstate d = 5"
  shows "get_result (magicq y) ls sl (tries_left d) (get_packet os d y)"
proof -
  obtain p where p: "d_packet d = Some p" "length p = d_packetlen d" "d_pos d \<le> d_packetlen d" using w st by (auto simp: tx_waiting_def)
  obtain b w1 where r: "os_read os (world y) (d_s1 d - 1) (d_packetlen d - d_pos d) = (b, w1)" by fastforce
  have nx: "get_result (magicq y) ls sl (tries_left d) (nexttcp os d (y\<lparr>world := w1\<rparr>))"
    using w ok st by (auto simp: tx_waiting_def tries_tcp intro!: nexttcp_result)
  show ?thesis
  proof (cases "b = None \<or> b = Some []")
    case True
    then show ?thesis using nx r by (auto simp: get_packet_def)
  next
    case False
    then obtain x where b: "b = Some x" "x \<noteq> []" by (cases b) auto
    have "length x \<le> d_packetlen d - d_pos d" using ok(2) r b(1) unfolding os_ok_def by (metis fst_conv)
    then have lx: "d_pos d + length x \<le> length p" using p by simp
    define p' where "p' = mem_write p (d_pos d) x"
    define d2 where "d2 = d\<lparr>d_packet := Some p', d_pos := d_pos d + length x\<rparr>"
    have lp: "length p' = d_packetlen d2" using lx p by (simp add: p'_def d2_def)
    have w2: "tx_waiting (magicq y) ls sl d2" using w lx lp p st by (simp add: tx_waiting_def d2_def)
    have e: "get_packet os d y =
        (if d_pos d2 < d_packetlen d2 then Some (0, d2, y\<lparr>world := w1\<rparr>) else get_complete os d2 p' (y\<lparr>world := w1\<rparr>))"
      using r b p lx by (simp add: get_packet_def wr_def p'_def [symmetric] d2_def Let_def)
    have t: "tries_left d2 = tries_left d" by (simp add: d2_def tries_left_def turn_def)
    have "get_result (magicq y) ls sl (tries_left d2) (get_complete os d2 p' (y\<lparr>world := w1\<rparr>))"
      using get_complete_ok [of "y\<lparr>world := w1\<rparr>" ls sl d2 os p'] w2 ok st lp by (simp add: d2_def)
    then show ?thesis using e t w2 ok(1) by (simp add: get_result_def)
  qed
qed

lemma set_errno_magic [simp]: "magicq (set_errno os e y) = magicq y" "magicr (set_errno os e y) = magicr y" "sys_ok (set_errno os e y) = sys_ok y"
  by (simp_all add: set_errno_def sys_ok_def)

lemma dns_transmit_get_result:
  assumes w: "tx_waiting (magicq y) ls sl d" and ok: "sys_ok y" "os_ok os"
  shows "get_result (magicq y) ls sl (tries_left d) (dns_transmit_get os d revents when y)"
proof -
  have st: "d_tcpstate d \<le> 5" using w by (simp add: tx_waiting_def)
  define y1 where "y1 = set_errno os EIO y"
  define y2 where "y2 = set_errno os ETIMEDOUT y1"
  have y1: "tx_waiting (magicq y1) ls sl d" "sys_ok y1" "magicq y1 = magicq y" and y2: "tx_waiting (magicq y2) ls sl d" "sys_ok y2" "magicq y2 = magicq y"
    using w ok by (simp_all add: y1_def y2_def)
  show ?thesis
  proof (cases revents)
    case False
    show ?thesis
    proof (cases "when < d_deadline d")
      case True
      then show ?thesis using False w ok(1) by (simp add: dns_transmit_get_def get_result_def)
    next
      case late: False
      then have e: "dns_transmit_get os d revents when y = (if d_tcpstate d = 0 then nextudp os d y2 else nexttcp os d y2)"
        using False by (simp add: dns_transmit_get_def y2_def y1_def)
      show ?thesis
      proof (cases "d_tcpstate d = 0")
        case True
        then show ?thesis using e nextudp_ok [OF y2(1,2) ok(2) True] y2(3) by (auto intro: get_result_mono)
      next
        case f: False
        then show ?thesis using e y2 ok(2) w by (auto simp: tries_tcp tx_waiting_def intro!: nexttcp_result)
      qed
    qed
  next
    case True
    consider "d_tcpstate d = 0" | "d_tcpstate d = 1" | "d_tcpstate d = 2" | "d_tcpstate d = 3" | "d_tcpstate d = 4" | "d_tcpstate d = 5"
      using st by linarith
    then show ?thesis
      using True get_udp_ok [OF y1(1,2) ok(2)] get_connected_ok [OF y1(1,2) ok(2)] get_write_ok [OF y1(1,2) ok(2)]
        get_length1_ok [OF y1(1,2) ok(2)] get_length2_ok [OF y1(1,2) ok(2)] get_packet_ok [OF y1(1,2) ok(2)]
      by cases (simp_all add: dns_transmit_get_def y1_def)
  qed
qed

subsection \<open>Starting and running\<close>

text \<open>The arguments for which a transmission is set up.\<close>

definition tx_args :: "bytes list \<Rightarrow> bytes list \<Rightarrow> bytes \<Rightarrow> bytes \<Rightarrow> bytes \<Rightarrow> bytes option \<Rightarrow> bytes \<Rightarrow> bytes option \<Rightarrow> bool" where
  "tx_args ls sl servers q qtype ks pk sfx \<longleftrightarrow> list_all is_label ls \<and> list_all is_label sl \<and> (\<exists>r. q = dn_of ls @ r) \<and> 2 \<le> length qtype \<and>
     (\<exists>r. (case sfx of None \<Rightarrow> [0] | Some x \<Rightarrow> x) = dn_of sl @ r) \<and>
     (case ks of None \<Rightarrow> True
      | Some k \<Rightarrow> length k = 528 \<and> length pk = 32)"

definition started :: "bytes \<Rightarrow> bytes list \<Rightarrow> bytes list \<Rightarrow> (int \<times> dns_transmit \<times> 'w system) option \<Rightarrow> bool" where
  "started mq ls sl res \<longleftrightarrow> get_result mq ls sl 80 res \<and> (\<forall>d y. res \<noteq> Some (1, d, y))"

lemma udp_started: "udp_result mq ls sl 0 res \<Longrightarrow> started mq ls sl res"
  using udp_get_result [of mq ls sl 0 res 80] by (auto simp: started_def udp_result_def)

lemma tcp_started: "tcp_result mq ls sl 0 res \<Longrightarrow> started mq ls sl res"
  using tcp_get_result [of mq ls sl 0 res 80] by (auto simp: started_def tcp_result_def)

lemma startext_started:
  assumes a: "tx_args ls sl servers q qtype ks pk sfx" "uniform servers ks" and ok: "sys_ok y" "os_ok os"
  shows "started (magicq y) ls sl
    (dns_transmit_startext os d servers flagrecursive flagtcp flagipv4only q qtype localip port ks pk sfx y)"
proof -
  let ?n = "length (dn_of ls)" and ?x = "case sfx of None \<Rightarrow> [0] | Some x \<Rightarrow> x"
  have ln: "dns_domain_length q = Some ?n" "dns_domain_length ?x = Some (length (dn_of sl))" using a by (auto simp: tx_args_def)
  obtain d1 y1 where f: "dns_transmit_free os d y = (d1, y1)" by fastforce
  define d2 where "d2 = d1\<lparr>d_paddinglen := (if ks = None then 0 else 3 * 64 - (?n + 16) mod 64)\<rparr>"
  define z where "z = set_errno os EIO y1"
  have z: "sys_ok z" "magicq z = magicq y" using free_freed [OF f] ok by (simp_all add: z_def sys_ok_def)
  have sz: "(if ks = None then ?n + 18 + d_paddinglen d2 else text_size (?n + d_paddinglen d2 + 44) + length (dn_of sl) + 73) = query_room ls sl ks"
  proof -
    have "d_paddinglen d2 = (if ks = None then 0 else 3 * 64 - (?n + 16) mod 64)" by (simp add: d2_def)
    moreover have "(3 * 64 :: nat) = 192" by simp
    ultimately show ?thesis unfolding query_room_def Let_def by (cases "ks = None") (simp_all only: if_True if_False add_0_right simp_thms)
  qed
  obtain p y2 where al: "sys_alloc os (query_room ls sl ks) z = (p, y2)" by fastforce
  have y2: "sys_ok y2" "magicq y2 = magicq y" and p: "p = None \<or> (\<exists>b. p = Some b \<and> length b = query_room ls sl ks)"
    using sys_alloc_ok [OF ok(2) al] z by (simp_all add: sys_ok_def)
  define d4 where "d4 = d2\<lparr>d_query := p, d_qtype := take 2 qtype, d_servers := servers,
      d_localip := (case localip of None \<Rightarrow> v4_prefix @ [0, 0, 0, 0] @ replicate 16 0 | Some x \<Rightarrow> take 32 x),
      d_udploop := (if flagrecursive then 1 else 0), d_flagrecursive := flagrecursive,
      d_flagipv4only := flagipv4only, d_name := Outside q, d_keys := ks, d_pk := pk, d_suffix := ?x,
      d_port := (case port of None \<Rightarrow> uint16_pack_big 53 | Some x \<Rightarrow> take 2 x)\<rparr>"
  have e: "dns_transmit_startext os d servers flagrecursive flagtcp flagipv4only q qtype localip port ks pk sfx y =
     (if p = None then Some (- 1, d2\<lparr>d_query := p\<rparr>, y2)
      else if ?n + 16 > 512 \<or> flagtcp then firsttcp os d4 y2 else firstudp os d4 y2)"
    unfolding dns_transmit_startext_def f prod.case Let_def ln bind.bind_lunit z_def [symmetric] d2_def [symmetric] sz al
    by (simp only: d4_def)
  show ?thesis
  proof (cases p)
    case None
    then show ?thesis using e free_freed [OF f] y2 by (simp add: started_def get_result_def tx_freed_def d2_def)
  next
    case (Some b)
    then have lb: "length b = query_room ls sl ks" using p by simp
    have r: "tx_ready ls sl (d4\<lparr>d_curserver := 0\<rparr>)"
      using a Some lb by (auto simp: tx_ready_def tx_setup_def d4_def tx_args_def own_name_def split: option.splits)
    have "started (magicq y2) ls sl (firsttcp os d4 y2)"
      unfolding firsttcp_def by (rule tcp_started [OF tcp_result_mono [OF thistcp_ok [OF r y2(1) ok(2)]]]) simp
    moreover have "started (magicq y2) ls sl (firstudp os d4 y2)"
      unfolding firstudp_def by (rule udp_started [OF udp_result_mono [OF thisudp_ok [OF r y2(1) ok(2)]]]) simp_all
    ultimately show ?thesis using e Some y2(2) by simp
  qed
qed

text \<open>
  The loop of a client: \<open>dns_transmit_get\<close> is called with the event and the time of each return of
  \<open>poll\<close> as long as it returns 0.
\<close>

primrec tx_run :: "'w os \<Rightarrow> (bool \<times> int) list \<Rightarrow> int \<times> dns_transmit \<times> 'w system \<Rightarrow> (int \<times> dns_transmit \<times> 'w system) option" where
  "tx_run os [] s = Some s"
| "tx_run os (e # es) s =
     (case s of (r, d, y) \<Rightarrow> if r \<noteq> 0 then Some s
        else do { s \<leftarrow> dns_transmit_get os d (fst e) (snd e) y; tx_run os es s })"

lemma get_result_Some: "get_result mq ls sl t res \<Longrightarrow> \<exists>s. res = Some s"
  by (cases res) (simp_all add: get_result_def del: split_paired_Ex)

lemma tx_run_result: "get_result mq ls sl t (Some s) \<Longrightarrow> os_ok os \<Longrightarrow> get_result mq ls sl t (tx_run os es s)"
proof (induction es arbitrary: s)
  case (Cons e es)
  obtain r d y where s: "s = (r, d, y)" by (cases s) auto
  show ?case
  proof (cases "r = 0")
    case True
    then have w: "tx_waiting mq ls sl d" "sys_ok y" "magicq y = mq" "tries_left d \<le> t" using Cons.prems(1) s by (simp_all add: get_result_def)
    have g: "get_result mq ls sl (tries_left d) (dns_transmit_get os d (fst e) (snd e) y)"
      using dns_transmit_get_result [of y ls sl d os "fst e" "snd e"] w Cons.prems(2) by simp
    then obtain s' where s': "dns_transmit_get os d (fst e) (snd e) y = Some s'" using get_result_Some by blast
    have "get_result mq ls sl t (Some s')" using get_result_mono [OF g w(4)] s' by simp
    from Cons.IH [OF this Cons.prems(2)] have "get_result mq ls sl t (tx_run os es s')" .
    then show ?thesis using s True s' by simp
  qed (use Cons.prems s in simp)
qed simp

text \<open>A server that never answers: each call comes when the deadline has passed.\<close>

primrec tx_expire :: "'w os \<Rightarrow> nat \<Rightarrow> int \<times> dns_transmit \<times> 'w system \<Rightarrow> (int \<times> dns_transmit \<times> 'w system) option" where
  "tx_expire os 0 s = Some s"
| "tx_expire os (Suc n) s =
     (case s of (r, d, y) \<Rightarrow> if r \<noteq> 0 then Some s
        else do { s \<leftarrow> dns_transmit_get os d False (d_deadline d) y; tx_expire os n s })"

lemma expired_get:
  assumes w: "tx_waiting mq ls sl d" and ok: "sys_ok y" "os_ok os" "magicq y = mq"
  shows "\<exists>r d' y'. dns_transmit_get os d False (d_deadline d) y = Some (r, d', y') \<and> sys_ok y' \<and> magicq y' = mq \<and>
    (r = 0 \<and> tx_waiting mq ls sl d' \<and> tries_left d' < tries_left d \<or> r = - 1 \<and> tx_freed d')"
proof -
  define y2 where "y2 = set_errno os ETIMEDOUT (set_errno os EIO y)"
  have y2: "sys_ok y2" "magicq y2 = mq" using ok by (simp_all add: y2_def)
  have c: "d_curserver d < 16" "tx_ready ls sl d" using w by (simp_all add: tx_waiting_def)
  show ?thesis
  proof (cases "d_tcpstate d = 0")
    case True
    let ?d = "d\<lparr>d_curserver := d_curserver d + 1\<rparr>"
    have "dns_transmit_get os d False (d_deadline d) y = thisudp os ?d y2" using True by (simp add: dns_transmit_get_def y2_def nextudp_def)
    moreover have u: "udp_result mq ls sl (turn ?d) (thisudp os ?d y2)" using thisudp_ok [of ls sl ?d y2 os] c y2 ok(2) by simp
    moreover from u obtain r d' y' where t: "thisudp os ?d y2 = Some (r, d', y')" by (auto simp: udp_result_def split: option.splits)
    moreover have "turn ?d = turn d + 1" by (simp add: turn_def)
    ultimately show ?thesis
      using waiting_turn [OF w True] True by (auto simp: udp_result_def tries_left_def)
  next
    case False
    let ?d = "d\<lparr>d_curserver := d_curserver d + 1\<rparr>"
    have "dns_transmit_get os d False (d_deadline d) y = thistcp os ?d y2" using False by (simp add: dns_transmit_get_def y2_def nexttcp_def)
    moreover have u: "tcp_result mq ls sl (d_curserver ?d) (thistcp os ?d y2)" using thistcp_ok [of ls sl ?d y2 os] c y2 ok(2) by simp
    moreover from u obtain r d' y' where t: "thistcp os ?d y2 = Some (r, d', y')" by (auto simp: tcp_result_def split: option.splits)
    ultimately show ?thesis using False c by (auto simp: tcp_result_def tries_left_def)
  qed
qed

lemma tries_pos: "tx_waiting mq ls sl d \<Longrightarrow> 0 < tries_left d"
  by (simp add: tries_left_def tx_waiting_def)

lemma tx_expire_ends:
  assumes "tx_waiting mq ls sl d" "sys_ok y" "os_ok os" "magicq y = mq" "tries_left d \<le> n"
  shows "\<exists>d' y'. tx_expire os n (0, d, y) = Some (- 1, d', y') \<and> tx_freed d'"
  using assms
proof (induction n arbitrary: d y)
  case 0
  then show ?case using tries_pos by fastforce
next
  case (Suc n)
  obtain r d' y' where g: "dns_transmit_get os d False (d_deadline d) y = Some (r, d', y')" "sys_ok y'" "magicq y' = mq"
      "r = 0 \<and> tx_waiting mq ls sl d' \<and> tries_left d' < tries_left d \<or> r = - 1 \<and> tx_freed d'"
    using expired_get [OF Suc.prems(1-4)] by blast
  show ?case
  proof (cases "r = 0")
    case True
    then have "\<exists>e z. tx_expire os n (0, d', y') = Some (- 1, e, z) \<and> tx_freed e" using g Suc.prems(3,5) by (intro Suc.IH) simp_all
    then show ?thesis using g True by simp
  next
    case False
    then have "tx_expire os n (- 1, d', y') = Some (- 1, d', y')" by (cases n) simp_all
    then show ?thesis using g False by simp
  qed
qed

text \<open>Start and run, as a client does.\<close>

lemma transmission_result:
  assumes "tx_args ls sl servers q qtype ks pk sfx" "uniform servers ks" "sys_ok y" "os_ok os"
  shows "get_result (magicq y) ls sl 80 (Option.bind (dns_transmit_startext os d servers flagrecursive flagtcp flagipv4only q qtype localip port ks pk sfx y)
       (tx_run os es))"
proof -
  have s: "get_result (magicq y) ls sl 80 (dns_transmit_startext os d servers flagrecursive flagtcp flagipv4only q qtype localip port ks pk sfx y)"
    using startext_started [OF assms] by (simp add: started_def)
  then obtain st where "dns_transmit_startext os d servers flagrecursive flagtcp flagipv4only q qtype localip port ks pk sfx y = Some st"
    using get_result_Some by blast
  then show ?thesis using tx_run_result [of _ _ _ 80 st os es] s assms(4) by simp
qed

end
