(* ===== verification/TransmitProps.thy ===== *)
theory TransmitProps
  imports TransmitRun
begin

section \<open>Properties of transmissions\<close>

text \<open>
  The properties of \<open>dq/dns_transmit.c\<close> over whole transmissions.  They hold for lists of servers that are \<open>uniform\<close>: of the servers
  that have an address none has a key, or all have one.  The last section shows what goes wrong for the others: a name
  pointer into a buffer that is overwritten.
\<close>

subsection \<open>A concrete operating system\<close>

text \<open>
  For the witnesses: the world is the number of open descriptors; no IPv6 socket can be bound and no data
  ever arrives.
\<close>

definition count_os :: "nat os" where
  "count_os = \<lparr>os_random = (\<lambda>w n. (replicate n 7, w)), os_nanoseconds = (\<lambda>w. (1, w)), os_milliseconds = (\<lambda>w. (0, w)),
     os_alloc = (\<lambda>w n. (Some (replicate n 0), w)), os_errno = (\<lambda>w. EPROTONOSUPPORT), os_set_errno = (\<lambda>e w. w),
     os_udp = (\<lambda>w t. (3, w + 1)), os_tcp = (\<lambda>w t. (3, w + 1)),
     os_bind = (\<lambda>w fd t ip port sc. (if t = XSOCKET_V6 then - 1 else 0, w)),
     os_send = (\<lambda>w fd t m ip port sc. (int (length m), w)), os_connect = (\<lambda>w fd t ip port sc. (0, w)),
     os_connected = (\<lambda>w fd. (True, w)), os_recv = (\<lambda>w fd t n. (None, w)), os_write = (\<lambda>w fd b. (int (length b), w)),
     os_read = (\<lambda>w fd n. (None, w)), os_close = (\<lambda>w fd. w - 1)\<rparr>"

definition count_sys :: "nat system" where
  "count_sys = \<lparr>magicq = replicate 8 81, magicr = replicate 8 82,
     nonces = \<lparr>noncekey = replicate 16 0, noncecounter = 5, noncemask = 255, noncedata = 0\<rparr>, world = 0\<rparr>"

text \<open>The state \<open>{0}\<close> of a new \<open>struct dns_transmit\<close>.\<close>

definition empty_tx :: dns_transmit where
  "empty_tx = \<lparr>d_query = None, d_querylen = 0, d_packet = None, d_packetlen = 0, d_s1 = 0, d_s1type = 0, d_tcpstate = 0,
     d_udploop = 0, d_curserver = 0, d_deadline = 0, d_pos = 0, d_servers = [], d_localip = replicate 32 0, d_qtype = [0, 0],
     d_port = [0, 0], d_scope_id = 0, d_paddinglen = 0, d_id = [0, 0], d_nonce = replicate 12 0, d_keys = None, d_pk = [],
     d_suffix = [], d_name = Outside [0], d_flagrecursive = False, d_flagipv4only = False\<rparr>"

lemma count_os_ok [simp]: "os_ok count_os" "sys_ok count_sys"
  by (simp_all add: os_ok_def count_os_def sys_ok_def count_sys_def)

lemma count_os_sel [simp]: "os_random count_os w n = (replicate n 7, w)" "os_nanoseconds count_os w = (1, w)"
  "os_errno count_os w = EPROTONOSUPPORT" "os_udp count_os w t = (3, w + 1)" "os_milliseconds count_os w = (0, w)"
  "os_bind count_os w fd t ip port sc = (if t = XSOCKET_V6 then - 1 else 0, w)"
  "os_send count_os w fd t m ip port sc = (int (length m), w)" "os_close count_os w fd = w - 1"
  by (simp_all add: count_os_def)

subsection \<open>Invariant, safety and liveness\<close>

text \<open>
  C9: The invariant of a transmission to uniform servers (of those with an address none has a key, or all have one):
  started for a name and driven with any sequence of events and times, it never reads or writes outside its buffers; after every call a query for
  the name is out, complete and within its buffer, on an open socket to one of the 16 servers (at most 80 tries, counting down),
  or \<open>- 1\<close> was returned and query, packet and socket are freed, or \<open>1\<close> was returned and the packet is an
  accepted answer.
\<close>

theorem transmission_invariant:
  assumes "tx_args ls sl servers q qtype ks pk sfx" "uniform servers ks" "sys_ok y" "os_ok os"
  shows "\<exists>r d' y'. Option.bind (dns_transmit_startext os d servers flagrecursive flagtcp flagipv4only q qtype localip port ks pk sfx y)
       (tx_run os es) = Some (r, d', y') \<and> sys_ok y' \<and>
     (r = 0 \<and> tx_waiting (magicq y) ls sl d' \<and> tries_left d' \<le> 80 \<or> r = - 1 \<and> tx_freed d' \<or> r = 1 \<and> tx_answered ls d')"
  using transmission_result [OF assms, of d flagrecursive flagtcp flagipv4only localip port es]
  by (auto simp: get_result_def split: option.splits)

definition demo_name :: "bytes list" where
  "demo_name = [[97, 98], [99]]"

definition demo_servers :: bytes where
  "demo_servers = replicate 16 1 @ v4_prefix @ replicate 4 1 @ replicate 224 0"

lemma demo_args: "tx_args demo_name [] demo_servers (dn_of demo_name) [0, 1] None [] None"
  by (auto simp: tx_args_def demo_name_def is_label_def)

lemma demo_uniform: "uniform demo_servers None"
  by (simp add: uniform_def plain_def)

theorem transmission_invariant_witness:
  "\<exists>r d' y'. Option.bind (dns_transmit_startext count_os empty_tx demo_servers True False False (dn_of demo_name) [0, 1] None None None [] None count_sys)
       (tx_run count_os [(True, 3), (False, 100000)]) = Some (r, d', y') \<and> sys_ok y' \<and>
     (r = 0 \<and> tx_waiting (magicq count_sys) demo_name [] d' \<and> tries_left d' \<le> 80 \<or> r = - 1 \<and> tx_freed d' \<or> r = 1 \<and> tx_answered demo_name d')"
  by (rule transmission_invariant [OF demo_args demo_uniform count_os_ok(2,1)])

text \<open>
  C11: Safety: a transmission to uniform servers (none with a key, or all) that returns 1 has a packet that answers its question
  (same id and type, the same name up to case, class IN), that is neither truncated nor an error other than NXDOMAIN, and, from a server with a key, was sealed under the shared key
  for the nonce of this query.
\<close>

theorem transmission_accepts_only_answers:
  assumes "tx_args ls sl servers q qtype ks pk sfx" "uniform servers ks" "sys_ok y" "os_ok os"
  shows "case Option.bind (dns_transmit_startext os d servers flagrecursive flagtcp flagipv4only q qtype localip port ks pk sfx y) (tx_run os es) of
      None \<Rightarrow> False
    | Some (r, d', y') \<Rightarrow> r \<noteq> 1 \<or> (\<exists>p. d_packet d' = Some p \<and> d_packetlen d' \<le> length p \<and> (let b = take (d_packetlen d') p in
        answers (d_id d') (d_qtype d') ls b \<and> b ! 2 AND 2 = 0 \<and> unat (b ! 3 AND 15) \<in> {0, 3} \<and> (key_byte d' = Some 0 \<or> boxed_for d' b)))"
  using transmission_result [OF assms, of d flagrecursive flagtcp flagipv4only localip port es]
  by (auto simp: get_result_def tx_answered_def good_answer_def Let_def split: option.splits)

text \<open>A system in which every datagram that arrives answers the question with the id that \<open>count_os\<close> draws.\<close>

definition reply_os :: "nat os" where
  "reply_os = count_os\<lparr>os_recv := (\<lambda>w fd t n. (Some ([7, 7, 132, 0, 0, 1, 0, 0, 0, 0, 0, 0] @ dn_of demo_name @ [0, 1, 0, 1]), w))\<rparr>"

lemma reply_os_ok: "os_ok reply_os"
  using count_os_ok(1) by (simp add: os_ok_def reply_os_def)

definition one_server :: bytes where
  "one_server = v4_prefix @ replicate 4 1 @ replicate 240 0"

lemma one_args: "tx_args demo_name [] one_server (dn_of demo_name) [0, 1] None [] None" "uniform one_server None"
  by (auto simp: tx_args_def demo_name_def is_label_def uniform_def plain_def)

lemma reply_accepted:
  "\<exists>d y. Option.bind (dns_transmit_startext reply_os empty_tx one_server True False False (dn_of demo_name) [0, 1] None None None [] None count_sys)
      (tx_run reply_os [(True, 3)]) = Some (1, d, y)"
proof -
  have "(case Option.bind (dns_transmit_startext reply_os empty_tx one_server True False False (dn_of demo_name) [0, 1] None None None [] None count_sys)
      (tx_run reply_os [(True, 3)]) of Some (r, d, y) \<Rightarrow> r = 1 | None \<Rightarrow> False)"
    by code_simp
  then show ?thesis by (auto split: option.splits)
qed

theorem transmission_accepts_only_answers_witness:
  "\<exists>d' y'. Option.bind (dns_transmit_startext reply_os empty_tx one_server True False False (dn_of demo_name) [0, 1] None None None [] None count_sys)
      (tx_run reply_os [(True, 3)]) = Some (1, d', y') \<and>
     (\<exists>p. d_packet d' = Some p \<and> d_packetlen d' \<le> length p \<and> (let b = take (d_packetlen d') p in
        answers (d_id d') (d_qtype d') demo_name b \<and> b ! 2 AND 2 = 0 \<and> unat (b ! 3 AND 15) \<in> {0, 3} \<and> (key_byte d' = Some 0 \<or> boxed_for d' b)))"
  using transmission_accepts_only_answers [OF one_args count_os_ok(2) reply_os_ok, of empty_tx True False False None None "[(True, 3)]"]
    reply_accepted by (auto simp: Let_def)

text \<open>
  C16: Liveness: when no server answers, a transmission to uniform servers (none with a key, or all) ends: after at most 80 expired deadlines
  (four rounds over 16 servers by UDP, then one by TCP) \<open>dns_transmit_get\<close> has returned \<open>- 1\<close> and everything is freed.
\<close>

theorem transmission_times_out:
  assumes "tx_args ls sl servers q qtype ks pk sfx" "uniform servers ks" "sys_ok y" "os_ok os"
  shows "\<exists>d' y'. Option.bind (dns_transmit_startext os d servers flagrecursive flagtcp flagipv4only q qtype localip port ks pk sfx y)
       (tx_expire os 80) = Some (- 1, d', y') \<and> tx_freed d'"
proof -
  note s = startext_started [OF assms, of d flagrecursive flagtcp flagipv4only localip port]
  then obtain r d1 y1 where st: "dns_transmit_startext os d servers flagrecursive flagtcp flagipv4only q qtype localip port ks pk sfx y = Some (r, d1, y1)"
    unfolding started_def using get_result_Some by (metis prod_cases3)
  show ?thesis
  proof (cases "r = 0")
    case True
    then show ?thesis using s st assms(4) tx_expire_ends [of "magicq y" ls sl d1 y1 os 80] by (simp add: started_def get_result_def)
  next
    case False
    then have "r = - 1" "tx_freed d1" using s st by (auto simp: started_def get_result_def)
    moreover have "tx_expire os 80 (- 1, d1, y1) = Some (- 1, d1, y1)" by (simp add: eval_nat_numeral)
    ultimately show ?thesis using st by simp
  qed
qed

theorem transmission_times_out_witness:
  "\<exists>d' y'. Option.bind (dns_transmit_startext count_os empty_tx demo_servers True False False (dn_of demo_name) [0, 1] None None None [] None count_sys)
       (tx_expire count_os 80) = Some (- 1, d', y') \<and> tx_freed d'"
  by (rule transmission_times_out [OF demo_args demo_uniform count_os_ok(2,1)])

subsection \<open>Queries and their answers\<close>

text \<open>
  C17: Round trip of a query, for one call of \<open>makequery\<close> whatever the other servers are: from a name outside the query
  buffer, or for a server without a key also from the name that the last query put into the buffer, \<open>makequery\<close> builds, within the buffer
  that \<open>dns_transmit_startext\<close> allocates, the standard query for
  the name (the plain message without a key, else its box in the streamlined or in the TXT form); whoever holds
  the shared key opens the box with the nonce that travels with it to exactly that message; and the name stays readable.
\<close>

theorem makequery_carries_question:
  assumes "d_query d = Some q" "query_room ls sl (d_keys d) \<le> length q" "list_all is_label ls" "length (d_qtype d) = 2"
    and "d_curserver d < 16" "os_ok os" "sys_ok y"
    and "\<And>k. d_keys d = Some k \<Longrightarrow> length k = 528 \<and> length (d_pk d) = 32 \<and> list_all is_label sl \<and> (\<exists>r. d_suffix d = dn_of sl @ r)"
    and "own_name (d_name d) q ls" "key_byte d \<noteq> Some 0 \<Longrightarrow> \<exists>r. d_name d = Outside (dn_of ls @ r)"
  shows "\<exists>d' y' q'. makequery os d y = Some (d', y') \<and> d_query d' = Some q' \<and> length q' = length q \<and> d_querylen d' \<le> length q' \<and>
    take 2 q' = uint16_pack_big (of_nat (d_querylen d' - 2)) \<and> carries (magicq y) ls sl d' (mem_read q' 2 (d_querylen d' - 2)) \<and>
    (if key_byte d = Some 0 then own_name (d_name d') q' ls else d_name d' = d_name d)"
  using makequery_builds [OF assms] unfolding query_built_def by fastforce

definition demo_tx :: "byte \<Rightarrow> dns_transmit" where
  "demo_tx k = empty_tx\<lparr>d_query := Some (replicate 600 0), d_servers := replicate 256 1, d_qtype := [0, 1], d_keys := Some (replicate 528 k),
     d_pk := replicate 32 200, d_suffix := [0], d_name := Outside (dn_of demo_name), d_nonce := replicate 12 9\<rparr>"

theorem makequery_carries_question_witness:
  "\<exists>d' y' q'. makequery count_os (demo_tx 1) count_sys = Some (d', y') \<and> d_query d' = Some q' \<and> length q' = length (replicate 600 (0 :: byte)) \<and>
    d_querylen d' \<le> length q' \<and>
    take 2 q' = uint16_pack_big (of_nat (d_querylen d' - 2)) \<and> carries (magicq count_sys) demo_name [] d' (mem_read q' 2 (d_querylen d' - 2)) \<and>
    (if key_byte (demo_tx 1) = Some 0 then own_name (d_name d') q' demo_name else d_name d' = d_name (demo_tx 1))"
proof (rule makequery_carries_question)
  show "query_room demo_name [] (d_keys (demo_tx 1)) \<le> length (replicate 600 (0 :: byte))"
    by (simp add: demo_tx_def query_room_def demo_name_def text_size_eq dns_base32_bytessize_def Let_def del: One_nat_def)
qed (auto simp: demo_tx_def empty_tx_def demo_name_def is_label_def own_name_def simp del: replicate.simps)

text \<open>
  C18: Round trip of an answer: what the holder of the shared key seals with the NaCl code, under the nonce of the query
  extended by 12 bytes of its own, is opened by \<open>getquery\<close> to the sealed message, and \<open>irrelevant\<close>
  accepts it when it repeats the id and the question of the query, the name in any case and compressed in any way.
\<close>

theorem streamlined_answer_accepted:
  assumes "key_byte d = Some k" "k \<noteq> 0" "k \<noteq> 2" "length (key_bytes d) = 32" "length (d_nonce d) = 12" "length n2 = 12" "length mr = 8"
    and "length (d_id d) = 2" "length (d_qtype d) = 2" "name_at_ptr d = Some (dn_of ls @ r)" "list_all is_label ls"
    and "12 \<le> length msg" "take 2 msg = d_id d" "msg ! 4 = 0" "msg ! 5 = 1"
    and "name_at msg 12 ms j e" "wf_name ms" "j < 1000" "lower ms = lower ls" "mem_read msg e 4 = d_qtype d @ [0, 1]"
  shows "\<exists>c buf'. nacl_secretbox (replicate 32 0 @ msg) (d_nonce d @ n2) (key_bytes d) = Some c \<and>
     getquery d mr (mr @ d_nonce d @ n2 @ drop 16 c) (length msg + 48) = Some (0, buf', length msg) \<and>
     take (length msg) buf' = msg \<and> irrelevant (\<lambda>_. True) d (take (length msg) buf') = Some False"
proof -
  obtain c where c: "crypto_secretbox (replicate 32 0 @ msg) (d_nonce d @ n2) (key_bytes d) = Some c" "length c = 32 + length msg"
      "take 16 c = replicate 16 0" "crypto_secretbox_open c (d_nonce d @ n2) (key_bytes d) = Some (replicate 32 0 @ msg)"
    using secretbox_opens [of "replicate 32 0 @ msg" "d_nonce d @ n2" "key_bytes d"] by auto
  have "nacl_secretbox (replicate 32 0 @ msg) (d_nonce d @ n2) (key_bytes d) = Some c"
    using secretbox_agree [of "d_nonce d @ n2" "key_bytes d"] assms(4-6) c(1) by simp
  moreover obtain buf' where "getquery d mr (mr @ d_nonce d @ n2 @ drop 16 c) (length msg + 48) = Some (0, buf', length msg)"
      "take (length msg) buf' = msg"
    using getquery_streamlined_accepts [OF c(4,3) assms(7,5,6,4)] assms(1-3,5-7) c(2) by (auto simp: getquery_def add.commute)
  ultimately show ?thesis
    using irrelevant_accepts [OF assms(8-20)] by auto
qed

definition demo_answer :: bytes where
  "demo_answer = [0, 0, 132, 0, 0, 1, 0, 0, 0, 0, 0, 0] @ dn_of [[65, 98], [67]] @ [0, 1, 0, 1]"

lemma demo_answer_eq: "demo_answer = [0, 0, 132, 0, 0, 1, 0, 0, 0, 0, 0, 0, 2, 65, 98, 1, 67, 0, 0, 1, 0, 1]"
  by (simp add: demo_answer_def)

lemma demo_answer_name: "\<exists>j < 1000. name_at demo_answer 12 [[65, 98], [67]] j 18"
proof -
  have "name_at demo_answer 17 [] 1 18"
    using name_at.root [of 17 demo_answer] by (simp add: demo_answer_eq)
  then have "name_at demo_answer 15 [[67]] (Suc (Suc (Suc 0))) 18"
    using name_at.label [of "[67]" 15 demo_answer "[]" 1 18] by (simp add: demo_answer_eq is_label_def mem_read_def)
  then have "name_at demo_answer 12 [[65, 98], [67]] (Suc (Suc (Suc (Suc (Suc (Suc 0)))))) 18"
    using name_at.label [of "[65, 98]" 12 demo_answer "[[67]]" "Suc (Suc (Suc 0))" 18] by (simp add: demo_answer_eq is_label_def mem_read_def)
  then show ?thesis by (intro exI [of _ "Suc (Suc (Suc (Suc (Suc (Suc 0)))))"]) simp
qed

theorem streamlined_answer_accepted_witness:
  "\<exists>c buf'. nacl_secretbox (replicate 32 0 @ demo_answer) (replicate 12 9 @ replicate 12 3) (replicate 32 1) = Some c \<and>
     getquery (demo_tx 1) (replicate 8 82) (replicate 8 82 @ replicate 12 9 @ replicate 12 3 @ drop 16 c) (length demo_answer + 48) = Some (0, buf', length demo_answer) \<and>
     take (length demo_answer) buf' = demo_answer \<and> irrelevant (\<lambda>_. True) (demo_tx 1) (take (length demo_answer) buf') = Some False"
proof -
  have k: "key_byte (demo_tx 1) = Some 1" "key_bytes (demo_tx 1) = replicate 32 1" "d_nonce (demo_tx 1) = replicate 12 9"
    "name_at_ptr (demo_tx 1) = Some (dn_of demo_name @ [])" "d_id (demo_tx 1) = [0, 0]" "d_qtype (demo_tx 1) = [0, 1]"
    by (simp_all add: key_byte_def key_bytes_def demo_tx_def empty_tx_def ld_def mem_read_def name_at_ptr_def)
  obtain j where j: "j < 1000" "name_at demo_answer 12 [[65, 98], [67]] j 18" using demo_answer_name by blast
  show ?thesis
    using streamlined_answer_accepted [OF k(1) _ _ _ _ _ _ _ _ k(4) _ _ _ _ _ j(2) _ j(1), of "replicate 12 3" "replicate 8 82"] k
    by (simp add: demo_answer_def demo_name_def is_label_def wf_name_def mem_read_def case_fold_def)
qed

subsection \<open>Servers with and without keys\<close>

text \<open>
  C38: What happens in a list that is not uniform: \<open>regularquery\<close>, for a server without a key, lets the name of the transmission
  point into its own query buffer.  When a server with a key in the streamlined form follows, the query sent
  is still right for names of at most 24 bytes, but the pointer is kept and now leads into the public key of the query, from its
  fifth byte on; if that byte is above 127, no packet at all is accepted from that server any more: \<open>irrelevant\<close>
  rejects it, or reads on through the ciphertext and leaves the buffer.
\<close>

theorem mixed_servers_lose_answers:
  assumes "d_query d = Some q" "d_name d = Outside (dn_of ls @ r)" "list_all is_label ls" "length (dn_of ls) \<le> 24"
    and "length (d_qtype d) = 2" "length (d_pk d) = 32" "length (dn_of ls) + 278 \<le> length q" "os_ok os" "sys_ok y"
    and "key_byte d = Some 0" "key_byte (d\<lparr>d_curserver := j\<rparr>) = Some k" "k \<noteq> 0" "k \<noteq> 2" "128 \<le> unat (d_pk d ! 4)"
    and "length (key_bytes (d\<lparr>d_curserver := j\<rparr>)) = 32"
  shows "\<exists>d1 y1 d2 y2 q2. makequery os d y = Some (d1, y1) \<and> makequery os (d1\<lparr>d_curserver := j\<rparr>) y1 = Some (d2, y2) \<and>
     query_built (magicq y) ls [] d2 \<and> d_name d1 = Inside 14 \<and> d_name d2 = Inside 14 \<and>
     d_query d2 = Some q2 \<and> mem_read q2 14 28 = drop 4 (d_pk d) \<and>
     (\<forall>al buf. irrelevant al d2 buf = Some True \<or> irrelevant al d2 buf = None)"
proof -
  have own: "own_name (d_name d) q ls" using assms(2,3) by (auto simp: own_name_def)
  obtain d1 y1 q1 where 1: "makequery os d y = Some (d1, y1)" "d_query d1 = Some q1" "length q1 = length q" "new_query d d1"
      "d_name d1 = Inside 14" "own_name (d_name d1) q1 ls"
    using regular_built [OF assms(1) own assms(5) _ assms(8,10), of y "[]"] assms(7) by auto
  let ?d = "d1\<lparr>d_curserver := j\<rparr>"
  have u: "d_qtype d1 = d_qtype d" "d_pk d1 = d_pk d" "d_keys d1 = d_keys d" using 1(4) by (simp_all add: new_query_def)
  then have kb: "key_byte ?d = Some k" "length (key_bytes ?d) = 32"
    using assms(11,15) by (cases "d_keys d"; simp add: key_byte_def key_bytes_def)+
  have y1: "sys_ok y1" "magicq y1 = magicq y" using makequery_magic [OF 1(1)] assms(9) by (simp_all add: sys_ok_def)
  obtain d2 y2 q2 where 2: "makequery os ?d y1 = Some (d2, y2)" "d_query d2 = Some q2" "length q2 = length q" "d_name d2 = Inside 14"
      "mem_read q2 10 32 = d_pk d" "query_built (magicq y) ls [] d2"
    using streamlined_built [OF _ _ _ _ _ _ assms(8) y1(1) kb(1) assms(12,13) kb(2), of q1 ls "[]"] 1 u y1(2) assms(4-7) by auto
  have pk: "mem_read q2 14 28 = drop 4 (d_pk d)" using arg_cong [OF 2(5), of "drop 4"] by (simp add: mem_read_def drop_take)
  have "q2 ! 14 = d_pk d ! 4" using arg_cong [OF 2(5), of "\<lambda>x. x ! 4"] 2(3) assms(7) by (simp add: mem_read_def)
  then have "name_at_ptr d2 = Some (d_pk d ! 4 # drop 15 q2)"
    using 2(2-4) assms(7) by (simp add: name_at_ptr_def Cons_nth_drop_Suc [symmetric])
  then have "irrelevant al d2 buf \<noteq> Some False" for al buf using assms(14) by (rule irrelevant_high_byte)
  then have "irrelevant al d2 buf = Some True \<or> irrelevant al d2 buf = None" for al buf by (metis (full_types) option.exhaust)
  with 1(1,5) 2(1,2,4,6) pk show ?thesis by blast
qed

definition mixed_tx :: dns_transmit where
  "mixed_tx = (demo_tx 1)\<lparr>d_keys := Some (0 # replicate 527 1)\<rparr>"

theorem mixed_servers_lose_answers_witness:
  "\<exists>d1 y1 d2 y2 q2. makequery count_os mixed_tx count_sys = Some (d1, y1) \<and> makequery count_os (d1\<lparr>d_curserver := 1\<rparr>) y1 = Some (d2, y2) \<and>
     query_built (magicq count_sys) demo_name [] d2 \<and> d_name d1 = Inside 14 \<and> d_name d2 = Inside 14 \<and>
     d_query d2 = Some q2 \<and> mem_read q2 14 28 = drop 4 (d_pk mixed_tx) \<and>
     (\<forall>al buf. irrelevant al d2 buf = Some True \<or> irrelevant al d2 buf = None)"
  by (rule mixed_servers_lose_answers [where q = "replicate 600 0" and ls = demo_name and r = "[]" and k = 1])
    (simp_all add: mixed_tx_def demo_tx_def empty_tx_def key_byte_def key_bytes_def ld_def demo_name_def is_label_def)

end
