(* ===== verification/CurveLink.thy ===== *)
theory CurveLink
  imports CurveSafe TransmitProps
begin

section \<open>Resolver and forwarder\<close>

text \<open>
  The two ends of DNSCurve in this package work together: \<open>makequery\<close> and \<open>getquery\<close> of dq with the UDP handlers of
  curvedns, in both forms.
\<close>

subsection \<open>Queries\<close>

lemma built_streamlined:
  assumes "query_built magic_q ls sl d" "key_byte d = Some k" "k \<noteq> 0" "k \<noteq> 2" "d_query d = Some q"
  obtains c where "mem_read q 2 (d_querylen d - 2) = magic_q @ d_pk d @ d_nonce d @ c"
    "crypto_secretbox_open (replicate 16 0 @ c) (d_nonce d @ replicate 12 0) (key_bytes d) = Some (replicate 32 0 @ base_message d ls)"
    "length (d_nonce d) = 12" "length (d_id d) = 2" "d_querylen d \<le> length q" "18 \<le> d_querylen d"
  using assms by (auto simp: query_built_def carries_def)

lemma built_txt:
  assumes "query_built magic_q ls sl d" "key_byte d = Some 2" "d_query d = Some q" "length (d_pk d) = 32" "list_all is_label sl"
  obtains i c qs where "mem_read q 2 (d_querylen d - 2) = txt_packet i qs" "length i = 2" "list_all is_label qs"
    "dn_of qs = dns_base32_encodebytes (d_nonce d @ c) @ dns_base32_encodekey (d_pk d) @ dn_of sl"
    "crypto_secretbox_open (replicate 16 0 @ c) (d_nonce d @ replicate 12 0) (key_bytes d) = Some (replicate 32 0 @ base_message d ls)"
    "length (d_nonce d) = 12" "length (d_id d) = 2" "d_querylen d \<le> length q" "18 \<le> d_querylen d"
proof -
  obtain i c where a: "length i = 2" "mem_read q 2 (d_querylen d - 2) = i @ DnsQuery.query_header False @ dns_base32_encodebytes (d_nonce d @ c) @
        dns_base32_encodekey (d_pk d) @ dn_of sl @ [0, 16, 0, 1]"
      "crypto_secretbox_open (replicate 16 0 @ c) (d_nonce d @ replicate 12 0) (key_bytes d) = Some (replicate 32 0 @ base_message d ls)"
      "length (d_nonce d) = 12" "length (d_id d) = 2" "d_querylen d \<le> length q" "18 \<le> d_querylen d"
    using assms(1-3) by (auto simp: query_built_def carries_def)
  obtain qs where "dns_base32_encodebytes (d_nonce d @ c) @ dns_base32_encodekey (d_pk d) @ dn_of sl = dn_of qs" "list_all is_label qs"
    using text_name [OF assms(4,5)] by blast
  moreover from this a(2) have "mem_read q 2 (d_querylen d - 2) = txt_packet i qs"
    by (simp add: txt_packet_def DnsQuery.query_header_def flip: append_assoc)
  ultimately show thesis using that a by metis
qed

subsection \<open>Answers\<close>

lemma streamlined_reply_opened:
  assumes "crypto_secretbox (replicate 32 0 @ m) (d_nonce d @ n2) (key_bytes d) = Some c" "length (d_nonce d) = 12" "length n2 = 12"
    and "key_byte d = Some k" "k \<noteq> 0" "k \<noteq> 2" "length (key_bytes d) = 32"
  shows "\<exists>buf. getquery d magic_r (magic_r @ d_nonce d @ n2 @ drop 16 c) (length (magic_r @ d_nonce d @ n2 @ drop 16 c)) = Some (0, buf, length m) \<and>
    take (length m) buf = m"
proof -
  have "crypto_secretbox_open c (d_nonce d @ n2) (key_bytes d) = Some (replicate 32 0 @ m)" "take 16 c = replicate 16 0"
    using secretbox_opens [of "replicate 32 0 @ m" "d_nonce d @ n2" "key_bytes d"] assms(1) by auto
  then show ?thesis
    using getquery_streamlined_accepts [of c d n2 "replicate 32 0 @ m" magic_r] assms(2-7) by (auto simp: getquery_def)
qed

lemma txt_reply_opened:
  assumes "crypto_secretbox (replicate 32 0 @ m) (d_nonce d @ n2) (key_bytes d) = Some c" "length (d_nonce d) = 12" "length n2 = 12"
    and "key_byte d = Some 2" "d_query d = Some q" "16 \<le> length q" "drop 14 q = dn_of qs @ r" "list_all is_label qs" "length m \<le> 4064" "mem_read q 2 2 = i"
    and "length (key_bytes d) = 32"
  shows "\<exists>buf. getquery d magic_r (txt_reply i (dn_of qs) (n2 @ drop 16 c)) (length (txt_reply i (dn_of qs) (n2 @ drop 16 c))) = Some (0, buf, length m) \<and>
    take (length m) buf = m"
proof -
  have c: "crypto_secretbox_open c (d_nonce d @ n2) (key_bytes d) = Some (replicate 32 0 @ m)" "take 16 c = replicate 16 0" "length c = 32 + length m"
    using secretbox_opens [of "replicate 32 0 @ m" "d_nonce d @ n2" "key_bytes d"] assms(1) by auto
  note ss = chunks255_strings [of "n2 @ drop 16 c"]
  then have "length (txt_strings (chunks255 (n2 @ drop 16 c))) < 65536" using c(3) assms(3,9) by simp
  then show ?thesis
    using getquery_txt_accepts [OF assms(5-8) c(1,2) assms(3,11), of "chunks255 (n2 @ drop 16 c)"] ss assms(4,10)
    by (auto simp: getquery_def txt_reply_def)
qed

subsection \<open>The round trip\<close>

text \<open>
  C2: DNSCurve end to end: the query that \<open>makequery\<close> of dq has built for a server with a key, in the streamlined or in the TXT
  form, is opened by curvedns when the keys belong together, and the datagram sent to the authoritative server is exactly the message for
  the name, under a new id.  Whatever response with that id comes back from that server, if there is room for the answer, the packet curvedns
  sends is opened by \<open>getquery\<close> of dq to this response under the id of the resolver.  No access leaves a buffer.
\<close>

theorem forwarder_serves_resolver:
  assumes "query_built magic_q ls sl d" "key_byte d = Some k" "k \<noteq> 0" "d_query d = Some q" "d_querylen d \<le> 4098"
    and "length (d_pk d) = 32" "unat (d_pk d ! 31) < 128" "list_all is_label sl" "server_ok s" "length sb = 4096"
    and "key_bytes d = crypto_box_beforenm (d_pk d) (s_secret s)"
  shows "\<exists>e s'. event_udp_ext 4096 (\<lambda>_. True) True True (mem_read q 2 (d_querylen d - 2)) s sb =
      Some (Some (1, e, uint16_pack_big (p_dsttxid (v_dns e)) @ drop 2 (base_message d ls)), s') \<and> server_ok s' \<and> s_secret s' = s_secret s \<and>
    (\<forall>time target peer resp r sb'. ip_compare_address peer target = 0 \<and> ip_compare_port peer target = 0 \<and> take 2 resp = uint16_pack_big (p_dsttxid (v_dns e)) \<and> 12 \<le> length resp \<and> d_querylen d + length resp \<le> 4041 \<and> length sb' = 4096 \<longrightarrow>
      (\<exists>out r' buf. event_udp_int time target peer e resp r sb' = Some (Some out, r') \<and>
         getquery d magic_r out (length out) = Some (0, buf, length resp) \<and> take (length resp) buf = d_id d @ drop 2 resp))"
proof -
  let ?pkt = "mem_read q 2 (d_querylen d - 2)" and ?m = "base_message d ls" and ?K = "key_bytes d"
  have K: "nacl_box_beforenm (d_pk d) (s_secret s) = ?K" "length ?K = 32"
    using box_keys_agree [OF assms(6) _ assms(7), of "s_secret s"] assms(9,11) length_beforenm [of "d_pk d" "s_secret s"]
    by (simp_all add: server_ok_def)
  have idm: "uint16_pack_big (uint16_unpack_big ?m) = d_id d" "2 \<le> length ?m" if "length (d_id d) = 2"
    using that by (simp_all add: base_message_def uint16_pack_unpack_big)
  have ln: "length (d_id d @ drop 2 resp) = length resp" if "length (d_id d) = 2" "12 \<le> length resp" for resp using that by simp
  show ?thesis
  proof (cases "k = 2")
    case False
    obtain c where c: "?pkt = magic_q @ d_pk d @ d_nonce d @ c"
      "crypto_secretbox_open (replicate 16 0 @ c) (d_nonce d @ replicate 12 0) ?K = Some (replicate 32 0 @ ?m)"
      "length (d_nonce d) = 12" "length (d_id d) = 2" "d_querylen d \<le> length q" "18 \<le> d_querylen d"
      by (rule built_streamlined [OF assms(1-3) False assms(4)])
    have pl: "length ?pkt \<le> 4096" using assms(5) c(5,6) by simp
    obtain e s' where e: "event_udp_ext 4096 (\<lambda>_. True) True True ?pkt s sb = Some (Some (1, e, uint16_pack_big (p_dsttxid (v_dns e)) @ drop 2 ?m), s')"
        "server_ok s'" "s_secret s' = s_secret s" "length (v_buffer e) = 4096"
        "streamlined_session ?K (d_nonce d) (uint16_unpack_big ?m) (v_dns e)"
      using streamlined_query_forwarded [OF assms(9,6) c(3) assms(10) pl [unfolded c(1)] _ c(2) [folded K(1)] idm(2) [OF c(4)], of "\<lambda>_. True"]
      unfolding c(1) [symmetric] K(1) by auto
    have "\<exists>out r' buf. event_udp_int time target peer e resp r sb' = Some (Some out, r') \<and>
         getquery d magic_r out (length out) = Some (0, buf, length resp) \<and> take (length resp) buf = d_id d @ drop 2 resp"
      if "ip_compare_address peer target = 0 \<and> ip_compare_port peer target = 0 \<and> take 2 resp = uint16_pack_big (p_dsttxid (v_dns e)) \<and>
        12 \<le> length resp \<and> d_querylen d + length resp \<le> 4041 \<and> length sb' = 4096" for time target peer resp r sb'
    proof -
      have h: "ip_compare_address peer target = 0" "ip_compare_port peer target = 0" "take 2 resp = uint16_pack_big (p_dsttxid (v_dns e))" "12 \<le> length resp" "d_querylen d + length resp \<le> 4041" "length sb' = 4096"
        using that by simp_all
      obtain n2 c2 r' where r: "event_udp_int time target peer e resp r sb' = Some (Some (magic_r @ d_nonce d @ n2 @ drop 16 c2), r')" "length n2 = 12"
          "crypto_secretbox (replicate 32 0 @ d_id d @ drop 2 resp) (d_nonce d @ n2) ?K = Some c2"
        using streamlined_answer_sealed [OF e(5) K(2) c(3), of sb' resp peer target time r] h e(4) c(6) unfolding idm(1) [OF c(4)] by auto
      show ?thesis
        using streamlined_reply_opened [OF r(3) c(3) r(2) assms(2,3) False K(2)] r(1) ln [OF c(4)] h by auto
    qed
    then show ?thesis using e by blast
  next
    case True
    obtain i c qs where c: "?pkt = txt_packet i qs" "length i = 2" "list_all is_label qs"
      "dn_of qs = dns_base32_encodebytes (d_nonce d @ c) @ dns_base32_encodekey (d_pk d) @ dn_of sl"
      "crypto_secretbox_open (replicate 16 0 @ c) (d_nonce d @ replicate 12 0) ?K = Some (replicate 32 0 @ ?m)"
      "length (d_nonce d) = 12" "length (d_id d) = 2" "d_querylen d \<le> length q" "18 \<le> d_querylen d"
      by (rule built_txt [OF assms(1) _ assms(4,6,8)]) (use assms(2) True in simp)
    have pl: "length ?pkt \<le> 4096" "length ?pkt = d_querylen d - 2" using assms(5) c(8,9) by simp_all
    obtain e s' where e: "event_udp_ext 4096 (\<lambda>_. True) True True ?pkt s sb = Some (Some (1, e, uint16_pack_big (p_dsttxid (v_dns e)) @ drop 2 ?m), s')"
        "server_ok s'" "s_secret s' = s_secret s" "length (v_buffer e) = 4096"
        "txt_session ?K (d_nonce d) (uint16_unpack_big i) (uint16_unpack_big ?m) (dn_of qs) (v_dns e)"
      using txt_query_forwarded [OF assms(9,6,7) c(6) assms(10) pl(1) [unfolded c(1)] c(2-4) c(5) [folded K(1)] idm(2) [OF c(7)]]
      unfolding c(1) [symmetric] K(1) by auto
    have pk: "16 + length (dn_of qs) = d_querylen d - 2" using arg_cong [OF c(1), of length] pl(2) c(2) by (simp add: txt_packet_def)
    have ii: "uint16_pack_big (uint16_unpack_big i) = i" using c(2) by (simp add: uint16_pack_unpack_big)
    have q: "16 \<le> length q" "mem_read q 2 2 = i" using c(8,9) txt_packet_parts(7) [OF c(2,3)] pl(1) pk
      unfolding c(1) [symmetric] by (simp_all add: mem_read_def)
    have "mem_read q 14 (d_querylen d - 14) = drop 12 ?pkt" by (simp add: mem_read_def drop_take)
    also have "\<dots> = dn_of qs @ [0, 16, 0, 1]" unfolding c(1) using c(2) by (simp add: txt_packet_def)
    finally have qd: "drop 14 q = dn_of qs @ [0, 16, 0, 1] @ drop (d_querylen d - 14) (drop 14 q)"
      by (metis append_assoc append_take_drop_id mem_read_def)
    have "\<exists>out r' buf. event_udp_int time target peer e resp r sb' = Some (Some out, r') \<and>
         getquery d magic_r out (length out) = Some (0, buf, length resp) \<and> take (length resp) buf = d_id d @ drop 2 resp"
      if "ip_compare_address peer target = 0 \<and> ip_compare_port peer target = 0 \<and> take 2 resp = uint16_pack_big (p_dsttxid (v_dns e)) \<and>
        12 \<le> length resp \<and> d_querylen d + length resp \<le> 4041 \<and> length sb' = 4096" for time target peer resp r sb'
    proof -
      have h: "ip_compare_address peer target = 0" "ip_compare_port peer target = 0" "take 2 resp = uint16_pack_big (p_dsttxid (v_dns e))" "12 \<le> length resp" "d_querylen d + length resp \<le> 4041" "length sb' = 4096"
        using that by simp_all
      have rm: "length (dn_of qs) + length resp + 73 \<le> 4096" using h(5) pk c(9) by linarith
      obtain n2 c2 r' where r: "event_udp_int time target peer e resp r sb' = Some (Some (txt_reply i (dn_of qs) (n2 @ drop 16 c2)), r')" "length n2 = 12"
          "crypto_secretbox (replicate 32 0 @ d_id d @ drop 2 resp) (d_nonce d @ n2) ?K = Some c2"
        using txt_answer_sealed [OF e(5) K(2) c(6), of sb' resp peer target time r] h rm e(4) unfolding idm(1) [OF c(7)] ii by auto
      show ?thesis
        using txt_reply_opened [OF r(3) c(6) r(2) assms(2) [unfolded True] assms(4) q(1) qd c(3) _ q(2) K(2)] r(1) ln [OF c(7)] h by auto
    qed
    then show ?thesis using e by blast
  qed
qed

definition link_tx :: dns_transmit where
  "link_tx = (demo_tx 1)\<lparr>d_pk := replicate 32 5, d_keys := Some (1 # crypto_box_beforenm (replicate 32 5) (replicate 32 6))\<rparr>"

theorem forwarder_serves_resolver_witness:
  "\<exists>t d' y' q e s'. dnscurve_init (\<lambda>_. True) 5000 = Some t \<and> makequery count_os link_tx (count_sys\<lparr>magicq := magic_q\<rparr>) = Some (d', y') \<and> d_query d' = Some q \<and>
     event_udp_ext 4096 (\<lambda>_. True) True True (mem_read q 2 (d_querylen d' - 2))
       \<lparr>s_cache = t, s_secret = replicate 32 6, s_rnd = no_rnd\<rparr> (replicate 4096 0) =
         Some (Some (1, e, uint16_pack_big (p_dsttxid (v_dns e)) @ drop 2 (base_message d' demo_name)), s')"
proof -
  let ?K = "crypto_box_beforenm (replicate 32 5) (replicate 32 6)" and ?y = "count_sys\<lparr>magicq := magic_q\<rparr>"
  let ?s = "\<lambda>t. \<lparr>s_cache = t, s_secret = replicate 32 6, s_rnd = no_rnd\<rparr>"
  obtain t where t: "dnscurve_init (\<lambda>_. True) 5000 = Some t" using init_5000 by blast
  have K: "length ?K = 32"
    using length_beforenm [of "replicate 32 5" "replicate 32 6"] box_keys_agree [of "replicate 32 5" "replicate 32 6"] by simp
  have d: "key_byte link_tx = Some 1" "key_bytes link_tx = ?K" "d_pk link_tx = replicate 32 5" "d_query link_tx = Some (replicate 600 0)"
    "length (d_qtype link_tx) = 2" "d_name link_tx = Outside (dn_of demo_name)"
    using K by (simp_all add: link_tx_def demo_tx_def empty_tx_def key_byte_def key_bytes_def ld_def mem_read_def)
  have own: "own_name (d_name link_tx) (replicate 600 0) demo_name" by (simp add: d(6) own_name_def demo_name_def is_label_def)
  have y: "sys_ok ?y" by (simp add: sys_ok_def count_sys_def)
  obtain d' y' q where m: "makequery count_os link_tx ?y = Some (d', y')" "d_query d' = Some q" "length q = 600" "new_query link_tx d'" "query_built magic_q demo_name [] d'"
    using streamlined_built [OF d(4) own _ d(5) _ _ count_os_ok(1) y d(1), of "[]"] d(2,3,6) K by (auto simp: demo_name_def)
  have k: "key_byte d' = Some 1" "key_bytes d' = ?K" "d_pk d' = replicate 32 5"
    using new_query_key [OF m(4)] m(4) d(1-3) by (simp_all add: new_query_def)
  have ql: "d_querylen d' \<le> 4098" using m(2,3,5) by (auto simp: query_built_def)
  have S: "server_ok (?s t)" by (rule dnscurve_init_ok [OF t]) simp
  obtain e s' where "event_udp_ext 4096 (\<lambda>_. True) True True (mem_read q 2 (d_querylen d' - 2)) (?s t) (replicate 4096 0) =
     Some (Some (1, e, uint16_pack_big (p_dsttxid (v_dns e)) @ drop 2 (base_message d' demo_name)), s')"
    using forwarder_serves_resolver [OF m(5) k(1) _ m(2) ql _ _ _ S, where sb = "replicate 4096 0"]
      k(2,3) by (auto simp del: replicate.simps)
  then show ?thesis using t m(1,2) by blast
qed

end
