(* ===== verification/CurveEvents.thy ===== *)
theory CurveEvents
  imports CurveSafe
begin

section \<open>The event handlers of the forwarder\<close>

text \<open>
  The model of \<open>curvedns-0.88/event_tcp.c\<close> and of the timer in \<open>event_udp.c\<close>: what the callbacks that libev invokes do to an entry.  The result
  of \<open>recv\<close> and \<open>send\<close> is an argument; watchers, timers, log lines and the sockets themselves are left out.
  An entry that is cleaned up is \<open>None\<close>.
\<close>

subsection \<open>UDP: retries\<close>

text \<open>\<open>r\<close> counts the times the query was sent; \<open>op\<close> and \<open>sent\<close> say whether socket and \<open>sendto\<close> succeed.\<close>

definition event_udp_timeout :: "bool \<Rightarrow> bool \<Rightarrow> byte \<Rightarrow> byte \<Rightarrow> entry \<Rightarrow> server \<Rightarrow> ((byte \<times> entry \<times> bytes) option \<times> server) option" where
  "event_udp_timeout op sent retries r e s = (if r \<ge> retries then Some (None, s) else dns_forward_query_udp op sent r e s)"

subsection \<open>TCP\<close>

datatype tcp_state = EXT_READING_INIT | EXT_READING_MORE | EXT_WRITING_INIT | EXT_WRITING_MORE |
  INT_READING_INIT | INT_READING_MORE | INT_WRITING_INIT | INT_WRITING_MORE

record tcp_entry =
  t_entry :: entry
  t_bufferat :: nat
  t_state :: tcp_state

definition internal :: "tcp_state \<Rightarrow> bool" where
  "internal w \<longleftrightarrow> (case w of INT_READING_INIT \<Rightarrow> True | INT_READING_MORE \<Rightarrow> True | INT_WRITING_INIT \<Rightarrow> True | INT_WRITING_MORE \<Rightarrow> True | _ \<Rightarrow> False)"

definition initial :: "tcp_state \<Rightarrow> bool" where
  "initial w \<longleftrightarrow> (case w of EXT_READING_INIT \<Rightarrow> True | EXT_WRITING_INIT \<Rightarrow> True | INT_READING_INIT \<Rightarrow> True | INT_WRITING_INIT \<Rightarrow> True | _ \<Rightarrow> False)"

definition reading :: "tcp_state \<Rightarrow> bool" where
  "reading w \<longleftrightarrow> (case w of EXT_READING_INIT \<Rightarrow> True | EXT_READING_MORE \<Rightarrow> True | INT_READING_INIT \<Rightarrow> True | INT_READING_MORE \<Rightarrow> True | _ \<Rightarrow> False)"

text \<open>A complete packet from the client; \<open>up\<close> says whether the connection to the authoritative server is opened.\<close>

definition tcp_query_done :: "(nat \<Rightarrow> bool) \<Rightarrow> bool \<Rightarrow> entry \<Rightarrow> server \<Rightarrow> bytes \<Rightarrow> (tcp_entry option \<times> server) option" where
  "tcp_query_done al up e s sb =
     do { (ok, e, s) \<leftarrow> dnscurve_analyze_query al e s sb;
          if \<not> ok then Some (None, s)
          else if \<not> up then Some (None, s)
          else do { (e, s) \<leftarrow> dns_forward_query e s;
            Some (Some \<lparr>t_entry = e, t_bufferat = 0, t_state = INT_WRITING_INIT\<rparr>, s) } }"

text \<open>A complete packet from the authoritative server.\<close>

definition tcp_reply_done :: "bytes \<Rightarrow> entry \<Rightarrow> server \<Rightarrow> bytes \<Rightarrow> (tcp_entry option \<times> server) option" where
  "tcp_reply_done time e s sb =
     do { (ok, e) \<leftarrow> dns_analyze_reply_query e;
          if \<not> ok then Some (None, s)
          else do { (ok, e, s) \<leftarrow> dns_reply_query time e s sb;
            Some (if ok then Some \<lparr>t_entry = e, t_bufferat = 0, t_state = EXT_WRITING_INIT\<rparr> else None, s) } }"

text \<open>\<open>rv n\<close> is what \<open>recv\<close> delivers when asked for \<open>n\<close> bytes: \<open>None\<close> not ready, no bytes for the end or an error.\<close>

definition event_tcp_read ::
    "bytes \<Rightarrow> (nat \<Rightarrow> bool) \<Rightarrow> bool \<Rightarrow> (nat \<Rightarrow> bytes option) \<Rightarrow> tcp_entry \<Rightarrow> server \<Rightarrow> bytes \<Rightarrow> (tcp_entry option \<times> server) option" where
  "event_tcp_read time al up rv t s sb =
     (let e = t_entry t; w = t_state t in
      if t_bufferat t \<ge> length (v_buffer e) \<or> \<not> reading w then Some (None, s)
      else case rv ((if initial w then 2 else v_packetsize e) - t_bufferat t) of
          None \<Rightarrow> Some (Some t, s)
        | Some b \<Rightarrow>
          if b = [] then Some (None, s)
          else do {
            buf \<leftarrow> wr (v_buffer e) (t_bufferat t) b;
            let e = e\<lparr>v_buffer := buf\<rparr>;
            let pos = t_bufferat t + length b;
            if initial w
            then if pos = 2
              then do {
                n \<leftarrow> rd buf 0 2;
                let e = e\<lparr>v_packetsize := unat (uint16_unpack_big n)\<rparr>;
                if v_packetsize e > length buf then Some (None, s)
                else Some (Some (t\<lparr>t_entry := e, t_bufferat := 0, t_state := (if internal w then INT_READING_MORE else EXT_READING_MORE)\<rparr>), s) }
              else Some (Some (t\<lparr>t_entry := e, t_bufferat := pos\<rparr>), s)
            else if pos < v_packetsize e then Some (Some (t\<lparr>t_entry := e, t_bufferat := pos\<rparr>), s)
            else if internal w then tcp_reply_done time e s sb
            else tcp_query_done al up e s sb })"

text \<open>
  \<open>sd b\<close> is the result of \<open>send\<close> for the bytes \<open>b\<close>: not ready, the number sent, or a negative number.  The
  bytes that went out are part of the result.
\<close>

definition event_tcp_write :: "(bytes \<Rightarrow> int option) \<Rightarrow> tcp_entry \<Rightarrow> (bytes \<times> tcp_entry option) option" where
  "event_tcp_write sd t =
     (let e = t_entry t; w = t_state t in
      if t_bufferat t \<ge> length (v_buffer e) \<or> reading w then Some ([], None)
      else do {
        buffer \<leftarrow> (if initial w then rd (uint16_pack_big (of_nat (v_packetsize e))) (t_bufferat t) (2 - t_bufferat t)
                   else rd (v_buffer e) (t_bufferat t) (v_packetsize e - t_bufferat t));
        case sd buffer of
          None \<Rightarrow> Some ([], Some t)
        | Some n \<Rightarrow>
          if n < 0 then Some ([], None)
          else
            let pos = t_bufferat t + nat n; out = take (nat n) buffer in
            if initial w
            then Some (out, Some (if pos = 2 then t\<lparr>t_bufferat := 0, t_state := (if internal w then INT_WRITING_MORE else EXT_WRITING_MORE)\<rparr>
                                  else t\<lparr>t_bufferat := pos\<rparr>))
            else if pos < v_packetsize e then Some (out, Some (t\<lparr>t_bufferat := pos\<rparr>))
            else Some (out, Some \<lparr>t_entry = e\<lparr>v_packetsize := 0\<rparr>, t_bufferat = 0, t_state = (if internal w then INT_READING_INIT else EXT_READING_INIT)\<rparr>) })"

text \<open>A new connection, with a buffer of \<open>n\<close> bytes (\<open>global_ip_tcp_buffersize\<close>).\<close>

definition event_tcp_accept :: "nat \<Rightarrow> tcp_entry" where
  "event_tcp_accept n = \<lparr>t_entry = \<lparr>v_buffer = replicate n 0, v_packetsize = 0, v_dns = empty_packet\<rparr>, t_bufferat = 0, t_state = EXT_READING_INIT\<rparr>"

subsection \<open>Signals\<close>

text \<open>\<open>SIGHUP\<close> empties the cache.\<close>

definition event_sighup :: "server \<Rightarrow> server option" where
  "event_sighup s = do { c \<leftarrow> cache_empty_ht (s_cache s); Some (s\<lparr>s_cache := c\<rparr>) }"

subsection \<open>The number of connections\<close>

text \<open>The static counter and whether the watchers that accept connections run.\<close>

record monitor =
  m_connections :: int
  m_listening :: bool

definition count_accept :: "int \<Rightarrow> monitor \<Rightarrow> monitor" where
  "count_accept mx m =
     (let m = m\<lparr>m_connections := m_connections m + 1\<rparr> in if m_connections m \<ge> mx then m\<lparr>m_listening := False\<rparr> else m)"

definition count_cleanup :: "int \<Rightarrow> monitor \<Rightarrow> monitor" where
  "count_cleanup mx m =
     (let n = m_connections m; m = m\<lparr>m_connections := n - 1\<rparr> in if n = mx then m\<lparr>m_listening := True\<rparr> else m)"

end
