(* ===== verification/CurveRun.thy ===== *)
theory CurveRun
  imports CurveEvents
begin

section \<open>Connections of the forwarder\<close>

text \<open>
  What the TCP handlers of \<open>CurveEvents\<close> do over whole connections: an invariant of everything a connection can reach,
  and that it does not matter in which pieces bytes arrive or leave.
\<close>

subsection \<open>The invariant of a connection\<close>


lemma state_simps [simp]:
  "internal EXT_READING_INIT = False" "internal EXT_READING_MORE = False" "internal EXT_WRITING_INIT = False" "internal EXT_WRITING_MORE = False"
  "internal INT_READING_INIT = True" "internal INT_READING_MORE = True" "internal INT_WRITING_INIT = True" "internal INT_WRITING_MORE = True"
  "initial EXT_READING_INIT = True" "initial EXT_READING_MORE = False" "initial EXT_WRITING_INIT = True" "initial EXT_WRITING_MORE = False"
  "initial INT_READING_INIT = True" "initial INT_READING_MORE = False" "initial INT_WRITING_INIT = True" "initial INT_WRITING_MORE = False"
  "reading EXT_READING_INIT = True" "reading EXT_READING_MORE = True" "reading EXT_WRITING_INIT = False" "reading EXT_WRITING_MORE = False"
  "reading INT_READING_INIT = True" "reading INT_READING_MORE = True" "reading INT_WRITING_INIT = False" "reading INT_WRITING_MORE = False"
  by (simp_all add: internal_def initial_def reading_def)









subsection \<open>Reachable connections\<close>





subsection \<open>Pieces\<close>

text \<open>A run of \<open>event_tcp_read\<close> on the pieces that arrive, and of \<open>event_tcp_write\<close> when \<open>send\<close> takes the given numbers of bytes.\<close>

fun tcp_reads :: "bytes \<Rightarrow> (nat \<Rightarrow> bool) \<Rightarrow> bool \<Rightarrow> bytes \<Rightarrow> bytes list \<Rightarrow> tcp_entry \<Rightarrow> server \<Rightarrow> (tcp_entry option \<times> server) option" where
  "tcp_reads time al up sb [] t s = Some (Some t, s)"
| "tcp_reads time al up sb (b # bs) t s =
     do { (r, s) \<leftarrow> event_tcp_read time al up (\<lambda>_. Some b) t s sb;
          case r of None \<Rightarrow> Some (None, s) | Some t \<Rightarrow> tcp_reads time al up sb bs t s }"

fun tcp_writes :: "nat list \<Rightarrow> tcp_entry \<Rightarrow> (bytes \<times> tcp_entry option) option" where
  "tcp_writes [] t = Some ([], Some t)"
| "tcp_writes (k # ks) t =
     do { (out, r) \<leftarrow> event_tcp_write (\<lambda>_. Some (int k)) t;
          case r of None \<Rightarrow> Some (out, None) | Some t \<Rightarrow> do { (out2, r) \<leftarrow> tcp_writes ks t; Some (out @ out2, r) } }"

definition packet_done :: "bytes \<Rightarrow> (nat \<Rightarrow> bool) \<Rightarrow> bool \<Rightarrow> bytes \<Rightarrow> bool \<Rightarrow> entry \<Rightarrow> server \<Rightarrow> (tcp_entry option \<times> server) option" where
  "packet_done time al up sb i e s = (if i then tcp_reply_done time e s sb else tcp_query_done al up e s sb)"

lemma reads_last:
  "Option.bind m (\<lambda>(r, s). case r of None \<Rightarrow> Some (None, s) | Some t \<Rightarrow> tcp_reads time al up sb [] t s) = m"
  by (cases m) (auto split: option.split)

lemma reads_body:
  assumes "t_state t = (if i then INT_READING_MORE else EXT_READING_MORE)" "bs \<noteq> []" "[] \<notin> set bs"
    and "t_bufferat t + length (concat bs) = v_packetsize (t_entry t)" "v_packetsize (t_entry t) \<le> length (v_buffer (t_entry t))"
  shows "tcp_reads time al up sb bs t s = packet_done time al up sb i ((t_entry t)\<lparr>v_buffer := mem_write (v_buffer (t_entry t)) (t_bufferat t) (concat bs)\<rparr>) s"
  using assms
proof (induction bs arbitrary: t)
  case (Cons b bs)
  let ?e = "t_entry t" and ?p = "t_bufferat t"
  have b: "b \<noteq> []" "0 < length b" using Cons.prems(3) by auto
  have w: "wr (v_buffer ?e) ?p b = Some (mem_write (v_buffer ?e) ?p b)" using Cons.prems(4,5) by (simp add: wr_def)
  show ?case
  proof (cases "bs = []")
    case True
    moreover have "?p + length b \<le> v_packetsize ?e" using Cons.prems(4) by simp
    then have "\<not> length (v_buffer ?e) \<le> ?p" using Cons.prems(5) b(2) by linarith
    ultimately show ?thesis
      using Cons.prems b w by (cases i) (simp_all add: event_tcp_read_def packet_done_def Let_def reads_last del: tcp_reads.simps(1))
  next
    case False
    have "0 < length (concat bs)" using False Cons.prems(3) by (cases bs) auto
    moreover have "?p + (length b + length (concat bs)) = v_packetsize ?e" using Cons.prems(4) by simp
    ultimately have lt: "?p + length b < v_packetsize ?e" by linarith
    define t1 where "t1 = t\<lparr>t_entry := ?e\<lparr>v_buffer := mem_write (v_buffer ?e) ?p b\<rparr>, t_bufferat := ?p + length b\<rparr>"
    have "event_tcp_read time al up (\<lambda>_. Some b) t s sb = Some (Some t1, s)"
      using Cons.prems(1,5) b w lt by (cases i) (simp_all add: event_tcp_read_def Let_def t1_def)
    moreover have "tcp_reads time al up sb bs t1 s = packet_done time al up sb i ((t_entry t1)\<lparr>v_buffer := mem_write (v_buffer (t_entry t1)) (t_bufferat t1) (concat bs)\<rparr>) s"
      using Cons.prems False by (intro Cons.IH) (simp_all add: t1_def)
    moreover have "mem_write (v_buffer (t_entry t1)) (t_bufferat t1) (concat bs) = mem_write (v_buffer ?e) ?p (concat (b # bs))"
      using mem_write_append [of ?p b "concat bs" "v_buffer ?e"] Cons.prems(4,5) by (simp add: t1_def)
    ultimately show ?thesis by (simp add: t1_def)
  qed
qed simp

lemma pieces_of_two:
  assumes "[] \<notin> set hs" "concat hs = [x, y]"
  shows "hs = [[x, y]] \<or> hs = [[x], [y]]"
proof -
  obtain h hs' where h: "hs = h # hs'" using assms(2) by (cases hs) auto
  then obtain z h' where z: "h = z # h'" using assms(1) by (cases h) auto
  show ?thesis
  proof (cases h')
    case Nil
    then have c: "z = x" "concat hs' = [y]" using assms(2) h z by simp_all
    then obtain g gs where g: "hs' = g # gs" by (cases hs') auto
    then obtain v g' where v: "g = v # g'" using assms(1) h by (cases g) auto
    then have "gs = []" using c(2) g assms(1) h by (cases gs) (auto simp: neq_Nil_conv)
    then show ?thesis using c h z g v Nil by simp
  next
    case (Cons v h2)
    then have "h2 = []" "concat hs' = []" "z = x" "v = y" using assms(2) h z by simp_all
    moreover from this have "hs' = []" using assms(1) h by (cases hs') auto
    ultimately show ?thesis using h z Cons by simp
  qed
qed

lemma tcp_entry_all: "t\<lparr>t_entry := e, t_bufferat := k, t_state := w\<rparr> = \<lparr>t_entry = e, t_bufferat = k, t_state = w\<rparr>"
  by (cases t) simp

lemma reads_prefix:
  assumes "t_state t = (if i then INT_READING_INIT else EXT_READING_INIT)" "t_bufferat t = 0" "[] \<notin> set hs" "concat hs = uint16_pack_big (of_nat k)"
    and "k \<le> length (v_buffer (t_entry t))" "k < 65536" "2 \<le> length (v_buffer (t_entry t))"
  shows "tcp_reads time al up sb (hs @ bs) t s = tcp_reads time al up sb bs
    \<lparr>t_entry = (t_entry t)\<lparr>v_buffer := mem_write (v_buffer (t_entry t)) 0 (uint16_pack_big (of_nat k)), v_packetsize := k\<rparr>,
     t_bufferat = 0, t_state = (if i then INT_READING_MORE else EXT_READING_MORE)\<rparr> s"
proof -
  let ?e = "t_entry t" and ?h = "uint16_pack_big (of_nat k)"
  obtain x y where xy: "?h = [x, y]" by (simp add: uint16_pack_big_def)
  have "uint16_unpack_big (mem_write (v_buffer ?e) 0 ?h) = uint16_unpack_big ?h"
    using assms(7) by (intro uint16_unpack_big_take) (simp_all add: mem_write_def)
  then have u: "unat (uint16_unpack_big (mem_write (v_buffer ?e) 0 [x, y])) = k" using assms(6) by (simp add: xy unat_of_nat flip: xy)
  have w: "wr (v_buffer ?e) 0 [x, y] = Some (mem_write (v_buffer ?e) 0 [x, y])" "wr (v_buffer ?e) 0 [x] = Some (mem_write (v_buffer ?e) 0 [x])"
    "wr (mem_write (v_buffer ?e) 0 [x]) 1 [y] = Some (mem_write (v_buffer ?e) 0 [x, y])"
    using assms(7) mem_write_append [of 0 "[x]" "[y]" "v_buffer ?e"] by (simp_all add: wr_def)
  have l: "\<not> length (v_buffer ?e) \<le> 0" "\<not> length (v_buffer ?e) \<le> 1" using assms(7) by linarith+
  have lm: "length (mem_write (v_buffer ?e) 0 [x, y]) = length (v_buffer ?e)" "length (mem_write (v_buffer ?e) 0 [x]) = length (v_buffer ?e)"
    using assms(7) l by simp_all
  from pieces_of_two [OF assms(3) assms(4) [unfolded xy]] show ?thesis
  proof
    assume hs: "hs = [[x, y]]"
    show ?thesis using assms(1,2,5) w u l lm by (cases i) (simp_all add: hs xy event_tcp_read_def Let_def tcp_entry_all)
  next
    assume hs: "hs = [[x], [y]]"
    show ?thesis using assms(1,2,5) w u l lm by (cases i) (simp_all add: hs xy event_tcp_read_def Let_def tcp_entry_all)
  qed
qed

text \<open>
  C6: It does not matter in which pieces a packet arrives on a connection: after its length and its bytes have come, from the client or from the
  authoritative server, the entry is what it would be had the packet come at once, and is then handled once.
\<close>

theorem tcp_pieces_irrelevant:
  assumes "t_state t = (if i then INT_READING_INIT else EXT_READING_INIT)" "t_bufferat t = 0"
    and "[] \<notin> set (hs @ bs)" "concat hs = uint16_pack_big (of_nat (length pkt))" "concat bs = pkt" "pkt \<noteq> []"
    and "length pkt \<le> length (v_buffer (t_entry t))" "length pkt < 65536" "2 \<le> length (v_buffer (t_entry t))"
  shows "tcp_reads time al up sb (hs @ bs) t s =
    (let b = mem_write (mem_write (v_buffer (t_entry t)) 0 (uint16_pack_big (of_nat (length pkt)))) 0 pkt;
         e = (t_entry t)\<lparr>v_packetsize := length pkt, v_buffer := b\<rparr>
     in if i then tcp_reply_done time e s sb else tcp_query_done al up e s sb)"
proof -
  have n: "[] \<notin> set hs" "[] \<notin> set bs" "bs \<noteq> []" using assms(3,5,6) by auto
  show ?thesis
    unfolding reads_prefix [OF assms(1,2) n(1) assms(4,7-9)]
    by (subst reads_body [where i = i]) (use n assms(5,7,9) in \<open>simp_all add: packet_done_def Let_def\<close>)
qed

theorem tcp_pieces_irrelevant_witness:
  "\<forall>s. tcp_reads [] (\<lambda>_. True) True [] [[0], [1], [9]] (event_tcp_accept 8192) s =
     tcp_query_done (\<lambda>_. True) True \<lparr>v_buffer = mem_write (mem_write (replicate 8192 0) 0 [0, 1]) 0 [9], v_packetsize = 1, v_dns = empty_packet\<rparr> s []"
  using tcp_pieces_irrelevant [of "event_tcp_accept 8192" False "[[0], [1]]" "[[9]]" "[9]" "[]" "\<lambda>_. True" True "[]"]
  by (simp add: event_tcp_accept_def uint16_pack_big_def del: replicate.simps tcp_reads.simps)

lemma writes_body:
  assumes "t_state t = (if i then INT_WRITING_MORE else EXT_WRITING_MORE)" "ks \<noteq> []" "0 \<notin> set ks"
    and "t_bufferat t + sum_list ks = v_packetsize (t_entry t)" "v_packetsize (t_entry t) \<le> length (v_buffer (t_entry t))"
  shows "tcp_writes ks t = Some (mem_read (v_buffer (t_entry t)) (t_bufferat t) (sum_list ks),
    Some \<lparr>t_entry = (t_entry t)\<lparr>v_packetsize := 0\<rparr>, t_bufferat = 0, t_state = (if i then INT_READING_INIT else EXT_READING_INIT)\<rparr>)"
  using assms
proof (induction ks arbitrary: t)
  case (Cons k ks)
  let ?e = "t_entry t" and ?p = "t_bufferat t"
  have k: "0 < k" "?p + (k + sum_list ks) = v_packetsize ?e" using Cons.prems(3,4) by auto
  have g: "\<not> length (v_buffer ?e) \<le> ?p" using k Cons.prems(5) by linarith
  have r: "rd (v_buffer ?e) ?p (v_packetsize ?e - ?p) = Some (mem_read (v_buffer ?e) ?p (v_packetsize ?e - ?p))" using k Cons.prems(5) by (simp add: rd_def)
  have o: "take k (mem_read (v_buffer ?e) ?p (v_packetsize ?e - ?p)) = mem_read (v_buffer ?e) ?p k" using k(2) by (simp add: mem_read_def)
  show ?case
  proof (cases "ks = []")
    case True
    then show ?thesis using Cons.prems(1) k g r o by (cases i) (simp_all add: event_tcp_write_def Let_def)
  next
    case False
    have "0 < sum_list ks" using False Cons.prems(3) by (cases ks) auto
    then have lt: "?p + k < v_packetsize ?e" using k(2) by linarith
    define t1 where "t1 = t\<lparr>t_bufferat := ?p + k\<rparr>"
    have "event_tcp_write (\<lambda>_. Some (int k)) t = Some (mem_read (v_buffer ?e) ?p k, Some t1)"
      using Cons.prems(1) g r o lt by (cases i) (simp_all add: event_tcp_write_def Let_def t1_def)
    moreover have "tcp_writes ks t1 = Some (mem_read (v_buffer ?e) (?p + k) (sum_list ks),
        Some \<lparr>t_entry = ?e\<lparr>v_packetsize := 0\<rparr>, t_bufferat = 0, t_state = (if i then INT_READING_INIT else EXT_READING_INIT)\<rparr>)"
      using Cons.IH [of t1] Cons.prems(1,3,5) k(2) False by (simp add: t1_def add.assoc)
    moreover have "mem_read (v_buffer ?e) ?p (k + sum_list ks) = mem_read (v_buffer ?e) ?p k @ mem_read (v_buffer ?e) (?p + k) (sum_list ks)"
      using k(2) Cons.prems(5) by (intro mem_read_split) linarith
    ultimately show ?thesis by simp
  qed
qed simp

text \<open>
  C7: Nor does it matter how \<open>send\<close> cuts what is written: the length and the packet go out, whole and in order, and then the connection
  waits for the next packet.
\<close>

theorem tcp_writes_packet:
  assumes "t_state t = (if i then INT_WRITING_INIT else EXT_WRITING_INIT)" "t_bufferat t = 0" "0 \<notin> set (hs @ ks)" "sum_list hs = 2"
    and "sum_list ks = v_packetsize (t_entry t)" "0 < v_packetsize (t_entry t)" "v_packetsize (t_entry t) \<le> length (v_buffer (t_entry t))" "2 \<le> length (v_buffer (t_entry t))"
  shows "tcp_writes (hs @ ks) t = Some (uint16_pack_big (of_nat (v_packetsize (t_entry t))) @ take (v_packetsize (t_entry t)) (v_buffer (t_entry t)),
    Some \<lparr>t_entry = (t_entry t)\<lparr>v_packetsize := 0\<rparr>, t_bufferat = 0, t_state = (if i then INT_READING_INIT else EXT_READING_INIT)\<rparr>)"
proof -
  let ?e = "t_entry t" and ?h = "uint16_pack_big (of_nat (v_packetsize (t_entry t)))"
  obtain x y where xy: "?h = [x, y]" by (simp add: uint16_pack_big_def)
  define t2 where "t2 = t\<lparr>t_bufferat := 0, t_state := (if i then INT_WRITING_MORE else EXT_WRITING_MORE)\<rparr>"
  have kn: "ks \<noteq> []" using assms(5,6) by auto
  have b: "tcp_writes ks t2 = Some (take (v_packetsize ?e) (v_buffer ?e),
      Some \<lparr>t_entry = ?e\<lparr>v_packetsize := 0\<rparr>, t_bufferat = 0, t_state = (if i then INT_READING_INIT else EXT_READING_INIT)\<rparr>)"
    using writes_body [of t2 i ks] assms(3,5-7) kn by (auto simp: t2_def mem_read_def)
  have l: "\<not> length (v_buffer ?e) \<le> 0" using assms(6,7) by linarith
  have "hs = [2] \<or> hs = [1, 1]"
  proof -
    obtain a hs' where a: "hs = a # hs'" using assms(4) by (cases hs) auto
    then have a1: "0 < a" "a + sum_list hs' = 2" using assms(3,4) by auto
    show ?thesis
    proof (cases hs')
      case Nil
      then show ?thesis using a a1 by simp
    next
      case (Cons c hs2)
      then have "0 < c" "a + (c + sum_list hs2) = 2" using a a1 assms(3) by auto
      then have "a = 1" "c = 1" "sum_list hs2 = 0" using a1(1) by linarith+
      moreover from this have "hs2 = []" using assms(3) a Cons by (cases hs2) auto
      ultimately show ?thesis using a Cons by simp
    qed
  qed
  then show ?thesis
  proof
    assume hs: "hs = [2]"
    have "event_tcp_write (\<lambda>_. Some (int 2)) t = Some (?h, Some t2)"
      using assms(1,2) l by (cases i) (simp_all add: event_tcp_write_def Let_def t2_def rd_def mem_read_def)
    then show ?thesis using b by (simp add: hs)
  next
    assume hs: "hs = [1, 1]"
    define t1 where "t1 = t\<lparr>t_bufferat := 1\<rparr>"
    have l1: "\<not> length (v_buffer ?e) \<le> 1 \<Longrightarrow> event_tcp_write (\<lambda>_. Some (int 1)) t1 = Some ([y], Some t2)"
      using assms(1) by (cases i) (simp_all add: event_tcp_write_def Let_def t1_def t2_def rd_def mem_read_def xy)
    have "event_tcp_write (\<lambda>_. Some (int 1)) t = Some ([x], Some t1)"
      using assms(1,2) l by (cases i) (simp_all add: event_tcp_write_def Let_def t1_def rd_def mem_read_def xy)
    then show ?thesis using b l1 assms(8) by (simp add: hs xy)
  qed
qed

theorem tcp_writes_packet_witness:
  "tcp_writes [1, 1, 1, 1] \<lparr>t_entry = \<lparr>v_buffer = [7, 8, 9], v_packetsize = 2, v_dns = empty_packet\<rparr>, t_bufferat = 0, t_state = INT_WRITING_INIT\<rparr> =
     Some ([0, 2, 7, 8], Some \<lparr>t_entry = \<lparr>v_buffer = [7, 8, 9], v_packetsize = 0, v_dns = empty_packet\<rparr>, t_bufferat = 0, t_state = INT_READING_INIT\<rparr>)"
  using tcp_writes_packet [of "\<lparr>t_entry = \<lparr>v_buffer = [7, 8, 9], v_packetsize = 2, v_dns = empty_packet\<rparr>, t_bufferat = 0, t_state = INT_WRITING_INIT\<rparr>" True "[1, 1]" "[1, 1]"]
  by (simp add: uint16_pack_big_def del: tcp_writes.simps)

subsection \<open>Retries and the number of connections\<close>





definition monitor_ok :: "int \<Rightarrow> monitor \<Rightarrow> bool" where
  "monitor_ok mx m \<longleftrightarrow> 0 \<le> m_connections m \<and> m_connections m \<le> mx \<and> (m_listening m \<longleftrightarrow> m_connections m < mx)"

text \<open>
  At most \<open>mx\<close> connections are open, and connections are accepted exactly while there are fewer: accepting
  happens only while the watchers run, cleaning up only for an open connection.
\<close>

lemma connections_bounded:
  assumes "monitor_ok mx m"
  shows "m_listening m \<Longrightarrow> monitor_ok mx (count_accept mx m)" "0 < m_connections m \<Longrightarrow> monitor_ok mx (count_cleanup mx m)"
  using assms by (auto simp: monitor_ok_def count_accept_def count_cleanup_def Let_def)

lemma sighup_ok: "server_ok s \<Longrightarrow> \<exists>s'. event_sighup s = Some s' \<and> server_ok s' \<and> s_secret s' = s_secret s"
proof -
  assume "server_ok s"
  then obtain n kvs where k: "2 \<le> n" "ht_rep (s_cache s) n kvs" "length (s_secret s) = 32" by (auto simp: server_ok_def)
  obtain c where c: "cache_empty_ht (s_cache s) = Some c" "ht_rep c n []" using cache_empty_rep [OF k(2)] by blast
  then have "server_ok (s\<lparr>s_cache := c\<rparr>)"
    using k unfolding server_ok_def by (intro conjI exI [of _ n] exI [of _ "[]"]) simp_all
  then show ?thesis using c(1) by (simp add: event_sighup_def)
qed

end
