(* ===== verification/Roots.thy ===== *)
theory Roots
  imports Base32 DnsPacket IpText
begin

section \<open>Configured servers\<close>

text \<open>
  The model of \<open>dq/roots.c\<close>: the table of the servers configured in the directory \<open>servers\<close>, one entry for each file,
  and its lookups.  The bytes of the static string \<open>data\<close> are a list; a pointer into it is the rest of
  the list.  A read outside is \<open>None\<close>.  Walking through the directory and reading the files is left to the caller.
\<close>

subsection \<open>Lookup\<close>

text \<open>\<open>roots_find(q)\<close>: the position behind the name of the entry, or \<open>- 1\<close>.\<close>

function roots_find_from :: "bytes \<Rightarrow> bytes \<Rightarrow> nat \<Rightarrow> int option" where
  "roots_find_from data q i =
     (if i < length data
      then do { j \<leftarrow> dns_domain_length (drop i data);
                eq \<leftarrow> dns_domain_equal (drop i data) q;
                if eq then Some (int (i + j)) else roots_find_from data q (i + j + (256 + 528 + 1)) }
      else Some (- 1))"
  by pat_completeness auto
termination
  by (relation "measure (\<lambda>(data, q, i). length data - i)") auto

declare roots_find_from.simps [simp del]

definition roots_find :: "bytes \<Rightarrow> bytes \<Rightarrow> int option" where
  "roots_find data q = roots_find_from data q 0"

function roots_search :: "bytes \<Rightarrow> bytes \<Rightarrow> int option" where
  "roots_search data q =
     do { r \<leftarrow> roots_find data q;
          if r \<ge> 0 then Some r
          else case q of [] \<Rightarrow> None | c # q1 \<Rightarrow> if c = 0 then Some (- 1) else roots_search data (drop (unat c) q1) }"
  by pat_completeness auto
termination
  by (relation "measure (\<lambda>(data, q). length q)") auto

declare roots_search.simps [simp del]

text \<open>\<open>roots(servers, keys, flaghavekeys, q)\<close>: what is stored, or the \<open>return 0\<close>.\<close>

definition roots :: "bytes \<Rightarrow> bytes \<Rightarrow> (bytes \<times> bytes \<times> bool) option option" where
  "roots data q =
     do { r \<leftarrow> roots_find data q;
          if r = - 1 then Some None
          else if nat r + 256 + 528 < length data
          then Some (Some (mem_read data (nat r) 256, mem_read data (nat r + 256) 528, data ! (nat r + 256 + 528) \<noteq> 0))
          else None }"

definition roots_same :: "bytes \<Rightarrow> bytes \<Rightarrow> bytes \<Rightarrow> bool option" where
  "roots_same data q q2 = do { a \<leftarrow> roots_search data q; b \<leftarrow> roots_search data q2; Some (a = b) }"

subsection \<open>Reading one file\<close>

text \<open>
  The state of the loop over the characters of a file: the text, in which separators become 0, the two
  arrays, how much of them is filled, and the starts of the line and of the key in it (0: none).
\<close>

record roots_scan =
  rs_text :: bytes
  rs_servers :: bytes
  rs_keys :: bytes
  rs_serverslen :: nat
  rs_keyslen :: nat
  rs_j :: nat
  rs_k :: nat

text \<open>
  The end of a line.  \<open>t1\<close> and \<open>t2\<close> are \<open>flagdnscurvetype1\<close> and \<open>flagdnscurvetype2\<close>.  When \<open>keyparse\<close> refuses the text it may
  have stored some bytes; they are not modelled, the 0 before them says that there is no key.
\<close>

definition roots_line :: "(bytes \<Rightarrow> bytes \<Rightarrow> bool \<times> bytes) \<Rightarrow> byte \<Rightarrow> byte \<Rightarrow> roots_scan \<Rightarrow> roots_scan option" where
  "roots_line pton6 t1 t2 s =
     (if rs_serverslen s \<le> 240
      then let (ok, ip) = strtoip pton6 (mem_read (rs_servers s) (rs_serverslen s) 16) (Some (drop (rs_j s) (rs_text s)));
               s = s\<lparr>rs_servers := mem_write (rs_servers s) (rs_serverslen s) ip\<rparr>
        in if \<not> ok then Some s
           else do {
             ks \<leftarrow> st (rs_keys s) (rs_keyslen s) 0;
             let s = s\<lparr>rs_keys := ks\<rparr>;
             key \<leftarrow> (if rs_k s = 0 then Some None else keyparse 32 (Some (takeWhile (\<lambda>c. c \<noteq> 0) (drop (rs_k s) (rs_text s)))));
             case key of
               None \<Rightarrow> Some (s\<lparr>rs_serverslen := rs_serverslen s + 16, rs_keyslen := rs_keyslen s + 33\<rparr>)
             | Some b \<Rightarrow>
               if rs_keyslen s + 33 > length (rs_keys s) then None
               else let s = s\<lparr>rs_keys := mem_write (rs_keys s) (rs_keyslen s) (t1 # b),
                              rs_serverslen := rs_serverslen s + 16, rs_keyslen := rs_keyslen s + 33\<rparr>
                 in if t2 \<noteq> 0 \<and> rs_serverslen s \<le> 240
                    then if rs_keyslen s + 33 > length (rs_keys s) then None
                      else Some (s\<lparr>rs_servers := mem_write (rs_servers s) (rs_serverslen s) (mem_read (rs_servers s) (rs_serverslen s - 16) 16),
                                  rs_keys := mem_write (rs_keys s) (rs_keyslen s) (t2 # b),
                                  rs_serverslen := rs_serverslen s + 16, rs_keyslen := rs_keyslen s + 33\<rparr>)
                    else Some s }
      else Some s)"

text \<open>One character at position \<open>i\<close>: \<open>|\<close> is 124, the end of a line 10.\<close>

definition roots_char :: "(bytes \<Rightarrow> bytes \<Rightarrow> bool \<times> bytes) \<Rightarrow> byte \<Rightarrow> byte \<Rightarrow> nat \<Rightarrow> roots_scan \<Rightarrow> roots_scan option" where
  "roots_char pton6 t1 t2 i s =
     do { c \<leftarrow> ld (rs_text s) i;
          if c = 124 then Some (s\<lparr>rs_k := i + 1, rs_text := (rs_text s)[i := 0]\<rparr>)
          else if c = 10
          then do { s \<leftarrow> roots_line pton6 t1 t2 (s\<lparr>rs_text := (rs_text s)[i := 0]\<rparr>);
                    Some (s\<lparr>rs_j := i + 1, rs_k := 0\<rparr>) }
          else Some s }"

primrec roots_chars :: "(bytes \<Rightarrow> bytes \<Rightarrow> bool \<times> bytes) \<Rightarrow> byte \<Rightarrow> byte \<Rightarrow> nat list \<Rightarrow> roots_scan \<Rightarrow> roots_scan option" where
  "roots_chars pton6 t1 t2 [] s = Some s"
| "roots_chars pton6 t1 t2 (i # is) s = do { s \<leftarrow> roots_char pton6 t1 t2 i s; roots_chars pton6 t1 t2 is s }"

text \<open>
  The body of the loop of \<open>init2\<close> for the file \<open>d_name\<close> with the contents \<open>text\<close>: whether it succeeds and the
  new table.  \<open>servers\<close> and \<open>keys\<close> are the local arrays.
\<close>

definition roots_add :: "(nat \<Rightarrow> bool) \<Rightarrow> (bytes \<Rightarrow> bytes \<Rightarrow> bool \<times> bytes) \<Rightarrow> byte \<Rightarrow> byte \<Rightarrow> bytes \<Rightarrow> bytes \<Rightarrow> bytes \<Rightarrow> bytes \<Rightarrow> bytes \<Rightarrow> (bool \<times> bytes) option" where
  "roots_add al pton6 t1 t2 servers keys d_name text data =
     (let text = text @ [10];
          fqdn = (if d_name = [64] then [46] else d_name)
      in case dns_domain_fromdot al None fqdn of
           (True, Some q) \<Rightarrow>
             do { s \<leftarrow> roots_chars pton6 t1 t2 [0..<length text]
                    \<lparr>rs_text = text, rs_servers = servers, rs_keys = keys, rs_serverslen = 0, rs_keyslen = 0, rs_j = 0, rs_k = 0\<rparr>;
                  qlen \<leftarrow> dns_domain_length q;
                  Some (True, data @ take qlen q @
                    mem_write (rs_servers s) (rs_serverslen s) (replicate (256 - rs_serverslen s) 0) @
                    mem_write (rs_keys s) (rs_keyslen s) (replicate (528 - rs_keyslen s) 0) @
                    [if 124 \<in> set text then 49 else 0]) }
         | _ \<Rightarrow> Some (False, data))"

section \<open>The table is a map\<close>

text \<open>The bytes of a table with the given entries.\<close>

type_synonym root_entry = "bytes list \<times> bytes \<times> bytes \<times> byte"

definition entry_bytes :: "root_entry \<Rightarrow> bytes" where
  "entry_bytes e = (case e of (ls, servers, keys, f) \<Rightarrow> dn_of ls @ servers @ keys @ [f])"

definition root_entry_ok :: "root_entry \<Rightarrow> bool" where
  "root_entry_ok e \<longleftrightarrow> (case e of (ls, servers, keys, f) \<Rightarrow> wf_name ls \<and> length servers = 256 \<and> length keys = 528)"

definition table_of :: "root_entry list \<Rightarrow> bytes" where
  "table_of es = concat (map entry_bytes es)"

definition matches :: "bytes list \<Rightarrow> root_entry \<Rightarrow> bool" where
  "matches qs e \<longleftrightarrow> lower (fst e) = lower qs"

text \<open>The position behind the name of the first entry for which \<open>P\<close> holds.\<close>

fun entry_pos :: "(root_entry \<Rightarrow> bool) \<Rightarrow> nat \<Rightarrow> root_entry list \<Rightarrow> int" where
  "entry_pos P i [] = - 1"
| "entry_pos P i (e # es) = (if P e then int (i + length (dn_of (fst e))) else entry_pos P (i + length (entry_bytes e)) es)"

lemma table_Cons [simp]: "table_of (e # es) = entry_bytes e @ table_of es" "table_of [] = []"
  by (simp_all add: table_of_def)

lemma length_entry: "root_entry_ok e \<Longrightarrow> length (entry_bytes e) = length (dn_of (fst e)) + 785"
  by (cases e) (simp add: root_entry_ok_def entry_bytes_def)

lemma roots_find_from_table:
  assumes "list_all root_entry_ok es" "list_all is_label qs"
  shows "roots_find_from (pre @ table_of es) (dn_of qs @ r) (length pre) = Some (entry_pos (matches qs) (length pre) es)"
  using assms(1)
proof (induction es arbitrary: pre)
  case Nil
  then show ?case by (simp add: roots_find_from.simps)
next
  case (Cons e es)
  obtain ls sv ks f where e: "e = (ls, sv, ks, f)" by (cases e) auto
  then have ok: "wf_name ls" "list_all is_label ls" using Cons.prems by (simp_all add: root_entry_ok_def wf_name_def)
  let ?x = "sv @ ks @ f # table_of es"
  define T where "T = pre @ table_of (e # es)"
  have d: "drop (length pre) T = dn_of ls @ ?x" by (simp add: T_def e entry_bytes_def)
  have 1: "dns_domain_length (dn_of ls @ ?x) = Some (length (dn_of ls))" using dns_domain_length_dn_of [OF ok(2)] .
  have 2: "dns_domain_equal (dn_of ls @ ?x) (dn_of qs @ r) = Some (lower ls = lower qs)"
    by (rule dns_domain_equal_dn_of [OF ok(2) assms(2)])
  have len: "length (entry_bytes e) = length (dn_of ls) + 785" using length_entry [of e] Cons.prems by (simp add: e)
  have 3: "roots_find_from T (dn_of qs @ r) (length pre + length (dn_of ls) + 785) =
      Some (entry_pos (matches qs) (length pre + length (dn_of ls) + 785) es)"
    using Cons.IH [of "pre @ entry_bytes e"] Cons.prems len by (simp add: T_def add.assoc)
  have 4: "length pre < length T" using len by (simp add: T_def)
  have 5: "entry_pos (matches qs) (length pre) (e # es) = (if lower ls = lower qs then int (length pre + length (dn_of ls))
      else entry_pos (matches qs) (length pre + length (dn_of ls) + 785) es)"
    using len by (simp add: e matches_def add.assoc)
  show ?case
    unfolding T_def [symmetric] 5 by (subst roots_find_from.simps) (simp add: d 1 2 3 4)
qed

lemma entry_pos_bounds:
  "list_all root_entry_ok es \<Longrightarrow> entry_pos P i es = - 1 \<and> find P es = None \<or>
    (\<exists>es1 e es2. es = es1 @ e # es2 \<and> find P es = Some e \<and> P e \<and> list_all (\<lambda>e. \<not> P e) es1 \<and>
      entry_pos P i es = int (i + length (table_of es1) + length (dn_of (fst e))))"
proof (induction es arbitrary: i)
  case (Cons e es)
  show ?case
  proof (cases "P e")
    case True
    then show ?thesis by (intro disjI2 exI [of _ "[]"] exI [of _ e] exI [of _ es]) simp
  next
    case False
    have "list_all root_entry_ok es" using Cons.prems by simp
    then show ?thesis
      using Cons.IH [of "i + length (entry_bytes e)"]
    proof (elim meta_impE disjE exE conjE)
      fix es1 e1 es2
      assume "es = es1 @ e1 # es2" "find P es = Some e1" "P e1" "list_all (\<lambda>e. \<not> P e) es1"
        "entry_pos P (i + length (entry_bytes e)) es = int (i + length (entry_bytes e) + length (table_of es1) + length (dn_of (fst e1)))"
      then show ?thesis using False by (intro disjI2 exI [of _ "e # es1"] exI [of _ e1] exI [of _ es2]) simp
    qed (use False in simp_all)
  qed
qed simp

lemma roots_find_table:
  "list_all root_entry_ok es \<Longrightarrow> list_all is_label qs \<Longrightarrow> roots_find (table_of es) (dn_of qs @ r) = Some (entry_pos (matches qs) 0 es)"
  using roots_find_from_table [of es qs "[]" r] by (simp add: roots_find_def)

text \<open>
  C30: \<open>roots\<close> looks a name up in the table: the first entry with that name, up to case, and nothing when there is none.
\<close>

theorem roots_lookup:
  assumes "list_all root_entry_ok es" "list_all is_label qs"
  shows "roots (table_of es) (dn_of qs @ r) =
    Some (map_option (\<lambda>(ls, servers, keys, f). (servers, keys, f \<noteq> 0)) (find (matches qs) es))"
  using entry_pos_bounds [OF assms(1), of "matches qs" 0]
proof (elim disjE exE conjE)
  fix es1 e es2
  assume e: "es = es1 @ e # es2" "find (matches qs) es = Some e"
    and p: "entry_pos (matches qs) 0 es = int (0 + length (table_of es1) + length (dn_of (fst e)))"
  obtain ls sv ks f where f: "e = (ls, sv, ks, f)" by (cases e) auto
  have l: "length sv = 256" "length ks = 528" using assms(1) by (simp_all add: e(1) f root_entry_ok_def)
  have t: "table_of es = table_of es1 @ dn_of ls @ sv @ ks @ f # table_of es2"
    by (simp add: e(1) f table_of_def entry_bytes_def)
  define T where "T = table_of es"
  define i where "i = length (table_of es1) + length (dn_of ls)"
  have "roots_find T (dn_of qs @ r) = Some (int i)" using p by (simp add: T_def i_def roots_find_table [OF assms] f)
  moreover have "mem_read T i 256 = sv" "mem_read T (i + 256) 528 = ks" "T ! (i + 256 + 528) = f" "i + 256 + 528 < length T"
    using l by (simp_all add: T_def i_def t mem_read_def nth_append)
  ultimately show ?thesis using e(2) by (simp add: roots_def T_def f)
qed (simp add: roots_def roots_find_table [OF assms])

theorem roots_lookup_witness:
  "roots (table_of [([[97]], replicate 256 1, replicate 528 2, 49)]) (dn_of [[65]] @ [7]) = Some (Some (replicate 256 1, replicate 528 2, True))"
  using roots_lookup [of "[([[97]], replicate 256 1, replicate 528 2, 49)]" "[[65]]" "[7]"]
  by (simp add: root_entry_ok_def matches_def wf_name_def is_label_def case_fold_def)

text \<open>The entry of the nearest enclosing zone that has one: what \<open>roots_search\<close> returns.\<close>

fun zone_of :: "root_entry list \<Rightarrow> bytes list \<Rightarrow> int" where
  "zone_of es qs =
     (if entry_pos (matches qs) 0 es \<ge> 0 then entry_pos (matches qs) 0 es
      else case qs of [] \<Rightarrow> - 1 | _ # ms \<Rightarrow> zone_of es ms)"

declare zone_of.simps [simp del]

lemma roots_search_table:
  assumes "list_all root_entry_ok es" "list_all is_label qs"
  shows "roots_search (table_of es) (dn_of qs @ r) = Some (zone_of es qs)"
  using assms(2)
proof (induction qs)
  case Nil
  then show ?case using roots_find_table [OF assms(1), of "[]" r] by (simp add: roots_search.simps [of _ "0 # _"] zone_of.simps)
next
  case (Cons l qs)
  then have "is_label l" by simp
  note l = label_length_byte [OF this]
  then show ?case
    using roots_find_table [OF assms(1), of "l # qs" r] Cons
    by (simp add: roots_search.simps [of _ "_ # _"] zone_of.simps [of _ "_ # _"])
qed

lemma roots_same_table:
  "list_all root_entry_ok es \<Longrightarrow> list_all is_label qs \<Longrightarrow> list_all is_label ms \<Longrightarrow>
   roots_same (table_of es) (dn_of qs @ r) (dn_of ms @ r') = Some (zone_of es qs = zone_of es ms)"
  by (simp add: roots_same_def roots_search_table)


section \<open>Reading a file adds an entry\<close>

lemma length_hexdecode: "hexdecode n x = Some b \<Longrightarrow> length b \<le> n"
  by (induction n x arbitrary: b rule: hexdecode.induct) (auto split: if_splits simp: Let_def)

lemma length_base32decode_loop:
  "base32decode_loop i n v k x out = Some (Some (v', k', out')) \<Longrightarrow> length out \<le> n \<Longrightarrow> length out' \<le> n"
proof (induction i n v k x out rule: base32decode_loop.induct)
  case (1 i n v k x out)
  show ?case
    using "1.prems" "1.IH"
    by (subst (asm) base32decode_loop.simps) (auto simp: Let_def bind_eq_Some_conv split: if_splits)
qed

lemma length_keyparse: "keyparse 32 x = Some (Some b) \<Longrightarrow> length b \<le> 32"
  using length_base32decode_loop [of 0 32 0 0 _ "[]"] length_hexdecode [of 32]
  by (fastforce simp: keyparse_def base32decode_def split: option.splits if_splits prod.splits)

text \<open>The interface of \<open>inet_pton\<close> for IPv6: it stores 16 bytes or nothing.\<close>

definition pton_ok :: "(bytes \<Rightarrow> bytes \<Rightarrow> bool \<times> bytes) \<Rightarrow> bool" where
  "pton_ok pton6 \<longleftrightarrow> (\<forall>ip x. length (snd (pton6 ip x)) = length ip)"

lemma length_strtoip:
  assumes "pton_ok pton6" "length ip = 16"
  shows "length (snd (strtoip4 ip x)) = 16" "length (snd (strtoip6 pton6 ip x)) = 16" "length (snd (strtoip pton6 ip x)) = 16"
  using assms length_strtoip4 [OF assms(2), of x] length_strtoip4 [OF assms(2)]
  by (auto simp: pton_ok_def strtoip6_def strtoip_def split: option.splits prod.splits) (metis snd_conv)+

definition scan_ok :: "roots_scan \<Rightarrow> bool" where
  "scan_ok s \<longleftrightarrow> length (rs_servers s) = 256 \<and> length (rs_keys s) = 528 \<and>
     (\<exists>n \<le> 16. rs_serverslen s = 16 * n \<and> rs_keyslen s = 33 * n)"

lemma scan_ok_upd [simp]:
  "scan_ok (s\<lparr>rs_text := t\<rparr>) = scan_ok s" "scan_ok (s\<lparr>rs_j := j\<rparr>) = scan_ok s" "scan_ok (s\<lparr>rs_k := j\<rparr>) = scan_ok s"
  by (simp_all add: scan_ok_def)

lemma roots_line_ok:
  assumes "pton_ok pton6" "scan_ok s" "roots_line pton6 t1 t2 s = Some s'"
  shows "scan_ok s'"
proof (cases "rs_serverslen s \<le> 240")
  case True
  then obtain n where n: "n \<le> 15" "rs_serverslen s = 16 * n" "rs_keyslen s = 33 * n" and l: "length (rs_servers s) = 256" "length (rs_keys s) = 528"
    using assms(2) by (auto simp: scan_ok_def)
  obtain ok ip where ip: "strtoip pton6 (mem_read (rs_servers s) (16 * n) 16) (Some (drop (rs_j s) (rs_text s))) = (ok, ip)" by fastforce
  then have li: "length ip = 16"
    using length_strtoip(3) [OF assms(1), of "mem_read (rs_servers s) (16 * n) 16" "Some (drop (rs_j s) (rs_text s))"] n l True by simp
  define sv where "sv = mem_write (rs_servers s) (16 * n) ip"
  define ky where "ky = (rs_keys s)[33 * n := 0]"
  have len: "length sv = 256" "length ky = 528" using li l n by (simp_all add: sv_def ky_def)
  have k1: "length (mem_write ky (33 * n) (t1 # b)) = 528" if "length b \<le> 32" for b using that len n by simp
  have k2: "length (mem_write (mem_write ky (33 * n) (t1 # b)) (33 * n + 33) (t2 # b)) = 528" if "length b \<le> 32" "n \<le> 14" for b
    using that len n by simp
  have v2: "length (mem_write sv (16 * n + 16) (mem_read sv (16 * n) 16)) = 256" if "n \<le> 14" using that len by simp
  have one: "\<exists>m \<le> 16. 16 * n + 16 = 16 * m \<and> 33 * n + 33 = 33 * m" using n(1) by (intro exI [of _ "n + 1"]) simp
  have two: "\<exists>m \<le> 16. 16 * n + 32 = 16 * m \<and> 33 * n + 66 = 33 * m" if "n \<le> 14" using that by (intro exI [of _ "n + 2"]) simp
  have zero: "\<exists>m \<le> 16. 16 * n = 16 * m \<and> 33 * n = 33 * m" using n(1) by (intro exI [of _ n]) simp
  note step = assms(3) [unfolded roots_line_def if_P [OF True] ip prod.case Let_def n(2,3), folded sv_def]
  show ?thesis
  proof (cases ok)
    case False
    then show ?thesis using step len l zero n by (auto simp: scan_ok_def)
  next
    case ok: True
    have "33 * n < 528" using n(1) by simp
    then obtain key where key: "(if rs_k s = 0 then Some None else keyparse 32 (Some (takeWhile (\<lambda>c. c \<noteq> 0) (drop (rs_k s) (rs_text s))))) = Some key"
        and st: "st (rs_keys s) (33 * n) 0 = Some ky"
      using step ok l by (auto simp: st_def ky_def bind_eq_Some_conv split: if_splits)
    show ?thesis
    proof (cases key)
      case None
      then show ?thesis using step ok key st len n one by (auto simp: scan_ok_def split: if_splits)
    next
      case (Some b)
      then have b: "length b \<le> 32" using key length_keyparse by (auto split: if_splits)
      show ?thesis
        using step ok key st len n one two Some k1 [OF b] k2 [OF b] v2 by (auto simp: scan_ok_def split: if_splits)
    qed
  qed
next
  case False
  then show ?thesis using assms(2,3) by (simp add: roots_line_def)
qed

lemma roots_chars_ok:
  "pton_ok pton6 \<Longrightarrow> scan_ok s \<Longrightarrow> roots_chars pton6 t1 t2 is s = Some s' \<Longrightarrow> scan_ok s'"
proof (induction "is" arbitrary: s)
  case (Cons i "is")
  then obtain s1 where s1: "roots_char pton6 t1 t2 i s = Some s1" "roots_chars pton6 t1 t2 is s1 = Some s'"
    by (auto simp: bind_eq_Some_conv)
  have "scan_ok s1"
    using s1(1) Cons.prems(2) roots_line_ok [OF Cons.prems(1), of "s\<lparr>rs_text := (rs_text s)[i := 0]\<rparr>"]
    by (auto simp: roots_char_def bind_eq_Some_conv split: if_splits)
  then show ?case using Cons s1(2) by simp
qed simp

text \<open>
  Reading the file of a zone appends the entry of that zone, with 256 bytes of addresses and 528 bytes of keys whatever the text
  holds, or changes nothing; the table stays one that the lookups understand.
\<close>

theorem roots_add_entry:
  assumes "pton_ok pton6" "length servers = 256" "length keys = 528"
    and "roots_add al pton6 t1 t2 servers keys d_name text (table_of es) = Some (ok, data')" "list_all root_entry_ok es"
  shows "if ok then \<exists>e. root_entry_ok e \<and> data' = table_of (es @ [e]) else data' = table_of es"
proof -
  let ?q = "if d_name = [64] then [46] else d_name"
  obtain r q where f: "dns_domain_fromdot al None ?q = (r, q)" by fastforce
  show ?thesis
  proof (cases "r = True \<and> q \<noteq> None")
    case True
    then obtain ls where ls: "wf_name ls" "q = Some (dn_of ls)"
      using f fromdot_finish_wf [of ?q "fst (fromdot_finish (fromdot_loop [] [] ?q))" "snd (fromdot_finish (fromdot_loop [] [] ?q))"]
      by (auto simp: dns_domain_fromdot_def split: prod.splits if_splits)
    obtain s where s: "roots_chars pton6 t1 t2 [0..<length (text @ [10])]
        \<lparr>rs_text = text @ [10], rs_servers = servers, rs_keys = keys, rs_serverslen = 0, rs_keyslen = 0, rs_j = 0, rs_k = 0\<rparr> = Some s"
      using assms(4) True f by (auto simp: roots_add_def Let_def bind_eq_Some_conv)
    have "scan_ok s" by (rule roots_chars_ok [OF assms(1) _ s]) (simp add: scan_ok_def assms(2,3))
    then obtain n where n: "length (rs_servers s) = 256" "length (rs_keys s) = 528" "n \<le> 16" "rs_serverslen s = 16 * n" "rs_keyslen s = 33 * n"
      by (auto simp: scan_ok_def)
    define e where "e = (ls, mem_write (rs_servers s) (rs_serverslen s) (replicate (256 - rs_serverslen s) 0),
        mem_write (rs_keys s) (rs_keyslen s) (replicate (528 - rs_keyslen s) 0), if 124 \<in> set (text @ [10]) then 49 else (0 :: byte))"
    have "root_entry_ok e" using n ls(1) by (simp add: e_def root_entry_ok_def)
    moreover have "dns_domain_length (dn_of ls) = Some (length (dn_of ls))"
      using dns_domain_length_dn_of [of ls "[]"] ls(1) by (simp add: wf_name_def)
    then have "ok \<and> data' = table_of (es @ [e])"
      using assms(4) True f ls s by (simp add: e_def roots_add_def Let_def table_of_def entry_bytes_def)
    ultimately show ?thesis by (simp only: if_True) blast
  next
    case False
    then show ?thesis using assms(4) f by (auto simp: roots_add_def Let_def split: option.splits bool.splits)
  qed
qed

end
