(* ===== verification/QuerySort.thy ===== *)
theory QuerySort
  imports DnsPacket "HOL-Library.Multiset" "HOL-Library.List_Lexorder" "HOL-Library.Product_Lexorder"
begin

section \<open>Sorting the records of an answer\<close>

text \<open>
  The heap sort in \<open>doit\<close> of \<open>dq/query.c\<close>, that brings the records of an answer with the same type, class and
  name next to each other, and its comparison \<open>smaller\<close>.  The array \<open>records\<close> holds the positions of the
  records in the packet.  An access outside the array is \<open>None\<close>.
\<close>

text \<open>
  \<open>smaller(buf, len, pos1, pos2)\<close>.  The name that could not be read (or for which there is no memory) is \<open>None\<close>
  here, while the code goes on with an older name; both names have been read from the same positions before.
\<close>

definition smaller :: "(nat \<Rightarrow> bool) \<Rightarrow> bytes \<Rightarrow> nat \<Rightarrow> nat \<Rightarrow> bool option" where
  "smaller al buf pos1 pos2 =
     do { (pos1, t1) \<leftarrow> dns_packet_getname al buf pos1 None;
          (_, header1) \<leftarrow> dns_packet_copy buf pos1 10;
          (pos2, t2) \<leftarrow> dns_packet_getname al buf pos2 None;
          (_, header2) \<leftarrow> dns_packet_copy buf pos2 10;
          t1 \<leftarrow> t1;
          t2 \<leftarrow> t2;
          r \<leftarrow> byte_diff header1 4 header2;
          if r < 0 then Some True
          else if r > 0 then Some False
          else do {
            len1 \<leftarrow> dns_domain_length t1;
            len2 \<leftarrow> dns_domain_length t2;
            if len1 < len2 then Some True
            else if len1 > len2 then Some False
            else do {
              r \<leftarrow> case_diffb t1 len1 t2;
              if r < 0 then Some True
              else if r > 0 then Some False
              else Some (pos1 < pos2) } } }"

text \<open>The loop \<open>while ((p = q * 2) < j)\<close> and the step \<open>if (p == j)\<close> after it.\<close>

function sift_down :: "(nat \<Rightarrow> nat \<Rightarrow> bool option) \<Rightarrow> nat list \<Rightarrow> nat \<Rightarrow> nat \<Rightarrow> (nat list \<times> nat) option" where
  "sift_down sm rs q j =
     (if q = 0 then None
      else let p = q * 2 in
        if p < j
        then do { a \<leftarrow> ld rs p; b \<leftarrow> ld rs (p - 1); s \<leftarrow> sm a b;
                  let p = (if \<not> s then p + 1 else p);
                  v \<leftarrow> ld rs (p - 1);
                  rs \<leftarrow> st rs (q - 1) v;
                  sift_down sm rs p j }
        else if p = j then do { v \<leftarrow> ld rs (p - 1); rs \<leftarrow> st rs (q - 1) v; Some (rs, p) }
        else Some (rs, q))"
  by pat_completeness auto
termination
  by (relation "measure (\<lambda>(sm, rs, q, j). j - q)") (auto split: if_splits)

text \<open>The loop \<open>while ((q > i) && smaller(..., records[(p = q/2) - 1], pos))\<close>.\<close>

function sift_up :: "(nat \<Rightarrow> nat \<Rightarrow> bool option) \<Rightarrow> nat list \<Rightarrow> nat \<Rightarrow> nat \<Rightarrow> nat \<Rightarrow> (nat list \<times> nat) option" where
  "sift_up sm rs i q pos =
     (if q > i
      then let p = q div 2 in
        if p = 0 then None
        else do { a \<leftarrow> ld rs (p - 1); s \<leftarrow> sm a pos;
                  if s then do { rs \<leftarrow> st rs (q - 1) a; sift_up sm rs i p pos } else Some (rs, q) }
      else Some (rs, q))"
  by pat_completeness auto
termination
  by (relation "measure (\<lambda>(sm, rs, i, q, pos). q)") auto

definition heap_insert :: "(nat \<Rightarrow> nat \<Rightarrow> bool option) \<Rightarrow> nat list \<Rightarrow> nat \<Rightarrow> nat \<Rightarrow> nat \<Rightarrow> nat list option" where
  "heap_insert sm rs i j pos =
     do { (rs, q) \<leftarrow> sift_down sm rs i j;
          (rs, q) \<leftarrow> sift_up sm rs i q pos;
          st rs (q - 1) pos }"

function heap_sort :: "(nat \<Rightarrow> nat \<Rightarrow> bool option) \<Rightarrow> nat list \<Rightarrow> nat \<Rightarrow> nat \<Rightarrow> nat list option" where
  "heap_sort sm rs i j =
     (if j > 1
      then if i > 1
           then do { pos \<leftarrow> ld rs (i - 2); rs \<leftarrow> heap_insert sm rs (i - 1) j pos; heap_sort sm rs (i - 1) j }
           else if i = 0 then None
           else do { pos \<leftarrow> ld rs (j - 1); a \<leftarrow> ld rs (i - 1); rs \<leftarrow> st rs (j - 1) a;
                     rs \<leftarrow> heap_insert sm rs i (j - 1) pos; heap_sort sm rs i (j - 1) }
      else Some rs)"
  by pat_completeness auto
termination
  by (relation "measure (\<lambda>(sm, rs, i, j). i + j)") auto

declare sift_down.simps [simp del] sift_up.simps [simp del] heap_sort.simps [simp del]

definition sort_records :: "(nat \<Rightarrow> bool) \<Rightarrow> bytes \<Rightarrow> nat list \<Rightarrow> nat list option" where
  "sort_records al buf rs = heap_sort (smaller al buf) rs (length rs) (length rs)"

section \<open>The sort is a sort\<close>

text \<open>Node \<open>q\<close> lies in the subtree of node \<open>i\<close>.\<close>

definition under :: "nat \<Rightarrow> nat \<Rightarrow> bool" where
  "under i q \<longleftrightarrow> (\<exists>k. q div 2 ^ k = i)"

lemma under_refl [simp]: "under i i"
  unfolding under_def by (rule exI [of _ 0]) simp

lemma under_child: "under i q \<Longrightarrow> p div 2 = q \<Longrightarrow> under i p"
  unfolding under_def by (metis div_mult2_eq power_Suc)

lemma under_parent:
  assumes "under i q" "q \<noteq> i"
  shows "under i (q div 2)"
proof -
  obtain k where k: "q div 2 ^ k = i" using assms(1) by (auto simp: under_def)
  then have "k \<noteq> 0" using assms(2) by (cases k) auto
  then show ?thesis using k unfolding under_def by (metis div_mult2_eq not0_implies_Suc power_Suc)
qed

lemma under_le: "under i q \<Longrightarrow> i \<le> q"
  unfolding under_def by (metis div_le_dividend)

lemma mset_move:
  assumes "a < length xs" "c < length xs" "a \<noteq> c"
  shows "mset (xs[a := xs ! c, c := x]) = mset (xs[a := x])"
proof -
  have "mset ((xs[a := x])[a := (xs[a := x]) ! c, c := (xs[a := x]) ! a]) = mset (xs[a := x])"
    using assms by (intro mset_swap) simp_all
  then show ?thesis using assms by simp
qed

locale record_order =
  fixes sm :: "nat \<Rightarrow> nat \<Rightarrow> bool option" and key :: "nat \<Rightarrow> 'k::linorder" and S :: "nat set"
  assumes sm: "a \<in> S \<Longrightarrow> b \<in> S \<Longrightarrow> sm a b = Some (key a < key b)"
begin

definition at :: "nat list \<Rightarrow> nat \<Rightarrow> 'k" where
  "at rs p = key (rs ! (p - 1))"

definition heap_from :: "nat \<Rightarrow> nat \<Rightarrow> nat list \<Rightarrow> bool" where
  "heap_from i j rs \<longleftrightarrow> (\<forall>p. i \<le> p div 2 \<and> p \<le> j \<longrightarrow> at rs p \<le> at rs (p div 2))"

lemma at_upd: "1 \<le> q \<Longrightarrow> q \<le> length rs \<Longrightarrow> 1 \<le> p \<Longrightarrow> at (rs[q - 1 := v]) p = (if p = q then key v else at rs p)"
  by (auto simp: at_def nth_list_update)

lemma heap_fromD: "heap_from i j rs \<Longrightarrow> i \<le> p div 2 \<Longrightarrow> p \<le> j \<Longrightarrow> at rs p \<le> at rs (p div 2)"
  by (simp add: heap_from_def)

text \<open>Moving the greater child \<open>c\<close> of \<open>q\<close> up.\<close>

lemma heap_move:
  assumes "1 \<le> i" "under i q" "c div 2 = q" "c \<le> j" "j \<le> length rs" "heap_from (i + 1) j rs" "q = i \<or> heap_from i j rs"
    and big: "\<And>p. p div 2 = q \<Longrightarrow> p \<le> j \<Longrightarrow> at rs p \<le> at rs c"
  shows "heap_from i j (rs[q - 1 := rs ! (c - 1)])"
  unfolding heap_from_def
proof (intro allI impI, elim conjE)
  fix p assume p: "i \<le> p div 2" "p \<le> j"
  have iq: "i \<le> q" "q < c" using under_le [OF assms(2)] assms(1,3) by auto
  have u: "at (rs[q - 1 := rs ! (c - 1)]) x = (if x = q then at rs c else at rs x)" if "1 \<le> x" for x
    using at_upd [of q rs x] iq assms(1,4,5) that by (simp add: at_def)
  have cq: "at rs c \<le> at rs q" if "q \<noteq> i" using heap_fromD [of i j rs c] assms(3,4,7) iq that by simp
  have "1 \<le> p" "1 \<le> p div 2" "p \<noteq> p div 2" using p(1) assms(1) by auto
  then show "at (rs[q - 1 := rs ! (c - 1)]) p \<le> at (rs[q - 1 := rs ! (c - 1)]) (p div 2)"
  proof (cases "p div 2 = q")
    case True
    then show ?thesis using u [of p] u [of q] big [of p] p(2) iq assms(1) \<open>1 \<le> p\<close> \<open>p \<noteq> p div 2\<close> by auto
  next
    case False
    note pq = False
    have edge: "at rs p \<le> at rs (p div 2)" if "p div 2 \<noteq> i \<or> q \<noteq> i"
      using heap_fromD [of "i + 1" j rs p] heap_fromD [of i j rs p] p assms(6,7) that by fastforce
    have "p div 2 \<noteq> i \<or> q \<noteq> i" using pq by auto
    then have e: "at rs p \<le> at rs (p div 2)" by (rule edge)
    show ?thesis
    proof (cases "p = q")
      case True
      then have "q \<noteq> i" using p(1) \<open>p \<noteq> p div 2\<close> by auto
      then have "at rs c \<le> at rs (p div 2)" using cq e True by auto
      then show ?thesis using True pq u \<open>1 \<le> p\<close> \<open>1 \<le> p div 2\<close> by simp
    next
      case False
      then show ?thesis using pq e u \<open>1 \<le> p\<close> \<open>1 \<le> p div 2\<close> by simp
    qed
  qed
qed

lemma heap_from_mono: "heap_from i j rs \<Longrightarrow> heap_from (i + 1) j rs"
  by (simp add: heap_from_def)

text \<open>What a sifting step keeps.\<close>

definition kept :: "nat \<Rightarrow> nat list \<Rightarrow> nat \<Rightarrow> nat list \<Rightarrow> nat \<Rightarrow> bool" where
  "kept j rs q rs' q' \<longleftrightarrow> length rs' = length rs \<and> set rs' \<subseteq> set rs \<and> (\<forall>p. j \<le> p \<longrightarrow> rs' ! p = rs ! p) \<and>
     (\<forall>x. mset (rs'[q' - 1 := x]) = mset (rs[q - 1 := x]))"

lemma kept_refl [simp]: "kept j rs q rs q"
  by (simp add: kept_def)

lemma kept_trans: "kept j rs q rs1 q1 \<Longrightarrow> kept j rs1 q1 rs2 q2 \<Longrightarrow> kept j rs q rs2 q2"
  by (auto simp: kept_def)

lemma kept_move:
  assumes "1 \<le> q" "q \<le> j" "1 \<le> c" "c \<le> j" "c \<noteq> q" "j \<le> length rs"
  shows "kept j rs q (rs[q - 1 := rs ! (c - 1)]) c"
  unfolding kept_def
proof (intro conjI allI impI)
  show "set (rs[q - 1 := rs ! (c - 1)]) \<subseteq> set rs"
    using assms by (auto dest!: subsetD [OF set_update_subset_insert])
  fix x show "mset (rs[q - 1 := rs ! (c - 1), c - 1 := x]) = mset (rs[q - 1 := x])"
    using assms by (intro mset_move) auto
qed (use assms in auto)

lemma sift_down_ok:
  assumes "1 \<le> i" "under i q" "q \<le> j" "j \<le> length rs" "set rs \<subseteq> S" "heap_from (i + 1) j rs" "q = i \<or> heap_from i j rs"
  shows "\<exists>rs' q'. sift_down sm rs q j = Some (rs', q') \<and> kept j rs q rs' q' \<and> under i q' \<and> q' \<le> j \<and> j < 2 * q' \<and> heap_from i j rs'"
  using assms
proof (induction "j - q" arbitrary: rs q rule: less_induct)
  case less
  have q: "i \<le> q" using under_le [OF less.prems(2)] .
  have step: "kept j rs q (rs[q - 1 := rs ! (c - 1)]) c \<and> under i c \<and> heap_from i j (rs[q - 1 := rs ! (c - 1)])"
    if c: "c div 2 = q" "c \<le> j" "\<And>p. p div 2 = q \<Longrightarrow> p \<le> j \<Longrightarrow> at rs p \<le> at rs c" for c
    using heap_move [OF less.prems(1,2) c(1,2) less.prems(4,6,7) c(3)] kept_move [of q j c rs] under_child [OF less.prems(2) c(1)]
      q c less.prems(1,3,4) by auto
  consider "2 * q < j" | "2 * q = j" | "j < 2 * q" by linarith
  then show ?case
  proof cases
    case 1
    define c where "c = (if \<not> key (rs ! (q * 2)) < key (rs ! (q * 2 - 1)) then q * 2 + 1 else q * 2)"
    let ?rs = "rs[q - 1 := rs ! (c - 1)]"
    have c: "c div 2 = q" "c \<le> j" using 1 by (auto simp: c_def)
    have big: "at rs p \<le> at rs c" if "p div 2 = q" for p
    proof -
      have "p = q * 2 \<or> p = q * 2 + 1" using that by presburger
      then show ?thesis by (auto simp: c_def at_def)
    qed
    note s = step [OF c big]
    have "rs ! x \<in> S" if "x < j" for x using less.prems(4,5) that by (meson less_le_trans nth_mem subsetD)
    then have S: "rs ! (q * 2) \<in> S" "rs ! (q * 2 - 1) \<in> S" using 1 by simp_all
    have e: "sift_down sm rs q j = sift_down sm ?rs c j"
      using 1 q less.prems(1,4) sm [OF S] c(2) by (subst sift_down.simps) (auto simp: c_def Let_def ld_def st_def)
    have "set ?rs \<subseteq> S" using s less.prems(5) by (auto simp: kept_def)
    moreover have "j - c < j - q" "heap_from (i + 1) j ?rs" "length ?rs = length rs"
      using 1 s heap_from_mono q less.prems(1) c(1,2) by (auto simp: c_def)
    ultimately have "\<exists>rs' q'. sift_down sm ?rs c j = Some (rs', q') \<and> kept j ?rs c rs' q' \<and> under i q' \<and> q' \<le> j \<and> j < 2 * q' \<and> heap_from i j rs'"
      using s c less.prems(1,4) by (intro less.hyps) simp_all
    then show ?thesis unfolding e using s kept_trans by blast
  next
    case 2
    have big: "at rs p \<le> at rs j" if "p div 2 = q" "p \<le> j" for p
    proof -
      have "p = j" using that 2 by presburger
      then show ?thesis by simp
    qed
    have "j div 2 = q" using 2 by simp
    note s = step [OF this _ big]
    have "q * 2 = j" "0 < j" "j - 1 < length rs" "q - 1 < length rs" using 2 q less.prems(1,4) by linarith+
    then have "sift_down sm rs q j = Some (rs[q - 1 := rs ! (j - 1)], j)"
      using q less.prems(1,4) by (subst sift_down.simps) (simp add: Let_def ld_def st_def)
    then show ?thesis using s 2 q less.prems(1) by auto
  next
    case 3
    have "heap_from i j rs"
      using less.prems(7) 3 by (auto simp: heap_from_def)
    moreover have "sift_down sm rs q j = Some (rs, q)"
      using 3 q less.prems(1) by (subst sift_down.simps) (simp add: Let_def)
    ultimately show ?thesis using 3 less.prems by auto
  qed
qed

lemma sift_up_ok:
  assumes "1 \<le> i" "under i q" "q \<le> j" "j \<le> length rs" "set rs \<subseteq> S" "pos \<in> S" "heap_from i j rs"
    and "\<And>p. p div 2 = q \<Longrightarrow> p \<le> j \<Longrightarrow> at rs p \<le> key pos"
  shows "\<exists>rs' q'. sift_up sm rs i q pos = Some (rs', q') \<and> kept j rs q rs' q' \<and> 1 \<le> q' \<and> q' \<le> j \<and> heap_from i j (rs'[q' - 1 := pos])"
  using assms
proof (induction q arbitrary: rs rule: less_induct)
  case (less q)
  note prems = less.prems
  have q: "i \<le> q" "1 \<le> q" using under_le [OF prems(2)] prems(1) by auto
  have u: "at (rs[q - 1 := v]) x = (if x = q then key v else at rs x)" if "1 \<le> x" for x v
    using at_upd [of q rs x v] q prems(1,3,4) that by simp
  have put: "heap_from i j (rs[q - 1 := v])"
    if v: "\<And>p. p div 2 = q \<Longrightarrow> p \<le> j \<Longrightarrow> at rs p \<le> key v" "q \<noteq> i \<Longrightarrow> key v \<le> at rs (q div 2)" for v
    unfolding heap_from_def
  proof (intro allI impI, elim conjE)
    fix p assume p: "i \<le> p div 2" "p \<le> j"
    then have n: "1 \<le> p" "1 \<le> p div 2" "p \<noteq> p div 2" using prems(1) by auto
    have "p = q \<Longrightarrow> q \<noteq> i" using p(1) n(3) by auto
    then show "at (rs[q - 1 := v]) p \<le> at (rs[q - 1 := v]) (p div 2)"
      using v(1) [OF _ p(2)] v(2) heap_fromD [OF prems(7) p] n u [OF n(1), of v] u [OF n(2), of v] by (auto split: if_splits)
  qed
  consider "q = i" | "q \<noteq> i" "\<not> at rs (q div 2) < key pos" | "q \<noteq> i" "at rs (q div 2) < key pos" by blast
  then show ?case
  proof cases
    case 1
    then show ?thesis using put [of pos] prems q by (subst sift_up.simps) auto
  next
    case 2
    have p: "i \<le> q div 2" "q div 2 \<noteq> 0" using under_le [OF under_parent [OF prems(2) 2(1)]] prems(1) by auto
    have "rs ! (q div 2 - 1) \<in> S" using prems(3-5) q p by (meson diff_le_self div_le_dividend le_trans less_le_trans nth_mem subsetD diff_less zero_less_one gr0I)
    then show ?thesis using 2 put [of pos] prems q p sm
      by (subst sift_up.simps) (auto simp: Let_def ld_def at_def)
  next
    case 3
    have p: "under i (q div 2)" "i \<le> q div 2" "q div 2 \<noteq> 0" "q div 2 < q"
      using under_parent [OF prems(2) 3(1)] under_le [OF under_parent [OF prems(2) 3(1)]] prems(1) by auto
    let ?a = "rs ! (q div 2 - 1)" let ?rs = "rs[q - 1 := ?a]"
    have "q div 2 - 1 < length rs" using p prems(3,4) by linarith
    then have a: "?a \<in> S" using prems(5) nth_mem by blast
    have e: "sift_up sm rs i q pos = sift_up sm ?rs i (q div 2) pos"
      using 3 prems(3-6) q p sm [OF a prems(6)] by (subst sift_up.simps) (auto simp: Let_def ld_def st_def at_def)
    have s: "kept j rs q ?rs (q div 2)" using kept_move [of q j "q div 2" rs] q p prems(3,4) by simp
    have h: "heap_from i j ?rs"
    proof (rule put)
      fix c assume c: "c div 2 = q" "c \<le> j"
      have "at rs c \<le> at rs q" using heap_fromD [OF prems(7), of c] c q by simp
      also have "\<dots> \<le> at rs (q div 2)" using heap_fromD [OF prems(7), of q] p(2) prems(3) by simp
      finally show "at rs c \<le> key ?a" by (simp add: at_def)
    qed (simp add: at_def)
    have ch: "at ?rs c \<le> key pos" if "c div 2 = q div 2" "c \<le> j" for c
    proof -
      have "at rs c \<le> at rs (q div 2)" using heap_fromD [OF prems(7), of c] that p(2) by simp
      moreover have "1 \<le> c" using that p(3) by (cases c) auto
      ultimately show ?thesis using 3(2) u [of c ?a] by (auto simp: at_def)
    qed
    have "set ?rs \<subseteq> S" using s prems(5) by (auto simp: kept_def)
    then have "\<exists>rs' q'. sift_up sm ?rs i (q div 2) pos = Some (rs', q') \<and> kept j ?rs (q div 2) rs' q' \<and> 1 \<le> q' \<and> q' \<le> j \<and> heap_from i j (rs'[q' - 1 := pos])"
      using p prems(1,3,4,6) h ch by (intro less.IH) simp_all
    then show ?thesis unfolding e using s kept_trans by blast
  qed
qed

lemma heap_insert_ok:
  assumes "1 \<le> i" "i \<le> j" "j \<le> length rs" "set rs \<subseteq> S" "pos \<in> S" "heap_from (i + 1) j rs"
  shows "\<exists>rs'. heap_insert sm rs i j pos = Some rs' \<and> heap_from i j rs' \<and> mset rs' = mset (rs[i - 1 := pos]) \<and>
    (\<forall>p. j \<le> p \<longrightarrow> rs' ! p = rs ! p)"
proof -
  obtain r1 q1 where 1: "sift_down sm rs i j = Some (r1, q1)" "kept j rs i r1 q1" "under i q1" "q1 \<le> j" "j < 2 * q1" "heap_from i j r1"
    using sift_down_ok [of i i j rs] assms by auto
  have r1: "length r1 = length rs" "set r1 \<subseteq> S" using 1(2) assms(4) by (auto simp: kept_def)
  have "\<exists>r2 q2. sift_up sm r1 i q1 pos = Some (r2, q2) \<and> kept j r1 q1 r2 q2 \<and> 1 \<le> q2 \<and> q2 \<le> j \<and> heap_from i j (r2[q2 - 1 := pos])"
  proof (rule sift_up_ok [OF assms(1) 1(3,4) _ r1(2) assms(5) 1(6)])
    fix p assume "p div 2 = q1" "p \<le> j"
    then show "at r1 p \<le> key pos" using 1(5) by linarith
  qed (use r1 assms in simp)
  then obtain r2 q2 where 2: "sift_up sm r1 i q1 pos = Some (r2, q2)" "kept j r1 q1 r2 q2" "1 \<le> q2" "q2 \<le> j" "heap_from i j (r2[q2 - 1 := pos])"
    by blast
  have k: "kept j rs i r2 q2" using 1(2) 2(2) by (rule kept_trans)
  then have "q2 - 1 < length r2" using 2(3,4) assms(3) by (simp add: kept_def)
  then show ?thesis using 1(1) 2 k by (auto simp: heap_insert_def st_def kept_def)
qed

text \<open>The greatest element of a heap is at its root.\<close>

lemma heap_root:
  assumes "heap_from 1 j rs" "1 \<le> p" "p \<le> j"
  shows "at rs p \<le> at rs 1"
  using assms(2,3)
proof (induction p rule: less_induct)
  case (less p)
  show ?case
  proof (cases "p = 1")
    case False
    then have "1 \<le> p div 2" "p div 2 < p" using less.prems by auto
    then show ?thesis using less heap_fromD [OF assms(1), of p] by (meson order_trans less_imp_le)
  qed simp
qed

text \<open>While the heap shrinks: what lies behind it is sorted and not smaller than what is in it.\<close>

definition sorted_behind :: "nat \<Rightarrow> nat list \<Rightarrow> bool" where
  "sorted_behind j rs \<longleftrightarrow> (\<forall>a b. a < b \<and> j \<le> b \<and> b < length rs \<longrightarrow> key (rs ! a) \<le> key (rs ! b))"

lemma heap_shrink:
  assumes "heap_from 1 j rs" "sorted_behind j rs" "1 < j" "j \<le> length rs"
    and r2: "mset rs2 = mset rs" "\<And>p. j - 1 \<le> p \<Longrightarrow> rs2 ! p = (rs[j - 1 := rs ! 0]) ! p"
  shows "sorted_behind (j - 1) rs2"
  unfolding sorted_behind_def
proof (intro allI impI, elim conjE)
  fix a b assume ab: "a < b" "j - 1 \<le> b" "b < length rs2"
  have len: "length rs2 = length rs" using r2(1) by (rule mset_eq_length)
  have "drop (j - 1) rs2 = drop (j - 1) (rs[j - 1 := rs ! 0])"
    using r2(2) len by (intro nth_equalityI) simp_all
  also have "\<dots> = rs ! 0 # drop j rs"
    using assms(3,4) by (simp add: Cons_nth_drop_Suc [symmetric])
  finally have d: "drop (j - 1) rs2 = rs ! 0 # drop j rs" .
  have "mset (take (j - 1) rs2) + mset (drop (j - 1) rs2) = mset (take j rs) + mset (drop j rs)"
    by (simp only: mset_append [symmetric] append_take_drop_id r2(1))
  then have "mset (take j rs) = add_mset (rs ! 0) (mset (take (j - 1) rs2))" unfolding d by simp
  then have sub: "set (take (j - 1) rs2) \<subseteq> set (take j rs)" by (metis insert_iff set_mset_add_mset_insert set_mset_mset subsetI)
  have old: "\<exists>c < j. rs2 ! a = rs ! c" if "a < j - 1"
  proof -
    have "rs2 ! a \<in> set (take (j - 1) rs2)" using that len assms(4) by (auto simp: in_set_conv_nth)
    then have "rs2 ! a \<in> set (take j rs)" using sub by blast
    then show ?thesis by (auto simp: in_set_conv_nth)
  qed
  have max: "key (rs ! c) \<le> key (rs ! 0)" if "c < j" for c
    using heap_root [OF assms(1), of "c + 1"] that by (simp add: at_def)
  have behind: "key (rs ! c) \<le> key (rs ! b)" if "c < b" "j \<le> b" for c
    using assms(2) that ab(3) len by (simp add: sorted_behind_def)
  consider "a < j - 1" "b = j - 1" | "a < j - 1" "j \<le> b" | "a = j - 1" "j \<le> b" | "j \<le> a" using ab by linarith
  then show "key (rs2 ! a) \<le> key (rs2 ! b)"
  proof cases
    case 1
    then show ?thesis using old max r2(2) [of b] assms(3,4) by auto
  next
    case 2
    then obtain c where "c < j" "rs2 ! a = rs ! c" using old by blast
    then show ?thesis using behind [of c] 2 r2(2) [of b] by auto
  next
    case 3
    then show ?thesis using behind [of 0] r2(2) [of a] r2(2) [of b] assms(3,4) by auto
  next
    case 4
    then show ?thesis using behind [of a] ab(1) r2(2) [of a] r2(2) [of b] assms(3) by auto
  qed
qed

lemma heap_sort_shrinks:
  assumes "heap_from 1 j rs" "sorted_behind j rs" "j \<le> length rs" "set rs \<subseteq> S"
  shows "\<exists>rs'. heap_sort sm rs 1 j = Some rs' \<and> mset rs' = mset rs \<and> sorted (map key rs')"
  using assms
proof (induction j arbitrary: rs rule: less_induct)
  case (less j)
  show ?case
  proof (cases "1 < j")
    case False
    then have "sorted (map key rs)" using less.prems(2) by (auto simp: sorted_behind_def sorted_iff_nth_mono_less)
    then show ?thesis using False by (subst heap_sort.simps) simp
  next
    case True
    let ?rs = "rs[j - 1 := rs ! 0]" and ?pos = "rs ! (j - 1)"
    have "rs ! x \<in> S" if "x < j" for x using less.prems(3,4) that by (meson less_le_trans nth_mem subsetD)
    then have "?pos \<in> S" "rs ! 0 \<in> S" using True by simp_all
    then have S: "?pos \<in> S" "set ?rs \<subseteq> S"
      using less.prems(3,4) True by (auto dest!: subsetD [OF set_update_subset_insert] simp: subset_iff)
    have h: "heap_from (1 + 1) (j - 1) ?rs"
      using less.prems(1,3) by (auto simp: heap_from_def at_def nth_list_update)
    have j: "1 \<le> j - 1" "j - 1 \<le> length ?rs" using True less.prems(3) by simp_all
    obtain r2 where 2: "heap_insert sm ?rs 1 (j - 1) ?pos = Some r2" "heap_from 1 (j - 1) r2" "mset r2 = mset (?rs[1 - 1 := ?pos])"
        "\<And>p. j - 1 \<le> p \<Longrightarrow> r2 ! p = ?rs ! p"
      using heap_insert_ok [OF order_refl j S(2,1) h] by blast
    have m: "mset r2 = mset rs"
      using mset_swap [of 0 rs "j - 1"] True less.prems(3) unfolding 2(3) by (cases rs) (simp_all add: list_update_swap)
    have "sorted_behind (j - 1) r2" by (rule heap_shrink [OF less.prems(1,2) True less.prems(3) m 2(4)])
    moreover have "set r2 \<subseteq> S" "length r2 = length rs" using m less.prems(4) by (metis set_mset_mset, metis size_mset)
    ultimately have "\<exists>rs'. heap_sort sm r2 1 (j - 1) = Some rs' \<and> mset rs' = mset r2 \<and> sorted (map key rs')"
      using 2(2) True less.prems(3) by (intro less.IH) simp_all
    moreover have l: "rs \<noteq> []" "j - 1 < length rs" using True less.prems(3) by auto
    have "heap_sort sm rs 1 j = heap_sort sm r2 1 (j - 1)"
      using 2(1) True l by (subst heap_sort.simps) (simp add: ld_def st_def)
    ultimately show ?thesis using m by simp
  qed
qed

lemma heap_sort_grows:
  assumes "1 \<le> i" "i \<le> length rs" "heap_from i (length rs) rs" "set rs \<subseteq> S"
  shows "\<exists>rs'. heap_sort sm rs i (length rs) = Some rs' \<and> mset rs' = mset rs \<and> sorted (map key rs')"
  using assms
proof (induction i arbitrary: rs rule: less_induct)
  case (less i)
  show ?case
  proof (cases "i = 1")
    case True
    have "sorted_behind (length rs) rs" by (auto simp: sorted_behind_def)
    then show ?thesis using heap_sort_shrinks [of "length rs" rs] less.prems True by simp
  next
    case False
    let ?j = "length rs" and ?pos = "rs ! (i - 2)"
    have i: "1 < i" "i - 2 < length rs" using False less.prems(1,2) by auto
    then have S: "?pos \<in> S" using less.prems(4) by auto
    have "i - 1 + 1 = i" using i by simp
    then have h: "heap_from (i - 1 + 1) ?j rs" using less.prems(3) by simp
    have j: "1 \<le> i - 1" "i - 1 \<le> ?j" using i less.prems(2) by simp_all
    obtain r2 where 2: "heap_insert sm rs (i - 1) ?j ?pos = Some r2" "heap_from (i - 1) ?j r2" "mset r2 = mset (rs[i - 1 - 1 := ?pos])"
      using heap_insert_ok [OF j order_refl less.prems(4) S h] by blast
    have "i - 1 - 1 = i - 2" by simp
    then have m: "mset r2 = mset rs" using 2(3) by (simp only: list_update_id)
    have l: "length r2 = ?j" "set r2 \<subseteq> S" using m less.prems(4) by (metis size_mset, metis set_mset_mset)
    then have "\<exists>rs'. heap_sort sm r2 (i - 1) (length r2) = Some rs' \<and> mset rs' = mset r2 \<and> sorted (map key rs')"
      using 2(2) i less.prems(2) by (intro less.IH) simp_all
    moreover have "heap_sort sm rs i ?j = heap_sort sm r2 (i - 1) ?j"
      using i less.prems(2) 2(1) by (subst heap_sort.simps) (simp add: ld_def)
    ultimately show ?thesis using m l(1) by simp
  qed
qed

theorem heap_sort_sorts:
  assumes "set rs \<subseteq> S"
  shows "\<exists>rs'. heap_sort sm rs (length rs) (length rs) = Some rs' \<and> mset rs' = mset rs \<and> sorted (map key rs')"
proof (cases "rs = []")
  case True
  then show ?thesis by (subst heap_sort.simps) simp
next
  case False
  have "\<not> (length rs \<le> p div 2 \<and> p \<le> length rs)" for p
    using False div_less_dividend [of 2 p] by (cases "p = 0") auto
  then have "heap_from (length rs) (length rs) rs" unfolding heap_from_def by blast
  then show ?thesis using False assms by (intro heap_sort_grows) (auto simp: Suc_le_eq)
qed

end


section \<open>The comparison is a linear order\<close>

text \<open>A record that can be read: its name and the ten bytes behind it.\<close>

definition record_at :: "(nat \<Rightarrow> bool) \<Rightarrow> bytes \<Rightarrow> nat \<Rightarrow> bool" where
  "record_at al buf p \<longleftrightarrow> (\<exists>e ls. dns_packet_getname al buf p None = Some (e, Some (dn_of ls)) \<and> wf_name ls \<and> e + 10 \<le> length buf)"

text \<open>What \<open>smaller\<close> compares: type and class, the length of the name, the name up to case, the position behind the name.\<close>

definition record_key :: "(nat \<Rightarrow> bool) \<Rightarrow> bytes \<Rightarrow> nat \<Rightarrow> bytes \<times> nat \<times> bytes \<times> nat" where
  "record_key al buf p =
     (case dns_packet_getname al buf p None of
        Some (e, Some t) \<Rightarrow> (mem_read buf e 4, length t, map case_fold t, e)
      | _ \<Rightarrow> ([], 0, [], 0))"

lemma byte_diff_sign:
  assumes "n \<le> length y" "n \<le> length x"
  obtains d where "byte_diff y n x = Some d" "d < 0 \<longleftrightarrow> take n y < take n x" "0 < d \<longleftrightarrow> take n x < take n y"
proof -
  have "\<exists>d. byte_diff_loop i y n x = Some d \<and> (d < 0 \<longleftrightarrow> drop i (take n y) < drop i (take n x)) \<and>
      (0 < d \<longleftrightarrow> drop i (take n x) < drop i (take n y))" for i
    using assms
  proof (induction i y n x rule: byte_diff_loop.induct)
    case (1 i y n x)
    show ?case
    proof (cases "i < n")
      case True
      then have "drop i (take n x) = x ! i # drop (Suc i) (take n x)"
        and "drop i (take n y) = y ! i # drop (Suc i) (take n y)"
        using "1.prems" by (simp_all add: Cons_nth_drop_Suc [symmetric])
      then show ?thesis
        using 1 True by (subst byte_diff_loop.simps) (auto simp: word_uint_eq_iff word_less_def)
    next
      case False
      with "1.prems" show ?thesis by (subst byte_diff_loop.simps) simp
    qed
  qed
  from this [of 0] show thesis using that by (auto simp: byte_diff_def)
qed

lemma case_diffb_sign:
  "n \<le> length y \<Longrightarrow> n \<le> length x \<Longrightarrow>
   \<exists>d. case_diffb y n x = Some d \<and> (d < 0 \<longleftrightarrow> map case_fold (take n y) < map case_fold (take n x)) \<and>
     (0 < d \<longleftrightarrow> map case_fold (take n x) < map case_fold (take n y))"
  by (induction y n x rule: case_diffb.induct) (auto simp: word_uint_eq_iff word_less_def)

lemma smaller_key:
  assumes "record_at al buf a" "record_at al buf b"
  shows "smaller al buf a b = Some (record_key al buf a < record_key al buf b)"
proof -
  obtain e ls where 1: "dns_packet_getname al buf a None = Some (e, Some (dn_of ls))" "wf_name ls" "e + 10 \<le> length buf"
    using assms(1) by (auto simp: record_at_def)
  obtain f ms where 2: "dns_packet_getname al buf b None = Some (f, Some (dn_of ms))" "wf_name ms" "f + 10 \<le> length buf"
    using assms(2) by (auto simp: record_at_def)
  let ?h = "mem_read buf e 10" and ?g = "mem_read buf f 10"
  have h: "dns_packet_copy buf e 10 = Some (e + 10, ?h)" "dns_packet_copy buf f 10 = Some (f + 10, ?g)"
    using 1(3) 2(3) by (simp_all add: dns_packet_copy_def dns_packet_copy_loop_eq)
  have t: "take 4 ?h = mem_read buf e 4" "take 4 ?g = mem_read buf f 4" by (simp_all add: mem_read_def)
  have l: "dns_domain_length (dn_of ls) = Some (length (dn_of ls))" "dns_domain_length (dn_of ms) = Some (length (dn_of ms))"
    using dns_domain_length_dn_of [of ls "[]"] dns_domain_length_dn_of [of ms "[]"] 1(2) 2(2) by (simp_all add: wf_name_def)
  obtain r where r: "byte_diff ?h 4 ?g = Some r" "r < 0 \<longleftrightarrow> mem_read buf e 4 < mem_read buf f 4"
      "0 < r \<longleftrightarrow> mem_read buf f 4 < mem_read buf e 4"
    using byte_diff_sign [of 4 ?h ?g] 1(3) 2(3) unfolding t by auto
  have k: "record_key al buf a = (mem_read buf e 4, length (dn_of ls), map case_fold (dn_of ls), e)"
      "record_key al buf b = (mem_read buf f 4, length (dn_of ms), map case_fold (dn_of ms), f)"
    using 1(1) 2(1) by (simp_all add: record_key_def)
  define M N where "M = mem_read buf e 4" and "N = mem_read buf f 4"
  define x y where "x = length (dn_of ls)" and "y = length (dn_of ms)"
  define u v where "u = map case_fold (dn_of ls)" and "v = map case_fold (dn_of ms)"
  have d: "case_diffb (dn_of ls) x (dn_of ms) \<noteq> None \<and> (the (case_diffb (dn_of ls) x (dn_of ms)) < 0 \<longleftrightarrow> u < v) \<and>
      (0 < the (case_diffb (dn_of ls) x (dn_of ms)) \<longleftrightarrow> v < u)" if "x = y"
    using case_diffb_sign [of x "dn_of ls" "dn_of ms"] that by (auto simp: x_def y_def u_def v_def)
  have e: "smaller al buf a b =
     (if M < N then Some True else if N < M then Some False
      else if x < y then Some True else if x > y then Some False
      else do { r \<leftarrow> case_diffb (dn_of ls) x (dn_of ms); if r < 0 then Some True else if r > 0 then Some False else Some (e < f) })"
    unfolding smaller_def 1(1) 2(1) by (simp add: h r l x_def y_def M_def N_def)
  have "(if M < N then Some True else if N < M then Some False
      else if x < y then Some True else if x > y then Some False
      else do { r \<leftarrow> case_diffb (dn_of ls) x (dn_of ms); if r < 0 then Some True else if r > 0 then Some False else Some (e < f) }) =
     Some ((M, x, u, e) < (N, y, v, f))"
  proof (cases "M = N \<and> x = y")
    case True
    obtain r where "case_diffb (dn_of ls) x (dn_of ms) = Some r" "r < 0 \<longleftrightarrow> u < v" "0 < r \<longleftrightarrow> v < u" using d True by auto
    then show ?thesis using True by (cases u v rule: linorder_cases) auto
  next
    case False
    then have "M < N \<or> N < M \<or> M = N \<and> (x < y \<or> y < x)" by (metis linorder_less_linear)
    then show ?thesis by (elim disjE conjE) (simp_all add: less_le_not_le [of M N] less_le_not_le [of N M])
  qed
  then show ?thesis unfolding e k M_def N_def x_def y_def u_def v_def .
qed

interpretation packet_records: record_order "smaller al buf" "record_key al buf" "{p. record_at al buf p}" for al buf
  by unfold_locales (simp add: smaller_key)

text \<open>
  C31: The heap sort of \<open>doit\<close> on the positions of records that can be read: it stays inside the array, ends, and leaves a
  permutation of the positions in ascending order; so the records of one type, class and name stand next
  to each other.
\<close>

theorem sort_records_sorts:
  assumes "\<forall>p \<in> set rs. record_at al buf p"
  shows "\<exists>rs'. sort_records al buf rs = Some rs' \<and> mset rs' = mset rs \<and> sorted (map (record_key al buf) rs')"
  using packet_records.heap_sort_sorts [of rs al buf] assms by (auto simp: sort_records_def)

text \<open>Two records of the root zone, the second of a smaller type.\<close>

theorem sort_records_sorts_witness:
  "\<exists>rs'. sort_records (\<lambda>_. True) (0 # [0, 2, 0, 1, 0, 0, 0, 9, 0, 0] @ 0 # [0, 1, 0, 1, 0, 0, 0, 9, 0, 0]) [0, 11] = Some rs' \<and>
     mset rs' = {#0, 11#} \<and>
     sorted (map (record_key (\<lambda>_. True) (0 # [0, 2, 0, 1, 0, 0, 0, 9, 0, 0] @ 0 # [0, 1, 0, 1, 0, 0, 0, 9, 0, 0])) rs')"
proof -
  let ?buf = "0 # [0, 2, 0, 1, 0, 0, 0, 9, 0, 0] @ 0 # [0, 1, 0, 1, 0, 0, 0, 9, 0, 0] :: bytes"
  have "dns_packet_getname (\<lambda>_. True) ?buf 0 None = Some (1, Some (dn_of []))" "dns_packet_getname (\<lambda>_. True) ?buf 11 None = Some (12, Some (dn_of []))"
    by code_simp+
  then have "record_at (\<lambda>_. True) ?buf 0" "record_at (\<lambda>_. True) ?buf 11"
    unfolding record_at_def by (auto simp: wf_name_def intro!: exI [of _ "[]"])
  then show ?thesis using sort_records_sorts [of "[0, 11]" "\<lambda>_. True" ?buf] by simp
qed

end
