(* ===== verification/Query.thy ===== *)
theory Query
  imports Roots QuerySort CacheRun Response DnsTransmit DnsSort
begin

section \<open>Resolving a query\<close>

text \<open>
  The model of \<open>dq/query.c\<close>.  The labels of the function \<open>doit\<close> are the values of a datatype; the code from a label
  to the jumps that leave it is a definition that returns where it goes on, with the query and the global state.  A read or write
  outside an object, or through a null pointer, is \<open>None\<close>.  What is only logged is left out.

  The pointer \<open>control[level]\<close> into the name of the level is the bytes from there.  The shared buffers \<open>t1\<close>, \<open>t2\<close>,
  \<open>t3\<close>, \<open>cname\<close> and \<open>referral\<close> are written before they are read in every call, so they are local here.
\<close>

subsection \<open>Types of records\<close>

definition DNS_T_A :: bytes where "DNS_T_A = [0, 1]"
definition DNS_T_NS :: bytes where "DNS_T_NS = [0, 2]"
definition DNS_T_CNAME :: bytes where "DNS_T_CNAME = [0, 5]"
definition DNS_T_SOA :: bytes where "DNS_T_SOA = [0, 6]"
definition DNS_T_PTR :: bytes where "DNS_T_PTR = [0, 12]"
definition DNS_T_MX :: bytes where "DNS_T_MX = [0, 15]"
definition DNS_T_AAAA :: bytes where "DNS_T_AAAA = [0, 28]"
definition DNS_C_IN :: bytes where "DNS_C_IN = [0, 1]"

lemmas type_defs = DNS_T_A_def DNS_T_NS_def DNS_T_CNAME_def DNS_T_SOA_def DNS_T_PTR_def DNS_T_MX_def DNS_T_AAAA_def DNS_C_IN_def
  DNS_T_AXFR_def DNS_T_ANY_def

text \<open>\<open>byte_isequal(a, 2, b)\<close>.\<close>

definition type_eq :: "bytes \<Rightarrow> bytes \<Rightarrow> bool" where
  "type_eq a b \<longleftrightarrow> take 2 a = take 2 b"

definition typematch :: "bytes \<Rightarrow> bytes \<Rightarrow> bool" where
  "typematch rtype qtype \<longleftrightarrow> type_eq qtype rtype \<or> type_eq qtype DNS_T_ANY"

subsection \<open>State\<close>

definition QUERY_MAXLEVEL :: nat where "QUERY_MAXLEVEL = 5"
definition QUERY_MAXALIAS :: nat where "QUERY_MAXALIAS = 16"
definition QUERY_MAXNS :: nat where "QUERY_MAXNS = 16"
definition QUERY_MAXLOOP :: nat where "QUERY_MAXLOOP = 500"

record query =
  q_loop :: nat
  q_level :: nat
  q_name :: "bytes option list"
  q_control :: "bytes list"
  q_ns :: "bytes option list list"
  q_servers :: "bytes list"
  q_keys :: "bytes list"
  q_flaghavekeys :: "bool list"
  q_ipv6 :: "bool list"
  q_alias :: "bytes option list"
  q_aliasttl :: "u32 list"
  q_localip :: bytes
  q_type :: bytes
  q_class :: bytes
  q_dt :: dns_transmit

text \<open>The static variables of the program that a query uses.\<close>

record 'w globals =
  g_cache :: cache
  g_resp :: resp
  g_sys :: "'w system"
  g_roots :: bytes
  secretkey :: bytes
  publickey :: bytes
  flagforwardonly :: bool
  flagtcponly :: bool
  flagipv4only :: bool
  minttl :: u32
  remoteport :: bytes
  flagdnscurvetype1 :: byte
  flagdnscurvetype2 :: byte
  tx4 :: u64
  tx6 :: u64

text \<open>What the program is given: the operating system, the clock in seconds, \<open>inet_pton\<close>, and which sizes \<open>alloc\<close> grants.\<close>

record 'w env =
  e_os :: "'w os"
  e_seconds :: "'w \<Rightarrow> int \<times> 'w"
  e_pton6 :: "bytes \<Rightarrow> bytes \<Rightarrow> bool \<times> bytes"
  e_alloc :: "nat \<Rightarrow> bool"

datatype label = NEWNAME | HAVENS | LOWERLEVEL | HAVEPACKET | CNAME bytes int | NXDOMAIN | SERVFAIL | DIE

text \<open>
  Where the code goes on: at a label, behind the block (\<open>Fall\<close>), at the call of \<open>dns_transmit_startext\<close> (\<open>Ask\<close>), or
  at the caller.
\<close>

datatype exit = Goto label | Fall | Ask bytes | Finish int

type_synonym 'w result = "(exit \<times> query \<times> 'w globals) option"

definition after :: "'w result \<Rightarrow> (query \<Rightarrow> 'w globals \<Rightarrow> 'w result) \<Rightarrow> 'w result" where
  "after m f = do { (n, z, g) \<leftarrow> m; if n = Fall then f z g else Some (n, z, g) }"

text \<open>An operation on the response whose failure is \<open>goto DIE\<close>.\<close>

definition respond :: "(resp \<Rightarrow> (bool \<times> resp) option) \<Rightarrow> query \<Rightarrow> 'w globals \<Rightarrow> (query \<Rightarrow> 'w globals \<Rightarrow> 'w result) \<Rightarrow> 'w result" where
  "respond m z g f = do { (ok, r) \<leftarrow> m (g_resp g); let g = g\<lparr>g_resp := r\<rparr>; if ok then f z g else Some (Goto DIE, z, g) }"

text \<open>A pointer in an array, dereferenced.\<close>

definition deref :: "'a option list \<Rightarrow> nat \<Rightarrow> 'a option" where
  "deref xs i = do { p \<leftarrow> ld xs i; p }"

definition this_name :: "query \<Rightarrow> bytes option" where
  "this_name z = deref (q_name z) (q_level z)"

definition this_type :: "query \<Rightarrow> bytes option" where
  "this_type z =
     (if q_level z \<noteq> 0 then do { v6 \<leftarrow> ld (q_ipv6 z) (q_level z); Some (if v6 then DNS_T_AAAA else DNS_T_A) } else Some (q_type z))"

definition set_ipv6 :: "bool \<Rightarrow> query \<Rightarrow> query option" where
  "set_ipv6 b z = do { v \<leftarrow> st (q_ipv6 z) (q_level z) b; Some (z\<lparr>q_ipv6 := v\<rparr>) }"

definition set_name :: "bytes option \<Rightarrow> query \<Rightarrow> query option" where
  "set_name x z = do { v \<leftarrow> st (q_name z) (q_level z) x; Some (z\<lparr>q_name := v\<rparr>) }"

definition set_control :: "bytes \<Rightarrow> query \<Rightarrow> query option" where
  "set_control x z = do { v \<leftarrow> st (q_control z) (q_level z) x; Some (z\<lparr>q_control := v\<rparr>) }"

definition set_servers :: "bytes \<Rightarrow> query \<Rightarrow> query option" where
  "set_servers x z = do { v \<leftarrow> st (q_servers z) (q_level z) x; Some (z\<lparr>q_servers := v\<rparr>) }"

definition set_keys :: "bytes \<Rightarrow> query \<Rightarrow> query option" where
  "set_keys x z = do { v \<leftarrow> st (q_keys z) (q_level z) x; Some (z\<lparr>q_keys := v\<rparr>) }"

definition set_havekeys :: "bool \<Rightarrow> query \<Rightarrow> query option" where
  "set_havekeys b z = do { v \<leftarrow> st (q_flaghavekeys z) (q_level z) b; Some (z\<lparr>q_flaghavekeys := v\<rparr>) }"

definition set_ns :: "bytes option list \<Rightarrow> query \<Rightarrow> query option" where
  "set_ns x z = do { v \<leftarrow> st (q_ns z) (q_level z) x; Some (z\<lparr>q_ns := v\<rparr>) }"

text \<open>\<open>for (j = 0;j < QUERY_MAXNS;++j) dns_domain_free(&z->ns[z->level][j]);\<close>\<close>

definition free_ns :: "query \<Rightarrow> query option" where
  "free_ns z = do { ns \<leftarrow> ld (q_ns z) (q_level z); set_ns (map dns_domain_free ns) z }"

subsection \<open>Settings\<close>

definition query_init :: "bytes \<Rightarrow> 'w globals \<Rightarrow> 'w globals" where
  "query_init sk g = g\<lparr>secretkey := take 32 sk, publickey := crypto_scalarmult_curve25519 (take 32 sk) basepoint\<rparr>"

definition query_purge :: "'w globals \<Rightarrow> 'w globals" where
  "query_purge g = g\<lparr>secretkey := replicate 32 0, publickey := replicate 32 0\<rparr>"

definition query_forwardonly :: "'w globals \<Rightarrow> 'w globals" where
  "query_forwardonly g = g\<lparr>flagforwardonly := True\<rparr>"

definition query_tcponly :: "'w globals \<Rightarrow> 'w globals" where
  "query_tcponly g = g\<lparr>flagtcponly := True\<rparr>"

definition query_ipv4only :: "'w globals \<Rightarrow> 'w globals" where
  "query_ipv4only g = g\<lparr>flagipv4only := True\<rparr>"

definition query_minttl :: "int \<Rightarrow> 'w globals \<Rightarrow> 'w globals" where
  "query_minttl x g =
     (let x = (if x < 0 then 0 else x); x = (if x > 300 then 300 else x) in g\<lparr>minttl := of_int x\<rparr>)"

definition query_remoteport :: "bytes \<Rightarrow> 'w globals \<Rightarrow> 'w globals" where
  "query_remoteport port g = g\<lparr>remoteport := take 2 port\<rparr>"

text \<open>The argument is \<open>None\<close> for a null pointer, else the string with its terminator.\<close>

definition query_dnscurvetype :: "bytes option \<Rightarrow> 'w globals \<Rightarrow> 'w globals" where
  "query_dnscurvetype x g =
     (case x of None \<Rightarrow> g
      | Some s \<Rightarrow> if hd0 s = 49 then g\<lparr>flagdnscurvetype1 := 1, flagdnscurvetype2 := 0\<rparr>
                  else if hd0 s = 50 then g\<lparr>flagdnscurvetype1 := 2, flagdnscurvetype2 := 0\<rparr>
                  else g\<lparr>flagdnscurvetype1 := 1, flagdnscurvetype2 := 2\<rparr>)"

subsection \<open>The cache\<close>

text \<open>\<open>cache_get\<close> and \<open>cache_set\<close> read the clock.\<close>

definition clock :: "'w env \<Rightarrow> 'w globals \<Rightarrow> int \<times> 'w globals" where
  "clock e g = (let (t, w) = e_seconds e (world (g_sys g)) in (t, g\<lparr>g_sys := (g_sys g)\<lparr>world := w\<rparr>\<rparr>))"

definition cget :: "'w env \<Rightarrow> bytes \<Rightarrow> 'w globals \<Rightarrow> (cache_result \<times> 'w globals) option" where
  "cget e key g = (let (t, g) = clock e g in do { (r, c) \<leftarrow> cache_get (g_cache g) key t; Some (r, g\<lparr>g_cache := c\<rparr>) })"

definition cset :: "'w env \<Rightarrow> bytes \<Rightarrow> bytes \<Rightarrow> u32 \<Rightarrow> byte \<Rightarrow> 'w globals \<Rightarrow> 'w globals option" where
  "cset e key data ttl flags g =
     (let (t, g) = clock e g in do { c \<leftarrow> cache_set (g_cache g) key data (uint ttl) t flags; Some (g\<lparr>g_cache := c\<rparr>) })"

text \<open>The key: the type and the name with its letters lowered, in a buffer of 259 bytes.\<close>

definition cache_key :: "bytes \<Rightarrow> bytes \<Rightarrow> nat \<Rightarrow> bytes option" where
  "cache_key type d dlen =
     (if dlen + 2 \<le> 259 \<and> dlen \<le> length d
      then do { low \<leftarrow> case_lowerb (take dlen d) dlen; Some (take 2 type @ low) }
      else None)"

definition cachegeneric :: "'w env \<Rightarrow> bytes \<Rightarrow> bytes \<Rightarrow> bytes \<Rightarrow> u32 \<Rightarrow> byte \<Rightarrow> 'w globals \<Rightarrow> 'w globals option" where
  "cachegeneric e type d data ttl flagns g =
     do { len \<leftarrow> dns_domain_length d;
          if len > 255 then Some g
          else do { key \<leftarrow> cache_key type d len; cset e key data ttl flagns g } }"

definition cachegeneric2 :: "'w env \<Rightarrow> bytes \<Rightarrow> bytes \<Rightarrow> bytes \<Rightarrow> bytes \<Rightarrow> u32 \<Rightarrow> byte \<Rightarrow> 'w globals \<Rightarrow> 'w globals option" where
  "cachegeneric2 e type dtype d data ttl flagns g =
     do { len \<leftarrow> dns_domain_length d;
          if len > 255 then Some g
          else do { key \<leftarrow> cache_key type d len; cset e (key @ take 2 dtype) data ttl flagns g } }"

text \<open>The buffer of 8192 bytes that collects the data of a set of records; \<open>None\<close> when \<open>save_ok\<close> is 0.\<close>

type_synonym save = "bytes option"

definition save_start :: save where "save_start = Some []"

definition save_data :: "bytes \<Rightarrow> save \<Rightarrow> save" where
  "save_data b s = (case s of None \<Rightarrow> None | Some x \<Rightarrow> if length b > 8192 - length x then None else Some (x @ b))"

definition save_finish :: "'w env \<Rightarrow> bytes \<Rightarrow> bytes \<Rightarrow> u32 \<Rightarrow> byte \<Rightarrow> save \<Rightarrow> 'w globals \<Rightarrow> 'w globals option" where
  "save_finish e type d ttl flagns s g = (case s of None \<Rightarrow> Some g | Some x \<Rightarrow> cachegeneric e type d x ttl flagns g)"

definition ttlget :: "u32 \<Rightarrow> bytes \<Rightarrow> int" where
  "ttlget mt buf =
     (let ttl = uint32_unpack_big buf; ttl = (if ttl < mt then mt else ttl)
      in if ttl > 1000000000 then 0 else if ttl > 604800 then 604800 else uint ttl)"

subsection \<open>Names\<close>

definition cleanup :: "'w env \<Rightarrow> query \<Rightarrow> 'w globals \<Rightarrow> query \<times> 'w globals" where
  "cleanup e z g =
     (let (dt, sys) = dns_transmit_free (e_os e) (q_dt z) (g_sys g)
      in (z\<lparr>q_dt := dt, q_alias := map dns_domain_free (q_alias z), q_name := map dns_domain_free (q_name z),
            q_ns := map (map dns_domain_free) (q_ns z)\<rparr>,
          g\<lparr>g_sys := sys\<rparr>))"

text \<open>\<open>cleanup(z); return 1;\<close>\<close>

definition finished :: "'w env \<Rightarrow> query \<Rightarrow> 'w globals \<Rightarrow> 'w result" where
  "finished e z g = (let (z, g) = cleanup e z g in Some (Finish 1, z, g))"

text \<open>\<open>rqa\<close>: the question and the chain of aliases that led from it to the present name.\<close>

primrec top_alias :: "bytes option list \<Rightarrow> nat \<Rightarrow> nat option option" where
  "top_alias al 0 = Some None"
| "top_alias al (Suc i) = do { p \<leftarrow> ld al i; if p \<noteq> None then Some (Some i) else top_alias al i }"

primrec alias_chain :: "query \<Rightarrow> nat \<Rightarrow> resp \<Rightarrow> (bool \<times> resp) option" where
  "alias_chain z 0 r =
     do { a \<leftarrow> deref (q_alias z) 0; n \<leftarrow> deref (q_name z) 0; t \<leftarrow> ld (q_aliasttl z) 0; response_cname r a n t }"
| "alias_chain z (Suc i) r =
     do { a \<leftarrow> deref (q_alias z) (Suc i); b \<leftarrow> deref (q_alias z) i; t \<leftarrow> ld (q_aliasttl z) (Suc i);
          and_then (response_cname r a b t) (alias_chain z i) }"

definition rqa :: "query \<Rightarrow> resp \<Rightarrow> (bool \<times> resp) option" where
  "rqa z r =
     do { i \<leftarrow> top_alias (q_alias z) QUERY_MAXALIAS;
          case i of
            Some i \<Rightarrow> do { a \<leftarrow> deref (q_alias z) i; and_then (response_query r a (q_type z) (q_class z)) (alias_chain z i) }
          | None \<Rightarrow> do { n \<leftarrow> deref (q_name z) 0; response_query r n (q_type z) (q_class z) } }"

text \<open>\<open>dtis(out, outlen, d)\<close>: the text of an address written as a name, or the \<open>return 0\<close>.\<close>

fun dtis_label :: "nat \<Rightarrow> bytes \<Rightarrow> nat \<Rightarrow> bytes \<Rightarrow> (bytes \<times> bytes) option option" where
  "dtis_label outlen out 0 d = Some (Some (out, d))"
| "dtis_label outlen out (Suc n) [] = None"
| "dtis_label outlen out (Suc n) (c # d) =
     (if 48 \<le> c \<and> c \<le> 57 \<or> c = 58
      then if length out \<ge> outlen then Some None else dtis_label outlen (out @ [c]) n d
      else Some None)"

lemma dtis_label_length: "dtis_label outlen out n d = Some (Some (out', d')) \<Longrightarrow> length out \<le> length out'"
  by (induction outlen out n d rule: dtis_label.induct) (auto split: if_splits)

function dtis_loop :: "nat \<Rightarrow> bytes \<Rightarrow> bytes \<Rightarrow> bytes option option" where
  "dtis_loop outlen out [] = None"
| "dtis_loop outlen out (ch # d) =
     do { r \<leftarrow> dtis_label outlen out (unat ch) d;
          case r of None \<Rightarrow> Some None
          | Some (out, d) \<Rightarrow>
            if d = [] then None
            else if hd d = 0 then if length out \<ge> outlen then Some None else Some (Some (out @ [0]))
            else if length out \<ge> outlen then Some None else dtis_loop outlen (out @ [46]) d }"
  by pat_completeness auto
termination
  by (relation "measure (\<lambda>(outlen, out, d). outlen - length out)") (auto dest: dtis_label_length)

declare dtis_loop.simps(2) [simp del]

definition dtis :: "nat \<Rightarrow> bytes \<Rightarrow> bytes option option" where
  "dtis outlen d = (case d of [] \<Rightarrow> None | c # _ \<Rightarrow> if c = 0 then Some None else dtis_loop outlen [] d)"

definition localhost :: bytes where "localhost = [9, 108, 111, 99, 97, 108, 104, 111, 115, 116, 0]"

text \<open>The addresses that names stand for by themselves; \<open>misc\<close> is what the buffer holds before.\<close>

definition globalip :: "bytes \<Rightarrow> bytes \<Rightarrow> (bool \<times> bytes) option" where
  "globalip d misc =
     do { eq \<leftarrow> dns_domain_equal d localhost;
          if eq then Some (True, v4_prefix @ [127, 0, 0, 1])
          else do { x \<leftarrow> dtis 100 d; Some (case x of None \<Rightarrow> (False, misc) | Some x \<Rightarrow> strtoip4 misc (Some x)) } }"

definition globalip6 :: "(bytes \<Rightarrow> bytes \<Rightarrow> bool \<times> bytes) \<Rightarrow> bytes \<Rightarrow> bytes \<Rightarrow> (bool \<times> bytes) option" where
  "globalip6 pton6 d misc =
     do { eq \<leftarrow> dns_domain_equal d localhost;
          if eq then Some (True, replicate 15 0 @ [1])
          else do { x \<leftarrow> dtis 100 d; Some (case x of None \<Rightarrow> (False, misc) | Some x \<Rightarrow> strtoip6 pton6 misc (Some x)) } }"

text \<open>\<open>findkey\<close>: the key in a label \<open>uz5...\<close> of 54 characters.\<close>

function findkey :: "bytes \<Rightarrow> bytes option option" where
  "findkey [] = None"
| "findkey (c # dn) =
     (if c = 0 then Some None
      else do {
        key \<leftarrow> (if c = 54
                then do { r \<leftarrow> case_diffb dn 3 [117, 122, 53];
                          if r = 0
                          then if length dn < 54 then None
                            else Some (case base32_decode (mem_read dn 3 51) True of
                                         Some b \<Rightarrow> if length b = 32 then Some b else None
                                       | None \<Rightarrow> None)
                          else Some None }
                else Some None);
        case key of Some b \<Rightarrow> Some (Some b) | None \<Rightarrow> findkey (drop (unat c) dn) })"
  by pat_completeness auto
termination
  by (relation "measure length") auto

declare findkey.simps(2) [simp del]

subsection \<open>Servers of the level below\<close>

definition free_slot :: "bytes \<Rightarrow> nat option" where
  "free_slot servers = List.find (\<lambda>i. is_zero16 servers (16 * i)) [0..<16]"

text \<open>Storing the address and the key (\<open>kind\<close> byte first) in the first free slot.\<close>

definition fill_slot :: "bytes \<Rightarrow> bytes \<Rightarrow> bytes \<times> bytes \<Rightarrow> (bytes \<times> bytes) option" where
  "fill_slot addr kk sk =
     (case free_slot (fst sk) of
        None \<Rightarrow> Some sk
      | Some i \<Rightarrow> do { s \<leftarrow> wr (fst sk) (16 * i) (take 16 addr); k \<leftarrow> wr (snd sk) (33 * i) kk; Some (s, k) })"

definition addserver :: "byte \<Rightarrow> byte \<Rightarrow> bytes \<Rightarrow> bytes option \<Rightarrow> query \<Rightarrow> query option" where
  "addserver t1 t2 addr key z =
     (if q_level z = 0 then None
      else let l = q_level z - 1 in do {
        fl \<leftarrow> (if key \<noteq> None then st (q_flaghavekeys z) l True else Some (q_flaghavekeys z));
        s \<leftarrow> ld (q_servers z) l;
        k \<leftarrow> ld (q_keys z) l;
        sk \<leftarrow> (case key of Some b \<Rightarrow> fill_slot addr (t1 # take 32 b) (s, k) | None \<Rightarrow> fill_slot addr [0] (s, k));
        sk \<leftarrow> (case key of None \<Rightarrow> Some sk | Some b \<Rightarrow> if t2 = 0 then Some sk else fill_slot addr (t2 # take 32 b) sk);
        s \<leftarrow> st (q_servers z) l (fst sk);
        k \<leftarrow> st (q_keys z) l (snd sk);
        Some (z\<lparr>q_flaghavekeys := fl, q_servers := s, q_keys := k\<rparr>) })"

definition add_server :: "bytes \<Rightarrow> bytes option \<Rightarrow> query \<Rightarrow> 'w globals \<Rightarrow> query option" where
  "add_server addr key z g = addserver (flagdnscurvetype1 g) (flagdnscurvetype2 g) addr key z"

end
