(* ===== verification/Doit.thy ===== *)
theory Doit
  imports Query
begin

section \<open>The function doit\<close>

text \<open>
  \<open>doit\<close> of \<open>dq/query.c\<close>, block by block.  The parameters \<open>d\<close>, \<open>dlen\<close> and \<open>dtype\<close> are the local variables: the name that
  is looked for, its length and the type asked for.
\<close>

subsection \<open>Records of the answer\<close>

text \<open>\<open>response_rstart\<close>, the data, \<open>response_rfinish\<close>.\<close>

definition put_rr :: "bytes \<Rightarrow> bytes \<Rightarrow> int \<Rightarrow> (resp \<Rightarrow> (bool \<times> resp) option) \<Rightarrow> nat \<Rightarrow> resp \<Rightarrow> (bool \<times> resp) option" where
  "put_rr d type ttl body sect r =
     and_then (response_rstart r d (take 2 type) (of_int ttl)) (\<lambda>r.
     and_then (body r) (\<lambda>r. do { r \<leftarrow> response_rfinish r sect; Some (True, r) }))"

definition put_bytes :: "bytes \<Rightarrow> resp \<Rightarrow> (bool \<times> resp) option" where
  "put_bytes b r = response_addbytes r b (int (length b))"

definition put_name :: "bytes \<Rightarrow> resp \<Rightarrow> (bool \<times> resp) option" where
  "put_name n r = response_addname r n"

text \<open>A name read from a packet, and a name with the ten bytes behind it; the inner \<open>None\<close> is \<open>goto DIE\<close>.\<close>

definition read_name :: "(nat \<Rightarrow> bool) \<Rightarrow> bytes \<Rightarrow> nat \<Rightarrow> (nat \<times> bytes) option option" where
  "read_name al buf pos =
     do { (p, t) \<leftarrow> dns_packet_getname al buf pos None;
          if p = 0 then Some None else do { t \<leftarrow> t; Some (Some (p, t)) } }"

definition read_bytes :: "bytes \<Rightarrow> nat \<Rightarrow> nat \<Rightarrow> (nat \<times> bytes) option option" where
  "read_bytes buf pos n =
     do { (p, b) \<leftarrow> dns_packet_copy buf pos n; Some (if p = 0 then None else Some (p, b)) }"

definition read_record :: "(nat \<Rightarrow> bool) \<Rightarrow> bytes \<Rightarrow> nat \<Rightarrow> (nat \<times> bytes \<times> bytes) option option" where
  "read_record al buf pos =
     do { r \<leftarrow> read_name al buf pos;
          case r of None \<Rightarrow> Some None
          | Some (p, t) \<Rightarrow>
            do { x \<leftarrow> read_bytes buf p 10; Some (map_option (\<lambda>(p, header). (p, t, header)) x) } }"

definition u16_at :: "bytes \<Rightarrow> nat \<Rightarrow> nat" where
  "u16_at b i = unat (uint16_unpack_big (drop i b))"

lemma skipname_returns: "\<exists>r. dns_packet_skipname buf pos = Some r \<and> (r \<noteq> 0 \<longrightarrow> pos < r)"
proof (induction buf pos rule: dns_packet_skipname.induct)
  case (1 buf pos)
  show ?case
  proof (cases "pos < length buf \<and> buf ! pos < 64 \<and> buf ! pos \<noteq> 0")
    case True
    then have "\<not> 192 \<le> buf ! pos" by unat_arith
    with True 1 obtain r where "dns_packet_skipname buf (pos + 1 + unat (buf ! pos)) = Some r" "r \<noteq> 0 \<longrightarrow> pos + 1 + unat (buf ! pos) < r"
      by (auto simp: not_le)
    then show ?thesis using True by (subst dns_packet_skipname.simps) (auto simp: ld_Some not_le)
  next
    case False
    then show ?thesis by (subst dns_packet_skipname.simps) (auto simp: ld_Some not_le)
  qed
qed

lemma skipname_less: "dns_packet_skipname buf pos = Some r \<Longrightarrow> r \<noteq> 0 \<Longrightarrow> pos < r"
  using skipname_returns [of buf pos] by auto

lemma read_name_cases:
  obtains "read_name al buf pos = Some None"
  | p ls where "read_name al buf pos = Some (Some (p, dn_of ls))" "pos < p" "p \<le> length buf" "wf_name ls"
      "dns_packet_getname al buf pos None = Some (p, Some (dn_of ls))" "dns_packet_skipname buf pos = Some p"
proof -
  obtain r d' where 1: "dns_packet_getname al buf pos None = Some (r, d')"
    and 2: "r = 0 \<and> d' = None \<or> 0 < r \<and> r \<le> length buf \<and> dns_packet_skipname buf pos = Some r \<and> (\<exists>ls k. wf_name ls \<and> name_at buf pos ls k r \<and> d' = Some (dn_of ls))"
    using getname_result [of al buf pos None] by blast
  show thesis
    using 2
  proof (elim disjE exE conjE)
    assume "r = 0" then show thesis using that(1) 1 by (simp add: read_name_def)
  next
    fix ls k assume "0 < r" "r \<le> length buf" "dns_packet_skipname buf pos = Some r" "wf_name ls" "d' = Some (dn_of ls)"
    then show thesis using that(2) 1 skipname_less [of buf pos] by (simp add: read_name_def)
  qed
qed

lemma read_name_less: "read_name al buf pos = Some (Some (p, t)) \<Longrightarrow> pos < p \<and> p \<le> length buf"
  by (rule read_name_cases [of al buf pos]) auto

lemma read_bytes_eq:
  "read_bytes buf pos n =
    Some (if 0 < n \<and> pos + n \<le> length buf then Some (pos + n, mem_read buf pos n)
          else if n = 0 \<and> pos \<noteq> 0 then Some (pos, []) else None)"
proof (cases "n = 0")
  case False
  then show ?thesis by (simp add: read_bytes_def dns_packet_copy_def dns_packet_copy_loop_eq)
qed (simp add: read_bytes_def dns_packet_copy_def)

lemma read_bytes_less: "read_bytes buf pos n = Some (Some (p, b)) \<Longrightarrow> 0 < n \<Longrightarrow> p = pos + n \<and> p \<le> length buf \<and> length b = n"
  by (auto simp: read_bytes_eq split: if_splits)

subsection \<open>Answers from the cache\<close>

definition usable :: "bytes \<Rightarrow> bytes \<Rightarrow> bool" where
  "usable data dtype \<longleftrightarrow> data \<noteq> [] \<or> \<not> type_eq dtype DNS_T_ANY"

text \<open>The loops over the names, the preferences with names and the SOA data in a cached entry.\<close>

function put_names :: "(nat \<Rightarrow> bool) \<Rightarrow> bytes \<Rightarrow> bytes \<Rightarrow> int \<Rightarrow> nat \<Rightarrow> bytes \<Rightarrow> nat \<Rightarrow> resp \<Rightarrow> (bool \<times> resp) option" where
  "put_names al d type ttl sect data pos r =
     do { x \<leftarrow> read_name al data pos;
          case x of None \<Rightarrow> Some (True, r)
          | Some (p, t2) \<Rightarrow>
            do { (ok, r) \<leftarrow> put_rr d type ttl (put_name t2) sect r;
                 if \<not> ok then Some (False, r) else put_names al d type ttl sect data p r } }"
  by pat_completeness auto
termination
  by (relation "measure (\<lambda>(al, d, type, ttl, sect, data, pos, r). length data - pos)")
    (auto dest!: read_name_less)

function put_mx :: "(nat \<Rightarrow> bool) \<Rightarrow> bytes \<Rightarrow> int \<Rightarrow> bytes \<Rightarrow> nat \<Rightarrow> resp \<Rightarrow> (bool \<times> resp) option" where
  "put_mx al d ttl data pos r =
     do { x \<leftarrow> read_bytes data pos 2;
      case x of None \<Rightarrow> Some (True, r)
      | Some (p, misc) \<Rightarrow>
        do { x \<leftarrow> read_name al data p;
             case x of None \<Rightarrow> Some (True, r)
             | Some (p, t2) \<Rightarrow>
               do { (ok, r) \<leftarrow> put_rr d DNS_T_MX ttl (\<lambda>r. and_then (put_bytes misc r) (put_name t2)) RESPONSE_ANSWER r;
                    if \<not> ok then Some (False, r) else put_mx al d ttl data p r } } }"
  by pat_completeness auto
termination
  by (relation "measure (\<lambda>(al, d, ttl, data, pos, r). length data - pos)")
    (auto dest!: read_name_less read_bytes_less)

function put_soa :: "(nat \<Rightarrow> bool) \<Rightarrow> bytes \<Rightarrow> int \<Rightarrow> bytes \<Rightarrow> nat \<Rightarrow> resp \<Rightarrow> (bool \<times> resp) option" where
  "put_soa al d ttl data pos r =
     do { x \<leftarrow> read_bytes data pos 20;
      case x of None \<Rightarrow> Some (True, r)
      | Some (p, misc) \<Rightarrow>
        do { x \<leftarrow> read_name al data p;
             case x of None \<Rightarrow> Some (True, r)
             | Some (p, t2) \<Rightarrow>
               do { x \<leftarrow> read_name al data p;
                    case x of None \<Rightarrow> Some (True, r)
                    | Some (p, t3) \<Rightarrow>
                      do { (ok, r) \<leftarrow> put_rr d DNS_T_SOA ttl
                             (\<lambda>r. and_then (put_name t2 r) (\<lambda>r. and_then (put_name t3 r) (put_bytes misc))) RESPONSE_ANSWER r;
                           if \<not> ok then Some (False, r) else put_soa al d ttl data p r } } } }"
  by pat_completeness auto
termination
  by (relation "measure (\<lambda>(al, d, ttl, data, pos, r). length data - pos)")
    (auto dest!: read_name_less read_bytes_less)

text \<open>Addresses of \<open>n\<close> bytes each.\<close>

function put_addresses :: "bytes \<Rightarrow> bytes \<Rightarrow> int \<Rightarrow> nat \<Rightarrow> bytes \<Rightarrow> resp \<Rightarrow> (bool \<times> resp) option" where
  "put_addresses d type ttl n data r =
     (if length data < n \<or> n = 0 then Some (True, r)
      else do { (ok, r) \<leftarrow> put_rr d type ttl (put_bytes (take n data)) RESPONSE_ANSWER r;
                if \<not> ok then Some (False, r) else put_addresses d type ttl n (drop n data) r })"
  by pat_completeness auto
termination
  by (relation "measure (\<lambda>(d, type, ttl, n, data, r). length data)") auto

function add_addresses :: "nat \<Rightarrow> bytes \<Rightarrow> bytes option \<Rightarrow> bytes \<Rightarrow> 'w globals \<Rightarrow> query \<Rightarrow> query option" where
  "add_addresses n pre key data g z =
     (if length data < n \<or> n = 0 then Some z
      else do { z \<leftarrow> add_server (pre @ take n data) key z g; add_addresses n pre key (drop n data) g z })"
  by pat_completeness auto
termination
  by (relation "measure (\<lambda>(n, pre, key, data, g, z). length data)") auto

text \<open>Records of any other type, each behind its length.\<close>

function put_others :: "bytes \<Rightarrow> bytes \<Rightarrow> int \<Rightarrow> bytes \<Rightarrow> resp \<Rightarrow> (bool \<times> resp) option" where
  "put_others d dtype ttl data r =
     (if length data < 2 then Some (True, r)
      else let n = u16_at data 0; data = drop 2 data in
        if n > length data then Some (False, r)
        else do { (ok, r) \<leftarrow> put_rr d dtype ttl (put_bytes (take n data)) RESPONSE_ANSWER r;
                  if \<not> ok then Some (False, r) else put_others d dtype ttl (drop n data) r })"
  by pat_completeness auto
termination
  by (relation "measure (\<lambda>(d, dtype, ttl, data, r). length data)") auto

declare put_names.simps [simp del] put_mx.simps [simp del] put_soa.simps [simp del] put_addresses.simps [simp del]
  add_addresses.simps [simp del] put_others.simps [simp del]

subsection \<open>NEWNAME\<close>

text \<open>
  \<open>globalip\<close> and \<open>globalip6\<close>: names that are addresses.  \<open>hit\<close> and \<open>ip\<close> are the result of the test, \<open>data\<close> the bytes
  of the record.
\<close>

definition answer_ip :: "'w env \<Rightarrow> bytes \<Rightarrow> bytes \<Rightarrow> bytes \<Rightarrow> bool \<Rightarrow> bytes \<Rightarrow> bytes \<Rightarrow> query \<Rightarrow> 'w globals \<Rightarrow> 'w result" where
  "answer_ip e d dtype type hit ip data z g =
     (if hit \<and> typematch type dtype
      then if q_level z \<noteq> 0 then do { z \<leftarrow> add_server ip None z g; Some (Goto LOWERLEVEL, z, g) }
        else respond (rqa z) z g (\<lambda>z g.
             respond (put_rr d type 655360 (put_bytes data) RESPONSE_ANSWER) z g (finished e))
      else Some (Fall, z, g))"

text \<open>The name \<open>1.0.0.127.in-addr.arpa\<close>.\<close>

definition loopback_name :: bytes where
  "loopback_name = [1, 49, 1, 48, 1, 48, 3, 49, 50, 55, 7, 105, 110, 45, 97, 100, 100, 114, 4, 97, 114, 112, 97, 0]"

definition answer_loopback :: "'w env \<Rightarrow> bytes \<Rightarrow> bytes \<Rightarrow> query \<Rightarrow> 'w globals \<Rightarrow> 'w result" where
  "answer_loopback e d dtype z g =
     do { eq \<leftarrow> dns_domain_equal d loopback_name;
          if eq
          then if q_level z \<noteq> 0 then Some (Goto LOWERLEVEL, z, g)
            else respond (rqa z) z g (\<lambda>z g.
                 if typematch DNS_T_PTR dtype
                 then respond (put_rr d DNS_T_PTR 655360 (put_name localhost) RESPONSE_ANSWER) z g (finished e)
                 else finished e z g)
          else Some (Fall, z, g) }"

text \<open>A lookup in the cache under a type and the name \<open>d\<close>.\<close>

definition lookup_type :: "'w env \<Rightarrow> bytes \<Rightarrow> bytes \<Rightarrow> nat \<Rightarrow> bytes \<Rightarrow> 'w globals \<Rightarrow> (cache_result \<times> 'w globals) option" where
  "lookup_type e type d dlen sfx g = do { key \<leftarrow> cache_key type d dlen; cget e (key @ sfx) g }"

definition cached_nxdomain :: "'w env \<Rightarrow> bytes \<Rightarrow> nat \<Rightarrow> query \<Rightarrow> 'w globals \<Rightarrow> 'w result" where
  "cached_nxdomain e d dlen z g =
     do { (c, g) \<leftarrow> lookup_type e DNS_T_ANY d dlen [] g;
          Some (if c \<noteq> None then Goto NXDOMAIN else Fall, z, g) }"

definition cached_servfail :: "'w env \<Rightarrow> bytes \<Rightarrow> nat \<Rightarrow> bytes \<Rightarrow> query \<Rightarrow> 'w globals \<Rightarrow> 'w result" where
  "cached_servfail e d dlen dtype z g =
     do { (c, g) \<leftarrow> lookup_type e DNS_T_AXFR d dlen (take 2 dtype) g;
          Some (case c of Some (data, _, _) \<Rightarrow> if data = [] then Goto SERVFAIL else Fall | None \<Rightarrow> Fall, z, g) }"

definition cached_cname :: "'w env \<Rightarrow> bytes \<Rightarrow> nat \<Rightarrow> bytes \<Rightarrow> query \<Rightarrow> 'w globals \<Rightarrow> 'w result" where
  "cached_cname e d dlen dtype z g =
     do { (c, g) \<leftarrow> lookup_type e DNS_T_CNAME d dlen [] g;
          case c of None \<Rightarrow> Some (Fall, z, g)
          | Some (data, ttl, _) \<Rightarrow>
            if typematch DNS_T_CNAME dtype
            then respond (rqa z) z g (\<lambda>z g.
                 respond (\<lambda>r. do { n \<leftarrow> deref (q_name z) 0; response_cname r n data (of_int ttl) }) z g (finished e))
            else do { (ok, cname) \<leftarrow> dns_domain_copy (e_alloc e) None data;
                      if \<not> ok then Some (Goto DIE, z, g)
                      else do { cname \<leftarrow> cname; Some (Goto (CNAME cname ttl), z, g) } } }"

text \<open>The branches for one type: NS and PTR, MX, SOA, and all types without a branch of their own.\<close>

definition cached_answer :: "'w env \<Rightarrow> bytes \<Rightarrow> bytes \<Rightarrow> nat \<Rightarrow> bytes \<Rightarrow> (bytes \<Rightarrow> int \<Rightarrow> resp \<Rightarrow> (bool \<times> resp) option) \<Rightarrow>
    query \<Rightarrow> 'w globals \<Rightarrow> 'w result" where
  "cached_answer e type d dlen dtype put z g =
     (if typematch type dtype
      then do { (c, g) \<leftarrow> lookup_type e type d dlen [] g;
                case c of None \<Rightarrow> Some (Fall, z, g)
                | Some (data, ttl, _) \<Rightarrow>
                  if usable data dtype then respond (rqa z) z g (\<lambda>z g. respond (put data ttl) z g (finished e))
                  else Some (Fall, z, g) }
      else Some (Fall, z, g))"

text \<open>The NS records that go with an answer with addresses.\<close>

definition cached_authority :: "'w env \<Rightarrow> bytes \<Rightarrow> nat \<Rightarrow> bytes \<Rightarrow> query \<Rightarrow> 'w globals \<Rightarrow> 'w result" where
  "cached_authority e d dlen dtype z g =
     do { (c, g) \<leftarrow> lookup_type e DNS_T_NS d dlen [] g;
          case c of None \<Rightarrow> Some (Fall, z, g)
          | Some (data, ttl, _) \<Rightarrow>
            if usable data dtype
            then respond (put_names (e_alloc e) d DNS_T_NS ttl RESPONSE_AUTHORITY data 0) z g (finished e)
            else Some (Fall, z, g) }"

definition cached_addresses :: "'w env \<Rightarrow> bytes \<Rightarrow> nat \<Rightarrow> bytes \<Rightarrow> bytes \<Rightarrow> nat \<Rightarrow> bytes \<times> int \<times> byte \<Rightarrow> query \<Rightarrow> 'w globals \<Rightarrow> 'w result" where
  "cached_addresses e d dlen dtype type n c z g =
     (case c of (data, ttl, flagns) \<Rightarrow>
        respond (rqa z) z g (\<lambda>z g.
        respond (put_addresses d type ttl n data) z g (\<lambda>z g.
          if flagns = 0 then finished e z g else cached_authority e d dlen dtype z g)))"

definition cached_aaaa :: "'w env \<Rightarrow> bytes \<Rightarrow> nat \<Rightarrow> bytes \<Rightarrow> query \<Rightarrow> 'w globals \<Rightarrow> 'w result" where
  "cached_aaaa e d dlen dtype z g =
     (if typematch DNS_T_AAAA dtype
      then do { (c, g) \<leftarrow> lookup_type e DNS_T_AAAA d dlen [] g;
                case c of None \<Rightarrow> Some (Fall, z, g)
                | Some (data, ttl, flagns) \<Rightarrow>
                  if data = [] \<and> q_level z \<noteq> 0 then Some (Goto LOWERLEVEL, z, g)
                  else if \<not> usable data dtype then Some (Fall, z, g)
                  else if q_level z \<noteq> 0
                  then do { key \<leftarrow> findkey d;
                            z \<leftarrow> add_addresses 16 [] key data g z;
                            Some (Goto LOWERLEVEL, z, g) }
                  else cached_addresses e d dlen dtype DNS_T_AAAA 16 (data, ttl, flagns) z g }
      else Some (Fall, z, g))"

definition cached_a :: "'w env \<Rightarrow> bytes \<Rightarrow> nat \<Rightarrow> bytes \<Rightarrow> query \<Rightarrow> 'w globals \<Rightarrow> 'w result" where
  "cached_a e d dlen dtype z g =
     (if typematch DNS_T_A dtype
      then do { (c, g) \<leftarrow> lookup_type e DNS_T_A d dlen [] g;
                case c of None \<Rightarrow> Some (Fall, z, g)
                | Some (data, ttl, flagns) \<Rightarrow>
                  if data = [] \<and> q_level z \<noteq> 0 then do { z \<leftarrow> set_ipv6 True z; Some (Goto NEWNAME, z, g) }
                  else if \<not> usable data dtype then Some (Fall, z, g)
                  else if q_level z \<noteq> 0
                  then do { key \<leftarrow> findkey d;
                            z \<leftarrow> add_addresses 4 v4_prefix key data g z;
                            (c, g) \<leftarrow> lookup_type e DNS_T_AAAA d dlen [] g;
                            z \<leftarrow> (case c of
                                   Some (data, _, _) \<Rightarrow>
                                     if usable data dtype then do { key \<leftarrow> findkey d; add_addresses 16 [] key data g z } else Some z
                                 | None \<Rightarrow> Some z);
                            Some (Goto LOWERLEVEL, z, g) }
                  else cached_addresses e d dlen dtype DNS_T_A 4 (data, ttl, flagns) z g }
      else Some (Fall, z, g))"

definition other_type :: "bytes \<Rightarrow> bool" where
  "other_type dtype \<longleftrightarrow> (\<forall>t \<in> set [DNS_T_ANY, DNS_T_AXFR, DNS_T_CNAME, DNS_T_NS, DNS_T_PTR, DNS_T_A, DNS_T_MX, DNS_T_AAAA, DNS_T_SOA].
     \<not> typematch t dtype)"

definition cached_block :: "'w env \<Rightarrow> bytes \<Rightarrow> nat \<Rightarrow> bytes \<Rightarrow> query \<Rightarrow> 'w globals \<Rightarrow> 'w result" where
  "cached_block e d dlen dtype z g =
     (if dlen > 255 then Some (Fall, z, g)
      else
        after (cached_nxdomain e d dlen z g) (\<lambda>z g.
        after (cached_servfail e d dlen dtype z g) (\<lambda>z g.
        after (cached_cname e d dlen dtype z g) (\<lambda>z g.
        after (cached_answer e DNS_T_NS d dlen dtype (\<lambda>data ttl. put_names (e_alloc e) d DNS_T_NS ttl RESPONSE_ANSWER data 0) z g) (\<lambda>z g.
        after (cached_answer e DNS_T_PTR d dlen dtype (\<lambda>data ttl. put_names (e_alloc e) d DNS_T_PTR ttl RESPONSE_ANSWER data 0) z g) (\<lambda>z g.
        after (cached_answer e DNS_T_MX d dlen dtype (\<lambda>data ttl. put_mx (e_alloc e) d ttl data 0) z g) (\<lambda>z g.
        after (cached_answer e DNS_T_SOA d dlen dtype (\<lambda>data ttl. put_soa (e_alloc e) d ttl data 0) z g) (\<lambda>z g.
        after (cached_a e d dlen dtype z g) (\<lambda>z g.
        after (cached_aaaa e d dlen dtype z g) (\<lambda>z g.
          if other_type dtype then cached_answer e dtype d dlen dtype (\<lambda>data ttl. put_others d dtype ttl data) z g else Some (Fall, z, g)))))))))))"

text \<open>The search for the servers of the nearest enclosing zone, in the configuration and in the cache.\<close>

function copy_ns :: "(nat \<Rightarrow> bool) \<Rightarrow> bytes \<Rightarrow> nat \<Rightarrow> nat \<Rightarrow> bytes option list \<Rightarrow> (bool \<times> bytes option list) option" where
  "copy_ns al data pos j ns =
     do { x \<leftarrow> read_name al data pos;
          case x of None \<Rightarrow> Some (True, ns)
          | Some (p, t1) \<Rightarrow>
            if j < QUERY_MAXNS
            then do { old \<leftarrow> ld ns j;
                      (ok, new) \<leftarrow> dns_domain_copy al old t1;
                      ns \<leftarrow> st ns j new;
                      if \<not> ok then Some (False, ns) else copy_ns al data p (j + 1) ns }
            else copy_ns al data p j ns }"
  by pat_completeness auto
termination
  by (relation "measure (\<lambda>(al, data, pos, j, ns). length data - pos)") (auto dest!: read_name_less)

declare copy_ns.simps [simp del]

definition cached_delegation :: "'w env \<Rightarrow> bytes \<Rightarrow> nat \<Rightarrow> query \<Rightarrow> 'w globals \<Rightarrow> (exit option \<times> query \<times> 'w globals) option" where
  "cached_delegation e d dlen z g =
     (if \<not> flagforwardonly g \<and> q_level z < 2 \<and> dlen < 255
      then do { (c, g) \<leftarrow> lookup_type e DNS_T_NS d dlen [] g;
                case c of None \<Rightarrow> Some (None, z, g)
                | Some (data, _, _) \<Rightarrow>
                  if data = [] then Some (None, z, g)
                  else do {
                    z \<leftarrow> set_control d z;
                    z \<leftarrow> set_servers (replicate 256 0) z;
                    z \<leftarrow> set_keys (replicate 528 0) z;
                    z \<leftarrow> set_havekeys False z;
                    z \<leftarrow> free_ns z;
                    ns \<leftarrow> ld (q_ns z) (q_level z);
                    (ok, ns) \<leftarrow> copy_ns (e_alloc e) data 0 0 ns;
                    z \<leftarrow> set_ns ns z;
                    Some (Some (if ok then Fall else Goto DIE), z, g) } }
      else Some (None, z, g))"

function find_servers :: "'w env \<Rightarrow> bytes \<Rightarrow> nat \<Rightarrow> query \<Rightarrow> 'w globals \<Rightarrow> 'w result" where
  "find_servers e d dlen z g =
     do { r \<leftarrow> roots (g_roots g) d;
          case r of
            Some (s, k, f) \<Rightarrow>
              do { z \<leftarrow> set_servers s z; z \<leftarrow> set_keys k z; z \<leftarrow> set_havekeys f z;
                   z \<leftarrow> free_ns z; z \<leftarrow> set_control d z; Some (Fall, z, g) }
          | None \<Rightarrow>
              do { (hit, z, g) \<leftarrow> cached_delegation e d dlen z g;
                   case hit of Some x \<Rightarrow> Some (x, z, g)
                   | None \<Rightarrow>
                     case d of [] \<Rightarrow> None
                     | c # d1 \<Rightarrow> if c = 0 then Some (Goto DIE, z, g)
                               else find_servers e (drop (unat c) d1) (dlen - (1 + unat c)) z g } }"
  by pat_completeness auto
termination
  by (relation "measure (\<lambda>(e, d, dlen, z, g). length d)") auto

declare find_servers.simps [simp del]

text \<open>The buffer \<open>misc\<close> is not initialised; what it holds does not matter.\<close>

definition newname :: "'w env \<Rightarrow> query \<Rightarrow> 'w globals \<Rightarrow> 'w result" where
  "newname e z g =
     (let z = z\<lparr>q_loop := q_loop z + 1\<rparr> in
      if q_loop z = QUERY_MAXLOOP then Some (Goto DIE, z, g)
      else do {
        d \<leftarrow> this_name z;
        dtype \<leftarrow> this_type z;
        dlen \<leftarrow> dns_domain_length d;
        (hit, misc) \<leftarrow> globalip d (replicate 16 0);
        after (answer_ip e d dtype DNS_T_A hit misc (drop 12 misc) z g) (\<lambda>z g. do {
        (hit, misc) \<leftarrow> globalip6 (e_pton6 e) d misc;
        after (answer_ip e d dtype DNS_T_AAAA hit misc misc z g) (\<lambda>z g.
        after (answer_loopback e d dtype z g) (\<lambda>z g.
        after (cached_block e d dlen dtype z g) (\<lambda>z g.
        after (find_servers e d dlen z g) (\<lambda>z g. Some (Goto HAVENS, z, g))))) }) })"

subsection \<open>HAVENS and LOWERLEVEL\<close>

text \<open>
  The first loop: the next name server whose address is not known is looked for on a new level; on the last level the
  names are dropped.
\<close>

definition next_ns :: "'w env \<Rightarrow> query \<Rightarrow> 'w globals \<Rightarrow> 'w result" where
  "next_ns e z g =
     do { ns \<leftarrow> ld (q_ns z) (q_level z);
          if q_level z + 1 < QUERY_MAXLEVEL
          then case List.find (\<lambda>j. ns ! j \<noteq> None) [0..<length ns] of
                 None \<Rightarrow> Some (Fall, z, g)
               | Some j \<Rightarrow>
                 do { n \<leftarrow> ns ! j;
                      old \<leftarrow> ld (q_name z) (q_level z + 1);
                      (ok, new) \<leftarrow> dns_domain_copy (e_alloc e) old n;
                      names \<leftarrow> st (q_name z) (q_level z + 1) new;
                      let z = z\<lparr>q_name := names\<rparr>;
                      if \<not> ok then Some (Goto DIE, z, g)
                      else do {
                        z \<leftarrow> set_ns (ns[j := dns_domain_free (ns ! j)]) z;
                        z \<leftarrow> set_ipv6 False (z\<lparr>q_level := q_level z + 1\<rparr>);
                        Some (Goto NEWNAME, z, g) } }
          else do { z \<leftarrow> free_ns z; Some (Fall, z, g) } }"

text \<open>The key of one server is replaced by the secret that is shared with it.\<close>

definition prepare_key :: "'w env \<Rightarrow> nat \<Rightarrow> bytes \<times> bytes \<times> 'w globals \<Rightarrow> (bytes \<times> bytes \<times> 'w globals) option" where
  "prepare_key e i skg =
     (case skg of (s, k, g) \<Rightarrow>
        if is_zero16 s (16 * i) then Some (s, k, g)
        else do {
          kind \<leftarrow> ld k (33 * i);
          if kind = 0 then Some (s, k, g)
          else do {
            kb \<leftarrow> rd k (33 * i + 1) 32;
            (c, g) \<leftarrow> cget e (DNS_T_AXFR @ kb) g;
            case c of
              Some (data, _, _) \<Rightarrow>
                if length data = 32 then Some (s, mem_write k (33 * i + 1) data, g)
                else do { let b = crypto_box_beforenm kb (secretkey g);
                          g \<leftarrow> cset e (DNS_T_AXFR @ kb) b 655360 0 g;
                          Some (s, mem_write k (33 * i + 1) b, g) }
            | None \<Rightarrow>
                do { let b = crypto_box_beforenm kb (secretkey g);
                     g \<leftarrow> cset e (DNS_T_AXFR @ kb) b 655360 0 g;
                     Some (s, mem_write k (33 * i + 1) b, g) } } })"

primrec prepare_keys :: "'w env \<Rightarrow> nat list \<Rightarrow> bytes \<times> bytes \<times> 'w globals \<Rightarrow> (bytes \<times> bytes \<times> 'w globals) option" where
  "prepare_keys e [] skg = Some skg"
| "prepare_keys e (i # is) skg = do { skg \<leftarrow> prepare_key e i skg; prepare_keys e is skg }"

definition havens :: "'w env \<Rightarrow> query \<Rightarrow> 'w globals \<Rightarrow> 'w result" where
  "havens e z g =
     after (next_ns e z g) (\<lambda>z g. do {
       s \<leftarrow> ld (q_servers z) (q_level z);
       k \<leftarrow> ld (q_keys z) (q_level z);
       if \<forall>i < 16. is_zero16 s (16 * i) then Some (Goto SERVFAIL, z, g)
       else do {
         (s, k, g) \<leftarrow> prepare_keys e [0..<16] (s, k, g);
         let ((s, k), w) = dns_sortipkey (os_random (e_os e)) s k 256 (world (g_sys g));
         let g = g\<lparr>g_sys := (g_sys g)\<lparr>world := w\<rparr>\<rparr>;
         z \<leftarrow> set_servers s z;
         z \<leftarrow> set_keys k z;
         dtype \<leftarrow> this_type z;
         Some (Ask dtype, z, g) } })"

definition lowerlevel :: "'w env \<Rightarrow> query \<Rightarrow> 'w globals \<Rightarrow> 'w result" where
  "lowerlevel e z g =
     do { n \<leftarrow> ld (q_name z) (q_level z);
          z \<leftarrow> set_name (dns_domain_free n) z;
          z \<leftarrow> free_ns z;
          if q_level z = 0 then None else Some (Goto HAVENS, z\<lparr>q_level := q_level z - 1\<rparr>, g) }"

subsection \<open>The other labels\<close>

text \<open>An alias at level 0 is kept for the answer.\<close>

definition shift_alias :: "int \<Rightarrow> query \<Rightarrow> (bool \<times> query) option" where
  "shift_alias ttl z =
     do { top \<leftarrow> ld (q_alias z) (QUERY_MAXALIAS - 1);
          if top \<noteq> None then Some (False, z)
          else do {
            n \<leftarrow> ld (q_name z) 0;
            names \<leftarrow> st (q_name z) 0 None;
            Some (True, z\<lparr>q_alias := n # take (QUERY_MAXALIAS - 1) (q_alias z),
                          q_aliasttl := of_int ttl # take (QUERY_MAXALIAS - 1) (q_aliasttl z), q_name := names\<rparr>) } }"

definition cname :: "'w env \<Rightarrow> bytes \<Rightarrow> int \<Rightarrow> query \<Rightarrow> 'w globals \<Rightarrow> 'w result" where
  "cname e name ttl z g =
     do { (ok, z) \<leftarrow> (if q_level z = 0 then shift_alias ttl z else Some (True, z));
          if \<not> ok then Some (Goto DIE, z, g)
          else do {
            old \<leftarrow> ld (q_name z) (q_level z);
            (ok, new) \<leftarrow> dns_domain_copy (e_alloc e) old name;
            z \<leftarrow> set_name new z;
            Some (Goto (if ok then NEWNAME else DIE), z, g) } }"

definition nxdomain :: "'w env \<Rightarrow> query \<Rightarrow> 'w globals \<Rightarrow> 'w result" where
  "nxdomain e z g =
     (if q_level z \<noteq> 0 then Some (Goto LOWERLEVEL, z, g)
      else respond (rqa z) z g (\<lambda>z g. finished e z (g\<lparr>g_resp := response_nxdomain (g_resp g)\<rparr>)))"

definition servfail :: "'w env \<Rightarrow> query \<Rightarrow> 'w globals \<Rightarrow> 'w result" where
  "servfail e z g =
     (if q_level z \<noteq> 0 then Some (Goto LOWERLEVEL, z, g)
      else respond (rqa z) z g (\<lambda>z g. finished e z (g\<lparr>g_resp := response_servfail (g_resp g)\<rparr>)))"

definition die :: "'w env \<Rightarrow> query \<Rightarrow> 'w globals \<Rightarrow> 'w result" where
  "die e z g = (let (z, g) = cleanup e z g in Some (Finish (- 1), z, g))"

end
