(* ===== verification/QueryPacket.thy ===== *)
theory QueryPacket
  imports Doit
begin

section \<open>An answer has arrived\<close>

text \<open>
  The block of \<open>doit\<close> of \<open>dq/query.c\<close> at the label \<open>HAVEPACKET\<close>: what an answer contains, putting its records into the
  cache, and what it means for the query.  The parameter \<open>buf\<close> is the packet.  In a result \<open>None\<close> is an access
  outside an object and the inner \<open>None\<close> is \<open>goto DIE\<close>.
\<close>

subsection \<open>What the sections contain\<close>

record scan =
  s_out :: bool
  s_cname :: "bytes option"
  s_cnamettl :: int
  s_ns :: bool
  s_soa :: bool
  s_soattl :: int
  s_referral :: "bytes option"

definition scan_start :: scan where
  "scan_start = \<lparr>s_out = False, s_cname = None, s_cnamettl = 0, s_ns = False, s_soa = False, s_soattl = 0, s_referral = None\<rparr>"

text \<open>One record of the answer section, with the name \<open>t1\<close>, the header and the position of the data.\<close>

definition scan_answer :: "(nat \<Rightarrow> bool) \<Rightarrow> u32 \<Rightarrow> bytes \<Rightarrow> bytes \<Rightarrow> bytes \<Rightarrow> nat \<Rightarrow> bytes \<Rightarrow> bytes \<Rightarrow> scan \<Rightarrow> scan option option" where
  "scan_answer al mt buf d dtype pos t1 header s =
     do { eq \<leftarrow> dns_domain_equal t1 d;
          if eq \<and> type_eq (drop 2 header) DNS_C_IN
          then let s = (if type_eq dtype DNS_T_ANY \<and> type_eq header DNS_T_NS then s\<lparr>s_ns := True\<rparr> else s) in
            if typematch header dtype then Some (Some (s\<lparr>s_out := True\<rparr>))
            else if typematch header DNS_T_CNAME
            then do { x \<leftarrow> read_name al buf pos;
                      Some (case x of None \<Rightarrow> None
                            | Some (_, cn) \<Rightarrow> Some (s\<lparr>s_cname := Some cn, s_cnamettl := ttlget mt (drop 4 header)\<rparr>)) }
            else Some (Some s)
          else Some (Some s) }"

primrec scan_answers :: "(nat \<Rightarrow> bool) \<Rightarrow> u32 \<Rightarrow> bytes \<Rightarrow> bytes \<Rightarrow> bytes \<Rightarrow> nat \<Rightarrow> nat \<Rightarrow> scan \<Rightarrow> (nat \<times> scan) option option" where
  "scan_answers al mt buf d dtype 0 pos s = Some (Some (pos, s))"
| "scan_answers al mt buf d dtype (Suc n) pos s =
     do { x \<leftarrow> read_record al buf pos;
          case x of None \<Rightarrow> Some None
          | Some (p, t1, header) \<Rightarrow>
            do { x \<leftarrow> scan_answer al mt buf d dtype p t1 header s;
                 case x of None \<Rightarrow> Some None
                 | Some s \<Rightarrow> scan_answers al mt buf d dtype n (p + u16_at header 8) s } }"

definition scan_authority :: "(nat \<Rightarrow> bool) \<Rightarrow> u32 \<Rightarrow> bytes \<Rightarrow> bytes \<Rightarrow> bytes \<Rightarrow> scan \<Rightarrow> scan option option" where
  "scan_authority al mt d t1 header s =
     (if typematch header DNS_T_SOA
      then let ttl = ttlget mt (drop 4 header)
        in Some (Some (s\<lparr>s_soa := True, s_soattl := (if ttl > 3600 then 3600 else ttl)\<rparr>))
      else if typematch header DNS_T_NS
      then do { eq \<leftarrow> dns_domain_equal t1 d;
                let s = (if eq then s\<lparr>s_ns := True\<rparr> else s);
                (ok, r) \<leftarrow> dns_domain_copy al (s_referral s) t1;
                if \<not> ok then Some None else Some (Some (s\<lparr>s_referral := r\<rparr>)) }
      else Some (Some s))"

primrec scan_authorities :: "(nat \<Rightarrow> bool) \<Rightarrow> u32 \<Rightarrow> bytes \<Rightarrow> bytes \<Rightarrow> nat \<Rightarrow> nat \<Rightarrow> scan \<Rightarrow> scan option option" where
  "scan_authorities al mt buf d 0 pos s = Some (Some s)"
| "scan_authorities al mt buf d (Suc n) pos s =
     do { x \<leftarrow> read_record al buf pos;
          case x of None \<Rightarrow> Some None
          | Some (p, t1, header) \<Rightarrow>
            do { x \<leftarrow> scan_authority al mt d t1 header s;
                 case x of None \<Rightarrow> Some None
                 | Some s \<Rightarrow> scan_authorities al mt buf d n (p + u16_at header 8) s } }"

text \<open>The positions of the next \<open>n\<close> records.\<close>

primrec record_positions :: "(nat \<Rightarrow> bool) \<Rightarrow> bytes \<Rightarrow> nat \<Rightarrow> nat \<Rightarrow> nat list option option" where
  "record_positions al buf 0 pos = Some (Some [])"
| "record_positions al buf (Suc n) pos =
     do { x \<leftarrow> read_record al buf pos;
          case x of None \<Rightarrow> Some None
          | Some (p, _, header) \<Rightarrow>
            do { r \<leftarrow> record_positions al buf n (p + u16_at header 8); Some (map_option (\<lambda>ps. pos # ps) r) } }"

subsection \<open>Putting the records into the cache\<close>

text \<open>How many of the records have the type, class IN and the name of the first one.\<close>

fun same_set :: "(nat \<Rightarrow> bool) \<Rightarrow> bytes \<Rightarrow> bytes \<Rightarrow> bytes \<Rightarrow> nat list \<Rightarrow> nat option option" where
  "same_set al buf t1 type [] = Some (Some 0)"
| "same_set al buf t1 type (p # ps) =
     do { x \<leftarrow> read_record al buf p;
          case x of None \<Rightarrow> Some None
          | Some (_, t2, header) \<Rightarrow>
            do { eq \<leftarrow> dns_domain_equal t1 t2;
                 if \<not> eq \<or> \<not> type_eq header type \<or> \<not> type_eq (drop 2 header) DNS_C_IN then Some (Some 0)
                 else do { n \<leftarrow> same_set al buf t1 type ps; Some (map_option Suc n) } } }"

text \<open>
  The loops \<open>while (i < j)\<close> that save the data of a set: \<open>f\<close> gives the pieces of one record.
\<close>

primrec gather :: "(nat \<Rightarrow> bytes list option option) \<Rightarrow> nat list \<Rightarrow> save \<Rightarrow> save option option" where
  "gather f [] s = Some (Some s)"
| "gather f (p # ps) s =
     do { x \<leftarrow> f p;
          case x of None \<Rightarrow> Some None | Some bs \<Rightarrow> gather f ps (fold save_data bs s) }"

text \<open>The position behind the name of a record, 0 being \<open>goto DIE\<close>.\<close>

definition soa_data :: "(nat \<Rightarrow> bool) \<Rightarrow> bytes \<Rightarrow> nat \<Rightarrow> nat \<Rightarrow> bytes list option option" where
  "soa_data al buf posauthority p =
     do { pos \<leftarrow> dns_packet_skipname buf p;
      if pos = 0 then Some None
      else do { x \<leftarrow> read_name al buf (pos + 10);
                case x of None \<Rightarrow> Some None
                | Some (pos, t2) \<Rightarrow>
                  do { x \<leftarrow> read_name al buf pos;
                       case x of None \<Rightarrow> Some None
                       | Some (pos, t3) \<Rightarrow>
                         do { x \<leftarrow> read_bytes buf pos 20;
                              Some (map_option (\<lambda>(_, misc). if p < posauthority then [misc, t2, t3] else []) x) } } } }"

definition name_data :: "(nat \<Rightarrow> bool) \<Rightarrow> bytes \<Rightarrow> nat \<Rightarrow> bytes list option option" where
  "name_data al buf p =
     do { pos \<leftarrow> dns_packet_skipname buf p;
      if pos = 0 then Some None
      else do { x \<leftarrow> read_name al buf (pos + 10); Some (map_option (\<lambda>(_, t2). [t2]) x) } }"

definition mx_data :: "(nat \<Rightarrow> bool) \<Rightarrow> bytes \<Rightarrow> nat \<Rightarrow> bytes list option option" where
  "mx_data al buf p =
     do { pos \<leftarrow> dns_packet_skipname buf p;
      if pos = 0 then Some None
      else do { x \<leftarrow> read_bytes buf (pos + 10) 2;
                case x of None \<Rightarrow> Some None
                | Some (pos, misc) \<Rightarrow> do { x \<leftarrow> read_name al buf pos; Some (map_option (\<lambda>(_, t2). [misc, t2]) x) } } }"

definition address_data :: "bytes \<Rightarrow> nat \<Rightarrow> nat \<Rightarrow> bytes list option option" where
  "address_data buf n p =
     do { pos \<leftarrow> dns_packet_skipname buf p;
      if pos = 0 then Some None
      else do { x \<leftarrow> read_bytes buf pos 10;
                case x of None \<Rightarrow> Some None
                | Some (pos, header) \<Rightarrow>
                  if u16_at header 8 = n
                  then do { x \<leftarrow> read_bytes buf pos n; Some (map_option (\<lambda>(_, b). [b]) x) }
                  else Some (Some []) } }"

definition other_data :: "bytes \<Rightarrow> nat \<Rightarrow> bytes list option option" where
  "other_data buf p =
     do { pos \<leftarrow> dns_packet_skipname buf p;
      if pos = 0 then Some None
      else do { x \<leftarrow> read_bytes buf pos 10;
                case x of None \<Rightarrow> Some None
                | Some (pos, header) \<Rightarrow>
                  if u16_at header 8 > length buf - pos then Some None
                  else do { b \<leftarrow> rd buf pos (u16_at header 8); Some (Some [drop 8 header, b]) } } }"

text \<open>
  One set of records, with the positions \<open>ps\<close>, the name \<open>t1\<close> in the zone \<open>control\<close>: the result says whether to go on
  (\<open>False\<close> is \<open>goto DIE\<close>).
\<close>

definition save_set :: "'w env \<Rightarrow> bytes \<Rightarrow> bytes \<Rightarrow> int \<Rightarrow> byte \<Rightarrow> (nat \<Rightarrow> bytes list option option) \<Rightarrow> nat list \<Rightarrow> 'w globals \<Rightarrow> (bool \<times> 'w globals) option" where
  "save_set e type t1 ttl flag f ps g =
     do { x \<leftarrow> gather f ps save_start;
          case x of None \<Rightarrow> Some (False, g)
          | Some s \<Rightarrow> do { g \<leftarrow> save_finish e type t1 (of_int ttl) flag s g; Some (True, g) } }"

definition save_soa :: "'w env \<Rightarrow> bytes \<Rightarrow> bytes \<Rightarrow> int \<Rightarrow> nat \<Rightarrow> nat list \<Rightarrow> 'w globals \<Rightarrow> (bool \<times> 'w globals) option" where
  "save_soa e buf t1 ttl posauthority ps g =
     do { x \<leftarrow> gather (soa_data (e_alloc e) buf posauthority) ps save_start;
          case x of None \<Rightarrow> Some (False, g)
          | Some s \<Rightarrow>
            if \<exists>p \<in> set ps. p < posauthority
            then do { g \<leftarrow> save_finish e DNS_T_SOA t1 (of_int ttl) 0 s g; Some (True, g) }
            else Some (True, g) }"

definition save_cname :: "'w env \<Rightarrow> bytes \<Rightarrow> bytes \<Rightarrow> int \<Rightarrow> nat list \<Rightarrow> 'w globals \<Rightarrow> (bool \<times> 'w globals) option" where
  "save_cname e buf t1 ttl ps g =
     do { x \<leftarrow> name_data (e_alloc e) buf (last ps);
          case x of None \<Rightarrow> Some (False, g)
          | Some bs \<Rightarrow> do { g \<leftarrow> cachegeneric e DNS_T_CNAME t1 (concat bs) (of_int ttl) 0 g; Some (True, g) } }"

text \<open>The lifetime of NS records of the zone itself in the authority section is not prolonged by them.\<close>

definition ns_ttl :: "'w env \<Rightarrow> bytes \<Rightarrow> bytes \<Rightarrow> int \<Rightarrow> nat \<Rightarrow> nat \<Rightarrow> 'w globals \<Rightarrow> (int \<times> 'w globals) option" where
  "ns_ttl e t1 control ttl posauthority p g =
     (if posauthority \<le> p
      then do { dlen \<leftarrow> dns_domain_length t1;
                key \<leftarrow> cache_key DNS_T_NS t1 dlen;
                eq \<leftarrow> dns_domain_equal t1 control;
                if eq
                then do { (c, g) \<leftarrow> cget e key g;
                          Some (case c of Some (_, cachedttl, cachedflag) \<Rightarrow> if cachedflag \<noteq> 0 \<and> cachedttl < ttl then cachedttl else ttl
                                | None \<Rightarrow> ttl, g) }
                else Some (ttl, g) }
      else Some (ttl, g))"

definition save_ns :: "'w env \<Rightarrow> bytes \<Rightarrow> bytes \<Rightarrow> bytes \<Rightarrow> int \<Rightarrow> nat \<Rightarrow> nat list \<Rightarrow> 'w globals \<Rightarrow> (bool \<times> 'w globals) option" where
  "save_ns e buf t1 control ttl posauthority ps g =
     do { (ttl, g) \<leftarrow> ns_ttl e t1 control ttl posauthority (hd ps) g;
          eq \<leftarrow> dns_domain_equal t1 control;
          save_set e DNS_T_NS t1 ttl (if eq then 1 else 0) (name_data (e_alloc e) buf) ps g }"

definition save_records :: "'w env \<Rightarrow> bytes \<Rightarrow> bytes \<Rightarrow> bytes \<Rightarrow> bytes \<Rightarrow> int \<Rightarrow> byte \<Rightarrow> nat \<Rightarrow> nat list \<Rightarrow> 'w globals \<Rightarrow> (bool \<times> 'w globals) option" where
  "save_records e buf t1 control type ttl flagns posauthority ps g =
     (if type_eq type DNS_T_ANY \<or> type_eq type DNS_T_AXFR then Some (True, g)
      else if type_eq type DNS_T_SOA then save_soa e buf t1 ttl posauthority ps g
      else if type_eq type DNS_T_CNAME then save_cname e buf t1 ttl ps g
      else if type_eq type DNS_T_PTR then save_set e DNS_T_PTR t1 ttl 0 (name_data (e_alloc e) buf) ps g
      else if type_eq type DNS_T_NS then save_ns e buf t1 control ttl posauthority ps g
      else if type_eq type DNS_T_MX then save_set e DNS_T_MX t1 ttl 0 (mx_data (e_alloc e) buf) ps g
      else if type_eq type DNS_T_A then save_set e DNS_T_A t1 ttl flagns (address_data buf 4) ps g
      else if type_eq type DNS_T_AAAA then save_set e DNS_T_AAAA t1 ttl flagns (address_data buf 16) ps g
      else save_set e type t1 ttl 0 (other_data buf) ps g)"

text \<open>The loop over the sorted records; only sets in the zone of the server that was asked are saved.\<close>

function save_all :: "'w env \<Rightarrow> bytes \<Rightarrow> bytes \<Rightarrow> byte \<Rightarrow> nat \<Rightarrow> nat list \<Rightarrow> 'w globals \<Rightarrow> (bool \<times> 'w globals) option" where
  "save_all e buf control flagns posauthority [] g = Some (True, g)"
| "save_all e buf control flagns posauthority (p # ps) g =
     do { x \<leftarrow> read_record (e_alloc e) buf p;
          case x of None \<Rightarrow> Some (False, g)
          | Some (_, t1, header) \<Rightarrow>
            let ttl = ttlget (minttl g) (drop 4 header); type = take 2 header in
            if \<not> type_eq (drop 2 header) DNS_C_IN then save_all e buf control flagns posauthority ps g
            else do {
              n \<leftarrow> same_set (e_alloc e) buf t1 type ps;
              case n of None \<Rightarrow> Some (False, g)
              | Some n \<Rightarrow>
                do { inside \<leftarrow> dns_domain_suffix t1 control;
                     same \<leftarrow> (if inside then roots_same (g_roots g) t1 control else Some False);
                     (ok, g) \<leftarrow> (if same then save_records e buf t1 control type ttl flagns posauthority (p # take n ps) g else Some (True, g));
                     if \<not> ok then Some (False, g) else save_all e buf control flagns posauthority (drop n ps) g } } }"
  by pat_completeness auto
termination
  by (relation "measure (\<lambda>(e, buf, control, flagns, posauthority, ps, g). length ps)") auto

declare save_all.simps(2) [simp del]

subsection \<open>What the answer means\<close>

record answer =
  a_rcode :: nat
  a_posanswers :: nat
  a_numanswers :: nat
  a_posauthority :: nat
  a_numauthority :: nat
  a_numglue :: nat
  a_scan :: scan

definition digest :: "(nat \<Rightarrow> bool) \<Rightarrow> u32 \<Rightarrow> bytes \<Rightarrow> bytes \<Rightarrow> bytes \<Rightarrow> answer option option" where
  "digest al mt buf d dtype =
     do { x \<leftarrow> read_bytes buf 0 12;
      case x of None \<Rightarrow> Some None
      | Some (pos, header) \<Rightarrow> do {
        pos \<leftarrow> dns_packet_skipname buf pos;
        if pos = 0 then Some None
        else do {
          flags \<leftarrow> ld header 3;
          let posanswers = pos + 4;
          let rcode = unat (flags AND 15);
          if rcode \<noteq> 0 \<and> rcode \<noteq> 3 then Some None
          else do {
            x \<leftarrow> scan_answers al mt buf d dtype (u16_at header 6) posanswers scan_start;
            case x of None \<Rightarrow> Some None
            | Some (posauthority, s) \<Rightarrow>
              do { x \<leftarrow> scan_authorities al mt buf d (u16_at header 8) posauthority s;
                   case x of None \<Rightarrow> Some None
                   | Some s \<Rightarrow>
                     Some (Some \<lparr>a_rcode = rcode, a_posanswers = posanswers, a_numanswers = u16_at header 6,
                       a_posauthority = posauthority, a_numauthority = u16_at header 8, a_numglue = u16_at header 10, a_scan = s\<rparr>) } } } } }"

text \<open>A referral that does not lead downwards.\<close>

definition lame :: "bytes \<Rightarrow> answer \<Rightarrow> bool option" where
  "lame control a =
     (case s_referral (a_scan a) of None \<Rightarrow> Some False
      | Some referral \<Rightarrow>
        if s_cname (a_scan a) = None \<and> a_rcode a = 0 \<and> \<not> s_out (a_scan a) \<and> \<not> s_soa (a_scan a)
        then do { eq \<leftarrow> dns_domain_equal referral control;
                  if eq then Some True else do { inside \<leftarrow> dns_domain_suffix referral control; Some (\<not> inside) } }
        else Some False)"

text \<open>\<open>byte_zero(whichserver, 16)\<close>.\<close>

definition drop_server :: "query \<Rightarrow> query option" where
  "drop_server z =
     do { s \<leftarrow> ld (q_servers z) (q_level z);
          s \<leftarrow> wr s (16 * d_curserver (q_dt z)) (replicate 16 0);
          set_servers s z }"

text \<open>The addresses of a name server, looked for on a level above 0.\<close>

definition learn_address :: "bytes \<Rightarrow> bytes \<Rightarrow> bytes option \<Rightarrow> bytes \<Rightarrow> nat \<Rightarrow> bytes \<Rightarrow> nat \<Rightarrow> 'w globals \<Rightarrow> query \<Rightarrow> (bool \<times> query) option" where
  "learn_address type pre key buf n header p g z =
     (if typematch header type \<and> type_eq (drop 2 header) DNS_C_IN \<and> u16_at header 8 = n
      then do { x \<leftarrow> read_bytes buf p n;
                case x of None \<Rightarrow> Some (False, z)
                | Some (_, b) \<Rightarrow> do { z \<leftarrow> add_server (pre @ b) key z g; Some (True, z) } }
      else Some (True, z))"

primrec learn_servers :: "(nat \<Rightarrow> bool) \<Rightarrow> bytes \<Rightarrow> bytes \<Rightarrow> bytes option \<Rightarrow> 'w globals \<Rightarrow> nat \<Rightarrow> nat \<Rightarrow> query \<Rightarrow> (bool \<times> query) option" where
  "learn_servers al buf d key g 0 pos z = Some (True, z)"
| "learn_servers al buf d key g (Suc n) pos z =
     do { x \<leftarrow> read_record al buf pos;
          case x of None \<Rightarrow> Some (False, z)
          | Some (p, t1, header) \<Rightarrow>
            do { eq \<leftarrow> dns_domain_equal t1 d;
                 (ok, z) \<leftarrow> (if eq then learn_address DNS_T_A v4_prefix key buf 4 header p g z else Some (True, z));
                 if \<not> ok then Some (False, z)
                 else do {
                   (ok, z) \<leftarrow> (if eq then learn_address DNS_T_AAAA [] key buf 16 header p g z else Some (True, z));
                   if \<not> ok then Some (False, z) else learn_servers al buf d key g n (p + u16_at header 8) z } } }"

text \<open>The data of a record of the answer, names without compression.\<close>

definition put_read_name :: "(nat \<Rightarrow> bool) \<Rightarrow> bytes \<Rightarrow> nat \<Rightarrow> (nat \<Rightarrow> resp \<Rightarrow> (bool \<times> resp) option) \<Rightarrow> resp \<Rightarrow> (bool \<times> resp) option" where
  "put_read_name al buf p f r =
     do { x \<leftarrow> read_name al buf p;
          case x of None \<Rightarrow> Some (False, r) | Some (p2, t) \<Rightarrow> and_then (put_name t r) (f p2) }"

definition put_read_bytes :: "bytes \<Rightarrow> nat \<Rightarrow> nat \<Rightarrow> (nat \<Rightarrow> resp \<Rightarrow> (bool \<times> resp) option) \<Rightarrow> resp \<Rightarrow> (bool \<times> resp) option" where
  "put_read_bytes buf p n f r =
     do { x \<leftarrow> read_bytes buf p n;
          case x of None \<Rightarrow> Some (False, r) | Some (p2, b) \<Rightarrow> and_then (put_bytes b r) (f p2) }"

definition put_end :: "nat \<Rightarrow> resp \<Rightarrow> (bool \<times> resp) option" where
  "put_end p r = Some (True, r)"

definition answer_body :: "(nat \<Rightarrow> bool) \<Rightarrow> bytes \<Rightarrow> bytes \<Rightarrow> nat \<Rightarrow> resp \<Rightarrow> (bool \<times> resp) option" where
  "answer_body al buf header p =
     (if typematch header DNS_T_NS \<or> typematch header DNS_T_CNAME \<or> typematch header DNS_T_PTR
      then put_read_name al buf p put_end
      else if typematch header DNS_T_MX then put_read_bytes buf p 2 (\<lambda>p. put_read_name al buf p put_end)
      else if typematch header DNS_T_SOA
      then put_read_name al buf p (\<lambda>p. put_read_name al buf p (\<lambda>p. put_read_bytes buf p 20 put_end))
      else if p + u16_at header 8 > length buf then (\<lambda>r. Some (False, r))
      else (\<lambda>r. do { b \<leftarrow> rd buf p (u16_at header 8); put_bytes b r }))"

primrec put_answers :: "(nat \<Rightarrow> bool) \<Rightarrow> u32 \<Rightarrow> bytes \<Rightarrow> bytes \<Rightarrow> bytes \<Rightarrow> nat \<Rightarrow> nat \<Rightarrow> resp \<Rightarrow> (bool \<times> resp) option" where
  "put_answers al mt buf d dtype 0 pos r = Some (True, r)"
| "put_answers al mt buf d dtype (Suc n) pos r =
     do { x \<leftarrow> read_record al buf pos;
          case x of None \<Rightarrow> Some (False, r)
          | Some (p, t1, header) \<Rightarrow>
            do { eq \<leftarrow> dns_domain_equal t1 d;
                 (ok, r) \<leftarrow> (if eq \<and> type_eq (drop 2 header) DNS_C_IN \<and> typematch header dtype
                            then put_rr t1 header (ttlget mt (drop 4 header)) (answer_body al buf header p) RESPONSE_ANSWER r
                            else Some (True, r));
                 if \<not> ok then Some (False, r) else put_answers al mt buf d dtype n (p + u16_at header 8) r } }"

primrec put_authority :: "(nat \<Rightarrow> bool) \<Rightarrow> u32 \<Rightarrow> bytes \<Rightarrow> bytes \<Rightarrow> nat \<Rightarrow> nat \<Rightarrow> resp \<Rightarrow> (bool \<times> resp) option" where
  "put_authority al mt buf d 0 pos r = Some (True, r)"
| "put_authority al mt buf d (Suc n) pos r =
     do { x \<leftarrow> read_record al buf pos;
          case x of None \<Rightarrow> Some (False, r)
          | Some (p, t1, header) \<Rightarrow>
            do { eq \<leftarrow> dns_domain_equal t1 d;
                 (ok, r) \<leftarrow> (if eq \<and> type_eq (drop 2 header) DNS_C_IN \<and> typematch header DNS_T_NS
                            then put_rr t1 header (ttlget mt (drop 4 header)) (put_read_name al buf p put_end) RESPONSE_AUTHORITY r
                            else Some (True, r));
                 if \<not> ok then Some (False, r) else put_authority al mt buf d n (p + u16_at header 8) r } }"

definition give_answer :: "'w env \<Rightarrow> bytes \<Rightarrow> bytes \<Rightarrow> bytes \<Rightarrow> answer \<Rightarrow> query \<Rightarrow> 'w globals \<Rightarrow> 'w result" where
  "give_answer e buf d dtype a z g =
     respond (rqa z) z g (\<lambda>z g.
     respond (put_answers (e_alloc e) (minttl g) buf d dtype (a_numanswers a) (a_posanswers a)) z g (\<lambda>z g.
     respond (put_authority (e_alloc e) (minttl g) buf d (a_numauthority a) (a_posauthority a)) z g (finished e)))"

text \<open>The name servers of a referral.\<close>

primrec referral_ns :: "(nat \<Rightarrow> bool) \<Rightarrow> bytes \<Rightarrow> bytes \<Rightarrow> nat \<Rightarrow> nat \<Rightarrow> nat \<Rightarrow> bytes option list \<Rightarrow> (bool \<times> bytes option list) option" where
  "referral_ns al buf referral 0 pos k ns = Some (True, ns)"
| "referral_ns al buf referral (Suc n) pos k ns =
     do { x \<leftarrow> read_record al buf pos;
          case x of None \<Rightarrow> Some (False, ns)
          | Some (p, t1, header) \<Rightarrow>
            do { eq \<leftarrow> dns_domain_equal referral t1;
                 if eq \<and> typematch header DNS_T_NS \<and> type_eq (drop 2 header) DNS_C_IN \<and> k < QUERY_MAXNS
                 then do { old \<leftarrow> ld ns k;
                           (r, new) \<leftarrow> dns_packet_getname al buf p old;
                           ns \<leftarrow> st ns k new;
                           if r = 0 then Some (False, ns)
                           else referral_ns al buf referral n (p + u16_at header 8) (k + 1) ns }
                 else referral_ns al buf referral n (p + u16_at header 8) k ns } }"

definition follow_referral :: "'w env \<Rightarrow> bytes \<Rightarrow> bytes \<Rightarrow> answer \<Rightarrow> query \<Rightarrow> 'w globals \<Rightarrow> 'w result" where
  "follow_referral e buf d a z g =
     do { referral \<leftarrow> s_referral (a_scan a);
          inside \<leftarrow> dns_domain_suffix d referral;
          if \<not> inside then Some (Goto DIE, z, g)
          else if flagforwardonly g then do { z \<leftarrow> drop_server z; Some (Goto HAVENS, z, g) }
          else do {
            i \<leftarrow> dns_domain_suffixpos d referral;
            z \<leftarrow> set_control (drop i d) z;
            z \<leftarrow> set_servers (replicate 256 0) z;
            z \<leftarrow> set_havekeys False z;
            z \<leftarrow> free_ns z;
            ns \<leftarrow> ld (q_ns z) (q_level z);
            (ok, ns) \<leftarrow> referral_ns (e_alloc e) buf referral (a_numauthority a) (a_posauthority a) 0 ns;
            z \<leftarrow> set_ns ns z;
            Some (Goto (if ok then HAVENS else DIE), z, g) } }"

definition conclude :: "'w env \<Rightarrow> bytes \<Rightarrow> bytes \<Rightarrow> bytes \<Rightarrow> answer \<Rightarrow> query \<Rightarrow> 'w globals \<Rightarrow> 'w result" where
  "conclude e buf d dtype a z g =
     (let s = a_scan a in
      case s_cname s of
        Some cn \<Rightarrow> Some (Goto (CNAME cn (s_cnamettl s)), z, g)
      | None \<Rightarrow>
        if a_rcode a = 3
        then do { g \<leftarrow> cachegeneric e DNS_T_ANY d [] (of_int (s_soattl s)) 0 g; Some (Goto NXDOMAIN, z, g) }
        else
          let nodata = (\<not> s_out s \<and> s_soa s \<and> \<not> type_eq DNS_T_ANY dtype \<and> \<not> type_eq DNS_T_AXFR dtype \<and> \<not> type_eq DNS_T_CNAME dtype)
          in do {
            g \<leftarrow> (if nodata then save_finish e dtype d (of_int (s_soattl s)) 0 save_start g else Some g);
            if nodata \<and> q_level z \<noteq> 0 \<and> type_eq DNS_T_A dtype
            then do { z \<leftarrow> set_ipv6 True z; Some (Goto NEWNAME, z, g) }
            else if s_out s \<or> s_soa s \<or> s_referral s = None
            then if q_level z \<noteq> 0
              then do { key \<leftarrow> findkey d;
                        (ok, z) \<leftarrow> learn_servers (e_alloc e) buf d key g (a_numanswers a) (a_posanswers a) z;
                        Some (Goto (if ok then LOWERLEVEL else DIE), z, g) }
              else give_answer e buf d dtype a z g
            else follow_referral e buf d a z g })"

definition count_tx :: "bytes \<Rightarrow> 'w globals \<Rightarrow> 'w globals" where
  "count_tx ip g = (if server_type ip = XSOCKET_V4 then g\<lparr>tx4 := tx4 g + 1\<rparr> else g\<lparr>tx6 := tx6 g + 1\<rparr>)"

definition havepacket :: "'w env \<Rightarrow> query \<Rightarrow> 'w globals \<Rightarrow> 'w result" where
  "havepacket e z g =
     (let z = z\<lparr>q_loop := q_loop z + 1\<rparr>; al = e_alloc e in
      if q_loop z = QUERY_MAXLOOP then Some (Goto DIE, z, g)
      else do {
        p \<leftarrow> d_packet (q_dt z);
        buf \<leftarrow> rd p 0 (d_packetlen (q_dt z));
        s \<leftarrow> ld (q_servers z) (q_level z);
        ip \<leftarrow> rd s (16 * d_curserver (q_dt z)) 16;
        let g = count_tx ip g;
        control \<leftarrow> ld (q_control z) (q_level z);
        d \<leftarrow> this_name z;
        dtype \<leftarrow> this_type z;
        x \<leftarrow> digest al (minttl g) buf d dtype;
        case x of None \<Rightarrow> Some (Goto DIE, z, g)
        | Some a \<Rightarrow>
          do { l \<leftarrow> lame control a;
               if l then do { z \<leftarrow> drop_server z; Some (Goto HAVENS, z, g) }
               else let k = a_numanswers a + a_numauthority a + a_numglue a in
                 if \<not> al (8 * k) then Some (Goto DIE, z, g)
                 else do {
                   x \<leftarrow> record_positions al buf k (a_posanswers a);
                   case x of None \<Rightarrow> Some (Goto DIE, z, g)
                   | Some ps \<Rightarrow>
                     do { ps \<leftarrow> sort_records al buf ps;
                          (ok, g) \<leftarrow> save_all e buf control (if s_ns (a_scan a) then 1 else 0) (a_posauthority a) ps g;
                          if \<not> ok then Some (Goto DIE, z, g) else conclude e buf d dtype a z g } } } })"

section \<open>The whole function\<close>

definition step :: "'w env \<Rightarrow> label \<Rightarrow> query \<Rightarrow> 'w globals \<Rightarrow> 'w result" where
  "step e lb z g =
     (case lb of NEWNAME \<Rightarrow> newname e z g | HAVENS \<Rightarrow> havens e z g | LOWERLEVEL \<Rightarrow> lowerlevel e z g
      | HAVEPACKET \<Rightarrow> havepacket e z g | CNAME n ttl \<Rightarrow> cname e n ttl z g
      | NXDOMAIN \<Rightarrow> nxdomain e z g | SERVFAIL \<Rightarrow> servfail e z g | DIE \<Rightarrow> die e z g)"

text \<open>
  From a label to the return or to the call of \<open>dns_transmit_startext\<close>.  If the jumps did not end, the value would be
  \<open>None\<close>.
\<close>

partial_function (option) jumps :: "'w env \<Rightarrow> label \<Rightarrow> query \<Rightarrow> 'w globals \<Rightarrow> 'w result" where
  "jumps e lb z g =
     do { (n, z, g) \<leftarrow> step e lb z g;
          case n of Goto l \<Rightarrow> jumps e l z g | Fall \<Rightarrow> None | Ask t \<Rightarrow> Some (Ask t, z, g) | Finish r \<Rightarrow> Some (Finish r, z, g) }"

text \<open>The call of \<open>dns_transmit_startext\<close> and what follows it.\<close>

definition ask :: "'w env \<Rightarrow> bytes \<Rightarrow> query \<Rightarrow> 'w globals \<Rightarrow> (int \<times> query \<times> 'w globals) option" where
  "ask e dtype z g =
     do { s \<leftarrow> ld (q_servers z) (q_level z);
          k \<leftarrow> ld (q_keys z) (q_level z);
          c \<leftarrow> ld (q_control z) (q_level z);
          n \<leftarrow> this_name z;
          (r, dt, sys) \<leftarrow> dns_transmit_startext (e_os e) (q_dt z) s (flagforwardonly g) (flagtcponly g) (flagipv4only g)
             n dtype (Some (q_localip z)) (Some (remoteport g)) (Some k) (publickey g) (Some c) (g_sys g);
          let z = z\<lparr>q_dt := dt\<rparr>;
          let g = g\<lparr>g_sys := sys\<rparr>;
          if r = - 1 then (let (z, g) = cleanup e z g in Some (- 1, z, g)) else Some (0, z, g) }"

definition doit_from :: "'w env \<Rightarrow> label \<Rightarrow> query \<Rightarrow> 'w globals \<Rightarrow> (int \<times> query \<times> 'w globals) option" where
  "doit_from e lb z g =
     do { (n, z, g) \<leftarrow> jumps e lb z g;
          case n of Ask dtype \<Rightarrow> ask e dtype z g | Finish r \<Rightarrow> Some (r, z, g) | _ \<Rightarrow> None }"

text \<open>The argument \<open>state\<close> of \<open>doit\<close> is 0, 1 or \<open>- 1\<close>; for \<open>- 1\<close> the failure is remembered for ten seconds.\<close>

definition doit :: "'w env \<Rightarrow> int \<Rightarrow> query \<Rightarrow> 'w globals \<Rightarrow> (int \<times> query \<times> 'w globals) option" where
  "doit e state z g =
     (let g = g\<lparr>g_sys := set_errno (e_os e) EIO (g_sys g)\<rparr> in
      if state = 1 then doit_from e HAVEPACKET z g
      else if state = - 1
      then do { n \<leftarrow> this_name z;
                g \<leftarrow> cachegeneric2 e DNS_T_AXFR (q_type z) n [] 10 0 g;
                doit_from e SERVFAIL z g }
      else doit_from e NEWNAME z g)"

definition query_start :: "'w env \<Rightarrow> query \<Rightarrow> bytes \<Rightarrow> bytes \<Rightarrow> bytes \<Rightarrow> bytes \<Rightarrow> 'w globals \<Rightarrow> (int \<times> query \<times> 'w globals) option" where
  "query_start e z dn type class localip g =
     (if type_eq type DNS_T_AXFR then Some (- 1, z, g\<lparr>g_sys := set_errno (e_os e) (Eother 1) (g_sys g)\<rparr>)
      else let (z, g) = cleanup e z g; z = z\<lparr>q_level := 0, q_loop := 0\<rparr> in do {
        old \<leftarrow> ld (q_name z) 0;
        (ok, new) \<leftarrow> dns_domain_copy (e_alloc e) old dn;
        names \<leftarrow> st (q_name z) 0 new;
        let z = z\<lparr>q_name := names\<rparr>;
        if \<not> ok then Some (- 1, z, g)
        else do {
          v6 \<leftarrow> st (q_ipv6 z) 0 False;
          doit e 0 (z\<lparr>q_type := take 2 type, q_class := take 2 class, q_localip := take 32 localip, q_ipv6 := v6\<rparr>) g } })"

definition query_get :: "'w env \<Rightarrow> query \<Rightarrow> bool \<Rightarrow> int \<Rightarrow> 'w globals \<Rightarrow> (int \<times> query \<times> 'w globals) option" where
  "query_get e z revents stamp g =
     do { (r, dt, sys) \<leftarrow> dns_transmit_get (e_os e) (q_dt z) revents stamp (g_sys g);
          let z = z\<lparr>q_dt := dt\<rparr>;
          let g = g\<lparr>g_sys := sys\<rparr>;
          if r = 1 then doit e 1 z g else if r = - 1 then doit e (- 1) z g else Some (0, z, g) }"

definition query_io :: "query \<Rightarrow> int \<Rightarrow> int \<times> poll_event option \<times> int" where
  "query_io z deadline = dns_transmit_io (q_dt z) deadline"

end
