(* ===== verification/ResponseSafe.thy ===== *)
theory ResponseSafe
  imports Response
begin

section \<open>The response operations stay in their buffer\<close>

text \<open>
  For a caller that adds whatever names and data come in: no operation of \<open>dq/response.c\<close> on names of valid
  labels leaves its buffers, whether there is room or not, and they keep a weak invariant.
\<close>

definition resp_safe :: "resp \<Rightarrow> bool" where
  "resp_safe r \<longleftrightarrow> resp_wf r \<and> (\<forall>row \<in> set (names r). \<exists>ms. name_row ms row)"

text \<open>An operation that may fail; one that is used between \<open>response_rstart\<close> and \<open>response_rfinish\<close>.\<close>

definition resp_op :: "(resp \<Rightarrow> (bool \<times> resp) option) \<Rightarrow> bool" where
  "resp_op f \<longleftrightarrow> (\<forall>r. resp_safe r \<longrightarrow> (\<exists>ok r'. f r = Some (ok, r') \<and> resp_safe r'))"

definition resp_body :: "(resp \<Rightarrow> (bool \<times> resp) option) \<Rightarrow> bool" where
  "resp_body f \<longleftrightarrow> (\<forall>r. resp_safe r \<longrightarrow>
     (\<exists>ok r'. f r = Some (ok, r') \<and> resp_safe r' \<and> response_len r \<le> response_len r' \<and> dpos r' = dpos r))"

lemma resp_opD: "resp_op f \<Longrightarrow> resp_safe r \<Longrightarrow> \<exists>ok r'. f r = Some (ok, r') \<and> resp_safe r'"
  by (simp add: resp_op_def)

lemma resp_bodyD:
  "resp_body f \<Longrightarrow> resp_safe r \<Longrightarrow> \<exists>ok r'. f r = Some (ok, r') \<and> resp_safe r' \<and> response_len r \<le> response_len r' \<and> dpos r' = dpos r"
  by (simp add: resp_body_def)

lemma resp_body_op: "resp_body f \<Longrightarrow> resp_op f"
  unfolding resp_body_def resp_op_def by blast

lemma and_then_True: "and_then m f = Some (True, r) \<Longrightarrow> \<exists>r1. m = Some (True, r1) \<and> f r1 = Some (True, r)"
  by (auto simp: and_then_def bind_eq_Some_conv split: if_splits)

lemma resp_op_and_then:
  assumes "resp_op f" "resp_op h"
  shows "resp_op (\<lambda>r. and_then (f r) h)"
  unfolding resp_op_def
proof (intro allI impI)
  fix r assume "resp_safe r"
  then obtain ok r1 where 1: "f r = Some (ok, r1)" "resp_safe r1" using resp_opD [OF assms(1)] by blast
  then show "\<exists>ok r'. and_then (f r) h = Some (ok, r') \<and> resp_safe r'"
    using resp_opD [OF assms(2) 1(2)] by (cases ok) (auto simp: and_then_def)
qed

lemma resp_body_and_then:
  assumes "resp_body f" "resp_body h"
  shows "resp_body (\<lambda>r. and_then (f r) h)"
  unfolding resp_body_def
proof (intro allI impI)
  fix r assume "resp_safe r"
  then obtain ok r1 where 1: "f r = Some (ok, r1)" "resp_safe r1" "response_len r \<le> response_len r1" "dpos r1 = dpos r"
    using resp_bodyD [OF assms(1)] by blast
  then show "\<exists>ok r'. and_then (f r) h = Some (ok, r') \<and> resp_safe r' \<and> response_len r \<le> response_len r' \<and> dpos r' = dpos r"
    using resp_bodyD [OF assms(2) 1(2)] by (cases ok) (fastforce simp: and_then_def)+
qed

lemma resp_body_const: "resp_body (\<lambda>r. Some (ok, r))"
  by (simp add: resp_body_def)

lemma resp_safe_upd [simp]:
  "resp_safe (r\<lparr>dpos := p\<rparr>) = resp_safe r" "resp_safe (r\<lparr>tctarget := p\<rparr>) = resp_safe r" "resp_safe (r\<lparr>flaghidettl := b\<rparr>) = resp_safe r"
  by (simp_all add: resp_safe_def resp_wf_def)

lemma resp_body_bytes:
  assumes "n \<le> length x"
  shows "resp_body (\<lambda>r. response_addbytes r x (int n))"
  unfolding resp_body_def
proof (intro allI impI)
  fix r assume r: "resp_safe r"
  then have wf: "resp_wf r" by (simp add: resp_safe_def)
  have "resp_safe (appended r (take n x))" if "response_len r + n \<le> 65535"
    using r appended_wf [OF wf, of "take n x"] that assms by (simp add: resp_safe_def)
  then show "\<exists>ok r'. response_addbytes r x (int n) = Some (ok, r') \<and> resp_safe r' \<and> response_len r \<le> response_len r' \<and> dpos r' = dpos r"
    using response_addbytes_eq [OF wf assms] r by auto
qed

lemma addname_loop_safe:
  assumes "list_all is_label ls" "resp_safe r" "dlen = length (dn_of ls)"
  shows "\<exists>ok r'. response_addname_loop r (dn_of ls @ q) dlen = Some (ok, r') \<and> resp_safe r' \<and>
    response_len r \<le> response_len r' \<and> dpos r' = dpos r"
  using assms
proof (induction ls arbitrary: r dlen)
  case Nil
  then show ?case
    using resp_bodyD [OF resp_body_bytes [of 1 "0 # q"], of r] by (simp add: response_addname_loop.simps)
next
  case (Cons l ls)
  have l: "is_label l" "unat (of_nat (length l) :: byte) = length l" "(of_nat (length l) :: byte) \<noteq> 0"
    using Cons.prems(1) label_length_byte by simp_all
  let ?c = "of_nat (length l) :: byte" and ?d = "dn_of (l # ls) @ q"
  have d: "?d = ?c # (l @ dn_of ls @ q)" by simp
  have "find_name (names r) ?d = Some None \<or> (\<exists>row ms. find_name (names r) ?d = Some (Some (snd row)))"
    using find_name_spec [of "names r" "l # ls" q] Cons.prems(1,2) by (auto simp: resp_safe_def)
  then consider p where "find_name (names r) ?d = Some (Some p)" | "find_name (names r) ?d = Some None" by (elim disjE exE) auto
  then show ?case
  proof cases
    case (1 p)
    then show ?thesis
      using resp_bodyD [OF resp_body_bytes [of 2 "uint16_pack_big (of_nat (49152 + p))"] Cons.prems(2)] l(3)
      unfolding d by (subst response_addname_loop.simps) (simp add: uint16_pack_big_def)
  next
    case 2
    define r1 where "r1 = (if dlen \<le> 255 \<and> response_len r < 16384 \<and> length (names r) < NAMES
        then r\<lparr>names := names r @ [(take dlen ?d, response_len r)]\<rparr> else r)"
    have "name_row (l # ls) (take dlen ?d, response_len r)"
      using Cons.prems(1,3) by (simp only: name_row_def) simp
    then have r1: "resp_safe r1" "response_len r1 = response_len r" "dpos r1 = dpos r"
      using Cons.prems(2) by (auto simp: r1_def resp_safe_def simp del: dn_of.simps)
    have len: "unat ?c + 1 \<le> length ?d" using l(2) by simp
    obtain ok r2 where 2: "response_addbytes r1 ?d (int (unat ?c + 1)) = Some (ok, r2)" "resp_safe r2" "response_len r \<le> response_len r2" "dpos r2 = dpos r"
      using resp_bodyD [OF resp_body_bytes [OF len] r1(1)] r1(2,3) by auto
    have e: "response_addname_loop r ?d dlen =
        (if \<not> ok then Some (False, r2) else response_addname_loop r2 (dn_of ls @ q) (dlen - (unat ?c + 1)))"
      using \<open>find_name (names r) ?d = Some None\<close> 2(1) l unfolding d
      by (subst response_addname_loop.simps) (simp add: r1_def [unfolded d, symmetric] Let_def del: of_nat_Suc of_nat_add)
    have "dlen - (unat ?c + 1) = length (dn_of ls)" using Cons.prems(3) l(2) by simp
    then show ?thesis
      unfolding e using Cons.IH [of r2 "dlen - (unat ?c + 1)"] Cons.prems(1) 2 by (cases ok) (auto intro: le_trans)
  qed
qed

lemma resp_body_name: "list_all is_label ls \<Longrightarrow> resp_body (\<lambda>r. response_addname r (dn_of ls @ q))"
  using addname_loop_safe [of ls _ "length (dn_of ls)" q] by (simp add: resp_body_def response_addname_def)

lemma resp_op_query:
  assumes "list_all is_label ls" "length qtype = 2" "length qclass = 2"
  shows "resp_op (\<lambda>r. response_query r (dn_of ls @ q) qtype qclass)"
proof -
  have "resp_op (\<lambda>r. response_addbytes r qtype 2)" "resp_op (\<lambda>r. response_addbytes r qclass 2)"
    using resp_body_op [OF resp_body_bytes [of 2 qtype]] resp_body_op [OF resp_body_bytes [of 2 qclass]] assms by simp_all
  moreover have "resp_op (\<lambda>r. Some (True, r\<lparr>tctarget := response_len r\<rparr>))" by (auto simp: resp_op_def)
  moreover have "resp_op (\<lambda>r. response_addbytes (r\<lparr>response_len := 0, names := []\<rparr>) query_header 12)"
    using resp_body_op [OF resp_body_bytes [of 12 query_header]]
    by (fastforce simp: resp_op_def resp_safe_def resp_wf_def query_header_def)
  moreover have "resp_op (\<lambda>r. response_addname r (dn_of ls @ q))" using assms(1) by (intro resp_body_op resp_body_name)
  ultimately show ?thesis unfolding response_query_def by (intro resp_op_and_then)
qed

lemma rstart_safe:
  assumes "list_all is_label ls" "2 \<le> length type" "resp_safe r"
  shows "\<exists>ok r'. response_rstart r (dn_of ls @ q) type ttl = Some (ok, r') \<and> resp_safe r' \<and>
    (ok \<longrightarrow> 2 \<le> dpos r' \<and> dpos r' \<le> response_len r')"
proof -
  have body: "resp_body (\<lambda>r. and_then (response_addname r (dn_of ls @ q)) (\<lambda>r1.
     and_then (response_addbytes r1 type 2) (\<lambda>r2.
     and_then (response_addbytes r2 [0, 1] 2) (\<lambda>r3.
     and_then (response_addbytes r3 (uint32_pack_big (if flaghidettl r3 then 0 else ttl)) 4) (\<lambda>r4.
     response_addbytes r4 [0, 0] 2)))))"
  proof -
    have "resp_body (\<lambda>r. response_addbytes r type 2)" using resp_body_bytes [of 2 type] assms(2) by simp
    moreover have "resp_body (\<lambda>r. response_addbytes r [0, 1] 2)" "resp_body (\<lambda>r. response_addbytes r [0, 0] 2)"
      using resp_body_bytes [of 2 "[0, 1]"] resp_body_bytes [of 2 "[0, 0]"] by simp_all
    moreover have "resp_body (\<lambda>r. response_addbytes r (uint32_pack_big (if flaghidettl r then 0 else ttl)) 4)"
      using resp_body_bytes [of 4 "uint32_pack_big t" for t] unfolding resp_body_def by (simp add: uint32_pack_big_def)
    ultimately show ?thesis using assms(1) by (intro resp_body_and_then resp_body_name)
  qed
  obtain ok r' where r': "and_then (response_addname r (dn_of ls @ q)) (\<lambda>r1.
     and_then (response_addbytes r1 type 2) (\<lambda>r2.
     and_then (response_addbytes r2 [0, 1] 2) (\<lambda>r3.
     and_then (response_addbytes r3 (uint32_pack_big (if flaghidettl r3 then 0 else ttl)) 4) (\<lambda>r4.
     response_addbytes r4 [0, 0] 2)))) = Some (ok, r')" "resp_safe r'"
    using resp_bodyD [OF body assms(3)] by blast
  have assoc: "and_then (and_then m f) h = and_then m (\<lambda>r. and_then (f r) h)" for m :: "(bool \<times> resp) option" and f h
    by (cases m) (auto simp: and_then_def)
  have e: "response_rstart r (dn_of ls @ q) type ttl = and_then (Some (ok, r')) (\<lambda>r5. Some (True, r5\<lparr>dpos := response_len r5\<rparr>))"
    unfolding response_rstart_def r'(1) [symmetric] by (simp only: assoc)
  have len: "2 \<le> response_len r'" if ok
  proof -
    have "ok = True" using that by simp
    note r'(1) [unfolded this]
    then obtain r4 where "response_addbytes r4 [0, 0] 2 = Some (True, r')"
      by (blast dest: and_then_True)
    then show ?thesis by (auto simp: response_addbytes_def bind_eq_Some_conv split: if_splits)
  qed
  show ?thesis unfolding e using r'(2) len by (cases ok) (auto simp: and_then_def)
qed

lemma rfinish_safe:
  assumes "resp_safe r" "2 \<le> dpos r" "dpos r \<le> 65535" "x \<le> 100"
  shows "\<exists>r'. response_rfinish r x = Some r' \<and> resp_safe r'"
proof -
  have l: "length (response r) = 65535" using assms(1) by (simp add: resp_safe_def resp_wf_def)
  have "length (uint16_pack_big n) = 2" for n by (simp add: uint16_pack_big_def)
  then show ?thesis
    using assms l by (auto simp: response_rfinish_def byte_copy_at_eq st_def ld_def resp_safe_def resp_wf_def Let_def)
qed

lemma response_flags_safe: "resp_safe r \<Longrightarrow> resp_safe (response_nxdomain r)" "resp_safe r \<Longrightarrow> resp_safe (response_servfail r)"
  by (simp_all add: resp_safe_def resp_wf_def response_nxdomain_def response_servfail_def Let_def)

end
