(* ===== verification/QueryParts.thy ===== *)
theory QueryParts
  imports QueryPacket ResponseSafe
begin

section \<open>Names and records in doit\<close>

text \<open>
  The pieces of \<open>doit\<close> of \<open>dq/query.c\<close>: what is read from a packet is a valid name, and the loops that put records
  into the response stay in its buffer.
\<close>

subsection \<open>Names\<close>

definition is_dn :: "bytes \<Rightarrow> bool" where
  "is_dn t \<longleftrightarrow> (\<exists>ls. wf_name ls \<and> t = dn_of ls)"

definition dn_opt :: "bytes option \<Rightarrow> bool" where
  "dn_opt x \<longleftrightarrow> (case x of None \<Rightarrow> True | Some t \<Rightarrow> is_dn t)"

lemma dn_opt_simps [simp]: "dn_opt None" "dn_opt (Some t) = is_dn t"
  by (simp_all add: dn_opt_def)

lemma is_dnE: assumes "is_dn t" obtains ls where "wf_name ls" "list_all is_label ls" "t = dn_of ls"
  using assms by (auto simp: is_dn_def wf_name_def)

lemma wf_labels: "wf_name ls \<Longrightarrow> list_all is_label ls"
  by (simp add: wf_name_def)

lemma is_dn_length: "is_dn t \<Longrightarrow> dns_domain_length t = Some (length t) \<and> 0 < length t \<and> length t \<le> 255"
  using dns_domain_length_dn_of [of _ "[]"] length_dn_of_pos by (auto simp: is_dn_def wf_name_def)

lemma dn_equal: "is_dn s \<Longrightarrow> is_dn t \<Longrightarrow> \<exists>b. dns_domain_equal s t = Some b"
  using dns_domain_equal_dn_of [of _ _ "[]" "[]"] by (auto elim!: is_dnE)

lemma dn_suffix: "is_dn s \<Longrightarrow> is_dn t \<Longrightarrow> \<exists>b. dns_domain_suffix s t = Some b"
  using dns_domain_suffix_dn_of [of _ _ "[]" "[]"] by (auto elim!: is_dnE)

lemma dn_copy: "is_dn t \<Longrightarrow> dns_domain_copy al old t = Some (if al (length t) then (True, Some t) else (False, old))"
  using is_dn_length [of t] by (simp add: dns_domain_copy_def byte_copy_eq mem_write_def)

lemma dn_localhost: "is_dn localhost"
  unfolding is_dn_def by (rule exI [of _ "[[108, 111, 99, 97, 108, 104, 111, 115, 116]]"]) (simp add: localhost_def wf_name_def is_label_def)

lemma dn_loopback: "is_dn loopback_name"
  unfolding is_dn_def
  by (rule exI [of _ "[[49], [48], [48], [49, 50, 55], [105, 110, 45, 97, 100, 100, 114], [97, 114, 112, 97]]"])
    (simp add: loopback_name_def wf_name_def is_label_def)

lemma read_name_dn:
  obtains "read_name al buf pos = Some None"
  | p t where "read_name al buf pos = Some (Some (p, t))" "pos < p" "p \<le> length buf" "is_dn t"
      "dns_packet_getname al buf pos None = Some (p, Some t)" "dns_packet_skipname buf pos = Some p"
  by (rule read_name_cases [of al buf pos]) (auto simp: is_dn_def)

lemma read_record_dn:
  obtains "read_record al buf pos = Some None"
  | p t h where "read_record al buf pos = Some (Some (p, t, h))" "pos < p" "p \<le> length buf" "is_dn t" "length h = 10"
proof (rule read_name_dn [of al buf pos])
  assume "read_name al buf pos = Some None"
  then show thesis using that(1) by (simp add: read_record_def)
next
  fix p t assume r: "read_name al buf pos = Some (Some (p, t))" "pos < p" "is_dn t"
  show thesis
  proof (cases "p + 10 \<le> length buf")
    case True
    then show thesis using that(2) r by (simp add: read_record_def read_bytes_eq)
  next
    case False
    then show thesis using that(1) r by (simp add: read_record_def read_bytes_eq)
  qed
qed

subsection \<open>Records of a response\<close>

lemma resp_op_rr:
  assumes "list_all is_label ls" "2 \<le> length type" "resp_body body" "sect \<le> 100"
  shows "resp_op (put_rr (dn_of ls @ q) type ttl body sect)"
  unfolding resp_op_def
proof (intro allI impI)
  fix r assume "resp_safe r"
  then obtain ok r1 where 1: "response_rstart r (dn_of ls @ q) (take 2 type) (of_int ttl) = Some (ok, r1)" "resp_safe r1"
      "ok \<longrightarrow> 2 \<le> dpos r1 \<and> dpos r1 \<le> response_len r1"
    using rstart_safe [of ls "take 2 type" r q "of_int ttl"] assms(1,2) by auto
  obtain ok2 r2 where 2: "body r1 = Some (ok2, r2)" "resp_safe r2" "response_len r1 \<le> response_len r2" "dpos r2 = dpos r1"
    using resp_bodyD [OF assms(3) 1(2)] by blast
  have "response_len r2 \<le> 65535" using 2(2) by (simp add: resp_safe_def resp_wf_def)
  then have "\<exists>r'. response_rfinish r2 sect = Some r' \<and> resp_safe r'" if ok
    using rfinish_safe [OF 2(2) _ _ assms(4)] 1(3) 2(3,4) that by simp
  then show "\<exists>ok r'. put_rr (dn_of ls @ q) type ttl body sect r = Some (ok, r') \<and> resp_safe r'"
    using 1 2 by (cases ok; cases ok2) (auto simp: put_rr_def and_then_def)
qed

lemma resp_op_cname:
  assumes "list_all is_label ls" "list_all is_label ms"
  shows "resp_op (\<lambda>r. response_cname r (dn_of ls @ q) (dn_of ms @ q') ttl)"
proof -
  have "response_cname r (dn_of ls @ q) (dn_of ms @ q') ttl =
      put_rr (dn_of ls @ q) [0, 5] (uint ttl) (\<lambda>r. response_addname r (dn_of ms @ q')) RESPONSE_ANSWER r" for r
    by (simp add: response_cname_def put_rr_def)
  then show ?thesis
    using resp_op_rr [OF assms(1), of "[0, 5]" "\<lambda>r. response_addname r (dn_of ms @ q')" RESPONSE_ANSWER q "uint ttl"] resp_body_name [OF assms(2)]
    by (simp add: RESPONSE_ANSWER_def)
qed


lemma resp_op_rr_dn: "is_dn d \<Longrightarrow> 2 \<le> length type \<Longrightarrow> resp_body body \<Longrightarrow> sect \<le> 100 \<Longrightarrow> resp_op (put_rr d type ttl body sect)"
  using resp_op_rr [of _ type body sect "[]" ttl] by (auto elim!: is_dnE)

lemma resp_body_put: "resp_body (put_bytes b)" "is_dn t \<Longrightarrow> resp_body (put_name t)"
  using resp_body_bytes [of "length b" b] resp_body_name [of _ "[]"]
  by (auto simp: put_bytes_def [abs_def] put_name_def [abs_def] elim!: is_dnE)

lemma sections: "RESPONSE_ANSWER \<le> 100" "RESPONSE_AUTHORITY \<le> 100"
  by (simp_all add: RESPONSE_ANSWER_def RESPONSE_AUTHORITY_def)

lemma type_lengths [simp]:
  "length DNS_T_A = 2" "length DNS_T_NS = 2" "length DNS_T_CNAME = 2" "length DNS_T_SOA = 2" "length DNS_T_PTR = 2"
  "length DNS_T_MX = 2" "length DNS_T_AAAA = 2" "length DNS_T_AXFR = 2" "length DNS_T_ANY = 2" "length DNS_C_IN = 2"
  by (simp_all add: type_defs)

lemma resp_op_loop:
  assumes "resp_op f" "resp_op h"
  shows "resp_op (\<lambda>r. do { (ok, r) \<leftarrow> f r; if \<not> ok then Some (False, r) else h r })"
  using resp_op_and_then [OF assms] by (simp add: and_then_def)

lemma resp_op_const: "resp_op (\<lambda>r. Some (ok, r))"
  by (auto simp: resp_op_def)

lemma resp_op_if: "resp_op f \<Longrightarrow> resp_op (\<lambda>r. if c then f r else Some (True, r))"
  using resp_op_const [of True] by (cases c) simp_all

lemma resp_op_names: "is_dn d \<Longrightarrow> 2 \<le> length type \<Longrightarrow> sect \<le> 100 \<Longrightarrow> resp_op (put_names al d type ttl sect data pos)"
proof (induction "length data - pos" arbitrary: pos rule: less_induct)
  case less
  show ?case
  proof (rule read_name_dn [of al data pos])
    assume "read_name al data pos = Some None"
    then show ?thesis by (simp add: put_names.simps [abs_def] resp_op_const)
  next
    fix p t assume r: "read_name al data pos = Some (Some (p, t))" "pos < p" "p \<le> length data" "is_dn t"
    have "resp_op (put_names al d type ttl sect data p)" using less r by simp
    then show ?thesis
      using r less.prems by (subst put_names.simps [abs_def]) (simp add: resp_op_loop resp_op_rr_dn resp_body_put)
  qed
qed

lemma resp_op_mx: "is_dn d \<Longrightarrow> resp_op (put_mx al d ttl data pos)"
proof (induction "length data - pos" arbitrary: pos rule: less_induct)
  case less
  show ?case
  proof (cases "pos + 2 \<le> length data")
    case True
    show ?thesis
    proof (rule read_name_dn [of al data "pos + 2"])
      assume "read_name al data (pos + 2) = Some None"
      then show ?thesis using True by (simp add: put_mx.simps [abs_def] read_bytes_eq resp_op_const)
    next
      fix p t assume r: "read_name al data (pos + 2) = Some (Some (p, t))" "pos + 2 < p" "p \<le> length data" "is_dn t"
      have "resp_op (put_mx al d ttl data p)" using less r by simp
      then show ?thesis
        using r True less.prems
        by (subst put_mx.simps [abs_def]) (simp add: read_bytes_eq resp_op_loop resp_op_rr_dn resp_body_put resp_body_and_then sections)
    qed
  next
    case False
    then show ?thesis by (simp add: put_mx.simps [abs_def] read_bytes_eq resp_op_const)
  qed
qed

lemma resp_op_soa: "is_dn d \<Longrightarrow> resp_op (put_soa al d ttl data pos)"
proof (induction "length data - pos" arbitrary: pos rule: less_induct)
  case less
  show ?case
  proof (cases "pos + 20 \<le> length data")
    case True
    show ?thesis
    proof (rule read_name_dn [of al data "pos + 20"])
      assume "read_name al data (pos + 20) = Some None"
      then show ?thesis using True by (simp add: put_soa.simps [abs_def] read_bytes_eq resp_op_const)
    next
      fix p t assume r: "read_name al data (pos + 20) = Some (Some (p, t))" "pos + 20 < p" "p \<le> length data" "is_dn t"
      show ?thesis
      proof (rule read_name_dn [of al data p])
        assume "read_name al data p = Some None"
        then show ?thesis using True r by (simp add: put_soa.simps [abs_def] read_bytes_eq resp_op_const)
      next
        fix p' t' assume r': "read_name al data p = Some (Some (p', t'))" "p < p'" "p' \<le> length data" "is_dn t'"
        have "resp_op (put_soa al d ttl data p')" using less r r' by simp
        then show ?thesis
          using r r' True less.prems
          by (subst put_soa.simps [abs_def]) (simp add: read_bytes_eq resp_op_loop resp_op_rr_dn resp_body_put resp_body_and_then sections)
      qed
    qed
  next
    case False
    then show ?thesis by (simp add: put_soa.simps [abs_def] read_bytes_eq resp_op_const)
  qed
qed

lemma resp_op_addresses: "is_dn d \<Longrightarrow> 2 \<le> length type \<Longrightarrow> resp_op (put_addresses d type ttl n data)"
proof (induction "length data" arbitrary: data rule: less_induct)
  case less
  show ?case
  proof (cases "length data < n \<or> n = 0")
    case True
    then show ?thesis by (subst put_addresses.simps [abs_def]) (auto simp: resp_op_const)
  next
    case False
    then have "length (drop n data) < length data" by auto
    then have "resp_op (put_addresses d type ttl n (drop n data))" using less by blast
    then show ?thesis
      using False less.prems by (subst put_addresses.simps [abs_def]) (simp add: resp_op_loop resp_op_rr_dn resp_body_put sections)
  qed
qed

lemma resp_op_others: "is_dn d \<Longrightarrow> 2 \<le> length type \<Longrightarrow> resp_op (put_others d type ttl data)"
proof (induction "length data" arbitrary: data rule: less_induct)
  case less
  show ?case
  proof (cases "length data < 2 \<or> u16_at data 0 > length (drop 2 data)")
    case True
    then show ?thesis by (cases "length data < 2") (simp_all add: put_others.simps [abs_def] resp_op_const)
  next
    case False
    then have "length (drop (u16_at data 0) (drop 2 data)) < length data" by auto
    then have "resp_op (put_others d type ttl (drop (u16_at data 0) (drop 2 data)))" using less by blast
    then show ?thesis
      using False less.prems
      by (subst put_others.simps [abs_def]) (simp add: resp_op_loop resp_op_rr_dn resp_body_put sections Let_def del: drop_drop)
  qed
qed

lemma resp_body_read_name:
  assumes "\<And>p. resp_body (f p)"
  shows "resp_body (put_read_name al buf p f)"
proof (rule read_name_dn [of al buf p])
  assume "read_name al buf p = Some None"
  then show ?thesis by (simp add: put_read_name_def [abs_def] resp_body_const)
next
  fix p' t assume "read_name al buf p = Some (Some (p', t))" "is_dn t"
  then show ?thesis using assms by (simp add: put_read_name_def [abs_def] resp_body_and_then resp_body_put)
qed

lemma resp_body_read_bytes:
  assumes "\<And>p. resp_body (f p)"
  shows "resp_body (put_read_bytes buf p n f)"
  using assms by (simp add: put_read_bytes_def [abs_def] read_bytes_eq resp_body_const resp_body_and_then resp_body_put)

lemma resp_body_end: "resp_body (put_end p)"
  by (simp add: put_end_def [abs_def] resp_body_const)

lemma resp_body_answer: "resp_body (answer_body al buf header p)"
  unfolding answer_body_def
  by (simp add: rd_def not_less resp_body_read_name resp_body_read_bytes resp_body_end resp_body_const resp_body_put)

lemma resp_op_answers: "is_dn d \<Longrightarrow> resp_op (put_answers al mt buf d dtype n pos)"
proof (induction n arbitrary: pos)
  case 0
  then show ?case by (simp add: resp_op_const put_answers.simps [abs_def])
next
  case (Suc n)
  show ?case
  proof (rule read_record_dn [of al buf pos])
    assume "read_record al buf pos = Some None"
    then show ?thesis by (simp add: put_answers.simps [abs_def] resp_op_const)
  next
    fix p t h assume r: "read_record al buf pos = Some (Some (p, t, h))" "is_dn t" "length h = 10"
    obtain b where b: "dns_domain_equal t d = Some b" using dn_equal [OF r(2) Suc.prems] by blast
    have "resp_op (put_rr t h ttl (answer_body al buf h p) RESPONSE_ANSWER)" for ttl
      using r by (intro resp_op_rr_dn resp_body_answer sections) simp_all
    then show ?thesis
      using Suc r b by (simp add: put_answers.simps [abs_def] resp_op_loop resp_op_if)
  qed
qed

lemma resp_op_authority: "is_dn d \<Longrightarrow> resp_op (put_authority al mt buf d n pos)"
proof (induction n arbitrary: pos)
  case 0
  then show ?case by (simp add: resp_op_const put_authority.simps [abs_def])
next
  case (Suc n)
  show ?case
  proof (rule read_record_dn [of al buf pos])
    assume "read_record al buf pos = Some None"
    then show ?thesis by (simp add: put_authority.simps [abs_def] resp_op_const)
  next
    fix p t h assume r: "read_record al buf pos = Some (Some (p, t, h))" "is_dn t" "length h = 10"
    obtain b where b: "dns_domain_equal t d = Some b" using dn_equal [OF r(2) Suc.prems] by blast
    have "resp_op (put_rr t h ttl (put_read_name al buf p put_end) RESPONSE_AUTHORITY)" for ttl
      using r by (intro resp_op_rr_dn resp_body_read_name resp_body_end sections) simp_all
    then show ?thesis
      using Suc r b by (simp add: put_authority.simps [abs_def] resp_op_loop resp_op_if)
  qed
qed

end
