(* ===== verification/Spec2Isabelle.thy ===== *)
theory Spec2Isabelle
  imports CacheRun Response IpText Base32 Secretbox DnsSort CurveLink CurveRun QueryParts
begin

section \<open>tinydnssec: DNS data structures, the resolver cache, DNSCurve and its transmissions\<close>

text \<open>
  This is a verification development for \<open>tinydnssec-x\<close>: the DNS programs of djbdns with DNSSEC and
  DNSCurve.  It models the resolver side, \<open>dq-20161210\<close> (the libraries under \<open>dq/\<close> and \<open>crypto/\<close>),
  and the forwarder \<open>curvedns-0.88\<close> with the NaCl
  reference code it links.

  \<^bold>\<open>How C is modelled.\<close>  A byte buffer is a \<open>bytes\<close> list, a pointer into it a position, a name or a string
  the list of its bytes.  \<open>None\<close> is undefined behaviour (an access outside an object), so that a theorem of the form
  \<open>f x = Some y\<close> also says that the code stays inside its objects.  Loads and stores in packets, in buffers and in arrays that are
  filled while input is read go through checked functions (\<open>ld\<close>, \<open>st\<close>, \<open>push\<close>, \<open>rd\<close>, \<open>wr\<close>, \<open>peek\<close>, \<open>poke\<close>, \<open>key_ptr\<close> and those of
  \<open>ByteOps\<close>) or behind an explicit test in the model.  Not checked are arrays of a fixed size that the code indexes below that size by
  construction: the state words, limbs, keys and constant tables of the cryptographic and base-32 code, the padded messages of
  \<open>secretbox\<close>, the sixteen addresses of a list of servers, the octets of an address, the twelve bytes at the head of a response.
  Error returns are values of the result.  Integers are words where they may wrap (hashes, limbs,
  counters, packed fields), natural numbers or integers where a lemma or the size of the object bounds them.  Static variables
  and structures are records; \<open>randombytes\<close>, clocks, the allocator, sockets, files and \<open>inet_pton\<close> are parameters,
  and what is assumed of them is written in the theorems (\<open>os_ok\<close>: buffers of the size asked for).

  \<^bold>\<open>Theories\<close> (each names its source files at its head):
  \<^item> \<open>Prelude\<close>: types, checked access, list slices, the locales \<open>codec\<close> (a printer with its parser) and
    \<open>byte_sink\<close> (an object bytes are appended to).
  \<^item> \<open>ByteOps\<close>, \<open>NumText\<close>, \<open>Base32\<close>, \<open>IpText\<close>, \<open>Stralloc\<close>: primitives, numbers, ports, hexadecimal, base 32 and
    addresses as text, growable strings.  Their theorems are round trips, exact results and the defects of the parsers.
  \<^item> \<open>DnsDomain\<close>, \<open>DnsPacket\<close>, \<open>Response\<close>: names, compressed names in packets (the relation \<open>name_at\<close> is their
    meaning), construction of responses with the compression table as state.
  \<^item> \<open>Siphash\<close>, \<open>Cache\<close>, \<open>CacheRun\<close>: the hash and the resolver's cache, a ring of bytes with buckets of
    XOR-linked chains, refined to a list of entries over arbitrary runs; dump and load.
  \<^item> \<open>Fe25519\<close>, \<open>Curve25519\<close>, \<open>NaclCurve\<close>, \<open>Salsa\<close>, \<open>Poly1305\<close>, \<open>NaclPoly\<close>, \<open>Secretbox\<close>: the cryptography of both
    programs, shown equal to the integer specification and to each other.
  \<^item> \<open>DnsNonce\<close>, \<open>DnsSort\<close>: nonces, random numbers, the order of the servers.
  \<^item> \<open>DnsQuery\<close>, \<open>DnsAnswer\<close>, \<open>DnsTransmit\<close>, \<open>TransmitRun\<close>, \<open>TransmitProps\<close>: \<open>dq/dns_transmit.c\<close>, the queries in three
    forms, the acceptance of answers, the state machine over UDP and TCP, its invariant and whole runs.
  \<^item> \<open>Roots\<close>, \<open>QuerySort\<close>, \<open>Query\<close>, \<open>Doit\<close>, \<open>QueryPacket\<close>: the resolver \<open>dq/query.c\<close> with the configured
    servers of \<open>dq/roots.c\<close>: the labels of \<open>doit\<close> as the values of a datatype, each block as a definition.
    \<open>ResponseSafe\<close>, \<open>QueryParts\<close>: what its blocks do with names, records and the response.
  \<^item> \<open>CurveCache\<close>, \<open>CurveMisc\<close>: the table of shared secrets of curvedns, linked three ways and refined to a bounded
    queue, and its coding of keys and names, random numbers and nonces.
  \<^item> \<open>CurvePacket\<close>, \<open>CurveServe\<close>, \<open>CurveTxt\<close>, \<open>CurveSafe\<close>, \<open>CurveLink\<close>: the forwarder \<open>dnscurve.c\<close>, \<open>dns.c\<close> and the handlers
    for packets of \<open>event_udp.c\<close>; lemmas on the streamlined and the TXT form; that no query leaves its arrays, and where long packets do;
    the round trip from \<open>makequery\<close> of dq through curvedns to \<open>getquery\<close>.
  \<^item> \<open>CurveEvents\<close>, \<open>CurveRun\<close>: the TCP connections and UDP retries of \<open>event_tcp.c\<close> and \<open>event_udp.c\<close> as a
    state machine, what it can reach, and that partial reads and writes do not matter.

  \<^bold>\<open>How the parts interact.\<close>  \<open>dns_transmit\<close> builds queries with \<open>DnsDomain\<close>, \<open>Base32\<close>, \<open>DnsNonce\<close> and
  \<open>Secretbox\<close> and reads answers with \<open>DnsPacket\<close>; the cache keys on \<open>Siphash\<close>; \<open>Response\<close> writes what
  \<open>DnsPacket\<close> reads.  The locales state such contracts once: \<open>field_rep\<close> and \<open>lazy_field_rep\<close> (what the ladders need of
  the field arithmetic), \<open>stream_and_mac\<close> (what secretbox needs of its parts), \<open>ip_parser\<close>, \<open>ghost_machine\<close>
  (runs of a state machine against a reference); each is interpreted on the definitions of the code.

  \<^bold>\<open>Bounds.\<close>  Loops are recursive functions with a measure, loops that may not end are
  \<open>partial_function (option)\<close>.  The only counters are those of the code: 1000 reads in \<open>dns_packet_getname\<close>, the 100
  rows of the compression table in \<open>response.c\<close>, four rounds over sixteen servers in \<open>thisudp\<close>.

  \<^bold>\<open>Not modelled.\<close>  Programs that only move data between the parts above and the system (\<open>dqcache\<close>, \<open>dq\<close>, the
  configuration and installation tools), the sockets themselves, logging and verbosity.  The walk of \<open>roots_init\<close> through the
  directory \<open>servers\<close>.  The data compiler and the lookup of \<open>tinydns\<close> rest on a constant database library that is not part of the
  repository.  Assembler and other alternative implementations of NaCl primitives that the reference code replaces are left out.
\<close>

end
